(* ===== verification/Exa_Prelude.thy ===== *)
theory Exa_Prelude
  imports Main "HOL-Library.Word" "HOL-Library.AList" "HOL-Library.Multiset"
begin

unbundle bit_operations_syntax

text \<open>
  Shared vocabulary of the development: machine integers and byte buffers, the exceptions the
  code raises, the state-and-exception functions every stateful operation is written in, and
  the lemmas on maps, words and lists that several components need.

  An operation that reads and writes the state of an object and may throw is a function of
  type \<open>('s, 'a) eff\<close>: it takes the state and returns the result (\<open>Inl\<close> an exception,
  \<open>Inr\<close> a value) \<^emph>\<open>and\<close> the state at that moment, so that the writes made before a throw
  are kept, as in C++.
\<close>

type_synonym u64 = "64 word"
type_synonym u32 = "32 word"
type_synonym bytes = "8 word list"

text \<open>
  The exceptions: \<open>ThrowStream\<close> (\<open>EXA_THROW\<close> and the \<open>EXA_THROW_CHECK\<close> macros),
  \<open>NetworkError\<close> with its \<open>remote_node_id\<close>, the standard exceptions the code throws or lets
  through, and what user code or a library may throw. The texts are the literals of the
  source, without the file, line and the values streamed into them.
\<close>

datatype exa_error =
    Throw_Stream string
  | Network_Error u64 string
  | Out_Of_Range string
  | Invalid_Argument string
  | Length_Error string
  | Bad_Variant_Access
  | Zmq_Error string
  | Codec_Error string
  | User_Error string

section \<open>State and exceptions\<close>

type_synonym ('s, 'a) eff = "'s \<Rightarrow> (exa_error + 'a) \<times> 's"

definition retE :: "'a \<Rightarrow> ('s, 'a) eff" where
  "retE a = (\<lambda>s. (Inr a, s))"

definition throwE :: "exa_error \<Rightarrow> ('s, 'a) eff" where
  "throwE e = (\<lambda>s. (Inl e, s))"

definition bindE :: "('s, 'a) eff \<Rightarrow> ('a \<Rightarrow> ('s, 'b) eff) \<Rightarrow> ('s, 'b) eff" where
  "bindE m f = (\<lambda>s. case m s of (Inl e, s') \<Rightarrow> (Inl e, s') | (Inr a, s') \<Rightarrow> f a s')"

definition thenE :: "('s, unit) eff \<Rightarrow> ('s, 'b) eff \<Rightarrow> ('s, 'b) eff" where
  "thenE m n = bindE m (\<lambda>_. n)"

definition getE :: "('s \<Rightarrow> 'a) \<Rightarrow> ('s, 'a) eff" where
  "getE f = (\<lambda>s. (Inr (f s), s))"

definition modE :: "('s \<Rightarrow> 's) \<Rightarrow> ('s, unit) eff" where
  "modE f = (\<lambda>s. (Inr (), f s))"

definition liftE :: "exa_error + 'a \<Rightarrow> ('s, 'a) eff" where
  "liftE r = (\<lambda>s. (r, s))"

text \<open>The body of a \<open>for\<close> loop over a container, run for each element in turn.\<close>

fun forE :: "('x \<Rightarrow> ('s, unit) eff) \<Rightarrow> 'x list \<Rightarrow> ('s, unit) eff" where
  "forE f [] = retE ()"
| "forE f (x # xs) = thenE (f x) (forE f xs)"

text \<open>\<open>try { m } catch (std::exception& e) { h(e) }\<close>.\<close>

definition catchE :: "('s, 'a) eff \<Rightarrow> (exa_error \<Rightarrow> ('s, 'a) eff) \<Rightarrow> ('s, 'a) eff" where
  "catchE m h = (\<lambda>s. case m s of (Inl e, s') \<Rightarrow> h e s' | (Inr a, s') \<Rightarrow> (Inr a, s'))"

text \<open>The checking macros of \<open>logging.h\<close>.\<close>

definition exa_throw :: "string \<Rightarrow> ('s, 'a) eff" where
  "exa_throw msg = throwE (Throw_Stream msg)"

definition exa_throw_check :: "bool \<Rightarrow> string \<Rightarrow> ('s, unit) eff" where
  "exa_throw_check c msg = (if \<not> c then throwE (Throw_Stream msg) else retE ())"

definition exa_throw_check_eq :: "'a \<Rightarrow> 'a \<Rightarrow> string \<Rightarrow> ('s, unit) eff" where
  "exa_throw_check_eq a b msg = (if a \<noteq> b then throwE (Throw_Stream msg) else retE ())"

definition exa_throw_check_ne :: "'a \<Rightarrow> 'a \<Rightarrow> string \<Rightarrow> ('s, unit) eff" where
  "exa_throw_check_ne a b msg = (if a = b then throwE (Throw_Stream msg) else retE ())"

definition exa_throw_check_le :: "'a::ord \<Rightarrow> 'a \<Rightarrow> string \<Rightarrow> ('s, unit) eff" where
  "exa_throw_check_le a b msg = (if a > b then throwE (Throw_Stream msg) else retE ())"

definition exa_throw_check_lt :: "'a::ord \<Rightarrow> 'a \<Rightarrow> string \<Rightarrow> ('s, unit) eff" where
  "exa_throw_check_lt a b msg = (if a \<ge> b then throwE (Throw_Stream msg) else retE ())"

definition exa_throw_check_gt :: "'a::ord \<Rightarrow> 'a \<Rightarrow> string \<Rightarrow> ('s, unit) eff" where
  "exa_throw_check_gt a b msg = (if a \<le> b then throwE (Throw_Stream msg) else retE ())"

lemmas eff_defs = retE_def throwE_def bindE_def thenE_def getE_def modE_def liftE_def
  catchE_def exa_throw_def exa_throw_check_def exa_throw_check_eq_def exa_throw_check_ne_def
  exa_throw_check_le_def exa_throw_check_lt_def exa_throw_check_gt_def

lemma bindE_retE [simp]: "bindE (retE a) f = f a"
  by (simp add: bindE_def retE_def)

lemma bindE_throwE [simp]: "bindE (throwE e) f = throwE e"
  by (simp add: bindE_def throwE_def)

lemma thenE_retE [simp]: "thenE (retE ()) n = n"
  by (simp add: thenE_def)

lemma thenE_throwE [simp]: "thenE (throwE e) n = throwE e"
  by (simp add: thenE_def)

lemma bindE_Inr:
  "m s = (Inr a, s') \<Longrightarrow> bindE m f s = f a s'"
  by (simp add: bindE_def)

lemma bindE_Inl:
  "m s = (Inl e, s') \<Longrightarrow> bindE m f s = (Inl e, s')"
  by (simp add: bindE_def)

text \<open>
  Calls that may throw but keep no state: their result is a sum, \<open>bindR\<close> sequences two of
  them and \<open>checkR\<close> is \<open>EXA_THROW_CHECK\<close>.
\<close>

definition bindR :: "exa_error + 'a \<Rightarrow> ('a \<Rightarrow> exa_error + 'b) \<Rightarrow> exa_error + 'b" where
  "bindR m f = (case m of Inl e \<Rightarrow> Inl e | Inr a \<Rightarrow> f a)"

definition checkR :: "bool \<Rightarrow> string \<Rightarrow> exa_error + unit" where
  "checkR c msg = (if \<not> c then Inl (Throw_Stream msg) else Inr ())"

lemma bindR_simps [simp]: "bindR (Inl e) f = Inl e" "bindR (Inr a) f = f a"
  by (simp_all add: bindR_def)

lemma checkR_simps [simp]: "checkR True msg = Inr ()" "checkR False msg = Inl (Throw_Stream msg)"
  by (simp_all add: checkR_def)

lemma bindR_Inr_iff: "bindR m f = Inr b \<longleftrightarrow> (\<exists>a. m = Inr a \<and> f a = Inr b)"
  by (cases m) simp_all

lemma checkR_Inr_iff [simp]: "checkR c msg = Inr u \<longleftrightarrow> c"
  by (simp add: checkR_def)

section \<open>Preservation\<close>

text \<open>
  \<open>preserves P m\<close>: whatever \<open>m\<close> returns or throws, it keeps \<open>P\<close>. The rules in
  \<open>preserves_intros\<close> take an operation apart along its structure.
\<close>

named_theorems preserves_intros

definition preserves :: "('s \<Rightarrow> bool) \<Rightarrow> ('s, 'a) eff \<Rightarrow> bool" where
  "preserves P m \<longleftrightarrow> (\<forall>s r s'. P s \<longrightarrow> m s = (r, s') \<longrightarrow> P s')"

lemma preservesI: "(\<And>s r s'. P s \<Longrightarrow> m s = (r, s') \<Longrightarrow> P s') \<Longrightarrow> preserves P m"
  by (auto simp: preserves_def)

lemma preservesD: "preserves P m \<Longrightarrow> P s \<Longrightarrow> m s = (r, s') \<Longrightarrow> P s'"
  by (auto simp: preserves_def)

lemma preserves_snd: "preserves P m \<Longrightarrow> P s \<Longrightarrow> P (snd (m s))"
  by (cases "m s") (auto simp: preserves_def)

lemma preserves_retE [preserves_intros]: "preserves P (retE a)"
  by (simp add: preserves_def retE_def)

lemma preserves_throwE [preserves_intros]: "preserves P (throwE e)"
  by (simp add: preserves_def throwE_def)

lemma preserves_getE [preserves_intros]: "preserves P (getE f)"
  by (simp add: preserves_def getE_def)

lemma preserves_liftE [preserves_intros]: "preserves P (liftE r)"
  by (simp add: preserves_def liftE_def)

lemma preserves_bindE [preserves_intros]:
  assumes m: "preserves P m" and f: "\<And>a. preserves P (f a)"
  shows "preserves P (bindE m f)"
proof (rule preservesI)
  fix s r s'
  assume s: "P s" and run: "bindE m f s = (r, s')"
  obtain r1 s1 where ms: "m s = (r1, s1)" by fastforce
  have "P s1" using preservesD [OF m s ms] .
  then show "P s'"
    using run ms preservesD [OF f] by (cases r1) (auto simp: bindE_def)
qed

lemma preserves_thenE [preserves_intros]:
  "preserves P m \<Longrightarrow> preserves P n \<Longrightarrow> preserves P (thenE m n)"
  by (simp add: thenE_def preserves_bindE)

lemma preserves_catchE [preserves_intros]:
  assumes m: "preserves P m" and h: "\<And>e. preserves P (h e)"
  shows "preserves P (catchE m h)"
proof (rule preservesI)
  fix s r s'
  assume s: "P s" and run: "catchE m h s = (r, s')"
  obtain r1 s1 where ms: "m s = (r1, s1)" by fastforce
  have "P s1" using preservesD [OF m s ms] .
  then show "P s'"
    using run ms preservesD [OF h] by (cases r1) (auto simp: catchE_def)
qed

lemma preserves_forE [preserves_intros]:
  "(\<And>x. preserves P (f x)) \<Longrightarrow> preserves P (forE f xs)"
  by (induction xs) (auto intro: preserves_intros)

lemma preserves_if [preserves_intros]:
  "(c \<Longrightarrow> preserves P m) \<Longrightarrow> (\<not> c \<Longrightarrow> preserves P n) \<Longrightarrow> preserves P (if c then m else n)"
  by simp

lemma preserves_case_option [preserves_intros]:
  "(x = None \<Longrightarrow> preserves P m) \<Longrightarrow> (\<And>v. x = Some v \<Longrightarrow> preserves P (f v)) \<Longrightarrow>
   preserves P (case x of None \<Rightarrow> m | Some v \<Rightarrow> f v)"
  by (cases x) auto

lemma preserves_checks [preserves_intros]:
  "preserves P (exa_throw msg)"
  "preserves P (exa_throw_check c msg)"
  "preserves P (exa_throw_check_eq a b msg)"
  "preserves P (exa_throw_check_ne a b msg)"
  "preserves P (exa_throw_check_le x y msg)"
  "preserves P (exa_throw_check_lt x y msg)"
  "preserves P (exa_throw_check_gt x y msg)"
  by (auto simp: exa_throw_def exa_throw_check_def exa_throw_check_eq_def exa_throw_check_ne_def
      exa_throw_check_le_def exa_throw_check_lt_def exa_throw_check_gt_def intro: preserves_intros)

lemma preserves_modE [preserves_intros]: "(\<And>s. P s \<Longrightarrow> P (f s)) \<Longrightarrow> preserves P (modE f)"
  by (simp add: preserves_def modE_def)

lemma forE_append: "forE f (xs @ ys) = thenE (forE f xs) (forE f ys)"
  by (induction xs)
    (simp_all add: thenE_def bindE_def retE_def fun_eq_iff split: prod.splits sum.splits)

section \<open>Hash maps\<close>

text \<open>
  A \<open>std::unordered_map\<close> is an association list with distinct keys; the order of the list
  is the order an iteration visits, which the standard leaves open. \<open>MapAt\<close> is the checked
  lookup of \<open>util.h\<close>.
\<close>

type_synonym ('k, 'v) hmap = "('k \<times> 'v) list"

definition hm_ok :: "('k, 'v) hmap \<Rightarrow> bool" where
  "hm_ok m \<longleftrightarrow> distinct (map fst m)"

definition hm_contains :: "('k, 'v) hmap \<Rightarrow> 'k \<Rightarrow> bool" where
  "hm_contains m k \<longleftrightarrow> map_of m k \<noteq> None"

definition MapAt :: "('k, 'v) hmap \<Rightarrow> 'k \<Rightarrow> exa_error + 'v" where
  "MapAt m k = (case map_of m k of
      None \<Rightarrow> Inl (Out_Of_Range ''map key not found'')
    | Some v \<Rightarrow> Inr v)"

lemma hm_ok_Nil [simp]: "hm_ok []"
  by (simp add: hm_ok_def)

lemma hm_ok_update [simp, intro]: "hm_ok m \<Longrightarrow> hm_ok (AList.update k v m)"
  by (simp add: hm_ok_def distinct_update)

lemma hm_ok_delete [simp, intro]: "hm_ok m \<Longrightarrow> hm_ok (AList.delete k m)"
  by (simp add: hm_ok_def distinct_delete)

lemma map_of_update [simp]: "map_of (AList.update k v m) = (map_of m)(k \<mapsto> v)"
  by (rule update_conv')

lemma map_of_delete [simp]: "map_of (AList.delete k m) = (map_of m)(k := None)"
  by (rule delete_conv')

lemma keys_update [simp]: "fst ` set (AList.update k v m) = insert k (fst ` set m)"
  by (simp add: dom_update)

lemma hm_contains_iff: "hm_contains m k \<longleftrightarrow> k \<in> fst ` set m"
  by (metis hm_contains_def map_of_eq_None_iff)

lemma MapAt_Inr_iff: "MapAt m k = Inr v \<longleftrightarrow> map_of m k = Some v"
  by (simp add: MapAt_def split: option.splits)

lemma MapAt_total: "k \<in> dom (map_of m) \<Longrightarrow> \<exists>v. MapAt m k = Inr v \<and> map_of m k = Some v"
  by (auto simp: MapAt_def)

text \<open>Updating the value of a present key in place keeps the order and the keys.\<close>

definition hm_adjust :: "'k \<Rightarrow> ('v \<Rightarrow> 'v) \<Rightarrow> ('k, 'v) hmap \<Rightarrow> ('k, 'v) hmap" where
  "hm_adjust k f m = map (\<lambda>(k', v). (k', if k' = k then f v else v)) m"

lemma keys_adjust [simp]: "map fst (hm_adjust k f m) = map fst m"
  by (induction m) (auto simp: hm_adjust_def)

lemma hm_ok_adjust [simp, intro]: "hm_ok m \<Longrightarrow> hm_ok (hm_adjust k f m)"
  by (simp add: hm_ok_def)

lemma map_of_adjust: "map_of (hm_adjust k f m) k' =
    (if k' = k then map_option f (map_of m k') else map_of m k')"
  by (induction m) (auto simp: hm_adjust_def)

lemma dom_adjust [simp]: "dom (map_of (hm_adjust k f m)) = dom (map_of m)"
  by (auto simp: map_of_adjust split: if_splits)

lemma set_of_map_of: "hm_ok m \<Longrightarrow> (k, v) \<in> set m \<longleftrightarrow> map_of m k = Some v"
  by (simp add: hm_ok_def)

section \<open>Words and positions in a ring\<close>

lemma unat_of_nat64: "n < 2 ^ 64 \<Longrightarrow> unat (word_of_nat n :: u64) = n"
  by (simp add: unsigned_of_nat take_bit_nat_eq_self)

lemma sint_of_nat64: "n < 2 ^ 63 \<Longrightarrow> sint (word_of_nat n :: u64) = int n"
  by (simp add: signed_of_nat signed_take_bit_int_eq_self)

lemma unat_less_imp_sint: "unat w < 2 ^ 63 \<Longrightarrow> sint w = int (unat w)" for w :: u64
  using sint_of_nat64 [of "unat w"] by simp

lemma and_pred_mod:
  fixes pos cap :: u64
  assumes "unat cap = 2 ^ k" "k < 64"
  shows "unat (pos AND (cap - 1)) = unat pos mod 2 ^ k"
proof -
  have "cap = word_of_nat (unat cap)" by simp
  then have "cap = 2 ^ k" by (simp only: assms(1) of_nat_power of_nat_numeral)
  then have "pos AND (cap - 1) = take_bit k pos"
    by (simp add: take_bit_eq_mask mask_eq_exp_minus_1)
  then have "unat (pos AND (cap - 1)) = take_bit k (unat pos)"
    by (simp only: unsigned_take_bit_eq)
  then show ?thesis by (simp only: take_bit_eq_mod)
qed

lemma window_mod_inj:
  fixes p q c :: nat
  assumes "p mod c = q mod c" "lo \<le> p" "p < lo + c" "lo \<le> q" "q < lo + c"
  shows "p = q"
proof -
  have *: "a = b" if "a mod c = b mod c" "a \<le> b" "b < a + c" for a b :: nat
  proof -
    have "c dvd b - a" using that mod_eq_dvd_iff_nat by metis
    moreover have "b - a < c" using that by arith
    ultimately have "b - a = 0" by (metis nat_dvd_not_less not_gr_zero)
    with that show ?thesis by simp
  qed
  show ?thesis
    using *[of p q] *[of q p] assms by (cases "p \<le> q") auto
qed

section \<open>Activities\<close>

text \<open>
  The calls in progress on a concurrent object are a multiset of activities. An activity that
  advances is replaced by what it does next, or leaves when it is done.
\<close>

definition opt_mset :: "'a option \<Rightarrow> 'a multiset" where
  "opt_mset x = (case x of None \<Rightarrow> {#} | Some a \<Rightarrow> {#a#})"

lemma opt_mset_simps [simp]: "opt_mset None = {#}" "opt_mset (Some a) = {#a#}"
  by (simp_all add: opt_mset_def)

definition swap_act :: "'a \<Rightarrow> 'a option \<Rightarrow> 'a multiset \<Rightarrow> 'a multiset" where
  "swap_act a nxt M = M - {#a#} + opt_mset nxt"

lemma swap_act_add [simp]: "swap_act a nxt (add_mset a A) = opt_mset nxt + A"
  by (simp add: swap_act_def)

section \<open>Multisets without repetition\<close>

lemma count_absent: "n \<notin> set ns \<Longrightarrow> count (mset ns) n = 0"
  by (simp add: not_in_iff [symmetric])

lemma distinct_if_counts: "(\<And>n. count (mset ns) n \<le> 1) \<Longrightarrow> distinct ns"
proof (induction ns)
  case (Cons a ns)
  have "count (mset (a # ns)) a \<le> 1" by (rule Cons.prems)
  then have "count (mset ns) a = 0" by simp
  then have "a \<notin> set ns" by (simp add: not_in_iff [symmetric])
  moreover have "count (mset ns) n \<le> 1" for n using Cons.prems [of n] by (auto simp: count_absent \<open>a \<notin> set ns\<close> split: if_splits)
  ultimately show ?case using Cons.IH by simp
qed simp

section \<open>Linked lists\<close>

text \<open>A pointer and the links of nodes that spell a list.\<close>

fun links :: "(nat \<Rightarrow> nat option) \<Rightarrow> nat option \<Rightarrow> nat list \<Rightarrow> bool" where
  "links nx p [] \<longleftrightarrow> p = None"
| "links nx p (x # xs) \<longleftrightarrow> p = Some x \<and> links nx (nx x) xs"

lemma links_update [simp]: "a \<notin> set xs \<Longrightarrow> links (nx(a := v)) p xs = links nx p xs"
  by (induction xs arbitrary: p) auto

lemma links_unique: "links nx p xs \<Longrightarrow> links nx p ys \<Longrightarrow> xs = ys"
proof (induction xs arbitrary: p ys)
  case (Cons x xs)
  then show ?case by (cases ys) auto
next
  case Nil
  then show ?case by (cases ys) auto
qed

lemma links_cong: "(\<And>x. x \<in> set xs \<Longrightarrow> nx x = ny x) \<Longrightarrow> links nx p xs = links ny p xs"
  by (induction xs arbitrary: p) auto

lemma links_head: "links nx (Some n) xs \<Longrightarrow> \<exists>ys. xs = n # ys \<and> links nx (nx n) ys"
  by (cases xs) auto

end
