(* ===== verification/Hashing.thy ===== *)
theory Hashing
  imports Exa_Prelude
begin

text \<open>
  The compile-time hashing of \<open>reflect.h\<close>: \<open>FnvHash\<close> (64-bit FNV-1a over the bytes of a
  string), \<open>HashCombine\<close>, and the key under which a remote method handler is registered
  and looked up (\<open>ComputeRemoteMethodHandlerKey\<close>). The names of types and functions
  (\<open>__PRETTY_FUNCTION__\<close>) are byte strings that the compiler provides.
\<close>

unbundle bit_operations_syntax

definition fnv_offset :: u64 where "fnv_offset = 14695981039346656037"
definition fnv_prime :: u64 where "fnv_prime = 1099511628211"

definition fnv_step :: "u64 \<Rightarrow> 8 word \<Rightarrow> u64" where
  "fnv_step h c = (h XOR ucast c) * fnv_prime"

definition FnvHash :: "bytes \<Rightarrow> u64" where
  "FnvHash s = foldl fnv_step fnv_offset s"

definition HashCombine :: "u64 \<Rightarrow> u64 \<Rightarrow> u64" where
  "HashCombine seed value =
     seed XOR (value + 0x9e3779b97f4a7c15 + push_bit 6 seed + drop_bit 2 seed)"

definition ComputeRemoteMethodHandlerKey :: "u64 \<Rightarrow> bytes \<Rightarrow> u64" where
  "ComputeRemoteMethodHandlerKey actor_type_hash fn_name =
     (let fn_hash = FnvHash fn_name in HashCombine actor_type_hash fn_hash)"

section \<open>One step of FNV-1a loses nothing\<close>

text \<open>The prime is odd, so it has an inverse modulo \<open>2 ^ 64\<close>.\<close>

definition fnv_prime_inv :: u64 where "fnv_prime_inv = 14886173955864302971"

lemma fnv_prime_inverse: "fnv_prime * fnv_prime_inv = 1"
  by (simp add: fnv_prime_def fnv_prime_inv_def)

lemma mult_unit_cancel:
  fixes x y p q :: u64
  assumes unit: "p * q = 1"
  shows "x * p = y * p \<longleftrightarrow> x = y"
proof
  assume "x * p = y * p"
  then have "x * p * q = y * p * q" by (rule arg_cong)
  then show "x = y" by (simp only: mult.assoc unit mult_1_right)
qed (rule arg_cong)

lemmas mult_fnv_prime_cancel = mult_unit_cancel [OF fnv_prime_inverse]

lemma xor_cancel_left: "x XOR a = x XOR b \<longleftrightarrow> a = b" for x a b :: "'a::len word"
proof
  assume "x XOR a = x XOR b"
  then have "x XOR (x XOR a) = x XOR (x XOR b)" by simp
  then show "a = b" by (simp flip: xor.assoc)
qed simp

lemma xor_cancel_right: "a XOR x = b XOR x \<longleftrightarrow> a = b" for x a b :: "'a::len word"
  using xor_cancel_left [of x a b] by (simp add: xor.commute)

lemma ucast8_inj: "ucast a = (ucast b :: u64) \<longleftrightarrow> a = b" for a b :: "8 word"
proof
  assume eq: "ucast a = (ucast b :: u64)"
  show "a = b"
  proof (rule bit_word_eqI)
    fix n assume "n < LENGTH(8)"
    moreover have "bit (ucast a :: u64) n = bit (ucast b :: u64) n" using eq by simp
    ultimately show "bit a n = bit b n" by (simp add: bit_ucast_iff)
  qed
qed simp

lemma fnv_step_state_inj: "fnv_step h c = fnv_step h' c \<longleftrightarrow> h = h'"
  by (simp add: fnv_step_def mult_fnv_prime_cancel xor_cancel_right)

lemma fnv_step_char_inj: "fnv_step h c = fnv_step h c' \<longleftrightarrow> c = c'"
  by (simp add: fnv_step_def mult_fnv_prime_cancel xor_cancel_left ucast8_inj)

lemma foldl_fnv_inj: "foldl fnv_step h s = foldl fnv_step h' s \<longleftrightarrow> h = h'"
  by (induction s arbitrary: h h') (auto simp: fnv_step_state_inj)

lemma HashCombine_value_inj: "HashCombine seed v = HashCombine seed w \<longleftrightarrow> v = w"
  by (simp add: HashCombine_def xor_cancel_left)

lemma FnvHash_one_byte: "FnvHash (xs @ a # ys) = FnvHash (xs @ b # ys) \<longleftrightarrow> a = b"
  by (simp add: FnvHash_def foldl_fnv_inj fnv_step_char_inj)

text \<open>
  two remote methods of the same actor type get the same handler key only if their
  function names have the same FNV hash, and names that differ in a single byte never have
  the same FNV hash, so such methods never share a key.
\<close>

theorem handler_key_separates:
  "(ComputeRemoteMethodHandlerKey t f = ComputeRemoteMethodHandlerKey t g
      \<longleftrightarrow> FnvHash f = FnvHash g)
   \<and> (ComputeRemoteMethodHandlerKey t (xs @ a # ys) = ComputeRemoteMethodHandlerKey t (xs @ b # ys)
      \<longleftrightarrow> a = b)"
  by (simp add: ComputeRemoteMethodHandlerKey_def HashCombine_value_inj FnvHash_one_byte)

end
