(* ===== verification/Containers.thy ===== *)
theory Containers
  imports Exa_Prelude
begin

text \<open>
  The containers of \<open>container.h\<close>: the fixed-capacity buffer, the three queue types a
  mailbox can have (unbounded, one slot, bounded ring), the priority queue and the blocking
  queue of the thread pools. Each operation is one definition over the members of the class;
  the locale \<open>mailbox_queue\<close> states what \<open>MailboxSet\<close> expects of a queue type and is
  interpreted on all three. This theory treats calls one at a time: of the unbounded queue the
  interleavings are in \<open>Mpsc_Queue\<close>, of the ring in \<open>Bounded_Mpsc\<close>; the one-slot queue is for
  callers that exclude each other, and the other two hold a mutex or rest on \<open>Blocking_Queue\<close>.
\<close>

section \<open>FixedCapacityBuffer\<close>

text \<open>
  \<open>capacity_\<close> and the constructed elements \<open>storage_[0 .. size_)\<close>; \<open>size_\<close> is the length
  of the list. Reading past \<open>size_\<close> is undefined behaviour, the result \<open>None\<close>.
\<close>

record 'a fc_buffer =
  fc_capacity :: nat
  fc_elems :: "'a list"

definition FixedCapacityBuffer_new :: "nat \<Rightarrow> 'a fc_buffer" where
  "FixedCapacityBuffer_new capacity = \<lparr>fc_capacity = capacity, fc_elems = []\<rparr>"

definition FixedCapacityBuffer_EmplaceBack :: "'a \<Rightarrow> ('a fc_buffer, unit) eff" where
  "FixedCapacityBuffer_EmplaceBack x =
     bindE (getE (\<lambda>b. length (fc_elems b) < fc_capacity b)) (\<lambda>ok.
     thenE (exa_throw_check ok ''FixedCapacityBuffer is full'')
           (modE (\<lambda>b. b\<lparr>fc_elems := fc_elems b @ [x]\<rparr>)))"

definition FixedCapacityBuffer_at :: "'a fc_buffer \<Rightarrow> nat \<Rightarrow> 'a option" where
  "FixedCapacityBuffer_at b i = (if i < length (fc_elems b) then Some (fc_elems b ! i) else None)"

definition FixedCapacityBuffer_Size :: "'a fc_buffer \<Rightarrow> nat" where
  "FixedCapacityBuffer_Size b = length (fc_elems b)"

text \<open>The move constructor and the move assignment return (this, other) afterwards.\<close>

definition FixedCapacityBuffer_move :: "'a fc_buffer \<Rightarrow> 'a fc_buffer \<times> 'a fc_buffer" where
  "FixedCapacityBuffer_move other = (other, \<lparr>fc_capacity = 0, fc_elems = []\<rparr>)"

definition FixedCapacityBuffer_move_assign ::
    "bool \<Rightarrow> 'a fc_buffer \<Rightarrow> 'a fc_buffer \<Rightarrow> 'a fc_buffer \<times> 'a fc_buffer" where
  "FixedCapacityBuffer_move_assign same this other =
     (if \<not> same then (other, \<lparr>fc_capacity = 0, fc_elems = []\<rparr>) else (this, this))"

definition fc_inv :: "'a fc_buffer \<Rightarrow> bool" where
  "fc_inv b \<longleftrightarrow> length (fc_elems b) \<le> fc_capacity b"

lemma EmplaceBack_run:
  "FixedCapacityBuffer_EmplaceBack x b =
     (if length (fc_elems b) < fc_capacity b
      then (Inr (), b\<lparr>fc_elems := fc_elems b @ [x]\<rparr>)
      else (Inl (Throw_Stream ''FixedCapacityBuffer is full''), b))"
  by (simp add: FixedCapacityBuffer_EmplaceBack_def eff_defs)

lemma fc_inv_new: "fc_inv (FixedCapacityBuffer_new n)"
  by (simp add: fc_inv_def FixedCapacityBuffer_new_def)

lemma fc_inv_EmplaceBack: "preserves fc_inv (FixedCapacityBuffer_EmplaceBack x)"
  by (rule preservesI) (auto simp: EmplaceBack_run fc_inv_def split: if_splits)

lemma EmplaceBack_all:
  "length (fc_elems b) + length xs \<le> fc_capacity b \<Longrightarrow>
   forE FixedCapacityBuffer_EmplaceBack xs b = (Inr (), b\<lparr>fc_elems := fc_elems b @ xs\<rparr>)"
  by (induction xs arbitrary: b) (auto simp: retE_def thenE_def bindE_def EmplaceBack_run)

section \<open>The interface of a mailbox queue\<close>

text \<open>
  What \<open>MailboxSet\<close> uses of a queue type: \<open>Push\<close> returns whether the value was taken,
  \<open>TryPop\<close> the oldest value if there is one, or throws. A push may also never return (\<open>None\<close>: the
  ring's retry loop, or undefined behaviour of its signed arithmetic), and \<open>room q n\<close> says
  that the next \<open>n\<close> pushes are free of that. \<open>limit\<close> is the capacity, if any. The abstract
  queue is a list with a capacity, and \<open>queue_spec\<close> the results it gives to a sequence of calls.
\<close>

datatype 'm queue_op = Push_Op 'm | Pop_Op
datatype 'm queue_res = Pushed bool | Popped "exa_error + 'm option"

fun queue_spec :: "nat option \<Rightarrow> 'm queue_op list \<Rightarrow> 'm list \<Rightarrow> 'm queue_res list \<times> 'm list" where
  "queue_spec lim [] xs = ([], xs)"
| "queue_spec lim (Push_Op m # ops) xs =
     (let ok = (case lim of None \<Rightarrow> True | Some c \<Rightarrow> length xs < c);
          (rs, ys) = queue_spec lim ops (if ok then xs @ [m] else xs)
      in (Pushed ok # rs, ys))"
| "queue_spec lim (Pop_Op # ops) xs =
     (let (rs, ys) = queue_spec lim ops (tl xs)
      in (Popped (Inr (case xs of [] \<Rightarrow> None | x # _ \<Rightarrow> Some x)) # rs, ys))"

fun queue_run :: "('m \<Rightarrow> 'q \<Rightarrow> (bool \<times> 'q) option) \<Rightarrow> ('q \<Rightarrow> ((exa_error + 'm option) \<times> 'q) option) \<Rightarrow>
    'm queue_op list \<Rightarrow> 'q \<Rightarrow> ('m queue_res list \<times> 'q) option" where
  "queue_run push pop [] q = Some ([], q)"
| "queue_run push pop (Push_Op m # ops) q =
     (case push m q of
        None \<Rightarrow> None
      | Some (ok, q') \<Rightarrow> map_option (\<lambda>(rs, q''). (Pushed ok # rs, q'')) (queue_run push pop ops q'))"
| "queue_run push pop (Pop_Op # ops) q =
     (case pop q of
        None \<Rightarrow> None
      | Some (r, q') \<Rightarrow> map_option (\<lambda>(rs, q''). (Popped r # rs, q'')) (queue_run push pop ops q'))"

locale mailbox_queue =
  fixes push :: "'m \<Rightarrow> 'q \<Rightarrow> (bool \<times> 'q) option"
    and try_pop :: "'q \<Rightarrow> ((exa_error + 'm option) \<times> 'q) option"
    and contents :: "'q \<Rightarrow> 'm list"
    and limit :: "'q \<Rightarrow> nat option"
    and room :: "'q \<Rightarrow> nat \<Rightarrow> bool"
    and inv :: "'q \<Rightarrow> bool"
  assumes room_less: "room q (Suc n) \<Longrightarrow> room q n"
    and push_free: "inv q \<Longrightarrow> room q (Suc n) \<Longrightarrow>
      limit q = None \<or> (\<exists>c. limit q = Some c \<and> length (contents q) < c) \<Longrightarrow>
      \<exists>q'. push m q = Some (True, q') \<and> contents q' = contents q @ [m] \<and> inv q'
          \<and> limit q' = limit q \<and> room q' n"
    and push_full: "inv q \<Longrightarrow> limit q = Some c \<Longrightarrow> length (contents q) \<ge> c \<Longrightarrow>
      push m q = Some (False, q)"
    and pop_some: "inv q \<Longrightarrow> contents q = x # xs \<Longrightarrow>
      \<exists>q'. try_pop q = Some (Inr (Some x), q') \<and> contents q' = xs \<and> inv q' \<and> limit q' = limit q
          \<and> (\<forall>n. room q n \<longrightarrow> room q' n)"
    and pop_none: "inv q \<Longrightarrow> contents q = [] \<Longrightarrow> try_pop q = Some (Inr None, q)"
begin

text \<open>Any sequence of calls gives the results of the abstract queue.\<close>

lemma run_refines_spec:
  "inv q \<Longrightarrow> room q (length ops) \<Longrightarrow>
   \<exists>q'. queue_run push try_pop ops q = Some (fst (queue_spec (limit q) ops (contents q)), q')
      \<and> contents q' = snd (queue_spec (limit q) ops (contents q)) \<and> inv q' \<and> limit q' = limit q"
proof (induction ops arbitrary: q)
  case Nil
  then show ?case by simp
next
  case (Cons op ops)
  have room: "room q (Suc (length ops))" using Cons.prems(2) by simp
  show ?case
  proof (cases op)
    case (Push_Op m)
    show ?thesis
    proof (cases "limit q = None \<or> (\<exists>c. limit q = Some c \<and> length (contents q) < c)")
      case True
      obtain q1 where q1: "push m q = Some (True, q1)" "contents q1 = contents q @ [m]" "inv q1"
          "limit q1 = limit q" "room q1 (length ops)"
        using push_free [OF Cons.prems(1) room True] by blast
      have "(case limit q of None \<Rightarrow> True | Some c \<Rightarrow> length (contents q) < c)"
        using True by (auto split: option.splits)
      with Cons.IH [OF q1(3,5)] q1 Push_Op show ?thesis by (auto split: prod.splits)
    next
      case False
      then obtain c where c: "limit q = Some c" "length (contents q) \<ge> c"
        by (cases "limit q") auto
      have "push m q = Some (False, q)" using push_full Cons.prems(1) c by blast
      with Cons.IH [OF Cons.prems(1) room_less [OF room]] c Push_Op show ?thesis
        by (auto split: prod.splits)
    qed
  next
    case Pop_Op
    show ?thesis
    proof (cases "contents q")
      case Nil
      with pop_none [OF Cons.prems(1) Nil] Cons.IH [OF Cons.prems(1) room_less [OF room]] Pop_Op
      show ?thesis by (auto split: prod.splits)
    next
      case (Cons x xs)
      obtain q1 where q1: "try_pop q = Some (Inr (Some x), q1)" "contents q1 = xs" "inv q1"
          "limit q1 = limit q" "room q1 (length ops)"
        using pop_some [OF Cons.prems(1) Cons] room_less [OF room] by blast
      with Cons.IH [OF q1(3,5)] Cons Pop_Op show ?thesis by (auto split: prod.splits)
    qed
  qed
qed

end

section \<open>LinearizableUnboundedMpscQueue and OneSlotUnsafeQueue\<close>

text \<open>
  The unbounded queue forwards to the vendored \<open>daking::MPSC_queue\<close>, one call at a time a
  FIFO queue. The one-slot queue keeps the last value in \<open>slot_\<close> after a pop (\<open>std::move\<close>
  of a pointer copies it); \<open>None\<close> is the value-initialised \<open>T slot_ {}\<close>.
\<close>

definition LinearizableUnboundedMpscQueue_Push :: "'m \<Rightarrow> 'm list \<Rightarrow> (bool \<times> 'm list) option" where
  "LinearizableUnboundedMpscQueue_Push value q = Some (True, q @ [value])"

definition LinearizableUnboundedMpscQueue_TryPop :: "'m list \<Rightarrow> ((exa_error + 'm option) \<times> 'm list) option" where
  "LinearizableUnboundedMpscQueue_TryPop q =
     (case q of [] \<Rightarrow> Some (Inr None, []) | value # q' \<Rightarrow> Some (Inr (Some value), q'))"

record 'm one_slot =
  os_slot :: "'m option"
  os_has_value :: bool

definition OneSlotUnsafeQueue_new :: "'m one_slot" where
  "OneSlotUnsafeQueue_new = \<lparr>os_slot = None, os_has_value = False\<rparr>"

definition OneSlotUnsafeQueue_Push :: "'m \<Rightarrow> 'm one_slot \<Rightarrow> (bool \<times> 'm one_slot) option" where
  "OneSlotUnsafeQueue_Push value q =
     (if os_has_value q then Some (False, q)
      else Some (True, q\<lparr>os_slot := Some value, os_has_value := True\<rparr>))"

definition OneSlotUnsafeQueue_TryPop :: "'m one_slot \<Rightarrow> ((exa_error + 'm option) \<times> 'm one_slot) option" where
  "OneSlotUnsafeQueue_TryPop q =
     (if \<not> os_has_value q then Some (Inr None, q)
      else Some (Inr (os_slot q), q\<lparr>os_has_value := False\<rparr>))"

definition one_slot_contents :: "'m one_slot \<Rightarrow> 'm list" where
  "one_slot_contents q = (if os_has_value q then (case os_slot q of Some v \<Rightarrow> [v] | None \<Rightarrow> []) else [])"

definition one_slot_inv :: "'m one_slot \<Rightarrow> bool" where
  "one_slot_inv q \<longleftrightarrow> (os_has_value q \<longrightarrow> os_slot q \<noteq> None)"

interpretation unbounded: mailbox_queue
  LinearizableUnboundedMpscQueue_Push LinearizableUnboundedMpscQueue_TryPop
  "\<lambda>q. q" "\<lambda>_. None" "\<lambda>_ _. True" "\<lambda>_. True"
  by unfold_locales
    (auto simp: LinearizableUnboundedMpscQueue_Push_def LinearizableUnboundedMpscQueue_TryPop_def)

interpretation one_slot: mailbox_queue
  OneSlotUnsafeQueue_Push OneSlotUnsafeQueue_TryPop
  one_slot_contents "\<lambda>_. Some 1" "\<lambda>_ _. True" one_slot_inv
  by unfold_locales
    (auto simp: OneSlotUnsafeQueue_Push_def OneSlotUnsafeQueue_TryPop_def one_slot_contents_def
      one_slot_inv_def split: option.splits if_splits)

section \<open>BoundedMpscQueue\<close>

text \<open>
  The ring buffer: \<open>capacity_\<close> (a power of two, at least 2), \<open>mask_ = capacity_ - 1\<close>, the
  cells with their sequence numbers, and the two positions, all \<open>std::size_t\<close>. A
  default-constructed \<open>data\<close> is \<open>None\<close>.
\<close>

record 'a ring_cell =
  cell_sequence :: u64
  cell_data :: "'a option"

record 'a ring =
  rg_capacity :: u64
  rg_mask :: u64
  rg_buffer :: "'a ring_cell list"
  rg_enqueue_pos :: u64
  rg_dequeue_pos :: u64

text \<open>\<open>std::bit_ceil\<close>; its behaviour is undefined when the result is not representable.\<close>

fun bit_width :: "nat \<Rightarrow> nat" where
  "bit_width n = (if n = 0 then 0 else Suc (bit_width (n div 2)))"

declare bit_width.simps [simp del]

definition bit_ceil :: "u64 \<Rightarrow> u64 option" where
  "bit_ceil x = (let w = bit_width (unat x - 1) in if w < 64 then Some (2 ^ w) else None)"

definition BoundedMpscQueue_new :: "u64 \<Rightarrow> 'a ring option" where
  "BoundedMpscQueue_new capacity =
     map_option (\<lambda>c.
       \<lparr>rg_capacity = c, rg_mask = c - 1,
        rg_buffer = map (\<lambda>i. \<lparr>cell_sequence = word_of_nat i, cell_data = None\<rparr>) [0..<unat c],
        rg_enqueue_pos = 0, rg_dequeue_pos = 0\<rparr>)
     (bit_ceil (max capacity 2))"

text \<open>
  \<open>static_cast<std::ptrdiff_t>(a) - static_cast<std::ptrdiff_t>(b)\<close>: the subtraction is on
  signed 64-bit integers, undefined when the difference does not fit.
\<close>

definition ptr_diff :: "u64 \<Rightarrow> u64 \<Rightarrow> int option" where
  "ptr_diff a b = (let d = sint a - sint b in if - (2 ^ 63) \<le> d \<and> d < 2 ^ 63 then Some d else None)"

text \<open>
  One call of \<open>Push\<close> that no other call interferes with: the compare-exchange succeeds at
  once. With \<open>diff > 0\<close> the position is read again, has not changed, and the loop never ends.
  \<open>Bounded_Mpsc\<close> has the loop access by access, and shows that this is the call run alone.
\<close>

definition BoundedMpscQueue_Push :: "'a \<Rightarrow> 'a ring \<Rightarrow> (bool \<times> 'a ring) option" where
  "BoundedMpscQueue_Push data q =
     (let pos = rg_enqueue_pos q;
          i = unat (pos AND rg_mask q);
          seq = cell_sequence (rg_buffer q ! i)
      in case ptr_diff seq pos of
           None \<Rightarrow> None
         | Some diff \<Rightarrow>
             if diff = 0 then
               Some (True, q\<lparr>rg_enqueue_pos := pos + 1,
                 rg_buffer := (rg_buffer q)[i := \<lparr>cell_sequence = pos + 1, cell_data = Some data\<rparr>]\<rparr>)
             else if diff < 0 then Some (False, q)
             else None)"

text \<open>\<open>TryPop\<close> over \<open>Pop\<close>, which throws when \<open>EXA_THROW_CHECK(diff == 0)\<close> fails.\<close>

definition BoundedMpscQueue_TryPop :: "'a ring \<Rightarrow> ((exa_error + 'a option) \<times> 'a ring) option" where
  "BoundedMpscQueue_TryPop q =
     (let i = unat (rg_dequeue_pos q AND rg_mask q);
          cell = rg_buffer q ! i
      in case ptr_diff (cell_sequence cell) (rg_dequeue_pos q + 1) of
           None \<Rightarrow> None
         | Some diff \<Rightarrow>
             if diff < 0 then Some (Inr None, q)
             else if diff \<noteq> 0 then Some (Inl (Throw_Stream ''BoundedMpscQueue: unexpected sequence state in Pop''), q)
             else Some (Inr (cell_data cell),
               q\<lparr>rg_buffer := (rg_buffer q)[i := cell\<lparr>cell_sequence := rg_dequeue_pos q + rg_capacity q\<rparr>],
                 rg_dequeue_pos := rg_dequeue_pos q + 1\<rparr>))"

definition BoundedMpscQueue_Size :: "'a ring \<Rightarrow> u64" where
  "BoundedMpscQueue_Size q = rg_enqueue_pos q - rg_dequeue_pos q"

text \<open>
  The queue a ring represents: positions \<open>dequeue_pos_ .. enqueue_pos_\<close>, oldest first. The
  invariant bounds the positions below \<open>2 ^ 63\<close>, where the signed comparison is defined; a
  ring reaches that bound only after \<open>2 ^ 63\<close> pushes.
\<close>

definition ring_cell_at :: "'a ring \<Rightarrow> nat \<Rightarrow> 'a ring_cell" where
  "ring_cell_at q p = rg_buffer q ! (p mod unat (rg_capacity q))"

definition ring_contents :: "'a ring \<Rightarrow> 'a list" where
  "ring_contents q =
     map (\<lambda>p. the (cell_data (ring_cell_at q p))) [unat (rg_dequeue_pos q)..<unat (rg_enqueue_pos q)]"

definition ring_shape :: "'a ring \<Rightarrow> bool" where
  "ring_shape q \<longleftrightarrow> (\<exists>k. 1 \<le> k \<and> k < 63 \<and> unat (rg_capacity q) = 2 ^ k)
     \<and> rg_mask q = rg_capacity q - 1 \<and> length (rg_buffer q) = unat (rg_capacity q)"

definition ring_inv :: "'a ring \<Rightarrow> bool" where
  "ring_inv q \<longleftrightarrow> ring_shape q
     \<and> unat (rg_dequeue_pos q) \<le> unat (rg_enqueue_pos q)
     \<and> unat (rg_enqueue_pos q) \<le> unat (rg_dequeue_pos q) + unat (rg_capacity q)
     \<and> unat (rg_enqueue_pos q) + unat (rg_capacity q) < 2 ^ 63
     \<and> (\<forall>p. unat (rg_dequeue_pos q) \<le> p \<and> p < unat (rg_enqueue_pos q) \<longrightarrow>
           cell_sequence (ring_cell_at q p) = word_of_nat (p + 1)
           \<and> cell_data (ring_cell_at q p) \<noteq> None)
     \<and> (\<forall>p. unat (rg_enqueue_pos q) \<le> p \<and> p < unat (rg_dequeue_pos q) + unat (rg_capacity q) \<longrightarrow>
           cell_sequence (ring_cell_at q p) = word_of_nat p)"

definition ring_room :: "'a ring \<Rightarrow> nat \<Rightarrow> bool" where
  "ring_room q n \<longleftrightarrow> unat (rg_enqueue_pos q) + unat (rg_capacity q) + n < 2 ^ 63"

subsection \<open>The ring represents a bounded queue\<close>

lemma ring_index:
  assumes "ring_shape q"
  shows "rg_buffer q ! unat (pos AND rg_mask q) = ring_cell_at q (unat pos)"
    and "unat (pos AND rg_mask q) = unat pos mod unat (rg_capacity q)"
    and "unat (pos AND rg_mask q) < length (rg_buffer q)"
proof -
  obtain k where k: "k < 63" "unat (rg_capacity q) = 2 ^ k" "rg_mask q = rg_capacity q - 1"
      "length (rg_buffer q) = unat (rg_capacity q)"
    using assms by (auto simp: ring_shape_def)
  then show *: "unat (pos AND rg_mask q) = unat pos mod unat (rg_capacity q)"
    using and_pred_mod [of "rg_capacity q" k pos] by simp
  then show "rg_buffer q ! unat (pos AND rg_mask q) = ring_cell_at q (unat pos)"
    by (simp add: ring_cell_at_def)
  show "unat (pos AND rg_mask q) < length (rg_buffer q)"
    unfolding * k(4) using k(2) by (simp add: k(2))
qed

lemma ring_capacity_ge2:
  assumes "ring_shape q" shows "2 \<le> unat (rg_capacity q)"
proof -
  obtain k where k: "1 \<le> k" "unat (rg_capacity q) = 2 ^ k"
    using assms by (auto simp: ring_shape_def)
  have "(2::nat) ^ 1 \<le> 2 ^ k" using k(1) by (rule power_increasing) simp
  then show ?thesis using k(2) by simp
qed

lemma ptr_diff_small:
  assumes "a < 2 ^ 63" "b < 2 ^ 63"
  shows "ptr_diff (word_of_nat a) (word_of_nat b) = Some (int a - int b)"
proof -
  have "int a < 2 ^ 63" "int b < 2 ^ 63" using assms by (simp_all flip: of_nat_less_iff)
  then show ?thesis
    by (simp add: ptr_diff_def sint_of_nat64 assms Let_def)
qed

lemma ring_cell_update:
  assumes "ring_shape q" "i = p mod unat (rg_capacity q)"
  shows "ring_cell_at (q\<lparr>rg_enqueue_pos := e, rg_buffer := (rg_buffer q)[i := c]\<rparr>) p' =
      (if p' mod unat (rg_capacity q) = i then c else ring_cell_at q p')"
    and "ring_cell_at (q\<lparr>rg_buffer := (rg_buffer q)[i := c], rg_dequeue_pos := d\<rparr>) p' =
      (if p' mod unat (rg_capacity q) = i then c else ring_cell_at q p')"
proof -
  have "length (rg_buffer q) = unat (rg_capacity q)" "0 < unat (rg_capacity q)"
    using assms ring_capacity_ge2 [OF assms(1)] by (auto simp: ring_shape_def)
  then have "i < length (rg_buffer q)" using assms(2) by simp
  then show "ring_cell_at (q\<lparr>rg_enqueue_pos := e, rg_buffer := (rg_buffer q)[i := c]\<rparr>) p' =
      (if p' mod unat (rg_capacity q) = i then c else ring_cell_at q p')"
    and "ring_cell_at (q\<lparr>rg_buffer := (rg_buffer q)[i := c], rg_dequeue_pos := d\<rparr>) p' =
      (if p' mod unat (rg_capacity q) = i then c else ring_cell_at q p')"
    by (auto simp: ring_cell_at_def)
qed

lemma ring_length: "ring_inv q \<Longrightarrow>
    length (ring_contents q) = unat (rg_enqueue_pos q) - unat (rg_dequeue_pos q)"
  by (simp add: ring_contents_def)

lemma unat_succ63: "unat w < 2 ^ 63 \<Longrightarrow> unat (w + 1) = unat w + 1" for w :: u64
  by (simp add: unat_word_ariths)

lemma ring_push_full:
  assumes inv: "ring_inv q" and full: "length (ring_contents q) \<ge> unat (rg_capacity q)"
  shows "BoundedMpscQueue_Push m q = Some (False, q)"
proof -
  define D where "D = unat (rg_dequeue_pos q)"
  define E where "E = unat (rg_enqueue_pos q)"
  define C where "C = unat (rg_capacity q)"
  have shape: "ring_shape q" using inv by (simp add: ring_inv_def)
  have C2: "2 \<le> C" using ring_capacity_ge2 [OF shape] by (simp add: C_def)
  have E: "E = D + C" "E + C < 2 ^ 63"
    using inv full by (auto simp: ring_length ring_inv_def D_def E_def C_def)
  have "ring_cell_at q E = ring_cell_at q D"
    by (simp add: ring_cell_at_def E C_def)
  also have "cell_sequence \<dots> = word_of_nat (D + 1)"
    using inv C2 E by (auto simp: ring_inv_def D_def E_def C_def)
  finally have "ptr_diff (cell_sequence (ring_cell_at q E)) (word_of_nat E)
      = ptr_diff (word_of_nat (D + 1)) (word_of_nat E)" by simp
  also have "\<dots> = Some (int (D + 1) - int E)"
    using E C2 by (intro ptr_diff_small) auto
  finally have diff: "ptr_diff (cell_sequence (ring_cell_at q E)) (rg_enqueue_pos q)
      = Some (int (D + 1) - int E)" by (simp add: E_def)
  have "rg_buffer q ! unat (rg_enqueue_pos q AND rg_mask q) = ring_cell_at q E"
    by (simp only: ring_index(1) [OF shape] E_def)
  with diff show ?thesis
    using E(1) C2 by (simp only: BoundedMpscQueue_Push_def Let_def option.case) auto
qed

lemma ring_push_free:
  assumes inv: "ring_inv q" and room: "ring_room q (Suc n)"
    and free: "length (ring_contents q) < unat (rg_capacity q)"
  shows "\<exists>q'. BoundedMpscQueue_Push m q = Some (True, q') \<and> ring_contents q' = ring_contents q @ [m]
      \<and> ring_inv q' \<and> rg_capacity q' = rg_capacity q \<and> ring_room q' n"
proof -
  define D where "D = unat (rg_dequeue_pos q)"
  define E where "E = unat (rg_enqueue_pos q)"
  define C where "C = unat (rg_capacity q)"
  define i where "i = E mod C"
  define q' where "q' = q\<lparr>rg_enqueue_pos := rg_enqueue_pos q + 1,
      rg_buffer := (rg_buffer q)[i := \<lparr>cell_sequence = rg_enqueue_pos q + 1, cell_data = Some m\<rparr>]\<rparr>"
  have shape: "ring_shape q" using inv by (simp add: ring_inv_def)
  have C2: "2 \<le> C" using ring_capacity_ge2 [OF shape] by (simp add: C_def)
  have le: "D \<le> E" "E < D + C" "E + C + 1 < 2 ^ 63"
    using inv free room by (auto simp: ring_length ring_inv_def ring_room_def D_def E_def C_def)
  have idx: "unat (rg_enqueue_pos q AND rg_mask q) = i"
    by (simp add: ring_index [OF shape] i_def E_def C_def)
  have "cell_sequence (ring_cell_at q E) = word_of_nat E"
    using inv le by (auto simp: ring_inv_def D_def E_def C_def)
  moreover have "ptr_diff (word_of_nat E) (word_of_nat E) = Some 0"
    using ptr_diff_small [of E E] le by simp
  ultimately have "ptr_diff (cell_sequence (rg_buffer q ! i)) (rg_enqueue_pos q) = Some 0"
    by (simp add: ring_cell_at_def i_def C_def E_def)
  then have push: "BoundedMpscQueue_Push m q = Some (True, q')"
    by (simp add: BoundedMpscQueue_Push_def idx q'_def Let_def)
  have cell: "ring_cell_at q' p = (if p mod C = i
      then \<lparr>cell_sequence = rg_enqueue_pos q + 1, cell_data = Some m\<rparr> else ring_cell_at q p)" for p
    using ring_cell_update(1) [OF shape, of i E] unfolding q'_def by (simp only: i_def C_def)
  have same: "p mod C = i \<longleftrightarrow> p = E" if "D \<le> p" "p < D + C" for p
    using window_mod_inj [of p C E D] that le by (auto simp: i_def)
  have E': "unat (rg_enqueue_pos q') = E + 1"
    using unat_succ63 [of "rg_enqueue_pos q"] le by (simp add: q'_def E_def)
  have D': "unat (rg_dequeue_pos q') = D" "rg_capacity q' = rg_capacity q"
    by (simp_all add: q'_def D_def)
  have shape': "ring_shape q'" using shape by (simp add: ring_shape_def q'_def)
  have wE: "rg_enqueue_pos q + 1 = word_of_nat (E + 1)" by (simp add: E_def)
  have new: "cell_data (ring_cell_at q' E) = Some m" by (simp add: cell i_def)
  have old: "ring_cell_at q' p = ring_cell_at q p" if "D \<le> p" "p < E" for p
    using that le same [of p] by (simp add: cell)
  have contents: "ring_contents q' = ring_contents q @ [m]"
    unfolding ring_contents_def E' D' using le(1)
    by (auto simp: new old simp flip: D_def E_def)
  have "ring_inv q'"
    unfolding ring_inv_def E' D'
    using shape' le inv
    by (auto simp: cell same wE ring_inv_def simp flip: D_def E_def C_def)
  moreover have "ring_room q' n"
    using room by (simp add: ring_room_def E' D'(2) E_def)
  ultimately show ?thesis using push contents D' by blast
qed

lemma ring_pop_none:
  assumes inv: "ring_inv q" and empty: "ring_contents q = []"
  shows "BoundedMpscQueue_TryPop q = Some (Inr None, q)"
proof -
  define D where "D = unat (rg_dequeue_pos q)"
  have shape: "ring_shape q" using inv by (simp add: ring_inv_def)
  have C2: "2 \<le> unat (rg_capacity q)" by (rule ring_capacity_ge2 [OF shape])
  have E: "unat (rg_enqueue_pos q) = D" "D + unat (rg_capacity q) < 2 ^ 63"
    using inv empty by (auto simp: ring_inv_def ring_contents_def D_def)
  have "cell_sequence (ring_cell_at q D) = word_of_nat D"
    using inv C2 E by (auto simp: ring_inv_def D_def)
  moreover have "rg_dequeue_pos q + 1 = word_of_nat (D + 1)" by (simp add: D_def)
  moreover have "ptr_diff (word_of_nat D) (word_of_nat (D + 1)) = Some (int D - int (D + 1))"
    using E C2 by (intro ptr_diff_small) auto
  ultimately have diff: "ptr_diff (cell_sequence (ring_cell_at q D)) (rg_dequeue_pos q + 1)
      = Some (int D - int (D + 1))" by (simp only:)
  have "rg_buffer q ! unat (rg_dequeue_pos q AND rg_mask q) = ring_cell_at q D"
    by (simp only: ring_index(1) [OF shape] D_def)
  with diff show ?thesis
    by (simp only: BoundedMpscQueue_TryPop_def Let_def option.case) auto
qed

lemma ring_pop_some:
  assumes inv: "ring_inv q" and ne: "ring_contents q = x # xs"
  shows "\<exists>q'. BoundedMpscQueue_TryPop q = Some (Inr (Some x), q') \<and> ring_contents q' = xs
      \<and> ring_inv q' \<and> rg_capacity q' = rg_capacity q \<and> rg_enqueue_pos q' = rg_enqueue_pos q"
proof -
  define D where "D = unat (rg_dequeue_pos q)"
  define E where "E = unat (rg_enqueue_pos q)"
  define C where "C = unat (rg_capacity q)"
  define i where "i = D mod C"
  define c where "c = (ring_cell_at q D)\<lparr>cell_sequence := rg_dequeue_pos q + rg_capacity q\<rparr>"
  define q' where "q' = q\<lparr>rg_buffer := (rg_buffer q)[i := c], rg_dequeue_pos := rg_dequeue_pos q + 1\<rparr>"
  have shape: "ring_shape q" using inv by (simp add: ring_inv_def)
  have C2: "2 \<le> C" using ring_capacity_ge2 [OF shape] by (simp add: C_def)
  have le: "D < E" "E \<le> D + C" "E + C < 2 ^ 63"
    using inv ne ring_length [OF inv] by (auto simp: ring_inv_def D_def E_def C_def)
  have at_D: "cell_sequence (ring_cell_at q D) = word_of_nat (D + 1)"
      "cell_data (ring_cell_at q D) \<noteq> None"
    using inv le by (auto simp: ring_inv_def D_def E_def)
  have "[D..<E] = D # [Suc D..<E]" using le by (simp add: upt_conv_Cons)
  then have x: "cell_data (ring_cell_at q D) = Some x"
      and xs: "xs = map (\<lambda>p. the (cell_data (ring_cell_at q p))) [Suc D..<E]"
    using ne at_D(2) by (auto simp: ring_contents_def D_def E_def)
  have wD: "rg_dequeue_pos q + 1 = word_of_nat (D + 1)" by (simp add: D_def)
  have "ptr_diff (word_of_nat (D + 1)) (word_of_nat (D + 1)) = Some 0"
    using ptr_diff_small [of "D + 1" "D + 1"] le by simp
  then have diff: "ptr_diff (cell_sequence (ring_cell_at q D)) (rg_dequeue_pos q + 1) = Some 0"
    by (simp only: at_D(1) wD)
  have idx: "unat (rg_dequeue_pos q AND rg_mask q) = i"
    by (simp only: ring_index(2) [OF shape] i_def D_def C_def)
  have buf: "rg_buffer q ! i = ring_cell_at q D"
    by (simp only: ring_cell_at_def i_def C_def)
  have pop: "BoundedMpscQueue_TryPop q = Some (Inr (Some x), q')"
    unfolding BoundedMpscQueue_TryPop_def Let_def idx buf diff q'_def c_def x by simp
  have cell: "ring_cell_at q' p = (if p mod C = i then c else ring_cell_at q p)" for p
    using ring_cell_update(2) [OF shape, of i D] unfolding q'_def by (simp only: i_def C_def)
  have same: "p mod C = i \<longleftrightarrow> p = D" if "D \<le> p" "p < D + C" for p
    using window_mod_inj [of p C D D] that C2 by (auto simp: i_def)
  have D': "unat (rg_dequeue_pos q') = D + 1" "rg_enqueue_pos q' = rg_enqueue_pos q"
      "rg_capacity q' = rg_capacity q"
    using unat_succ63 [of "rg_dequeue_pos q"] le by (simp_all add: q'_def D_def)
  have old: "ring_cell_at q' p = ring_cell_at q p" if "Suc D \<le> p" "p < D + C" for p
    using that same [of p] by (simp add: cell)
  have "ring_contents q' = xs"
    unfolding ring_contents_def D' xs using le by (auto simp: old simp flip: E_def)
  moreover have "cell_sequence (ring_cell_at q' (D + C)) = word_of_nat (D + C)"
    by (simp add: cell i_def c_def D_def C_def)
  then have seq: "cell_sequence (ring_cell_at q' p) = word_of_nat p" if "E \<le> p" "p < D + 1 + C" for p
    using that inv le old [of p]
    by (cases "p = D + C") (auto simp: ring_inv_def D_def E_def C_def)
  moreover have "ring_shape q'" using shape by (simp add: ring_shape_def q'_def)
  then have "ring_inv q'"
    unfolding ring_inv_def D' using le inv
    by (auto simp: ring_inv_def old seq simp flip: D_def E_def C_def)
  ultimately show ?thesis using pop D' by blast
qed

interpretation bounded: mailbox_queue
  BoundedMpscQueue_Push BoundedMpscQueue_TryPop
  ring_contents "\<lambda>q. Some (unat (rg_capacity q))" ring_room ring_inv
proof unfold_locales
  fix q :: "'a ring" and m :: 'a and n
  assume "ring_inv q" "ring_room q (Suc n)"
    "Some (unat (rg_capacity q)) = None \<or>
     (\<exists>c. Some (unat (rg_capacity q)) = Some c \<and> length (ring_contents q) < c)"
  then show "\<exists>q'. BoundedMpscQueue_Push m q = Some (True, q') \<and> ring_contents q' = ring_contents q @ [m]
      \<and> ring_inv q' \<and> Some (unat (rg_capacity q')) = Some (unat (rg_capacity q)) \<and> ring_room q' n"
    using ring_push_free [of q n m] by auto
next
  fix q :: "'a ring" and x :: 'a and xs
  assume "ring_inv q" "ring_contents q = x # xs"
  from ring_pop_some [OF this]
  obtain q' where "BoundedMpscQueue_TryPop q = Some (Inr (Some x), q')" "ring_contents q' = xs"
      "ring_inv q'" "rg_capacity q' = rg_capacity q" "rg_enqueue_pos q' = rg_enqueue_pos q"
    by (elim exE conjE)
  then show "\<exists>q'. BoundedMpscQueue_TryPop q = Some (Inr (Some x), q') \<and> ring_contents q' = xs
      \<and> ring_inv q' \<and> Some (unat (rg_capacity q')) = Some (unat (rg_capacity q))
      \<and> (\<forall>n. ring_room q n \<longrightarrow> ring_room q' n)"
    by (intro exI [of _ q']) (simp add: ring_room_def)
qed (auto simp: ring_push_full ring_pop_none ring_room_def)

subsection \<open>The constructor\<close>

lemma bit_width_bounds: "0 < n \<Longrightarrow> 2 ^ (bit_width n - 1) \<le> n \<and> n < 2 ^ bit_width n \<and> 0 < bit_width n"
proof (induction n rule: bit_width.induct)
  case (1 n)
  show ?case
  proof (cases "n div 2 = 0")
    case True
    then have "n = 1" using "1.prems" by arith
    then show ?thesis by (simp add: bit_width.simps)
  next
    case False
    then have IH: "2 ^ (bit_width (n div 2) - 1) \<le> n div 2 \<and> n div 2 < 2 ^ bit_width (n div 2)
        \<and> 0 < bit_width (n div 2)"
      using "1.IH" "1.prems" by simp
    have w: "bit_width n = Suc (bit_width (n div 2))"
      using "1.prems" by (subst bit_width.simps) simp
    define a where "a = (2::nat) ^ (bit_width (n div 2) - 1)"
    define b where "b = (2::nat) ^ bit_width (n div 2)"
    have "b = 2 * a" using IH by (simp add: a_def b_def flip: power_Suc)
    moreover have "a \<le> n div 2" "n div 2 < b" using IH by (simp_all add: a_def b_def)
    ultimately have "b \<le> n \<and> n < 2 * b" by arith
    then show ?thesis using w by (simp add: b_def)
  qed
qed

lemma bit_ceil_spec:
  assumes "2 \<le> unat x" "unat x \<le> 2 ^ 61"
  shows "\<exists>k. 1 \<le> k \<and> k \<le> 61 \<and> bit_ceil x = Some (2 ^ k) \<and> unat (2 ^ k :: u64) = 2 ^ k
      \<and> unat x \<le> 2 ^ k \<and> 2 ^ k < 2 * unat x"
proof -
  define w where "w = bit_width (unat x - 1)"
  have b: "2 ^ (w - 1) \<le> unat x - 1" "unat x - 1 < 2 ^ w" "0 < w"
    using bit_width_bounds [of "unat x - 1"] assms(1) by (auto simp: w_def)
  have "(2::nat) ^ (w - 1) < 2 ^ 61" using b(1) assms by linarith
  then have w61: "w \<le> 61" using power_less_imp_less_exp [of "2::nat" "w - 1" 61] by simp
  have "(2::nat) ^ w \<le> 2 ^ 61" using w61 by (rule power_increasing) simp
  then have u: "unat (2 ^ w :: u64) = 2 ^ w"
    using unat_of_nat64 [of "2 ^ w"] by simp
  have "(2::nat) ^ w = 2 * 2 ^ (w - 1)" using b(3) by (simp flip: power_Suc)
  then have "unat x \<le> 2 ^ w \<and> 2 ^ w < 2 * unat x" using b(1,2) assms(1) by linarith
  moreover have "bit_ceil x = Some (2 ^ w)" using w61 by (simp add: bit_ceil_def w_def Let_def)
  ultimately show ?thesis using b(3) u w61 by (intro exI [of _ w]) simp
qed

lemma ring_new:
  assumes "unat capacity \<le> 2 ^ 61"
  shows "\<exists>q. BoundedMpscQueue_new capacity = Some q \<and> ring_inv q \<and> ring_contents q = []
      \<and> max 2 (unat capacity) \<le> unat (rg_capacity q) \<and> unat (rg_capacity q) \<le> 2 ^ 61
      \<and> unat (rg_capacity q) < 2 * max 2 (unat capacity) \<and> rg_enqueue_pos q = 0"
proof -
  have m: "unat (max capacity 2) = max 2 (unat capacity)"
    by (simp add: max_def word_le_nat_alt)
  obtain k where k: "1 \<le> k" "k \<le> 61" "bit_ceil (max capacity 2) = Some (2 ^ k)"
      "unat (2 ^ k :: u64) = 2 ^ k" "max 2 (unat capacity) \<le> 2 ^ k" "2 ^ k < 2 * max 2 (unat capacity)"
    using bit_ceil_spec [of "max capacity 2"] assms by (auto simp: m)
  have le: "(2::nat) ^ k \<le> 2 ^ 61" using k(2) by (rule power_increasing) simp
  define q :: "'a ring" where "q =
      \<lparr>rg_capacity = 2 ^ k, rg_mask = 2 ^ k - 1,
       rg_buffer = map (\<lambda>i. \<lparr>cell_sequence = word_of_nat i, cell_data = None\<rparr>) [0..<2 ^ k],
       rg_enqueue_pos = 0, rg_dequeue_pos = 0\<rparr>"
  have q: "BoundedMpscQueue_new capacity = Some q" "rg_capacity q = 2 ^ k"
      "rg_mask q = 2 ^ k - 1" "rg_enqueue_pos q = 0" "rg_dequeue_pos q = 0"
      "rg_buffer q = map (\<lambda>i. \<lparr>cell_sequence = word_of_nat i, cell_data = None\<rparr>) [0..<2 ^ k]"
    by (simp_all add: BoundedMpscQueue_new_def k(3,4) q_def)
  have shape: "ring_shape q" unfolding ring_shape_def q using k(1,2,4) by auto
  have "cell_sequence (ring_cell_at q p) = word_of_nat p" if "p < 2 ^ k" for p
    using that by (simp add: ring_cell_at_def q k(4))
  then have "ring_inv q"
    using shape le by (simp add: ring_inv_def q k(4))
  then show ?thesis using q k le by (auto simp: ring_contents_def)
qed

text \<open>
  C12: a bounded mailbox queue built for a requested capacity behaves, for any sequence of up
  to \<open>2 ^ 61\<close> calls of \<open>Push\<close> and \<open>TryPop\<close>, exactly as a first-in first-out queue whose
  capacity is the requested one (at least 2) rounded up to a power of two: a push is refused
  exactly when that many values are queued, a pop returns the oldest value, no call loops,
  throws or runs into undefined arithmetic.
\<close>

theorem ring_refines_bounded_fifo:
  assumes "unat capacity \<le> 2 ^ 61" and "length ops \<le> 2 ^ 61"
  shows "\<exists>q q' c. BoundedMpscQueue_new capacity = Some q
     \<and> max 2 (unat capacity) \<le> c \<and> c < 2 * max 2 (unat capacity) \<and> (\<exists>k. c = 2 ^ k)
     \<and> queue_run BoundedMpscQueue_Push BoundedMpscQueue_TryPop ops q
       = Some (fst (queue_spec (Some c) ops []), q')
     \<and> ring_contents q' = snd (queue_spec (Some c) ops [])"
proof -
  obtain q :: "'a ring" where q: "BoundedMpscQueue_new capacity = Some q" "ring_inv q"
      "ring_contents q = []" "max 2 (unat capacity) \<le> unat (rg_capacity q)"
      "unat (rg_capacity q) \<le> 2 ^ 61" "unat (rg_capacity q) < 2 * max 2 (unat capacity)"
      "rg_enqueue_pos q = 0"
    using ring_new [OF assms(1)] by blast
  have "ring_room q (length ops)" using q(5,7) assms(2) by (simp add: ring_room_def)
  then have "\<exists>q'. queue_run BoundedMpscQueue_Push BoundedMpscQueue_TryPop ops q
       = Some (fst (queue_spec (Some (unat (rg_capacity q))) ops []), q')
     \<and> ring_contents q' = snd (queue_spec (Some (unat (rg_capacity q))) ops [])"
    using bounded.run_refines_spec [OF q(2), of ops] q(3) by auto
  moreover have "\<exists>k. unat (rg_capacity q) = 2 ^ k"
    using q(2) by (auto simp: ring_inv_def ring_shape_def)
  ultimately show ?thesis using q by blast
qed

lemma ring_refines_bounded_fifo_witness:
  "\<exists>q q' c. BoundedMpscQueue_new 3 = Some q
     \<and> max 2 (unat (3 :: u64)) \<le> c \<and> c < 2 * max 2 (unat (3 :: u64)) \<and> (\<exists>k. c = 2 ^ k)
     \<and> queue_run BoundedMpscQueue_Push BoundedMpscQueue_TryPop [Push_Op (7::nat), Pop_Op, Pop_Op] q
       = Some (fst (queue_spec (Some c) [Push_Op (7::nat), Pop_Op, Pop_Op] []), q')
     \<and> ring_contents q' = snd (queue_spec (Some c) [Push_Op (7::nat), Pop_Op, Pop_Op] [])"
  by (rule ring_refines_bounded_fifo) simp_all

section \<open>UnboundedBlockingPriorityQueue\<close>

text \<open>
  A \<open>std::priority_queue\<close> of values with priorities, under a mutex. Its \<open>operator<\<close> makes the
  smallest number the greatest element. Which of several greatest elements \<open>top()\<close> is, the
  standard leaves open, so \<open>Pop\<close> is a relation between the queue before, the result and the
  queue after; it returns nothing only when the queue stayed empty until the timeout.
\<close>

record 'a pq_element =
  pe_value :: 'a
  pe_priority :: u32

definition pq_less :: "'a pq_element \<Rightarrow> 'a pq_element \<Rightarrow> bool" where
  "pq_less lhs rhs \<longleftrightarrow> pe_priority lhs > pe_priority rhs"

definition UnboundedBlockingPriorityQueue_Push ::
    "'a \<Rightarrow> u32 \<Rightarrow> 'a pq_element list \<Rightarrow> 'a pq_element list" where
  "UnboundedBlockingPriorityQueue_Push value priority q =
     q @ [\<lparr>pe_value = value, pe_priority = priority\<rparr>]"

definition pq_top :: "'a pq_element list \<Rightarrow> 'a pq_element \<Rightarrow> bool" where
  "pq_top q e \<longleftrightarrow> e \<in> set q \<and> (\<forall>x \<in> set q. \<not> pq_less e x)"

definition UnboundedBlockingPriorityQueue_Pop ::
    "'a pq_element list \<Rightarrow> 'a option \<Rightarrow> 'a pq_element list \<Rightarrow> bool" where
  "UnboundedBlockingPriorityQueue_Pop q r q' \<longleftrightarrow>
     (if q = [] then r = None \<and> q' = []
      else \<exists>e \<in> set q. pq_top q e \<and> r = Some (pe_value e) \<and> q' = remove1 e q)"

text \<open>Popping until the queue is empty; the list holds the elements in the order they came out.\<close>

inductive pq_drain :: "'a pq_element list \<Rightarrow> 'a pq_element list \<Rightarrow> bool" where
  drain_empty: "pq_drain [] []"
| drain_pop: "pq_top q e \<Longrightarrow> UnboundedBlockingPriorityQueue_Pop q (Some (pe_value e)) (remove1 e q) \<Longrightarrow>
    pq_drain (remove1 e q) es \<Longrightarrow> pq_drain q (e # es)"

inductive_cases pq_drain_ConsE: "pq_drain q (e # es)"

lemma pq_top_exists: "q \<noteq> [] \<Longrightarrow> \<exists>e. pq_top q e"
proof -
  assume "q \<noteq> []"
  then have "finite (pe_priority ` set q)" "pe_priority ` set q \<noteq> {}" by auto
  then have "Min (pe_priority ` set q) \<in> pe_priority ` set q" by (rule Min_in)
  then obtain e where "e \<in> set q" "pe_priority e = Min (pe_priority ` set q)" by auto
  then have "pq_top q e" by (auto simp: pq_top_def pq_less_def not_less)
  then show ?thesis ..
qed

lemma pq_drain_mset: "pq_drain q es \<Longrightarrow> mset es = mset q"
  by (induction rule: pq_drain.induct) (auto simp: pq_top_def)

lemma pq_drain_sorted: "pq_drain q es \<Longrightarrow> sorted (map pe_priority es)"
proof (induction rule: pq_drain.induct)
  case (drain_pop q e es)
  have "set es \<subseteq> set q"
    using pq_drain_mset [OF drain_pop.hyps(3)]
    by (metis mset_eq_setD notin_set_remove1 subsetI)
  then show ?case
    using drain_pop.IH drain_pop.hyps(1) by (auto simp: pq_top_def pq_less_def not_less)
qed simp

lemma pq_drain_exists: "\<exists>es. pq_drain q es"
proof (induction "length q" arbitrary: q)
  case 0
  then show ?case using drain_empty by auto
next
  case (Suc n)
  then have ne: "q \<noteq> []" by auto
  then obtain e where e: "pq_top q e" using pq_top_exists by blast
  then have mem: "e \<in> set q" by (simp add: pq_top_def)
  then have "n = length (remove1 e q)" using Suc.hyps(2) by (simp add: length_remove1)
  then obtain es where "pq_drain (remove1 e q) es" using Suc.hyps(1) by blast
  moreover have "UnboundedBlockingPriorityQueue_Pop q (Some (pe_value e)) (remove1 e q)"
    using ne e mem by (auto simp: UnboundedBlockingPriorityQueue_Pop_def)
  ultimately show ?case using e drain_pop by blast
qed

text \<open>
  whatever element the standard library's heap chooses among equals, a priority queue
  can always be emptied, and it then hands out every value pushed exactly once, smallest
  priority number first.
\<close>

theorem priority_queue_order:
  "\<exists>es. pq_drain (foldl (\<lambda>q (v, p). UnboundedBlockingPriorityQueue_Push v p q) [] pushes) es
   \<and> (\<forall>es'. \<not> (pq_drain (foldl (\<lambda>q (v, p). UnboundedBlockingPriorityQueue_Push v p q) [] pushes) es'
        \<and> \<not> (sorted (map pe_priority es')
             \<and> mset (map (\<lambda>e. (pe_value e, pe_priority e)) es') = mset pushes)))"
proof -
  define q where "q = foldl (\<lambda>q (v, p). UnboundedBlockingPriorityQueue_Push v p q) [] pushes"
  have "foldl (\<lambda>q (v, p). UnboundedBlockingPriorityQueue_Push v p q) q0 ps
      = q0 @ map (\<lambda>(v, p). \<lparr>pe_value = v, pe_priority = p\<rparr>) ps" for q0 :: "'a pq_element list" and ps
    by (induction ps arbitrary: q0) (auto simp: UnboundedBlockingPriorityQueue_Push_def)
  then have q: "q = map (\<lambda>(v, p). \<lparr>pe_value = v, pe_priority = p\<rparr>) pushes" by (simp add: q_def)
  have "sorted (map pe_priority es) \<and> mset (map (\<lambda>e. (pe_value e, pe_priority e)) es) = mset pushes"
    if d: "pq_drain q es" for es
  proof
    show "sorted (map pe_priority es)" using d by (rule pq_drain_sorted)
    have "mset (map (\<lambda>e. (pe_value e, pe_priority e)) es)
        = image_mset (\<lambda>e. (pe_value e, pe_priority e)) (mset q)"
      by (simp add: pq_drain_mset [OF d])
    also have "\<dots> = mset (map (\<lambda>e. (pe_value e, pe_priority e)) q)" by simp
    also have "map (\<lambda>e. (pe_value e, pe_priority e)) q = pushes"
      by (simp add: q comp_def case_prod_unfold)
    finally show "mset (map (\<lambda>e. (pe_value e, pe_priority e)) es) = mset pushes" .
  qed
  then show ?thesis using pq_drain_exists [of q] unfolding q_def by blast
qed

section \<open>UnboundedBlockingQueue\<close>

text \<open>
  The queue of the work-sharing and the core-pinned pools forwards to moodycamel's
  \<open>BlockingConcurrentQueue\<close>, which orders the values of one producer only and whose
  \<open>try_dequeue\<close> may miss a value: it is a bag from which a pop takes some value or nothing.
\<close>

definition UnboundedBlockingQueue_Push :: "'a \<Rightarrow> 'a multiset \<Rightarrow> 'a multiset" where
  "UnboundedBlockingQueue_Push value q = add_mset value q"

definition UnboundedBlockingQueue_TryPop :: "'a multiset \<Rightarrow> 'a option \<Rightarrow> 'a multiset \<Rightarrow> bool" where
  "UnboundedBlockingQueue_TryPop q r q' \<longleftrightarrow>
     (case r of None \<Rightarrow> q' = q | Some value \<Rightarrow> value \<in># q \<and> q' = q - {#value#})"

lemma TryPop_Some: "UnboundedBlockingQueue_TryPop q (Some v) q' \<Longrightarrow> q = add_mset v q'"
  by (auto simp: UnboundedBlockingQueue_TryPop_def)

end
