(* ===== verification/Bounded_Mpsc.thy ===== *)
theory Bounded_Mpsc
  imports Containers
begin

unbundle bit_operations_syntax

text \<open>
  \<open>BoundedMpscQueue\<close> of \<open>container.h\<close> with any number of producers and one consumer: every access
  to \<open>enqueue_pos_\<close>, to the sequence number of a cell and to its data is a step of its own, and
  the threads advance in any order. A producer claims a position with a compare-exchange, which
  may fail because another producer was faster or for no reason (\<open>compare_exchange_weak\<close>), writes
  its cell and publishes it with the sequence number. \<open>Containers\<close> has the calls run alone.
\<close>

section \<open>Steps\<close>

text \<open>Where a thread is in \<open>Push\<close> and in \<open>Pop\<close>, with its local variables.\<close>

datatype 'a ring_act =
    Push_Load 'a | Push_Sequence 'a u64 | Push_Exchange 'a u64 | Push_Data 'a u64 | Push_Publish u64
  | Pop_Sequence | Pop_Data | Pop_Publish "'a option" | Pop_Advance "'a option"

datatype 'a ring_end = Push_Done bool | Pop_Done "exa_error + 'a option"

definition ring_index_of :: "u64 \<Rightarrow> 'a ring \<Rightarrow> nat" where
  "ring_index_of pos q = unat (pos AND rg_mask q)"

definition set_cell :: "u64 \<Rightarrow> ('a ring_cell \<Rightarrow> 'a ring_cell) \<Rightarrow> 'a ring \<Rightarrow> 'a ring" where
  "set_cell pos f q = q\<lparr>rg_buffer := (rg_buffer q)[ring_index_of pos q := f (rg_buffer q ! ring_index_of pos q)]\<rparr>"

text \<open>
  The next step: the queue after it, and where the thread is then or what its call has returned.
  \<open>spurious\<close> lets a compare-exchange fail. No result when the signed subtraction overflows.
\<close>

fun ring_advance :: "bool \<Rightarrow> 'a ring_act \<Rightarrow> 'a ring \<Rightarrow> ('a ring \<times> ('a ring_act + 'a ring_end)) option" where
  "ring_advance spurious (Push_Load data) q = Some (q, Inl (Push_Sequence data (rg_enqueue_pos q)))"
| "ring_advance spurious (Push_Sequence data pos) q =
     (case ptr_diff (cell_sequence (rg_buffer q ! ring_index_of pos q)) pos of
        None \<Rightarrow> None
      | Some diff \<Rightarrow>
          Some (q, if diff = 0 then Inl (Push_Exchange data pos)
                   else if diff < 0 then Inr (Push_Done False)
                   else Inl (Push_Load data)))"
| "ring_advance spurious (Push_Exchange data pos) q =
     (if rg_enqueue_pos q = pos \<and> \<not> spurious then Some (q\<lparr>rg_enqueue_pos := pos + 1\<rparr>, Inl (Push_Data data pos))
      else Some (q, Inl (Push_Sequence data (rg_enqueue_pos q))))"
| "ring_advance spurious (Push_Data data pos) q = Some (set_cell pos (cell_data_update (\<lambda>_. Some data)) q, Inl (Push_Publish pos))"
| "ring_advance spurious (Push_Publish pos) q = Some (set_cell pos (cell_sequence_update (\<lambda>_. pos + 1)) q, Inr (Push_Done True))"
| "ring_advance spurious Pop_Sequence q =
     (case ptr_diff (cell_sequence (rg_buffer q ! ring_index_of (rg_dequeue_pos q) q)) (rg_dequeue_pos q + 1) of
        None \<Rightarrow> None
      | Some diff \<Rightarrow>
          Some (q, if diff < 0 then Inr (Pop_Done (Inr None))
                   else if diff \<noteq> 0 then Inr (Pop_Done (Inl (Throw_Stream ''BoundedMpscQueue: unexpected sequence state in Pop'')))
                   else Inl Pop_Data))"
| "ring_advance spurious Pop_Data q = Some (q, Inl (Pop_Publish (cell_data (rg_buffer q ! ring_index_of (rg_dequeue_pos q) q))))"
| "ring_advance spurious (Pop_Publish data) q =
     Some (set_cell (rg_dequeue_pos q) (cell_sequence_update (\<lambda>_. rg_dequeue_pos q + rg_capacity q)) q, Inl (Pop_Advance data))"
| "ring_advance spurious (Pop_Advance data) q = Some (q\<lparr>rg_dequeue_pos := rg_dequeue_pos q + 1\<rparr>, Inr (Pop_Done (Inr data)))"

text \<open>A thread that runs alone, whose compare-exchange does not fail for no reason.\<close>

fun ring_alone :: "nat \<Rightarrow> 'a ring_act \<Rightarrow> 'a ring \<Rightarrow> ('a ring_end \<times> 'a ring) option" where
  "ring_alone 0 a q = None"
| "ring_alone (Suc fuel) a q =
     (case ring_advance False a q of
        None \<Rightarrow> None
      | Some (q', Inl a') \<Rightarrow> ring_alone fuel a' q'
      | Some (q', Inr r) \<Rightarrow> Some (r, q'))"

text \<open>
  The calls of \<open>Containers\<close> are these runs: a push takes five steps or never returns, a pop at
  most four.
\<close>

lemma set_cell_twice:
  assumes "ring_shape q"
  shows "set_cell pos (cell_sequence_update (\<lambda>_. s)) (set_cell pos (cell_data_update (\<lambda>_. d)) q)
    = q\<lparr>rg_buffer := (rg_buffer q)[unat (pos AND rg_mask q) := \<lparr>cell_sequence = s, cell_data = d\<rparr>]\<rparr>"
  using ring_index(3) [OF assms, of pos]
  by (cases "rg_buffer q ! unat (pos AND rg_mask q)") (simp add: set_cell_def ring_index_of_def)

lemma ring_shape_pos [simp]: "ring_shape (q\<lparr>rg_enqueue_pos := e\<rparr>) = ring_shape q"
  by (simp add: ring_shape_def)

lemma push_loops:
  "ptr_diff (cell_sequence (rg_buffer q ! ring_index_of (rg_enqueue_pos q) q)) (rg_enqueue_pos q) = Some diff \<Longrightarrow> 0 < diff \<Longrightarrow>
   ring_alone fuel (Push_Load data) q = None \<and> ring_alone fuel (Push_Sequence data (rg_enqueue_pos q)) q = None"
proof (induction fuel)
  case (Suc fuel)
  then show ?case by simp
qed simp

lemma push_alone:
  assumes "ring_shape q" and "5 \<le> fuel"
  shows "ring_alone fuel (Push_Load data) q = map_option (\<lambda>(ok, q'). (Push_Done ok, q')) (BoundedMpscQueue_Push data q)"
proof -
  obtain n where "fuel = 5 + n" using assms(2) le_Suc_ex by blast
  then have fuel: "fuel = Suc (Suc (Suc (Suc (Suc n))))" by simp
  show ?thesis
  proof (cases "\<exists>diff. ptr_diff (cell_sequence (rg_buffer q ! ring_index_of (rg_enqueue_pos q) q)) (rg_enqueue_pos q) = Some diff \<and> 0 < diff")
    case True
    then show ?thesis using push_loops [of q _ fuel data] by (auto simp: BoundedMpscQueue_Push_def ring_index_of_def Let_def)
  next
    case False
    then show ?thesis using assms(1) set_cell_twice [of "q\<lparr>rg_enqueue_pos := rg_enqueue_pos q + 1\<rparr>" "rg_enqueue_pos q"]
      by (auto simp: fuel BoundedMpscQueue_Push_def ring_index_of_def Let_def split: option.splits)
  qed
qed

lemma pop_alone:
  assumes "ring_shape q" and "4 \<le> fuel"
  shows "ring_alone fuel Pop_Sequence q = map_option (\<lambda>(r, q'). (Pop_Done r, q')) (BoundedMpscQueue_TryPop q)"
proof -
  obtain n where "fuel = 4 + n" using assms(2) le_Suc_ex by blast
  then have fuel: "fuel = Suc (Suc (Suc (Suc n)))" by simp
  show ?thesis
    by (auto simp: fuel BoundedMpscQueue_TryPop_def ring_index_of_def set_cell_def Let_def split: option.splits)
qed

section \<open>Interleavings\<close>

text \<open>
  The queue with its producers in the middle of \<open>Push\<close> and its consumer, and what has happened:
  \<open>rr_pushed\<close> the values in the order in which their positions were claimed, \<open>rr_popped\<close> the
  values handed to the consumer.
\<close>

record 'a ring_run =
  rr_ring :: "'a ring"
  rr_producers :: "'a ring_act multiset"
  rr_consumer :: "'a ring_act option"
  rr_pushed :: "'a list"
  rr_popped :: "'a list"

fun continues :: "'a ring_act + 'a ring_end \<Rightarrow> 'a ring_act option" where
  "continues (Inl a) = Some a"
| "continues (Inr r) = None"

fun claims_value :: "'a ring_act \<Rightarrow> 'a ring_act + 'a ring_end \<Rightarrow> 'a list" where
  "claims_value (Push_Exchange data pos) (Inl (Push_Data _ _)) = [data]"
| "claims_value _ _ = []"

fun hands_value :: "'a ring_act \<Rightarrow> 'a list" where
  "hands_value (Pop_Publish (Some data)) = [data]"
| "hands_value _ = []"

inductive ring_step :: "'a ring_run \<Rightarrow> 'a ring_run \<Rightarrow> bool" where
  push: "ring_step x (x\<lparr>rr_producers := add_mset (Push_Load data) (rr_producers x)\<rparr>)"
| pop: "rr_consumer x = None \<Longrightarrow> ring_step x (x\<lparr>rr_consumer := Some Pop_Sequence\<rparr>)"
| producer: "rr_producers x = add_mset a A \<Longrightarrow> ring_advance spurious a (rr_ring x) = Some (q, r) \<Longrightarrow>
    ring_step x (x\<lparr>rr_ring := q, rr_producers := opt_mset (continues r) + A, rr_pushed := rr_pushed x @ claims_value a r\<rparr>)"
| consumer: "rr_consumer x = Some a \<Longrightarrow> ring_advance spurious a (rr_ring x) = Some (q, r) \<Longrightarrow>
    ring_step x (x\<lparr>rr_ring := q, rr_consumer := continues r, rr_popped := rr_popped x @ hands_value a\<rparr>)"

inductive ring_reach :: "u64 \<Rightarrow> 'a ring_run \<Rightarrow> bool" for capacity where
  start: "BoundedMpscQueue_new capacity = Some q \<Longrightarrow>
    ring_reach capacity \<lparr>rr_ring = q, rr_producers = {#}, rr_consumer = None, rr_pushed = [], rr_popped = []\<rparr>"
| step: "ring_reach capacity x \<Longrightarrow> ring_step x y \<Longrightarrow> ring_reach capacity y"

section \<open>The invariant\<close>

text \<open>The positions claimed and not published.\<close>

fun claimed :: "'a ring_act \<Rightarrow> nat multiset" where
  "claimed (Push_Data data pos) = {#unat pos#}"
| "claimed (Push_Publish pos) = {#unat pos#}"
| "claimed _ = {#}"

definition claims :: "'a ring_act multiset \<Rightarrow> nat multiset" where
  "claims A = (\<Sum>a \<in># A. claimed a)"

lemma claims_simps [simp]: "claims {#} = {#}" "claims (add_mset a A) = claimed a + claims A" "claims (A + B) = claims A + claims B"
  by (simp_all add: claims_def)

lemma claims_mem: "a \<in># A \<Longrightarrow> p \<in># claimed a \<Longrightarrow> p \<in># claims A"
  by (auto simp: claims_def)

fun producer_ok :: "'a ring \<Rightarrow> 'a list \<Rightarrow> nat \<Rightarrow> 'a ring_act \<Rightarrow> bool" where
  "producer_ok q vs m (Push_Load data) \<longleftrightarrow> True"
| "producer_ok q vs m (Push_Sequence data pos) \<longleftrightarrow> unat pos \<le> length vs"
| "producer_ok q vs m (Push_Exchange data pos) \<longleftrightarrow> unat pos < m + unat (rg_capacity q)"
| "producer_ok q vs m (Push_Data data pos) \<longleftrightarrow> vs ! unat pos = data"
| "producer_ok q vs m (Push_Publish pos) \<longleftrightarrow> cell_data (ring_cell_at q (unat pos)) = Some (vs ! unat pos)"
| "producer_ok q vs m _ \<longleftrightarrow> False"

text \<open>\<open>m\<close> counts the values handed out; \<open>ready\<close> says that the oldest position left is published.\<close>

fun consumer_ok :: "nat \<Rightarrow> 'a list \<Rightarrow> nat \<Rightarrow> bool \<Rightarrow> 'a ring_act option \<Rightarrow> bool" where
  "consumer_ok d vs m ready None \<longleftrightarrow> d = m"
| "consumer_ok d vs m ready (Some Pop_Sequence) \<longleftrightarrow> d = m"
| "consumer_ok d vs m ready (Some Pop_Data) \<longleftrightarrow> d = m \<and> ready"
| "consumer_ok d vs m ready (Some (Pop_Publish data)) \<longleftrightarrow> d = m \<and> ready \<and> data = Some (vs ! m)"
| "consumer_ok d vs m ready (Some (Pop_Advance data)) \<longleftrightarrow> Suc d = m \<and> data = Some (vs ! d)"
| "consumer_ok d vs m ready _ \<longleftrightarrow> False"

definition cell_ok :: "'a ring \<Rightarrow> nat multiset \<Rightarrow> 'a list \<Rightarrow> nat \<Rightarrow> bool" where
  "cell_ok q P vs p \<longleftrightarrow>
     (if p < length vs \<and> p \<notin># P then cell_sequence (ring_cell_at q p) = word_of_nat (p + 1) \<and> cell_data (ring_cell_at q p) = Some (vs ! p)
      else cell_sequence (ring_cell_at q p) = word_of_nat p)"

definition rc_inv :: "'a ring \<Rightarrow> 'a ring_act multiset \<Rightarrow> 'a ring_act option \<Rightarrow> 'a list \<Rightarrow> nat \<Rightarrow> bool" where
  "rc_inv q A c vs m \<longleftrightarrow> ring_shape q \<and> unat (rg_enqueue_pos q) = length vs
     \<and> m \<le> length vs \<and> length vs \<le> m + unat (rg_capacity q)
     \<and> (\<forall>p. count (claims A) p \<le> (if m \<le> p \<and> p < length vs then 1 else 0))
     \<and> (\<forall>p. m \<le> p \<and> p < m + unat (rg_capacity q) \<longrightarrow> cell_ok q (claims A) vs p)
     \<and> (\<forall>a \<in># A. producer_ok q vs m a)
     \<and> consumer_ok (unat (rg_dequeue_pos q)) vs m (m < length vs \<and> m \<notin># claims A) c"

lemma rc_invD:
  assumes "rc_inv q A c vs m"
  shows "ring_shape q" "unat (rg_enqueue_pos q) = length vs" "m \<le> length vs" "length vs \<le> m + unat (rg_capacity q)"
    and "count (claims A) p \<le> (if m \<le> p \<and> p < length vs then 1 else 0)"
    and "m \<le> p \<Longrightarrow> p < m + unat (rg_capacity q) \<Longrightarrow> cell_ok q (claims A) vs p"
    and "a \<in># A \<Longrightarrow> producer_ok q vs m a"
    and "consumer_ok (unat (rg_dequeue_pos q)) vs m (m < length vs \<and> m \<notin># claims A) c"
  using assms unfolding rc_inv_def by blast+

lemma claimed_range:
  assumes "rc_inv q A c vs m" "p \<in># claims A"
  shows "m \<le> p" "p < length vs"
proof -
  have "count (claims A) p \<noteq> 0" using assms(2) by (simp add: count_eq_zero_iff)
  then have "m \<le> p \<and> p < length vs" using rc_invD(5) [OF assms(1), of p] by (metis le_zero_eq)
  then show "m \<le> p" "p < length vs" by simp_all
qed

lemma index_cell: "ring_shape q \<Longrightarrow> rg_buffer q ! ring_index_of pos q = ring_cell_at q (unat pos)"
  by (simp only: ring_index_of_def ring_index(1))

lemma set_cell_fields [simp]:
  "rg_capacity (set_cell pos f q) = rg_capacity q" "rg_mask (set_cell pos f q) = rg_mask q"
  "rg_enqueue_pos (set_cell pos f q) = rg_enqueue_pos q" "rg_dequeue_pos (set_cell pos f q) = rg_dequeue_pos q"
  "ring_shape (set_cell pos f q) = ring_shape q"
  by (simp_all add: set_cell_def ring_shape_def)

lemma ring_cell_set:
  assumes "ring_shape q"
  shows "ring_cell_at (set_cell pos f q) p =
    (if p mod unat (rg_capacity q) = unat pos mod unat (rg_capacity q) then f (ring_cell_at q p) else ring_cell_at q p)"
proof -
  have "ring_index_of pos q = unat pos mod unat (rg_capacity q)" "ring_index_of pos q < length (rg_buffer q)"
    unfolding ring_index_of_def by (rule ring_index(2) [OF assms], rule ring_index(3) [OF assms])
  then show ?thesis by (auto simp: ring_cell_at_def set_cell_def)
qed

lemma ring_cell_pos [simp]:
  "ring_cell_at (q\<lparr>rg_enqueue_pos := e\<rparr>) p = ring_cell_at q p" "ring_cell_at (q\<lparr>rg_dequeue_pos := d\<rparr>) p = ring_cell_at q p"
  "ring_shape (q\<lparr>rg_dequeue_pos := d\<rparr>) = ring_shape q"
  by (simp_all add: ring_cell_at_def ring_shape_def)

lemma producer_ok_pos [simp]: "producer_ok (q\<lparr>rg_dequeue_pos := d\<rparr>) vs m = producer_ok q vs m"
proof
  fix a show "producer_ok (q\<lparr>rg_dequeue_pos := d\<rparr>) vs m a = producer_ok q vs m a" by (cases a) simp_all
qed

text \<open>The sequence number a thread finds at a position up to the end of the window.\<close>

lemma cell_mod: "ring_cell_at q (p mod unat (rg_capacity q)) = ring_cell_at q p"
  by (simp add: ring_cell_at_def)

lemma window_of:
  fixes p c m :: nat
  assumes "0 < c"
  shows "\<exists>w. m \<le> w \<and> w < m + c \<and> w mod c = p mod c"
proof -
  let ?w = "m + (p + c * m - m) mod c"
  have "?w mod c = (m + (p + c * m - m)) mod c" by (simp add: mod_simps)
  also have "m + (p + c * m - m) = p + c * m" using assms by (simp add: le_add2 trans_le_add2)
  finally have "?w mod c = p mod c" by simp
  then show ?thesis using assms by (intro exI [of _ ?w]) simp
qed

lemma sequence_at:
  assumes inv: "rc_inv q A c vs m" and bound: "length vs + unat (rg_capacity q) < 2 ^ 63" and p: "p \<le> length vs"
  shows "\<exists>s. cell_sequence (ring_cell_at q p) = word_of_nat s \<and> s \<le> length vs + unat (rg_capacity q)
    \<and> (p < m + unat (rg_capacity q) \<longrightarrow> p \<le> s) \<and> (s = p \<longrightarrow> p < m + unat (rg_capacity q))
    \<and> (s < p \<longrightarrow> length vs = m + unat (rg_capacity q))"
proof -
  let ?c = "unat (rg_capacity q)"
  note i = rc_invD [OF inv]
  have c: "2 \<le> ?c" by (rule ring_capacity_ge2 [OF i(1)])
  obtain w where w: "m \<le> w" "w < m + ?c" "w mod ?c = p mod ?c" using window_of [of ?c m p] c by auto
  define s where "s = (if w < length vs \<and> w \<notin># claims A then w + 1 else w)"
  have "cell_sequence (ring_cell_at q w) = word_of_nat s" using i(6) [OF w(1,2)] by (auto simp: cell_ok_def s_def split: if_splits)
  moreover have "ring_cell_at q w = ring_cell_at q p" using w(3) by (simp add: ring_cell_at_def)
  moreover have s: "w \<le> s" "s \<le> w + 1" by (simp_all add: s_def)
  moreover have "w = p" if "m \<le> p" "p < m + ?c" using window_mod_inj [OF w(3) w(1,2)] that by simp
  moreover have "w = m" if "p = m + ?c" using window_mod_inj [of w ?c m m] w that c by simp
  moreover have "p \<le> m + ?c" using p i(4) by simp
  ultimately show ?thesis using w(1,2) c i(3,4) p by (intro exI [of _ s]) (cases "m \<le> p"; cases "p = m + ?c"; auto)
qed

section \<open>Preservation\<close>

lemma rc_inv_frame:
  assumes inv: "rc_inv q (add_mset a A) c vs m"
    and a: "claimed a = {#}" "\<And>b. nxt = Some b \<Longrightarrow> claimed b = {#} \<and> producer_ok q vs m b"
  shows "rc_inv q (opt_mset nxt + A) c vs m"
proof -
  have same: "claims (opt_mset nxt + A) = claims (add_mset a A)" using a by (cases nxt) auto
  have "\<forall>b \<in># opt_mset nxt + A. producer_ok q vs m b" using rc_invD(7) [OF inv] a(2) by (cases nxt) auto
  then show ?thesis using rc_invD(1-6,8) [OF inv] unfolding rc_inv_def same by blast
qed

lemma rc_inv_claim:
  assumes inv: "rc_inv q (add_mset (Push_Exchange data pos) A) c vs m" and pos: "rg_enqueue_pos q = pos"
    and bound: "Suc (length vs) + unat (rg_capacity q) < 2 ^ 63"
  shows "rc_inv (q\<lparr>rg_enqueue_pos := pos + 1\<rparr>) (add_mset (Push_Data data pos) A) c (vs @ [data]) m"
proof -
  let ?q = "q\<lparr>rg_enqueue_pos := pos + 1\<rparr>"
  note i = rc_invD [OF inv]
  have n: "unat pos = length vs" "length vs < m + unat (rg_capacity q)" using i(2) i(7) [of "Push_Exchange data pos"] pos by simp_all
  have "unat (pos + 1) = Suc (length vs)" using unat_succ63 [of pos] n(1) bound by simp
  moreover have "count (claims (add_mset (Push_Data data pos) A)) p \<le> (if m \<le> p \<and> p < length (vs @ [data]) then 1 else 0)" for p
    using i(5) [of p] i(3) n(1) by (auto split: if_splits)
  moreover have "cell_ok ?q (claims (add_mset (Push_Data data pos) A)) (vs @ [data]) p" if "m \<le> p" "p < m + unat (rg_capacity q)" for p
    using i(6) [OF that] n(1) by (auto simp: cell_ok_def nth_append split: if_splits)
  moreover have "producer_ok ?q (vs @ [data]) m a" if a: "a \<in># A" for a
  proof -
    have "p < length vs" if "p \<in># claimed a" for p using claimed_range(2) [OF inv, of p] claims_mem [OF a that] by simp
    then show ?thesis using i(7) [of a] a by (cases a) (auto simp: nth_append)
  qed
  moreover have "consumer_ok (unat (rg_dequeue_pos ?q)) (vs @ [data]) m
      (m < length (vs @ [data]) \<and> m \<notin># claims (add_mset (Push_Data data pos) A)) c"
    using i(3,8) n(1) by (cases "(unat (rg_dequeue_pos q), vs, m, (m < length vs \<and> m \<notin># claims (add_mset (Push_Exchange data pos) A)), c)"
      rule: consumer_ok.cases) (auto simp: nth_append)
  ultimately show ?thesis using i(1-4) n unfolding rc_inv_def by auto
qed

lemma other_cell:
  assumes "m \<le> p" "p < m + c" "m \<le> r" "r < m + c" "p \<noteq> r"
  shows "p mod c \<noteq> r mod (c :: nat)"
  using window_mod_inj [of p c r m] assms by blast

lemma rc_inv_write:
  assumes inv: "rc_inv q (add_mset (Push_Data data pos) A) c vs m"
  shows "rc_inv (set_cell pos (cell_data_update (\<lambda>_. Some data)) q) (add_mset (Push_Publish pos) A) c vs m" (is "rc_inv ?q _ _ _ _")
proof -
  note i = rc_invD [OF inv]
  have mine: "unat pos \<in># claims (add_mset (Push_Data data pos) A)" by simp
  have range: "m \<le> unat pos" "unat pos < length vs" using claimed_range [OF inv mine] by simp_all
  have cell: "cell_sequence (ring_cell_at ?q p) = cell_sequence (ring_cell_at q p)" for p by (simp add: ring_cell_set [OF i(1)])
  have data: "cell_data (ring_cell_at ?q p) = cell_data (ring_cell_at q p)"
    if "p \<noteq> unat pos" "m \<le> p" "p < m + unat (rg_capacity q)" for p
    using other_cell [OF that(2,3) range(1)] range(2) i(4) that(1) by (simp add: ring_cell_set [OF i(1)])
  have "cell_ok ?q (claims (add_mset (Push_Publish pos) A)) vs p" if "m \<le> p" "p < m + unat (rg_capacity q)" for p
    using i(6) [OF that] data [OF _ that] by (auto simp: cell_ok_def cell split: if_splits)
  moreover have "producer_ok ?q vs m a" if a: "a \<in># A" for a
  proof (cases "\<exists>r. a = Push_Publish r")
    case True
    then obtain r where r: "a = Push_Publish r" by blast
    have other: "unat r \<in># claims A" using claims_mem [OF a, of "unat r"] r by simp
    then have "m \<le> unat r" "unat r < length vs" using claimed_range [OF inv, of "unat r"] by simp_all
    have "unat pos \<notin># claims A" using i(5) [of "unat pos"] by (auto simp: not_in_iff split: if_splits)
    then have "unat r \<noteq> unat pos" using other by metis
    then show ?thesis using data [of "unat r"] \<open>m \<le> unat r\<close> \<open>unat r < length vs\<close> i(4) i(7) [of a] a r by simp
  next
    case False
    then show ?thesis using i(7) [of a] a by (cases a) auto
  qed
  moreover have "producer_ok ?q vs m (Push_Publish pos)"
    using i(7) [of "Push_Data data pos"] by (simp add: ring_cell_set [OF i(1)])
  ultimately show ?thesis using i(1-5,8) unfolding rc_inv_def by auto
qed

lemma rc_inv_publish:
  assumes inv: "rc_inv q (add_mset (Push_Publish pos) A) c vs m"
  shows "rc_inv (set_cell pos (cell_sequence_update (\<lambda>_. pos + 1)) q) A c vs m" (is "rc_inv ?q _ _ _ _")
proof -
  note i = rc_invD [OF inv]
  have mine: "unat pos \<in># claims (add_mset (Push_Publish pos) A)" by simp
  have range: "m \<le> unat pos" "unat pos < length vs" using claimed_range [OF inv mine] by simp_all
  have gone: "unat pos \<notin># claims A" using i(5) [of "unat pos"] by (auto simp: not_in_iff split: if_splits)
  have data: "cell_data (ring_cell_at ?q p) = cell_data (ring_cell_at q p)" for p by (simp add: ring_cell_set [OF i(1)])
  have w: "word_of_nat (unat pos + 1) = pos + 1" by simp
  have "cell_ok ?q (claims A) vs p" if p: "m \<le> p" "p < m + unat (rg_capacity q)" for p
  proof (cases "p = unat pos")
    case True
    then show ?thesis using i(7) [of "Push_Publish pos"] gone range(2) w by (simp add: cell_ok_def ring_cell_set [OF i(1)])
  next
    case False
    then have "ring_cell_at ?q p = ring_cell_at q p"
      using other_cell [OF p range(1)] range(2) i(4) by (simp add: ring_cell_set [OF i(1)])
    then show ?thesis using i(6) [OF p] False by (simp add: cell_ok_def)
  qed
  moreover have "producer_ok ?q vs m a" if a: "a \<in># A" for a
    using i(7) [of a] a data by (cases a) auto
  moreover have "count (claims A) p \<le> (if m \<le> p \<and> p < length vs then 1 else 0)" for p
    using i(5) [of p] by (simp split: if_splits)
  moreover have "consumer_ok (unat (rg_dequeue_pos ?q)) vs m (m < length vs \<and> m \<notin># claims A) c"
    using i(8) by (cases "(unat (rg_dequeue_pos q), vs, m, (m < length vs \<and> m \<notin># claims (add_mset (Push_Publish pos) A)), c)"
      rule: consumer_ok.cases) auto
  ultimately show ?thesis using i(1-4) unfolding rc_inv_def by auto
qed

text \<open>The consumer.\<close>

lemma rc_inv_consumer:
  assumes "rc_inv q A c vs m" and "consumer_ok (unat (rg_dequeue_pos q)) vs m (m < length vs \<and> m \<notin># claims A) c'"
  shows "rc_inv q A c' vs m"
  using rc_invD(1-7) [OF assms(1)] assms(2) unfolding rc_inv_def by blast

lemma rc_inv_hand_over:
  assumes inv: "rc_inv q A (Some (Pop_Publish data)) vs m" and bound: "length vs + unat (rg_capacity q) < 2 ^ 63"
  shows "rc_inv (set_cell (rg_dequeue_pos q) (cell_sequence_update (\<lambda>_. rg_dequeue_pos q + rg_capacity q)) q) A
    (Some (Pop_Advance data)) vs (Suc m)" (is "rc_inv ?q _ _ _ _")
proof -
  let ?c = "unat (rg_capacity q)"
  note i = rc_invD [OF inv]
  have m: "unat (rg_dequeue_pos q) = m" "m < length vs" "m \<notin># claims A" using i(8) by simp_all
  have w: "word_of_nat (m + ?c) = rg_dequeue_pos q + rg_capacity q" by (simp flip: m(1))
  have data: "cell_data (ring_cell_at ?q p) = cell_data (ring_cell_at q p)" for p by (simp add: ring_cell_set [OF i(1)])
  have "cell_ok ?q (claims A) vs p" if p: "Suc m \<le> p" "p < Suc m + ?c" for p
  proof (cases "p = m + ?c")
    case True
    then show ?thesis using i(4) m(1) w by (simp add: cell_ok_def ring_cell_set [OF i(1)])
  next
    case False
    then have "p mod ?c \<noteq> m mod ?c" using other_cell [of m p ?c m] p by simp
    then have "ring_cell_at ?q p = ring_cell_at q p" using m(1) by (simp add: ring_cell_set [OF i(1)])
    then show ?thesis using i(6) [of p] p False by (simp add: cell_ok_def)
  qed
  moreover have "count (claims A) p \<le> (if Suc m \<le> p \<and> p < length vs then 1 else 0)" for p
    using i(5) [of p] m(3) by (cases "p = m") (auto simp: not_in_iff split: if_splits)
  moreover have "producer_ok ?q vs (Suc m) a" if a: "a \<in># A" for a
    using i(7) [OF a] data by (cases a) auto
  ultimately show ?thesis using i(1-4,8) m unfolding rc_inv_def by auto
qed

text \<open>A step of a producer, and what an answer of \<open>Push\<close> says.\<close>

lemma producer_steps:
  assumes inv: "rc_inv q (add_mset a A) c vs m" and bound: "Suc (length vs) + unat (rg_capacity q) < 2 ^ 63"
  shows "\<exists>q' r. ring_advance spurious a q = Some (q', r)
    \<and> rc_inv q' (opt_mset (continues r) + A) c (vs @ claims_value a r) m \<and> rg_capacity q' = rg_capacity q
    \<and> (r = Inr (Push_Done False) \<longrightarrow> length vs = m + unat (rg_capacity q))"
proof -
  note i = rc_invD [OF inv]
  have ok: "producer_ok q vs m a" using i(7) [of a] by simp
  show ?thesis
  proof (cases a)
    case (Push_Load data)
    then show ?thesis using rc_inv_frame [of q a A c vs m "Some (Push_Sequence data (rg_enqueue_pos q))"] inv i(2)
      by simp
  next
    case (Push_Sequence data pos)
    have le: "unat pos \<le> length vs" using ok Push_Sequence by simp
    obtain s where s: "cell_sequence (ring_cell_at q (unat pos)) = word_of_nat s" "s \<le> length vs + unat (rg_capacity q)"
        "s = unat pos \<longrightarrow> unat pos < m + unat (rg_capacity q)" "s < unat pos \<longrightarrow> length vs = m + unat (rg_capacity q)"
      using sequence_at [OF inv _ le] bound by auto
    define d where "d = int s - int (unat pos)"
    have "ptr_diff (word_of_nat s) (word_of_nat (unat pos)) = Some d"
      using s(2) le bound unfolding d_def by (intro ptr_diff_small) auto
    then have diff: "ptr_diff (cell_sequence (rg_buffer q ! ring_index_of pos q)) pos = Some d"
      using s(1) by (simp add: index_cell [OF i(1)])
    have "d = 0 \<longleftrightarrow> s = unat pos" "d < 0 \<longleftrightarrow> s < unat pos" unfolding d_def by linarith+
    then have sign: "d = 0 \<Longrightarrow> unat pos < m + unat (rg_capacity q)" "d < 0 \<Longrightarrow> length vs = m + unat (rg_capacity q)"
      using s(3,4) by blast+
    show ?thesis
      using rc_inv_frame [of q a A c vs m "Some (Push_Exchange data pos)"] rc_inv_frame [of q a A c vs m None]
        rc_inv_frame [of q a A c vs m "Some (Push_Load data)"] inv sign Push_Sequence diff
      by (cases "d = 0"; cases "d < 0") simp_all
  next
    case (Push_Exchange data pos)
    show ?thesis
    proof (cases "rg_enqueue_pos q = pos \<and> \<not> spurious")
      case True
      then show ?thesis using rc_inv_claim [of q data pos A c vs m] inv bound Push_Exchange by simp
    next
      case False
      then show ?thesis using rc_inv_frame [of q a A c vs m "Some (Push_Sequence data (rg_enqueue_pos q))"] inv i(2) Push_Exchange
        by auto
    qed
  next
    case (Push_Data data pos)
    then show ?thesis using rc_inv_write [of q data pos A c vs m] inv by simp
  next
    case (Push_Publish pos)
    then show ?thesis using rc_inv_publish [of q pos A c vs m] inv by simp
  qed (use ok in simp_all)
qed

text \<open>A step of the consumer, and what an answer of \<open>Pop\<close> says.\<close>

lemma consumer_steps:
  assumes inv: "rc_inv q A (Some a) vs m" and bound: "Suc (length vs) + unat (rg_capacity q) < 2 ^ 63"
  shows "\<exists>q' r. ring_advance spurious a q = Some (q', r)
    \<and> rc_inv q' A (continues r) vs (m + length (hands_value a)) \<and> rg_capacity q' = rg_capacity q
    \<and> hands_value a = take (length (hands_value a)) (drop m vs)
    \<and> (\<forall>e. r \<noteq> Inr (Pop_Done (Inl e)))
    \<and> (\<forall>v. r = Inr (Pop_Done (Inr (Some v))) \<longrightarrow> 0 < m \<and> v = vs ! (m - 1))
    \<and> (r = Inr (Pop_Done (Inr None)) \<longrightarrow> a = Pop_Sequence \<and> (m = length vs \<or> m \<in># claims A))"
proof -
  note i = rc_invD [OF inv]
  show ?thesis
  proof (cases a)
    case Pop_Sequence
    then have d: "unat (rg_dequeue_pos q) = m" using i(8) by simp
    have c: "2 \<le> unat (rg_capacity q)" by (rule ring_capacity_ge2 [OF i(1)])
    define s where "s = (if m < length vs \<and> m \<notin># claims A then m + 1 else m)"
    have s: "cell_sequence (ring_cell_at q m) = word_of_nat s"
      using i(6) [of m] c by (auto simp: cell_ok_def s_def split: if_splits)
    have "ptr_diff (word_of_nat s) (word_of_nat (m + 1)) = Some (int s - int (m + 1))"
      using i(3) bound c by (intro ptr_diff_small) (auto simp: s_def)
    moreover have "word_of_nat (m + 1) = rg_dequeue_pos q + 1" by (simp add: add.commute flip: d)
    ultimately have diff: "ptr_diff (cell_sequence (rg_buffer q ! ring_index_of (rg_dequeue_pos q) q)) (rg_dequeue_pos q + 1)
        = Some (int s - int (m + 1))" using s by (simp only: index_cell [OF i(1)] d)
    show ?thesis using rc_inv_consumer [OF inv, of None] rc_inv_consumer [OF inv, of "Some Pop_Data"] Pop_Sequence diff d i(3)
      by (simp add: s_def)
  next
    case Pop_Data
    then have d: "unat (rg_dequeue_pos q) = m" "m < length vs" "m \<notin># claims A" using i(8) by simp_all
    have "cell_data (ring_cell_at q m) = Some (vs ! m)"
      using i(6) [of m] ring_capacity_ge2 [OF i(1)] d by (simp add: cell_ok_def)
    then show ?thesis using rc_inv_consumer [OF inv, of "Some (Pop_Publish (Some (vs ! m)))"] Pop_Data d
      by (simp add: index_cell [OF i(1)])
  next
    case (Pop_Publish data)
    then have d: "m < length vs" "data = Some (vs ! m)" using i(8) by simp_all
    then have "take 1 (drop m vs) = [vs ! m]" by (simp add: take_Suc_conv_app_nth Cons_nth_drop_Suc [symmetric])
    then show ?thesis using rc_inv_hand_over [of q A data vs m] inv bound Pop_Publish d by simp
  next
    case (Pop_Advance data)
    then have d: "Suc (unat (rg_dequeue_pos q)) = m" "data = Some (vs ! (m - 1))" using i(8) by auto
    then have "unat (rg_dequeue_pos q + 1) = m" using unat_succ63 [of "rg_dequeue_pos q"] i(3) bound by simp
    then have "rc_inv (q\<lparr>rg_dequeue_pos := rg_dequeue_pos q + 1\<rparr>) A None vs m"
      using i unfolding rc_inv_def cell_ok_def by simp
    then show ?thesis using Pop_Advance d by simp
  qed (use i(8) in simp_all)
qed

section \<open>Every interleaving\<close>

lemma ring_start:
  assumes "unat capacity \<le> 2 ^ 61" "BoundedMpscQueue_new capacity = Some q"
  shows "rc_inv q {#} None [] 0" "max 2 (unat capacity) \<le> unat (rg_capacity q)" "unat (rg_capacity q) < 2 * max 2 (unat capacity)"
    "unat (rg_capacity q) \<le> 2 ^ 61"
proof -
  have q: "ring_inv q" "ring_contents q = []" "max 2 (unat capacity) \<le> unat (rg_capacity q)"
      "unat (rg_capacity q) < 2 * max 2 (unat capacity)" "unat (rg_capacity q) \<le> 2 ^ 61" "rg_enqueue_pos q = 0"
    using ring_new [OF assms(1), where 'a = 'a] unfolding assms(2) by blast+
  have "unat (rg_dequeue_pos q) = 0" using q(1,6) by (auto simp: ring_inv_def)
  then show "rc_inv q {#} None [] 0" using q(1,6) by (auto simp: rc_inv_def ring_inv_def cell_ok_def)
  show "max 2 (unat capacity) \<le> unat (rg_capacity q)" "unat (rg_capacity q) < 2 * max 2 (unat capacity)" "unat (rg_capacity q) \<le> 2 ^ 61"
    using q(3-5) by simp_all
qed

definition run_inv :: "u64 \<Rightarrow> 'a ring_run \<Rightarrow> bool" where
  "run_inv c x \<longleftrightarrow> rc_inv (rr_ring x) (rr_producers x) (rr_consumer x) (rr_pushed x) (length (rr_popped x))
     \<and> rr_popped x = take (length (rr_popped x)) (rr_pushed x) \<and> rg_capacity (rr_ring x) = c"

lemma take_drop_take: "l = take (length l) (drop n xs) \<Longrightarrow> take n xs @ l = take (n + length l) xs"
  by (metis take_add)

lemma run_inv_step:
  assumes "ring_step x y" "run_inv c x" "Suc (length (rr_pushed x)) + unat c < 2 ^ 63"
  shows "run_inv c y"
  using assms
proof (cases rule: ring_step.cases)
  case (push data)
  then show ?thesis using assms(2) by (auto simp: run_inv_def rc_inv_def)
next
  case pop
  then show ?thesis using assms(2) by (auto simp: run_inv_def rc_inv_def)
next
  case (producer a A spurious q r)
  have "rc_inv (rr_ring x) (add_mset a A) (rr_consumer x) (rr_pushed x) (length (rr_popped x))"
    using assms(2) producer(2) by (simp add: run_inv_def)
  then show ?thesis using producer_steps [of "rr_ring x" a A "rr_consumer x" "rr_pushed x" "length (rr_popped x)" spurious]
      producer assms(2,3) rc_invD(3) [of "rr_ring x" "add_mset a A" "rr_consumer x" "rr_pushed x" "length (rr_popped x)"]
    by (auto simp: run_inv_def)
next
  case (consumer a spurious q r)
  have "rc_inv (rr_ring x) (rr_producers x) (Some a) (rr_pushed x) (length (rr_popped x))"
    using assms(2) consumer(2) by (simp add: run_inv_def)
  then have st: "rc_inv q (rr_producers x) (continues r) (rr_pushed x) (length (rr_popped x @ hands_value a))"
      "rg_capacity q = rg_capacity (rr_ring x)"
      "hands_value a = take (length (hands_value a)) (drop (length (rr_popped x)) (rr_pushed x))"
    using consumer_steps [of "rr_ring x" "rr_producers x" a "rr_pushed x" "length (rr_popped x)" spurious] consumer assms(2,3)
    by (auto simp: run_inv_def)
  have "rr_popped x = take (length (rr_popped x)) (rr_pushed x)" "rg_capacity (rr_ring x) = c" using assms(2) by (simp_all add: run_inv_def)
  then have "rr_popped x @ hands_value a = take (length (rr_popped x @ hands_value a)) (rr_pushed x)" "rg_capacity q = c"
    using take_drop_take [OF st(3)] st(2) by (metis length_append, simp)
  moreover have "rr_popped y = rr_popped x @ hands_value a" using consumer(1) by simp
  ultimately show ?thesis using st(1) consumer(1) unfolding run_inv_def by (simp del: length_append)
qed

lemma pushed_grows: "ring_step x y \<Longrightarrow> length (rr_pushed x) \<le> length (rr_pushed y)"
  by (induction rule: ring_step.induct) simp_all

lemma ring_reach_inv:
  assumes "ring_reach capacity x" "unat capacity \<le> 2 ^ 61" "length (rr_pushed x) \<le> 2 ^ 61"
  shows "\<exists>c. run_inv c x \<and> max 2 (unat capacity) \<le> unat c \<and> unat c < 2 * max 2 (unat capacity) \<and> unat c \<le> 2 ^ 61"
  using assms
proof (induction rule: ring_reach.induct)
  case (start q)
  then show ?case using ring_start [of capacity q] by (auto simp: run_inv_def)
next
  case (step x y)
  have less: "length (rr_pushed x) \<le> 2 ^ 61" using pushed_grows [OF step(2)] step(5) by simp
  then obtain c where c: "run_inv c x" "max 2 (unat capacity) \<le> unat c" "unat c < 2 * max 2 (unat capacity)" "unat c \<le> 2 ^ 61"
    using step.IH step(4) by blast
  have "run_inv c y" by (rule run_inv_step [OF step(2) c(1)]) (use c(4) less in simp)
  then show ?case using c by blast
qed

text \<open>
  C11: the bounded mailbox queue under any number of concurrent producers and its consumer,
  access by access and in every interleaving (up to \<open>2 ^ 61\<close> pushes): the values handed to the
  consumer are the first of the values pushed, in the order in which their positions were
  claimed, and at most the capacity are left; no step runs into undefined arithmetic and \<open>Pop\<close>
  never throws; \<open>Push\<close> answers that the queue is full only when the capacity is left in it, and
  \<open>Pop\<close> that it is empty only when nothing is left or the oldest value left is one whose \<open>Push\<close>
  has not returned; the value handed over is the oldest one left, and the one \<open>Pop\<close> returns.
\<close>

theorem ring_is_fifo_in_any_interleaving:
  assumes "unat capacity \<le> 2 ^ 61" and "ring_reach capacity x" and "length (rr_pushed x) \<le> 2 ^ 61"
  shows "\<exists>rest c. rr_pushed x = rr_popped x @ rest \<and> length rest \<le> c \<and> c = unat (rg_capacity (rr_ring x))
    \<and> max 2 (unat capacity) \<le> c \<and> c < 2 * max 2 (unat capacity)
    \<and> (\<forall>a A spurious. rr_producers x = add_mset a A \<longrightarrow>
        (\<exists>q r. ring_advance spurious a (rr_ring x) = Some (q, r) \<and> (r = Inr (Push_Done False) \<longrightarrow> length rest = c)))
    \<and> (\<forall>a spurious. rr_consumer x = Some a \<longrightarrow>
        (\<exists>q r. ring_advance spurious a (rr_ring x) = Some (q, r)
          \<and> hands_value a = take (length (hands_value a)) rest \<and> (\<forall>e. r \<noteq> Inr (Pop_Done (Inl e)))
          \<and> (\<forall>v. r = Inr (Pop_Done (Inr (Some v))) \<longrightarrow> rr_popped x \<noteq> [] \<and> v = last (rr_popped x))
          \<and> (r = Inr (Pop_Done (Inr None)) \<longrightarrow> rest = [] \<or> (\<exists>b \<in># rr_producers x. length (rr_popped x) \<in># claimed b))))"
proof -
  obtain c where c: "run_inv c x" "max 2 (unat capacity) \<le> unat c" "unat c < 2 * max 2 (unat capacity)" "unat c \<le> 2 ^ 61"
    using ring_reach_inv [OF assms(2,1,3)] by blast
  define rest where "rest = drop (length (rr_popped x)) (rr_pushed x)"
  have inv: "rc_inv (rr_ring x) (rr_producers x) (rr_consumer x) (rr_pushed x) (length (rr_popped x))"
    and pre: "rr_popped x = take (length (rr_popped x)) (rr_pushed x)" and cap: "rg_capacity (rr_ring x) = c"
    using c(1) by (simp_all add: run_inv_def)
  have split: "rr_pushed x = rr_popped x @ rest" unfolding rest_def by (metis append_take_drop_id pre)
  have bound: "Suc (length (rr_pushed x)) + unat (rg_capacity (rr_ring x)) < 2 ^ 63" using c(4) assms(3) cap by simp
  have len: "length (rr_pushed x) = length (rr_popped x) + length rest" using split by simp
  have lst: "rr_popped x \<noteq> []" "rr_pushed x ! (length (rr_popped x) - 1) = last (rr_popped x)" if "0 < length (rr_popped x)"
    using that by (auto simp: split nth_append last_conv_nth)
  have producers: "\<exists>q r. ring_advance spurious a (rr_ring x) = Some (q, r) \<and> (r = Inr (Push_Done False) \<longrightarrow> length rest = unat c)"
    if "rr_producers x = add_mset a A" for a A spurious
    using producer_steps [of "rr_ring x" a A "rr_consumer x" "rr_pushed x" "length (rr_popped x)" spurious] inv bound that cap len by auto
  have empty: "rest = [] \<or> (\<exists>b \<in># rr_producers x. length (rr_popped x) \<in># claimed b)"
    if "length (rr_popped x) = length (rr_pushed x) \<or> length (rr_popped x) \<in># claims (rr_producers x)"
    using that len by (auto simp: claims_def)
  have consumer: "\<exists>q r. ring_advance spurious a (rr_ring x) = Some (q, r)
      \<and> hands_value a = take (length (hands_value a)) rest \<and> (\<forall>e. r \<noteq> Inr (Pop_Done (Inl e)))
      \<and> (\<forall>v. r = Inr (Pop_Done (Inr (Some v))) \<longrightarrow> rr_popped x \<noteq> [] \<and> v = last (rr_popped x))
      \<and> (r = Inr (Pop_Done (Inr None)) \<longrightarrow> rest = [] \<or> (\<exists>b \<in># rr_producers x. length (rr_popped x) \<in># claimed b))"
    if busy: "rr_consumer x = Some a" for a spurious
  proof -
    obtain q r where st: "ring_advance spurious a (rr_ring x) = Some (q, r)"
        "hands_value a = take (length (hands_value a)) rest" "\<forall>e. r \<noteq> Inr (Pop_Done (Inl e))"
        "\<forall>v. r = Inr (Pop_Done (Inr (Some v))) \<longrightarrow>
          0 < length (rr_popped x) \<and> v = rr_pushed x ! (length (rr_popped x) - 1)"
        "r = Inr (Pop_Done (Inr None)) \<longrightarrow> a = Pop_Sequence
          \<and> (length (rr_popped x) = length (rr_pushed x) \<or> length (rr_popped x) \<in># claims (rr_producers x))"
      using consumer_steps [OF inv [unfolded busy] bound, of spurious] unfolding rest_def [symmetric] by blast
    have "\<forall>v. r = Inr (Pop_Done (Inr (Some v))) \<longrightarrow> rr_popped x \<noteq> [] \<and> v = last (rr_popped x)" using st(4) lst by blast
    moreover have "r = Inr (Pop_Done (Inr None)) \<longrightarrow> rest = [] \<or> (\<exists>b \<in># rr_producers x. length (rr_popped x) \<in># claimed b)"
      using st(5) empty by blast
    ultimately show ?thesis using st(1-3) by blast
  qed
  have "length rest \<le> unat c" using rc_invD(4) [OF inv] cap len by simp
  then show ?thesis using split c(2,3) cap producers consumer by (intro exI [of _ rest] exI [of _ "unat c"] conjI allI impI) simp_all
qed

text \<open>Two producers and the consumer on a ring of two cells.\<close>

definition ring_demo_at :: "nat ring_act multiset \<Rightarrow> nat ring_act option \<Rightarrow> u64 \<Rightarrow> nat list \<Rightarrow> nat ring_run" where
  "ring_demo_at A c e vs =
     \<lparr>rr_ring = \<lparr>rg_capacity = 2, rg_mask = 1, rg_buffer = [\<lparr>cell_sequence = 0, cell_data = None\<rparr>, \<lparr>cell_sequence = 1, cell_data = None\<rparr>],
        rg_enqueue_pos = e, rg_dequeue_pos = 0\<rparr>,
      rr_producers = A, rr_consumer = c, rr_pushed = vs, rr_popped = []\<rparr>"

definition ring_demo :: "nat ring_run" where
  "ring_demo = ring_demo_at {#Push_Data 7 0, Push_Load 8#} (Some Pop_Sequence) 1 [7]"

lemma ring_demo_step:
  assumes "ring_reach 2 (ring_demo_at (add_mset a A) c e vs)"
    and "ring_advance False a (rr_ring (ring_demo_at (add_mset a A) c e vs)) = Some (rr_ring (ring_demo_at {#} c e' []), Inl b)"
  shows "ring_reach 2 (ring_demo_at (add_mset b A) c e' (vs @ claims_value a (Inl b)))"
  using ring_reach.step [OF assms(1) ring_step.producer [OF _ assms(2), of A]] by (simp add: ring_demo_at_def)

lemma ring_demo_reach: "ring_reach 2 ring_demo"
proof -
  have "BoundedMpscQueue_new 2 = Some (rr_ring (ring_demo_at {#} None 0 []))" by code_simp
  from ring_reach.start [OF this] have "ring_reach 2 (ring_demo_at {#} None 0 [])" by (simp add: ring_demo_at_def)
  from ring_reach.step [OF this ring_step.push [where data = 7]]
  have "ring_reach 2 (ring_demo_at {#Push_Load 7#} None 0 [])" by (simp add: ring_demo_at_def)
  from ring_reach.step [OF this ring_step.pop]
  have "ring_reach 2 (ring_demo_at {#Push_Load 7#} (Some Pop_Sequence) 0 [])" by (simp add: ring_demo_at_def)
  from ring_demo_step [OF this, of 0 "Push_Sequence 7 0"]
  have "ring_reach 2 (ring_demo_at {#Push_Sequence 7 0#} (Some Pop_Sequence) 0 [])" by (simp add: ring_demo_at_def)
  from ring_demo_step [OF this, of 0 "Push_Exchange 7 0"]
  have "ring_reach 2 (ring_demo_at {#Push_Exchange 7 0#} (Some Pop_Sequence) 0 [])"
    by (simp add: ring_demo_at_def ring_index_of_def ptr_diff_def)
  from ring_demo_step [OF this, of 1 "Push_Data 7 0"]
  have "ring_reach 2 (ring_demo_at {#Push_Data 7 0#} (Some Pop_Sequence) 1 [7])" by (simp add: ring_demo_at_def)
  from ring_reach.step [OF this ring_step.push [where data = 8]]
  show ?thesis by (simp add: ring_demo_def ring_demo_at_def add_mset_commute)
qed

theorem ring_is_fifo_in_any_interleaving_witness:
  "\<exists>rest c. rr_pushed ring_demo = rr_popped ring_demo @ rest \<and> length rest \<le> c \<and> rest = [7]"
proof -
  have "unat (2 :: u64) \<le> 2 ^ 61" by simp
  then show ?thesis using ring_is_fifo_in_any_interleaving [OF _ ring_demo_reach]
    by (auto simp: ring_demo_def ring_demo_at_def)
qed

end
