(* ===== verification/Util.thy ===== *)
theory Util
  imports Exa_Prelude
begin

text \<open>
  The utilities of \<open>util.h\<close>: \<open>ScopeGuard\<close>, the sender adaptors \<open>SenderVariant\<close> and
  \<open>DiscardResult\<close>, the preallocated slot that actors schedule themselves with, and the
  semaphore with its \<open>OnDrained\<close> sender. The semaphore is a step relation: its callers are
  activities that advance in any order, one atomic access or one critical section per step.
\<close>

section \<open>ScopeGuard\<close>

text \<open>
  The cleanup of a guard is an action on the surrounding state; \<open>active_\<close> says whether the
  destructor runs it. The move constructor returns (new guard, moved-from guard).
\<close>

record 's scope_guard =
  sg_cleanup :: "'s \<Rightarrow> 's"
  sg_active :: bool

definition ScopeGuard_new :: "('s \<Rightarrow> 's) \<Rightarrow> 's scope_guard" where
  "ScopeGuard_new cleanup = \<lparr>sg_cleanup = cleanup, sg_active = True\<rparr>"

definition ScopeGuard_move :: "'s scope_guard \<Rightarrow> 's scope_guard \<times> 's scope_guard" where
  "ScopeGuard_move other =
     (\<lparr>sg_cleanup = sg_cleanup other, sg_active = sg_active other\<rparr>, other\<lparr>sg_active := False\<rparr>)"

definition ScopeGuard_Dismiss :: "'s scope_guard \<Rightarrow> 's scope_guard" where
  "ScopeGuard_Dismiss g = g\<lparr>sg_active := False\<rparr>"

definition ScopeGuard_destroy :: "'s scope_guard \<Rightarrow> 's \<Rightarrow> 's" where
  "ScopeGuard_destroy g s = (if sg_active g then sg_cleanup g s else s)"

text \<open>Moving a guard \<open>n\<close> times; every object of the chain is destroyed, the last one first.\<close>

fun guard_chain :: "nat \<Rightarrow> 's scope_guard \<Rightarrow> 's scope_guard list" where
  "guard_chain 0 g = [g]"
| "guard_chain (Suc n) g = (let (new, old) = ScopeGuard_move g in guard_chain n new @ [old])"

lemma destroy_chain: "foldl (\<lambda>s g. ScopeGuard_destroy g s) s (guard_chain n g) = ScopeGuard_destroy g s"
  by (induction n arbitrary: g s)
    (simp_all add: ScopeGuard_move_def ScopeGuard_destroy_def)

section \<open>Sender adaptors\<close>

text \<open>
  A sender completes with a value, an error or stopped. \<open>DiscardResult\<close> drops the value, and
  logs an error and then terminates the process (\<open>fatal_on_error\<close>) or completes with a value.
\<close>

datatype ('v, 'e) completion = Set_Value 'v | Set_Error 'e | Set_Stopped
datatype 'e discard_outcome = Completed "(unit, 'e) completion" | Terminated

definition DiscardResult :: "bool \<Rightarrow> ('v, 'e) completion \<Rightarrow> 'e list \<times> 'e discard_outcome" where
  "DiscardResult fatal_on_error c =
     (case c of
        Set_Value v \<Rightarrow> ([], Completed (Set_Value ()))
      | Set_Error e \<Rightarrow> ([e], if fatal_on_error then Terminated else Completed (Set_Value ()))
      | Set_Stopped \<Rightarrow> ([], Completed Set_Stopped))"

text \<open>\<open>SenderVariant\<close>: connecting chooses one alternative, which is then started and destroyed.\<close>

datatype ('a, 'b) variant_operation = Op_A 'a | Op_B 'b

definition SenderVariant_connect ::
    "('a \<Rightarrow> 'r \<Rightarrow> 'oa) \<Rightarrow> ('b \<Rightarrow> 'r \<Rightarrow> 'ob) \<Rightarrow> 'a + 'b \<Rightarrow> 'r \<Rightarrow> ('oa, 'ob) variant_operation" where
  "SenderVariant_connect connect_a connect_b sender receiver =
     (case sender of
        Inl a \<Rightarrow> Op_A (connect_a a receiver)
      | Inr b \<Rightarrow> Op_B (connect_b b receiver))"

definition VariantOperation_start :: "('oa \<Rightarrow> 's \<Rightarrow> 's) \<Rightarrow> ('ob \<Rightarrow> 's \<Rightarrow> 's) \<Rightarrow>
    ('oa, 'ob) variant_operation \<Rightarrow> 's \<Rightarrow> 's" where
  "VariantOperation_start start_a start_b op s =
     (case op of Op_A a \<Rightarrow> start_a a s | Op_B b \<Rightarrow> start_b b s)"

lemma DiscardResult_never_errs:
  "DiscardResult fatal c \<noteq> (l, Completed (Set_Error e))"
  by (simp add: DiscardResult_def split: completion.splits)

section \<open>PreallocSlot\<close>

text \<open>
  \<open>bytes_\<close> is the address \<open>Slot_Bytes\<close>. \<open>std::allocator\<close> hands out heap addresses: a fresh one
  for each allocation (\<open>ps_next\<close>), with the count it was allocated with (\<open>ps_heap\<close>); to
  deallocate an address that is not allocated, or with another count, is undefined behaviour,
  no result here. \<open>slot_size\<close> is \<open>kSlotSize\<close> and \<open>max_align\<close> the alignment of \<open>std::max_align_t\<close>.
  The exchange and the store of \<open>in_use_\<close> are the only accesses to the slot, so a call is a
  single step and any order of calls an interleaving.
\<close>

datatype slot_ptr = Slot_Bytes | Heap_Bytes nat

record prealloc_slot =
  ps_in_use :: bool
  ps_next :: nat
  ps_heap :: "nat \<rightharpoonup> nat"

definition PreallocSlot_new :: prealloc_slot where
  "PreallocSlot_new = \<lparr>ps_in_use = False, ps_next = 0, ps_heap = Map.empty\<rparr>"

definition PreallocSlot_TryAllocate :: "nat \<Rightarrow> nat \<Rightarrow> nat \<Rightarrow> nat \<Rightarrow> prealloc_slot \<Rightarrow> slot_ptr option \<times> prealloc_slot" where
  "PreallocSlot_TryAllocate slot_size max_align size' alignment s =
     (if size' > slot_size \<or> alignment > max_align then (None, s)
      else if \<not> ps_in_use s then (Some Slot_Bytes, s\<lparr>ps_in_use := True\<rparr>)
      else (None, s))"

definition PreallocSlot_TryDeallocate :: "slot_ptr \<Rightarrow> prealloc_slot \<Rightarrow> bool \<times> prealloc_slot" where
  "PreallocSlot_TryDeallocate ptr s =
     (if ptr = Slot_Bytes then (True, s\<lparr>ps_in_use := False\<rparr>) else (False, s))"

definition heap_allocate :: "nat \<Rightarrow> prealloc_slot \<Rightarrow> slot_ptr \<times> prealloc_slot" where
  "heap_allocate n s = (Heap_Bytes (ps_next s), s\<lparr>ps_next := Suc (ps_next s), ps_heap := (ps_heap s)(ps_next s \<mapsto> n)\<rparr>)"

fun heap_deallocate :: "slot_ptr \<Rightarrow> nat \<Rightarrow> prealloc_slot \<Rightarrow> prealloc_slot option" where
  "heap_deallocate (Heap_Bytes h) n s = (if ps_heap s h = Some n then Some (s\<lparr>ps_heap := (ps_heap s)(h := None)\<rparr>) else None)"
| "heap_deallocate Slot_Bytes n s = None"

text \<open>\<open>size'\<close> and \<open>alignment\<close> are those of \<open>T\<close>.\<close>

definition PreallocSlotAllocator_allocate :: "nat \<Rightarrow> nat \<Rightarrow> nat \<Rightarrow> nat \<Rightarrow> nat \<Rightarrow> prealloc_slot \<Rightarrow> slot_ptr \<times> prealloc_slot" where
  "PreallocSlotAllocator_allocate slot_size max_align size' alignment n s =
     (case (if n = 1 then PreallocSlot_TryAllocate slot_size max_align size' alignment s else (None, s)) of
        (Some ptr, s1) \<Rightarrow> (ptr, s1)
      | (None, s1) \<Rightarrow> heap_allocate n s1)"

definition PreallocSlotAllocator_deallocate :: "slot_ptr \<Rightarrow> nat \<Rightarrow> prealloc_slot \<Rightarrow> prealloc_slot option" where
  "PreallocSlotAllocator_deallocate ptr n s =
     (let (given_back, s1) = PreallocSlot_TryDeallocate ptr s
      in if given_back then Some s1 else heap_deallocate ptr n s1)"

text \<open>The callers give back what they hold, each allocation with its count.\<close>

inductive slot_reach :: "nat \<Rightarrow> nat \<Rightarrow> (slot_ptr \<times> nat) list \<Rightarrow> prealloc_slot \<Rightarrow> bool" for slot_size max_align where
  start: "slot_reach slot_size max_align [] PreallocSlot_new"
| allocate: "slot_reach slot_size max_align held s \<Longrightarrow>
    PreallocSlotAllocator_allocate slot_size max_align size' alignment n s = (ptr, s') \<Longrightarrow>
    slot_reach slot_size max_align ((ptr, n) # held) s'"
| deallocate: "slot_reach slot_size max_align held s \<Longrightarrow> (ptr, n) \<in> set held \<Longrightarrow>
    PreallocSlotAllocator_deallocate ptr n s = Some s' \<Longrightarrow>
    slot_reach slot_size max_align (remove1 (ptr, n) held) s'"

definition slot_inv :: "(slot_ptr \<times> nat) list \<Rightarrow> prealloc_slot \<Rightarrow> bool" where
  "slot_inv held s \<longleftrightarrow> distinct (map fst held) \<and> (Slot_Bytes \<in> fst ` set held \<longleftrightarrow> ps_in_use s)
     \<and> (\<forall>h n. (Heap_Bytes h, n) \<in> set held \<longleftrightarrow> ps_heap s h = Some n) \<and> (\<forall>h \<in> dom (ps_heap s). h < ps_next s)"

lemma slot_inv_allocate:
  assumes "slot_inv held s" "PreallocSlotAllocator_allocate slot_size max_align size' alignment n s = (ptr, s')"
  shows "slot_inv ((ptr, n) # held) s'"
proof -
  have "ps_heap s (ps_next s) = None" using assms(1) by (auto simp: slot_inv_def)
  then have "Heap_Bytes (ps_next s) \<notin> fst ` set held" using assms(1) by (auto simp: slot_inv_def)
  then show ?thesis using assms
    by (auto simp: slot_inv_def PreallocSlotAllocator_allocate_def PreallocSlot_TryAllocate_def heap_allocate_def
        less_Suc_eq split: if_splits)
qed

lemma slot_inv_deallocate:
  assumes "slot_inv held s" "(ptr, n) \<in> set held"
  shows "\<exists>s'. PreallocSlotAllocator_deallocate ptr n s = Some s' \<and> slot_inv (remove1 (ptr, n) held) s'"
proof -
  have d: "distinct held" "distinct (map fst held)" using assms(1) by (auto simp: slot_inv_def distinct_map)
  then have rest: "set (remove1 (ptr, n) held) = {x \<in> set held. fst x \<noteq> ptr}"
    using assms(2) by (auto dest: eq_key_imp_eq_value)
  have "distinct (map fst (remove1 (ptr, n) held))"
    using d by (auto simp: distinct_map inj_on_def)
  then show ?thesis using assms rest
    by (cases ptr) (auto simp: slot_inv_def PreallocSlotAllocator_deallocate_def PreallocSlot_TryDeallocate_def image_iff Bex_def)
qed

lemma slot_inv_reach: "slot_reach slot_size max_align held s \<Longrightarrow> slot_inv held s"
proof (induction rule: slot_reach.induct)
  case start
  then show ?case by (simp add: slot_inv_def PreallocSlot_new_def)
next
  case (deallocate held s ptr n s')
  then show ?case using slot_inv_deallocate [of held s ptr n] by auto
qed (rule slot_inv_allocate)

text \<open>
  Whatever the order of allocations and deallocations, no two allocations held share an address,
  the slot counts as in use exactly while an allocation holds it, giving back what is held is
  always defined, and the next allocation that fits gets the slot exactly when it is free.
\<close>

lemma prealloc_slot_exclusive:
  assumes "slot_reach slot_size max_align held s"
  shows "distinct (map fst held) \<and> (Slot_Bytes \<in> fst ` set held \<longleftrightarrow> ps_in_use s)
     \<and> (\<forall>(ptr, n) \<in> set held. PreallocSlotAllocator_deallocate ptr n s \<noteq> None)
     \<and> (size' \<le> slot_size \<and> alignment \<le> max_align \<longrightarrow>
         (fst (PreallocSlotAllocator_allocate slot_size max_align size' alignment 1 s) = Slot_Bytes \<longleftrightarrow> Slot_Bytes \<notin> fst ` set held))"
proof -
  have inv: "slot_inv held s" by (rule slot_inv_reach [OF assms])
  then have "PreallocSlotAllocator_deallocate ptr n s \<noteq> None" if "(ptr, n) \<in> set held" for ptr n
    using slot_inv_deallocate [OF inv that] by auto
  then show ?thesis using inv
    by (auto simp: slot_inv_def PreallocSlotAllocator_allocate_def PreallocSlot_TryAllocate_def heap_allocate_def)
qed

section \<open>Semaphore\<close>

text \<open>
  \<open>count_\<close>, \<open>waiters_\<close>, the mutex \<open>waiters_mu_\<close> and the calls in progress. A waiter is
  named by a value of type \<open>'w\<close>; \<open>sem_started\<close> and \<open>sem_completed\<close> record the operations
  started and the calls of \<open>Complete\<close>. The count is an integer that stays in the range of
  \<open>int64_t\<close>: a call whose \<open>fetch_sub\<close> or \<open>fetch_add\<close> would leave it does not step.
\<close>

datatype 'w sem_act =
    Acquire_Call int
  | Acquire_Take
  | Acquire_Complete "'w list"
  | Release_Call int
  | Drained_Start 'w
  | Drained_Locked 'w
  | Drained_Push 'w

record 'w semaphore =
  sem_count :: int
  sem_waiters :: "'w list"
  sem_locked :: bool
  sem_acts :: "'w sem_act multiset"
  sem_started :: "'w list"
  sem_completed :: "'w list"

definition Semaphore_new :: "int \<Rightarrow> 'w semaphore" where
  "Semaphore_new initial_count =
     \<lparr>sem_count = initial_count, sem_waiters = [], sem_locked = False, sem_acts = {#},
      sem_started = [], sem_completed = []\<rparr>"

definition int64_range :: "int \<Rightarrow> bool" where
  "int64_range i \<longleftrightarrow> - (2 ^ 63) \<le> i \<and> i < 2 ^ 63"

text \<open>One activity advances; the result is the new state and what the activity does next.\<close>

fun sem_advance :: "'w sem_act \<Rightarrow> 'w semaphore \<Rightarrow> ('w semaphore \<times> 'w sem_act option) option" where
  "sem_advance (Acquire_Call n) s =
     (let prev = sem_count s in
      if int64_range (prev - n)
      then Some (s\<lparr>sem_count := prev - n\<rparr>, if prev \<le> n then Some Acquire_Take else None)
      else None)"
| "sem_advance Acquire_Take s =
     (if sem_locked s then None
      else Some (s\<lparr>sem_waiters := []\<rparr>, Some (Acquire_Complete (sem_waiters s))))"
| "sem_advance (Acquire_Complete []) s = Some (s, None)"
| "sem_advance (Acquire_Complete (w # ws)) s =
     Some (s\<lparr>sem_completed := sem_completed s @ [w]\<rparr>, Some (Acquire_Complete ws))"
| "sem_advance (Release_Call n) s =
     (let prev = sem_count s in
      if int64_range (prev + n) then Some (s\<lparr>sem_count := prev + n\<rparr>, None) else None)"
| "sem_advance (Drained_Start w) s =
     (if sem_locked s then None else Some (s\<lparr>sem_locked := True\<rparr>, Some (Drained_Locked w)))"
| "sem_advance (Drained_Locked w) s =
     (if sem_count s \<le> 0
      then Some (s\<lparr>sem_completed := sem_completed s @ [w], sem_locked := False\<rparr>, None)
      else Some (s, Some (Drained_Push w)))"
| "sem_advance (Drained_Push w) s =
     Some (s\<lparr>sem_waiters := sem_waiters s @ [w], sem_locked := False\<rparr>, None)"

text \<open>Callers may call at any time; \<open>Release\<close> is called with a count that is not negative.\<close>

inductive sem_step :: "'w semaphore \<Rightarrow> 'w semaphore \<Rightarrow> bool" where
  sem_acquire: "sem_step s (s\<lparr>sem_acts := add_mset (Acquire_Call n) (sem_acts s)\<rparr>)"
| sem_release: "0 \<le> n \<Longrightarrow> sem_step s (s\<lparr>sem_acts := add_mset (Release_Call n) (sem_acts s)\<rparr>)"
| sem_on_drained: "w \<notin> set (sem_started s) \<Longrightarrow>
    sem_step s (s\<lparr>sem_acts := add_mset (Drained_Start w) (sem_acts s),
      sem_started := w # sem_started s\<rparr>)"
| sem_act: "a \<in># sem_acts s \<Longrightarrow> sem_advance a s = Some (s1, nxt) \<Longrightarrow>
    sem_step s (s1\<lparr>sem_acts := swap_act a nxt (sem_acts s)\<rparr>)"

inductive sem_reach :: "int \<Rightarrow> 'w semaphore \<Rightarrow> bool" for c where
  sem_init: "sem_reach c (Semaphore_new c)"
| sem_next: "sem_reach c s \<Longrightarrow> sem_step s s' \<Longrightarrow> sem_reach c s'"

text \<open>The waiters an activity is responsible for, and whether it holds the mutex.\<close>

fun act_waiters :: "'w sem_act \<Rightarrow> 'w multiset" where
  "act_waiters (Acquire_Complete ws) = mset ws"
| "act_waiters (Drained_Start w) = {#w#}"
| "act_waiters (Drained_Locked w) = {#w#}"
| "act_waiters (Drained_Push w) = {#w#}"
| "act_waiters _ = {#}"

fun act_locks :: "'w sem_act \<Rightarrow> nat" where
  "act_locks (Drained_Locked w) = 1"
| "act_locks (Drained_Push w) = 1"
| "act_locks _ = 0"

fun is_push :: "'w sem_act \<Rightarrow> bool" where
  "is_push (Drained_Push w) = True"
| "is_push _ = False"

definition sem_inv :: "'w semaphore \<Rightarrow> bool" where
  "sem_inv s \<longleftrightarrow>
     mset (sem_started s) = mset (sem_completed s) + mset (sem_waiters s) + \<Sum>\<^sub># (image_mset act_waiters (sem_acts s))
   \<and> (\<Sum>a\<in>#sem_acts s. act_locks a) = (if sem_locked s then 1 else 0)
   \<and> (sem_count s \<le> 0 \<and> (sem_waiters s \<noteq> [] \<or> (\<exists>a \<in># sem_acts s. is_push a)) \<longrightarrow> Acquire_Take \<in># sem_acts s)
   \<and> (\<forall>n. Release_Call n \<in># sem_acts s \<longrightarrow> 0 \<le> n)
   \<and> distinct (sem_started s)"

lemma push_locks: "is_push x \<Longrightarrow> act_locks x = 1"
  by (cases x) auto

lemma sem_inv_init: "sem_inv (Semaphore_new c)"
  by (simp add: sem_inv_def Semaphore_new_def)

lemma sem_inv_advance:
  assumes inv: "sem_inv s" and a: "a \<in># sem_acts s" and adv: "sem_advance a s = Some (s1, nxt)"
  shows "sem_inv (s1\<lparr>sem_acts := swap_act a nxt (sem_acts s)\<rparr>)"
proof -
  obtain A where A: "sem_acts s = add_mset a A" using a by (meson multi_member_split)
  show ?thesis
    using inv adv unfolding sem_inv_def A
    by (cases "(a, s)" rule: sem_advance.cases)
      (auto simp: Let_def A dest: push_locks split: if_splits)
qed

lemma sem_inv_step: "sem_step s s' \<Longrightarrow> sem_inv s \<Longrightarrow> sem_inv s'"
proof (induction rule: sem_step.induct)
  case (sem_act a s s1 nxt)
  then show ?case using sem_inv_advance by blast
qed (auto simp: sem_inv_def)

lemma sem_inv_reach: "sem_reach c s \<Longrightarrow> sem_inv s"
  by (induction rule: sem_reach.induct) (auto simp: sem_inv_init sem_inv_step)

text \<open>
  C15: once every call on a semaphore has returned, each \<open>OnDrained\<close> operation started so far
  either is still registered as a waiter or has been completed, exactly once in total, and if
  the semaphore is drained then all of them have been completed: no waiter is lost, whatever
  the order in which acquires, releases and registrations interleave.
\<close>

theorem semaphore_no_lost_waiter:
  assumes "sem_reach c s" and "sem_acts s = {#}"
  shows "mset (sem_completed s) + mset (sem_waiters s) = mset (sem_started s)
     \<and> distinct (sem_completed s @ sem_waiters s)
     \<and> (sem_count s \<le> 0 \<longrightarrow> set (sem_completed s) = set (sem_started s) \<and> sem_waiters s = [])"
proof (intro conjI impI)
  have inv: "sem_inv s" using sem_inv_reach assms(1) .
  show eq: "mset (sem_completed s) + mset (sem_waiters s) = mset (sem_started s)"
    using inv assms(2) by (simp add: sem_inv_def)
  have "mset (sem_completed s @ sem_waiters s) = mset (sem_started s)" using eq by simp
  then show "distinct (sem_completed s @ sem_waiters s)"
    using inv mset_eq_imp_distinct_iff unfolding sem_inv_def by blast
  show none: "sem_waiters s = []" if "sem_count s \<le> 0" using inv assms(2) that by (simp add: sem_inv_def)
  show "set (sem_completed s) = set (sem_started s)" if low: "sem_count s \<le> 0"
    by (rule mset_eq_setD) (use eq none [OF low] in simp)
qed

text \<open>Schedules: the calls made and the activities that advance, in order.\<close>

datatype 'w sem_cmd = Sem_Call "'w sem_act" | Sem_Advance "'w sem_act"

fun sem_cmd_step :: "'w sem_cmd \<Rightarrow> 'w semaphore \<Rightarrow> 'w semaphore option" where
  "sem_cmd_step (Sem_Call (Acquire_Call n)) s = Some (s\<lparr>sem_acts := add_mset (Acquire_Call n) (sem_acts s)\<rparr>)"
| "sem_cmd_step (Sem_Call (Release_Call n)) s =
     (if 0 \<le> n then Some (s\<lparr>sem_acts := add_mset (Release_Call n) (sem_acts s)\<rparr>) else None)"
| "sem_cmd_step (Sem_Call (Drained_Start w)) s =
     (if w \<in> set (sem_started s) then None
      else Some (s\<lparr>sem_acts := add_mset (Drained_Start w) (sem_acts s), sem_started := w # sem_started s\<rparr>))"
| "sem_cmd_step (Sem_Call _) s = None"
| "sem_cmd_step (Sem_Advance a) s =
     (if a \<in># sem_acts s
      then map_option (\<lambda>(s1, nxt). s1\<lparr>sem_acts := swap_act a nxt (sem_acts s)\<rparr>) (sem_advance a s)
      else None)"

lemma sem_cmd_step_sound: "sem_cmd_step c s = Some s' \<Longrightarrow> sem_step s s'"
  by (induction c s rule: sem_cmd_step.induct)
    (auto intro: sem_step.intros split: if_splits)

fun sem_run :: "'w sem_cmd list \<Rightarrow> 'w semaphore \<Rightarrow> 'w semaphore list option" where
  "sem_run [] s = Some [s]"
| "sem_run (c # cs) s = (case sem_cmd_step c s of
      None \<Rightarrow> None | Some s' \<Rightarrow> map_option ((#) s) (sem_run cs s'))"

lemma sem_run_sound: "sem_run cs s = Some ss \<Longrightarrow> sem_reach c s \<Longrightarrow> sem_reach c (last ss)"
proof (induction cs arbitrary: s ss)
  case (Cons a cs)
  then obtain s' ss' where s': "sem_cmd_step a s = Some s'" "sem_run cs s' = Some ss'" "ss = s # ss'"
    by (auto split: option.splits)
  have "sem_reach c s'" using Cons.prems(2) sem_cmd_step_sound [OF s'(1)] sem_next by blast
  then have "sem_reach c (last ss')" using Cons.IH s'(2) by blast
  moreover have "ss' \<noteq> []" using s'(2) by (cases cs) (auto split: option.splits)
  ultimately show ?case using s'(3) by simp
qed simp

definition drain_schedule :: "nat sem_cmd list" where
  "drain_schedule = [Sem_Call (Drained_Start 5), Sem_Advance (Drained_Start 5), Sem_Advance (Drained_Locked 5),
     Sem_Call (Acquire_Call 1), Sem_Advance (Acquire_Call 1), Sem_Advance (Drained_Push 5),
     Sem_Advance Acquire_Take, Sem_Advance (Acquire_Complete [5]), Sem_Advance (Acquire_Complete [])]"

lemma semaphore_no_lost_waiter_witness:
  "\<exists>s. sem_reach 1 s \<and> sem_acts s = {#} \<and> sem_count s = 0
     \<and> set (sem_completed s) = {5 :: nat} \<and> sem_waiters s = []"
proof -
  define s :: "nat semaphore" where "s = \<lparr>sem_count = 0, sem_waiters = [], sem_locked = False,
      sem_acts = {#}, sem_started = [5], sem_completed = [5]\<rparr>"
  have "map_option last (sem_run drain_schedule (Semaphore_new 1)) = Some s"
    by (simp add: drain_schedule_def Semaphore_new_def int64_range_def s_def swap_act_def)
  then have reach: "sem_reach 1 s" using sem_run_sound [OF _ sem_init] by blast
  show ?thesis
    using semaphore_no_lost_waiter [OF reach] reach
    by (intro exI [of _ s]) (simp add: s_def)
qed

definition spurious_setup :: "nat sem_cmd list" where
  "spurious_setup = [Sem_Call (Acquire_Call 1), Sem_Advance (Acquire_Call 1),
     Sem_Call (Release_Call 1), Sem_Advance (Release_Call 1)]"

definition spurious_schedule :: "nat sem_cmd list" where
  "spurious_schedule = [Sem_Call (Drained_Start 7), Sem_Advance (Drained_Start 7),
     Sem_Advance (Drained_Locked 7), Sem_Advance (Drained_Push 7),
     Sem_Advance Acquire_Take, Sem_Advance (Acquire_Complete [7])]"

text \<open>
  an \<open>OnDrained\<close> operation can complete although the semaphore is not drained at any
  moment since the operation was started: an earlier \<open>Acquire\<close> that drained the semaphore
  takes the waiters after a \<open>Release\<close> has made the count positive again and a new waiter has
  registered.
\<close>

theorem semaphore_spurious_completion:
  "\<exists>s ss. sem_reach 1 s \<and> 7 \<notin> set (sem_started s) \<and> sem_run spurious_schedule s = Some ss
     \<and> list_all (\<lambda>s'. 0 < sem_count s') ss \<and> sem_completed (last ss) = [7]"
proof -
  define s :: "nat semaphore" where "s = \<lparr>sem_count = 1, sem_waiters = [], sem_locked = False,
      sem_acts = {#Acquire_Take#}, sem_started = [], sem_completed = []\<rparr>"
  have "map_option last (sem_run spurious_setup (Semaphore_new 1)) = Some s"
    by (simp add: spurious_setup_def Semaphore_new_def int64_range_def s_def swap_act_def)
  then have reach: "sem_reach 1 s" using sem_run_sound [OF _ sem_init] by blast
  have "\<exists>ss. sem_run spurious_schedule s = Some ss \<and> list_all (\<lambda>s'. 0 < sem_count s') ss
      \<and> sem_completed (last ss) = [7]"
    by (simp add: spurious_schedule_def s_def swap_act_def)
  then show ?thesis using reach by (intro exI [of _ s]) (auto simp: s_def)
qed

end
