(* ===== verification/Actor.thy ===== *)
theory Actor
  imports Containers Hashing Util
begin

text \<open>
  One actor (\<open>actor.h\<close>): its configuration, its mailboxes, the message that carries a
  receiver, and the operations \<open>PushMessage\<close>, \<open>TryActivate\<close>, \<open>PullMailboxAndRun\<close> and
  \<open>AsyncDestroy\<close>, each as a whole call that nothing interrupts. The interleavings of these
  operations on several threads are in \<open>Actor_Concurrent\<close>. The result \<open>None\<close> of an operation
  is undefined behaviour of the code (an index outside a buffer, a null pointer, the ring's
  arithmetic).
\<close>

section \<open>Configuration\<close>

datatype mailbox_config = UnboundedMailbox | BoundedMailbox u64 | UnsafeOneSlotMailbox

record actor_config =
  max_message_executed_per_activation :: u64
  mailbox_configs :: "mailbox_config list"
  actor_name :: "string option"
  scheduler_index :: u64
  actor_priority :: u32
  core_index :: u64

definition ActorConfig_default :: actor_config where
  "ActorConfig_default =
     \<lparr>max_message_executed_per_activation = 100, mailbox_configs = [], actor_name = None,
      scheduler_index = 0, actor_priority = 0, core_index = 0\<rparr>"

section \<open>MailboxSet\<close>

datatype 'm mailbox = Mb_Unbounded "'m list" | Mb_OneSlot "'m one_slot" | Mb_Bounded "'m ring"

type_synonym 'm mailbox_set = "'m mailbox fc_buffer"

fun mailbox_Push :: "'m \<Rightarrow> 'm mailbox \<Rightarrow> (bool \<times> 'm mailbox) option" where
  "mailbox_Push m (Mb_Unbounded q) = map_option (map_prod id Mb_Unbounded) (LinearizableUnboundedMpscQueue_Push m q)"
| "mailbox_Push m (Mb_OneSlot q) = map_option (map_prod id Mb_OneSlot) (OneSlotUnsafeQueue_Push m q)"
| "mailbox_Push m (Mb_Bounded q) = map_option (map_prod id Mb_Bounded) (BoundedMpscQueue_Push m q)"

fun mailbox_TryPop :: "'m mailbox \<Rightarrow> ((exa_error + 'm option) \<times> 'm mailbox) option" where
  "mailbox_TryPop (Mb_Unbounded q) = map_option (map_prod id Mb_Unbounded) (LinearizableUnboundedMpscQueue_TryPop q)"
| "mailbox_TryPop (Mb_OneSlot q) = map_option (map_prod id Mb_OneSlot) (OneSlotUnsafeQueue_TryPop q)"
| "mailbox_TryPop (Mb_Bounded q) = map_option (map_prod id Mb_Bounded) (BoundedMpscQueue_TryPop q)"

fun mailbox_new :: "mailbox_config \<Rightarrow> 'm mailbox option" where
  "mailbox_new UnboundedMailbox = Some (Mb_Unbounded [])"
| "mailbox_new UnsafeOneSlotMailbox = Some (Mb_OneSlot OneSlotUnsafeQueue_new)"
| "mailbox_new (BoundedMailbox capacity) = map_option Mb_Bounded (BoundedMpscQueue_new capacity)"

text \<open>The constructor; every \<open>EmplaceBack\<close> may throw.\<close>

definition MailboxSet_new :: "mailbox_config list \<Rightarrow> ((exa_error + unit) \<times> 'm mailbox_set) option" where
  "MailboxSet_new configs =
     (let mailboxes = FixedCapacityBuffer_new (if configs = [] then 1 else length configs) in
      if configs = [] then Some (FixedCapacityBuffer_EmplaceBack (Mb_Unbounded []) mailboxes)
      else map_option (\<lambda>mbs. forE FixedCapacityBuffer_EmplaceBack mbs mailboxes)
             (those (map mailbox_new configs)))"

definition MailboxSet_Push :: "nat \<Rightarrow> 'm \<Rightarrow> 'm mailbox_set \<Rightarrow> ((exa_error + unit) \<times> 'm mailbox_set) option" where
  "MailboxSet_Push mailbox_index message s =
     (case FixedCapacityBuffer_at s mailbox_index of
        None \<Rightarrow> None
      | Some queue \<Rightarrow>
          (case mailbox_Push message queue of
             None \<Rightarrow> None
           | Some (ok, queue') \<Rightarrow>
               Some (exa_throw_check ok ''MailboxSet: mailbox is full''
                       (s\<lparr>fc_elems := (fc_elems s)[mailbox_index := queue']\<rparr>))))"

definition MailboxSet_TryPop :: "nat \<Rightarrow> 'm mailbox_set \<Rightarrow> ((exa_error + 'm option) \<times> 'm mailbox_set) option" where
  "MailboxSet_TryPop mailbox_index s =
     (case FixedCapacityBuffer_at s mailbox_index of
        None \<Rightarrow> None
      | Some queue \<Rightarrow>
          map_option (\<lambda>(r, queue'). (r, s\<lparr>fc_elems := (fc_elems s)[mailbox_index := queue']\<rparr>))
            (mailbox_TryPop queue))"

definition MailboxSet_MailboxCount :: "'m mailbox_set \<Rightarrow> nat" where
  "MailboxSet_MailboxCount s = FixedCapacityBuffer_Size s"

subsection \<open>A mailbox is a queue\<close>

fun mailbox_contents :: "'m mailbox \<Rightarrow> 'm list" where
  "mailbox_contents (Mb_Unbounded q) = q"
| "mailbox_contents (Mb_OneSlot q) = one_slot_contents q"
| "mailbox_contents (Mb_Bounded q) = ring_contents q"

fun mailbox_limit :: "'m mailbox \<Rightarrow> nat option" where
  "mailbox_limit (Mb_Unbounded q) = None"
| "mailbox_limit (Mb_OneSlot q) = Some 1"
| "mailbox_limit (Mb_Bounded q) = Some (unat (rg_capacity q))"

fun mailbox_room :: "'m mailbox \<Rightarrow> nat \<Rightarrow> bool" where
  "mailbox_room (Mb_Bounded q) n = ring_room q n"
| "mailbox_room _ n = True"

fun mailbox_inv :: "'m mailbox \<Rightarrow> bool" where
  "mailbox_inv (Mb_Unbounded q) = True"
| "mailbox_inv (Mb_OneSlot q) = one_slot_inv q"
| "mailbox_inv (Mb_Bounded q) = ring_inv q"

interpretation mailbox: mailbox_queue mailbox_Push mailbox_TryPop
  mailbox_contents mailbox_limit mailbox_room mailbox_inv
proof unfold_locales
  fix q :: "'a mailbox" and n
  assume "mailbox_room q (Suc n)"
  then show "mailbox_room q n" using bounded.room_less by (cases q) auto
next
  fix q :: "'a mailbox" and n and m :: 'a
  assume "mailbox_inv q" "mailbox_room q (Suc n)"
    "mailbox_limit q = None \<or> (\<exists>c. mailbox_limit q = Some c \<and> length (mailbox_contents q) < c)"
  then show "\<exists>q'. mailbox_Push m q = Some (True, q') \<and> mailbox_contents q' = mailbox_contents q @ [m]
      \<and> mailbox_inv q' \<and> mailbox_limit q' = mailbox_limit q \<and> mailbox_room q' n"
  proof (cases q)
    case (Mb_Unbounded x)
    then show ?thesis by (simp add: LinearizableUnboundedMpscQueue_Push_def)
  next
    case (Mb_OneSlot x)
    then show ?thesis
      using one_slot.push_free [where q = x and m = m] \<open>mailbox_inv q\<close>
        \<open>mailbox_limit q = None \<or> (\<exists>c. mailbox_limit q = Some c \<and> length (mailbox_contents q) < c)\<close>
      by auto
  next
    case (Mb_Bounded x)
    then show ?thesis
      using bounded.push_free [where q = x and m = m and n = n] \<open>mailbox_inv q\<close> \<open>mailbox_room q (Suc n)\<close>
        \<open>mailbox_limit q = None \<or> (\<exists>c. mailbox_limit q = Some c \<and> length (mailbox_contents q) < c)\<close>
      by auto
  qed
next
  fix q :: "'a mailbox" and c and m :: 'a
  assume "mailbox_inv q" "mailbox_limit q = Some c" "c \<le> length (mailbox_contents q)"
  then show "mailbox_Push m q = Some (False, q)"
    by (cases q) (auto simp: one_slot.push_full bounded.push_full)
next
  fix q :: "'a mailbox" and x xs
  assume q: "mailbox_inv q" "mailbox_contents q = x # xs"
  show "\<exists>q'. mailbox_TryPop q = Some (Inr (Some x), q') \<and> mailbox_contents q' = xs \<and> mailbox_inv q'
      \<and> mailbox_limit q' = mailbox_limit q \<and> (\<forall>n. mailbox_room q n \<longrightarrow> mailbox_room q' n)"
  proof (cases q)
    case (Mb_Unbounded u)
    then show ?thesis using q by (auto simp: LinearizableUnboundedMpscQueue_TryPop_def)
  next
    case (Mb_OneSlot u)
    then show ?thesis using one_slot.pop_some [where q = u] q by auto
  next
    case (Mb_Bounded u)
    then show ?thesis using bounded.pop_some [where q = u] q by auto
  qed
next
  fix q :: "'a mailbox"
  assume "mailbox_inv q" "mailbox_contents q = []"
  then show "mailbox_TryPop q = Some (Inr None, q)"
    using unbounded.pop_none one_slot.pop_none bounded.pop_none by (cases q) auto
qed

subsection \<open>A mailbox set is a list of queues\<close>

definition mbs_contents :: "'m mailbox_set \<Rightarrow> 'm list list" where
  "mbs_contents s = map mailbox_contents (fc_elems s)"

definition mbs_limits :: "'m mailbox_set \<Rightarrow> nat option list" where
  "mbs_limits s = map mailbox_limit (fc_elems s)"

definition mbs_inv :: "'m mailbox_set \<Rightarrow> bool" where
  "mbs_inv s \<longleftrightarrow> (\<forall>q \<in> set (fc_elems s). mailbox_inv q)"

definition mbs_room :: "'m mailbox_set \<Rightarrow> nat \<Rightarrow> bool" where
  "mbs_room s n \<longleftrightarrow> (\<forall>q \<in> set (fc_elems s). mailbox_room q n)"

definition has_space :: "nat option \<Rightarrow> 'm list \<Rightarrow> bool" where
  "has_space lim xs = (case lim of None \<Rightarrow> True | Some c \<Rightarrow> length xs < c)"

lemma mbs_lengths [simp]:
  "length (mbs_contents s) = length (fc_elems s)" "length (mbs_limits s) = length (fc_elems s)"
  by (simp_all add: mbs_contents_def mbs_limits_def)

lemma update_all: "(\<forall>q \<in> set xs. P q) \<Longrightarrow> P y \<Longrightarrow> \<forall>q \<in> set (xs[i := y]). P q"
  using set_update_subset_insert by fastforce

lemma MailboxSet_Push_free:
  assumes inv: "mbs_inv s" and room: "mbs_room s (Suc n)" and i: "i < length (mbs_contents s)"
    and space: "has_space (mbs_limits s ! i) (mbs_contents s ! i)"
  shows "\<exists>s'. MailboxSet_Push i m s = Some (Inr (), s') \<and> mbs_inv s' \<and> mbs_room s' n
     \<and> mbs_contents s' = (mbs_contents s)[i := mbs_contents s ! i @ [m]] \<and> mbs_limits s' = mbs_limits s"
proof -
  define q where "q = fc_elems s ! i"
  have q: "q \<in> set (fc_elems s)" "i < length (fc_elems s)" using i by (simp_all add: q_def)
  have "mailbox_inv q" "mailbox_room q (Suc n)" using inv room q by (auto simp: mbs_inv_def mbs_room_def)
  moreover have "mailbox_limit q = None \<or> (\<exists>c. mailbox_limit q = Some c \<and> length (mailbox_contents q) < c)"
    using space q(2) by (auto simp: has_space_def q_def mbs_limits_def mbs_contents_def split: option.splits)
  ultimately obtain q' where q': "mailbox_Push m q = Some (True, q')"
      "mailbox_contents q' = mailbox_contents q @ [m]" "mailbox_inv q'"
      "mailbox_limit q' = mailbox_limit q" "mailbox_room q' n"
    using mailbox.push_free [where q = q and n = n and m = m] by auto
  define s' where "s' = s\<lparr>fc_elems := (fc_elems s)[i := q']\<rparr>"
  have "MailboxSet_Push i m s = Some (Inr (), s')"
    using q(2) q'(1) by (simp add: MailboxSet_Push_def FixedCapacityBuffer_at_def q_def s'_def eff_defs)
  moreover have "mbs_inv s'"
    using update_all [of _ mailbox_inv q' i] inv q'(3) by (simp add: mbs_inv_def s'_def)
  moreover have "\<forall>x \<in> set (fc_elems s). mailbox_room x n"
    using room mailbox.room_less by (auto simp: mbs_room_def)
  then have "mbs_room s' n"
    using update_all [of _ "\<lambda>x. mailbox_room x n" q' i] q'(5) by (simp add: mbs_room_def s'_def)
  moreover have "mbs_contents s' = (mbs_contents s)[i := mbs_contents s ! i @ [m]]"
    using q(2) q'(2) by (simp add: mbs_contents_def s'_def map_update q_def)
  moreover have "mbs_limits s' = mbs_limits s"
    using q(2) q'(4) by (simp add: mbs_limits_def s'_def map_update q_def list_update_same_conv)
  ultimately show ?thesis by (intro exI [of _ s']) simp
qed

lemma MailboxSet_Push_full:
  assumes inv: "mbs_inv s" and i: "i < length (mbs_contents s)"
    and space: "\<not> has_space (mbs_limits s ! i) (mbs_contents s ! i)"
  shows "MailboxSet_Push i m s = Some (Inl (Throw_Stream ''MailboxSet: mailbox is full''), s)"
proof -
  define q where "q = fc_elems s ! i"
  have q: "q \<in> set (fc_elems s)" "i < length (fc_elems s)" using i by (simp_all add: q_def)
  have inv_q: "mailbox_inv q" using inv q by (auto simp: mbs_inv_def)
  obtain c where c: "mailbox_limit q = Some c" "c \<le> length (mailbox_contents q)"
    using space q(2) by (auto simp: has_space_def q_def mbs_limits_def mbs_contents_def split: option.splits)
  have push: "mailbox_Push m q = Some (False, q)" by (rule mailbox.push_full [OF inv_q c])
  have same: "s\<lparr>fc_elems := (fc_elems s)[i := q]\<rparr> = s" by (cases s) (simp add: q_def)
  show ?thesis
    using q(2) push same by (simp add: MailboxSet_Push_def FixedCapacityBuffer_at_def eff_defs flip: q_def)
qed

lemma MailboxSet_TryPop_some:
  assumes inv: "mbs_inv s" and i: "i < length (mbs_contents s)" and c: "mbs_contents s ! i = x # xs"
  shows "\<exists>s'. MailboxSet_TryPop i s = Some (Inr (Some x), s') \<and> mbs_inv s' \<and> (\<forall>n. mbs_room s n \<longrightarrow> mbs_room s' n)
     \<and> mbs_contents s' = (mbs_contents s)[i := xs] \<and> mbs_limits s' = mbs_limits s"
proof -
  define q where "q = fc_elems s ! i"
  have q: "q \<in> set (fc_elems s)" "i < length (fc_elems s)" using i by (simp_all add: q_def)
  have "mailbox_inv q" "mailbox_contents q = x # xs"
    using inv q c by (auto simp: mbs_inv_def mbs_contents_def q_def)
  then obtain q' where q': "mailbox_TryPop q = Some (Inr (Some x), q')" "mailbox_contents q' = xs"
      "mailbox_inv q'" "mailbox_limit q' = mailbox_limit q" "\<forall>n. mailbox_room q n \<longrightarrow> mailbox_room q' n"
    using mailbox.pop_some [where q = q and x = x and xs = xs] by auto
  define s' where "s' = s\<lparr>fc_elems := (fc_elems s)[i := q']\<rparr>"
  have "MailboxSet_TryPop i s = Some (Inr (Some x), s')"
    using q(2) q'(1) by (simp add: MailboxSet_TryPop_def FixedCapacityBuffer_at_def q_def s'_def)
  moreover have "mbs_inv s'"
    using update_all [of _ mailbox_inv q' i] inv q'(3) by (simp add: mbs_inv_def s'_def)
  moreover have "\<forall>n. mbs_room s n \<longrightarrow> mbs_room s' n"
  proof (intro allI impI)
    fix n assume "mbs_room s n"
    then show "mbs_room s' n"
      using update_all [of _ "\<lambda>x. mailbox_room x n" q' i] q'(5) q(1) by (simp add: mbs_room_def s'_def)
  qed
  moreover have "mbs_contents s' = (mbs_contents s)[i := xs]"
    using q'(2) by (simp add: mbs_contents_def s'_def map_update)
  moreover have "mbs_limits s' = mbs_limits s"
    using q(2) q'(4) by (simp add: mbs_limits_def s'_def map_update q_def list_update_same_conv)
  ultimately show ?thesis by (intro exI [of _ s']) simp
qed

lemma MailboxSet_TryPop_none:
  assumes inv: "mbs_inv s" and i: "i < length (mbs_contents s)" and c: "mbs_contents s ! i = []"
  shows "MailboxSet_TryPop i s = Some (Inr None, s)"
proof -
  define q where "q = fc_elems s ! i"
  have q: "q \<in> set (fc_elems s)" "i < length (fc_elems s)" using i by (simp_all add: q_def)
  have "mailbox_inv q" "mailbox_contents q = []"
    using inv q c by (auto simp: mbs_inv_def mbs_contents_def q_def)
  then have "mailbox_TryPop q = Some (Inr None, q)" using mailbox.pop_none by blast
  moreover have "s\<lparr>fc_elems := (fc_elems s)[i := q]\<rparr> = s" by (cases s) (simp add: q_def)
  ultimately show ?thesis
    using q(2) by (simp add: MailboxSet_TryPop_def FixedCapacityBuffer_at_def flip: q_def)
qed

text \<open>The constructor: what each configuration allows, and one empty queue for each.\<close>

definition config_ok :: "mailbox_config \<Rightarrow> bool" where
  "config_ok c = (case c of BoundedMailbox capacity \<Rightarrow> unat capacity \<le> 2 ^ 61 | _ \<Rightarrow> True)"

lemma mailbox_new_spec:
  assumes "config_ok c" and "N \<le> 2 ^ 61"
  shows "\<exists>q :: 'm mailbox. mailbox_new c = Some q \<and> mailbox_inv q \<and> mailbox_contents q = []
     \<and> mailbox_room q N"
proof (cases c)
  case (BoundedMailbox capacity)
  then obtain q :: "'m ring" where "BoundedMpscQueue_new capacity = Some q" "ring_inv q" "ring_contents q = []"
      "unat (rg_capacity q) \<le> 2 ^ 61" "rg_enqueue_pos q = 0"
    using ring_new [of capacity] assms(1) by (auto simp: config_ok_def)
  then show ?thesis using BoundedMailbox assms(2) by (auto simp: ring_room_def)
qed (simp_all add: OneSlotUnsafeQueue_new_def one_slot_inv_def one_slot_contents_def)

lemma mailboxes_new_spec:
  assumes "\<forall>c \<in> set configs. config_ok c" and "N \<le> 2 ^ 61"
  shows "\<exists>qs :: 'm mailbox list. those (map mailbox_new configs) = Some qs \<and> length qs = length configs
     \<and> (\<forall>q \<in> set qs. mailbox_inv q \<and> mailbox_contents q = [] \<and> mailbox_room q N)"
  using assms(1)
proof (induction configs)
  case (Cons c cs)
  obtain qs :: "'m mailbox list" where "those (map mailbox_new cs) = Some qs" "length qs = length cs"
      "\<forall>q \<in> set qs. mailbox_inv q \<and> mailbox_contents q = [] \<and> mailbox_room q N"
    using Cons.IH Cons.prems(1) assms(2) by auto
  moreover obtain q :: "'m mailbox" where "mailbox_new c = Some q" "mailbox_inv q" "mailbox_contents q = []"
      "mailbox_room q N" using mailbox_new_spec [of c N] Cons.prems(1) assms(2) by auto
  ultimately show ?case by auto
qed simp

lemma MailboxSet_new_spec:
  assumes "\<forall>c \<in> set configs. config_ok c" and "N \<le> 2 ^ 61"
  shows "\<exists>s :: 'm mailbox_set. MailboxSet_new configs = Some (Inr (), s) \<and> mbs_inv s \<and> mbs_room s N
     \<and> mbs_contents s = replicate (max 1 (length configs)) []"
proof (cases "configs = []")
  case True
  then show ?thesis
    by (simp add: MailboxSet_new_def EmplaceBack_run FixedCapacityBuffer_new_def mbs_inv_def
        mbs_room_def mbs_contents_def)
next
  case False
  obtain qs :: "'m mailbox list" where qs: "those (map mailbox_new configs) = Some qs" "length qs = length configs"
      "\<forall>q \<in> set qs. mailbox_inv q \<and> mailbox_contents q = [] \<and> mailbox_room q N"
    using mailboxes_new_spec [OF assms] by blast
  define s where "s = \<lparr>fc_capacity = length configs, fc_elems = qs\<rparr>"
  have "forE FixedCapacityBuffer_EmplaceBack qs (FixedCapacityBuffer_new (length configs)) = (Inr (), s)"
    using qs(2) by (simp add: EmplaceBack_all FixedCapacityBuffer_new_def s_def)
  then have "MailboxSet_new configs = Some (Inr (), s)" using False qs(1) by (simp add: MailboxSet_new_def)
  moreover have "map mailbox_contents qs = replicate (length qs) []"
    using qs(3) by (simp add: map_replicate_const [symmetric] cong: map_cong)
  ultimately show ?thesis
    using qs False by (auto simp: s_def mbs_inv_def mbs_room_def mbs_contents_def max_def Suc_le_eq)
qed

section \<open>The actor\<close>

text \<open>
  The user's part of an actor, a parameter of the model: the optional hook
  \<open>ExActorShouldActivate\<close> (as a function of the mailbox index), the stop token of a message's
  receiver (\<open>None\<close>: an unstoppable token, otherwise whether stop was requested), and the
  messages a handler submits to its own actor while it runs.
\<close>

record 'm actor_env =
  env_should_activate :: "(nat \<Rightarrow> bool) option"
  env_stop_requested :: "'m \<Rightarrow> bool option"
  env_sends :: "'m \<Rightarrow> ('m \<times> nat) list"

text \<open>
  The members of \<open>Actor\<close>. \<open>ac_scheduled\<close> counts the activations spawned into
  \<open>async_scope_\<close> that have not run, \<open>ac_scope_joined\<close> says that \<open>join\<close> has completed, after
  which \<open>spawn\<close> starts nothing; \<open>ac_completions\<close> lists the completions of receivers so far.
\<close>

record 'm actor =
  ac_config :: actor_config
  ac_mailbox_set :: "'m mailbox_set"
  ac_pending_message_count :: u64
  ac_user_class_instance :: bool
  ac_activated :: bool
  ac_pending_to_be_destroyed :: bool
  ac_scheduled :: nat
  ac_scope_joined :: bool
  ac_completions :: "('m \<times> (unit, exa_error) completion) list"

definition Actor_new :: "actor_config \<Rightarrow> ((exa_error + 'm actor)) option" where
  "Actor_new config =
     (case MailboxSet_new (mailbox_configs config) of
        None \<Rightarrow> None
      | Some (Inl e, _) \<Rightarrow> Some (Inl e)
      | Some (Inr _, mailboxes) \<Rightarrow>
          Some (Inr \<lparr>ac_config = config, ac_mailbox_set = mailboxes, ac_pending_message_count = 0,
            ac_user_class_instance = True, ac_activated = False, ac_pending_to_be_destroyed = False,
            ac_scheduled = 0, ac_scope_joined = False, ac_completions = []\<rparr>))"

definition Actor_GetActorTypeHash :: "bytes \<Rightarrow> u64" where
  "Actor_GetActorTypeHash type_name = FnvHash type_name"

text \<open>\<open>ActorMessage::Execute\<close>: which completion function of the receiver is called.\<close>

definition ActorMessage_Execute :: "'m actor_env \<Rightarrow> 'm \<Rightarrow> (unit, exa_error) completion" where
  "ActorMessage_Execute env m =
     (case env_stop_requested env m of
        None \<Rightarrow> Set_Value ()
      | Some stop_requested \<Rightarrow> if stop_requested then Set_Stopped else Set_Value ())"

definition ActorActivationContext_Schedule :: "'m actor \<Rightarrow> 'm actor" where
  "ActorActivationContext_Schedule a =
     (if ac_scope_joined a then a else a\<lparr>ac_scheduled := Suc (ac_scheduled a)\<rparr>)"

definition Actor_TryActivate :: "'m actor \<Rightarrow> 'm actor" where
  "Actor_TryActivate a =
     (if ac_activated a then a
      else ActorActivationContext_Schedule (a\<lparr>ac_activated := True\<rparr>))"

text \<open>The hook is a call on \<open>user_class_instance_\<close>, undefined when that is null.\<close>

definition Actor_ShouldActivate :: "'m actor_env \<Rightarrow> nat \<Rightarrow> 'm actor \<Rightarrow> bool option" where
  "Actor_ShouldActivate env mailbox_index a =
     (case env_should_activate env of
        None \<Rightarrow> Some True
      | Some hook \<Rightarrow> if ac_user_class_instance a then Some (hook mailbox_index) else None)"

definition Actor_PushMessage ::
    "'m actor_env \<Rightarrow> 'm \<Rightarrow> nat \<Rightarrow> 'm actor \<Rightarrow> ((exa_error + unit) \<times> 'm actor) option" where
  "Actor_PushMessage env task mailbox_index a =
     (case MailboxSet_Push mailbox_index task (ac_mailbox_set a) of
        None \<Rightarrow> None
      | Some (Inl e, mailboxes) \<Rightarrow> Some (Inl e, a\<lparr>ac_mailbox_set := mailboxes\<rparr>)
      | Some (Inr _, mailboxes) \<Rightarrow>
          let a1 = a\<lparr>ac_mailbox_set := mailboxes,
                     ac_pending_message_count := ac_pending_message_count a + 1\<rparr> in
          (case Actor_ShouldActivate env mailbox_index a1 of
             None \<Rightarrow> None
           | Some yes \<Rightarrow> Some (Inr (), if yes then Actor_TryActivate a1 else a1)))"

text \<open>\<open>ActorMessageSubmissionOperation::start\<close>: an exception completes the receiver with an error.\<close>

definition Submission_start :: "'m actor_env \<Rightarrow> 'm \<times> nat \<Rightarrow> 'm actor \<Rightarrow> 'm actor option" where
  "Submission_start env op a =
     (case Actor_PushMessage env (fst op) (snd op) a of
        None \<Rightarrow> None
      | Some (Inl e, a') \<Rightarrow> Some (a'\<lparr>ac_completions := ac_completions a' @ [(fst op, Set_Error e)]\<rparr>)
      | Some (Inr _, a') \<Rightarrow> Some a')"

fun Submission_start_all :: "'m actor_env \<Rightarrow> ('m \<times> nat) list \<Rightarrow> 'm actor \<Rightarrow> 'm actor option" where
  "Submission_start_all env [] a = Some a"
| "Submission_start_all env (op # ops) a =
     (case Submission_start env op a of None \<Rightarrow> None | Some a' \<Rightarrow> Submission_start_all env ops a')"

text \<open>Executing a message completes its receiver; with a value, the handler runs and may submit.\<close>

definition Actor_execute :: "'m actor_env \<Rightarrow> 'm \<Rightarrow> 'm actor \<Rightarrow> 'm actor option" where
  "Actor_execute env m a =
     (let c = ActorMessage_Execute env m;
          a1 = a\<lparr>ac_completions := ac_completions a @ [(m, c)]\<rparr>
      in if c = Set_Value () then Submission_start_all env (env_sends env m) a1 else Some a1)"

text \<open>
  The \<open>while\<close> loop over one mailbox and the \<open>for\<close> loop over the mailboxes, with
  \<open>message_executed\<close> and \<open>message_execution_limit\<close>. The counter cannot wrap: the inner loop
  continues only below the limit. An exception of \<open>TryPop\<close> leaves the activation and ends the
  process (\<open>DiscardResult\<close>): no result.
\<close>

function drain_mailbox :: "'m actor_env \<Rightarrow> nat \<Rightarrow> nat \<Rightarrow> nat \<Rightarrow> 'm actor \<Rightarrow> (nat \<times> bool \<times> 'm actor) option" where
  "drain_mailbox env limit mailbox_index executed a =
     (case MailboxSet_TryPop mailbox_index (ac_mailbox_set a) of
        None \<Rightarrow> None
      | Some (Inl e, mailboxes) \<Rightarrow> None
      | Some (Inr None, mailboxes) \<Rightarrow> Some (executed, False, a\<lparr>ac_mailbox_set := mailboxes\<rparr>)
      | Some (Inr (Some m), mailboxes) \<Rightarrow>
          (case Actor_execute env m (a\<lparr>ac_mailbox_set := mailboxes\<rparr>) of
             None \<Rightarrow> None
           | Some a' \<Rightarrow>
               if limit \<le> Suc executed then Some (Suc executed, True, a')
               else drain_mailbox env limit mailbox_index (Suc executed) a'))"
  by pat_completeness auto
termination by (relation "measure (\<lambda>(env, limit, i, executed, a). limit - executed)") auto

declare drain_mailbox.simps [simp del]

fun walk_mailboxes :: "'m actor_env \<Rightarrow> nat \<Rightarrow> nat list \<Rightarrow> nat \<Rightarrow> 'm actor \<Rightarrow> (nat \<times> 'm actor) option" where
  "walk_mailboxes env limit [] executed a = Some (executed, a)"
| "walk_mailboxes env limit (i # is) executed a =
     (case drain_mailbox env limit i executed a of
        None \<Rightarrow> None
      | Some (executed', limit_reached, a') \<Rightarrow>
          if limit_reached then Some (executed', a') else walk_mailboxes env limit is executed' a')"

definition Actor_PullMailboxAndRun :: "'m actor_env \<Rightarrow> 'm actor \<Rightarrow> 'm actor option" where
  "Actor_PullMailboxAndRun env a =
     (if \<not> ac_user_class_instance a then Some a
      else if ac_pending_to_be_destroyed a then
        Some (a\<lparr>ac_user_class_instance := False, ac_activated := False,
                ac_pending_message_count := ac_pending_message_count a - 1\<rparr>)
      else
        let limit = unat (min (max_message_executed_per_activation (ac_config a)) (ac_pending_message_count a));
            mailbox_number = MailboxSet_MailboxCount (ac_mailbox_set a)
        in (case walk_mailboxes env limit [0..<mailbox_number] 0 a of
              None \<Rightarrow> None
            | Some (executed, a1) \<Rightarrow>
                let a2 = a1\<lparr>ac_pending_message_count := ac_pending_message_count a1 - word_of_nat executed\<rparr>;
                    a3 = a2\<lparr>ac_activated := False\<rparr>
                in Some (if 0 < ac_pending_message_count a3 then Actor_TryActivate a3 else a3)))"

text \<open>
  \<open>AsyncDestroy\<close> up to its \<open>co_await\<close>; the result says whether it goes on to join the scope.
  The join completes when no spawned activation is left.
\<close>

definition Actor_AsyncDestroy :: "'m actor \<Rightarrow> bool \<times> 'm actor" where
  "Actor_AsyncDestroy a =
     (if ac_pending_to_be_destroyed a then (False, a)
      else let a1 = a\<lparr>ac_pending_to_be_destroyed := True,
                      ac_pending_message_count := ac_pending_message_count a + 1\<rparr>
           in (True, Actor_TryActivate a1))"

definition Actor_join :: "'m actor \<Rightarrow> 'm actor option" where
  "Actor_join a = (if ac_scheduled a = 0 then Some (a\<lparr>ac_scope_joined := True\<rparr>) else None)"

text \<open>The executor takes one spawned activation at a time, until none is left (or the fuel is used up).\<close>

definition run_one_activation :: "'m actor_env \<Rightarrow> 'm actor \<Rightarrow> 'm actor option" where
  "run_one_activation env a = Actor_PullMailboxAndRun env (a\<lparr>ac_scheduled := ac_scheduled a - 1\<rparr>)"

fun run_activations :: "nat \<Rightarrow> 'm actor_env \<Rightarrow> 'm actor \<Rightarrow> 'm actor option" where
  "run_activations fuel env a =
     (if ac_scheduled a = 0 then Some a
      else case fuel of
             0 \<Rightarrow> None
           | Suc fuel' \<Rightarrow> (case run_one_activation env a of
                             None \<Rightarrow> None
                           | Some a' \<Rightarrow> run_activations fuel' env a'))"

declare run_activations.simps [simp del]

section \<open>What one activation executes\<close>

text \<open>
  For handlers that submit nothing to their own actor: an activation executes the queued
  messages mailbox by mailbox, each mailbox oldest first, up to the limit, and at least one.
\<close>

definition msg_completion :: "'m actor_env \<Rightarrow> 'm \<Rightarrow> 'm \<times> (unit, exa_error) completion" where
  "msg_completion env m = (m, ActorMessage_Execute env m)"

abbreviation ran :: "'m mailbox_set \<Rightarrow> ('m \<times> (unit, exa_error) completion) list \<Rightarrow> 'm actor \<Rightarrow> 'm actor" where
  "ran ms cs a \<equiv> a\<lparr>ac_mailbox_set := ms, ac_completions := ac_completions a @ cs\<rparr>"

definition no_sends :: "'m actor_env \<Rightarrow> bool" where
  "no_sends env \<longleftrightarrow> (\<forall>m. env_sends env m = [])"

lemma execute_no_sends:
  "no_sends env \<Longrightarrow> Actor_execute env m a = Some (a\<lparr>ac_completions := ac_completions a @ [msg_completion env m]\<rparr>)"
  by (simp add: Actor_execute_def no_sends_def msg_completion_def Let_def)

definition room_kept :: "'m mailbox_set \<Rightarrow> 'm mailbox_set \<Rightarrow> bool" where
  "room_kept s s' \<longleftrightarrow> mbs_limits s' = mbs_limits s \<and> (\<forall>n. mbs_room s n \<longrightarrow> mbs_room s' n)"

lemma room_kept_refl [simp]: "room_kept s s"
  by (simp add: room_kept_def)

lemma room_kept_trans: "room_kept s t \<Longrightarrow> room_kept t u \<Longrightarrow> room_kept s u"
  by (simp add: room_kept_def)

lemma drain_mailbox_spec:
  assumes "no_sends env" and "e < max 1 limit" and "mbs_inv (ac_mailbox_set a)"
    and "i < length (mbs_contents (ac_mailbox_set a))" and "mbs_contents (ac_mailbox_set a) ! i = b"
    and "k = min (length b) (max 1 limit - e)"
  shows "\<exists>ms. drain_mailbox env limit i e a
        = Some (e + k, k = max 1 limit - e, ran ms (map (msg_completion env) (take k b)) a)
      \<and> mbs_inv ms \<and> room_kept (ac_mailbox_set a) ms
      \<and> mbs_contents ms = (mbs_contents (ac_mailbox_set a))[i := drop k b]"
  using assms
proof (induction b arbitrary: e a k)
  case Nil
  have "drain_mailbox env limit i e a = Some (e, False, a)"
    using MailboxSet_TryPop_none [OF Nil.prems(3,4,5)]
    by (subst drain_mailbox.simps) simp
  moreover have "(mbs_contents (ac_mailbox_set a))[i := []] = mbs_contents (ac_mailbox_set a)"
    using Nil.prems(5) list_update_id by metis
  moreover have "max 1 limit - e \<noteq> 0" using Nil.prems(2) by arith
  moreover have "k = 0" using Nil.prems(6) by simp
  ultimately show ?case using Nil.prems(3) by (intro exI [of _ "ac_mailbox_set a"]) simp
next
  case (Cons m b)
  obtain ms where ms: "MailboxSet_TryPop i (ac_mailbox_set a) = Some (Inr (Some m), ms)" "mbs_inv ms"
      "\<forall>n. mbs_room (ac_mailbox_set a) n \<longrightarrow> mbs_room ms n"
      "mbs_contents ms = (mbs_contents (ac_mailbox_set a))[i := b]"
      "mbs_limits ms = mbs_limits (ac_mailbox_set a)"
    using MailboxSet_TryPop_some [OF Cons.prems(3,4,5)] by auto
  define a1 where "a1 = ran ms [msg_completion env m] a"
  have step: "drain_mailbox env limit i e a =
      (if limit \<le> Suc e then Some (Suc e, True, a1) else drain_mailbox env limit i (Suc e) a1)"
    using ms(1) execute_no_sends [OF Cons.prems(1)]
    by (subst drain_mailbox.simps) (simp add: a1_def)
  have kept: "room_kept (ac_mailbox_set a) ms" using ms(3,5) by (simp add: room_kept_def)
  have last: "limit \<le> Suc e \<longleftrightarrow> Suc e = max 1 limit" using Cons.prems(2) by auto
  show ?case
  proof (cases "limit \<le> Suc e")
    case True
    then have "k = 1" "max 1 limit - e = 1" using Cons.prems(6) last by auto
    then show ?thesis using True step ms kept by (intro exI [of _ ms]) (simp add: a1_def)
  next
    case False
    then have e: "Suc e < max 1 limit" by simp
    define k' where "k' = min (length b) (max 1 limit - Suc e)"
    have "k = min (Suc (length b)) (max 1 limit - e)" using Cons.prems(6) by simp
    then have k: "k = Suc k'" using e unfolding k'_def by arith
    have a1: "ac_mailbox_set a1 = ms" by (simp add: a1_def)
    have i1: "i < length (mbs_contents (ac_mailbox_set a1))"
      "mbs_contents (ac_mailbox_set a1) ! i = b" using Cons.prems(4) ms(4) by (simp_all add: a1 del: mbs_lengths)
    obtain ms' where ms': "drain_mailbox env limit i (Suc e) a1
          = Some (Suc e + k', k' = max 1 limit - Suc e, ran ms' (map (msg_completion env) (take k' b)) a1)"
        "mbs_inv ms'" "room_kept ms ms'" "mbs_contents ms' = (mbs_contents ms)[i := drop k' b]"
      using Cons.IH [OF Cons.prems(1) e _ i1 k'_def] ms(2) by (auto simp: a1)
    have "drain_mailbox env limit i e a
        = Some (e + k, k = max 1 limit - e, ran ms' (map (msg_completion env) (take k (m # b))) a)"
      using step False ms'(1) e by (simp add: k a1_def) arith
    then show ?thesis
      using ms' room_kept_trans [OF kept] ms(4) by (intro exI [of _ ms']) (simp add: k)
  qed
qed

lemma concat_update: "i < length xs \<Longrightarrow> (\<forall>j < i. xs ! j = []) \<Longrightarrow>
    concat (xs[i := y]) = y @ concat (drop (Suc i) xs) \<and> concat xs = xs ! i @ concat (drop (Suc i) xs)"
proof (induction i arbitrary: xs)
  case 0
  then show ?case by (cases xs) auto
next
  case (Suc i)
  then obtain x ys where xs: "xs = x # ys" by (cases xs) auto
  then have "x = []" "i < length ys" "\<forall>j < i. ys ! j = []" using Suc.prems by (auto dest: spec [of _ 0] spec [of _ "Suc _"])
  then show ?case using Suc.IH [of ys] xs by simp
qed

lemma walk_mailboxes_spec:
  assumes "no_sends env" and "e < max 1 limit" and "mbs_inv (ac_mailbox_set a)"
    and "length (mbs_contents (ac_mailbox_set a)) = n" and "i \<le> n"
    and "\<forall>j < i. mbs_contents (ac_mailbox_set a) ! j = []"
    and "k = min (length (concat (mbs_contents (ac_mailbox_set a)))) (max 1 limit - e)"
  shows "\<exists>ms. walk_mailboxes env limit [i..<n] e a
        = Some (e + k, ran ms (map (msg_completion env) (take k (concat (mbs_contents (ac_mailbox_set a))))) a)
      \<and> mbs_inv ms \<and> room_kept (ac_mailbox_set a) ms \<and> length (mbs_contents ms) = n
      \<and> concat (mbs_contents ms) = drop k (concat (mbs_contents (ac_mailbox_set a)))"
  using assms
proof (induction "n - i" arbitrary: i e a k)
  case 0
  then have none: "concat (mbs_contents (ac_mailbox_set a)) = []"
    by (auto simp del: mbs_lengths simp: in_set_conv_nth)
  have "k = 0" using "0.prems"(7) by (simp only: none) simp
  then show ?case using 0
    by (intro exI [of _ "ac_mailbox_set a"]) (simp del: mbs_lengths concat_eq_Nil_conv add: none)
next
  case (Suc x)
  define bs where "bs = mbs_contents (ac_mailbox_set a)"
  define k1 where "k1 = min (length (bs ! i)) (max 1 limit - e)"
  have i: "i < n" "i < length bs" using Suc.hyps(2) Suc.prems(4) by (simp_all add: bs_def del: mbs_lengths)
  obtain ms where ms: "drain_mailbox env limit i e a
        = Some (e + k1, k1 = max 1 limit - e, ran ms (map (msg_completion env) (take k1 (bs ! i))) a)"
      "mbs_inv ms" "room_kept (ac_mailbox_set a) ms" "mbs_contents ms = bs[i := drop k1 (bs ! i)]"
    using drain_mailbox_spec [OF Suc.prems(1,2,3) _ _ k1_def, of i] i(2) by (auto simp: bs_def simp del: mbs_lengths)
  define R where "R = concat (drop (Suc i) bs)"
  have cat: "concat (bs[i := y]) = y @ R \<and> concat bs = bs ! i @ R" for y
    using concat_update [OF i(2)] Suc.prems(6) by (simp add: bs_def R_def)
  have upt: "[i..<n] = i # [Suc i..<n]" using i(1) by (rule upt_conv_Cons)
  show ?case
  proof (cases "k1 = max 1 limit - e")
    case True
    then have "k = k1" "k1 \<le> length (bs ! i)" using Suc.prems(7) cat by (auto simp: k1_def bs_def simp del: mbs_lengths)
    then have "max 1 limit - (e + length (bs ! i)) = 0" using True by arith
    then show ?thesis
      using \<open>k = k1\<close> \<open>k1 \<le> length (bs ! i)\<close> ms True cat Suc.prems(4)
      by (intro exI [of _ ms]) (simp add: upt bs_def [symmetric] del: mbs_lengths)
  next
    case False
    then have k1: "k1 = length (bs ! i)" "e + k1 < max 1 limit" using Suc.prems(2) by (auto simp: k1_def)
    define a1 where "a1 = ran ms (map (msg_completion env) (bs ! i)) a"
    have a1: "ac_mailbox_set a1 = ms" by (simp add: a1_def)
    have c1: "mbs_contents ms = bs[i := []]" using ms(4) k1(1) by simp
    have empty: "\<forall>j < Suc i. mbs_contents (ac_mailbox_set a1) ! j = []"
      using c1 i(2) Suc.prems(6) by (simp add: a1 bs_def nth_list_update less_Suc_eq)
    have len: "length (mbs_contents (ac_mailbox_set a1)) = n"
      using c1 Suc.prems(4) by (simp add: a1 bs_def del: mbs_lengths)
    define k2 where "k2 = min (length R) (max 1 limit - (e + k1))"
    have k2: "k2 = min (length (concat (mbs_contents (ac_mailbox_set a1)))) (max 1 limit - (e + k1))"
      using cat [of "[]"] c1 by (simp add: k2_def a1)
    have x: "x = n - Suc i" "Suc i \<le> n" using Suc.hyps(2) i(1) by auto
    have inv1: "mbs_inv (ac_mailbox_set a1)" using ms(2) by (simp add: a1)
    obtain ms' where ms': "walk_mailboxes env limit [Suc i..<n] (e + k1) a1
          = Some (e + k1 + k2, ran ms' (map (msg_completion env) (take k2 R)) a1)"
        "mbs_inv ms'" "room_kept ms ms'" "length (mbs_contents ms') = n"
        "concat (mbs_contents ms') = drop k2 R"
      using Suc.hyps(1) [OF x(1) Suc.prems(1) k1(2) inv1 len x(2) empty k2] cat [of "[]"] c1
      by (auto simp: a1)
    have "length (concat bs) = k1 + length R" using cat [of "[]"] k1(1) by simp
    then have "k = min (k1 + length R) (max 1 limit - e)" using Suc.prems(7) by (simp only: bs_def)
    then have k: "k = k1 + k2" using k1(2) unfolding k2_def by arith
    have "walk_mailboxes env limit [i..<n] e a
        = Some (e + k, ran ms' (map (msg_completion env) (take k (concat bs))) a)"
      using ms(1) ms'(1) False k1(1) cat by (simp add: upt k a1_def)
    then show ?thesis
      using ms' room_kept_trans [OF ms(3)] cat k k1(1)
      by (intro exI [of _ ms']) (simp add: bs_def [symmetric] del: mbs_lengths)
  qed
qed

end
