(* ===== verification/Actor_Delivery.thy ===== *)
theory Actor_Delivery
  imports Actor
begin

text \<open>
  Submissions to an actor and the activations that run them, end to end, for calls that do
  not overlap: every accepted message is executed exactly once, in the order of its mailbox,
  every refused one is completed with an error, and the actor goes to sleep afterwards.
\<close>

section \<open>The state between calls\<close>

definition ac_contents :: "'m actor \<Rightarrow> 'm list list" where
  "ac_contents a = mbs_contents (ac_mailbox_set a)"

definition queued :: "'m actor \<Rightarrow> 'm list" where
  "queued a = concat (ac_contents a)"

text \<open>
  \<open>actor_ok a n\<close>: no call is in progress, the counter agrees with the mailboxes, exactly one
  activation is scheduled if and only if messages are queued, and there is room for \<open>n\<close>
  more submissions.
\<close>

definition actor_ok :: "'m actor \<Rightarrow> nat \<Rightarrow> bool" where
  "actor_ok a n \<longleftrightarrow> mbs_inv (ac_mailbox_set a) \<and> mbs_room (ac_mailbox_set a) n
     \<and> length (queued a) + n < 2 ^ 64
     \<and> ac_pending_message_count a = word_of_nat (length (queued a))
     \<and> ac_user_class_instance a \<and> \<not> ac_pending_to_be_destroyed a \<and> \<not> ac_scope_joined a
     \<and> ac_activated a = (queued a \<noteq> []) \<and> ac_scheduled a = (if queued a = [] then 0 else 1)"

section \<open>Submissions\<close>

text \<open>The abstract mailboxes: a submission is queued in its mailbox or, when that is full, refused.\<close>

fun spec_submit :: "nat option list \<Rightarrow> ('m \<times> nat) list \<Rightarrow> 'm list list \<Rightarrow> 'm list list \<times> 'm list" where
  "spec_submit lims [] bs = (bs, [])"
| "spec_submit lims ((m, i) # ops) bs =
     (if has_space (lims ! i) (bs ! i)
      then spec_submit lims ops (bs[i := bs ! i @ [m]])
      else (let (bs', refused) = spec_submit lims ops bs in (bs', m # refused)))"

definition refusal :: "'m \<Rightarrow> 'm \<times> (unit, exa_error) completion" where
  "refusal m = (m, Set_Error (Throw_Stream ''MailboxSet: mailbox is full''))"

lemma length_concat_update:
  "i < length bs \<Longrightarrow> length (concat (bs[i := bs ! i @ [m]])) = Suc (length (concat bs))"
proof (induction i arbitrary: bs)
  case 0
  then show ?case by (cases bs) auto
next
  case (Suc i)
  then show ?case by (cases bs) auto
qed

lemma submit_accepted:
  assumes env: "env_should_activate env = None" and ok: "actor_ok a (Suc n)"
    and i: "i < length (ac_contents a)" and space: "has_space (mbs_limits (ac_mailbox_set a) ! i) (ac_contents a ! i)"
  shows "\<exists>a'. Submission_start env (m, i) a = Some a' \<and> actor_ok a' n
     \<and> ac_contents a' = (ac_contents a)[i := ac_contents a ! i @ [m]]
     \<and> mbs_limits (ac_mailbox_set a') = mbs_limits (ac_mailbox_set a)
     \<and> ac_completions a' = ac_completions a \<and> ac_config a' = ac_config a"
proof -
  obtain ms where ms: "MailboxSet_Push i m (ac_mailbox_set a) = Some (Inr (), ms)" "mbs_inv ms" "mbs_room ms n"
      "mbs_contents ms = (ac_contents a)[i := ac_contents a ! i @ [m]]"
      "mbs_limits ms = mbs_limits (ac_mailbox_set a)"
    using MailboxSet_Push_free [of "ac_mailbox_set a" n i m] ok i space
    by (auto simp: actor_ok_def ac_contents_def simp del: mbs_lengths)
  have len: "length (concat (mbs_contents ms)) = Suc (length (queued a))"
    using length_concat_update [OF i] ms(4) by (simp add: queued_def)
  then have ne: "concat (mbs_contents ms) \<noteq> []" by (metis length_0_conv nat.distinct(1))
  define a1 where "a1 = a\<lparr>ac_mailbox_set := ms, ac_pending_message_count := ac_pending_message_count a + 1\<rparr>"
  have sub: "Submission_start env (m, i) a = Some (Actor_TryActivate a1)"
    using ms(1) env by (simp add: Submission_start_def Actor_PushMessage_def Actor_ShouldActivate_def a1_def)
  have pend: "ac_pending_message_count a + 1 = word_of_nat (Suc (length (queued a)))"
    using ok by (simp add: actor_ok_def)
  have "actor_ok (Actor_TryActivate a1) n"
    using ok ms(2,3) len ne pend
    by (auto simp: actor_ok_def Actor_TryActivate_def ActorActivationContext_Schedule_def a1_def queued_def
        ac_contents_def)
  then show ?thesis
    using sub ms(4,5)
    by (auto simp: Actor_TryActivate_def ActorActivationContext_Schedule_def a1_def ac_contents_def)
qed

lemma submit_refused:
  assumes ok: "actor_ok a (Suc n)"
    and i: "i < length (ac_contents a)" and space: "\<not> has_space (mbs_limits (ac_mailbox_set a) ! i) (ac_contents a ! i)"
  shows "Submission_start env (m, i) a = Some (a\<lparr>ac_completions := ac_completions a @ [refusal m]\<rparr>)"
  using MailboxSet_Push_full [of "ac_mailbox_set a" i m] ok i space
  by (simp add: actor_ok_def ac_contents_def Submission_start_def Actor_PushMessage_def refusal_def del: mbs_lengths)

lemma actor_ok_less: "actor_ok a (Suc n) \<Longrightarrow> actor_ok a n"
  using mailbox.room_less by (auto simp: actor_ok_def mbs_room_def)

lemma actor_ok_completions [simp]: "actor_ok (a\<lparr>ac_completions := cs\<rparr>) n = actor_ok a n"
  by (simp add: actor_ok_def queued_def ac_contents_def)

lemma submit_all:
  assumes env: "env_should_activate env = None" and ok: "actor_ok a (length ops)"
    and i: "\<forall>(m, i) \<in> set ops. i < length (ac_contents a)"
    and spec: "spec_submit (mbs_limits (ac_mailbox_set a)) ops (ac_contents a) = (bs, refused)"
  shows "\<exists>a'. Submission_start_all env ops a = Some a' \<and> actor_ok a' 0 \<and> ac_contents a' = bs
     \<and> ac_completions a' = ac_completions a @ map refusal refused \<and> ac_config a' = ac_config a"
  using ok i spec
proof (induction ops arbitrary: a bs refused)
  case Nil
  then show ?case by simp
next
  case (Cons op ops)
  obtain m i where op: "op = (m, i)" by (cases op)
  have i: "i < length (ac_contents a)" using Cons.prems(2) op by auto
  show ?case
  proof (cases "has_space (mbs_limits (ac_mailbox_set a) ! i) (ac_contents a ! i)")
    case True
    obtain a1 where a1: "Submission_start env (m, i) a = Some a1" "actor_ok a1 (length ops)"
        "ac_contents a1 = (ac_contents a)[i := ac_contents a ! i @ [m]]"
        "mbs_limits (ac_mailbox_set a1) = mbs_limits (ac_mailbox_set a)"
        "ac_completions a1 = ac_completions a" "ac_config a1 = ac_config a"
      using submit_accepted [OF env _ i True] Cons.prems(1) by auto
    then show ?thesis using Cons.IH [OF a1(2), of bs refused] Cons.prems(2,3) True op by simp
  next
    case False
    obtain refused' where r: "spec_submit (mbs_limits (ac_mailbox_set a)) ops (ac_contents a) = (bs, refused')"
        "refused = m # refused'"
      using Cons.prems(3) False op by (auto split: prod.splits)
    have okS: "actor_ok a (Suc (length ops))" using Cons.prems(1) by simp
    define a1 where "a1 = a\<lparr>ac_completions := ac_completions a @ [refusal m]\<rparr>"
    have a1: "actor_ok a1 (length ops)" "ac_contents a1 = ac_contents a"
        "ac_mailbox_set a1 = ac_mailbox_set a" "ac_config a1 = ac_config a"
      using actor_ok_less [OF okS] by (simp_all add: a1_def ac_contents_def)
    then show ?thesis
      using submit_refused [OF okS i False] Cons.IH [OF a1(1), of bs refused'] Cons.prems(2) r op
      by (simp add: a1_def)
  qed
qed

section \<open>Activations\<close>

definition batch_size :: "'m actor \<Rightarrow> nat" where
  "batch_size a = min (length (queued a)) (max 1 (unat (max_message_executed_per_activation (ac_config a))))"

lemma activation_spec:
  assumes env: "no_sends env" and ok: "actor_ok a 0" and ne: "queued a \<noteq> []"
  shows "\<exists>a'. run_one_activation env a = Some a' \<and> actor_ok a' 0
     \<and> queued a' = drop (batch_size a) (queued a)
     \<and> ac_completions a' = ac_completions a @ map (msg_completion env) (take (batch_size a) (queued a))
     \<and> ac_config a' = ac_config a"
proof -
  define b where "b = a\<lparr>ac_scheduled := ac_scheduled a - 1\<rparr>"
  define lim where "lim = unat (min (max_message_executed_per_activation (ac_config b)) (ac_pending_message_count b))"
  define q where "q = queued a"
  define k where "k = batch_size a"
  have small: "length q < 2 ^ 64" using ok by (simp add: actor_ok_def q_def)
  have pend: "ac_pending_message_count b = word_of_nat (length q)" using ok by (simp add: actor_ok_def b_def q_def)
  then have upend: "unat (ac_pending_message_count b) = length q" using small unat_of_nat64 by simp
  have lim: "lim = min (unat (max_message_executed_per_activation (ac_config a))) (length q)"
    using upend by (simp add: lim_def b_def min_def word_le_nat_alt)
  have len: "0 < length q" using ne by (simp add: q_def)
  have k: "k = min (length q) (max 1 lim - 0)"
    using len unfolding k_def batch_size_def lim q_def by arith
  have q: "concat (mbs_contents (ac_mailbox_set b)) = q" by (simp add: b_def q_def queued_def ac_contents_def)
  have e0: "0 < max 1 lim" by simp
  have inv_b: "mbs_inv (ac_mailbox_set b)" using ok by (simp add: actor_ok_def b_def)
  have none: "\<forall>j < 0. mbs_contents (ac_mailbox_set b) ! j = []" by simp
  have k': "k = min (length (concat (mbs_contents (ac_mailbox_set b)))) (max 1 lim - 0)"
    using k by (simp only: q)
  obtain ms where ms: "walk_mailboxes env lim [0..<length (mbs_contents (ac_mailbox_set b))] 0 b
        = Some (k, ran ms (map (msg_completion env) (take k q)) b)"
      "mbs_inv ms" "room_kept (ac_mailbox_set b) ms" "concat (mbs_contents ms) = drop k q"
    using walk_mailboxes_spec [OF env e0 inv_b refl le0 none k'] unfolding q by auto
  define a3 where "a3 = b\<lparr>ac_mailbox_set := ms, ac_completions := ac_completions b @ map (msg_completion env) (take k q),
      ac_pending_message_count := ac_pending_message_count b - word_of_nat k, ac_activated := False\<rparr>"
  have inst: "ac_user_class_instance b" "\<not> ac_pending_to_be_destroyed b"
    using ok by (simp_all add: actor_ok_def b_def)
  have "Actor_PullMailboxAndRun env b =
      Some (if 0 < ac_pending_message_count a3 then Actor_TryActivate a3 else a3)"
    using ms(1) inst unfolding Actor_PullMailboxAndRun_def Let_def lim_def [symmetric]
    by (simp add: MailboxSet_MailboxCount_def FixedCapacityBuffer_Size_def a3_def)
  then have run: "run_one_activation env a =
      Some (if 0 < ac_pending_message_count a3 then Actor_TryActivate a3 else a3)"
    by (simp add: run_one_activation_def b_def)
  have kq: "k \<le> length q" by (simp add: k)
  have pend3: "ac_pending_message_count a3 = word_of_nat (length (drop k q))"
    using kq by (simp add: a3_def pend of_nat_diff)
  have zero: "0 < ac_pending_message_count a3 \<longleftrightarrow> drop k q \<noteq> []"
  proof -
    have "unat (ac_pending_message_count a3) = length (drop k q)"
      using small by (simp only: pend3) (rule unat_of_nat64, simp)
    then show ?thesis by (metis length_greater_0_conv unat_gt_0 word_neq_0_conv)
  qed
  have room: "mbs_room ms 0" using ms(3) ok by (simp add: room_kept_def actor_ok_def b_def)
  define a' where "a' = (if 0 < ac_pending_message_count a3 then Actor_TryActivate a3 else a3)"
  have q': "queued a' = drop k q"
    by (simp add: a'_def a3_def Actor_TryActivate_def ActorActivationContext_Schedule_def queued_def ac_contents_def ms(4))
  have "actor_ok a' 0"
    unfolding actor_ok_def q'
    using ok ne ms(2) room zero pend3 small
    by (auto simp: a'_def a3_def b_def actor_ok_def Actor_TryActivate_def ActorActivationContext_Schedule_def
        queued_def ac_contents_def)
  moreover have "ac_completions a' = ac_completions a @ map (msg_completion env) (take k q)"
    "ac_config a' = ac_config a"
    by (simp_all add: a'_def a3_def b_def Actor_TryActivate_def ActorActivationContext_Schedule_def)
  ultimately show ?thesis using run q' by (simp add: a'_def k_def q_def)
qed

lemma run_activations_spec:
  assumes env: "no_sends env" and ok: "actor_ok a 0" and fuel: "length (queued a) \<le> fuel"
  shows "\<exists>a'. run_activations fuel env a = Some a' \<and> actor_ok a' 0 \<and> queued a' = []
     \<and> ac_completions a' = ac_completions a @ map (msg_completion env) (queued a)"
  using ok fuel
proof (induction fuel arbitrary: a)
  case 0
  then have "ac_scheduled a = 0" by (simp add: actor_ok_def)
  then show ?case using 0 by (subst run_activations.simps) auto
next
  case (Suc fuel)
  show ?case
  proof (cases "queued a = []")
    case True
    then have "ac_scheduled a = 0" using Suc.prems by (simp add: actor_ok_def)
    then show ?thesis using Suc.prems True by (subst run_activations.simps) auto
  next
    case False
    then have sched: "ac_scheduled a \<noteq> 0" using Suc.prems by (simp add: actor_ok_def)
    obtain a1 where a1: "run_one_activation env a = Some a1" "actor_ok a1 0"
        "queued a1 = drop (batch_size a) (queued a)"
        "ac_completions a1 = ac_completions a @ map (msg_completion env) (take (batch_size a) (queued a))"
      using activation_spec [OF env Suc.prems(1) False] by auto
    have "0 < batch_size a" using False by (simp add: batch_size_def)
    then have "length (queued a1) \<le> fuel" using a1(3) Suc.prems(2) by simp
    then obtain a' where "run_activations fuel env a1 = Some a'" "actor_ok a' 0" "queued a' = []"
        "ac_completions a' = ac_completions a1 @ map (msg_completion env) (queued a1)"
      using Suc.IH [OF a1(2)] by auto
    then show ?thesis using sched a1
      by (subst run_activations.simps) (simp flip: map_append)
  qed
qed

section \<open>End to end\<close>

lemma spec_submit_length:
  "spec_submit lims ops bs = (bs', refused) \<Longrightarrow> \<forall>(m, i) \<in> set ops. i < length bs \<Longrightarrow>
   length (concat bs') + length refused = length (concat bs) + length ops"
proof (induction lims ops bs arbitrary: bs' refused rule: spec_submit.induct)
  case (2 lims m i ops bs)
  then show ?case
    using length_concat_update [of i bs m]
    by (auto split: if_splits prod.splits)
qed simp

lemma Actor_new_ok:
  assumes "\<forall>c \<in> set (mailbox_configs config). config_ok c" and "n \<le> 2 ^ 61"
  shows "\<exists>a :: 'm actor. Actor_new config = Some (Inr a) \<and> actor_ok a n \<and> ac_completions a = []
     \<and> ac_config a = config \<and> ac_contents a = replicate (max 1 (length (mailbox_configs config))) []"
proof -
  obtain ms :: "'m mailbox_set" where ms: "MailboxSet_new (mailbox_configs config) = Some (Inr (), ms)" "mbs_inv ms"
      "mbs_room ms n" "mbs_contents ms = replicate (max 1 (length (mailbox_configs config))) []"
    using MailboxSet_new_spec [OF assms] by auto
  have empty: "concat (mbs_contents ms) = []" by (simp add: ms(4))
  define a :: "'m actor" where "a = \<lparr>ac_config = config, ac_mailbox_set = ms, ac_pending_message_count = 0,
      ac_user_class_instance = True, ac_activated = False, ac_pending_to_be_destroyed = False,
      ac_scheduled = 0, ac_scope_joined = False, ac_completions = []\<rparr>"
  have queue: "queued a = []" by (simp add: a_def queued_def ac_contents_def empty del: concat_eq_Nil_conv)
  have "Actor_new config = Some (Inr a)" using ms(1) by (simp add: Actor_new_def a_def)
  moreover have "actor_ok a n" unfolding actor_ok_def queue using ms assms(2) by (simp add: a_def)
  ultimately show ?thesis using ms(4) by (intro exI [of _ a]) (simp add: a_def ac_contents_def)
qed

text \<open>
  C3: messages submitted to a new actor and then run until it sleeps: none is lost and none
  runs twice. The actor needs at most one activation per submission; afterwards every
  accepted message has completed its receiver (with a value, or stopped when stop was
  requested), mailbox by mailbox and each mailbox in submission order, every submission to a
  full mailbox has completed with the error, the counter is zero and the actor is inactive.
\<close>

theorem actor_runs_every_submission:
  fixes ops :: "('m \<times> nat) list"
  assumes hook: "env_should_activate env = None" and sends: "no_sends env"
    and configs: "\<forall>c \<in> set (mailbox_configs config). config_ok c" and len: "length ops \<le> 2 ^ 61"
    and idx: "\<forall>(m, i) \<in> set ops. i < max 1 (length (mailbox_configs config))"
  shows "\<exists>(a0 :: 'm actor) a1 a2 bs refused. Actor_new config = Some (Inr a0)
     \<and> Submission_start_all env ops a0 = Some a1 \<and> run_activations (length ops) env a1 = Some a2
     \<and> spec_submit (mbs_limits (ac_mailbox_set a0)) ops
         (replicate (max 1 (length (mailbox_configs config))) []) = (bs, refused)
     \<and> ac_completions a2 = map refusal refused @ map (msg_completion env) (concat bs)
     \<and> queued a2 = [] \<and> ac_pending_message_count a2 = 0 \<and> \<not> ac_activated a2 \<and> ac_scheduled a2 = 0"
proof -
  obtain a0 :: "'m actor" where a0: "Actor_new config = Some (Inr a0)" "actor_ok a0 (length ops)" "ac_completions a0 = []"
      "ac_contents a0 = replicate (max 1 (length (mailbox_configs config))) []"
    using Actor_new_ok [OF configs len] by auto
  obtain bs refused where spec: "spec_submit (mbs_limits (ac_mailbox_set a0)) ops (ac_contents a0) = (bs, refused)"
    by fastforce
  have idx0: "\<forall>(m, i) \<in> set ops. i < length (ac_contents a0)" using idx a0(4) by simp
  obtain a1 where a1: "Submission_start_all env ops a0 = Some a1" "actor_ok a1 0" "ac_contents a1 = bs"
      "ac_completions a1 = map refusal refused"
    using submit_all [OF hook a0(2) idx0 spec] a0(3) by auto
  have "length (queued a1) \<le> length ops"
    using spec_submit_length [OF spec idx0] a0(4) a1(3) by (simp add: queued_def)
  then obtain a2 where a2: "run_activations (length ops) env a1 = Some a2" "actor_ok a2 0" "queued a2 = []"
      "ac_completions a2 = ac_completions a1 @ map (msg_completion env) (queued a1)"
    using run_activations_spec [OF sends a1(2)] by auto
  have q1: "queued a1 = concat bs" by (simp only: queued_def a1(3))
  show ?thesis
    using a0 a1 a2 spec
    by - (rule exI [of _ a0], rule exI [of _ a1], rule exI [of _ a2], rule exI [of _ bs],
      rule exI [of _ refused], simp add: actor_ok_def q1)
qed

definition demo_env :: "nat actor_env" where
  "demo_env = \<lparr>env_should_activate = None, env_stop_requested = (\<lambda>m. if m = 3 then Some True else None),
     env_sends = (\<lambda>_. [])\<rparr>"

definition demo_config :: actor_config where
  "demo_config = ActorConfig_default\<lparr>mailbox_configs := [UnboundedMailbox, UnsafeOneSlotMailbox]\<rparr>"

lemma actor_runs_every_submission_witness:
  "\<exists>a0 a1 a2 bs refused. Actor_new demo_config = Some (Inr a0)
     \<and> Submission_start_all demo_env [(1, 1), (2, 0), (3, 0), (4, 1)] a0 = Some a1
     \<and> run_activations 4 demo_env a1 = Some a2
     \<and> spec_submit (mbs_limits (ac_mailbox_set a0)) [(1, 1), (2, 0), (3, 0), (4, 1)] [[], []] = (bs, refused)
     \<and> ac_completions a2 = map refusal refused @ map (msg_completion demo_env) (concat bs)
     \<and> ac_pending_message_count a2 = 0"
proof -
  define ops where "ops = [(1 :: nat, 1 :: nat), (2, 0), (3, 0), (4, 1)]"
  have "\<exists>a0 a1 a2 bs refused. Actor_new demo_config = Some (Inr a0)
     \<and> Submission_start_all demo_env ops a0 = Some a1 \<and> run_activations (length ops) demo_env a1 = Some a2
     \<and> spec_submit (mbs_limits (ac_mailbox_set a0)) ops
         (replicate (max 1 (length (mailbox_configs demo_config))) []) = (bs, refused)
     \<and> ac_completions a2 = map refusal refused @ map (msg_completion demo_env) (concat bs)
     \<and> queued a2 = [] \<and> ac_pending_message_count a2 = 0 \<and> \<not> ac_activated a2 \<and> ac_scheduled a2 = 0"
    by (rule actor_runs_every_submission)
      (simp_all add: demo_env_def demo_config_def no_sends_def config_ok_def ops_def)
  moreover have "replicate (max 1 (length (mailbox_configs demo_config))) ([] :: nat list) = [[], []]"
    by (simp add: demo_config_def numeral_2_eq_2)
  moreover have "length ops = 4" by (simp add: ops_def)
  ultimately show ?thesis unfolding ops_def by (simp only:) blast
qed

end
