(* ===== verification/Actor_Concurrent.thy ===== *)
theory Actor_Concurrent
  imports Actor
begin

text \<open>
  The operations of one actor (\<open>actor.h\<close>) interleaved on any number of threads. Every atomic
  access of \<open>PushMessage\<close>, \<open>TryActivate\<close>, \<open>PullMailboxAndRun\<close> and \<open>AsyncDestroy\<close> is one step
  of an activity, in the order of the code; activities advance in any order, and the calls of
  \<open>PushMessage\<close> and \<open>AsyncDestroy\<close> arrive at any time. A push or a pop of a mailbox is one step
  on the abstract queue that \<open>Actor\<close> proves every mailbox to implement, except that a pop may
  also find nothing although the mailbox holds messages (a producer between its two writes).
  The interleavings are sequentially consistent.
\<close>

section \<open>States and steps\<close>

text \<open>Who called \<open>TryActivate\<close>: \<open>AsyncDestroy\<close> goes on to join the scope.\<close>

datatype act_caller = From_Push | From_Run | From_Destroy

datatype 'm act =
    Push_Msg 'm nat
  | Push_Count nat
  | Push_Hook nat
  | Try_Act act_caller
  | Do_Schedule act_caller
  | Spawned
  | Run_Flag
  | Run_Limit
  | Run_Drain nat nat nat
  | Run_Exec 'm nat nat nat
  | Run_Sub nat
  | Run_Clear
  | Run_Load
  | Run_Reset
  | Run_DClear
  | Run_DSub
  | Destroy_Flag
  | Destroy_Count
  | Destroy_Join

text \<open>
  The members of the actor, with the mailboxes as queues and their limits. \<open>cc_pushed\<close> and
  \<open>cc_popped\<close> record what each mailbox accepted and handed out, \<open>cc_done\<close> the executions that
  have finished and \<open>cc_ran\<close> the mailboxes they came from; \<open>cc_undefined\<close> records a call through a null pointer.
\<close>

record 'm cactor =
  cc_boxes :: "'m list list"
  cc_limits :: "nat option list"
  cc_max :: u64
  cc_pending :: u64
  cc_alive :: bool
  cc_activated :: bool
  cc_destroy :: bool
  cc_joined :: bool
  cc_undefined :: bool
  cc_pushed :: "'m list list"
  cc_popped :: "'m list list"
  cc_ran :: "(nat \<times> 'm) list"
  cc_done :: "'m list"
  cc_acts :: "'m act multiset"

definition cactor_new :: "nat option list \<Rightarrow> u64 \<Rightarrow> 'm cactor" where
  "cactor_new limits mx =
     \<lparr>cc_boxes = replicate (length limits) [], cc_limits = limits, cc_max = mx, cc_pending = 0,
      cc_alive = True, cc_activated = False, cc_destroy = False, cc_joined = False, cc_undefined = False,
      cc_pushed = replicate (length limits) [], cc_popped = replicate (length limits) [],
      cc_ran = [], cc_done = [], cc_acts = {#}\<rparr>"

text \<open>The activities associated with \<open>async_scope_\<close>: a spawned run until it has returned.\<close>

fun in_scope :: "'m act \<Rightarrow> bool" where
  "in_scope (Push_Msg m i) = False"
| "in_scope (Push_Count i) = False"
| "in_scope (Push_Hook i) = False"
| "in_scope (Try_Act c) = (c = From_Run)"
| "in_scope (Do_Schedule c) = (c = From_Run)"
| "in_scope Destroy_Flag = False"
| "in_scope Destroy_Count = False"
| "in_scope Destroy_Join = False"
| "in_scope _ = True"

definition after_activate :: "act_caller \<Rightarrow> 'm act list" where
  "after_activate c = (if c = From_Destroy then [Destroy_Join] else [])"

text \<open>
  One activity advances: the new state, and the activities it continues as. \<open>None\<close> only for
  \<open>Destroy_Join\<close> while the scope is not empty. \<open>miss\<close> says that a pop finds nothing.
\<close>

fun act_advance :: "(nat \<Rightarrow> bool) option \<Rightarrow> bool \<Rightarrow> 'm act \<Rightarrow> 'm cactor \<Rightarrow> ('m cactor \<times> 'm act list) option" where
  "act_advance hook miss (Push_Msg m i) s =
     (if has_space (cc_limits s ! i) (cc_boxes s ! i)
      then Some (s\<lparr>cc_boxes := (cc_boxes s)[i := cc_boxes s ! i @ [m]],
                   cc_pushed := (cc_pushed s)[i := cc_pushed s ! i @ [m]]\<rparr>, [Push_Count i])
      else Some (s, []))"
| "act_advance hook miss (Push_Count i) s = Some (s\<lparr>cc_pending := cc_pending s + 1\<rparr>, [Push_Hook i])"
| "act_advance hook miss (Push_Hook i) s =
     (case hook of
        None \<Rightarrow> Some (s, [Try_Act From_Push])
      | Some h \<Rightarrow> if cc_alive s then Some (s, if h i then [Try_Act From_Push] else [])
                 else Some (s\<lparr>cc_undefined := True\<rparr>, []))"
| "act_advance hook miss (Try_Act c) s =
     (if cc_activated s then Some (s, after_activate c)
      else Some (s\<lparr>cc_activated := True\<rparr>, [Do_Schedule c]))"
| "act_advance hook miss (Do_Schedule c) s =
     Some (s, (if cc_joined s then [] else [Spawned]) @ after_activate c)"
| "act_advance hook miss Spawned s = Some (s, if cc_alive s then [Run_Flag] else [])"
| "act_advance hook miss Run_Flag s = Some (s, if cc_destroy s then [Run_Reset] else [Run_Limit])"
| "act_advance hook miss Run_Reset s = Some (s\<lparr>cc_alive := False\<rparr>, [Run_DClear])"
| "act_advance hook miss Run_DClear s = Some (s\<lparr>cc_activated := False\<rparr>, [Run_DSub])"
| "act_advance hook miss Run_DSub s = Some (s\<lparr>cc_pending := cc_pending s - 1\<rparr>, [])"
| "act_advance hook miss Run_Limit s = Some (s, [Run_Drain 0 0 (unat (min (cc_max s) (cc_pending s)))])"
| "act_advance hook miss (Run_Drain i e l) s =
     (if i < length (cc_boxes s) then
        (case cc_boxes s ! i of
           [] \<Rightarrow> Some (s, [Run_Drain (Suc i) e l])
         | m # ms \<Rightarrow>
             if miss then Some (s, [Run_Drain (Suc i) e l])
             else Some (s\<lparr>cc_boxes := (cc_boxes s)[i := ms],
                          cc_popped := (cc_popped s)[i := cc_popped s ! i @ [m]]\<rparr>, [Run_Exec m i e l]))
      else Some (s, [Run_Sub e]))"
| "act_advance hook miss (Run_Exec m i e l) s =
     Some (s\<lparr>cc_ran := cc_ran s @ [(i, m)], cc_done := cc_done s @ [m]\<rparr>, if l \<le> Suc e then [Run_Sub (Suc e)] else [Run_Drain i (Suc e) l])"
| "act_advance hook miss (Run_Sub e) s = Some (s\<lparr>cc_pending := cc_pending s - word_of_nat e\<rparr>, [Run_Clear])"
| "act_advance hook miss Run_Clear s = Some (s\<lparr>cc_activated := False\<rparr>, [Run_Load])"
| "act_advance hook miss Run_Load s = Some (s, if 0 < cc_pending s then [Try_Act From_Run] else [])"
| "act_advance hook miss Destroy_Flag s =
     (if cc_destroy s then Some (s, []) else Some (s\<lparr>cc_destroy := True\<rparr>, [Destroy_Count]))"
| "act_advance hook miss Destroy_Count s = Some (s\<lparr>cc_pending := cc_pending s + 1\<rparr>, [Try_Act From_Destroy])"
| "act_advance hook miss Destroy_Join s =
     (if \<exists>a \<in># cc_acts s. in_scope a then None else Some (s\<lparr>cc_joined := True\<rparr>, []))"

inductive act_step :: "(nat \<Rightarrow> bool) option \<Rightarrow> 'm cactor \<Rightarrow> 'm cactor \<Rightarrow> bool" for hook where
  call_push: "i < length (cc_boxes s) \<Longrightarrow>
    act_step hook s (s\<lparr>cc_acts := add_mset (Push_Msg m i) (cc_acts s)\<rparr>)"
| call_destroy: "act_step hook s (s\<lparr>cc_acts := add_mset Destroy_Flag (cc_acts s)\<rparr>)"
| advance: "a \<in># cc_acts s \<Longrightarrow> act_advance hook miss a s = Some (s1, nxt) \<Longrightarrow>
    act_step hook s (s1\<lparr>cc_acts := cc_acts s - {#a#} + mset nxt\<rparr>)"

inductive act_reach :: "(nat \<Rightarrow> bool) option \<Rightarrow> nat option list \<Rightarrow> u64 \<Rightarrow> 'm cactor \<Rightarrow> bool"
  for hook limits mx where
  act_init: "act_reach hook limits mx (cactor_new limits mx)"
| act_next: "act_reach hook limits mx s \<Longrightarrow> act_step hook s s' \<Longrightarrow> act_reach hook limits mx s'"

section \<open>Invariants\<close>

text \<open>The activation token: held from the successful compare-exchange until \<open>activated_\<close> is cleared.\<close>

fun holds :: "'m act \<Rightarrow> nat" where
  "holds (Do_Schedule c) = 1"
| "holds Spawned = 1"
| "holds Run_Flag = 1"
| "holds Run_Limit = 1"
| "holds (Run_Drain i e l) = 1"
| "holds (Run_Exec m i e l) = 1"
| "holds (Run_Sub e) = 1"
| "holds Run_Clear = 1"
| "holds Run_Reset = 1"
| "holds Run_DClear = 1"
| "holds _ = 0"

text \<open>A run that has seen the instance and has not reset it.\<close>

fun runs :: "'m act \<Rightarrow> nat" where
  "runs Run_Flag = 1"
| "runs Run_Limit = 1"
| "runs (Run_Drain i e l) = 1"
| "runs (Run_Exec m i e l) = 1"
| "runs (Run_Sub e) = 1"
| "runs Run_Clear = 1"
| "runs Run_Reset = 1"
| "runs _ = 0"

text \<open>A run that has reset the instance.\<close>

fun dying :: "'m act \<Rightarrow> nat" where
  "dying Run_DClear = 1"
| "dying Run_DSub = 1"
| "dying _ = 0"

text \<open>What an activity has still to add to the counter (negative) or to take from it.\<close>

fun owes :: "'m act \<Rightarrow> int" where
  "owes (Push_Count i) = -1"
| "owes Destroy_Count = -1"
| "owes (Run_Drain i e l) = int e"
| "owes (Run_Exec m i e l) = int e + 1"
| "owes (Run_Sub e) = int e"
| "owes Run_DClear = 1"
| "owes Run_DSub = 1"
| "owes _ = 0"

fun executing :: "'m act \<Rightarrow> 'm multiset" where
  "executing (Run_Exec m i e l) = {#m#}"
| "executing _ = {#}"

fun wakes :: "'m act \<Rightarrow> bool" where
  "wakes (Push_Hook i) = True"
| "wakes (Try_Act c) = True"
| "wakes Run_Load = True"
| "wakes _ = False"

definition total :: "('a \<Rightarrow> 'b::comm_monoid_add) \<Rightarrow> 'a multiset \<Rightarrow> 'b" where
  "total f M = sum_mset (image_mset f M)"

lemma total_simps [simp]:
  "total f {#} = 0" "total f (add_mset a M) = f a + total f M" "total f (M + N) = total f M + total f N"
  by (simp_all add: total_def)

lemma total_mset [simp]: "total f (mset xs) = sum_list (map f xs)"
  by (simp add: total_def sum_mset_sum_list flip: mset_map)

definition token_inv :: "'m cactor \<Rightarrow> bool" where
  "token_inv s \<longleftrightarrow> total holds (cc_acts s) \<le> 1
     \<and> (total holds (cc_acts s) = 1 \<longrightarrow> cc_activated s)
     \<and> (cc_activated s \<and> total holds (cc_acts s) = 0 \<longrightarrow> \<not> cc_alive s \<or> cc_joined s)
     \<and> (0 < total runs (cc_acts s) \<longrightarrow> cc_alive s)
     \<and> (0 < total dying (cc_acts s) \<longrightarrow> \<not> cc_alive s)"

definition count_inv :: "'m cactor \<Rightarrow> bool" where
  "count_inv s \<longleftrightarrow> cc_pending s = word_of_int (int (length (concat (cc_boxes s)))
     + total owes (cc_acts s) + (if cc_destroy s then 1 else 0) - (if cc_alive s then 0 else 1))"

definition wake_inv :: "'m cactor \<Rightarrow> bool" where
  "wake_inv s \<longleftrightarrow> (cc_alive s \<and> \<not> cc_joined s \<longrightarrow>
     cc_activated s \<or> cc_pending s = 0 \<or> (\<exists>a \<in># cc_acts s. wakes a))"

fun push_index :: "'m act \<Rightarrow> nat option" where
  "push_index (Push_Msg m i) = Some i"
| "push_index _ = None"

definition log_inv :: "'m cactor \<Rightarrow> bool" where
  "log_inv s \<longleftrightarrow> length (cc_popped s) = length (cc_boxes s) \<and> length (cc_pushed s) = length (cc_boxes s)
     \<and> (\<forall>i < length (cc_boxes s). cc_pushed s ! i = cc_popped s ! i @ cc_boxes s ! i)
     \<and> mset (concat (cc_popped s)) = mset (cc_done s) + total executing (cc_acts s)
     \<and> (\<forall>a \<in># cc_acts s. \<forall>i. push_index a = Some i \<longrightarrow> i < length (cc_boxes s))"

lemma runs_le_holds: "total runs M \<le> total holds M"
proof (induction M)
  case (add a M)
  have "runs a \<le> holds a" by (cases a) auto
  with add show ?case by simp
qed simp

lemma token_inv_advance:
  assumes inv: "token_inv s" and acts: "cc_acts s = add_mset a A"
    and adv: "act_advance hook miss a s = Some (s1, nxt)"
  shows "token_inv (s1\<lparr>cc_acts := mset nxt + A\<rparr>)"
proof -
  define h r d where "h = total holds A" and "r = total runs A" and "d = total dying A"
  have rh: "r \<le> h" using runs_le_holds [of A] by (simp add: h_def r_def)
  have inv': "holds a + h \<le> 1" "holds a + h = 1 \<Longrightarrow> cc_activated s"
      "cc_activated s \<Longrightarrow> holds a + h = 0 \<Longrightarrow> \<not> cc_alive s \<or> cc_joined s"
      "0 < runs a + r \<Longrightarrow> cc_alive s" "0 < dying a + d \<Longrightarrow> \<not> cc_alive s"
    using inv by (auto simp: token_inv_def acts h_def r_def d_def)
  have h01: "h = 0 \<or> h = 1" using inv'(1) by arith
  show ?thesis
    using adv inv' rh h01 unfolding token_inv_def
    by (cases a)
      (auto simp: after_activate_def h_def [symmetric] r_def [symmetric] d_def [symmetric]
        split: if_splits option.splits list.splits)
qed

definition awake :: "'m act multiset \<Rightarrow> bool" where
  "awake M \<longleftrightarrow> (\<exists>a \<in># M. wakes a)"

lemma awake_simps [simp]:
  "awake {#} = False" "awake (add_mset a M) = (wakes a \<or> awake M)" "awake (M + N) = (awake M \<or> awake N)"
  "awake (mset xs) = list_ex wakes xs"
  by (auto simp: awake_def list_ex_iff)

lemma wake_inv_advance:
  assumes inv: "wake_inv s" and hook: "hook = None" and token: "token_inv s" and acts: "cc_acts s = add_mset a A"
    and adv: "act_advance hook miss a s = Some (s1, nxt)"
  shows "wake_inv (s1\<lparr>cc_acts := mset nxt + A\<rparr>)"
proof -
  have w: "cc_alive s \<Longrightarrow> \<not> cc_joined s \<Longrightarrow> cc_activated s \<or> cc_pending s = 0 \<or> wakes a \<or> awake A"
    using inv by (auto simp: wake_inv_def acts awake_def)
  have t: "holds a = 1 \<Longrightarrow> cc_activated s" "dying a = 1 \<Longrightarrow> \<not> cc_alive s"
    using token by (auto simp: token_inv_def acts)
  show ?thesis
    using adv w t unfolding wake_inv_def hook awake_def [symmetric]
    by (cases a) (auto simp: after_activate_def word_gt_0 split: if_splits list.splits)
qed

lemma count_inv_advance:
  assumes "count_inv s" and "token_inv s" and "log_inv s" and acts: "cc_acts s = add_mset a A"
    and adv: "act_advance hook miss a s = Some (s1, nxt)"
  shows "count_inv (s1\<lparr>cc_acts := mset nxt + A\<rparr>)"
proof (cases a)
  case (Push_Msg m i)
  then have i: "i < length (cc_boxes s)" using assms(3) by (auto simp: log_inv_def acts)
  have "length (concat ((cc_boxes s)[i := cc_boxes s ! i @ [m]])) = Suc (length (concat (cc_boxes s)))"
    using i by (simp add: length_concat map_update sum_list_update elem_le_sum_list)
  then show ?thesis using assms(1) adv Push_Msg
    by (auto simp: count_inv_def acts split: if_splits)
next
  case (Run_Drain i e l)
  show ?thesis
  proof (cases "miss \<or> \<not> i < length (cc_boxes s) \<or> cc_boxes s ! i = []")
    case True
    then show ?thesis using assms(1) adv Run_Drain
      by (auto simp: count_inv_def acts split: if_splits list.splits)
  next
    case False
    then obtain m ms where m: "i < length (cc_boxes s)" "cc_boxes s ! i = m # ms"
        "s1 = s\<lparr>cc_boxes := (cc_boxes s)[i := ms], cc_popped := (cc_popped s)[i := cc_popped s ! i @ [m]]\<rparr>"
        "nxt = [Run_Exec m i e l]"
      using adv Run_Drain by (auto split: if_splits list.splits)
    have "length (concat (cc_boxes s)) = Suc (length (concat ((cc_boxes s)[i := ms])))"
      using m(1,2) elem_le_sum_list [of i "map length (cc_boxes s)"]
      by (simp add: length_concat map_update sum_list_update)
    then show ?thesis using assms(1) m Run_Drain by (auto simp: count_inv_def acts)
  qed
qed (use assms(1,2) adv in \<open>auto simp: count_inv_def token_inv_def acts after_activate_def of_nat_diff
      split: if_splits option.splits\<close>)

lemma mset_concat_push: "i < length xs \<Longrightarrow>
    mset (concat (xs[i := xs ! i @ [m]])) = add_mset m (mset (concat xs))"
proof (induction i arbitrary: xs)
  case 0
  then show ?case by (cases xs) auto
next
  case (Suc i)
  then show ?case by (cases xs) auto
qed

lemma log_inv_advance:
  assumes inv: "log_inv s" and acts: "cc_acts s = add_mset a A"
    and adv: "act_advance hook miss a s = Some (s1, nxt)"
  shows "log_inv (s1\<lparr>cc_acts := mset nxt + A\<rparr>)"
proof (cases a)
  case (Push_Msg m i)
  then show ?thesis using inv adv unfolding log_inv_def acts
    by (auto simp: nth_list_update split: if_splits)
next
  case (Run_Drain i e l)
  show ?thesis
  proof (cases "miss \<or> \<not> i < length (cc_boxes s) \<or> cc_boxes s ! i = []")
    case True
    then show ?thesis using inv adv Run_Drain unfolding log_inv_def acts
      by (auto split: if_splits list.splits)
  next
    case False
    then obtain m ms where m: "i < length (cc_boxes s)" "cc_boxes s ! i = m # ms"
        "s1 = s\<lparr>cc_boxes := (cc_boxes s)[i := ms], cc_popped := (cc_popped s)[i := cc_popped s ! i @ [m]]\<rparr>"
        "nxt = [Run_Exec m i e l]"
      using adv Run_Drain by (auto split: if_splits list.splits)
    have "mset (concat ((cc_popped s)[i := cc_popped s ! i @ [m]])) = add_mset m (mset (concat (cc_popped s)))"
      using inv m(1) by (intro mset_concat_push) (simp add: log_inv_def)
    then show ?thesis using inv m(1,2) Run_Drain unfolding m(3,4) log_inv_def acts
      by (auto simp: nth_list_update)
  qed
qed (use inv adv in \<open>auto simp: log_inv_def acts after_activate_def split: if_splits option.splits\<close>)

definition act_inv :: "'m cactor \<Rightarrow> bool" where
  "act_inv s \<longleftrightarrow> token_inv s \<and> count_inv s \<and> log_inv s"

lemmas act_inv_defs = act_inv_def token_inv_def count_inv_def log_inv_def

lemma concat_replicate_Nil: "concat (replicate n []) = []"
  by (induction n) auto

lemma act_inv_new: "act_inv (cactor_new limits mx)"
  by (simp add: act_inv_defs cactor_new_def concat_replicate_Nil del: concat_eq_Nil_conv)

lemma act_inv_step: "act_step hook s s' \<Longrightarrow> act_inv s \<Longrightarrow> act_inv s'"
proof (induction rule: act_step.induct)
  case (advance a s miss s1 nxt)
  obtain A where A: "cc_acts s = add_mset a A" using advance.hyps(1) by (meson multi_member_split)
  have inv: "token_inv s" "count_inv s" "log_inv s" using advance.prems by (simp_all add: act_inv_def)
  have eq: "cc_acts s - {#a#} + mset nxt = mset nxt + A" by (simp add: A)
  show ?case
    using token_inv_advance [OF inv(1) A advance.hyps(2)] count_inv_advance [OF inv(2,1,3) A advance.hyps(2)]
      log_inv_advance [OF inv(3) A advance.hyps(2)]
    by (simp add: act_inv_def eq)
qed (auto simp: act_inv_defs)

lemma act_inv_reach: "act_reach hook limits mx s \<Longrightarrow> act_inv s"
  by (induction rule: act_reach.induct) (auto simp: act_inv_new act_inv_step)

lemma wake_inv_step: "act_step None s s' \<Longrightarrow> wake_inv s \<Longrightarrow> token_inv s \<Longrightarrow> wake_inv s'"
proof (induction rule: act_step.induct)
  case (advance a s miss s1 nxt)
  obtain A where A: "cc_acts s = add_mset a A" using advance.hyps(1) by (meson multi_member_split)
  have eq: "cc_acts s - {#a#} + mset nxt = mset nxt + A" by (simp add: A)
  show ?case using wake_inv_advance [OF advance.prems(1) refl advance.prems(2) A advance.hyps(2)]
    by (simp add: eq)
qed (auto simp: wake_inv_def)

lemma wake_inv_reach: "act_reach None limits mx s \<Longrightarrow> wake_inv s"
proof (induction rule: act_reach.induct)
  case act_init
  then show ?case by (simp add: wake_inv_def cactor_new_def)
next
  case (act_next s s')
  show ?case using wake_inv_step [OF act_next.hyps(2) act_next.IH] act_inv_reach [OF act_next.hyps(1)]
    by (simp add: act_inv_def)
qed

lemma mset_concat_split:
  "length xs = length zs \<Longrightarrow> length ys = length zs \<Longrightarrow> \<forall>i < length zs. xs ! i = ys ! i @ zs ! i \<Longrightarrow>
    mset (concat xs) = mset (concat ys) + mset (concat zs)"
proof (induction zs arbitrary: xs ys)
  case (Cons z zs)
  obtain x xs' y ys' where xy: "xs = x # xs'" "ys = y # ys'"
    using Cons.prems(1,2) by (cases xs; cases ys) auto
  have "x = y @ z" using Cons.prems(3) xy by force
  moreover have "\<forall>i < length zs. xs' ! i = ys' ! i @ zs ! i"
  proof (intro allI impI)
    fix i assume "i < length zs"
    then show "xs' ! i = ys' ! i @ zs ! i" using Cons.prems(3) xy by (auto dest: spec [of _ "Suc i"])
  qed
  ultimately show ?case using Cons.IH [of xs' ys'] Cons.prems(1,2) xy by simp
qed simp

lemma pushed_split: "log_inv s \<Longrightarrow>
    mset (concat (cc_pushed s)) = mset (concat (cc_popped s)) + mset (concat (cc_boxes s))"
  by (rule mset_concat_split) (auto simp: log_inv_def)

section \<open>Properties\<close>

lemma at_rest:
  assumes "act_reach None limits mx s" and "cc_acts s = {#}" and "\<not> cc_destroy s" and "cc_alive s"
    and "\<not> cc_joined s" and "length (concat (cc_pushed s)) < 2 ^ 64"
  shows "cc_popped s = cc_pushed s \<and> mset (cc_done s) = mset (concat (cc_pushed s))
     \<and> cc_pending s = 0 \<and> \<not> cc_activated s"
proof (intro conjI)
  have inv: "token_inv s" "count_inv s" "log_inv s" and wake: "wake_inv s"
    using act_inv_reach [OF assms(1)] wake_inv_reach [OF assms(1)] by (simp_all add: act_inv_def)
  show "\<not> cc_activated s" using inv(1) assms by (simp add: token_inv_def)
  then show zero: "cc_pending s = 0" using wake assms by (simp add: wake_inv_def)
  have "length (concat (cc_boxes s)) \<le> length (concat (cc_pushed s))"
    using arg_cong [OF pushed_split [OF inv(3)], of size] by simp
  then have "length (concat (cc_boxes s)) < 2 ^ 64" using assms(6) by simp
  moreover have "word_of_nat (length (concat (cc_boxes s))) = (0 :: u64)"
    using inv(2) zero assms by (simp add: count_inv_def)
  ultimately have "length (concat (cc_boxes s)) = 0"
    using unat_of_nat64 [of "length (concat (cc_boxes s))"] by simp
  then have none: "\<forall>b \<in> set (cc_boxes s). b = []" by simp
  have "cc_popped s ! i = cc_pushed s ! i" if i: "i < length (cc_boxes s)" for i
  proof -
    have "cc_boxes s ! i = []" using none i nth_mem by blast
    then show ?thesis using inv(3) i by (simp add: log_inv_def)
  qed
  then show "cc_popped s = cc_pushed s"
    using inv(3) by (intro nth_equalityI) (auto simp: log_inv_def)
  then show "mset (cc_done s) = mset (concat (cc_pushed s))"
    using inv(3) assms(2) by (simp add: log_inv_def)
qed

text \<open>
  C1: no lost wakeup. Whatever the interleaving of pushes, activations and runs, when every
  call has returned and no activation is left, then every accepted message has been executed
  exactly once, every mailbox handed its messages out in the order it accepted them, and the
  actor is asleep with its counter at zero. (The actor has not been asked to destroy itself,
  has no activation hook, and has accepted fewer than \<open>2 ^ 64\<close> messages.)
\<close>

theorem quiescent_actor_has_run_everything:
  assumes "act_reach None limits mx s" and "cc_acts s = {#}" and "\<not> cc_destroy s" and "cc_alive s"
    and "\<not> cc_joined s" and "length (concat (cc_pushed s)) < 2 ^ 64"
  shows "cc_popped s = cc_pushed s \<and> mset (cc_done s) = mset (concat (cc_pushed s))
     \<and> cc_pending s = 0 \<and> \<not> cc_activated s"
  by (rule at_rest [OF assms])

text \<open>The messages a mailbox handed out are those of its executions, in order, and the one that executes.\<close>

definition ran_of :: "nat \<Rightarrow> (nat \<times> 'm) list \<Rightarrow> 'm list" where
  "ran_of i xs = map snd (filter (\<lambda>(j, m). j = i) xs)"

lemma ran_of_simps [simp]: "ran_of i [] = []" "ran_of i (xs @ [(j, m)]) = ran_of i xs @ (if j = i then [m] else [])"
  by (simp_all add: ran_of_def)

fun executing_of :: "nat \<Rightarrow> 'm act \<Rightarrow> 'm multiset" where
  "executing_of i (Run_Exec m j e l) = (if i = j then {#m#} else {#})"
| "executing_of i _ = {#}"

definition order_inv :: "'m cactor \<Rightarrow> bool" where
  "order_inv s \<longleftrightarrow> map snd (cc_ran s) = cc_done s
     \<and> (\<forall>i < length (cc_boxes s). \<exists>xs. cc_popped s ! i = ran_of i (cc_ran s) @ xs \<and> mset xs = total (executing_of i) (cc_acts s))"

lemma executing_le_runs: "size (total executing M) \<le> total runs M"
proof (induction M)
  case (add a M)
  then show ?case by (cases a) auto
qed simp

lemma executing_of_none: "total holds M = 0 \<Longrightarrow> total (executing_of i) M = {#}"
proof (induction M)
  case (add a M)
  then show ?case by (cases a) auto
qed simp

lemma order_inv_advance:
  assumes inv: "order_inv s" and token: "token_inv s" and logs: "log_inv s" and acts: "cc_acts s = add_mset a A"
    and adv: "act_advance hook miss a s = Some (s1, nxt)"
  shows "order_inv (s1\<lparr>cc_acts := mset nxt + A\<rparr>)"
proof -
  have alone: "total (executing_of i) A = {#}" if "holds a = 1" for i
    using token that by (intro executing_of_none) (simp add: token_inv_def acts)
  show ?thesis
  proof (cases a)
    case (Run_Drain j e l)
    show ?thesis
    proof (cases "miss \<or> \<not> j < length (cc_boxes s) \<or> cc_boxes s ! j = []")
      case True
      then show ?thesis using inv adv Run_Drain unfolding order_inv_def acts by (auto split: if_splits list.splits)
    next
      case False
      then obtain m ms where m: "j < length (cc_boxes s)" "cc_boxes s ! j = m # ms"
          "s1 = s\<lparr>cc_boxes := (cc_boxes s)[j := ms], cc_popped := (cc_popped s)[j := cc_popped s ! j @ [m]]\<rparr>"
          "nxt = [Run_Exec m j e l]"
        using adv Run_Drain by (auto split: if_splits list.splits)
      then show ?thesis using inv alone logs Run_Drain unfolding order_inv_def acts m(3,4)
        by (auto simp: nth_list_update log_inv_def)
    qed
  next
    case (Run_Exec m j e l)
    show ?thesis using inv adv alone Run_Exec unfolding order_inv_def acts by (auto split: if_splits)
  qed (use inv adv in \<open>auto simp: order_inv_def acts after_activate_def split: if_splits option.splits\<close>)
qed

lemma order_inv_step: "act_step hook s s' \<Longrightarrow> order_inv s \<Longrightarrow> act_inv s \<Longrightarrow> order_inv s'"
proof (induction rule: act_step.induct)
  case (advance a s miss s1 nxt)
  obtain A where A: "cc_acts s = add_mset a A" using advance.hyps(1) by (meson multi_member_split)
  have eq: "cc_acts s - {#a#} + mset nxt = mset nxt + A" by (simp add: A)
  show ?case using order_inv_advance [OF advance.prems(1) _ _ A advance.hyps(2)] advance.prems(2)
    by (simp add: eq act_inv_def)
qed (auto simp: order_inv_def)

lemma order_inv_reach: "act_reach hook limits mx s \<Longrightarrow> order_inv s"
proof (induction rule: act_reach.induct)
  case act_init
  then show ?case by (simp add: order_inv_def cactor_new_def)
next
  case (act_next s s')
  show ?case by (rule order_inv_step [OF act_next.hyps(2) act_next.IH act_inv_reach [OF act_next.hyps(1)]])
qed

lemma runs_at_most_one: "token_inv s \<Longrightarrow> size (total executing (cc_acts s)) \<le> 1 \<and> total runs (cc_acts s) \<le> 1"
  using executing_le_runs [of "cc_acts s"] runs_le_holds [of "cc_acts s"] by (simp add: token_inv_def)

text \<open>
  C2: an actor executes at most one message at any time, only while its instance exists, and a
  step that resets the instance finds no message in execution. The messages of one mailbox are
  executed in the order in which it accepted them: those whose execution has finished are a
  prefix of the accepted ones, and a message in execution is the next.
\<close>

theorem actor_executes_serially:
  assumes "act_reach hook limits mx s"
  shows "size (total executing (cc_acts s)) \<le> 1
     \<and> (total executing (cc_acts s) \<noteq> {#} \<longrightarrow> cc_alive s)
     \<and> (Run_Reset \<in># cc_acts s \<longrightarrow> total executing (cc_acts s) = {#})
     \<and> map snd (cc_ran s) = cc_done s
     \<and> (\<forall>i < length (cc_boxes s). \<exists>xs rest. cc_pushed s ! i = ran_of i (cc_ran s) @ xs @ rest
         \<and> (\<forall>m e l. Run_Exec m i e l \<in># cc_acts s \<longrightarrow> xs = [m]))"
proof (intro conjI impI allI)
  have token: "token_inv s" and logs: "log_inv s" using act_inv_reach [OF assms(1)] by (simp_all add: act_inv_def)
  have order: "order_inv s" by (rule order_inv_reach [OF assms])
  show "map snd (cc_ran s) = cc_done s" using order by (simp add: order_inv_def)
  note one = runs_at_most_one [OF token]
  show "\<exists>xs rest. cc_pushed s ! i = ran_of i (cc_ran s) @ xs @ rest
      \<and> (\<forall>m e l. Run_Exec m i e l \<in># cc_acts s \<longrightarrow> xs = [m])" if i: "i < length (cc_boxes s)" for i
  proof -
    obtain xs where xs: "cc_popped s ! i = ran_of i (cc_ran s) @ xs" "mset xs = total (executing_of i) (cc_acts s)"
      using order i by (auto simp: order_inv_def)
    have "xs = [m]" if ex: "Run_Exec m i e l \<in># cc_acts s" for m e l
    proof -
      obtain A where A: "cc_acts s = add_mset (Run_Exec m i e l) A" using ex by (meson multi_member_split)
      then have "total holds A = 0" using token by (simp add: token_inv_def)
      then show ?thesis using xs(2) executing_of_none [of A i] by (simp add: A)
    qed
    then show ?thesis using xs(1) logs i by (intro exI [of _ xs] exI [of _ "cc_boxes s ! i"]) (auto simp: log_inv_def)
  qed
  show "size (total executing (cc_acts s)) \<le> 1" using one by simp
  show "cc_alive s" if "total executing (cc_acts s) \<noteq> {#}"
  proof -
    have "0 < size (total executing (cc_acts s))" using that by (simp add: nonempty_has_size)
    then have "0 < total runs (cc_acts s)" using executing_le_runs [of "cc_acts s"] by linarith
    then show ?thesis using token by (simp add: token_inv_def)
  qed
  show "total executing (cc_acts s) = {#}" if reset: "Run_Reset \<in># cc_acts s"
  proof -
    obtain A where A: "cc_acts s = add_mset Run_Reset A" using reset by (meson multi_member_split)
    then have "total runs A = 0" using one by simp
    then have "size (total executing A) = 0" using executing_le_runs [of A] by simp
    then show ?thesis by (simp add: A)
  qed
qed

text \<open>At most one \<open>AsyncDestroy\<close> goes past the exchange of the flag.\<close>

fun destroying :: "'m act \<Rightarrow> nat" where
  "destroying Destroy_Count = 1"
| "destroying (Try_Act c) = (if c = From_Destroy then 1 else 0)"
| "destroying (Do_Schedule c) = (if c = From_Destroy then 1 else 0)"
| "destroying Destroy_Join = 1"
| "destroying _ = 0"

definition destroy_inv :: "'m cactor \<Rightarrow> bool" where
  "destroy_inv s \<longleftrightarrow> total destroying (cc_acts s) \<le> (if cc_destroy s then 1 else 0)
     \<and> (cc_joined s \<longrightarrow> cc_destroy s)"

lemma destroy_inv_step: "act_step hook s s' \<Longrightarrow> destroy_inv s \<Longrightarrow> destroy_inv s'"
proof (induction rule: act_step.induct)
  case (advance a s miss s1 nxt)
  obtain A where A: "cc_acts s = add_mset a A" using advance.hyps(1) by (meson multi_member_split)
  define d where "d = total destroying A"
  have eq: "cc_acts s - {#a#} + mset nxt = mset nxt + A" by (simp add: A)
  have inv: "destroying a + d \<le> (if cc_destroy s then 1 else 0)" "cc_joined s \<longrightarrow> cc_destroy s"
    using advance.prems by (simp_all add: destroy_inv_def A d_def)
  show ?case
    using advance.hyps(2) inv unfolding destroy_inv_def eq
    by (cases a) (auto simp: after_activate_def d_def [symmetric] split: if_splits option.splits list.splits)
qed (auto simp: destroy_inv_def)

lemma destroy_inv_reach: "act_reach hook limits mx s \<Longrightarrow> destroy_inv s"
  by (induction rule: act_reach.induct)
    (auto simp: destroy_inv_step, simp add: destroy_inv_def cactor_new_def)

fun pushing :: "'m act \<Rightarrow> bool" where
  "pushing (Push_Msg m i) = True"
| "pushing (Push_Count i) = True"
| "pushing (Push_Hook i) = True"
| "pushing (Try_Act c) = (c = From_Push)"
| "pushing (Do_Schedule c) = (c = From_Push)"
| "pushing _ = False"

lemma only_destroy_flag: "destroying a = 0 \<Longrightarrow> \<not> in_scope a \<Longrightarrow> \<not> pushing a \<Longrightarrow> a = Destroy_Flag"
proof (cases a)
  case (Try_Act c)
  then show "destroying a = 0 \<Longrightarrow> \<not> in_scope a \<Longrightarrow> \<not> pushing a \<Longrightarrow> a = Destroy_Flag"
    by (cases c) auto
next
  case (Do_Schedule c)
  then show "destroying a = 0 \<Longrightarrow> \<not> in_scope a \<Longrightarrow> \<not> pushing a \<Longrightarrow> a = Destroy_Flag"
    by (cases c) auto
qed auto

lemma total_zero: "\<forall>a \<in># A. f a = 0 \<Longrightarrow> total f A = 0"
  by (induction A) auto

text \<open>After the join: no activity is in the scope and none ever enters it.\<close>

definition over :: "'m list \<Rightarrow> 'm cactor \<Rightarrow> bool" where
  "over xs s \<longleftrightarrow> \<not> cc_alive s \<and> cc_joined s \<and> cc_destroy s \<and> cc_done s = xs \<and> (\<forall>a \<in># cc_acts s. pushing a \<or> a = Destroy_Flag)"

lemma over_quiet: "pushing a \<or> a = Destroy_Flag \<Longrightarrow> \<not> in_scope a \<and> executing a = {#}"
  by (cases a) auto

lemma over_step: "act_step None s s' \<Longrightarrow> over d s \<Longrightarrow> over d s'"
proof (induction rule: act_step.induct)
  case (advance a s miss s1 nxt)
  obtain A where A: "cc_acts s = add_mset a A" using advance.hyps(1) by (meson multi_member_split)
  have eq: "cc_acts s - {#a#} + mset nxt = mset nxt + A" by (simp add: A)
  show ?case using advance.hyps(2) advance.prems unfolding over_def eq A
    by (cases a) (auto simp: after_activate_def split: if_splits)
qed (auto simp: over_def)

lemma over_steps: "(act_step None)\<^sup>*\<^sup>* s s' \<Longrightarrow> over d s \<Longrightarrow> over d s'"
  by (induction rule: rtranclp_induct) (auto intro: over_step)

text \<open>
  C9: \<open>AsyncDestroy\<close> waits for the destruction. Suppose that the actor has no activation hook
  and has accepted fewer than \<open>2 ^ 64 - 1\<close> messages, and that the \<open>join\<close> of the \<open>AsyncDestroy\<close>
  that set the flag completes while no \<open>PushMessage\<close> is between its first and last step. Then
  the instance has been reset, no activation is scheduled or running and no message executes;
  and whatever is called afterwards, this stays so and no further message is ever executed. (A
  second \<open>AsyncDestroy\<close> returns at once and promises nothing.)
\<close>

theorem destroy_joins_after_reset:
  assumes "act_reach None limits mx s" and "Destroy_Join \<in># cc_acts s"
    and "act_advance None False Destroy_Join s = Some (s1, nxt)" and "\<not> (\<exists>a \<in># cc_acts s. pushing a)"
    and "\<not> cc_joined s" and "length (concat (cc_pushed s)) + 1 < 2 ^ 64"
  shows "\<not> cc_alive s1 \<and> cc_joined s1 \<and> total executing (cc_acts s1) = {#}
     \<and> (\<forall>a \<in># cc_acts s1. \<not> in_scope a)
     \<and> (\<forall>s2. (act_step None)\<^sup>*\<^sup>* (s1\<lparr>cc_acts := cc_acts s - {#Destroy_Join#}\<rparr>) s2 \<longrightarrow>
          \<not> cc_alive s2 \<and> cc_done s2 = cc_done s \<and> total executing (cc_acts s2) = {#} \<and> (\<forall>a \<in># cc_acts s2. \<not> in_scope a))"
proof (intro conjI)
  have inv: "token_inv s" "count_inv s" "log_inv s" and wake: "wake_inv s" and destroy: "destroy_inv s"
    using act_inv_reach [OF assms(1)] wake_inv_reach [OF assms(1)] destroy_inv_reach [OF assms(1)]
    by (simp_all add: act_inv_def)
  have s1: "s1 = s\<lparr>cc_joined := True\<rparr>" and scope: "\<forall>a \<in># cc_acts s. \<not> in_scope a"
    using assms(3) by (auto split: if_splits)
  obtain A where A: "cc_acts s = add_mset Destroy_Join A" using assms(2) by (meson multi_member_split)
  have dest: "cc_destroy s" "total destroying A = 0"
    using destroy by (auto simp: destroy_inv_def A split: if_splits)
  have rest: "a = Destroy_Flag" if a: "a \<in># A" for a
  proof -
    obtain B where B: "A = add_mset a B" using a by (meson multi_member_split)
    have "destroying a = 0" using dest(2) by (simp add: B)
    moreover have "\<not> in_scope a" "\<not> pushing a" using scope assms(4) by (auto simp: A B)
    ultimately show ?thesis by (rule only_destroy_flag)
  qed
  have none: "total holds (cc_acts s) = 0" "total owes (cc_acts s) = 0" "total executing (cc_acts s) = 0"
    by (auto simp: A dest!: rest intro!: total_zero)
  have sleep: "\<forall>a \<in># cc_acts s. \<not> wakes a" by (auto simp: A dest!: rest)
  show dead: "\<not> cc_alive s1"
  proof
    assume "cc_alive s1"
    then have alive: "cc_alive s" by (simp add: s1)
    then have "\<not> cc_activated s" using inv(1) none(1) assms(5) by (auto simp: token_inv_def)
    then have zero: "cc_pending s = 0" using wake alive assms(5) sleep by (auto simp: wake_inv_def)
    define n where "n = length (concat (cc_boxes s))"
    have "n \<le> length (concat (cc_pushed s))"
      using arg_cong [OF pushed_split [OF inv(3)], of size] by (simp add: n_def)
    then have "Suc n < 2 ^ 64" using assms(6) by linarith
    moreover have "word_of_nat (Suc n) = (0 :: u64)"
      using inv(2) zero none(2) dest(1) alive by (simp add: count_inv_def n_def add.commute)
    ultimately have "Suc n = 0" using unat_of_nat64 [of "Suc n"] by simp
    then show False by simp
  qed
  show "cc_joined s1" "total executing (cc_acts s1) = {#}" "\<forall>a \<in># cc_acts s1. \<not> in_scope a"
    using none(3) scope by (simp_all add: s1)
  have ov: "over (cc_done s) (s1\<lparr>cc_acts := cc_acts s - {#Destroy_Join#}\<rparr>)"
    using dead dest(1) rest by (auto simp: over_def s1 A)
  show "\<forall>s2. (act_step None)\<^sup>*\<^sup>* (s1\<lparr>cc_acts := cc_acts s - {#Destroy_Join#}\<rparr>) s2 \<longrightarrow>
      \<not> cc_alive s2 \<and> cc_done s2 = cc_done s \<and> total executing (cc_acts s2) = {#} \<and> (\<forall>a \<in># cc_acts s2. \<not> in_scope a)"
  proof (intro allI impI)
    fix s2 assume "(act_step None)\<^sup>*\<^sup>* (s1\<lparr>cc_acts := cc_acts s - {#Destroy_Join#}\<rparr>) s2"
    then have ov2: "over (cc_done s) s2" using ov by (rule over_steps)
    then have "\<forall>a \<in># cc_acts s2. \<not> in_scope a \<and> executing a = {#}" by (simp add: over_def over_quiet)
    moreover from this have "total executing (cc_acts s2) = {#}" using total_zero [of "cc_acts s2" executing] by simp
    ultimately show "\<not> cc_alive s2 \<and> cc_done s2 = cc_done s \<and> total executing (cc_acts s2) = {#} \<and> (\<forall>a \<in># cc_acts s2. \<not> in_scope a)"
      using ov2 by (simp add: over_def)
  qed
qed

section \<open>Schedules\<close>

text \<open>Concrete runs: the calls and the activities that advance, in order.\<close>

datatype 'm act_cmd = Call_Push 'm nat | Call_Destroy | Advance "'m act" | Advance_Miss "'m act"

definition act_move :: "(nat \<Rightarrow> bool) option \<Rightarrow> bool \<Rightarrow> 'm act \<Rightarrow> 'm cactor \<Rightarrow> 'm cactor option" where
  "act_move hook miss a s =
     (if a \<in># cc_acts s
      then map_option (\<lambda>(s1, nxt). s1\<lparr>cc_acts := cc_acts s - {#a#} + mset nxt\<rparr>) (act_advance hook miss a s)
      else None)"

fun act_exec :: "(nat \<Rightarrow> bool) option \<Rightarrow> 'm act_cmd list \<Rightarrow> 'm cactor \<Rightarrow> 'm cactor option" where
  "act_exec hook [] s = Some s"
| "act_exec hook (Call_Push m i # cs) s =
     (if i < length (cc_boxes s) then act_exec hook cs (s\<lparr>cc_acts := add_mset (Push_Msg m i) (cc_acts s)\<rparr>) else None)"
| "act_exec hook (Call_Destroy # cs) s = act_exec hook cs (s\<lparr>cc_acts := add_mset Destroy_Flag (cc_acts s)\<rparr>)"
| "act_exec hook (Advance a # cs) s = (case act_move hook False a s of None \<Rightarrow> None | Some s' \<Rightarrow> act_exec hook cs s')"
| "act_exec hook (Advance_Miss a # cs) s = (case act_move hook True a s of None \<Rightarrow> None | Some s' \<Rightarrow> act_exec hook cs s')"

lemma act_move_sound: "act_move hook miss a s = Some s' \<Longrightarrow> act_step hook s s'"
proof -
  assume "act_move hook miss a s = Some s'"
  then obtain s1 nxt where a: "a \<in># cc_acts s" and m: "act_advance hook miss a s = Some (s1, nxt)"
      and s': "s' = s1\<lparr>cc_acts := cc_acts s - {#a#} + mset nxt\<rparr>"
    unfolding act_move_def by (auto simp del: union_mset_add_mset_left split: if_splits)
  show ?thesis unfolding s' using a m by (rule advance)
qed

lemma act_exec_sound: "act_exec hook cs s = Some s' \<Longrightarrow> act_reach hook limits mx s \<Longrightarrow> act_reach hook limits mx s'"
  by (induction hook cs s rule: act_exec.induct)
    (auto intro: act_next call_push call_destroy dest: act_move_sound split: if_splits option.splits)

definition one_message_schedule :: "nat act_cmd list" where
  "one_message_schedule = [Call_Push 9 0, Advance (Push_Msg 9 0), Advance (Push_Count 0), Advance (Push_Hook 0),
     Advance (Try_Act From_Push), Advance (Do_Schedule From_Push), Advance Spawned, Advance Run_Flag,
     Advance Run_Limit, Advance (Run_Drain 0 0 1)]"

definition rest_of_run :: "nat act_cmd list" where
  "rest_of_run = [Advance (Run_Exec 9 0 0 1), Advance (Run_Sub 1), Advance Run_Clear, Advance Run_Load]"

definition destroy_schedule :: "nat act_cmd list" where
  "destroy_schedule = [Call_Destroy, Advance Destroy_Flag, Advance Destroy_Count, Advance (Try_Act From_Destroy),
     Advance (Do_Schedule From_Destroy), Advance Spawned, Advance Run_Flag, Advance Run_Reset,
     Advance Run_DClear, Advance Run_DSub]"

lemmas schedule_simps = act_move_def after_activate_def has_space_def cactor_new_def

lemma quiescent_actor_has_run_everything_witness:
  "\<exists>s. act_reach None [None] 100 s \<and> cc_acts s = {#} \<and> cc_pushed s = [[9 :: nat]]
     \<and> mset (cc_done s) = mset (concat (cc_pushed s)) \<and> cc_pending s = 0"
proof -
  define s :: "nat cactor" where "s = \<lparr>cc_boxes = [[]], cc_limits = [None], cc_max = 100, cc_pending = 0,
      cc_alive = True, cc_activated = False, cc_destroy = False, cc_joined = False, cc_undefined = False,
      cc_pushed = [[9]], cc_popped = [[9]], cc_ran = [(0, 9)], cc_done = [9], cc_acts = {#}\<rparr>"
  have "act_exec None (one_message_schedule @ rest_of_run) (cactor_new [None] 100) = Some s"
    by (simp add: one_message_schedule_def rest_of_run_def schedule_simps s_def)
  then have reach: "act_reach None [None] 100 s" using act_exec_sound act_init by blast
  have cond: "cc_acts s = {#}" "\<not> cc_destroy s" "cc_alive s" "\<not> cc_joined s"
      "length (concat (cc_pushed s)) < 2 ^ 64" "cc_pushed s = [[9]]"
    by (simp_all add: s_def)
  show ?thesis
    using quiescent_actor_has_run_everything [OF reach cond(1-5)] reach cond(1,6) by blast
qed

lemma actor_executes_serially_witness:
  "\<exists>s rest. act_reach None [None] 100 s \<and> total executing (cc_acts s) = {#9 :: nat#} \<and> cc_alive s
     \<and> cc_pushed s ! 0 = ran_of 0 (cc_ran s) @ [9] @ rest"
proof -
  define s :: "nat cactor" where "s = \<lparr>cc_boxes = [[]], cc_limits = [None], cc_max = 100, cc_pending = 1,
      cc_alive = True, cc_activated = True, cc_destroy = False, cc_joined = False, cc_undefined = False,
      cc_pushed = [[9]], cc_popped = [[9]], cc_ran = [], cc_done = [], cc_acts = {#Run_Exec 9 0 0 1#}\<rparr>"
  have "act_exec None one_message_schedule (cactor_new [None] 100) = Some s"
    by (simp add: one_message_schedule_def schedule_simps s_def)
  then have reach: "act_reach None [None] 100 s" using act_exec_sound act_init by blast
  have ex: "total executing (cc_acts s) = {#9#}" "0 < length (cc_boxes s)" "Run_Exec 9 0 0 1 \<in># cc_acts s" by (simp_all add: s_def)
  show ?thesis using actor_executes_serially [OF reach] reach ex by (intro exI [of _ s]) fastforce
qed

lemma destroy_joins_after_reset_witness:
  "\<exists>(s :: nat cactor) s1. act_reach None [None] 100 s
     \<and> act_advance None False Destroy_Join s = Some (s1, []) \<and> \<not> cc_alive s1"
proof -
  define s :: "nat cactor" where "s = \<lparr>cc_boxes = [[]], cc_limits = [None], cc_max = 100, cc_pending = 0,
      cc_alive = False, cc_activated = False, cc_destroy = True, cc_joined = False, cc_undefined = False,
      cc_pushed = [[]], cc_popped = [[]], cc_ran = [], cc_done = [], cc_acts = {#Destroy_Join#}\<rparr>"
  have "act_exec None destroy_schedule (cactor_new [None] 100) = Some s"
    by (simp add: destroy_schedule_def schedule_simps s_def)
  then have reach: "act_reach None [None] 100 s" using act_exec_sound act_init by blast
  have cond: "Destroy_Join \<in># cc_acts s" "act_advance None False Destroy_Join s = Some (s\<lparr>cc_joined := True\<rparr>, [])"
      "\<not> (\<exists>a \<in># cc_acts s. pushing a)" "\<not> cc_joined s" "length (concat (cc_pushed s)) + 1 < 2 ^ 64"
    by (simp_all add: s_def)
  show ?thesis using destroy_joins_after_reset [OF reach cond] reach cond(2) by blast
qed

text \<open>
  an actor with an activation hook can call the hook through the null pointer: a
  \<open>PushMessage\<close> that has counted its message asks the hook after a concurrent destruction has
  reset the instance.
\<close>

theorem hook_after_reset_is_undefined:
  "\<exists>s :: nat cactor. act_reach (Some (\<lambda>_. True)) [None] 100 s \<and> cc_undefined s"
proof -
  define s :: "nat cactor" where "s = \<lparr>cc_boxes = [[9]], cc_limits = [None], cc_max = 100, cc_pending = 1,
      cc_alive = False, cc_activated = False, cc_destroy = True, cc_joined = False, cc_undefined = True,
      cc_pushed = [[9]], cc_popped = [[]], cc_ran = [], cc_done = [], cc_acts = {#Destroy_Join#}\<rparr>"
  have "act_exec (Some (\<lambda>_. True))
      ([Call_Push 9 0, Advance (Push_Msg 9 0), Advance (Push_Count 0)] @ destroy_schedule @ [Advance (Push_Hook 0)])
      (cactor_new [None] 100) = Some s"
    by (simp add: destroy_schedule_def schedule_simps s_def)
  then have "act_reach (Some (\<lambda>_. True)) [None] 100 s" using act_exec_sound act_init by blast
  then show ?thesis by (intro exI [of _ s]) (simp add: s_def)
qed

end
