(* ===== verification/Actor_Progress.thy ===== *)
theory Actor_Progress
  imports Actor_Concurrent
begin

text \<open>
  Progress of one actor (\<open>actor.h\<close>): left alone, the activities of \<open>Actor_Concurrent\<close> come to
  rest however they are interleaved. A measure decreases with every step: the counter of pending
  messages, then the messages in the mailboxes, then the distance of each activity from its end.
\<close>

section \<open>Steps of an actor left alone\<close>

text \<open>
  The calls whose effect on the counter is still to come: a message is pushed and then counted,
  the flag of \<open>AsyncDestroy\<close> is set and then counted. While such a call is stopped in between, a
  run can find the counter ahead of the mailboxes, and activates itself again.
\<close>

fun uncounted :: "'m act \<Rightarrow> bool" where
  "uncounted (Push_Msg m i) = True"
| "uncounted (Push_Count i) = True"
| "uncounted Destroy_Flag = True"
| "uncounted Destroy_Count = True"
| "uncounted _ = False"

text \<open>
  A step without a new call. A pop finds a message that is in the mailbox: it misses one only
  while the producer is between its two writes, before it counts the message.
\<close>

definition alone_step :: "'m cactor \<Rightarrow> 'm cactor \<Rightarrow> bool" where
  "alone_step s s' \<longleftrightarrow> (\<exists>a s1 nxt. a \<in># cc_acts s \<and> act_advance None False a s = Some (s1, nxt)
     \<and> s' = s1\<lparr>cc_acts := cc_acts s - {#a#} + mset nxt\<rparr>)"

text \<open>An infinite sequence of such steps, as far as one is possible.\<close>

definition alone_run :: "(nat \<Rightarrow> 'm cactor) \<Rightarrow> bool" where
  "alone_run f \<longleftrightarrow> (\<forall>k. alone_step (f k) (f (Suc k)) \<or> f (Suc k) = f k \<and> (\<forall>s'. \<not> alone_step (f k) s'))"

lemma alone_act_step: "alone_step s s' \<Longrightarrow> act_step None s s'"
  unfolding alone_step_def by (elim exE conjE) (simp only: act_step.advance)

lemma some_step:
  assumes "cc_acts s \<noteq> {#}"
  shows "\<exists>s'. alone_step s s'"
proof -
  have moves: "act_advance None False a s \<noteq> None" if "a \<noteq> Destroy_Join" for a
    using that by (cases a) (auto split: option.splits list.splits)
  obtain a where a: "a \<in># cc_acts s" using assms by blast
  obtain b where b: "b \<in># cc_acts s" "act_advance None False b s \<noteq> None"
  proof (cases "act_advance None False a s")
    case None
    then have "a = Destroy_Join" using moves by blast
    then obtain b where "b \<in># cc_acts s" "in_scope b" using None by (auto split: if_splits)
    moreover from this have "b \<noteq> Destroy_Join" by auto
    ultimately show ?thesis using moves that by blast
  qed (use a that in auto)
  then show ?thesis unfolding alone_step_def by fast
qed

section \<open>The counter\<close>

text \<open>The messages the current run has executed and not yet taken from the counter.\<close>

fun ran :: "'m act \<Rightarrow> nat" where
  "ran (Run_Drain i e l) = e"
| "ran (Run_Exec m i e l) = e"
| "ran (Run_Sub e) = e"
| "ran _ = 0"

fun resetting :: "'m act \<Rightarrow> nat" where
  "resetting Run_Reset = 1"
| "resetting _ = 0"

definition life_inv :: "'m cactor \<Rightarrow> bool" where
  "life_inv s \<longleftrightarrow> (\<not> cc_alive s \<longrightarrow> cc_destroy s) \<and> (0 < total resetting (cc_acts s) \<longrightarrow> cc_destroy s)
     \<and> total dying (cc_acts s) \<le> 1 \<and> total ran (cc_acts s) \<le> length (cc_done s)
     \<and> (cc_destroy s \<longrightarrow> cc_joined s \<or> 0 < total destroying (cc_acts s))"

lemma life_inv_advance:
  assumes inv: "life_inv s" and token: "token_inv s" and acts: "cc_acts s = add_mset a A"
    and adv: "act_advance hook miss a s = Some (s1, nxt)"
  shows "life_inv (s1\<lparr>cc_acts := mset nxt + A\<rparr>)"
proof -
  define r d n e where "r = total resetting A" and "d = total dying A" and "n = total ran A" and "e = total destroying A"
  have i: "\<not> cc_alive s \<Longrightarrow> cc_destroy s" "0 < resetting a + r \<Longrightarrow> cc_destroy s" "dying a + d \<le> 1"
      "ran a + n \<le> length (cc_done s)" "cc_destroy s \<Longrightarrow> cc_joined s \<or> 0 < destroying a + e"
    using inv by (auto simp: life_inv_def acts r_def d_def n_def e_def)
  have t: "dying a + d = 0 \<or> \<not> cc_alive s" "0 < runs a \<Longrightarrow> cc_alive s"
    using token by (auto simp: token_inv_def acts d_def)
  show ?thesis
    using adv i t unfolding life_inv_def
    by (cases a)
      (auto simp: after_activate_def r_def [symmetric] d_def [symmetric] n_def [symmetric] e_def [symmetric]
        split: if_splits option.splits list.splits)
qed

lemma life_inv_step: "act_step hook s s' \<Longrightarrow> life_inv s \<Longrightarrow> act_inv s \<Longrightarrow> life_inv s'"
proof (induction rule: act_step.induct)
  case (advance a s miss s1 nxt)
  obtain A where A: "cc_acts s = add_mset a A" using advance.hyps(1) by (meson multi_member_split)
  have eq: "cc_acts s - {#a#} + mset nxt = mset nxt + A" by (simp add: A)
  show ?case using life_inv_advance [OF advance.prems(1) _ A advance.hyps(2)] advance.prems(2)
    by (simp add: eq act_inv_def)
qed (auto simp: life_inv_def)

lemma life_inv_reach: "act_reach hook limits mx s \<Longrightarrow> life_inv s"
proof (induction rule: act_reach.induct)
  case act_init
  then show ?case by (simp add: life_inv_def cactor_new_def)
next
  case (act_next s s')
  show ?case by (rule life_inv_step [OF act_next.hyps(2) act_next.IH act_inv_reach [OF act_next.hyps(1)]])
qed

lemma owes_counted: "\<forall>a \<in># M. \<not> uncounted a \<Longrightarrow>
    total owes M = int (total ran M + size (total executing M) + total dying M)"
proof (induction M)
  case (add a M)
  then show ?case by (cases a) auto
qed simp

text \<open>Once every call has counted its message the counter is exact.\<close>

lemma pending_exact:
  assumes "act_reach None limits mx s" and "\<forall>a \<in># cc_acts s. \<not> uncounted a" and "length (concat (cc_pushed s)) + 1 < 2 ^ 64"
  shows "unat (cc_pending s) = length (concat (cc_boxes s)) + total ran (cc_acts s) + size (total executing (cc_acts s))
    + total dying (cc_acts s) + (if cc_destroy s \<and> cc_alive s then 1 else 0)" (is "_ = ?n")
proof -
  have inv: "token_inv s" "count_inv s" "log_inv s" and life: "life_inv s"
    using act_inv_reach [OF assms(1)] life_inv_reach [OF assms(1)] by (simp_all add: act_inv_def)
  have "length (concat (cc_pushed s)) = length (cc_done s) + size (total executing (cc_acts s)) + length (concat (cc_boxes s))"
  proof -
    have "mset (concat (cc_popped s)) = mset (cc_done s) + total executing (cc_acts s)" using inv(3) by (simp add: log_inv_def)
    then show ?thesis using arg_cong [OF pushed_split [OF inv(3)], of size]
      by (metis size_mset size_union)
  qed
  moreover have "total ran (cc_acts s) \<le> length (cc_done s)" "total dying (cc_acts s) \<le> 1"
      "0 < total dying (cc_acts s) \<longrightarrow> \<not> cc_alive s" "\<not> cc_alive s \<longrightarrow> cc_destroy s"
    using life inv(1) by (simp_all add: life_inv_def token_inv_def)
  ultimately have less: "?n < 2 ^ 64" using assms(3) by auto
  have "cc_pending s = word_of_int (int ?n)"
    using inv(2) life owes_counted [OF assms(2)] by (auto simp: count_inv_def life_inv_def)
  then have "cc_pending s = word_of_nat ?n" by (simp only: of_int_of_nat_eq)
  then show ?thesis using unat_of_nat64 [OF less] by metis
qed

section \<open>The measure\<close>

text \<open>\<open>bs\<close> are the mailboxes; \<open>p\<close> says that the counter is positive, so that a run that ends starts another.\<close>

definition box_left :: "'m list list \<Rightarrow> nat \<Rightarrow> bool" where
  "box_left bs i \<longleftrightarrow> concat (drop i bs) \<noteq> []"

fun weight :: "'m list list \<Rightarrow> bool \<Rightarrow> 'm act \<Rightarrow> nat" where
  "weight bs p (Push_Hook i) = length bs + 11"
| "weight bs p (Try_Act c) = length bs + 10"
| "weight bs p (Do_Schedule c) = length bs + 9"
| "weight bs p Spawned = length bs + 7"
| "weight bs p Run_Flag = length bs + 6"
| "weight bs p Run_Limit = (if box_left bs 0 then 3 + length bs else 5 + length bs + (if p then length bs + 11 else 0))"
| "weight bs p (Run_Drain i e l) =
     (if 0 < e \<or> box_left bs i then 2 + (length bs - i) else 4 + (length bs - i) + (if p then length bs + 11 else 0))"
| "weight bs p (Run_Exec m i e l) = 3 + length bs"
| "weight bs p (Run_Sub e) = (if 0 < e then 1 else 3 + (if p then length bs + 11 else 0))"
| "weight bs p Run_Clear = 2 + (if p then length bs + 11 else 0)"
| "weight bs p Run_Load = 1 + (if p then length bs + 11 else 0)"
| "weight bs p Run_Reset = 3"
| "weight bs p Run_DClear = 2"
| "weight bs p Run_DSub = 1"
| "weight bs p Destroy_Join = 1"
| "weight bs p _ = 0"

definition work :: "('m cactor \<times> 'm cactor) set" where
  "work = measures [\<lambda>s. unat (cc_pending s), \<lambda>s. length (concat (cc_boxes s)),
     \<lambda>s. total (weight (cc_boxes s) (0 < cc_pending s)) (cc_acts s)]"

lemma wf_work: "wf work"
  by (simp add: work_def)

lemma box_left_step: "i < length bs \<Longrightarrow> box_left bs i \<longleftrightarrow> bs ! i \<noteq> [] \<or> box_left bs (Suc i)"
  by (simp add: box_left_def Cons_nth_drop_Suc [symmetric])

lemma box_left_end: "length bs \<le> i \<Longrightarrow> \<not> box_left bs i"
  by (simp add: box_left_def)

lemma unat_minus: "b \<le> a \<Longrightarrow> unat (a - b) = unat a - unat b" for a b :: u64
  by (simp add: unat_sub)

lemma step_decreases:
  assumes reach: "act_reach None limits mx s" and counted: "\<forall>a \<in># cc_acts s. \<not> uncounted a"
    and few: "length (concat (cc_pushed s)) + 1 < 2 ^ 64" and step: "alone_step s s'"
  shows "(s', s) \<in> work"
proof -
  obtain a s1 nxt where a: "a \<in># cc_acts s" "act_advance None False a s = Some (s1, nxt)"
      and s': "s' = s1\<lparr>cc_acts := cc_acts s - {#a#} + mset nxt\<rparr>"
    using step by (auto simp: alone_step_def)
  obtain A where A: "cc_acts s = add_mset a A" using a(1) by (meson multi_member_split)
  then have s'': "s' = s1\<lparr>cc_acts := mset nxt + A\<rparr>" using s' by simp
  have inv: "token_inv s" "count_inv s" "log_inv s" and life: "life_inv s"
    using act_inv_reach [OF reach] life_inv_reach [OF reach] by (simp_all add: act_inv_def)
  have nota: "\<not> uncounted a" using counted a(1) by blast
  note exact = pending_exact [OF reach counted few]
  let ?w = "total (weight (cc_boxes s) (0 < cc_pending s))"
  have lighter: "(s', s) \<in> work"
    if "cc_pending s1 = cc_pending s" "cc_boxes s1 = cc_boxes s" "?w (mset nxt) < weight (cc_boxes s) (0 < cc_pending s) a"
    using that unfolding s'' work_def by (simp add: A)
  have fewer: "(s', s) \<in> work" if "unat (cc_pending s1) < unat (cc_pending s)"
    using that unfolding s'' work_def by simp
  show ?thesis
  proof (cases a)
    case (Run_Drain i e l)
    show ?thesis
    proof (cases "i < length (cc_boxes s)")
      case True
      show ?thesis
      proof (cases "cc_boxes s ! i")
        case Nil
        then show ?thesis using a(2) Run_Drain True box_left_step [OF True] by (intro lighter) auto
      next
        case (Cons m ms)
        have "length (concat ((cc_boxes s)[i := ms])) < length (concat (cc_boxes s))"
          using True Cons elem_le_sum_list [of i "map length (cc_boxes s)"]
          by (simp add: length_concat map_update sum_list_update)
        then show ?thesis using a(2) Run_Drain True Cons unfolding s'' work_def by auto
      qed
    next
      case False
      then show ?thesis using a(2) Run_Drain box_left_end [of "cc_boxes s" i] by (intro lighter) auto
    qed
  next
    case (Run_Sub e)
    show ?thesis
    proof (cases "e = 0")
      case True
      then show ?thesis using a(2) Run_Sub by (intro lighter) auto
    next
      case False
      have le: "e \<le> unat (cc_pending s)" using exact by (simp add: A Run_Sub)
      then have e: "unat (word_of_nat e :: u64) = e" using unat_of_nat64 [of e] unsigned_less [of "cc_pending s", where ?'a = nat] by simp
      then have "unat (cc_pending s - word_of_nat e) = unat (cc_pending s) - e"
        using le by (subst unat_minus) (simp_all add: word_le_nat_alt)
      then show ?thesis using a(2) Run_Sub False le by (intro fewer) auto
    qed
  next
    case Run_DSub
    have "1 \<le> unat (cc_pending s)" using exact by (simp add: A Run_DSub)
    then have "unat (cc_pending s - 1) = unat (cc_pending s) - 1" by (subst unat_minus) (simp_all add: word_le_nat_alt)
    then show ?thesis using a(2) Run_DSub \<open>1 \<le> unat (cc_pending s)\<close> by (intro fewer) auto
  next
    case Run_Flag
    show ?thesis
    proof (cases "cc_destroy s")
      case True
      then show ?thesis using a(2) Run_Flag by (intro lighter) auto
    next
      case False
      have "total holds A = 0" "cc_alive s" using inv(1) by (simp_all add: token_inv_def A Run_Flag)
      have none: "total ran A = 0" "total executing A = {#}"
        using \<open>total holds A = 0\<close> by (induction A, auto) (case_tac x; auto)+
      have "cc_pending s = 0" if "\<not> box_left (cc_boxes s) 0"
      proof -
        have "concat (cc_boxes s) = []" "total dying A = 0"
          using that \<open>cc_alive s\<close> inv(1) by (simp_all only: box_left_def drop_0 simp_thms) (simp add: token_inv_def A Run_Flag)
        then have "unat (cc_pending s) = 0" using exact False none by (simp add: A Run_Flag)
        then show ?thesis by (simp add: unat_eq_0)
      qed
      then show ?thesis using a(2) Run_Flag False by (intro lighter) auto
    qed
  next
    case (Run_Exec m i e l)
    then show ?thesis using a(2) by (intro lighter) auto
  next
    case (Do_Schedule c)
    then show ?thesis using a(2) by (intro lighter) (auto simp: after_activate_def)
  next
    case (Try_Act c)
    then show ?thesis using a(2) by (intro lighter) (auto simp: after_activate_def split: if_splits)
  next
    case Destroy_Join
    then show ?thesis using a(2) by (intro lighter) (auto split: if_splits)
  qed (rule lighter; use a(2) nota in \<open>auto split: if_splits\<close>)+
qed

section \<open>Coming to rest\<close>

lemma counted_step:
  assumes "alone_step s s'" "\<forall>a \<in># cc_acts s. \<not> uncounted a"
  shows "(\<forall>a \<in># cc_acts s'. \<not> uncounted a) \<and> cc_pushed s' = cc_pushed s \<and> cc_destroy s' = cc_destroy s"
proof -
  obtain a s1 nxt where a: "a \<in># cc_acts s" "act_advance None False a s = Some (s1, nxt)"
      and s': "s' = s1\<lparr>cc_acts := cc_acts s - {#a#} + mset nxt\<rparr>"
    using assms(1) by (auto simp: alone_step_def)
  obtain A where A: "cc_acts s = add_mset a A" using a(1) by (meson multi_member_split)
  have "(\<forall>b \<in> set nxt. \<not> uncounted b) \<and> cc_pushed s1 = cc_pushed s \<and> cc_destroy s1 = cc_destroy s"
    using a assms(2) by (cases a) (auto simp: after_activate_def split: if_splits list.splits)
  then show ?thesis using assms(2) unfolding s' A by auto
qed

lemma some_rest:
  assumes "act_reach None limits mx s" "\<forall>a \<in># cc_acts s. \<not> uncounted a" "length (concat (cc_pushed s)) + 1 < 2 ^ 64"
    and "alone_run f" "f n = s"
  shows "\<exists>k. act_reach None limits mx (f k) \<and> cc_acts (f k) = {#} \<and> cc_pushed (f k) = cc_pushed s \<and> cc_destroy (f k) = cc_destroy s"
  using wf_work assms
proof (induction s arbitrary: n rule: wf_induct_rule)
  case (less s)
  show ?case
  proof (cases "cc_acts s = {#}")
    case True
    then show ?thesis using less.prems(1,5) by blast
  next
    case False
    then have step: "alone_step s (f (Suc n))"
      using some_step [OF False] less.prems(4,5) unfolding alone_run_def by metis
    then have "(f (Suc n), s) \<in> work" by (rule step_decreases [OF less.prems(1-3)])
    moreover have "act_reach None limits mx (f (Suc n))" by (rule act_next [OF less.prems(1) alone_act_step [OF step]])
    moreover note counted_step [OF step less.prems(2)]
    ultimately show ?thesis using less.IH [of "f (Suc n)" "Suc n"] less.prems(3,4) by auto
  qed
qed

text \<open>
  C14: an actor left alone comes to rest. Suppose that the actor has no activation hook, that it
  has accepted fewer than \<open>2 ^ 64 - 1\<close> messages, and that every call in progress has counted what
  it has pushed or flagged. Then, if nothing further is called, every way of interleaving the
  activities ends: after finitely many steps every call has returned and no activation is left.
  If the actor was not asked to destroy itself, every accepted message has then been executed
  exactly once, each mailbox in its order, and the actor sleeps; if it was, the \<open>AsyncDestroy\<close>
  that set the flag has completed its join.
\<close>

theorem actor_comes_to_rest:
  assumes "act_reach None limits mx s" and "\<forall>a \<in># cc_acts s. \<not> uncounted a"
    and "length (concat (cc_pushed s)) + 1 < 2 ^ 64" and "alone_run f" and "f 0 = s"
  shows "\<exists>k. cc_acts (f k) = {#} \<and> cc_pushed (f k) = cc_pushed s
     \<and> (if cc_destroy s then cc_joined (f k)
        else cc_popped (f k) = cc_pushed s \<and> mset (cc_done (f k)) = mset (concat (cc_pushed s))
          \<and> cc_pending (f k) = 0 \<and> \<not> cc_activated (f k))"
proof -
  obtain k where k: "act_reach None limits mx (f k)" "cc_acts (f k) = {#}" "cc_pushed (f k) = cc_pushed s"
      "cc_destroy (f k) = cc_destroy s"
    using some_rest [OF assms] by blast
  have life: "life_inv (f k)" and destroy: "destroy_inv (f k)" using life_inv_reach [OF k(1)] destroy_inv_reach [OF k(1)] .
  show ?thesis
  proof (cases "cc_destroy s")
    case True
    then have "cc_joined (f k)" using life k(2,4) by (simp add: life_inv_def)
    then show ?thesis using k True by auto
  next
    case False
    then have "cc_alive (f k)" "\<not> cc_joined (f k)" using life destroy k(4) by (auto simp: life_inv_def destroy_inv_def)
    then show ?thesis using at_rest [OF k(1,2)] k False assms(3) by (intro exI [of _ k]) simp
  qed
qed

text \<open>The sequence of states in which the given activities advance, one after the other.\<close>

fun alone_at :: "'m act list \<Rightarrow> 'm cactor \<Rightarrow> nat \<Rightarrow> 'm cactor" where
  "alone_at [] s k = s"
| "alone_at (a # as) s 0 = s"
| "alone_at (a # as) s (Suc k) = (case act_move None False a s of None \<Rightarrow> s | Some s' \<Rightarrow> alone_at as s' k)"

fun alone_ends :: "'m act list \<Rightarrow> 'm cactor \<Rightarrow> bool" where
  "alone_ends [] s \<longleftrightarrow> cc_acts s = {#}"
| "alone_ends (a # as) s \<longleftrightarrow> (case act_move None False a s of None \<Rightarrow> False | Some s' \<Rightarrow> alone_ends as s')"

lemma alone_at_0 [simp]: "alone_at as s 0 = s"
  by (cases as) simp_all

lemma alone_move: "act_move None False a s = Some s' \<Longrightarrow> alone_step s s'"
  by (auto simp: act_move_def alone_step_def simp del: union_mset_add_mset_left split: if_splits)

lemma alone_at_step: "alone_ends as s \<Longrightarrow>
    alone_step (alone_at as s k) (alone_at as s (Suc k)) \<or> alone_at as s (Suc k) = alone_at as s k \<and> cc_acts (alone_at as s k) = {#}"
proof (induction as s k rule: alone_at.induct)
  case (2 a as s)
  then show ?case by (auto intro: alone_move split: option.splits)
next
  case (3 a as s k)
  then show ?case by (auto split: option.splits)
qed simp

lemma alone_at_run:
  assumes "alone_ends as s"
  shows "alone_run (alone_at as s)"
proof -
  have "\<not> alone_step t t'" if "cc_acts t = {#}" for t t' :: "'a cactor" using that by (simp add: alone_step_def)
  then show ?thesis using alone_at_step [OF assms] unfolding alone_run_def by blast
qed

lemma actor_comes_to_rest_witness:
  "\<exists>f :: nat \<Rightarrow> nat cactor. alone_run f \<and> cc_acts (f 0) = {#Push_Hook 0#} \<and> cc_pushed (f 0) = [[9]]
     \<and> (\<exists>k. cc_acts (f k) = {#} \<and> mset (cc_done (f k)) = {#9#})"
proof -
  define s :: "nat cactor" where "s = \<lparr>cc_boxes = [[9]], cc_limits = [None], cc_max = 100, cc_pending = 1,
      cc_alive = True, cc_activated = False, cc_destroy = False, cc_joined = False, cc_undefined = False,
      cc_pushed = [[9]], cc_popped = [[]], cc_ran = [], cc_done = [], cc_acts = {#Push_Hook 0#}\<rparr>"
  define as :: "nat act list" where "as = [Push_Hook 0, Try_Act From_Push, Do_Schedule From_Push, Spawned, Run_Flag,
      Run_Limit, Run_Drain 0 0 1, Run_Exec 9 0 0 1, Run_Sub 1, Run_Clear, Run_Load]"
  have "act_exec None [Call_Push 9 0, Advance (Push_Msg 9 0), Advance (Push_Count 0)] (cactor_new [None] 100) = Some s"
    by (simp add: schedule_simps s_def)
  then have reach: "act_reach None [None] 100 s" using act_exec_sound act_init by blast
  have "alone_ends as s" by (simp add: as_def s_def schedule_simps)
  then have run: "alone_run (alone_at as s)" by (rule alone_at_run)
  have cond: "\<forall>a \<in># cc_acts s. \<not> uncounted a" "length (concat (cc_pushed s)) + 1 < 2 ^ 64" "alone_at as s 0 = s"
      "\<not> cc_destroy s" "cc_acts s = {#Push_Hook 0#}" "cc_pushed s = [[9]]"
    by (simp_all add: s_def)
  show ?thesis using actor_comes_to_rest [OF reach cond(1,2) run cond(3)] run cond(3-6)
    by (intro exI [of _ "alone_at as s"]) auto
qed

end
