(* ===== verification/Messages.thy ===== *)
theory Messages
  imports Exa_Prelude
begin

text \<open>
  The messages of \<open>message.h\<close>: what one node sends to another, as data. Turning them into
  bytes is the work of a vendored serialisation library, a parameter of the development (a
  record \<open>msg_codec\<close> of encoders and decoders); what the code relies on, that decoding an
  encoded message gives it back, is the hypothesis \<open>codec_ok\<close>.
\<close>

datatype network_request =
    ActorCreationRequest (cr_handler_key: string) (cr_serialized_args: bytes)
  | ActorMethodCallRequest (mc_handler_key: u64) (mc_actor_id: u64) (mc_mailbox_index: u64) (mc_serialized_args: bytes)
  | ActorLookUpRequest (lu_actor_name: string)
  | ActorDestroyRequest (de_actor_id: u64)

datatype network_reply =
    ActorCreationReply bool bytes string
  | ActorMethodCallReply bool bytes string
  | ActorLookUpReply bool bytes
  | ActorDestroyReply bool string

record node_state =
  ns_last_seen_timestamp_ms :: u64
  ns_node_id :: u64
  ns_address :: string
  ns_node_name :: string

record broker_gossip_message =
  gm_from_node_id :: u64
  gm_node_states :: "node_state list"

record broker_two_way_message =
  tw_request_node_id :: u64
  tw_response_node_id :: u64
  tw_request_id :: u64
  tw_payload :: bytes

datatype broker_message =
    Two_Way broker_two_way_message
  | Gossip broker_gossip_message

record msg_codec =
  enc_broker :: "broker_message \<Rightarrow> bytes"
  dec_broker :: "bytes \<Rightarrow> exa_error + broker_message"
  enc_request :: "network_request \<Rightarrow> bytes"
  dec_request :: "bytes \<Rightarrow> exa_error + network_request"
  enc_reply :: "network_reply \<Rightarrow> bytes"
  dec_reply :: "bytes \<Rightarrow> exa_error + network_reply"

definition codec_ok :: "msg_codec \<Rightarrow> bool" where
  "codec_ok c \<longleftrightarrow> (\<forall>m. dec_broker c (enc_broker c m) = Inr m)
     \<and> (\<forall>m. dec_request c (enc_request c m) = Inr m) \<and> (\<forall>m. dec_reply c (enc_reply c m) = Inr m)"

lemma codec_okD:
  "codec_ok c \<Longrightarrow> dec_broker c (enc_broker c m) = Inr m"
  "codec_ok c \<Longrightarrow> dec_request c (enc_request c r) = Inr r"
  "codec_ok c \<Longrightarrow> dec_reply c (enc_reply c p) = Inr p"
  by (simp_all add: codec_ok_def)

end
