(* ===== verification/Periodic.thy ===== *)
theory Periodic
  imports Exa_Prelude
begin

text \<open>
  \<open>PeriodicalTaskScheduler\<close> of \<open>network.cc\<close>: the tasks, their registration, and the loop of its
  thread with its two waits. Which of several tasks with the same \<open>next_run_ms\<close> is at the
  top of the \<open>std::priority_queue\<close> is left open, so the inner loop is a relation. Times are
  milliseconds of the system clock, 64-bit and wrapping.
\<close>

section \<open>Tasks\<close>

record 'f ptask =
  pt_fn :: 'f
  pt_interval_ms :: u64
  pt_next_run_ms :: u64

definition ptask_greater :: "'f ptask \<Rightarrow> 'f ptask \<Rightarrow> bool" where
  "ptask_greater t other \<longleftrightarrow> pt_next_run_ms t > pt_next_run_ms other"

text \<open>The top of a min-heap: no task is smaller.\<close>

definition ptask_top :: "'f ptask list \<Rightarrow> 'f ptask \<Rightarrow> bool" where
  "ptask_top ts t \<longleftrightarrow> t \<in> set ts \<and> (\<forall>u \<in> set ts. \<not> ptask_greater t u)"

definition PeriodicalTaskScheduler_Register :: "u64 \<Rightarrow> 'f \<Rightarrow> u64 \<Rightarrow> 'f ptask list \<Rightarrow> 'f ptask list" where
  "PeriodicalTaskScheduler_Register now fn interval_ms ts =
     ts @ [\<lparr>pt_fn = fn, pt_interval_ms = interval_ms, pt_next_run_ms = now + interval_ms\<rparr>]"

section \<open>Running the due tasks\<close>

text \<open>One round of the inner loop: the top is due; it is popped, run, and pushed again.\<close>

inductive due_step :: "u64 \<Rightarrow> 'f ptask list \<Rightarrow> 'f \<Rightarrow> 'f ptask list \<Rightarrow> bool" for now where
  due: "ptask_top ts t \<Longrightarrow> pt_next_run_ms t \<le> now \<Longrightarrow>
    due_step now ts (pt_fn t) (remove1 t ts @ [t\<lparr>pt_next_run_ms := now + pt_interval_ms t\<rparr>])"

inductive_cases due_stepE: "due_step now ts f ts'"

inductive run_due :: "u64 \<Rightarrow> 'f ptask list \<Rightarrow> 'f list \<Rightarrow> 'f ptask list \<Rightarrow> bool" for now where
  run_done: "(\<forall>t \<in> set ts. now < pt_next_run_ms t) \<Longrightarrow> run_due now ts [] ts"
| run_more: "due_step now ts f ts1 \<Longrightarrow> run_due now ts1 fs ts' \<Longrightarrow> run_due now ts (f # fs) ts'"

inductive due_steps :: "u64 \<Rightarrow> nat \<Rightarrow> 'f ptask list \<Rightarrow> 'f ptask list \<Rightarrow> bool" for now where
  steps_0: "due_steps now 0 ts ts"
| steps_Suc: "due_step now ts f ts1 \<Longrightarrow> due_steps now n ts1 ts' \<Longrightarrow> due_steps now (Suc n) ts ts'"

definition is_due :: "u64 \<Rightarrow> 'f ptask \<Rightarrow> bool" where
  "is_due now t \<longleftrightarrow> pt_next_run_ms t \<le> now"

text \<open>Every interval is positive and its sum with the time of day does not wrap.\<close>

definition intervals_ok :: "u64 \<Rightarrow> 'f ptask list \<Rightarrow> bool" where
  "intervals_ok now ts \<longleftrightarrow>
     (\<forall>t \<in> set ts. 0 < pt_interval_ms t \<and> unat now + unat (pt_interval_ms t) < 2 ^ 64)"

definition due_fns :: "u64 \<Rightarrow> 'f ptask list \<Rightarrow> 'f multiset" where
  "due_fns now ts = image_mset pt_fn (filter_mset (is_due now) (mset ts))"

lemma filter_none: "filter_mset P M = {#} \<longleftrightarrow> (\<forall>x \<in># M. \<not> P x)"
  by (induction M) auto

lemma later: "0 < i \<Longrightarrow> unat now + unat i < 2 ^ 64 \<Longrightarrow> now < now + i" for now i :: u64
  by (simp add: word_less_nat_alt unat_word_ariths)

lemma due_step_facts:
  assumes "due_step now ts f ts'" and ok: "intervals_ok now ts"
  shows "intervals_ok now ts' \<and> due_fns now ts = add_mset f (due_fns now ts')
    \<and> image_mset (\<lambda>t. (pt_fn t, pt_interval_ms t)) (mset ts') = image_mset (\<lambda>t. (pt_fn t, pt_interval_ms t)) (mset ts)"
  using assms(1)
proof cases
  case (due t)
  define t' where "t' = t\<lparr>pt_next_run_ms := now + pt_interval_ms t\<rparr>"
  have t: "t \<in> set ts" using due(3) by (simp add: ptask_top_def)
  then have "now < now + pt_interval_ms t" using ok later by (auto simp: intervals_ok_def)
  then have "\<not> is_due now t'" by (simp add: is_due_def t'_def)
  moreover have "is_due now t" using due(4) by (simp add: is_due_def)
  moreover obtain M where M: "mset ts = add_mset t M" using t by (metis multi_member_split set_mset_mset)
  ultimately show ?thesis
    using ok t due(1,2) unfolding t'_def [symmetric]
    by (auto simp: due_fns_def intervals_ok_def t'_def dest: notin_set_remove1 set_mp [OF set_remove1_subset])
qed

lemma due_exists: "\<exists>t \<in> set ts. is_due now t \<Longrightarrow> \<exists>f ts'. due_step now ts f ts'"
proof -
  assume "\<exists>t \<in> set ts. is_due now t"
  then obtain u where u: "u \<in> set ts" "is_due now u" by blast
  define m where "m = Min (pt_next_run_ms ` set ts)"
  have "m \<in> pt_next_run_ms ` set ts" unfolding m_def using u(1) by (intro Min_in) auto
  then obtain t where t: "t \<in> set ts" "pt_next_run_ms t = m" by auto
  have min: "m \<le> pt_next_run_ms x" if "x \<in> set ts" for x unfolding m_def using that by simp
  have "ptask_top ts t" using t min by (auto simp: ptask_top_def ptask_greater_def not_less)
  moreover have "pt_next_run_ms t \<le> now" using min [OF u(1)] u(2) t(2) by (simp add: is_due_def)
  ultimately show ?thesis using due by blast
qed

lemma due_steps_bound: "due_steps now n ts ts' \<Longrightarrow> intervals_ok now ts \<Longrightarrow> n \<le> size (due_fns now ts)"
  by (induction rule: due_steps.induct) (auto dest: due_step_facts)

lemma run_due_facts:
  "run_due now ts fs ts' \<Longrightarrow> intervals_ok now ts \<Longrightarrow>
   mset fs = due_fns now ts \<and> (\<forall>t \<in> set ts'. now < pt_next_run_ms t)
   \<and> image_mset (\<lambda>t. (pt_fn t, pt_interval_ms t)) (mset ts') = image_mset (\<lambda>t. (pt_fn t, pt_interval_ms t)) (mset ts)"
proof (induction rule: run_due.induct)
  case (run_done ts)
  have "filter_mset (is_due now) (mset ts) = {#}"
    using run_done.hyps by (simp add: filter_none is_due_def not_le)
  then show ?case using run_done.hyps by (simp add: due_fns_def)
next
  case (run_more ts f ts1 fs ts')
  then show ?case using due_step_facts [OF run_more.hyps(1)] by auto
qed

lemma run_due_exists: "intervals_ok now ts \<Longrightarrow> \<exists>fs ts'. run_due now ts fs ts'"
proof (induction "size (due_fns now ts)" arbitrary: ts)
  case 0
  then have "filter_mset (is_due now) (mset ts) = {#}" by (simp add: due_fns_def)
  then have "\<forall>t \<in> set ts. now < pt_next_run_ms t"
    by (simp add: filter_none is_due_def not_le)
  then show ?case using run_done by blast
next
  case (Suc n)
  then have "filter_mset (is_due now) (mset ts) \<noteq> {#}"
    by (metis Suc.hyps(2) due_fns_def image_mset_empty nat.distinct(1) size_empty)
  then have "\<exists>t \<in> set ts. is_due now t" by (auto simp: filter_none)
  then obtain f ts1 where step: "due_step now ts f ts1" using due_exists by blast
  then have "intervals_ok now ts1" "n = size (due_fns now ts1)"
    using due_step_facts [OF step Suc.prems] Suc.hyps(2) by auto
  then show ?case using Suc.hyps(1) run_more [OF step] by blast
qed

text \<open>
  C22: with positive intervals the inner loop of the scheduler always ends: no sequence of its
  rounds is longer than the number of due tasks, and when it ends every due task has run
  exactly once, no other task has run, no task was lost, and none is due any more.
\<close>

theorem due_tasks_run_once:
  assumes "intervals_ok now ts"
  shows "(\<exists>fs ts'. run_due now ts fs ts')
     \<and> (\<forall>n ts1. due_steps now n ts ts1 \<longrightarrow> n \<le> size (due_fns now ts))
     \<and> (\<forall>fs ts2. run_due now ts fs ts2 \<longrightarrow> mset fs = due_fns now ts \<and> (\<forall>t \<in> set ts2. now < pt_next_run_ms t)
          \<and> image_mset (\<lambda>t. (pt_fn t, pt_interval_ms t)) (mset ts2)
            = image_mset (\<lambda>t. (pt_fn t, pt_interval_ms t)) (mset ts))"
  using run_due_exists [OF assms] due_steps_bound [OF _ assms] run_due_facts [OF _ assms] by auto

lemma due_tasks_run_once_witness:
  "\<exists>fs ts'. run_due 100 [\<lparr>pt_fn = (1::nat), pt_interval_ms = 50, pt_next_run_ms = 90\<rparr>] fs ts'"
  by (rule due_tasks_run_once [THEN conjunct1]) (simp add: intervals_ok_def)

text \<open>
  a task with interval zero keeps the inner loop running for ever: once it is due, there
  is a next round after any number of rounds, and the loop, which holds the lock of the
  tasks, never reaches a state without a due task.
\<close>

theorem zero_interval_never_ends:
  "due_steps now n [\<lparr>pt_fn = f, pt_interval_ms = 0, pt_next_run_ms = now\<rparr>]
     [\<lparr>pt_fn = f, pt_interval_ms = 0, pt_next_run_ms = now\<rparr>]
   \<and> \<not> (\<exists>fs ts'. run_due now [\<lparr>pt_fn = f, pt_interval_ms = 0, pt_next_run_ms = now\<rparr>] fs ts')"
proof
  define t where "t = \<lparr>pt_fn = f, pt_interval_ms = 0, pt_next_run_ms = now\<rparr>"
  have step: "due_step now [t] f [t]"
    using due [of "[t]" t now] by (simp add: ptask_top_def ptask_greater_def t_def)
  show "due_steps now n [t] [t]" unfolding t_def [symmetric]
    by (induction n) (auto intro: steps_0 steps_Suc [OF step])
  have "run_due now ts fs ts' \<Longrightarrow> ts = [t] \<Longrightarrow> False" for ts fs ts'
  proof (induction rule: run_due.induct)
    case (run_done ts)
    then show ?case by (simp add: t_def)
  next
    case (run_more ts f ts1 fs ts')
    from run_more.hyps(1) have "ts1 = [t]"
      by (cases rule: due_stepE) (auto simp: run_more.prems ptask_top_def t_def)
    then show ?case using run_more.IH by blast
  qed
  then show "\<not> (\<exists>fs ts'. run_due now [\<lparr>pt_fn = f, pt_interval_ms = 0, pt_next_run_ms = now\<rparr>] fs ts')"
    unfolding t_def by blast
qed

section \<open>The loop and its waits\<close>

text \<open>
  Where the thread is: at the head of the loop, waiting for a task, waiting for the time
  \<open>next_run\<close> it read from the top, or finished. \<open>Stop\<close> sets the stop token. \<open>ps_ran\<close> lists the
  functions run, with the time.
\<close>

datatype loop_pc = Loop_Head | Wait_Nonempty | Wait_Until u64 | Loop_Done

record 'f psched =
  ps_tasks :: "'f ptask list"
  ps_stop_requested :: bool
  ps_stopped :: bool
  ps_pc :: loop_pc
  ps_ran :: "('f \<times> u64) list"

definition PeriodicalTaskScheduler_new :: "'f psched" where
  "PeriodicalTaskScheduler_new =
     \<lparr>ps_tasks = [], ps_stop_requested = False, ps_stopped = False, ps_pc = Loop_Head, ps_ran = []\<rparr>"

definition PeriodicalTaskScheduler_Stop :: "'f psched \<Rightarrow> 'f psched" where
  "PeriodicalTaskScheduler_Stop s = s\<lparr>ps_stopped := True, ps_stop_requested := True\<rparr>"

text \<open>
  The steps at time \<open>now\<close>. The wait for a due time ends when that time has come or stop was
  requested: a notification by \<open>Register\<close> only makes it check the stop token again.
\<close>

inductive psched_step :: "u64 \<Rightarrow> 'f psched \<Rightarrow> 'f psched \<Rightarrow> bool" for now where
  ps_register: "psched_step now s (s\<lparr>ps_tasks := PeriodicalTaskScheduler_Register now fn i (ps_tasks s)\<rparr>)"
| ps_stop: "psched_step now s (PeriodicalTaskScheduler_Stop s)"
| ps_leave: "ps_pc s = Loop_Head \<Longrightarrow> ps_stop_requested s \<Longrightarrow> psched_step now s (s\<lparr>ps_pc := Loop_Done\<rparr>)"
| ps_empty: "ps_pc s = Loop_Head \<Longrightarrow> \<not> ps_stop_requested s \<Longrightarrow> ps_tasks s = [] \<Longrightarrow>
    psched_step now s (s\<lparr>ps_pc := Wait_Nonempty\<rparr>)"
| ps_nonempty: "ps_pc s = Wait_Nonempty \<Longrightarrow> ps_tasks s \<noteq> [] \<or> ps_stop_requested s \<Longrightarrow>
    psched_step now s (s\<lparr>ps_pc := Loop_Head\<rparr>)"
| ps_wait: "ps_pc s = Loop_Head \<Longrightarrow> \<not> ps_stop_requested s \<Longrightarrow> ptask_top (ps_tasks s) t \<Longrightarrow>
    psched_step now s (s\<lparr>ps_pc := Wait_Until (pt_next_run_ms t)\<rparr>)"
| ps_wake_stop: "ps_pc s = Wait_Until w \<Longrightarrow> ps_stop_requested s \<Longrightarrow> psched_step now s (s\<lparr>ps_pc := Loop_Done\<rparr>)"
| ps_wake: "ps_pc s = Wait_Until w \<Longrightarrow> w \<le> now \<Longrightarrow> \<not> ps_stop_requested s \<Longrightarrow>
    run_due now (ps_tasks s) fs ts' \<Longrightarrow>
    psched_step now s (s\<lparr>ps_tasks := ts', ps_ran := ps_ran s @ map (\<lambda>f. (f, now)) fs, ps_pc := Loop_Head\<rparr>)"

inductive_cases psched_stepE: "psched_step now s s'"

text \<open>Steps while the clock does not go beyond a limit.\<close>

inductive psched_run :: "u64 \<Rightarrow> 'f psched \<Rightarrow> 'f psched \<Rightarrow> bool" for limit where
  pr_refl: "psched_run limit s s"
| pr_step: "psched_run limit s s1 \<Longrightarrow> now \<le> limit \<Longrightarrow> psched_step now s1 s2 \<Longrightarrow> psched_run limit s s2"

text \<open>
  the thread does not sleep until the earliest task is due: while it waits for the time
  it read earlier, nothing runs before that time, whatever is registered meanwhile and
  however early it is due.
\<close>

theorem registration_does_not_shorten_the_wait:
  assumes "ps_pc s = Wait_Until w" and "limit < w" and "psched_run limit s s'"
  shows "ps_ran s' = ps_ran s"
proof -
  have "ps_ran s' = ps_ran s \<and> (ps_pc s' = Wait_Until w \<or> ps_pc s' = Loop_Done)"
    using assms(3,1,2)
  proof (induction rule: psched_run.induct)
    case (pr_step s s1 now s2)
    then have IH: "ps_ran s1 = ps_ran s" "ps_pc s1 = Wait_Until w \<or> ps_pc s1 = Loop_Done" by auto
    from pr_step.hyps(3) show ?case
      by cases (use IH pr_step.hyps(2) pr_step.prems in \<open>auto simp: PeriodicalTaskScheduler_Stop_def\<close>)
  qed simp
  then show ?thesis ..
qed

lemma registration_does_not_shorten_the_wait_witness:
  "\<exists>s' :: nat psched. pt_next_run_ms (ps_tasks s' ! 1) = 100
     \<and> ps_ran s' = ps_ran \<lparr>ps_tasks = [\<lparr>pt_fn = 1::nat, pt_interval_ms = 500, pt_next_run_ms = 500\<rparr>],
         ps_stop_requested = False, ps_stopped = False, ps_pc = Wait_Until 500, ps_ran = []\<rparr>"
proof -
  define s :: "nat psched" where "s = \<lparr>ps_tasks = [\<lparr>pt_fn = 1, pt_interval_ms = 500, pt_next_run_ms = 500\<rparr>],
      ps_stop_requested = False, ps_stopped = False, ps_pc = Wait_Until 500, ps_ran = []\<rparr>"
  define s' where "s' = s\<lparr>ps_tasks := PeriodicalTaskScheduler_Register 0 2 100 (ps_tasks s)\<rparr>"
  have run: "psched_run 499 s s'"
    unfolding s'_def by (rule pr_step [OF pr_refl _ ps_register]) simp
  have "ps_ran s' = ps_ran s"
    by (rule registration_does_not_shorten_the_wait [OF _ _ run, of 500]) (simp_all add: s_def)
  then show ?thesis
    by (intro exI [of _ s']) (simp add: s'_def s_def PeriodicalTaskScheduler_Register_def)
qed

end
