(* ===== verification/Broker.thy ===== *)
theory Broker
  imports Messages Periodic
begin

text \<open>
  \<open>MessageBroker\<close> of \<open>network.cc\<close>: the cluster membership kept by gossip and heartbeats, the
  requests to other nodes that wait for a response, the replies that wait for a peer to be
  discovered, and the waiters for a cluster state. The broker runs as an actor, so each of
  its methods is one function of the state that nothing interrupts; a coroutine is one
  function up to its \<open>co_await\<close> and one after it, and the code between is other methods.
  The clock is an argument (\<open>now\<close>), one for each reading. Messages sent are appended to
  \<open>br_wire\<close> with the socket they were sent on.
\<close>

section \<open>State\<close>

record network_config =
  nc_heartbeat_timeout_ms :: u64
  nc_gossip_interval_ms :: u64
  nc_gossip_fanout :: u64

record cluster_config =
  cl_listen_address :: string
  cl_contact_node_address :: string
  cl_network_config :: network_config
  cl_node_name :: string

record node_info =
  ni_node_id :: u64
  ni_address :: string
  ni_node_name :: string

type_synonym cluster_state = "node_info list"

text \<open>
  The count of a semaphore created with 1; \<open>Acquire(1)\<close> on it completes the coroutine that
  waits for it. The identity of a waiter is its place in the \<open>std::list\<close>, here a number.
\<close>

record cluster_state_waiter =
  wt_id :: nat
  wt_sem :: int
  wt_deadline_ms :: u64
  wt_condition_met :: bool
  wt_predicate :: "cluster_state \<Rightarrow> bool"

record outstanding_request =
  or_sem :: int
  or_response_bytes :: bytes
  or_exception_ptr :: "exa_error option"
  or_response_node_id :: u64

record reply_operation =
  ro_request_node_id :: u64
  ro_request_id :: u64
  ro_data :: bytes

text \<open>A ZMQ socket: the endpoint it is connected to and the options the code sets.\<close>

record socket =
  sk_endpoint :: "string option"
  sk_linger :: int
  sk_sndhwm :: int

datatype broker_task = Task_BroadcastGossip | Task_CheckHeartbeatTimeout | Task_CheckClusterStateWaiterTimeout

record broker =
  br_this_node_id :: u64
  br_cluster_config :: cluster_config
  br_send_request_id_counter :: u64
  br_deferred_replies :: "(u64, reply_operation list) hmap"
  br_outstanding_requests :: "(u64, outstanding_request) hmap"
  br_stopped :: bool
  br_nodes :: "(u64, node_state) hmap"
  br_waiters :: "cluster_state_waiter list"
  br_next_waiter :: nat
  br_contact_socket :: "socket option"
  br_contact_last_build_ms :: u64
  br_contact_discovered :: bool
  br_sockets :: "(u64, socket) hmap"
  br_self_ref :: bool
  br_request_handler :: bool
  br_puller_running :: bool
  br_tasks :: "broker_task psched option"
  br_wire :: "(socket \<times> bytes) list"

text \<open>
  The environment: the codec, and what ZMQ answers: whether binding or connecting to an
  address succeeds (otherwise \<open>zmq::error_t\<close> is thrown) and whether a non-blocking send on a
  socket is taken (otherwise \<open>send\<close> has no value). With \<open>sndhwm = 0\<close>, no limit, ZMQ documents
  that a connected socket takes every message: \<open>net_ok\<close>. Nothing is assumed of \<open>bind\<close> and
  \<open>connect\<close>.
\<close>

record broker_env =
  be_codec :: msg_codec
  be_bind_ok :: "string \<Rightarrow> bool"
  be_connect_ok :: "string \<Rightarrow> bool"
  be_send_ok :: "socket \<Rightarrow> bool"

definition net_ok :: "broker_env \<Rightarrow> bool" where
  "net_ok env \<longleftrightarrow> (\<forall>sk. sk_sndhwm sk = 0 \<and> sk_endpoint sk \<noteq> None \<longrightarrow> be_send_ok env sk)"

definition kDefaultHeartbeatTimeoutMs :: u64 where "kDefaultHeartbeatTimeoutMs = 10000"
definition kDefaultGossipIntervalMs :: u64 where "kDefaultGossipIntervalMs = 500"
definition kDefaultGossipFanout :: u64 where "kDefaultGossipFanout = 3"
definition kDefaultHeartbeatCheckIntervalMs :: u64 where "kDefaultHeartbeatCheckIntervalMs = 100"
definition kDefaultWaiterExpirationCheckIntervalMs :: u64 where "kDefaultWaiterExpirationCheckIntervalMs = 100"
definition kContactSocketRebuildCooldownMs :: u64 where "kContactSocketRebuildCooldownMs = 1000"
definition kDefaultSocketLingerMs :: int where "kDefaultSocketLingerMs = 1000"

definition NetworkConfig_default :: network_config where
  "NetworkConfig_default = \<lparr>nc_heartbeat_timeout_ms = kDefaultHeartbeatTimeoutMs,
     nc_gossip_interval_ms = kDefaultGossipIntervalMs, nc_gossip_fanout = kDefaultGossipFanout\<rparr>"

section \<open>Sockets\<close>

definition ZmqSendOrDie :: "broker_env \<Rightarrow> socket \<Rightarrow> bytes \<Rightarrow> (broker, unit) eff" where
  "ZmqSendOrDie env sk buf =
     thenE (exa_throw_check (be_send_ok env sk) ''ZMQ send failed unexpectedly (sndhwm should be unlimited)'')
           (modE (\<lambda>b. b\<lparr>br_wire := br_wire b @ [(sk, buf)]\<rparr>))"

text \<open>\<open>zmq::socket_t(context, dealer)\<close> and the two options; \<open>connect\<close> may throw.\<close>

definition dealer_socket :: socket where
  "dealer_socket = \<lparr>sk_endpoint = None, sk_linger = kDefaultSocketLingerMs, sk_sndhwm = 0\<rparr>"

definition ConnectContactSendSocket :: "broker_env \<Rightarrow> u64 \<Rightarrow> (broker, unit) eff" where
  "ConnectContactSendSocket env now =
     bindE (getE (cl_contact_node_address \<circ> br_cluster_config)) (\<lambda>addr.
     thenE (modE (\<lambda>b. b\<lparr>br_contact_socket := Some dealer_socket\<rparr>))
     (if \<not> be_connect_ok env addr then throwE (Zmq_Error addr)
      else modE (\<lambda>b. b\<lparr>br_contact_socket := Some (dealer_socket\<lparr>sk_endpoint := Some addr\<rparr>),
                      br_contact_last_build_ms := now\<rparr>)))"

section \<open>Construction, start and stop\<close>

text \<open>The members before the body of the constructor runs.\<close>

definition MessageBroker_init :: "u64 \<Rightarrow> cluster_config \<Rightarrow> broker" where
  "MessageBroker_init this_node_id config =
     \<lparr>br_this_node_id = this_node_id, br_cluster_config = config, br_send_request_id_counter = 0,
      br_deferred_replies = [], br_outstanding_requests = [], br_stopped = False, br_nodes = [],
      br_waiters = [], br_next_waiter = 0, br_contact_socket = None, br_contact_last_build_ms = 0,
      br_contact_discovered = False, br_sockets = [], br_self_ref = False, br_request_handler = False,
      br_puller_running = False, br_tasks = None, br_wire = []\<rparr>"

definition MessageBroker_ctor :: "broker_env \<Rightarrow> u64 \<Rightarrow> u64 \<Rightarrow> (broker, unit) eff" where
  "MessageBroker_ctor env now1 now2 =
     bindE (getE br_cluster_config) (\<lambda>config.
     thenE (exa_throw_check (cl_listen_address config \<noteq> []) ''listen_address must not be empty'')
     (thenE (modE (\<lambda>b. b\<lparr>br_nodes := AList.update (br_this_node_id b)
               \<lparr>ns_last_seen_timestamp_ms = now1, ns_node_id = br_this_node_id b,
                ns_address = cl_listen_address config, ns_node_name = cl_node_name config\<rparr> (br_nodes b)\<rparr>))
     (if cl_contact_node_address config \<noteq> [] then
        thenE (exa_throw_check_ne (cl_contact_node_address config) (cl_listen_address config) [])
              (ConnectContactSendSocket env now2)
      else retE ())))"

definition MessageBroker_ExActorOnSpawned :: "(broker, unit) eff" where
  "MessageBroker_ExActorOnSpawned = modE (\<lambda>b. b\<lparr>br_self_ref := True\<rparr>)"

definition StartRecvSocketPuller :: "broker_env \<Rightarrow> (broker, unit) eff" where
  "StartRecvSocketPuller env =
     bindE (getE (cl_listen_address \<circ> br_cluster_config)) (\<lambda>addr.
     if \<not> be_bind_ok env addr then throwE (Zmq_Error addr)
     else modE (\<lambda>b. b\<lparr>br_puller_running := True\<rparr>))"

definition StartPeriodicalTaskScheduler :: "u64 \<Rightarrow> (broker, unit) eff" where
  "StartPeriodicalTaskScheduler now =
     modE (\<lambda>b. let s = PeriodicalTaskScheduler_new;
                   t1 = PeriodicalTaskScheduler_Register now Task_BroadcastGossip
                     (nc_gossip_interval_ms (cl_network_config (br_cluster_config b))) (ps_tasks s);
                   t2 = PeriodicalTaskScheduler_Register now Task_CheckHeartbeatTimeout
                     kDefaultHeartbeatCheckIntervalMs t1;
                   t3 = PeriodicalTaskScheduler_Register now Task_CheckClusterStateWaiterTimeout
                     kDefaultWaiterExpirationCheckIntervalMs t2
               in b\<lparr>br_tasks := Some (s\<lparr>ps_tasks := t3\<rparr>)\<rparr>)"

definition MessageBroker_Start :: "broker_env \<Rightarrow> u64 \<Rightarrow> bool \<Rightarrow> (broker, unit) eff" where
  "MessageBroker_Start env now request_handler =
     bindE (getE br_self_ref) (\<lambda>has_self.
     thenE (exa_throw_check has_self ''ExActorOnSpawned() must be called before Start()'')
     (thenE (exa_throw_check request_handler ''request_handler must not be null'')
     (thenE (modE (\<lambda>b. b\<lparr>br_request_handler := request_handler\<rparr>))
     (thenE (StartRecvSocketPuller env) (StartPeriodicalTaskScheduler now)))))"

text \<open>
  \<open>Stop\<close> before and after \<open>co_await async_scope_.join()\<close>. The sockets are closed with linger 0.
\<close>

definition MessageBroker_Stop_begin :: "(broker, unit) eff" where
  "MessageBroker_Stop_begin =
     modE (\<lambda>b. b\<lparr>br_tasks := map_option PeriodicalTaskScheduler_Stop (br_tasks b), br_puller_running := False\<rparr>)"

definition MessageBroker_Stop_end :: "(broker, unit) eff" where
  "MessageBroker_Stop_end =
     thenE (modE (\<lambda>b. b\<lparr>br_sockets := map (\<lambda>(n, sk). (n, sk\<lparr>sk_linger := 0\<rparr>)) (br_sockets b)\<rparr>))
     (thenE (modE (\<lambda>b. b\<lparr>br_sockets := [], br_contact_socket := None\<rparr>))
            (modE (\<lambda>b. b\<lparr>br_stopped := True\<rparr>)))"

section \<open>Cluster state waiters\<close>

definition BuildAliveNodeInfoList :: "broker \<Rightarrow> cluster_state" where
  "BuildAliveNodeInfoList b =
     map (\<lambda>(node_id, state). \<lparr>ni_node_id = node_id, ni_address = ns_address state, ni_node_name = ns_node_name state\<rparr>)
       (br_nodes b)"

definition EvaluateClusterStateWaiters :: "(broker, unit) eff" where
  "EvaluateClusterStateWaiters =
     modE (\<lambda>b. let state = BuildAliveNodeInfoList b in
       b\<lparr>br_waiters := map (\<lambda>w. if \<not> wt_condition_met w \<and> wt_predicate w state
                                then w\<lparr>wt_condition_met := True, wt_sem := wt_sem w - 1\<rparr> else w) (br_waiters b)\<rparr>)"

definition CheckClusterStateWaiterTimeout :: "u64 \<Rightarrow> (broker, unit) eff" where
  "CheckClusterStateWaiterTimeout now =
     modE (\<lambda>b. b\<lparr>br_waiters := map (\<lambda>w. if \<not> wt_condition_met w \<and> wt_deadline_ms w \<le> now
                                then w\<lparr>wt_sem := wt_sem w - 1\<rparr> else w) (br_waiters b)\<rparr>)"

text \<open>The result of a wait: the nodes, and whether the condition was met.\<close>

datatype wait_outcome = Wait_Returned cluster_state bool | Wait_Suspended nat

definition WaitClusterState_start ::
    "(cluster_state \<Rightarrow> bool) \<Rightarrow> u64 \<Rightarrow> u64 \<Rightarrow> (broker, wait_outcome) eff" where
  "WaitClusterState_start predicate timeout_ms now =
     bindE (getE BuildAliveNodeInfoList) (\<lambda>state.
     if predicate state then retE (Wait_Returned state True)
     else bindE (getE br_next_waiter) (\<lambda>i.
          thenE (modE (\<lambda>b. b\<lparr>br_next_waiter := Suc i, br_waiters := br_waiters b @
                  [\<lparr>wt_id = i, wt_sem = 1, wt_deadline_ms = now + timeout_ms, wt_condition_met = False,
                    wt_predicate = predicate\<rparr>]\<rparr>))
                (retE (Wait_Suspended i))))"

text \<open>The coroutine goes on when its semaphore is drained; \<open>None\<close> when it cannot.\<close>

definition find_waiter :: "nat \<Rightarrow> broker \<Rightarrow> cluster_state_waiter option" where
  "find_waiter i b = find (\<lambda>w. wt_id w = i) (br_waiters b)"

definition WaitClusterState_resume :: "nat \<Rightarrow> broker \<Rightarrow> ((cluster_state \<times> bool) \<times> broker) option" where
  "WaitClusterState_resume i b =
     (case find_waiter i b of
        None \<Rightarrow> None
      | Some w \<Rightarrow>
          if wt_sem w \<le> 0
          then Some ((BuildAliveNodeInfoList b, wt_condition_met w),
                     b\<lparr>br_waiters := filter (\<lambda>w. wt_id w \<noteq> i) (br_waiters b)\<rparr>)
          else None)"

section \<open>Requests and replies\<close>

definition SendTwoWayMessage :: "broker_env \<Rightarrow> u64 \<Rightarrow> bytes \<Rightarrow> (broker, u64) eff" where
  "SendTwoWayMessage env node_id data =
     bindE (getE br_send_request_id_counter) (\<lambda>request_id.
     thenE (modE (\<lambda>b. b\<lparr>br_send_request_id_counter := br_send_request_id_counter b + 1\<rparr>))
     (bindE (getE br_this_node_id) (\<lambda>this.
     let broker_msg = Two_Way \<lparr>tw_request_node_id = this, tw_response_node_id = node_id,
                               tw_request_id = request_id, tw_payload = data\<rparr> in
     bindE (getE br_sockets) (\<lambda>sockets.
     case map_of sockets node_id of
       None \<Rightarrow> throwE (Network_Error node_id ''trying to send request to an unconnected node'')
     | Some sk \<Rightarrow> thenE (ZmqSendOrDie env sk (enc_broker (be_codec env) broker_msg)) (retE request_id)))))"

definition SendReply :: "broker_env \<Rightarrow> u64 \<Rightarrow> u64 \<Rightarrow> bytes \<Rightarrow> (broker, unit) eff" where
  "SendReply env request_node_id request_id data =
     bindE (getE br_sockets) (\<lambda>sockets.
     case map_of sockets request_node_id of
       None \<Rightarrow>
         modE (\<lambda>b. b\<lparr>br_deferred_replies := AList.update request_node_id
           ((case map_of (br_deferred_replies b) request_node_id of None \<Rightarrow> [] | Some rs \<Rightarrow> rs)
             @ [\<lparr>ro_request_node_id = request_node_id, ro_request_id = request_id, ro_data = data\<rparr>])
           (br_deferred_replies b)\<rparr>)
     | Some sk \<Rightarrow>
         bindE (getE br_this_node_id) (\<lambda>this.
         ZmqSendOrDie env sk (enc_broker (be_codec env) (Two_Way
           \<lparr>tw_request_node_id = request_node_id, tw_response_node_id = this, tw_request_id = request_id,
            tw_payload = data\<rparr>))))"

text \<open>\<open>SendRequest\<close> up to the wait for its semaphore; the result names the entry it waits on.\<close>

definition SendRequest_start :: "broker_env \<Rightarrow> u64 \<Rightarrow> bytes \<Rightarrow> (broker, u64) eff" where
  "SendRequest_start env to_node_id data =
     bindE (getE br_this_node_id) (\<lambda>this.
     thenE (exa_throw_check_ne to_node_id this ''Cannot send message to current node'')
     (bindE (SendTwoWayMessage env to_node_id data) (\<lambda>request_id.
      bindE (getE (\<lambda>b. \<not> hm_contains (br_outstanding_requests b) request_id)) (\<lambda>inserted.
      thenE (exa_throw_check inserted [])
      (thenE (modE (\<lambda>b. b\<lparr>br_outstanding_requests := AList.update request_id
               \<lparr>or_sem = 1, or_response_bytes = [], or_exception_ptr = None, or_response_node_id = to_node_id\<rparr>
               (br_outstanding_requests b)\<rparr>))
             (retE request_id))))))"

definition SendRequest_resume :: "u64 \<Rightarrow> broker \<Rightarrow> ((exa_error + bytes) \<times> broker) option" where
  "SendRequest_resume request_id b =
     (case map_of (br_outstanding_requests b) request_id of
        None \<Rightarrow> None
      | Some request \<Rightarrow>
          if or_sem request \<le> 0
          then Some (case or_exception_ptr request of
                       Some e \<Rightarrow> Inl e
                     | None \<Rightarrow> Inr (or_response_bytes request),
                     b\<lparr>br_outstanding_requests := AList.delete request_id (br_outstanding_requests b)\<rparr>)
          else None)"

definition HandleRepliedResponse :: "broker_two_way_message \<Rightarrow> (broker, unit) eff" where
  "HandleRepliedResponse response_msg =
     bindE (getE (\<lambda>b. hm_contains (br_outstanding_requests b) (tw_request_id response_msg))) (\<lambda>found.
     if \<not> found then retE ()
     else modE (\<lambda>b. b\<lparr>br_outstanding_requests := hm_adjust (tw_request_id response_msg)
            (\<lambda>pending. pending\<lparr>or_response_bytes := tw_payload response_msg, or_sem := or_sem pending - 1\<rparr>)
            (br_outstanding_requests b)\<rparr>))"

text \<open>
  \<open>HandleIncomingRequest\<close>: the payload is handed to the request handler (outside the broker);
  \<open>HandleIncomingRequest_reply\<close> is what follows with the handler's data.
\<close>

definition HandleIncomingRequest_start :: "broker_two_way_message \<Rightarrow> (broker, broker_two_way_message) eff" where
  "HandleIncomingRequest_start request_msg =
     bindE (getE br_request_handler) (\<lambda>h.
     thenE (exa_throw_check h ''Request handler not set'') (retE request_msg))"

definition HandleIncomingRequest_reply :: "broker_env \<Rightarrow> broker_two_way_message \<Rightarrow> bytes \<Rightarrow> (broker, unit) eff" where
  "HandleIncomingRequest_reply env request_msg reply_data =
     SendReply env (tw_request_node_id request_msg) (tw_request_id request_msg) reply_data"

section \<open>Gossip and heartbeats\<close>

definition OnNodeAlive :: "broker_env \<Rightarrow> u64 \<Rightarrow> (broker, unit) eff" where
  "OnNodeAlive env node_id =
     bindE (getE br_nodes) (\<lambda>nodes.
     bindE (liftE (MapAt nodes node_id)) (\<lambda>new_node.
     thenE (modE (\<lambda>b. if ns_address new_node = cl_contact_node_address (br_cluster_config b)
                      then b\<lparr>br_contact_discovered := True\<rparr> else b))
     (thenE (modE (\<lambda>b. b\<lparr>br_sockets := AList.update (ns_node_id new_node) dealer_socket (br_sockets b)\<rparr>))
     (thenE (if \<not> be_connect_ok env (ns_address new_node) then throwE (Zmq_Error (ns_address new_node))
             else modE (\<lambda>b. b\<lparr>br_sockets := AList.update (ns_node_id new_node)
                    (dealer_socket\<lparr>sk_endpoint := Some (ns_address new_node)\<rparr>) (br_sockets b)\<rparr>))
     (thenE EvaluateClusterStateWaiters
     (bindE (getE (\<lambda>b. map_of (br_deferred_replies b) (ns_node_id new_node))) (\<lambda>node_handle.
     thenE (modE (\<lambda>b. b\<lparr>br_deferred_replies := AList.delete (ns_node_id new_node) (br_deferred_replies b)\<rparr>))
     (case node_handle of
        None \<Rightarrow> retE ()
      | Some replies \<Rightarrow>
          forE (\<lambda>reply. SendReply env (ro_request_node_id reply) (ro_request_id reply) (ro_data reply)) replies))))))))"

definition OnNodeConnectionLost :: "u64 \<Rightarrow> (broker, unit) eff" where
  "OnNodeConnectionLost node_id =
     thenE (modE (\<lambda>b. b\<lparr>br_outstanding_requests := map (\<lambda>(request_id, request).
              (request_id, if or_response_node_id request = node_id
                 then request\<lparr>or_exception_ptr := Some (Network_Error node_id ''Node is dead, cannot complete request''),
                              or_sem := or_sem request - 1\<rparr>
                 else request)) (br_outstanding_requests b)\<rparr>))
     (thenE (modE (\<lambda>b. case map_of (br_nodes b) node_id of
              None \<Rightarrow> b
            | Some state \<Rightarrow>
                (if ns_address state = cl_contact_node_address (br_cluster_config b)
                 then b\<lparr>br_contact_discovered := False\<rparr> else b)
                \<lparr>br_nodes := AList.delete node_id (br_nodes b)\<rparr>))
     (thenE (modE (\<lambda>b. b\<lparr>br_sockets := AList.delete node_id (br_sockets b)\<rparr>))
            EvaluateClusterStateWaiters))"

text \<open>The body of the loop of \<open>HandleGossipMessage\<close>, for one incoming node state.\<close>

definition HandleGossip_one :: "broker_env \<Rightarrow> node_state \<Rightarrow> (broker, unit) eff" where
  "HandleGossip_one env incoming =
     bindE (getE br_nodes) (\<lambda>nodes.
     case map_of nodes (ns_node_id incoming) of
       None \<Rightarrow>
         thenE (modE (\<lambda>b. b\<lparr>br_nodes := AList.update (ns_node_id incoming) incoming (br_nodes b)\<rparr>))
               (OnNodeAlive env (ns_node_id incoming))
     | Some cur \<Rightarrow>
         thenE (exa_throw_check_eq (ns_address cur) (ns_address incoming) ''conflicting address'')
         (thenE (exa_throw_check_eq (ns_node_name cur) (ns_node_name incoming) ''conflicting node_name'')
         (modE (\<lambda>b. b\<lparr>br_nodes := hm_adjust (ns_node_id incoming)
            (\<lambda>cur. cur\<lparr>ns_last_seen_timestamp_ms :=
               max (ns_last_seen_timestamp_ms cur) (ns_last_seen_timestamp_ms incoming)\<rparr>) (br_nodes b)\<rparr>))))"

definition HandleGossipMessage :: "broker_env \<Rightarrow> broker_gossip_message \<Rightarrow> (broker, unit) eff" where
  "HandleGossipMessage env gossip_message = forE (HandleGossip_one env) (gm_node_states gossip_message)"

definition heartbeat_expired :: "broker \<Rightarrow> u64 \<Rightarrow> u64 \<times> node_state \<Rightarrow> bool" where
  "heartbeat_expired b now_ms = (\<lambda>(node_id, state).
     \<not> (node_id = br_this_node_id b
        \<or> ns_last_seen_timestamp_ms state \<ge> now_ms
        \<or> now_ms - ns_last_seen_timestamp_ms state
            < nc_heartbeat_timeout_ms (cl_network_config (br_cluster_config b))))"

definition CheckHeartbeatTimeout :: "u64 \<Rightarrow> (broker, unit) eff" where
  "CheckHeartbeatTimeout now_ms =
     bindE (getE (\<lambda>b. map fst (filter (heartbeat_expired b now_ms) (br_nodes b)))) (\<lambda>nodes_to_remove.
     forE OnNodeConnectionLost nodes_to_remove)"

text \<open>\<open>std::shuffle\<close> with the numbers the generator draws: position \<open>i\<close> is exchanged with an earlier one.\<close>

fun shuffle_from :: "nat \<Rightarrow> nat list \<Rightarrow> 'a list \<Rightarrow> 'a list" where
  "shuffle_from i [] xs = xs"
| "shuffle_from i (d # ds) xs =
     (if i < length xs
      then let j = d mod Suc i in shuffle_from (Suc i) ds (xs[i := xs ! j, j := xs ! i])
      else xs)"

definition GetRandomPeers :: "nat list \<Rightarrow> u64 \<Rightarrow> (broker, u64 list) eff" where
  "GetRandomPeers draws fanout =
     thenE (exa_throw_check_gt fanout 0 [])
     (bindE (getE (\<lambda>b. filter (\<lambda>node_id. node_id \<noteq> br_this_node_id b) (map fst (br_nodes b)))) (\<lambda>node_ids.
      let shuffled = shuffle_from 1 draws node_ids in
      retE (if unat fanout < length shuffled then take (unat fanout) shuffled else shuffled)))"

text \<open>\<open>BroadcastGossip\<close>: the body of its loop over the peers, the part for the contact node, and the whole.\<close>

definition gossip_to_peer :: "broker_env \<Rightarrow> bytes \<Rightarrow> u64 \<Rightarrow> (broker, unit) eff" where
  "gossip_to_peer env serialized node_id =
     bindE (getE (\<lambda>b. MapAt (br_nodes b) node_id)) (\<lambda>node_state. bindE (liftE node_state) (\<lambda>_.
     bindE (getE (\<lambda>b. MapAt (br_sockets b) node_id)) (\<lambda>found. bindE (liftE found) (\<lambda>sk.
     ZmqSendOrDie env sk serialized))))"

definition gossip_to_contact :: "broker_env \<Rightarrow> u64 \<Rightarrow> u64 \<Rightarrow> bytes \<Rightarrow> (broker, unit) eff" where
  "gossip_to_contact env now2 now3 serialized =
     bindE (getE br_contact_socket) (\<lambda>contact.
     case contact of
       None \<Rightarrow> retE ()
     | Some _ \<Rightarrow>
         bindE (getE (\<lambda>b. \<not> br_contact_discovered b
                     \<and> now2 - br_contact_last_build_ms b \<ge> kContactSocketRebuildCooldownMs)) (\<lambda>rebuild.
         thenE (if rebuild then ConnectContactSendSocket env now3 else retE ())
         (bindE (getE br_contact_socket) (\<lambda>contact.
          case contact of None \<Rightarrow> retE () | Some sk \<Rightarrow> ZmqSendOrDie env sk serialized))))"

definition BroadcastGossip :: "broker_env \<Rightarrow> nat list \<Rightarrow> u64 \<Rightarrow> u64 \<Rightarrow> u64 \<Rightarrow> (broker, unit) eff" where
  "BroadcastGossip env draws now1 now2 now3 =
     bindE (getE (\<lambda>b. MapAt (br_nodes b) (br_this_node_id b))) (\<lambda>self. bindE (liftE self) (\<lambda>_.
     thenE (modE (\<lambda>b. b\<lparr>br_nodes := hm_adjust (br_this_node_id b)
             (\<lambda>n. n\<lparr>ns_last_seen_timestamp_ms := now1\<rparr>) (br_nodes b)\<rparr>))
     (bindE (getE (nc_gossip_fanout \<circ> cl_network_config \<circ> br_cluster_config)) (\<lambda>fanout.
      bindE (GetRandomPeers draws fanout) (\<lambda>node_ids.
      bindE (getE (\<lambda>b. enc_broker (be_codec env)
               (Gossip \<lparr>gm_from_node_id = br_this_node_id b, gm_node_states = map snd (br_nodes b)\<rparr>))) (\<lambda>serialized.
      thenE (forE (gossip_to_peer env serialized) node_ids)
            (gossip_to_contact env now2 now3 serialized)))))))"

section \<open>Dispatch\<close>

text \<open>
  \<open>DispatchReceivedMessage\<close>; a request goes on in the request handler (\<open>Dispatch_Handle\<close>).
\<close>

datatype dispatch_outcome = Dispatch_Done | Dispatch_Handle broker_two_way_message

definition DispatchReceivedMessage :: "broker_env \<Rightarrow> bytes \<Rightarrow> (broker, dispatch_outcome) eff" where
  "DispatchReceivedMessage env raw =
     bindE (liftE (dec_broker (be_codec env) raw)) (\<lambda>broker_msg.
     case broker_msg of
       Gossip gossip \<Rightarrow> thenE (HandleGossipMessage env gossip) (retE Dispatch_Done)
     | Two_Way two_way \<Rightarrow>
         bindE (getE br_this_node_id) (\<lambda>this.
         if tw_request_node_id two_way = this then thenE (HandleRepliedResponse two_way) (retE Dispatch_Done)
         else if tw_response_node_id two_way = this then
           bindE (HandleIncomingRequest_start two_way) (\<lambda>m. retE (Dispatch_Handle m))
         else exa_throw ''Received two-way message not addressed to this node''))"

end
