(* ===== verification/Broker_Inv.thy ===== *)
theory Broker_Inv
  imports Broker
begin

text \<open>
  The invariant of the broker and its preservation by every method, then what the methods
  do: membership, gossip, heartbeats, waiters, deferred replies.
\<close>

section \<open>The invariant\<close>

definition connected_to :: "node_state \<Rightarrow> socket" where
  "connected_to st = dealer_socket\<lparr>sk_endpoint := Some (ns_address st)\<rparr>"

text \<open>Every known node but this one has a connected socket, and only those.\<close>

definition members_inv :: "broker \<Rightarrow> bool" where
  "members_inv b \<longleftrightarrow> hm_ok (br_nodes b) \<and> hm_ok (br_sockets b)
     \<and> br_this_node_id b \<in> dom (map_of (br_nodes b))
     \<and> (\<forall>n st. map_of (br_nodes b) n = Some st \<longrightarrow> ns_node_id st = n)
     \<and> br_this_node_id b \<notin> dom (map_of (br_sockets b))
     \<and> (\<forall>n. n \<noteq> br_this_node_id b \<longrightarrow>
          map_of (br_sockets b) n = map_option connected_to (map_of (br_nodes b) n))"

text \<open>The flag is set only while a node with the contact's address is known.\<close>

definition contact_inv :: "broker \<Rightarrow> bool" where
  "contact_inv b \<longleftrightarrow> (br_contact_discovered b \<longrightarrow> (\<exists>n st. n \<noteq> br_this_node_id b
     \<and> map_of (br_nodes b) n = Some st \<and> ns_address st = cl_contact_node_address (br_cluster_config b)))"

text \<open>A waiter whose condition holds now has been told so.\<close>

definition waiters_inv :: "broker \<Rightarrow> bool" where
  "waiters_inv b \<longleftrightarrow> (\<forall>w \<in> set (br_waiters b).
     (wt_predicate w (BuildAliveNodeInfoList b) \<longrightarrow> wt_condition_met w)
     \<and> (wt_condition_met w \<longrightarrow> wt_sem w \<le> 0) \<and> wt_sem w \<le> 1 \<and> wt_id w < br_next_waiter b)
   \<and> distinct (map wt_id (br_waiters b))"

text \<open>Replies are deferred only for nodes that are not connected, and kept under their node.\<close>

definition deferred_inv :: "broker \<Rightarrow> bool" where
  "deferred_inv b \<longleftrightarrow> hm_ok (br_deferred_replies b)
     \<and> (\<forall>n rs. map_of (br_deferred_replies b) n = Some rs \<longrightarrow>
          map_of (br_sockets b) n = None \<and> (\<forall>r \<in> set rs. ro_request_node_id r = n))"

text \<open>A request that has neither a response nor an error waits for a connected node.\<close>

definition requests_inv :: "broker \<Rightarrow> bool" where
  "requests_inv b \<longleftrightarrow> hm_ok (br_outstanding_requests b)
     \<and> (\<forall>i r. map_of (br_outstanding_requests b) i = Some r \<longrightarrow> or_sem r \<le> 1
          \<and> (0 < or_sem r \<longrightarrow> or_exception_ptr r = None \<and> map_of (br_sockets b) (or_response_node_id r) \<noteq> None))"

text \<open>The contact socket, when there is one, is connected.\<close>

definition contact_socket_inv :: "broker \<Rightarrow> bool" where
  "contact_socket_inv b \<longleftrightarrow> (\<forall>sk. br_contact_socket b = Some sk \<longrightarrow>
     sk = dealer_socket\<lparr>sk_endpoint := Some (cl_contact_node_address (br_cluster_config b))\<rparr>)"

definition broker_inv :: "broker \<Rightarrow> bool" where
  "broker_inv b \<longleftrightarrow> members_inv b \<and> contact_inv b \<and> waiters_inv b \<and> deferred_inv b \<and> requests_inv b
     \<and> contact_socket_inv b"

lemmas broker_inv_defs = broker_inv_def members_inv_def contact_inv_def waiters_inv_def deferred_inv_def
  requests_inv_def contact_socket_inv_def

section \<open>Single effects\<close>

text \<open>
  Methods that keep a property unless \<open>connect\<close> has thrown. The tasks that connect are spawned with
  \<open>DiscardResult\<close>, which ends the process when an exception leaves them.
\<close>

definition survives :: "(broker \<Rightarrow> bool) \<Rightarrow> (broker, 'a) eff \<Rightarrow> bool" where
  "survives Q f \<longleftrightarrow> (\<forall>b r b'. Q b \<longrightarrow> f b = (r, b') \<longrightarrow> (\<forall>a. r \<noteq> Inl (Zmq_Error a)) \<longrightarrow> Q b')"

lemma survivesI: "(\<And>b r b'. Q b \<Longrightarrow> f b = (r, b') \<Longrightarrow> (\<And>a. r \<noteq> Inl (Zmq_Error a)) \<Longrightarrow> Q b') \<Longrightarrow> survives Q f"
  by (auto simp: survives_def)

lemma survivesD: "survives Q f \<Longrightarrow> Q b \<Longrightarrow> f b = (r, b') \<Longrightarrow> \<forall>a. r \<noteq> Inl (Zmq_Error a) \<Longrightarrow> Q b'"
  by (auto simp: survives_def)

lemma preserves_survives: "preserves Q f \<Longrightarrow> survives Q f"
  by (auto simp: survives_def preserves_def)

lemma survives_bindE:
  assumes f: "survives Q f" and g: "\<And>x. survives Q (g x)"
  shows "survives Q (bindE f g)"
proof (rule survivesI)
  fix b r b'
  assume b: "Q b" and run: "bindE f g b = (r, b')" and alive: "\<And>a. r \<noteq> Inl (Zmq_Error a)"
  obtain r1 b1 where fb: "f b = (r1, b1)" by fastforce
  show "Q b'"
  proof (cases r1)
    case (Inl e)
    then show ?thesis using survivesD [OF f b fb] run fb alive by (auto simp: bindE_def)
  next
    case (Inr x)
    then show ?thesis using survivesD [OF f b fb] survivesD [OF g, of b1 x r b'] run fb alive by (auto simp: bindE_def)
  qed
qed

lemma survives_thenE: "survives Q f \<Longrightarrow> survives Q g \<Longrightarrow> survives Q (thenE f g)"
  by (simp add: thenE_def survives_bindE)

lemma survives_forE: "(\<And>x. survives Q (f x)) \<Longrightarrow> survives Q (forE f xs)"
  by (induction xs) (simp_all add: survives_thenE preserves_survives preserves_retE)

lemma net_okD: "net_ok env \<Longrightarrow> be_send_ok env (dealer_socket\<lparr>sk_endpoint := Some a\<rparr>)"
  "net_ok env \<Longrightarrow> be_send_ok env (connected_to st)"
  by (simp_all add: net_ok_def dealer_socket_def connected_to_def)

lemma ZmqSendOrDie_run:
  "be_send_ok env sk \<Longrightarrow> ZmqSendOrDie env sk buf b = (Inr (), b\<lparr>br_wire := br_wire b @ [(sk, buf)]\<rparr>)"
  by (simp add: ZmqSendOrDie_def eff_defs)

lemma ZmqSendOrDie_fail:
  "\<not> be_send_ok env sk \<Longrightarrow> ZmqSendOrDie env sk buf b
     = (Inl (Throw_Stream ''ZMQ send failed unexpectedly (sndhwm should be unlimited)''), b)"
  by (simp add: ZmqSendOrDie_def eff_defs)

lemma BuildAlive_simps [simp]:
  "BuildAliveNodeInfoList (b\<lparr>br_wire := x1\<rparr>) = BuildAliveNodeInfoList b"
  "BuildAliveNodeInfoList (b\<lparr>br_sockets := x2\<rparr>) = BuildAliveNodeInfoList b"
  "BuildAliveNodeInfoList (b\<lparr>br_contact_discovered := x3\<rparr>) = BuildAliveNodeInfoList b"
  "BuildAliveNodeInfoList (b\<lparr>br_waiters := x4\<rparr>) = BuildAliveNodeInfoList b"
  "BuildAliveNodeInfoList (b\<lparr>br_next_waiter := x5\<rparr>) = BuildAliveNodeInfoList b"
  "BuildAliveNodeInfoList (b\<lparr>br_deferred_replies := x6\<rparr>) = BuildAliveNodeInfoList b"
  "BuildAliveNodeInfoList (b\<lparr>br_outstanding_requests := x7\<rparr>) = BuildAliveNodeInfoList b"
  "BuildAliveNodeInfoList (b\<lparr>br_send_request_id_counter := x8\<rparr>) = BuildAliveNodeInfoList b"
  "BuildAliveNodeInfoList (b\<lparr>br_contact_socket := x9\<rparr>) = BuildAliveNodeInfoList b"
  "BuildAliveNodeInfoList (b\<lparr>br_contact_last_build_ms := x10\<rparr>) = BuildAliveNodeInfoList b"
  by (simp_all add: BuildAliveNodeInfoList_def)

lemma inv_wire [simp]: "broker_inv (b\<lparr>br_wire := w\<rparr>) = broker_inv b"
  by (simp add: broker_inv_defs)

lemma inv_counter [simp]: "broker_inv (b\<lparr>br_send_request_id_counter := c\<rparr>) = broker_inv b"
  by (simp add: broker_inv_defs)

text \<open>Updating the time stamp of a node changes no invariant and no cluster state.\<close>

definition touch :: "u64 \<Rightarrow> (u64 \<Rightarrow> u64) \<Rightarrow> broker \<Rightarrow> broker" where
  "touch n f b = b\<lparr>br_nodes := hm_adjust n
     (\<lambda>s. s\<lparr>ns_last_seen_timestamp_ms := f (ns_last_seen_timestamp_ms s)\<rparr>) (br_nodes b)\<rparr>"

lemma BuildAlive_touch [simp]: "BuildAliveNodeInfoList (touch n f b) = BuildAliveNodeInfoList b"
  by (auto simp: BuildAliveNodeInfoList_def touch_def hm_adjust_def)

lemma connected_to_touch [simp]: "connected_to (s\<lparr>ns_last_seen_timestamp_ms := t\<rparr>) = connected_to s"
  by (simp add: connected_to_def)

lemma touch_fields [simp]:
  "br_this_node_id (touch n f b) = br_this_node_id b" "br_sockets (touch n f b) = br_sockets b"
  "br_cluster_config (touch n f b) = br_cluster_config b" "br_contact_discovered (touch n f b) = br_contact_discovered b"
  "br_waiters (touch n f b) = br_waiters b" "br_next_waiter (touch n f b) = br_next_waiter b"
  "br_deferred_replies (touch n f b) = br_deferred_replies b"
  "br_outstanding_requests (touch n f b) = br_outstanding_requests b"
  "br_contact_socket (touch n f b) = br_contact_socket b" "br_wire (touch n f b) = br_wire b"
  "br_contact_last_build_ms (touch n f b) = br_contact_last_build_ms b"
  by (simp_all add: touch_def)

lemma map_of_touch: "map_of (br_nodes (touch n f b)) m =
    map_option (\<lambda>s. if m = n then s\<lparr>ns_last_seen_timestamp_ms := f (ns_last_seen_timestamp_ms s)\<rparr> else s)
      (map_of (br_nodes b) m)"
  by (cases "map_of (br_nodes b) m") (auto simp: touch_def map_of_adjust)

lemma members_touch: "members_inv b \<Longrightarrow> members_inv (touch n f b)"
  by (auto simp: members_inv_def map_of_touch map_option.compositionality comp_def if_distrib
      split: option.splits cong: if_cong)
    (auto simp: touch_def)

lemma contact_touch: "contact_inv b \<Longrightarrow> contact_inv (touch n f b)"
proof -
  assume inv: "contact_inv b"
  have "\<exists>st'. map_of (br_nodes (touch n f b)) m = Some st' \<and> ns_address st' = ns_address st"
    if "map_of (br_nodes b) m = Some st" for m st
    using that by (simp add: map_of_touch)
  with inv show ?thesis unfolding contact_inv_def by (simp, metis)
qed

lemma inv_touch: "broker_inv b \<Longrightarrow> broker_inv (touch n f b)"
  using members_touch contact_touch
  by (auto simp: broker_inv_def waiters_inv_def deferred_inv_def requests_inv_def contact_socket_inv_def)

section \<open>Preservation, method by method\<close>

definition evaluated :: "broker \<Rightarrow> broker" where
  "evaluated b = snd (EvaluateClusterStateWaiters b)"

lemma Evaluate_run: "EvaluateClusterStateWaiters b = (Inr (), evaluated b)"
  by (simp add: evaluated_def EvaluateClusterStateWaiters_def modE_def)

lemma evaluated_fields [simp]:
  "br_this_node_id (evaluated b) = br_this_node_id b" "br_sockets (evaluated b) = br_sockets b"
  "br_nodes (evaluated b) = br_nodes b" "br_next_waiter (evaluated b) = br_next_waiter b"
  "br_cluster_config (evaluated b) = br_cluster_config b" "br_contact_discovered (evaluated b) = br_contact_discovered b"
  "br_deferred_replies (evaluated b) = br_deferred_replies b" "br_wire (evaluated b) = br_wire b"
  "br_outstanding_requests (evaluated b) = br_outstanding_requests b"
  "br_contact_socket (evaluated b) = br_contact_socket b"
  "br_send_request_id_counter (evaluated b) = br_send_request_id_counter b"
  by (simp_all add: evaluated_def EvaluateClusterStateWaiters_def modE_def Let_def)

lemma BuildAlive_evaluated [simp]: "BuildAliveNodeInfoList (evaluated b) = BuildAliveNodeInfoList b"
  by (simp add: BuildAliveNodeInfoList_def)

text \<open>What the waiters need of the state before: the part that does not mention the nodes.\<close>

definition waiters_pre :: "broker \<Rightarrow> bool" where
  "waiters_pre b \<longleftrightarrow> (\<forall>w \<in> set (br_waiters b). (wt_condition_met w \<longrightarrow> wt_sem w \<le> 0)
       \<and> wt_sem w \<le> 1 \<and> wt_id w < br_next_waiter b)
     \<and> distinct (map wt_id (br_waiters b))"

lemma waiters_pre: "waiters_inv b \<Longrightarrow> waiters_pre b"
  by (auto simp: waiters_inv_def waiters_pre_def)

lemma waiters_evaluated: "waiters_pre b \<Longrightarrow> waiters_inv (evaluated b)"
proof -
  assume pre: "waiters_pre b"
  define g where "g = (\<lambda>w :: cluster_state_waiter. if \<not> wt_condition_met w \<and> wt_predicate w (BuildAliveNodeInfoList b)
      then w\<lparr>wt_condition_met := True, wt_sem := wt_sem w - 1\<rparr> else w)"
  have w: "br_waiters (evaluated b) = map g (br_waiters b)"
    by (simp add: evaluated_def EvaluateClusterStateWaiters_def modE_def Let_def g_def)
  have ids: "map wt_id (map g (br_waiters b)) = map wt_id (br_waiters b)" by (simp add: g_def)
  have "\<forall>w \<in> set (map g (br_waiters b)). (wt_predicate w (BuildAliveNodeInfoList b) \<longrightarrow> wt_condition_met w)
     \<and> (wt_condition_met w \<longrightarrow> wt_sem w \<le> 0) \<and> wt_sem w \<le> 1 \<and> wt_id w < br_next_waiter b"
    using pre by (auto simp: waiters_pre_def g_def)
  then show ?thesis
    using pre unfolding waiters_inv_def w ids by (simp add: waiters_pre_def)
qed

text \<open>\<open>OnNodeAlive\<close> for a node just inserted.\<close>

definition flush_messages :: "broker_env \<Rightarrow> u64 \<Rightarrow> node_state \<Rightarrow> reply_operation list \<Rightarrow> (socket \<times> bytes) list" where
  "flush_messages env this st replies = map (\<lambda>r. (connected_to st, enc_broker (be_codec env) (Two_Way
     \<lparr>tw_request_node_id = ro_request_node_id r, tw_response_node_id = this,
      tw_request_id = ro_request_id r, tw_payload = ro_data r\<rparr>))) replies"

lemma SendReply_connected:
  assumes "be_send_ok env sk" and "map_of (br_sockets b) n = Some sk"
  shows "SendReply env n i d b = (Inr (), b\<lparr>br_wire := br_wire b @ [(sk, enc_broker (be_codec env) (Two_Way
     \<lparr>tw_request_node_id = n, tw_response_node_id = br_this_node_id b, tw_request_id = i, tw_payload = d\<rparr>))]\<rparr>)"
  using assms by (simp add: SendReply_def bindE_def getE_def ZmqSendOrDie_run)

lemma SendReplies_connected:
  assumes "net_ok env" and "map_of (br_sockets b) n = Some (connected_to st)"
    and "\<forall>r \<in> set replies. ro_request_node_id r = n"
  shows "forE (\<lambda>r. SendReply env (ro_request_node_id r) (ro_request_id r) (ro_data r)) replies b
     = (Inr (), b\<lparr>br_wire := br_wire b @ flush_messages env (br_this_node_id b) st replies\<rparr>)"
  using assms(2,3)
proof (induction replies arbitrary: b)
  case Nil
  then show ?case by (simp add: retE_def flush_messages_def)
next
  case (Cons r rs)
  then show ?case
    using SendReply_connected [OF net_okD(2) [OF assms(1)], of b n st]
    by (simp add: thenE_def bindE_def flush_messages_def)
qed

definition alive_state :: "broker_env \<Rightarrow> u64 \<Rightarrow> node_state \<Rightarrow> broker \<Rightarrow> broker" where
  "alive_state env n st b =
     (let b1 = (if ns_address st = cl_contact_node_address (br_cluster_config b)
                then b\<lparr>br_contact_discovered := True\<rparr> else b);
          b2 = evaluated (b1\<lparr>br_sockets := AList.update n (connected_to st) (br_sockets b1)\<rparr>);
          replies = (case map_of (br_deferred_replies b) n of None \<Rightarrow> [] | Some rs \<Rightarrow> rs)
      in b2\<lparr>br_deferred_replies := AList.delete n (br_deferred_replies b),
            br_wire := br_wire b @ flush_messages env (br_this_node_id b) st replies\<rparr>)"

lemma update_twice [simp]: "AList.update k v (AList.update k w xs) = AList.update k v xs"
  by (induction xs) auto

lemma OnNodeAlive_run:
  assumes net: "net_ok env" "be_connect_ok env (ns_address st)" and node: "map_of (br_nodes b) n = Some st" and id: "ns_node_id st = n"
    and deferred: "\<forall>rs. map_of (br_deferred_replies b) n = Some rs \<longrightarrow> (\<forall>r \<in> set rs. ro_request_node_id r = n)"
  shows "OnNodeAlive env n b = (Inr (), alive_state env n st b)"
proof -
  define b1 where "b1 = (if ns_address st = cl_contact_node_address (br_cluster_config b)
      then b\<lparr>br_contact_discovered := True\<rparr> else b)"
  define b2 where "b2 = evaluated (b1\<lparr>br_sockets := AList.update n (connected_to st) (br_sockets b1)\<rparr>)"
  define b3 where "b3 = b2\<lparr>br_deferred_replies := AList.delete n (br_deferred_replies b2)\<rparr>"
  have b1: "br_deferred_replies b1 = br_deferred_replies b" "br_wire b1 = br_wire b"
      "br_this_node_id b1 = br_this_node_id b" by (simp_all add: b1_def)
  have sock: "map_of (br_sockets b3) n = Some (connected_to st)" by (simp add: b3_def b2_def)
  have run: "OnNodeAlive env n b = (case map_of (br_deferred_replies b) n of None \<Rightarrow> retE ()
      | Some replies \<Rightarrow> forE (\<lambda>r. SendReply env (ro_request_node_id r) (ro_request_id r) (ro_data r)) replies) b3"
    using node id net(2)
    by (simp add: OnNodeAlive_def thenE_def bindE_def getE_def liftE_def MapAt_def modE_def Evaluate_run
        b1_def [symmetric] connected_to_def [symmetric] b1 b2_def [symmetric] b3_def)
      (simp add: b2_def b1)
  show ?thesis
  proof (cases "map_of (br_deferred_replies b) n")
    case None
    then show ?thesis using run
      by (simp add: retE_def alive_state_def Let_def flush_messages_def b1_def [symmetric] b2_def [symmetric] b3_def)
        (simp add: b2_def b1)
  next
    case (Some rs)
    then have "\<forall>r \<in> set rs. ro_request_node_id r = n" using deferred by blast
    from SendReplies_connected [OF net(1) sock this] show ?thesis using run Some
      by (simp add: alive_state_def Let_def b1_def [symmetric] b2_def [symmetric] b3_def)
        (simp add: b2_def b1)
  qed
qed

lemma alive_state_inv:
  assumes inv: "members_inv b0" "deferred_inv b0" "requests_inv b0" "contact_inv b0" "waiters_pre b0" "contact_socket_inv b0"
    and new: "map_of (br_nodes b0) n = None" and id: "ns_node_id st = n"
    and b: "b = b0\<lparr>br_nodes := AList.update n st (br_nodes b0)\<rparr>"
  shows "broker_inv (alive_state env n st b)"
proof -
  define b' where "b' = alive_state env n st b"
  have self: "n \<noteq> br_this_node_id b0" using inv(1) new by (auto simp: members_inv_def)
  have f: "br_nodes b' = AList.update n st (br_nodes b0)" "br_sockets b' = AList.update n (connected_to st) (br_sockets b0)"
      "br_this_node_id b' = br_this_node_id b0" "br_cluster_config b' = br_cluster_config b0"
      "br_deferred_replies b' = AList.delete n (br_deferred_replies b0)"
      "br_outstanding_requests b' = br_outstanding_requests b0" "br_contact_socket b' = br_contact_socket b0"
      "br_contact_discovered b' = (br_contact_discovered b0 \<or>
         ns_address st = cl_contact_node_address (br_cluster_config b0))"
    by (simp_all add: b'_def alive_state_def Let_def b)
  have "members_inv b'" using inv(1) new id self by (auto simp: members_inv_def f)
  moreover have "contact_inv b'"
  proof (cases "ns_address st = cl_contact_node_address (br_cluster_config b0)")
    case True
    then show ?thesis unfolding contact_inv_def f using self by (intro impI exI [of _ n] exI [of _ st]) simp
  next
    case False
    show ?thesis unfolding contact_inv_def f
    proof
      assume "br_contact_discovered b0 \<or> ns_address st = cl_contact_node_address (br_cluster_config b0)"
      then obtain m s where m: "m \<noteq> br_this_node_id b0" "map_of (br_nodes b0) m = Some s"
          "ns_address s = cl_contact_node_address (br_cluster_config b0)"
        using False inv(4) unfolding contact_inv_def by blast
      then have "m \<noteq> n" using new by auto
      with m show "\<exists>m s. m \<noteq> br_this_node_id b0 \<and> map_of (AList.update n st (br_nodes b0)) m = Some s
          \<and> ns_address s = cl_contact_node_address (br_cluster_config b0)"
        by (intro exI [of _ m] exI [of _ s]) simp
    qed
  qed
  moreover have "waiters_inv b'"
  proof -
    define c where "c = (if ns_address st = cl_contact_node_address (br_cluster_config b)
        then b\<lparr>br_contact_discovered := True\<rparr> else b)"
    have "waiters_pre (c\<lparr>br_sockets := AList.update n (connected_to st) (br_sockets c)\<rparr>)"
      using inv(5) by (simp add: waiters_pre_def c_def b)
    from waiters_evaluated [OF this] show ?thesis
      by (simp add: b'_def alive_state_def Let_def c_def [symmetric] waiters_inv_def)
  qed
  moreover have "deferred_inv b'" using inv(2) by (auto simp: deferred_inv_def f)
  moreover have "requests_inv b'" using inv(3) by (auto simp: requests_inv_def f)
  moreover have "contact_socket_inv b'" using inv(6) by (simp add: contact_socket_inv_def f)
  ultimately show ?thesis by (simp add: broker_inv_def b'_def)
qed

lemma HandleGossip_new:
  assumes net: "net_ok env" "be_connect_ok env (ns_address st)"
    and inv: "broker_inv b" and new: "map_of (br_nodes b) (ns_node_id st) = None"
  shows "HandleGossip_one env st b
     = (Inr (), alive_state env (ns_node_id st) st (b\<lparr>br_nodes := AList.update (ns_node_id st) st (br_nodes b)\<rparr>))"
    and "broker_inv (alive_state env (ns_node_id st) st (b\<lparr>br_nodes := AList.update (ns_node_id st) st (br_nodes b)\<rparr>))"
proof -
  define c where "c = b\<lparr>br_nodes := AList.update (ns_node_id st) st (br_nodes b)\<rparr>"
  have "OnNodeAlive env (ns_node_id st) c = (Inr (), alive_state env (ns_node_id st) st c)"
    using inv by (intro OnNodeAlive_run [OF net]) (auto simp: c_def broker_inv_def deferred_inv_def)
  then show "HandleGossip_one env st b = (Inr (), alive_state env (ns_node_id st) st c)" unfolding c_def
    using new by (simp add: HandleGossip_one_def thenE_def bindE_def getE_def modE_def)
  show "broker_inv (alive_state env (ns_node_id st) st c)" unfolding c_def
    using inv waiters_pre by (intro alive_state_inv [OF _ _ _ _ _ _ new refl refl]) (auto simp: broker_inv_def)
qed

lemma HandleGossip_refused:
  assumes "\<not> be_connect_ok env (ns_address st)" and "map_of (br_nodes b) (ns_node_id st) = None"
  shows "\<exists>b'. HandleGossip_one env st b = (Inl (Zmq_Error (ns_address st)), b') \<and> br_wire b' = br_wire b"
  using assms
  by (auto simp: HandleGossip_one_def OnNodeAlive_def MapAt_def eff_defs)

lemma HandleGossip_known:
  assumes known: "map_of (br_nodes b) (ns_node_id st) = Some cur"
  shows "HandleGossip_one env st b =
     (if ns_address cur \<noteq> ns_address st then (Inl (Throw_Stream ''conflicting address''), b)
      else if ns_node_name cur \<noteq> ns_node_name st then (Inl (Throw_Stream ''conflicting node_name''), b)
      else (Inr (), touch (ns_node_id st) (\<lambda>t. max t (ns_last_seen_timestamp_ms st)) b))"
  using known
  by (simp add: HandleGossip_one_def thenE_def bindE_def getE_def modE_def exa_throw_check_eq_def throwE_def
      retE_def touch_def)

lemma inv_gossip_one: "net_ok env \<Longrightarrow> survives broker_inv (HandleGossip_one env st)"
proof (rule survivesI)
  fix b r b'
  assume net: "net_ok env" and inv: "broker_inv b" and run: "HandleGossip_one env st b = (r, b')"
    and alive: "\<And>a. r \<noteq> Inl (Zmq_Error a)"
  show "broker_inv b'"
  proof (cases "map_of (br_nodes b) (ns_node_id st)")
    case None
    then have ok: "be_connect_ok env (ns_address st)" using HandleGossip_refused [of env st b] run alive by auto
    show ?thesis using HandleGossip_new [OF net ok inv None] run by simp
  next
    case (Some cur)
    then show ?thesis using HandleGossip_known [OF Some, of env] run inv inv_touch by (auto split: if_splits)
  qed
qed

lemma inv_HandleGossip: "net_ok env \<Longrightarrow> survives broker_inv (HandleGossipMessage env g)"
  unfolding HandleGossipMessage_def by (intro survives_forE inv_gossip_one)

text \<open>A lost node.\<close>

definition fail_requests :: "u64 \<Rightarrow> (u64, outstanding_request) hmap \<Rightarrow> (u64, outstanding_request) hmap" where
  "fail_requests n rs = map (\<lambda>(i, r). (i, if or_response_node_id r = n
     then r\<lparr>or_exception_ptr := Some (Network_Error n ''Node is dead, cannot complete request''),
            or_sem := or_sem r - 1\<rparr> else r)) rs"

definition lost_state :: "u64 \<Rightarrow> broker \<Rightarrow> broker" where
  "lost_state n b = evaluated (b\<lparr>br_outstanding_requests := fail_requests n (br_outstanding_requests b),
     br_contact_discovered := (br_contact_discovered b \<and> \<not> (\<exists>st. map_of (br_nodes b) n = Some st
        \<and> ns_address st = cl_contact_node_address (br_cluster_config b))),
     br_nodes := AList.delete n (br_nodes b), br_sockets := AList.delete n (br_sockets b)\<rparr>)"

lemma delete_absent: "map_of xs k = None \<Longrightarrow> AList.delete k xs = xs"
  by (induction xs) (auto split: if_splits)

lemma OnNodeConnectionLost_run: "OnNodeConnectionLost n b = (Inr (), lost_state n b)"
proof (cases "map_of (br_nodes b) n")
  case None
  then have "b\<lparr>br_outstanding_requests := rs\<rparr> = b\<lparr>br_outstanding_requests := rs,
      br_contact_discovered := (br_contact_discovered b \<and> \<not> (\<exists>st. map_of (br_nodes b) n = Some st
        \<and> ns_address st = cl_contact_node_address (br_cluster_config b))), br_nodes := AList.delete n (br_nodes b)\<rparr>" for rs
    by (simp add: delete_absent)
  then show ?thesis using None
    by (simp add: OnNodeConnectionLost_def thenE_def bindE_def modE_def Evaluate_run lost_state_def
        fail_requests_def [symmetric])
next
  case (Some st)
  then show ?thesis
    by (cases "ns_address st = cl_contact_node_address (br_cluster_config b)")
      (simp_all add: OnNodeConnectionLost_def thenE_def bindE_def modE_def Evaluate_run lost_state_def
        fail_requests_def [symmetric])
qed

lemma map_of_fail: "map_of (fail_requests n rs) i = map_option (\<lambda>r. if or_response_node_id r = n
     then r\<lparr>or_exception_ptr := Some (Network_Error n ''Node is dead, cannot complete request''),
            or_sem := or_sem r - 1\<rparr> else r) (map_of rs i)"
  unfolding fail_requests_def map_of_map by simp

lemma hm_ok_fail [simp]: "hm_ok (fail_requests n rs) = hm_ok rs"
  by (simp add: hm_ok_def fail_requests_def comp_def case_prod_unfold)

lemma lost_state_inv:
  assumes inv: "broker_inv b" and self: "n \<noteq> br_this_node_id b"
  shows "broker_inv (lost_state n b)"
proof -
  have parts: "members_inv b" "deferred_inv b" "contact_socket_inv b" using inv by (simp_all add: broker_inv_def)
  define b' where "b' = lost_state n b"
  have f: "br_nodes b' = AList.delete n (br_nodes b)" "br_sockets b' = AList.delete n (br_sockets b)"
      "br_this_node_id b' = br_this_node_id b" "br_cluster_config b' = br_cluster_config b"
      "br_deferred_replies b' = br_deferred_replies b"
      "br_outstanding_requests b' = fail_requests n (br_outstanding_requests b)"
      "br_contact_socket b' = br_contact_socket b"
      "br_contact_discovered b' = (br_contact_discovered b \<and> \<not> (\<exists>st. map_of (br_nodes b) n = Some st
        \<and> ns_address st = cl_contact_node_address (br_cluster_config b)))"
    by (simp_all add: b'_def lost_state_def)
  have "members_inv b'" using parts(1) self by (simp add: members_inv_def f)
  moreover have "contact_inv b'"
  proof -
    have cinv: "contact_inv b" using inv by (simp add: broker_inv_def)
    show ?thesis unfolding contact_inv_def f
    proof
      assume found: "br_contact_discovered b \<and> \<not> (\<exists>st. map_of (br_nodes b) n = Some st
          \<and> ns_address st = cl_contact_node_address (br_cluster_config b))"
      then obtain m s where m: "m \<noteq> br_this_node_id b" "map_of (br_nodes b) m = Some s"
          "ns_address s = cl_contact_node_address (br_cluster_config b)"
        using cinv unfolding contact_inv_def by blast
      then have "m \<noteq> n" using found by auto
      with m show "\<exists>m s. m \<noteq> br_this_node_id b \<and> map_of (AList.delete n (br_nodes b)) m = Some s
          \<and> ns_address s = cl_contact_node_address (br_cluster_config b)"
        by (intro exI [of _ m] exI [of _ s]) simp
    qed
  qed
  moreover have "waiters_inv b'"
  proof -
    have "waiters_pre b" using inv waiters_pre by (simp add: broker_inv_def)
    then show ?thesis unfolding b'_def lost_state_def by (intro waiters_evaluated) (simp add: waiters_pre_def)
  qed
  moreover have "deferred_inv b'" using parts(2) by (auto simp: deferred_inv_def f)
  moreover have "requests_inv b'"
    unfolding requests_inv_def f
  proof (intro conjI allI impI)
    have rinv: "requests_inv b" using inv by (simp add: broker_inv_def)
    then show "hm_ok (fail_requests n (br_outstanding_requests b))" by (simp add: requests_inv_def)
    fix i r assume "map_of (fail_requests n (br_outstanding_requests b)) i = Some r"
    then obtain z where z: "map_of (br_outstanding_requests b) i = Some z"
        "r = (if or_response_node_id z = n then z\<lparr>or_exception_ptr := Some (Network_Error n
            ''Node is dead, cannot complete request''), or_sem := or_sem z - 1\<rparr> else z)"
      by (auto simp: map_of_fail)
    have zi: "or_sem z \<le> 1" "0 < or_sem z \<Longrightarrow> or_exception_ptr z = None
        \<and> map_of (br_sockets b) (or_response_node_id z) \<noteq> None"
      using rinv z(1) by (auto simp: requests_inv_def)
    show "or_sem r \<le> 1" using zi(1) z(2) by simp
    assume pos: "0 < or_sem r"
    then have "or_response_node_id z \<noteq> n" "r = z" using zi(1) z(2) by (auto split: if_splits)
    then show "or_exception_ptr r = None" "map_of (AList.delete n (br_sockets b)) (or_response_node_id r) \<noteq> None"
      using zi(2) pos by auto
  qed
  moreover have "contact_socket_inv b'" using parts(3) by (simp add: contact_socket_inv_def f)
  ultimately show ?thesis by (simp add: broker_inv_def b'_def)
qed

lemma OnNodeConnectionLost_all:
  "forE OnNodeConnectionLost ns b = (Inr (), foldl (\<lambda>b n. lost_state n b) b ns)"
  by (induction ns arbitrary: b) (simp_all add: retE_def thenE_def bindE_def OnNodeConnectionLost_run)

lemma lost_state_this [simp]: "br_this_node_id (lost_state n b) = br_this_node_id b"
  by (simp add: lost_state_def)

lemma lost_states_inv: "br_this_node_id b \<notin> set ns \<Longrightarrow> broker_inv b \<Longrightarrow>
    broker_inv (foldl (\<lambda>b n. lost_state n b) b ns)"
  by (induction ns arbitrary: b) (auto simp: lost_state_inv)

lemma CheckHeartbeatTimeout_run: "CheckHeartbeatTimeout now b =
    (Inr (), foldl (\<lambda>b n. lost_state n b) b (map fst (filter (heartbeat_expired b now) (br_nodes b))))"
  by (simp add: CheckHeartbeatTimeout_def bindE_def getE_def OnNodeConnectionLost_all)

lemma inv_CheckHeartbeatTimeout: "preserves broker_inv (CheckHeartbeatTimeout now)"
  by (rule preservesI) (auto simp: CheckHeartbeatTimeout_run heartbeat_expired_def intro!: lost_states_inv)

lemma inv_CheckWaiters: "preserves broker_inv (CheckClusterStateWaiterTimeout now)"
proof (rule preservesI)
  fix b r b'
  assume inv: "broker_inv b" and run: "CheckClusterStateWaiterTimeout now b = (r, b')"
  define g where "g = (\<lambda>w :: cluster_state_waiter. if \<not> wt_condition_met w \<and> wt_deadline_ms w \<le> now
      then w\<lparr>wt_sem := wt_sem w - 1\<rparr> else w)"
  have b': "b' = b\<lparr>br_waiters := map g (br_waiters b)\<rparr>"
    using run by (simp add: CheckClusterStateWaiterTimeout_def modE_def g_def)
  have ids: "map wt_id (map g (br_waiters b)) = map wt_id (br_waiters b)" by (simp add: g_def)
  have w: "waiters_inv b" using inv by (simp add: broker_inv_def)
  have "\<forall>w \<in> set (map g (br_waiters b)). (wt_predicate w (BuildAliveNodeInfoList b) \<longrightarrow> wt_condition_met w)
     \<and> (wt_condition_met w \<longrightarrow> wt_sem w \<le> 0) \<and> wt_sem w \<le> 1 \<and> wt_id w < br_next_waiter b"
    using w by (auto simp: waiters_inv_def g_def)
  then have "waiters_inv (b\<lparr>br_waiters := map g (br_waiters b)\<rparr>)"
    using w unfolding waiters_inv_def by (simp add: ids del: map_map)
  then have "waiters_inv b'" by (simp only: b')
  then show "broker_inv b'"
    using inv by (simp add: broker_inv_def b' members_inv_def contact_inv_def deferred_inv_def requests_inv_def
        contact_socket_inv_def)
qed

lemma inv_outstanding:
  "broker_inv b \<Longrightarrow> requests_inv (b\<lparr>br_outstanding_requests := rs\<rparr>) \<Longrightarrow>
   broker_inv (b\<lparr>br_outstanding_requests := rs\<rparr>)"
  by (simp add: broker_inv_def members_inv_def contact_inv_def deferred_inv_def contact_socket_inv_def waiters_inv_def)

lemma inv_waiters:
  "broker_inv b \<Longrightarrow> waiters_inv (b\<lparr>br_waiters := ws, br_next_waiter := k\<rparr>) \<Longrightarrow>
   broker_inv (b\<lparr>br_waiters := ws, br_next_waiter := k\<rparr>)"
  by (simp add: broker_inv_def members_inv_def contact_inv_def deferred_inv_def contact_socket_inv_def requests_inv_def)

lemma WaitClusterState_run: "WaitClusterState_start p t now b =
    (if p (BuildAliveNodeInfoList b) then (Inr (Wait_Returned (BuildAliveNodeInfoList b) True), b)
     else (Inr (Wait_Suspended (br_next_waiter b)), b\<lparr>br_waiters := br_waiters b @
        [\<lparr>wt_id = br_next_waiter b, wt_sem = 1, wt_deadline_ms = now + t, wt_condition_met = False, wt_predicate = p\<rparr>],
        br_next_waiter := Suc (br_next_waiter b)\<rparr>))"
  by (simp add: WaitClusterState_start_def thenE_def bindE_def getE_def modE_def retE_def)

lemma inv_WaitClusterState: "preserves broker_inv (WaitClusterState_start p t now)"
proof (rule preservesI)
  fix b r b'
  assume inv: "broker_inv b" and run: "WaitClusterState_start p t now b = (r, b')"
  have w: "waiters_inv b" using inv by (simp add: broker_inv_def)
  show "broker_inv b'"
  proof (cases "p (BuildAliveNodeInfoList b)")
    case True
    then show ?thesis using run inv by (simp add: WaitClusterState_run)
  next
    case False
    have "waiters_inv (b\<lparr>br_waiters := br_waiters b @ [\<lparr>wt_id = br_next_waiter b, wt_sem = 1,
        wt_deadline_ms = now + t, wt_condition_met = False, wt_predicate = p\<rparr>],
        br_next_waiter := Suc (br_next_waiter b)\<rparr>)"
      using w False by (auto simp: waiters_inv_def BuildAliveNodeInfoList_def)
    then show ?thesis using run inv False inv_waiters by (auto simp: WaitClusterState_run)
  qed
qed

lemma inv_WaitClusterState_resume:
  assumes inv: "broker_inv b" and run: "WaitClusterState_resume i b = Some (x, b')"
  shows "broker_inv b'"
proof -
  have b': "b' = b\<lparr>br_waiters := filter (\<lambda>w. wt_id w \<noteq> i) (br_waiters b), br_next_waiter := br_next_waiter b\<rparr>"
    using run by (auto simp: WaitClusterState_resume_def split: option.splits if_splits)
  have "waiters_inv b" using inv by (simp add: broker_inv_def)
  then have "waiters_inv b'"
    by (auto simp: waiters_inv_def b' BuildAliveNodeInfoList_def distinct_map_filter)
  then show ?thesis using inv_waiters [OF inv] unfolding b' by blast
qed

lemma HandleReplied_run: "HandleRepliedResponse m b = (Inr (), b\<lparr>br_outstanding_requests := hm_adjust (tw_request_id m)
    (\<lambda>p. p\<lparr>or_response_bytes := tw_payload m, or_sem := or_sem p - 1\<rparr>) (br_outstanding_requests b)\<rparr>)"
proof (cases "hm_contains (br_outstanding_requests b) (tw_request_id m)")
  case True
  then show ?thesis by (simp add: HandleRepliedResponse_def bindE_def getE_def modE_def)
next
  case False
  then have "hm_adjust (tw_request_id m) f (br_outstanding_requests b) = br_outstanding_requests b" for f
    by (force simp: hm_adjust_def hm_contains_iff intro!: map_idI)
  then show ?thesis using False by (simp add: HandleRepliedResponse_def bindE_def getE_def retE_def)
qed

lemma inv_HandleReplied: "preserves broker_inv (HandleRepliedResponse m)"
proof (rule preservesI)
  fix b r b'
  assume inv: "broker_inv b" and run: "HandleRepliedResponse m b = (r, b')"
  have rinv: "requests_inv b" using inv by (simp add: broker_inv_def)
  define rs where "rs = hm_adjust (tw_request_id m)
    (\<lambda>p. p\<lparr>or_response_bytes := tw_payload m, or_sem := or_sem p - 1\<rparr>) (br_outstanding_requests b)"
  have "requests_inv (b\<lparr>br_outstanding_requests := rs\<rparr>)"
    unfolding requests_inv_def
  proof (intro conjI allI impI)
    show "hm_ok (br_outstanding_requests (b\<lparr>br_outstanding_requests := rs\<rparr>))"
      using rinv by (simp add: requests_inv_def rs_def)
    fix i r assume "map_of (br_outstanding_requests (b\<lparr>br_outstanding_requests := rs\<rparr>)) i = Some r"
    then obtain z where z: "map_of (br_outstanding_requests b) i = Some z" "or_sem r \<le> or_sem z"
        "or_exception_ptr r = or_exception_ptr z" "or_response_node_id r = or_response_node_id z"
      by (auto simp: rs_def map_of_adjust split: if_splits)
    then have "or_sem z \<le> 1" "0 < or_sem z \<longrightarrow> or_exception_ptr z = None
        \<and> map_of (br_sockets b) (or_response_node_id z) \<noteq> None"
      using rinv unfolding requests_inv_def by blast+
    then show "or_sem r \<le> 1" "0 < or_sem r \<Longrightarrow> or_exception_ptr r = None"
      "0 < or_sem r \<Longrightarrow> map_of (br_sockets (b\<lparr>br_outstanding_requests := rs\<rparr>)) (or_response_node_id r) \<noteq> None"
      using z by auto
  qed
  moreover have "b' = b\<lparr>br_outstanding_requests := rs\<rparr>" using run by (simp add: HandleReplied_run rs_def)
  ultimately show "broker_inv b'" using inv_outstanding [OF inv] by simp
qed

lemma inv_SendRequest_resume:
  assumes inv: "broker_inv b" and run: "SendRequest_resume i b = Some (x, b')"
  shows "broker_inv b'"
proof -
  have b': "b' = b\<lparr>br_outstanding_requests := AList.delete i (br_outstanding_requests b)\<rparr>"
    using run by (auto simp: SendRequest_resume_def split: option.splits if_splits)
  have "requests_inv b" using inv by (simp add: broker_inv_def)
  then have "requests_inv b'" by (auto simp: requests_inv_def b')
  then show ?thesis using inv_outstanding [OF inv] unfolding b' by simp
qed

subsection \<open>Sending\<close>

definition request_message :: "broker_env \<Rightarrow> broker \<Rightarrow> u64 \<Rightarrow> bytes \<Rightarrow> bytes" where
  "request_message env b n data = enc_broker (be_codec env) (Two_Way
     \<lparr>tw_request_node_id = br_this_node_id b, tw_response_node_id = n,
      tw_request_id = br_send_request_id_counter b, tw_payload = data\<rparr>)"

lemma members_socket:
  assumes "members_inv b" and "map_of (br_sockets b) n = Some sk"
  shows "\<exists>st. map_of (br_nodes b) n = Some st \<and> ns_node_id st = n \<and> sk = connected_to st \<and> n \<noteq> br_this_node_id b"
proof -
  have "n \<noteq> br_this_node_id b" using assms by (auto simp: members_inv_def)
  then have "map_option connected_to (map_of (br_nodes b) n) = Some sk" using assms by (simp add: members_inv_def)
  then show ?thesis using assms(1) \<open>n \<noteq> br_this_node_id b\<close> by (auto simp: members_inv_def)
qed

lemma members_known:
  assumes "members_inv b" and "map_of (br_nodes b) n = Some st" and "n \<noteq> br_this_node_id b"
  shows "map_of (br_sockets b) n = Some (connected_to st)"
  using assms by (simp add: members_inv_def)

lemma SendTwoWay_run:
  assumes net: "net_ok env" and inv: "members_inv b"
  shows "SendTwoWayMessage env n data b =
    (case map_of (br_sockets b) n of
       None \<Rightarrow> (Inl (Network_Error n ''trying to send request to an unconnected node''),
                b\<lparr>br_send_request_id_counter := br_send_request_id_counter b + 1\<rparr>)
     | Some sk \<Rightarrow> (Inr (br_send_request_id_counter b),
                b\<lparr>br_send_request_id_counter := br_send_request_id_counter b + 1,
                  br_wire := br_wire b @ [(sk, request_message env b n data)]\<rparr>))"
proof (cases "map_of (br_sockets b) n")
  case None
  then show ?thesis by (simp add: SendTwoWayMessage_def thenE_def bindE_def getE_def modE_def Let_def throwE_def)
next
  case (Some sk)
  then have "be_send_ok env sk" using members_socket [OF inv Some] net_okD(2) [OF net] by auto
  then show ?thesis using Some
    by (simp add: SendTwoWayMessage_def thenE_def bindE_def getE_def modE_def Let_def retE_def ZmqSendOrDie_run
        request_message_def)
qed

lemma SendRequest_run:
  assumes net: "net_ok env" and inv: "members_inv b"
  shows "SendRequest_start env n data b =
    (if n = br_this_node_id b then (Inl (Throw_Stream ''Cannot send message to current node''), b)
     else case map_of (br_sockets b) n of
       None \<Rightarrow> (Inl (Network_Error n ''trying to send request to an unconnected node''),
                b\<lparr>br_send_request_id_counter := br_send_request_id_counter b + 1\<rparr>)
     | Some sk \<Rightarrow>
         let c = b\<lparr>br_send_request_id_counter := br_send_request_id_counter b + 1,
                   br_wire := br_wire b @ [(sk, request_message env b n data)]\<rparr> in
         if hm_contains (br_outstanding_requests b) (br_send_request_id_counter b)
         then (Inl (Throw_Stream []), c)
         else (Inr (br_send_request_id_counter b),
               c\<lparr>br_outstanding_requests := AList.update (br_send_request_id_counter b)
                 \<lparr>or_sem = 1, or_response_bytes = [], or_exception_ptr = None, or_response_node_id = n\<rparr>
                 (br_outstanding_requests b)\<rparr>))"
  using SendTwoWay_run [OF net inv, of n data]
  by (cases "map_of (br_sockets b) n")
    (simp_all add: SendRequest_start_def thenE_def bindE_def getE_def modE_def retE_def throwE_def Let_def
      exa_throw_check_ne_def exa_throw_check_def)

lemma inv_SendRequest: "net_ok env \<Longrightarrow> preserves broker_inv (SendRequest_start env n data)"
proof (rule preservesI)
  fix b r b'
  assume net: "net_ok env" and inv: "broker_inv b" and run: "SendRequest_start env n data b = (r, b')"
  have m: "members_inv b" and q: "requests_inv b" using inv by (simp_all add: broker_inv_def)
  define c where "c = b\<lparr>br_send_request_id_counter := br_send_request_id_counter b + 1,
      br_wire := br_wire b @ [(the (map_of (br_sockets b) n), request_message env b n data)]\<rparr>"
  have c: "broker_inv c" using inv by (simp add: c_def)
  show "broker_inv b'"
  proof (cases "n = br_this_node_id b \<or> map_of (br_sockets b) n = None
      \<or> hm_contains (br_outstanding_requests b) (br_send_request_id_counter b)")
    case True
    then have "b' = b \<or> b' = b\<lparr>br_send_request_id_counter := br_send_request_id_counter b + 1\<rparr> \<or> b' = c"
      using run SendRequest_run [OF net m, of n data]
      by (auto simp: c_def Let_def split: option.splits if_splits)
    then show ?thesis using inv c by auto
  next
    case False
    define rs where "rs = AList.update (br_send_request_id_counter b)
        \<lparr>or_sem = 1, or_response_bytes = [], or_exception_ptr = None, or_response_node_id = n\<rparr>
        (br_outstanding_requests b)"
    have b': "b' = c\<lparr>br_outstanding_requests := rs\<rparr>"
      using run SendRequest_run [OF net m, of n data] False by (auto simp: c_def rs_def Let_def split: option.splits)
    have "requests_inv (c\<lparr>br_outstanding_requests := rs\<rparr>)"
      using q False unfolding requests_inv_def by (simp add: c_def rs_def)
    then show ?thesis using inv_outstanding [OF c] by (simp add: b')
  qed
qed

lemma inv_SendReply: "net_ok env \<Longrightarrow> preserves broker_inv (SendReply env n i d)"
proof (rule preservesI)
  fix b r b'
  assume net: "net_ok env" and inv: "broker_inv b" and run: "SendReply env n i d b = (r, b')"
  show "broker_inv b'"
  proof (cases "map_of (br_sockets b) n")
    case None
    define ds where "ds = AList.update n ((case map_of (br_deferred_replies b) n of None \<Rightarrow> [] | Some rs \<Rightarrow> rs)
        @ [\<lparr>ro_request_node_id = n, ro_request_id = i, ro_data = d\<rparr>]) (br_deferred_replies b)"
    have b': "b' = b\<lparr>br_deferred_replies := ds\<rparr>"
      using run None by (simp add: SendReply_def bindE_def getE_def modE_def ds_def)
    have dinv: "deferred_inv b" using inv by (simp add: broker_inv_def)
    have "deferred_inv b'"
    proof (cases "map_of (br_deferred_replies b) n")
      case none: None
      then show ?thesis using dinv None unfolding deferred_inv_def b' ds_def by simp
    next
      case (Some rs)
      then have "\<forall>r \<in> set rs. ro_request_node_id r = n" using dinv by (auto simp: deferred_inv_def)
      then show ?thesis using dinv None Some unfolding deferred_inv_def b' ds_def by simp
    qed
    then show ?thesis
      using inv by (simp add: broker_inv_def b' members_inv_def contact_inv_def waiters_inv_def requests_inv_def
          contact_socket_inv_def)
  next
    case (Some sk)
    have "members_inv b" using inv by (simp add: broker_inv_def)
    then have "be_send_ok env sk" using members_socket [OF _ Some] net_okD(2) [OF net] by auto
    then show ?thesis using SendReply_connected [of env sk b n i d] Some run inv by auto
  qed
qed

subsection \<open>Gossip\<close>

lemma mset_shuffle: "mset (shuffle_from i ds xs) = mset xs"
proof (induction i ds xs rule: shuffle_from.induct)
  case (2 i d ds xs)
  show ?case
  proof (cases "i < length xs")
    case True
    define j where "j = d mod Suc i"
    have "j < Suc i" unfolding j_def by (rule mod_less_divisor) simp
    then have "j < length xs" using True by simp
    then have "mset (xs[i := xs ! j, j := xs ! i]) = mset xs" using True mset_swap [of j xs i] by simp
    then show ?thesis using 2 True by (simp add: j_def Let_def)
  qed simp
qed simp

definition gossip_message :: "broker_env \<Rightarrow> broker \<Rightarrow> bytes" where
  "gossip_message env b = enc_broker (be_codec env)
     (Gossip \<lparr>gm_from_node_id = br_this_node_id b, gm_node_states = map snd (br_nodes b)\<rparr>)"

definition random_peers :: "nat list \<Rightarrow> u64 \<Rightarrow> broker \<Rightarrow> u64 list" where
  "random_peers draws fanout b = take (unat fanout)
     (shuffle_from 1 draws (filter (\<lambda>n. n \<noteq> br_this_node_id b) (map fst (br_nodes b))))"

lemma GetRandomPeers_run: "0 < fanout \<Longrightarrow> GetRandomPeers draws fanout b = (Inr (random_peers draws fanout b), b)"
  by (auto simp: GetRandomPeers_def thenE_def bindE_def getE_def retE_def exa_throw_check_gt_def Let_def
      random_peers_def not_less)

lemma set_shuffle: "set (shuffle_from i ds xs) = set xs"
  by (rule mset_eq_setD [OF mset_shuffle])

lemma random_peers_set: "set (random_peers draws fanout b) \<subseteq> fst ` set (br_nodes b) - {br_this_node_id b}"
proof -
  have "set (shuffle_from 1 draws (filter (\<lambda>n. n \<noteq> br_this_node_id b) (map fst (br_nodes b))))
      = fst ` set (br_nodes b) - {br_this_node_id b}"
    unfolding set_shuffle by auto
  then show ?thesis unfolding random_peers_def by (metis set_take_subset)
qed

lemma random_peers_spec:
  assumes "members_inv b"
  shows "distinct (random_peers draws fanout b)
    \<and> length (random_peers draws fanout b) = min (unat fanout) (length (br_nodes b) - 1)"
proof -
  define xs where "xs = filter (\<lambda>n. n \<noteq> br_this_node_id b) (map fst (br_nodes b))"
  have d: "distinct (map fst (br_nodes b))" and self: "br_this_node_id b \<in> set (map fst (br_nodes b))"
    using assms by (auto simp: members_inv_def hm_ok_def dom_map_of_conv_image_fst)
  have "set xs = set (map fst (br_nodes b)) - {br_this_node_id b}" by (auto simp: xs_def)
  moreover have "distinct xs" using d by (simp add: xs_def)
  ultimately have "length xs = card (set (map fst (br_nodes b)) - {br_this_node_id b})"
    by (metis distinct_card)
  then have len: "length xs = length (br_nodes b) - 1"
    using self distinct_card [OF d] by (simp only: card_Diff_singleton length_map)
  have perm: "mset (shuffle_from 1 draws xs) = mset xs" by (rule mset_shuffle)
  then have "distinct (shuffle_from 1 draws xs)" using \<open>distinct xs\<close> mset_eq_imp_distinct_iff by blast
  moreover have "length (shuffle_from 1 draws xs) = length xs" using mset_eq_length [OF perm] .
  ultimately show ?thesis using len by (simp add: random_peers_def xs_def [symmetric])
qed

lemma gossip_to_peers:
  assumes net: "net_ok env" and inv: "members_inv b" and peers: "set ns \<subseteq> fst ` set (br_nodes b) - {br_this_node_id b}"
  shows "forE (gossip_to_peer env msg) ns b
     = (Inr (), b\<lparr>br_wire := br_wire b @ map (\<lambda>n. (the (map_of (br_sockets b) n), msg)) ns\<rparr>)"
  using inv peers
proof (induction ns arbitrary: b)
  case Nil
  then show ?case by (simp add: retE_def)
next
  case (Cons n ns)
  obtain st where st: "map_of (br_nodes b) n = Some st" "n \<noteq> br_this_node_id b"
    using Cons.prems(2) by (metis Diff_iff insert_subset list.simps(15) map_of_eq_None_iff not_None_eq singletonI)
  then have sk: "map_of (br_sockets b) n = Some (connected_to st)" using members_known [OF Cons.prems(1)] by simp
  define c where "c = b\<lparr>br_wire := br_wire b @ [(connected_to st, msg)]\<rparr>"
  have "members_inv c" "set ns \<subseteq> fst ` set (br_nodes c) - {br_this_node_id c}"
    using Cons.prems by (auto simp: c_def members_inv_def)
  note IH = Cons.IH [OF this]
  show ?case using st sk IH net_okD(2) [OF net]
    by (simp add: gossip_to_peer_def thenE_def bindE_def getE_def liftE_def MapAt_def ZmqSendOrDie_run c_def)
qed

definition after_contact :: "broker_env \<Rightarrow> u64 \<Rightarrow> u64 \<Rightarrow> bytes \<Rightarrow> broker \<Rightarrow> broker" where
  "after_contact env now2 now3 msg b =
     (case br_contact_socket b of
        None \<Rightarrow> b
      | Some sk \<Rightarrow>
          let c = (if \<not> br_contact_discovered b
                      \<and> now2 - br_contact_last_build_ms b \<ge> kContactSocketRebuildCooldownMs
                   then b\<lparr>br_contact_last_build_ms := now3\<rparr> else b)
          in c\<lparr>br_wire := br_wire b @ [(sk, msg)]\<rparr>)"

lemma after_contact_inv: "broker_inv b \<Longrightarrow> broker_inv (after_contact env n2 n3 msg b)"
  by (simp add: after_contact_def Let_def broker_inv_defs BuildAliveNodeInfoList_def split: option.splits)

definition gossip_state :: "broker_env \<Rightarrow> nat list \<Rightarrow> u64 \<Rightarrow> u64 \<Rightarrow> u64 \<Rightarrow> broker \<Rightarrow> broker" where
  "gossip_state env draws now1 now2 now3 b =
     (let c = touch (br_this_node_id b) (\<lambda>_. now1) b;
          fanout = nc_gossip_fanout (cl_network_config (br_cluster_config b));
          peers = random_peers draws fanout c;
          msg = gossip_message env c
      in after_contact env now2 now3 msg
           (c\<lparr>br_wire := br_wire c @ map (\<lambda>n. (the (map_of (br_sockets c) n), msg)) peers\<rparr>))"

lemma gossip_to_contact_run:
  assumes net: "net_ok env" and inv: "contact_socket_inv b"
    and ok: "be_connect_ok env (cl_contact_node_address (br_cluster_config b))"
  shows "gossip_to_contact env now2 now3 msg b = (Inr (), after_contact env now2 now3 msg b)"
proof (cases "br_contact_socket b")
  case None
  then show ?thesis by (simp add: gossip_to_contact_def after_contact_def bindE_def getE_def retE_def)
next
  case (Some sk)
  have sk: "sk = dealer_socket\<lparr>sk_endpoint := Some (cl_contact_node_address (br_cluster_config b))\<rparr>"
    using inv Some by (simp add: contact_socket_inv_def)
  show ?thesis
    using Some ok net_okD(1) [OF net]
    by (simp add: gossip_to_contact_def after_contact_def ConnectContactSendSocket_def thenE_def bindE_def getE_def
        retE_def modE_def ZmqSendOrDie_run sk)
qed

text \<open>When the contact socket cannot be built again, the round fails.\<close>

lemma gossip_to_contact_survives:
  assumes net: "net_ok env" and inv: "contact_socket_inv b"
    and run: "gossip_to_contact env now2 now3 msg b = (r, b')" "\<forall>a. r \<noteq> Inl (Zmq_Error a)"
  shows "b' = after_contact env now2 now3 msg b"
proof (cases "br_contact_socket b")
  case None
  then show ?thesis using run by (simp add: gossip_to_contact_def after_contact_def bindE_def getE_def retE_def)
next
  case (Some sk)
  have sk: "sk = dealer_socket\<lparr>sk_endpoint := Some (cl_contact_node_address (br_cluster_config b))\<rparr>"
    using inv Some by (simp add: contact_socket_inv_def)
  show ?thesis
    using Some run net_okD(1) [OF net]
    by (auto simp: gossip_to_contact_def after_contact_def ConnectContactSendSocket_def thenE_def bindE_def getE_def
        retE_def modE_def throwE_def ZmqSendOrDie_run sk split: if_splits)
qed

text \<open>The round up to the contact node.\<close>

definition gossip_sent :: "broker_env \<Rightarrow> nat list \<Rightarrow> u64 \<Rightarrow> broker \<Rightarrow> broker" where
  "gossip_sent env draws now1 b =
     (let c = touch (br_this_node_id b) (\<lambda>_. now1) b;
          peers = random_peers draws (nc_gossip_fanout (cl_network_config (br_cluster_config b))) c
      in c\<lparr>br_wire := br_wire c @ map (\<lambda>n. (the (map_of (br_sockets c) n), gossip_message env c)) peers\<rparr>)"

lemma gossip_state_sent: "gossip_state env draws now1 now2 now3 b =
    after_contact env now2 now3 (gossip_message env (touch (br_this_node_id b) (\<lambda>_. now1) b)) (gossip_sent env draws now1 b)"
  by (simp add: gossip_state_def gossip_sent_def Let_def)

lemma BroadcastGossip_sends:
  assumes net: "net_ok env" and inv: "broker_inv b"
    and fanout: "0 < nc_gossip_fanout (cl_network_config (br_cluster_config b))"
  shows "BroadcastGossip env draws now1 now2 now3 b =
    gossip_to_contact env now2 now3 (gossip_message env (touch (br_this_node_id b) (\<lambda>_. now1) b)) (gossip_sent env draws now1 b)"
proof -
  define c where "c = touch (br_this_node_id b) (\<lambda>_. now1) b"
  define f where "f = nc_gossip_fanout (cl_network_config (br_cluster_config b))"
  define peers where "peers = random_peers draws f c"
  define msg where "msg = gossip_message env c"
  have m: "members_inv b" "members_inv c" using inv members_touch by (auto simp: broker_inv_def c_def)
  obtain st where st: "map_of (br_nodes b) (br_this_node_id b) = Some st" using m(1) by (auto simp: members_inv_def)
  have send: "forE (gossip_to_peer env msg) peers c = (Inr (), gossip_sent env draws now1 b)"
    unfolding gossip_sent_def Let_def peers_def c_def [symmetric] f_def [symmetric] msg_def [symmetric]
    by (rule gossip_to_peers [OF net m(2) random_peers_set])
  have peers: "GetRandomPeers draws f c = (Inr peers, c)"
    using GetRandomPeers_run fanout by (simp add: peers_def f_def)
  have c: "b\<lparr>br_nodes := hm_adjust (br_this_node_id b) (\<lambda>n. n\<lparr>ns_last_seen_timestamp_ms := now1\<rparr>) (br_nodes b)\<rparr> = c"
    by (simp add: c_def touch_def)
  have cf: "nc_gossip_fanout (cl_network_config (br_cluster_config c)) = f"
      "enc_broker (be_codec env) (Gossip \<lparr>gm_from_node_id = br_this_node_id c, gm_node_states = map snd (br_nodes c)\<rparr>) = msg"
    by (simp_all add: c_def f_def msg_def gossip_message_def)
  show ?thesis
    using st send peers
    by (simp add: BroadcastGossip_def bindE_def getE_def liftE_def MapAt_def thenE_def modE_def c cf f_def [symmetric]
        c_def [symmetric] msg_def [symmetric])
qed

lemma gossip_sent_inv: "broker_inv b \<Longrightarrow> broker_inv (gossip_sent env draws now1 b)"
  by (simp add: gossip_sent_def Let_def inv_touch)

lemma gossip_sent_config [simp]: "br_cluster_config (gossip_sent env draws now1 b) = br_cluster_config b"
  by (simp add: gossip_sent_def Let_def)

lemma BroadcastGossip_run:
  assumes net: "net_ok env" and inv: "broker_inv b"
    and ok: "be_connect_ok env (cl_contact_node_address (br_cluster_config b))"
    and fanout: "0 < nc_gossip_fanout (cl_network_config (br_cluster_config b))"
  shows "BroadcastGossip env draws now1 now2 now3 b = (Inr (), gossip_state env draws now1 now2 now3 b)"
  unfolding BroadcastGossip_sends [OF net inv fanout] gossip_state_sent
  by (rule gossip_to_contact_run [OF net]) (use gossip_sent_inv [OF inv] ok in \<open>simp_all add: broker_inv_def\<close>)

lemma inv_BroadcastGossip:
  assumes net: "net_ok env" and inv: "broker_inv b"
    and fanout: "0 < nc_gossip_fanout (cl_network_config (br_cluster_config b))"
    and run: "BroadcastGossip env draws now1 now2 now3 b = (r, b')" "\<forall>a. r \<noteq> Inl (Zmq_Error a)"
  shows "broker_inv b'"
  using gossip_to_contact_survives [OF net _ run(1) [unfolded BroadcastGossip_sends [OF net inv fanout]] run(2)]
    gossip_sent_inv [OF inv] after_contact_inv by (simp add: broker_inv_def)

end
