(* ===== verification/Broker_Props.thy ===== *)
theory Broker_Props
  imports Broker_Inv
begin

text \<open>
  What the broker guarantees in every state it can reach: the calls and messages it serves as
  events, the reachable states, and the properties of its methods there.
\<close>

section \<open>Events\<close>

text \<open>
  The entry points of the broker: a received message, the end of a request handler, the
  three periodical tasks, and the two coroutines with their continuations. The result is the
  exception that left the method, if any, and the state.

  The first three and the periodical tasks are spawned with \<open>DiscardResult()\<close>, which ends the
  process when an exception leaves them. Only they connect, so when \<open>connect\<close> throws there is no
  broker any more; the states below are those of a process that goes on. After any other
  exception the model goes on too, which only adds states.
\<close>

datatype broker_event =
    Ev_Dispatch bytes
  | Ev_Reply broker_two_way_message bytes
  | Ev_Broadcast "nat list" u64 u64 u64
  | Ev_Heartbeat u64
  | Ev_Waiters u64
  | Ev_Request u64 bytes
  | Ev_Request_Resume u64
  | Ev_Wait "cluster_state \<Rightarrow> bool" u64 u64
  | Ev_Wait_Resume nat

definition outcome :: "(exa_error + 'a) \<times> broker \<Rightarrow> exa_error option \<times> broker" where
  "outcome x = (case x of (Inl e, b) \<Rightarrow> (Some e, b) | (Inr _, b) \<Rightarrow> (None, b))"

fun broker_event_run :: "broker_env \<Rightarrow> broker_event \<Rightarrow> broker \<Rightarrow> exa_error option \<times> broker" where
  "broker_event_run env (Ev_Dispatch raw) b = outcome (DispatchReceivedMessage env raw b)"
| "broker_event_run env (Ev_Reply m d) b = outcome (HandleIncomingRequest_reply env m d b)"
| "broker_event_run env (Ev_Broadcast draws n1 n2 n3) b = outcome (BroadcastGossip env draws n1 n2 n3 b)"
| "broker_event_run env (Ev_Heartbeat now) b = outcome (CheckHeartbeatTimeout now b)"
| "broker_event_run env (Ev_Waiters now) b = outcome (CheckClusterStateWaiterTimeout now b)"
| "broker_event_run env (Ev_Request n d) b = outcome (SendRequest_start env n d b)"
| "broker_event_run env (Ev_Request_Resume i) b =
     (case SendRequest_resume i b of None \<Rightarrow> (None, b) | Some r \<Rightarrow> outcome r)"
| "broker_event_run env (Ev_Wait p t now) b = outcome (WaitClusterState_start p t now b)"
| "broker_event_run env (Ev_Wait_Resume i) b =
     (case WaitClusterState_resume i b of None \<Rightarrow> (None, b) | Some (_, b') \<Rightarrow> (None, b'))"

definition connect_threw :: "exa_error option \<Rightarrow> bool" where
  "connect_threw x = (case x of Some (Zmq_Error a) \<Rightarrow> True | _ \<Rightarrow> False)"

text \<open>What \<open>connect\<close> answers may differ from event to event. No result when the process has ended.\<close>

definition answering :: "(string \<Rightarrow> bool) \<Rightarrow> broker_env \<Rightarrow> broker_env" where
  "answering ok env = env\<lparr>be_connect_ok := ok\<rparr>"

fun broker_run :: "broker_env \<Rightarrow> ((string \<Rightarrow> bool) \<times> broker_event) list \<Rightarrow> broker \<Rightarrow> broker option" where
  "broker_run env [] b = Some b"
| "broker_run env ((ok, e) # es) b =
     (case broker_event_run (answering ok env) e b of
        (x, b') \<Rightarrow> if connect_threw x then None else broker_run env es b')"

text \<open>Construction and start, at times \<open>n1\<close>, \<open>n2\<close>, \<open>n3\<close>.\<close>

definition broker_boot :: "broker_env \<Rightarrow> u64 \<Rightarrow> cluster_config \<Rightarrow> u64 \<Rightarrow> u64 \<Rightarrow> u64 \<Rightarrow> (exa_error + unit) \<times> broker" where
  "broker_boot env node_id config n1 n2 n3 =
     thenE (MessageBroker_ctor env n1 n2)
     (thenE MessageBroker_ExActorOnSpawned (MessageBroker_Start env n3 True)) (MessageBroker_init node_id config)"

inductive broker_reach :: "broker_env \<Rightarrow> u64 \<Rightarrow> cluster_config \<Rightarrow> broker \<Rightarrow> bool" for env node_id config where
  boot: "broker_boot env node_id config n1 n2 n3 = (Inr (), b) \<Longrightarrow> broker_reach env node_id config b"
| event: "broker_reach env node_id config b \<Longrightarrow> broker_event_run (answering ok env) e b = (x, b') \<Longrightarrow>
    \<not> connect_threw x \<Longrightarrow> broker_reach env node_id config b'"

lemma net_ok_answering [simp]: "net_ok (answering ok env) = net_ok env" "be_codec (answering ok env) = be_codec env"
  by (simp_all add: net_ok_def answering_def)

lemma broker_reach_run:
  "broker_reach env node_id config b \<Longrightarrow> broker_run env es b = Some b' \<Longrightarrow> broker_reach env node_id config b'"
  by (induction env es b rule: broker_run.induct) (auto intro: event split: if_splits prod.splits)

section \<open>The invariant holds\<close>

lemma ctor_state:
  assumes run: "MessageBroker_ctor env n1 n2 (MessageBroker_init node_id config) = (Inr (), b)"
  shows "broker_inv b \<and> br_this_node_id b = node_id \<and> br_cluster_config b = config"
  using run
  by (auto simp: MessageBroker_ctor_def MessageBroker_init_def eff_defs ConnectContactSendSocket_def broker_inv_defs
      BuildAliveNodeInfoList_def hm_ok_def split: if_splits)

lemma inv_Start: "preserves broker_inv (MessageBroker_Start env now h)"
  unfolding MessageBroker_Start_def StartRecvSocketPuller_def StartPeriodicalTaskScheduler_def
  by (intro preserves_intros)
    (auto simp: Let_def broker_inv_defs BuildAliveNodeInfoList_def)

lemma inv_OnSpawned: "preserves broker_inv MessageBroker_ExActorOnSpawned"
  unfolding MessageBroker_ExActorOnSpawned_def
  by (intro preserves_intros) (auto simp: broker_inv_defs BuildAliveNodeInfoList_def)

lemma boot_inv:
  assumes run: "broker_boot env node_id config n1 n2 n3 = (Inr (), b)"
  shows "broker_inv b"
proof -
  obtain b1 where b1: "MessageBroker_ctor env n1 n2 (MessageBroker_init node_id config) = (Inr (), b1)"
      "thenE MessageBroker_ExActorOnSpawned (MessageBroker_Start env n3 True) b1 = (Inr (), b)"
    using run by (auto simp: broker_boot_def thenE_def bindE_def split: prod.splits sum.splits)
  have "broker_inv b1" using ctor_state [OF b1(1)] by simp
  then show ?thesis
    using b1(2) preservesD [OF preserves_thenE [OF inv_OnSpawned inv_Start]] by blast
qed

lemma inv_Broadcast: "net_ok env \<Longrightarrow> survives broker_inv (BroadcastGossip env draws n1 n2 n3)"
proof (rule survivesI)
  fix b r b'
  assume net: "net_ok env" and inv: "broker_inv b" and run: "BroadcastGossip env draws n1 n2 n3 b = (r, b')"
    and alive: "\<And>a. r \<noteq> Inl (Zmq_Error a)"
  show "broker_inv b'"
  proof (cases "nc_gossip_fanout (cl_network_config (br_cluster_config b)) = 0")
    case True
    obtain st where "map_of (br_nodes b) (br_this_node_id b) = Some st"
      using inv by (auto simp: broker_inv_def members_inv_def)
    then have "b' = touch (br_this_node_id b) (\<lambda>_. n1) b"
      using run True
      by (auto simp: BroadcastGossip_def GetRandomPeers_def bindE_def getE_def liftE_def MapAt_def thenE_def modE_def
          exa_throw_check_gt_def throwE_def touch_def)
    then show ?thesis using inv_touch [OF inv] by simp
  next
    case False
    then show ?thesis using inv_BroadcastGossip [OF net inv _ run] alive by (simp add: word_gt_0)
  qed
qed

lemma inv_Dispatch: "net_ok env \<Longrightarrow> survives broker_inv (DispatchReceivedMessage env raw)"
proof -
  assume net: "net_ok env"
  have "survives broker_inv (thenE (HandleGossipMessage env g) (retE Dispatch_Done))" for g
    by (intro survives_thenE inv_HandleGossip [OF net] preserves_survives preserves_retE)
  moreover have "survives broker_inv (bindE (getE br_this_node_id) (\<lambda>this.
      if tw_request_node_id m = this then thenE (HandleRepliedResponse m) (retE Dispatch_Done)
      else if tw_response_node_id m = this then bindE (HandleIncomingRequest_start m) (\<lambda>m. retE (Dispatch_Handle m))
      else exa_throw ''Received two-way message not addressed to this node''))" for m
    unfolding HandleIncomingRequest_start_def
    by (intro preserves_survives preserves_intros inv_HandleReplied)
  ultimately show ?thesis unfolding DispatchReceivedMessage_def
    by (intro survives_bindE preserves_survives [OF preserves_liftE]) (simp split: broker_message.split)
qed

lemma outcome_snd [simp]: "snd (outcome x) = snd x"
  by (auto simp: outcome_def split: prod.splits sum.splits)

lemma outcome_run: "outcome x = (e, b') \<Longrightarrow> \<not> connect_threw e \<Longrightarrow> \<exists>r. x = (r, b') \<and> (\<forall>a. r \<noteq> Inl (Zmq_Error a))"
  by (cases x) (auto simp: outcome_def connect_threw_def split: sum.splits)

lemma survives_outcome:
  assumes "survives Q f" "Q b" "outcome (f b) = (x, b')" "\<not> connect_threw x"
  shows "Q b'"
  using survivesD [OF assms(1,2)] outcome_run [OF assms(3,4)] by blast

lemma inv_event:
  assumes net: "net_ok env" and inv: "broker_inv b" and run: "broker_event_run env e b = (x, b')" "\<not> connect_threw x"
  shows "broker_inv b'"
proof -
  show ?thesis
  proof (cases e)
    case (Ev_Dispatch raw)
    then show ?thesis using survives_outcome [OF inv_Dispatch [OF net] inv] run by auto
  next
    case (Ev_Reply m d)
    then show ?thesis using survives_outcome [OF preserves_survives [OF inv_SendReply [OF net]] inv] run
      by (auto simp: HandleIncomingRequest_reply_def)
  next
    case (Ev_Broadcast draws n1 n2 n3)
    then show ?thesis using survives_outcome [OF inv_Broadcast [OF net] inv] run by auto
  next
    case (Ev_Heartbeat now)
    then show ?thesis using survives_outcome [OF preserves_survives [OF inv_CheckHeartbeatTimeout] inv] run by auto
  next
    case (Ev_Waiters now)
    then show ?thesis using survives_outcome [OF preserves_survives [OF inv_CheckWaiters] inv] run by auto
  next
    case (Ev_Request n d)
    then show ?thesis using survives_outcome [OF preserves_survives [OF inv_SendRequest [OF net]] inv] run by auto
  next
    case (Ev_Request_Resume i)
    then show ?thesis using inv_SendRequest_resume [OF inv, of i] run inv
      by (auto simp: outcome_def split: option.splits sum.splits prod.splits)
  next
    case (Ev_Wait p t now)
    then show ?thesis using survives_outcome [OF preserves_survives [OF inv_WaitClusterState] inv] run by auto
  next
    case (Ev_Wait_Resume i)
    then show ?thesis using inv_WaitClusterState_resume [OF inv, of i] run inv by (auto split: option.splits)
  qed
qed

lemma inv_reach: "broker_reach env node_id config b \<Longrightarrow> net_ok env \<Longrightarrow> broker_inv b"
  by (induction rule: broker_reach.induct) (auto intro: boot_inv inv_event [of "answering ok env" for ok env])

section \<open>Properties\<close>


text \<open>
  a gossip round reaches the right nodes: it sends one message, carrying
  every known node, to distinct connected peers other than this node, as many as the fanout
  asks for and there are, and one to the contact node if one is configured (whose socket can
  be built again when that is due).
\<close>

theorem gossip_round_sends:
  assumes "broker_reach env node_id config b" and "net_ok env"
    and "0 < nc_gossip_fanout (cl_network_config (br_cluster_config b))"
    and "be_connect_ok env (cl_contact_node_address (br_cluster_config b))"
  shows "\<exists>b' peers msg. BroadcastGossip env draws now1 now2 now3 b = (Inr (), b')
     \<and> distinct peers \<and> br_this_node_id b \<notin> set peers
     \<and> length peers = min (unat (nc_gossip_fanout (cl_network_config (br_cluster_config b)))) (length (br_nodes b) - 1)
     \<and> msg = gossip_message env (touch (br_this_node_id b) (\<lambda>_. now1) b)
     \<and> br_wire b' = br_wire b
        @ map (\<lambda>n. (connected_to (the (map_of (br_nodes b) n)), msg)) peers
        @ (case br_contact_socket b of None \<Rightarrow> [] | Some sk \<Rightarrow> [(sk, msg)])"
proof -
  have inv: "broker_inv b" using inv_reach [OF assms(1,2)] .
  define c where "c = touch (br_this_node_id b) (\<lambda>_. now1) b"
  define peers where "peers = random_peers draws (nc_gossip_fanout (cl_network_config (br_cluster_config b))) c"
  have m: "members_inv b" "members_inv c" using inv members_touch by (auto simp: broker_inv_def c_def)
  have keys: "map fst (br_nodes c) = map fst (br_nodes b)" by (simp add: c_def touch_def)
  then have len: "length (br_nodes c) = length (br_nodes b)" by (metis length_map)
  have peer: "distinct peers" "br_this_node_id b \<notin> set peers"
      "length peers = min (unat (nc_gossip_fanout (cl_network_config (br_cluster_config b)))) (length (br_nodes b) - 1)"
    using random_peers_spec [OF m(2)] random_peers_set [of draws _ c] len by (auto simp: peers_def c_def)
  have sock: "the (map_of (br_sockets b) n) = connected_to (the (map_of (br_nodes b) n))" if n: "n \<in> set peers" for n
  proof -
    have "n \<in> fst ` set (br_nodes b)" "n \<noteq> br_this_node_id b"
      using random_peers_set [of draws _ c] n arg_cong [OF keys, of set] by (auto simp: peers_def c_def)
    moreover from this obtain st where "map_of (br_nodes b) n = Some st" by (metis map_of_eq_None_iff not_None_eq)
    ultimately show ?thesis using members_known [OF m(1)] by simp
  qed
  have "br_wire (gossip_state env draws now1 now2 now3 b) = br_wire b
        @ map (\<lambda>n. (connected_to (the (map_of (br_nodes b) n)), gossip_message env c)) peers
        @ (case br_contact_socket b of None \<Rightarrow> [] | Some sk \<Rightarrow> [(sk, gossip_message env c)])"
    using sock by (auto simp: gossip_state_def Let_def after_contact_def c_def [symmetric] peers_def [symmetric]
        split: option.splits) (simp_all add: c_def)
  then show ?thesis
    using BroadcastGossip_run [OF assms(2) inv assms(4,3)] peer unfolding c_def by blast
qed

section \<open>Heartbeats\<close>

lemma lost_states_nodes: "map_of (br_nodes (foldl (\<lambda>b n. lost_state n b) b ns)) m
    = (if m \<in> set ns then None else map_of (br_nodes b) m)"
  by (induction ns arbitrary: b) (auto simp: lost_state_def)

definition failed_request :: "u64 \<Rightarrow> outstanding_request \<Rightarrow> outstanding_request" where
  "failed_request n r = r\<lparr>or_exception_ptr := Some (Network_Error n ''Node is dead, cannot complete request''),
     or_sem := or_sem r - 1\<rparr>"

lemma lost_states_requests: "distinct ns \<Longrightarrow>
    map_of (br_outstanding_requests (foldl (\<lambda>b n. lost_state n b) b ns)) i
    = map_option (\<lambda>r. if or_response_node_id r \<in> set ns then failed_request (or_response_node_id r) r else r)
        (map_of (br_outstanding_requests b) i)"
proof (induction ns arbitrary: b)
  case (Cons n ns)
  have "map_of (br_outstanding_requests (lost_state n b)) i = map_option (\<lambda>r. if or_response_node_id r = n
     then failed_request n r else r) (map_of (br_outstanding_requests b) i)"
    unfolding failed_request_def by (simp add: lost_state_def map_of_fail)
  then show ?case using Cons
    by (cases "map_of (br_outstanding_requests b) i") (auto simp: failed_request_def)
qed (simp add: option.map_ident)

text \<open>When a node counts as silent, in numbers: its time stamp is in the past by the timeout or more.\<close>

definition silent :: "broker \<Rightarrow> u64 \<Rightarrow> node_state \<Rightarrow> bool" where
  "silent b now st \<longleftrightarrow> ns_node_id st \<noteq> br_this_node_id b \<and> unat (ns_last_seen_timestamp_ms st) < unat now
     \<and> unat (ns_last_seen_timestamp_ms st)
         + unat (nc_heartbeat_timeout_ms (cl_network_config (br_cluster_config b))) \<le> unat now"

lemma expired_iff_silent: "ns_node_id st = n \<Longrightarrow> heartbeat_expired b now (n, st) = silent b now st"
  by (auto simp: heartbeat_expired_def silent_def word_le_nat_alt word_less_nat_alt unat_sub not_less not_le)

text \<open>
  C19: a heartbeat check forgets exactly the silent nodes, those whose last sign of life is in
  the past by at least the timeout (a time stamp ahead of the clock never counts as silent,
  this node never does), and fails exactly the requests that wait for them, with a network
  error naming the node; it touches no other node and no other request.
\<close>

theorem heartbeat_check_drops_silent_nodes:
  assumes "broker_reach env node_id config b" and "net_ok env" and "CheckHeartbeatTimeout now b = (r, b')"
  shows "r = Inr ()
     \<and> (\<forall>n. map_of (br_nodes b') n = (case map_of (br_nodes b) n of
           None \<Rightarrow> None | Some st \<Rightarrow> if silent b now st then None else Some st))
     \<and> (\<forall>i. map_of (br_outstanding_requests b') i = map_option (\<lambda>q.
           if (\<exists>st. map_of (br_nodes b) (or_response_node_id q) = Some st \<and> silent b now st)
           then failed_request (or_response_node_id q) q else q) (map_of (br_outstanding_requests b) i))"
proof (intro conjI allI)
  have m: "members_inv b" using inv_reach [OF assms(1,2)] by (simp add: broker_inv_def)
  define ns where "ns = map fst (filter (heartbeat_expired b now) (br_nodes b))"
  have run: "r = Inr ()" "b' = foldl (\<lambda>b n. lost_state n b) b ns"
    using assms(3) by (simp_all add: CheckHeartbeatTimeout_run ns_def)
  have "distinct (map fst (br_nodes b))" using m by (simp add: members_inv_def hm_ok_def)
  then have d: "distinct ns" by (simp add: ns_def distinct_map_filter)
  have mem: "k \<in> set ns \<longleftrightarrow> (\<exists>st. map_of (br_nodes b) k = Some st \<and> silent b now st)" for k
  proof -
    have "k \<in> set ns \<longleftrightarrow> (\<exists>st. (k, st) \<in> set (br_nodes b) \<and> heartbeat_expired b now (k, st))"
      by (force simp: ns_def)
    also have "\<dots> \<longleftrightarrow> (\<exists>st. map_of (br_nodes b) k = Some st \<and> silent b now st)"
      using m set_of_map_of expired_iff_silent by (metis (no_types, lifting) members_inv_def)
    finally show ?thesis .
  qed
  show "r = Inr ()" by (rule run(1))
  show "map_of (br_nodes b') n = (case map_of (br_nodes b) n of
           None \<Rightarrow> None | Some st \<Rightarrow> if silent b now st then None else Some st)" for n
    by (simp add: run(2) lost_states_nodes mem split: option.splits)
  show "map_of (br_outstanding_requests b') i = map_option (\<lambda>q.
           if (\<exists>st. map_of (br_nodes b) (or_response_node_id q) = Some st \<and> silent b now st)
           then failed_request (or_response_node_id q) q else q) (map_of (br_outstanding_requests b) i)" for i
    by (simp add: run(2) lost_states_requests [OF d] mem)
qed

section \<open>Gossip merges\<close>

lemma alive_state_nodes [simp]: "br_nodes (alive_state env n st b) = br_nodes b"
  by (simp add: alive_state_def Let_def)

definition newer :: "node_state \<Rightarrow> node_state \<Rightarrow> bool" where
  "newer c s \<longleftrightarrow> ns_node_id c = ns_node_id s \<and> ns_address c = ns_address s \<and> ns_node_name c = ns_node_name s
     \<and> ns_last_seen_timestamp_ms s \<le> ns_last_seen_timestamp_ms c"

lemma newer_refl [simp]: "newer s s"
  by (simp add: newer_def)

lemma newer_trans: "newer a b \<Longrightarrow> newer b c \<Longrightarrow> newer a c"
  by (auto simp: newer_def)

lemma gossip_one_merge:
  assumes net: "net_ok env" and inv: "broker_inv b" and run: "HandleGossip_one env st b = (Inr (), b')"
  shows "(\<exists>c. map_of (br_nodes b') (ns_node_id st) = Some c \<and> newer c st)
     \<and> (\<forall>n cur. map_of (br_nodes b) n = Some cur \<longrightarrow> (\<exists>c. map_of (br_nodes b') n = Some c \<and> newer c cur))
     \<and> (\<forall>n c. map_of (br_nodes b') n = Some c \<longrightarrow>
          (\<exists>s. (map_of (br_nodes b) n = Some s \<or> s = st \<and> n = ns_node_id st)
             \<and> ns_last_seen_timestamp_ms c = ns_last_seen_timestamp_ms s))"
proof (cases "map_of (br_nodes b) (ns_node_id st)")
  case None
  then have "be_connect_ok env (ns_address st)" using HandleGossip_refused [of env st b] run by auto
  then have b': "br_nodes b' = AList.update (ns_node_id st) st (br_nodes b)"
    using HandleGossip_new(1) [OF net _ inv None] run by auto
  then show ?thesis using None by (auto intro: exI [of _ st] newer_refl)
next
  case (Some cur)
  have id: "ns_node_id cur = ns_node_id st" using inv Some by (auto simp: broker_inv_def members_inv_def)
  have ok: "ns_address cur = ns_address st" "ns_node_name cur = ns_node_name st"
      "b' = touch (ns_node_id st) (\<lambda>t. max t (ns_last_seen_timestamp_ms st)) b"
    using HandleGossip_known [OF Some, of env] run by (auto split: if_splits)
  have at: "map_of (br_nodes b') n = (if n = ns_node_id st
      then Some (cur\<lparr>ns_last_seen_timestamp_ms := max (ns_last_seen_timestamp_ms cur) (ns_last_seen_timestamp_ms st)\<rparr>)
      else map_of (br_nodes b) n)" for n
    using Some by (cases "map_of (br_nodes b) n") (auto simp: ok(3) map_of_touch)
  have 1: "\<exists>c. map_of (br_nodes b') (ns_node_id st) = Some c \<and> newer c st"
    using ok(1,2) id by (simp add: at newer_def)
  have 2: "\<exists>c. map_of (br_nodes b') n = Some c \<and> newer c x" if "map_of (br_nodes b) n = Some x" for n x
    using that Some by (auto simp: at newer_def)
  have 3: "\<exists>s. (map_of (br_nodes b) n = Some s \<or> s = st \<and> n = ns_node_id st)
      \<and> ns_last_seen_timestamp_ms c = ns_last_seen_timestamp_ms s" if c: "map_of (br_nodes b') n = Some c" for n c
  proof (cases "n = ns_node_id st")
    case True
    then have "ns_last_seen_timestamp_ms c = ns_last_seen_timestamp_ms cur
        \<or> ns_last_seen_timestamp_ms c = ns_last_seen_timestamp_ms st" using c by (auto simp: at max_def)
    then show ?thesis using True Some by blast
  next
    case False
    then show ?thesis using c at by auto
  qed
  show ?thesis using 1 2 3 by blast
qed

text \<open>
  C18: gossip is merged, never lost and never turned back. When a gossip message has been
  handled without an address or name conflict, every node it names is known with a time
  stamp at least as new as the message's, every node known before is still known, unchanged
  but for a time stamp that has not decreased, and no time stamp is invented: each is one
  known before or one of the message.
\<close>

theorem gossip_merges_states:
  assumes "broker_reach env node_id config b" and "net_ok env" and "HandleGossipMessage env g b = (Inr (), b')"
  shows "(\<forall>st \<in> set (gm_node_states g). \<exists>c. map_of (br_nodes b') (ns_node_id st) = Some c \<and> newer c st)
     \<and> (\<forall>n cur. map_of (br_nodes b) n = Some cur \<longrightarrow> (\<exists>c. map_of (br_nodes b') n = Some c \<and> newer c cur))
     \<and> (\<forall>n c. map_of (br_nodes b') n = Some c \<longrightarrow>
          (\<exists>s. (map_of (br_nodes b) n = Some s \<or> s \<in> set (gm_node_states g) \<and> n = ns_node_id s)
             \<and> ns_last_seen_timestamp_ms c = ns_last_seen_timestamp_ms s))"
proof -
  have main: "(\<forall>st \<in> set sts. \<exists>c. map_of (br_nodes b') (ns_node_id st) = Some c \<and> newer c st)
     \<and> (\<forall>n cur. map_of (br_nodes b) n = Some cur \<longrightarrow> (\<exists>c. map_of (br_nodes b') n = Some c \<and> newer c cur))
     \<and> (\<forall>n c. map_of (br_nodes b') n = Some c \<longrightarrow>
          (\<exists>s. (map_of (br_nodes b) n = Some s \<or> s \<in> set sts \<and> n = ns_node_id s)
             \<and> ns_last_seen_timestamp_ms c = ns_last_seen_timestamp_ms s))"
    if "broker_inv b" "forE (HandleGossip_one env) sts b = (Inr (), b')" for sts b b'
    using that
  proof (induction sts arbitrary: b)
    case Nil
    then show ?case by (auto simp: retE_def)
  next
    case (Cons s sts)
    obtain b1 where b1: "HandleGossip_one env s b = (Inr (), b1)" "forE (HandleGossip_one env) sts b1 = (Inr (), b')"
      using Cons.prems(2) by (auto simp: thenE_def bindE_def split: prod.splits sum.splits)
    have inv1: "broker_inv b1" using survivesD [OF inv_gossip_one [OF assms(2)] Cons.prems(1) b1(1)] by simp
    note one = gossip_one_merge [OF assms(2) Cons.prems(1) b1(1)]
    note IH = Cons.IH [OF inv1 b1(2)]
    have 1: "\<exists>c. map_of (br_nodes b') (ns_node_id st) = Some c \<and> newer c st" if "st \<in> set (s # sts)" for st
    proof (cases "st = s")
      case True
      then obtain c1 where "map_of (br_nodes b1) (ns_node_id st) = Some c1" "newer c1 st" using one by blast
      then show ?thesis using IH newer_trans by blast
    next
      case False
      then show ?thesis using that IH by simp
    qed
    have 2: "\<exists>c. map_of (br_nodes b') n = Some c \<and> newer c cur" if known: "map_of (br_nodes b) n = Some cur" for n cur
    proof -
      obtain c1 where "map_of (br_nodes b1) n = Some c1" "newer c1 cur" using one known by blast
      then show ?thesis using IH newer_trans by blast
    qed
    have 3: "\<exists>q. (map_of (br_nodes b) n = Some q \<or> q \<in> set (s # sts) \<and> n = ns_node_id q)
             \<and> ns_last_seen_timestamp_ms c = ns_last_seen_timestamp_ms q" if known: "map_of (br_nodes b') n = Some c" for n c
    proof -
      obtain q where q: "map_of (br_nodes b1) n = Some q \<or> q \<in> set sts \<and> n = ns_node_id q"
          "ns_last_seen_timestamp_ms c = ns_last_seen_timestamp_ms q" using IH known by blast
      then show ?thesis
        using one by (metis list.set_intros(1,2))
    qed
    show ?case using 1 2 3 by blast
  qed
  have inv: "broker_inv b" using inv_reach [OF assms(1,2)] .
  show ?thesis by (rule main [OF inv, of "gm_node_states g" b', folded HandleGossipMessage_def, OF assms(3)])
qed

section \<open>Requests\<close>

text \<open>The numbers of outstanding requests are below the counter, which counts at most the events.\<close>

definition ids_below :: "broker \<Rightarrow> nat \<Rightarrow> bool" where
  "ids_below b k \<longleftrightarrow> unat (br_send_request_id_counter b) \<le> k
     \<and> (\<forall>i. i \<in> dom (map_of (br_outstanding_requests b)) \<longrightarrow> unat i < unat (br_send_request_id_counter b))"

definition request_keys :: "broker \<Rightarrow> u64 set" where
  "request_keys b = dom (map_of (br_outstanding_requests b))"

lemma request_keys_cong: "br_outstanding_requests b = br_outstanding_requests c \<Longrightarrow> request_keys b = request_keys c"
  by (simp add: request_keys_def)

definition same_ids :: "broker \<Rightarrow> broker \<Rightarrow> bool" where
  "same_ids b b' \<longleftrightarrow> br_send_request_id_counter b' = br_send_request_id_counter b
     \<and> request_keys b' \<subseteq> request_keys b"

lemma same_ids_refl [simp]: "same_ids b b"
  by (simp add: same_ids_def)

lemma same_ids_trans: "same_ids a b \<Longrightarrow> same_ids b c \<Longrightarrow> same_ids a c"
  unfolding same_ids_def by auto

lemma same_ids_below: "same_ids b b' \<Longrightarrow> ids_below b k \<Longrightarrow> ids_below b' k"
  unfolding same_ids_def ids_below_def request_keys_def by auto

text \<open>A method that changes neither the counter nor the keys, stated as a preserved predicate.\<close>

lemma same_ids_run: "preserves (same_ids b0) m \<Longrightarrow> same_ids b0 (snd (m b0))"
  by (rule preserves_snd) simp_all

lemma ids_SendReply: "preserves (same_ids b0) (SendReply env n i d)"
  unfolding SendReply_def ZmqSendOrDie_def
  by (intro preserves_intros | simp add: same_ids_def request_keys_def)+

lemma ids_Evaluate: "preserves (same_ids b0) EvaluateClusterStateWaiters"
  unfolding EvaluateClusterStateWaiters_def by (intro preserves_intros) (simp add: same_ids_def request_keys_def Let_def)

lemma ids_OnNodeAlive: "preserves (same_ids b0) (OnNodeAlive env n)"
  unfolding OnNodeAlive_def
  by (intro preserves_intros ids_SendReply ids_Evaluate | simp add: same_ids_def request_keys_def)+

lemma ids_Gossip: "preserves (same_ids b0) (HandleGossipMessage env g)"
  unfolding HandleGossipMessage_def HandleGossip_one_def
  by (intro preserves_intros ids_OnNodeAlive | simp add: same_ids_def request_keys_def)+

lemma dom_fail: "dom (map_of (fail_requests n rs)) = dom (map_of rs)"
  by (auto simp: map_of_fail)

lemma ids_Lost: "preserves (same_ids b0) (CheckHeartbeatTimeout now)"
  unfolding CheckHeartbeatTimeout_def
proof (intro preserves_intros, rule preservesI)
  fix n b r b'
  assume "same_ids b0 b" "OnNodeConnectionLost n b = (r, b')"
  then have "br_outstanding_requests b' = fail_requests n (br_outstanding_requests b)"
      "br_send_request_id_counter b' = br_send_request_id_counter b" "same_ids b0 b"
    by (auto simp: OnNodeConnectionLost_run lost_state_def)
  then show "same_ids b0 b'" by (simp add: same_ids_def request_keys_def dom_fail)
qed

lemma ids_Replied: "preserves (same_ids b0) (HandleRepliedResponse m)"
  by (rule preservesI) (auto simp: HandleReplied_run same_ids_def request_keys_def)

lemma ids_Dispatch: "preserves (same_ids b0) (DispatchReceivedMessage env raw)"
  unfolding DispatchReceivedMessage_def HandleIncomingRequest_start_def
  by (intro preserves_intros ids_Gossip ids_Replied | simp split: broker_message.split
      | intro allI impI conjI preserves_intros ids_Gossip ids_Replied)+

lemma ids_Broadcast: "preserves (same_ids b0) (BroadcastGossip env draws n1 n2 n3)"
  unfolding BroadcastGossip_def gossip_to_peer_def gossip_to_contact_def GetRandomPeers_def ZmqSendOrDie_def
    ConnectContactSendSocket_def Let_def
  by (intro preserves_intros | simp add: same_ids_def request_keys_def)+

lemma ids_Waiters: "preserves (same_ids b0) (CheckClusterStateWaiterTimeout now)"
  unfolding CheckClusterStateWaiterTimeout_def
  by (intro preserves_intros) (simp add: same_ids_def request_keys_def)

lemma ids_Wait: "preserves (same_ids b0) (WaitClusterState_start p t now)"
  unfolding WaitClusterState_start_def
  by (intro preserves_intros | simp add: same_ids_def request_keys_def)+

lemma ids_Request:
  assumes net: "net_ok env" and inv: "broker_inv b" and ids: "ids_below b k" and k: "Suc k < 2 ^ 64"
  shows "ids_below (snd (SendRequest_start env n d b)) (Suc k)"
proof -
  have m: "members_inv b" using inv by (simp add: broker_inv_def)
  have c: "unat (br_send_request_id_counter b) \<le> k"
      "\<And>i. i \<in> dom (map_of (br_outstanding_requests b)) \<Longrightarrow> unat i < unat (br_send_request_id_counter b)"
    using ids unfolding ids_below_def by blast+
  then have succ: "unat (br_send_request_id_counter b + 1) = Suc (unat (br_send_request_id_counter b))"
    using k by (simp add: unat_word_ariths)
  show ?thesis
    using SendRequest_run [OF net m, of n d] c succ
    by (auto simp: ids_below_def Let_def less_Suc_eq split: option.splits)
qed

lemma ids_event:
  assumes net: "net_ok env" and inv: "broker_inv b" and ids: "ids_below b k" and k: "Suc k < 2 ^ 64"
  shows "ids_below (snd (broker_event_run env e b)) (Suc k)"
proof (cases "\<exists>n d. e = Ev_Request n d")
  case True
  then show ?thesis using ids_Request [OF assms] by auto
next
  case False
  have "same_ids b (snd (broker_event_run env e b))"
  proof (cases e)
    case (Ev_Request_Resume i)
    then show ?thesis
      by (auto simp: SendRequest_resume_def same_ids_def request_keys_def split: option.splits)
  next
    case (Ev_Wait_Resume i)
    then show ?thesis
      by (auto simp: WaitClusterState_resume_def same_ids_def request_keys_def split: option.splits)
  qed (use False in \<open>auto simp: HandleIncomingRequest_reply_def
      intro: same_ids_run ids_Dispatch ids_SendReply ids_Broadcast ids_Lost ids_Waiters ids_Wait\<close>)
  then have "ids_below (snd (broker_event_run env e b)) k" using same_ids_below ids by blast
  then show ?thesis by (auto simp: ids_below_def)
qed

lemma ids_run:
  "net_ok env \<Longrightarrow> broker_inv b \<Longrightarrow> ids_below b k \<Longrightarrow> k + length es < 2 ^ 64 - 1 \<Longrightarrow>
   broker_run env es b = Some b' \<Longrightarrow> ids_below b' (k + length es)"
proof (induction es arbitrary: b k)
  case (Cons oe es)
  obtain ok e where oe: "oe = (ok, e)" by fastforce
  obtain x b1 where run: "broker_event_run (answering ok env) e b = (x, b1)" by fastforce
  have rest: "\<not> connect_threw x" "broker_run env es b1 = Some b'" using Cons.prems(5) by (simp_all add: oe run split: if_splits)
  have "ids_below b1 (Suc k)"
    using ids_event [of "answering ok env" b k e] Cons.prems by (simp add: run)
  moreover have "broker_inv b1" using inv_event [OF _ Cons.prems(2) run rest(1)] Cons.prems(1) by simp
  ultimately show ?case using Cons.IH [of b1 "Suc k"] Cons.prems rest by simp
qed simp

lemma boot_ids: "broker_boot env node_id config n1 n2 n3 = (Inr (), b) \<Longrightarrow> ids_below b 0"
  by (auto simp: broker_boot_def MessageBroker_ctor_def MessageBroker_init_def MessageBroker_Start_def
      MessageBroker_ExActorOnSpawned_def StartRecvSocketPuller_def StartPeriodicalTaskScheduler_def eff_defs
      ConnectContactSendSocket_def ids_below_def Let_def split: if_splits)

text \<open>
  C16: a request gets its response. After any number of events (below \<open>2 ^ 64 - 1\<close>) that the
  process survives, a request
  to a connected node gets a number no outstanding request has and is sent to that node;
  when the response with that number arrives, the request, and no other, resumes with
  exactly the payload of the response, and its entry is gone.
\<close>

theorem request_gets_its_response:
  assumes "net_ok env" and "broker_boot env node_id config n1 n2 n3 = (Inr (), b0)"
    and "broker_run env es b0 = Some b" and "length es < 2 ^ 64 - 1"
    and "n \<noteq> br_this_node_id b" and "map_of (br_sockets b) n = Some sk"
    and "dec_broker (be_codec env) raw = Inr (Two_Way m)" and "tw_request_node_id m = br_this_node_id b"
    and "tw_request_id m = br_send_request_id_counter b"
  shows "\<exists>b1 b2 b3. SendRequest_start env n data b = (Inr (br_send_request_id_counter b), b1)
     \<and> map_of (br_outstanding_requests b) (br_send_request_id_counter b) = None
     \<and> br_wire b1 = br_wire b @ [(sk, request_message env b n data)]
     \<and> DispatchReceivedMessage env raw b1 = (Inr Dispatch_Done, b2)
     \<and> SendRequest_resume (br_send_request_id_counter b) b2 = Some (Inr (tw_payload m), b3)
     \<and> map_of (br_outstanding_requests b3) = map_of (br_outstanding_requests b)"
proof -
  define i where "i = br_send_request_id_counter b"
  have inv0: "broker_inv b0" using boot_inv [OF assms(2)] .
  have inv: "broker_inv b"
    using inv_reach [OF broker_reach_run [OF boot [OF assms(2)] assms(3)] assms(1)] .
  have m: "members_inv b" using inv by (simp add: broker_inv_def)
  have "ids_below b (0 + length es)"
    using ids_run [OF assms(1) inv0 boot_ids [OF assms(2)] _ assms(3)] assms(4) by simp
  then have "i \<notin> dom (map_of (br_outstanding_requests b))" unfolding ids_below_def i_def by blast
  then have fresh: "map_of (br_outstanding_requests b) i = None" by auto
  define req where "req = \<lparr>or_sem = 1, or_response_bytes = [], or_exception_ptr = None, or_response_node_id = n\<rparr>"
  define b1 where "b1 = b\<lparr>br_send_request_id_counter := i + 1,
      br_wire := br_wire b @ [(sk, request_message env b n data)],
      br_outstanding_requests := AList.update i req (br_outstanding_requests b)\<rparr>"
  have start: "SendRequest_start env n data b = (Inr i, b1)"
    using SendRequest_run [OF assms(1) m, of n data] assms(5,6) fresh
    by (simp add: i_def [symmetric] Let_def b1_def req_def hm_contains_def)
  define b2 where "b2 = b1\<lparr>br_outstanding_requests := hm_adjust i
      (\<lambda>p. p\<lparr>or_response_bytes := tw_payload m, or_sem := or_sem p - 1\<rparr>) (br_outstanding_requests b1)\<rparr>"
  have dispatch: "DispatchReceivedMessage env raw b1 = (Inr Dispatch_Done, b2)"
    using assms(7,8,9)
    by (simp add: DispatchReceivedMessage_def bindE_def liftE_def getE_def thenE_def retE_def HandleReplied_run
        b2_def i_def [symmetric]) (simp add: b1_def)
  have at: "map_of (br_outstanding_requests b2) i
      = Some (req\<lparr>or_response_bytes := tw_payload m, or_sem := or_sem req - 1\<rparr>)"
    by (simp add: b2_def map_of_adjust b1_def)
  define b3 where "b3 = b2\<lparr>br_outstanding_requests := AList.delete i (br_outstanding_requests b2)\<rparr>"
  have resume: "SendRequest_resume i b2 = Some (Inr (tw_payload m), b3)"
    by (simp add: SendRequest_resume_def at b3_def) (simp add: req_def)
  have "map_of (br_outstanding_requests b3) j = map_of (br_outstanding_requests b) j" for j
    using fresh by (simp add: b3_def b2_def b1_def map_of_adjust)
  then have "map_of (br_outstanding_requests b3) = map_of (br_outstanding_requests b)" by (rule ext)
  then show ?thesis
    using start fresh dispatch resume unfolding i_def [symmetric]
    by - (rule exI [of _ b1], rule exI [of _ b2], rule exI [of _ b3], simp add: b1_def)
qed

text \<open>
  C20: a reply to a node that has not been discovered yet is kept, and when gossip introduces
  the node and \<open>connect\<close> accepts its address, the replies kept for it are sent to it, oldest
  first, each once, this one last, and no reply is kept for it any more. When \<open>connect\<close> throws,
  nothing is sent and the error leaves the handler of the message, which ends the process.
\<close>

theorem deferred_replies_are_flushed:
  assumes "broker_reach env node_id config b" and "net_ok env" and "map_of (br_nodes b) (ns_node_id st) = None"
  shows "\<exists>b1 b2. SendReply env (ns_node_id st) i d b = (Inr (), b1) \<and> br_wire b1 = br_wire b
     \<and> (if be_connect_ok env (ns_address st)
        then HandleGossip_one env st b1 = (Inr (), b2)
          \<and> br_wire b2 = br_wire b @ flush_messages env (br_this_node_id b) st
              ((case map_of (br_deferred_replies b) (ns_node_id st) of None \<Rightarrow> [] | Some rs \<Rightarrow> rs)
               @ [\<lparr>ro_request_node_id = ns_node_id st, ro_request_id = i, ro_data = d\<rparr>])
          \<and> map_of (br_deferred_replies b2) (ns_node_id st) = None
        else HandleGossip_one env st b1 = (Inl (Zmq_Error (ns_address st)), b2) \<and> br_wire b2 = br_wire b)"
proof -
  have inv: "broker_inv b" using inv_reach [OF assms(1,2)] .
  then have m: "members_inv b" by (simp add: broker_inv_def)
  have "ns_node_id st \<noteq> br_this_node_id b" using m assms(3) by (auto simp: members_inv_def)
  then have "map_of (br_sockets b) (ns_node_id st) = None" using m assms(3) by (simp add: members_inv_def)
  then obtain b1 where b1: "SendReply env (ns_node_id st) i d b = (Inr (), b1)"
      "b1 = b\<lparr>br_deferred_replies := AList.update (ns_node_id st)
         ((case map_of (br_deferred_replies b) (ns_node_id st) of None \<Rightarrow> [] | Some rs \<Rightarrow> rs)
          @ [\<lparr>ro_request_node_id = ns_node_id st, ro_request_id = i, ro_data = d\<rparr>]) (br_deferred_replies b)\<rparr>"
    by (simp add: SendReply_def bindE_def getE_def modE_def)
  have inv1: "broker_inv b1" using preservesD [OF inv_SendReply [OF assms(2)] inv b1(1)] .
  have new: "map_of (br_nodes b1) (ns_node_id st) = None" using assms(3) by (simp add: b1(2))
  define b2 where "b2 = alive_state env (ns_node_id st) st
      (b1\<lparr>br_nodes := AList.update (ns_node_id st) st (br_nodes b1)\<rparr>)"
  have "br_wire b2 = br_wire b @ flush_messages env (br_this_node_id b) st
         ((case map_of (br_deferred_replies b) (ns_node_id st) of None \<Rightarrow> [] | Some rs \<Rightarrow> rs)
          @ [\<lparr>ro_request_node_id = ns_node_id st, ro_request_id = i, ro_data = d\<rparr>])"
    "map_of (br_deferred_replies b2) (ns_node_id st) = None" "br_wire b1 = br_wire b"
    by (simp_all add: b2_def alive_state_def Let_def b1(2))
  then show ?thesis
    using b1(1) HandleGossip_new(1) [OF assms(2) _ inv1 new] HandleGossip_refused [OF _ new, of env]
    unfolding b2_def [symmetric] by (cases "be_connect_ok env (ns_address st)") auto
qed

section \<open>Waiters\<close>

lemma find_map_unique:
  "distinct (map f xs) \<Longrightarrow> x \<in> set xs \<Longrightarrow> find (\<lambda>y. f y = f x) xs = Some x"
proof (induction xs)
  case (Cons a xs)
  show ?case
  proof (cases "f a = f x")
    case True
    have "a = x"
    proof (rule ccontr)
      assume "a \<noteq> x"
      then have "f a \<in> f ` set xs" using Cons.prems(2) True by auto
      then show False using Cons.prems(1) by simp
    qed
    then show ?thesis by simp
  next
    case False
    then show ?thesis using Cons by auto
  qed
qed simp

lemma find_snoc: "find P xs = None \<Longrightarrow> P x \<Longrightarrow> find P (xs @ [x]) = Some x"
  by (induction xs) (auto split: if_splits)

text \<open>
  C21: a wait for a cluster state ends. In every reachable state, after the next check of the
  deadlines, each waiter whose condition holds or was ever seen to hold, or whose deadline
  has passed, can go on; it reports the current nodes, and that the condition was met
  exactly when it has been seen to hold.
\<close>

theorem cluster_wait_ends:
  assumes "broker_reach env node_id config b" and "net_ok env" and "w \<in> set (br_waiters b)"
    and "wt_predicate w (BuildAliveNodeInfoList b) \<or> wt_condition_met w \<or> wt_deadline_ms w \<le> now"
    and "CheckClusterStateWaiterTimeout now b = (r, b1)"
  shows "(\<exists>b2. WaitClusterState_resume (wt_id w) b1 = Some ((BuildAliveNodeInfoList b, wt_condition_met w), b2)
       \<and> wt_id w \<notin> wt_id ` set (br_waiters b2))
     \<and> (wt_predicate w (BuildAliveNodeInfoList b) \<longrightarrow> wt_condition_met w)"
proof (intro conjI)
  have inv: "waiters_inv b" using inv_reach [OF assms(1,2)] by (simp add: broker_inv_def)
  define g where "g = (\<lambda>w :: cluster_state_waiter. if \<not> wt_condition_met w \<and> wt_deadline_ms w \<le> now
      then w\<lparr>wt_sem := wt_sem w - 1\<rparr> else w)"
  have b1: "br_waiters b1 = map g (br_waiters b)" "br_nodes b1 = br_nodes b"
    using assms(5) by (auto simp: CheckClusterStateWaiterTimeout_def modE_def g_def)
  have gid: "wt_id (g v) = wt_id v" "wt_condition_met (g v) = wt_condition_met v" for v by (simp_all add: g_def)
  have "distinct (map wt_id (br_waiters b1))" using inv gid by (simp add: waiters_inv_def b1(1) comp_def)
  moreover have "g w \<in> set (br_waiters b1)" using assms(3) by (simp add: b1(1))
  ultimately have found: "find_waiter (wt_id w) b1 = Some (g w)"
    using find_map_unique [of wt_id "br_waiters b1" "g w"] by (simp add: find_waiter_def gid)
  have w: "wt_predicate w (BuildAliveNodeInfoList b) \<longrightarrow> wt_condition_met w" "wt_condition_met w \<longrightarrow> wt_sem w \<le> 0"
      "wt_sem w \<le> 1"
    using inv assms(3) by (auto simp: waiters_inv_def)
  have sem: "wt_sem (g w) \<le> 0" using assms(4) w by (auto simp: g_def)
  have nodes: "BuildAliveNodeInfoList b1 = BuildAliveNodeInfoList b" by (simp add: BuildAliveNodeInfoList_def b1(2))
  have "WaitClusterState_resume (wt_id w) b1 = Some ((BuildAliveNodeInfoList b, wt_condition_met w),
      b1\<lparr>br_waiters := filter (\<lambda>v. wt_id v \<noteq> wt_id w) (br_waiters b1)\<rparr>)"
    using found sem gid nodes by (simp add: WaitClusterState_resume_def)
  then show "\<exists>b2. WaitClusterState_resume (wt_id w) b1 = Some ((BuildAliveNodeInfoList b, wt_condition_met w), b2)
     \<and> wt_id w \<notin> wt_id ` set (br_waiters b2)" by auto
  show "wt_predicate w (BuildAliveNodeInfoList b) \<longrightarrow> wt_condition_met w" using w(1) by blast
qed

text \<open>
  a very long timeout is a very short one: with the largest timeout the deadline wraps
  around to the millisecond before the call, and the next check ends the wait, with its
  condition unmet.
\<close>

theorem longest_timeout_expires_at_once:
  assumes "0 < now" and "now \<le> now'" and "\<not> p (BuildAliveNodeInfoList b)" and "waiters_inv b"
  shows "\<exists>b1 b2 b3. WaitClusterState_start p (- 1) now b = (Inr (Wait_Suspended (br_next_waiter b)), b1)
     \<and> CheckClusterStateWaiterTimeout now' b1 = (Inr (), b2)
     \<and> WaitClusterState_resume (br_next_waiter b) b2 = Some ((BuildAliveNodeInfoList b, False), b3)"
proof -
  define w where "w = \<lparr>wt_id = br_next_waiter b, wt_sem = 1, wt_deadline_ms = now + (- 1), wt_condition_met = False,
      wt_predicate = p\<rparr>"
  define b1 where "b1 = b\<lparr>br_waiters := br_waiters b @ [w], br_next_waiter := Suc (br_next_waiter b)\<rparr>"
  have start: "WaitClusterState_start p (- 1) now b = (Inr (Wait_Suspended (br_next_waiter b)), b1)"
    using assms(3) by (simp add: WaitClusterState_run b1_def w_def)
  have "now - 1 \<le> now'" using assms(1,2) by (simp add: word_le_nat_alt word_less_nat_alt unat_sub)
  define g where "g = (\<lambda>w :: cluster_state_waiter. if \<not> wt_condition_met w \<and> wt_deadline_ms w \<le> now'
      then w\<lparr>wt_sem := wt_sem w - 1\<rparr> else w)"
  define b2 where "b2 = b1\<lparr>br_waiters := map g (br_waiters b1)\<rparr>"
  have check: "CheckClusterStateWaiterTimeout now' b1 = (Inr (), b2)"
    by (simp add: CheckClusterStateWaiterTimeout_def modE_def b2_def g_def)
  have gw: "g w = w\<lparr>wt_sem := 0\<rparr>" using \<open>now - 1 \<le> now'\<close> by (simp add: g_def w_def)
  have "find (\<lambda>v. wt_id v = br_next_waiter b) (map g (br_waiters b)) = None"
    using assms(4) by (force simp: find_None_iff waiters_inv_def g_def split: if_splits)
  then have "find (\<lambda>v. wt_id v = br_next_waiter b) (map g (br_waiters b) @ [g w]) = Some (g w)"
    by (rule find_snoc) (simp only: gw, simp add: w_def)
  then have found: "find_waiter (br_next_waiter b) b2 = Some (g w)" by (simp add: find_waiter_def b2_def b1_def)
  have "WaitClusterState_resume (br_next_waiter b) b2 = Some ((BuildAliveNodeInfoList b, False),
      b2\<lparr>br_waiters := filter (\<lambda>v. wt_id v \<noteq> br_next_waiter b) (br_waiters b2)\<rparr>)"
    using found by (simp add: WaitClusterState_resume_def gw) (simp add: w_def b2_def b1_def BuildAliveNodeInfoList_def)
  then show ?thesis using start check by blast
qed

section \<open>A concrete broker\<close>

text \<open>
  Node 1 listens at \<open>a\<close> and has the contact address \<open>c\<close>. Its codec knows four messages: gossip
  about the nodes 2 and 3, both at address \<open>c\<close>, a response to its request 0, and a request
  from node 2.
\<close>

definition demo_node :: "u64 \<Rightarrow> u64 \<Rightarrow> node_state" where
  "demo_node n t = \<lparr>ns_last_seen_timestamp_ms = t, ns_node_id = n, ns_address = ''c'', ns_node_name = []\<rparr>"

definition demo_response :: broker_two_way_message where
  "demo_response = \<lparr>tw_request_node_id = 1, tw_response_node_id = 2, tw_request_id = 0, tw_payload = [42]\<rparr>"

definition demo_request :: broker_two_way_message where
  "demo_request = \<lparr>tw_request_node_id = 2, tw_response_node_id = 1, tw_request_id = 7, tw_payload = [9]\<rparr>"

definition demo_dec :: "bytes \<Rightarrow> exa_error + broker_message" where
  "demo_dec raw =
     (if raw = [2] then Inr (Gossip \<lparr>gm_from_node_id = 2, gm_node_states = [demo_node 2 100]\<rparr>)
      else if raw = [3] then Inr (Gossip \<lparr>gm_from_node_id = 3, gm_node_states = [demo_node 3 20000]\<rparr>)
      else if raw = [4] then Inr (Two_Way demo_response)
      else if raw = [5] then Inr (Two_Way demo_request)
      else Inl (Codec_Error []))"

definition demo_codec :: msg_codec where
  "demo_codec = \<lparr>enc_broker = (\<lambda>_. [0]), dec_broker = demo_dec, enc_request = (\<lambda>_. [0]),
     dec_request = (\<lambda>_. Inl (Codec_Error [])), enc_reply = (\<lambda>_. [0]), dec_reply = (\<lambda>_. Inl (Codec_Error []))\<rparr>"

definition demo_net :: broker_env where
  "demo_net = \<lparr>be_codec = demo_codec, be_bind_ok = (\<lambda>_. True), be_connect_ok = (\<lambda>_. True), be_send_ok = (\<lambda>_. True)\<rparr>"

definition demo_cluster :: cluster_config where
  "demo_cluster = \<lparr>cl_listen_address = ''a'', cl_contact_node_address = ''c'',
     cl_network_config = NetworkConfig_default, cl_node_name = []\<rparr>"

definition demo_b0 :: broker where
  "demo_b0 = snd (broker_boot demo_net 1 demo_cluster 5 5 5)"

definition demo_b1 :: broker where
  "demo_b1 = snd (broker_event_run demo_net (Ev_Dispatch [2]) demo_b0)"

definition demo_b2 :: broker where
  "demo_b2 = snd (broker_event_run demo_net (Ev_Dispatch [3]) demo_b1)"

lemma demo_net_ok: "net_ok demo_net"
  by (simp add: net_ok_def demo_net_def)

lemma demo_connect: "be_connect_ok demo_net a"
  by (simp add: demo_net_def)

lemmas demo_defs = demo_net_def demo_codec_def demo_dec_def demo_cluster_def demo_node_def demo_response_def
  demo_request_def NetworkConfig_default_def kDefaultHeartbeatTimeoutMs_def kDefaultGossipIntervalMs_def
  kDefaultGossipFanout_def

lemma demo_boot: "broker_boot demo_net 1 demo_cluster 5 5 5 = (Inr (), demo_b0)"
  by (simp add: demo_b0_def broker_boot_def MessageBroker_ctor_def MessageBroker_init_def MessageBroker_Start_def
      MessageBroker_ExActorOnSpawned_def StartRecvSocketPuller_def StartPeriodicalTaskScheduler_def eff_defs
      ConnectContactSendSocket_def Let_def demo_defs)

lemma demo_answering: "answering (\<lambda>_. True) demo_net = demo_net"
  by (simp add: answering_def demo_net_def)

lemma demo_event:
  assumes "broker_reach demo_net 1 demo_cluster b" and "broker_event_run demo_net e b = (None, b')"
  shows "broker_reach demo_net 1 demo_cluster b'"
  using event [OF assms(1), of "\<lambda>_. True" e] assms(2) by (simp add: demo_answering connect_threw_def)

lemma demo_reach_b0: "broker_reach demo_net 1 demo_cluster demo_b0"
  by (rule boot [OF demo_boot])

lemma demo_b0_state:
  "br_this_node_id demo_b0 = 1" "br_cluster_config demo_b0 = demo_cluster" "br_outstanding_requests demo_b0 = []"
  "br_nodes demo_b0 = [(1, \<lparr>ns_last_seen_timestamp_ms = 5, ns_node_id = 1, ns_address = ''a'', ns_node_name = []\<rparr>)]"
  "br_send_request_id_counter demo_b0 = 0" "br_deferred_replies demo_b0 = []" "br_waiters demo_b0 = []"
  "br_sockets demo_b0 = []"
  by (simp_all add: demo_b0_def broker_boot_def MessageBroker_ctor_def MessageBroker_init_def MessageBroker_Start_def
      MessageBroker_ExActorOnSpawned_def StartRecvSocketPuller_def StartPeriodicalTaskScheduler_def eff_defs
      ConnectContactSendSocket_def Let_def demo_defs)

text \<open>Gossip that introduces a node.\<close>

lemma demo_gossip:
  assumes reach: "broker_reach demo_net 1 demo_cluster b" and new: "map_of (br_nodes b) (ns_node_id st) = None"
    and dec: "demo_dec raw = Inr (Gossip \<lparr>gm_from_node_id = n, gm_node_states = [st]\<rparr>)"
  shows "broker_event_run demo_net (Ev_Dispatch raw) b
    = (None, alive_state demo_net (ns_node_id st) st (b\<lparr>br_nodes := AList.update (ns_node_id st) st (br_nodes b)\<rparr>))"
  using HandleGossip_new(1) [OF demo_net_ok demo_connect inv_reach [OF reach demo_net_ok] new] dec
  by (simp add: outcome_def DispatchReceivedMessage_def demo_net_def demo_codec_def
      bindE_def liftE_def thenE_def retE_def HandleGossipMessage_def)

lemma demo_b1_event: "broker_event_run demo_net (Ev_Dispatch [2]) demo_b0 = (None, demo_b1)"
  and demo_b1_run: "demo_b1 = alive_state demo_net 2 (demo_node 2 100)
    (demo_b0\<lparr>br_nodes := AList.update 2 (demo_node 2 100) (br_nodes demo_b0)\<rparr>)"
proof -
  have id: "ns_node_id (demo_node 2 100) = 2" by (simp add: demo_node_def)
  have "map_of (br_nodes demo_b0) (ns_node_id (demo_node 2 100)) = None" by (simp add: demo_b0_state id)
  note run = demo_gossip [OF demo_reach_b0 this, of "[2]" 2, unfolded demo_dec_def, simplified, unfolded id]
  show "broker_event_run demo_net (Ev_Dispatch [2]) demo_b0 = (None, demo_b1)" and "demo_b1 = alive_state demo_net 2 (demo_node 2 100)
    (demo_b0\<lparr>br_nodes := AList.update 2 (demo_node 2 100) (br_nodes demo_b0)\<rparr>)"
    using run by (simp_all add: demo_b1_def)
qed

lemma demo_reach_b1: "broker_reach demo_net 1 demo_cluster demo_b1"
  by (rule demo_event [OF demo_reach_b0 demo_b1_event])

lemma demo_b1_state:
  "br_this_node_id demo_b1 = 1" "br_cluster_config demo_b1 = demo_cluster" "br_outstanding_requests demo_b1 = []"
  "br_nodes demo_b1 = br_nodes demo_b0 @ [(2, demo_node 2 100)]"
  "br_send_request_id_counter demo_b1 = 0" "br_deferred_replies demo_b1 = []" "br_waiters demo_b1 = []"
  "br_sockets demo_b1 = [(2, connected_to (demo_node 2 100))]"
  by (simp_all add: demo_b1_run alive_state_def Let_def demo_b0_state)
    (simp add: evaluated_def EvaluateClusterStateWaiters_def modE_def Let_def demo_b0_state)

lemma demo_b2_event: "broker_event_run demo_net (Ev_Dispatch [3]) demo_b1 = (None, demo_b2)"
  and demo_b2_run: "demo_b2 = alive_state demo_net 3 (demo_node 3 20000)
    (demo_b1\<lparr>br_nodes := AList.update 3 (demo_node 3 20000) (br_nodes demo_b1)\<rparr>)"
proof -
  have id: "ns_node_id (demo_node 3 20000) = 3" by (simp add: demo_node_def)
  have "map_of (br_nodes demo_b1) (ns_node_id (demo_node 3 20000)) = None" by (simp add: demo_b1_state demo_b0_state id)
  note run = demo_gossip [OF demo_reach_b1 this, of "[3]" 3, unfolded demo_dec_def, simplified, unfolded id]
  show "broker_event_run demo_net (Ev_Dispatch [3]) demo_b1 = (None, demo_b2)" and "demo_b2 = alive_state demo_net 3 (demo_node 3 20000)
    (demo_b1\<lparr>br_nodes := AList.update 3 (demo_node 3 20000) (br_nodes demo_b1)\<rparr>)"
    using run by (simp_all add: demo_b2_def)
qed

lemma demo_reach_b2: "broker_reach demo_net 1 demo_cluster demo_b2"
  by (rule demo_event [OF demo_reach_b1 demo_b2_event])

lemmas demo_reach = demo_reach_b0 demo_reach_b1 demo_reach_b2

text \<open>
  the record of the contact can go wrong. When a node restarts at the contact address
  under a new id, and the old id later times out, the broker knows and is connected to a node
  at the contact's address, yet its flag says that the contact was never heard of, so that
  every gossip round a second or more after the last rebuild throws the contact socket away
  and builds it again.
\<close>

theorem contact_flag_forgets_live_contact:
  "\<exists>env node_id config b n st. broker_reach env node_id config b \<and> net_ok env
     \<and> map_of (br_nodes b) n = Some st \<and> n \<noteq> br_this_node_id b
     \<and> ns_address st = cl_contact_node_address (br_cluster_config b)
     \<and> map_of (br_sockets b) n = Some (connected_to st) \<and> \<not> br_contact_discovered b"
proof -
  define b where "b = snd (broker_event_run demo_net (Ev_Heartbeat 20000) demo_b2)"
  have reach: "broker_reach demo_net 1 demo_cluster b" unfolding b_def
    by (rule demo_event [OF demo_reach(3), of "Ev_Heartbeat 20000"]) (simp add: CheckHeartbeatTimeout_run outcome_def)
  have nodes: "br_nodes demo_b2 = br_nodes demo_b1 @ [(3, demo_node 3 20000)]" "br_this_node_id demo_b2 = 1"
      "br_cluster_config demo_b2 = demo_cluster"
    by (simp_all add: demo_b2_run demo_b1_state demo_b0_state) (simp_all add: alive_state_def Let_def demo_b1_state)
  have expired: "filter (heartbeat_expired demo_b2 20000) (br_nodes demo_b2) = [(2, demo_node 2 100)]"
    by (simp add: nodes demo_b1_state demo_b0_state heartbeat_expired_def)
      (simp add: demo_node_def demo_cluster_def NetworkConfig_default_def kDefaultHeartbeatTimeoutMs_def)
  have b: "b = lost_state 2 demo_b2"
    by (simp add: b_def outcome_def CheckHeartbeatTimeout_run expired)
  have at: "map_of (br_nodes demo_b2) 2 = Some (demo_node 2 100)" "map_of (br_nodes demo_b2) 3 = Some (demo_node 3 20000)"
    by (simp_all add: nodes demo_b1_state demo_b0_state)
  have addr: "ns_address (demo_node n t) = cl_contact_node_address demo_cluster" for n t
    by (simp add: demo_node_def demo_cluster_def)
  have flag: "\<not> br_contact_discovered b" by (simp add: b lost_state_def at(1) addr nodes(2,3))
  have node: "map_of (br_nodes b) 3 = Some (demo_node 3 20000)" "br_this_node_id b = 1"
      "br_cluster_config b = demo_cluster"
    by (simp_all add: b lost_state_def at(2) nodes(2,3))
  have "members_inv b" using inv_reach [OF reach demo_net_ok] by (simp add: broker_inv_def)
  then have "map_of (br_sockets b) 3 = Some (connected_to (demo_node 3 20000))"
    using members_known node(1,2) by simp
  then show ?thesis using reach demo_net_ok node flag addr
    by - (rule exI [of _ demo_net], rule exI [of _ 1], rule exI [of _ demo_cluster], rule exI [of _ b],
      rule exI [of _ 3], rule exI [of _ "demo_node 3 20000"], simp)
qed

section \<open>Witnesses\<close>


lemma gossip_round_sends_witness:
  "\<exists>b' peers msg. BroadcastGossip demo_net [] 1 2 3 demo_b1 = (Inr (), b') \<and> length peers = 1
     \<and> msg = gossip_message demo_net (touch (br_this_node_id demo_b1) (\<lambda>_. 1) demo_b1)
     \<and> br_wire b' = br_wire demo_b1
        @ map (\<lambda>n. (connected_to (the (map_of (br_nodes demo_b1) n)), msg)) peers
        @ (case br_contact_socket demo_b1 of None \<Rightarrow> [] | Some sk \<Rightarrow> [(sk, msg)])"
proof -
  have f: "nc_gossip_fanout (cl_network_config (br_cluster_config demo_b1)) = 3"
    by (simp add: demo_b1_state demo_defs)
  then have "0 < nc_gossip_fanout (cl_network_config (br_cluster_config demo_b1))" by simp
  from gossip_round_sends [OF demo_reach(2) demo_net_ok this demo_connect, of "[]" 1 2 3] obtain b' peers msg where
    run: "BroadcastGossip demo_net [] 1 2 3 demo_b1 = (Inr (), b')"
    and len: "length peers
      = min (unat (nc_gossip_fanout (cl_network_config (br_cluster_config demo_b1)))) (length (br_nodes demo_b1) - 1)"
    and msg: "msg = gossip_message demo_net (touch (br_this_node_id demo_b1) (\<lambda>_. 1) demo_b1)"
    and wire: "br_wire b' = br_wire demo_b1
        @ map (\<lambda>n. (connected_to (the (map_of (br_nodes demo_b1) n)), msg)) peers
        @ (case br_contact_socket demo_b1 of None \<Rightarrow> [] | Some sk \<Rightarrow> [(sk, msg)])" by blast
  have "length peers = 1" using len unfolding f by (simp add: demo_b1_state(4) demo_b0_state(4))
  then show ?thesis using run msg wire
    by - (rule exI [of _ b'], rule exI [of _ peers], rule exI [of _ msg], simp only: simp_thms)
qed

lemma heartbeat_check_drops_silent_nodes_witness:
  "map_of (br_nodes (snd (CheckHeartbeatTimeout 20000 demo_b1))) 2 = None"
proof -
  obtain r b' where run: "CheckHeartbeatTimeout 20000 demo_b1 = (r, b')" by fastforce
  have "silent demo_b1 20000 (demo_node 2 100)"
    by (simp add: silent_def demo_b1_state) (simp add: demo_defs)
  then show ?thesis
    using heartbeat_check_drops_silent_nodes [OF demo_reach(2) demo_net_ok run]
    by (simp add: run demo_b1_state demo_b0_state)
qed

lemma gossip_merges_states_witness:
  "\<exists>b' c. HandleGossipMessage demo_net \<lparr>gm_from_node_id = 2, gm_node_states = [demo_node 2 100]\<rparr> demo_b0 = (Inr (), b')
     \<and> map_of (br_nodes b') 2 = Some c \<and> newer c (demo_node 2 100)"
proof -
  have none: "map_of (br_nodes demo_b0) (ns_node_id (demo_node 2 100)) = None"
    by (simp add: demo_b0_state) (simp add: demo_node_def)
  define b' where "b' = alive_state demo_net 2 (demo_node 2 100)
      (demo_b0\<lparr>br_nodes := AList.update 2 (demo_node 2 100) (br_nodes demo_b0)\<rparr>)"
  have id: "ns_node_id (demo_node 2 100) = 2" by (simp add: demo_node_def)
  have "HandleGossip_one demo_net (demo_node 2 100) demo_b0 = (Inr (), b')"
    using HandleGossip_new(1) [OF demo_net_ok demo_connect inv_reach [OF demo_reach(1) demo_net_ok] none] by (simp add: id b'_def)
  then have run: "HandleGossipMessage demo_net \<lparr>gm_from_node_id = 2, gm_node_states = [demo_node 2 100]\<rparr> demo_b0
      = (Inr (), b')"
    by (simp add: HandleGossipMessage_def thenE_def bindE_def retE_def)
  show ?thesis
    using gossip_merges_states [OF demo_reach(1) demo_net_ok run] run by (simp add: id)
qed

lemma request_gets_its_response_witness:
  "\<exists>b1 b2 b3. SendRequest_start demo_net 2 [1] demo_b1 = (Inr 0, b1)
     \<and> DispatchReceivedMessage demo_net [4] b1 = (Inr Dispatch_Done, b2)
     \<and> SendRequest_resume 0 b2 = Some (Inr [42], b3)"
proof -
  have run: "broker_run demo_net [(\<lambda>_. True, Ev_Dispatch [2])] demo_b0 = Some demo_b1"
    using demo_b1_event by (simp add: demo_answering connect_threw_def)
  have dec: "dec_broker (be_codec demo_net) [4] = Inr (Two_Way demo_response)"
    by (simp add: demo_net_def demo_codec_def demo_dec_def)
  from request_gets_its_response [OF demo_net_ok demo_boot run _ _ _ dec, of 2 "connected_to (demo_node 2 100)" "[1]"]
  show ?thesis by (auto simp: demo_b1_state demo_response_def)
qed

lemma deferred_replies_are_flushed_witness:
  "\<exists>b1 b2. SendReply demo_net 2 7 [9] demo_b0 = (Inr (), b1)
     \<and> HandleGossip_one demo_net (demo_node 2 100) b1 = (Inr (), b2)
     \<and> br_wire b2 = br_wire demo_b0 @ flush_messages demo_net 1 (demo_node 2 100)
         [\<lparr>ro_request_node_id = 2, ro_request_id = 7, ro_data = [9]\<rparr>]"
proof -
  have none: "map_of (br_nodes demo_b0) (ns_node_id (demo_node 2 100)) = None"
    by (simp add: demo_b0_state) (simp add: demo_node_def)
  have id: "ns_node_id (demo_node 2 100) = 2" by (simp add: demo_node_def)
  show ?thesis
    using deferred_replies_are_flushed [OF demo_reach(1) demo_net_ok none, of 7 "[9]"]
    by (auto simp: id demo_b0_state demo_connect)
qed

lemma cluster_wait_ends_witness:
  "\<exists>w b b2. broker_reach demo_net 1 demo_cluster b \<and> w \<in> set (br_waiters b)
     \<and> WaitClusterState_resume (wt_id w) (snd (CheckClusterStateWaiterTimeout 60 b))
       = Some ((BuildAliveNodeInfoList b, wt_condition_met w), b2)"
proof -
  define b where "b = snd (broker_event_run demo_net (Ev_Wait (\<lambda>_. False) 50 10) demo_b0)"
  have reach: "broker_reach demo_net 1 demo_cluster b" unfolding b_def
    by (rule demo_event [OF demo_reach(1), of "Ev_Wait (\<lambda>_. False) 50 10"]) (simp add: WaitClusterState_run outcome_def)
  define w where "w = \<lparr>wt_id = br_next_waiter demo_b0, wt_sem = 1, wt_deadline_ms = 60, wt_condition_met = False,
      wt_predicate = (\<lambda>_. False)\<rparr>"
  have w: "w \<in> set (br_waiters b)" by (simp add: b_def WaitClusterState_run outcome_def demo_b0_state w_def)
  obtain r b1 where run: "CheckClusterStateWaiterTimeout 60 b = (r, b1)" by fastforce
  have "wt_predicate w (BuildAliveNodeInfoList b) \<or> wt_condition_met w \<or> wt_deadline_ms w \<le> 60" by (simp add: w_def)
  from cluster_wait_ends [OF reach demo_net_ok w this run] obtain b2 where
    "WaitClusterState_resume (wt_id w) b1 = Some ((BuildAliveNodeInfoList b, wt_condition_met w), b2)"
    by (auto simp: w_def)
  then show ?thesis using reach w
    by - (rule exI [of _ w], rule exI [of _ b], rule exI [of _ b2], simp add: run)
qed

lemma longest_timeout_expires_at_once_witness:
  "\<exists>b1 b2 b3. WaitClusterState_start (\<lambda>_. False) (- 1) 10 demo_b0 = (Inr (Wait_Suspended (br_next_waiter demo_b0)), b1)
     \<and> CheckClusterStateWaiterTimeout 10 b1 = (Inr (), b2)
     \<and> WaitClusterState_resume (br_next_waiter demo_b0) b2 = Some ((BuildAliveNodeInfoList demo_b0, False), b3)"
  by (rule longest_timeout_expires_at_once) (simp_all add: waiters_inv_def demo_b0_state)

end
