(* ===== verification/Bytes.thy ===== *)
theory Bytes
  imports Exa_Prelude
begin

text \<open>
  Values as bytes: the little-endian bytes of an integer, and writers and readers that can be
  put one after another (a reader returns what it read and the bytes that are left). They
  carry the buffer readers and writers of \<open>serialization.h\<close> and the concrete message codec
  that shows the codec hypotheses of the development can hold.
\<close>

section \<open>Little-endian integers\<close>

fun le_bytes :: "nat \<Rightarrow> nat \<Rightarrow> bytes" where
  "le_bytes 0 n = []"
| "le_bytes (Suc k) n = word_of_nat (n mod 256) # le_bytes k (n div 256)"

fun le_nat :: "bytes \<Rightarrow> nat" where
  "le_nat [] = 0"
| "le_nat (b # bs) = unat b + 256 * le_nat bs"

lemma unat_byte_less: "unat b < 256" for b :: "8 word"
  using unsigned_less [where 'b = 8 and 'a = nat, of b] by simp

lemma unat_u64_less: "unat w < 256 ^ 8" for w :: u64
  using unsigned_less [where 'b = 64 and 'a = nat, of w] by simp

lemma length_le_bytes [simp]: "length (le_bytes k n) = k"
  by (induction k arbitrary: n) auto

lemma unat_byte [simp]: "unat (word_of_nat (n mod 256) :: 8 word) = n mod 256"
  by (simp add: unsigned_of_nat take_bit_eq_mod)

lemma le_nat_le_bytes: "le_nat (le_bytes k n) = n mod 256 ^ k"
proof (induction k arbitrary: n)
  case (Suc k)
  have "n mod 256 ^ Suc k = n mod 256 + 256 * (n div 256 mod 256 ^ k)"
    by (simp add: mod_mult2_eq)
  then show ?case by (simp add: Suc.IH)
qed simp

lemma le_bytes_le_nat: "le_bytes (length bs) (le_nat bs) = bs"
proof (induction bs)
  case (Cons b bs)
  have "unat b < 256" using unat_byte_less [of b] by simp
  then show ?case using Cons.IH by simp
qed simp

lemma le_nat_bound: "le_nat bs < 256 ^ length bs"
proof (induction bs)
  case (Cons b bs)
  have "unat b \<le> 255" using unat_byte_less [of b] by simp
  moreover have "256 * (le_nat bs + 1) \<le> 256 * 256 ^ length bs" using Cons.IH by (simp only: mult_le_cancel1) simp
  ultimately have "le_nat (b # bs) < 256 * 256 ^ length bs" by simp
  then show ?case by (simp only: length_Cons power_Suc)
qed simp

section \<open>Writers and readers\<close>

definition reads :: "(bytes \<Rightarrow> ('a \<times> bytes) option) \<Rightarrow> ('a \<Rightarrow> bytes) \<Rightarrow> bool" where
  "reads get put \<longleftrightarrow> (\<forall>x rest. get (put x @ rest) = Some (x, rest))"

lemma readsD: "reads get put \<Longrightarrow> get (put x @ rest) = Some (x, rest)"
  by (simp add: reads_def)

lemma reads_end: "reads get put \<Longrightarrow> get (put x) = Some (x, [])"
  using readsD [of get put x "[]"] by simp

definition put_u64 :: "u64 \<Rightarrow> bytes" where
  "put_u64 w = le_bytes 8 (unat w)"

definition get_u64 :: "bytes \<Rightarrow> (u64 \<times> bytes) option" where
  "get_u64 bs = (if length bs < 8 then None else Some (word_of_nat (le_nat (take 8 bs)), drop 8 bs))"

lemma reads_u64: "reads get_u64 put_u64"
proof -
  have "unat w mod 256 ^ 8 = unat w" for w :: u64 using unat_u64_less [of w] by simp
  then show ?thesis by (simp add: reads_def get_u64_def put_u64_def le_nat_le_bytes)
qed

definition put_byte :: "8 word \<Rightarrow> bytes" where "put_byte b = [b]"

fun get_byte :: "bytes \<Rightarrow> (8 word \<times> bytes) option" where
  "get_byte [] = None"
| "get_byte (b # bs) = Some (b, bs)"

lemma reads_byte: "reads get_byte put_byte"
  by (simp add: reads_def put_byte_def)

definition put_char :: "char \<Rightarrow> bytes" where "put_char c = [word_of_nat (of_char c)]"

definition get_char :: "bytes \<Rightarrow> (char \<times> bytes) option" where
  "get_char bs = map_option (\<lambda>(b, rest). (char_of (unat b), rest)) (get_byte bs)"

lemma reads_char: "reads get_char put_char"
proof -
  have "of_char c mod 256 = (of_char c :: nat)" for c by (simp add: of_char_def)
  then have "unat (word_of_nat (of_char c) :: 8 word) = of_char c" for c using unat_byte [of "of_char c"] by simp
  then show ?thesis by (simp add: reads_def get_char_def put_char_def)
qed

definition put_bool :: "bool \<Rightarrow> bytes" where "put_bool x = [if x then 1 else 0]"

definition get_bool :: "bytes \<Rightarrow> (bool \<times> bytes) option" where
  "get_bool bs = map_option (\<lambda>(b, rest). (b \<noteq> 0, rest)) (get_byte bs)"

lemma reads_bool: "reads get_bool put_bool"
  by (simp add: reads_def get_bool_def put_bool_def)

text \<open>A list: each element behind a byte one, then a byte zero.\<close>

fun put_list :: "('a \<Rightarrow> bytes) \<Rightarrow> 'a list \<Rightarrow> bytes" where
  "put_list put [] = [0]"
| "put_list put (x # xs) = 1 # put x @ put_list put xs"

fun get_list_fuel :: "nat \<Rightarrow> (bytes \<Rightarrow> ('a \<times> bytes) option) \<Rightarrow> bytes \<Rightarrow> ('a list \<times> bytes) option" where
  "get_list_fuel 0 get bs = None"
| "get_list_fuel (Suc n) get [] = None"
| "get_list_fuel (Suc n) get (b # bs) =
     (if b = 0 then Some ([], bs)
      else case get bs of
             None \<Rightarrow> None
           | Some (x, rest) \<Rightarrow> map_option (\<lambda>(xs, rest). (x # xs, rest)) (get_list_fuel n get rest))"

definition get_list :: "(bytes \<Rightarrow> ('a \<times> bytes) option) \<Rightarrow> bytes \<Rightarrow> ('a list \<times> bytes) option" where
  "get_list get bs = get_list_fuel (length bs) get bs"

lemma get_list_fuel_put: "reads get put \<Longrightarrow> length xs < n \<Longrightarrow>
    get_list_fuel n get (put_list put xs @ rest) = Some (xs, rest)"
proof (induction xs arbitrary: n)
  case Nil
  then show ?case by (cases n) simp_all
next
  case (Cons x xs)
  then obtain m where "n = Suc m" by (cases n) simp_all
  then show ?case using Cons by (simp add: readsD)
qed

lemma length_put_list: "length xs < length (put_list put xs)"
  by (induction xs) auto

lemma reads_list: "reads get put \<Longrightarrow> reads (get_list get) (put_list put)"
proof -
  assume r: "reads get put"
  have "get_list_fuel (length (put_list put xs @ rest)) get (put_list put xs @ rest) = Some (xs, rest)" for xs rest
    using get_list_fuel_put [OF r, of xs "length (put_list put xs @ rest)" rest] length_put_list [of xs put] by simp
  then show ?thesis by (simp add: reads_def get_list_def)
qed

text \<open>Two values one after the other.\<close>

definition put_pair :: "('a \<Rightarrow> bytes) \<Rightarrow> ('b \<Rightarrow> bytes) \<Rightarrow> 'a \<times> 'b \<Rightarrow> bytes" where
  "put_pair p q x = p (fst x) @ q (snd x)"

definition get_pair :: "(bytes \<Rightarrow> ('a \<times> bytes) option) \<Rightarrow> (bytes \<Rightarrow> ('b \<times> bytes) option) \<Rightarrow> bytes \<Rightarrow> (('a \<times> 'b) \<times> bytes) option" where
  "get_pair g h bs = (case g bs of None \<Rightarrow> None
     | Some (x, rest) \<Rightarrow> map_option (\<lambda>(y, rest). ((x, y), rest)) (h rest))"

lemma reads_pair: "reads g p \<Longrightarrow> reads h q \<Longrightarrow> reads (get_pair g h) (put_pair p q)"
  by (simp add: reads_def get_pair_def put_pair_def)

text \<open>A value seen through a bijection.\<close>

definition put_via :: "('a \<Rightarrow> 'b) \<Rightarrow> ('b \<Rightarrow> bytes) \<Rightarrow> 'a \<Rightarrow> bytes" where
  "put_via f p x = p (f x)"

definition get_via :: "('b \<Rightarrow> 'a) \<Rightarrow> (bytes \<Rightarrow> ('b \<times> bytes) option) \<Rightarrow> bytes \<Rightarrow> ('a \<times> bytes) option" where
  "get_via g r bs = map_option (\<lambda>(y, rest). (g y, rest)) (r bs)"

lemma reads_via: "reads r p \<Longrightarrow> (\<And>x. g (f x) = x) \<Longrightarrow> reads (get_via g r) (put_via f p)"
  by (simp add: reads_def get_via_def put_via_def)

end
