(* ===== verification/Actor_Ref.thy ===== *)
theory Actor_Ref
  imports Hashing Messages
begin

text \<open>
  Actor handles: \<open>BasicActorRef\<close> of \<open>basic_actor_ref.h\<close> and \<open>ActorRef\<close> of
  \<open>actor_ref.h\<close>, which extends it with the node the actor lives on, the node the handle is
  held on and the broker to reach other nodes by. Equality and hashing, the conversion to a
  base class, local and remote sends, and how a handle travels inside a message
  (\<open>Reflector<ActorRef>\<close> and its \<open>Parser\<close>) are modelled.

  A pointer to a \<open>TypeErasedActor\<close> is an \<open>actor_obj option\<close>: which object it points to and
  the two constants the code reads through it (the address of the user object and the hash of
  its type). The address of a user object is a machine word, zero the null pointer, since the
  code sends it as one.
\<close>

section \<open>Handles\<close>

record actor_obj =
  ao_addr :: nat
  ao_instance_address :: u64
  ao_type_hash :: u64

record basic_ref =
  bf_is_empty :: bool
  bf_actor_id :: u64
  bf_actor :: "actor_obj option"
  bf_adjusted :: u64
  bf_type_hash :: u64

record actor_ref = basic_ref +
  rf_this_node :: u64
  rf_node :: u64
  rf_broker :: basic_ref

definition BasicActorRef_default :: basic_ref where
  "BasicActorRef_default = \<lparr>bf_is_empty = True, bf_actor_id = 0, bf_actor = None, bf_adjusted = 0, bf_type_hash = 0\<rparr>"

definition instance_ptr :: "actor_obj option \<Rightarrow> u64" where
  "instance_ptr actor = (case actor of None \<Rightarrow> 0 | Some a \<Rightarrow> ao_instance_address a)"

text \<open>The two constructors; \<open>type_name\<close> is \<open>GetTypeName<UserClass>()\<close>.\<close>

definition BasicActorRef_new :: "bytes \<Rightarrow> u64 \<Rightarrow> actor_obj option \<Rightarrow> basic_ref" where
  "BasicActorRef_new type_name actor_id actor =
     \<lparr>bf_is_empty = False, bf_actor_id = actor_id, bf_actor = actor, bf_adjusted = instance_ptr actor,
      bf_type_hash = (case actor of None \<Rightarrow> FnvHash type_name | Some a \<Rightarrow> ao_type_hash a)\<rparr>"

definition BasicActorRef_new_hash :: "u64 \<Rightarrow> actor_obj option \<Rightarrow> u64 \<Rightarrow> basic_ref" where
  "BasicActorRef_new_hash actor_id actor type_hash =
     \<lparr>bf_is_empty = False, bf_actor_id = actor_id, bf_actor = actor, bf_adjusted = instance_ptr actor,
      bf_type_hash = type_hash\<rparr>"

definition BasicActorRef_eq :: "'a basic_ref_scheme \<Rightarrow> 'b basic_ref_scheme \<Rightarrow> bool" where
  "BasicActorRef_eq l r =
     (if bf_is_empty l \<noteq> bf_is_empty r then False
      else if bf_is_empty l then True
      else bf_actor_id l = bf_actor_id r \<and> bf_type_hash l = bf_type_hash r)"

text \<open>
  \<open>static_cast\<close> to a base class adds the offset of the base in the object, and keeps a null
  pointer null. The conversion of a handle casts its adjusted pointer and copies the rest.
\<close>

definition upcast :: "u64 \<Rightarrow> u64 \<Rightarrow> u64" where
  "upcast offset p = (if p = 0 then 0 else p + offset)"

definition BasicActorRef_convert :: "u64 \<Rightarrow> 'a basic_ref_scheme \<Rightarrow> 'a basic_ref_scheme" where
  "BasicActorRef_convert offset r = r\<lparr>bf_adjusted := upcast offset (bf_adjusted r)\<rparr>"

definition ActorRef_default :: actor_ref where
  "ActorRef_default = basic_ref.extend BasicActorRef_default
     \<lparr>rf_this_node = 0, rf_node = 0, rf_broker = BasicActorRef_default\<rparr>"

definition ActorRef_new :: "bytes \<Rightarrow> u64 \<Rightarrow> u64 \<Rightarrow> u64 \<Rightarrow> actor_obj option \<Rightarrow> basic_ref \<Rightarrow> actor_ref" where
  "ActorRef_new type_name this_node_id node_id actor_id actor broker =
     basic_ref.extend (BasicActorRef_new type_name actor_id actor)
       \<lparr>rf_this_node = this_node_id, rf_node = node_id, rf_broker = broker\<rparr>"

definition ActorRef_new_hash :: "u64 \<Rightarrow> u64 \<Rightarrow> u64 \<Rightarrow> u64 \<Rightarrow> actor_obj option \<Rightarrow> basic_ref \<Rightarrow> actor_ref" where
  "ActorRef_new_hash this_node_id node_id actor_id type_hash actor broker =
     basic_ref.extend (BasicActorRef_new_hash actor_id actor type_hash)
       \<lparr>rf_this_node = this_node_id, rf_node = node_id, rf_broker = broker\<rparr>"

definition ActorRef_eq :: "actor_ref \<Rightarrow> actor_ref \<Rightarrow> bool" where
  "ActorRef_eq l r =
     (if bf_is_empty l \<noteq> bf_is_empty r then False
      else if bf_is_empty l then True
      else rf_node l = rf_node r \<and> bf_actor_id l = bf_actor_id r \<and> bf_type_hash l = bf_type_hash r)"

definition SetLocalRuntimeInfo :: "u64 \<Rightarrow> actor_obj option \<Rightarrow> basic_ref \<Rightarrow> actor_ref \<Rightarrow> actor_ref" where
  "SetLocalRuntimeInfo this_node_id actor broker r =
     r\<lparr>rf_this_node := this_node_id, bf_actor := actor, rf_broker := broker\<rparr>"

definition SetLocalRuntimeInfo_hash :: "u64 \<Rightarrow> u64 \<Rightarrow> actor_obj option \<Rightarrow> basic_ref \<Rightarrow> actor_ref \<Rightarrow> actor_ref" where
  "SetLocalRuntimeInfo_hash this_node_id type_hash actor broker r =
     r\<lparr>rf_this_node := this_node_id, bf_type_hash := type_hash, bf_actor := actor, rf_broker := broker\<rparr>"

text \<open>
  \<open>std::hash\<close>. The hash of an integer is the implementation's choice, a parameter.
\<close>

definition kEmptyActorRefHashVal :: u64 where "kEmptyActorRefHashVal = 10086"

definition BasicActorRef_hash :: "(u64 \<Rightarrow> u64) \<Rightarrow> 'a basic_ref_scheme \<Rightarrow> u64" where
  "BasicActorRef_hash std_hash r = (if bf_is_empty r then kEmptyActorRefHashVal else std_hash (bf_actor_id r))"

definition ActorRef_hash :: "(u64 \<Rightarrow> u64) \<Rightarrow> actor_ref \<Rightarrow> u64" where
  "ActorRef_hash std_hash r =
     (if bf_is_empty r then kEmptyActorRefHashVal
      else
        let h = std_hash (rf_node r);
            h = HashCombine h (std_hash (bf_actor_id r))
        in HashCombine h (std_hash (bf_type_hash r)))"

section \<open>Sending\<close>

text \<open>
  A local send is described by what \<open>CallActorMethodUseTuple\<close> is given: the actor to queue
  the message on, the object the method runs on and the mailbox.
\<close>

record local_call =
  lc_actor :: actor_obj
  lc_object :: u64
  lc_mailbox :: u64

definition CheckNotEmpty :: "'a basic_ref_scheme \<Rightarrow> exa_error + unit" where
  "CheckNotEmpty r = checkR (\<not> bf_is_empty r) ''Cannot call method on an empty actor ref.''"

definition CheckIsValidLocalActorRef :: "'a basic_ref_scheme \<Rightarrow> exa_error + actor_obj" where
  "CheckIsValidLocalActorRef r = (case bf_actor r of
      None \<Rightarrow> Inl (Throw_Stream ''Underlying actor instance not set'')
    | Some a \<Rightarrow> Inr a)"

definition SendBuilder_SendLocal :: "u64 \<Rightarrow> 'a basic_ref_scheme \<Rightarrow> exa_error + local_call" where
  "SendBuilder_SendLocal mailbox_index r =
     bindR (CheckNotEmpty r) (\<lambda>_.
     bindR (CheckIsValidLocalActorRef r) (\<lambda>a.
     Inr \<lparr>lc_actor = a, lc_object = bf_adjusted r, lc_mailbox = mailbox_index\<rparr>))"

definition BasicActorRef_SendLocal :: "'a basic_ref_scheme \<Rightarrow> exa_error + local_call" where
  "BasicActorRef_SendLocal r = SendBuilder_SendLocal 0 r"

definition ActorRef_SendLocal :: "actor_ref \<Rightarrow> exa_error + local_call" where
  "ActorRef_SendLocal r =
     bindR (checkR (rf_node r = rf_this_node r) ''Cannot call remote actor using SendLocal, use Send instead.'') (\<lambda>_.
     SendBuilder_SendLocal 0 r)"

text \<open>
  \<open>Send\<close> yields one of two senders: the local call, or a call of \<open>MessageBroker::SendRequest\<close>
  (a local call of the broker actor with the target node and the serialised request).
\<close>

datatype send_target =
    Send_Local local_call
  | Send_Remote local_call u64 bytes

definition SendRemote :: "msg_codec \<Rightarrow> bytes \<Rightarrow> bytes \<Rightarrow> u64 \<Rightarrow> actor_ref \<Rightarrow> exa_error + send_target" where
  "SendRemote codec method_name serialized_args mailbox_index r =
     bindR (checkR (\<not> bf_is_empty (rf_broker r)) ''Broker actor not set'') (\<lambda>_.
     let request = ActorMethodCallRequest (ComputeRemoteMethodHandlerKey (bf_type_hash r) method_name)
           (bf_actor_id r) mailbox_index serialized_args in
     bindR (BasicActorRef_SendLocal (rf_broker r)) (\<lambda>call.
     Inr (Send_Remote call (rf_node r) (enc_request codec request))))"

definition ActorRef_Send :: "msg_codec \<Rightarrow> bytes \<Rightarrow> bytes \<Rightarrow> u64 \<Rightarrow> actor_ref \<Rightarrow> exa_error + send_target" where
  "ActorRef_Send codec method_name serialized_args mailbox_index r =
     bindR (CheckNotEmpty r) (\<lambda>_.
     if rf_node r = rf_this_node r
     then bindR (SendBuilder_SendLocal mailbox_index r) (\<lambda>call. Inr (Send_Local call))
     else SendRemote codec method_name serialized_args mailbox_index r)"

section \<open>Handles in messages\<close>

record serde_ctx =
  sc_this_node :: u64
  sc_look_up :: "u64 \<Rightarrow> actor_obj option"
  sc_broker :: basic_ref

record refl_ref =
  rt_is_empty :: bool
  rt_node_id :: u64
  rt_actor_id :: u64
  rt_type_hash :: u64
  rt_adjusted :: u64

definition Reflector_from :: "actor_ref \<Rightarrow> refl_ref" where
  "Reflector_from r = \<lparr>rt_is_empty = bf_is_empty r, rt_node_id = rf_node r, rt_actor_id = bf_actor_id r,
     rt_type_hash = bf_type_hash r, rt_adjusted = bf_adjusted r\<rparr>"

definition Reflector_to :: "refl_ref \<Rightarrow> actor_ref" where
  "Reflector_to t =
     (if rt_is_empty t then ActorRef_default
      else (ActorRef_new_hash 0 (rt_node_id t) (rt_actor_id t) (rt_type_hash t) None BasicActorRef_default)
             \<lparr>bf_adjusted := rt_adjusted t\<rparr>)"

definition Parser_read :: "serde_ctx \<Rightarrow> refl_ref \<Rightarrow> actor_ref" where
  "Parser_read ctx t =
     (let r = Reflector_to t in
      SetLocalRuntimeInfo_hash (sc_this_node ctx) (bf_type_hash r) (sc_look_up ctx (bf_actor_id r)) (sc_broker ctx) r)"

text \<open>
  The continuation of \<open>SendRemote\<close>: the response is decoded in a context that finds no
  actor, the reply must be that of a method call, and \<open>decode_return\<close> decodes its value.
\<close>

definition reply_ctx :: "actor_ref \<Rightarrow> serde_ctx" where
  "reply_ctx r = \<lparr>sc_this_node = rf_this_node r, sc_look_up = (\<lambda>_. None), sc_broker = rf_broker r\<rparr>"

definition SendRemote_reply ::
    "msg_codec \<Rightarrow> (serde_ctx \<Rightarrow> bytes \<Rightarrow> exa_error + 'v) \<Rightarrow> actor_ref \<Rightarrow> bytes \<Rightarrow> exa_error + 'v" where
  "SendRemote_reply codec decode_return r response =
     bindR (dec_reply codec response) (\<lambda>reply.
     case reply of
       ActorMethodCallReply success result err \<Rightarrow>
         if \<not> success then Inl (Throw_Stream ''Got error from remote actor on node'')
         else decode_return (reply_ctx r) result
     | _ \<Rightarrow> Inl Bad_Variant_Access)"

section \<open>Facts\<close>

lemma Reflector_fields [simp]:
  "rt_is_empty (Reflector_from r) = bf_is_empty r" "rt_node_id (Reflector_from r) = rf_node r"
  "rt_actor_id (Reflector_from r) = bf_actor_id r" "rt_type_hash (Reflector_from r) = bf_type_hash r"
  "rt_adjusted (Reflector_from r) = bf_adjusted r"
  by (simp_all add: Reflector_from_def)

lemma ActorRef_new_fields [simp]:
  "bf_is_empty (ActorRef_new t h n i a k) = False" "bf_actor_id (ActorRef_new t h n i a k) = i"
  "bf_actor (ActorRef_new t h n i a k) = a" "bf_adjusted (ActorRef_new t h n i a k) = instance_ptr a"
  "rf_this_node (ActorRef_new t h n i a k) = h" "rf_node (ActorRef_new t h n i a k) = n"
  "rf_broker (ActorRef_new t h n i a k) = k"
  "bf_type_hash (ActorRef_new t h n i a k) = (case a of None \<Rightarrow> FnvHash t | Some a \<Rightarrow> ao_type_hash a)"
  by (simp_all add: ActorRef_new_def BasicActorRef_new_def basic_ref.defs)

text \<open>What a handle becomes when it is read: the identity of the sent one, the context of the reader.\<close>

lemma Parser_read_fields:
  assumes "\<not> bf_is_empty r"
  shows "\<not> bf_is_empty (Parser_read ctx (Reflector_from r))"
    "bf_actor_id (Parser_read ctx (Reflector_from r)) = bf_actor_id r"
    "bf_type_hash (Parser_read ctx (Reflector_from r)) = bf_type_hash r"
    "bf_adjusted (Parser_read ctx (Reflector_from r)) = bf_adjusted r"
    "bf_actor (Parser_read ctx (Reflector_from r)) = sc_look_up ctx (bf_actor_id r)"
    "rf_node (Parser_read ctx (Reflector_from r)) = rf_node r"
    "rf_this_node (Parser_read ctx (Reflector_from r)) = sc_this_node ctx"
    "rf_broker (Parser_read ctx (Reflector_from r)) = sc_broker ctx"
  using assms
  by (simp_all add: Parser_read_def Reflector_to_def Let_def SetLocalRuntimeInfo_hash_def ActorRef_new_hash_def
      BasicActorRef_new_hash_def basic_ref.defs)

lemma Parser_read_empty:
  "bf_is_empty r \<Longrightarrow> bf_is_empty (Parser_read ctx (Reflector_from r))"
  by (simp add: Parser_read_def Reflector_to_def Let_def SetLocalRuntimeInfo_hash_def ActorRef_default_def
      BasicActorRef_default_def basic_ref.defs)

lemma ActorRef_eq_read: "ActorRef_eq (Parser_read ctx (Reflector_from r)) r"
  by (cases "bf_is_empty r") (simp_all add: ActorRef_eq_def Parser_read_fields Parser_read_empty)

lemma SendBuilder_SendLocal_ok:
  "\<not> bf_is_empty r \<Longrightarrow> bf_actor r = Some a \<Longrightarrow>
   SendBuilder_SendLocal mailbox r = Inr \<lparr>lc_actor = a, lc_object = bf_adjusted r, lc_mailbox = mailbox\<rparr>"
  by (simp add: SendBuilder_SendLocal_def CheckNotEmpty_def CheckIsValidLocalActorRef_def)

lemma SendBuilder_SendLocal_null:
  "\<not> bf_is_empty r \<Longrightarrow> bf_actor r = None \<Longrightarrow>
   SendBuilder_SendLocal mailbox r = Inl (Throw_Stream ''Underlying actor instance not set'')"
  by (simp add: SendBuilder_SendLocal_def CheckNotEmpty_def CheckIsValidLocalActorRef_def)

lemma ActorRef_Send_local:
  "\<not> bf_is_empty r \<Longrightarrow> rf_node r = rf_this_node r \<Longrightarrow>
   ActorRef_Send codec f args mailbox r = bindR (SendBuilder_SendLocal mailbox r) (\<lambda>call. Inr (Send_Local call))"
  by (simp add: ActorRef_Send_def CheckNotEmpty_def)

lemma ActorRef_Send_remote:
  "\<not> bf_is_empty r \<Longrightarrow> rf_node r \<noteq> rf_this_node r \<Longrightarrow> \<not> bf_is_empty (rf_broker r) \<Longrightarrow> bf_actor (rf_broker r) = Some k \<Longrightarrow>
   ActorRef_Send codec f args mailbox r = Inr (Send_Remote
     \<lparr>lc_actor = k, lc_object = bf_adjusted (rf_broker r), lc_mailbox = 0\<rparr> (rf_node r)
     (enc_request codec (ActorMethodCallRequest (ComputeRemoteMethodHandlerKey (bf_type_hash r) f)
        (bf_actor_id r) mailbox args)))"
  by (simp add: ActorRef_Send_def CheckNotEmpty_def SendRemote_def BasicActorRef_SendLocal_def SendBuilder_SendLocal_ok Let_def)

section \<open>Properties\<close>

text \<open>
  handles can be keys of a hash map. Equality is an equivalence and equal handles have
  equal hashes, whatever the hash of an integer is; in particular neither depends on the node
  the handle is held on, so a handle that has travelled is still the same key.
\<close>

theorem actor_ref_equality_and_hash:
  "ActorRef_eq a a \<and> (ActorRef_eq a b \<longrightarrow> ActorRef_eq b a)
   \<and> (ActorRef_eq a b \<longrightarrow> ActorRef_eq b c \<longrightarrow> ActorRef_eq a c)
   \<and> (ActorRef_eq a b \<longrightarrow> ActorRef_hash std_hash a = ActorRef_hash std_hash b)
   \<and> ActorRef_eq (Parser_read ctx (Reflector_from a)) a"
proof (intro conjI impI)
  show "ActorRef_eq (Parser_read ctx (Reflector_from a)) a" by (rule ActorRef_eq_read)
qed (auto simp: ActorRef_eq_def ActorRef_hash_def Let_def split: if_splits)

text \<open>A handle that travels: written by the node that holds it and read in the context of the next, again and again.\<close>

definition travelled :: "serde_ctx list \<Rightarrow> actor_ref \<Rightarrow> actor_ref" where
  "travelled route r = foldl (\<lambda>r ctx. Parser_read ctx (Reflector_from r)) r route"

lemma read_twice:
  assumes "\<not> bf_is_empty r"
  shows "Parser_read ctx (Reflector_from (Parser_read ctx' (Reflector_from r))) = Parser_read ctx (Reflector_from r)"
proof -
  have "Reflector_from (Parser_read ctx' (Reflector_from r)) = Reflector_from r"
    using Parser_read_fields [OF assms, of ctx'] assms unfolding Reflector_from_def by simp
  then show ?thesis by simp
qed

lemma travelled_empty: "bf_is_empty r \<Longrightarrow> bf_is_empty (travelled route r)"
  by (induction route arbitrary: r) (simp_all add: travelled_def Parser_read_empty)

lemma travelled_read:
  "\<not> bf_is_empty r \<Longrightarrow> travelled (route @ [ctx]) r = Parser_read ctx (Reflector_from r)"
proof (induction route arbitrary: r)
  case (Cons c route)
  have "\<not> bf_is_empty (Parser_read c (Reflector_from r))" using Parser_read_fields(1) [OF Cons.prems] .
  then show ?case using Cons.IH read_twice [OF Cons.prems] by (simp add: travelled_def)
qed (simp add: travelled_def)

text \<open>
  C23: what a handle does once it has travelled depends on its reader alone, not on the route. On
  the actor's own node it is a local call of the actor that the look-up finds, on the object the
  handle was made for, in the chosen mailbox; when the look-up finds none (the actor is gone, or
  the reader has no look-up, as for the value of a remote method), the send throws. On another
  node it is a request to the actor's node with the actor's id and type, sent through the
  reader's broker, and it throws when the reader has none. An empty handle stays empty.
\<close>

theorem shipped_ref_is_resolved_by_its_reader:
  "ActorRef_Send codec f args mailbox (travelled (route @ [ctx]) r) =
     (if bf_is_empty r then Inl (Throw_Stream ''Cannot call method on an empty actor ref.'')
      else if sc_this_node ctx = rf_node r then
        (case sc_look_up ctx (bf_actor_id r) of
           Some a \<Rightarrow> Inr (Send_Local \<lparr>lc_actor = a, lc_object = bf_adjusted r, lc_mailbox = mailbox\<rparr>)
         | None \<Rightarrow> Inl (Throw_Stream ''Underlying actor instance not set''))
      else if bf_is_empty (sc_broker ctx) then Inl (Throw_Stream ''Broker actor not set'')
      else
        (case bf_actor (sc_broker ctx) of
           Some k \<Rightarrow> Inr (Send_Remote \<lparr>lc_actor = k, lc_object = bf_adjusted (sc_broker ctx), lc_mailbox = 0\<rparr> (rf_node r)
             (enc_request codec (ActorMethodCallRequest (ComputeRemoteMethodHandlerKey (bf_type_hash r) f)
                (bf_actor_id r) mailbox args)))
         | None \<Rightarrow> Inl (Throw_Stream ''Underlying actor instance not set'')))"
proof (cases "bf_is_empty r")
  case True
  then show ?thesis by (simp add: ActorRef_Send_def CheckNotEmpty_def travelled_empty)
next
  case False
  note f = Parser_read_fields [OF False, of ctx]
  show ?thesis
  proof (cases "sc_this_node ctx = rf_node r")
    case True
    then show ?thesis using f False
      by (cases "sc_look_up ctx (bf_actor_id r)")
        (simp_all add: travelled_read [OF False] ActorRef_Send_local SendBuilder_SendLocal_ok SendBuilder_SendLocal_null)
  next
    case other: False
    show ?thesis
    proof (cases "bf_is_empty (sc_broker ctx)")
      case True
      then show ?thesis using f False other
        by (simp add: travelled_read [OF False] ActorRef_Send_def CheckNotEmpty_def SendRemote_def)
    next
      case broker: False
      then show ?thesis using f False other
        by (cases "bf_actor (sc_broker ctx)")
          (simp_all add: travelled_read [OF False] SendBuilder_SendLocal_ok ActorRef_Send_def CheckNotEmpty_def SendRemote_def
            BasicActorRef_SendLocal_def SendBuilder_SendLocal_null Let_def)
    qed
  qed
qed

lemma ActorRef_Send_remoteD:
  assumes "ActorRef_Send codec f args mailbox r = Inr (Send_Remote call to request)"
  shows "to = rf_node r \<and> request = enc_request codec
    (ActorMethodCallRequest (ComputeRemoteMethodHandlerKey (bf_type_hash r) f) (bf_actor_id r) mailbox args)"
  using assms by (auto simp: ActorRef_Send_def SendRemote_def Let_def bindR_Inr_iff split: if_splits)

text \<open>
  a handle that a remote method returns cannot be used on the node its actor lives on. The
  reply is decoded in a context whose look-up finds no actor, so when the actor lives on the
  calling node the send is local and throws.
\<close>

theorem returned_ref_to_own_actor_is_unusable:
  assumes "\<not> bf_is_empty r" and "rf_node r = rf_this_node caller"
  shows "ActorRef_Send codec f args mailbox (Parser_read (reply_ctx caller) (Reflector_from r))
     = Inl (Throw_Stream ''Underlying actor instance not set'')"
  using Parser_read_fields [OF assms(1), of "reply_ctx caller"] assms(2)
  by (simp add: ActorRef_Send_local SendBuilder_SendLocal_null reply_ctx_def)

section \<open>Witnesses\<close>

definition sample_actor :: actor_obj where
  "sample_actor = \<lparr>ao_addr = 7, ao_instance_address = 4096, ao_type_hash = 11\<rparr>"

definition sample_ref :: actor_ref where
  "sample_ref = ActorRef_new [] 1 1 42 (Some sample_actor) (BasicActorRef_new [] (-1) (Some sample_actor))"

lemma actor_ref_equality_and_hash_witness:
  "ActorRef_hash id (sample_ref\<lparr>rf_this_node := 2\<rparr>) = ActorRef_hash id sample_ref"
  using actor_ref_equality_and_hash [of "sample_ref\<lparr>rf_this_node := 2\<rparr>" sample_ref _ id]
  by (simp add: ActorRef_eq_def sample_ref_def)

lemma shipped_ref_is_resolved_by_its_reader_witness:
  "\<forall>codec f. ActorRef_Send codec f [] 3 (travelled [reply_ctx sample_ref, \<lparr>sc_this_node = 1,
       sc_look_up = (\<lambda>i. if i = 42 then Some sample_actor else None), sc_broker = BasicActorRef_default\<rparr>] sample_ref)
   = Inr (Send_Local \<lparr>lc_actor = sample_actor, lc_object = 4096, lc_mailbox = 3\<rparr>)"
proof (intro allI)
  fix codec f
  show "ActorRef_Send codec f [] 3 (travelled [reply_ctx sample_ref, \<lparr>sc_this_node = 1,
       sc_look_up = (\<lambda>i. if i = 42 then Some sample_actor else None), sc_broker = BasicActorRef_default\<rparr>] sample_ref)
     = Inr (Send_Local \<lparr>lc_actor = sample_actor, lc_object = 4096, lc_mailbox = 3\<rparr>)"
    using shipped_ref_is_resolved_by_its_reader [of codec f "[]" 3 "[reply_ctx sample_ref]" "\<lparr>sc_this_node = 1,
      sc_look_up = (\<lambda>i. if i = 42 then Some sample_actor else None), sc_broker = BasicActorRef_default\<rparr>" sample_ref]
    by (simp add: sample_ref_def instance_ptr_def sample_actor_def)
qed

lemma returned_ref_to_own_actor_is_unusable_witness:
  "ActorRef_Send codec f [] 0 (Parser_read (reply_ctx sample_ref) (Reflector_from sample_ref))
   = Inl (Throw_Stream ''Underlying actor instance not set'')"
  by (rule returned_ref_to_own_actor_is_unusable) (simp_all add: sample_ref_def)

end
