(* ===== verification/Codec_Model.thy ===== *)
theory Codec_Model
  imports Bytes Messages Actor_Ref
begin

text \<open>
  A concrete codec. The encoding of messages is a parameter of the development, with the
  hypotheses \<open>codec_ok\<close> and \<open>ref_codec_ok\<close>; this theory defines one codec that computes and
  proves the hypotheses of it, so that they can hold and the witnesses have an instance. It
  is not the format of Cap'n Proto.
\<close>

abbreviation "put_string \<equiv> put_list put_char"
abbreviation "get_string \<equiv> get_list get_char"
abbreviation "put_bytes \<equiv> put_list put_byte"
abbreviation "get_bytes \<equiv> get_list get_byte"

lemmas reads_string = reads_list [OF reads_char]
lemmas reads_bytes = reads_list [OF reads_byte]

text \<open>A sum: the tag, then the value.\<close>

fun put_request :: "network_request \<Rightarrow> bytes" where
  "put_request (ActorCreationRequest k a) = 0 # put_pair put_string put_bytes (k, a)"
| "put_request (ActorMethodCallRequest k i m a) = 1 # put_pair put_u64 (put_pair put_u64 (put_pair put_u64 put_bytes)) (k, i, m, a)"
| "put_request (ActorLookUpRequest n) = 2 # put_string n"
| "put_request (ActorDestroyRequest i) = 3 # put_u64 i"

fun get_request :: "bytes \<Rightarrow> (network_request \<times> bytes) option" where
  "get_request [] = None"
| "get_request (t # bs) =
     (if t = 0 then get_via (\<lambda>(k, a). ActorCreationRequest k a) (get_pair get_string get_bytes) bs
      else if t = 1 then get_via (\<lambda>(k, i, m, a). ActorMethodCallRequest k i m a)
             (get_pair get_u64 (get_pair get_u64 (get_pair get_u64 get_bytes))) bs
      else if t = 2 then get_via ActorLookUpRequest get_string bs
      else get_via ActorDestroyRequest get_u64 bs)"

fun put_reply :: "network_reply \<Rightarrow> bytes" where
  "put_reply (ActorCreationReply s r e) = 0 # put_pair put_bool (put_pair put_bytes put_string) (s, r, e)"
| "put_reply (ActorMethodCallReply s r e) = 1 # put_pair put_bool (put_pair put_bytes put_string) (s, r, e)"
| "put_reply (ActorLookUpReply s r) = 2 # put_pair put_bool put_bytes (s, r)"
| "put_reply (ActorDestroyReply s e) = 3 # put_pair put_bool put_string (s, e)"

fun get_reply :: "bytes \<Rightarrow> (network_reply \<times> bytes) option" where
  "get_reply [] = None"
| "get_reply (t # bs) =
     (if t = 0 then get_via (\<lambda>(s, r, e). ActorCreationReply s r e) (get_pair get_bool (get_pair get_bytes get_string)) bs
      else if t = 1 then get_via (\<lambda>(s, r, e). ActorMethodCallReply s r e) (get_pair get_bool (get_pair get_bytes get_string)) bs
      else if t = 2 then get_via (\<lambda>(s, r). ActorLookUpReply s r) (get_pair get_bool get_bytes) bs
      else get_via (\<lambda>(s, e). ActorDestroyReply s e) (get_pair get_bool get_string) bs)"

definition put_node_state :: "node_state \<Rightarrow> bytes" where
  "put_node_state = put_via (\<lambda>s. (ns_last_seen_timestamp_ms s, ns_node_id s, ns_address s, ns_node_name s))
     (put_pair put_u64 (put_pair put_u64 (put_pair put_string put_string)))"

definition get_node_state :: "bytes \<Rightarrow> (node_state \<times> bytes) option" where
  "get_node_state = get_via (\<lambda>(t, i, a, n). \<lparr>ns_last_seen_timestamp_ms = t, ns_node_id = i, ns_address = a, ns_node_name = n\<rparr>)
     (get_pair get_u64 (get_pair get_u64 (get_pair get_string get_string)))"

fun put_broker :: "broker_message \<Rightarrow> bytes" where
  "put_broker (Two_Way m) = 0 # put_pair put_u64 (put_pair put_u64 (put_pair put_u64 put_bytes))
     (tw_request_node_id m, tw_response_node_id m, tw_request_id m, tw_payload m)"
| "put_broker (Gossip g) = 1 # put_pair put_u64 (put_list put_node_state) (gm_from_node_id g, gm_node_states g)"

fun get_broker :: "bytes \<Rightarrow> (broker_message \<times> bytes) option" where
  "get_broker [] = None"
| "get_broker (t # bs) =
     (if t = 0 then get_via (\<lambda>(q, r, i, p). Two_Way \<lparr>tw_request_node_id = q, tw_response_node_id = r, tw_request_id = i, tw_payload = p\<rparr>)
             (get_pair get_u64 (get_pair get_u64 (get_pair get_u64 get_bytes))) bs
      else get_via (\<lambda>(f, s). Gossip \<lparr>gm_from_node_id = f, gm_node_states = s\<rparr>) (get_pair get_u64 (get_list get_node_state)) bs)"

definition put_refl :: "refl_ref \<Rightarrow> bytes" where
  "put_refl = put_via (\<lambda>t. (rt_is_empty t, rt_node_id t, rt_actor_id t, rt_type_hash t, rt_adjusted t))
     (put_pair put_bool (put_pair put_u64 (put_pair put_u64 (put_pair put_u64 put_u64))))"

definition get_refl :: "bytes \<Rightarrow> (refl_ref \<times> bytes) option" where
  "get_refl = get_via (\<lambda>(e, n, i, h, p). \<lparr>rt_is_empty = e, rt_node_id = n, rt_actor_id = i, rt_type_hash = h, rt_adjusted = p\<rparr>)
     (get_pair get_bool (get_pair get_u64 (get_pair get_u64 (get_pair get_u64 get_u64))))"

definition decode_with :: "(bytes \<Rightarrow> ('a \<times> bytes) option) \<Rightarrow> bytes \<Rightarrow> exa_error + 'a" where
  "decode_with get bs = (case get bs of None \<Rightarrow> Inl (Codec_Error ''malformed message'') | Some (x, _) \<Rightarrow> Inr x)"

definition plain_codec :: msg_codec where
  "plain_codec = \<lparr>enc_broker = put_broker, dec_broker = decode_with get_broker,
     enc_request = put_request, dec_request = decode_with get_request,
     enc_reply = put_reply, dec_reply = decode_with get_reply\<rparr>"

lemma decode_with_reads: "reads get put \<Longrightarrow> decode_with get (put x) = Inr x"
  by (simp add: decode_with_def reads_end)

lemma reads_tag: "reads r p \<Longrightarrow> (\<And>x. g (f x) = x) \<Longrightarrow> get_via g r (p (f x) @ rest) = Some (x, rest)"
  using reads_via [of r p g f] by (simp add: reads_def put_via_def)

lemmas reads_intros = reads_pair reads_string reads_bytes reads_u64 reads_bool reads_list

lemma reads_request: "reads get_request put_request"
  unfolding reads_def
proof (intro allI)
  fix x rest
  show "get_request (put_request x @ rest) = Some (x, rest)"
    by (cases x) (simp_all add: get_via_def readsD [OF reads_string] readsD [OF reads_u64]
        readsD [OF reads_pair [OF reads_string reads_bytes]]
        readsD [OF reads_pair [OF reads_u64 reads_pair [OF reads_u64 reads_pair [OF reads_u64 reads_bytes]]]])
qed

lemma reads_reply: "reads get_reply put_reply"
  unfolding reads_def
proof (intro allI)
  fix x rest
  show "get_reply (put_reply x @ rest) = Some (x, rest)"
    by (cases x) (simp_all add: get_via_def
        readsD [OF reads_pair [OF reads_bool reads_pair [OF reads_bytes reads_string]]]
        readsD [OF reads_pair [OF reads_bool reads_bytes]] readsD [OF reads_pair [OF reads_bool reads_string]])
qed

lemma reads_node_state: "reads get_node_state put_node_state"
  unfolding get_node_state_def put_node_state_def by (intro reads_via reads_intros) simp

lemma reads_broker: "reads get_broker put_broker"
  unfolding reads_def
proof (intro allI)
  fix x rest
  show "get_broker (put_broker x @ rest) = Some (x, rest)"
    by (cases x) (simp_all add: get_via_def
        readsD [OF reads_pair [OF reads_u64 reads_pair [OF reads_u64 reads_pair [OF reads_u64 reads_bytes]]]]
        readsD [OF reads_pair [OF reads_u64 reads_list [OF reads_node_state]]])
qed

lemma plain_codec_ok: "codec_ok plain_codec"
  by (simp add: codec_ok_def plain_codec_def decode_with_reads reads_request reads_reply reads_broker)

lemma reads_refl: "reads get_refl put_refl"
  unfolding get_refl_def put_refl_def by (intro reads_via reads_intros) simp

lemma decode_refl: "decode_with get_refl (put_refl t) = Inr t"
  by (rule decode_with_reads [OF reads_refl])

end
