(* ===== verification/Handler_Registry.thy ===== *)
theory Handler_Registry
  imports Actor_Ref Actor
begin

text \<open>
  The table of functions that may be called from other nodes (\<open>remote_handler_registry.h\<close>):
  creation handlers by function name, method handlers by key, registered by \<open>EXA_REMOTE\<close>
  before \<open>main\<close>, and the two handlers themselves, which decode the arguments and create the
  actor or call its method.

  What the template parameters stand for is data: a create function is the name of the class
  it makes, how its arguments are decoded, and the user's constructor and spawn hook; a method
  is its name, how its arguments are decoded and its value encoded, whether it returns void,
  and the offset of the class it belongs to in the actor's class. Argument tuples and returned
  values are of one type \<open>'v\<close>.
\<close>

section \<open>The functions that can be registered\<close>

record 'v create_fn =
  cf_name :: string
  cf_type_name :: bytes
  cf_decode :: "serde_ctx \<Rightarrow> bytes \<Rightarrow> exa_error + (actor_config \<times> 'v)"
  cf_construct :: "actor_config \<Rightarrow> 'v \<Rightarrow> exa_error + actor_obj"
  cf_on_spawned :: "actor_ref \<Rightarrow> exa_error + unit"

record 'v method_fn =
  mf_name :: bytes
  mf_offset :: u64
  mf_decode :: "serde_ctx \<Rightarrow> bytes \<Rightarrow> exa_error + 'v"
  mf_is_void :: bool
  mf_encode_return :: "'v \<Rightarrow> bytes"

text \<open>The encoding of a handle's \<open>ReflType\<close>, a parameter like \<open>msg_codec\<close>.\<close>

record ref_codec =
  enc_ref :: "refl_ref \<Rightarrow> bytes"
  dec_ref :: "bytes \<Rightarrow> exa_error + refl_ref"

definition ref_codec_ok :: "ref_codec \<Rightarrow> bool" where
  "ref_codec_ok c \<longleftrightarrow> (\<forall>t. dec_ref c (enc_ref c t) = Inr t)"

section \<open>The table\<close>

record 'v handler_registry =
  hr_creation :: "(string, 'v create_fn) hmap"
  hr_method :: "(u64, 'v method_fn) hmap"

definition HandlerRegistry_empty :: "'v handler_registry" where
  "HandlerRegistry_empty = \<lparr>hr_creation = [], hr_method = []\<rparr>"

definition RegisterRemoteActorMethodCallHandler :: "u64 \<Rightarrow> 'v method_fn \<Rightarrow> ('v handler_registry, unit) eff" where
  "RegisterRemoteActorMethodCallHandler handler_key func =
     bindE (getE hr_method) (\<lambda>m.
     thenE (exa_throw_check (\<not> hm_contains m handler_key) ''Duplicate remote actor method call handler for key'')
           (modE (\<lambda>h. h\<lparr>hr_method := AList.update handler_key func (hr_method h)\<rparr>)))"

definition GetRemoteActorMethodCallHandler :: "u64 \<Rightarrow> 'v handler_registry \<Rightarrow> exa_error + 'v method_fn" where
  "GetRemoteActorMethodCallHandler handler_key h =
     bindR (checkR (hm_contains (hr_method h) handler_key) ''Remote actor method call handler not found for key'') (\<lambda>_.
     MapAt (hr_method h) handler_key)"

definition RegisterRemoteActorCreationHandler :: "string \<Rightarrow> 'v create_fn \<Rightarrow> ('v handler_registry, unit) eff" where
  "RegisterRemoteActorCreationHandler key func =
     bindE (getE hr_creation) (\<lambda>m.
     thenE (exa_throw_check (\<not> hm_contains m key) ''Duplicate remote actor creation handler'')
           (modE (\<lambda>h. h\<lparr>hr_creation := AList.update key func (hr_creation h)\<rparr>)))"

definition GetRemoteActorCreationHandler :: "string \<Rightarrow> 'v handler_registry \<Rightarrow> exa_error + 'v create_fn" where
  "GetRemoteActorCreationHandler key h =
     bindR (checkR (hm_contains (hr_creation h) key) ''Remote actor creation handler not found'') (\<lambda>_.
     MapAt (hr_creation h) key)"

text \<open>The constructor of \<open>RemoteFuncHandlerRegistrar\<close>: the create function, then each method.\<close>

definition method_key :: "'v create_fn \<Rightarrow> 'v method_fn \<Rightarrow> u64" where
  "method_key create m = ComputeRemoteMethodHandlerKey (FnvHash (cf_type_name create)) (mf_name m)"

definition RemoteFuncHandlerRegistrar :: "'v create_fn \<Rightarrow> 'v method_fn list \<Rightarrow> ('v handler_registry, unit) eff" where
  "RemoteFuncHandlerRegistrar create methods =
     thenE (RegisterRemoteActorCreationHandler (cf_name create) create)
           (forE (\<lambda>m. RegisterRemoteActorMethodCallHandler (method_key create m) m) methods)"

section \<open>The handlers\<close>

record actor_creation_result =
  acr_actor :: actor_obj
  acr_actor_name :: "string option"
  acr_serialized_ref :: bytes

definition DeserializeAndCreateActor ::
    "ref_codec \<Rightarrow> 'v create_fn \<Rightarrow> bytes \<Rightarrow> serde_ctx \<Rightarrow> u64 \<Rightarrow> exa_error + actor_creation_result" where
  "DeserializeAndCreateActor rc f serialized_args ctx actor_id =
     bindR (cf_decode f ctx serialized_args) (\<lambda>(config, args).
     bindR (cf_construct f config args) (\<lambda>actor.
     let ref = ActorRef_new (cf_type_name f) (sc_this_node ctx) (sc_this_node ctx) actor_id (Some actor) (sc_broker ctx) in
     bindR (cf_on_spawned f ref) (\<lambda>_.
     Inr \<lparr>acr_actor = actor, acr_actor_name = actor_name config, acr_serialized_ref = enc_ref rc (Reflector_from ref)\<rparr>)))"

text \<open>
  The method handler is a coroutine. It starts by decoding the arguments and queueing the
  call on the actor; it ends, when the call completes, with the reply.
\<close>

definition DeserializeAndInvokeActorMethod_start ::
    "'v method_fn \<Rightarrow> actor_obj option \<Rightarrow> bytes \<Rightarrow> serde_ctx \<Rightarrow> u64 \<Rightarrow> exa_error + (local_call \<times> 'v)" where
  "DeserializeAndInvokeActorMethod_start f actor serialized_args ctx mailbox_index =
     (case actor of
        None \<Rightarrow> Inl (Throw_Stream ''context.actor != nullptr'')
      | Some a \<Rightarrow>
          bindR (mf_decode f ctx serialized_args) (\<lambda>args.
          Inr (\<lparr>lc_actor = a, lc_object = upcast (mf_offset f) (ao_instance_address a), lc_mailbox = mailbox_index\<rparr>, args)))"

definition DeserializeAndInvokeActorMethod_end :: "'v method_fn \<Rightarrow> exa_error + 'v \<Rightarrow> exa_error + network_reply" where
  "DeserializeAndInvokeActorMethod_end f result =
     bindR result (\<lambda>v. Inr (ActorMethodCallReply True (if mf_is_void f then [] else mf_encode_return f v) []))"

section \<open>Registration\<close>

definition registered_keys :: "'v handler_registry \<Rightarrow> u64 set" where
  "registered_keys h = fst ` set (hr_method h)"

lemma register_method_run:
  "RegisterRemoteActorMethodCallHandler k m h =
     (if hm_contains (hr_method h) k then (Inl (Throw_Stream ''Duplicate remote actor method call handler for key''), h)
      else (Inr (), h\<lparr>hr_method := AList.update k m (hr_method h)\<rparr>))"
  by (simp add: RegisterRemoteActorMethodCallHandler_def eff_defs)

lemma register_methods_run:
  assumes "distinct (map key ms)" and "set (map key ms) \<inter> registered_keys h = {}"
  shows "\<exists>h'. forE (\<lambda>m. RegisterRemoteActorMethodCallHandler (key m) m) ms h = (Inr (), h')
     \<and> hr_creation h' = hr_creation h
     \<and> (\<forall>k. map_of (hr_method h') k = (case find (\<lambda>m. key m = k) ms of Some m \<Rightarrow> Some m | None \<Rightarrow> map_of (hr_method h) k))"
  using assms
proof (induction ms arbitrary: h)
  case Nil
  show ?case by (simp add: retE_def)
next
  case (Cons m ms)
  define h1 where "h1 = h\<lparr>hr_method := AList.update (key m) m (hr_method h)\<rparr>"
  have new: "\<not> hm_contains (hr_method h) (key m)"
    using Cons.prems(2) by (simp add: hm_contains_iff registered_keys_def)
  have "registered_keys h1 = insert (key m) (registered_keys h)" by (simp add: h1_def registered_keys_def)
  then have "set (map key ms) \<inter> registered_keys h1 = {}" using Cons.prems by auto
  moreover have "distinct (map key ms)" using Cons.prems(1) by simp
  ultimately obtain h' where h': "forE (\<lambda>m. RegisterRemoteActorMethodCallHandler (key m) m) ms h1 = (Inr (), h')"
      "hr_creation h' = hr_creation h1"
      "\<forall>k. map_of (hr_method h') k = (case find (\<lambda>m. key m = k) ms of Some m \<Rightarrow> Some m | None \<Rightarrow> map_of (hr_method h1) k)"
    using Cons.IH by blast
  have "find (\<lambda>m'. key m' = key m) ms = None" using Cons.prems(1) unfolding find_None_iff
    by (metis distinct.simps(2) image_eqI list.set_map list.simps(9))
  then have "\<forall>k. map_of (hr_method h') k
      = (case find (\<lambda>m. key m = k) (m # ms) of Some m \<Rightarrow> Some m | None \<Rightarrow> map_of (hr_method h) k)"
    using h'(3) by (auto simp: h1_def split: option.splits)
  moreover have "RegisterRemoteActorMethodCallHandler (key m) m h = (Inr (), h1)"
    by (simp add: register_method_run new h1_def)
  then have "forE (\<lambda>m. RegisterRemoteActorMethodCallHandler (key m) m) (m # ms) h = (Inr (), h')"
    by (simp add: thenE_def bindE_Inr h'(1))
  ultimately show ?case using h'(2) by (auto simp: h1_def)
qed

lemma lookup_method: "GetRemoteActorMethodCallHandler k h =
    (case map_of (hr_method h) k of
       None \<Rightarrow> Inl (Throw_Stream ''Remote actor method call handler not found for key'') | Some f \<Rightarrow> Inr f)"
  by (simp add: GetRemoteActorMethodCallHandler_def hm_contains_def MapAt_def split: option.splits)

lemma lookup_creation: "GetRemoteActorCreationHandler k h =
    (case map_of (hr_creation h) k of
       None \<Rightarrow> Inl (Throw_Stream ''Remote actor creation handler not found'') | Some f \<Rightarrow> Inr f)"
  by (simp add: GetRemoteActorCreationHandler_def hm_contains_def MapAt_def split: option.splits)

text \<open>
  \<open>EXA_REMOTE\<close> makes its functions callable. When the names of a class's create function
  and methods give keys that are new and differ from each other, registration succeeds, each
  of them is then found under its key, the key that \<open>SendRemote\<close> computes for a handle of
  that class, and what was registered before is still found.
\<close>

theorem registration_makes_methods_callable:
  assumes "distinct (map (method_key create) methods)" and "set (map (method_key create) methods) \<inter> registered_keys h = {}"
    and "\<not> hm_contains (hr_creation h) (cf_name create)"
  shows "\<exists>h'. RemoteFuncHandlerRegistrar create methods h = (Inr (), h')
     \<and> GetRemoteActorCreationHandler (cf_name create) h' = Inr create
     \<and> (\<forall>m \<in> set methods.
          GetRemoteActorMethodCallHandler (ComputeRemoteMethodHandlerKey (FnvHash (cf_type_name create)) (mf_name m)) h' = Inr m)
     \<and> (\<forall>k. k \<in> registered_keys h \<longrightarrow> GetRemoteActorMethodCallHandler k h' = GetRemoteActorMethodCallHandler k h)"
proof -
  define h1 where "h1 = h\<lparr>hr_creation := AList.update (cf_name create) create (hr_creation h)\<rparr>"
  have "set (map (method_key create) methods) \<inter> registered_keys h1 = {}"
    using assms(2) by (simp add: h1_def registered_keys_def)
  then obtain h' where h': "forE (\<lambda>m. RegisterRemoteActorMethodCallHandler (method_key create m) m) methods h1 = (Inr (), h')"
      "hr_creation h' = hr_creation h1"
      "\<forall>k. map_of (hr_method h') k
         = (case find (\<lambda>m. method_key create m = k) methods of Some m \<Rightarrow> Some m | None \<Rightarrow> map_of (hr_method h1) k)"
    using register_methods_run [OF assms(1)] by blast
  have run: "RemoteFuncHandlerRegistrar create methods h = (Inr (), h')"
    using assms(3) h'(1) by (simp add: RemoteFuncHandlerRegistrar_def RegisterRemoteActorCreationHandler_def eff_defs h1_def)
  have found: "find (\<lambda>m'. method_key create m' = method_key create m) methods = Some m" if "m \<in> set methods" for m
    using that assms(1) by (induction methods) force+
  have 1: "GetRemoteActorMethodCallHandler (method_key create m) h' = Inr m" if "m \<in> set methods" for m
    using h'(3) found [OF that] by (simp add: lookup_method)
  have 2: "GetRemoteActorMethodCallHandler k h' = GetRemoteActorMethodCallHandler k h" if k: "k \<in> registered_keys h" for k
  proof -
    have "find (\<lambda>m. method_key create m = k) methods = None" using assms(2) k by (auto simp: find_None_iff)
    then show ?thesis using h'(3) by (simp add: lookup_method h1_def)
  qed
  have 3: "GetRemoteActorCreationHandler (cf_name create) h' = Inr create"
    using h'(2) by (simp add: lookup_creation h1_def)
  show ?thesis
    by (rule exI [of _ h']) (use run 1 2 3 in \<open>auto simp: method_key_def\<close>)
qed

definition sample_create :: "nat create_fn" where
  "sample_create = \<lparr>cf_name = ''Counter::Create'', cf_type_name = [67],
     cf_decode = (\<lambda>_ b. if b = [1] then Inr (ActorConfig_default\<lparr>actor_name := Some ''counter''\<rparr>, 5)
        else Inr (ActorConfig_default, length b)),
     cf_construct = (\<lambda>config v. Inr \<lparr>ao_addr = v, ao_instance_address = 64, ao_type_hash = FnvHash [67]\<rparr>),
     cf_on_spawned = (\<lambda>_. Inr ())\<rparr>"

definition sample_method :: "nat method_fn" where
  "sample_method = \<lparr>mf_name = [65], mf_offset = 8, mf_decode = (\<lambda>_ b. Inr (length b)), mf_is_void = False,
     mf_encode_return = (\<lambda>v. replicate v 0)\<rparr>"

lemma registration_makes_methods_callable_witness:
  "\<exists>h'. RemoteFuncHandlerRegistrar sample_create [sample_method] HandlerRegistry_empty = (Inr (), h')
     \<and> GetRemoteActorCreationHandler ''Counter::Create'' h' = Inr sample_create"
proof -
  have new: "set (map (method_key sample_create) [sample_method]) \<inter> registered_keys HandlerRegistry_empty = {}"
      "\<not> hm_contains (hr_creation HandlerRegistry_empty) (cf_name sample_create)"
    by (simp_all add: HandlerRegistry_empty_def registered_keys_def hm_contains_def)
  have "distinct (map (method_key sample_create) [sample_method])" by simp
  from registration_makes_methods_callable [OF this new] show ?thesis
    by (auto simp: sample_create_def)
qed

end
