(* ===== verification/Registry.thy ===== *)
theory Registry
  imports Handler_Registry
begin

text \<open>
  The actor registry of a node: \<open>ActorRegistryBackend\<close> of \<open>actor_registry.h\<close> and
  \<open>actor_registry.cc\<close>. It owns the node's actors, finds them by id and by name, spawns and
  destroys them, and answers the requests of other nodes. It runs as an actor, so its
  operations run one at a time; an operation that suspends at a \<open>co_await\<close> is modelled by
  what it does before and what it does after.

  The random number generator is the list of the ids it is going to draw. Awaiting
  \<open>AsyncDestroy\<close> changes nothing in the registry; the list \<open>bk_destroyed\<close> records the actors it
  was called on. A caught exception is one derived from \<open>std::exception\<close>, which is every
  exception of the model.
\<close>

section \<open>State\<close>

record reg_actor =
  ra_obj :: actor_obj
  ra_name :: "string option"

record backend =
  bk_draws :: "u64 list"
  bk_this_node :: u64
  bk_broker :: basic_ref
  bk_actors :: "(u64, reg_actor) hmap"
  bk_refs :: "(u64, bytes) hmap"
  bk_names :: "(string, u64) hmap"
  bk_destroyed :: "actor_obj list"

record 'v registry_env =
  re_codec :: msg_codec
  re_ref_codec :: ref_codec
  re_handlers :: "'v handler_registry"
  re_error_text :: "exa_error \<Rightarrow> string"

definition Backend_new :: "u64 list \<Rightarrow> u64 \<Rightarrow> basic_ref \<Rightarrow> backend" where
  "Backend_new draws this_node_id broker =
     \<lparr>bk_draws = draws, bk_this_node = this_node_id, bk_broker = broker, bk_actors = [], bk_refs = [],
      bk_names = [], bk_destroyed = []\<rparr>"

definition SetBrokerActorRef :: "basic_ref \<Rightarrow> backend \<Rightarrow> backend" where
  "SetBrokerActorRef broker b = b\<lparr>bk_broker := broker\<rparr>"

text \<open>Drawing until an id is free; no result when every id that is drawn is taken.\<close>

fun GenerateRandomActorId :: "(u64, reg_actor) hmap \<Rightarrow> u64 list \<Rightarrow> (u64 \<times> u64 list) option" where
  "GenerateRandomActorId actors [] = None"
| "GenerateRandomActorId actors (aid # draws) =
     (if \<not> hm_contains actors aid then Some (aid, draws) else GenerateRandomActorId actors draws)"

definition look_up_actor :: "backend \<Rightarrow> u64 \<Rightarrow> actor_obj option" where
  "look_up_actor b aid = map_option ra_obj (map_of (bk_actors b) aid)"

definition own_ctx :: "backend \<Rightarrow> serde_ctx" where
  "own_ctx b = \<lparr>sc_this_node = bk_this_node b, sc_look_up = look_up_actor b, sc_broker = bk_broker b\<rparr>"

definition DeserializeActorRef :: "ref_codec \<Rightarrow> bytes \<Rightarrow> backend \<Rightarrow> exa_error + actor_ref" where
  "DeserializeActorRef rc serialized b =
     bindR (dec_ref rc serialized) (\<lambda>refl.
     let r = Reflector_to refl in
     Inr (if bf_is_empty r then r
          else SetLocalRuntimeInfo (bk_this_node b) (look_up_actor b (bf_actor_id r)) (bk_broker b) r))"

section \<open>Spawning\<close>

text \<open>The end of \<open>SpawnLocal\<close> and of \<open>HandleActorCreationRequest\<close>: the new actor enters the maps.\<close>

definition add_actor :: "u64 \<Rightarrow> actor_obj \<Rightarrow> string option \<Rightarrow> bytes \<Rightarrow> (backend, unit) eff" where
  "add_actor aid actor name serialized =
     thenE (case name of
              None \<Rightarrow> retE ()
            | Some n \<Rightarrow>
                bindE (getE bk_names) (\<lambda>names.
                thenE (exa_throw_check (\<not> hm_contains names n) ''An actor with the same name already exists'')
                      (modE (\<lambda>b. b\<lparr>bk_names := AList.update n aid (bk_names b)\<rparr>))))
    (thenE (modE (\<lambda>b. b\<lparr>bk_actors := AList.update aid \<lparr>ra_obj = actor, ra_name = name\<rparr> (bk_actors b)\<rparr>))
           (modE (\<lambda>b. b\<lparr>bk_refs := AList.update aid serialized (bk_refs b)\<rparr>)))"

definition SpawnLocal_with_id ::
    "ref_codec \<Rightarrow> 'v create_fn \<Rightarrow> u64 \<Rightarrow> actor_config \<Rightarrow> 'v \<Rightarrow> u64 \<Rightarrow> (backend, actor_ref) eff" where
  "SpawnLocal_with_id rc f node_id config args aid =
     bindE (liftE (cf_construct f config args)) (\<lambda>actor.
     bindE (getE (\<lambda>b. ActorRef_new (cf_type_name f) (bk_this_node b) node_id aid (Some actor) (bk_broker b))) (\<lambda>handle.
     thenE (liftE (cf_on_spawned f handle))
    (thenE (add_actor aid actor (actor_name config) (enc_ref rc (Reflector_from handle)))
           (retE handle))))"

definition SpawnLocal ::
    "ref_codec \<Rightarrow> 'v create_fn \<Rightarrow> u64 \<Rightarrow> actor_config \<Rightarrow> 'v \<Rightarrow> backend \<Rightarrow> ((exa_error + actor_ref) \<times> backend) option" where
  "SpawnLocal rc f node_id config args b =
     (case GenerateRandomActorId (bk_actors b) (bk_draws b) of
        None \<Rightarrow> None
      | Some (aid, draws) \<Rightarrow> Some (SpawnLocal_with_id rc f node_id config args aid (b\<lparr>bk_draws := draws\<rparr>)))"

definition SpawnWithClass ::
    "ref_codec \<Rightarrow> 'v create_fn \<Rightarrow> u64 \<Rightarrow> actor_config \<Rightarrow> 'v \<Rightarrow> backend \<Rightarrow> ((exa_error + actor_ref) \<times> backend) option" where
  "SpawnWithClass rc f node_id config args b =
     (if node_id \<noteq> bk_this_node b
      then Some (Inl (Throw_Stream ''Spawn<UserClass> can only be used to create local actor''), b)
      else SpawnLocal rc f node_id config args b)"

text \<open>
  An operation that may wait for another node: it has finished, or it waits for the response
  to a request it has handed to \<open>MessageBroker::SendRequest\<close> of its broker.
\<close>

datatype 'a awaiting = Finished 'a | Awaits_Response local_call u64 bytes

definition send_request :: "msg_codec \<Rightarrow> string \<Rightarrow> u64 \<Rightarrow> network_request \<Rightarrow> backend \<Rightarrow> exa_error + 'a awaiting" where
  "send_request codec msg node_id request b =
     bindR (checkR (\<not> bf_is_empty (bk_broker b)) msg) (\<lambda>_.
     bindR (BasicActorRef_SendLocal (bk_broker b)) (\<lambda>call.
     Inr (Awaits_Response call node_id (enc_request codec request))))"

definition SpawnWithCreateFn_start ::
    "msg_codec \<Rightarrow> ref_codec \<Rightarrow> 'v create_fn \<Rightarrow> (actor_config \<Rightarrow> 'v \<Rightarrow> bytes) \<Rightarrow> u64 \<Rightarrow> actor_config \<Rightarrow> 'v \<Rightarrow>
     backend \<Rightarrow> ((exa_error + actor_ref awaiting) \<times> backend) option" where
  "SpawnWithCreateFn_start codec rc f encode_args node_id config args b =
     (if node_id = bk_this_node b
      then (case SpawnLocal rc f node_id config args b of
              None \<Rightarrow> None
            | Some (r, b') \<Rightarrow> Some (bindR r (\<lambda>h. Inr (Finished h)), b'))
      else Some (send_request codec ''Broker actor not set'' node_id
             (ActorCreationRequest (cf_name f) (encode_args config args)) b, b))"

definition SpawnWithCreateFn_resume :: "msg_codec \<Rightarrow> ref_codec \<Rightarrow> bytes \<Rightarrow> backend \<Rightarrow> exa_error + actor_ref" where
  "SpawnWithCreateFn_resume codec rc response b =
     bindR (dec_reply codec response) (\<lambda>reply.
     case reply of
       ActorCreationReply success serialized err \<Rightarrow>
         if \<not> success then Inl (Throw_Stream ''Got actor creation error from remote node:'')
         else DeserializeActorRef rc serialized b
     | _ \<Rightarrow> Inl Bad_Variant_Access)"

section \<open>Destroying\<close>

definition DestroyLocalActor :: "u64 \<Rightarrow> (backend, unit) eff" where
  "DestroyLocalActor actor_id =
     bindE (getE (\<lambda>b. map_of (bk_actors b) actor_id)) (\<lambda>found.
     case found of
       None \<Rightarrow> exa_throw ''Actor with id not found''
     | Some actor \<Rightarrow>
         thenE (modE (\<lambda>b. b\<lparr>bk_actors := AList.delete actor_id (bk_actors b), bk_refs := AList.delete actor_id (bk_refs b)\<rparr>))
        (thenE (case ra_name actor of
                  None \<Rightarrow> retE ()
                | Some n \<Rightarrow> modE (\<lambda>b. b\<lparr>bk_names := AList.delete n (bk_names b)\<rparr>))
               (modE (\<lambda>b. b\<lparr>bk_destroyed := bk_destroyed b @ [ra_obj actor]\<rparr>))))"

definition DestroyActor_start :: "msg_codec \<Rightarrow> actor_ref \<Rightarrow> (backend, unit awaiting) eff" where
  "DestroyActor_start codec r =
     bindE (getE bk_this_node) (\<lambda>this_node.
     if rf_node r = this_node then thenE (DestroyLocalActor (bf_actor_id r)) (retE (Finished ()))
     else bindE (getE (send_request codec ''Trying to destroy a remote actor, but not in distributed mode''
            (rf_node r) (ActorDestroyRequest (bf_actor_id r)))) liftE)"

definition DestroyActor_resume :: "msg_codec \<Rightarrow> bytes \<Rightarrow> exa_error + unit" where
  "DestroyActor_resume codec response =
     bindR (dec_reply codec response) (\<lambda>reply.
     case reply of
       ActorDestroyReply success err \<Rightarrow>
         if \<not> success then Inl (Throw_Stream ''Got actor destroy error from remote node: '') else Inr ()
     | _ \<Rightarrow> Inl Bad_Variant_Access)"

definition AsyncDestroyAllActors :: "backend \<Rightarrow> backend" where
  "AsyncDestroyAllActors b = b\<lparr>bk_destroyed := bk_destroyed b @ map (ra_obj \<circ> snd) (bk_actors b)\<rparr>"

section \<open>Looking up\<close>

text \<open>
  The local look-up reads the second map with \<open>at\<close>, which throws when the id is unknown.
\<close>

definition GetActorRefByName :: "bytes \<Rightarrow> string \<Rightarrow> backend \<Rightarrow> exa_error + actor_ref option" where
  "GetActorRefByName type_name name b =
     (case map_of (bk_names b) name of
        None \<Rightarrow> Inr None
      | Some aid \<Rightarrow>
          bindR (MapAt (bk_actors b) aid) (\<lambda>a.
          Inr (Some (ActorRef_new type_name (bk_this_node b) (bk_this_node b) aid (Some (ra_obj a)) (bk_broker b)))))"

definition GetActorRefByName_start ::
    "msg_codec \<Rightarrow> bytes \<Rightarrow> u64 \<Rightarrow> string \<Rightarrow> backend \<Rightarrow> exa_error + actor_ref option awaiting" where
  "GetActorRefByName_start codec type_name node_id name b =
     (if node_id = bk_this_node b then bindR (GetActorRefByName type_name name b) (\<lambda>r. Inr (Finished r))
      else send_request codec ''Broker actor not set'' node_id (ActorLookUpRequest name) b)"

definition GetActorRefByName_resume :: "msg_codec \<Rightarrow> ref_codec \<Rightarrow> bytes \<Rightarrow> backend \<Rightarrow> exa_error + actor_ref option" where
  "GetActorRefByName_resume codec rc response b =
     bindR (dec_reply codec response) (\<lambda>reply.
     case reply of
       ActorLookUpReply success serialized \<Rightarrow>
         if success then bindR (DeserializeActorRef rc serialized b) (\<lambda>r. Inr (Some r)) else Inr None
     | _ \<Rightarrow> Inl Bad_Variant_Access)"

section \<open>Requests of other nodes\<close>

definition creation_error :: "'v registry_env \<Rightarrow> exa_error \<Rightarrow> bytes" where
  "creation_error env e = enc_reply (re_codec env) (ActorCreationReply False [] (re_error_text env e))"

definition method_error :: "'v registry_env \<Rightarrow> exa_error \<Rightarrow> bytes" where
  "method_error env e = enc_reply (re_codec env) (ActorMethodCallReply False [] (re_error_text env e))"

definition HandleActorCreationRequest ::
    "'v registry_env \<Rightarrow> string \<Rightarrow> bytes \<Rightarrow> backend \<Rightarrow> (bytes \<times> backend) option" where
  "HandleActorCreationRequest env handler_key serialized_args b =
     (case GetRemoteActorCreationHandler handler_key (re_handlers env) of
        Inl e \<Rightarrow> Some (creation_error env e, b)
      | Inr f \<Rightarrow>
          (case GenerateRandomActorId (bk_actors b) (bk_draws b) of
             None \<Rightarrow> None
           | Some (aid, draws) \<Rightarrow>
               let b1 = b\<lparr>bk_draws := draws\<rparr> in
               (case bindE (liftE (DeserializeAndCreateActor (re_ref_codec env) f serialized_args (own_ctx b1) aid)) (\<lambda>res.
                     thenE (add_actor aid (acr_actor res) (acr_actor_name res) (acr_serialized_ref res))
                           (retE (acr_serialized_ref res))) b1 of
                  (Inl e, b2) \<Rightarrow> Some (creation_error env e, b2)
                | (Inr serialized, b2) \<Rightarrow>
                    Some (enc_reply (re_codec env) (ActorCreationReply True serialized []), b2))))"

text \<open>
  The call of a method: an error is answered at once, otherwise the call is queued on the
  actor, and the reply is made when it completes.
\<close>

datatype 'v net_outcome = Net_Reply bytes | Net_Call "'v method_fn" local_call 'v

definition HandleActorMethodCallRequest_start ::
    "'v registry_env \<Rightarrow> u64 \<Rightarrow> u64 \<Rightarrow> u64 \<Rightarrow> bytes \<Rightarrow> backend \<Rightarrow> 'v net_outcome" where
  "HandleActorMethodCallRequest_start env handler_key actor_id mailbox_index serialized_args b =
     (if \<not> hm_contains (bk_actors b) actor_id
      then Net_Reply (enc_reply (re_codec env) (ActorMethodCallReply False [] ''Can't find actor at remote node''))
      else
        (case GetRemoteActorMethodCallHandler handler_key (re_handlers env) of
           Inl e \<Rightarrow> Net_Reply (method_error env e)
         | Inr f \<Rightarrow>
             (case DeserializeAndInvokeActorMethod_start f (look_up_actor b actor_id) serialized_args (own_ctx b) mailbox_index of
                Inl e \<Rightarrow> Net_Reply (method_error env e)
              | Inr (call, args) \<Rightarrow> Net_Call f call args)))"

definition HandleActorMethodCallRequest_end :: "'v registry_env \<Rightarrow> 'v method_fn \<Rightarrow> exa_error + 'v \<Rightarrow> bytes" where
  "HandleActorMethodCallRequest_end env f result =
     (case DeserializeAndInvokeActorMethod_end f result of
        Inl e \<Rightarrow> method_error env e
      | Inr reply \<Rightarrow> enc_reply (re_codec env) reply)"

definition HandleActorDestroyRequest :: "'v registry_env \<Rightarrow> u64 \<Rightarrow> backend \<Rightarrow> bytes \<times> backend" where
  "HandleActorDestroyRequest env actor_id b =
     (case DestroyLocalActor actor_id b of
        (Inr _, b') \<Rightarrow> (enc_reply (re_codec env) (ActorDestroyReply True []), b')
      | (Inl e, b') \<Rightarrow> (enc_reply (re_codec env) (ActorDestroyReply False (re_error_text env e)), b'))"

definition HandleActorLookUpRequest :: "'v registry_env \<Rightarrow> string \<Rightarrow> backend \<Rightarrow> exa_error + bytes" where
  "HandleActorLookUpRequest env name b =
     (case map_of (bk_names b) name of
        Some aid \<Rightarrow>
          bindR (MapAt (bk_refs b) aid) (\<lambda>serialized.
          Inr (enc_reply (re_codec env) (ActorLookUpReply True serialized)))
      | None \<Rightarrow> Inr (enc_reply (re_codec env) (ActorLookUpReply False [])))"

definition HandleNetworkRequest ::
    "'v registry_env \<Rightarrow> bytes \<Rightarrow> backend \<Rightarrow> ((exa_error + 'v net_outcome) \<times> backend) option" where
  "HandleNetworkRequest env request_buffer b =
     (case dec_request (re_codec env) request_buffer of
        Inl e \<Rightarrow> Some (Inl e, b)
      | Inr (ActorCreationRequest handler_key args) \<Rightarrow>
          map_option (\<lambda>(reply, b'). (Inr (Net_Reply reply), b')) (HandleActorCreationRequest env handler_key args b)
      | Inr (ActorMethodCallRequest handler_key actor_id mailbox_index args) \<Rightarrow>
          Some (Inr (HandleActorMethodCallRequest_start env handler_key actor_id mailbox_index args b), b)
      | Inr (ActorLookUpRequest name) \<Rightarrow>
          Some (bindR (HandleActorLookUpRequest env name b) (\<lambda>reply. Inr (Net_Reply reply)), b)
      | Inr (ActorDestroyRequest actor_id) \<Rightarrow>
          (let (reply, b') = HandleActorDestroyRequest env actor_id b in Some (Inr (Net_Reply reply), b')))"

section \<open>The reachable states\<close>

text \<open>
  A registry as it runs: constructed for a node, then any sequence of local and remote spawns,
  destructions, requests of other nodes and changes of the broker.
\<close>

inductive backend_reach :: "'v registry_env \<Rightarrow> u64 \<Rightarrow> backend \<Rightarrow> bool" for env node where
  new: "backend_reach env node (Backend_new draws node broker)"
| broker: "backend_reach env node b \<Longrightarrow> backend_reach env node (SetBrokerActorRef broker b)"
| spawn: "backend_reach env node b \<Longrightarrow> SpawnWithClass (re_ref_codec env) (f :: 'v create_fn) node_id config args b = Some (r, b') \<Longrightarrow>
    backend_reach env node b'"
| spawn_fn: "backend_reach env node b \<Longrightarrow>
    SpawnWithCreateFn_start (re_codec env) (re_ref_codec env) (f :: 'v create_fn) encode_args node_id config args b = Some (q, b') \<Longrightarrow>
    backend_reach env node b'"
| destroy: "backend_reach env node b \<Longrightarrow> DestroyActor_start (re_codec env) ref b = (s, b') \<Longrightarrow> backend_reach env node b'"
| request: "backend_reach env node b \<Longrightarrow> HandleNetworkRequest env raw b = Some (q, b') \<Longrightarrow> backend_reach env node b'"
| shutdown: "backend_reach env node b \<Longrightarrow> backend_reach env node (AsyncDestroyAllActors b)"

end
