(* ===== verification/Registry_Props.thy ===== *)
theory Registry_Props
  imports Registry
begin

text \<open>
  What the registry guarantees: its three maps agree with each other in every reachable
  state, names are unique and found, and a destroyed actor is gone. (\<open>Registry_Remote\<close> has the
  requests of other nodes.)
\<close>

section \<open>The maps agree\<close>

definition serialized_for :: "ref_codec \<Rightarrow> u64 \<Rightarrow> u64 \<Rightarrow> actor_obj \<Rightarrow> bytes \<Rightarrow> bool" where
  "serialized_for rc node aid obj serialized \<longleftrightarrow>
     (\<exists>t k. serialized = enc_ref rc (Reflector_from (ActorRef_new t node node aid (Some obj) k)))"

definition names_inv :: "backend \<Rightarrow> bool" where
  "names_inv b \<longleftrightarrow> (\<forall>n aid. map_of (bk_names b) n = Some aid
     \<longleftrightarrow> (\<exists>a. map_of (bk_actors b) aid = Some a \<and> ra_name a = Some n))"

definition refs_inv :: "ref_codec \<Rightarrow> backend \<Rightarrow> bool" where
  "refs_inv rc b \<longleftrightarrow> (\<forall>aid. map_of (bk_refs b) aid = None \<longleftrightarrow> map_of (bk_actors b) aid = None)
     \<and> (\<forall>aid a s. map_of (bk_actors b) aid = Some a \<longrightarrow> map_of (bk_refs b) aid = Some s \<longrightarrow>
          serialized_for rc (bk_this_node b) aid (ra_obj a) s)"

definition bk_inv :: "ref_codec \<Rightarrow> u64 \<Rightarrow> backend \<Rightarrow> bool" where
  "bk_inv rc node b \<longleftrightarrow> bk_this_node b = node \<and> hm_ok (bk_actors b) \<and> names_inv b \<and> refs_inv rc b"

lemma bk_invD:
  assumes "bk_inv rc node b"
  shows "bk_this_node b = node" "hm_ok (bk_actors b)" "names_inv b" "refs_inv rc b"
  using assms by (simp_all add: bk_inv_def)

lemma bk_inv_frame:
  assumes "bk_inv rc node b" "bk_this_node b' = bk_this_node b" "bk_actors b' = bk_actors b"
    "bk_names b' = bk_names b" "bk_refs b' = bk_refs b"
  shows "bk_inv rc node b'"
  using assms(1) unfolding bk_inv_def names_inv_def refs_inv_def assms(2-5) .

text \<open>What the two operations that change the maps do.\<close>

definition name_taken :: "string option \<Rightarrow> backend \<Rightarrow> bool" where
  "name_taken name b \<longleftrightarrow> (\<exists>n. name = Some n \<and> map_of (bk_names b) n \<noteq> None)"

definition added :: "u64 \<Rightarrow> actor_obj \<Rightarrow> string option \<Rightarrow> bytes \<Rightarrow> backend \<Rightarrow> backend" where
  "added aid obj name serialized b = b\<lparr>
     bk_names := (case name of None \<Rightarrow> bk_names b | Some n \<Rightarrow> AList.update n aid (bk_names b)),
     bk_actors := AList.update aid \<lparr>ra_obj = obj, ra_name = name\<rparr> (bk_actors b),
     bk_refs := AList.update aid serialized (bk_refs b)\<rparr>"

lemma add_actor_run: "add_actor aid obj name serialized b =
    (if name_taken name b then (Inl (Throw_Stream ''An actor with the same name already exists''), b)
     else (Inr (), added aid obj name serialized b))"
  by (cases name) (auto simp: add_actor_def eff_defs name_taken_def added_def hm_contains_def)

definition removed :: "u64 \<Rightarrow> reg_actor \<Rightarrow> backend \<Rightarrow> backend" where
  "removed aid a b = b\<lparr>
     bk_actors := AList.delete aid (bk_actors b), bk_refs := AList.delete aid (bk_refs b),
     bk_names := (case ra_name a of None \<Rightarrow> bk_names b | Some n \<Rightarrow> AList.delete n (bk_names b)),
     bk_destroyed := bk_destroyed b @ [ra_obj a]\<rparr>"

lemma DestroyLocalActor_run: "DestroyLocalActor aid b =
    (case map_of (bk_actors b) aid of
       None \<Rightarrow> (Inl (Throw_Stream ''Actor with id not found''), b)
     | Some a \<Rightarrow> (Inr (), removed aid a b))"
  by (auto simp: DestroyLocalActor_def eff_defs removed_def split: option.splits)

lemma added_maps:
  "map_of (bk_names (added aid obj name serialized b)) n = (if name = Some n then Some aid else map_of (bk_names b) n)"
  "map_of (bk_actors (added aid obj name serialized b)) k
     = (if k = aid then Some \<lparr>ra_obj = obj, ra_name = name\<rparr> else map_of (bk_actors b) k)"
  "map_of (bk_refs (added aid obj name serialized b)) k = (if k = aid then Some serialized else map_of (bk_refs b) k)"
  "bk_this_node (added aid obj name serialized b) = bk_this_node b"
  "bk_broker (added aid obj name serialized b) = bk_broker b"
  "hm_ok (bk_actors b) \<Longrightarrow> hm_ok (bk_actors (added aid obj name serialized b))"
  by (auto simp: added_def split: option.splits)

lemma removed_maps:
  "map_of (bk_names (removed aid a b)) n = (if ra_name a = Some n then None else map_of (bk_names b) n)"
  "map_of (bk_actors (removed aid a b)) k = (if k = aid then None else map_of (bk_actors b) k)"
  "map_of (bk_refs (removed aid a b)) k = (if k = aid then None else map_of (bk_refs b) k)"
  "bk_this_node (removed aid a b) = bk_this_node b"
  "bk_broker (removed aid a b) = bk_broker b"
  "hm_ok (bk_actors b) \<Longrightarrow> hm_ok (bk_actors (removed aid a b))"
  by (auto simp: removed_def split: option.splits)

lemma names_invD:
  "names_inv b \<Longrightarrow> map_of (bk_names b) n = Some aid
     \<longleftrightarrow> (\<exists>a. map_of (bk_actors b) aid = Some a \<and> ra_name a = Some n)"
  by (simp add: names_inv_def)

lemma bk_inv_added:
  assumes inv: "bk_inv rc node b" and new: "map_of (bk_actors b) aid = None" and free: "\<not> name_taken name b"
    and ser: "serialized_for rc node aid obj serialized"
  shows "bk_inv rc node (added aid obj name serialized b)"
proof -
  note d = bk_invD [OF inv]
  have "names_inv (added aid obj name serialized b)"
    unfolding names_inv_def
  proof (intro allI)
    fix n k
    show "map_of (bk_names (added aid obj name serialized b)) n = Some k
       \<longleftrightarrow> (\<exists>a. map_of (bk_actors (added aid obj name serialized b)) k = Some a \<and> ra_name a = Some n)"
    proof (cases "name = Some n")
      case True
      then have "map_of (bk_names b) n = None" using free by (simp add: name_taken_def)
      then have "\<not> (\<exists>a. map_of (bk_actors b) k = Some a \<and> ra_name a = Some n)" using names_invD [OF d(3), of n k] by simp
      then show ?thesis using True by (auto simp: added_maps)
    next
      case False
      then show ?thesis using names_invD [OF d(3), of n k] new by (auto simp: added_maps)
    qed
  qed
  moreover have "refs_inv rc (added aid obj name serialized b)"
    using d(4) ser by (auto simp: refs_inv_def added_maps d(1))
  ultimately show ?thesis using d(1,2) by (simp add: bk_inv_def added_maps)
qed

lemma bk_inv_removed:
  assumes inv: "bk_inv rc node b" and a: "map_of (bk_actors b) aid = Some a"
  shows "bk_inv rc node (removed aid a b)"
proof -
  note d = bk_invD [OF inv]
  have "names_inv (removed aid a b)"
    unfolding names_inv_def
  proof (intro allI)
    fix n k
    show "map_of (bk_names (removed aid a b)) n = Some k
       \<longleftrightarrow> (\<exists>a'. map_of (bk_actors (removed aid a b)) k = Some a' \<and> ra_name a' = Some n)"
    proof (cases "ra_name a = Some n")
      case True
      then have "map_of (bk_names b) n = Some aid" using names_invD [OF d(3)] a by blast
      then show ?thesis using True names_invD [OF d(3), of n k] by (auto simp: removed_maps)
    next
      case False
      then show ?thesis using names_invD [OF d(3), of n k] a by (auto simp: removed_maps)
    qed
  qed
  moreover have "refs_inv rc (removed aid a b)" using d(4) by (auto simp: refs_inv_def removed_maps)
  ultimately show ?thesis using d(1,2) by (simp add: bk_inv_def removed_maps)
qed

lemma fresh_id: "GenerateRandomActorId actors draws = Some (aid, rest) \<Longrightarrow> map_of actors aid = None"
  by (induction draws) (auto simp: hm_contains_def split: if_splits)

lemma SpawnLocal_run:
  assumes "SpawnLocal rc f node_id config args b = Some (r, b')"
  obtains aid draws where "map_of (bk_actors b) aid = None"
    and "(\<exists>e. r = Inl e) \<and> b' = b\<lparr>bk_draws := draws\<rparr>
       \<or> (\<exists>obj. cf_construct f config args = Inr obj
           \<and> r = Inr (ActorRef_new (cf_type_name f) (bk_this_node b) node_id aid (Some obj) (bk_broker b))
           \<and> \<not> name_taken (actor_name config) b
           \<and> b' = added aid obj (actor_name config) (enc_ref rc (Reflector_from
               (ActorRef_new (cf_type_name f) (bk_this_node b) node_id aid (Some obj) (bk_broker b)))) (b\<lparr>bk_draws := draws\<rparr>))"
proof -
  obtain aid draws where gen: "GenerateRandomActorId (bk_actors b) (bk_draws b) = Some (aid, draws)"
    and run: "SpawnLocal_with_id rc f node_id config args aid (b\<lparr>bk_draws := draws\<rparr>) = (r, b')"
    using assms by (auto simp: SpawnLocal_def split: option.splits)
  have "map_of (bk_actors b) aid = None" using fresh_id [OF gen] .
  then show thesis
  proof (rule that [of aid draws], goal_cases)
    case 1
    show ?case
      using run
      by (cases "cf_construct f config args")
        (auto simp: SpawnLocal_with_id_def bindE_def thenE_def liftE_def getE_def retE_def add_actor_run name_taken_def
          split: sum.splits if_splits)
  qed
qed

lemma bk_inv_spawn:
  assumes "bk_inv rc node b" "SpawnLocal rc f (bk_this_node b) config args b = Some (r, b')"
  shows "bk_inv rc node b'"
  using assms(2)
proof (rule SpawnLocal_run)
  fix aid draws
  assume new: "map_of (bk_actors b) aid = None"
    and cases: "(\<exists>e. r = Inl e) \<and> b' = b\<lparr>bk_draws := draws\<rparr>
       \<or> (\<exists>obj. cf_construct f config args = Inr obj
           \<and> r = Inr (ActorRef_new (cf_type_name f) (bk_this_node b) (bk_this_node b) aid (Some obj) (bk_broker b))
           \<and> \<not> name_taken (actor_name config) b
           \<and> b' = added aid obj (actor_name config) (enc_ref rc (Reflector_from
               (ActorRef_new (cf_type_name f) (bk_this_node b) (bk_this_node b) aid (Some obj) (bk_broker b)))) (b\<lparr>bk_draws := draws\<rparr>))"
  have inv1: "bk_inv rc node (b\<lparr>bk_draws := draws\<rparr>)" by (rule bk_inv_frame [OF assms(1)]) simp_all
  show "bk_inv rc node b'"
    using cases
  proof (elim disjE exE conjE)
    assume "b' = b\<lparr>bk_draws := draws\<rparr>"
    then show ?thesis using inv1 by simp
  next
    fix obj
    assume b': "b' = added aid obj (actor_name config) (enc_ref rc (Reflector_from
               (ActorRef_new (cf_type_name f) (bk_this_node b) (bk_this_node b) aid (Some obj) (bk_broker b)))) (b\<lparr>bk_draws := draws\<rparr>)"
      and free: "\<not> name_taken (actor_name config) b"
    have "serialized_for rc node aid obj (enc_ref rc (Reflector_from
               (ActorRef_new (cf_type_name f) (bk_this_node b) (bk_this_node b) aid (Some obj) (bk_broker b))))"
      unfolding serialized_for_def using bk_invD(1) [OF assms(1)] by blast
    then show ?thesis unfolding b' using inv1 new free by (intro bk_inv_added) (simp_all add: name_taken_def)
  qed
qed

lemma bk_inv_creation_request:
  assumes inv: "bk_inv (re_ref_codec env) node b" and run: "HandleActorCreationRequest env key args b = Some (reply, b')"
  shows "bk_inv (re_ref_codec env) node b'"
proof (cases "GetRemoteActorCreationHandler key (re_handlers env)")
  case (Inl e)
  then show ?thesis using inv run by (simp add: HandleActorCreationRequest_def)
next
  case (Inr f)
  obtain aid draws where gen: "GenerateRandomActorId (bk_actors b) (bk_draws b) = Some (aid, draws)"
    using run Inr by (auto simp: HandleActorCreationRequest_def split: option.splits)
  define b1 where "b1 = b\<lparr>bk_draws := draws\<rparr>"
  have inv1: "bk_inv (re_ref_codec env) node b1" unfolding b1_def by (rule bk_inv_frame [OF inv]) simp_all
  have new: "map_of (bk_actors b1) aid = None" using fresh_id [OF gen] by (simp add: b1_def)
  show ?thesis
  proof (cases "DeserializeAndCreateActor (re_ref_codec env) f args (own_ctx b1) aid")
    case (Inl e)
    then show ?thesis using run Inr gen inv1
      by (simp add: HandleActorCreationRequest_def b1_def [symmetric] Let_def bindE_def liftE_def)
  next
    case res: (Inr res)
    have ser: "serialized_for (re_ref_codec env) node aid (acr_actor res) (acr_serialized_ref res)"
      using res bk_invD(1) [OF inv1] unfolding serialized_for_def
      by (fastforce simp: DeserializeAndCreateActor_def bindR_Inr_iff Let_def own_ctx_def split: prod.splits)
    show ?thesis
    proof (cases "name_taken (acr_actor_name res) b1")
      case True
      then show ?thesis using run Inr gen inv1 res
        by (simp add: HandleActorCreationRequest_def b1_def [symmetric] Let_def bindE_def thenE_def liftE_def add_actor_run)
    next
      case False
      then have "b' = added aid (acr_actor res) (acr_actor_name res) (acr_serialized_ref res) b1"
        using run Inr gen res
        by (simp add: HandleActorCreationRequest_def b1_def [symmetric] Let_def bindE_def thenE_def liftE_def retE_def add_actor_run)
      then show ?thesis using bk_inv_added [OF inv1 new False ser] by simp
    qed
  qed
qed

lemma bk_inv_destroy:
  "bk_inv rc node b \<Longrightarrow> DestroyLocalActor aid b = (r, b') \<Longrightarrow> bk_inv rc node b'"
  by (auto simp: DestroyLocalActor_run bk_inv_removed split: option.splits)

lemma bk_inv_request:
  assumes "bk_inv (re_ref_codec env) node b" "HandleNetworkRequest env raw b = Some (q, b')"
  shows "bk_inv (re_ref_codec env) node b'"
proof (cases "dec_request (re_codec env) raw")
  case (Inl e)
  then show ?thesis using assms by (simp add: HandleNetworkRequest_def)
next
  case (Inr req)
  show ?thesis
  proof (cases req)
    case (ActorCreationRequest key args)
    then show ?thesis using assms Inr bk_inv_creation_request by (auto simp: HandleNetworkRequest_def)
  next
    case (ActorDestroyRequest aid)
    obtain r b1 where "DestroyLocalActor aid b = (r, b1)" by fastforce
    then show ?thesis using assms Inr ActorDestroyRequest bk_inv_destroy [of _ node b aid]
      by (cases r) (auto simp: HandleNetworkRequest_def HandleActorDestroyRequest_def)
  qed (use assms Inr in \<open>simp_all add: HandleNetworkRequest_def\<close>)
qed

lemma bk_inv_reach: "backend_reach env node b \<Longrightarrow> bk_inv (re_ref_codec env) node b"
proof (induction rule: backend_reach.induct)
  case (new draws broker)
  show ?case by (simp add: bk_inv_def Backend_new_def names_inv_def refs_inv_def)
next
  case (broker b k)
  then show ?case by (intro bk_inv_frame [OF broker.IH]) (simp_all add: SetBrokerActorRef_def)
next
  case (spawn b f node_id config args r b')
  then show ?case by (auto simp: SpawnWithClass_def bk_inv_spawn split: if_splits)
next
  case (spawn_fn b f encode_args node_id config args q b')
  then show ?case by (auto simp: SpawnWithCreateFn_start_def bk_inv_spawn split: if_splits option.splits)
next
  case (destroy b ref s b')
  obtain r b1 where run: "DestroyLocalActor (bf_actor_id ref) b = (r, b1)" by fastforce
  have "bk_inv (re_ref_codec env) node b1" using bk_inv_destroy [OF destroy.IH run] .
  then show ?case using destroy.hyps(2) destroy.IH run
    by (cases r) (auto simp: DestroyActor_start_def bindE_def thenE_def getE_def liftE_def retE_def split: if_splits)
next
  case (request b raw q b')
  then show ?case using bk_inv_request by blast
next
  case (shutdown b)
  then show ?case by (intro bk_inv_frame [OF shutdown.IH]) (simp_all add: AsyncDestroyAllActors_def)
qed

lemma registry_maps:
  assumes "backend_reach env node b"
  shows "bk_this_node b = node"
    and "\<And>n aid. map_of (bk_names b) n = Some aid
          \<longleftrightarrow> (\<exists>a. map_of (bk_actors b) aid = Some a \<and> ra_name a = Some n)"
    and "\<And>aid. map_of (bk_refs b) aid = None \<longleftrightarrow> map_of (bk_actors b) aid = None"
    and "\<And>aid a. map_of (bk_actors b) aid = Some a \<Longrightarrow> \<exists>s. map_of (bk_refs b) aid = Some s
          \<and> serialized_for (re_ref_codec env) node aid (ra_obj a) s"
proof -
  note d = bk_invD [OF bk_inv_reach [OF assms]]
  show "bk_this_node b = node" by (rule d(1))
  show "map_of (bk_names b) n = Some aid \<longleftrightarrow> (\<exists>a. map_of (bk_actors b) aid = Some a \<and> ra_name a = Some n)" for n aid
    by (rule names_invD [OF d(3)])
  show none: "map_of (bk_refs b) aid = None \<longleftrightarrow> map_of (bk_actors b) aid = None" for aid
    using d(4) by (simp add: refs_inv_def)
  show "\<exists>s. map_of (bk_refs b) aid = Some s \<and> serialized_for (re_ref_codec env) node aid (ra_obj a) s"
    if a: "map_of (bk_actors b) aid = Some a" for aid a
  proof -
    obtain s where "map_of (bk_refs b) aid = Some s" using none [of aid] a by fastforce
    then show ?thesis using d(1,4) a by (auto simp: refs_inv_def)
  qed
qed

text \<open>
  C5: in every reachable state of a registry a name is in the name map exactly when an actor
  with that name is alive under the id it maps to, so no two live actors share a name; and
  every live actor, and no other id, has a stored handle that leads to that actor on this node.
\<close>

theorem registry_maps_agree:
  assumes "backend_reach env node b"
  shows "bk_this_node b = node
     \<and> (\<forall>n aid. map_of (bk_names b) n = Some aid
          \<longleftrightarrow> (\<exists>a. map_of (bk_actors b) aid = Some a \<and> ra_name a = Some n))
     \<and> (\<forall>aid. map_of (bk_refs b) aid = None \<longleftrightarrow> map_of (bk_actors b) aid = None)
     \<and> (\<forall>aid a. map_of (bk_actors b) aid = Some a \<longrightarrow> (\<exists>s. map_of (bk_refs b) aid = Some s
          \<and> serialized_for (re_ref_codec env) node aid (ra_obj a) s))"
  using registry_maps [OF assms] by blast

section \<open>Spawn, look up, destroy\<close>

lemma DeserializeActorRef_serialized:
  assumes "ref_codec_ok rc" "serialized_for rc node aid obj s"
  shows "\<exists>r. DeserializeActorRef rc s b = Inr r \<and> \<not> bf_is_empty r \<and> rf_node r = node \<and> bf_actor_id r = aid
     \<and> bf_type_hash r = ao_type_hash obj \<and> bf_adjusted r = ao_instance_address obj
     \<and> rf_this_node r = bk_this_node b \<and> bf_actor r = look_up_actor b aid \<and> rf_broker r = bk_broker b"
  using assms
  by (auto simp: serialized_for_def DeserializeActorRef_def ref_codec_ok_def Let_def Reflector_to_def
      SetLocalRuntimeInfo_def ActorRef_new_hash_def BasicActorRef_new_hash_def basic_ref.defs instance_ptr_def)

lemma look_up_request_run:
  assumes "backend_reach env node b" "codec_ok (re_codec env)" "map_of (bk_names b) n = Some aid"
  shows "\<exists>a s. map_of (bk_actors b) aid = Some a \<and> ra_name a = Some n
     \<and> serialized_for (re_ref_codec env) node aid (ra_obj a) s
     \<and> HandleNetworkRequest env (enc_request (re_codec env) (ActorLookUpRequest n)) b
         = Some (Inr (Net_Reply (enc_reply (re_codec env) (ActorLookUpReply True s))), b)"
proof -
  note m = registry_maps [OF assms(1)]
  obtain a where a: "map_of (bk_actors b) aid = Some a" "ra_name a = Some n" using m(2) assms(3) by blast
  then obtain s where s: "map_of (bk_refs b) aid = Some s" "serialized_for (re_ref_codec env) node aid (ra_obj a) s"
    using m(4) by blast
  then show ?thesis using a assms(2,3)
    by - (rule exI [of _ a], rule exI [of _ s],
      simp add: HandleNetworkRequest_def codec_okD HandleActorLookUpRequest_def MapAt_def)
qed

text \<open>
  C6: a spawned actor is found by its name. After a spawn with name \<open>n\<close> that returned a
  handle, the look-up on the node gives an equal handle; the request another node sends to
  look \<open>n\<close> up is answered with a handle that, read there, is equal too and knows where it is
  held; and another spawn with that name throws and leaves actors, handles and names as they
  were.
\<close>

theorem spawned_actor_is_found:
  fixes env :: "'v registry_env" and f :: "'v create_fn"
  assumes "backend_reach env node b"
    and "SpawnWithClass (re_ref_codec env) f node config args b = Some (Inr h, b')"
    and "actor_name config = Some n" and "codec_ok (re_codec env)" and "ref_codec_ok (re_ref_codec env)"
  shows "(\<exists>r. GetActorRefByName t n b' = Inr (Some r) \<and> ActorRef_eq r h \<and> bf_actor r = bf_actor h)
     \<and> (\<exists>reply. HandleNetworkRequest env (enc_request (re_codec env) (ActorLookUpRequest n)) b' = Some (Inr (Net_Reply reply), b')
          \<and> (\<forall>other. \<exists>r. GetActorRefByName_resume (re_codec env) (re_ref_codec env) reply other = Inr (Some r)
               \<and> ActorRef_eq r h \<and> rf_this_node r = bk_this_node other))
     \<and> (\<forall>config2 args2 r2 b2. actor_name config2 = Some n \<longrightarrow>
          SpawnWithClass (re_ref_codec env) f node config2 args2 b' = Some (r2, b2) \<longrightarrow>
          (\<exists>e. r2 = Inl e) \<and> bk_actors b2 = bk_actors b' \<and> bk_refs b2 = bk_refs b' \<and> bk_names b2 = bk_names b')"
proof -
  have node: "bk_this_node b = node" using registry_maps(1) [OF assms(1)] .
  have reach': "backend_reach env node b'" using backend_reach.spawn [OF assms(1,2)] .
  have spawn: "SpawnLocal (re_ref_codec env) f node config args b = Some (Inr h, b')"
    using assms(2) node by (simp add: SpawnWithClass_def)
  obtain aid draws obj where h: "h = ActorRef_new (cf_type_name f) node node aid (Some obj) (bk_broker b)"
    and b': "b' = added aid obj (actor_name config) (enc_ref (re_ref_codec env) (Reflector_from h)) (b\<lparr>bk_draws := draws\<rparr>)"
    using spawn by (rule SpawnLocal_run) (auto simp: node)
  have names: "map_of (bk_names b') n = Some aid" and actors: "map_of (bk_actors b') aid = Some \<lparr>ra_obj = obj, ra_name = Some n\<rparr>"
    by (simp_all add: b' added_maps assms(3))
  have 1: "\<exists>r. GetActorRefByName t n b' = Inr (Some r) \<and> ActorRef_eq r h \<and> bf_actor r = bf_actor h"
    using registry_maps(1) [OF reach'] by (simp add: GetActorRefByName_def names actors MapAt_def h ActorRef_eq_def)
  obtain a s where s: "map_of (bk_actors b') aid = Some a" "serialized_for (re_ref_codec env) node aid (ra_obj a) s"
      "HandleNetworkRequest env (enc_request (re_codec env) (ActorLookUpRequest n)) b'
         = Some (Inr (Net_Reply (enc_reply (re_codec env) (ActorLookUpReply True s))), b')"
    using look_up_request_run [OF reach' assms(4) names] by blast
  have ser: "serialized_for (re_ref_codec env) node aid obj s" using s(1,2) actors by auto
  have 2: "\<exists>r. GetActorRefByName_resume (re_codec env) (re_ref_codec env)
      (enc_reply (re_codec env) (ActorLookUpReply True s)) other = Inr (Some r)
      \<and> ActorRef_eq r h \<and> rf_this_node r = bk_this_node other" for other
  proof -
    obtain r where "DeserializeActorRef (re_ref_codec env) s other = Inr r" "\<not> bf_is_empty r" "rf_node r = node"
        "bf_actor_id r = aid" "bf_type_hash r = ao_type_hash obj" "rf_this_node r = bk_this_node other"
      using DeserializeActorRef_serialized [OF assms(5) ser, of other] by blast
    then show ?thesis by (simp add: GetActorRefByName_resume_def codec_okD [OF assms(4)] ActorRef_eq_def h)
  qed
  have 3: "(\<exists>e. r2 = Inl e) \<and> bk_actors b2 = bk_actors b' \<and> bk_refs b2 = bk_refs b' \<and> bk_names b2 = bk_names b'"
    if name: "actor_name config2 = Some n" and run: "SpawnWithClass (re_ref_codec env) f node config2 args2 b' = Some (r2, b2)"
    for config2 args2 r2 b2
  proof -
    have "SpawnLocal (re_ref_codec env) f node config2 args2 b' = Some (r2, b2)"
      using run registry_maps(1) [OF reach'] by (simp add: SpawnWithClass_def)
    moreover have "name_taken (actor_name config2) b'" by (simp add: name name_taken_def names)
    ultimately show ?thesis by (auto elim!: SpawnLocal_run)
  qed
  show ?thesis using 1 2 3 s(3) by blast
qed

text \<open>
  C7: a destroyed actor is gone, and only it. After \<open>DestroyLocalActor\<close> the id is not found,
  its name finds nothing and can be used again, a call or a second destruction is refused, and
  every other actor, name and stored handle is as before. Its \<open>AsyncDestroy\<close> has been called.
\<close>

theorem destroyed_actor_is_gone:
  assumes "backend_reach env node b" and "map_of (bk_actors b) aid = Some a"
  shows "\<exists>b'. DestroyLocalActor aid b = (Inr (), b') \<and> bk_destroyed b' = bk_destroyed b @ [ra_obj a]
     \<and> look_up_actor b' aid = None \<and> (\<forall>n. map_of (bk_names b') n \<noteq> Some aid)
     \<and> (\<forall>n. ra_name a = Some n \<longrightarrow> GetActorRefByName t n b' = Inr None \<and> \<not> name_taken (Some n) b')
     \<and> (\<forall>k. k \<noteq> aid \<longrightarrow> map_of (bk_actors b') k = map_of (bk_actors b) k \<and> map_of (bk_refs b') k = map_of (bk_refs b) k)
     \<and> (\<forall>n. ra_name a \<noteq> Some n \<longrightarrow> map_of (bk_names b') n = map_of (bk_names b) n)
     \<and> (\<exists>e. DestroyLocalActor aid b' = (Inl e, b'))
     \<and> (\<forall>key mailbox margs. HandleActorMethodCallRequest_start env key aid mailbox margs b'
         = Net_Reply (enc_reply (re_codec env) (ActorMethodCallReply False [] ''Can't find actor at remote node'')))"
proof -
  have run: "DestroyLocalActor aid b = (Inr (), removed aid a b)"
    by (simp add: DestroyLocalActor_run assms(2))
  have names: "map_of (bk_names b) n = Some aid \<longleftrightarrow> ra_name a = Some n" for n
    using registry_maps(2) [OF assms(1)] assms(2) by auto
  have "map_of (bk_names (removed aid a b)) n \<noteq> Some aid" for n by (simp add: removed_maps names)
  moreover have "bk_destroyed (removed aid a b) = bk_destroyed b @ [ra_obj a]" by (simp add: removed_def)
  moreover have "DestroyLocalActor aid (removed aid a b) = (Inl (Throw_Stream ''Actor with id not found''), removed aid a b)"
    by (simp add: DestroyLocalActor_run removed_maps)
  ultimately show ?thesis using run
    by - (rule exI [of _ "removed aid a b"],
      simp add: removed_maps look_up_actor_def GetActorRefByName_def name_taken_def
        HandleActorMethodCallRequest_start_def hm_contains_def)
qed

end
