(* ===== verification/Registry_Remote.thy ===== *)
theory Registry_Remote
  imports Registry_Props Codec_Model
begin

text \<open>
  Two nodes: what the node that sends a request and the node that answers it do together.
  A handle's \<open>Send\<close> on one node, \<open>HandleNetworkRequest\<close> on the node the actor lives on and the
  continuation of \<open>SendRemote\<close> are composed the way the code composes them, with the message
  broker in between delivering the bytes.
\<close>

section \<open>Requests are answered\<close>

fun answers :: "network_request \<Rightarrow> network_reply \<Rightarrow> bool" where
  "answers (ActorCreationRequest _ _) (ActorCreationReply _ _ _) = True"
| "answers (ActorMethodCallRequest _ _ _ _) (ActorMethodCallReply _ _ _) = True"
| "answers (ActorLookUpRequest _) (ActorLookUpReply _ _) = True"
| "answers (ActorDestroyRequest _) (ActorDestroyReply _ _) = True"
| "answers _ _ = False"

lemma creation_request_answered:
  assumes "GenerateRandomActorId (bk_actors b) (bk_draws b) \<noteq> None"
  shows "\<exists>s r e b'. HandleActorCreationRequest env key args b
     = Some (enc_reply (re_codec env) (ActorCreationReply s r e), b')"
  using assms
  by (auto simp: HandleActorCreationRequest_def creation_error_def Let_def split: sum.splits prod.splits) blast+

lemma destroy_request_answered:
  "\<exists>s e b'. HandleActorDestroyRequest env aid b = (enc_reply (re_codec env) (ActorDestroyReply s e), b')"
  by (auto simp: HandleActorDestroyRequest_def split: sum.splits prod.splits)

lemma method_end_answered:
  "\<exists>s r e. HandleActorMethodCallRequest_end env f result = enc_reply (re_codec env) (ActorMethodCallReply s r e)"
  by (cases result) (auto simp: HandleActorMethodCallRequest_end_def DeserializeAndInvokeActorMethod_end_def method_error_def)

lemma method_start_answered:
  "HandleActorMethodCallRequest_start env key aid mailbox margs b = Net_Reply reply \<Longrightarrow>
   \<exists>s r e. reply = enc_reply (re_codec env) (ActorMethodCallReply s r e)"
  by (auto simp: HandleActorMethodCallRequest_start_def method_error_def split: if_splits sum.splits prod.splits)

lemma invoked_call:
  "DeserializeAndInvokeActorMethod_start f actor args ctx mailbox = Inr (call, v) \<Longrightarrow>
   lc_mailbox call = mailbox \<and> actor = Some (lc_actor call)"
  by (cases actor) (auto simp: DeserializeAndInvokeActorMethod_start_def bindR_Inr_iff)

lemma queued_call:
  assumes "HandleActorMethodCallRequest_start env key aid mailbox margs b = Net_Call f call args"
  shows "lc_mailbox call = mailbox \<and> (\<exists>a. map_of (bk_actors b) aid = Some a \<and> lc_actor call = ra_obj a)"
proof -
  have "\<exists>g. DeserializeAndInvokeActorMethod_start g (look_up_actor b aid) margs (own_ctx b) mailbox = Inr (call, args)"
    using assms unfolding HandleActorMethodCallRequest_start_def by (auto split: if_splits sum.splits prod.splits)
  then show ?thesis by (auto simp: look_up_actor_def dest!: invoked_call)
qed

lemma decoded_only: "dec_request (re_codec env) x = dec_request (re_codec env) y \<Longrightarrow>
    HandleNetworkRequest env x b = HandleNetworkRequest env y b"
  by (simp add: HandleNetworkRequest_def)

lemma decoded_request_answered:
  assumes "backend_reach env node b" and "codec_ok (re_codec env)"
    and "\<forall>key args. req = ActorCreationRequest key args \<longrightarrow> GenerateRandomActorId (bk_actors b) (bk_draws b) \<noteq> None"
    and dec: "dec_request (re_codec env) bytes = Inr req"
  shows "\<exists>out b'. HandleNetworkRequest env bytes b = Some (Inr out, b')
     \<and> (case out of
          Net_Reply raw \<Rightarrow> \<exists>reply. dec_reply (re_codec env) raw = Inr reply \<and> answers req reply
        | Net_Call f call args \<Rightarrow>
            (\<exists>key aid margs a. req = ActorMethodCallRequest key aid (lc_mailbox call) margs
               \<and> map_of (bk_actors b) aid = Some a \<and> lc_actor call = ra_obj a)
            \<and> (\<forall>result. \<exists>reply.
                dec_reply (re_codec env) (HandleActorMethodCallRequest_end env f result) = Inr reply \<and> answers req reply))"
proof (cases req)
  case (ActorCreationRequest key args)
  have "GenerateRandomActorId (bk_actors b) (bk_draws b) \<noteq> None" using assms(3) ActorCreationRequest by simp
  then obtain s r e b' where "HandleActorCreationRequest env key args b
     = Some (enc_reply (re_codec env) (ActorCreationReply s r e), b')"
    using creation_request_answered by blast
  then show ?thesis using ActorCreationRequest by (simp add: HandleNetworkRequest_def dec codec_okD [OF assms(2)])
next
  case (ActorMethodCallRequest key aid mailbox margs)
  have "HandleNetworkRequest env bytes b
      = Some (Inr (HandleActorMethodCallRequest_start env key aid mailbox margs b), b)"
    by (simp add: HandleNetworkRequest_def dec ActorMethodCallRequest)
  moreover have "case HandleActorMethodCallRequest_start env key aid mailbox margs b of
          Net_Reply raw \<Rightarrow> \<exists>reply. dec_reply (re_codec env) raw = Inr reply \<and> answers req reply
        | Net_Call f call args \<Rightarrow>
            (\<exists>key aid margs a. req = ActorMethodCallRequest key aid (lc_mailbox call) margs
               \<and> map_of (bk_actors b) aid = Some a \<and> lc_actor call = ra_obj a)
            \<and> (\<forall>result. \<exists>reply.
                dec_reply (re_codec env) (HandleActorMethodCallRequest_end env f result) = Inr reply \<and> answers req reply)"
  proof (cases "HandleActorMethodCallRequest_start env key aid mailbox margs b")
    case (Net_Reply bytes)
    then obtain s r e where "bytes = enc_reply (re_codec env) (ActorMethodCallReply s r e)"
      using method_start_answered by blast
    then show ?thesis using Net_Reply by (simp add: codec_okD [OF assms(2)] ActorMethodCallRequest)
  next
    case (Net_Call f call args)
    have "\<exists>reply. dec_reply (re_codec env) (HandleActorMethodCallRequest_end env f result) = Inr reply \<and> answers req reply"
      for result
    proof -
      obtain s r e where "HandleActorMethodCallRequest_end env f result = enc_reply (re_codec env) (ActorMethodCallReply s r e)"
        using method_end_answered by blast
      then show ?thesis by (simp add: codec_okD [OF assms(2)] ActorMethodCallRequest)
    qed
    then show ?thesis using Net_Call queued_call [OF Net_Call] ActorMethodCallRequest by auto
  qed
  ultimately show ?thesis by blast
next
  case (ActorLookUpRequest n)
  show ?thesis
  proof (cases "map_of (bk_names b) n")
    case None
    then show ?thesis
      by (simp add: ActorLookUpRequest HandleNetworkRequest_def HandleActorLookUpRequest_def dec codec_okD [OF assms(2)])
  next
    case (Some aid)
    obtain a s where "HandleNetworkRequest env (enc_request (re_codec env) (ActorLookUpRequest n)) b
        = Some (Inr (Net_Reply (enc_reply (re_codec env) (ActorLookUpReply True s))), b)"
      using look_up_request_run [OF assms(1,2) Some] by blast
    moreover have "HandleNetworkRequest env bytes b = HandleNetworkRequest env (enc_request (re_codec env) (ActorLookUpRequest n)) b"
      by (rule decoded_only) (simp add: dec codec_okD [OF assms(2)] ActorLookUpRequest)
    ultimately show ?thesis by (simp add: ActorLookUpRequest codec_okD [OF assms(2)])
  qed
next
  case (ActorDestroyRequest aid)
  obtain s e b' where "HandleActorDestroyRequest env aid b = (enc_reply (re_codec env) (ActorDestroyReply s e), b')"
    using destroy_request_answered by blast
  then show ?thesis by (simp add: ActorDestroyRequest HandleNetworkRequest_def dec codec_okD [OF assms(2)])
qed

text \<open>
  C8: what a node does with the bytes of a request. When they do not decode, the exception leaves
  the handler and nothing is answered. When they decode to a request (and a free actor id is
  drawn, if it is to create an actor), then whatever handler, actor, name or arguments it
  names, the handler does not throw: it answers with the reply of the request's kind, so that the
  requester's \<open>std::get\<close> never meets another variant; or, for a method call alone, it
  queues the call on the actor that was asked for and in the mailbox that the request names,
  and makes such a reply of whatever the call ends with. The mailbox is taken unchecked from the
  request (\<open>remote_mailbox_index_unchecked\<close>), and nothing is said of when or whether a
  queued call ends.
\<close>

theorem requests_are_answered_or_queued:
  assumes "backend_reach env node b" and "codec_ok (re_codec env)"
  shows "case dec_request (re_codec env) bytes of
      Inl e \<Rightarrow> HandleNetworkRequest env bytes b = Some (Inl e, b)
    | Inr req \<Rightarrow>
        (\<forall>key args. req = ActorCreationRequest key args \<longrightarrow> GenerateRandomActorId (bk_actors b) (bk_draws b) \<noteq> None) \<longrightarrow>
        (\<exists>out b'. HandleNetworkRequest env bytes b = Some (Inr out, b')
          \<and> (case out of
               Net_Reply raw \<Rightarrow> \<exists>reply. dec_reply (re_codec env) raw = Inr reply \<and> answers req reply
             | Net_Call f call args \<Rightarrow>
                 (\<exists>key aid margs a. req = ActorMethodCallRequest key aid (lc_mailbox call) margs
                    \<and> map_of (bk_actors b) aid = Some a \<and> lc_actor call = ra_obj a)
                 \<and> (\<forall>result. \<exists>reply.
                     dec_reply (re_codec env) (HandleActorMethodCallRequest_end env f result) = Inr reply \<and> answers req reply)))"
proof (cases "dec_request (re_codec env) bytes")
  case (Inl e)
  then show ?thesis by (simp add: HandleNetworkRequest_def)
next
  case (Inr req)
  then show ?thesis using decoded_request_answered [OF assms _ Inr] by simp
qed

section \<open>A remote call\<close>

lemma own_ctx_simps [simp]:
  "sc_this_node (own_ctx b) = bk_this_node b" "sc_look_up (own_ctx b) = look_up_actor b" "sc_broker (own_ctx b) = bk_broker b"
  by (simp_all add: own_ctx_def)

lemma method_call_run:
  assumes "codec_ok (re_codec env)" "map_of (bk_actors b) aid = Some a"
    "GetRemoteActorMethodCallHandler key (re_handlers env) = Inr f" "mf_decode f (own_ctx b) margs = Inr v"
  shows "HandleNetworkRequest env (enc_request (re_codec env) (ActorMethodCallRequest key aid mailbox margs)) b
     = Some (Inr (Net_Call f \<lparr>lc_actor = ra_obj a, lc_object = upcast (mf_offset f) (ao_instance_address (ra_obj a)),
         lc_mailbox = mailbox\<rparr> v), b)"
  using assms
  by (simp add: HandleNetworkRequest_def codec_okD HandleActorMethodCallRequest_start_def hm_contains_def
      DeserializeAndInvokeActorMethod_start_def look_up_actor_def)

lemma method_reply_run:
  assumes "codec_ok (re_codec env)"
  shows "SendRemote_reply (re_codec env) decode r (HandleActorMethodCallRequest_end env f result) = (case result of
      Inr w \<Rightarrow> decode (reply_ctx r) (if mf_is_void f then [] else mf_encode_return f w)
    | Inl e \<Rightarrow> Inl (Throw_Stream ''Got error from remote actor on node''))"
  by (cases result) (simp_all add: SendRemote_reply_def HandleActorMethodCallRequest_end_def
      DeserializeAndInvokeActorMethod_end_def method_error_def codec_okD [OF assms])

text \<open>
  C4: a remote call is the call. For a handle held away from its actor's node, a method
  registered there under the key that the sender computes, and arguments that decode there,
  \<open>Send\<close> hands the broker a request for the actor's node, whose registry queues, on the actor
  the handle names and in the mailbox the sender chose, a call of that method on the actor's
  object with those arguments; and when the call ends, the sender gets the decoded value, or
  an exception when the call threw.
\<close>

theorem remote_call_reaches_method:
  assumes "backend_reach env node b" and "codec_ok (re_codec env)"
    and "\<not> bf_is_empty r" and "rf_node r = node" and "rf_this_node r \<noteq> node"
    and "\<not> bf_is_empty (rf_broker r)" and "bf_actor (rf_broker r) = Some k"
    and "map_of (bk_actors b) (bf_actor_id r) = Some a"
    and "GetRemoteActorMethodCallHandler (ComputeRemoteMethodHandlerKey (bf_type_hash r) (mf_name f)) (re_handlers env) = Inr f"
    and "mf_decode f (own_ctx b) margs = Inr v"
  shows "\<exists>call request. ActorRef_Send (re_codec env) (mf_name f) margs mailbox r = Inr (Send_Remote call node request)
     \<and> lc_actor call = k
     \<and> HandleNetworkRequest env request b = Some (Inr (Net_Call f \<lparr>lc_actor = ra_obj a,
          lc_object = upcast (mf_offset f) (ao_instance_address (ra_obj a)), lc_mailbox = mailbox\<rparr> v), b)
     \<and> (\<forall>result. SendRemote_reply (re_codec env) decode r (HandleActorMethodCallRequest_end env f result) = (case result of
          Inr w \<Rightarrow> decode (reply_ctx r) (if mf_is_void f then [] else mf_encode_return f w)
        | Inl e \<Rightarrow> Inl (Throw_Stream ''Got error from remote actor on node'')))"
  using ActorRef_Send_remote [of r k "re_codec env" "mf_name f" margs mailbox] assms(3-7)
    method_call_run [OF assms(2,8,9,10), of mailbox] method_reply_run [OF assms(2), of decode r f]
  by simp

text \<open>
  the mailbox index of a remote call is not checked. A request may carry any index, and
  the registry passes it on; pushing the call to an actor that has no such mailbox reads
  beyond its mailboxes, which is undefined.
\<close>

theorem remote_mailbox_index_unchecked:
  assumes "codec_ok (re_codec env)" and "map_of (bk_actors b) aid = Some a"
    and "GetRemoteActorMethodCallHandler key (re_handlers env) = Inr f" and "mf_decode f (own_ctx b) margs = Inr v"
    and "MailboxSet_MailboxCount (ac_mailbox_set actor) \<le> unat mailbox"
  shows "\<exists>call. HandleNetworkRequest env (enc_request (re_codec env) (ActorMethodCallRequest key aid mailbox margs)) b
       = Some (Inr (Net_Call f call v), b)
     \<and> lc_actor call = ra_obj a \<and> lc_mailbox call = mailbox
     \<and> Submission_start aenv (m, unat (lc_mailbox call)) actor = None"
  using method_call_run [OF assms(1-4), of mailbox] assms(5)
  by (simp add: Submission_start_def Actor_PushMessage_def MailboxSet_Push_def FixedCapacityBuffer_at_def
      MailboxSet_MailboxCount_def FixedCapacityBuffer_Size_def)

section \<open>Witnesses\<close>

definition plain_ref_codec :: ref_codec where
  "plain_ref_codec = \<lparr>enc_ref = put_refl, dec_ref = decode_with get_refl\<rparr>"

lemma plain_ref_codec_ok: "ref_codec_ok plain_ref_codec"
  by (simp add: ref_codec_ok_def plain_ref_codec_def decode_refl)

definition sample_handlers :: "nat handler_registry" where
  "sample_handlers = snd (RemoteFuncHandlerRegistrar sample_create [sample_method] HandlerRegistry_empty)"

definition sample_env :: "nat registry_env" where
  "sample_env = \<lparr>re_codec = plain_codec, re_ref_codec = plain_ref_codec, re_handlers = sample_handlers,
     re_error_text = (\<lambda>_. ''error'')\<rparr>"

definition sample_config :: actor_config where
  "sample_config = ActorConfig_default\<lparr>actor_name := Some ''counter''\<rparr>"

definition counter_obj :: actor_obj where
  "counter_obj = \<lparr>ao_addr = 5, ao_instance_address = 64, ao_type_hash = FnvHash [67]\<rparr>"

definition node_broker :: basic_ref where
  "node_broker = BasicActorRef_new [] (-1) (Some sample_actor)"

definition node0 :: backend where
  "node0 = Backend_new [42, 43] 1 node_broker"

definition counter_ref :: actor_ref where
  "counter_ref = ActorRef_new [67] 1 1 42 (Some counter_obj) node_broker"

definition node1 :: backend where
  "node1 = added 42 counter_obj (Some ''counter'') (enc_ref plain_ref_codec (Reflector_from counter_ref)) (node0\<lparr>bk_draws := [43]\<rparr>)"

lemma sample_env_simps [simp]:
  "re_codec sample_env = plain_codec" "re_ref_codec sample_env = plain_ref_codec" "re_handlers sample_env = sample_handlers"
  by (simp_all add: sample_env_def)

lemma node0_reach: "backend_reach sample_env 1 node0"
  unfolding node0_def by (rule backend_reach.new)

lemma node1_spawn: "SpawnWithClass plain_ref_codec sample_create 1 sample_config 5 node0 = Some (Inr counter_ref, node1)"
  by (simp add: SpawnWithClass_def SpawnLocal_def SpawnLocal_with_id_def eff_defs add_actor_run node0_def Backend_new_def
      hm_contains_def sample_create_def sample_config_def name_taken_def node1_def counter_ref_def counter_obj_def)

lemma node1_reach: "backend_reach sample_env 1 node1"
  using backend_reach.spawn [OF node0_reach] node1_spawn by simp

lemma node1_actor: "map_of (bk_actors node1) 42 = Some \<lparr>ra_obj = counter_obj, ra_name = Some ''counter''\<rparr>"
  by (simp add: node1_def added_maps)

lemma sample_handlers_method:
  "GetRemoteActorMethodCallHandler (ComputeRemoteMethodHandlerKey (FnvHash [67]) [65]) sample_handlers = Inr sample_method"
proof -
  have "hr_method sample_handlers = [(ComputeRemoteMethodHandlerKey (FnvHash [67]) [65], sample_method)]"
    by (simp add: sample_handlers_def RemoteFuncHandlerRegistrar_def RegisterRemoteActorCreationHandler_def
        HandlerRegistry_empty_def hm_contains_def eff_defs register_method_run method_key_def)
      (simp add: sample_create_def sample_method_def)
  then show ?thesis unfolding lookup_method by simp
qed

lemma registry_maps_agree_witness:
  "map_of (bk_names node1) ''counter'' = Some 42
   \<longleftrightarrow> (\<exists>a. map_of (bk_actors node1) 42 = Some a \<and> ra_name a = Some ''counter'')"
  using registry_maps_agree [OF node1_reach] by blast

lemma spawned_actor_is_found_witness:
  "\<exists>r. GetActorRefByName [67] ''counter'' node1 = Inr (Some r) \<and> ActorRef_eq r counter_ref"
proof -
  have "SpawnWithClass (re_ref_codec sample_env) sample_create 1 sample_config 5 node0 = Some (Inr counter_ref, node1)"
    using node1_spawn by simp
  from spawned_actor_is_found [OF node0_reach this, of "''counter''" "[67]"] show ?thesis
    by (auto simp: sample_config_def plain_codec_ok plain_ref_codec_ok)
qed

lemma destroyed_actor_is_gone_witness:
  "\<exists>b'. DestroyLocalActor 42 node1 = (Inr (), b') \<and> GetActorRefByName [67] ''counter'' b' = Inr None"
  using destroyed_actor_is_gone [OF node1_reach node1_actor, of "[67]"]
  unfolding reg_actor.simps by blast

lemma requests_are_answered_or_queued_witness:
  "\<exists>out b'. HandleNetworkRequest sample_env (put_request (ActorDestroyRequest 42)) node1 = Some (Inr out, b')"
proof -
  have codec: "codec_ok (re_codec sample_env)" by (simp add: plain_codec_ok)
  then have "dec_request (re_codec sample_env) (enc_request (re_codec sample_env) (ActorDestroyRequest 42)) = Inr (ActorDestroyRequest 42)"
    by (rule codec_okD)
  then show ?thesis
    using requests_are_answered_or_queued [OF node1_reach codec, of "enc_request (re_codec sample_env) (ActorDestroyRequest 42)"]
    by auto (auto simp: plain_codec_def)
qed

lemma remote_call_reaches_method_witness:
  "\<exists>call request. ActorRef_Send plain_codec [65] [1, 2] 0 (counter_ref\<lparr>rf_this_node := 2\<rparr>) = Inr (Send_Remote call 1 request)
     \<and> HandleNetworkRequest sample_env request node1
         = Some (Inr (Net_Call sample_method \<lparr>lc_actor = counter_obj, lc_object = 72, lc_mailbox = 0\<rparr> 2), node1)"
proof -
  define r where "r = counter_ref\<lparr>rf_this_node := 2\<rparr>"
  have r: "\<not> bf_is_empty r" "rf_node r = 1" "rf_this_node r \<noteq> 1" "\<not> bf_is_empty (rf_broker r)"
      "bf_actor (rf_broker r) = Some sample_actor" "bf_actor_id r = 42" "bf_type_hash r = FnvHash [67]"
    by (simp_all add: r_def counter_ref_def node_broker_def BasicActorRef_new_def counter_obj_def)
  have f: "GetRemoteActorMethodCallHandler (ComputeRemoteMethodHandlerKey (bf_type_hash r) (mf_name sample_method))
      (re_handlers sample_env) = Inr sample_method" "mf_decode sample_method (own_ctx node1) [1, 2] = Inr 2"
    using sample_handlers_method by (simp_all add: r(7)) (simp_all add: sample_method_def)
  have a: "map_of (bk_actors node1) (bf_actor_id r) = Some \<lparr>ra_obj = counter_obj, ra_name = Some ''counter''\<rparr>"
    by (simp add: r(6) node1_actor)
  have c: "codec_ok (re_codec sample_env)" by (simp add: plain_codec_ok)
  have o: "upcast (mf_offset sample_method) (ao_instance_address counter_obj) = 72"
    by (simp add: upcast_def sample_method_def counter_obj_def)
  from remote_call_reaches_method [OF node1_reach c r(1-5) a f, of 0 "\<lambda>_ _. Inr ()"] show ?thesis
    by (auto simp: o r_def [symmetric]) (auto simp: sample_method_def)
qed

lemma remote_mailbox_index_unchecked_witness:
  "\<exists>call actor. HandleNetworkRequest sample_env (put_request (ActorMethodCallRequest
        (ComputeRemoteMethodHandlerKey (FnvHash [67]) [65]) 42 9 [])) node1 = Some (Inr (Net_Call sample_method call 0), node1)
     \<and> Submission_start aenv (m, unat (lc_mailbox call)) actor = None"
proof -
  have f: "mf_decode sample_method (own_ctx node1) [] = Inr 0" by (simp add: sample_method_def)
  obtain actor :: "'a actor" where actor: "Actor_new ActorConfig_default = Some (Inr actor)"
      "MailboxSet_MailboxCount (ac_mailbox_set actor) \<le> 1"
    by (simp add: Actor_new_def ActorConfig_default_def MailboxSet_new_def FixedCapacityBuffer_new_def
        FixedCapacityBuffer_EmplaceBack_def eff_defs MailboxSet_MailboxCount_def FixedCapacityBuffer_Size_def)
  have c: "codec_ok (re_codec sample_env)" by (simp add: plain_codec_ok)
  have h: "GetRemoteActorMethodCallHandler (ComputeRemoteMethodHandlerKey (FnvHash [67]) [65]) (re_handlers sample_env)
      = Inr sample_method" using sample_handlers_method by simp
  have n: "MailboxSet_MailboxCount (ac_mailbox_set actor) \<le> unat (9 :: u64)" using actor(2) by simp
  from remote_mailbox_index_unchecked [OF c node1_actor h f n, of aenv m] show ?thesis
    by (auto simp: plain_codec_def)
qed

end
