(* ===== verification/Worker_Pool.thy ===== *)
theory Worker_Pool
  imports Exa_Prelude Util
begin

text \<open>
  What the thread pools of \<open>scheduler/\<close> share: the operation a pool executes
  (\<open>shared/scheduler_operation.h\<close>), the queries its environment answers
  (\<open>actor_config.h\<close>), and the loop every worker thread runs. A pool is then a store of
  operations with its own way to enqueue and dequeue; \<open>pool_step\<close> interleaves any number of
  threads that enqueue with the workers of the pool, and the locale \<open>operation_store\<close> is the
  contract under which no operation is lost, executed twice or left behind.
\<close>

section \<open>Operations\<close>

text \<open>The environment of a receiver: what it answers to the queries, \<open>None\<close> when it does not.\<close>

record op_env =
  oe_priority :: "u32 option"
  oe_scheduler_index :: "u64 option"
  oe_core_index :: "u64 option"

definition get_priority :: "op_env \<Rightarrow> u32" where
  "get_priority env = (case oe_priority env of Some p \<Rightarrow> p | None \<Rightarrow> 0)"

definition get_scheduler_index :: "op_env \<Rightarrow> u64" where
  "get_scheduler_index env = (case oe_scheduler_index env of Some i \<Rightarrow> i | None \<Rightarrow> 0)"

definition get_core_index :: "op_env \<Rightarrow> u64" where
  "get_core_index env = (case oe_core_index env of Some i \<Rightarrow> i | None \<Rightarrow> 0)"

text \<open>
  An operation: which receiver it completes, the receiver's environment, and its stop token
  (\<open>None\<close> one that cannot be stopped, else whether a stop has been requested when it runs).
\<close>

record operation =
  on_receiver :: nat
  on_env :: op_env
  on_stop_token :: "bool option"

definition SchedulerOperationBase_Execute :: "operation \<Rightarrow> (unit, unit) completion" where
  "SchedulerOperationBase_Execute op =
     (case on_stop_token op of
        None \<Rightarrow> Set_Value ()
      | Some requested \<Rightarrow> if requested then Set_Stopped else Set_Value ())"

section \<open>Workers\<close>

text \<open>
  What a pool does with its store: an enqueue by a thread (\<open>Some w\<close> the pool's worker \<open>w\<close>,
  \<open>None\<close> any other thread), which may throw; one attempt of worker \<open>w\<close> to dequeue; taking the
  operation out of the local slot of a worker; whether a worker that sees the stop request
  leaves its loop; and what an enqueue still does after the operation is in the store.
\<close>

record ('q, 'x) pool_ops =
  op_enqueue :: "nat option \<Rightarrow> 'x \<Rightarrow> 'q \<Rightarrow> exa_error + 'q \<Rightarrow> bool"
  op_dequeue :: "nat \<Rightarrow> 'q \<Rightarrow> 'x option \<Rightarrow> 'q \<Rightarrow> bool"
  op_take_slot :: "nat \<Rightarrow> 'q \<Rightarrow> 'x option \<times> 'q"
  op_may_exit :: "nat \<Rightarrow> 'q \<Rightarrow> bool"
  op_background :: "'q \<Rightarrow> 'q option"

datatype 'x worker = At_Loop | Executing 'x | Exited

record ('q, 'x) pool =
  po_store :: 'q
  po_workers :: "'x worker list"
  po_stop :: bool
  po_accepted :: "'x list"
  po_executed :: "(nat \<times> 'x) list"

definition pool_new :: "nat \<Rightarrow> 'q \<Rightarrow> ('q, 'x) pool" where
  "pool_new thread_count q =
     \<lparr>po_store = q, po_workers = replicate thread_count At_Loop, po_stop = False, po_accepted = [], po_executed = []\<rparr>"

definition next_worker :: "'x option \<Rightarrow> 'x worker" where
  "next_worker r = (case r of None \<Rightarrow> At_Loop | Some x \<Rightarrow> Executing x)"

definition finished :: "nat \<Rightarrow> 'x \<Rightarrow> 'x option \<Rightarrow> 'q \<Rightarrow> ('q, 'x) pool \<Rightarrow> ('q, 'x) pool" where
  "finished w x r q p = p\<lparr>po_store := q, po_workers := (po_workers p)[w := next_worker r],
     po_executed := po_executed p @ [(w, x)]\<rparr>"

inductive pool_step :: "('q, 'x) pool_ops \<Rightarrow> ('q, 'x) pool \<Rightarrow> ('q, 'x) pool \<Rightarrow> bool" for ops where
  enqueue_outside: "op_enqueue ops None x (po_store p) (Inr q) \<Longrightarrow>
    pool_step ops p (p\<lparr>po_store := q, po_accepted := po_accepted p @ [x]\<rparr>)"
| enqueue_inside: "w < length (po_workers p) \<Longrightarrow> po_workers p ! w = Executing y \<Longrightarrow>
    op_enqueue ops (Some w) x (po_store p) (Inr q) \<Longrightarrow>
    pool_step ops p (p\<lparr>po_store := q, po_accepted := po_accepted p @ [x]\<rparr>)"
| background: "op_background ops (po_store p) = Some q \<Longrightarrow> pool_step ops p (p\<lparr>po_store := q\<rparr>)"
| dequeue: "w < length (po_workers p) \<Longrightarrow> po_workers p ! w = At_Loop \<Longrightarrow>
    \<not> (po_stop p \<and> op_may_exit ops w (po_store p)) \<Longrightarrow> op_dequeue ops w (po_store p) r q \<Longrightarrow>
    pool_step ops p (p\<lparr>po_store := q, po_workers := (po_workers p)[w := next_worker r]\<rparr>)"
| finish: "w < length (po_workers p) \<Longrightarrow> po_workers p ! w = Executing x \<Longrightarrow>
    op_take_slot ops w (po_store p) = (r, q) \<Longrightarrow> pool_step ops p (finished w x r q p)"
| exit: "w < length (po_workers p) \<Longrightarrow> po_workers p ! w = At_Loop \<Longrightarrow> po_stop p \<Longrightarrow>
    op_may_exit ops w (po_store p) \<Longrightarrow> pool_step ops p (p\<lparr>po_workers := (po_workers p)[w := Exited]\<rparr>)"
| stop: "pool_step ops p (p\<lparr>po_stop := True\<rparr>)"

inductive pool_reach :: "('q, 'x) pool_ops \<Rightarrow> nat \<Rightarrow> 'q \<Rightarrow> ('q, 'x) pool \<Rightarrow> bool" for ops n q where
  start: "pool_reach ops n q (pool_new n q)"
| step: "pool_reach ops n q p \<Longrightarrow> pool_step ops p p' \<Longrightarrow> pool_reach ops n q p'"

text \<open>The runs the witnesses use: one operation is accepted, and then executed by worker 0.\<close>

lemma pool_accepts_one:
  "op_enqueue ops None x q (Inr q') \<Longrightarrow> pool_reach ops n q ((pool_new n q)\<lparr>po_store := q', po_accepted := [x]\<rparr>)"
  using pool_reach.step [OF pool_reach.start pool_step.enqueue_outside, of ops x n q q'] by (simp add: pool_new_def)

lemma pool_runs_one:
  assumes "op_enqueue ops None x q (Inr q1)" "op_dequeue ops 0 q1 (Some x) q2" "op_take_slot ops 0 q2 = (None, q3)" "0 < n"
  shows "pool_reach ops n q \<lparr>po_store = q3, po_workers = replicate n At_Loop, po_stop = False,
     po_accepted = [x], po_executed = [(0, x)]\<rparr>"
proof -
  let ?p1 = "(pool_new n q)\<lparr>po_store := q1, po_accepted := [x]\<rparr>"
  let ?p2 = "?p1\<lparr>po_store := q2, po_workers := (po_workers ?p1)[0 := next_worker (Some x)]\<rparr>"
  have "pool_step ops ?p1 ?p2"
    by (rule pool_step.dequeue) (use assms in \<open>simp_all add: pool_new_def\<close>)
  moreover have "pool_step ops ?p2 (finished 0 x None q3 ?p2)"
    by (rule pool_step.finish) (use assms in \<open>simp_all add: pool_new_def next_worker_def\<close>)
  moreover have "finished 0 x None q3 ?p2 = \<lparr>po_store = q3, po_workers = replicate n At_Loop, po_stop = False,
     po_accepted = [x], po_executed = [(0, x)]\<rparr>"
    using assms(4) by (cases n) (simp_all add: finished_def pool_new_def next_worker_def)
  ultimately show ?thesis using pool_accepts_one [of ops x q q1 n] assms(1) pool_reach.step by metis
qed

definition in_execution :: "'x worker list \<Rightarrow> 'x multiset" where
  "in_execution ws = mset (concat (map (\<lambda>w. case w of Executing x \<Rightarrow> [x] | _ \<Rightarrow> []) ws))"

lemma in_execution_update:
  assumes "w < length ws"
  shows "in_execution (ws[w := v]) + (case ws ! w of Executing x \<Rightarrow> {#x#} | _ \<Rightarrow> {#})
     = in_execution ws + (case v of Executing x \<Rightarrow> {#x#} | _ \<Rightarrow> {#})"
  using assms
proof (induction ws arbitrary: w)
  case (Cons u ws)
  then show ?case
    by (cases w) (auto simp: in_execution_def add_ac split: worker.splits)
qed simp

lemma in_execution_replicate [simp]: "in_execution (replicate n At_Loop) = {#}"
  by (induction n) (simp_all add: in_execution_def)

lemma next_worker_execution [simp]:
  "(case next_worker r of Executing x \<Rightarrow> {#x#} | _ \<Rightarrow> {#}) = opt_mset r"
  by (cases r) (simp_all add: next_worker_def)

lemma in_execution_mem: "w < length ws \<Longrightarrow> ws ! w = Executing x \<Longrightarrow> x \<in># in_execution ws"
  using nth_mem [of w ws] by (force simp: in_execution_def)

section \<open>The contract of a store\<close>

text \<open>
  \<open>contents\<close> is everything in the store, \<open>slot w\<close> the operation in the local slot of worker
  \<open>w\<close>; \<open>placed x w\<close> says that \<open>w\<close> is a worker that may execute \<open>x\<close>.
\<close>

locale operation_store =
  fixes ops :: "('q, 'x) pool_ops" and n :: nat
    and contents :: "'q \<Rightarrow> 'x multiset" and slot :: "nat \<Rightarrow> 'q \<Rightarrow> 'x option"
    and inv :: "'q \<Rightarrow> bool" and placed :: "'x \<Rightarrow> nat \<Rightarrow> bool"
  assumes store_enqueue: "inv q \<Longrightarrow> (\<And>w. c = Some w \<Longrightarrow> w < n) \<Longrightarrow> op_enqueue ops c x q (Inr q') \<Longrightarrow>
      inv q' \<and> contents q' = add_mset x (contents q) \<and> (\<forall>w. c \<noteq> Some w \<longrightarrow> slot w q' = slot w q)"
    and store_dequeue: "inv q \<Longrightarrow> w < n \<Longrightarrow> op_dequeue ops w q r q' \<Longrightarrow>
      inv q' \<and> contents q = opt_mset r + contents q' \<and> (\<forall>v. slot v q' = slot v q) \<and> (\<forall>x. r = Some x \<longrightarrow> placed x w)"
    and store_take_slot: "inv q \<Longrightarrow> w < n \<Longrightarrow> op_take_slot ops w q = (r, q') \<Longrightarrow>
      inv q' \<and> contents q = opt_mset r + contents q' \<and> r = slot w q \<and> slot w q' = None
      \<and> (\<forall>v. v \<noteq> w \<longrightarrow> slot v q' = slot v q) \<and> (\<forall>x. r = Some x \<longrightarrow> placed x w)"
    and store_background: "inv q \<Longrightarrow> op_background ops q = Some q' \<Longrightarrow>
      inv q' \<and> contents q' = contents q \<and> (\<forall>w. slot w q' = slot w q)"
begin

definition pool_ok :: "('q, 'x) pool \<Rightarrow> bool" where
  "pool_ok p \<longleftrightarrow> inv (po_store p) \<and> length (po_workers p) = n
     \<and> mset (po_accepted p) = mset (map snd (po_executed p)) + in_execution (po_workers p) + contents (po_store p)
     \<and> (\<forall>w < n. (\<forall>x. po_workers p ! w \<noteq> Executing x) \<longrightarrow> slot w (po_store p) = None)
     \<and> (\<forall>w < n. \<forall>x. po_workers p ! w = Executing x \<longrightarrow> placed x w)
     \<and> (\<forall>(w, x) \<in> set (po_executed p). w < n \<and> placed x w)"

lemma pool_ok_new:
  "inv q \<Longrightarrow> contents q = {#} \<Longrightarrow> (\<And>w. slot w q = None) \<Longrightarrow> pool_ok (pool_new n q)"
  by (simp add: pool_ok_def pool_new_def)

lemma pool_ok_step:
  assumes "pool_step ops p p'" "pool_ok p"
  shows "pool_ok p'"
  using assms
proof (cases rule: pool_step.cases)
  case (enqueue_outside x q)
  have "inv q \<and> contents q = add_mset x (contents (po_store p)) \<and> (\<forall>w. slot w q = slot w (po_store p))"
    using store_enqueue [of "po_store p" None x q] enqueue_outside(2) assms(2) by (simp add: pool_ok_def)
  then show ?thesis using assms(2) unfolding enqueue_outside(1) by (simp add: pool_ok_def)
next
  case (enqueue_inside w y x q)
  have "w < n" using enqueue_inside(2) assms(2) by (simp add: pool_ok_def)
  then have "inv q \<and> contents q = add_mset x (contents (po_store p)) \<and> (\<forall>v. v \<noteq> w \<longrightarrow> slot v q = slot v (po_store p))"
    using store_enqueue [of "po_store p" "Some w" x q] enqueue_inside(4) assms(2) by (auto simp: pool_ok_def)
  moreover have "v \<noteq> w" if "\<forall>x. po_workers p ! v \<noteq> Executing x" for v using that enqueue_inside(3) by blast
  ultimately show ?thesis using assms(2) unfolding enqueue_inside(1) by (simp add: pool_ok_def)
next
  case (background q)
  then have "inv q \<and> contents q = contents (po_store p) \<and> (\<forall>w. slot w q = slot w (po_store p))"
    using store_background [of "po_store p" q] assms(2) by (simp add: pool_ok_def)
  then show ?thesis using assms(2) unfolding background(1) by (simp add: pool_ok_def)
next
  case (dequeue w r q)
  have w: "w < n" using dequeue(2) assms(2) by (simp add: pool_ok_def)
  have q: "inv q \<and> contents (po_store p) = opt_mset r + contents q \<and> (\<forall>v. slot v q = slot v (po_store p))
      \<and> (\<forall>x. r = Some x \<longrightarrow> placed x w)"
    using store_dequeue [OF _ w dequeue(5)] assms(2) by (simp add: pool_ok_def)
  have "in_execution ((po_workers p)[w := next_worker r]) = in_execution (po_workers p) + opt_mset r"
    using in_execution_update [OF dequeue(2), of "next_worker r"] dequeue(3) by simp
  moreover have "slot w (po_store p) = None" using assms(2) w dequeue(3) by (simp add: pool_ok_def)
  ultimately show ?thesis using assms(2) q w unfolding dequeue(1)
    by (auto simp: pool_ok_def nth_list_update next_worker_def add_ac split: option.splits)
next
  case (finish w x r q)
  have w: "w < n" using finish(2) assms(2) by (simp add: pool_ok_def)
  have q: "inv q \<and> contents (po_store p) = opt_mset r + contents q \<and> r = slot w (po_store p) \<and> slot w q = None
      \<and> (\<forall>v. v \<noteq> w \<longrightarrow> slot v q = slot v (po_store p)) \<and> (\<forall>x. r = Some x \<longrightarrow> placed x w)"
    using store_take_slot [OF _ w finish(4)] assms(2) by (simp add: pool_ok_def)
  have "add_mset x (in_execution ((po_workers p)[w := next_worker r])) = in_execution (po_workers p) + opt_mset r"
    using in_execution_update [OF finish(2), of "next_worker r"] finish(3) by simp
  moreover have "placed x w" using assms(2) w finish(3) by (simp add: pool_ok_def)
  ultimately show ?thesis using assms(2) q w unfolding finish(1) finished_def
    by (auto simp: pool_ok_def nth_list_update next_worker_def add_ac split: option.splits)
next
  case (exit w)
  have w: "w < n" using exit(2) assms(2) by (simp add: pool_ok_def)
  have "in_execution ((po_workers p)[w := Exited]) = in_execution (po_workers p)"
    using in_execution_update [OF exit(2), of Exited] exit(3) by simp
  moreover have "slot w (po_store p) = None" using assms(2) w exit(3) by (simp add: pool_ok_def)
  ultimately show ?thesis using assms(2) w unfolding exit(1)
    by (auto simp: pool_ok_def nth_list_update)
next
  case stop
  then show ?thesis using assms(2) by (simp add: pool_ok_def)
qed

lemma pool_ok_reach:
  assumes "pool_reach ops n q p" "inv q" "contents q = {#}" "\<And>w. slot w q = None"
  shows "pool_ok p"
  using assms(1) by (induction rule: pool_reach.induct) (auto simp: pool_ok_new assms(2-4) pool_ok_step)

text \<open>The summary a pool's properties use.\<close>

lemma pool_conserves:
  assumes "pool_reach ops n q p" "inv q" "contents q = {#}" "\<And>w. slot w q = None"
  shows "inv (po_store p)"
    and "mset (po_accepted p) = mset (map snd (po_executed p)) + in_execution (po_workers p) + contents (po_store p)"
    and "\<And>w. w < n \<Longrightarrow> (\<And>x. po_workers p ! w \<noteq> Executing x) \<Longrightarrow> slot w (po_store p) = None"
    and "\<And>w x. (w, x) \<in> set (po_executed p) \<Longrightarrow> w < n \<and> placed x w"
    and "length (po_workers p) = n"
  using pool_ok_reach [OF assms] by (auto simp: pool_ok_def)

end

end
