(* ===== verification/Thread_Pools.thy ===== *)
theory Thread_Pools
  imports Worker_Pool Containers Actor
begin

text \<open>
  The schedulers an actor system runs on: \<open>WorkSharingThreadPool\<close>, \<open>PriorityThreadPool\<close>,
  \<open>CorePinnedThreadPool\<close> and \<open>SchedulerUnion\<close>, and how an actor's configuration reaches them.
  Each pool is a store for the workers of \<open>Worker_Pool\<close> and an interpretation of its contract.

  A pool is modelled from the moment its workers are started; operations enqueued before that
  are enqueues before the first step of a worker. \<open>WorkStealingThreadPool\<close> only inherits from
  a pool of stdexec, which is not part of the repository.
\<close>

section \<open>Affinity\<close>

text \<open>
  \<open>SetThreadAffinity\<close> of \<open>platform.cc\<close>; the operating system's answer is a parameter. The
  result is the value returned and the set, mask or tag handed to the system, if any.
\<close>

definition CPU_SETSIZE :: nat where "CPU_SETSIZE = 1024"

definition SetThreadAffinity_linux :: "(nat set \<Rightarrow> bool) \<Rightarrow> nat \<Rightarrow> bool \<times> nat set option" where
  "SetThreadAffinity_linux sys core_idx =
     (if core_idx \<ge> CPU_SETSIZE then (False, None)
      else let cpuset = insert core_idx {} in (sys cpuset, Some cpuset))"

definition SetThreadAffinity_windows :: "(u64 \<Rightarrow> bool) \<Rightarrow> nat \<Rightarrow> bool \<times> u64 option" where
  "SetThreadAffinity_windows sys core_idx =
     (if core_idx \<ge> 64 then (False, None)
      else let affinity_mask = push_bit core_idx 1 in (sys affinity_mask, Some affinity_mask))"

definition SetThreadAffinity_apple :: "(32 word \<Rightarrow> bool) \<Rightarrow> nat \<Rightarrow> bool \<times> 32 word option" where
  "SetThreadAffinity_apple sys core_idx =
     (let policy = word_of_nat (core_idx + 1) in (sys policy, Some policy))"

lemma windows_mask: "core_idx < 64 \<Longrightarrow>
    snd (SetThreadAffinity_windows sys core_idx) = Some m \<Longrightarrow> bit m i \<longleftrightarrow> i = core_idx"
  by (auto simp: SetThreadAffinity_windows_def Let_def bit_simps)

section \<open>WorkSharingThreadPool\<close>

record ws_config =
  wc_thread_count :: nat
  wc_start_workers_immediately :: bool
  wc_spin :: bool
  wc_cores :: "nat list"

definition ws_config_default :: ws_config where
  "ws_config_default = \<lparr>wc_thread_count = 1, wc_start_workers_immediately = True, wc_spin = False, wc_cores = []\<rparr>"

text \<open>The core a worker is pinned to before its loop.\<close>

definition worker_core :: "ws_config \<Rightarrow> nat \<Rightarrow> nat option" where
  "worker_core config thread_index =
     (if wc_cores config = [] then None else Some (wc_cores config ! (thread_index mod length (wc_cores config))))"

text \<open>The queue, and \<open>local_slot_\<close> of each worker thread.\<close>

record ws_store =
  ws_queue :: "operation multiset"
  ws_local_slot :: "nat \<Rightarrow> operation option"

definition ws_store_new :: ws_store where
  "ws_store_new = \<lparr>ws_queue = {#}, ws_local_slot = (\<lambda>_. None)\<rparr>"

definition WorkSharing_EnqueueOperation :: "nat option \<Rightarrow> operation \<Rightarrow> ws_store \<Rightarrow> ws_store" where
  "WorkSharing_EnqueueOperation caller op s =
     (case caller of
        Some w \<Rightarrow>
          if ws_local_slot s w = None then s\<lparr>ws_local_slot := (ws_local_slot s)(w := Some op)\<rparr>
          else s\<lparr>ws_queue := UnboundedBlockingQueue_Push op (ws_queue s)\<rparr>
      | None \<Rightarrow> s\<lparr>ws_queue := UnboundedBlockingQueue_Push op (ws_queue s)\<rparr>)"

definition WorkSharing_dequeue :: "ws_store \<Rightarrow> operation option \<Rightarrow> ws_store \<Rightarrow> bool" where
  "WorkSharing_dequeue s r s' \<longleftrightarrow>
     (\<exists>q. UnboundedBlockingQueue_TryPop (ws_queue s) r q \<and> s' = s\<lparr>ws_queue := q\<rparr>)"

definition WorkSharing_take_slot :: "nat \<Rightarrow> ws_store \<Rightarrow> operation option \<times> ws_store" where
  "WorkSharing_take_slot w s = (ws_local_slot s w, s\<lparr>ws_local_slot := (ws_local_slot s)(w := None)\<rparr>)"

definition WorkSharing_ops :: "(ws_store, operation) pool_ops" where
  "WorkSharing_ops = \<lparr>
     op_enqueue = (\<lambda>c op s r. r = Inr (WorkSharing_EnqueueOperation c op s)),
     op_dequeue = (\<lambda>w. WorkSharing_dequeue),
     op_take_slot = WorkSharing_take_slot,
     op_may_exit = (\<lambda>w s. True),
     op_background = (\<lambda>s. None)\<rparr>"

text \<open>What is in the store of a pool with \<open>n\<close> workers; only its workers have a slot.\<close>

definition ws_contents :: "nat \<Rightarrow> ws_store \<Rightarrow> operation multiset" where
  "ws_contents n s = ws_queue s + sum_list (map (\<lambda>w. opt_mset (ws_local_slot s w)) [0..<n])"

lemma slot_sum_update:
  fixes f :: "nat \<Rightarrow> 'x option"
  assumes "w < n"
  shows "sum_list (map (\<lambda>v. opt_mset ((f(w := r)) v)) [0..<n]) + opt_mset (f w)
     = sum_list (map (\<lambda>v. opt_mset (f v)) [0..<n]) + opt_mset r"
  using assms
proof (induction n)
  case (Suc n)
  have *: "map (\<lambda>v. opt_mset ((f(n := r)) v)) [0..<n] = map (\<lambda>v. opt_mset (f v)) [0..<n]" by simp
  show ?case
  proof (cases "w = n")
    case True
    show ?thesis unfolding True upt_Suc_append [OF le0] map_append sum_list_append * by (simp add: add_ac)
  next
    case False
    then have "w < n" using Suc.prems by simp
    from Suc.IH [OF this] False show ?thesis
      by (simp add: add_ac del: fun_upd_apply) (simp add: add_ac)
  qed
qed simp

interpretation work_sharing: operation_store WorkSharing_ops n "ws_contents n" "\<lambda>w s. ws_local_slot s w"
    "\<lambda>s. True" "\<lambda>x w. True" for n
proof (unfold_locales, goal_cases)
  case (1 q c x q')
  show ?case
  proof (cases c)
    case None
    then show ?thesis using 1
      by (simp add: WorkSharing_ops_def WorkSharing_EnqueueOperation_def UnboundedBlockingQueue_Push_def ws_contents_def)
  next
    case (Some w)
    then have "w < n" using 1 by simp
    then show ?thesis using 1 Some slot_sum_update [of w n "ws_local_slot q" "Some x"]
      by (auto simp: WorkSharing_ops_def WorkSharing_EnqueueOperation_def UnboundedBlockingQueue_Push_def ws_contents_def)
  qed
next
  case (2 q w r q')
  then show ?case
    by (cases r) (auto simp: WorkSharing_ops_def WorkSharing_dequeue_def UnboundedBlockingQueue_TryPop_def ws_contents_def)
next
  case (3 q w r q')
  have "sum_list (map (\<lambda>v. opt_mset (((ws_local_slot q)(w := None)) v)) [0..<n]) + opt_mset (ws_local_slot q w)
      = sum_list (map (\<lambda>v. opt_mset (ws_local_slot q v)) [0..<n])"
    using slot_sum_update [OF 3(2), of "ws_local_slot q" None] by simp
  then show ?case using 3
    by (auto simp: WorkSharing_ops_def WorkSharing_take_slot_def ws_contents_def add_ac simp del: fun_upd_apply) auto
next
  case (4 q q')
  then show ?case by (simp add: WorkSharing_ops_def)
qed

section \<open>PriorityThreadPool\<close>

definition Priority_EnqueueOperation :: "operation \<Rightarrow> u32 \<Rightarrow> operation pq_element list \<Rightarrow> operation pq_element list" where
  "Priority_EnqueueOperation op priority q = UnboundedBlockingPriorityQueue_Push op priority q"

definition Priority_start :: "operation \<Rightarrow> operation pq_element list \<Rightarrow> operation pq_element list" where
  "Priority_start op q = Priority_EnqueueOperation op (get_priority (on_env op)) q"

definition Priority_ops :: "(operation pq_element list, operation) pool_ops" where
  "Priority_ops = \<lparr>
     op_enqueue = (\<lambda>c op q r. r = Inr (Priority_start op q)),
     op_dequeue = (\<lambda>w. UnboundedBlockingPriorityQueue_Pop),
     op_take_slot = (\<lambda>w q. (None, q)),
     op_may_exit = (\<lambda>w q. True),
     op_background = (\<lambda>q. None)\<rparr>"

definition pq_contents :: "operation pq_element list \<Rightarrow> operation multiset" where
  "pq_contents q = image_mset pe_value (mset q)"

interpretation priority_pool: operation_store Priority_ops n pq_contents "\<lambda>w q. None" "\<lambda>q. True" "\<lambda>x w. True" for n
proof (unfold_locales, goal_cases)
  case (1 q c x q')
  then show ?case
    by (simp add: Priority_ops_def Priority_start_def Priority_EnqueueOperation_def UnboundedBlockingPriorityQueue_Push_def
        pq_contents_def)
next
  case (2 q w r q')
  have "add_mset (pe_value e) (image_mset pe_value (mset q - {#e#})) = image_mset pe_value (mset q)" if "e \<in> set q" for e
    using that by (simp flip: image_mset_add_mset)
  then show ?case using 2(3)
    by (auto simp: Priority_ops_def UnboundedBlockingPriorityQueue_Pop_def pq_contents_def split: if_splits)
qed (simp_all add: Priority_ops_def)

section \<open>CorePinnedThreadPool\<close>

definition CorePinned_new :: "nat \<Rightarrow> exa_error + operation multiset list" where
  "CorePinned_new thread_count =
     bindR (checkR (thread_count > 0) ''Thread count must be greater than 0'') (\<lambda>_. Inr (replicate thread_count {#}))"

definition CorePinned_EnqueueOperation :: "nat \<Rightarrow> operation \<Rightarrow> u64 \<Rightarrow> operation multiset list \<Rightarrow> operation multiset list" where
  "CorePinned_EnqueueOperation thread_count op core_idx qs =
     (let queue_idx = unat core_idx mod thread_count in
      qs[queue_idx := UnboundedBlockingQueue_Push op (qs ! queue_idx)])"

definition CorePinned_start :: "nat \<Rightarrow> operation \<Rightarrow> operation multiset list \<Rightarrow> operation multiset list" where
  "CorePinned_start thread_count op qs = CorePinned_EnqueueOperation thread_count op (get_core_index (on_env op)) qs"

definition CorePinned_dequeue :: "nat \<Rightarrow> operation multiset list \<Rightarrow> operation option \<Rightarrow> operation multiset list \<Rightarrow> bool" where
  "CorePinned_dequeue thread_index qs r qs' \<longleftrightarrow>
     (\<exists>q. UnboundedBlockingQueue_TryPop (qs ! thread_index) r q \<and> qs' = qs[thread_index := q])"

definition CorePinned_ops :: "nat \<Rightarrow> (operation multiset list, operation) pool_ops" where
  "CorePinned_ops thread_count = \<lparr>
     op_enqueue = (\<lambda>c op qs r. r = Inr (CorePinned_start thread_count op qs)),
     op_dequeue = CorePinned_dequeue,
     op_take_slot = (\<lambda>w qs. (None, qs)),
     op_may_exit = (\<lambda>w qs. True),
     op_background = (\<lambda>qs. None)\<rparr>"

definition core_of :: "nat \<Rightarrow> operation \<Rightarrow> nat" where
  "core_of thread_count op = unat (get_core_index (on_env op)) mod thread_count"

definition cp_inv :: "nat \<Rightarrow> operation multiset list \<Rightarrow> bool" where
  "cp_inv n qs \<longleftrightarrow> 0 < n \<and> length qs = n \<and> (\<forall>i < n. \<forall>op \<in># qs ! i. core_of n op = i)"

lemma sum_list_update_mset:
  "i < length qs \<Longrightarrow> sum_list (qs[i := q]) + qs ! i = sum_list qs + q" for qs :: "'x multiset list"
proof (induction qs arbitrary: i)
  case (Cons a qs)
  then show ?case by (cases i) (auto simp: add_ac)
qed simp

interpretation core_pinned: operation_store "CorePinned_ops n" n sum_list "\<lambda>w qs. None" "cp_inv n" "\<lambda>x w. core_of n x = w" for n
proof (unfold_locales, goal_cases)
  case (1 q c x q')
  define i where "i = core_of n x"
  have i: "i < n" "length q = n" using 1(1) by (simp_all add: i_def core_of_def cp_inv_def)
  have q': "q' = q[i := add_mset x (q ! i)]"
    using 1(3) by (simp add: CorePinned_ops_def CorePinned_start_def CorePinned_EnqueueOperation_def i_def core_of_def
        UnboundedBlockingQueue_Push_def Let_def)
  have "cp_inv n q'" using 1(1) i unfolding q' by (auto simp: cp_inv_def nth_list_update i_def)
  moreover have "sum_list q' = add_mset x (sum_list q)"
    using sum_list_update_mset [of i q "add_mset x (q ! i)"] i unfolding q' by simp
  ultimately show ?case by simp
next
  case (2 q w r q')
  have w: "w < length q" using 2(1,2) by (simp add: cp_inv_def)
  obtain m where m: "UnboundedBlockingQueue_TryPop (q ! w) r m" "q' = q[w := m]"
    using 2(3) by (auto simp: CorePinned_ops_def CorePinned_dequeue_def)
  have split: "q ! w = opt_mset r + m" using m(1) TryPop_Some by (cases r) (auto simp: UnboundedBlockingQueue_TryPop_def)
  then have "sum_list q = opt_mset r + sum_list q'"
    using sum_list_update_mset [OF w, of m] m(2) by (simp add: add_ac)
  moreover have "cp_inv n q'" using 2(1) w split unfolding m(2) by (auto simp: cp_inv_def nth_list_update)
  moreover have "\<forall>x. r = Some x \<longrightarrow> core_of n x = w" using 2(1,2) split by (auto simp: cp_inv_def)
  ultimately show ?case by simp
qed (simp_all add: CorePinned_ops_def)

section \<open>SchedulerUnion\<close>

text \<open>
  \<open>connect\<close> picks the scheduler by the index in the receiver's environment; starting the
  operation starts the one that scheduler has made. A scheduler is how it starts an operation.
\<close>

type_synonym 's op_start = "operation \<Rightarrow> 's \<Rightarrow> exa_error + 's"

definition SchedulerUnion_connect :: "'s op_start list \<Rightarrow> op_env \<Rightarrow> exa_error + 's op_start" where
  "SchedulerUnion_connect schedulers env =
     (let scheduler_index = unat (get_scheduler_index env) in
      bindR (checkR (scheduler_index < length schedulers) ''Scheduler index out of range'') (\<lambda>_.
      Inr (schedulers ! scheduler_index)))"

section \<open>Activations\<close>

text \<open>The environment \<open>MakeSender\<close> gives the activation of an actor, from its configuration.\<close>

definition MakeSender_env :: "actor_config \<Rightarrow> op_env" where
  "MakeSender_env config = \<lparr>oe_priority = Some (actor_priority config),
     oe_scheduler_index = Some (scheduler_index config), oe_core_index = Some (core_index config)\<rparr>"

lemma MakeSender_queries [simp]:
  "get_priority (MakeSender_env config) = actor_priority config"
  "get_scheduler_index (MakeSender_env config) = scheduler_index config"
  "get_core_index (MakeSender_env config) = core_index config"
  by (simp_all add: MakeSender_env_def get_priority_def get_scheduler_index_def get_core_index_def)

section \<open>Properties\<close>

text \<open>
  C13: the work-sharing pool loses nothing. Whatever the threads do, every operation it has
  accepted is executed, in execution or still stored, and none of it twice; an operation that
  a worker put into its local slot is executed before that worker leaves its loop.
\<close>

theorem work_sharing_executes_each_once:
  assumes "pool_reach WorkSharing_ops n ws_store_new p"
  shows "mset (po_accepted p)
       = mset (map snd (po_executed p)) + in_execution (po_workers p) + ws_contents n (po_store p)
     \<and> (\<forall>w < n. po_workers p ! w = Exited \<longrightarrow> ws_local_slot (po_store p) w = None)"
proof -
  have "ws_contents n ws_store_new = {#}"
    by (induction n) (simp_all add: ws_contents_def ws_store_new_def)
  then have start: "True" "ws_contents n ws_store_new = {#}" "ws_local_slot ws_store_new w = None" for w
    by (simp_all add: ws_store_new_def)
  note c = work_sharing.pool_conserves [OF assms start]
  show ?thesis using c(2) c(3) by auto
qed

definition pinned_config :: actor_config where
  "pinned_config = ActorConfig_default\<lparr>actor_priority := 3, core_index := 6\<rparr>"

definition pinned_op :: operation where
  "pinned_op = \<lparr>on_receiver = 1, on_env = MakeSender_env pinned_config, on_stop_token = None\<rparr>"

theorem work_sharing_executes_each_once_witness:
  "\<exists>p. pool_reach WorkSharing_ops 2 ws_store_new p \<and> po_executed p = [(0, pinned_op)]
     \<and> mset (po_accepted p) = mset (map snd (po_executed p)) + in_execution (po_workers p) + ws_contents 2 (po_store p)"
proof -
  have "pool_reach WorkSharing_ops 2 ws_store_new \<lparr>po_store = ws_store_new, po_workers = replicate 2 At_Loop, po_stop = False,
      po_accepted = [pinned_op], po_executed = [(0, pinned_op)]\<rparr>"
    by (rule pool_runs_one [where ?q1.0 = "ws_store_new\<lparr>ws_queue := {#pinned_op#}\<rparr>" and ?q2.0 = ws_store_new])
      (simp_all add: WorkSharing_ops_def WorkSharing_EnqueueOperation_def WorkSharing_dequeue_def WorkSharing_take_slot_def
        ws_store_new_def UnboundedBlockingQueue_Push_def UnboundedBlockingQueue_TryPop_def)
  from this work_sharing_executes_each_once [OF this] show ?thesis by auto
qed

text \<open>
  an actor stays on its core. A core-pinned pool with \<open>n\<close> workers executes the activation
  of an actor on the worker its configured core index names, modulo \<open>n\<close>, and on no other; and
  it loses and repeats none.
\<close>

theorem actor_stays_on_its_core:
  assumes "CorePinned_new n = Inr qs" and "pool_reach (CorePinned_ops n) n qs p"
  shows "mset (po_accepted p)
       = mset (map snd (po_executed p)) + in_execution (po_workers p) + sum_list (po_store p)
     \<and> (\<forall>w op config. (w, op) \<in> set (po_executed p) \<longrightarrow> on_env op = MakeSender_env config \<longrightarrow>
          w = unat (core_index config) mod n)"
proof -
  have qs: "0 < n" "qs = replicate n {#}" using assms(1) by (auto simp: CorePinned_new_def bindR_Inr_iff)
  have "sum_list (replicate n {#}) = ({#} :: operation multiset)" by (induction n) simp_all
  then have start: "cp_inv n qs" "sum_list qs = {#}" using qs by (simp_all add: cp_inv_def)
  note c = core_pinned.pool_conserves [OF assms(2) start refl]
  show ?thesis using c(2) by (auto simp: core_of_def dest!: c(4))
qed

theorem actor_stays_on_its_core_witness:
  "\<exists>qs p. CorePinned_new 2 = Inr qs \<and> pool_reach (CorePinned_ops 2) 2 qs p \<and> po_executed p = [(0, pinned_op)]
     \<and> (\<forall>w op config. (w, op) \<in> set (po_executed p) \<longrightarrow> on_env op = MakeSender_env config \<longrightarrow>
          w = unat (core_index config) mod 2)"
proof -
  let ?qs = "[{#}, {#}] :: operation multiset list"
  have qs: "CorePinned_new 2 = Inr ?qs" by (simp add: CorePinned_new_def numeral_2_eq_2)
  have "pool_reach (CorePinned_ops 2) 2 ?qs \<lparr>po_store = ?qs, po_workers = replicate 2 At_Loop, po_stop = False,
      po_accepted = [pinned_op], po_executed = [(0, pinned_op)]\<rparr>"
    by (rule pool_runs_one [where ?q1.0 = "?qs[0 := {#pinned_op#}]" and ?q2.0 = ?qs])
      (simp_all add: CorePinned_ops_def CorePinned_start_def CorePinned_EnqueueOperation_def CorePinned_dequeue_def
        UnboundedBlockingQueue_Push_def UnboundedBlockingQueue_TryPop_def pinned_op_def pinned_config_def)
  from qs this actor_stays_on_its_core [OF qs this] show ?thesis by auto
qed

text \<open>
  the priority pool runs the most urgent operation first. What a worker takes has the
  least priority number of everything stored at that moment, and an actor's activation is
  stored under the priority of its configuration.
\<close>

theorem priority_pool_takes_most_urgent:
  assumes "pool_reach Priority_ops n [] p" and "op_dequeue Priority_ops w (po_store p) (Some op) q"
  shows "op \<in># pq_contents (po_store p) \<and> (\<forall>other \<in># pq_contents (po_store p). get_priority (on_env op) \<le> get_priority (on_env other))
     \<and> mset (po_accepted p) = mset (map snd (po_executed p)) + in_execution (po_workers p) + pq_contents (po_store p)"
proof -
  have "\<forall>e \<in> set (po_store p). pe_priority e = get_priority (on_env (pe_value e))"
    using assms(1)
  proof (induction rule: pool_reach.induct)
    case start
    then show ?case by (simp add: pool_new_def)
  next
    case (step p p')
    from step.hyps(2) step.IH show ?case
      by (cases rule: pool_step.cases)
        (auto simp: Priority_ops_def Priority_start_def Priority_EnqueueOperation_def UnboundedBlockingPriorityQueue_Push_def
          UnboundedBlockingPriorityQueue_Pop_def finished_def dest: in_set_remove1 [THEN iffD1, rotated] notin_set_remove1 split: if_splits)
  qed
  moreover obtain e where "e \<in> set (po_store p)" "pq_top (po_store p) e" "op = pe_value e"
    using assms(2) by (auto simp: Priority_ops_def UnboundedBlockingPriorityQueue_Pop_def split: if_splits)
  ultimately have "op \<in># pq_contents (po_store p)"
      "\<forall>other \<in># pq_contents (po_store p). get_priority (on_env op) \<le> get_priority (on_env other)"
    by (auto simp: pq_contents_def pq_top_def pq_less_def not_less)
  moreover have "pq_contents [] = {#}" by (simp add: pq_contents_def)
  ultimately show ?thesis using priority_pool.pool_conserves(2) [OF assms(1) TrueI _ refl] by simp
qed

theorem priority_pool_takes_most_urgent_witness:
  "\<exists>p. pool_reach Priority_ops 1 [] p \<and> op_dequeue Priority_ops 0 (po_store p) (Some pinned_op) []
     \<and> pinned_op \<in># pq_contents (po_store p)"
proof -
  let ?p = "(pool_new 1 [])\<lparr>po_store := Priority_start pinned_op [], po_accepted := [pinned_op]\<rparr>"
  have reach: "pool_reach Priority_ops 1 [] ?p" by (rule pool_accepts_one) (simp add: Priority_ops_def)
  have "op_dequeue Priority_ops 0 (po_store ?p) (Some pinned_op) []"
    by (simp add: Priority_ops_def Priority_start_def Priority_EnqueueOperation_def UnboundedBlockingPriorityQueue_Push_def
        UnboundedBlockingPriorityQueue_Pop_def pq_top_def pq_less_def)
  from reach this priority_pool_takes_most_urgent [OF reach this] show ?thesis by blast
qed

end
