(* ===== verification/Weak_Priority.thy ===== *)
theory Weak_Priority
  imports Thread_Pools
begin

text \<open>
  \<open>WeakPriorityThreadPool\<close>: operations are spread over sub-queues, each an array of 64 stacks,
  one per priority, with a bitmap of the stacks that are not empty. An enqueue pushes to a
  random sub-queue and signals a semaphore; a worker waits on the semaphore, then looks at two
  random sub-queues and takes an operation from the more urgent one. A worker keeps one
  operation it enqueued itself in a local slot, the most urgent it has enqueued since.

  The semaphore (moodycamel's \<open>LightweightSemaphore\<close>) is its count; a timed wait may fail at
  any time. A push and its signal are two steps.
\<close>

unbundle bit_operations_syntax

section \<open>Sub-queues\<close>

definition kMaxPriorityLevels :: nat where "kMaxPriorityLevels = 64"

record sub_queue =
  sq_bitmap :: u64
  sq_slots :: "operation list list"

definition sub_queue_new :: sub_queue where
  "sub_queue_new = \<lparr>sq_bitmap = 0, sq_slots = replicate kMaxPriorityLevels []\<rparr>"

definition countr_zero :: "u64 \<Rightarrow> nat" where
  "countr_zero w = length (takeWhile (\<lambda>i. \<not> bit w i) [0..<64])"

definition sub_push :: "operation \<Rightarrow> nat \<Rightarrow> sub_queue \<Rightarrow> sub_queue" where
  "sub_push op priority sq = sq\<lparr>
     sq_slots := (sq_slots sq)[priority := sq_slots sq ! priority @ [op]],
     sq_bitmap := sq_bitmap sq OR push_bit priority 1\<rparr>"

text \<open>\<open>try_pop\<close>; no result when it would read the back of an empty stack.\<close>

definition try_pop :: "sub_queue \<Rightarrow> (operation option \<times> sub_queue) option" where
  "try_pop sq =
     (let bm = sq_bitmap sq in
      if bm = 0 then Some (None, sq)
      else
        let pri = countr_zero bm; slot = sq_slots sq ! pri in
        if slot = [] then None
        else
          let op = last slot; slot' = butlast slot;
              sq1 = sq\<lparr>sq_slots := (sq_slots sq)[pri := slot']\<rparr> in
          Some (Some op, if slot' = [] then sq1\<lparr>sq_bitmap := bm AND NOT (push_bit pri 1)\<rparr> else sq1))"

section \<open>The pool\<close>

record wp_store =
  wp_sub_queues :: "sub_queue list"
  wp_sema :: nat
  wp_unsignalled :: nat
  wp_token :: "nat \<Rightarrow> bool"
  wp_local_slot :: "nat \<Rightarrow> operation option"
  wp_local_slot_priority :: "nat \<Rightarrow> u32"

definition num_sub_queues :: "nat \<Rightarrow> nat \<Rightarrow> nat" where
  "num_sub_queues thread_count config_num = max 2 (if config_num = 0 then thread_count div 2 else config_num)"

definition WeakPriority_new :: "nat \<Rightarrow> nat \<Rightarrow> wp_store" where
  "WeakPriority_new thread_count config_num =
     \<lparr>wp_sub_queues = replicate (num_sub_queues thread_count config_num) sub_queue_new, wp_sema = 0, wp_unsignalled = 0,
      wp_token = (\<lambda>_. False), wp_local_slot = (\<lambda>_. None), wp_local_slot_priority = (\<lambda>_. 0)\<rparr>"

definition push_to :: "nat \<Rightarrow> operation \<Rightarrow> u32 \<Rightarrow> wp_store \<Rightarrow> wp_store" where
  "push_to idx op priority s = s\<lparr>
     wp_sub_queues := (wp_sub_queues s)[idx := sub_push op (unat priority) (wp_sub_queues s ! idx)],
     wp_unsignalled := wp_unsignalled s + 1\<rparr>"

text \<open>\<open>idx\<close> is the random sub-queue, \<open>tl_rng() % num_sub_queues_\<close>.\<close>

definition WeakPriority_EnqueueOperation :: "nat \<Rightarrow> nat option \<Rightarrow> operation \<Rightarrow> u32 \<Rightarrow> wp_store \<Rightarrow> exa_error + wp_store" where
  "WeakPriority_EnqueueOperation idx caller op priority s =
     (if kMaxPriorityLevels \<le> unat priority
      then Inl (Invalid_Argument ''WeakPriorityThreadPool: priority must be less than 64'')
      else Inr (case caller of
          None \<Rightarrow> push_to idx op priority s
        | Some w \<Rightarrow>
            (case wp_local_slot s w of
               None \<Rightarrow> s\<lparr>wp_local_slot := (wp_local_slot s)(w := Some op),
                         wp_local_slot_priority := (wp_local_slot_priority s)(w := priority)\<rparr>
             | Some local \<Rightarrow>
                 if priority < wp_local_slot_priority s w
                 then push_to idx local (wp_local_slot_priority s w)
                        (s\<lparr>wp_local_slot := (wp_local_slot s)(w := Some op),
                           wp_local_slot_priority := (wp_local_slot_priority s)(w := priority)\<rparr>)
                 else push_to idx op priority s)))"

text \<open>\<open>Operation::start\<close> is \<open>noexcept\<close>: an exception terminates the program (no result).\<close>

definition WeakPriority_start :: "nat \<Rightarrow> nat option \<Rightarrow> operation \<Rightarrow> wp_store \<Rightarrow> wp_store option" where
  "WeakPriority_start idx caller op s =
     (case WeakPriority_EnqueueOperation idx caller op (get_priority (on_env op)) s of Inl _ \<Rightarrow> None | Inr s' \<Rightarrow> Some s')"

definition signal :: "wp_store \<Rightarrow> wp_store option" where
  "signal s = (if wp_unsignalled s = 0 then None
     else Some (s\<lparr>wp_unsignalled := wp_unsignalled s - 1, wp_sema := wp_sema s + 1\<rparr>))"

text \<open>\<open>draw_a\<close> and \<open>draw_b\<close> are the two values of the generator.\<close>

definition sub_queue_pair :: "nat \<Rightarrow> nat \<Rightarrow> wp_store \<Rightarrow> nat \<times> nat" where
  "sub_queue_pair draw_a draw_b s =
     (let n = length (wp_sub_queues s); idx_a = draw_a mod n; idx_b = draw_b mod n in
      (idx_a, if idx_b = idx_a then (idx_b + 1) mod n else idx_b))"

definition TryDequeueOperation :: "nat \<Rightarrow> nat \<Rightarrow> wp_store \<Rightarrow> (operation option \<times> wp_store) option" where
  "TryDequeueOperation draw_a draw_b s =
     (let (idx_a, idx_b) = sub_queue_pair draw_a draw_b s;
          bm_a = sq_bitmap (wp_sub_queues s ! idx_a);
          bm_b = sq_bitmap (wp_sub_queues s ! idx_b) in
      if bm_a = 0 \<and> bm_b = 0 then Some (None, s)
      else
        let swap = bm_a = 0 \<or> (bm_b \<noteq> 0 \<and> countr_zero bm_b < countr_zero bm_a);
            first = if swap then idx_b else idx_a;
            second = if swap then idx_a else idx_b in
        (case try_pop (wp_sub_queues s ! first) of
           None \<Rightarrow> None
         | Some (Some op, sq) \<Rightarrow> Some (Some op, s\<lparr>wp_sub_queues := (wp_sub_queues s)[first := sq]\<rparr>)
         | Some (None, _) \<Rightarrow>
             map_option (\<lambda>(r, sq). (r, s\<lparr>wp_sub_queues := (wp_sub_queues s)[second := sq]\<rparr>))
               (try_pop (wp_sub_queues s ! second))))"

text \<open>
  A step of a worker: without a token it waits on the semaphore, which gives it one or times
  out; with a token it tries to dequeue until it has an operation. It reads the bitmaps
  without the locks, so that between those reads and each \<open>try_pop\<close> other threads run: a step
  is one \<open>try_pop\<close>, of any sub-queue, or an attempt that has seen nothing.
\<close>

definition WeakPriority_dequeue :: "nat \<Rightarrow> wp_store \<Rightarrow> operation option \<Rightarrow> wp_store \<Rightarrow> bool" where
  "WeakPriority_dequeue w s r s' \<longleftrightarrow>
     r = None \<and> s' = s
     \<or> \<not> wp_token s w \<and> r = None \<and> 0 < wp_sema s
         \<and> s' = s\<lparr>wp_sema := wp_sema s - 1, wp_token := (wp_token s)(w := True)\<rparr>
     \<or> wp_token s w \<and> (\<exists>idx < length (wp_sub_queues s). \<exists>op sq. r = Some op
         \<and> try_pop (wp_sub_queues s ! idx) = Some (r, sq)
         \<and> s' = s\<lparr>wp_sub_queues := (wp_sub_queues s)[idx := sq], wp_token := (wp_token s)(w := False)\<rparr>)"

definition WeakPriority_take_slot :: "nat \<Rightarrow> wp_store \<Rightarrow> operation option \<times> wp_store" where
  "WeakPriority_take_slot w s = (wp_local_slot s w, s\<lparr>wp_local_slot := (wp_local_slot s)(w := None)\<rparr>)"

definition WeakPriority_ops :: "(wp_store, operation) pool_ops" where
  "WeakPriority_ops = \<lparr>
     op_enqueue = (\<lambda>c op s r. \<exists>idx < length (wp_sub_queues s).
        r = WeakPriority_EnqueueOperation idx c op (get_priority (on_env op)) s),
     op_dequeue = WeakPriority_dequeue,
     op_take_slot = WeakPriority_take_slot,
     op_may_exit = (\<lambda>w s. \<not> wp_token s w),
     op_background = signal\<rparr>"

section \<open>One sub-queue\<close>

definition sq_contents :: "sub_queue \<Rightarrow> operation multiset" where
  "sq_contents sq = sum_list (map mset (sq_slots sq))"

definition sq_inv :: "sub_queue \<Rightarrow> bool" where
  "sq_inv sq \<longleftrightarrow> length (sq_slots sq) = 64
     \<and> (\<forall>p < 64. (bit (sq_bitmap sq) p \<longleftrightarrow> sq_slots sq ! p \<noteq> [])
          \<and> (\<forall>op \<in> set (sq_slots sq ! p). unat (get_priority (on_env op)) = p))"

lemma length_takeWhile_less_upt: "x < n \<Longrightarrow> \<not> P x \<Longrightarrow> length (takeWhile P [0..<n]) < n"
proof -
  assume x: "x < n" "\<not> P x"
  have "length (takeWhile P [0..<n]) \<noteq> length [0..<n]"
    using x takeWhile_eq_all_conv [of P "[0..<n]"] by (metis atLeastLessThan_iff le0 set_upt takeWhile_eq_take take_all_iff order_refl)
  then show ?thesis using length_takeWhile_le [of P "[0..<n]"] by simp
qed

lemma countr_zero_spec:
  assumes "w \<noteq> 0"
  shows "countr_zero w < 64" "bit w (countr_zero w)" "i < countr_zero w \<Longrightarrow> \<not> bit w i"
proof -
  let ?P = "\<lambda>i. \<not> bit w i"
  obtain j where "bit w j" using assms bit_eq_iff [of w 0] by auto
  moreover then have "j < 64" using bit_imp_le_length [of w j] by simp
  ultimately have len: "length (takeWhile ?P [0..<64]) < length [0..<64]"
    using length_takeWhile_less_upt [of j 64 ?P] by simp
  then show lt: "countr_zero w < 64" by (simp add: countr_zero_def)
  show "bit w (countr_zero w)" using nth_length_takeWhile [OF len] lt by (simp add: countr_zero_def)
  show "\<not> bit w i" if i: "i < countr_zero w"
  proof -
    have "takeWhile ?P [0..<64] ! i = i" using i lt takeWhile_nth [of i ?P "[0..<64]"] by (simp add: countr_zero_def)
    then have "i \<in> set (takeWhile ?P [0..<64])" using i nth_mem [of i "takeWhile ?P [0..<64]"] by (simp add: countr_zero_def)
    then show ?thesis by (auto dest: set_takeWhileD)
  qed
qed

lemma sq_slots_update:
  "p < length (sq_slots sq) \<Longrightarrow>
   sum_list (map mset ((sq_slots sq)[p := xs])) + mset (sq_slots sq ! p) = sq_contents sq + mset xs"
  using sum_list_update_mset [of p "map mset (sq_slots sq)" "mset xs"] by (simp add: sq_contents_def map_update)

lemma sq_contents_mem: "op \<in># sq_contents sq \<longleftrightarrow> (\<exists>p < length (sq_slots sq). op \<in> set (sq_slots sq ! p))"
proof -
  have "op \<in># sum_list (map mset xss) \<longleftrightarrow> (\<exists>p < length xss. op \<in> set (xss ! p))" for xss :: "operation list list"
    by (induction xss) (auto simp: less_Suc_eq_0_disj)
  then show ?thesis by (simp add: sq_contents_def)
qed

lemma sub_push_spec:
  assumes "sq_inv sq" "unat (get_priority (on_env op)) = p" "p < 64"
  shows "sq_inv (sub_push op p sq)" "sq_contents (sub_push op p sq) = add_mset op (sq_contents sq)"
proof -
  show "sq_inv (sub_push op p sq)"
    using assms by (auto simp: sq_inv_def sub_push_def nth_list_update bit_simps)
  have "p < length (sq_slots sq)" using assms by (simp add: sq_inv_def)
  then show "sq_contents (sub_push op p sq) = add_mset op (sq_contents sq)"
    using sq_slots_update [of p sq "sq_slots sq ! p @ [op]"] by (simp add: sq_contents_def sub_push_def)
qed

lemma try_pop_empty: "sq_bitmap sq = 0 \<Longrightarrow> try_pop sq = Some (None, sq)"
  by (simp add: try_pop_def)

lemma sq_empty: "sq_inv sq \<Longrightarrow> sq_bitmap sq = 0 \<longleftrightarrow> sq_contents sq = {#}"
proof -
  assume inv: "sq_inv sq"
  have "sq_bitmap sq = 0 \<longleftrightarrow> (\<forall>p < 64. sq_slots sq ! p = [])"
  proof
    assume "\<forall>p < 64. sq_slots sq ! p = []"
    then have "\<not> bit (sq_bitmap sq) p" if "p < 64" for p using inv that by (simp add: sq_inv_def)
    then have "\<not> bit (sq_bitmap sq) p" for p using bit_imp_le_length [of "sq_bitmap sq" p] by auto
    then show "sq_bitmap sq = 0" by (simp add: bit_eq_iff)
  qed (use inv in \<open>auto simp: sq_inv_def\<close>)
  also have "\<dots> \<longleftrightarrow> (\<forall>op. op \<notin># sq_contents sq)"
    using inv by (auto simp: sq_contents_mem sq_inv_def) (metis list.set_intros(1) neq_Nil_conv)
  finally show ?thesis by (auto simp: multiset_eq_iff not_in_iff)
qed

lemma sq_urgency:
  assumes inv: "sq_inv sq" and mem: "other \<in># sq_contents sq"
  shows "sq_bitmap sq \<noteq> 0 \<and> countr_zero (sq_bitmap sq) \<le> unat (get_priority (on_env other))"
proof -
  have ne: "sq_bitmap sq \<noteq> 0" using sq_empty [OF inv] mem by auto
  obtain q where q: "q < 64" "other \<in> set (sq_slots sq ! q)" using inv mem by (auto simp: sq_contents_mem sq_inv_def)
  then have "bit (sq_bitmap sq) q" "unat (get_priority (on_env other)) = q" using inv by (auto simp: sq_inv_def)
  then show ?thesis using countr_zero_spec(3) [OF ne, of q] ne by (meson not_less)
qed

lemma try_pop_some:
  assumes inv: "sq_inv sq" and ne: "sq_bitmap sq \<noteq> 0"
  shows "\<exists>op sq'. try_pop sq = Some (Some op, sq') \<and> sq_inv sq' \<and> sq_contents sq = add_mset op (sq_contents sq')
     \<and> unat (get_priority (on_env op)) = countr_zero (sq_bitmap sq)"
proof -
  define p where "p = countr_zero (sq_bitmap sq)"
  note ctz = countr_zero_spec [OF ne, folded p_def]
  define sl where "sl = sq_slots sq ! p"
  have sl: "sl \<noteq> []" "\<forall>op \<in> set sl. unat (get_priority (on_env op)) = p" "p < length (sq_slots sq)"
    using inv ctz by (auto simp: sq_inv_def sl_def)
  define sq1 where "sq1 = sq\<lparr>sq_slots := (sq_slots sq)[p := butlast sl]\<rparr>"
  define sq' where "sq' = (if butlast sl = [] then sq1\<lparr>sq_bitmap := sq_bitmap sq AND NOT (push_bit p 1)\<rparr> else sq1)"
  have pop: "try_pop sq = Some (Some (last sl), sq')"
    using ne sl(1) by (simp add: try_pop_def Let_def sl_def p_def sq'_def sq1_def)
  have slots: "sq_slots sq' = (sq_slots sq)[p := butlast sl]" by (simp add: sq'_def sq1_def)
  have "mset sl = add_mset (last sl) (mset (butlast sl))"
    using sl(1) by (metis append_butlast_last_id mset_append union_commute add_mset_add_single mset.simps(1,2))
  then have contents: "sq_contents sq = add_mset (last sl) (sq_contents sq')"
    using sq_slots_update [OF sl(3), of "butlast sl"] slots unfolding sl_def [symmetric] sq_contents_def by simp
  have bits: "bit (sq_bitmap sq') q \<longleftrightarrow> (if q = p then butlast sl \<noteq> [] else bit (sq_bitmap sq) q)" if "q < 64" for q
    using that ctz(2) by (auto simp: sq'_def sq1_def bit_simps)
  have "sq_slots sq' ! q = (if q = p then butlast sl else sq_slots sq ! q)" for q
    using sl(3) by (simp add: slots nth_list_update)
  then have "sq_inv sq'"
    using inv sl(2) bits unfolding sq_inv_def by (auto simp: slots dest: in_set_butlastD)
  then show ?thesis using pop contents sl(1,2) by (auto simp: p_def)
qed

lemma try_pop_spec:
  assumes "sq_inv sq" "try_pop sq = Some (r, sq')"
  shows "sq_inv sq' \<and> sq_contents sq = opt_mset r + sq_contents sq'"
  using try_pop_some [OF assms(1)] try_pop_empty [of sq] assms by (cases "sq_bitmap sq = 0") auto

section \<open>The whole pool\<close>

definition wp_queued :: "wp_store \<Rightarrow> operation multiset" where
  "wp_queued s = sum_list (map sq_contents (wp_sub_queues s))"

definition wp_contents :: "nat \<Rightarrow> wp_store \<Rightarrow> operation multiset" where
  "wp_contents n s = wp_queued s + sum_list (map (\<lambda>w. opt_mset (wp_local_slot s w)) [0..<n])"

definition wp_tokens :: "nat \<Rightarrow> wp_store \<Rightarrow> nat" where
  "wp_tokens n s = card {w. w < n \<and> wp_token s w}"

text \<open>
  The count that keeps the workers honest: every queued operation is matched by a unit of the
  semaphore, a worker that has taken a unit, or a signal still to come.
\<close>

definition wp_inv :: "nat \<Rightarrow> wp_store \<Rightarrow> bool" where
  "wp_inv n s \<longleftrightarrow> 2 \<le> length (wp_sub_queues s) \<and> (\<forall>sq \<in> set (wp_sub_queues s). sq_inv sq)
     \<and> size (wp_queued s) = wp_sema s + wp_tokens n s + wp_unsignalled s
     \<and> (\<forall>w op. wp_local_slot s w = Some op \<longrightarrow>
          wp_local_slot_priority s w = get_priority (on_env op) \<and> unat (get_priority (on_env op)) < 64)"

lemma wp_queued_update:
  "idx < length (wp_sub_queues s) \<Longrightarrow> wp_sub_queues s' = (wp_sub_queues s)[idx := sq] \<Longrightarrow>
   wp_queued s' + sq_contents (wp_sub_queues s ! idx) = wp_queued s + sq_contents sq"
  using sum_list_update_mset [of idx "map sq_contents (wp_sub_queues s)" "sq_contents sq"]
  by (simp add: wp_queued_def map_update)

lemma wp_tokens_update:
  assumes "w < n"
  shows "wp_token s' = (wp_token s)(w := True) \<Longrightarrow> \<not> wp_token s w \<Longrightarrow> wp_tokens n s' = Suc (wp_tokens n s)"
    and "wp_token s' = (wp_token s)(w := False) \<Longrightarrow> wp_token s w \<Longrightarrow> Suc (wp_tokens n s') = wp_tokens n s"
proof -
  have "{v. v < n \<and> ((wp_token s)(w := True)) v} = insert w {v. v < n \<and> wp_token s v}" using assms by auto
  then show "wp_tokens n s' = Suc (wp_tokens n s)" if "wp_token s' = (wp_token s)(w := True)" "\<not> wp_token s w"
    using that by (simp add: wp_tokens_def)
  have "{v. v < n \<and> wp_token s v} = insert w {v. v < n \<and> ((wp_token s)(w := False)) v}" if "wp_token s w" using that assms by auto
  then show "Suc (wp_tokens n s') = wp_tokens n s" if "wp_token s' = (wp_token s)(w := False)" "wp_token s w"
    using that by (simp add: wp_tokens_def)
qed

lemma push_to_spec:
  assumes "wp_inv n s" "idx < length (wp_sub_queues s)" "priority = get_priority (on_env op)" "unat priority < 64"
  shows "wp_inv n (push_to idx op priority s) \<and> wp_queued (push_to idx op priority s) = add_mset op (wp_queued s)
     \<and> wp_local_slot (push_to idx op priority s) = wp_local_slot s"
proof -
  let ?s = "push_to idx op priority s"
  have sq: "sq_inv (wp_sub_queues s ! idx)" using assms(1,2) by (simp add: wp_inv_def)
  note push = sub_push_spec [OF sq _ assms(4), of op] assms(3)
  have queued: "wp_queued ?s = add_mset op (wp_queued s)"
    using wp_queued_update [OF assms(2), of ?s "sub_push op (unat priority) (wp_sub_queues s ! idx)"] push
    by (simp add: push_to_def)
  moreover have "\<forall>sq \<in> set (wp_sub_queues ?s). sq_inv sq"
    using assms(1) push by (auto simp: push_to_def wp_inv_def dest!: set_update_subset_insert [THEN subsetD])
  ultimately show ?thesis using assms(1) by (simp add: wp_inv_def push_to_def wp_tokens_def)
qed

lemma slot_sum_None:
  fixes f :: "nat \<Rightarrow> 'x option"
  assumes "w < n" "f w = None"
  shows "sum_list (map (\<lambda>v. opt_mset ((f(w := Some x)) v)) [0..<n]) = add_mset x (sum_list (map (\<lambda>v. opt_mset (f v)) [0..<n]))"
  using slot_sum_update [OF assms(1), of f "Some x"] assms(2) by simp

lemma slot_sum_swap:
  fixes f :: "nat \<Rightarrow> 'x option"
  assumes "w < n" "f w = Some y"
  shows "add_mset y (sum_list (map (\<lambda>v. opt_mset ((f(w := Some x)) v)) [0..<n])) = add_mset x (sum_list (map (\<lambda>v. opt_mset (f v)) [0..<n]))"
  using slot_sum_update [OF assms(1), of f "Some x"] assms(2) by simp

lemma wp_enqueue_spec:
  assumes inv: "wp_inv n s" and c: "\<And>w. c = Some w \<Longrightarrow> w < n" and idx: "idx < length (wp_sub_queues s)"
    and enq: "WeakPriority_EnqueueOperation idx c op (get_priority (on_env op)) s = Inr s'"
  shows "wp_inv n s' \<and> wp_contents n s' = add_mset op (wp_contents n s)
     \<and> (\<forall>w. c \<noteq> Some w \<longrightarrow> wp_local_slot s' w = wp_local_slot s w)"
proof -
  have pri: "unat (get_priority (on_env op)) < 64"
    using enq by (auto simp: WeakPriority_EnqueueOperation_def kMaxPriorityLevels_def not_le split: if_splits)
  note direct = push_to_spec [OF inv idx refl pri]
  show ?thesis
  proof (cases "c = None \<or> (\<exists>w. c = Some w \<and> (\<exists>y. wp_local_slot s w = Some y
      \<and> \<not> get_priority (on_env op) < wp_local_slot_priority s w))")
    case True
    then have "s' = push_to idx op (get_priority (on_env op)) s"
      using enq by (auto simp: WeakPriority_EnqueueOperation_def split: if_splits)
    then show ?thesis using direct by (simp add: wp_contents_def)
  next
    case False
    then obtain w where w: "c = Some w" by auto
    define s1 where "s1 = s\<lparr>wp_local_slot := (wp_local_slot s)(w := Some op),
        wp_local_slot_priority := (wp_local_slot_priority s)(w := get_priority (on_env op))\<rparr>"
    have s1: "wp_inv n s1" "wp_queued s1 = wp_queued s"
      using inv pri by (simp_all add: s1_def wp_inv_def wp_queued_def wp_tokens_def)
    show ?thesis
    proof (cases "wp_local_slot s w")
      case None
      then have "s' = s1" using enq w pri by (simp add: WeakPriority_EnqueueOperation_def kMaxPriorityLevels_def s1_def)
      then show ?thesis using s1 slot_sum_None [OF c [OF w], of "wp_local_slot s" op] None w
        by (simp add: wp_contents_def) (simp add: s1_def)
    next
      case (Some y)
      have y: "wp_local_slot_priority s w = get_priority (on_env y)" "unat (get_priority (on_env y)) < 64"
        using inv Some by (auto simp: wp_inv_def)
      have s': "s' = push_to idx y (wp_local_slot_priority s w) s1"
        using enq w pri Some False by (auto simp: WeakPriority_EnqueueOperation_def kMaxPriorityLevels_def s1_def)
      have "idx < length (wp_sub_queues s1)" using idx by (simp add: s1_def)
      note push = push_to_spec [OF s1(1) this y(1)] y
      have "wp_local_slot s' = (wp_local_slot s)(w := Some op)" using push s' by (simp add: s1_def)
      moreover from this have "\<forall>v. v \<noteq> w \<longrightarrow> wp_local_slot s' v = wp_local_slot s v" by simp
      ultimately show ?thesis using push s' s1 slot_sum_swap [OF c [OF w], of "wp_local_slot s" y op] Some w
        by (simp add: wp_contents_def del: fun_upd_apply)
    qed
  qed
qed

interpretation weak_priority: operation_store WeakPriority_ops n "wp_contents n" "\<lambda>w s. wp_local_slot s w"
    "wp_inv n" "\<lambda>x w. True" for n
proof (unfold_locales, goal_cases)
  case (1 s c x s')
  then show ?case using wp_enqueue_spec [of n s c] by (auto simp: WeakPriority_ops_def)
next
  case (2 s w r s')
  consider "r = None" "s' = s"
    | "\<not> wp_token s w" "r = None" "0 < wp_sema s" "s' = s\<lparr>wp_sema := wp_sema s - 1, wp_token := (wp_token s)(w := True)\<rparr>"
    | idx op sq where "wp_token s w" "idx < length (wp_sub_queues s)" "r = Some op" "try_pop (wp_sub_queues s ! idx) = Some (r, sq)"
        "s' = s\<lparr>wp_sub_queues := (wp_sub_queues s)[idx := sq], wp_token := (wp_token s)(w := False)\<rparr>"
    using 2(3) by (auto simp: WeakPriority_ops_def WeakPriority_dequeue_def)
  then show ?case
  proof cases
    case 1
    then show ?thesis using 2(1) by simp
  next
    case 2
    then have "wp_tokens n s' = Suc (wp_tokens n s)" using wp_tokens_update(1) [OF \<open>w < n\<close>, of s' s] by simp
    then show ?thesis using 2 \<open>wp_inv n s\<close> by (simp add: wp_inv_def wp_contents_def wp_queued_def)
  next
    case 3
    have "sq_inv (wp_sub_queues s ! idx)" using 3(2) \<open>wp_inv n s\<close> by (simp add: wp_inv_def)
    note pop = try_pop_spec [OF this 3(4)]
    have queued: "wp_queued s = add_mset op (wp_queued s')"
    proof -
      have "wp_queued s' + sq_contents (wp_sub_queues s ! idx) = wp_queued s + sq_contents sq"
        using wp_queued_update [OF 3(2), of s' sq] 3(5) by simp
      then have "wp_queued s + sq_contents sq = add_mset op (wp_queued s') + sq_contents sq" using pop 3(3) by simp
      then show ?thesis by (rule add_right_imp_eq)
    qed
    have "Suc (wp_tokens n s') = wp_tokens n s" using wp_tokens_update(2) [OF \<open>w < n\<close>, of s' s] 3(1,5) by simp
    moreover have "\<forall>sq \<in> set (wp_sub_queues s'). sq_inv sq"
      using \<open>wp_inv n s\<close> pop 3(5) by (auto simp: wp_inv_def dest!: set_update_subset_insert [THEN subsetD])
    ultimately have "wp_inv n s'" using \<open>wp_inv n s\<close> 3(5) queued by (simp add: wp_inv_def)
    then show ?thesis using queued 3(3,5) by (simp add: wp_contents_def)
  qed
next
  case (3 s w r s')
  have s': "s' = s\<lparr>wp_local_slot := (wp_local_slot s)(w := None)\<rparr>" "r = wp_local_slot s w"
    using 3(3) by (simp_all add: WeakPriority_ops_def WeakPriority_take_slot_def)
  have "sum_list (map (\<lambda>v. opt_mset (((wp_local_slot s)(w := None)) v)) [0..<n]) + opt_mset (wp_local_slot s w)
      = sum_list (map (\<lambda>v. opt_mset (wp_local_slot s v)) [0..<n])"
    using slot_sum_update [OF 3(2), of "wp_local_slot s" None] by simp
  then have "wp_contents n s = opt_mset r + wp_contents n s'"
    by (simp add: wp_contents_def wp_queued_def s' add_ac del: fun_upd_apply)
  then show ?case using 3(1) s' by (auto simp: wp_inv_def wp_queued_def wp_tokens_def)
next
  case (4 s s')
  then have "0 < wp_unsignalled s" "s' = s\<lparr>wp_unsignalled := wp_unsignalled s - 1, wp_sema := wp_sema s + 1\<rparr>"
    by (auto simp: WeakPriority_ops_def signal_def split: if_splits)
  then show ?case using 4(1) by (simp add: wp_inv_def wp_contents_def wp_queued_def wp_tokens_def)
qed

lemma WeakPriority_new_ok:
  "wp_inv n (WeakPriority_new n c)" "wp_contents n (WeakPriority_new n c) = {#}" "wp_local_slot (WeakPriority_new n c) w = None"
proof -
  have "sum_list (replicate k {#}) = ({#} :: operation multiset)" for k by (induction k) simp_all
  then have new: "sq_contents sub_queue_new = {#}" "sq_inv sub_queue_new" "wp_queued (WeakPriority_new n c) = {#}"
    by (simp_all add: sq_contents_def sub_queue_new_def sq_inv_def kMaxPriorityLevels_def wp_queued_def WeakPriority_new_def)
  then show "wp_inv n (WeakPriority_new n c)"
    by (simp add: wp_inv_def) (simp add: WeakPriority_new_def num_sub_queues_def wp_tokens_def)
  have "sum_list (map (\<lambda>w. opt_mset (None :: operation option)) [0..<n]) = {#}" by (induction n) simp_all
  then show "wp_contents n (WeakPriority_new n c) = {#}" using new by (simp add: wp_contents_def) (simp add: WeakPriority_new_def)
  show "wp_local_slot (WeakPriority_new n c) w = None" by (simp add: WeakPriority_new_def)
qed

section \<open>Dequeueing\<close>

lemma sub_queue_pair_ok:
  assumes "2 \<le> length (wp_sub_queues s)" "sub_queue_pair da db s = (a, b)"
  shows "a < length (wp_sub_queues s)" "b < length (wp_sub_queues s)" "a \<noteq> b"
proof -
  define n where "n = length (wp_sub_queues s)"
  have ab: "a = da mod n" "b = (if db mod n = a then (db mod n + 1) mod n else db mod n)"
    using assms(2) by (auto simp: sub_queue_pair_def Let_def n_def split: if_splits)
  have n: "2 \<le> n" using assms(1) by (simp add: n_def)
  then show "a < length (wp_sub_queues s)" "b < length (wp_sub_queues s)" using ab by (simp_all add: n_def [symmetric])
  have "(a + 1) mod n \<noteq> a"
  proof (cases "a + 1 = n")
    case True
    then show ?thesis using n by simp
  next
    case False
    then have "a + 1 < n" using ab(1) n by (metis Suc_eq_plus1 Suc_leI le_neq_implies_less mod_less_divisor not_numeral_le_zero zero_less_iff_neq_zero)
    then show ?thesis by simp
  qed
  then show "a \<noteq> b" using ab(2) by auto
qed

lemma sum_list_empty: "(\<forall>q \<in> set qs. q = {#}) \<Longrightarrow> sum_list qs = {#}" for qs :: "'x multiset list"
  by (induction qs) simp_all

text \<open>An attempt with no other thread in between.\<close>

lemma TryDequeueOperation_spec:
  assumes inv: "wp_inv n s" and pair: "sub_queue_pair da db s = (a, b)"
    and sqs: "sqa = wp_sub_queues s ! a" "sqb = wp_sub_queues s ! b"
  shows "\<exists>r s'. TryDequeueOperation da db s = Some (r, s')
    \<and> (r = None \<longleftrightarrow> sq_contents sqa = {#} \<and> sq_contents sqb = {#})
    \<and> (\<forall>op. r = Some op \<longrightarrow> wp_queued s = add_mset op (wp_queued s')
         \<and> (\<forall>other \<in># sq_contents sqa + sq_contents sqb. get_priority (on_env op) \<le> get_priority (on_env other)))"
proof -
  have len: "2 \<le> length (wp_sub_queues s)" using inv by (simp add: wp_inv_def)
  note ab = sub_queue_pair_ok [OF len pair]
  have sqi: "sq_inv sqa" "sq_inv sqb" using inv ab by (simp_all add: wp_inv_def sqs)
  show ?thesis
  proof (cases "sq_bitmap sqa = 0 \<and> sq_bitmap sqb = 0")
    case True
    then show ?thesis using sq_empty [OF sqi(1)] sq_empty [OF sqi(2)]
      by (simp add: TryDequeueOperation_def pair sqs)
  next
    case False
    define swap where "swap \<longleftrightarrow> sq_bitmap sqa = 0 \<or> (sq_bitmap sqb \<noteq> 0 \<and> countr_zero (sq_bitmap sqb) < countr_zero (sq_bitmap sqa))"
    define i sq other_sq where "i = (if swap then b else a)" and "sq = (if swap then sqb else sqa)"
      and "other_sq = (if swap then sqa else sqb)"
    have sq: "sq = wp_sub_queues s ! i" "i < length (wp_sub_queues s)" "sq_inv sq" "sq_inv other_sq" "sq_bitmap sq \<noteq> 0"
      "sq_bitmap other_sq \<noteq> 0 \<Longrightarrow> countr_zero (sq_bitmap sq) \<le> countr_zero (sq_bitmap other_sq)"
      using ab sqi False by (auto simp: i_def sq_def other_sq_def sqs swap_def)
    obtain op sq' where pop: "try_pop sq = Some (Some op, sq')" "sq_contents sq = add_mset op (sq_contents sq')"
      "unat (get_priority (on_env op)) = countr_zero (sq_bitmap sq)"
      using try_pop_some [OF sq(3,5)] by auto
    define s' where "s' = s\<lparr>wp_sub_queues := (wp_sub_queues s)[i := sq']\<rparr>"
    have attempt: "TryDequeueOperation da db s = Some (Some op, s')"
    proof (cases swap)
      case True
      then have "i = b" "sq = sqb" by (simp_all add: i_def sq_def)
      then show ?thesis using True False pop(1) unfolding TryDequeueOperation_def pair swap_def s'_def sqs by auto
    next
      case no_swap: False
      then have "i = a" "sq = sqa" by (simp_all add: i_def sq_def)
      then show ?thesis using no_swap False pop(1) unfolding TryDequeueOperation_def pair swap_def s'_def sqs by auto
    qed
    have "wp_queued s' + sq_contents sq = wp_queued s + sq_contents sq'"
      using wp_queued_update [OF sq(2), of s' sq'] sq(1) by (simp add: s'_def)
    then have "wp_queued s + sq_contents sq' = add_mset op (wp_queued s') + sq_contents sq'" using pop(2) by simp
    then have queued: "wp_queued s = add_mset op (wp_queued s')" by (rule add_right_imp_eq)
    have "get_priority (on_env op) \<le> get_priority (on_env other)" if "other \<in># sq_contents sq + sq_contents other_sq" for other
    proof -
      have "countr_zero (sq_bitmap sq) \<le> unat (get_priority (on_env other))"
        using that sq_urgency [OF sq(3), of other] sq_urgency [OF sq(4), of other] sq(6) by auto
      then show ?thesis using pop(3) by (simp add: word_le_nat_alt)
    qed
    moreover have "sq_contents sqa + sq_contents sqb = sq_contents sq + sq_contents other_sq"
      by (simp add: sq_def other_sq_def add.commute)
    moreover have "op \<in># sq_contents sq" using pop(2) by simp
    ultimately show ?thesis using attempt queued by (auto simp: sq_def split: if_splits)
  qed
qed

section \<open>Properties\<close>

text \<open>
  C24: the weak-priority pool neither loses an operation nor leaves a worker spinning. Every
  operation accepted is executed once, in execution or stored; what is queued is matched by
  the semaphore's count, the workers that have been let through and the signals to come; and
  a worker that has been let through finds an operation for some draw of sub-queues. An
  operation in a worker's local slot is executed before that worker leaves its loop.
\<close>

theorem weak_priority_accounts_for_all:
  assumes "pool_reach WeakPriority_ops n (WeakPriority_new n c) p"
  shows "mset (po_accepted p)
       = mset (map snd (po_executed p)) + in_execution (po_workers p) + wp_contents n (po_store p)
     \<and> size (wp_queued (po_store p)) = wp_sema (po_store p) + wp_tokens n (po_store p) + wp_unsignalled (po_store p)
     \<and> (\<forall>w < n. wp_token (po_store p) w \<longrightarrow>
          (\<exists>draw_a draw_b op s. TryDequeueOperation draw_a draw_b (po_store p) = Some (Some op, s)))
     \<and> (\<forall>w < n. po_workers p ! w = Exited \<longrightarrow> wp_local_slot (po_store p) w = None)"
proof -
  note all = weak_priority.pool_conserves [OF assms WeakPriority_new_ok]
  define s where "s = po_store p"
  have inv: "wp_inv n s" using all(1) by (simp add: s_def)
  have "\<exists>da db op s'. TryDequeueOperation da db s = Some (Some op, s')" if "w < n" "wp_token s w" for w
  proof -
    have "0 < wp_tokens n s" using that by (auto simp: wp_tokens_def card_gt_0_iff)
    then have "wp_queued s \<noteq> {#}" using inv by (auto simp: wp_inv_def)
    then obtain i where i: "i < length (wp_sub_queues s)" "sq_contents (wp_sub_queues s ! i) \<noteq> {#}"
      using sum_list_empty [of "map sq_contents (wp_sub_queues s)"] by (force simp: wp_queued_def in_set_conv_nth)
    obtain j where pair: "sub_queue_pair i 0 s = (i, j)" using i(1) by (simp add: sub_queue_pair_def Let_def)
    from TryDequeueOperation_spec [OF inv pair refl refl] i(2) show ?thesis by (metis option.exhaust)
  qed
  then show ?thesis using all(2,3) inv unfolding s_def [symmetric] by (auto simp: wp_inv_def)
qed

text \<open>The pool with two sub-queues that has accepted one operation and let worker 0 through.\<close>

definition sample_store :: wp_store where
  "sample_store = push_to 0 pinned_op 3 (WeakPriority_new 1 0)"

definition sample_pool :: "(wp_store, operation) pool" where
  "sample_pool = (pool_new 1 (WeakPriority_new 1 0))\<lparr>
     po_store := sample_store\<lparr>wp_unsignalled := 0, wp_token := (\<lambda>_. False)(0 := True)\<rparr>, po_accepted := [pinned_op]\<rparr>"

lemma pinned_op_priority [simp]: "get_priority (on_env pinned_op) = 3"
  by (simp add: pinned_op_def pinned_config_def)

lemma sample_pool_reach: "pool_reach WeakPriority_ops 1 (WeakPriority_new 1 0) sample_pool"
proof -
  let ?p1 = "(pool_new 1 (WeakPriority_new 1 0))\<lparr>po_store := sample_store, po_accepted := [pinned_op]\<rparr>"
  let ?p2 = "?p1\<lparr>po_store := sample_store\<lparr>wp_unsignalled := 0, wp_sema := 1\<rparr>\<rparr>"
  have empty: "wp_unsignalled sample_store = 1" "wp_sema sample_store = 0" "wp_token sample_store = (\<lambda>_. False)"
    by (simp_all add: sample_store_def push_to_def WeakPriority_new_def)
  have "pool_reach WeakPriority_ops 1 (WeakPriority_new 1 0) ?p1"
    by (rule pool_accepts_one)
      (auto simp: WeakPriority_ops_def WeakPriority_EnqueueOperation_def kMaxPriorityLevels_def sample_store_def
        intro!: exI [of _ 0] simp: WeakPriority_new_def num_sub_queues_def)
  moreover have "pool_step WeakPriority_ops ?p1 ?p2"
    using pool_step.background [of WeakPriority_ops ?p1 "sample_store\<lparr>wp_unsignalled := 0, wp_sema := 1\<rparr>"]
    by (simp add: WeakPriority_ops_def signal_def empty)
  moreover have "pool_step WeakPriority_ops ?p2 sample_pool"
    using pool_step.dequeue [of 0 ?p2 WeakPriority_ops None "sample_store\<lparr>wp_unsignalled := 0, wp_token := (\<lambda>_. False)(0 := True)\<rparr>"]
    by (simp add: WeakPriority_ops_def WeakPriority_dequeue_def empty pool_new_def next_worker_def sample_pool_def del: fun_upd_apply)
  ultimately show ?thesis by (meson pool_reach.step)
qed

theorem weak_priority_accounts_for_all_witness:
  "pool_reach WeakPriority_ops 1 (WeakPriority_new 1 0) sample_pool
     \<and> (\<exists>draw_a draw_b op s. TryDequeueOperation draw_a draw_b (po_store sample_pool) = Some (Some op, s))"
  using sample_pool_reach weak_priority_accounts_for_all [OF sample_pool_reach] by (simp add: sample_pool_def)

text \<open>
  what an attempt to dequeue returns. In a reachable pool it never reads the back of an
  empty stack; it looks at two different sub-queues, comes back empty only when both are, and
  otherwise removes one operation that is at least as urgent as everything in both. An
  operation with a priority of 64 or more cannot be started: it throws in a function that is
  \<open>noexcept\<close>.
\<close>

theorem weak_priority_attempt:
  assumes "pool_reach WeakPriority_ops n (WeakPriority_new n c) p"
    and "sub_queue_pair draw_a draw_b (po_store p) = (a, b)"
  shows "a \<noteq> b \<and> (\<exists>r s'. TryDequeueOperation draw_a draw_b (po_store p) = Some (r, s')
       \<and> (r = None \<longleftrightarrow> sq_contents (wp_sub_queues (po_store p) ! a) + sq_contents (wp_sub_queues (po_store p) ! b) = {#})
       \<and> (\<forall>op. r = Some op \<longrightarrow> wp_queued (po_store p) = add_mset op (wp_queued s')
            \<and> (\<forall>other \<in># sq_contents (wp_sub_queues (po_store p) ! a) + sq_contents (wp_sub_queues (po_store p) ! b).
                 get_priority (on_env op) \<le> get_priority (on_env other))))
     \<and> (\<forall>idx caller op. WeakPriority_start idx caller op (po_store p) = None \<longleftrightarrow> 64 \<le> unat (get_priority (on_env op)))"
proof -
  have inv: "wp_inv n (po_store p)" using weak_priority.pool_conserves(1) [OF assms(1) WeakPriority_new_ok] .
  then have "a \<noteq> b" using sub_queue_pair_ok(3) [OF _ assms(2)] by (simp add: wp_inv_def)
  moreover have "WeakPriority_start idx caller op s = None \<longleftrightarrow> 64 \<le> unat (get_priority (on_env op))" for idx caller op s
    by (auto simp: WeakPriority_start_def WeakPriority_EnqueueOperation_def kMaxPriorityLevels_def split: option.splits)
  ultimately show ?thesis using TryDequeueOperation_spec [OF inv assms(2) refl refl] by simp
qed

theorem weak_priority_attempt_witness:
  "sub_queue_pair 3 5 (po_store sample_pool) = (1, 0) \<and> (\<exists>r s. TryDequeueOperation 3 5 (po_store sample_pool) = Some (r, s))"
proof -
  have "sub_queue_pair 3 5 (po_store sample_pool) = (1, 0)"
    by (simp add: sub_queue_pair_def sample_pool_def sample_store_def push_to_def WeakPriority_new_def num_sub_queues_def)
  from this weak_priority_attempt [OF sample_pool_reach this] show ?thesis by blast
qed

end
