(* ===== verification/Buffers.thy ===== *)
theory Buffers
  imports Bytes
begin

text \<open>
  The buffer reader and writer of \<open>serialization.h\<close>: a cursor over a byte buffer that checks
  every access against the size of the buffer. Sizes and offsets are \<open>size_t\<close> and wrap, so
  that the check is on \<open>offset + length\<close> modulo two to the 64. An access that passes the check
  but leaves the buffer is undefined (\<open>None\<close>).

  A primitive is read and written through a \<open>reinterpret_cast\<close> of the cursor to a pointer to
  its type. How its value lies in the bytes and at which addresses the platform allows the
  access is a parameter, the \<open>host\<close>: where it is not allowed (an address that is not a multiple
  of the alignment of the type) the access is undefined.
\<close>

section \<open>The host\<close>

record host =
  ho_encode :: "nat \<Rightarrow> nat \<Rightarrow> bytes"
  ho_decode :: "bytes \<Rightarrow> nat"
  ho_access :: "nat \<Rightarrow> u64 \<Rightarrow> bool"

text \<open>A primitive of \<open>k\<close> bytes occupies \<open>k\<close> bytes, and what was stored is what is loaded.\<close>

definition host_ok :: "host \<Rightarrow> bool" where
  "host_ok ho \<longleftrightarrow> (\<forall>k v. length (ho_encode ho k v) = k \<and> (v < 256 ^ k \<longrightarrow> ho_decode ho (ho_encode ho k v) = v))"

text \<open>
  Two hosts: little-endian with accesses at any address, and big-endian with accesses at
  multiples of the size only.
\<close>

definition little_endian :: host where
  "little_endian = \<lparr>ho_encode = le_bytes, ho_decode = le_nat, ho_access = (\<lambda>k address. True)\<rparr>"

definition big_endian_aligned :: host where
  "big_endian_aligned = \<lparr>ho_encode = (\<lambda>k v. rev (le_bytes k v)), ho_decode = (\<lambda>bs. le_nat (rev bs)),
     ho_access = (\<lambda>k address. k dvd unat address)\<rparr>"

lemma host_okD:
  assumes "host_ok ho"
  shows "length (ho_encode ho k v) = k" "v < 256 ^ k \<Longrightarrow> ho_decode ho (ho_encode ho k v) = v"
  using assms by (simp_all add: host_ok_def)

lemma host_ok_little_endian: "host_ok little_endian"
  and host_ok_big_endian: "host_ok big_endian_aligned"
  by (simp_all add: host_ok_def little_endian_def big_endian_aligned_def le_nat_le_bytes)

section \<open>BufferReader\<close>

record buffer_reader =
  br_buffer :: bytes
  br_start :: u64
  br_size :: u64
  br_offset :: u64

text \<open>\<open>start\<close> is the address of the first byte.\<close>

definition BufferReader_new :: "u64 \<Rightarrow> bytes \<Rightarrow> buffer_reader" where
  "BufferReader_new start buffer = \<lparr>br_buffer = buffer, br_start = start, br_size = word_of_nat (length buffer), br_offset = 0\<rparr>"

text \<open>\<open>n\<close> bytes from the cursor on.\<close>

definition bytes_at :: "bytes \<Rightarrow> nat \<Rightarrow> nat \<Rightarrow> bytes option" where
  "bytes_at buffer offset n = (if offset + n \<le> length buffer then Some (take n (drop offset buffer)) else None)"

text \<open>A primitive of \<open>k\<close> bytes, as the number that its bits are on this host.\<close>

definition NextPrimitive :: "host \<Rightarrow> nat \<Rightarrow> buffer_reader \<Rightarrow> (exa_error + (nat \<times> buffer_reader)) option" where
  "NextPrimitive ho k r =
     (if br_offset r + word_of_nat k > br_size r then Some (Inl (Throw_Stream ''Buffer overflow''))
      else if \<not> ho_access ho k (br_start r + br_offset r) then None
      else map_option (\<lambda>bs. Inr (ho_decode ho bs, r\<lparr>br_offset := br_offset r + word_of_nat k\<rparr>))
             (bytes_at (br_buffer r) (unat (br_offset r)) k))"

text \<open>\<open>std::string (ptr, length)\<close> throws when \<open>length\<close> exceeds \<open>max_size ()\<close>, below two to the 63.\<close>

definition PullString :: "u64 \<Rightarrow> buffer_reader \<Rightarrow> (exa_error + (bytes \<times> buffer_reader)) option" where
  "PullString n r =
     (if br_offset r + n > br_size r then Some (Inl (Throw_Stream ''Buffer overflow''))
      else if unat n \<ge> 2 ^ 63 then Some (Inl (Length_Error ''basic_string''))
      else map_option (\<lambda>bs. Inr (bs, r\<lparr>br_offset := br_offset r + n\<rparr>))
             (bytes_at (br_buffer r) (unat (br_offset r)) (unat n)))"

definition RemainingSize :: "buffer_reader \<Rightarrow> u64" where
  "RemainingSize r = br_size r - br_offset r"

text \<open>The stream over the rest of the buffer, as the bytes it delivers.\<close>

definition ToInputMemoryStream :: "buffer_reader \<Rightarrow> bytes option" where
  "ToInputMemoryStream r = bytes_at (br_buffer r) (unat (br_offset r)) (unat (RemainingSize r))"

section \<open>BufferWriter\<close>

record buffer_writer =
  bw_buffer :: bytes
  bw_start :: u64
  bw_size :: u64
  bw_offset :: u64

definition BufferWriter_new :: "u64 \<Rightarrow> bytes \<Rightarrow> buffer_writer" where
  "BufferWriter_new start buffer = \<lparr>bw_buffer = buffer, bw_start = start, bw_size = word_of_nat (length buffer), bw_offset = 0\<rparr>"

definition store_at :: "bytes \<Rightarrow> nat \<Rightarrow> bytes \<Rightarrow> bytes option" where
  "store_at buffer offset bs =
     (if offset + length bs \<le> length buffer
      then Some (take offset buffer @ bs @ drop (offset + length bs) buffer) else None)"

definition WritePrimitive :: "host \<Rightarrow> nat \<Rightarrow> nat \<Rightarrow> buffer_writer \<Rightarrow> (exa_error + buffer_writer) option" where
  "WritePrimitive ho k v w =
     (if bw_offset w + word_of_nat k > bw_size w then Some (Inl (Throw_Stream ''Buffer overflow''))
      else if \<not> ho_access ho k (bw_start w + bw_offset w) then None
      else map_option (\<lambda>buffer. Inr (w\<lparr>bw_buffer := buffer, bw_offset := bw_offset w + word_of_nat k\<rparr>))
             (store_at (bw_buffer w) (unat (bw_offset w)) (ho_encode ho k v)))"

definition CopyFrom :: "bytes \<Rightarrow> buffer_writer \<Rightarrow> (exa_error + buffer_writer) option" where
  "CopyFrom data w =
     (if bw_offset w + word_of_nat (length data) > bw_size w then Some (Inl (Throw_Stream ''Buffer overflow''))
      else map_option (\<lambda>buffer. Inr (w\<lparr>bw_buffer := buffer, bw_offset := bw_offset w + word_of_nat (length data)\<rparr>))
             (store_at (bw_buffer w) (unat (bw_offset w)) data))"

definition GetBuffer :: "buffer_writer \<Rightarrow> bytes" where "GetBuffer w = bw_buffer w"

definition EndReached :: "buffer_writer \<Rightarrow> bool" where "EndReached w \<longleftrightarrow> bw_offset w = bw_size w"

section \<open>BufferToHex\<close>

definition hex_digit :: "nat \<Rightarrow> char" where
  "hex_digit d = (''0123456789abcdef'' ! d)"

definition hex2 :: "8 word \<Rightarrow> string" where
  "hex2 b = [hex_digit (unat b div 16), hex_digit (unat b mod 16)]"

definition BufferToHex :: "bytes \<Rightarrow> string" where
  "BufferToHex bs = concat (map (\<lambda>b. hex2 b @ '' '') bs)"

lemma length_BufferToHex [simp]: "length (BufferToHex bs) = 3 * length bs"
  by (induction bs) (simp_all add: BufferToHex_def hex2_def)

section \<open>A sequence of fields\<close>

datatype field = Primitive nat nat | Text bytes

fun field_size :: "field \<Rightarrow> nat" where
  "field_size (Primitive k v) = k"
| "field_size (Text s) = length s"

fun field_ok :: "field \<Rightarrow> bool" where
  "field_ok (Primitive k v) \<longleftrightarrow> v < 256 ^ k"
| "field_ok (Text s) \<longleftrightarrow> True"

fun field_bytes :: "host \<Rightarrow> field \<Rightarrow> bytes" where
  "field_bytes ho (Primitive k v) = ho_encode ho k v"
| "field_bytes ho (Text s) = s"

text \<open>The host allows the access to a field at an address.\<close>

fun field_allowed :: "host \<Rightarrow> u64 \<Rightarrow> field \<Rightarrow> bool" where
  "field_allowed ho address (Primitive k v) \<longleftrightarrow> ho_access ho k address"
| "field_allowed ho address (Text s) \<longleftrightarrow> True"

fun write_field :: "host \<Rightarrow> field \<Rightarrow> buffer_writer \<Rightarrow> (exa_error + buffer_writer) option" where
  "write_field ho (Primitive k v) w = WritePrimitive ho k v w"
| "write_field ho (Text s) w = CopyFrom s w"

fun read_field :: "host \<Rightarrow> field \<Rightarrow> buffer_reader \<Rightarrow> (exa_error + (field \<times> buffer_reader)) option" where
  "read_field ho (Primitive k _) r = map_option (map_sum id (\<lambda>(v, r). (Primitive k v, r))) (NextPrimitive ho k r)"
| "read_field ho (Text s) r = map_option (map_sum id (\<lambda>(bs, r). (Text bs, r))) (PullString (word_of_nat (length s)) r)"

fun write_fields :: "host \<Rightarrow> field list \<Rightarrow> buffer_writer \<Rightarrow> (exa_error + buffer_writer) option" where
  "write_fields ho [] w = Some (Inr w)"
| "write_fields ho (f # fs) w =
     (case write_field ho f w of Some (Inr w') \<Rightarrow> write_fields ho fs w' | Some (Inl e) \<Rightarrow> Some (Inl e) | None \<Rightarrow> None)"

text \<open>Reading the fields of the given shapes.\<close>

fun read_fields :: "host \<Rightarrow> field list \<Rightarrow> buffer_reader \<Rightarrow> (exa_error + (field list \<times> buffer_reader)) option" where
  "read_fields ho [] r = Some (Inr ([], r))"
| "read_fields ho (f # fs) r =
     (case read_field ho f r of
        Some (Inr (f', r')) \<Rightarrow> map_option (map_sum id (\<lambda>(fs', r). (f' # fs', r))) (read_fields ho fs r')
      | Some (Inl e) \<Rightarrow> Some (Inl e) | None \<Rightarrow> None)"

text \<open>Every field that lies from an address on, one after the other, may be accessed there.\<close>

fun placed :: "host \<Rightarrow> u64 \<Rightarrow> field list \<Rightarrow> bool" where
  "placed ho address [] \<longleftrightarrow> True"
| "placed ho address (f # fs) \<longleftrightarrow> field_allowed ho address f \<and> placed ho (address + word_of_nat (field_size f)) fs"

lemma placed_little_endian: "placed little_endian address fs"
proof (induction fs arbitrary: address)
  case (Cons f fs)
  then show ?case by (cases f) (simp_all add: little_endian_def)
qed simp

section \<open>Cursors in bounds\<close>

definition writer_at :: "u64 \<Rightarrow> nat \<Rightarrow> bytes \<Rightarrow> buffer_writer \<Rightarrow> bool" where
  "writer_at start pos buffer w \<longleftrightarrow> bw_buffer w = buffer \<and> bw_start w = start \<and> unat (bw_size w) = length buffer
     \<and> unat (bw_offset w) = pos \<and> pos \<le> length buffer \<and> length buffer < 2 ^ 63"

definition reader_at :: "u64 \<Rightarrow> nat \<Rightarrow> bytes \<Rightarrow> buffer_reader \<Rightarrow> bool" where
  "reader_at start pos buffer r \<longleftrightarrow> br_buffer r = buffer \<and> br_start r = start \<and> unat (br_size r) = length buffer
     \<and> unat (br_offset r) = pos \<and> pos \<le> length buffer \<and> length buffer < 2 ^ 63"

lemma writer_address: "writer_at start pos buffer w \<Longrightarrow> bw_start w + bw_offset w = start + word_of_nat pos"
  and reader_address: "reader_at start pos buffer r \<Longrightarrow> br_start r + br_offset r = start + word_of_nat pos"
  by (auto simp: writer_at_def reader_at_def)

lemma unat_add_small:
  fixes a :: u64
  assumes "unat a + n < 2 ^ 64"
  shows "unat (a + word_of_nat n) = unat a + n"
proof -
  have "unat (word_of_nat n :: u64) = n" using assms by (simp add: unsigned_of_nat take_bit_nat_eq_self)
  then show ?thesis using assms by (simp add: unat_word_ariths)
qed

lemma length_field_bytes: "host_ok ho \<Longrightarrow> length (field_bytes ho f) = field_size f"
  by (cases f) (simp_all add: host_okD)

lemma write_field_spec:
  assumes ho: "host_ok ho" and w: "writer_at start pos buffer w" and small: "field_size f < 2 ^ 63"
  shows "field_size f \<le> length buffer - pos \<Longrightarrow> field_allowed ho (start + word_of_nat pos) f \<Longrightarrow>
      \<exists>w'. write_field ho f w = Some (Inr w')
        \<and> writer_at start (pos + field_size f) (take pos buffer @ field_bytes ho f @ drop (pos + field_size f) buffer) w'"
    and "field_size f \<le> length buffer - pos \<Longrightarrow> \<not> field_allowed ho (start + word_of_nat pos) f \<Longrightarrow> write_field ho f w = None"
    and "length buffer - pos < field_size f \<Longrightarrow> write_field ho f w = Some (Inl (Throw_Stream ''Buffer overflow''))"
proof -
  have "unat (bw_offset w) + field_size f < 2 ^ 64" using w small by (simp add: writer_at_def)
  then have sum: "unat (bw_offset w + word_of_nat (field_size f)) = pos + field_size f"
    using unat_add_small w by (simp add: writer_at_def)
  have cmp: "bw_offset w + word_of_nat (field_size f) > bw_size w \<longleftrightarrow> length buffer - pos < field_size f"
    using w sum by (auto simp: word_less_nat_alt writer_at_def)
  note len = length_field_bytes [OF ho, of f] and address = writer_address [OF w]
  show "\<exists>w'. write_field ho f w = Some (Inr w')
        \<and> writer_at start (pos + field_size f) (take pos buffer @ field_bytes ho f @ drop (pos + field_size f) buffer) w'"
    if "field_size f \<le> length buffer - pos" "field_allowed ho (start + word_of_nat pos) f"
    using that w sum cmp len address
    by (cases f) (auto simp: WritePrimitive_def CopyFrom_def store_at_def writer_at_def)
  show "write_field ho f w = None" if "field_size f \<le> length buffer - pos" "\<not> field_allowed ho (start + word_of_nat pos) f"
    using that cmp address by (cases f) (auto simp: WritePrimitive_def)
  show "write_field ho f w = Some (Inl (Throw_Stream ''Buffer overflow''))" if "length buffer - pos < field_size f"
    using that cmp by (cases f) (auto simp: WritePrimitive_def CopyFrom_def)
qed

lemma read_field_spec:
  assumes ho: "host_ok ho" and r: "reader_at start pos buffer r" and f: "field_ok f"
    and here: "take (field_size f) (drop pos buffer) = field_bytes ho f" "pos + field_size f \<le> length buffer"
    and allowed: "field_allowed ho (start + word_of_nat pos) f"
  shows "\<exists>r'. read_field ho f r = Some (Inr (f, r')) \<and> reader_at start (pos + field_size f) buffer r'"
proof -
  have small: "field_size f < 2 ^ 63" using r here(2) by (simp add: reader_at_def)
  have "unat (br_offset r) + field_size f < 2 ^ 64" using r here(2) by (simp add: reader_at_def)
  then have sum: "unat (br_offset r + word_of_nat (field_size f)) = pos + field_size f"
    using unat_add_small r by (simp add: reader_at_def)
  have cmp: "\<not> br_offset r + word_of_nat (field_size f) > br_size r"
    using r sum here(2) by (auto simp: word_less_nat_alt reader_at_def)
  have len: "unat (word_of_nat (field_size f) :: u64) = field_size f"
    using small by (simp add: unsigned_of_nat take_bit_nat_eq_self)
  show ?thesis
    using r f here sum cmp len small allowed reader_address [OF r]
    by (cases f) (auto simp: NextPrimitive_def PullString_def bytes_at_def reader_at_def host_okD [OF ho])
qed

lemma PullString_defined:
  assumes "reader_at start pos buffer r"
  shows "PullString n r \<noteq> None"
proof (cases "br_offset r + n > br_size r \<or> unat n \<ge> 2 ^ 63")
  case False
  then have "unat (br_offset r) + unat n < 2 ^ 64" using assms by (simp add: reader_at_def not_le)
  then have "unat (br_offset r + n) = unat (br_offset r) + unat n"
    using unat_add_small [of "br_offset r" "unat n"] by simp
  then show ?thesis using False assms by (auto simp: PullString_def bytes_at_def reader_at_def word_less_nat_alt not_less)
qed (auto simp: PullString_def)

definition total_size :: "field list \<Rightarrow> nat" where
  "total_size fs = sum_list (map field_size fs)"

definition all_bytes :: "host \<Rightarrow> field list \<Rightarrow> bytes" where
  "all_bytes ho fs = concat (map (field_bytes ho) fs)"

lemma total_size_simps [simp]: "total_size [] = 0" "total_size (f # fs) = field_size f + total_size fs"
  and all_bytes_simps [simp]: "all_bytes ho [] = []" "all_bytes ho (f # fs) = field_bytes ho f @ all_bytes ho fs"
  by (simp_all add: total_size_def all_bytes_def)

lemma length_all_bytes: "host_ok ho \<Longrightarrow> length (all_bytes ho fs) = total_size fs"
  by (induction fs) (simp_all add: length_field_bytes)

text \<open>Fields that fit are written, unless one of them lies where the host does not allow it.\<close>

lemma write_fields_spec:
  assumes ho: "host_ok ho" and "writer_at start pos buffer w" "total_size fs \<le> length buffer - pos"
  shows "if placed ho (start + word_of_nat pos) fs
    then \<exists>w'. write_fields ho fs w = Some (Inr w')
      \<and> writer_at start (pos + total_size fs) (take pos buffer @ all_bytes ho fs @ drop (pos + total_size fs) buffer) w'
    else write_fields ho fs w = None"
  using assms(2,3)
proof (induction fs arbitrary: pos buffer w)
  case (Cons f fs)
  have pos: "pos \<le> length buffer" "length buffer < 2 ^ 63" using Cons.prems(1) by (simp_all add: writer_at_def)
  let ?buffer = "take pos buffer @ field_bytes ho f @ drop (pos + field_size f) buffer"
  have small: "field_size f < 2 ^ 63" "field_size f \<le> length buffer - pos" using Cons.prems(2) pos by simp_all
  show ?case
  proof (cases "field_allowed ho (start + word_of_nat pos) f")
    case True
    obtain w1 where w1: "write_field ho f w = Some (Inr w1)" "writer_at start (pos + field_size f) ?buffer w1"
      using write_field_spec(1) [OF ho Cons.prems(1) small True] by blast
    have "total_size fs \<le> length ?buffer - (pos + field_size f)"
      using Cons.prems(2) pos by (simp add: length_field_bytes [OF ho])
    from Cons.IH [OF w1(2) this] w1(1) pos small(2) Cons.prems(2) True show ?thesis
      by (auto simp: add_ac length_field_bytes [OF ho])
  next
    case False
    then show ?thesis using write_field_spec(2) [OF ho Cons.prems(1) small] by simp
  qed
qed (simp add: writer_at_def)

lemma write_fields_overflow:
  assumes ho: "host_ok ho" and "writer_at start pos buffer w" "length buffer - pos < total_size fs"
    and "\<forall>f \<in> set fs. field_size f < 2 ^ 63" "placed ho (start + word_of_nat pos) fs"
  shows "write_fields ho fs w = Some (Inl (Throw_Stream ''Buffer overflow''))"
  using assms(2-)
proof (induction fs arbitrary: pos buffer w)
  case (Cons f fs)
  have small: "field_size f < 2 ^ 63" using Cons.prems(3) by simp
  show ?case
  proof (cases "field_size f \<le> length buffer - pos")
    case True
    let ?buffer = "take pos buffer @ field_bytes ho f @ drop (pos + field_size f) buffer"
    have allowed: "field_allowed ho (start + word_of_nat pos) f" using Cons.prems(4) by simp
    obtain w1 where w1: "write_field ho f w = Some (Inr w1)" "writer_at start (pos + field_size f) ?buffer w1"
      using write_field_spec(1) [OF ho Cons.prems(1) small True allowed] by blast
    have "pos \<le> length buffer" using Cons.prems(1) by (simp add: writer_at_def)
    then have "length ?buffer - (pos + field_size f) < total_size fs"
      using Cons.prems(2) True by (simp add: length_field_bytes [OF ho])
    from Cons.IH [OF w1(2) this] w1(1) Cons.prems(3,4) show ?thesis by (simp add: add_ac)
  next
    case False
    then show ?thesis using write_field_spec(3) [OF ho Cons.prems(1) small] by simp
  qed
qed simp

lemma read_fields_spec:
  assumes ho: "host_ok ho" and "reader_at start pos buffer r" "\<forall>f \<in> set fs. field_ok f"
    and "pos + total_size fs \<le> length buffer" "take (total_size fs) (drop pos buffer) = all_bytes ho fs"
    and "placed ho (start + word_of_nat pos) fs"
  shows "\<exists>r'. read_fields ho fs r = Some (Inr (fs, r')) \<and> reader_at start (pos + total_size fs) buffer r'"
  using assms(2-)
proof (induction fs arbitrary: pos r)
  case (Cons f fs)
  have "take (field_size f) (drop pos buffer) = field_bytes ho f"
      "take (total_size fs) (drop (pos + field_size f) buffer) = all_bytes ho fs"
    using Cons.prems(3,4) by (simp_all add: take_add append_eq_append_conv add.commute length_field_bytes [OF ho])
  moreover from this obtain r1 where "read_field ho f r = Some (Inr (f, r1))" "reader_at start (pos + field_size f) buffer r1"
    using read_field_spec [OF ho Cons.prems(1), of f] Cons.prems(2,3,5) by auto
  ultimately show ?case using Cons.IH [of "pos + field_size f" r1] Cons.prems(2,3,5) by (auto simp: add_ac)
qed simp

section \<open>Properties\<close>

text \<open>
  A primitive that lies at an address the host does not allow: nothing in the code keeps the
  cursor aligned, so that on a host with aligned accesses only, a number written after a string
  of odd length is undefined behaviour.
\<close>

lemma misaligned_write_is_undefined:
  assumes "host_ok ho" "length buffer < 2 ^ 63" "total_size fs \<le> length buffer" "\<not> placed ho start fs"
  shows "write_fields ho fs (BufferWriter_new start buffer) = None"
proof -
  have "writer_at start 0 buffer (BufferWriter_new start buffer)"
    using assms(2) by (simp add: writer_at_def BufferWriter_new_def unsigned_of_nat take_bit_nat_eq_self)
  from write_fields_spec [OF assms(1) this, of fs] assms(3,4) show ?thesis by simp
qed

lemma number_after_odd_string_is_undefined:
  "write_fields big_endian_aligned [Text [7], Primitive 4 513] (BufferWriter_new 4096 (replicate 8 0)) = None"
  by (rule misaligned_write_is_undefined [OF host_ok_big_endian])
    (simp_all add: total_size_def big_endian_aligned_def del: placed.simps(1))

text \<open>
  C27: what is written is read back, and nothing leaves the buffer. On any host, fields written
  one after the other into a buffer of fewer than two to the 63 bytes that can hold them are
  read back unchanged, from the same buffer wherever it is then, the end is reached when they
  fill it exactly, and no length of a string to read next, not even one that makes the bound
  check wrap, reads outside the buffer; fields that do not fit are refused. Where the buffer
  lies, the host must allow the access to each number; a host that allows every address always
  does.
\<close>

theorem written_fields_read_back:
  assumes "host_ok ho" "length buffer < 2 ^ 63" "\<forall>f \<in> set fs. field_ok f \<and> field_size f < 2 ^ 63"
    and "placed ho start fs" "placed ho start' fs"
  shows "if total_size fs \<le> length buffer
    then \<exists>w r. write_fields ho fs (BufferWriter_new start buffer) = Some (Inr w)
      \<and> GetBuffer w = all_bytes ho fs @ drop (total_size fs) buffer
      \<and> (EndReached w \<longleftrightarrow> total_size fs = length buffer)
      \<and> read_fields ho fs (BufferReader_new start' (GetBuffer w)) = Some (Inr (fs, r))
      \<and> unat (RemainingSize r) = length buffer - total_size fs
      \<and> ToInputMemoryStream r = Some (drop (total_size fs) buffer) \<and> (\<forall>n. PullString n r \<noteq> None)
    else write_fields ho fs (BufferWriter_new start buffer) = Some (Inl (Throw_Stream ''Buffer overflow''))"
proof -
  have len: "unat (word_of_nat (length buffer) :: u64) = length buffer"
    using assms(2) by (simp add: unsigned_of_nat take_bit_nat_eq_self)
  then have w0: "writer_at start 0 buffer (BufferWriter_new start buffer)"
    using assms(2) by (simp add: writer_at_def BufferWriter_new_def)
  show ?thesis
  proof (cases "total_size fs \<le> length buffer")
    case True
    define out where "out = all_bytes ho fs @ drop (total_size fs) buffer"
    have out: "length out = length buffer" using True by (simp add: out_def length_all_bytes [OF assms(1)])
    obtain w where w: "write_fields ho fs (BufferWriter_new start buffer) = Some (Inr w)" "writer_at start (total_size fs) out w"
      using write_fields_spec [OF assms(1) w0, of fs] assms(4) True by (auto simp: out_def)
    have "reader_at start' 0 out (BufferReader_new start' out)"
      using len assms(2) by (simp add: reader_at_def BufferReader_new_def out)
    moreover have "take (total_size fs) (drop 0 out) = all_bytes ho fs" by (simp add: out_def length_all_bytes [OF assms(1)])
    ultimately obtain r where r: "read_fields ho fs (BufferReader_new start' out) = Some (Inr (fs, r))"
        "reader_at start' (total_size fs) out r"
      using read_fields_spec [OF assms(1), of start' 0 out "BufferReader_new start' out" fs] assms(3,5) True
      by (auto simp: out)
    have rest: "unat (RemainingSize r) = length buffer - total_size fs"
      using r(2) True by (simp add: reader_at_def RemainingSize_def unat_sub word_le_nat_alt out)
    have "ToInputMemoryStream r = Some (drop (total_size fs) buffer)"
      using r(2) True rest by (simp add: ToInputMemoryStream_def bytes_at_def reader_at_def out)
        (simp add: out_def length_all_bytes [OF assms(1)])
    moreover have "EndReached w \<longleftrightarrow> total_size fs = length buffer"
      using w(2) by (simp add: EndReached_def writer_at_def out word_unat_eq_iff)
    moreover have "GetBuffer w = out" using w(2) by (simp add: GetBuffer_def writer_at_def)
    ultimately show ?thesis
      using True w(1) r(1) rest PullString_defined [OF r(2)] by (simp add: out_def)
  next
    case False
    then show ?thesis using write_fields_overflow [OF assms(1) w0, of fs] assms(3,4) by simp
  qed
qed

theorem written_fields_read_back_witness:
  "\<exists>w r. write_fields big_endian_aligned [Primitive 4 513, Text [7, 8]] (BufferWriter_new 4096 (replicate 6 0)) = Some (Inr w)
     \<and> EndReached w \<and> read_fields big_endian_aligned [Primitive 4 513, Text [7, 8]] (BufferReader_new 8 (GetBuffer w))
         = Some (Inr ([Primitive 4 513, Text [7, 8]], r))"
proof -
  have "placed big_endian_aligned a [Primitive 4 513, Text [7, 8]]" if "a = 4096 \<or> a = 8" for a
    using that by (auto simp: big_endian_aligned_def)
  then show ?thesis
    using written_fields_read_back [OF host_ok_big_endian, of "replicate 6 0" "[Primitive 4 513, Text [7, 8]]" 4096 8]
    by (auto simp: total_size_def simp del: write_fields.simps read_fields.simps)
qed

end
