(* ===== verification/Light_Semaphore.thy ===== *)
theory Light_Semaphore
  imports Exa_Prelude
begin

text \<open>
  \<open>LightweightSemaphore\<close> of \<open>moody_camel_queue/lightweightsemaphore.h\<close>, on which the workers of
  the weak-priority pool wait: a counter that goes below zero by the number of threads that
  wait, in front of a semaphore of the operating system. Every atomic access is a step, and
  any number of calls are in progress. The operating system's semaphore is its count: a wait
  takes one, a timed wait may also time out whenever it likes, a post adds one.

  The counter is an unbounded integer: it stays within \<open>ssize_t\<close> as long as fewer than two to
  the 63 units are signalled. \<open>signal\<close> casts the number of threads to release to \<open>int\<close>; calls
  are started only while fewer than two to the 31 are in progress.
\<close>

section \<open>The semaphore of the operating system\<close>

text \<open>
  \<open>details::Semaphore\<close> over POSIX. A wait is repeated while the system call answers \<open>EINTR\<close>;
  the answers it gets are a list, and \<open>None\<close> is a wait that is still in progress after them.
\<close>

datatype sys_answer = Sys_Ok | Sys_Eintr | Sys_Fail

fun posix_wait :: "sys_answer list \<Rightarrow> bool option" where
  "posix_wait [] = None"
| "posix_wait (Sys_Eintr # answers) = posix_wait answers"
| "posix_wait (Sys_Ok # answers) = Some True"
| "posix_wait (Sys_Fail # answers) = Some False"

text \<open>The absolute deadline of \<open>timed_wait\<close> from the clock's seconds and nanoseconds.\<close>

definition posix_deadline :: "nat \<Rightarrow> nat \<Rightarrow> nat \<Rightarrow> nat \<times> nat" where
  "posix_deadline tv_sec tv_nsec usecs =
     (let sec = tv_sec + usecs div 1000000; nsec = tv_nsec + usecs mod 1000000 * 1000 in
      if nsec \<ge> 1000000000 then (sec + 1, nsec - 1000000000) else (sec, nsec))"

lemma posix_wait_retries [simp]: "posix_wait (replicate k Sys_Eintr @ answers) = posix_wait answers"
  by (induction k) simp_all

lemma posix_deadline_exact:
  assumes "tv_nsec < 1000000000" "posix_deadline tv_sec tv_nsec usecs = (sec, nsec)"
  shows "nsec < 1000000000" "sec * 1000000000 + nsec = tv_sec * 1000000000 + tv_nsec + usecs * 1000"
proof -
  have "a * 1000000000 + b * 1000 = (a * 1000000 + b) * 1000" for a b :: nat by simp
  then have "usecs div 1000000 * 1000000000 + usecs mod 1000000 * 1000 = usecs * 1000" by (simp only: div_mult_mod_eq)
  moreover have "usecs mod 1000000 < 1000000" by simp
  ultimately show "nsec < 1000000000" "sec * 1000000000 + nsec = tv_sec * 1000000000 + tv_nsec + usecs * 1000"
    using assms by (auto simp: posix_deadline_def Let_def split: if_splits)
qed

section \<open>Calls\<close>

text \<open>\<open>Wait timeout\<close> and \<open>Wait_Many max timeout\<close> with the timeout in microseconds, negative for ever.\<close>

datatype ls_call = Try_Wait | Wait int | Try_Wait_Many int | Wait_Many int int

fun call_new_count :: "ls_call \<Rightarrow> int \<Rightarrow> int" where
  "call_new_count (Try_Wait_Many max_n) old = (if old > max_n then old - max_n else 0)"
| "call_new_count (Wait_Many max_n _) old = (if old > max_n then old - max_n else 0)"
| "call_new_count _ old = old - 1"

text \<open>Whether a call goes on when the count is used up, and how long it may then block.\<close>

fun call_blocks :: "ls_call \<Rightarrow> bool" where
  "call_blocks (Wait _) \<longleftrightarrow> True"
| "call_blocks (Wait_Many max_n _) \<longleftrightarrow> max_n > 0"
| "call_blocks _ \<longleftrightarrow> False"

fun call_timeout :: "ls_call \<Rightarrow> int" where
  "call_timeout (Wait timeout) = timeout"
| "call_timeout (Wait_Many _ timeout) = timeout"
| "call_timeout _ = 0"

fun call_ok :: "ls_call \<Rightarrow> bool" where
  "call_ok (Try_Wait_Many max_n) \<longleftrightarrow> max_n \<ge> 0"
| "call_ok (Wait_Many max_n _) \<longleftrightarrow> max_n \<ge> 0"
| "call_ok _ \<longleftrightarrow> True"

text \<open>Where a call is; values are what it has read of the count.\<close>

datatype ls_act =
    Try_Load ls_call | Try_Cas ls_call int
  | Spin ls_call nat | Spin_Cas ls_call nat int
  | Sub ls_call | Block ls_call
  | Adjust_Load ls_call | Adjust_Try ls_call | Adjust_Cas ls_call int
  | Tail_Load int | Tail_Cas int int
  | Signal nat | Post nat

text \<open>
  After one unit from the slow path: \<open>wait\<close> returns, \<open>waitMany\<close> tries to get \<open>max - 1\<close> more.
  The result is where the call goes on, and what it returns when it does not.
\<close>

fun acquired_one :: "ls_call \<Rightarrow> ls_act option \<times> nat" where
  "acquired_one (Wait_Many max_n _) = (if max_n > 1 then (Some (Tail_Load (max_n - 1)), 0) else (None, 1))"
| "acquired_one _ = (None, 1)"

definition cast_int :: "int \<Rightarrow> int" where
  "cast_int x = sint (word_of_int x :: 32 word)"

definition to_release :: "int \<Rightarrow> nat \<Rightarrow> int" where
  "to_release old n = (if - old < int n then - old else int n)"

section \<open>Steps\<close>

record lsem =
  ls_count :: int
  ls_sema :: nat
  ls_signalled :: nat

definition lsem_new :: "nat \<Rightarrow> lsem" where
  "lsem_new initial_count = \<lparr>ls_count = int initial_count, ls_sema = 0, ls_signalled = 0\<rparr>"

definition availableApprox :: "lsem \<Rightarrow> nat" where
  "availableApprox s = (if ls_count s > 0 then nat (ls_count s) else 0)"

text \<open>
  One atomic access of a call: the semaphore after it, where the call is then (\<open>None\<close> it has
  returned) and what it returned. \<open>spins\<close> is \<open>m_maxSpins\<close>.
\<close>

inductive ls_advance :: "nat \<Rightarrow> lsem \<Rightarrow> ls_act \<Rightarrow> lsem \<Rightarrow> ls_act option \<Rightarrow> nat \<Rightarrow> bool" for spins s where
  try_load: "ls_advance spins s (Try_Load c) s (Some (Try_Cas c (ls_count s))) 0"
| try_none: "old \<le> 0 \<Longrightarrow> ls_advance spins s (Try_Cas c old) s (if call_blocks c then Some (Spin c spins) else None) 0"
| try_take: "old > 0 \<Longrightarrow> ls_count s = old \<Longrightarrow>
    ls_advance spins s (Try_Cas c old) (s\<lparr>ls_count := call_new_count c old\<rparr>) None (nat (old - call_new_count c old))"
| try_again: "old > 0 \<Longrightarrow> ls_advance spins s (Try_Cas c old) s (Some (Try_Cas c (ls_count s))) 0"
| spin_end: "ls_advance spins s (Spin c 0) s (Some (Sub c)) 0"
| spin_load: "ls_advance spins s (Spin c (Suc n)) s
    (Some (if ls_count s > 0 then Spin_Cas c n (ls_count s) else Spin c n)) 0"
| spin_take: "old > 0 \<Longrightarrow> ls_count s = old \<Longrightarrow>
    ls_advance spins s (Spin_Cas c n old) (s\<lparr>ls_count := call_new_count c old\<rparr>) None (nat (old - call_new_count c old))"
| spin_again: "ls_count s \<noteq> old \<Longrightarrow> ls_advance spins s (Spin_Cas c n old) s (Some (Spin c n)) 0"
| sub_take: "ls_count s > 0 \<Longrightarrow> acquired_one c = (nxt, r) \<Longrightarrow>
    ls_advance spins s (Sub c) (s\<lparr>ls_count := ls_count s - 1\<rparr>) nxt r"
| sub_wait: "ls_count s \<le> 0 \<Longrightarrow> ls_advance spins s (Sub c) (s\<lparr>ls_count := ls_count s - 1\<rparr>) (Some (Block c)) 0"
| block_woken: "call_timeout c \<noteq> 0 \<Longrightarrow> ls_sema s > 0 \<Longrightarrow> acquired_one c = (nxt, r) \<Longrightarrow>
    ls_advance spins s (Block c) (s\<lparr>ls_sema := ls_sema s - 1\<rparr>) nxt r"
| block_timeout: "call_timeout c \<ge> 0 \<Longrightarrow> ls_advance spins s (Block c) s (Some (Adjust_Load c)) 0"
| adjust_load: "ls_advance spins s (Adjust_Load c) s
    (Some (if ls_count s \<ge> 0 then Adjust_Try c else Adjust_Cas c (ls_count s))) 0"
| adjust_got: "ls_sema s > 0 \<Longrightarrow> acquired_one c = (nxt, r) \<Longrightarrow>
    ls_advance spins s (Adjust_Try c) (s\<lparr>ls_sema := ls_sema s - 1\<rparr>) nxt r"
| adjust_none: "ls_sema s = 0 \<Longrightarrow> ls_advance spins s (Adjust_Try c) s (Some (Adjust_Load c)) 0"
| adjust_back: "old < 0 \<Longrightarrow> ls_count s = old \<Longrightarrow>
    ls_advance spins s (Adjust_Cas c old) (s\<lparr>ls_count := old + 1\<rparr>) None 0"
| adjust_again: "ls_count s \<noteq> old \<Longrightarrow> ls_advance spins s (Adjust_Cas c old) s (Some (Adjust_Load c)) 0"
| tail_load: "ls_advance spins s (Tail_Load m) s (Some (Tail_Cas m (ls_count s))) 0"
| tail_none: "old \<le> 0 \<Longrightarrow> ls_advance spins s (Tail_Cas m old) s None 1"
| tail_take: "old > 0 \<Longrightarrow> ls_count s = old \<Longrightarrow>
    ls_advance spins s (Tail_Cas m old) (s\<lparr>ls_count := call_new_count (Try_Wait_Many m) old\<rparr>) None
      (1 + nat (old - call_new_count (Try_Wait_Many m) old))"
| tail_again: "old > 0 \<Longrightarrow> ls_advance spins s (Tail_Cas m old) s (Some (Tail_Cas m (ls_count s))) 0"
| signal: "posts = cast_int (to_release (ls_count s) n) \<Longrightarrow>
    ls_advance spins s (Signal n) (s\<lparr>ls_count := ls_count s + int n, ls_signalled := ls_signalled s + n\<rparr>)
      (if to_release (ls_count s) n > 0 \<and> posts > 0 then Some (Post (nat posts)) else None) 0"
| post: "0 < n \<Longrightarrow> ls_advance spins s (Post n) (s\<lparr>ls_sema := ls_sema s + 1\<rparr>)
    (if n = 1 then None else Some (Post (n - 1))) 0"

text \<open>The calls in progress, and how many units the calls that returned have reported.\<close>

record ls_run =
  lr_sem :: lsem
  lr_acts :: "ls_act multiset"
  lr_returned :: nat

fun ls_entry :: "ls_act \<Rightarrow> bool" where
  "ls_entry (Try_Load c) \<longleftrightarrow> call_ok c"
| "ls_entry (Signal n) \<longleftrightarrow> True"
| "ls_entry _ \<longleftrightarrow> False"

inductive ls_step :: "nat \<Rightarrow> ls_run \<Rightarrow> ls_run \<Rightarrow> bool" for spins where
  call: "ls_entry a \<Longrightarrow> size (lr_acts x) < 2 ^ 31 - 1 \<Longrightarrow> ls_step spins x (x\<lparr>lr_acts := add_mset a (lr_acts x)\<rparr>)"
| move: "lr_acts x = add_mset a A \<Longrightarrow> ls_advance spins (lr_sem x) a s nxt r \<Longrightarrow>
    ls_step spins x \<lparr>lr_sem = s, lr_acts = opt_mset nxt + A, lr_returned = lr_returned x + r\<rparr>"

inductive ls_reach :: "nat \<Rightarrow> nat \<Rightarrow> ls_run \<Rightarrow> bool" for spins initial where
  start: "ls_reach spins initial \<lparr>lr_sem = lsem_new initial, lr_acts = {#}, lr_returned = 0\<rparr>"
| step: "ls_reach spins initial x \<Longrightarrow> ls_step spins x y \<Longrightarrow> ls_reach spins initial y"

section \<open>The invariant\<close>

text \<open>
  What a call contributes: it waits (it has decremented the count and not been released), it
  has posts to make, or it holds a unit it has not returned yet.
\<close>

fun act_waits :: "ls_act \<Rightarrow> int" where
  "act_waits (Block _) = 1"
| "act_waits (Adjust_Load _) = 1"
| "act_waits (Adjust_Try _) = 1"
| "act_waits (Adjust_Cas _ _) = 1"
| "act_waits _ = 0"

fun act_posts :: "ls_act \<Rightarrow> int" where
  "act_posts (Post n) = int n"
| "act_posts _ = 0"

fun act_holds :: "ls_act \<Rightarrow> int" where
  "act_holds (Tail_Load _) = 1"
| "act_holds (Tail_Cas _ _) = 1"
| "act_holds _ = 0"

fun act_ok :: "ls_act \<Rightarrow> bool" where
  "act_ok (Try_Load c) \<longleftrightarrow> call_ok c"
| "act_ok (Try_Cas c _) \<longleftrightarrow> call_ok c"
| "act_ok (Spin c _) \<longleftrightarrow> call_ok c"
| "act_ok (Spin_Cas c _ old) \<longleftrightarrow> call_ok c \<and> old > 0"
| "act_ok (Sub c) \<longleftrightarrow> call_ok c"
| "act_ok (Block c) \<longleftrightarrow> call_ok c"
| "act_ok (Adjust_Load c) \<longleftrightarrow> call_ok c"
| "act_ok (Adjust_Try c) \<longleftrightarrow> call_ok c"
| "act_ok (Adjust_Cas c old) \<longleftrightarrow> call_ok c \<and> old < 0"
| "act_ok (Tail_Load m) \<longleftrightarrow> m > 0"
| "act_ok (Tail_Cas m _) \<longleftrightarrow> m > 0"
| "act_ok (Signal n) \<longleftrightarrow> True"
| "act_ok (Post n) \<longleftrightarrow> n > 0"

definition sum_acts :: "(ls_act \<Rightarrow> int) \<Rightarrow> ls_act multiset \<Rightarrow> int" where
  "sum_acts f A = (\<Sum>a \<in># A. f a)"

lemma sum_acts_simps [simp]: "sum_acts f {#} = 0" "sum_acts f (add_mset a A) = f a + sum_acts f A" "sum_acts f (A + B) = sum_acts f A + sum_acts f B"
  by (simp_all add: sum_acts_def)

definition units_available :: "ls_run \<Rightarrow> int" where
  "units_available x = max 0 (ls_count (lr_sem x)) + int (ls_sema (lr_sem x)) + sum_acts act_posts (lr_acts x)"

definition ls_inv :: "nat \<Rightarrow> ls_run \<Rightarrow> bool" where
  "ls_inv initial x \<longleftrightarrow>
     sum_acts act_waits (lr_acts x) = int (ls_sema (lr_sem x)) + sum_acts act_posts (lr_acts x) + max 0 (- ls_count (lr_sem x))
     \<and> int initial + int (ls_signalled (lr_sem x)) = int (lr_returned x) + sum_acts act_holds (lr_acts x) + units_available x
     \<and> (\<forall>a \<in># lr_acts x. act_ok a) \<and> size (lr_acts x) < 2 ^ 31"

lemma call_new_count_range: "call_ok c \<Longrightarrow> 0 < old \<Longrightarrow> 0 \<le> call_new_count c old \<and> call_new_count c old \<le> old"
  by (cases c) auto

lemma acquired_one_units:
  "acquired_one c = (nxt, r) \<Longrightarrow> call_ok c \<Longrightarrow> sum_acts act_holds (opt_mset nxt) + int r = 1 \<and> sum_acts act_waits (opt_mset nxt) = 0
     \<and> sum_acts act_posts (opt_mset nxt) = 0 \<and> (\<forall>a \<in># opt_mset nxt. act_ok a)"
  by (cases c) (auto split: if_splits)

lemma size_opt_mset: "size (opt_mset nxt) \<le> 1"
  by (cases nxt) simp_all

lemma sum_acts_nonneg: "(\<And>a. 0 \<le> f a) \<Longrightarrow> 0 \<le> sum_acts f A"
  by (induction A) simp_all

lemma act_nonneg: "0 \<le> act_waits a" "0 \<le> act_posts a" "0 \<le> act_holds a"
  by (cases a; simp)+

lemma waits_le_size: "sum_acts act_waits A \<le> int (size A)"
proof (induction A)
  case (add a A)
  have "act_waits a \<le> 1" by (cases a) simp_all
  then show ?case using add by simp
qed simp

lemma cast_int_small: "0 \<le> x \<Longrightarrow> x < 2 ^ 31 \<Longrightarrow> cast_int x = x"
  by (simp add: cast_int_def signed_of_int signed_take_bit_int_eq_self)

text \<open>What one step changes, in the two sums of the invariant.\<close>

lemma ls_advance_delta:
  assumes "ls_advance spins s a s' nxt r" "act_ok a" "- ls_count s < 2 ^ 31"
  shows "sum_acts act_waits (opt_mset nxt) - act_waits a = int (ls_sema s') - int (ls_sema s)
        + (sum_acts act_posts (opt_mset nxt) - act_posts a) + (max 0 (- ls_count s') - max 0 (- ls_count s))
    \<and> int (ls_signalled s') - int (ls_signalled s) = int r + sum_acts act_holds (opt_mset nxt) - act_holds a
        + (max 0 (ls_count s') - max 0 (ls_count s)) + (int (ls_sema s') - int (ls_sema s))
        + (sum_acts act_posts (opt_mset nxt) - act_posts a)
    \<and> (\<forall>b \<in># opt_mset nxt. act_ok b)"
  using assms
proof (cases rule: ls_advance.cases)
  case (try_take old c)
  then show ?thesis using call_new_count_range [of c old] assms(2) by simp
next
  case (spin_take old c n)
  then show ?thesis using call_new_count_range [of c old] assms(2) by simp
next
  case (tail_take old m)
  then show ?thesis using call_new_count_range [of "Try_Wait_Many m" old] assms(2) by simp
next
  case (sub_take c)
  then show ?thesis using acquired_one_units [OF sub_take(4)] assms(2) by simp
next
  case (block_woken c)
  then show ?thesis using acquired_one_units [OF block_woken(5)] assms(2) by simp
next
  case (adjust_got c)
  then show ?thesis using acquired_one_units [OF adjust_got(4)] assms(2) by simp
next
  case (signal posts n)
  have "posts = to_release (ls_count s) n" if "to_release (ls_count s) n > 0"
    using signal(5) cast_int_small [of "to_release (ls_count s) n"] that assms(3) by (auto simp: to_release_def split: if_splits)
  then show ?thesis using signal by (auto simp: to_release_def)
qed auto

lemma ls_inv_step:
  assumes "ls_step spins x y" "ls_inv initial x"
  shows "ls_inv initial y"
  using assms(1)
proof (cases rule: ls_step.cases)
  case (call a)
  have "act_waits a = 0 \<and> act_posts a = 0 \<and> act_holds a = 0 \<and> act_ok a" using call(2) by (cases a) simp_all
  then show ?thesis using assms(2) call(1,3) by (simp add: ls_inv_def units_available_def)
next
  case (move a A s nxt r)
  let ?s = "lr_sem x"
  have inv: "act_waits a + sum_acts act_waits A = int (ls_sema ?s) + (act_posts a + sum_acts act_posts A) + max 0 (- ls_count ?s)"
    "int initial + int (ls_signalled ?s) = int (lr_returned x) + (act_holds a + sum_acts act_holds A)
       + (max 0 (ls_count ?s) + int (ls_sema ?s) + (act_posts a + sum_acts act_posts A))"
    "act_ok a" "\<forall>b \<in># A. act_ok b" "size A + 1 < 2 ^ 31"
    using assms(2) move(2) by (simp_all add: ls_inv_def units_available_def)
  have "- ls_count ?s \<le> sum_acts act_waits (add_mset a A)"
    using inv(1) sum_acts_nonneg [of act_posts A, OF act_nonneg(2)] act_nonneg(2) [of a] by simp
  also have "\<dots> \<le> int (size A + 1)" using waits_le_size [of "add_mset a A"] by simp
  also have "\<dots> < 2 ^ 31" using inv(5) by (simp only: of_nat_less_numeral_power_cancel_iff)
  finally have small: "- ls_count ?s < 2 ^ 31" .
  note delta = ls_advance_delta [OF move(3) inv(3) small]
  have "size (opt_mset nxt + A) < 2 ^ 31" using inv(5) size_opt_mset [of nxt] by simp
  then show ?thesis unfolding move(1) using inv delta by (simp add: ls_inv_def units_available_def ball_Un)
qed

lemma ls_inv_reach: "ls_reach spins initial x \<Longrightarrow> ls_inv initial x"
proof (induction rule: ls_reach.induct)
  case start
  show ?case by (simp add: ls_inv_def lsem_new_def units_available_def)
qed (rule ls_inv_step)

section \<open>Properties\<close>

text \<open>A call that cannot go on waits for ever, with nothing to wake it.\<close>

lemma ls_progress:
  assumes "act_ok a" "\<not> (\<exists>c. a = Block c \<and> call_timeout c < 0 \<and> ls_sema s = 0)"
  shows "\<exists>s' nxt r. ls_advance spins s a s' nxt r"
proof (cases a)
  case (Try_Cas c old)
  then show ?thesis using try_none [of old spins s c] try_again [of old spins s c] by (meson not_le)
next
  case (Spin c n)
  then show ?thesis using spin_end spin_load by (cases n) blast+
next
  case (Spin_Cas c n old)
  then show ?thesis using spin_take [of old s] spin_again [of s old] assms(1) by (cases "ls_count s = old") fastforce+
next
  case (Sub c)
  then show ?thesis using sub_take [of s c] sub_wait [of s] by (metis not_le surj_pair)
next
  case (Block c)
  then show ?thesis
    using assms(2) block_timeout [of c spins s] block_woken [of c s] by (metis gr0I less_irrefl not_le surj_pair)
next
  case (Adjust_Try c)
  then show ?thesis using adjust_none [of s] adjust_got [of s c] by (metis gr0I surj_pair)
next
  case (Adjust_Cas c old)
  then show ?thesis using adjust_back [of old s] adjust_again [of s old] assms(1) by (cases "ls_count s = old") fastforce+
next
  case (Tail_Cas m old)
  then show ?thesis using tail_none [of old] tail_again [of old] by (meson not_le)
next
  case (Post n)
  then have "0 < n" using assms(1) by simp
  then show ?thesis unfolding Post by (blast intro: post)
qed (use try_load adjust_load tail_load signal in blast)+

text \<open>
  the lightweight semaphore is a counting semaphore. Whatever calls are interleaved, what
  it started with and all that was signalled is what the calls have returned, hold, or is
  still available, and never less than nothing; the waiting calls are exactly those the
  operating system's semaphore, the posts to come and a negative count account for.
\<close>

theorem semaphore_counts_every_unit:
  assumes "ls_reach spins initial x"
  shows "int initial + int (ls_signalled (lr_sem x))
       = int (lr_returned x) + sum_acts act_holds (lr_acts x) + units_available x
     \<and> 0 \<le> units_available x
     \<and> sum_acts act_waits (lr_acts x)
       = int (ls_sema (lr_sem x)) + sum_acts act_posts (lr_acts x) + max 0 (- ls_count (lr_sem x))
     \<and> int (availableApprox (lr_sem x)) \<le> units_available x"
  using ls_inv_reach [OF assms] sum_acts_nonneg [of act_posts "lr_acts x", OF act_nonneg(2)]
  by (simp add: ls_inv_def units_available_def availableApprox_def)

definition sample_call :: ls_call where "sample_call = Wait (-1)"

lemma sample_run: "ls_reach 0 0 \<lparr>lr_sem = \<lparr>ls_count = -1, ls_sema = 0, ls_signalled = 0\<rparr>, lr_acts = {#Block sample_call#}, lr_returned = 0\<rparr>"
proof -
  have step: "ls_reach 0 0 \<lparr>lr_sem = s, lr_acts = {#a#}, lr_returned = 0\<rparr> \<Longrightarrow> ls_advance 0 s a s' (Some b) 0 \<Longrightarrow>
      ls_reach 0 0 \<lparr>lr_sem = s', lr_acts = {#b#}, lr_returned = 0\<rparr>" for s s' a b
    using ls_reach.step [OF _ ls_step.move, of 0 0 _ a "{#}"] by fastforce
  have "ls_reach 0 0 \<lparr>lr_sem = lsem_new 0, lr_acts = {#Try_Load sample_call#}, lr_returned = 0\<rparr>"
    using ls_reach.step [OF ls_reach.start ls_step.call, of "Try_Load sample_call" 0 0] by (simp add: sample_call_def)
  then have "ls_reach 0 0 \<lparr>lr_sem = lsem_new 0, lr_acts = {#Try_Cas sample_call 0#}, lr_returned = 0\<rparr>"
    by (rule step) (use ls_advance.try_load [of 0 "lsem_new 0" sample_call] in \<open>simp add: lsem_new_def\<close>)
  then have "ls_reach 0 0 \<lparr>lr_sem = lsem_new 0, lr_acts = {#Spin sample_call 0#}, lr_returned = 0\<rparr>"
    by (rule step) (use ls_advance.try_none [of 0 0 "lsem_new 0" sample_call] in \<open>simp add: sample_call_def\<close>)
  then have "ls_reach 0 0 \<lparr>lr_sem = lsem_new 0, lr_acts = {#Sub sample_call#}, lr_returned = 0\<rparr>"
    by (rule step) (rule ls_advance.spin_end)
  then show ?thesis
    by (rule step) (use ls_advance.sub_wait [of "lsem_new 0" 0 sample_call] in \<open>simp add: lsem_new_def\<close>)
qed

theorem semaphore_counts_every_unit_witness:
  "\<exists>x. ls_reach 0 0 x \<and> ls_count (lr_sem x) = -1 \<and> units_available x = 0 \<and> sum_acts act_waits (lr_acts x) = 1"
  using sample_run semaphore_counts_every_unit [OF sample_run] by fastforce

text \<open>
  C25: no waiter sleeps on a unit. As long as calls are in progress one of them can take a
  step, unless all of them wait without a timeout and every unit there ever was has been
  returned. And a waiter that gives up while the count is not negative finds a unit in the
  operating system's semaphore, or a post that is about to put one there.
\<close>

theorem no_waiter_sleeps_on_a_unit:
  assumes "ls_reach spins initial x" "lr_acts x \<noteq> {#}"
  shows "((\<exists>a \<in># lr_acts x. \<exists>s nxt r. ls_advance spins (lr_sem x) a s nxt r)
       \<or> (\<forall>a \<in># lr_acts x. \<exists>c. a = Block c \<and> call_timeout c < 0)
         \<and> int initial + int (ls_signalled (lr_sem x)) = int (lr_returned x))
     \<and> (\<forall>a \<in># lr_acts x. act_waits a = 1 \<longrightarrow> 0 \<le> ls_count (lr_sem x) \<longrightarrow>
          0 < int (ls_sema (lr_sem x)) + sum_acts act_posts (lr_acts x))"
proof (intro conjI ballI impI)
  note inv = ls_inv_reach [OF assms(1), unfolded ls_inv_def]
  show "(\<exists>a \<in># lr_acts x. \<exists>s nxt r. ls_advance spins (lr_sem x) a s nxt r)
       \<or> (\<forall>a \<in># lr_acts x. \<exists>c. a = Block c \<and> call_timeout c < 0)
         \<and> int initial + int (ls_signalled (lr_sem x)) = int (lr_returned x)"
  proof (rule disjCI)
    assume "\<not> ((\<forall>a \<in># lr_acts x. \<exists>c. a = Block c \<and> call_timeout c < 0)
         \<and> int initial + int (ls_signalled (lr_sem x)) = int (lr_returned x))"
    moreover have "int initial + int (ls_signalled (lr_sem x)) = int (lr_returned x)"
      if all: "\<forall>a \<in># lr_acts x. \<exists>c. a = Block c \<and> call_timeout c < 0" and "ls_sema (lr_sem x) = 0"
    proof -
      have "(\<forall>a \<in># A. \<exists>c. a = Block c) \<Longrightarrow> sum_acts act_waits A = int (size A) \<and> sum_acts act_posts A = 0
          \<and> sum_acts act_holds A = 0" for A
        by (induction A) auto
      then have sums: "sum_acts act_waits (lr_acts x) = int (size (lr_acts x))" "sum_acts act_posts (lr_acts x) = 0"
        "sum_acts act_holds (lr_acts x) = 0" using all by blast+
      then have "0 < max 0 (- ls_count (lr_sem x))" using inv assms(2) that(2) by (simp add: size_eq_0_iff_empty [symmetric] del: size_eq_0_iff_empty)
      then show ?thesis using inv sums that(2) by (simp add: units_available_def)
    qed
    ultimately obtain a where "a \<in># lr_acts x" "\<not> (\<exists>c. a = Block c \<and> call_timeout c < 0 \<and> ls_sema (lr_sem x) = 0)"
      using assms(2) by (metis multiset_nonemptyE)
    then show "\<exists>a \<in># lr_acts x. \<exists>s nxt r. ls_advance spins (lr_sem x) a s nxt r" using ls_progress inv by blast
  qed
  show "0 < int (ls_sema (lr_sem x)) + sum_acts act_posts (lr_acts x)"
    if a: "a \<in># lr_acts x" "act_waits a = 1" "0 \<le> ls_count (lr_sem x)" for a
  proof -
    have "0 < sum_acts act_waits (lr_acts x)"
      using a(1,2) sum_acts_nonneg [of act_waits "lr_acts x - {#a#}", OF act_nonneg(1)]
      by (metis insert_DiffM sum_acts_simps(2) add_pos_nonneg zero_less_one)
    then show ?thesis using inv a(3) by simp
  qed
qed

theorem no_waiter_sleeps_on_a_unit_witness:
  "\<exists>x. ls_reach 0 0 x \<and> lr_acts x = {#Block (Wait (-1))#} \<and> int (ls_signalled (lr_sem x)) = int (lr_returned x)"
proof -
  let ?x = "\<lparr>lr_sem = \<lparr>ls_count = -1, ls_sema = 0, ls_signalled = 0\<rparr>, lr_acts = {#Block sample_call#}, lr_returned = 0\<rparr>"
  have "\<not> ls_advance 0 (lr_sem ?x) (Block sample_call) s nxt r" for s nxt r
    by (auto simp: sample_call_def elim: ls_advance.cases)
  then have "int (ls_signalled (lr_sem ?x)) = int (lr_returned ?x)"
    using no_waiter_sleeps_on_a_unit [OF sample_run] by auto
  then show ?thesis using sample_run by (intro exI [of _ ?x]) (simp add: sample_call_def)
qed

end
