(* ===== verification/Actor_System.thy ===== *)
theory Actor_System
  imports Registry_Remote Broker_Props
begin

text \<open>
  The front of the library: \<open>ActorRegistry\<close> and \<open>SpawnBuilder\<close> of \<open>actor_registry.h\<close>, which
  own the backend actor and the message broker of a node, and the global registry of
  \<open>global_registry.cc\<close> with its start, shutdown and signal handling.

  A call to the backend or to the broker is awaited, so that it is the call's function here.
  The thread pools are constructed and destroyed with the registry (\<open>Thread_Pools\<close>).
\<close>

unbundle bit_operations_syntax

section \<open>ActorRegistry\<close>

record actor_registry =
  ar_this_node_id :: u64
  ar_broker :: "broker option"
  ar_broker_ref :: basic_ref
  ar_backend :: backend
  ar_backend_ref :: basic_ref

definition system_actor_id :: u64 where "system_actor_id = - 1"

text \<open>\<open>gen\<close> is what the generator draws for the node id; the sign bit is masked off.\<close>

definition ActorRegistry_new :: "u64 \<Rightarrow> u64 list \<Rightarrow> actor_obj \<Rightarrow> actor_registry" where
  "ActorRegistry_new gen draws backend_obj =
     (let this_node_id = gen AND 0x7FFFFFFFFFFFFFFF in
      \<lparr>ar_this_node_id = this_node_id, ar_broker = None, ar_broker_ref = BasicActorRef_default,
       ar_backend = Backend_new draws this_node_id BasicActorRef_default,
       ar_backend_ref = BasicActorRef_new [] system_actor_id (Some backend_obj)\<rparr>)"

definition ActorRegistry_GetNodeId :: "actor_registry \<Rightarrow> u64" where
  "ActorRegistry_GetNodeId r = ar_this_node_id r"

text \<open>
  \<open>StartOrJoinCluster\<close>: the clock is read by the constructor of the broker (\<open>now1\<close>, \<open>now2\<close>)
  and when it starts (\<open>now3\<close>); the request handler is never null.
\<close>

definition ActorRegistry_StartOrJoinCluster ::
    "broker_env \<Rightarrow> actor_obj \<Rightarrow> u64 \<times> u64 \<times> u64 \<Rightarrow> cluster_config \<Rightarrow> (actor_registry, unit) eff" where
  "ActorRegistry_StartOrJoinCluster env broker_obj = (\<lambda>(now1, now2, now3) config.
     bindE (getE ar_broker_ref) (\<lambda>broker_ref.
     thenE (exa_throw_check (bf_is_empty broker_ref) ''Already in distributed mode.'')
     (thenE (exa_throw_check (cl_listen_address config \<noteq> []) ''listen_address must not be empty'')
     (\<lambda>r. case MessageBroker_ctor env now1 now2 (MessageBroker_init (ar_this_node_id r) config) of
            (Inl e, _) \<Rightarrow> (Inl e, r)
          | (Inr _, b) \<Rightarrow>
              let ref = BasicActorRef_new [] system_actor_id (Some broker_obj);
                  b1 = snd (MessageBroker_ExActorOnSpawned b);
                  backend = SetBrokerActorRef ref (ar_backend r);
                  (res, b2) = MessageBroker_Start env now3 True b1
              in (res, r\<lparr>ar_broker := Some b2, ar_broker_ref := ref, ar_backend := backend\<rparr>)))))"

definition ActorRegistry_WaitClusterState ::
    "(cluster_state \<Rightarrow> bool) \<Rightarrow> u64 \<Rightarrow> u64 \<Rightarrow> (actor_registry, wait_outcome) eff" where
  "ActorRegistry_WaitClusterState predicate timeout_ms now =
     bindE (getE ar_broker_ref) (\<lambda>broker_ref.
     thenE (exa_throw_check (\<not> bf_is_empty broker_ref) ''WaitClusterState requires distributed mode'')
     (\<lambda>r. case ar_broker r of
            None \<Rightarrow> (Inl (Throw_Stream ''Underlying actor instance not set''), r)
          | Some b \<Rightarrow> (case WaitClusterState_start predicate timeout_ms now b of
                         (res, b') \<Rightarrow> (res, r\<lparr>ar_broker := Some b'\<rparr>))))"

definition ActorRegistry_dtor :: "actor_registry \<Rightarrow> actor_registry" where
  "ActorRegistry_dtor r =
     (let r1 = if bf_is_empty (ar_broker_ref r) then r
               else r\<lparr>ar_broker := map_option (\<lambda>b. snd (thenE MessageBroker_Stop_begin MessageBroker_Stop_end b)) (ar_broker r)\<rparr>
      in r1\<lparr>ar_backend := AsyncDestroyAllActors (ar_backend r1)\<rparr>)"

section \<open>SpawnBuilder\<close>

text \<open>
  \<open>sb_create\<close> is the create function of the template, or none for a class constructed
  directly, with the function the constructor stands for.
\<close>

record 'v spawn_builder =
  sb_backend_ref :: basic_ref
  sb_has_create_fn :: bool
  sb_create :: "'v create_fn"
  sb_node_id :: u64
  sb_config :: actor_config
  sb_args :: 'v

definition SpawnBuilder_new :: "basic_ref \<Rightarrow> bool \<Rightarrow> 'v create_fn \<Rightarrow> 'v \<Rightarrow> 'v spawn_builder" where
  "SpawnBuilder_new ref has_create_fn f args =
     \<lparr>sb_backend_ref = ref, sb_has_create_fn = has_create_fn, sb_create = f, sb_node_id = 0,
      sb_config = ActorConfig_default, sb_args = args\<rparr>"

definition ToNode :: "u64 \<Rightarrow> 'v spawn_builder \<Rightarrow> 'v spawn_builder" where
  "ToNode node_id sb = sb\<lparr>sb_node_id := node_id\<rparr>"

definition WithConfig :: "actor_config \<Rightarrow> 'v spawn_builder \<Rightarrow> 'v spawn_builder" where
  "WithConfig config sb = sb\<lparr>sb_config := config\<rparr>"

text \<open>The message the sender queues on the backend actor, as its effect on the backend.\<close>

definition SpawnBuilder_MakeSender ::
    "'v registry_env \<Rightarrow> (actor_config \<Rightarrow> 'v \<Rightarrow> bytes) \<Rightarrow> 'v spawn_builder \<Rightarrow> backend \<Rightarrow>
     ((exa_error + actor_ref awaiting) \<times> backend) option" where
  "SpawnBuilder_MakeSender env encode_args sb b =
     (case BasicActorRef_SendLocal (sb_backend_ref sb) of
        Inl e \<Rightarrow> Some (Inl e, b)
      | Inr _ \<Rightarrow>
          if \<not> sb_has_create_fn sb
          then map_option (\<lambda>(r, b'). (bindR r (\<lambda>h. Inr (Finished h)), b'))
                 (SpawnWithClass (re_ref_codec env) (sb_create sb) (sb_node_id sb) (sb_config sb) (sb_args sb) b)
          else SpawnWithCreateFn_start (re_codec env) (re_ref_codec env) (sb_create sb) encode_args
                 (sb_node_id sb) (sb_config sb) (sb_args sb) b)"

definition ActorRegistry_Spawn :: "bool \<Rightarrow> 'v create_fn \<Rightarrow> 'v \<Rightarrow> actor_registry \<Rightarrow> 'v spawn_builder" where
  "ActorRegistry_Spawn has_create_fn f args r =
     ToNode (ar_this_node_id r) (SpawnBuilder_new (ar_backend_ref r) has_create_fn f args)"

section \<open>Starting a cluster\<close>

lemma masked_sign: "\<not> bit (gen AND 0x7FFFFFFFFFFFFFFF :: u64) 63"
  by (simp add: bit_simps)

lemma MessageBroker_Start_fails:
  "\<not> be_bind_ok env (cl_listen_address (br_cluster_config b)) \<Longrightarrow> br_self_ref b \<Longrightarrow>
   fst (MessageBroker_Start env now True b) = Inl (Zmq_Error (cl_listen_address (br_cluster_config b)))"
  by (simp add: MessageBroker_Start_def StartRecvSocketPuller_def eff_defs)

lemma MessageBroker_Start_works:
  assumes "be_bind_ok env (cl_listen_address (br_cluster_config b))" "br_self_ref b" "MessageBroker_Start env now True b = (res, b')"
  shows "res = Inr () \<and> br_puller_running b' \<and> br_request_handler b' \<and> br_tasks b' \<noteq> None
     \<and> br_this_node_id b' = br_this_node_id b \<and> br_nodes b' = br_nodes b \<and> br_stopped b' = br_stopped b"
  using assms by (auto simp: MessageBroker_Start_def StartRecvSocketPuller_def StartPeriodicalTaskScheduler_def eff_defs Let_def)

lemma MessageBroker_ctor_works:
  assumes "cl_contact_node_address config = [] \<or> be_connect_ok env (cl_contact_node_address config)" "cl_listen_address config \<noteq> []" "cl_contact_node_address config \<noteq> cl_listen_address config"
  shows "\<exists>b. MessageBroker_ctor env now1 now2 (MessageBroker_init this config) = (Inr (), b)
     \<and> br_this_node_id b = this \<and> br_cluster_config b = config \<and> \<not> br_stopped b
     \<and> map_of (br_nodes b) this = Some \<lparr>ns_last_seen_timestamp_ms = now1, ns_node_id = this,
          ns_address = cl_listen_address config, ns_node_name = cl_node_name config\<rparr>"
  using assms
  by (auto simp: MessageBroker_ctor_def MessageBroker_init_def ConnectContactSendSocket_def eff_defs)

lemma BasicActorRef_not_empty [simp]: "\<not> bf_is_empty (BasicActorRef_new t i a)" "bf_is_empty BasicActorRef_default"
  by (simp_all add: BasicActorRef_new_def BasicActorRef_default_def)

lemma ActorRegistry_new_simps [simp]:
  "ar_this_node_id (ActorRegistry_new gen draws obj) = gen AND 0x7FFFFFFFFFFFFFFF"
  "ar_broker (ActorRegistry_new gen draws obj) = None"
  "bf_is_empty (ar_broker_ref (ActorRegistry_new gen draws obj))"
  by (simp_all add: ActorRegistry_new_def Let_def)

lemma StartOrJoinCluster_twice:
  "\<not> bf_is_empty (ar_broker_ref r) \<Longrightarrow>
   ActorRegistry_StartOrJoinCluster env obj nows config r = (Inl (Throw_Stream ''Already in distributed mode.''), r)"
  by (cases nows) (simp add: ActorRegistry_StartOrJoinCluster_def eff_defs)

lemma StartOrJoinCluster_constructed:
  assumes "bf_is_empty (ar_broker_ref r)" "cl_listen_address config \<noteq> []"
    and "MessageBroker_ctor env now1 now2 (MessageBroker_init (ar_this_node_id r) config) = (Inr (), b)"
    and "MessageBroker_Start env now3 True (b\<lparr>br_self_ref := True\<rparr>) = (res, b')"
  shows "ActorRegistry_StartOrJoinCluster env obj (now1, now2, now3) config r =
     (res, r\<lparr>ar_broker := Some b', ar_broker_ref := BasicActorRef_new [] system_actor_id (Some obj),
             ar_backend := SetBrokerActorRef (BasicActorRef_new [] system_actor_id (Some obj)) (ar_backend r)\<rparr>)"
  using assms by (simp add: ActorRegistry_StartOrJoinCluster_def eff_defs Let_def MessageBroker_ExActorOnSpawned_def)

section \<open>Properties of the front\<close>

text \<open>For the witnesses: a network that answers \<open>ok\<close> to a bind, and a first node.\<close>

definition front_env :: "bool \<Rightarrow> broker_env" where
  "front_env ok = \<lparr>be_codec = plain_codec, be_bind_ok = (\<lambda>_. ok), be_connect_ok = (\<lambda>_. True), be_send_ok = (\<lambda>_. True)\<rparr>"

definition front_config :: cluster_config where
  "front_config = \<lparr>cl_listen_address = ''tcp://a'', cl_contact_node_address = [], cl_network_config = NetworkConfig_default,
     cl_node_name = ''a''\<rparr>"

definition front_obj :: actor_obj where
  "front_obj = \<lparr>ao_addr = 1, ao_instance_address = 2, ao_type_hash = 3\<rparr>"

lemma front_ok: "cl_contact_node_address front_config = [] \<or> be_connect_ok (front_env ok) (cl_contact_node_address front_config)" "be_bind_ok (front_env ok) a = ok" "cl_listen_address front_config \<noteq> []"
  "cl_contact_node_address front_config \<noteq> cl_listen_address front_config"
  by (simp_all add: front_env_def front_config_def)

text \<open>
  starting or joining a cluster connects the parts of a node. With an address that can
  be bound and a contact that is another address and can be connected to, a new registry ends up with a broker that
  is receiving, gossips under the node's own id and address, and hands requests to the
  backend, which in turn sends through that broker; the node id fits in a signed integer; and
  a second start is refused without a change.
\<close>

theorem starting_a_cluster_connects_the_node:
  assumes "cl_contact_node_address config = [] \<or> be_connect_ok env (cl_contact_node_address config)" "be_bind_ok env (cl_listen_address config)" "cl_listen_address config \<noteq> []"
    and "cl_contact_node_address config \<noteq> cl_listen_address config" and r: "r = ActorRegistry_new gen draws backend_obj"
  shows "\<exists>r' b. ActorRegistry_StartOrJoinCluster env obj (now1, now2, now3) config r = (Inr (), r')
     \<and> ar_broker r' = Some b \<and> br_puller_running b \<and> br_request_handler b \<and> br_tasks b \<noteq> None
     \<and> br_this_node_id b = ActorRegistry_GetNodeId r' \<and> ActorRegistry_GetNodeId r' = ActorRegistry_GetNodeId r
     \<and> map_option ns_address (map_of (br_nodes b) (ActorRegistry_GetNodeId r')) = Some (cl_listen_address config)
     \<and> bk_this_node (ar_backend r') = ActorRegistry_GetNodeId r' \<and> bk_broker (ar_backend r') = ar_broker_ref r'
     \<and> bf_actor (ar_broker_ref r') = Some obj \<and> \<not> bit (ActorRegistry_GetNodeId r') 63
     \<and> (\<forall>nows config'. ActorRegistry_StartOrJoinCluster env obj nows config' r'
          = (Inl (Throw_Stream ''Already in distributed mode.''), r'))"
proof -
  obtain b where b: "MessageBroker_ctor env now1 now2 (MessageBroker_init (ar_this_node_id r) config) = (Inr (), b)"
    "br_this_node_id b = ar_this_node_id r" "br_cluster_config b = config"
    "map_of (br_nodes b) (ar_this_node_id r) = Some \<lparr>ns_last_seen_timestamp_ms = now1, ns_node_id = ar_this_node_id r,
          ns_address = cl_listen_address config, ns_node_name = cl_node_name config\<rparr>"
    using MessageBroker_ctor_works [OF assms(1,3,4)] by blast
  obtain res b' where start: "MessageBroker_Start env now3 True (b\<lparr>br_self_ref := True\<rparr>) = (res, b')" by fastforce
  have b': "res = Inr () \<and> br_puller_running b' \<and> br_request_handler b' \<and> br_tasks b' \<noteq> None
     \<and> br_this_node_id b' = ar_this_node_id r \<and> br_nodes b' = br_nodes b"
    using MessageBroker_Start_works [OF _ _ start] assms(2) b(2,3) by simp
  have empty: "bf_is_empty (ar_broker_ref r)" using r by simp
  note run = StartOrJoinCluster_constructed [OF empty assms(3) b(1) start, of obj]
  show ?thesis
    by (rule exI, rule exI [of _ b'], intro conjI, rule run [unfolded b' [THEN conjunct1]])
      (use b' b r in \<open>simp_all add: ActorRegistry_GetNodeId_def SetBrokerActorRef_def StartOrJoinCluster_twice
          ActorRegistry_new_def Backend_new_def Let_def BasicActorRef_new_def bit_simps\<close>)
qed

theorem starting_a_cluster_connects_the_node_witness:
  "\<exists>r' b. ActorRegistry_StartOrJoinCluster (front_env True) front_obj (10, 11, 12) front_config (ActorRegistry_new (- 1) [7] front_obj)
       = (Inr (), r') \<and> ar_broker r' = Some b \<and> br_puller_running b"
  using starting_a_cluster_connects_the_node [OF front_ok(1) front_ok(2) [THEN iffD2, OF TrueI] front_ok(3,4) refl] by blast

text \<open>
  a start that fails to bind is final. When the listening address cannot be bound, the
  error reaches the caller, but the registry already counts as being in distributed mode, so
  that every later start is refused, whatever its configuration; and the broker it has is
  not receiving.
\<close>

theorem failed_start_is_final:
  assumes "cl_contact_node_address config = [] \<or> be_connect_ok env (cl_contact_node_address config)" "\<not> be_bind_ok env (cl_listen_address config)" "cl_listen_address config \<noteq> []"
    and "cl_contact_node_address config \<noteq> cl_listen_address config" and r: "r = ActorRegistry_new gen draws backend_obj"
  shows "\<exists>r' b. ActorRegistry_StartOrJoinCluster env obj (now1, now2, now3) config r
        = (Inl (Zmq_Error (cl_listen_address config)), r')
     \<and> ar_broker r' = Some b \<and> \<not> br_puller_running b \<and> br_tasks b = None
     \<and> (\<forall>env' obj' nows config'. ActorRegistry_StartOrJoinCluster env' obj' nows config' r'
          = (Inl (Throw_Stream ''Already in distributed mode.''), r'))"
proof -
  obtain b where b: "MessageBroker_ctor env now1 now2 (MessageBroker_init (ar_this_node_id r) config) = (Inr (), b)"
    "br_cluster_config b = config"
    using MessageBroker_ctor_works [OF assms(1,3,4)] by blast
  have idle: "\<not> br_puller_running b \<and> br_tasks b = None"
    using b(1) by (auto simp: MessageBroker_ctor_def MessageBroker_init_def ConnectContactSendSocket_def eff_defs split: if_splits)
  let ?b = "b\<lparr>br_self_ref := True, br_request_handler := True\<rparr>"
  have start: "MessageBroker_Start env now3 True (b\<lparr>br_self_ref := True\<rparr>) = (Inl (Zmq_Error (cl_listen_address config)), ?b)"
    using assms(2) b(2) by (simp add: MessageBroker_Start_def StartRecvSocketPuller_def eff_defs)
  have empty: "bf_is_empty (ar_broker_ref r)" using r by simp
  note run = StartOrJoinCluster_constructed [OF empty assms(3) b(1) start, of obj]
  show ?thesis by (rule exI, rule exI [of _ ?b], intro conjI, rule run) (use idle in \<open>simp_all add: StartOrJoinCluster_twice\<close>)
qed

theorem failed_start_is_final_witness:
  "\<exists>r'. ActorRegistry_StartOrJoinCluster (front_env False) front_obj (10, 11, 12) front_config (ActorRegistry_new 5 [7] front_obj)
        = (Inl (Zmq_Error (cl_listen_address front_config)), r')
     \<and> ActorRegistry_StartOrJoinCluster (front_env True) front_obj (20, 21, 22) front_config r'
        = (Inl (Throw_Stream ''Already in distributed mode.''), r')"
proof -
  have "\<not> be_bind_ok (front_env False) (cl_listen_address front_config)" by (simp add: front_ok)
  from failed_start_is_final [OF front_ok(1) this front_ok(3,4) refl] show ?thesis by blast
qed

end
