(* ===== verification/Runtime.thy ===== *)
theory Runtime
  imports Actor_System
begin

text \<open>
  The global registry of \<open>global_registry.cc\<close>: initialisation and shutdown of the runtime, the
  guard against leaving \<open>main\<close> without a shutdown, and waiting for a signal to exit.
  \<open>process\<close> is the static state of the file together with what the C library keeps for it: the
  installed signal handlers and the functions registered with \<open>atexit\<close>. None of it is
  protected against concurrent use, as its documentation says.
\<close>

section \<open>State\<close>

datatype os_signal = SIGINT | SIGTERM | Other_Signal

datatype sig_handler = SIG_DFL | SIG_IGN | Null_Handler | User_Handler nat | Shutdown_Handler

text \<open>
  A wait for a signal has its own semaphore, with its count in \<open>ps_sems\<close> from the start of
  the wait to its end; \<open>signal_semaphore\<close> names the wait whose semaphore it points to.
\<close>

record process =
  pr_resources :: "nat list"
  pr_registry :: "actor_registry option"
  pr_signal_semaphore :: "nat option"
  pr_prev_sigint :: sig_handler
  pr_prev_sigterm :: sig_handler
  pr_sigint :: sig_handler
  pr_sigterm :: sig_handler
  pr_sems :: "nat \<rightharpoonup> int"
  pr_user_calls :: "(nat \<times> os_signal) list"
  pr_at_exit_cleanup_registered :: bool
  pr_at_exit :: nat
  pr_dropped :: "actor_registry list"

definition process_start :: process where
  "process_start = \<lparr>pr_resources = [], pr_registry = None, pr_signal_semaphore = None,
     pr_prev_sigint = SIG_DFL, pr_prev_sigterm = SIG_DFL, pr_sigint = SIG_DFL, pr_sigterm = SIG_DFL,
     pr_sems = Map.empty, pr_user_calls = [], pr_at_exit_cleanup_registered = False, pr_at_exit = 0, pr_dropped = []\<rparr>"

section \<open>Initialisation and shutdown\<close>

definition IsGlobalDefaultRegistryInitialized :: "process \<Rightarrow> bool" where
  "IsGlobalDefaultRegistryInitialized p \<longleftrightarrow> pr_registry p \<noteq> None"

definition GetGlobalDefaultRegistry :: "process \<Rightarrow> exa_error + actor_registry" where
  "GetGlobalDefaultRegistry p =
     bindR (checkR (IsGlobalDefaultRegistryInitialized p) ''Global default registry is not initialized.'') (\<lambda>_.
     Inr (the (pr_registry p)))"

definition AssignGlobalDefaultRegistry :: "actor_registry \<Rightarrow> process \<Rightarrow> process" where
  "AssignGlobalDefaultRegistry r p = p\<lparr>pr_registry := Some r\<rparr>"

definition RegisterAtExitCleanup :: "process \<Rightarrow> process" where
  "RegisterAtExitCleanup p =
     (if pr_at_exit_cleanup_registered p then p
      else p\<lparr>pr_at_exit_cleanup_registered := True, pr_at_exit := pr_at_exit p + 1\<rparr>)"

text \<open>The function registered, when the process exits: the status it forces, if it does.\<close>

definition at_exit_cleanup :: "process \<Rightarrow> int option" where
  "at_exit_cleanup p = (if \<not> IsGlobalDefaultRegistryInitialized p then None else Some 1)"

definition process_exit :: "process \<Rightarrow> int \<Rightarrow> int" where
  "process_exit p status =
     (if pr_at_exit p = 0 then status else case at_exit_cleanup p of None \<Rightarrow> status | Some forced \<Rightarrow> forced)"

definition SetupGlobalHandlers :: "process \<Rightarrow> process" where
  "SetupGlobalHandlers p = RegisterAtExitCleanup p"

text \<open>\<open>new_registry\<close> is the registry that is constructed, from a thread pool size or a scheduler.\<close>

definition Init :: "actor_registry \<Rightarrow> (process, unit) eff" where
  "Init new_registry =
     bindE (getE IsGlobalDefaultRegistryInitialized) (\<lambda>initialized.
     thenE (exa_throw_check (\<not> initialized) ''Already initialized.'')
     (thenE (modE (\<lambda>p. p\<lparr>pr_registry := Some new_registry\<rparr>))
            (modE SetupGlobalHandlers)))"

definition Init_scheduler :: "actor_registry \<Rightarrow> (process, unit) eff" where
  "Init_scheduler new_registry =
     bindE (getE IsGlobalDefaultRegistryInitialized) (\<lambda>initialized.
     thenE (exa_throw_check (\<not> initialized) ''Already initialized.'')
     (thenE (modE (AssignGlobalDefaultRegistry new_registry))
            (modE SetupGlobalHandlers)))"

definition StartOrJoinCluster ::
    "broker_env \<Rightarrow> actor_obj \<Rightarrow> u64 \<times> u64 \<times> u64 \<Rightarrow> cluster_config \<Rightarrow> (process, unit) eff" where
  "StartOrJoinCluster env obj nows config =
     bindE (getE IsGlobalDefaultRegistryInitialized) (\<lambda>initialized.
     thenE (exa_throw_check initialized ''Not initialized. Call Init() first.'')
     (bindE (getE GetGlobalDefaultRegistry) (\<lambda>r. bindE (liftE r) (\<lambda>r.
      case ActorRegistry_StartOrJoinCluster env obj nows config r of
        (res, r') \<Rightarrow> thenE (modE (\<lambda>p. p\<lparr>pr_registry := Some r'\<rparr>)) (liftE res)))))"

definition HoldResource :: "nat \<Rightarrow> process \<Rightarrow> process" where
  "HoldResource resource p = p\<lparr>pr_resources := pr_resources p @ [resource]\<rparr>"

definition Shutdown :: "(process, unit) eff" where
  "Shutdown =
     bindE (getE pr_registry) (\<lambda>registry.
     thenE (exa_throw_check (registry \<noteq> None) ''Not initialized.'')
     (thenE (modE (\<lambda>p. p\<lparr>pr_dropped := pr_dropped p @ [ActorRegistry_dtor (the registry)], pr_registry := None\<rparr>))
            (modE (\<lambda>p. p\<lparr>pr_resources := []\<rparr>))))"

definition GetNodeId :: "process \<Rightarrow> exa_error + u64" where
  "GetNodeId p = bindR (GetGlobalDefaultRegistry p) (\<lambda>r. Inr (ActorRegistry_GetNodeId r))"

section \<open>Waiting for a signal to exit\<close>

definition callable :: "sig_handler \<Rightarrow> bool" where
  "callable h \<longleftrightarrow> h \<noteq> SIG_DFL \<and> h \<noteq> SIG_IGN \<and> h \<noteq> Null_Handler"

text \<open>\<open>signal_semaphore->Acquire (1)\<close>, when there is one.\<close>

definition acquire_signal_semaphore :: "process \<Rightarrow> process" where
  "acquire_signal_semaphore p =
     (case pr_signal_semaphore p of
        None \<Rightarrow> p
      | Some w \<Rightarrow> p\<lparr>pr_sems := (pr_sems p)(w := map_option (\<lambda>n. n - 1) (pr_sems p w))\<rparr>)"

text \<open>
  Calling a handler that can be called. \<open>ShutdownSignalHandler\<close> calls the handler that was
  installed before it through \<open>InvokePreviousHandler\<close>; a call that never returns has no result.
\<close>

partial_function (option) call_handler :: "sig_handler \<Rightarrow> os_signal \<Rightarrow> process \<Rightarrow> process option" where
  "call_handler h sig p =
     (case h of
        User_Handler k \<Rightarrow> Some (p\<lparr>pr_user_calls := pr_user_calls p @ [(k, sig)]\<rparr>)
      | Shutdown_Handler \<Rightarrow>
          (let p1 = acquire_signal_semaphore p in
           case sig of
             SIGINT \<Rightarrow> if callable (pr_prev_sigint p1) then call_handler (pr_prev_sigint p1) sig p1 else Some p1
           | SIGTERM \<Rightarrow> if callable (pr_prev_sigterm p1) then call_handler (pr_prev_sigterm p1) sig p1 else Some p1
           | Other_Signal \<Rightarrow> Some p1)
      | _ \<Rightarrow> Some p)"

definition InvokePreviousHandler :: "sig_handler \<Rightarrow> os_signal \<Rightarrow> process \<Rightarrow> process option" where
  "InvokePreviousHandler handler sig p = (if callable handler then call_handler handler sig p else Some p)"

definition ShutdownSignalHandler :: "os_signal \<Rightarrow> process \<Rightarrow> process option" where
  "ShutdownSignalHandler sig p = call_handler Shutdown_Handler sig p"

lemma ShutdownSignalHandler_eq:
  "ShutdownSignalHandler sig p =
     (let p1 = acquire_signal_semaphore p in
      case sig of
        SIGINT \<Rightarrow> InvokePreviousHandler (pr_prev_sigint p1) sig p1
      | SIGTERM \<Rightarrow> InvokePreviousHandler (pr_prev_sigterm p1) sig p1
      | Other_Signal \<Rightarrow> Some p1)"
  by (simp add: ShutdownSignalHandler_def InvokePreviousHandler_def call_handler.simps [of Shutdown_Handler] Let_def
      cong: os_signal.case_cong)

text \<open>The delivery of a signal: what is installed for it is called; the default action ends the process.\<close>

definition installed :: "os_signal \<Rightarrow> process \<Rightarrow> sig_handler" where
  "installed sig p = (case sig of SIGINT \<Rightarrow> pr_sigint p | SIGTERM \<Rightarrow> pr_sigterm p | Other_Signal \<Rightarrow> SIG_DFL)"

definition deliver :: "os_signal \<Rightarrow> process \<Rightarrow> process option" where
  "deliver sig p = (if callable (installed sig p) then call_handler (installed sig p) sig p else Some p)"

text \<open>
  \<open>WaitOsExitSignal\<close> up to its \<open>co_await\<close> and after it; it goes on when its semaphore is
  drained. \<open>w\<close> is the call, new for every one.
\<close>

definition WaitOsExitSignal_start :: "nat \<Rightarrow> process \<Rightarrow> process" where
  "WaitOsExitSignal_start w p = p\<lparr>
     pr_sems := (pr_sems p)(w \<mapsto> 1), pr_signal_semaphore := Some w,
     pr_prev_sigint := pr_sigint p, pr_sigint := Shutdown_Handler,
     pr_prev_sigterm := pr_sigterm p, pr_sigterm := Shutdown_Handler\<rparr>"

definition WaitOsExitSignal_resume :: "nat \<Rightarrow> process \<Rightarrow> process option" where
  "WaitOsExitSignal_resume w p =
     (case pr_sems p w of
        None \<Rightarrow> None
      | Some n \<Rightarrow>
          if n \<le> 0
          then Some (p\<lparr>pr_sigint := pr_prev_sigint p, pr_sigterm := pr_prev_sigterm p,
                       pr_signal_semaphore := None, pr_sems := (pr_sems p)(w := None)\<rparr>)
          else None)"

section \<open>Runs\<close>

inductive process_reach :: "process \<Rightarrow> bool" where
  start: "process_reach process_start"
| init: "process_reach p \<Longrightarrow> Init new_registry p = (r, p') \<Longrightarrow> process_reach p'"
| init_scheduler: "process_reach p \<Longrightarrow> Init_scheduler new_registry p = (r, p') \<Longrightarrow> process_reach p'"
| cluster: "process_reach p \<Longrightarrow> StartOrJoinCluster env obj nows config p = (r, p') \<Longrightarrow> process_reach p'"
| hold: "process_reach p \<Longrightarrow> process_reach (HoldResource x p)"
| registry: "process_reach p \<Longrightarrow> pr_registry p \<noteq> None \<Longrightarrow> process_reach (p\<lparr>pr_registry := Some new_registry\<rparr>)"
| shutdown: "process_reach p \<Longrightarrow> Shutdown p = (r, p') \<Longrightarrow> process_reach p'"
| wait: "process_reach p \<Longrightarrow> w \<notin> dom (pr_sems p) \<Longrightarrow> process_reach (WaitOsExitSignal_start w p)"
| signal: "process_reach p \<Longrightarrow> deliver sig p = Some p' \<Longrightarrow> process_reach p'"
| resume: "process_reach p \<Longrightarrow> WaitOsExitSignal_resume w p = Some p' \<Longrightarrow> process_reach p'"

definition guard_ok :: "process \<Rightarrow> bool" where
  "guard_ok p \<longleftrightarrow> (pr_at_exit p = (if pr_at_exit_cleanup_registered p then 1 else 0))
     \<and> (pr_registry p \<noteq> None \<longrightarrow> pr_at_exit_cleanup_registered p)"

lemma call_handler_frame:
  assumes "call_handler h sig p = Some p'"
  shows "guard_ok p \<Longrightarrow> guard_ok p'"
  using assms
proof (induction rule: call_handler.raw_induct [rotated, consumes 1, case_names handler])
  case (handler f h sig p p')
  have p1: "guard_ok (acquire_signal_semaphore p)"
    using \<open>guard_ok p\<close> by (auto simp: acquire_signal_semaphore_def guard_ok_def split: option.splits)
  show ?case
  proof (cases "h = Shutdown_Handler")
    case True
    show ?thesis
      using handler(2) handler(1) [OF _ p1] p1 True
      by (cases sig) (auto simp: Let_def split: if_splits)
  next
    case False
    then show ?thesis using handler(2) \<open>guard_ok p\<close> by (cases h) (auto simp: guard_ok_def)
  qed
qed

lemma guard_ok_reach: "process_reach p \<Longrightarrow> guard_ok p"
proof (induction rule: process_reach.induct)
  case (cluster p env obj nows config r p')
  then show ?case
    by (auto simp: StartOrJoinCluster_def GetGlobalDefaultRegistry_def IsGlobalDefaultRegistryInitialized_def guard_ok_def eff_defs
        split: sum.splits prod.splits if_splits)
next
  case (signal p sig p')
  then show ?case using call_handler_frame by (auto simp: deliver_def split: if_splits)
next
  case (resume p w p')
  then show ?case by (auto simp: WaitOsExitSignal_resume_def guard_ok_def split: option.splits if_splits)
qed (auto simp: process_start_def Init_def Init_scheduler_def SetupGlobalHandlers_def RegisterAtExitCleanup_def HoldResource_def
    Shutdown_def WaitOsExitSignal_start_def AssignGlobalDefaultRegistry_def IsGlobalDefaultRegistryInitialized_def guard_ok_def
    eff_defs split: if_splits)

text \<open>
  A handler that was installed while \<open>ShutdownSignalHandler\<close> already was: it is its own
  previous handler, and the call does not come back.
\<close>

lemma own_previous_handler_never_returns:
  assumes "pr_prev_sigint p = Shutdown_Handler"
  shows "ShutdownSignalHandler SIGINT p = None"
proof -
  have "\<not> (h = Shutdown_Handler \<and> sig = SIGINT \<and> pr_prev_sigint p = Shutdown_Handler)"
    if "call_handler h sig p = Some p'" for h sig p p'
    using that
  proof (induction rule: call_handler.raw_induct [rotated, consumes 1, case_names handler])
    case (handler f h sig p p')
    show ?case
    proof
      assume *: "h = Shutdown_Handler \<and> sig = SIGINT \<and> pr_prev_sigint p = Shutdown_Handler"
      then have prev: "pr_prev_sigint (acquire_signal_semaphore p) = Shutdown_Handler"
        by (simp add: acquire_signal_semaphore_def split: option.splits)
      then have "f Shutdown_Handler SIGINT (acquire_signal_semaphore p) = Some p'"
        using handler(2) * by (simp add: callable_def)
      with handler(1) prev show False by blast
    qed
  qed
  then show ?thesis using assms by (auto simp: ShutdownSignalHandler_def) (metis not_Some_eq)
qed

theorem overlapping_waits_hang:
  "deliver SIGINT (WaitOsExitSignal_start w2 (WaitOsExitSignal_start w1 p)) = None"
proof -
  have "ShutdownSignalHandler SIGINT (WaitOsExitSignal_start w2 (WaitOsExitSignal_start w1 p)) = None"
    by (rule own_previous_handler_never_returns) (simp add: WaitOsExitSignal_start_def)
  then show ?thesis by (simp add: deliver_def installed_def ShutdownSignalHandler_def WaitOsExitSignal_start_def callable_def)
qed

section \<open>Properties\<close>

text \<open>
  leaving without a shutdown is always noticed. In every reachable process the exit
  function is registered at most once, and the process exits with status 1 instead of its own
  exactly when the runtime is still initialised then.
\<close>

theorem exit_without_shutdown_is_noticed:
  assumes "process_reach p"
  shows "pr_at_exit p \<le> 1 \<and> process_exit p status = (if IsGlobalDefaultRegistryInitialized p then 1 else status)"
  using guard_ok_reach [OF assms]
  by (auto simp: guard_ok_def process_exit_def at_exit_cleanup_def IsGlobalDefaultRegistryInitialized_def split: if_splits)

theorem exit_without_shutdown_is_noticed_witness:
  "\<exists>p. process_reach p \<and> IsGlobalDefaultRegistryInitialized p \<and> process_exit p 0 = 1"
proof -
  obtain r p where init: "Init (ActorRegistry_new 5 [] \<lparr>ao_addr = 1, ao_instance_address = 2, ao_type_hash = 3\<rparr>) process_start = (r, p)"
    by fastforce
  have "process_reach p" by (rule process_reach.init [OF process_reach.start init])
  moreover have "IsGlobalDefaultRegistryInitialized p"
    using init by (auto simp: Init_def IsGlobalDefaultRegistryInitialized_def process_start_def SetupGlobalHandlers_def
        RegisterAtExitCleanup_def eff_defs)
  ultimately show ?thesis using exit_without_shutdown_is_noticed [of p 0] by auto
qed

text \<open>
  The calls of a program and what they throw, with everything else that can happen in between:
  the registry's own methods, waits for a signal and signals.
\<close>

datatype runtime_call = Called_Init | Called_Start | Called_Hold nat | Called_Shutdown | Called_GetNodeId

definition thrown :: "exa_error + 'a \<Rightarrow> exa_error option" where
  "thrown r = (case r of Inl e \<Rightarrow> Some e | Inr _ \<Rightarrow> None)"

inductive process_trace :: "(runtime_call \<times> exa_error option) list \<Rightarrow> process \<Rightarrow> bool" where
  start: "process_trace [] process_start"
| init: "process_trace t p \<Longrightarrow> Init new_registry p = (r, p') \<Longrightarrow> process_trace (t @ [(Called_Init, thrown r)]) p'"
| init_scheduler: "process_trace t p \<Longrightarrow> Init_scheduler new_registry p = (r, p') \<Longrightarrow> process_trace (t @ [(Called_Init, thrown r)]) p'"
| cluster: "process_trace t p \<Longrightarrow> StartOrJoinCluster env obj nows config p = (r, p') \<Longrightarrow>
    process_trace (t @ [(Called_Start, thrown r)]) p'"
| hold: "process_trace t p \<Longrightarrow> process_trace (t @ [(Called_Hold x, None)]) (HoldResource x p)"
| shutdown: "process_trace t p \<Longrightarrow> Shutdown p = (r, p') \<Longrightarrow> process_trace (t @ [(Called_Shutdown, thrown r)]) p'"
| node_id: "process_trace t p \<Longrightarrow> process_trace (t @ [(Called_GetNodeId, thrown (GetNodeId p))]) p"
| registry: "process_trace t p \<Longrightarrow> pr_registry p \<noteq> None \<Longrightarrow> process_trace t (p\<lparr>pr_registry := Some new_registry\<rparr>)"
| wait: "process_trace t p \<Longrightarrow> w \<notin> dom (pr_sems p) \<Longrightarrow> process_trace t (WaitOsExitSignal_start w p)"
| signal: "process_trace t p \<Longrightarrow> deliver sig p = Some p' \<Longrightarrow> process_trace t p'"
| resume: "process_trace t p \<Longrightarrow> WaitOsExitSignal_resume w p = Some p' \<Longrightarrow> process_trace t p'"

text \<open>The life of the runtime as its documentation has it: on or off, with what is held and how often it ended.\<close>

record life =
  lf_on :: bool
  lf_held :: "nat list"
  lf_ends :: nat

fun life_step :: "life \<Rightarrow> runtime_call \<Rightarrow> life" where
  "life_step l Called_Init = l\<lparr>lf_on := True\<rparr>"
| "life_step l (Called_Hold x) = l\<lparr>lf_held := lf_held l @ [x]\<rparr>"
| "life_step l Called_Shutdown = (if lf_on l then \<lparr>lf_on = False, lf_held = [], lf_ends = Suc (lf_ends l)\<rparr> else l)"
| "life_step l _ = l"

fun life_allows :: "life \<Rightarrow> runtime_call \<times> exa_error option \<Rightarrow> bool" where
  "life_allows l (Called_Init, e) \<longleftrightarrow> e = (if lf_on l then Some (Throw_Stream ''Already initialized.'') else None)"
| "life_allows l (Called_Start, e) \<longleftrightarrow> (\<not> lf_on l \<longrightarrow> e = Some (Throw_Stream ''Not initialized. Call Init() first.''))"
| "life_allows l (Called_Hold x, e) \<longleftrightarrow> e = None"
| "life_allows l (Called_Shutdown, e) \<longleftrightarrow> e = (if lf_on l then None else Some (Throw_Stream ''Not initialized.''))"
| "life_allows l (Called_GetNodeId, e) \<longleftrightarrow>
     e = (if lf_on l then None else Some (Throw_Stream ''Global default registry is not initialized.''))"

fun life_run :: "(runtime_call \<times> exa_error option) list \<Rightarrow> life \<Rightarrow> life option" where
  "life_run [] l = Some l"
| "life_run (c # cs) l = (if life_allows l c then life_run cs (life_step l (fst c)) else None)"

definition life_start :: life where
  "life_start = \<lparr>lf_on = False, lf_held = [], lf_ends = 0\<rparr>"

lemma life_run_snoc: "life_run (cs @ [c]) l = (case life_run cs l of
    None \<Rightarrow> None | Some l' \<Rightarrow> if life_allows l' c then Some (life_step l' (fst c)) else None)"
  by (induction cs arbitrary: l) auto

text \<open>A registry that was shut down: all its actors were destroyed, and its broker was stopped.\<close>

definition torn_down :: "actor_registry \<Rightarrow> bool" where
  "torn_down d \<longleftrightarrow> ra_obj ` snd ` set (bk_actors (ar_backend d)) \<subseteq> set (bk_destroyed (ar_backend d))
     \<and> (bf_is_empty (ar_broker_ref d) \<or> (\<forall>b. ar_broker d = Some b \<longrightarrow> br_stopped b \<and> br_sockets b = [] \<and> \<not> br_puller_running b))"

lemma dtor_tears_down: "torn_down (ActorRegistry_dtor r)"
  by (auto simp: torn_down_def ActorRegistry_dtor_def AsyncDestroyAllActors_def MessageBroker_Stop_begin_def
      MessageBroker_Stop_end_def Let_def eff_defs)

definition life_of :: "process \<Rightarrow> life" where
  "life_of p = \<lparr>lf_on = IsGlobalDefaultRegistryInitialized p, lf_held = pr_resources p, lf_ends = length (pr_dropped p)\<rparr>"

lemma call_handler_life:
  assumes "call_handler h sig p = Some p'"
  shows "life_of p' = life_of p \<and> pr_dropped p' = pr_dropped p"
  using assms
proof (induction rule: call_handler.raw_induct [rotated, consumes 1, case_names handler])
  case (handler f h sig p p')
  have p1: "life_of (acquire_signal_semaphore p) = life_of p" "pr_dropped (acquire_signal_semaphore p) = pr_dropped p"
    by (simp_all add: acquire_signal_semaphore_def life_of_def IsGlobalDefaultRegistryInitialized_def split: option.splits)
  have rec: "life_of y = life_of x \<and> pr_dropped y = pr_dropped x" if "f k sig x = Some y" for k x y
    using handler(1) that by blast
  show ?case
  proof (cases "h = Shutdown_Handler")
    case True
    then show ?thesis using handler(2) rec [of _ "acquire_signal_semaphore p" p'] p1
      by (cases sig) (auto simp: Let_def split: if_splits)
  next
    case False
    then show ?thesis using handler(2)
      by (cases h) (auto simp: life_of_def IsGlobalDefaultRegistryInitialized_def)
  qed
qed

lemma trace_life:
  assumes "process_trace t p"
  shows "life_run t life_start = Some (life_of p) \<and> (\<forall>d \<in> set (pr_dropped p). torn_down d) \<and> guard_ok p"
  using assms
proof (induction rule: process_trace.induct)
  case start
  then show ?case
    by (simp add: life_of_def life_start_def process_start_def guard_ok_def IsGlobalDefaultRegistryInitialized_def)
next
  case (init t p new_registry r p')
  then show ?case
    by (auto simp: life_run_snoc life_of_def IsGlobalDefaultRegistryInitialized_def Init_def SetupGlobalHandlers_def
        RegisterAtExitCleanup_def guard_ok_def thrown_def eff_defs split: if_splits)
next
  case (init_scheduler t p new_registry r p')
  then show ?case
    by (auto simp: life_run_snoc life_of_def IsGlobalDefaultRegistryInitialized_def Init_scheduler_def SetupGlobalHandlers_def
        RegisterAtExitCleanup_def AssignGlobalDefaultRegistry_def guard_ok_def thrown_def eff_defs split: if_splits)
next
  case (cluster t p env obj nows config r p')
  then show ?case
    by (auto simp: life_run_snoc life_of_def StartOrJoinCluster_def GetGlobalDefaultRegistry_def IsGlobalDefaultRegistryInitialized_def
        guard_ok_def thrown_def eff_defs split: sum.splits prod.splits if_splits)
next
  case (hold t p x)
  then show ?case
    by (simp add: life_run_snoc life_of_def HoldResource_def guard_ok_def IsGlobalDefaultRegistryInitialized_def)
next
  case (shutdown t p r p')
  then show ?case
    by (auto simp: life_run_snoc life_of_def IsGlobalDefaultRegistryInitialized_def Shutdown_def guard_ok_def thrown_def
        dtor_tears_down eff_defs split: if_splits)
next
  case (node_id t p)
  then show ?case
    by (auto simp: life_run_snoc life_of_def GetNodeId_def GetGlobalDefaultRegistry_def checkR_def bindR_def thrown_def)
next
  case (registry t p new_registry)
  then show ?case by (auto simp: life_of_def IsGlobalDefaultRegistryInitialized_def guard_ok_def)
next
  case (wait t p w)
  then show ?case by (simp add: life_of_def IsGlobalDefaultRegistryInitialized_def WaitOsExitSignal_start_def guard_ok_def)
next
  case (signal t p sig p')
  then show ?case using call_handler_life [of "installed sig p" sig p p'] call_handler_frame [of "installed sig p" sig p p']
    by (auto simp: deliver_def split: if_splits)
next
  case (resume t p w p')
  then show ?case
    by (auto simp: WaitOsExitSignal_resume_def life_of_def IsGlobalDefaultRegistryInitialized_def guard_ok_def
        split: option.splits if_splits)
qed

text \<open>
  C26: the life of the runtime. In every run of a program, with any calls of \<open>Init\<close>,
  \<open>StartOrJoinCluster\<close>, \<open>HoldResource\<close>, \<open>Shutdown\<close> and \<open>GetNodeId\<close>, any use of the registry and
  any waits and signals between them: the runtime is on exactly from an \<open>Init\<close> to the next
  \<open>Shutdown\<close>; an \<open>Init\<close> is refused exactly while it is on, a \<open>Shutdown\<close> and a \<open>GetNodeId\<close> exactly
  while it is off, a \<open>StartOrJoinCluster\<close> always while it is off (and on its own grounds
  otherwise), a \<open>HoldResource\<close> never; the resources held are those since the last \<open>Shutdown\<close> that was
  not refused; each such shutdown has ended one registry, with all its actors destroyed and
  its broker stopped; and a process that exits does so with status 1 exactly when the
  runtime is on.
\<close>

theorem runtime_lifecycle:
  assumes "process_trace t p"
  shows "\<exists>l. life_run t life_start = Some l \<and> IsGlobalDefaultRegistryInitialized p = lf_on l \<and> pr_resources p = lf_held l
     \<and> length (pr_dropped p) = lf_ends l \<and> (\<forall>d \<in> set (pr_dropped p). torn_down d)
     \<and> process_exit p status = (if lf_on l then 1 else status)"
  using trace_life [OF assms]
  by (auto simp: life_of_def guard_ok_def process_exit_def at_exit_cleanup_def IsGlobalDefaultRegistryInitialized_def
      split: if_splits)

theorem runtime_lifecycle_witness:
  "\<exists>p. process_trace [(Called_Init, None), (Called_Hold 4, None),
       (Called_Init, Some (Throw_Stream ''Already initialized.'')), (Called_Shutdown, None)] p
     \<and> \<not> IsGlobalDefaultRegistryInitialized p \<and> pr_resources p = [] \<and> length (pr_dropped p) = 1"
proof -
  let ?r = "ActorRegistry_new 5 [] \<lparr>ao_addr = 1, ao_instance_address = 2, ao_type_hash = 3\<rparr>"
  obtain r1 p1 where 1: "Init ?r process_start = (r1, p1)" by fastforce
  obtain r3 p3 where 3: "Init ?r (HoldResource 4 p1) = (r3, p3)" by fastforce
  obtain r4 p4 where 4: "Shutdown p3 = (r4, p4)" by fastforce
  note t = process_trace.shutdown [OF process_trace.init [OF process_trace.hold [OF process_trace.init [OF process_trace.start 1],
      where x = 4] 3] 4, simplified]
  have e: "thrown r1 = None" "thrown r3 = Some (Throw_Stream ''Already initialized.'')" "thrown r4 = None"
    using 1 3 4 by (auto simp: Init_def Shutdown_def IsGlobalDefaultRegistryInitialized_def process_start_def SetupGlobalHandlers_def
        RegisterAtExitCleanup_def HoldResource_def thrown_def eff_defs)
  show ?thesis using runtime_lifecycle [OF t] t by (intro exI [of _ p4]) (auto simp: e life_start_def)
qed

text \<open>
  a signal ends the wait for it and nothing else. While one call waits, SIGINT or SIGTERM
  drains its semaphore once and calls the handler that was installed before, once; before
  the signal the wait does not go on; after it, it ends, and both handlers are what they
  were before it began.
\<close>

theorem exit_signal_ends_the_wait:
  assumes "sig \<noteq> Other_Signal" "installed sig p \<noteq> Shutdown_Handler"
  shows "\<exists>p1 p2. WaitOsExitSignal_resume w (WaitOsExitSignal_start w p) = None
     \<and> deliver sig (WaitOsExitSignal_start w p) = Some p1
     \<and> pr_user_calls p1 = pr_user_calls p @ (case installed sig p of User_Handler k \<Rightarrow> [(k, sig)] | _ \<Rightarrow> [])
     \<and> WaitOsExitSignal_resume w p1 = Some p2
     \<and> pr_sigint p2 = pr_sigint p \<and> pr_sigterm p2 = pr_sigterm p \<and> pr_signal_semaphore p2 = None
     \<and> pr_sems p2 = (pr_sems p)(w := None) \<and> pr_registry p2 = pr_registry p \<and> pr_user_calls p2 = pr_user_calls p1"
proof -
  let ?p = "WaitOsExitSignal_start w p"
  define p0 where "p0 = ?p\<lparr>pr_sems := (pr_sems p)(w \<mapsto> 0)\<rparr>"
  define p1 where "p1 = p0\<lparr>pr_user_calls := pr_user_calls p @ (case installed sig p of User_Handler k \<Rightarrow> [(k, sig)] | _ \<Rightarrow> [])\<rparr>"
  have acq: "acquire_signal_semaphore ?p = p0"
    by (simp add: acquire_signal_semaphore_def WaitOsExitSignal_start_def p0_def)
  have prev: "InvokePreviousHandler (installed sig p) sig p0 = Some p1"
    using assms(2) by (cases "installed sig p")
      (simp_all add: InvokePreviousHandler_def callable_def call_handler.simps p1_def p0_def WaitOsExitSignal_start_def)
  have "deliver sig ?p = ShutdownSignalHandler sig ?p"
    using assms(1) by (cases sig) (simp_all add: deliver_def installed_def ShutdownSignalHandler_def WaitOsExitSignal_start_def callable_def)
  also have "\<dots> = Some p1"
    using prev assms(1) unfolding ShutdownSignalHandler_eq acq Let_def
    by (cases sig) (simp_all add: installed_def p0_def WaitOsExitSignal_start_def)
  finally have "deliver sig ?p = Some p1" .
  then show ?thesis
    by (simp add: WaitOsExitSignal_resume_def p1_def p0_def WaitOsExitSignal_start_def)
qed

theorem exit_signal_ends_the_wait_witness:
  "\<exists>p1 p2. deliver SIGTERM (WaitOsExitSignal_start 4 (process_start\<lparr>pr_sigterm := User_Handler 9\<rparr>)) = Some p1
     \<and> pr_user_calls p1 = [(9, SIGTERM)] \<and> WaitOsExitSignal_resume 4 p1 = Some p2 \<and> pr_sigterm p2 = User_Handler 9"
  using exit_signal_ends_the_wait [of SIGTERM "process_start\<lparr>pr_sigterm := User_Handler 9\<rparr>" 4]
  by (auto simp: installed_def process_start_def)

end
