(* ===== verification/Receiving.thy ===== *)
theory Receiving
  imports Broker Util Codec_Model
begin

text \<open>
  How a message reaches the broker: \<open>RecvSocketPuller\<close> reads the receiving socket on a thread
  of its own and calls a callback for each message; the callback spawns
  \<open>DispatchReceivedMessage\<close> on the broker actor, with its result discarded by
  \<open>DiscardResult\<close>, for which an error is fatal.
\<close>

section \<open>RecvSocketPuller\<close>

record puller =
  rp_stop_requested :: bool
  rp_stopped :: bool
  rp_joined :: bool

definition RecvSocketPuller_new :: puller where
  "RecvSocketPuller_new = \<lparr>rp_stop_requested = False, rp_stopped = False, rp_joined = False\<rparr>"

definition RecvSocketPuller_Stop :: "puller \<Rightarrow> puller" where
  "RecvSocketPuller_Stop p = p\<lparr>rp_stopped := True, rp_stop_requested := True, rp_joined := True\<rparr>"

text \<open>The destructor logs a critical message when \<open>Stop\<close> was not called.\<close>

definition RecvSocketPuller_dtor :: "puller \<Rightarrow> string list" where
  "RecvSocketPuller_dtor p =
     (if \<not> rp_stopped p then [''RecvSocketPuller destroyed without calling Stop() first''] else [])"

text \<open>
  \<open>Loop\<close>: one element per iteration, whether a stop has been requested when it is checked and
  what \<open>recv\<close> then returns, nothing after the timeout of 100 milliseconds. The result is the
  calls of the callback; \<open>None\<close> while the loop has not ended.
\<close>

fun RecvSocketPuller_Loop :: "(bool \<times> bytes option) list \<Rightarrow> bytes list \<times> bool" where
  "RecvSocketPuller_Loop [] = ([], False)"
| "RecvSocketPuller_Loop ((stop_requested, result) # rounds) =
     (if stop_requested then ([], True)
      else case result of
             None \<Rightarrow> RecvSocketPuller_Loop rounds
           | Some msg \<Rightarrow> (case RecvSocketPuller_Loop rounds of (calls, ended) \<Rightarrow> (msg # calls, ended)))"

lemma RecvSocketPuller_Loop_eq:
  "RecvSocketPuller_Loop rounds =
     (List.map_filter snd (takeWhile (\<lambda>(stop, _). \<not> stop) rounds), \<exists>(stop, _) \<in> set rounds. stop)"
  by (induction rounds rule: RecvSocketPuller_Loop.induct) (auto simp: map_filter_def split: option.splits)

section \<open>The callback\<close>

definition completion_of :: "exa_error + 'a \<Rightarrow> (unit, exa_error) completion" where
  "completion_of r = (case r of Inl e \<Rightarrow> Set_Error e | Inr _ \<Rightarrow> Set_Value ())"

text \<open>What the spawned sender does for one message.\<close>

definition on_received :: "broker_env \<Rightarrow> bytes \<Rightarrow> broker \<Rightarrow> exa_error list \<times> exa_error discard_outcome \<times> broker" where
  "on_received env raw b =
     (case DispatchReceivedMessage env raw b of
        (r, b') \<Rightarrow> (case DiscardResult True (completion_of r) of (log, outcome) \<Rightarrow> (log, outcome, b')))"

text \<open>A sequence of messages; \<open>None\<close> when the process is terminated on the way.\<close>

fun receive_all :: "broker_env \<Rightarrow> bytes list \<Rightarrow> broker \<Rightarrow> broker option" where
  "receive_all env [] b = Some b"
| "receive_all env (raw # raws) b =
     (case on_received env raw b of (_, Terminated, _) \<Rightarrow> None | (_, Completed _, b') \<Rightarrow> receive_all env raws b')"

lemma on_received_terminates:
  "fst (snd (on_received env raw b)) = Terminated \<longleftrightarrow> (\<exists>e b'. DispatchReceivedMessage env raw b = (Inl e, b'))"
  by (auto simp: on_received_def completion_of_def DiscardResult_def split: prod.splits sum.splits)

section \<open>Properties\<close>

text \<open>
  a message the broker cannot use ends the process. A message that does not decode, one
  that is a request or a response for another node, or a gossip that gives a known node
  another address, is an error of \<open>DispatchReceivedMessage\<close>, and the callback makes that
  error fatal, whatever came before it and wherever it came from.
\<close>

theorem unusable_message_terminates:
  assumes "(\<exists>e. dec_broker (be_codec env) raw = Inl e)
      \<or> (\<exists>m. dec_broker (be_codec env) raw = Inr (Two_Way m)
           \<and> tw_request_node_id m \<noteq> br_this_node_id b \<and> tw_response_node_id m \<noteq> br_this_node_id b)
      \<or> (\<exists>from s rest cur. dec_broker (be_codec env) raw = Inr (Gossip \<lparr>gm_from_node_id = from, gm_node_states = s # rest\<rparr>)
           \<and> map_of (br_nodes b) (ns_node_id s) = Some cur \<and> ns_address cur \<noteq> ns_address s)"
  shows "fst (snd (on_received env raw b)) = Terminated \<and> receive_all env (raw # raws) b = None"
proof -
  have "\<exists>e b'. DispatchReceivedMessage env raw b = (Inl e, b')"
    using assms
    by (auto simp: DispatchReceivedMessage_def HandleGossipMessage_def HandleGossip_one_def eff_defs)
  then have "fst (snd (on_received env raw b)) = Terminated" by (simp only: on_received_terminates)
  then show ?thesis by (auto split: prod.splits)
qed

theorem unusable_message_terminates_witness:
  "receive_all \<lparr>be_codec = plain_codec, be_bind_ok = (\<lambda>_. True), be_connect_ok = (\<lambda>_. True), be_send_ok = (\<lambda>_. True)\<rparr>
     [[], [1, 2]] (MessageBroker_init 5 \<lparr>cl_listen_address = ''tcp://a'', cl_contact_node_address = [],
       cl_network_config = NetworkConfig_default, cl_node_name = ''a''\<rparr>) = None"
proof -
  have "dec_broker plain_codec [] = Inl (Codec_Error ''malformed message'')" by (simp add: plain_codec_def decode_with_def)
  then show ?thesis by (intro unusable_message_terminates [THEN conjunct2]) simp
qed

end
