(* ===== verification/Env_Logging.thy ===== *)
theory Env_Logging
  imports Exa_Prelude
begin

text \<open>
  Configuration from the environment (\<open>GetEnv\<close> of \<open>constants.h\<close>) and the logging helpers of
  \<open>logging.h\<close> and \<open>logging.cc\<close>: the levels, the choice of the sink, and the text of
  \<open>EXA_DUMP_VARS\<close>. \<open>strtoull\<close> and \<open>strtoll\<close> in base ten are modelled from the C standard,
  for the ASCII locale.
\<close>

section \<open>Parsing a number\<close>

definition is_space :: "char \<Rightarrow> bool" where
  "is_space c \<longleftrightarrow> c = CHR '' '' \<or> (9 \<le> (of_char c :: nat) \<and> (of_char c :: nat) \<le> 13)"

definition is_digit :: "char \<Rightarrow> bool" where
  "is_digit c \<longleftrightarrow> 48 \<le> (of_char c :: nat) \<and> (of_char c :: nat) \<le> 57"

definition digit_value :: "char \<Rightarrow> nat" where
  "digit_value c = of_char c - 48"

definition digits_value :: "string \<Rightarrow> nat" where
  "digits_value ds = foldl (\<lambda>n c. 10 * n + digit_value c) 0 ds"

text \<open>The sign and the digits of the subject sequence; no conversion is performed without digits.\<close>

definition split_sign :: "string \<Rightarrow> bool \<times> string" where
  "split_sign s = (case s of [] \<Rightarrow> (False, []) | c # cs \<Rightarrow>
     if c = CHR ''-'' then (True, cs) else if c = CHR ''+'' then (False, cs) else (False, s))"

definition subject :: "string \<Rightarrow> bool \<times> string" where
  "subject s = (case split_sign (dropWhile is_space s) of (neg, rest) \<Rightarrow> (neg, takeWhile is_digit rest))"

definition strtoull :: "string \<Rightarrow> u64" where
  "strtoull s = (case subject s of (neg, ds) \<Rightarrow>
     if digits_value ds \<ge> 2 ^ 64 then - 1
     else if neg then - word_of_nat (digits_value ds) else word_of_nat (digits_value ds))"

definition strtoll :: "string \<Rightarrow> int" where
  "strtoll s = (case subject s of (neg, ds) \<Rightarrow>
     let v = (if neg then - int (digits_value ds) else int (digits_value ds)) in
     max (- (2 ^ 63)) (min (2 ^ 63 - 1) v))"

section \<open>GetEnv\<close>

text \<open>\<open>val\<close> is what \<open>getenv\<close> returns; the three instances the library has, and \<open>std::string\<close>.\<close>

definition GetEnv :: "(string \<Rightarrow> 'a) \<Rightarrow> string option \<Rightarrow> 'a \<Rightarrow> 'a" where
  "GetEnv parse val default_val =
     (case val of None \<Rightarrow> default_val | Some s \<Rightarrow> if s = [] then default_val else parse s)"

definition GetEnv_u64 :: "string option \<Rightarrow> u64 \<Rightarrow> u64" where
  "GetEnv_u64 = GetEnv strtoull"

definition GetEnv_int :: "string option \<Rightarrow> 32 word \<Rightarrow> 32 word" where
  "GetEnv_int = GetEnv (\<lambda>s. word_of_int (strtoll s))"

definition GetEnv_string :: "string option \<Rightarrow> string \<Rightarrow> string" where
  "GetEnv_string = GetEnv (\<lambda>s. s)"

section \<open>Logging\<close>

text \<open>\<open>LogLevel\<close> is an enumeration over \<open>uint8_t\<close>: a value need not be one of its names.\<close>

type_synonym log_level = "8 word"

definition kDebug :: log_level where "kDebug = 0"
definition kInfo :: log_level where "kInfo = 1"
definition kWarn :: log_level where "kWarn = 2"
definition kError :: log_level where "kError = 3"
definition kFatal :: log_level where "kFatal = 4"

datatype spdlog_level = Spdlog_Debug | Spdlog_Info | Spdlog_Warn | Spdlog_Err | Spdlog_Critical

definition ToSpdlogLevel :: "log_level \<Rightarrow> exa_error + spdlog_level" where
  "ToSpdlogLevel level =
     (if level = kDebug then Inr Spdlog_Debug
      else if level = kInfo then Inr Spdlog_Info
      else if level = kWarn then Inr Spdlog_Warn
      else if level = kError then Inr Spdlog_Err
      else if level = kFatal then Inr Spdlog_Critical
      else Inl (Throw_Stream ''Invalid log level: ''))"

record log_config =
  lg_level :: log_level
  lg_file_path :: string

definition LogConfig_default :: log_config where
  "LogConfig_default = \<lparr>lg_level = kInfo, lg_file_path = []\<rparr>"

datatype log_sink = Stdout_Sink | File_Sink string

record logger =
  lo_name :: string
  lo_sink :: log_sink
  lo_level :: spdlog_level
  lo_pattern :: string

definition kDefaultLoggerPattern :: string where
  "kDefaultLoggerPattern = ''[%^%L%$%Y-%m-%d %T.%e%z %P/%t %s:%#] %v''"

text \<open>\<open>file_ok\<close> says whether the file sink can open its path; it throws otherwise.\<close>

definition CreateLoggerUsingConfig :: "(string \<Rightarrow> bool) \<Rightarrow> log_config \<Rightarrow> exa_error + logger" where
  "CreateLoggerUsingConfig file_ok config =
     bindR (if lg_file_path config = [] then Inr Stdout_Sink
            else if file_ok (lg_file_path config) then Inr (File_Sink (lg_file_path config))
            else Inl (User_Error ''Failed opening file'')) (\<lambda>sink.
     bindR (ToSpdlogLevel (lg_level config)) (\<lambda>level.
     Inr \<lparr>lo_name = ''ex_actor'', lo_sink = sink, lo_level = level, lo_pattern = kDefaultLoggerPattern\<rparr>))"

text \<open>\<open>ConfigureLogging\<close> replaces the global logger, unless creating the new one throws.\<close>

definition ConfigureLogging :: "(string \<Rightarrow> bool) \<Rightarrow> log_config \<Rightarrow> (logger, unit) eff" where
  "ConfigureLogging file_ok config =
     bindE (liftE (CreateLoggerUsingConfig file_ok config)) (\<lambda>l. modE (\<lambda>_. l))"

section \<open>EXA_DUMP_VARS\<close>

text \<open>
  \<open>names\<close> is the text of the arguments, \<open>values\<close> what each prints; \<open>end + 1\<close> for a name that
  is not followed by a comma is zero.
\<close>

definition until_comma :: "string \<Rightarrow> string" where
  "until_comma names = takeWhile (\<lambda>c. c \<noteq> CHR '','') names"

definition after_comma :: "string \<Rightarrow> string" where
  "after_comma names =
     (case dropWhile (\<lambda>c. c \<noteq> CHR '','') names of [] \<Rightarrow> names | _ # rest \<Rightarrow> rest)"

fun JoinVarsNameValue :: "string \<Rightarrow> string list \<Rightarrow> string" where
  "JoinVarsNameValue names [] = []"
| "JoinVarsNameValue names [v] = until_comma names @ ''='' @ v"
| "JoinVarsNameValue names (v # vs) =
     until_comma names @ ''='' @ v @ '','' @ JoinVarsNameValue (after_comma names) vs"

fun comma_join :: "string list \<Rightarrow> string" where
  "comma_join [] = []"
| "comma_join [n] = n"
| "comma_join (n # ns) = n @ '','' @ comma_join ns"

lemma comma_split:
  "CHR '','' \<notin> set n \<Longrightarrow> until_comma n = n"
  "CHR '','' \<notin> set n \<Longrightarrow> until_comma (n @ CHR '','' # rest) = n"
  "CHR '','' \<notin> set n \<Longrightarrow> after_comma (n @ CHR '','' # rest) = rest"
  by (induction n) (auto simp: until_comma_def after_comma_def)

lemma JoinVarsNameValue_names:
  "list_all2 (\<lambda>n v. CHR '','' \<notin> set n) ns vs \<Longrightarrow>
   JoinVarsNameValue (comma_join ns) vs = comma_join (map2 (\<lambda>n v. n @ ''='' @ v) ns vs)"
proof (induction ns arbitrary: vs rule: comma_join.induct)
  case (3 n m ns)
  then obtain v w ws where "vs = v # w # ws" by (auto simp: list_all2_Cons1)
  then show ?case using 3 by (auto simp: comma_split)
qed (auto simp: list_all2_Cons1 comma_split)

text \<open>The names are split at every comma, also at one inside an argument.\<close>

lemma dump_vars_splits_calls:
  "JoinVarsNameValue ''f(a, b), c'' [''1'', ''2''] = ''f(a=1, b)=2''"
  by (simp add: until_comma_def after_comma_def)

section \<open>Reading a printed number back\<close>

fun digits :: "nat \<Rightarrow> string" where
  "digits n = (if n < 10 then [char_of (48 + n)] else digits (n div 10) @ [char_of (48 + n mod 10)])"

declare digits.simps [simp del]

lemma digit_char: "d < 10 \<Longrightarrow> is_digit (char_of (48 + d)) \<and> digit_value (char_of (48 + d)) = d"
  by (simp add: is_digit_def digit_value_def)

lemma digits_props: "digits n \<noteq> [] \<and> (\<forall>c \<in> set (digits n). is_digit c) \<and> digits_value (digits n) = n"
proof (induction n rule: digits.induct)
  case (1 n)
  show ?case
  proof (cases "n < 10")
    case True
    then show ?thesis using digit_char [of n] by (simp add: digits.simps [of n] digits_value_def)
  next
    case False
    then show ?thesis using 1 digit_char [of "n mod 10"]
      by (auto simp: digits.simps [of n] digits_value_def)
  qed
qed

lemma digit_not_space: "is_digit c \<Longrightarrow> \<not> is_space c \<and> c \<noteq> CHR ''-'' \<and> c \<noteq> CHR ''+''"
  by (auto simp: is_digit_def is_space_def)

lemma subject_digits:
  assumes "\<forall>c \<in> set pre. is_space c" "rest = [] \<or> \<not> is_digit (hd rest)"
  shows "subject (pre @ digits n @ rest) = (False, digits n)"
proof -
  obtain c cs where ds: "digits n = c # cs" using digits_props [of n] by (cases "digits n") auto
  then have c: "is_digit c" "\<forall>c \<in> set (digits n). is_digit c" using digits_props [of n] by auto
  have "dropWhile is_space (pre @ digits n @ rest) = digits n @ rest"
    using assms(1) digit_not_space [OF c(1)] by (simp add: dropWhile_append3 ds)
  moreover have "split_sign (digits n @ rest) = (False, digits n @ rest)"
    using digit_not_space [OF c(1)] by (simp add: split_sign_def ds)
  moreover have "takeWhile is_digit (digits n @ rest) = digits n"
    using c(2) assms(2) by (cases rest) (auto simp: takeWhile_append)
  ultimately show ?thesis by (simp add: subject_def)
qed

section \<open>Properties\<close>

text \<open>
  a number in the environment is read as it is written. The decimal digits of a number
  below two to the 64, with any white space before and any text that is not a digit after,
  give that number; a larger one gives the largest value; an unset or empty variable gives
  the default; and a text without a number gives zero, not the default.
\<close>

theorem environment_number_is_read:
  assumes "\<forall>c \<in> set pre. is_space c" "rest = [] \<or> \<not> is_digit (hd rest)"
  shows "GetEnv_u64 (Some (pre @ digits n @ rest)) d = (if n < 2 ^ 64 then word_of_nat n else - 1)
     \<and> GetEnv_u64 None d = d \<and> GetEnv_u64 (Some []) d = d
     \<and> (c \<noteq> CHR ''-'' \<longrightarrow> c \<noteq> CHR ''+'' \<longrightarrow> \<not> is_digit c \<longrightarrow> \<not> is_space c \<longrightarrow> GetEnv_u64 (Some (pre @ c # rest)) d = 0)"
proof -
  have "pre @ digits n @ rest \<noteq> []" using digits_props [of n] by simp
  then have "GetEnv_u64 (Some (pre @ digits n @ rest)) d = (if n < 2 ^ 64 then word_of_nat n else - 1)"
    using subject_digits [OF assms, of n] digits_props [of n]
    by (simp add: GetEnv_u64_def GetEnv_def strtoull_def)
  moreover have "GetEnv_u64 (Some (pre @ c # rest)) d = 0"
    if "c \<noteq> CHR ''-''" "c \<noteq> CHR ''+''" "\<not> is_digit c" "\<not> is_space c"
  proof -
    have "dropWhile is_space (pre @ c # rest) = c # rest" using assms(1) that(4) by (simp add: dropWhile_append3)
    then show ?thesis using that
      by (simp add: GetEnv_u64_def GetEnv_def strtoull_def subject_def split_sign_def digits_value_def)
  qed
  ultimately show ?thesis by (simp add: GetEnv_u64_def GetEnv_def)
qed

theorem environment_number_is_read_witness:
  "GetEnv_u64 (Some ('' '' @ digits 500 @ ''ms'')) 7 = 500"
  using environment_number_is_read [of "'' ''" "''ms''" 500 7] by (simp add: is_space_def is_digit_def)

end
