(* ===== verification/Node_Pool.thy ===== *)
theory Node_Pool
  imports Exa_Prelude
begin

text \<open>
  The nodes of \<open>daking::MPSC_queue\<close> (\<open>3rd_lib/daking/MPSC_queue.h\<close>), the unbounded queue behind
  an actor's mailbox: a global stack of chunks of free nodes, linked through \<open>next_chunk_\<close>,
  each chunk a list of \<open>ThreadLocalCapacity\<close> nodes linked through \<open>next_\<close>; a list of free
  nodes per thread; and the pages everything was allocated in. A node is its address, here a
  number; addresses are given out in increasing order.

  A push to or a pop from the chunk stack takes effect in its compare-and-swap (\<open>Chunk_Stack\<close>)
  and \<open>reserve\<close> runs under the global mutex; each is one step here. What else an allocation
  touches belongs to the calling thread.
\<close>

section \<open>State\<close>

record node_pool =
  np_next :: "nat \<Rightarrow> nat option"
  np_next_chunk :: "nat \<Rightarrow> nat option"
  np_top :: "nat option"
  np_tag :: nat
  np_pages :: "(nat \<times> nat) list"
  np_fresh :: nat
  np_node_count :: nat
  np_thread_local :: "nat \<Rightarrow> nat option \<times> nat"

definition node_pool_new :: node_pool where
  "node_pool_new = \<lparr>np_next = (\<lambda>_. None), np_next_chunk = (\<lambda>_. None), np_top = None, np_tag = 0, np_pages = [],
     np_fresh = 0, np_node_count = 0, np_thread_local = (\<lambda>_. (None, 0))\<rparr>"

section \<open>Chunks and pages\<close>

definition chunk_push :: "nat \<Rightarrow> node_pool \<Rightarrow> node_pool" where
  "chunk_push chunk s = s\<lparr>np_next_chunk := (np_next_chunk s)(chunk := np_top s), np_top := Some chunk, np_tag := np_tag s + 1\<rparr>"

definition chunk_try_pop :: "node_pool \<Rightarrow> (nat \<times> node_pool) option" where
  "chunk_try_pop s =
     (case np_top s of
        None \<Rightarrow> None
      | Some chunk \<Rightarrow> Some (chunk, s\<lparr>np_top := np_next_chunk s chunk, np_tag := np_tag s + 1\<rparr>))"

text \<open>\<open>MPSC_manager::reserve\<close>: one iteration of the loop over the new nodes, and the loop.\<close>

definition reserve_one :: "nat \<Rightarrow> nat \<Rightarrow> nat \<Rightarrow> node_pool \<Rightarrow> node_pool" where
  "reserve_one cap base i s =
     (let s1 = s\<lparr>np_next := (np_next s)(base + i := Some (base + i + 1))\<rparr> in
      if i mod cap = cap - 1
      then chunk_push (base + (i + 1 - cap)) (s1\<lparr>np_next := (np_next s1)(base + i := None)\<rparr>)
      else s1)"

definition pool_reserve :: "nat \<Rightarrow> nat \<Rightarrow> node_pool \<Rightarrow> node_pool" where
  "pool_reserve cap n s =
     (let base = np_fresh s;
          s1 = s\<lparr>np_fresh := base + n, np_pages := (base, n) # np_pages s\<rparr>;
          s2 = fold (reserve_one cap base) [0..<n] s1
      in s2\<lparr>np_node_count := np_node_count s2 + n\<rparr>)"

definition reserve_global_external :: "nat \<Rightarrow> nat \<Rightarrow> node_pool \<Rightarrow> bool \<times> node_pool" where
  "reserve_global_external cap chunk_count s =
     (if np_node_count s div cap \<ge> chunk_count then (False, s)
      else (True, pool_reserve cap ((chunk_count - np_node_count s div cap) * cap) s))"

definition reserve_global_internal :: "nat \<Rightarrow> node_pool \<Rightarrow> node_pool" where
  "reserve_global_internal cap s =
     (if np_top s \<noteq> None then s else pool_reserve cap (max cap (np_node_count s)) s)"

text \<open>\<open>MPSC_manager::reset\<close> and \<open>_free_global\<close>: every page is freed, every list is emptied.\<close>

definition free_global :: "node_pool \<Rightarrow> node_pool" where
  "free_global s = s\<lparr>np_top := None, np_tag := 0, np_thread_local := (\<lambda>_. (None, 0)), np_pages := [], np_node_count := 0\<rparr>"

section \<open>Allocation\<close>

partial_function (option) pop_or_reserve :: "nat \<Rightarrow> node_pool \<Rightarrow> (nat \<times> node_pool) option" where
  "pop_or_reserve cap s =
     (case chunk_try_pop s of
        Some r \<Rightarrow> Some r
      | None \<Rightarrow> pop_or_reserve cap (reserve_global_internal cap s))"

text \<open>\<open>_allocate\<close>; no result when the loop does not end or a free list is shorter than its size.\<close>

definition allocate_node :: "nat \<Rightarrow> nat \<Rightarrow> node_pool \<Rightarrow> (nat \<times> node_pool) option" where
  "allocate_node cap t s =
     (let (node_list, node_size) = np_thread_local s t in
      case (if node_size = 0
            then map_option (\<lambda>(chunk, s'). ((Some chunk, cap), s')) (pop_or_reserve cap s)
            else Some ((node_list, node_size), s)) of
        None \<Rightarrow> None
      | Some ((node_list, node_size), s') \<Rightarrow>
          (case node_list of
             None \<Rightarrow> None
           | Some res \<Rightarrow>
               Some (res, s'\<lparr>np_thread_local := (np_thread_local s')(t := (np_next s' res, node_size - 1)),
                             np_next := (np_next s')(res := None)\<rparr>)))"

definition deallocate_node :: "nat \<Rightarrow> nat \<Rightarrow> nat \<Rightarrow> node_pool \<Rightarrow> node_pool" where
  "deallocate_node cap t node s =
     (let (node_list, node_size) = np_thread_local s t;
          s1 = s\<lparr>np_next := (np_next s)(node := node_list)\<rparr> in
      if node_size + 1 \<ge> cap
      then (chunk_push node s1)\<lparr>np_thread_local := (np_thread_local s1)(t := (None, 0))\<rparr>
      else s1\<lparr>np_thread_local := (np_thread_local s1)(t := (Some node, node_size + 1))\<rparr>)"

section \<open>The invariant\<close>

text \<open>
  \<open>chunks\<close> is the content of the chunk stack, \<open>locals\<close> that of each thread's list. \<open>pool_lists\<close>
  says that the pointers spell these lists; no node is in two places.
\<close>

definition pool_lists :: "nat \<Rightarrow> node_pool \<Rightarrow> nat list list \<Rightarrow> (nat \<Rightarrow> nat list) \<Rightarrow> bool" where
  "pool_lists cap s chunks locals \<longleftrightarrow>
     links (np_next_chunk s) (np_top s) (map hd chunks)
     \<and> (\<forall>c \<in> set chunks. c \<noteq> [] \<and> length c = cap \<and> links (np_next s) (Some (hd c)) c)
     \<and> (\<forall>t. links (np_next s) (fst (np_thread_local s t)) (locals t) \<and> length (locals t) = snd (np_thread_local s t)
          \<and> snd (np_thread_local s t) < cap)
     \<and> distinct (concat chunks) \<and> (\<forall>t. distinct (locals t) \<and> set (locals t) \<inter> set (concat chunks) = {})
     \<and> (\<forall>t u. t \<noteq> u \<longrightarrow> set (locals t) \<inter> set (locals u) = {})
     \<and> (\<forall>x \<in> set (concat chunks) \<union> (\<Union>t. set (locals t)). x < np_fresh s)
     \<and> cap dvd np_node_count s"

definition pool_ok :: "nat \<Rightarrow> node_pool \<Rightarrow> bool" where
  "pool_ok cap s \<longleftrightarrow> 0 < cap \<and> (\<exists>chunks locals. pool_lists cap s chunks locals)"

text \<open>The free nodes, read off the pointers, and the nodes that are in use.\<close>

definition free_nodes :: "nat \<Rightarrow> node_pool \<Rightarrow> nat set" where
  "free_nodes cap s = {x. \<exists>chunks locals. pool_lists cap s chunks locals \<and> (x \<in> set (concat chunks) \<or> (\<exists>t. x \<in> set (locals t)))}"

definition used_nodes :: "nat \<Rightarrow> node_pool \<Rightarrow> nat set" where
  "used_nodes cap s = {x. x < np_fresh s} - free_nodes cap s"

lemma chunk_of_links: "links nx (Some (hd c)) c \<Longrightarrow> links nx (Some (hd d)) d \<Longrightarrow> hd c = hd d \<Longrightarrow> c = d"
  using links_unique by metis

lemma pool_listsD:
  assumes "pool_lists cap s chunks locals"
  shows "links (np_next_chunk s) (np_top s) (map hd chunks)"
    and "c \<in> set chunks \<Longrightarrow> c \<noteq> [] \<and> length c = cap \<and> links (np_next s) (Some (hd c)) c"
    and "links (np_next s) (fst (np_thread_local s t)) (locals t) \<and> length (locals t) = snd (np_thread_local s t) \<and> snd (np_thread_local s t) < cap"
    and "distinct (concat chunks)"
    and "distinct (locals t) \<and> set (locals t) \<inter> set (concat chunks) = {}"
    and "t \<noteq> u \<Longrightarrow> set (locals t) \<inter> set (locals u) = {}"
    and "x \<in> set (concat chunks) \<or> x \<in> set (locals t) \<Longrightarrow> x < np_fresh s"
    and "cap dvd np_node_count s"
  using assms by (auto simp: pool_lists_def)

lemma pool_lists_unique:
  assumes "pool_lists cap s chunks locals" "pool_lists cap s chunks' locals'"
  shows "chunks = chunks' \<and> locals = locals'"
proof
  have heads: "map hd chunks = map hd chunks'"
    by (rule links_unique [OF assms(1) [THEN pool_listsD(1)] assms(2) [THEN pool_listsD(1)]])
  show "chunks = chunks'"
  proof (rule nth_equalityI)
    show len: "length chunks = length chunks'" using heads map_eq_imp_length_eq by blast
    fix i assume i: "i < length chunks"
    then have "hd (chunks ! i) = hd (chunks' ! i)" using heads len by (metis nth_map)
    moreover have "chunks ! i \<in> set chunks" "chunks' ! i \<in> set chunks'" using i len by simp_all
    then have "links (np_next s) (Some (hd (chunks ! i))) (chunks ! i)" "links (np_next s) (Some (hd (chunks' ! i))) (chunks' ! i)"
      using assms [THEN pool_listsD(2)] by blast+
    ultimately show "chunks ! i = chunks' ! i" using chunk_of_links by blast
  qed
  show "locals = locals'"
  proof
    fix t
    have "links (np_next s) (fst (np_thread_local s t)) (locals t)" "links (np_next s) (fst (np_thread_local s t)) (locals' t)"
      using assms [THEN pool_listsD(3)] by blast+
    then show "locals t = locals' t" by (rule links_unique)
  qed
qed

lemma free_nodes_eq:
  "pool_lists cap s chunks locals \<Longrightarrow> free_nodes cap s = set (concat chunks) \<union> (\<Union>t. set (locals t))"
proof -
  assume l: "pool_lists cap s chunks locals"
  then have "pool_lists cap s chunks' locals' \<longleftrightarrow> chunks' = chunks \<and> locals' = locals" for chunks' locals'
    using l pool_lists_unique by metis
  then show ?thesis by (auto simp: free_nodes_def)
qed

section \<open>Pushing and popping chunks\<close>

text \<open>A step changes only nodes it takes from, or gives to, one list.\<close>

lemma chunk_push_lists:
  assumes l: "pool_lists cap s chunks locals" and c: "c \<noteq> []" "length c = cap" "links (np_next s) (Some (hd c)) c" "distinct c"
    and new: "set c \<inter> set (concat chunks) = {}" "\<And>t. set c \<inter> set (locals t) = {}" "\<forall>x \<in> set c. x < np_fresh s"
  shows "pool_lists cap (chunk_push (hd c) s) (c # chunks) locals"
proof -
  have "hd c \<in> set c" using c(1) by simp
  moreover have "set (map hd chunks) \<subseteq> set (concat chunks)" using pool_listsD(2) [OF l] by (auto intro: hd_in_set)
  ultimately have "hd c \<notin> set (map hd chunks)" using new(1) by blast
  then have "links (np_next_chunk (chunk_push (hd c) s)) (np_top (chunk_push (hd c) s)) (map hd (c # chunks))"
    using pool_listsD(1) [OF l] by (simp add: chunk_push_def)
  then show ?thesis
    using l c new unfolding pool_lists_def by (simp add: chunk_push_def ball_Un Int_Un_distrib Int_commute)
qed

lemma chunk_pop_lists:
  assumes l: "pool_lists cap s chunks locals" and pop: "chunk_try_pop s = Some (n, s')"
  shows "\<exists>c rest. chunks = c # rest \<and> n = hd c \<and> pool_lists cap s' rest locals \<and> np_next s' = np_next s \<and> np_fresh s' = np_fresh s
     \<and> np_thread_local s' = np_thread_local s"
proof -
  from pop obtain "np_top s = Some n" and s': "s' = s\<lparr>np_top := np_next_chunk s n, np_tag := np_tag s + 1\<rparr>"
    by (auto simp: chunk_try_pop_def split: option.splits)
  then obtain c rest where c: "chunks = c # rest" "n = hd c" "links (np_next_chunk s) (np_next_chunk s n) (map hd rest)"
    using pool_listsD(1) [OF l] by (cases chunks) auto
  then show ?thesis using l s' unfolding pool_lists_def by (auto simp: Int_Un_distrib)
qed

lemma chunk_pop_none: "pool_lists cap s chunks locals \<Longrightarrow> chunk_try_pop s = None \<longleftrightarrow> chunks = []"
  using pool_listsD(1) [of cap s chunks locals] by (cases chunks) (auto simp: chunk_try_pop_def split: option.splits)

section \<open>Reserving\<close>

text \<open>A whole chunk of new nodes, from an address that is a multiple of the capacity above the base.\<close>

lemma reserve_chunk:
  assumes "0 < cap"
  shows "fold (reserve_one cap base) [k * cap..<k * cap + cap] s =
     chunk_push (base + k * cap) (s\<lparr>np_next := (\<lambda>x. if x \<in> {base + k * cap..<base + k * cap + cap}
       then if x = base + k * cap + cap - 1 then None else Some (x + 1) else np_next s x)\<rparr>)"
proof -
  define b where "b = base + k * cap"
  have partial: "j < cap \<Longrightarrow> fold (reserve_one cap base) [k * cap..<k * cap + j] s =
      s\<lparr>np_next := (\<lambda>x. if x \<in> {b..<b + j} then Some (x + 1) else np_next s x)\<rparr>" for j
  proof (induction j)
    case (Suc j)
    have "(k * cap + j) mod cap = j" using Suc.prems by simp
    then have "reserve_one cap base (k * cap + j) s1 = s1\<lparr>np_next := (np_next s1)(b + j := Some (b + j + 1))\<rparr>" for s1
      using Suc.prems by (auto simp: reserve_one_def b_def add_ac Let_def)
    then show ?case using Suc by (auto simp: fun_eq_iff)
  qed simp
  define j where "j = cap - 1"
  have j: "cap = Suc j" "j < cap" using assms by (simp_all add: j_def)
  have mod: "(k * cap + j) mod cap = j" using j(2) by simp
  have "fold (reserve_one cap base) [k * cap..<k * cap + cap] s
      = reserve_one cap base (k * cap + j) (s\<lparr>np_next := (\<lambda>x. if x \<in> {b..<b + j} then Some (x + 1) else np_next s x)\<rparr>)"
    using partial [OF j(2)] j(1) by simp
  also have "\<dots> = chunk_push b (s\<lparr>np_next := (\<lambda>x. if x \<in> {b..<b + cap} then if x = b + cap - 1 then None else Some (x + 1) else np_next s x)\<rparr>)"
  proof -
    have "base + (k * cap + j + 1 - cap) = b" using j(1) by (simp add: b_def)
    moreover have "(\<lambda>x. if x \<in> {b..<b + j} then Some (x + 1) else np_next s x)(base + (k * cap + j) := Some (base + (k * cap + j) + 1), base + (k * cap + j) := None)
       = (\<lambda>x. if x \<in> {b..<b + cap} then if x = b + cap - 1 then None else Some (x + 1) else np_next s x)"
      using j(1) by (auto simp: b_def fun_eq_iff)
    ultimately show ?thesis using mod j(1) by (simp add: reserve_one_def j_def [symmetric] del: fun_upd_upd)
  qed
  finally show ?thesis unfolding b_def .
qed

lemma links_upt:
  assumes "\<And>x. a \<le> x \<Longrightarrow> x < b \<Longrightarrow> nx x = (if x = b - 1 then None else Some (x + 1))" "a < b"
  shows "links nx (Some a) [a..<b]"
proof -
  have "a \<le> c \<Longrightarrow> c \<le> b \<Longrightarrow> links nx (if c < b then Some c else None) [c..<b]" for c
  proof (induction "b - c" arbitrary: c)
    case (Suc n)
    then have "c < b" "links nx (if c + 1 < b then Some (c + 1) else None) [c + 1..<b]"
      using Suc.hyps(1) [of "c + 1"] by simp_all
    moreover have "nx c = (if c + 1 < b then Some (c + 1) else None)" using assms(1) [of c] Suc.prems \<open>c < b\<close> by auto
    ultimately show ?case by (simp add: upt_conv_Cons)
  qed simp
  from this [of a] assms(2) show ?thesis by simp
qed

text \<open>The lists do not depend on the links of nodes that are in none of them.\<close>

lemma pool_lists_next:
  assumes l: "pool_lists cap s chunks locals"
    and eq: "\<And>x. x \<in> set (concat chunks) \<or> (\<exists>t. x \<in> set (locals t)) \<Longrightarrow> nx x = np_next s x"
  shows "pool_lists cap (s\<lparr>np_next := nx\<rparr>) chunks locals"
proof -
  have "links nx (Some (hd c)) c" if "c \<in> set chunks" for c
  proof -
    have "links nx (Some (hd c)) c = links (np_next s) (Some (hd c)) c" using that eq by (intro links_cong) auto
    then show ?thesis using pool_listsD(2) [OF l that] by simp
  qed
  moreover have "links nx (fst (np_thread_local s t)) (locals t)" for t
  proof -
    have "links nx (fst (np_thread_local s t)) (locals t) = links (np_next s) (fst (np_thread_local s t)) (locals t)"
      using eq by (intro links_cong) auto
    then show ?thesis using pool_listsD(3) [OF l] by simp
  qed
  ultimately show ?thesis using l by (simp add: pool_lists_def)
qed

definition new_chunks :: "nat \<Rightarrow> nat \<Rightarrow> nat \<Rightarrow> nat list list" where
  "new_chunks cap base m = rev (map (\<lambda>k. [base + k * cap..<base + k * cap + cap]) [0..<m])"

lemma new_chunks_simps [simp]:
  "new_chunks cap base 0 = []"
  "new_chunks cap base (Suc m) = [base + m * cap..<base + m * cap + cap] # new_chunks cap base m"
  by (simp_all add: new_chunks_def)

lemma set_new_chunks: "set (concat (new_chunks cap base m)) = {base..<base + m * cap}"
  by (induction m) (auto simp: algebra_simps)

lemma reserve_chunks:
  assumes l: "pool_lists cap s chunks locals" and cap: "0 < cap"
    and below: "\<And>x. x \<in> set (concat chunks) \<or> (\<exists>t. x \<in> set (locals t)) \<Longrightarrow> x < base" and room: "base + m * cap \<le> np_fresh s"
  defines "s' \<equiv> fold (reserve_one cap base) [0..<m * cap] s"
  shows "pool_lists cap s' (new_chunks cap base m @ chunks) locals
    \<and> np_fresh s' = np_fresh s \<and> np_node_count s' = np_node_count s \<and> (\<forall>x < base. np_next s' x = np_next s x)"
  unfolding s'_def using room
proof (induction m)
  case 0
  then show ?case using l by simp
next
  case (Suc m)
  define s1 where "s1 = fold (reserve_one cap base) [0..<m * cap] s"
  have IH: "pool_lists cap s1 (new_chunks cap base m @ chunks) locals" "np_fresh s1 = np_fresh s" "np_node_count s1 = np_node_count s"
    "\<forall>x < base. np_next s1 x = np_next s x" using Suc by (simp_all add: s1_def)
  define b where "b = base + m * cap"
  define nx where "nx = (\<lambda>x. if x \<in> {b..<b + cap} then if x = b + cap - 1 then None else Some (x + 1) else np_next s1 x)"
  define c where "c = [b..<b + cap]"
  have listed: "x < b" if "x \<in> set (concat (new_chunks cap base m @ chunks)) \<or> (\<exists>t. x \<in> set (locals t))" for x
  proof -
    have "x \<in> {base..<base + m * cap} \<or> x < base"
      using that below [of x] set_new_chunks [of cap base m] by (auto simp only: concat_append set_append Un_iff)
    then show ?thesis by (auto simp: b_def)
  qed
  have "pool_lists cap (s1\<lparr>np_next := nx\<rparr>) (new_chunks cap base m @ chunks) locals"
    by (rule pool_lists_next [OF IH(1)]) (use listed in \<open>force simp: nx_def\<close>)
  moreover have "links nx (Some (hd c)) c" "c \<noteq> []" "hd c = b" "length c = cap" "set c = {b..<b + cap}" "distinct c"
    using cap links_upt [of b "b + cap" nx] by (auto simp: c_def nx_def)
  moreover have "set c \<inter> set (concat (new_chunks cap base m @ chunks)) = {}" "set c \<inter> set (locals t) = {}" for t
    using listed by (fastforce simp: c_def)+
  moreover have "\<forall>x \<in> set c. x < np_fresh s1" using Suc.prems IH(2) by (auto simp: c_def b_def)
  ultimately have "pool_lists cap (chunk_push b (s1\<lparr>np_next := nx\<rparr>)) (c # new_chunks cap base m @ chunks) locals"
    using chunk_push_lists [of cap "s1\<lparr>np_next := nx\<rparr>" "new_chunks cap base m @ chunks" locals c] by simp
  moreover have "fold (reserve_one cap base) [0..<Suc m * cap] s = chunk_push b (s1\<lparr>np_next := nx\<rparr>)"
  proof -
    have "[0..<Suc m * cap] = [0..<m * cap] @ [m * cap..<m * cap + cap]" using upt_add_eq_append [of 0 "m * cap" cap] by (simp add: add.commute)
    moreover have "fold (reserve_one cap base) [m * cap..<m * cap + cap] s1 = chunk_push b (s1\<lparr>np_next := nx\<rparr>)"
      by (simp only: reserve_chunk [OF cap] nx_def b_def)
    ultimately show ?thesis by (simp add: s1_def)
  qed
  moreover have "x < base \<Longrightarrow> np_next (chunk_push b (s1\<lparr>np_next := nx\<rparr>)) x = np_next s x" for x
    using IH(4) by (auto simp: chunk_push_def nx_def b_def)
  ultimately show ?case using IH(2,3) by (simp add: c_def b_def chunk_push_def)
qed

lemma pool_reserve_lists:
  assumes l: "pool_lists cap s chunks locals" and cap: "0 < cap" "cap dvd n"
  defines "s' \<equiv> pool_reserve cap n s"
  shows "pool_lists cap s' (new_chunks cap (np_fresh s) (n div cap) @ chunks) locals
    \<and> np_fresh s' = np_fresh s + n \<and> (\<forall>x < np_fresh s. np_next s' x = np_next s x)"
proof -
  let ?base = "np_fresh s"
  define s1 where "s1 = s\<lparr>np_fresh := ?base + n, np_pages := (?base, n) # np_pages s\<rparr>"
  have l1: "pool_lists cap s1 chunks locals" using l by (auto simp: pool_lists_def s1_def intro: trans_less_add1)
  have n: "n div cap * cap = n" using cap(2) by simp
  define s2 where "s2 = fold (reserve_one cap ?base) [0..<n] s1"
  have s2: "pool_lists cap s2 (new_chunks cap ?base (n div cap) @ chunks) locals
    \<and> np_fresh s2 = ?base + n \<and> np_node_count s2 = np_node_count s \<and> (\<forall>x < ?base. np_next s2 x = np_next s x)"
    using reserve_chunks [OF l1 cap(1), of ?base "n div cap"] pool_listsD(7) [OF l] n
    by (simp add: s1_def s2_def) blast
  have "s' = s2\<lparr>np_node_count := np_node_count s2 + n\<rparr>"
    by (simp add: s'_def pool_reserve_def s2_def s1_def Let_def)
  moreover have "pool_lists cap (s2\<lparr>np_node_count := np_node_count s2 + n\<rparr>) (new_chunks cap ?base (n div cap) @ chunks) locals"
    using conjunct1 [OF s2] cap(2) by (simp add: pool_lists_def)
  ultimately show ?thesis using s2 by simp
qed

section \<open>The contract of the pool\<close>

text \<open>What an operation keeps: the pool stays well-formed, and the links of nodes in use stay as they are.\<close>

definition pool_keeps :: "nat \<Rightarrow> node_pool \<Rightarrow> node_pool \<Rightarrow> nat set \<Rightarrow> bool" where
  "pool_keeps cap s s' used \<longleftrightarrow> pool_ok cap s' \<and> used_nodes cap s' = used
     \<and> (\<forall>x \<in> used_nodes cap s \<inter> used. np_next s' x = np_next s x)"

lemma used_nodes_eq:
  "pool_lists cap s chunks locals \<Longrightarrow>
   used_nodes cap s = {x. x < np_fresh s \<and> x \<notin> set (concat chunks) \<and> (\<forall>t. x \<notin> set (locals t))}"
  by (auto simp: used_nodes_def free_nodes_eq)

lemma pool_reserve_keeps:
  assumes "pool_ok cap s" "cap dvd n"
  shows "pool_keeps cap s (pool_reserve cap n s) (used_nodes cap s)"
proof -
  obtain chunks locals where l: "pool_lists cap s chunks locals" and cap: "0 < cap" using assms(1) by (auto simp: pool_ok_def)
  note r = pool_reserve_lists [OF l cap assms(2)]
  have new: "set (concat (new_chunks cap (np_fresh s) (n div cap))) = {np_fresh s..<np_fresh s + n}"
    using set_new_chunks [of cap "np_fresh s" "n div cap"] assms(2) by simp
  have "used_nodes cap (pool_reserve cap n s) = used_nodes cap s"
    unfolding used_nodes_eq [OF l] used_nodes_eq [OF conjunct1 [OF r]] concat_append set_append Un_iff new
    using r pool_listsD(7) [OF l] by auto
  moreover have "x < np_fresh s" if "x \<in> used_nodes cap s" for x using that by (simp add: used_nodes_def)
  ultimately show ?thesis using r cap by (auto simp: pool_keeps_def pool_ok_def)
qed

lemma reserve_internal_keeps:
  assumes "pool_ok cap s"
  shows "pool_keeps cap s (reserve_global_internal cap s) (used_nodes cap s) \<and> np_top (reserve_global_internal cap s) \<noteq> None"
proof (cases "np_top s")
  case None
  obtain chunks locals where l: "pool_lists cap s chunks locals" and cap: "0 < cap" using assms by (auto simp: pool_ok_def)
  let ?n = "max cap (np_node_count s)"
  have dvd: "cap dvd ?n" using pool_listsD(8) [OF l] by (simp add: max_def)
  have "0 < ?n div cap" using cap by (simp add: div_greater_zero_iff)
  then obtain m where "?n div cap = Suc m" by (cases "?n div cap") auto
  then have "np_top (pool_reserve cap ?n s) \<noteq> None"
    using pool_listsD(1) [OF conjunct1 [OF pool_reserve_lists [OF l cap dvd]]] by auto
  then show ?thesis using pool_reserve_keeps [OF assms dvd] None by (simp add: reserve_global_internal_def)
qed (simp add: reserve_global_internal_def pool_keeps_def assms)

text \<open>The loop of \<open>_allocate\<close> ends after at most one reservation.\<close>

lemma pop_or_reserve_eq:
  assumes "pool_ok cap s"
  shows "pop_or_reserve cap s = (if np_top s \<noteq> None then chunk_try_pop s else chunk_try_pop (reserve_global_internal cap s))"
proof -
  have pop: "np_top s \<noteq> None \<Longrightarrow> pop_or_reserve cap s = chunk_try_pop s" for s
    by (auto simp: pop_or_reserve.simps [of cap s] chunk_try_pop_def split: option.splits)
  show ?thesis
  proof (cases "np_top s")
    case None
    then have "pop_or_reserve cap s = pop_or_reserve cap (reserve_global_internal cap s)"
      by (simp add: pop_or_reserve.simps [of cap s] chunk_try_pop_def)
    then show ?thesis using None pop reserve_internal_keeps [OF assms] by simp
  next
    case (Some n)
    then show ?thesis using pop [of s] by simp
  qed
qed

text \<open>The list of one thread, emptied and filled again.\<close>

definition with_local :: "nat \<Rightarrow> nat option \<times> nat \<Rightarrow> node_pool \<Rightarrow> node_pool" where
  "with_local t p s = s\<lparr>np_thread_local := (np_thread_local s)(t := p)\<rparr>"

lemma drop_local: "pool_lists cap s chunks locals \<Longrightarrow> pool_lists cap (with_local t (None, 0) s) chunks (locals(t := []))"
  by (auto simp: pool_lists_def with_local_def split: if_splits)

lemma fill_local:
  assumes l: "pool_lists cap s chunks locals" and empty: "locals t = []"
    and xs: "links (np_next s) p xs" "length xs < cap" "distinct xs" "\<forall>x \<in> set xs. x < np_fresh s"
    and new: "set xs \<inter> set (concat chunks) = {}" "\<And>u. set xs \<inter> set (locals u) = {}"
  shows "pool_lists cap (with_local t (p, length xs) s) chunks (locals(t := xs))"
  using assms unfolding pool_lists_def with_local_def by (auto simp: Int_commute split: if_splits)

lemma locals_split: "(\<forall>u. x \<notin> set (f u)) \<longleftrightarrow> x \<notin> set (f t) \<and> (\<forall>u. x \<notin> set ((f(t := [])) u))"
  by (metis empty_iff empty_set fun_upd_apply)

text \<open>Taking the first node of a list that is then the rest of the thread's list.\<close>

lemma take_first:
  assumes l: "pool_lists cap s chunks locals" and empty: "locals t = []"
    and xs: "links (np_next s) (Some n) (n # ys)" "length (n # ys) \<le> cap" "distinct (n # ys)" "\<forall>x \<in> set (n # ys). x < np_fresh s"
    and new: "set (n # ys) \<inter> set (concat chunks) = {}" "\<And>u. set (n # ys) \<inter> set (locals u) = {}"
  shows "pool_lists cap (with_local t (np_next s n, length ys) (s\<lparr>np_next := (np_next s)(n := None)\<rparr>)) chunks (locals(t := ys))"
proof (rule fill_local)
  show "pool_lists cap (s\<lparr>np_next := (np_next s)(n := None)\<rparr>) chunks locals"
    by (rule pool_lists_next [OF l]) (use new in auto)
  show "links (np_next (s\<lparr>np_next := (np_next s)(n := None)\<rparr>)) (np_next s n) ys" using xs(1,3) by simp
qed (use assms in auto)

lemma chunk_push_local [simp]: "np_thread_local (chunk_push c s) = np_thread_local s"
  by (simp add: chunk_push_def)

lemma reserve_local: "np_thread_local (fold (reserve_one cap base) is s) = np_thread_local s"
  by (induction "is" arbitrary: s) (simp_all add: reserve_one_def Let_def)

lemma reserve_internal_local: "np_thread_local (reserve_global_internal cap s) = np_thread_local s"
  by (simp add: reserve_global_internal_def pool_reserve_def Let_def reserve_local)

lemma allocate_keeps:
  assumes ok: "pool_ok cap s"
  shows "\<exists>res s'. allocate_node cap t s = Some (res, s') \<and> pool_keeps cap s s' (insert res (used_nodes cap s))
     \<and> res \<notin> used_nodes cap s \<and> np_next s' res = None"
proof -
  obtain chunks locals where l: "pool_lists cap s chunks locals" and cap: "0 < cap" using ok by (auto simp: pool_ok_def)
  note loc = pool_listsD(3,5) [OF l, of t]
  have done_if: "\<exists>res s'. allocate_node cap t s = Some (res, s') \<and> pool_keeps cap s s' (insert res (used_nodes cap s))
       \<and> res \<notin> used_nodes cap s \<and> np_next s' res = None"
    if alloc: "allocate_node cap t s = Some (n, with_local t (np_next s1 n, length ys) (s1\<lparr>np_next := (np_next s1)(n := None)\<rparr>))"
      and keep: "used_nodes cap s = {x. x < np_fresh s1 \<and> x \<notin> set (n # ys) \<and> x \<notin> set (concat rest) \<and> (\<forall>u. x \<notin> set ((locals1(t := [])) u))}"
        "\<forall>x \<in> used_nodes cap s. np_next s1 x = np_next s x"
      and taken: "pool_lists cap (with_local t (np_next s1 n, length ys) (s1\<lparr>np_next := (np_next s1)(n := None)\<rparr>)) rest ((locals1(t := []))(t := ys))"
      and n: "distinct (n # ys)" "n < np_fresh s1" "n \<notin> set (concat rest)" "\<And>u. n \<notin> set ((locals1(t := [])) u)"
    for n ys s1 rest locals1
  proof -
    let ?s = "with_local t (np_next s1 n, length ys) (s1\<lparr>np_next := (np_next s1)(n := None)\<rparr>)"
    have "used_nodes cap ?s = insert n (used_nodes cap s)"
    proof -
      have "n \<notin> set (locals1 u)" if "u \<noteq> t" for u using n(4) [of u] that by simp
      then show ?thesis unfolding used_nodes_eq [OF taken] keep(1) using n(1-3) by (auto simp: with_local_def split: if_splits)
    qed
    moreover have "n \<notin> used_nodes cap s" using keep(1) by simp
    moreover have "\<forall>x \<in> used_nodes cap s \<inter> insert n (used_nodes cap s). np_next ?s x = np_next s x"
      using keep(2) \<open>n \<notin> used_nodes cap s\<close> by (auto simp: with_local_def)
    moreover have "pool_ok cap ?s" using taken cap by (auto simp: pool_ok_def)
    ultimately show ?thesis using alloc by (simp add: pool_keeps_def) (simp add: with_local_def)
  qed
  show ?thesis
  proof (cases "snd (np_thread_local s t) = 0")
    case False
    then obtain n ys where ys: "locals t = n # ys" "fst (np_thread_local s t) = Some n" using loc by (cases "locals t") auto
    define s1 where "s1 = with_local t (None, 0) s"
    have l1: "pool_lists cap s1 chunks (locals(t := []))" using drop_local [OF l] by (simp add: s1_def)
    have same: "np_next s1 = np_next s" "np_fresh s1 = np_fresh s" by (simp_all add: s1_def with_local_def)
    have "\<And>u. set (n # ys) \<inter> set ((locals(t := [])) u) = {}" using pool_listsD(6) [OF l, of t] ys by auto
    then have taken: "pool_lists cap (with_local t (np_next s1 n, length ys) (s1\<lparr>np_next := (np_next s1)(n := None)\<rparr>)) chunks ((locals(t := []))(t := ys))"
      by (intro take_first [OF l1]) (use loc ys pool_listsD(7) [OF l, of _ t] same in auto)
    have "allocate_node cap t s = Some (n, with_local t (np_next s1 n, length ys) (s1\<lparr>np_next := (np_next s1)(n := None)\<rparr>))"
      using False ys loc by (cases "np_thread_local s t") (simp add: allocate_node_def s1_def with_local_def)
    then show ?thesis
    proof (rule done_if [OF _ _ _ taken])
      show "used_nodes cap s = {x. x < np_fresh s1 \<and> x \<notin> set (n # ys) \<and> x \<notin> set (concat chunks) \<and> (\<forall>u. x \<notin> set ((locals(t := [])) u))}"
        unfolding used_nodes_eq [OF l] ys(1) [symmetric] same(2) using locals_split [of _ locals t] by blast
      show "n < np_fresh s1" using pool_listsD(7) [OF l, of n t] ys same by simp
      show "n \<notin> set ((locals(t := [])) u)" for u using pool_listsD(6) [OF l, of t u] ys by auto
    qed (use loc ys same in auto)
  next
    case True
    then have empty: "locals t = []" using loc by simp
    define s0 where "s0 = (if np_top s \<noteq> None then s else reserve_global_internal cap s)"
    have s0: "pool_keeps cap s s0 (used_nodes cap s)" "np_top s0 \<noteq> None" "np_thread_local s0 = np_thread_local s"
      using reserve_internal_keeps [OF ok] reserve_internal_local ok by (auto simp: s0_def pool_keeps_def)
    have pop: "pop_or_reserve cap s = chunk_try_pop s0" using pop_or_reserve_eq [OF ok] by (simp add: s0_def)
    obtain chunks0 locals0 where l0: "pool_lists cap s0 chunks0 locals0" using s0(1) by (auto simp: pool_keeps_def pool_ok_def)
    have empty: "locals0 t = []" using pool_listsD(3) [OF l0, of t] s0(3) True by simp
    obtain n s1 where s1: "chunk_try_pop s0 = Some (n, s1)" using s0(2) by (auto simp: chunk_try_pop_def)
    obtain c rest where c: "chunks0 = c # rest" "n = hd c" "pool_lists cap s1 rest locals0" "np_next s1 = np_next s0"
      "np_fresh s1 = np_fresh s0" "np_thread_local s1 = np_thread_local s0"
      using chunk_pop_lists [OF l0 s1] by blast
    have "links (np_next s0) (Some n) c" "length c = cap" using pool_listsD(2) [OF l0, of c] c(1,2) by simp_all
    then obtain ys where ys: "c = n # ys" "links (np_next s0) (Some n) (n # ys)" "length ys = cap - 1"
      using links_head by fastforce
    have same: "locals0(t := []) = locals0" using empty by auto
    have dist: "distinct (n # ys)" "set (n # ys) \<inter> set (concat rest) = {}" "set (n # ys) \<inter> set (locals0 u) = {}" for u
      using pool_listsD(4) [OF l0] pool_listsD(5) [OF l0, of u] c(1) ys(1) by auto
    have fresh: "\<forall>x \<in> set (n # ys). x < np_fresh s1" using pool_listsD(7) [OF l0] c(1,5) ys(1) by auto
    have taken: "pool_lists cap (with_local t (np_next s1 n, length ys) (s1\<lparr>np_next := (np_next s1)(n := None)\<rparr>)) rest ((locals0(t := []))(t := ys))"
      unfolding same by (rule take_first [OF c(3) empty]) (use ys c(4) cap dist fresh in auto)
    have "allocate_node cap t s = Some (n, with_local t (np_next s1 n, length ys) (s1\<lparr>np_next := (np_next s1)(n := None)\<rparr>))"
      using True s1 ys(3) by (cases "np_thread_local s t") (simp add: allocate_node_def pop with_local_def)
    then show ?thesis
    proof (rule done_if [OF _ _ _ taken])
      show "used_nodes cap s = {x. x < np_fresh s1 \<and> x \<notin> set (n # ys) \<and> x \<notin> set (concat rest) \<and> (\<forall>u. x \<notin> set ((locals0(t := [])) u))}"
        using s0(1) used_nodes_eq [OF l0] c(1,5) ys(1) by (auto simp: pool_keeps_def same)
      show "\<forall>x \<in> used_nodes cap s. np_next s1 x = np_next s x" using s0(1) c(4) by (simp add: pool_keeps_def)
    qed (use dist fresh in \<open>auto simp: same\<close>)
  qed
qed

lemma deallocate_keeps:
  assumes ok: "pool_ok cap s" and node: "node \<in> used_nodes cap s"
  shows "pool_keeps cap s (deallocate_node cap t node s) (used_nodes cap s - {node})"
proof -
  obtain chunks locals where l: "pool_lists cap s chunks locals" and cap: "0 < cap" using ok by (auto simp: pool_ok_def)
  define p where "p = fst (np_thread_local s t)"
  define s1 where "s1 = with_local t (None, 0) (s\<lparr>np_next := (np_next s)(node := p)\<rparr>)"
  have unlisted: "node < np_fresh s" "node \<notin> set (concat chunks)" "\<And>u. node \<notin> set (locals u)"
    using node used_nodes_eq [OF l] by auto
  have "pool_lists cap (s\<lparr>np_next := (np_next s)(node := p)\<rparr>) chunks locals"
    by (rule pool_lists_next [OF l]) (use unlisted in auto)
  then have l1: "pool_lists cap s1 chunks (locals(t := []))" unfolding s1_def by (rule drop_local)
  note loc = pool_listsD(3,5) [OF l, of t]
  let ?xs = "node # locals t"
  have "links (np_next s) p (locals t)" using loc by (simp add: p_def)
  then have xs: "links (np_next s1) (Some node) ?xs" "distinct ?xs" "\<forall>x \<in> set ?xs. x < np_fresh s1" "set ?xs \<inter> set (concat chunks) = {}"
    "set ?xs \<inter> set ((locals(t := [])) u) = {}" for u
    using unlisted loc pool_listsD(7) [OF l, of _ t] pool_listsD(6) [OF l, of t u] by (auto simp: s1_def with_local_def)
  define s' where "s' = deallocate_node cap t node s"
  have "\<exists>chunks' locals'. pool_lists cap s' chunks' locals' \<and> set (concat chunks') \<union> (\<Union>u. set (locals' u))
      = insert node (set (concat chunks) \<union> (\<Union>u. set (locals u))) \<and> np_fresh s' = np_fresh s
      \<and> (\<forall>x. x \<noteq> node \<longrightarrow> np_next s' x = np_next s x)"
  proof (cases "snd (np_thread_local s t) + 1 \<ge> cap")
    case True
    then have "s' = chunk_push node s1"
      by (cases "np_thread_local s t") (simp add: s'_def deallocate_node_def s1_def with_local_def p_def chunk_push_def)
    moreover have "pool_lists cap (chunk_push (hd ?xs) s1) (?xs # chunks) (locals(t := []))"
      by (rule chunk_push_lists [OF l1]) (use xs loc True cap in auto)
    moreover have "set (concat (?xs # chunks)) \<union> (\<Union>u. set ((locals(t := [])) u)) = insert node (set (concat chunks) \<union> (\<Union>u. set (locals u)))"
      by (auto split: if_splits)
    ultimately show ?thesis by (intro exI conjI) (auto simp: chunk_push_def s1_def with_local_def)
  next
    case False
    then have "s' = with_local t (Some node, length ?xs) s1"
      using loc by (cases "np_thread_local s t") (simp add: s'_def deallocate_node_def s1_def with_local_def p_def)
    moreover have "pool_lists cap (with_local t (Some node, length ?xs) s1) chunks ((locals(t := []))(t := ?xs))"
      by (rule fill_local [OF l1]) (use xs loc False in auto)
    moreover have "set (concat chunks) \<union> (\<Union>u. set (((locals(t := []))(t := ?xs)) u)) = insert node (set (concat chunks) \<union> (\<Union>u. set (locals u)))"
      by (auto split: if_splits)
    ultimately show ?thesis
      by (intro exI [of _ chunks] exI [of _ "(locals(t := []))(t := ?xs)"] conjI) (auto simp: s1_def with_local_def fun_upd_other simp del: fun_upd_apply)
  qed
  then obtain chunks' locals' where l': "pool_lists cap s' chunks' locals'"
    "set (concat chunks') \<union> (\<Union>u. set (locals' u)) = insert node (set (concat chunks) \<union> (\<Union>u. set (locals u)))"
    "np_fresh s' = np_fresh s" "\<forall>x. x \<noteq> node \<longrightarrow> np_next s' x = np_next s x" by blast
  have "x \<in> used_nodes cap s' \<longleftrightarrow> x \<in> used_nodes cap s - {node}" for x
    using l'(2,3) unfolding used_nodes_eq [OF l'(1)] used_nodes_eq [OF l] set_eq_iff by (auto simp del: set_concat)
  then show ?thesis using l'(1,4) cap unfolding s'_def [symmetric] by (auto simp: pool_keeps_def pool_ok_def)
qed

text \<open>Writing the link of a node in use.\<close>

lemma set_next_keeps:
  assumes "pool_ok cap s" "a \<in> used_nodes cap s"
  shows "pool_ok cap (s\<lparr>np_next := (np_next s)(a := v)\<rparr>) \<and> used_nodes cap (s\<lparr>np_next := (np_next s)(a := v)\<rparr>) = used_nodes cap s"
proof -
  obtain chunks locals where l: "pool_lists cap s chunks locals" and cap: "0 < cap" using assms(1) by (auto simp: pool_ok_def)
  have l': "pool_lists cap (s\<lparr>np_next := (np_next s)(a := v)\<rparr>) chunks locals"
    by (rule pool_lists_next [OF l]) (use assms(2) used_nodes_eq [OF l] in auto)
  then show ?thesis using used_nodes_eq [OF l] used_nodes_eq [OF l'] cap by (auto simp: pool_ok_def)
qed

lemma node_pool_new_ok: "0 < cap \<Longrightarrow> pool_ok cap node_pool_new \<and> used_nodes cap node_pool_new = {}"
proof -
  assume cap: "0 < cap"
  then have l: "pool_lists cap node_pool_new [] (\<lambda>_. [])" by (simp add: pool_lists_def node_pool_new_def)
  then have "pool_ok cap node_pool_new" unfolding pool_ok_def using cap by blast
  moreover have "used_nodes cap node_pool_new = {}" unfolding used_nodes_eq [OF l] by (simp add: node_pool_new_def)
  ultimately show ?thesis by simp
qed

end
