(* ===== verification/Chunk_Stack.thy ===== *)
theory Chunk_Stack
  imports Node_Pool
begin

text \<open>
  \<open>MPSC_chunk_stack\<close> of \<open>3rd_lib/daking/MPSC_queue.h\<close>, access by access: the load of the tagged
  top, the access to \<open>next_chunk_\<close> (the place of a value while the chunk is in use) and the
  compare-and-swap, which may fail spuriously. \<open>Node_Pool\<close> takes a push or a pop as one step;
  here is why it may. Tags are counted without bound: the 64-bit tag does not wrap in practice.
\<close>

section \<open>Operations\<close>

type_synonym tagged_ptr = "nat option \<times> nat"

record chunk_stack =
  cs_top :: tagged_ptr
  cs_next_chunk :: "nat \<Rightarrow> nat option"

definition cs_reset :: "chunk_stack \<Rightarrow> chunk_stack" where
  "cs_reset s = s\<lparr>cs_top := (None, 0)\<rparr>"

definition compare_exchange :: "tagged_ptr \<Rightarrow> tagged_ptr \<Rightarrow> chunk_stack \<Rightarrow> bool \<times> chunk_stack" where
  "compare_exchange old new s = (if cs_top s = old then (True, s\<lparr>cs_top := new\<rparr>) else (False, s))"

definition push_link :: "nat \<Rightarrow> tagged_ptr \<Rightarrow> chunk_stack \<Rightarrow> chunk_stack" where
  "push_link chunk old s = s\<lparr>cs_next_chunk := (cs_next_chunk s)(chunk := fst old)\<rparr>"

definition push_cas :: "nat \<Rightarrow> tagged_ptr \<Rightarrow> chunk_stack \<Rightarrow> bool \<times> chunk_stack" where
  "push_cas chunk old = compare_exchange old (Some chunk, snd old + 1)"

definition pop_read :: "nat \<Rightarrow> chunk_stack \<Rightarrow> nat option" where
  "pop_read node s = cs_next_chunk s node"

definition pop_cas :: "tagged_ptr \<Rightarrow> nat option \<Rightarrow> chunk_stack \<Rightarrow> bool \<times> chunk_stack" where
  "pop_cas old new = compare_exchange old (new, snd old + 1)"

section \<open>Interleavings\<close>

text \<open>A thread in the loop of \<open>push\<close> or \<open>try_pop\<close>, before its access and before its exchange.\<close>

datatype cs_act = Push_Loaded nat tagged_ptr | Push_Linked nat tagged_ptr | Pop_Loaded nat nat | Pop_Read nat nat "nat option"

text \<open>\<open>cr_held\<close>: chunks whose nodes are in use; what is written into them is arbitrary.\<close>

record cs_run =
  cr_stack :: chunk_stack
  cr_acts :: "cs_act multiset"
  cr_held :: "nat multiset"

fun pop_loaded :: "tagged_ptr \<Rightarrow> cs_act multiset" where
  "pop_loaded (None, tag) = {#}"
| "pop_loaded (Some node, tag) = {#Pop_Loaded node tag#}"

inductive cs_step :: "cs_run \<Rightarrow> cs_run \<Rightarrow> bool" where
  push_load: "cr_held x = add_mset c H \<Longrightarrow>
    cs_step x (x\<lparr>cr_held := H, cr_acts := add_mset (Push_Loaded c (cs_top (cr_stack x))) (cr_acts x)\<rparr>)"
| push_link: "cr_acts x = add_mset (Push_Loaded c old) A \<Longrightarrow>
    cs_step x (x\<lparr>cr_stack := push_link c old (cr_stack x), cr_acts := add_mset (Push_Linked c old) A\<rparr>)"
| push_done: "cr_acts x = add_mset (Push_Linked c old) A \<Longrightarrow> push_cas c old (cr_stack x) = (True, s) \<Longrightarrow>
    cs_step x (x\<lparr>cr_stack := s, cr_acts := A\<rparr>)"
| push_again: "cr_acts x = add_mset (Push_Linked c old) A \<Longrightarrow>
    cs_step x (x\<lparr>cr_acts := add_mset (Push_Loaded c (cs_top (cr_stack x))) A\<rparr>)"
| pop_load: "cs_step x (x\<lparr>cr_acts := cr_acts x + pop_loaded (cs_top (cr_stack x))\<rparr>)"
| pop_read: "cr_acts x = add_mset (Pop_Loaded c tag) A \<Longrightarrow>
    cs_step x (x\<lparr>cr_acts := add_mset (Pop_Read c tag (pop_read c (cr_stack x))) A\<rparr>)"
| pop_done: "cr_acts x = add_mset (Pop_Read c tag new) A \<Longrightarrow> pop_cas (Some c, tag) new (cr_stack x) = (True, s) \<Longrightarrow>
    cs_step x (x\<lparr>cr_stack := s, cr_acts := A, cr_held := add_mset c (cr_held x)\<rparr>)"
| pop_again: "cr_acts x = add_mset (Pop_Read c tag new) A \<Longrightarrow>
    cs_step x (x\<lparr>cr_acts := A + pop_loaded (cs_top (cr_stack x))\<rparr>)"
| use_chunk: "c \<in># cr_held x \<Longrightarrow>
    cs_step x (x\<lparr>cr_stack := (cr_stack x)\<lparr>cs_next_chunk := (cs_next_chunk (cr_stack x))(c := v)\<rparr>\<rparr>)"

inductive cs_reach :: "nat multiset \<Rightarrow> cs_run \<Rightarrow> bool" for chunks where
  start: "cs_reach chunks \<lparr>cr_stack = \<lparr>cs_top = (None, 0), cs_next_chunk = nx\<rparr>, cr_acts = {#}, cr_held = chunks\<rparr>"
| step: "cs_reach chunks x \<Longrightarrow> cs_step x y \<Longrightarrow> cs_reach chunks y"

fun pushed_chunk :: "cs_act \<Rightarrow> nat multiset" where
  "pushed_chunk (Push_Loaded c old) = {#c#}"
| "pushed_chunk (Push_Linked c old) = {#c#}"
| "pushed_chunk (Pop_Loaded c tag) = {#}"
| "pushed_chunk (Pop_Read c tag new) = {#}"

definition chunks_out :: "cs_run \<Rightarrow> nat multiset" where
  "chunks_out x = cr_held x + (\<Sum>a \<in># cr_acts x. pushed_chunk a)"

section \<open>The invariant\<close>

text \<open>A top that was loaded and still is the top has not been popped in between: the tag tells.\<close>

fun act_ok :: "chunk_stack \<Rightarrow> cs_act \<Rightarrow> bool" where
  "act_ok s (Push_Loaded c old) \<longleftrightarrow> True"
| "act_ok s (Push_Linked c old) \<longleftrightarrow> cs_next_chunk s c = fst old"
| "act_ok s (Pop_Loaded c tag) \<longleftrightarrow> tag \<le> snd (cs_top s) \<and> (tag = snd (cs_top s) \<longrightarrow> fst (cs_top s) = Some c)"
| "act_ok s (Pop_Read c tag new) \<longleftrightarrow> tag \<le> snd (cs_top s)
     \<and> (tag = snd (cs_top s) \<longrightarrow> fst (cs_top s) = Some c \<and> new = cs_next_chunk s c)"

definition cs_inv :: "nat multiset \<Rightarrow> cs_run \<Rightarrow> nat list \<Rightarrow> bool" where
  "cs_inv chunks x stack \<longleftrightarrow>
     links (cs_next_chunk (cr_stack x)) (fst (cs_top (cr_stack x))) stack
     \<and> mset stack + chunks_out x = chunks \<and> (\<forall>a \<in># cr_acts x. act_ok (cr_stack x) a)"

lemma pop_loaded_ok: "a \<in># pop_loaded (cs_top s) \<Longrightarrow> act_ok s a"
  by (cases "cs_top s" rule: pop_loaded.cases) auto

lemma pop_loaded_pushed [simp]: "(\<Sum>a \<in># pop_loaded old. pushed_chunk a) = {#}"
  by (cases old rule: pop_loaded.cases) auto

text \<open>Writing the link of a chunk that is not on the stack, and is not being linked.\<close>

lemma act_ok_write:
  assumes "act_ok s a" "c \<notin> set stack" "links (cs_next_chunk s) (fst (cs_top s)) stack" "c \<notin># pushed_chunk a"
  shows "act_ok (s\<lparr>cs_next_chunk := (cs_next_chunk s)(c := v)\<rparr>) a"
  using assms by (cases a; cases stack) auto

lemma cs_inv_chunk:
  assumes "cs_inv chunks x stack" "\<forall>c. count chunks c \<le> 1"
  shows "c \<in># chunks_out x \<Longrightarrow> c \<notin> set stack"
proof -
  assume "c \<in># chunks_out x"
  then have "0 < count (chunks_out x) c" by simp
  moreover have "count (mset stack) c + count (chunks_out x) c \<le> 1"
    using assms by (metis cs_inv_def count_union)
  ultimately have "\<not> 0 < count (mset stack) c" by linarith
  then show ?thesis by simp
qed

lemma cs_top_moves:
  assumes "\<forall>a \<in># A. act_ok s a" "snd (cs_top s) < snd new_top"
  shows "\<forall>a \<in># A. act_ok (s\<lparr>cs_top := new_top\<rparr>) a"
proof
  fix a assume "a \<in># A"
  then have "act_ok s a" using assms(1) by blast
  then show "act_ok (s\<lparr>cs_top := new_top\<rparr>) a" using assms(2) by (cases a) auto
qed

lemma cs_inv_step:
  assumes "cs_step x y" and inv: "cs_inv chunks x stack" and one: "\<forall>c. count chunks c \<le> 1"
  shows "\<exists>stack'. cs_inv chunks y stack'"
proof -
  have i: "links (cs_next_chunk (cr_stack x)) (fst (cs_top (cr_stack x))) stack" "mset stack + chunks_out x = chunks"
    "\<forall>a \<in># cr_acts x. act_ok (cr_stack x) a" using inv by (simp_all add: cs_inv_def)
  note off = cs_inv_chunk [OF inv one]
  from assms(1) show ?thesis
  proof cases
    case (push_load c H)
    then have "cs_inv chunks y stack" using i by (simp add: cs_inv_def chunks_out_def)
    then show ?thesis ..
  next
    case (push_link c old A)
    have out: "count (\<Sum>a \<in># A. pushed_chunk a) c = 0"
    proof -
      have "count (chunks_out x) c \<le> 1" using one i(2) by (metis add_leD2 count_union)
      then show ?thesis using push_link(2) by (simp add: chunks_out_def)
    qed
    have "c \<notin> set stack" by (rule off) (simp add: chunks_out_def push_link(2))
    moreover have "c \<notin># pushed_chunk a" if "a \<in># A" for a
      using out that by (auto simp: count_eq_zero_iff)
    ultimately have "\<forall>a \<in># A. act_ok (push_link c old (cr_stack x)) a" "links (cs_next_chunk (push_link c old (cr_stack x))) (fst (cs_top (cr_stack x))) stack"
      using act_ok_write [OF _ _ i(1)] i(1,3) push_link(2) by (auto simp: Chunk_Stack.push_link_def)
    then have "cs_inv chunks y stack" using i(2) push_link(1,2) by (simp add: cs_inv_def chunks_out_def Chunk_Stack.push_link_def)
    then show ?thesis ..
  next
    case (push_done c old A s)
    then have s: "cs_top (cr_stack x) = old" "s = (cr_stack x)\<lparr>cs_top := (Some c, snd old + 1)\<rparr>"
      by (simp_all add: push_cas_def compare_exchange_def split: if_splits)
    have "cs_next_chunk (cr_stack x) c = fst old" using i(3) push_done(2) by simp
    then have "cs_inv chunks y (c # stack)"
      using i push_done(1,2) s cs_top_moves [of A "cr_stack x" "(Some c, snd old + 1)"] by (simp add: cs_inv_def chunks_out_def)
    then show ?thesis ..
  next
    case (push_again c old A)
    then have "cs_inv chunks y stack" using i by (simp add: cs_inv_def chunks_out_def)
    then show ?thesis ..
  next
    case pop_load
    then have "cs_inv chunks y stack" using i pop_loaded_ok by (auto simp: cs_inv_def chunks_out_def)
    then show ?thesis ..
  next
    case (pop_read c tag A)
    then have "cs_inv chunks y stack" using i by (simp add: cs_inv_def chunks_out_def Chunk_Stack.pop_read_def)
    then show ?thesis ..
  next
    case (pop_done c tag new A s)
    then have s: "cs_top (cr_stack x) = (Some c, tag)" "s = (cr_stack x)\<lparr>cs_top := (new, tag + 1)\<rparr>"
      by (simp_all add: pop_cas_def compare_exchange_def split: if_splits)
    then have new: "new = cs_next_chunk (cr_stack x) c" using i(3) pop_done(2) by simp
    obtain rest where "stack = c # rest" using i(1) s(1) by (cases stack) auto
    then have "cs_inv chunks y rest"
      using i pop_done(1,2) s new cs_top_moves [of A "cr_stack x" "(new, tag + 1)"] by (simp add: cs_inv_def chunks_out_def)
    then show ?thesis ..
  next
    case (pop_again c tag new A)
    then have "cs_inv chunks y stack" using i pop_loaded_ok by (auto simp: cs_inv_def chunks_out_def)
    then show ?thesis ..
  next
    case (use_chunk c v)
    have held: "c \<in># chunks_out x" using use_chunk(2) by (simp add: chunks_out_def)
    have "c \<notin># pushed_chunk a" if "a \<in># cr_acts x" for a
    proof -
      have "count (chunks_out x) c \<le> 1" using one i(2) by (metis add_leD2 count_union)
      moreover have "0 < count (cr_held x) c" using use_chunk(2) by simp
      ultimately have "count (\<Sum>a \<in># cr_acts x. pushed_chunk a) c = 0" unfolding chunks_out_def count_union by linarith
      then show ?thesis using that by (auto simp: count_eq_zero_iff)
    qed
    then have "\<forall>a \<in># cr_acts x. act_ok ((cr_stack x)\<lparr>cs_next_chunk := (cs_next_chunk (cr_stack x))(c := v)\<rparr>) a"
      using act_ok_write [OF _ off [OF held] i(1)] i(3) by blast
    then have "cs_inv chunks y stack" using i(1,2) off [OF held] use_chunk(1) by (simp add: cs_inv_def chunks_out_def)
    then show ?thesis ..
  qed
qed

lemma cs_reach_inv: "cs_reach chunks x \<Longrightarrow> \<forall>c. count chunks c \<le> 1 \<Longrightarrow> \<exists>stack. cs_inv chunks x stack"
proof (induction rule: cs_reach.induct)
  case (start nx)
  show ?case by (intro exI [of _ "[]"]) (simp add: cs_inv_def chunks_out_def)
next
  case (step x y)
  then show ?case using cs_inv_step by blast
qed

text \<open>However threads interleave in the loops of \<open>push\<close> and \<open>try_pop\<close>, and whatever is written
  over the links of chunks that are in use, every chunk is at each moment in exactly one place:
  linked on the stack, in use, or on its way to the stack. An exchange of \<open>try_pop\<close> that succeeds
  takes the first chunk and installs the link to the second.\<close>

theorem chunk_stack_keeps_chunks:
  assumes "cs_reach chunks x" "\<forall>c. count chunks c \<le> 1"
  shows "\<exists>stack. links (cs_next_chunk (cr_stack x)) (fst (cs_top (cr_stack x))) stack \<and> mset stack + chunks_out x = chunks
    \<and> (\<forall>c tag new s. Pop_Read c tag new \<in># cr_acts x \<longrightarrow> pop_cas (Some c, tag) new (cr_stack x) = (True, s) \<longrightarrow>
         (\<exists>rest. stack = c # rest \<and> links (cs_next_chunk s) (fst (cs_top s)) rest))"
proof -
  obtain stack where inv: "cs_inv chunks x stack" using cs_reach_inv assms by blast
  have "\<exists>rest. stack = c # rest \<and> links (cs_next_chunk s) (fst (cs_top s)) rest"
    if "Pop_Read c tag new \<in># cr_acts x" "pop_cas (Some c, tag) new (cr_stack x) = (True, s)" for c tag new s
    using that inv by (cases stack) (auto simp: cs_inv_def pop_cas_def compare_exchange_def split: if_splits)
  then show ?thesis using inv unfolding cs_inv_def by blast
qed

theorem chunk_stack_keeps_chunks_witness:
  "\<exists>x stack. cr_held x = {#7#} \<and> mset stack + chunks_out x = {#5, 7 :: nat#} \<and> stack = [5]"
proof -
  define x0 where "x0 = \<lparr>cr_stack = \<lparr>cs_top = (None, 0), cs_next_chunk = (\<lambda>_. None)\<rparr>, cr_acts = {#}, cr_held = {#5, 7 :: nat#}\<rparr>"
  define x1 where "x1 = x0\<lparr>cr_held := {#7#}, cr_acts := {#Push_Loaded 5 (None, 0)#}\<rparr>"
  define x2 where "x2 = x1\<lparr>cr_stack := push_link 5 (None, 0) (cr_stack x1), cr_acts := {#Push_Linked 5 (None, 0)#}\<rparr>"
  define x3 where "x3 = x2\<lparr>cr_stack := (cr_stack x2)\<lparr>cs_top := (Some 5, 1)\<rparr>, cr_acts := {#}\<rparr>"
  have "cs_reach {#5, 7#} x0" unfolding x0_def by (rule cs_reach.start)
  moreover have "cs_step x0 x1" using cs_step.push_load [of x0 5 "{#7#}"] by (simp add: x0_def x1_def)
  moreover have "cs_step x1 x2" using cs_step.push_link [of x1 5 "(None, 0)" "{#}"] by (simp add: x1_def x2_def)
  moreover have "cs_step x2 x3" using cs_step.push_done [of x2 5 "(None, 0)" "{#}" "cr_stack x3"]
    by (simp add: x3_def x2_def x1_def x0_def push_cas_def compare_exchange_def push_link_def)
  ultimately have reach: "cs_reach {#5, 7#} x3" using cs_reach.step by metis
  have "\<forall>c. count {#5, 7 :: nat#} c \<le> 1" by simp
  then obtain stack where stack: "links (cs_next_chunk (cr_stack x3)) (fst (cs_top (cr_stack x3))) stack" "mset stack + chunks_out x3 = {#5, 7#}"
    using chunk_stack_keeps_chunks [OF reach] by blast
  moreover have "chunks_out x3 = {#7#}" by (simp add: chunks_out_def x3_def x2_def x1_def)
  ultimately have "mset stack = {#5#}" by simp
  then have "stack = [5]" by simp
  moreover have "cr_held x3 = {#7#}" by (simp add: x3_def x2_def x1_def)
  ultimately show ?thesis using stack(2) by blast
qed

end
