(* ===== verification/Mpsc_Queue.thy ===== *)
theory Mpsc_Queue
  imports Node_Pool
begin

text \<open>
  \<open>daking::MPSC_queue\<close>: a linked list from \<open>tail_\<close>, a node whose value has been taken, to
  \<open>head_\<close>. A producer prepares its nodes, exchanges \<open>head_\<close> for its last node and then links the
  node that was the head to its first one; the consumer follows the link of \<open>tail_\<close>. What the
  queue needs of the nodes is the locale \<open>node_supply\<close>, which \<open>Node_Pool\<close> provides.

  A producer's preparation and the consumer's attempt are one step each: between their
  accesses other threads change nothing they read.
\<close>

section \<open>Nodes\<close>

record 'p node_ops =
  no_next :: "'p \<Rightarrow> nat \<Rightarrow> nat option"
  no_set_next :: "nat \<Rightarrow> nat option \<Rightarrow> 'p \<Rightarrow> 'p"
  no_allocate :: "nat \<Rightarrow> 'p \<Rightarrow> (nat \<times> 'p) option"
  no_deallocate :: "nat \<Rightarrow> nat \<Rightarrow> 'p \<Rightarrow> 'p"

locale node_supply =
  fixes ops :: "'p node_ops" and inv :: "'p \<Rightarrow> bool" and used :: "'p \<Rightarrow> nat set"
  assumes supply_allocate: "inv p \<Longrightarrow> \<exists>n p'. no_allocate ops t p = Some (n, p') \<and> inv p' \<and> n \<notin> used p
      \<and> used p' = insert n (used p) \<and> no_next ops p' n = None \<and> (\<forall>x \<in> used p. no_next ops p' x = no_next ops p x)"
    and supply_deallocate: "inv p \<Longrightarrow> n \<in> used p \<Longrightarrow> inv (no_deallocate ops t n p)
      \<and> used (no_deallocate ops t n p) = used p - {n}
      \<and> (\<forall>x \<in> used p - {n}. no_next ops (no_deallocate ops t n p) x = no_next ops p x)"
    and supply_set_next: "inv p \<Longrightarrow> n \<in> used p \<Longrightarrow> inv (no_set_next ops n v p)
      \<and> used (no_set_next ops n v p) = used p \<and> no_next ops (no_set_next ops n v p) = (no_next ops p)(n := v)"

definition daking_ops :: "nat \<Rightarrow> node_pool node_ops" where
  "daking_ops cap = \<lparr>no_next = np_next, no_set_next = (\<lambda>n v s. s\<lparr>np_next := (np_next s)(n := v)\<rparr>),
     no_allocate = allocate_node cap, no_deallocate = deallocate_node cap\<rparr>"

interpretation daking: node_supply "daking_ops cap" "pool_ok cap" "used_nodes cap" for cap
proof (unfold_locales, goal_cases)
  case (1 p t)
  then obtain res s' where r: "allocate_node cap t p = Some (res, s')" "pool_keeps cap p s' (insert res (used_nodes cap p))"
    "res \<notin> used_nodes cap p" "np_next s' res = None"
    using allocate_keeps by blast
  then show ?case by (intro exI [of _ res] exI [of _ s']) (auto simp: daking_ops_def pool_keeps_def)
next
  case (2 p n t)
  then show ?case using deallocate_keeps [of cap p n t] by (auto simp: daking_ops_def pool_keeps_def)
next
  case (3 p n v)
  then show ?case using set_next_keeps [of cap p n v] by (simp add: daking_ops_def)
qed

section \<open>The operations\<close>

record ('p, 'v) mpsc =
  mq_pool :: 'p
  mq_head :: nat
  mq_tail :: nat
  mq_value :: "nat \<Rightarrow> 'v option"

definition mpsc_new :: "'p node_ops \<Rightarrow> nat \<Rightarrow> 'p \<Rightarrow> ('p, 'v) mpsc option" where
  "mpsc_new ops t p = map_option (\<lambda>(dummy, p'). \<lparr>mq_pool = p', mq_head = dummy, mq_tail = dummy, mq_value = (\<lambda>_. None)\<rparr>)
     (no_allocate ops t p)"

definition new_node :: "'p node_ops \<Rightarrow> nat \<Rightarrow> 'v \<Rightarrow> ('p, 'v) mpsc \<Rightarrow> (nat \<times> ('p, 'v) mpsc) option" where
  "new_node ops t v q = map_option (\<lambda>(n, p). (n, q\<lparr>mq_pool := p, mq_value := (mq_value q)(n \<mapsto> v)\<rparr>))
     (no_allocate ops t (mq_pool q))"

text \<open>The loop of \<open>enqueue_bulk\<close> after its first node, and what precedes the exchange.\<close>

fun append_nodes :: "'p node_ops \<Rightarrow> nat \<Rightarrow> nat \<Rightarrow> 'v list \<Rightarrow> ('p, 'v) mpsc \<Rightarrow> (nat list \<times> ('p, 'v) mpsc) option" where
  "append_nodes ops t prev [] q = Some ([], q)"
| "append_nodes ops t prev (v # vs) q =
     (case new_node ops t v q of
        None \<Rightarrow> None
      | Some (n, q1) \<Rightarrow>
          map_option (\<lambda>(ns, q'). (n # ns, q'))
            (append_nodes ops t n vs (q1\<lparr>mq_pool := no_set_next ops prev (Some n) (mq_pool q1)\<rparr>)))"

definition prepare_bulk :: "'p node_ops \<Rightarrow> nat \<Rightarrow> 'v list \<Rightarrow> ('p, 'v) mpsc \<Rightarrow> (nat list \<times> ('p, 'v) mpsc) option" where
  "prepare_bulk ops t vs q =
     (case vs of
        [] \<Rightarrow> None
      | v # vs \<Rightarrow>
          (case new_node ops t v q of
             None \<Rightarrow> None
           | Some (first, q1) \<Rightarrow> map_option (\<lambda>(ns, q'). (first # ns, q')) (append_nodes ops t first vs q1)))"

text \<open>\<open>emplace\<close> prepares one node.\<close>

definition prepare_emplace :: "'p node_ops \<Rightarrow> nat \<Rightarrow> 'v \<Rightarrow> ('p, 'v) mpsc \<Rightarrow> (nat list \<times> ('p, 'v) mpsc) option" where
  "prepare_emplace ops t v q = map_option (\<lambda>(n, q'). ([n], q')) (new_node ops t v q)"

definition exchange_head :: "nat list \<Rightarrow> ('p, 'v) mpsc \<Rightarrow> nat \<times> ('p, 'v) mpsc" where
  "exchange_head ns q = (mq_head q, q\<lparr>mq_head := last ns\<rparr>)"

definition link_old_head :: "'p node_ops \<Rightarrow> nat \<Rightarrow> nat \<Rightarrow> ('p, 'v) mpsc \<Rightarrow> ('p, 'v) mpsc" where
  "link_old_head ops old first q = q\<lparr>mq_pool := no_set_next ops old (Some first) (mq_pool q)\<rparr>"

text \<open>No result when the next node holds no value.\<close>

definition try_dequeue :: "'p node_ops \<Rightarrow> nat \<Rightarrow> ('p, 'v) mpsc \<Rightarrow> ('v option \<times> ('p, 'v) mpsc) option" where
  "try_dequeue ops t q =
     (case no_next ops (mq_pool q) (mq_tail q) of
        None \<Rightarrow> Some (None, q)
      | Some n \<Rightarrow>
          (case mq_value q n of
             None \<Rightarrow> None
           | Some v \<Rightarrow> Some (Some v, q\<lparr>mq_value := (mq_value q)(n := None),
               mq_pool := no_deallocate ops t (mq_tail q) (mq_pool q), mq_tail := n\<rparr>)))"

definition mpsc_empty :: "'p node_ops \<Rightarrow> ('p, 'v) mpsc \<Rightarrow> bool" where
  "mpsc_empty ops q \<longleftrightarrow> no_next ops (mq_pool q) (mq_tail q) = None"

fun try_dequeue_bulk :: "'p node_ops \<Rightarrow> nat \<Rightarrow> nat \<Rightarrow> ('p, 'v) mpsc \<Rightarrow> ('v list \<times> ('p, 'v) mpsc) option" where
  "try_dequeue_bulk ops t 0 q = Some ([], q)"
| "try_dequeue_bulk ops t (Suc n) q =
     (case try_dequeue ops t q of
        None \<Rightarrow> None
      | Some (None, q') \<Rightarrow> Some ([], q')
      | Some (Some v, q') \<Rightarrow> map_option (\<lambda>(vs, q''). (v # vs, q'')) (try_dequeue_bulk ops t n q'))"

text \<open>The destructor gives every node back; no result when a node behind the tail holds no value.\<close>

partial_function (option) mpsc_destroy :: "'p node_ops \<Rightarrow> nat \<Rightarrow> ('p, 'v) mpsc \<Rightarrow> 'p option" where
  "mpsc_destroy ops t q =
     (case no_next ops (mq_pool q) (mq_tail q) of
        None \<Rightarrow> Some (no_deallocate ops t (mq_tail q) (mq_pool q))
      | Some n \<Rightarrow>
          (case mq_value q n of
             None \<Rightarrow> None
           | Some v \<Rightarrow> mpsc_destroy ops t (q\<lparr>mq_value := (mq_value q)(n := None),
               mq_pool := no_deallocate ops t (mq_tail q) (mq_pool q), mq_tail := n\<rparr>)))"

section \<open>Interleavings\<close>

text \<open>
  A producer that has prepared its nodes, and one that has exchanged the head. All queues of
  one element type draw on one pool: \<open>mr_others\<close> are nodes in use in other queues, whose
  producers and consumers allocate, link and release them at any moment.
\<close>

datatype 'v mq_act = Prepared "nat list" "'v list" | Exchanged nat nat

record ('p, 'v) mq_run =
  mr_queue :: "('p, 'v) mpsc"
  mr_acts :: "'v mq_act multiset"
  mr_order :: "'v list"
  mr_dequeued :: "'v list"
  mr_others :: "nat list"

inductive mq_step :: "'p node_ops \<Rightarrow> ('p, 'v) mq_run \<Rightarrow> ('p, 'v) mq_run \<Rightarrow> bool" for ops where
  emplace: "prepare_emplace ops t v (mr_queue x) = Some (ns, q) \<Longrightarrow>
    mq_step ops x (x\<lparr>mr_queue := q, mr_acts := add_mset (Prepared ns [v]) (mr_acts x)\<rparr>)"
| bulk: "prepare_bulk ops t vs (mr_queue x) = Some (ns, q) \<Longrightarrow>
    mq_step ops x (x\<lparr>mr_queue := q, mr_acts := add_mset (Prepared ns vs) (mr_acts x)\<rparr>)"
| exchange: "mr_acts x = add_mset (Prepared ns vs) A \<Longrightarrow> exchange_head ns (mr_queue x) = (old, q) \<Longrightarrow>
    mq_step ops x (x\<lparr>mr_queue := q, mr_acts := add_mset (Exchanged old (hd ns)) A, mr_order := mr_order x @ vs\<rparr>)"
| link: "mr_acts x = add_mset (Exchanged old first) A \<Longrightarrow>
    mq_step ops x (x\<lparr>mr_queue := link_old_head ops old first (mr_queue x), mr_acts := A\<rparr>)"
| dequeue: "try_dequeue ops t (mr_queue x) = Some (Some v, q) \<Longrightarrow>
    mq_step ops x (x\<lparr>mr_queue := q, mr_dequeued := mr_dequeued x @ [v]\<rparr>)"
| other_allocate: "no_allocate ops t (mq_pool (mr_queue x)) = Some (n, p) \<Longrightarrow>
    mq_step ops x (x\<lparr>mr_queue := (mr_queue x)\<lparr>mq_pool := p\<rparr>, mr_others := n # mr_others x\<rparr>)"
| other_link: "n \<in> set (mr_others x) \<Longrightarrow>
    mq_step ops x (x\<lparr>mr_queue := (mr_queue x)\<lparr>mq_pool := no_set_next ops n v (mq_pool (mr_queue x))\<rparr>\<rparr>)"
| other_deallocate: "n \<in> set (mr_others x) \<Longrightarrow>
    mq_step ops x (x\<lparr>mr_queue := (mr_queue x)\<lparr>mq_pool := no_deallocate ops t n (mq_pool (mr_queue x))\<rparr>,
      mr_others := remove1 n (mr_others x)\<rparr>)"

inductive mq_reach :: "'p node_ops \<Rightarrow> 'p \<Rightarrow> nat list \<Rightarrow> ('p, 'v) mq_run \<Rightarrow> bool" for ops p others where
  start: "mpsc_new ops t p = Some q \<Longrightarrow>
    mq_reach ops p others \<lparr>mr_queue = q, mr_acts = {#}, mr_order = [], mr_dequeued = [], mr_others = others\<rparr>"
| step: "mq_reach ops p others x \<Longrightarrow> mq_step ops x y \<Longrightarrow> mq_reach ops p others y"

text \<open>The nodes producers hold, and the links that are still to be made along a list.\<close>

fun act_nodes :: "'v mq_act \<Rightarrow> nat multiset" where
  "act_nodes (Prepared ns vs) = mset ns"
| "act_nodes (Exchanged _ _) = {#}"

fun missing_links :: "(nat \<Rightarrow> nat option) \<Rightarrow> nat list \<Rightarrow> (nat \<times> nat) multiset" where
  "missing_links nx (a # b # ns) = (if nx a = None then {#(a, b)#} else {#}) + missing_links nx (b # ns)"
| "missing_links nx _ = {#}"

fun almost_links :: "(nat \<Rightarrow> nat option) \<Rightarrow> nat list \<Rightarrow> bool" where
  "almost_links nx (a # b # ns) \<longleftrightarrow> (nx a = None \<or> nx a = Some b) \<and> almost_links nx (b # ns)"
| "almost_links nx [a] \<longleftrightarrow> nx a = None"
| "almost_links nx [] \<longleftrightarrow> True"

fun prepared_acts :: "'v mq_act \<Rightarrow> bool" where
  "prepared_acts (Prepared _ _) \<longleftrightarrow> True"
| "prepared_acts (Exchanged _ _) \<longleftrightarrow> False"

lemma missing_links_update [simp]: "a \<notin> set ns \<Longrightarrow> missing_links (nx(a := v)) ns = missing_links nx ns"
  by (induction nx ns rule: missing_links.induct) auto

lemma almost_links_update [simp]: "a \<notin> set ns \<Longrightarrow> almost_links (nx(a := v)) ns = almost_links nx ns"
  by (induction nx ns rule: almost_links.induct) auto

lemma missing_links_cong: "(\<And>x. x \<in> set ns \<Longrightarrow> nx x = ny x) \<Longrightarrow> missing_links nx ns = missing_links ny ns"
  by (induction nx ns rule: missing_links.induct) auto

lemma almost_links_cong: "(\<And>x. x \<in> set ns \<Longrightarrow> nx x = ny x) \<Longrightarrow> almost_links nx ns = almost_links ny ns"
  by (induction nx ns rule: almost_links.induct) auto

lemma links_almost: "links nx (Some (hd ns)) ns \<Longrightarrow> almost_links nx ns \<and> missing_links nx ns = {#}"
proof (induction nx ns rule: almost_links.induct)
  case (1 nx a b ns)
  then show ?case by (cases "nx a") auto
qed auto

lemma append_almost:
  "almost_links nx (xs @ [a]) \<Longrightarrow> almost_links nx ns \<Longrightarrow> missing_links nx ns = {#} \<Longrightarrow> ns \<noteq> [] \<Longrightarrow>
   almost_links nx (xs @ a # ns) \<and> missing_links nx (xs @ a # ns) = add_mset (a, hd ns) (missing_links nx (xs @ [a]))"
proof (induction xs)
  case Nil
  then show ?case by (cases ns) auto
next
  case (Cons x xs)
  then show ?case by (cases xs) auto
qed

lemma missing_mem: "(a, b) \<in># missing_links nx ns \<Longrightarrow> \<exists>xs ys. ns = xs @ a # b # ys \<and> nx a = None"
proof (induction nx ns rule: missing_links.induct)
  case (1 nx c d ns)
  show ?case
  proof (cases "nx c = None \<and> a = c \<and> b = d")
    case True
    then show ?thesis by (intro exI [of _ "[]"] exI [of _ ns]) simp
  next
    case False
    then have "(a, b) \<in># missing_links nx (d # ns)" using 1(2) by (auto split: if_splits)
    from 1(1) [OF this] obtain xs ys where "d # ns = xs @ a # b # ys" "nx a = None" by blast
    then show ?thesis by (intro exI [of _ "c # xs"] exI [of _ ys]) simp
  qed
qed auto

lemma make_link:
  "distinct (xs @ a # b # ys) \<Longrightarrow> nx a = None \<Longrightarrow>
   missing_links nx (xs @ a # b # ys) = add_mset (a, b) (missing_links (nx(a := Some b)) (xs @ a # b # ys))
   \<and> (almost_links nx (xs @ a # b # ys) \<longrightarrow> almost_links (nx(a := Some b)) (xs @ a # b # ys))"
proof (induction xs)
  case (Cons x xs)
  then show ?case by (cases xs) auto
qed simp

section \<open>The invariant\<close>

definition all_nodes :: "('p, 'v) mq_run \<Rightarrow> nat list \<Rightarrow> nat multiset" where
  "all_nodes x pend = mset (mq_tail (mr_queue x) # pend) + ((\<Sum>a \<in># mr_acts x. act_nodes a) + mset (mr_others x))"

definition linking :: "'v mq_act multiset \<Rightarrow> (nat \<times> nat) multiset \<Rightarrow> bool" where
  "linking acts missing \<longleftrightarrow> filter_mset (\<lambda>a. \<not> prepared_acts a) acts = image_mset (\<lambda>(a, b). Exchanged a b) missing"

lemma linking_prepared: "linking (add_mset (Prepared ns vs) A) M \<longleftrightarrow> linking A M"
  by (simp add: linking_def)

lemma linking_add: "linking A M \<Longrightarrow> linking (add_mset (Exchanged a b) A) (add_mset (a, b) M)"
  by (simp add: linking_def)

lemma linking_remove: "linking (add_mset (Exchanged a b) A) (add_mset (a, b) M) \<Longrightarrow> linking A M"
  by (simp add: linking_def)

lemma linking_mem:
  fixes A :: "'v mq_act multiset"
  assumes "linking A M" "Exchanged a b \<in># A"
  shows "(a, b) \<in># M"
proof -
  have "(Exchanged a b :: 'v mq_act) \<in># filter_mset (\<lambda>a. \<not> prepared_acts a) A" using assms(2) by simp
  then have "(Exchanged a b :: 'v mq_act) \<in># image_mset (\<lambda>(a, b). Exchanged a b) M"
    by (simp only: assms(1) [unfolded linking_def])
  then show ?thesis by auto
qed

text \<open>What a producer has prepared is intact: its values, and the links along its nodes.\<close>

definition prepared_ok :: "(nat \<Rightarrow> nat option) \<Rightarrow> (nat \<Rightarrow> 'v option) \<Rightarrow> 'v mq_act multiset \<Rightarrow> bool" where
  "prepared_ok nx val acts \<longleftrightarrow> (\<forall>ns vs. Prepared ns vs \<in># acts \<longrightarrow>
     ns \<noteq> [] \<and> map val ns = map Some vs \<and> links nx (Some (hd ns)) ns)"

lemma prepared_frame:
  assumes "prepared_ok nx val acts"
    and same: "\<And>ns vs n. Prepared ns vs \<in># acts \<Longrightarrow> n \<in> set ns \<Longrightarrow> ny n = nx n \<and> val' n = val n"
  shows "prepared_ok ny val' acts"
  unfolding prepared_ok_def
proof (intro allI impI)
  fix ns vs assume p: "Prepared ns vs \<in># acts"
  then have "ns \<noteq> []" "map val ns = map Some vs" "links nx (Some (hd ns)) ns" using assms(1) unfolding prepared_ok_def by blast+
  moreover have "map val' ns = map val ns" using same [OF p] by simp
  moreover have "links ny (Some (hd ns)) ns = links nx (Some (hd ns)) ns" by (rule links_cong) (simp add: same [OF p])
  ultimately show "ns \<noteq> [] \<and> map val' ns = map Some vs \<and> links ny (Some (hd ns)) ns" by simp
qed

lemma prepared_add: "prepared_ok nx val (add_mset (Prepared ns vs) acts) \<longleftrightarrow>
    (ns \<noteq> [] \<and> map val ns = map Some vs \<and> links nx (Some (hd ns)) ns) \<and> prepared_ok nx val acts"
  by (auto simp: prepared_ok_def)

lemma exchanged_add: "prepared_ok nx val (add_mset (Exchanged old first) acts) \<longleftrightarrow> prepared_ok nx val acts"
  by (auto simp: prepared_ok_def)

lemma all_nodes_distinct:
  assumes "\<And>n. count (all_nodes x pend) n \<le> 1"
  shows "distinct (mq_tail (mr_queue x) # pend)"
    and "Prepared ns vs \<in># mr_acts x \<Longrightarrow> set ns \<inter> set (mq_tail (mr_queue x) # pend) = {}"
proof -
  let ?chain = "mset (mq_tail (mr_queue x) # pend)" and ?acts = "(\<Sum>a \<in># mr_acts x. act_nodes a) + mset (mr_others x)"
  have sum: "count ?chain n + count ?acts n \<le> 1" for n
    using assms [of n] unfolding all_nodes_def count_union .
  have "count ?chain n \<le> 1" for n using sum [of n] by linarith
  then show "distinct (mq_tail (mr_queue x) # pend)" by (intro distinct_if_counts)
  assume "Prepared ns vs \<in># mr_acts x"
  then have "n \<in># ?acts" if "n \<in> set ns" for n using that by force
  then have pos: "1 \<le> count ?acts n" if "n \<in> set ns" for n using that by (simp add: Suc_le_eq)
  have "count ?chain n = 0" if "n \<in> set ns" for n using sum [of n] pos [OF that] by linarith
  then have "n \<notin> set (mq_tail (mr_queue x) # pend)" if "n \<in> set ns" for n
    using that by (simp only: not_in_iff [symmetric] set_mset_mset not_False_eq_True)
  then show "set ns \<inter> set (mq_tail (mr_queue x) # pend) = {}" by blast
qed

context node_supply
begin

lemma new_node_spec:
  assumes "inv (mq_pool q)"
  shows "\<exists>n q'. new_node ops t v q = Some (n, q') \<and> inv (mq_pool q') \<and> n \<notin> used (mq_pool q)
    \<and> used (mq_pool q') = insert n (used (mq_pool q)) \<and> no_next ops (mq_pool q') n = None
    \<and> (\<forall>x \<in> used (mq_pool q). no_next ops (mq_pool q') x = no_next ops (mq_pool q) x)
    \<and> mq_value q' = (mq_value q)(n \<mapsto> v) \<and> mq_head q' = mq_head q \<and> mq_tail q' = mq_tail q"
  using supply_allocate [OF assms, of t] by (auto simp: new_node_def)

lemma append_nodes_spec:
  assumes "inv (mq_pool q)" "prev \<in> used (mq_pool q)" "no_next ops (mq_pool q) prev = None"
  shows "\<exists>ns q'. append_nodes ops t prev vs q = Some (ns, q') \<and> inv (mq_pool q') \<and> set ns \<inter> used (mq_pool q) = {} \<and> distinct ns
    \<and> used (mq_pool q') = used (mq_pool q) \<union> set ns
    \<and> links (no_next ops (mq_pool q')) (Some prev) (prev # ns)
    \<and> (\<forall>x \<in> used (mq_pool q) - {prev}. no_next ops (mq_pool q') x = no_next ops (mq_pool q) x)
    \<and> map (mq_value q') ns = map Some vs \<and> (\<forall>x. x \<notin> set ns \<longrightarrow> mq_value q' x = mq_value q x)
    \<and> mq_head q' = mq_head q \<and> mq_tail q' = mq_tail q"
  using assms
proof (induction vs arbitrary: prev q)
  case (Cons v vs)
  obtain n q1 where q1: "new_node ops t v q = Some (n, q1)" "inv (mq_pool q1)" "n \<notin> used (mq_pool q)"
    "used (mq_pool q1) = insert n (used (mq_pool q))" "no_next ops (mq_pool q1) n = None"
    "\<forall>x \<in> used (mq_pool q). no_next ops (mq_pool q1) x = no_next ops (mq_pool q) x"
    "mq_value q1 = (mq_value q)(n \<mapsto> v)" "mq_head q1 = mq_head q" "mq_tail q1 = mq_tail q"
    using new_node_spec [OF Cons.prems(1), of t v] by blast
  define q2 where "q2 = q1\<lparr>mq_pool := no_set_next ops prev (Some n) (mq_pool q1)\<rparr>"
  have prev: "prev \<in> used (mq_pool q1)" "prev \<noteq> n" using Cons.prems(2) q1(3,4) by auto
  have q2: "inv (mq_pool q2)" "used (mq_pool q2) = used (mq_pool q1)" "no_next ops (mq_pool q2) = (no_next ops (mq_pool q1))(prev := Some n)"
    using supply_set_next [OF q1(2) prev(1)] by (simp_all add: q2_def)
  have "no_next ops (mq_pool q2) n = None" "n \<in> used (mq_pool q2)" using q1(4,5) q2(2,3) prev(2) by simp_all
  from Cons.IH [OF q2(1) this(2,1)] obtain ns q' where r: "append_nodes ops t n vs q2 = Some (ns, q')" "inv (mq_pool q')"
    "set ns \<inter> used (mq_pool q2) = {}" "distinct ns" "used (mq_pool q') = used (mq_pool q2) \<union> set ns"
    "links (no_next ops (mq_pool q')) (Some n) (n # ns)"
    "\<forall>x \<in> used (mq_pool q2) - {n}. no_next ops (mq_pool q') x = no_next ops (mq_pool q2) x"
    "map (mq_value q') ns = map Some vs" "\<forall>x. x \<notin> set ns \<longrightarrow> mq_value q' x = mq_value q2 x"
    "mq_head q' = mq_head q2" "mq_tail q' = mq_tail q2" by blast
  have n: "n \<notin> set ns" "prev \<in> used (mq_pool q2) - {n}" using r(3) q2(2) q1(4) prev by auto
  have "no_next ops (mq_pool q') prev = Some n" using r(7) n(2) q2(3) by simp
  moreover have "mq_value q' n = Some v" using r(9) n(1) q1(7) by (simp add: q2_def)
  moreover have "mq_value q' x = mq_value q x" if "x \<notin> set (n # ns)" for x using r(9) q1(7) that by (simp add: q2_def)
  moreover have "no_next ops (mq_pool q') x = no_next ops (mq_pool q) x" if "x \<in> used (mq_pool q) - {prev}" for x
    using that r(7) q1(3,4,6) q2(2,3) by auto
  moreover have "append_nodes ops t prev (v # vs) q = Some (n # ns, q')" using q1(1) r(1) by (simp add: q2_def)
  ultimately show ?case using r q1(3,4) q2(2) n(1) q1(8,9) by (intro exI [of _ "n # ns"] exI [of _ q']) (auto simp: q2_def)
qed simp

lemma prepare_spec:
  assumes "inv (mq_pool q)" "prepare_bulk ops t vs q = Some (ns, q') \<or> vs = [v] \<and> prepare_emplace ops t v q = Some (ns, q')"
  shows "inv (mq_pool q') \<and> ns \<noteq> [] \<and> set ns \<inter> used (mq_pool q) = {} \<and> distinct ns
    \<and> used (mq_pool q') = used (mq_pool q) \<union> set ns \<and> links (no_next ops (mq_pool q')) (Some (hd ns)) ns
    \<and> (\<forall>x \<in> used (mq_pool q). no_next ops (mq_pool q') x = no_next ops (mq_pool q) x)
    \<and> map (mq_value q') ns = map Some vs \<and> (\<forall>x. x \<notin> set ns \<longrightarrow> mq_value q' x = mq_value q x)
    \<and> mq_head q' = mq_head q \<and> mq_tail q' = mq_tail q"
proof -
  have bulk: "prepare_bulk ops t vs q = Some (ns, q')"
    using assms(2) by (auto simp: prepare_bulk_def prepare_emplace_def split: option.splits)
  then obtain v ws where vs: "vs = v # ws" by (auto simp: prepare_bulk_def split: list.splits)
  obtain n q1 where q1: "new_node ops t v q = Some (n, q1)" "inv (mq_pool q1)" "n \<notin> used (mq_pool q)"
    "used (mq_pool q1) = insert n (used (mq_pool q))" "no_next ops (mq_pool q1) n = None"
    "\<forall>x \<in> used (mq_pool q). no_next ops (mq_pool q1) x = no_next ops (mq_pool q) x"
    "mq_value q1 = (mq_value q)(n \<mapsto> v)" "mq_head q1 = mq_head q" "mq_tail q1 = mq_tail q"
    using new_node_spec [OF assms(1), of t v] by blast
  have "n \<in> used (mq_pool q1)" using q1(4) by simp
  from append_nodes_spec [OF q1(2) this q1(5), of t ws] obtain ms where r: "append_nodes ops t n ws q1 = Some (ms, q')" "ns = n # ms"
    "inv (mq_pool q')" "set ms \<inter> used (mq_pool q1) = {}" "distinct ms" "used (mq_pool q') = used (mq_pool q1) \<union> set ms"
    "links (no_next ops (mq_pool q')) (Some n) (n # ms)"
    "\<forall>x \<in> used (mq_pool q1) - {n}. no_next ops (mq_pool q') x = no_next ops (mq_pool q1) x"
    "map (mq_value q') ms = map Some ws" "\<forall>x. x \<notin> set ms \<longrightarrow> mq_value q' x = mq_value q1 x"
    "mq_head q' = mq_head q1" "mq_tail q' = mq_tail q1"
    using bulk q1(1) by (auto simp: prepare_bulk_def vs)
  have "n \<notin> set ms" using r(4) q1(4) by auto
  then show ?thesis using r q1 vs by auto
qed

text \<open>The state of the queue with \<open>pend\<close> the nodes behind the tail, in order.\<close>

definition mq_inv :: "('p, 'v) mq_run \<Rightarrow> nat list \<Rightarrow> bool" where
  "mq_inv x pend \<longleftrightarrow>
     (let q = mr_queue x; nx = no_next ops (mq_pool q); chain = mq_tail q # pend in
      inv (mq_pool q)
      \<and> (\<forall>n. count (all_nodes x pend) n \<le> 1) \<and> set_mset (all_nodes x pend) = used (mq_pool q)
      \<and> mq_head q = last chain
      \<and> (\<exists>vals. map (mq_value q) pend = map Some vals \<and> mr_order x = mr_dequeued x @ vals)
      \<and> prepared_ok nx (mq_value q) (mr_acts x)
      \<and> linking (mr_acts x) (missing_links nx chain)
      \<and> almost_links nx chain)"

lemma mq_invD:
  assumes "mq_inv x pend"
  shows "inv (mq_pool (mr_queue x))"
    and "count (all_nodes x pend) n \<le> 1" and "n \<in># all_nodes x pend \<Longrightarrow> n \<in> used (mq_pool (mr_queue x))"
    and "mq_head (mr_queue x) = last (mq_tail (mr_queue x) # pend)"
    and "\<exists>vals. map (mq_value (mr_queue x)) pend = map Some vals \<and> mr_order x = mr_dequeued x @ vals"
    and "prepared_ok (no_next ops (mq_pool (mr_queue x))) (mq_value (mr_queue x)) (mr_acts x)"
    and "linking (mr_acts x) (missing_links (no_next ops (mq_pool (mr_queue x))) (mq_tail (mr_queue x) # pend))"
    and "almost_links (no_next ops (mq_pool (mr_queue x))) (mq_tail (mr_queue x) # pend)"
    and "set_mset (all_nodes x pend) = used (mq_pool (mr_queue x))"
  using assms unfolding mq_inv_def Let_def by blast+

lemma mq_inv_distinct:
  assumes "mq_inv x pend"
  shows "distinct (mq_tail (mr_queue x) # pend)"
    and "Prepared ns vs \<in># mr_acts x \<Longrightarrow> set ns \<inter> set (mq_tail (mr_queue x) # pend) = {}"
  using all_nodes_distinct [of x pend] mq_invD(2) [OF assms] by blast+

lemma mq_inv_start:
  assumes "inv p" "mpsc_new ops t p = Some q" and others: "distinct others" "set others = used p"
  shows "mq_inv \<lparr>mr_queue = q, mr_acts = {#}, mr_order = [], mr_dequeued = [], mr_others = others\<rparr> []"
proof -
  obtain n p' where n: "no_allocate ops t p = Some (n, p')" "inv p'" "n \<notin> used p" "used p' = insert n (used p)" "no_next ops p' n = None"
    using supply_allocate [OF assms(1), of t] by blast
  have q: "q = \<lparr>mq_pool = p', mq_head = n, mq_tail = n, mq_value = (\<lambda>_. None)\<rparr>" using assms(2) n(1) by (simp add: mpsc_new_def)
  have "n \<notin> set others" using n(3) others(2) by blast
  then have "count (add_mset n (mset others)) m \<le> 1" for m
    using others(1) by (cases "m = n") (simp_all add: distinct_count_atmost_1 count_absent)
  moreover have "set_mset (add_mset n (mset others)) = used p'" using n(4) others(2) by simp
  moreover have "all_nodes \<lparr>mr_queue = q, mr_acts = {#}, mr_order = [], mr_dequeued = [], mr_others = others\<rparr> [] = add_mset n (mset others)"
    by (simp add: all_nodes_def q)
  ultimately show ?thesis unfolding mq_inv_def Let_def using n(2,5)
    by (intro conjI) (simp_all only:, simp_all add: linking_def prepared_ok_def q)
qed

lemma others_all_nodes: "n \<in> set (mr_others x) \<Longrightarrow> n \<in># all_nodes x pend"
  by (simp add: all_nodes_def)

lemma chain_nodes: "n \<in> set (mq_tail (mr_queue x) # pend) \<Longrightarrow> n \<in># all_nodes x pend"
  by (auto simp: all_nodes_def)

lemma act_all_nodes: "Prepared ns vs \<in># mr_acts x \<Longrightarrow> n \<in> set ns \<Longrightarrow> n \<in># all_nodes x pend"
  by (force simp: all_nodes_def)

lemma mq_inv_prepare:
  assumes inv: "mq_inv x pend"
    and prep: "prepare_bulk ops t vs (mr_queue x) = Some (ns, q) \<or> vs = [v] \<and> prepare_emplace ops t v (mr_queue x) = Some (ns, q)"
  shows "mq_inv (x\<lparr>mr_queue := q, mr_acts := add_mset (Prepared ns vs) (mr_acts x)\<rparr>) pend"
proof -
  let ?q = "mr_queue x"
  let ?y = "x\<lparr>mr_queue := q, mr_acts := add_mset (Prepared ns vs) (mr_acts x)\<rparr>"
  note i = mq_invD [OF inv] and p = prepare_spec [OF mq_invD(1) [OF inv] prep]
  have fresh: "n \<notin> set ns" if "n \<in># all_nodes x pend" for n using p i(3) [OF that] by blast
  have "same": "no_next ops (mq_pool q) n = no_next ops (mq_pool ?q) n \<and> mq_value q n = mq_value ?q n" if "n \<in># all_nodes x pend" for n
    using p i(3) [OF that] fresh [OF that] by blast
  have tail: "mq_tail q = mq_tail ?q" using p by blast
  have all: "all_nodes ?y pend = all_nodes x pend + mset ns" by (simp add: all_nodes_def add_ac tail)
  have count: "count (all_nodes ?y pend) n \<le> 1" for n
  proof (cases "n \<in> set ns")
    case True
    then have "n \<notin># all_nodes x pend" using fresh by blast
    moreover have "count (mset ns) n \<le> 1" using p by (simp add: distinct_count_atmost_1)
    ultimately show ?thesis by (simp add: all not_in_iff)
  next
    case False
    then show ?thesis using i(2) [of n] by (simp add: all count_absent)
  qed
  have used: "set_mset (all_nodes ?y pend) = used (mq_pool q)" using i(9) p by (simp add: all)
  have chain: "missing_links (no_next ops (mq_pool q)) (mq_tail ?q # pend) = missing_links (no_next ops (mq_pool ?q)) (mq_tail ?q # pend)"
    "almost_links (no_next ops (mq_pool q)) (mq_tail ?q # pend) = almost_links (no_next ops (mq_pool ?q)) (mq_tail ?q # pend)"
    by (rule missing_links_cong almost_links_cong; use "same" chain_nodes in blast)+
  have vals: "map (mq_value q) pend = map (mq_value ?q) pend" using "same" chain_nodes [of _ x pend] by simp
  have "prepared_ok (no_next ops (mq_pool q)) (mq_value q) (mr_acts x)"
    by (rule prepared_frame [OF i(6)]) (use "same" act_all_nodes in blast)
  then have "prepared_ok (no_next ops (mq_pool q)) (mq_value q) (add_mset (Prepared ns vs) (mr_acts x))"
    using p by (simp add: prepared_add)
  then show ?thesis unfolding mq_inv_def Let_def
    using count used i(4,5,7,8) p by (simp add: chain vals linking_prepared tail)
qed

lemma mq_inv_exchange:
  assumes inv: "mq_inv x pend" and acts: "mr_acts x = add_mset (Prepared ns vs) A"
    and ex: "exchange_head ns (mr_queue x) = (old, q)"
  shows "mq_inv (x\<lparr>mr_queue := q, mr_acts := add_mset (Exchanged old (hd ns)) A, mr_order := mr_order x @ vs\<rparr>) (pend @ ns)"
    (is "mq_inv ?y _")
proof -
  let ?q = "mr_queue x" and ?nx = "no_next ops (mq_pool (mr_queue x))"
  note i = mq_invD [OF inv]
  have q: "q = ?q\<lparr>mq_head := last ns\<rparr>" and old: "old = last (mq_tail ?q # pend)"
    using ex i(4) by (simp_all add: exchange_head_def)
  have ns: "ns \<noteq> []" "map (mq_value ?q) ns = map Some vs" "links ?nx (Some (hd ns)) ns" and rest: "prepared_ok ?nx (mq_value ?q) A"
    using i(6) by (simp_all add: acts prepared_add)
  have all: "all_nodes ?y (pend @ ns) = all_nodes x pend" by (simp add: all_nodes_def acts q add_ac)
  obtain xs where xs: "mq_tail ?q # pend = xs @ [old]"
  proof
    show "mq_tail ?q # pend = butlast (mq_tail ?q # pend) @ [old]"
      unfolding old by (rule append_butlast_last_id [symmetric]) simp
  qed
  have chain: "mq_tail ?q # pend @ ns = xs @ old # ns" using arg_cong [OF xs, of "\<lambda>l. l @ ns"] by simp
  have "almost_links ?nx ns" "missing_links ?nx ns = {#}" using links_almost [OF ns(3)] by simp_all
  then have links: "almost_links ?nx (xs @ old # ns)" "missing_links ?nx (xs @ old # ns) = add_mset (old, hd ns) (missing_links ?nx (mq_tail ?q # pend))"
    using append_almost [of ?nx xs old ns] i(8) ns(1) unfolding xs by simp_all
  have "linking A (missing_links ?nx (mq_tail ?q # pend))" using i(7) by (simp add: acts linking_prepared)
  from linking_add [OF this] have linking: "linking (add_mset (Exchanged old (hd ns)) A) (missing_links ?nx (xs @ old # ns))"
    unfolding links(2) .
  obtain vals where vals: "map (mq_value ?q) pend = map Some vals" "mr_order x = mr_dequeued x @ vals" using i(5) by blast
  have order: "\<exists>vals. map (mq_value ?q) (pend @ ns) = map Some vals \<and> mr_order x @ vs = mr_dequeued x @ vals"
    using vals ns(2) by (intro exI [of _ "vals @ vs"]) simp
  have "count (all_nodes ?y (pend @ ns)) n \<le> 1" "set_mset (all_nodes ?y (pend @ ns)) = used (mq_pool ?q)" for n
    using i(2,9) unfolding all by blast+
  then show ?thesis unfolding mq_inv_def Let_def
    using i(1) order rest linking links(1) ns(1) by (simp add: q chain exchanged_add)
qed

lemma mq_inv_link:
  assumes inv: "mq_inv x pend" and acts: "mr_acts x = add_mset (Exchanged old first) A"
  shows "mq_inv (x\<lparr>mr_queue := link_old_head ops old first (mr_queue x), mr_acts := A\<rparr>) pend" (is "mq_inv ?y _")
proof -
  let ?q = "mr_queue x" and ?nx = "no_next ops (mq_pool (mr_queue x))"
  let ?chain = "mq_tail (mr_queue x) # pend"
  note i = mq_invD [OF inv]
  have "(old, first) \<in># missing_links ?nx ?chain" by (rule linking_mem [OF i(7)]) (simp add: acts)
  then obtain xs ys where chain: "?chain = xs @ old # first # ys" "?nx old = None" using missing_mem by metis
  have old: "old \<in> set ?chain" unfolding chain(1) by simp
  have used: "old \<in> used (mq_pool ?q)" by (rule i(3) [OF chain_nodes [OF old]])
  note set = supply_set_next [OF i(1) used, of "Some first"]
  have links: "missing_links ?nx ?chain = add_mset (old, first) (missing_links (?nx(old := Some first)) ?chain)"
    "almost_links (?nx(old := Some first)) ?chain"
    using make_link [of xs old first ys ?nx] mq_inv_distinct(1) [OF inv] chain i(8) by simp_all
  have linking: "linking A (missing_links (?nx(old := Some first)) ?chain)"
    using i(7) unfolding acts links(1) by (rule linking_remove)
  have "prepared_ok (?nx(old := Some first)) (mq_value ?q) (mr_acts x)"
    by (rule prepared_frame [OF i(6)]) (use mq_inv_distinct(2) [OF inv] old in force)
  then have prep: "prepared_ok (?nx(old := Some first)) (mq_value ?q) A" by (simp add: acts exchanged_add)
  have all: "all_nodes ?y pend = all_nodes x pend" by (simp add: all_nodes_def acts link_old_head_def)
  have "count (all_nodes ?y pend) n \<le> 1" "set_mset (all_nodes ?y pend) = used (mq_pool ?q)" for n
    using i(2,9) unfolding all by blast+
  then show ?thesis unfolding mq_inv_def Let_def
    using set i(4,5) prep linking links(2) by (simp add: link_old_head_def)
qed

text \<open>What an attempt to dequeue finds.\<close>

lemma dequeue_first:
  assumes inv: "mq_inv x pend"
  shows "case try_dequeue ops t (mr_queue x) of
      None \<Rightarrow> False
    | Some (None, q) \<Rightarrow> q = mr_queue x
        \<and> (pend = [] \<or> Exchanged (mq_tail (mr_queue x)) (hd pend) \<in># mr_acts x)
    | Some (Some v, q) \<Rightarrow> \<exists>n rest. pend = n # rest \<and> mq_value (mr_queue x) n = Some v
        \<and> no_next ops (mq_pool (mr_queue x)) (mq_tail (mr_queue x)) = Some n
        \<and> q = (mr_queue x)\<lparr>mq_value := (mq_value (mr_queue x))(n := None),
               mq_pool := no_deallocate ops t (mq_tail (mr_queue x)) (mq_pool (mr_queue x)), mq_tail := n\<rparr>"
proof (cases pend)
  case Nil
  then show ?thesis using mq_invD(8) [OF inv] by (simp add: try_dequeue_def)
next
  case (Cons n rest)
  let ?q = "mr_queue x" and ?nx = "no_next ops (mq_pool (mr_queue x))"
  note i = mq_invD [OF inv]
  obtain v where v: "mq_value ?q n = Some v" using i(5) Cons by auto
  consider "?nx (mq_tail ?q) = Some n" | "?nx (mq_tail ?q) = None" using i(8) Cons by auto
  then show ?thesis
  proof cases
    case 1
    then show ?thesis using Cons v by (simp add: try_dequeue_def)
  next
    case 2
    then have "(mq_tail ?q, n) \<in># missing_links ?nx (mq_tail ?q # pend)" using Cons by simp
    then have "Exchanged (mq_tail ?q) n \<in># filter_mset (\<lambda>a. \<not> prepared_acts a) (mr_acts x)"
      unfolding i(7) [unfolded linking_def] by force
    then show ?thesis using 2 Cons by (simp add: try_dequeue_def)
  qed
qed

lemma mq_inv_dequeue:
  assumes inv: "mq_inv x pend" and deq: "try_dequeue ops t (mr_queue x) = Some (Some v, q)"
  shows "\<exists>n rest. pend = n # rest \<and> mq_inv (x\<lparr>mr_queue := q, mr_dequeued := mr_dequeued x @ [v]\<rparr>) rest"
proof -
  let ?q = "mr_queue x" and ?nx = "no_next ops (mq_pool (mr_queue x))" and ?tail = "mq_tail (mr_queue x)"
  let ?y = "x\<lparr>mr_queue := q, mr_dequeued := mr_dequeued x @ [v]\<rparr>"
  note i = mq_invD [OF inv]
  obtain n rest where pend: "pend = n # rest" "mq_value ?q n = Some v" "?nx ?tail = Some n"
    and q: "q = ?q\<lparr>mq_value := (mq_value ?q)(n := None), mq_pool := no_deallocate ops t ?tail (mq_pool ?q), mq_tail := n\<rparr>"
    using dequeue_first [OF inv, of t] deq by auto
  have tail: "?tail \<in> used (mq_pool ?q)" by (rule i(3) [OF chain_nodes]) simp
  note dealloc = supply_deallocate [OF i(1) tail, of t]
  have all: "all_nodes x pend = add_mset ?tail (all_nodes ?y rest)" by (simp add: all_nodes_def pend(1) q)
  have count: "count (all_nodes ?y rest) m \<le> 1" for m using i(2) [of m] unfolding all by (simp split: if_splits)
  have other: "m \<noteq> ?tail" if "m \<in># all_nodes ?y rest" for m
    using i(2) [of ?tail] that unfolding all by (auto simp: count_eq_zero_iff)
  have used: "set_mset (all_nodes ?y rest) = used (mq_pool q)"
  proof -
    have "set_mset (all_nodes ?y rest) = set_mset (all_nodes x pend) - {?tail}" using other unfolding all by auto
    then show ?thesis using i(9) dealloc by (simp add: q)
  qed
  have same: "no_next ops (mq_pool q) m = ?nx m" if "m \<in># all_nodes ?y rest" for m
    using dealloc other [OF that] i(3) [of m] that by (simp add: all q)
  have chain: "m \<in># all_nodes ?y rest" if "m \<in> set pend" for m using chain_nodes [of m ?y rest] that by (simp add: pend(1) q)
  have links: "missing_links (no_next ops (mq_pool q)) pend = missing_links ?nx (?tail # pend)"
    "almost_links (no_next ops (mq_pool q)) pend"
    using missing_links_cong [of pend "no_next ops (mq_pool q)" ?nx] almost_links_cong [of pend "no_next ops (mq_pool q)" ?nx]
      same chain i(8) pend(3) by (simp_all add: pend(1))
  have prep: "prepared_ok (no_next ops (mq_pool q)) (mq_value q) (mr_acts x)"
  proof (rule prepared_frame [OF i(6)])
    fix ns vs m assume p: "Prepared ns vs \<in># mr_acts x" "m \<in> set ns"
    then have "m \<in># all_nodes ?y rest" using act_all_nodes [of ns vs ?y m rest] by simp
    moreover have "m \<noteq> n" using mq_inv_distinct(2) [OF inv p(1)] p(2) by (auto simp: pend(1))
    ultimately show "no_next ops (mq_pool q) m = ?nx m \<and> mq_value q m = mq_value ?q m" using same by (simp add: q)
  qed
  obtain vals where vals: "map (mq_value ?q) rest = map Some vals" "mr_order x = mr_dequeued x @ v # vals"
    using i(5) pend by auto
  have "n \<notin> set rest" using mq_inv_distinct(1) [OF inv] by (simp add: pend(1))
  then have "map (mq_value q) rest = map Some vals" using vals(1) by (auto simp: q)
  then have order: "\<exists>vals. map (mq_value q) rest = map Some vals \<and> mr_order x = (mr_dequeued x @ [v]) @ vals" using vals(2) by auto
  have "mq_inv ?y rest" unfolding mq_inv_def Let_def
    using dealloc count used i(4,7) order prep links by (simp add: pend(1) q del: missing_links.simps almost_links.simps)
  then show ?thesis using pend(1) by blast
qed

text \<open>A step of another queue: it changes the pool, and no link outside the nodes it holds.\<close>

lemma mq_inv_other:
  assumes inv: "mq_inv x pend" and p: "inv p" "\<And>n. n \<notin> set (mr_others x) \<Longrightarrow> n \<in> used (mq_pool (mr_queue x)) \<Longrightarrow>
        n \<in> used p \<and> no_next ops p n = no_next ops (mq_pool (mr_queue x)) n"
    and others: "distinct os" "\<And>n. n \<in> set os \<Longrightarrow> n \<in> set (mr_others x) \<or> n \<notin> used (mq_pool (mr_queue x))"
      "used p = used (mq_pool (mr_queue x)) - set (mr_others x) \<union> set os"
  shows "mq_inv (x\<lparr>mr_queue := (mr_queue x)\<lparr>mq_pool := p\<rparr>, mr_others := os\<rparr>) pend" (is "mq_inv ?y _")
proof -
  let ?q = "mr_queue x"
  note i = mq_invD [OF inv]
  define own where "own = mset (mq_tail ?q # pend) + (\<Sum>a \<in># mr_acts x. act_nodes a)"
  have all: "all_nodes x pend = own + mset (mr_others x)" "all_nodes ?y pend = own + mset os" by (simp_all add: all_nodes_def own_def)
  have own: "n \<notin> set (mr_others x) \<and> n \<in> used (mq_pool ?q)" if "n \<in># own" for n
  proof
    have "0 < count own n" using that by simp
    then have "\<not> 0 < count (mset (mr_others x)) n" using i(2) [of n] unfolding all count_union by linarith
    then show "n \<notin> set (mr_others x)" by simp
    show "n \<in> used (mq_pool ?q)" using i(3) [of n] that by (simp add: all)
  qed
  have keep: "n \<in> used p \<and> no_next ops p n = no_next ops (mq_pool ?q) n" if "n \<in># own" for n
    using own [OF that] p(2) by blast
  have count: "count (all_nodes ?y pend) n \<le> 1" for n
  proof (cases "n \<in># own")
    case True
    then have "n \<notin> set os" using own others(2) by blast
    then show ?thesis using i(2) [of n] unfolding all by (simp add: count_absent)
  next
    case False
    then show ?thesis using others(1) unfolding all by (simp add: not_in_iff distinct_count_atmost_1)
  qed
  have used: "set_mset (all_nodes ?y pend) = used p"
    using own i(9) others(3) unfolding all by auto
  have chain: "n \<in># own" if "n \<in> set (mq_tail ?q # pend)" for n using that by (auto simp: own_def)
  have links: "missing_links (no_next ops p) (mq_tail ?q # pend) = missing_links (no_next ops (mq_pool ?q)) (mq_tail ?q # pend)"
    "almost_links (no_next ops p) (mq_tail ?q # pend) = almost_links (no_next ops (mq_pool ?q)) (mq_tail ?q # pend)"
    by (rule missing_links_cong almost_links_cong; use keep chain in blast)+
  have prep: "prepared_ok (no_next ops p) (mq_value ?q) (mr_acts x)"
  proof (rule prepared_frame [OF i(6)])
    fix ns vs n assume "Prepared ns vs \<in># mr_acts x" "n \<in> set ns"
    then have "n \<in># own" by (force simp: own_def)
    then show "no_next ops p n = no_next ops (mq_pool ?q) n \<and> mq_value ?q n = mq_value ?q n" using keep by simp
  qed
  show ?thesis unfolding mq_inv_def Let_def using count used p(1) i(4,5,7,8) prep by (simp add: links)
qed

lemma mq_inv_step:
  assumes "mq_step ops x y" "mq_inv x pend"
  shows "\<exists>pend. mq_inv y pend"
proof -
  note inv = assms(2) and i = mq_invD [OF assms(2)]
  have others: "distinct (mr_others x)"
  proof (rule distinct_if_counts)
    show "count (mset (mr_others x)) n \<le> 1" for n using i(2) [of n] unfolding all_nodes_def count_union by linarith
  qed
  have used: "n \<in> used (mq_pool (mr_queue x))" if "n \<in> set (mr_others x)" for n using i(3) [OF others_all_nodes [OF that]] .
  from assms(1) show ?thesis
  proof cases
    case (emplace t v ns q)
    then show ?thesis using mq_inv_prepare [OF inv, of t "[v]" ns q v] by blast
  next
    case (bulk t vs ns q)
    then show ?thesis using mq_inv_prepare [OF inv, of t vs ns q] by blast
  next
    case (exchange ns vs A old q)
    then show ?thesis using mq_inv_exchange [OF inv] by blast
  next
    case (link old first A)
    then show ?thesis using mq_inv_link [OF inv] by blast
  next
    case (dequeue t v q)
    then show ?thesis using mq_inv_dequeue [OF inv, of t v q] by blast
  next
    case (other_allocate t n p)
    have "mq_inv (x\<lparr>mr_queue := (mr_queue x)\<lparr>mq_pool := p\<rparr>, mr_others := n # mr_others x\<rparr>) pend"
      by (rule mq_inv_other [OF inv]) (use supply_allocate [OF i(1), of t] other_allocate(2) others used in auto)
    then show ?thesis using other_allocate(1) by blast
  next
    case (other_link n v)
    have "mq_inv (x\<lparr>mr_queue := (mr_queue x)\<lparr>mq_pool := no_set_next ops n v (mq_pool (mr_queue x))\<rparr>, mr_others := mr_others x\<rparr>) pend"
      by (rule mq_inv_other [OF inv]) (use supply_set_next [OF i(1) used [OF other_link(2)], of v] other_link(2) others used in auto)
    then show ?thesis using other_link(1) by (intro exI [of _ pend]) simp
  next
    case (other_deallocate n t)
    have "mq_inv (x\<lparr>mr_queue := (mr_queue x)\<lparr>mq_pool := no_deallocate ops t n (mq_pool (mr_queue x))\<rparr>, mr_others := remove1 n (mr_others x)\<rparr>) pend"
      by (rule mq_inv_other [OF inv])
        (use supply_deallocate [OF i(1) used [OF other_deallocate(2)], of t] other_deallocate(2) others used in auto)
    then show ?thesis using other_deallocate(1) by blast
  qed
qed

lemma mq_reach_inv:
  assumes "mq_reach ops p others x" "inv p" "distinct others" "set others = used p"
  shows "\<exists>pend. mq_inv x pend"
  using assms
proof (induction rule: mq_reach.induct)
  case (start t q)
  then show ?case using mq_inv_start by blast
next
  case (step x y)
  then show ?case using mq_inv_step by blast
qed

lemma reach_fifo:
  assumes "mq_reach ops p others x" "inv p" "distinct others" "set others = used p"
  shows "\<exists>rest. mr_order x = mr_dequeued x @ rest \<and>
    (case try_dequeue ops t (mr_queue x) of
       None \<Rightarrow> False
     | Some (None, q) \<Rightarrow> q = mr_queue x \<and> (rest = [] \<or> (\<exists>first. Exchanged (mq_tail (mr_queue x)) first \<in># mr_acts x))
     | Some (Some v, q) \<Rightarrow> rest \<noteq> [] \<and> v = hd rest)"
proof -
  obtain pend where inv: "mq_inv x pend" using mq_reach_inv [OF assms] by blast
  then obtain vals where vals: "map (mq_value (mr_queue x)) pend = map Some vals" "mr_order x = mr_dequeued x @ vals"
    using mq_invD(5) by blast
  have "case try_dequeue ops t (mr_queue x) of
       None \<Rightarrow> False
     | Some (None, q) \<Rightarrow> q = mr_queue x \<and> (vals = [] \<or> (\<exists>first. Exchanged (mq_tail (mr_queue x)) first \<in># mr_acts x))
     | Some (Some v, q) \<Rightarrow> vals \<noteq> [] \<and> v = hd vals"
    using dequeue_first [OF inv, of t] vals(1) by (auto split: option.splits prod.splits)
  then show ?thesis using vals(2) by blast
qed

text \<open>With no link outstanding, a bulk dequeue takes from the front as many as there are.\<close>

lemma quiet_dequeue:
  assumes inv: "mq_inv x pend" and quiet: "\<forall>a \<in># mr_acts x. prepared_acts a" and vals: "mr_order x = mr_dequeued x @ vals"
  shows "case vals of
      [] \<Rightarrow> try_dequeue ops t (mr_queue x) = Some (None, mr_queue x)
    | v # vs \<Rightarrow> \<exists>q rest. try_dequeue ops t (mr_queue x) = Some (Some v, q)
        \<and> mq_inv (x\<lparr>mr_queue := q, mr_dequeued := mr_dequeued x @ [v]\<rparr>) rest"
proof -
  obtain vals' where "map (mq_value (mr_queue x)) pend = map Some vals'" "mr_order x = mr_dequeued x @ vals'"
    using mq_invD(5) [OF inv] by blast
  then have v: "map (mq_value (mr_queue x)) pend = map Some vals" using vals by simp
  have "Exchanged a b \<notin># mr_acts x" for a b using quiet by (metis prepared_acts.simps(2))
  then show ?thesis using dequeue_first [OF inv, of t] v mq_inv_dequeue [OF inv, of t]
    by (cases vals; cases pend) (auto split: option.splits prod.splits)
qed

lemma quiet_bulk:
  assumes "mq_inv x pend" "\<forall>a \<in># mr_acts x. prepared_acts a" "mr_order x = mr_dequeued x @ vals"
  shows "\<exists>q. try_dequeue_bulk ops t n (mr_queue x) = Some (take n vals, q)"
  using assms
proof (induction n arbitrary: x pend vals)
  case (Suc n)
  show ?case
  proof (cases vals)
    case Nil
    then show ?thesis using quiet_dequeue [OF Suc.prems, of t] by simp
  next
    case (Cons v vs)
    then obtain q rest where q: "try_dequeue ops t (mr_queue x) = Some (Some v, q)"
      "mq_inv (x\<lparr>mr_queue := q, mr_dequeued := mr_dequeued x @ [v]\<rparr>) rest"
      using quiet_dequeue [OF Suc.prems, of t] by auto
    then show ?thesis using Suc.IH [OF q(2), of vs] Suc.prems(2,3) Cons by simp
  qed
qed simp

lemma destroy_spec:
  assumes "mq_inv x pend" "mr_acts x = {#}"
  shows "\<exists>p. mpsc_destroy ops t (mr_queue x) = Some p \<and> inv p \<and> used p = set (mr_others x)"
  using assms
proof (induction pend arbitrary: x)
  case Nil
  note i = mq_invD [OF Nil(1)]
  have "mq_tail (mr_queue x) \<notin> set (mr_others x)" using i(2) [of "mq_tail (mr_queue x)"] Nil(2) by (auto simp: all_nodes_def)
  moreover have "used (mq_pool (mr_queue x)) = insert (mq_tail (mr_queue x)) (set (mr_others x))"
    using i(9) Nil(2) by (simp add: all_nodes_def)
  moreover have "no_next ops (mq_pool (mr_queue x)) (mq_tail (mr_queue x)) = None" using i(8) by simp
  ultimately show ?case using supply_deallocate [OF i(1), of "mq_tail (mr_queue x)" t] by (simp add: mpsc_destroy.simps)
next
  case (Cons n rest)
  let ?q = "mr_queue x"
  have "Exchanged a b \<notin># mr_acts x" for a b using Cons.prems(2) by simp
  then obtain v q where q: "try_dequeue ops t ?q = Some (Some v, q)" "no_next ops (mq_pool ?q) (mq_tail ?q) = Some n"
    "q = ?q\<lparr>mq_value := (mq_value ?q)(n := None), mq_pool := no_deallocate ops t (mq_tail ?q) (mq_pool ?q), mq_tail := n\<rparr>"
    "mq_value ?q n = Some v"
    using dequeue_first [OF Cons.prems(1), of t] by (auto split: option.splits prod.splits)
  have "mpsc_destroy ops t ?q = mpsc_destroy ops t q" using q(2-4) by (simp add: mpsc_destroy.simps [of ops t ?q])
  then show ?case using mq_inv_dequeue [OF Cons.prems(1) q(1)] Cons.IH [of "x\<lparr>mr_queue := q, mr_dequeued := mr_dequeued x @ [v]\<rparr>"] Cons.prems(2)
    by auto
qed

text \<open>Two producers: the first exchanges the head and waits, the second enqueues; then the first goes on.\<close>

lemma two_enqueues:
  fixes v w :: 'v
  assumes p: "inv p" "distinct others" "set others = used p"
  shows "\<exists>x y old first. mq_reach ops p others x \<and> mr_acts x = {#Exchanged old first#} \<and> mq_value (mr_queue x) first = Some v
    \<and> mr_order x = [v, w] \<and> mr_dequeued x = [] \<and> try_dequeue ops t (mr_queue x) = Some (None, mr_queue x)
    \<and> mq_step ops x y \<and> mr_acts y = {#} \<and> mr_order y = [v, w] \<and> mr_dequeued y = [] \<and> mr_others y = others"
proof -
  obtain d p0 where d: "no_allocate ops t p = Some (d, p0)" "inv p0" "used p0 = insert d (used p)" "no_next ops p0 d = None"
    using supply_allocate [OF p(1), of t] by blast
  define q0 :: "('p, 'v) mpsc" where "q0 = \<lparr>mq_pool = p0, mq_head = d, mq_tail = d, mq_value = (\<lambda>_. None)\<rparr>"
  define x0 where "x0 = \<lparr>mr_queue = q0, mr_acts = {#}, mr_order = [], mr_dequeued = [], mr_others = others\<rparr>"
  have q0: "inv (mq_pool q0)" "mq_pool q0 = p0" "mq_tail q0 = d" "mq_head q0 = d" using d(2) by (simp_all add: q0_def)
  have r0: "mq_reach ops p others x0" unfolding x0_def
    by (rule mq_reach.start [of ops t]) (simp add: mpsc_new_def d(1) q0_def)
  obtain n q1 where n: "new_node ops t v q0 = Some (n, q1)" "inv (mq_pool q1)" "n \<notin> used p0" "used (mq_pool q1) = insert n (used p0)"
    "no_next ops (mq_pool q1) n = None" "\<forall>x \<in> used p0. no_next ops (mq_pool q1) x = no_next ops p0 x"
    "mq_value q1 = (mq_value q0)(n \<mapsto> v)" "mq_head q1 = d" "mq_tail q1 = d"
    using new_node_spec [OF q0(1), of t v] unfolding q0(2-4) by blast
  obtain m q2 where m: "new_node ops t w q1 = Some (m, q2)" "inv (mq_pool q2)" "m \<notin> used (mq_pool q1)" "used (mq_pool q2) = insert m (used (mq_pool q1))"
    "no_next ops (mq_pool q2) m = None" "\<forall>x \<in> used (mq_pool q1). no_next ops (mq_pool q2) x = no_next ops (mq_pool q1) x"
    "mq_value q2 = (mq_value q1)(m \<mapsto> w)" "mq_head q2 = d" "mq_tail q2 = d"
    using new_node_spec [OF n(2), of t w] unfolding n(8,9) by blast
  define x1 where "x1 = x0\<lparr>mr_queue := q1, mr_acts := {#Prepared [n] [v]#}\<rparr>"
  define x2 where "x2 = x1\<lparr>mr_queue := q2, mr_acts := {#Prepared [m] [w], Prepared [n] [v]#}\<rparr>"
  define x3 where "x3 = x2\<lparr>mr_queue := q2\<lparr>mq_head := n\<rparr>, mr_acts := {#Exchanged d n, Prepared [m] [w]#}, mr_order := [v]\<rparr>"
  define x4 where "x4 = x3\<lparr>mr_queue := q2\<lparr>mq_head := m\<rparr>, mr_acts := {#Exchanged n m, Exchanged d n#}, mr_order := [v, w]\<rparr>"
  define x5 where "x5 = x4\<lparr>mr_queue := link_old_head ops n m (q2\<lparr>mq_head := m\<rparr>), mr_acts := {#Exchanged d n#}\<rparr>"
  define x6 where "x6 = x5\<lparr>mr_queue := link_old_head ops d n (mr_queue x5), mr_acts := {#}\<rparr>"
  have "mq_step ops x0 x1" using mq_step.emplace [of ops t v x0 "[n]" q1] n(1) by (simp add: x0_def x1_def prepare_emplace_def)
  moreover have "mq_step ops x1 x2" using mq_step.emplace [of ops t w x1 "[m]" q2] m(1) by (simp add: x1_def x2_def prepare_emplace_def)
  moreover have "mq_step ops x2 x3" using mq_step.exchange [of x2 "[n]" "[v]" "{#Prepared [m] [w]#}" d _ ops]
    by (simp add: x2_def x3_def x1_def x0_def exchange_head_def m(8) add_mset_commute)
  moreover have "mq_step ops x3 x4" using mq_step.exchange [of x3 "[m]" "[w]" "{#Exchanged d n#}" n _ ops]
    by (simp add: x4_def x3_def x2_def x1_def x0_def exchange_head_def add_mset_commute)
  moreover have "mq_step ops x4 x5" using mq_step.link [of x4 n m "{#Exchanged d n#}" ops]
    by (simp add: x4_def x5_def)
  ultimately have reach: "mq_reach ops p others x5" using r0 mq_reach.step by metis
  have "mq_step ops x5 x6" using mq_step.link [of x5 d n "{#}" ops] by (simp add: x5_def x6_def)
  have dn: "d \<noteq> n" "d \<noteq> m" "n \<noteq> m" "d \<in> used (mq_pool q1)" "n \<in> used (mq_pool q2)" using d(3) n(3,4) m(3,4) by auto
  then have "no_next ops (mq_pool q2) d = None" using m(6) n(6) d(3,4) by simp
  then have "no_next ops (no_set_next ops n (Some m) (mq_pool q2)) d = None" using supply_set_next [OF m(2) dn(5)] dn(1) by simp
  then have "try_dequeue ops t (mr_queue x5) = Some (None, mr_queue x5)" by (simp add: try_dequeue_def x5_def link_old_head_def m(9))
  moreover have "mq_value (mr_queue x5) n = Some v" using m(7) n(7) dn(3) by (simp add: x5_def link_old_head_def)
  moreover have "mr_acts x5 = {#Exchanged d n#}" "mr_order x5 = [v, w]" "mr_dequeued x5 = []" by (simp_all add: x5_def x4_def x3_def x2_def x1_def x0_def)
  moreover have "mr_acts x6 = {#}" "mr_order x6 = [v, w]" "mr_dequeued x6 = []" "mr_others x6 = others"
    by (simp_all add: x6_def x5_def x4_def x3_def x2_def x1_def x0_def)
  ultimately show ?thesis using reach \<open>mq_step ops x5 x6\<close> by blast
qed

end

section \<open>The queue over its pool\<close>

text \<open>
  The destructor of a queue, with the number of queues alive: the last one frees the pool.
\<close>

definition MPSC_queue_destroy :: "nat \<Rightarrow> nat \<Rightarrow> nat \<Rightarrow> (node_pool, 'v) mpsc \<Rightarrow> (nat \<times> node_pool) option" where
  "MPSC_queue_destroy cap t instances q =
     map_option (\<lambda>p. (instances - 1, if instances - 1 = 0 then free_global p else p)) (mpsc_destroy (daking_ops cap) t q)"

lemma quiet_run:
  "\<exists>y. mq_reach (daking_ops 256) node_pool_new [] y \<and> mr_acts y = {#} \<and> mr_order y = [1 :: nat, 2] \<and> mr_dequeued y = [] \<and> mr_others y = []"
proof -
  have "pool_ok 256 node_pool_new" "used_nodes 256 node_pool_new = {}" using node_pool_new_ok [of 256] by simp_all
  then show ?thesis using daking.two_enqueues [of 256 node_pool_new "[]" "1 :: nat" 2 0] mq_reach.step by fastforce
qed

text \<open>C10: Whatever the producers, the consumer and the other queues on the pool do and in whatever
  order, the queue hands out its values in the order of the head exchanges, each once; an attempt
  to dequeue never reads a node without a value, and comes back empty only when nothing is left
  or the first remaining enqueue has not linked its node yet.\<close>

theorem mpsc_queue_first_in_first_out:
  assumes "pool_ok cap p" "distinct others" "set others = used_nodes cap p" "mq_reach (daking_ops cap) p others x"
  shows "\<exists>rest. mr_order x = mr_dequeued x @ rest \<and>
    (case try_dequeue (daking_ops cap) t (mr_queue x) of
       None \<Rightarrow> False
     | Some (None, q) \<Rightarrow> q = mr_queue x \<and> (rest = [] \<or> (\<exists>first. Exchanged (mq_tail (mr_queue x)) first \<in># mr_acts x))
     | Some (Some v, q) \<Rightarrow> rest \<noteq> [] \<and> v = hd rest)"
  by (rule daking.reach_fifo [OF assms(4,1,2,3)])

theorem mpsc_queue_first_in_first_out_witness:
  "\<exists>x :: (node_pool, nat) mq_run. mr_order x = [1 :: nat, 2] \<and> (\<exists>q. try_dequeue (daking_ops 256) 0 (mr_queue x) = Some (Some 1, q))"
proof -
  obtain y where y: "mq_reach (daking_ops 256) node_pool_new [] y" "mr_acts y = {#}" "mr_order y = [1 :: nat, 2]" "mr_dequeued y = []"
    using quiet_run by blast
  have "pool_ok 256 node_pool_new" "used_nodes 256 node_pool_new = {}" using node_pool_new_ok [of 256] by simp_all
  then have "case try_dequeue (daking_ops 256) 0 (mr_queue y) of
       None \<Rightarrow> False | Some (None, q) \<Rightarrow> False | Some (Some v, q) \<Rightarrow> v = 1"
    using mpsc_queue_first_in_first_out [of 256 node_pool_new "[]" y 0] y by (auto split: option.splits prod.splits)
  then show ?thesis using y(3) by (auto split: option.splits prod.splits)
qed

text \<open>While no enqueue is between its exchange and its link, a bulk dequeue of up to \<open>n\<close>
  values returns the first \<open>n\<close> that remain, fewer only when fewer remain, and \<open>empty\<close> is exact.\<close>

theorem mpsc_queue_quiet_bulk:
  assumes "pool_ok cap p" "distinct others" "set others = used_nodes cap p" "mq_reach (daking_ops cap) p others x"
    and "\<forall>a \<in># mr_acts x. prepared_acts a"
  shows "\<exists>rest. mr_order x = mr_dequeued x @ rest
    \<and> map_option fst (try_dequeue_bulk (daking_ops cap) t n (mr_queue x)) = Some (take n rest)
    \<and> (mpsc_empty (daking_ops cap) (mr_queue x) \<longleftrightarrow> rest = [])"
proof -
  obtain pend where inv: "daking.mq_inv cap x pend" using daking.mq_reach_inv [OF assms(4,1,2,3)] by blast
  obtain rest where rest: "mr_order x = mr_dequeued x @ rest" using daking.mq_invD(5) [OF inv] by blast
  have "mpsc_empty (daking_ops cap) (mr_queue x) \<longleftrightarrow> rest = []"
    using daking.quiet_dequeue [OF inv assms(5) rest, of t]
    by (cases rest) (auto simp: try_dequeue_def mpsc_empty_def split: option.splits)
  moreover have "map_option fst (try_dequeue_bulk (daking_ops cap) t n (mr_queue x)) = Some (take n rest)"
    using daking.quiet_bulk [OF inv assms(5) rest, of t n] by auto
  ultimately show ?thesis using rest by blast
qed

theorem mpsc_queue_quiet_bulk_witness:
  "\<exists>x :: (node_pool, nat) mq_run. mr_order x = [1 :: nat, 2] \<and> map_option fst (try_dequeue_bulk (daking_ops 256) 0 5 (mr_queue x)) = Some [1, 2]"
proof -
  obtain y where y: "mq_reach (daking_ops 256) node_pool_new [] y" "mr_acts y = {#}" "mr_order y = [1 :: nat, 2]" "mr_dequeued y = []"
    using quiet_run by blast
  have "pool_ok 256 node_pool_new" "used_nodes 256 node_pool_new = {}" using node_pool_new_ok [of 256] by simp_all
  then have "map_option fst (try_dequeue_bulk (daking_ops 256) 0 5 (mr_queue y)) = Some (take 5 [1, 2])"
    using mpsc_queue_quiet_bulk [of 256 node_pool_new "[]" y 0 5] y by auto
  then show ?thesis using y(3) by auto
qed

text \<open>C30: The destructor of a queue no producer uses ends and gives back every node of the queue:
  only the nodes of the other queues stay in use.\<close>

theorem mpsc_queue_destructor_returns_nodes:
  assumes "pool_ok cap p" "distinct others" "set others = used_nodes cap p" "mq_reach (daking_ops cap) p others x" "mr_acts x = {#}"
  shows "\<exists>p'. MPSC_queue_destroy cap t (Suc (Suc k)) (mr_queue x) = Some (Suc k, p') \<and> pool_ok cap p' \<and> used_nodes cap p' = set (mr_others x)"
proof -
  obtain pend where inv: "daking.mq_inv cap x pend" using daking.mq_reach_inv [OF assms(4,1,2,3)] by blast
  show ?thesis using daking.destroy_spec [OF inv assms(5), of t] by (auto simp: MPSC_queue_destroy_def)
qed

theorem mpsc_queue_destructor_returns_nodes_witness:
  "\<exists>(x :: (node_pool, nat) mq_run) p'. mr_order x = [1 :: nat, 2] \<and> MPSC_queue_destroy 256 0 2 (mr_queue x) = Some (1, p') \<and> used_nodes 256 p' = {}"
proof -
  obtain y where y: "mq_reach (daking_ops 256) node_pool_new [] y" "mr_acts y = {#}" "mr_order y = [1 :: nat, 2]" "mr_others y = []"
    using quiet_run by blast
  have "pool_ok 256 node_pool_new" "used_nodes 256 node_pool_new = {}" using node_pool_new_ok [of 256] by simp_all
  then show ?thesis using mpsc_queue_destructor_returns_nodes [of 256 node_pool_new "[]" y 0 0] y by (auto simp: numeral_2_eq_2)
qed

text \<open>An enqueue that has returned can be invisible: with the values 1 and then 2 exchanged into
  the head and only the enqueue of 1 still to link its node, the enqueue of 2 is over, and an
  attempt to dequeue finds the queue empty. The queue is not linearizable.\<close>

theorem completed_enqueue_is_invisible:
  "\<exists>x old first. mq_reach (daking_ops 256) node_pool_new [] x \<and> mr_order x = [1 :: nat, 2] \<and> mr_dequeued x = []
     \<and> mr_acts x = {#Exchanged old first#} \<and> mq_value (mr_queue x) first = Some 1
     \<and> try_dequeue (daking_ops 256) 0 (mr_queue x) = Some (None, mr_queue x)"
proof -
  have "pool_ok 256 node_pool_new" "used_nodes 256 node_pool_new = {}" using node_pool_new_ok [of 256] by simp_all
  then show ?thesis using daking.two_enqueues [of 256 node_pool_new "[]" "1 :: nat" 2 0] by auto
qed

end
