(* ===== verification/Thread_Hooks.thy ===== *)
theory Thread_Hooks
  imports Mpsc_Queue "HOL-Library.AList"
begin

text \<open>
  Which list of free nodes a thread uses (\<open>MPSC_manager\<close>, \<open>MPSC_thread_hook\<close>,
  \<open>3rd_lib/daking/MPSC_queue.h\<close>). A list and its size are a \<open>thread_local_t\<close> pair on the heap, owned
  by the manager; a thread's first allocation constructs its hook, which registers the thread
  and keeps a pointer to its pair; the end of the thread destroys the hook, which puts the pair
  into the recycler for the next thread to register. \<open>Node_Pool\<close> numbers the pairs: a pair's
  number is the index into \<open>np_thread_local\<close>.

  Registration, its end, and \<open>reset\<close> run under the global mutex and are one step each. A
  \<open>unique_ptr\<close> is the number of the pair, or \<open>None\<close> when it is null.
\<close>

section \<open>State and operations\<close>

record hook_run =
  hk_pool :: node_pool
  hk_alive :: bool
  hk_manager :: "(nat \<times> nat option) list"
  hk_recycler :: "nat option list"
  hk_pairs :: nat
  hk_hooks :: "nat \<rightharpoonup> nat option"

definition hook_run_new :: hook_run where
  "hook_run_new = \<lparr>hk_pool = node_pool_new, hk_alive = False, hk_manager = [], hk_recycler = [], hk_pairs = 0, hk_hooks = Map.empty\<rparr>"

text \<open>\<open>register_for\<close>: a pair from the back of the recycler, or a new one.\<close>

definition register_for :: "nat \<Rightarrow> hook_run \<Rightarrow> nat option \<times> hook_run" where
  "register_for tid s =
     (if hk_recycler s \<noteq> []
      then (last (hk_recycler s),
        s\<lparr>hk_manager := AList.update tid (last (hk_recycler s)) (hk_manager s), hk_recycler := butlast (hk_recycler s)\<rparr>)
      else (Some (hk_pairs s),
        s\<lparr>hk_manager := AList.update tid (Some (hk_pairs s)) (hk_manager s), hk_pairs := hk_pairs s + 1,
          hk_pool := (hk_pool s)\<lparr>np_thread_local := (np_thread_local (hk_pool s))(hk_pairs s := (None, 0))\<rparr>\<rparr>))"

text \<open>\<open>unregister_for\<close>: the subscript makes a null entry when the thread has none.\<close>

definition unregister_for :: "nat \<Rightarrow> hook_run \<Rightarrow> hook_run" where
  "unregister_for tid s = s\<lparr>hk_recycler := hk_recycler s @ [case map_of (hk_manager s) tid of None \<Rightarrow> None | Some p \<Rightarrow> p],
     hk_manager := AList.delete tid (hk_manager s)\<rparr>"

text \<open>
  \<open>_get_thread_hook\<close> with the pair the hook points at. No result when the manager does not exist
  (the constructor dereferences it, and it owned the pair of a hook that exists) or the pointer is null.
\<close>

definition get_thread_hook :: "nat \<Rightarrow> hook_run \<Rightarrow> (nat \<times> hook_run) option" where
  "get_thread_hook tid s =
     (if \<not> hk_alive s then None
      else case hk_hooks s tid of
        Some pair \<Rightarrow> map_option (\<lambda>p. (p, s)) pair
      | None \<Rightarrow>
          (let (pair, s') = register_for tid s in
           map_option (\<lambda>p. (p, s'\<lparr>hk_hooks := (hk_hooks s')(tid \<mapsto> pair)\<rparr>)) pair))"

text \<open>The destructor of a thread's hook, if the thread has one.\<close>

definition thread_exit :: "nat \<Rightarrow> hook_run \<Rightarrow> hook_run" where
  "thread_exit tid s =
     (case hk_hooks s tid of
        None \<Rightarrow> s
      | Some _ \<Rightarrow> (if hk_alive s then unregister_for tid s else s)\<lparr>hk_hooks := (hk_hooks s)(tid := None)\<rparr>)"

text \<open>\<open>create_global_manager\<close> as \<open>_initial\<close> calls it: the instance exists from then on.\<close>

definition create_manager :: "hook_run \<Rightarrow> hook_run" where
  "create_manager s = s\<lparr>hk_alive := True\<rparr>"

text \<open>\<open>MPSC_manager::reset\<close>: the loops over the pairs, then the pages.\<close>

fun clear_pairs :: "nat option list \<Rightarrow> node_pool \<Rightarrow> node_pool option" where
  "clear_pairs [] s = Some s"
| "clear_pairs (None # ps) s = None"
| "clear_pairs (Some p # ps) s = clear_pairs ps (s\<lparr>np_thread_local := (np_thread_local s)(p := (None, 0))\<rparr>)"

definition manager_reset :: "hook_run \<Rightarrow> hook_run option" where
  "manager_reset s =
     (case clear_pairs (map snd (hk_manager s)) (hk_pool s) of
        None \<Rightarrow> None
      | Some pool \<Rightarrow>
          map_option (\<lambda>pool. s\<lparr>hk_pool := pool\<lparr>np_pages := [], np_node_count := 0\<rparr>\<rparr>) (clear_pairs (hk_recycler s) pool))"

definition free_global_hooked :: "hook_run \<Rightarrow> hook_run option" where
  "free_global_hooked s =
     (let s1 = s\<lparr>hk_pool := (hk_pool s)\<lparr>np_top := None, np_tag := 0\<rparr>\<rparr> in
      if hk_alive s1 then manager_reset s1 else Some s1)"

text \<open>\<open>~MPSC_manager\<close>, with the destruction of its members.\<close>

definition manager_destroy :: "hook_run \<Rightarrow> hook_run option" where
  "manager_destroy s = map_option (\<lambda>s. s\<lparr>hk_alive := False, hk_manager := [], hk_recycler := []\<rparr>) (manager_reset s)"

text \<open>\<open>_allocate\<close> and \<open>_deallocate\<close> on the calling thread's list.\<close>

definition hook_allocate :: "nat \<Rightarrow> nat \<Rightarrow> hook_run \<Rightarrow> (nat \<times> hook_run) option" where
  "hook_allocate cap tid s =
     (case get_thread_hook tid s of
        None \<Rightarrow> None
      | Some (p, s1) \<Rightarrow> map_option (\<lambda>(n, pool). (n, s1\<lparr>hk_pool := pool\<rparr>)) (allocate_node cap p (hk_pool s1)))"

definition hook_deallocate :: "nat \<Rightarrow> nat \<Rightarrow> nat \<Rightarrow> hook_run \<Rightarrow> hook_run option" where
  "hook_deallocate cap tid n s =
     map_option (\<lambda>(p, s1). s1\<lparr>hk_pool := deallocate_node cap p n (hk_pool s1)\<rparr>) (get_thread_hook tid s)"

definition hook_set_next :: "nat \<Rightarrow> nat option \<Rightarrow> hook_run \<Rightarrow> hook_run" where
  "hook_set_next n v s = s\<lparr>hk_pool := (hk_pool s)\<lparr>np_next := (np_next (hk_pool s))(n := v)\<rparr>\<rparr>"

text \<open>The public statics: without a manager they do nothing.\<close>

definition global_node_size_apprx :: "hook_run \<Rightarrow> nat" where
  "global_node_size_apprx s = (if hk_alive s then np_node_count (hk_pool s) else 0)"

definition reserve_global_chunk :: "nat \<Rightarrow> nat \<Rightarrow> hook_run \<Rightarrow> bool \<times> hook_run" where
  "reserve_global_chunk cap chunk_count s =
     (if hk_alive s
      then let (reserved, pool) = reserve_global_external cap chunk_count (hk_pool s) in (reserved, s\<lparr>hk_pool := pool\<rparr>)
      else (False, s))"

text \<open>What a queue asks of its nodes; the invariant below makes every \<open>_deallocate\<close> have a result.\<close>

definition hook_ops :: "nat \<Rightarrow> hook_run node_ops" where
  "hook_ops cap = \<lparr>no_next = (\<lambda>s. np_next (hk_pool s)), no_set_next = hook_set_next, no_allocate = hook_allocate cap,
     no_deallocate = (\<lambda>t n s. case hook_deallocate cap t n s of None \<Rightarrow> s | Some s' \<Rightarrow> s')\<rparr>"

section \<open>What threads do\<close>

text \<open>The process until static destruction: any number of threads, queues made and destroyed.\<close>

inductive hk_step :: "nat \<Rightarrow> hook_run \<Rightarrow> hook_run \<Rightarrow> bool" for cap where
  initial: "hk_step cap s (create_manager s)"
| allocate: "hook_allocate cap t s = Some (n, s') \<Longrightarrow> hk_step cap s s'"
| deallocate: "n \<in> used_nodes cap (hk_pool s) \<Longrightarrow> hook_deallocate cap t n s = Some s' \<Longrightarrow> hk_step cap s s'"
| link: "n \<in> used_nodes cap (hk_pool s) \<Longrightarrow> hk_step cap s (hook_set_next n v s)"
| reserve: "hk_step cap s (snd (reserve_global_chunk cap n s))"
| exit: "hk_step cap s (thread_exit t s)"
| free_all: "hk_alive s \<Longrightarrow> free_global_hooked s = Some s' \<Longrightarrow> hk_step cap s s'"

inductive hk_reach :: "nat \<Rightarrow> hook_run \<Rightarrow> bool" for cap where
  start: "hk_reach cap hook_run_new"
| step: "hk_reach cap s \<Longrightarrow> hk_step cap s s' \<Longrightarrow> hk_reach cap s'"

section \<open>The invariant\<close>

text \<open>
  Each pair made so far is in the manager, for one thread whose hook points at it, or in the
  recycler, once; the lists beyond them are empty.
\<close>

definition pairs_held :: "hook_run \<Rightarrow> nat option list" where
  "pairs_held s = map snd (hk_manager s) @ hk_recycler s"

definition hk_ok :: "nat \<Rightarrow> hook_run \<Rightarrow> bool" where
  "hk_ok cap s \<longleftrightarrow> pool_ok cap (hk_pool s)
     \<and> distinct (map fst (hk_manager s)) \<and> hk_hooks s = map_of (hk_manager s)
     \<and> mset (pairs_held s) = mset (map Some [0..<hk_pairs s])
     \<and> (\<forall>p \<ge> hk_pairs s. np_thread_local (hk_pool s) p = (None, 0))
     \<and> (\<not> hk_alive s \<longrightarrow> hk_pairs s = 0)"

lemma hk_okD:
  assumes "hk_ok cap s"
  shows "pool_ok cap (hk_pool s)" "distinct (map fst (hk_manager s))" "hk_hooks s = map_of (hk_manager s)"
    "mset (pairs_held s) = mset (map Some [0..<hk_pairs s])"
    "hk_pairs s \<le> p \<Longrightarrow> np_thread_local (hk_pool s) p = (None, 0)" "\<not> hk_alive s \<Longrightarrow> hk_pairs s = 0"
  using assms by (simp_all add: hk_ok_def)

lemma new_pair_idem: "hk_ok cap s \<Longrightarrow>
    (hk_pool s)\<lparr>np_thread_local := (np_thread_local (hk_pool s))(hk_pairs s := (None, 0))\<rparr> = hk_pool s"
  using hk_okD(5) [of cap s "hk_pairs s"] by (simp add: fun_upd_idem)

lemma mset_update_new: "map_of al k = None \<Longrightarrow> mset (map snd (AList.update k v al)) = add_mset v (mset (map snd al))"
  by (induction al) (auto split: if_splits)

lemma mset_delete_old: "distinct (map fst al) \<Longrightarrow> map_of al k = Some v \<Longrightarrow>
    add_mset v (mset (map snd (AList.delete k al))) = mset (map snd al)"
proof (induction al)
  case (Cons a al)
  have "AList.delete k al = al" if "k \<notin> fst ` set al" using that by (simp add: delete_notin_dom)
  then show ?case using Cons by (cases a) (auto split: if_splits)
qed simp

lemma mset_last: "xs \<noteq> [] \<Longrightarrow> add_mset (last xs) (mset (butlast xs)) = mset xs"
  by (metis append_butlast_last_id mset.simps(1,2) union_mset_add_mset_right mset_append add_0_right)

lemma held_distinct: "hk_ok cap s \<Longrightarrow> distinct (pairs_held s) \<and> set (pairs_held s) = Some ` {..<hk_pairs s}"
proof
  assume ok: "hk_ok cap s"
  have "distinct (map Some [0..<hk_pairs s])" by (simp add: distinct_map)
  then show "distinct (pairs_held s)" using hk_okD(4) [OF ok] mset_eq_imp_distinct_iff by blast
  have "set (pairs_held s) = set (map Some [0..<hk_pairs s])" by (rule mset_eq_setD [OF hk_okD(4) [OF ok]])
  then show "set (pairs_held s) = Some ` {..<hk_pairs s}" by (simp add: atLeast0LessThan)
qed

lemma manager_held: "map_of (hk_manager s) t = Some pair \<Longrightarrow> pair \<in> set (pairs_held s)"
  by (force simp: pairs_held_def dest: map_of_SomeD)

lemma hook_pair:
  assumes "hk_ok cap s" "hk_hooks s t = Some pair"
  shows "\<exists>p < hk_pairs s. pair = Some p"
  using manager_held [of s t pair] held_distinct [OF assms(1)] hk_okD(3) [OF assms(1)] assms(2) by auto

lemma hooks_injective:
  assumes "hk_ok cap s" "hk_hooks s t = Some pair" "hk_hooks s u = Some pair"
  shows "t = u"
proof -
  have "distinct (map snd (hk_manager s))" using held_distinct [OF assms(1)] by (simp add: pairs_held_def)
  moreover have "(t, pair) \<in> set (hk_manager s)" "(u, pair) \<in> set (hk_manager s)"
    using assms hk_okD(3) [OF assms(1)] map_of_SomeD by metis+
  ultimately show ?thesis by (metis (no_types, lifting) distinct_map inj_on_def prod.inject snd_conv)
qed

section \<open>Registration\<close>

lemma register_ok:
  assumes ok: "hk_ok cap s" and new: "hk_hooks s t = None" and alive: "hk_alive s"
  shows "\<exists>p s'. register_for t s = (Some p, s') \<and> hk_ok cap (s'\<lparr>hk_hooks := (hk_hooks s')(t \<mapsto> Some p)\<rparr>)
    \<and> p < hk_pairs s' \<and> hk_pool s' = hk_pool s \<and> hk_alive s' \<and> hk_hooks s' = hk_hooks s"
proof -
  note d = hk_okD [OF ok]
  have t: "map_of (hk_manager s) t = None" using new d(3) by simp
  show ?thesis
  proof (cases "hk_recycler s = []")
    case True
    let ?al = "AList.update t (Some (hk_pairs s)) (hk_manager s)"
    have "mset (map snd ?al) = mset (map Some [0..<Suc (hk_pairs s)])"
      using d(4) True mset_update_new [OF t] by (simp add: pairs_held_def)
    then show ?thesis
      using True d alive new_pair_idem [OF ok]
      by (simp add: register_for_def hk_ok_def pairs_held_def update_conv' distinct_update atLeast0_lessThan_Suc)
  next
    case False
    have "last (hk_recycler s) \<in> set (pairs_held s)" using False by (simp add: pairs_held_def)
    then obtain p where p: "last (hk_recycler s) = Some p" "p < hk_pairs s" using held_distinct [OF ok] by auto
    let ?al = "AList.update t (Some p) (hk_manager s)"
    have "mset (map snd ?al) + mset (butlast (hk_recycler s)) = mset (pairs_held s)"
      using mset_update_new [OF t, of "Some p"] mset_last [OF False] p(1) by (simp add: pairs_held_def)
    then show ?thesis using False p d alive
      by (simp add: register_for_def hk_ok_def pairs_held_def update_conv' distinct_update)
  qed
qed

lemma get_hook_ok:
  assumes ok: "hk_ok cap s" and alive: "hk_alive s"
  shows "\<exists>p s'. get_thread_hook t s = Some (p, s') \<and> hk_ok cap s' \<and> hk_pool s' = hk_pool s \<and> p < hk_pairs s'
    \<and> hk_alive s' \<and> hk_hooks s' = (hk_hooks s)(t \<mapsto> Some p)"
proof (cases "hk_hooks s t")
  case None
  then show ?thesis using register_ok [OF ok None alive] alive by (auto simp: get_thread_hook_def)
next
  case (Some pair)
  then show ?thesis using hook_pair [OF ok Some] ok alive by (auto simp: get_thread_hook_def fun_upd_idem)
qed

lemma exit_ok:
  assumes ok: "hk_ok cap s"
  shows "hk_ok cap (thread_exit t s) \<and> hk_pool (thread_exit t s) = hk_pool s \<and> hk_alive (thread_exit t s) = hk_alive s"
proof (cases "hk_hooks s t")
  case (Some pair)
  note d = hk_okD [OF ok]
  obtain p where p: "pair = Some p" "p < hk_pairs s" using hook_pair [OF ok Some] by blast
  then have alive: "hk_alive s" using d(6) by fastforce
  have m: "map_of (hk_manager s) t = Some (Some p)" using Some p d(3) by simp
  have "add_mset (Some p) (mset (map snd (AList.delete t (hk_manager s))) + mset (hk_recycler s)) = mset (map Some [0..<hk_pairs s])"
    unfolding d(4) [symmetric] pairs_held_def mset_append mset_delete_old [OF d(2) m, symmetric] by simp
  then show ?thesis using d alive m Some p
    by (simp add: thread_exit_def unregister_for_def hk_ok_def pairs_held_def delete_conv' distinct_delete)
qed (simp add: thread_exit_def ok)

section \<open>The pool under it\<close>

lemma pop_or_reserve_local:
  assumes "pool_ok cap s" "pop_or_reserve cap s = Some (n, s')"
  shows "np_thread_local s' = np_thread_local s"
  using assms pop_or_reserve_eq [OF assms(1)] reserve_internal_local [of cap s]
  by (auto simp: chunk_try_pop_def split: option.splits if_splits)

lemma allocate_local:
  assumes "pool_ok cap s" "allocate_node cap p s = Some (n, s')" "q \<noteq> p"
  shows "np_thread_local s' q = np_thread_local s q"
  using assms pop_or_reserve_local [OF assms(1)]
  by (auto simp: allocate_node_def Let_def split: option.splits prod.splits if_splits)

lemma deallocate_local: "q \<noteq> p \<Longrightarrow> np_thread_local (deallocate_node cap p n s) q = np_thread_local s q"
  by (simp add: deallocate_node_def Let_def split: prod.splits)

lemma hk_ok_pool:
  assumes "hk_ok cap s" "pool_ok cap pool" "\<And>p. hk_pairs s \<le> p \<Longrightarrow> np_thread_local pool p = np_thread_local (hk_pool s) p"
  shows "hk_ok cap (s\<lparr>hk_pool := pool\<rparr>)"
  using assms by (simp add: hk_ok_def pairs_held_def)

lemma hook_allocate_ok:
  assumes ok: "hk_ok cap s" and alive: "hk_alive s"
  shows "\<exists>n p s1 pool. get_thread_hook t s = Some (p, s1) \<and> hk_hooks s1 = (hk_hooks s)(t \<mapsto> Some p)
    \<and> allocate_node cap p (hk_pool s) = Some (n, pool) \<and> hook_allocate cap t s = Some (n, s1\<lparr>hk_pool := pool\<rparr>)
    \<and> hk_ok cap (s1\<lparr>hk_pool := pool\<rparr>) \<and> hk_alive s1
    \<and> pool_keeps cap (hk_pool s) pool (insert n (used_nodes cap (hk_pool s))) \<and> n \<notin> used_nodes cap (hk_pool s) \<and> np_next pool n = None"
proof -
  obtain p s1 where h: "get_thread_hook t s = Some (p, s1)" "hk_ok cap s1" "hk_pool s1 = hk_pool s" "p < hk_pairs s1" "hk_alive s1"
    "hk_hooks s1 = (hk_hooks s)(t \<mapsto> Some p)"
    using get_hook_ok [OF ok alive, of t] by blast
  note pool_ok = hk_okD(1) [OF ok]
  obtain n pool where a: "allocate_node cap p (hk_pool s) = Some (n, pool)"
    "pool_keeps cap (hk_pool s) pool (insert n (used_nodes cap (hk_pool s)))" "n \<notin> used_nodes cap (hk_pool s)" "np_next pool n = None"
    using allocate_keeps [OF pool_ok, of p] by blast
  have "hk_ok cap (s1\<lparr>hk_pool := pool\<rparr>)"
    by (rule hk_ok_pool [OF h(2)]) (use a(2) allocate_local [OF pool_ok a(1)] h(3,4) in \<open>auto simp: pool_keeps_def\<close>)
  then show ?thesis using h a by (auto simp: hook_allocate_def)
qed

lemma hook_deallocate_ok:
  assumes ok: "hk_ok cap s" and alive: "hk_alive s" and n: "n \<in> used_nodes cap (hk_pool s)"
  shows "\<exists>s'. hook_deallocate cap t n s = Some s' \<and> hk_ok cap s' \<and> hk_alive s'
    \<and> pool_keeps cap (hk_pool s) (hk_pool s') (used_nodes cap (hk_pool s) - {n})"
proof -
  obtain p s1 where h: "get_thread_hook t s = Some (p, s1)" "hk_ok cap s1" "hk_pool s1 = hk_pool s" "p < hk_pairs s1" "hk_alive s1"
    using get_hook_ok [OF ok alive, of t] by blast
  let ?pool = "deallocate_node cap p n (hk_pool s)"
  have keep: "pool_keeps cap (hk_pool s) ?pool (used_nodes cap (hk_pool s) - {n})" by (rule deallocate_keeps [OF hk_okD(1) [OF ok] n])
  have "hk_ok cap (s1\<lparr>hk_pool := ?pool\<rparr>)"
    by (rule hk_ok_pool [OF h(2)]) (use keep h(3,4) in \<open>auto simp: pool_keeps_def deallocate_local\<close>)
  then show ?thesis using h keep by (simp add: hook_deallocate_def)
qed

lemma hook_set_next_ok:
  assumes "hk_ok cap s" "n \<in> used_nodes cap (hk_pool s)"
  shows "hk_ok cap (hook_set_next n v s) \<and> used_nodes cap (hk_pool (hook_set_next n v s)) = used_nodes cap (hk_pool s)"
  using set_next_keeps [OF hk_okD(1) [OF assms(1)] assms(2), of v] assms(1) by (auto simp: hook_set_next_def intro!: hk_ok_pool)

lemma reserve_chunk_ok:
  assumes "hk_ok cap s"
  shows "hk_ok cap (snd (reserve_global_chunk cap n s))"
proof -
  let ?s = "hk_pool s"
  have "pool_ok cap (pool_reserve cap (k * cap) ?s)" for k
    using pool_reserve_keeps [OF hk_okD(1) [OF assms], of "k * cap"] by (simp add: pool_keeps_def)
  then have "pool_ok cap (snd (reserve_global_external cap n ?s))" using hk_okD(1) [OF assms] by (simp add: reserve_global_external_def)
  moreover have "np_thread_local (snd (reserve_global_external cap n ?s)) = np_thread_local ?s"
    by (simp add: reserve_global_external_def pool_reserve_def Let_def reserve_local)
  ultimately have "hk_ok cap (s\<lparr>hk_pool := snd (reserve_global_external cap n ?s)\<rparr>)" by (intro hk_ok_pool [OF assms]) simp_all
  then show ?thesis using assms by (simp add: reserve_global_chunk_def case_prod_beta)
qed

text \<open>\<open>reset\<close> clears every list: \<open>_free_global\<close> is the \<open>free_global\<close> of \<open>Node_Pool\<close>.\<close>

definition cleared :: "nat option list \<Rightarrow> (nat \<Rightarrow> nat option \<times> nat) \<Rightarrow> nat \<Rightarrow> nat option \<times> nat" where
  "cleared ps f p = (if Some p \<in> set ps then (None, 0) else f p)"

lemma cleared_simps [simp]:
  "cleared [] f = f"
  "cleared qs (cleared ps f) = cleared (ps @ qs) f"
  "cleared ps (f(p := (None, 0))) = cleared (Some p # ps) f"
  by (auto simp: cleared_def fun_eq_iff)

lemma clear_pairs_eq:
  "None \<notin> set ps \<Longrightarrow> clear_pairs ps s = Some (s\<lparr>np_thread_local := cleared ps (np_thread_local s)\<rparr>)"
  by (induction ps s rule: clear_pairs.induct) auto

lemma held_no_null: "hk_ok cap s \<Longrightarrow> None \<notin> set (map snd (hk_manager s)) \<and> None \<notin> set (hk_recycler s)"
  using held_distinct [of cap s] by (auto simp: pairs_held_def)

lemma cleared_all:
  assumes "hk_ok cap s"
  shows "cleared (map snd (hk_manager s) @ hk_recycler s) (np_thread_local (hk_pool s)) = (\<lambda>_. (None, 0))"
proof
  fix p show "cleared (map snd (hk_manager s) @ hk_recycler s) (np_thread_local (hk_pool s)) p = (None, 0)"
    using held_distinct [OF assms] hk_okD(5) [OF assms, of p] unfolding pairs_held_def [symmetric]
    by (cases "p < hk_pairs s") (auto simp: cleared_def)
qed

lemma free_global_hooked_eq:
  assumes ok: "hk_ok cap s" and alive: "hk_alive s"
  shows "free_global_hooked s = Some (s\<lparr>hk_pool := free_global (hk_pool s)\<rparr>)"
  using held_no_null [OF ok] cleared_all [OF ok] alive
  by (simp add: free_global_hooked_def manager_reset_def clear_pairs_eq free_global_def)

lemma free_global_ok: "pool_ok cap s \<Longrightarrow> pool_ok cap (free_global s)"
  unfolding pool_ok_def by (auto simp: pool_lists_def free_global_def intro!: exI [of _ "[]"] exI [of _ "\<lambda>_. []"])

lemma hk_ok_start: "0 < cap \<Longrightarrow> hk_ok cap hook_run_new"
  using node_pool_new_ok [of cap] by (simp add: hk_ok_def hook_run_new_def pairs_held_def node_pool_new_def)

text \<open>Threads with their hooks are a supply of nodes: what holds of a queue over the pool holds over them.\<close>

interpretation hooked: node_supply "hook_ops cap" "\<lambda>s. hk_ok cap s \<and> hk_alive s" "\<lambda>s. used_nodes cap (hk_pool s)" for cap
proof (unfold_locales, goal_cases)
  case (1 s t)
  then obtain n s1 pool where a: "hook_allocate cap t s = Some (n, s1\<lparr>hk_pool := pool\<rparr>)" "hk_ok cap (s1\<lparr>hk_pool := pool\<rparr>)" "hk_alive s1"
    "pool_keeps cap (hk_pool s) pool (insert n (used_nodes cap (hk_pool s)))" "n \<notin> used_nodes cap (hk_pool s)" "np_next pool n = None"
    using hook_allocate_ok by blast
  then show ?case by (intro exI [of _ n] exI [of _ "s1\<lparr>hk_pool := pool\<rparr>"]) (auto simp: hook_ops_def pool_keeps_def)
next
  case (2 s n t)
  then obtain s' where "hook_deallocate cap t n s = Some s'" "hk_ok cap s'" "hk_alive s'"
    "pool_keeps cap (hk_pool s) (hk_pool s') (used_nodes cap (hk_pool s) - {n})"
    using hook_deallocate_ok by blast
  then show ?case by (auto simp: hook_ops_def pool_keeps_def)
next
  case (3 s n v)
  then show ?case using hook_set_next_ok [of cap s n v] by (simp add: hook_ops_def hook_set_next_def)
qed

lemma hk_step_ok:
  assumes "hk_step cap s s'" and ok: "hk_ok cap s"
  shows "hk_ok cap s'"
  using assms(1)
proof cases
  case initial
  then show ?thesis using ok by (simp add: create_manager_def hk_ok_def pairs_held_def)
next
  case (allocate t n)
  then have "hk_alive s" by (cases "hk_alive s") (simp_all add: hook_allocate_def get_thread_hook_def)
  then show ?thesis using allocate hook_allocate_ok [OF ok, of t] by auto
next
  case (deallocate n t)
  then have "hk_alive s" by (cases "hk_alive s") (simp_all add: hook_deallocate_def get_thread_hook_def)
  then show ?thesis using deallocate hook_deallocate_ok [OF ok, of n t] by auto
next
  case (free_all)
  then show ?thesis using free_global_hooked_eq [OF ok] hk_ok_pool [OF ok free_global_ok [OF hk_okD(1) [OF ok]]] hk_okD(5) [OF ok]
    by (auto simp: free_global_def)
qed (use ok hook_set_next_ok reserve_chunk_ok exit_ok in simp_all)

text \<open>So a queue whose nodes come from the threads' lists is first in, first out.\<close>

theorem hooked_queue_first_in_first_out:
  assumes "hk_ok cap s" "hk_alive s" "distinct others" "set others = used_nodes cap (hk_pool s)" "mq_reach (hook_ops cap) s others x"
  shows "\<exists>rest. mr_order x = mr_dequeued x @ rest \<and> (case try_dequeue (hook_ops cap) t (mr_queue x) of
       None \<Rightarrow> False
     | Some (None, q) \<Rightarrow> q = mr_queue x \<and> (rest = [] \<or> (\<exists>first. Exchanged (mq_tail (mr_queue x)) first \<in># mr_acts x))
     | Some (Some v, q) \<Rightarrow> rest \<noteq> [] \<and> v = hd rest)"
  using hooked.reach_fifo [OF assms(5) _ assms(3,4)] assms(1,2) by blast

lemma hk_reach_ok: "hk_reach cap s \<Longrightarrow> 0 < cap \<Longrightarrow> hk_ok cap s"
  by (induction rule: hk_reach.induct) (simp_all add: hk_ok_start hk_step_ok)

text \<open>C28: A list of free nodes has one user at a time. In every reachable state two threads never hold
  the same list, a list with nodes in it is a living thread's or waits in the recycler, not both, and
  an allocation by any thread succeeds with a node that is not in use and leaves the list of every
  other thread as it was.\<close>

theorem threads_own_their_lists:
  assumes "0 < cap" "hk_reach cap s"
  shows "(\<forall>t u pair. hk_hooks s t = Some pair \<and> hk_hooks s u = Some pair \<longrightarrow> t = u)
    \<and> (\<forall>p. snd (np_thread_local (hk_pool s) p) \<noteq> 0 \<longrightarrow> (\<exists>t. hk_hooks s t = Some (Some p)) \<noteq> (Some p \<in> set (hk_recycler s)))
    \<and> (hk_alive s \<longrightarrow> (\<exists>n s'. hook_allocate cap t s = Some (n, s') \<and> n \<notin> used_nodes cap (hk_pool s)
        \<and> (\<forall>u p. u \<noteq> t \<and> hk_hooks s u = Some (Some p) \<longrightarrow>
             hk_hooks s' u = Some (Some p) \<and> np_thread_local (hk_pool s') p = np_thread_local (hk_pool s) p)))"
proof (intro conjI)
  note ok = hk_reach_ok [OF assms(2,1)]
  note d = hk_okD [OF ok]
  show "\<forall>t u pair. hk_hooks s t = Some pair \<and> hk_hooks s u = Some pair \<longrightarrow> t = u" using hooks_injective [OF ok] by blast
  show "\<forall>p. snd (np_thread_local (hk_pool s) p) \<noteq> 0 \<longrightarrow> (\<exists>t. hk_hooks s t = Some (Some p)) \<noteq> (Some p \<in> set (hk_recycler s))"
  proof (intro allI impI)
    fix p assume "snd (np_thread_local (hk_pool s) p) \<noteq> 0"
    then have "p < hk_pairs s" using d(5) [of p] by fastforce
    then have "Some p \<in> set (pairs_held s)" using held_distinct [OF ok] by simp
    moreover have "Some p \<in> set (map snd (hk_manager s)) \<longleftrightarrow> (\<exists>t. hk_hooks s t = Some (Some p))"
      using d(2,3) by force
    ultimately show "(\<exists>t. hk_hooks s t = Some (Some p)) \<noteq> (Some p \<in> set (hk_recycler s))"
      using held_distinct [OF ok] unfolding pairs_held_def by auto
  qed
  show "hk_alive s \<longrightarrow> (\<exists>n s'. hook_allocate cap t s = Some (n, s') \<and> n \<notin> used_nodes cap (hk_pool s)
        \<and> (\<forall>u p. u \<noteq> t \<and> hk_hooks s u = Some (Some p) \<longrightarrow>
             hk_hooks s' u = Some (Some p) \<and> np_thread_local (hk_pool s') p = np_thread_local (hk_pool s) p))"
  proof
    assume "hk_alive s"
    from hook_allocate_ok [OF ok this, of t] obtain n p s1 pool where a: "hk_hooks s1 = (hk_hooks s)(t \<mapsto> Some p)"
      "allocate_node cap p (hk_pool s) = Some (n, pool)" "hook_allocate cap t s = Some (n, s1\<lparr>hk_pool := pool\<rparr>)"
      "hk_ok cap (s1\<lparr>hk_pool := pool\<rparr>)" "n \<notin> used_nodes cap (hk_pool s)" by blast
    have "q \<noteq> p" if "u \<noteq> t" "hk_hooks s u = Some (Some q)" for u q
      using hooks_injective [OF a(4), of t "Some p" u] that a(1) by auto
    then show "\<exists>n s'. hook_allocate cap t s = Some (n, s') \<and> n \<notin> used_nodes cap (hk_pool s)
        \<and> (\<forall>u p. u \<noteq> t \<and> hk_hooks s u = Some (Some p) \<longrightarrow>
             hk_hooks s' u = Some (Some p) \<and> np_thread_local (hk_pool s') p = np_thread_local (hk_pool s) p)"
      using a allocate_local [OF d(1) a(2)] by (intro exI [of _ n] exI [of _ "s1\<lparr>hk_pool := pool\<rparr>"]) auto
  qed
qed

theorem threads_own_their_lists_witness:
  "\<exists>s. hk_reach 2 s \<and> hk_hooks s 0 \<noteq> None \<and> hk_hooks s 1 \<noteq> None \<and> hk_hooks s 0 \<noteq> hk_hooks s 1"
proof -
  let ?s = "create_manager hook_run_new"
  have r0: "hk_reach 2 ?s" by (rule hk_reach.step [OF hk_reach.start hk_step.initial])
  then have ok: "hk_ok 2 ?s" by (rule hk_reach_ok) simp
  have alive: "hk_alive ?s" by (simp add: create_manager_def)
  from hook_allocate_ok [OF ok alive, of 0] obtain n p s1 pool where a: "hk_hooks s1 = (hk_hooks ?s)(0 \<mapsto> Some p)"
    "hook_allocate 2 0 ?s = Some (n, s1\<lparr>hk_pool := pool\<rparr>)" "hk_ok 2 (s1\<lparr>hk_pool := pool\<rparr>)" "hk_alive s1" by blast
  then have "hk_alive (s1\<lparr>hk_pool := pool\<rparr>)" by simp
  from hook_allocate_ok [OF a(3) this, of 1] obtain m q s2 pool' where b: "hk_hooks s2 = (hk_hooks (s1\<lparr>hk_pool := pool\<rparr>))(1 \<mapsto> Some q)"
    "hook_allocate 2 1 (s1\<lparr>hk_pool := pool\<rparr>) = Some (m, s2\<lparr>hk_pool := pool'\<rparr>)" by blast
  let ?t = "s2\<lparr>hk_pool := pool'\<rparr>"
  have hooks: "hk_hooks ?t 0 = Some (Some p)" "hk_hooks ?t 1 = Some (Some q)" using a(1) b(1) by simp_all
  have reach: "hk_reach 2 ?t" using hk_reach.step [OF hk_reach.step [OF r0 hk_step.allocate [OF a(2)]] hk_step.allocate [OF b(2)]] .
  have "\<forall>t u pair. hk_hooks ?t t = Some pair \<and> hk_hooks ?t u = Some pair \<longrightarrow> t = u"
    using threads_own_their_lists [OF _ reach] by simp
  then have "p \<noteq> q" using hooks by fastforce
  then show ?thesis using reach hooks by (intro exI [of _ ?t]) simp
qed

text \<open>What a thread leaves behind is used: the next thread to register gets its list, and the first
  node it allocates comes from there, not from the chunk stack.\<close>

theorem ended_threads_list_is_handed_on:
  assumes "0 < cap" "hk_reach cap s" "hk_hooks s t = Some (Some p)" "hk_hooks s u = None"
    and list: "np_thread_local (hk_pool s) p = (Some n, Suc k)"
  shows "\<exists>s'. hook_allocate cap u (thread_exit t s) = Some (n, s') \<and> hk_hooks s' = (hk_hooks s)(t := None, u \<mapsto> Some p)
    \<and> np_thread_local (hk_pool s') p = (np_next (hk_pool s) n, k) \<and> np_top (hk_pool s') = np_top (hk_pool s)"
proof -
  note ok = hk_reach_ok [OF assms(2,1)]
  have alive: "hk_alive s" using hk_okD(6) [OF ok] hook_pair [OF ok assms(3)] by fastforce
  have m: "map_of (hk_manager s) t = Some (Some p)" "u \<noteq> t" using assms(3,4) hk_okD(3) [OF ok] by auto
  have "get_thread_hook u (thread_exit t s) = Some (p, (thread_exit t s)\<lparr>hk_manager := AList.update u (Some p) (AList.delete t (hk_manager s)),
      hk_recycler := hk_recycler s, hk_hooks := (hk_hooks s)(t := None, u \<mapsto> Some p)\<rparr>)"
    using m assms(3,4) alive by (simp add: get_thread_hook_def thread_exit_def unregister_for_def register_for_def)
  moreover have "hk_pool (thread_exit t s) = hk_pool s" using exit_ok [OF ok] by simp
  ultimately show ?thesis using list by (simp add: hook_allocate_def allocate_node_def)
qed

end
