(* ===== verification/Mpsc_Wait.thy ===== *)
theory Mpsc_Wait
  imports Thread_Hooks
begin

text \<open>
  The blocking consumer of \<open>daking::MPSC_queue\<close>: \<open>dequeue\<close> and \<open>dequeue_bulk\<close> wait on the link of
  the tail node (\<open>std::atomic::wait\<close>); a producer notifies the node whose link it has stored. A
  store and the notification after it are two steps, and so are the consumer's failed attempt
  and its wait. \<open>wait\<close> returns when it sees another value than the null pointer; otherwise it
  sleeps until a notification of that address, and looks again.
\<close>

section \<open>The consumer\<close>

text \<open>The number is how many values the call has still to take; \<open>dequeue\<close> takes one.\<close>

datatype wait_pc = Trying nat | Waiting nat | Sleeping nat nat | Finished

record ('p, 'v) wait_run =
  wr_run :: "('p, 'v) mq_run"
  wr_pc :: wait_pc
  wr_notify :: "nat multiset"

definition consumer_step :: "'p node_ops \<Rightarrow> nat \<Rightarrow> ('p, 'v) wait_run \<Rightarrow> ('p, 'v) wait_run option" where
  "consumer_step ops t w =
     (let q = mr_queue (wr_run w) in
      case wr_pc w of
        Trying k \<Rightarrow>
          (if k = 0 then Some (w\<lparr>wr_pc := Finished\<rparr>)
           else case try_dequeue ops t q of
             None \<Rightarrow> None
           | Some (None, _) \<Rightarrow> Some (w\<lparr>wr_pc := Waiting k\<rparr>)
           | Some (Some v, q') \<Rightarrow>
               Some (w\<lparr>wr_run := (wr_run w)\<lparr>mr_queue := q', mr_dequeued := mr_dequeued (wr_run w) @ [v]\<rparr>, wr_pc := Trying (k - 1)\<rparr>))
      | Waiting k \<Rightarrow>
          Some (w\<lparr>wr_pc := if no_next ops (mq_pool q) (mq_tail q) = None then Sleeping (mq_tail q) k else Trying k\<rparr>)
      | Sleeping _ _ \<Rightarrow> None
      | Finished \<Rightarrow> None)"

text \<open>\<open>notify_one\<close> on a node: the one thread that can be asleep is the consumer.\<close>

fun notify_one :: "nat \<Rightarrow> wait_pc \<Rightarrow> wait_pc" where
  "notify_one a (Sleeping b k) = (if a = b then Waiting k else Sleeping b k)"
| "notify_one a pc = pc"

text \<open>The node a producer is to notify after a step that ended its link.\<close>

fun linked_node :: "'v mq_act \<Rightarrow> nat multiset" where
  "linked_node (Exchanged old _) = {#old#}"
| "linked_node (Prepared _ _) = {#}"

definition to_notify :: "('p, 'v) mq_run \<Rightarrow> ('p, 'v) mq_run \<Rightarrow> nat multiset" where
  "to_notify x y = (\<Sum>a \<in># mr_acts x - mr_acts y. linked_node a)"

inductive wt_step :: "'p node_ops \<Rightarrow> nat \<Rightarrow> ('p, 'v) wait_run \<Rightarrow> ('p, 'v) wait_run \<Rightarrow> bool" for ops t where
  other: "mq_step ops (wr_run w) y \<Longrightarrow> mr_dequeued y = mr_dequeued (wr_run w) \<Longrightarrow>
    wt_step ops t w (w\<lparr>wr_run := y, wr_notify := wr_notify w + to_notify (wr_run w) y\<rparr>)"
| notify: "wr_notify w = add_mset a N \<Longrightarrow> wt_step ops t w (w\<lparr>wr_notify := N, wr_pc := notify_one a (wr_pc w)\<rparr>)"
| consumer: "consumer_step ops t w = Some w' \<Longrightarrow> wt_step ops t w w'"
| call: "wr_pc w = Finished \<Longrightarrow> wt_step ops t w (w\<lparr>wr_pc := Trying n\<rparr>)"

inductive wt_reach :: "'p node_ops \<Rightarrow> nat \<Rightarrow> 'p \<Rightarrow> nat list \<Rightarrow> ('p, 'v) wait_run \<Rightarrow> bool" for ops t p others where
  start: "mpsc_new ops t p = Some q \<Longrightarrow> wt_reach ops t p others
    \<lparr>wr_run = \<lparr>mr_queue = q, mr_acts = {#}, mr_order = [], mr_dequeued = [], mr_others = others\<rparr>, wr_pc = Finished, wr_notify = {#}\<rparr>"
| step: "wt_reach ops t p others w \<Longrightarrow> wt_step ops t w w' \<Longrightarrow> wt_reach ops t p others w'"

section \<open>No notification is missed\<close>

lemma tail_of_step:
  assumes "mq_step ops x y" "mr_dequeued y = mr_dequeued x"
  shows "mq_tail (mr_queue y) = mq_tail (mr_queue x)"
  using assms
proof cases
  case (emplace t v ns q)
  then show ?thesis by (auto simp: prepare_emplace_def new_node_def)
next
  case (bulk t vs ns q)
  have append: "append_nodes ops t prev vs q0 = Some (ns, q1) \<Longrightarrow> mq_tail q1 = mq_tail q0" for prev vs ns and q0 q1 :: "('a, 'b) mpsc"
    by (induction vs arbitrary: prev ns q0 q1) (auto simp: new_node_def split: option.splits)
  show ?thesis using bulk by (auto simp: prepare_bulk_def new_node_def split: option.splits list.splits dest: append)
qed (use assms in \<open>auto simp: exchange_head_def link_old_head_def\<close>)

context node_supply
begin

text \<open>The tail has no link exactly when nothing is queued or the first enqueue has not linked its node.\<close>

lemma tail_linked:
  assumes "mq_inv x pend"
  shows "no_next ops (mq_pool (mr_queue x)) (mq_tail (mr_queue x)) = None \<longleftrightarrow>
    pend = [] \<or> Exchanged (mq_tail (mr_queue x)) (hd pend) \<in># mr_acts x"
proof -
  have "\<not> (Exchanged a b \<in># mr_acts x \<and> no_next ops (mq_pool (mr_queue x)) a \<noteq> None)" for a b
    using linking_mem [OF mq_invD(7) [OF assms]] missing_mem by metis
  then show ?thesis using dequeue_first [OF assms, of t] mq_invD(8) [OF assms]
    by (cases pend) (auto simp: try_dequeue_def split: option.splits)
qed

lemma exchanged_open:
  "mq_inv x pend \<Longrightarrow> Exchanged a b \<in># mr_acts x \<Longrightarrow> no_next ops (mq_pool (mr_queue x)) a = None"
  using linking_mem [OF mq_invD(7)] missing_mem by metis

lemma tail_stays_open:
  assumes step: "mq_step ops x y" and same: "mr_dequeued y = mr_dequeued x" and inv: "mq_inv x px" "mq_inv y py"
    and isopen: "no_next ops (mq_pool (mr_queue x)) (mq_tail (mr_queue x)) = None"
    and quiet: "mq_tail (mr_queue x) \<notin># to_notify x y"
  shows "no_next ops (mq_pool (mr_queue y)) (mq_tail (mr_queue x)) = None"
proof (cases "px = []")
  case True
  show ?thesis
  proof (cases "py = []")
    case False
    then have "mr_order y \<noteq> mr_order x" using mq_invD(5) [OF inv(1)] mq_invD(5) [OF inv(2)] same True by auto
    with step obtain f where "Exchanged (mq_tail (mr_queue x)) f \<in># mr_acts y"
    proof cases
      case (exchange ns vs A old q)
      have "old = mq_tail (mr_queue x)" using exchange(3) mq_invD(4) [OF inv(1)] True by (simp add: exchange_head_def)
      then show ?thesis using exchange(1) that [of "hd ns"] by simp
    qed auto
    then show ?thesis by (rule exchanged_open [OF inv(2)])
  qed (use tail_linked [OF inv(2)] tail_of_step [OF step same] in simp)
next
  case False
  let ?e = "Exchanged (mq_tail (mr_queue x)) (hd px)"
  have e: "?e \<in># mr_acts x" using tail_linked [OF inv(1)] isopen False by simp
  have "?e \<in># mr_acts y"
  proof (rule ccontr)
    assume "?e \<notin># mr_acts y"
    then have "?e \<in># mr_acts x - mr_acts y" using e by (simp add: in_diff_count not_in_iff)
    then have "mq_tail (mr_queue x) \<in># to_notify x y" by (force simp: to_notify_def)
    then show False using quiet by simp
  qed
  then show ?thesis by (rule exchanged_open [OF inv(2)])
qed

definition wt_inv :: "('p, 'v) wait_run \<Rightarrow> bool" where
  "wt_inv w \<longleftrightarrow> (\<exists>pend. mq_inv (wr_run w) pend)
     \<and> (\<forall>a k. wr_pc w = Sleeping a k \<longrightarrow> 0 < k \<and> a = mq_tail (mr_queue (wr_run w))
          \<and> (no_next ops (mq_pool (mr_queue (wr_run w))) a = None \<or> a \<in># wr_notify w))
     \<and> (\<forall>k. wr_pc w = Waiting k \<longrightarrow> 0 < k)"

lemma wt_inv_step:
  assumes step: "wt_step ops t w w'" and inv: "wt_inv w"
  shows "wt_inv w'"
  using step
proof cases
  case (other y)
  obtain px where px: "mq_inv (wr_run w) px" using inv by (auto simp: wt_inv_def)
  obtain py where py: "mq_inv y py" using mq_inv_step [OF other(2) px] by blast
  have "no_next ops (mq_pool (mr_queue y)) (mq_tail (mr_queue (wr_run w))) = None"
    if "no_next ops (mq_pool (mr_queue (wr_run w))) (mq_tail (mr_queue (wr_run w))) = None"
      "mq_tail (mr_queue (wr_run w)) \<notin># to_notify (wr_run w) y"
    by (rule tail_stays_open [OF other(2,3) px py that])
  then show ?thesis using inv py tail_of_step [OF other(2,3)] other(1) unfolding wt_inv_def by auto
next
  case (notify a N)
  then show ?thesis using inv by (cases "wr_pc w") (auto simp: wt_inv_def)
next
  case consumer
  obtain px where px: "mq_inv (wr_run w) px" using inv by (auto simp: wt_inv_def)
  show ?thesis
  proof (cases "wr_pc w")
    case (Trying k)
    have dequeued: "\<exists>rest. mq_inv ((wr_run w)\<lparr>mr_queue := q, mr_dequeued := mr_dequeued (wr_run w) @ [v]\<rparr>) rest"
      if "try_dequeue ops t (mr_queue (wr_run w)) = Some (Some v, q)" for v q
      using mq_inv_dequeue [OF px that] by blast
    have "wr_run w' = wr_run w \<or> (\<exists>v q. try_dequeue ops t (mr_queue (wr_run w)) = Some (Some v, q)
        \<and> wr_run w' = (wr_run w)\<lparr>mr_queue := q, mr_dequeued := mr_dequeued (wr_run w) @ [v]\<rparr>)"
      "wr_pc w' \<noteq> Sleeping a j" "wr_pc w' = Waiting j \<Longrightarrow> 0 < j" for a j
      using Trying consumer by (auto simp: consumer_step_def Let_def split: if_splits option.splits)
    then show ?thesis using px dequeued unfolding wt_inv_def by metis
  next
    case (Waiting k)
    then show ?thesis using consumer inv by (auto simp: consumer_step_def wt_inv_def Let_def split: if_splits)
  qed (use consumer in \<open>simp_all add: consumer_step_def Let_def\<close>)
next
  case (call n)
  then show ?thesis using inv by (auto simp: wt_inv_def)
qed

lemma wt_reach_inv:
  assumes "wt_reach ops t p others w" "inv p" "distinct others" "set others = used p"
  shows "wt_inv w"
  using assms
proof (induction rule: wt_reach.induct)
  case (start q)
  then show ?case using mq_inv_start [OF start(2,1,3,4)] by (auto simp: wt_inv_def)
next
  case (step w w')
  then show ?case using wt_inv_step by blast
qed

text \<open>A sleeping consumer with a value to come: at most the end of an enqueue wakes it.\<close>

lemma sleeper_wakes:
  assumes inv: "wt_inv w" and asleep: "wr_pc w = Sleeping a k" and left: "mr_order (wr_run w) = mr_dequeued (wr_run w) @ v # vs"
  shows "\<exists>w'. (wt_step ops t)\<^sup>*\<^sup>* w w' \<and> wt_inv w' \<and> wr_pc w' = Waiting k \<and> mr_order (wr_run w') = mr_order (wr_run w)
    \<and> mr_dequeued (wr_run w') = mr_dequeued (wr_run w) \<and> no_next ops (mq_pool (mr_queue (wr_run w'))) (mq_tail (mr_queue (wr_run w'))) \<noteq> None"
proof -
  have woken: "\<exists>w'. wt_step ops t w w' \<and> wt_inv w' \<and> wr_pc w' = Waiting k \<and> wr_run w' = wr_run w"
    if "wt_inv w" "wr_pc w = Sleeping a k" "no_next ops (mq_pool (mr_queue (wr_run w))) a \<noteq> None" for w
  proof -
    have "a \<in># wr_notify w" using that by (auto simp: wt_inv_def)
    then obtain N where N: "wr_notify w = add_mset a N" using multi_member_split by metis
    note st = wt_step.notify [OF N, of ops t]
    from st wt_inv_step [OF st that(1)] that(2) show ?thesis by (intro exI [of _ "w\<lparr>wr_notify := N, wr_pc := notify_one a (wr_pc w)\<rparr>"]) simp
  qed
  have a: "a = mq_tail (mr_queue (wr_run w))" using inv asleep by (simp add: wt_inv_def)
  obtain pend where pend: "mq_inv (wr_run w) pend" using inv by (auto simp: wt_inv_def)
  have "pend \<noteq> []" using mq_invD(5) [OF pend] left by auto
  show ?thesis
  proof (cases "no_next ops (mq_pool (mr_queue (wr_run w))) a = None")
    case False
    then obtain w' where "wt_step ops t w w'" "wt_inv w'" "wr_pc w' = Waiting k" "wr_run w' = wr_run w"
      using woken [OF inv asleep] by blast
    then show ?thesis using False a by (intro exI [of _ w']) auto
  next
    case True
    then have "Exchanged a (hd pend) \<in># mr_acts (wr_run w)" using tail_linked [OF pend] a \<open>pend \<noteq> []\<close> by simp
    then obtain A where A: "mr_acts (wr_run w) = add_mset (Exchanged a (hd pend)) A" by (auto dest: multi_member_split)
    let ?y = "(wr_run w)\<lparr>mr_queue := link_old_head ops a (hd pend) (mr_queue (wr_run w)), mr_acts := A\<rparr>"
    let ?w = "w\<lparr>wr_run := ?y, wr_notify := wr_notify w + to_notify (wr_run w) ?y\<rparr>"
    have st: "wt_step ops t w ?w" by (rule wt_step.other [OF mq_step.link [OF A]]) simp
    have "a \<in> used (mq_pool (mr_queue (wr_run w)))" using mq_invD(3) [OF pend, of a] a by (simp add: all_nodes_def)
    then have "no_next ops (mq_pool (mr_queue ?y)) a \<noteq> None"
      using supply_set_next [OF mq_invD(1) [OF pend]] by (simp add: link_old_head_def)
    from woken [OF wt_inv_step [OF st inv]] this asleep obtain w' where w': "wt_step ops t ?w w'" "wt_inv w'" "wr_pc w' = Waiting k" "wr_run w' = ?y"
      by auto
    have "(wt_step ops t)\<^sup>*\<^sup>* w w'" using st w'(1) by (meson converse_rtranclp_into_rtranclp rtranclp.rtrancl_refl)
    then show ?thesis using w'(2-4) \<open>no_next ops (mq_pool (mr_queue ?y)) a \<noteq> None\<close> a
      by (intro exI [of _ w']) (simp add: link_old_head_def)
  qed
qed

text \<open>Then it takes the value.\<close>

lemma sleeper_takes:
  assumes inv: "wt_inv w" and asleep: "wr_pc w = Sleeping a k" and left: "mr_order (wr_run w) = mr_dequeued (wr_run w) @ v # vs"
  shows "\<exists>w'. (wt_step ops t)\<^sup>*\<^sup>* w w' \<and> wr_pc w' = Trying (k - 1) \<and> mr_order (wr_run w') = mr_order (wr_run w)
    \<and> mr_dequeued (wr_run w') = mr_dequeued (wr_run w) @ [v]"
proof -
  from sleeper_wakes [OF assms, of t] obtain w1 where w1: "(wt_step ops t)\<^sup>*\<^sup>* w w1" "wt_inv w1" "wr_pc w1 = Waiting k"
    "mr_order (wr_run w1) = mr_order (wr_run w)" "mr_dequeued (wr_run w1) = mr_dequeued (wr_run w)"
    "no_next ops (mq_pool (mr_queue (wr_run w1))) (mq_tail (mr_queue (wr_run w1))) \<noteq> None" by blast
  have k: "0 < k" using w1(2,3) by (simp add: wt_inv_def)
  let ?w = "w1\<lparr>wr_pc := Trying k\<rparr>"
  have s1: "wt_step ops t w1 ?w" by (rule wt_step.consumer) (use w1(3,6) in \<open>simp add: consumer_step_def Let_def\<close>)
  obtain pend where pend: "mq_inv (wr_run w1) pend" using w1(2) by (auto simp: wt_inv_def)
  then obtain vals where "map (mq_value (mr_queue (wr_run w1))) pend = map Some vals" "vals = v # vs"
    using mq_invD(5) [OF pend] w1(4,5) left by auto
  then obtain q where q: "try_dequeue ops t (mr_queue (wr_run w1)) = Some (Some v, q)"
    using dequeue_first [OF pend, of t] w1(6) by (auto simp: try_dequeue_def split: option.splits)
  let ?w' = "?w\<lparr>wr_run := (wr_run w1)\<lparr>mr_queue := q, mr_dequeued := mr_dequeued (wr_run w1) @ [v]\<rparr>, wr_pc := Trying (k - 1)\<rparr>"
  have "wt_step ops t ?w ?w'" by (rule wt_step.consumer) (use k q in \<open>simp add: consumer_step_def\<close>)
  then have "(wt_step ops t)\<^sup>*\<^sup>* w ?w'" using w1(1) s1 by (meson rtranclp.rtrancl_into_rtrancl)
  then show ?thesis using w1(4,5) by (intro exI [of _ ?w']) simp
qed

text \<open>A consumer that falls asleep on an empty queue; then a producer exchanges the head.\<close>

lemma sleeper_exists:
  assumes p: "inv p"
  shows "\<exists>w a. wt_reach ops t p others w \<and> wr_pc w = Sleeping a 1 \<and> mr_order (wr_run w) = [v :: 'v] \<and> mr_dequeued (wr_run w) = []"
proof -
  obtain d p0 where d: "no_allocate ops t p = Some (d, p0)" "inv p0" "no_next ops p0 d = None"
    using supply_allocate [OF p, of t] by blast
  define q0 :: "('p, 'v) mpsc" where "q0 = \<lparr>mq_pool = p0, mq_head = d, mq_tail = d, mq_value = (\<lambda>_. None)\<rparr>"
  have q0: "mq_pool q0 = p0" "mq_tail q0 = d" by (simp_all add: q0_def)
  define x0 where "x0 = \<lparr>mr_queue = q0, mr_acts = {#}, mr_order = [], mr_dequeued = [], mr_others = others\<rparr>"
  define w0 where "w0 = \<lparr>wr_run = x0, wr_pc = Finished, wr_notify = {#}\<rparr>"
  have r0: "wt_reach ops t p others w0" unfolding w0_def x0_def
    by (rule wt_reach.start) (simp add: mpsc_new_def d(1) q0_def)
  have "wt_step ops t w0 (w0\<lparr>wr_pc := Trying 1\<rparr>)" by (rule wt_step.call) (simp add: w0_def)
  moreover have "wt_step ops t (w0\<lparr>wr_pc := Trying 1\<rparr>) (w0\<lparr>wr_pc := Waiting 1\<rparr>)"
    by (rule wt_step.consumer) (simp add: consumer_step_def try_dequeue_def w0_def x0_def q0 d(3))
  moreover have "wt_step ops t (w0\<lparr>wr_pc := Waiting 1\<rparr>) (w0\<lparr>wr_pc := Sleeping d 1\<rparr>)"
    by (rule wt_step.consumer) (simp add: consumer_step_def w0_def x0_def q0 d(3))
  ultimately have r1: "wt_reach ops t p others (w0\<lparr>wr_pc := Sleeping d 1\<rparr>)" using r0 wt_reach.step by metis
  obtain n q1 where n: "new_node ops t v q0 = Some (n, q1)" using new_node_spec [of q0 t v] d(2) q0(1) by auto
  define x1 where "x1 = x0\<lparr>mr_queue := q1, mr_acts := {#Prepared [n] [v]#}\<rparr>"
  define x2 where "x2 = x1\<lparr>mr_queue := q1\<lparr>mq_head := n\<rparr>, mr_acts := {#Exchanged (mq_head q1) n#}, mr_order := [v]\<rparr>"
  have e1: "mq_step ops x0 x1" using mq_step.emplace [of ops t v x0 "[n]" q1] n by (simp add: x0_def x1_def prepare_emplace_def)
  have e2: "mq_step ops x1 x2" using mq_step.exchange [of x1 "[n]" "[v]" "{#}" "mq_head q1" _ ops]
    by (simp add: x1_def x2_def x0_def exchange_head_def)
  have same: "mr_dequeued x1 = mr_dequeued x0" "mr_dequeued x2 = mr_dequeued x1" by (simp_all add: x1_def x2_def)
  have "wr_run (w0\<lparr>wr_pc := Sleeping d 1\<rparr>) = x0" by (simp add: w0_def)
  with wt_step.other [of ops "w0\<lparr>wr_pc := Sleeping d 1\<rparr>" x1 t] e1 same(1) r1 wt_reach.step
  obtain w1 where w1: "wt_reach ops t p others w1" "wr_pc w1 = Sleeping d 1" "wr_run w1 = x1" by force
  with wt_step.other [of ops w1 x2 t] e2 same(2) wt_reach.step
  obtain w2 where "wt_reach ops t p others w2" "wr_pc w2 = Sleeping d 1" "wr_run w2 = x2" by force
  then show ?thesis by (intro exI [of _ w2] exI [of _ d]) (simp add: x2_def x1_def x0_def)
qed

end

section \<open>The blocking consumer over the threads' lists\<close>

text \<open>C29: No wake-up is lost. The consumer may be asleep in \<open>dequeue\<close> while enqueues go on around it;
  as soon as an enqueue has exchanged the head, the steps that are left of enqueues begun, and
  the consumer's own, bring it to take the first value that remains: nobody has to enqueue again.
  Nodes come from the threads' lists (\<open>Thread_Hooks\<close>).\<close>

theorem blocked_consumer_gets_its_value:
  assumes "0 < cap" "hk_reach cap s" "hk_alive s" "distinct others" "set others = used_nodes cap (hk_pool s)"
    and "wt_reach (hook_ops cap) t s others w" "wr_pc w = Sleeping a k"
    and "mr_order (wr_run w) = mr_dequeued (wr_run w) @ v # vs"
  shows "\<exists>w'. (wt_step (hook_ops cap) t)\<^sup>*\<^sup>* w w' \<and> wr_pc w' = Trying (k - 1) \<and> mr_order (wr_run w') = mr_order (wr_run w)
    \<and> mr_dequeued (wr_run w') = mr_dequeued (wr_run w) @ [v]"
proof -
  have "hk_ok cap s \<and> hk_alive s" using hk_reach_ok assms(1-3) by blast
  from hooked.wt_reach_inv [OF assms(6) this assms(4,5)] assms(7,8) show ?thesis by (rule hooked.sleeper_takes)
qed

theorem blocked_consumer_gets_its_value_witness:
  "\<exists>(w :: (hook_run, nat) wait_run) w' a. wr_pc w = Sleeping a 1 \<and> mr_dequeued (wr_run w) = [] \<and> (wt_step (hook_ops 256) 3)\<^sup>*\<^sup>* w w'
     \<and> wr_pc w' = Trying 0 \<and> mr_dequeued (wr_run w') = [7]"
proof -
  let ?s = "create_manager hook_run_new"
  have s: "hk_reach 256 ?s" "hk_alive ?s" using hk_reach.step [OF hk_reach.start hk_step.initial] by (simp_all add: create_manager_def)
  have ok: "hk_ok 256 ?s \<and> hk_alive ?s" using hk_reach_ok [OF s(1)] s(2) by simp
  have none: "set [] = used_nodes 256 (hk_pool ?s)" using node_pool_new_ok [of 256] by (simp add: create_manager_def hook_run_new_def)
  obtain w a where w: "wt_reach (hook_ops 256) 3 ?s [] w" "wr_pc w = Sleeping a 1" "mr_order (wr_run w) = [7 :: nat]" "mr_dequeued (wr_run w) = []"
    using hooked.sleeper_exists [OF ok, of 3 "[]" 7] by blast
  have "\<exists>w'. (wt_step (hook_ops 256) 3)\<^sup>*\<^sup>* w w' \<and> wr_pc w' = Trying (1 - 1) \<and> mr_order (wr_run w') = mr_order (wr_run w)
      \<and> mr_dequeued (wr_run w') = mr_dequeued (wr_run w) @ [7]"
    by (rule blocked_consumer_gets_its_value [OF _ s _ none w(1,2)]) (use w(3,4) in simp_all)
  then show ?thesis using w(2,4) by auto
qed

end
