(* ===== verification/Implicit_Producer.thy ===== *)
theory Implicit_Producer
  imports Exa_Prelude
begin

unbundle bit_operations_syntax

text \<open>
  \<open>ImplicitProducer\<close> of \<open>moody_camel_queue/concurrentqueue.h\<close>: the values one thread has put into
  a \<open>ConcurrentQueue\<close>, on which the work-sharing and the core-pinned pools rest. The owning thread
  enqueues; any number of threads dequeue. Every atomic access is a step of its own.

  Values lie in blocks of 32. The index from the first position of a block to the block is
  \<open>ip_entries\<close> (\<open>Block_Index\<close> has its representation); a block comes from and goes back to a
  free list that all producers share: a new block is any block this producer does not own.
\<close>

section \<open>Positions\<close>

definition circular_less_than :: "u64 \<Rightarrow> u64 \<Rightarrow> bool" where
  "circular_less_than a b \<longleftrightarrow> a - b > 2 ^ 63"

definition BLOCK_SIZE :: u64 where
  "BLOCK_SIZE = 32"

definition block_base :: "u64 \<Rightarrow> u64" where
  "block_base index = index AND NOT (BLOCK_SIZE - 1)"

definition block_offset :: "u64 \<Rightarrow> nat" where
  "block_offset index = unat (index AND (BLOCK_SIZE - 1))"

section \<open>State and steps\<close>

record 'v iblock =
  ib_elements :: "nat \<Rightarrow> 'v option"
  ib_completely_dequeued :: u64

record 'v iprod =
  ip_tail_index :: u64
  ip_head_index :: u64
  ip_optimistic_count :: u64
  ip_overcommit :: u64
  ip_tail_block :: "nat option"
  ip_entries :: "u64 \<Rightarrow> nat option"
  ip_blocks :: "nat \<Rightarrow> 'v iblock"
  ip_owned :: "nat \<Rightarrow> u64 option"
  ip_enqueued :: "'v list"
  ip_taken :: "(nat \<times> 'v) list"
  ip_granted :: "nat set"
  ip_rejected :: "nat set"
  ip_completed :: "nat set"

text \<open>
  The last five are history: which block holds which positions, the values enqueued, the values
  taken with their positions, the optimistic counts that were granted or given up, and the
  positions whose slot has been counted as empty.
\<close>

definition ImplicitProducer_new :: "(nat \<Rightarrow> 'v iblock) \<Rightarrow> 'v iprod" where
  "ImplicitProducer_new blocks = \<lparr>ip_tail_index = 0, ip_head_index = 0, ip_optimistic_count = 0, ip_overcommit = 0,
     ip_tail_block = None, ip_entries = (\<lambda>_. None), ip_blocks = blocks, ip_owned = (\<lambda>_. None),
     ip_enqueued = [], ip_taken = [], ip_granted = {}, ip_rejected = {}, ip_completed = {}\<rparr>"

definition size_between :: "u64 \<Rightarrow> u64 \<Rightarrow> u64" where
  "size_between head tail = (if circular_less_than head tail then tail - head else 0)"

definition size_approx :: "'v iprod \<Rightarrow> u64" where
  "size_approx s = size_between (ip_head_index s) (ip_tail_index s)"

definition set_block :: "nat \<Rightarrow> ('v iblock \<Rightarrow> 'v iblock) \<Rightarrow> 'v iprod \<Rightarrow> 'v iprod" where
  "set_block b f s = s\<lparr>ip_blocks := (ip_blocks s)(b := f (ip_blocks s b))\<rparr>"

text \<open>Where a thread is in \<open>enqueue\<close> and in \<open>dequeue\<close>, with what it has read.\<close>

datatype 'v ip_act =
    Enq_Start 'v | Enq_Write 'v | Enq_Publish 'v
  | Deq_Tail | Deq_Overcommit u64 | Deq_Check u64 u64 | Deq_Count u64 | Deq_Tail_Again u64 u64
  | Deq_Give_Up u64 | Deq_Head | Deq_Entry u64 | Deq_Move u64 nat | Deq_Empty u64 nat
  | Deq_Unlink u64 nat | Deq_Release u64 nat

text \<open>
  The next step: the state after it and where the thread is then. \<open>blk\<close> is the block that
  \<open>insert_block_index_entry\<close> and \<open>requisition_block\<close> find, if they find one. No result
  when the step would read a null pointer or an element that is not there.
\<close>

fun ip_advance :: "nat option \<Rightarrow> 'v ip_act \<Rightarrow> 'v iprod \<Rightarrow> ('v iprod \<times> 'v ip_act option) option" where
  "ip_advance blk (Enq_Start v) s =
     (if ip_tail_index s AND (BLOCK_SIZE - 1) = 0 then
        (if \<not> circular_less_than (ip_head_index s) (ip_tail_index s + BLOCK_SIZE) then Some (s, None)
         else (case blk of
                 None \<Rightarrow> Some (s, None)
               | Some b \<Rightarrow>
                   Some ((set_block b (ib_completely_dequeued_update (\<lambda>_. 0)) s)
                     \<lparr>ip_entries := (ip_entries s)(ip_tail_index s := Some b), ip_tail_block := Some b,
                      ip_owned := (ip_owned s)(b := Some (ip_tail_index s))\<rparr>, Some (Enq_Write v))))
      else Some (s, Some (Enq_Write v)))"
| "ip_advance blk (Enq_Write v) s =
     (case ip_tail_block s of
        None \<Rightarrow> None
      | Some b \<Rightarrow> Some (set_block b (ib_elements_update (\<lambda>e. e(block_offset (ip_tail_index s) := Some v))) s, Some (Enq_Publish v)))"
| "ip_advance blk (Enq_Publish v) s =
     Some (s\<lparr>ip_tail_index := ip_tail_index s + 1, ip_enqueued := ip_enqueued s @ [v]\<rparr>, None)"
| "ip_advance blk Deq_Tail s = Some (s, Some (Deq_Overcommit (ip_tail_index s)))"
| "ip_advance blk (Deq_Overcommit tail) s = Some (s, Some (Deq_Check tail (ip_overcommit s)))"
| "ip_advance blk (Deq_Check tail overcommit) s =
     Some (s, if circular_less_than (ip_optimistic_count s - overcommit) tail then Some (Deq_Count overcommit) else None)"
| "ip_advance blk (Deq_Count overcommit) s =
     Some (s\<lparr>ip_optimistic_count := ip_optimistic_count s + 1\<rparr>, Some (Deq_Tail_Again overcommit (ip_optimistic_count s)))"
| "ip_advance blk (Deq_Tail_Again overcommit my) s =
     (if circular_less_than (my - overcommit) (ip_tail_index s)
      then Some (s\<lparr>ip_granted := insert (unat my) (ip_granted s)\<rparr>, Some Deq_Head)
      else Some (s, Some (Deq_Give_Up my)))"
| "ip_advance blk (Deq_Give_Up my) s =
     Some (s\<lparr>ip_overcommit := ip_overcommit s + 1, ip_rejected := insert (unat my) (ip_rejected s)\<rparr>, None)"
| "ip_advance blk Deq_Head s = Some (s\<lparr>ip_head_index := ip_head_index s + 1\<rparr>, Some (Deq_Entry (ip_head_index s)))"
| "ip_advance blk (Deq_Entry index) s =
     (case ip_entries s (block_base index) of None \<Rightarrow> None | Some b \<Rightarrow> Some (s, Some (Deq_Move index b)))"
| "ip_advance blk (Deq_Move index b) s =
     (case ib_elements (ip_blocks s b) (block_offset index) of
        None \<Rightarrow> None
      | Some v \<Rightarrow> Some ((set_block b (ib_elements_update (\<lambda>e. e(block_offset index := None))) s)
          \<lparr>ip_taken := ip_taken s @ [(unat index, v)]\<rparr>, Some (Deq_Empty index b)))"
| "ip_advance blk (Deq_Empty index b) s =
     (let prev = ib_completely_dequeued (ip_blocks s b) in
      if prev \<ge> BLOCK_SIZE then None
      else Some ((set_block b (ib_completely_dequeued_update (\<lambda>n. n + 1)) s)\<lparr>ip_completed := insert (unat index) (ip_completed s)\<rparr>,
                 if prev = BLOCK_SIZE - 1 then Some (Deq_Unlink (block_base index) b) else None))"
| "ip_advance blk (Deq_Unlink base b) s = Some (s\<lparr>ip_entries := (ip_entries s)(base := None)\<rparr>, Some (Deq_Release base b))"
| "ip_advance blk (Deq_Release base b) s = Some (s\<lparr>ip_owned := (ip_owned s)(b := None)\<rparr>, None)"

fun is_enqueue :: "'v ip_act \<Rightarrow> bool" where
  "is_enqueue (Enq_Start _) \<longleftrightarrow> True"
| "is_enqueue (Enq_Write _) \<longleftrightarrow> True"
| "is_enqueue (Enq_Publish _) \<longleftrightarrow> True"
| "is_enqueue _ \<longleftrightarrow> False"

text \<open>Only one thread enqueues. A block that is not owned belongs to somebody else.\<close>

inductive ip_step :: "'v iprod \<times> 'v ip_act multiset \<Rightarrow> 'v iprod \<times> 'v ip_act multiset \<Rightarrow> bool" where
  enqueue: "\<not> (\<exists>a \<in># A. is_enqueue a) \<Longrightarrow> ip_step (s, A) (s, add_mset (Enq_Start v) A)"
| dequeue: "ip_step (s, A) (s, add_mset Deq_Tail A)"
| advance: "(case blk of Some b \<Rightarrow> ip_owned s b = None | None \<Rightarrow> True) \<Longrightarrow> ip_advance blk a s = Some (s', nxt) \<Longrightarrow>
    ip_step (s, add_mset a A) (s', opt_mset nxt + A)"
| other: "ip_owned s b = None \<Longrightarrow> ip_step (s, A) (s\<lparr>ip_blocks := (ip_blocks s)(b := any)\<rparr>, A)"

text \<open>The states after \<open>n\<close> steps.\<close>

inductive ip_reach :: "nat \<Rightarrow> 'v iprod \<Rightarrow> 'v ip_act multiset \<Rightarrow> bool" where
  start: "ip_reach 0 (ImplicitProducer_new blocks) {#}"
| step: "ip_reach n s A \<Longrightarrow> ip_step (s, A) (s', A') \<Longrightarrow> ip_reach (Suc n) s' A'"

text \<open>What a call returns that ends with this step.\<close>

fun ip_returns :: "'v ip_act \<Rightarrow> bool" where
  "ip_returns (Enq_Publish _) \<longleftrightarrow> True"
| "ip_returns (Deq_Empty _ _) \<longleftrightarrow> True"
| "ip_returns (Deq_Release _ _) \<longleftrightarrow> True"
| "ip_returns _ \<longleftrightarrow> False"

text \<open>A call of \<open>dequeue\<close> that no other thread interrupts takes at most 11 steps.\<close>

fun ip_run :: "nat \<Rightarrow> 'v ip_act \<Rightarrow> 'v iprod \<Rightarrow> ('v iprod \<times> bool) option" where
  "ip_run 0 a s = None"
| "ip_run (Suc fuel) a s =
     (case ip_advance None a s of
        None \<Rightarrow> None
      | Some (s', None) \<Rightarrow> Some (s', ip_returns a)
      | Some (s', Some a') \<Rightarrow> ip_run fuel a' s')"

definition ImplicitProducer_dequeue :: "'v iprod \<Rightarrow> ('v iprod \<times> bool) option" where
  "ImplicitProducer_dequeue s = ip_run 11 Deq_Tail s"

section \<open>Arithmetic of positions\<close>

lemma circular_less_than_iff:
  assumes "unat a < 2 ^ 63" "unat b < 2 ^ 63"
  shows "circular_less_than a b \<longleftrightarrow> unat a < unat b"
proof (cases "unat a < unat b")
  case True
  then have "unat (a - b) = 2 ^ 64 + unat a - unat b" using assms by (simp add: unat_sub_if_size word_size)
  then show ?thesis using True assms by (simp add: circular_less_than_def word_less_nat_alt)
next
  case False
  then have "unat (a - b) = unat a - unat b" by (simp add: unat_sub word_le_nat_alt)
  then show ?thesis using False assms by (simp add: circular_less_than_def word_less_nat_alt)
qed

lemma block_offset_mod: "block_offset x = unat x mod 32"
  using and_pred_mod [of "32 :: u64" 5 x] by (simp add: block_offset_def BLOCK_SIZE_def)

lemma tail_offset_zero: "x AND (BLOCK_SIZE - 1) = 0 \<longleftrightarrow> unat x mod 32 = 0" for x :: u64
  using block_offset_mod [of x] by (simp add: block_offset_def word_unat_eq_iff)

lemma block_base_div: "unat (block_base x) = unat x - unat x mod 32"
proof -
  have "x AND NOT (BLOCK_SIZE - 1) = x AND NOT (x AND (BLOCK_SIZE - 1))"
    by (rule bit_eqI) (auto simp: bit_simps)
  also have "\<dots> = x - (x AND (BLOCK_SIZE - 1))"
    by (rule disjunctive_diff_eq_and_not [symmetric], rule bit_eqI) (auto simp: bit_simps)
  finally show ?thesis
    using block_offset_mod [of x] by (simp add: block_base_def block_offset_def unat_sub word_and_le2)
qed

lemma block_base_self: "unat x mod 32 = 0 \<Longrightarrow> block_base x = x"
  by (simp add: block_base_div word_unat_eq_iff)

lemma block_base_eq_iff: "block_base x = block_base y \<longleftrightarrow> unat x div 32 = unat y div 32"
proof -
  have "block_base x = block_base y \<longleftrightarrow> unat x - unat x mod 32 = unat y - unat y mod 32"
    by (simp add: word_unat_eq_iff block_base_div)
  then show ?thesis by (simp add: minus_mod_eq_mult_div)
qed

section \<open>Claims\<close>

text \<open>
  Every thread that has raised the optimistic count holds a number of its own. The number is
  granted, given up, or not decided yet; a granted one that has not moved the head is a claim.
\<close>

fun my_count :: "'v ip_act \<Rightarrow> nat multiset" where
  "my_count (Deq_Tail_Again overcommit my) = {#unat my#}"
| "my_count (Deq_Give_Up my) = {#unat my#}"
| "my_count _ = {#}"

fun claim :: "'v ip_act \<Rightarrow> nat" where
  "claim Deq_Head = 1"
| "claim _ = 0"

fun overcommit_ok :: "nat set \<Rightarrow> 'v ip_act \<Rightarrow> bool" where
  "overcommit_ok R (Deq_Check tail overcommit) \<longleftrightarrow> unat overcommit \<le> card R"
| "overcommit_ok R (Deq_Count overcommit) \<longleftrightarrow> unat overcommit \<le> card R"
| "overcommit_ok R (Deq_Tail_Again overcommit my) \<longleftrightarrow> unat overcommit \<le> card {r \<in> R. r < unat my}"
| "overcommit_ok R _ \<longleftrightarrow> True"

definition count_inv :: "'v iprod \<Rightarrow> 'v ip_act multiset \<Rightarrow> bool" where
  "count_inv s A \<longleftrightarrow>
     finite (ip_granted s) \<and> finite (ip_rejected s)
     \<and> mset_set (ip_granted s) + mset_set (ip_rejected s) + (\<Sum>a \<in># A. my_count a) = mset_set {..<unat (ip_optimistic_count s)}
     \<and> card (ip_granted s) = unat (ip_head_index s) + (\<Sum>a \<in># A. claim a) \<and> card (ip_rejected s) = unat (ip_overcommit s)
     \<and> (\<forall>g \<in> ip_granted s. g + 1 \<le> unat (ip_tail_index s) + card {r \<in> ip_rejected s. r < g})
     \<and> (\<forall>a \<in># A. overcommit_ok (ip_rejected s) a)"

lemma count_invD:
  assumes "count_inv s A"
  shows "finite (ip_granted s)" "finite (ip_rejected s)"
    and "mset_set (ip_granted s) + mset_set (ip_rejected s) + (\<Sum>a \<in># A. my_count a) = mset_set {..<unat (ip_optimistic_count s)}"
    and "card (ip_granted s) = unat (ip_head_index s) + (\<Sum>a \<in># A. claim a)" and "card (ip_rejected s) = unat (ip_overcommit s)"
    and "g \<in> ip_granted s \<Longrightarrow> g + 1 \<le> unat (ip_tail_index s) + card {r \<in> ip_rejected s. r < g}"
    and "a \<in># A \<Longrightarrow> overcommit_ok (ip_rejected s) a"
  using assms unfolding count_inv_def by blast+

lemma count_inv_numbers:
  assumes "count_inv s A"
  shows "ip_granted s \<inter> ip_rejected s = {}" and "ip_granted s \<union> ip_rejected s \<subseteq> {..<unat (ip_optimistic_count s)}"
    and "n \<in># (\<Sum>a \<in># A. my_count a) \<Longrightarrow> n \<notin> ip_granted s \<and> n \<notin> ip_rejected s \<and> n < unat (ip_optimistic_count s)"
proof -
  note i = count_invD [OF assms]
  let ?G = "mset_set (ip_granted s)" and ?R = "mset_set (ip_rejected s)" and ?P = "\<Sum>a \<in># A. my_count a"
  have sum: "count ?G n + count ?R n + count ?P n = (if n < unat (ip_optimistic_count s) then 1 else 0)" for n
    using arg_cong [OF i(3), of "\<lambda>m. count m n"] by (simp add: count_mset_set')
  have G: "count ?G n = (if n \<in> ip_granted s then 1 else 0)" and R: "count ?R n = (if n \<in> ip_rejected s then 1 else 0)" for n
    using i(1,2) by (simp_all add: count_mset_set')
  show "ip_granted s \<inter> ip_rejected s = {}"
  proof (rule equals0I)
    fix n assume "n \<in> ip_granted s \<inter> ip_rejected s"
    then show False using sum [of n] G [of n] R [of n] by (simp split: if_splits)
  qed
  show "ip_granted s \<union> ip_rejected s \<subseteq> {..<unat (ip_optimistic_count s)}"
  proof
    fix n assume "n \<in> ip_granted s \<union> ip_rejected s"
    then show "n \<in> {..<unat (ip_optimistic_count s)}" using sum [of n] G [of n] R [of n] by (auto split: if_splits)
  qed
  assume "n \<in># ?P"
  then have "0 < count ?P n" by simp
  then show "n \<notin> ip_granted s \<and> n \<notin> ip_rejected s \<and> n < unat (ip_optimistic_count s)"
    using sum [of n] unfolding G R by (simp del: count_greater_zero_iff split: if_splits)
qed

text \<open>
  As many claims as there are values: of the numbers up to the greatest granted one, at least
  those given up before it are not granted.
\<close>

lemma granted_le_tail:
  assumes "count_inv s A"
  shows "card (ip_granted s) \<le> unat (ip_tail_index s)"
proof (cases "ip_granted s = {}")
  case False
  note i = count_invD [OF assms] and n = count_inv_numbers [OF assms]
  define m where "m = Max (ip_granted s)"
  have m: "m \<in> ip_granted s" "\<And>g. g \<in> ip_granted s \<Longrightarrow> g \<le> m" using False i(1) by (simp_all add: m_def)
  let ?R = "{r \<in> ip_rejected s. r < m}"
  have "card (ip_granted s) + card ?R = card (ip_granted s \<union> ?R)"
    using i(1,2) n(1) by (intro card_Un_disjoint [symmetric]) auto
  also have "\<dots> \<le> card {..m}" using m(2) by (intro card_mono) auto
  finally have "card (ip_granted s) + card ?R \<le> m + 1" by simp
  then show ?thesis using i(6) [OF m(1)] by linarith
qed simp

text \<open>Steps that neither take nor decide a number.\<close>

lemma count_inv_frame:
  assumes "count_inv s (add_mset a A)"
    and "ip_granted s' = ip_granted s" "ip_rejected s' = ip_rejected s" "ip_optimistic_count s' = ip_optimistic_count s"
    "ip_head_index s' = ip_head_index s" "ip_overcommit s' = ip_overcommit s" "unat (ip_tail_index s) \<le> unat (ip_tail_index s')"
    and "my_count a = {#}" "claim a = 0" "\<And>b. nxt = Some b \<Longrightarrow> my_count b = {#} \<and> claim b = 0 \<and> overcommit_ok (ip_rejected s) b"
  shows "count_inv s' (opt_mset nxt + A)"
proof -
  note i = count_invD [OF assms(1)]
  have "\<forall>g \<in> ip_granted s'. g + 1 \<le> unat (ip_tail_index s') + card {r \<in> ip_rejected s'. r < g}"
    using i(6) assms(2,3,7) by fastforce
  then show ?thesis using i(1-5,7) assms(2-6,8-10)
    unfolding count_inv_def by (cases nxt) auto
qed

lemma unat_Suc: "unat w < 2 ^ 63 \<Longrightarrow> unat (w + 1) = unat w + 1" for w :: u64
  by (simp add: unat_word_ariths)

lemma count_inv_take_number:
  assumes inv: "count_inv s (add_mset (Deq_Count overcommit) A)" and bound: "unat (ip_optimistic_count s) < 2 ^ 63"
  shows "count_inv (s\<lparr>ip_optimistic_count := ip_optimistic_count s + 1\<rparr>) (add_mset (Deq_Tail_Again overcommit (ip_optimistic_count s)) A)"
proof -
  note i = count_invD [OF inv] and n = count_inv_numbers [OF inv]
  have "unat (ip_optimistic_count s + 1) = Suc (unat (ip_optimistic_count s))" using unat_Suc [OF bound] by simp
  moreover have "{r \<in> ip_rejected s. r < unat (ip_optimistic_count s)} = ip_rejected s" using n(2) by auto
  moreover have "unat overcommit \<le> card (ip_rejected s)" using i(7) [of "Deq_Count overcommit"] by simp
  moreover have "overcommit_ok (ip_rejected s) a" if "a \<in># A" for a using i(7) that by simp
  ultimately show ?thesis using i(1-6) unfolding count_inv_def by (auto simp: lessThan_Suc)
qed

lemma count_inv_decide:
  assumes inv: "count_inv s (add_mset (Deq_Tail_Again overcommit my) A)"
    and bound: "unat (ip_optimistic_count s) < 2 ^ 63" "unat (ip_tail_index s) < 2 ^ 63"
  shows "if circular_less_than (my - overcommit) (ip_tail_index s)
    then count_inv (s\<lparr>ip_granted := insert (unat my) (ip_granted s)\<rparr>) (add_mset Deq_Head A)
    else count_inv s (add_mset (Deq_Give_Up my) A)"
proof -
  note i = count_invD [OF inv] and n = count_inv_numbers [OF inv]
  have my: "unat my \<notin> ip_granted s" "unat my < unat (ip_optimistic_count s)" using n(3) [of "unat my"] by simp_all
  have over: "unat overcommit \<le> card {r \<in> ip_rejected s. r < unat my}" using i(7) [of "Deq_Tail_Again overcommit my"] by simp
  also have "\<dots> \<le> card {..<unat my}" by (rule card_mono) auto
  finally have "unat overcommit \<le> unat my" by simp
  then have diff: "unat (my - overcommit) = unat my - unat overcommit" by (simp add: unat_sub word_le_nat_alt)
  show ?thesis
  proof (cases "circular_less_than (my - overcommit) (ip_tail_index s)")
    case True
    then have "unat my - unat overcommit < unat (ip_tail_index s)"
      using circular_less_than_iff [of "my - overcommit" "ip_tail_index s"] bound my(2) diff by simp
    then have "unat my + 1 \<le> unat (ip_tail_index s) + card {r \<in> ip_rejected s. r < unat my}" using over by linarith
    then show ?thesis using True i my(1) unfolding count_inv_def by (simp add: mset_set.insert add_ac)
  next
    case False
    then show ?thesis using i unfolding count_inv_def by simp
  qed
qed

lemma count_inv_give_up:
  assumes inv: "count_inv s (add_mset (Deq_Give_Up my) A)" and bound: "unat (ip_optimistic_count s) < 2 ^ 63"
  shows "count_inv (s\<lparr>ip_overcommit := ip_overcommit s + 1, ip_rejected := insert (unat my) (ip_rejected s)\<rparr>) A"
proof -
  note i = count_invD [OF inv] and n = count_inv_numbers [OF inv]
  have my: "unat my \<notin> ip_rejected s" "unat my < unat (ip_optimistic_count s)" using n(3) [of "unat my"] by simp_all
  have "unat (ip_overcommit s) \<le> card {..<unat (ip_optimistic_count s)}"
    unfolding i(5) [symmetric] using n(2) by (intro card_mono) auto
  then have V: "unat (ip_overcommit s + 1) = Suc (unat (ip_overcommit s))" using unat_Suc [of "ip_overcommit s"] bound by simp
  have grow: "card {r \<in> ip_rejected s. r < k} \<le> card {r. (r = unat my \<or> r \<in> ip_rejected s) \<and> r < k}" for k
    using i(2) by (intro card_mono) (auto intro: finite_subset [of _ "insert (unat my) (ip_rejected s)"])
  have "overcommit_ok (insert (unat my) (ip_rejected s)) a" if "a \<in># A" for a
  proof -
    have "overcommit_ok (ip_rejected s) a" using i(7) that by simp
    then show ?thesis using grow i(2) my(1) by (cases a) (auto intro: le_trans le_SucI)
  qed
  moreover have "g + 1 \<le> unat (ip_tail_index s) + card {r \<in> insert (unat my) (ip_rejected s). r < g}" if "g \<in> ip_granted s" for g
    using i(6) [OF that] grow [of g] by simp
  ultimately show ?thesis using i(1-5) my V unfolding count_inv_def by (simp add: add_ac)
qed

lemma count_inv_move_head:
  assumes inv: "count_inv s (add_mset Deq_Head A)" and bound: "unat (ip_tail_index s) < 2 ^ 63"
  shows "count_inv (s\<lparr>ip_head_index := ip_head_index s + 1\<rparr>) (add_mset (Deq_Entry (ip_head_index s)) A)
    \<and> unat (ip_head_index s) < unat (ip_tail_index s) \<and> unat (ip_head_index s + 1) = unat (ip_head_index s) + 1"
proof -
  note i = count_invD [OF inv]
  have head: "unat (ip_head_index s) < unat (ip_tail_index s)" using i(4) granted_le_tail [OF inv] by simp
  then have "unat (ip_head_index s + 1) = unat (ip_head_index s) + 1" using unat_Suc bound by simp
  then show ?thesis using i head unfolding count_inv_def by simp
qed

section \<open>Positions and blocks\<close>

text \<open>
  A position below the head is on its way through \<open>dequeue\<close> (\<open>index_of\<close>, and \<open>unmoved\<close> while
  its value is still in the block) or completed. A block is live as long as one of its
  positions is not completed.
\<close>

fun index_of :: "'v ip_act \<Rightarrow> nat multiset" where
  "index_of (Deq_Entry index) = {#unat index#}"
| "index_of (Deq_Move index b) = {#unat index#}"
| "index_of (Deq_Empty index b) = {#unat index#}"
| "index_of _ = {#}"

fun unmoved :: "'v ip_act \<Rightarrow> nat multiset" where
  "unmoved (Deq_Entry index) = {#unat index#}"
| "unmoved (Deq_Move index b) = {#unat index#}"
| "unmoved _ = {#}"

fun reserved :: "'v ip_act \<Rightarrow> nat" where
  "reserved (Enq_Write v) = 1"
| "reserved (Enq_Publish v) = 1"
| "reserved _ = 0"

fun freeing :: "'v ip_act \<Rightarrow> u64 multiset" where
  "freeing (Deq_Unlink base b) = {#base#}"
| "freeing (Deq_Release base b) = {#base#}"
| "freeing _ = {#}"

definition block_done :: "nat set \<Rightarrow> u64 \<Rightarrow> nat" where
  "block_done C w = card {i \<in> C. i div 32 = unat w div 32}"

fun act_ok :: "'v iprod \<Rightarrow> 'v ip_act \<Rightarrow> bool" where
  "act_ok s (Enq_Write v) \<longleftrightarrow> ip_tail_block s = ip_entries s (block_base (ip_tail_index s))"
| "act_ok s (Enq_Publish v) \<longleftrightarrow> (\<exists>b. ip_tail_block s = Some b \<and> ip_entries s (block_base (ip_tail_index s)) = Some b
     \<and> ib_elements (ip_blocks s b) (block_offset (ip_tail_index s)) = Some v)"
| "act_ok s (Deq_Move index b) \<longleftrightarrow> ip_entries s (block_base index) = Some b"
| "act_ok s (Deq_Empty index b) \<longleftrightarrow> ip_entries s (block_base index) = Some b"
| "act_ok s (Deq_Unlink base b) \<longleftrightarrow> ip_owned s b = Some base \<and> block_base base = base \<and> block_done (ip_completed s) base = 32"
| "act_ok s (Deq_Release base b) \<longleftrightarrow> ip_owned s b = Some base \<and> block_base base = base \<and> block_done (ip_completed s) base = 32"
| "act_ok s _ \<longleftrightarrow> True"

definition index_inv :: "'v iprod \<Rightarrow> 'v ip_act multiset \<Rightarrow> bool" where
  "index_inv s A \<longleftrightarrow>
     finite (ip_completed s) \<and> mset_set (ip_completed s) + (\<Sum>a \<in># A. index_of a) = mset_set {..<unat (ip_head_index s)}
     \<and> mset (map fst (ip_taken s)) + (\<Sum>a \<in># A. unmoved a) = mset_set {..<unat (ip_head_index s)}
     \<and> (\<forall>(i, v) \<in> set (ip_taken s). i < length (ip_enqueued s) \<and> v = ip_enqueued s ! i)
     \<and> unat (ip_tail_index s) = length (ip_enqueued s) \<and> (\<Sum>a \<in># A. of_bool (is_enqueue a) :: nat) \<le> 1"

definition live_block :: "'v iprod \<Rightarrow> u64 \<Rightarrow> bool" where
  "live_block s w \<longleftrightarrow> (\<exists>b. ip_entries s (block_base w) = Some b \<and> ip_owned s b = Some (block_base w)
     \<and> unat (ib_completely_dequeued (ip_blocks s b)) = block_done (ip_completed s) w)"

definition block_inv :: "'v iprod \<Rightarrow> 'v ip_act multiset \<Rightarrow> bool" where
  "block_inv s A \<longleftrightarrow>
     (\<forall>w. unat w < unat (ip_tail_index s) + (\<Sum>a \<in># A. reserved a) \<longrightarrow> block_done (ip_completed s) w < 32 \<longrightarrow> live_block s w)
     \<and> (\<forall>w. unat w < unat (ip_tail_index s) \<longrightarrow> unat w \<notin> fst ` set (ip_taken s) \<longrightarrow>
          (\<exists>b. ip_entries s (block_base w) = Some b \<and> ib_elements (ip_blocks s b) (block_offset w) = Some (ip_enqueued s ! unat w)))
     \<and> (\<forall>a \<in># A. act_ok s a)
     \<and> (unat (ip_tail_index s) mod 32 \<noteq> 0 \<longrightarrow> ip_tail_block s = ip_entries s (block_base (ip_tail_index s)))
     \<and> (\<forall>k. count (\<Sum>a \<in># A. freeing a) k \<le> 1)"

lemma block_positions: "{i. i div 32 = q} = {32 * q..<32 * q + 32}" for q :: nat
  by auto

lemma block_done_le: "block_done C w \<le> 32"
proof -
  have "block_done C w \<le> card {32 * (unat w div 32)..<32 * (unat w div 32) + 32}"
    unfolding block_done_def block_positions [symmetric] by (rule card_mono) (auto simp: block_positions)
  then show ?thesis by simp
qed

lemma block_done_less: "unat w \<notin> C \<Longrightarrow> block_done C w < 32"
proof -
  assume w: "unat w \<notin> C"
  let ?B = "{i. i div 32 = unat w div 32}"
  have "block_done C w \<le> card (?B - {unat w})"
    unfolding block_done_def by (rule card_mono) (use w in \<open>auto simp: block_positions\<close>)
  also have "\<dots> = 31" using card_Diff_singleton [of "unat w" ?B] by (simp add: block_positions)
  finally show ?thesis by simp
qed

lemma block_done_32: "block_done C w = 32 \<Longrightarrow> unat v div 32 = unat w div 32 \<Longrightarrow> unat v \<in> C" for v w :: u64
  using block_done_less [of v C] by (auto simp: block_done_def)

lemma block_done_insert: "finite C \<Longrightarrow> unat i \<notin> C \<Longrightarrow>
    block_done (insert (unat i) C) w = (if unat w div 32 = unat i div 32 then block_done C w + 1 else block_done C w)"
proof -
  assume "finite C" "unat i \<notin> C"
  moreover have "{j \<in> insert (unat i) C. j div 32 = unat w div 32} =
      (if unat w div 32 = unat i div 32 then insert (unat i) {j \<in> C. j div 32 = unat w div 32} else {j \<in> C. j div 32 = unat w div 32})"
    by auto
  ultimately show ?thesis by (simp add: block_done_def)
qed

lemma block_done_cong: "block_base v = block_base w \<Longrightarrow> block_done C v = block_done C w"
  by (simp add: block_base_eq_iff block_done_def)

lemma same_position: "block_base v = block_base w \<Longrightarrow> block_offset v = block_offset w \<Longrightarrow> v = w"
  unfolding block_base_eq_iff block_offset_mod by (metis div_mult_mod_eq word_unat_eq_iff)

lemma index_invD:
  assumes "index_inv s A"
  shows "finite (ip_completed s)" and "mset_set (ip_completed s) + (\<Sum>a \<in># A. index_of a) = mset_set {..<unat (ip_head_index s)}"
    and "mset (map fst (ip_taken s)) + (\<Sum>a \<in># A. unmoved a) = mset_set {..<unat (ip_head_index s)}"
    and "(i, v) \<in> set (ip_taken s) \<Longrightarrow> i < length (ip_enqueued s) \<and> v = ip_enqueued s ! i"
    and "unat (ip_tail_index s) = length (ip_enqueued s)" and "(\<Sum>a \<in># A. of_bool (is_enqueue a) :: nat) \<le> 1"
  using assms unfolding index_inv_def by blast+

lemma unmoved_index: "unmoved a \<subseteq># index_of a"
  by (cases a) auto

lemma sum_unmoved: "(\<Sum>a \<in># A. unmoved a) \<subseteq># (\<Sum>a \<in># A. index_of a)"
  by (induction A) (auto intro: subset_mset.add_mono unmoved_index)

lemma in_split:
  assumes "M + N = mset_set {..<n :: nat}"
  shows "k \<in># M \<Longrightarrow> k < n \<and> k \<notin># N" and "k \<in># N \<Longrightarrow> k < n \<and> k \<notin># M" and "k < n \<Longrightarrow> k \<in># M \<or> k \<in># N"
    and "count M k \<le> 1"
proof -
  have sum: "count M k + count N k = (if k < n then 1 else 0)"
    using arg_cong [OF assms, of "\<lambda>m. count m k"] by (simp add: count_mset_set')
  have iff: "k \<in># M \<longleftrightarrow> 0 < count M k" "k \<in># N \<longleftrightarrow> 0 < count N k" by simp_all
  show "k \<in># M \<Longrightarrow> k < n \<and> k \<notin># N" "k \<in># N \<Longrightarrow> k < n \<and> k \<notin># M" "k < n \<Longrightarrow> k \<in># M \<or> k \<in># N" "count M k \<le> 1"
    using sum unfolding iff by (simp_all del: count_greater_zero_iff split: if_splits) linarith+
qed

lemma index_facts:
  assumes "index_inv s A"
  shows "k \<in> ip_completed s \<Longrightarrow> k < unat (ip_head_index s) \<and> k \<in> fst ` set (ip_taken s)"
    and "k \<in># (\<Sum>a \<in># A. index_of a) \<Longrightarrow> k < unat (ip_head_index s) \<and> k \<notin> ip_completed s"
    and "k \<in># (\<Sum>a \<in># A. unmoved a) \<Longrightarrow> k < unat (ip_head_index s) \<and> k \<notin> fst ` set (ip_taken s)"
    and "k \<in> fst ` set (ip_taken s) \<Longrightarrow> k < unat (ip_head_index s)" and "distinct (map fst (ip_taken s))"
proof -
  note i = index_invD [OF assms]
  have C: "k \<in># mset_set (ip_completed s) \<longleftrightarrow> k \<in> ip_completed s" for k using i(1) by simp
  have T: "k \<in># mset (map fst (ip_taken s)) \<longleftrightarrow> k \<in> fst ` set (ip_taken s)" for k by simp
  show "k \<in># (\<Sum>a \<in># A. index_of a) \<Longrightarrow> k < unat (ip_head_index s) \<and> k \<notin> ip_completed s"
    using in_split(2) [OF i(2)] C by blast
  show "k \<in># (\<Sum>a \<in># A. unmoved a) \<Longrightarrow> k < unat (ip_head_index s) \<and> k \<notin> fst ` set (ip_taken s)"
    using in_split(2) [OF i(3)] T by blast
  show "k \<in> fst ` set (ip_taken s) \<Longrightarrow> k < unat (ip_head_index s)" using in_split(1) [OF i(3)] T by blast
  show "k \<in> ip_completed s \<Longrightarrow> k < unat (ip_head_index s) \<and> k \<in> fst ` set (ip_taken s)"
    using in_split(1) [OF i(2)] in_split(3) [OF i(3)] C T sum_unmoved mset_subset_eqD by metis
  show "distinct (map fst (ip_taken s))"
    by (rule distinct_if_counts) (rule in_split(4) [OF i(3)])
qed

lemma index_inv_frame:
  assumes "index_inv s (add_mset a A)"
    and "ip_completed s' = ip_completed s" "ip_taken s' = ip_taken s" "ip_head_index s' = ip_head_index s"
    "ip_enqueued s' = ip_enqueued s" "ip_tail_index s' = ip_tail_index s"
    and "index_of a = {#}" "unmoved a = {#}" "\<And>b. nxt = Some b \<Longrightarrow> index_of b = {#} \<and> unmoved b = {#} \<and> (is_enqueue b \<longrightarrow> is_enqueue a)"
  shows "index_inv s' (opt_mset nxt + A)"
  using index_invD [OF assms(1)] assms(2-9) unfolding index_inv_def by (cases nxt) (auto split: if_splits)

lemma index_inv_publish:
  assumes inv: "index_inv s (add_mset (Enq_Publish v) A)" and bound: "unat (ip_tail_index s) < 2 ^ 63"
  shows "index_inv (s\<lparr>ip_tail_index := ip_tail_index s + 1, ip_enqueued := ip_enqueued s @ [v]\<rparr>) A"
proof -
  note i = index_invD [OF inv]
  have "unat (ip_tail_index s + 1) = Suc (length (ip_enqueued s))" using unat_Suc [OF bound] i(5) by simp
  moreover have "k < Suc (length (ip_enqueued s)) \<and> w = (ip_enqueued s @ [v]) ! k" if "(k, w) \<in> set (ip_taken s)" for k w
    using i(4) [OF that] by (simp add: nth_append)
  moreover have "(\<Sum>a \<in># A. of_bool (is_enqueue a) :: nat) = 0" using i(6) by simp
  then have "(\<Sum>a \<in># A. of_bool (is_enqueue a) :: nat) \<le> 1" by linarith
  ultimately show ?thesis using i(1-3) unfolding index_inv_def by auto
qed

lemma index_inv_move_head:
  assumes inv: "index_inv s (add_mset Deq_Head A)" and head: "unat (ip_head_index s + 1) = unat (ip_head_index s) + 1"
  shows "index_inv (s\<lparr>ip_head_index := ip_head_index s + 1\<rparr>) (add_mset (Deq_Entry (ip_head_index s)) A)"
  using index_invD [OF inv] head unfolding index_inv_def by (auto simp: lessThan_Suc)

lemma index_inv_move:
  assumes inv: "index_inv s (add_mset (Deq_Move index b) A)" and v: "v = ip_enqueued s ! unat index" "unat index < length (ip_enqueued s)"
  shows "index_inv (s\<lparr>ip_blocks := bs, ip_taken := ip_taken s @ [(unat index, v)]\<rparr>) (add_mset (Deq_Empty index b) A)"
  using index_invD [OF inv] v unfolding index_inv_def by auto

lemma index_inv_empty:
  assumes inv: "index_inv s (add_mset (Deq_Empty index b) A)"
    and nxt: "\<And>c. nxt = Some c \<Longrightarrow> index_of c = {#} \<and> unmoved c = {#} \<and> \<not> is_enqueue c"
  shows "index_inv (s\<lparr>ip_blocks := bs, ip_completed := insert (unat index) (ip_completed s)\<rparr>) (opt_mset nxt + A)"
proof -
  have "unat index \<notin> ip_completed s" using index_facts(2) [OF inv, of "unat index"] by simp
  then show ?thesis using index_invD [OF inv] nxt unfolding index_inv_def by (cases nxt) auto
qed

section \<open>Preservation of the block invariant\<close>

lemma block_invD:
  assumes "block_inv s A"
  shows "unat w < unat (ip_tail_index s) + (\<Sum>a \<in># A. reserved a) \<Longrightarrow> block_done (ip_completed s) w < 32 \<Longrightarrow> live_block s w"
    and "unat w < unat (ip_tail_index s) \<Longrightarrow> unat w \<notin> fst ` set (ip_taken s) \<Longrightarrow>
      \<exists>b. ip_entries s (block_base w) = Some b \<and> ib_elements (ip_blocks s b) (block_offset w) = Some (ip_enqueued s ! unat w)"
    and "a \<in># A \<Longrightarrow> act_ok s a"
    and "unat (ip_tail_index s) mod 32 \<noteq> 0 \<Longrightarrow> ip_tail_block s = ip_entries s (block_base (ip_tail_index s))"
    and "count (\<Sum>a \<in># A. freeing a) k \<le> 1"
  using assms unfolding block_inv_def by blast+

lemma block_inv_frame:
  assumes "block_inv s (add_mset a A)" and "ip_tail_index s' = ip_tail_index s" "ip_completed s' = ip_completed s"
    "ip_taken s' = ip_taken s" "ip_entries s' = ip_entries s" "ip_owned s' = ip_owned s" "ip_blocks s' = ip_blocks s"
    "ip_enqueued s' = ip_enqueued s" "ip_tail_block s' = ip_tail_block s"
    and "reserved a = 0" "freeing a = {#}" "\<And>b. nxt = Some b \<Longrightarrow> reserved b = 0 \<and> freeing b = {#} \<and> act_ok s b"
  shows "block_inv s' (opt_mset nxt + A)"
proof -
  note i = block_invD [OF assms(1)]
  have ok: "act_ok s' c = act_ok s c" for c using assms(2-9) by (cases c) auto
  have live: "live_block s' w = live_block s w" for w using assms(2-9) by (simp add: live_block_def)
  show ?thesis unfolding block_inv_def ok live using i assms(2-12) by (cases nxt) auto
qed

text \<open>A live block is found, and is owned.\<close>

lemma live_blockD: "live_block s w \<Longrightarrow> ip_entries s (block_base w) = Some b \<Longrightarrow>
    ip_owned s b = Some (block_base w) \<and> unat (ib_completely_dequeued (ip_blocks s b)) = block_done (ip_completed s) w"
  by (auto simp: live_block_def)

lemma block_inv_live:
  assumes "block_inv s A" "index_inv s A" and "unat w < unat (ip_tail_index s) + (\<Sum>a \<in># A. reserved a)" "unat w \<notin> ip_completed s"
  shows "live_block s w"
  using block_invD(1) [OF assms(1,3)] block_done_less [OF assms(4)] by blast

text \<open>\<open>set_empty\<close> counts a position.\<close>

lemma block_inv_empty:
  fixes s :: "'v iprod"
  assumes inv: "block_inv s (add_mset (Deq_Empty index b) A)" "index_inv s (add_mset (Deq_Empty index b) A)"
    and head: "unat (ip_head_index s) \<le> unat (ip_tail_index s)"
  shows "\<exists>s' nxt. ip_advance blk (Deq_Empty index b) s = Some (s', nxt) \<and> block_inv s' (opt_mset nxt + A)
    \<and> s' = s\<lparr>ip_blocks := ip_blocks s', ip_completed := insert (unat index) (ip_completed s)\<rparr>
    \<and> (nxt = None \<or> nxt = Some (Deq_Unlink (block_base index) b))"
proof -
  note i = block_invD [OF inv(1)] and f = index_facts [OF inv(2)]
  let ?C = "ip_completed s" and ?prev = "ib_completely_dequeued (ip_blocks s b)"
  have index: "unat index < unat (ip_head_index s)" "unat index \<notin> ?C" using f(2) [of "unat index"] by simp_all
  have fin: "finite ?C" using index_invD(1) [OF inv(2)] .
  have entry: "ip_entries s (block_base index) = Some b" using i(3) [of "Deq_Empty index b"] by simp
  have "live_block s index" by (rule block_inv_live [OF inv]) (use index head in simp_all)
  then have b: "ip_owned s b = Some (block_base index)" "unat ?prev = block_done ?C index"
    using live_blockD entry by blast+
  have less: "block_done ?C index < 32" by (rule block_done_less [OF index(2)])
  define nxt where "nxt = (if ?prev = BLOCK_SIZE - 1 then Some (Deq_Unlink (block_base index) b :: 'v ip_act) else None)"
  define s' where "s' = (set_block b (ib_completely_dequeued_update (\<lambda>n. n + 1)) s)\<lparr>ip_completed := insert (unat index) ?C\<rparr>"
  have adv: "ip_advance blk (Deq_Empty index b) s = Some (s', nxt)"
    using b(2) less by (simp add: s'_def nxt_def BLOCK_SIZE_def word_le_nat_alt Let_def)
  have same: "ip_tail_index s' = ip_tail_index s" "ip_taken s' = ip_taken s" "ip_entries s' = ip_entries s" "ip_owned s' = ip_owned s"
    "ip_enqueued s' = ip_enqueued s" "ip_tail_block s' = ip_tail_block s" "ib_elements (ip_blocks s' c) = ib_elements (ip_blocks s c)"
    "ip_completed s' = insert (unat index) ?C" for c
    by (simp_all add: s'_def set_block_def)
  have counted: "block_done (ip_completed s') w = (if block_base w = block_base index then block_done ?C w + 1 else block_done ?C w)" for w
    using block_done_insert [OF fin index(2)] by (simp add: same block_base_eq_iff)
  have live: "live_block s' w" if "live_block s w" for w
  proof -
    obtain c where c: "ip_entries s (block_base w) = Some c" "ip_owned s c = Some (block_base w)"
      "unat (ib_completely_dequeued (ip_blocks s c)) = block_done ?C w" using \<open>live_block s w\<close> by (auto simp: live_block_def)
    show ?thesis
    proof (cases "block_base w = block_base index")
      case True
      then have "c = b" using c(1) entry by simp
      moreover have "unat (?prev + 1) = unat ?prev + 1" using b(2) less unat_Suc [of ?prev] by simp
      ultimately show ?thesis using c True counted [of w] by (auto simp: live_block_def same(3,4) s'_def set_block_def)
    next
      case False
      then have "c \<noteq> b" using c(2) b(1) by auto
      then show ?thesis using c False counted [of w] by (auto simp: live_block_def same(3,4) s'_def set_block_def)
    qed
  qed
  have ok: "act_ok s' a" if "act_ok s a" for a
  proof -
    have keep: "block_done (ip_completed s') k = 32" if "block_done ?C k = 32" for k
      using that less block_done_cong [of k index ?C] counted [of k] by (auto split: if_splits)
    show ?thesis using that keep by (cases a) (auto simp: same)
  qed
  have free: "count (\<Sum>a \<in># A. freeing a) (block_base index) = 0"
  proof (rule ccontr)
    assume "count (\<Sum>a \<in># A. freeing a) (block_base index) \<noteq> 0"
    then obtain a where a: "a \<in># A" "block_base index \<in># freeing a" by (auto simp: count_eq_zero_iff)
    then have "block_done ?C (block_base index) = 32" using i(3) [of a] by (cases a) auto
    moreover have "block_base (block_base index) = block_base index" by (simp add: block_base_def)
    ultimately show False using less block_done_cong [of "block_base index" index ?C] by simp
  qed
  have "act_ok s' (Deq_Unlink (block_base index) b)" if "nxt \<noteq> None"
  proof -
    have "unat ?prev = 31" using that by (simp add: nxt_def BLOCK_SIZE_def split: if_splits)
    then have "block_done (ip_completed s') index = 32" using b(2) counted [of index] by simp
    moreover have "block_base (block_base index) = block_base index" by (simp add: block_base_def)
    ultimately show ?thesis using b(1) block_done_cong [of "block_base index" index] by (simp add: same)
  qed
  then have nxt_ok: "act_ok s' c" if "nxt = Some c" for c using that by (auto simp: nxt_def split: if_splits)
  have "block_inv s' (opt_mset nxt + A)"
    unfolding block_inv_def
  proof (intro conjI allI impI ballI)
    fix w :: u64 assume w: "unat w < unat (ip_tail_index s') + (\<Sum>a \<in># opt_mset nxt + A. reserved a)" "block_done (ip_completed s') w < 32"
    have "block_done ?C w < 32" using w(2) counted [of w] by (simp split: if_splits)
    moreover have "unat w < unat (ip_tail_index s) + (\<Sum>a \<in># add_mset (Deq_Empty index b) A. reserved a)"
      using w(1) by (simp add: same nxt_def split: if_splits)
    ultimately show "live_block s' w" using i(1) live by blast
  next
    fix w :: u64 assume "unat w < unat (ip_tail_index s')" "unat w \<notin> fst ` set (ip_taken s')"
    then show "\<exists>c. ip_entries s' (block_base w) = Some c \<and> ib_elements (ip_blocks s' c) (block_offset w) = Some (ip_enqueued s' ! unat w)"
      using i(2) by (simp add: same)
  next
    fix a assume "a \<in># opt_mset nxt + A"
    then show "act_ok s' a" using ok i(3) nxt_ok by (cases nxt) auto
  next
    assume "unat (ip_tail_index s') mod 32 \<noteq> 0"
    then show "ip_tail_block s' = ip_entries s' (block_base (ip_tail_index s'))" using i(4) by (simp add: same)
  next
    fix k
    show "count (\<Sum>a \<in># opt_mset nxt + A. freeing a) k \<le> 1"
      using i(5) [of k] free by (cases "k = block_base index") (auto simp: nxt_def)
  qed
  moreover have "s' = s\<lparr>ip_blocks := ip_blocks s', ip_completed := insert (unat index) (ip_completed s)\<rparr>"
    by (simp add: s'_def set_block_def)
  moreover have "nxt = None \<or> nxt = Some (Deq_Unlink (block_base index) b)" by (simp add: nxt_def)
  ultimately show ?thesis using adv by blast
qed

text \<open>The block of a claimed position is found; moving its value out leaves the other values.\<close>

lemma entry_found:
  assumes "block_inv s A" "index_inv s A" and "unat (ip_head_index s) \<le> unat (ip_tail_index s)" "unat index \<in># (\<Sum>a \<in># A. index_of a)"
  shows "\<exists>b. ip_entries s (block_base index) = Some b"
proof -
  have "live_block s index"
    by (rule block_inv_live [OF assms(1,2)]) (use index_facts(2) [OF assms(2,4)] assms(3) in simp_all)
  then show ?thesis by (auto simp: live_block_def)
qed

lemma block_inv_move:
  fixes s :: "'v iprod"
  assumes inv: "block_inv s (add_mset (Deq_Move index b) A)" "index_inv s (add_mset (Deq_Move index b) A)"
    and head: "unat (ip_head_index s) \<le> unat (ip_tail_index s)"
  shows "\<exists>s'. ip_advance blk (Deq_Move index b) s = Some (s', Some (Deq_Empty index b)) \<and> block_inv s' (add_mset (Deq_Empty index b) A)
    \<and> s' = s\<lparr>ip_blocks := ip_blocks s', ip_taken := ip_taken s @ [(unat index, ip_enqueued s ! unat index)]\<rparr>"
proof -
  note i = block_invD [OF inv(1)] and f = index_facts [OF inv(2)]
  have index: "unat index < unat (ip_tail_index s)" "unat index \<notin> fst ` set (ip_taken s)" using f(3) [of "unat index"] head by auto
  have entry: "ip_entries s (block_base index) = Some b" using i(3) [of "Deq_Move index b"] by simp
  then have el: "ib_elements (ip_blocks s b) (block_offset index) = Some (ip_enqueued s ! unat index)" using i(2) [OF index] by auto
  define s' where "s' = (set_block b (ib_elements_update (\<lambda>e. e(block_offset index := None))) s)
    \<lparr>ip_taken := ip_taken s @ [(unat index, ip_enqueued s ! unat index)]\<rparr>"
  have adv: "ip_advance blk (Deq_Move index b) s = Some (s', Some (Deq_Empty index b))" using el by (simp add: s'_def)
  have same: "ip_tail_index s' = ip_tail_index s" "ip_completed s' = ip_completed s" "ip_entries s' = ip_entries s" "ip_owned s' = ip_owned s"
    "ip_enqueued s' = ip_enqueued s" "ip_tail_block s' = ip_tail_block s"
    "ib_completely_dequeued (ip_blocks s' c) = ib_completely_dequeued (ip_blocks s c)"
    "fst ` set (ip_taken s') = insert (unat index) (fst ` set (ip_taken s))" for c
    by (auto simp: s'_def set_block_def)
  have live: "live_block s' w = live_block s w" for w by (simp add: live_block_def same)
  have keep: "ib_elements (ip_blocks s' c) (block_offset w) = ib_elements (ip_blocks s c) (block_offset w)"
    if w: "unat w < unat (ip_tail_index s) + (\<Sum>a \<in># A. reserved a)" "w \<noteq> index" "unat w \<notin> ip_completed s" "ip_entries s (block_base w) = Some c" for w c
  proof (cases "c = b")
    case True
    have "live_block s w" by (rule block_inv_live [OF inv _ w(3)]) (use w(1) in simp)
    moreover have "live_block s index" by (rule block_inv_live [OF inv]) (use index(1) f(2) [of "unat index"] in simp_all)
    ultimately have "block_base w = block_base index" using live_blockD w(4) entry True by (metis option.inject)
    then have "block_offset w \<noteq> block_offset index" using same_position w(2) by blast
    then show ?thesis by (simp add: s'_def set_block_def)
  qed (simp add: s'_def set_block_def)
  have ok: "act_ok s' a" if a: "a \<in># A" for a
  proof (cases "\<exists>v. a = Enq_Publish v")
    case True
    then obtain v c where v: "a = Enq_Publish v" "ip_tail_block s = Some c" "ip_entries s (block_base (ip_tail_index s)) = Some c"
      "ib_elements (ip_blocks s c) (block_offset (ip_tail_index s)) = Some v" using i(3) [of a] a by auto
    have "reserved a \<le> (\<Sum>a \<in># A. reserved a)" using a by (metis insert_DiffM le_add1 sum_mset.insert image_mset_add_mset)
    moreover have "unat (ip_tail_index s) \<notin> ip_completed s" using f(1) head by fastforce
    moreover have "ip_tail_index s \<noteq> index" using index(1) by auto
    ultimately show ?thesis using keep [OF _ _ _ v(3)] v by (simp add: same)
  next
    case False
    have "act_ok s a" using i(3) [of a] a by simp
    then show ?thesis using False by (cases a) (auto simp: same)
  qed
  have "block_inv s' (add_mset (Deq_Empty index b) A)"
    unfolding block_inv_def
  proof (intro conjI allI impI ballI)
    fix w :: u64 assume "unat w < unat (ip_tail_index s') + (\<Sum>a \<in># add_mset (Deq_Empty index b) A. reserved a)" "block_done (ip_completed s') w < 32"
    then show "live_block s' w" unfolding live using i(1) by (simp add: same)
  next
    fix w :: u64 assume w: "unat w < unat (ip_tail_index s')" "unat w \<notin> fst ` set (ip_taken s')"
    then obtain c where c: "ip_entries s (block_base w) = Some c" "ib_elements (ip_blocks s c) (block_offset w) = Some (ip_enqueued s ! unat w)"
      using i(2) [of w] by (auto simp: same)
    have "unat w \<notin> ip_completed s" using f(1) w(2) unfolding same(8) by blast
    then have "ib_elements (ip_blocks s' c) (block_offset w) = Some (ip_enqueued s' ! unat w)"
      using keep [OF _ _ _ c(1)] w c(2) unfolding same by force
    then show "\<exists>c. ip_entries s' (block_base w) = Some c \<and> ib_elements (ip_blocks s' c) (block_offset w) = Some (ip_enqueued s' ! unat w)"
      using c(1) by (simp add: same)
  next
    fix a assume "a \<in># add_mset (Deq_Empty index b) A"
    then show "act_ok s' a" using ok entry by (auto simp: same)
  next
    assume "unat (ip_tail_index s') mod 32 \<noteq> 0"
    then show "ip_tail_block s' = ip_entries s' (block_base (ip_tail_index s'))" using i(4) by (simp add: same)
  next
    fix k show "count (\<Sum>a \<in># add_mset (Deq_Empty index b) A. freeing a) k \<le> 1" using i(5) [of k] by simp
  qed
  moreover have "s' = s\<lparr>ip_blocks := ip_blocks s', ip_taken := ip_taken s @ [(unat index, ip_enqueued s ! unat index)]\<rparr>"
    by (simp add: s'_def set_block_def)
  ultimately show ?thesis using adv by blast
qed

text \<open>An empty block leaves the index and goes back to the free list.\<close>

lemma done_block:
  assumes "index_inv s A" "unat (ip_head_index s) \<le> unat (ip_tail_index s)" "block_base base = base" "block_done (ip_completed s) base = 32"
  shows "block_base w = base \<Longrightarrow> unat w \<in> ip_completed s \<and> unat w \<in> fst ` set (ip_taken s) \<and> unat w < unat (ip_tail_index s)"
    and "block_done (ip_completed s) w < 32 \<Longrightarrow> block_base w \<noteq> base" and "unat (ip_tail_index s) \<le> unat v \<Longrightarrow> block_base v \<noteq> base"
proof -
  have all_done: "unat w \<in> ip_completed s \<and> unat w \<in> fst ` set (ip_taken s) \<and> unat w < unat (ip_tail_index s)" if "block_base w = base" for w
  proof -
    have "unat w div 32 = unat base div 32" using that assms(3) block_base_eq_iff [of w base] by simp
    then have "unat w \<in> ip_completed s" using block_done_32 [OF assms(4)] by blast
    then show ?thesis using index_facts(1) [OF assms(1)] assms(2) by fastforce
  qed
  then show "block_base w = base \<Longrightarrow> unat w \<in> ip_completed s \<and> unat w \<in> fst ` set (ip_taken s) \<and> unat w < unat (ip_tail_index s)"
    "unat (ip_tail_index s) \<le> unat v \<Longrightarrow> block_base v \<noteq> base" by fastforce+
  show "block_done (ip_completed s) w < 32 \<Longrightarrow> block_base w \<noteq> base"
    using block_done_cong [of w base "ip_completed s"] assms(3,4) by auto
qed

lemma block_inv_unlink:
  fixes s :: "'v iprod"
  assumes inv: "block_inv s (add_mset (Deq_Unlink base b) A)" "index_inv s (add_mset (Deq_Unlink base b) A)"
    and head: "unat (ip_head_index s) \<le> unat (ip_tail_index s)"
  shows "block_inv (s\<lparr>ip_entries := (ip_entries s)(base := None)\<rparr>) (add_mset (Deq_Release base b) A)" (is "block_inv ?s _")
proof -
  note i = block_invD [OF inv(1)] and f = index_facts [OF inv(2)]
  have base: "ip_owned s b = Some base" "block_base base = base" "block_done (ip_completed s) base = 32"
    using i(3) [of "Deq_Unlink base b"] by simp_all
  note d = done_block [OF inv(2) head base(2,3)]
  have live: "live_block ?s w" if "live_block s w" "block_base w \<noteq> base" for w
    using that by (simp add: live_block_def)
  have ok: "act_ok ?s a" if a: "a \<in># A" for a
  proof -
    have "unat index \<in># (\<Sum>a \<in># add_mset (Deq_Unlink base b) A. index_of a)" if "index_of a = {#unat index#}" for index :: u64
    proof -
      have "unat index \<in># index_of a" using that by simp
      then show ?thesis using a by auto
    qed
    then have "block_base index \<noteq> base" if "index_of a = {#unat index#}" for index :: u64
      using that f(2) d(1) by blast
    then show ?thesis using i(3) [of a] a d(3) [of "ip_tail_index s"] by (cases a) auto
  qed
  show ?thesis
    unfolding block_inv_def
  proof (intro conjI allI impI ballI)
    fix w :: u64 assume "unat w < unat (ip_tail_index ?s) + (\<Sum>a \<in># add_mset (Deq_Release base b) A. reserved a)" "block_done (ip_completed ?s) w < 32"
    then show "live_block ?s w" using i(1) d(2) live by simp
  next
    fix w :: u64 assume "unat w < unat (ip_tail_index ?s)" "unat w \<notin> fst ` set (ip_taken ?s)"
    then show "\<exists>c. ip_entries ?s (block_base w) = Some c \<and> ib_elements (ip_blocks ?s c) (block_offset w) = Some (ip_enqueued ?s ! unat w)"
      using i(2) d(1) by auto
  next
    fix a assume "a \<in># add_mset (Deq_Release base b) A"
    then show "act_ok ?s a" using ok base by auto
  next
    assume "unat (ip_tail_index ?s) mod 32 \<noteq> 0"
    then show "ip_tail_block ?s = ip_entries ?s (block_base (ip_tail_index ?s))" using i(4) d(3) [of "ip_tail_index s"] by simp
  next
    fix k show "count (\<Sum>a \<in># add_mset (Deq_Release base b) A. freeing a) k \<le> 1" using i(5) [of k] by simp
  qed
qed

lemma block_inv_release:
  fixes s :: "'v iprod"
  assumes inv: "block_inv s (add_mset (Deq_Release base b) A)" "index_inv s (add_mset (Deq_Release base b) A)"
    and head: "unat (ip_head_index s) \<le> unat (ip_tail_index s)"
  shows "block_inv (s\<lparr>ip_owned := (ip_owned s)(b := None)\<rparr>) A" (is "block_inv ?s _")
proof -
  note i = block_invD [OF inv(1)]
  have base: "ip_owned s b = Some base" "block_base base = base" "block_done (ip_completed s) base = 32"
    using i(3) [of "Deq_Release base b"] by simp_all
  note d = done_block [OF inv(2) head base(2,3)]
  have live: "live_block ?s w" if "live_block s w" "block_base w \<noteq> base" for w
  proof -
    obtain c where "ip_entries s (block_base w) = Some c" "ip_owned s c = Some (block_base w)"
      "unat (ib_completely_dequeued (ip_blocks s c)) = block_done (ip_completed s) w"
      using \<open>live_block s w\<close> unfolding live_block_def by blast
    moreover have "c \<noteq> b" using calculation(2) that(2) base(1) by auto
    ultimately show ?thesis unfolding live_block_def by (intro exI [of _ c]) simp
  qed
  have ok: "act_ok ?s a" if a: "a \<in># A" for a
  proof -
    have "base \<notin># freeing a"
    proof
      assume "base \<in># freeing a"
      then have "0 < count (\<Sum>a \<in># A. freeing a) base" using a by auto
      then show False using i(5) [of base] by (simp del: count_greater_zero_iff)
    qed
    then show ?thesis using i(3) [of a] a base(1) by (cases a) auto
  qed
  show ?thesis
    unfolding block_inv_def
  proof (intro conjI allI impI ballI)
    fix w :: u64 assume "unat w < unat (ip_tail_index ?s) + (\<Sum>a \<in># A. reserved a)" "block_done (ip_completed ?s) w < 32"
    then show "live_block ?s w" using i(1) d(2) live by simp
  next
    fix k show "count (\<Sum>a \<in># A. freeing a) k \<le> 1" using i(5) [of k] by (simp split: if_splits)
  qed (use i(2,4) ok in simp_all)
qed

text \<open>The only thread that enqueues: a new block, a value in its slot, the tail.\<close>

lemma no_reserved:
  assumes "index_inv s (add_mset a A)" "is_enqueue a"
  shows "(\<Sum>a \<in># A. reserved a) = 0" and "b \<in># A \<Longrightarrow> \<not> is_enqueue b"
proof -
  show none: "\<not> is_enqueue b" if "b \<in># A" for b using index_invD(6) [OF assms(1)] assms(2) that by (auto split: if_splits)
  have "reserved b = 0" if "b \<in># A" for b using none [OF that] by (cases b) auto
  then show "(\<Sum>a \<in># A. reserved a) = 0" by simp
qed

lemma block_inv_new_block:
  fixes s :: "'v iprod"
  assumes inv: "block_inv s (add_mset (Enq_Start v) A)" "index_inv s (add_mset (Enq_Start v) A)"
    and head: "unat (ip_head_index s) \<le> unat (ip_tail_index s)" and T: "unat (ip_tail_index s) mod 32 = 0" and b: "ip_owned s b = None"
  shows "block_inv ((set_block b (ib_completely_dequeued_update (\<lambda>_. 0)) s)
      \<lparr>ip_entries := (ip_entries s)(ip_tail_index s := Some b), ip_tail_block := Some b,
       ip_owned := (ip_owned s)(b := Some (ip_tail_index s))\<rparr>) (add_mset (Enq_Write v) A)" (is "block_inv ?s _")
proof -
  let ?T = "ip_tail_index s"
  note i = block_invD [OF inv(1)] and f = index_facts [OF inv(2)]
  have base: "block_base ?T = ?T" by (rule block_base_self [OF T])
  have below: "block_base w \<noteq> ?T" if "unat w < unat ?T" for w
  proof
    assume "block_base w = ?T"
    then have "unat ?T \<le> unat w" using block_base_div [of w] by simp
    then show False using that by simp
  qed
  have none_done: "block_done (ip_completed s) ?T = 0"
  proof -
    have "k div 32 \<noteq> unat ?T div 32" if "k \<in> ip_completed s" for k
    proof
      assume eq: "k div 32 = unat ?T div 32"
      have "k < unat ?T" using f(1) [OF that] head by simp
      then show False using T eq by (metis div_less_iff_less_mult div_mult_mod_eq add.right_neutral zero_less_numeral less_irrefl)
    qed
    then have "{i \<in> ip_completed s. i div 32 = unat ?T div 32} = {}" by blast
    then show ?thesis unfolding block_done_def by (simp only: card.empty)
  qed
  have live: "live_block ?s w" if w: "live_block s w" "unat w < unat ?T" for w
  proof -
    obtain c where c: "ip_entries s (block_base w) = Some c" "ip_owned s c = Some (block_base w)"
      "unat (ib_completely_dequeued (ip_blocks s c)) = block_done (ip_completed s) w"
      using w(1) unfolding live_block_def by blast
    then have "c \<noteq> b" using b by auto
    then show ?thesis using c below [OF w(2)] unfolding live_block_def by (intro exI [of _ c]) (simp add: set_block_def)
  qed
  have ok: "act_ok ?s a" if a: "a \<in># A" for a
  proof -
    have "unat index \<in># (\<Sum>a \<in># add_mset (Enq_Start v) A. index_of a)" if "index_of a = {#unat index#}" for index :: u64
    proof -
      have "unat index \<in># index_of a" using that by simp
      then show ?thesis using a by auto
    qed
    then have index: "block_base index \<noteq> ?T" if "index_of a = {#unat index#}" for index :: u64
      using that f(2) below head by fastforce
    have "\<not> is_enqueue a" using no_reserved(2) [OF inv(2) _ a] by simp
    then show ?thesis using i(3) [of a] a index b none_done by (cases a) (auto simp: set_block_def)
  qed
  show ?thesis
    unfolding block_inv_def
  proof (intro conjI allI impI ballI)
    fix w :: u64 assume w: "unat w < unat (ip_tail_index ?s) + (\<Sum>a \<in># add_mset (Enq_Write v) A. reserved a)" "block_done (ip_completed ?s) w < 32"
    have "unat w < unat ?T \<or> w = ?T" using w(1) no_reserved(1) [OF inv(2)] by (auto simp: set_block_def word_unat_eq_iff)
    then show "live_block ?s w"
    proof
      assume "unat w < unat ?T"
      then show ?thesis using i(1) [of w] w(2) live by (simp add: set_block_def)
    next
      assume "w = ?T"
      then show ?thesis unfolding live_block_def by (intro exI [of _ b]) (simp add: base none_done set_block_def)
    qed
  next
    fix w :: u64 assume w: "unat w < unat (ip_tail_index ?s)" "unat w \<notin> fst ` set (ip_taken ?s)"
    obtain c where "ip_entries s (block_base w) = Some c" "ib_elements (ip_blocks s c) (block_offset w) = Some (ip_enqueued s ! unat w)"
      using i(2) [of w] w by (auto simp: set_block_def)
    then show "\<exists>c. ip_entries ?s (block_base w) = Some c \<and> ib_elements (ip_blocks ?s c) (block_offset w) = Some (ip_enqueued ?s ! unat w)"
      using below [of w] w(1) by (intro exI [of _ c]) (auto simp: set_block_def)
  next
    fix a assume "a \<in># add_mset (Enq_Write v) A"
    then show "act_ok ?s a" using ok base by (auto simp: set_block_def)
  next
    assume "unat (ip_tail_index ?s) mod 32 \<noteq> 0"
    then show "ip_tail_block ?s = ip_entries ?s (block_base (ip_tail_index ?s))" using T by (simp add: set_block_def)
  next
    fix k show "count (\<Sum>a \<in># add_mset (Enq_Write v) A. freeing a) k \<le> 1" using i(5) [of k] by simp
  qed
qed

lemma div_pred_32: "n mod 32 \<noteq> 0 \<Longrightarrow> (n - 1) div 32 = n div 32" for n :: nat
  by (cases n) (simp_all add: div_Suc)

lemma block_inv_same_block:
  fixes s :: "'v iprod"
  assumes inv: "block_inv s (add_mset (Enq_Start v) A)" "index_inv s (add_mset (Enq_Start v) A)"
    and head: "unat (ip_head_index s) \<le> unat (ip_tail_index s)" and T: "unat (ip_tail_index s) mod 32 \<noteq> 0"
  shows "block_inv s (add_mset (Enq_Write v) A)"
proof -
  let ?T = "ip_tail_index s"
  note i = block_invD [OF inv(1)] and f = index_facts [OF inv(2)]
  have prev: "unat (?T - 1) = unat ?T - 1" using T by (cases "?T = 0") (simp_all add: unat_minus_one)
  have less: "unat (?T - 1) < unat ?T" unfolding prev using T by (cases "unat ?T") simp_all
  have same: "block_base (?T - 1) = block_base ?T"
  proof -
    have "(unat ?T - 1) div 32 = unat ?T div 32" by (rule div_pred_32 [OF T])
    then show ?thesis by (simp add: block_base_eq_iff prev)
  qed
  have "unat ?T \<notin> ip_completed s" using f(1) head by fastforce
  then have "block_done (ip_completed s) (?T - 1) < 32" using block_done_less block_done_cong [OF same] by metis
  then have "live_block s (?T - 1)" using i(1) [of "?T - 1"] less by simp
  then have tail: "live_block s ?T" using same block_done_cong [OF same] unfolding live_block_def by simp
  show ?thesis
    unfolding block_inv_def
  proof (intro conjI allI impI ballI)
    fix w :: u64 assume w: "unat w < unat ?T + (\<Sum>a \<in># add_mset (Enq_Write v) A. reserved a)" "block_done (ip_completed s) w < 32"
    have "unat w < unat ?T \<or> w = ?T" using w(1) no_reserved(1) [OF inv(2)] by (auto simp: word_unat_eq_iff)
    then show "live_block s w" using i(1) [of w] w(2) tail by auto
  next
    fix a assume "a \<in># add_mset (Enq_Write v) A"
    then show "act_ok s a" using i(3) i(4) [OF T] by auto
  next
    fix k show "count (\<Sum>a \<in># add_mset (Enq_Write v) A. freeing a) k \<le> 1" using i(5) [of k] by simp
  qed (use i(2,4) in blast)+
qed

lemma tail_block_found:
  assumes inv: "block_inv s (add_mset a A)" "index_inv s (add_mset a A)" and head: "unat (ip_head_index s) \<le> unat (ip_tail_index s)"
    and a: "reserved a = 1" "is_enqueue a"
  shows "\<exists>b. ip_tail_block s = Some b \<and> ip_entries s (block_base (ip_tail_index s)) = Some b \<and> ip_owned s b = Some (block_base (ip_tail_index s))"
proof -
  have "unat (ip_tail_index s) \<notin> ip_completed s" using index_facts(1) [OF inv(2)] head by fastforce
  then have "live_block s (ip_tail_index s)" by (intro block_inv_live [OF inv]) (simp add: a(1))
  moreover have "ip_tail_block s = ip_entries s (block_base (ip_tail_index s))"
    using block_invD(3) [OF inv(1), of a] a by (cases a) auto
  ultimately show ?thesis by (auto simp: live_block_def)
qed

lemma block_inv_write:
  fixes s :: "'v iprod"
  assumes inv: "block_inv s (add_mset (Enq_Write v) A)" "index_inv s (add_mset (Enq_Write v) A)"
    and head: "unat (ip_head_index s) \<le> unat (ip_tail_index s)"
  shows "\<exists>s'. ip_advance blk (Enq_Write v) s = Some (s', Some (Enq_Publish v)) \<and> block_inv s' (add_mset (Enq_Publish v) A)
    \<and> s' = s\<lparr>ip_blocks := ip_blocks s'\<rparr>"
proof -
  let ?T = "ip_tail_index s"
  note i = block_invD [OF inv(1)] and f = index_facts [OF inv(2)]
  obtain b where b: "ip_tail_block s = Some b" "ip_entries s (block_base ?T) = Some b" "ip_owned s b = Some (block_base ?T)"
    using tail_block_found [OF inv head] by auto
  define s' where "s' = set_block b (ib_elements_update (\<lambda>e. e(block_offset ?T := Some v))) s"
  have adv: "ip_advance blk (Enq_Write v) s = Some (s', Some (Enq_Publish v))" by (simp add: s'_def b(1))
  have same: "ip_tail_index s' = ip_tail_index s" "ip_completed s' = ip_completed s" "ip_entries s' = ip_entries s" "ip_owned s' = ip_owned s"
    "ip_enqueued s' = ip_enqueued s" "ip_tail_block s' = ip_tail_block s" "ip_taken s' = ip_taken s"
    "ib_completely_dequeued (ip_blocks s' c) = ib_completely_dequeued (ip_blocks s c)" for c
    by (simp_all add: s'_def set_block_def)
  have live: "live_block s' w = live_block s w" for w by (simp add: live_block_def same)
  have ok: "act_ok s' a" if a: "a \<in># A" for a
  proof -
    have "\<not> is_enqueue a" using no_reserved(2) [OF inv(2) _ a] by simp
    then show ?thesis using i(3) [of a] a by (cases a) (auto simp: same)
  qed
  have "block_inv s' (add_mset (Enq_Publish v) A)"
    unfolding block_inv_def
  proof (intro conjI allI impI ballI)
    fix w :: u64 assume "unat w < unat (ip_tail_index s') + (\<Sum>a \<in># add_mset (Enq_Publish v) A. reserved a)" "block_done (ip_completed s') w < 32"
    then show "live_block s' w" unfolding live using i(1) by (simp add: same)
  next
    fix w :: u64 assume w: "unat w < unat (ip_tail_index s')" "unat w \<notin> fst ` set (ip_taken s')"
    obtain c where c: "ip_entries s (block_base w) = Some c" "ib_elements (ip_blocks s c) (block_offset w) = Some (ip_enqueued s ! unat w)"
      using i(2) [of w] w by (auto simp: same)
    have "unat w \<notin> ip_completed s" using f(1) w(2) unfolding same by blast
    then have "live_block s w" by (intro block_inv_live [OF inv]) (use w(1) in \<open>simp_all add: same\<close>)
    then have "ip_owned s c = Some (block_base w)" using live_blockD c(1) by blast
    moreover have "w \<noteq> ?T" using w(1) by (auto simp: same)
    ultimately have "c \<noteq> b \<or> block_offset w \<noteq> block_offset ?T" using same_position [of w ?T] b(3) by auto
    then show "\<exists>c. ip_entries s' (block_base w) = Some c \<and> ib_elements (ip_blocks s' c) (block_offset w) = Some (ip_enqueued s' ! unat w)"
      using c by (intro exI [of _ c]) (auto simp: same s'_def set_block_def)
  next
    fix a assume "a \<in># add_mset (Enq_Publish v) A"
    then show "act_ok s' a" using ok b by (auto simp: same) (simp add: s'_def set_block_def)
  next
    assume "unat (ip_tail_index s') mod 32 \<noteq> 0"
    then show "ip_tail_block s' = ip_entries s' (block_base (ip_tail_index s'))" using i(4) by (simp add: same)
  next
    fix k show "count (\<Sum>a \<in># add_mset (Enq_Publish v) A. freeing a) k \<le> 1" using i(5) [of k] by simp
  qed
  moreover have "s' = s\<lparr>ip_blocks := ip_blocks s'\<rparr>" by (simp add: s'_def set_block_def)
  ultimately show ?thesis using adv by blast
qed

lemma block_inv_publish:
  fixes s :: "'v iprod"
  assumes inv: "block_inv s (add_mset (Enq_Publish v) A)" "index_inv s (add_mset (Enq_Publish v) A)"
    and head: "unat (ip_head_index s) \<le> unat (ip_tail_index s)" and bound: "unat (ip_tail_index s) < 2 ^ 63"
  shows "block_inv (s\<lparr>ip_tail_index := ip_tail_index s + 1, ip_enqueued := ip_enqueued s @ [v]\<rparr>) A" (is "block_inv ?s _")
proof -
  let ?T = "ip_tail_index s"
  note i = block_invD [OF inv(1)]
  have T: "unat (?T + 1) = unat ?T + 1" by (rule unat_Suc [OF bound])
  have len: "unat ?T = length (ip_enqueued s)" using index_invD(5) [OF inv(2)] .
  obtain b where b: "ip_tail_block s = Some b" "ip_entries s (block_base ?T) = Some b" "ib_elements (ip_blocks s b) (block_offset ?T) = Some v"
    using i(3) [of "Enq_Publish v"] by auto
  have ok: "act_ok ?s a" if a: "a \<in># A" for a
  proof -
    have "\<not> is_enqueue a" using no_reserved(2) [OF inv(2) _ a] by simp
    then show ?thesis using i(3) [of a] a by (cases a) auto
  qed
  show ?thesis
    unfolding block_inv_def
  proof (intro conjI allI impI ballI)
    fix w :: u64 assume "unat w < unat (ip_tail_index ?s) + (\<Sum>a \<in># A. reserved a)" "block_done (ip_completed ?s) w < 32"
    then have "live_block s w" using i(1) T by simp
    then show "live_block ?s w" by (simp add: live_block_def)
  next
    fix w :: u64 assume w: "unat w < unat (ip_tail_index ?s)" "unat w \<notin> fst ` set (ip_taken ?s)"
    have "unat w < unat ?T \<or> w = ?T" using w(1) T by (auto simp: word_unat_eq_iff)
    then show "\<exists>c. ip_entries ?s (block_base w) = Some c \<and> ib_elements (ip_blocks ?s c) (block_offset w) = Some (ip_enqueued ?s ! unat w)"
      using i(2) [of w] w(2) b(2,3) len by (auto simp: nth_append)
  next
    fix a assume "a \<in># A" then show "act_ok ?s a" by (rule ok)
  next
    assume "unat (ip_tail_index ?s) mod 32 \<noteq> 0"
    then have "(unat ?T + 1) div 32 = unat ?T div 32" using div_pred_32 [of "unat ?T + 1"] T by simp
    then have "block_base (?T + 1) = block_base ?T" by (simp add: block_base_eq_iff T)
    then show "ip_tail_block ?s = ip_entries ?s (block_base (ip_tail_index ?s))" using b by simp
  next
    fix k show "count (\<Sum>a \<in># A. freeing a) k \<le> 1" using i(5) [of k] by simp
  qed
qed

section \<open>Reachable states\<close>

definition ip_inv :: "'v iprod \<Rightarrow> 'v ip_act multiset \<Rightarrow> bool" where
  "ip_inv s A \<longleftrightarrow> count_inv s A \<and> index_inv s A \<and> block_inv s A"

lemma ip_inv_head: "count_inv s A \<Longrightarrow> unat (ip_head_index s) \<le> unat (ip_tail_index s)"
  using count_invD(4) granted_le_tail by fastforce

lemma ip_advance_dequeue:
  fixes s :: "'v iprod"
  assumes inv: "ip_inv s (add_mset a A)" and bound: "unat (ip_optimistic_count s) < 2 ^ 63" "unat (ip_tail_index s) < 2 ^ 63"
    and a: "\<not> is_enqueue a"
  shows "\<exists>s' nxt. ip_advance blk a s = Some (s', nxt) \<and> ip_inv s' (opt_mset nxt + A)"
proof -
  have c: "count_inv s (add_mset a A)" and x: "index_inv s (add_mset a A)" and b: "block_inv s (add_mset a A)"
    using inv by (simp_all add: ip_inv_def)
  note head = ip_inv_head [OF c]
  have frame: "ip_inv s (opt_mset nxt + A)"
    if "my_count a = {#}" "claim a = 0" "index_of a = {#}" "unmoved a = {#}" "reserved a = 0" "freeing a = {#}"
      "\<And>d. nxt = Some d \<Longrightarrow> my_count d = {#} \<and> claim d = 0 \<and> overcommit_ok (ip_rejected s) d \<and> index_of d = {#} \<and> unmoved d = {#}
         \<and> reserved d = 0 \<and> freeing d = {#} \<and> act_ok s d \<and> \<not> is_enqueue d" for nxt
    unfolding ip_inv_def
    using count_inv_frame [OF c, of s nxt] index_inv_frame [OF x, of s nxt] block_inv_frame [OF b, of s nxt] that by simp
  show ?thesis
  proof (cases a)
    case Deq_Tail
    then show ?thesis using frame [of "Some (Deq_Overcommit (ip_tail_index s))"] by simp
  next
    case (Deq_Overcommit t)
    then show ?thesis using frame [of "Some (Deq_Check t (ip_overcommit s))"] count_invD(5) [OF c] by simp
  next
    case (Deq_Check t v)
    then show ?thesis using frame [of "Some (Deq_Count v)"] frame [of None] count_invD(7) [OF c, of a] by simp
  next
    case (Deq_Count v)
    let ?s = "s\<lparr>ip_optimistic_count := ip_optimistic_count s + 1\<rparr>"
    have "index_inv ?s (add_mset (Deq_Tail_Again v (ip_optimistic_count s)) A)"
      using index_inv_frame [OF x, of ?s "Some (Deq_Tail_Again v (ip_optimistic_count s))"] Deq_Count by simp
    moreover have "block_inv ?s (add_mset (Deq_Tail_Again v (ip_optimistic_count s)) A)"
      using block_inv_frame [OF b, of ?s "Some (Deq_Tail_Again v (ip_optimistic_count s))"] Deq_Count by simp
    ultimately show ?thesis using count_inv_take_number [OF c [unfolded Deq_Count] bound(1)] Deq_Count by (simp add: ip_inv_def)
  next
    case (Deq_Tail_Again v my)
    let ?s = "s\<lparr>ip_granted := insert (unat my) (ip_granted s)\<rparr>"
    have "index_inv ?s (add_mset Deq_Head A) \<and> block_inv ?s (add_mset Deq_Head A)"
      using index_inv_frame [OF x, of ?s "Some Deq_Head"] block_inv_frame [OF b, of ?s "Some Deq_Head"] Deq_Tail_Again by simp
    moreover have "index_inv s (add_mset (Deq_Give_Up my) A) \<and> block_inv s (add_mset (Deq_Give_Up my) A)"
      using index_inv_frame [OF x, of s "Some (Deq_Give_Up my)"] block_inv_frame [OF b, of s "Some (Deq_Give_Up my)"] Deq_Tail_Again by simp
    ultimately show ?thesis using count_inv_decide [OF c [unfolded Deq_Tail_Again] bound] Deq_Tail_Again by (simp add: ip_inv_def split: if_splits)
  next
    case (Deq_Give_Up my)
    let ?s = "s\<lparr>ip_overcommit := ip_overcommit s + 1, ip_rejected := insert (unat my) (ip_rejected s)\<rparr>"
    have "index_inv ?s A \<and> block_inv ?s A"
      using index_inv_frame [OF x, of ?s None] block_inv_frame [OF b, of ?s None] Deq_Give_Up by simp
    then show ?thesis using count_inv_give_up [OF c [unfolded Deq_Give_Up] bound(1)] Deq_Give_Up by (simp add: ip_inv_def)
  next
    case Deq_Head
    let ?s = "s\<lparr>ip_head_index := ip_head_index s + 1\<rparr>"
    note m = count_inv_move_head [OF c [unfolded Deq_Head] bound(2)]
    have "block_inv ?s (add_mset (Deq_Entry (ip_head_index s)) A)"
      using block_inv_frame [OF b, of ?s "Some (Deq_Entry (ip_head_index s))"] Deq_Head by simp
    then show ?thesis using m index_inv_move_head [OF x [unfolded Deq_Head]] Deq_Head by (simp add: ip_inv_def)
  next
    case (Deq_Entry index)
    obtain d where d: "ip_entries s (block_base index) = Some d"
      using entry_found [OF b x head, of index] Deq_Entry by auto
    have "count_inv s (add_mset (Deq_Move index d) A) \<and> block_inv s (add_mset (Deq_Move index d) A)"
      using count_inv_frame [OF c, of s "Some (Deq_Move index d)"] block_inv_frame [OF b, of s "Some (Deq_Move index d)"] Deq_Entry d by simp
    moreover have "index_inv s (add_mset (Deq_Move index d) A)" using x unfolding Deq_Entry index_inv_def by simp
    ultimately show ?thesis using Deq_Entry d by (simp add: ip_inv_def)
  next
    case (Deq_Move index d)
    obtain s' where s': "ip_advance blk (Deq_Move index d) s = Some (s', Some (Deq_Empty index d))" "block_inv s' (add_mset (Deq_Empty index d) A)"
      "s' = s\<lparr>ip_blocks := ip_blocks s', ip_taken := ip_taken s @ [(unat index, ip_enqueued s ! unat index)]\<rparr>"
      using block_inv_move [OF b [unfolded Deq_Move] x [unfolded Deq_Move] head] by blast
    have same: "ip_granted s' = ip_granted s" "ip_rejected s' = ip_rejected s" "ip_optimistic_count s' = ip_optimistic_count s"
      "ip_head_index s' = ip_head_index s" "ip_overcommit s' = ip_overcommit s" "ip_tail_index s' = ip_tail_index s"
      by (subst s'(3), simp)+
    have "unat index < length (ip_enqueued s)"
      using index_facts(2) [OF x, of "unat index"] head index_invD(5) [OF x] Deq_Move by simp
    then have "index_inv s' (add_mset (Deq_Empty index d) A)" using index_inv_move [OF x [unfolded Deq_Move] refl] s'(3) by metis
    moreover have "count_inv s' (add_mset (Deq_Empty index d) A)"
      using count_inv_frame [OF c, of s' "Some (Deq_Empty index d)"] Deq_Move same by simp
    ultimately show ?thesis using s'(1,2) Deq_Move by (simp add: ip_inv_def)
  next
    case (Deq_Empty index d)
    obtain s' nxt where s': "ip_advance blk (Deq_Empty index d) s = Some (s', nxt)" "block_inv s' (opt_mset nxt + A)"
      "s' = s\<lparr>ip_blocks := ip_blocks s', ip_completed := insert (unat index) (ip_completed s)\<rparr>"
      "nxt = None \<or> nxt = Some (Deq_Unlink (block_base index) d)"
      using block_inv_empty [OF b [unfolded Deq_Empty] x [unfolded Deq_Empty] head] by blast
    have same: "ip_granted s' = ip_granted s" "ip_rejected s' = ip_rejected s" "ip_optimistic_count s' = ip_optimistic_count s"
      "ip_head_index s' = ip_head_index s" "ip_overcommit s' = ip_overcommit s" "ip_tail_index s' = ip_tail_index s"
      by (subst s'(3), simp)+
    have "index_of e = {#} \<and> unmoved e = {#} \<and> \<not> is_enqueue e" if "nxt = Some e" for e using s'(4) that by auto
    then have "index_inv s' (opt_mset nxt + A)" by (subst s'(3)) (rule index_inv_empty [OF x [unfolded Deq_Empty]])
    moreover have "count_inv s' (opt_mset nxt + A)"
      using count_inv_frame [OF c, of s' nxt] Deq_Empty s'(4) same by auto
    ultimately show ?thesis using s'(1,2) Deq_Empty by (simp add: ip_inv_def)
  next
    case (Deq_Unlink base d)
    let ?s = "s\<lparr>ip_entries := (ip_entries s)(base := None)\<rparr>"
    show ?thesis using count_inv_frame [OF c, of ?s "Some (Deq_Release base d)"] index_inv_frame [OF x, of ?s "Some (Deq_Release base d)"]
      block_inv_unlink [OF b [unfolded Deq_Unlink] x [unfolded Deq_Unlink] head] Deq_Unlink by (simp add: ip_inv_def)
  next
    case (Deq_Release base d)
    let ?s = "s\<lparr>ip_owned := (ip_owned s)(d := None)\<rparr>"
    show ?thesis using count_inv_frame [OF c, of ?s None] index_inv_frame [OF x, of ?s None]
      block_inv_release [OF b [unfolded Deq_Release] x [unfolded Deq_Release] head] Deq_Release by (simp add: ip_inv_def)
  qed (use a in simp_all)
qed

lemma ip_advance_enqueue:
  fixes s :: "'v iprod"
  assumes inv: "ip_inv s (add_mset a A)" and bound: "unat (ip_tail_index s) < 2 ^ 63" and a: "is_enqueue a"
    and blk: "case blk of Some b \<Rightarrow> ip_owned s b = None | None \<Rightarrow> True"
  shows "\<exists>s' nxt. ip_advance blk a s = Some (s', nxt) \<and> ip_inv s' (opt_mset nxt + A)"
proof -
  have c: "count_inv s (add_mset a A)" and x: "index_inv s (add_mset a A)" and b: "block_inv s (add_mset a A)"
    using inv by (simp_all add: ip_inv_def)
  note head = ip_inv_head [OF c]
  show ?thesis
  proof (cases a)
    case (Enq_Start v)
    have stop: "ip_inv s A" using count_inv_frame [OF c, of s None] index_inv_frame [OF x, of s None] block_inv_frame [OF b, of s None]
      Enq_Start by (simp add: ip_inv_def)
    have writing: "count_inv s (add_mset (Enq_Write v) A) \<and> index_inv s (add_mset (Enq_Write v) A)"
      using count_inv_frame [OF c, of s "Some (Enq_Write v)"] index_inv_frame [OF x, of s "Some (Enq_Write v)"] Enq_Start by simp
    have started: "count_inv ((set_block d f s)\<lparr>ip_entries := e, ip_tail_block := t, ip_owned := w\<rparr>) (add_mset (Enq_Write v) A)
        \<and> index_inv ((set_block d f s)\<lparr>ip_entries := e, ip_tail_block := t, ip_owned := w\<rparr>) (add_mset (Enq_Write v) A)" for d f e t w
      using count_inv_frame [OF c, of "(set_block d f s)\<lparr>ip_entries := e, ip_tail_block := t, ip_owned := w\<rparr>" "Some (Enq_Write v)"]
        index_inv_frame [OF x, of "(set_block d f s)\<lparr>ip_entries := e, ip_tail_block := t, ip_owned := w\<rparr>" "Some (Enq_Write v)"] Enq_Start
      by (simp add: set_block_def)
    show ?thesis
    proof (cases "unat (ip_tail_index s) mod 32 = 0")
      case True
      then show ?thesis
        using stop started block_inv_new_block [OF b [unfolded Enq_Start] x [unfolded Enq_Start] head True] blk Enq_Start
        by (cases blk) (simp_all add: tail_offset_zero ip_inv_def)
    next
      case False
      then show ?thesis using writing block_inv_same_block [OF b [unfolded Enq_Start] x [unfolded Enq_Start] head False] Enq_Start
        by (simp add: tail_offset_zero ip_inv_def)
    qed
  next
    case (Enq_Write v)
    obtain s' where s': "ip_advance blk (Enq_Write v) s = Some (s', Some (Enq_Publish v))" "block_inv s' (add_mset (Enq_Publish v) A)"
      "s' = s\<lparr>ip_blocks := ip_blocks s'\<rparr>"
      using block_inv_write [OF b [unfolded Enq_Write] x [unfolded Enq_Write] head] by blast
    have same: "ip_granted s' = ip_granted s" "ip_rejected s' = ip_rejected s" "ip_optimistic_count s' = ip_optimistic_count s"
      "ip_head_index s' = ip_head_index s" "ip_overcommit s' = ip_overcommit s" "ip_tail_index s' = ip_tail_index s"
      "ip_completed s' = ip_completed s" "ip_taken s' = ip_taken s" "ip_enqueued s' = ip_enqueued s"
      by (subst s'(3), simp)+
    show ?thesis using s'(1,2) count_inv_frame [OF c, of s' "Some (Enq_Publish v)"] index_inv_frame [OF x, of s' "Some (Enq_Publish v)"]
      same Enq_Write by (simp add: ip_inv_def)
  next
    case (Enq_Publish v)
    let ?s = "s\<lparr>ip_tail_index := ip_tail_index s + 1, ip_enqueued := ip_enqueued s @ [v]\<rparr>"
    have "count_inv ?s A" using count_inv_frame [OF c, of ?s None] unat_Suc [OF bound] Enq_Publish by simp
    then show ?thesis using index_inv_publish [OF x [unfolded Enq_Publish] bound]
      block_inv_publish [OF b [unfolded Enq_Publish] x [unfolded Enq_Publish] head bound] Enq_Publish by (simp add: ip_inv_def)
  qed (use a in simp_all)
qed

lemma ip_inv_new: "ip_inv (ImplicitProducer_new blocks) {#}"
  by (simp add: ip_inv_def count_inv_def index_inv_def block_inv_def ImplicitProducer_new_def)

lemma ip_inv_begin:
  assumes "ip_inv s A" "a = Deq_Tail \<or> a = Enq_Start v \<and> \<not> (\<exists>a \<in># A. is_enqueue a)"
  shows "ip_inv s (add_mset a A)"
proof -
  have "(\<Sum>a \<in># A. of_bool (is_enqueue a) :: nat) = 0" if "a = Enq_Start v" using assms(2) that by auto
  then have "index_inv s (add_mset a A)" using assms unfolding ip_inv_def index_inv_def by auto
  moreover have "count_inv s (add_mset a A)" using assms unfolding ip_inv_def count_inv_def by auto
  moreover have "block_inv s (add_mset a A)" using assms unfolding ip_inv_def block_inv_def by auto
  ultimately show ?thesis by (simp add: ip_inv_def)
qed

lemma ip_inv_other:
  assumes inv: "ip_inv s A" and b: "ip_owned s b = None"
  shows "ip_inv (s\<lparr>ip_blocks := (ip_blocks s)(b := any)\<rparr>) A" (is "ip_inv ?s _")
proof -
  have c: "count_inv s A" and x: "index_inv s A" and k: "block_inv s A" using inv by (simp_all add: ip_inv_def)
  note i = block_invD [OF k] and head = ip_inv_head [OF c]
  have live: "live_block ?s w" if "live_block s w" for w
  proof -
    obtain c where "ip_entries s (block_base w) = Some c" "ip_owned s c = Some (block_base w)"
      "unat (ib_completely_dequeued (ip_blocks s c)) = block_done (ip_completed s) w"
      using \<open>live_block s w\<close> unfolding live_block_def by blast
    moreover have "c \<noteq> b" using calculation(2) b by auto
    ultimately show ?thesis unfolding live_block_def by (intro exI [of _ c]) simp
  qed
  have found: "c \<noteq> b" if "ip_entries s (block_base w) = Some c" "unat w \<notin> ip_completed s"
      "unat w < unat (ip_tail_index s) + (\<Sum>a \<in># A. reserved a)" for w c
    using live_blockD [OF block_inv_live [OF k x that(3,2)] that(1)] b by auto
  have tail: "unat (ip_tail_index s) \<notin> ip_completed s" using index_facts(1) [OF x] head by fastforce
  have ok: "act_ok ?s a" if a: "a \<in># A" for a
  proof (cases "\<exists>v. a = Enq_Publish v")
    case True
    then obtain v where v: "a = Enq_Publish v" by blast
    have "reserved a \<le> (\<Sum>a \<in># A. reserved a)" using a by (metis insert_DiffM le_add1 sum_mset.insert image_mset_add_mset)
    then show ?thesis using i(3) [OF a] found [of "ip_tail_index s"] tail v by auto
  next
    case False
    then show ?thesis using i(3) [OF a] by (cases a) auto
  qed
  have "block_inv ?s A"
    unfolding block_inv_def
  proof (intro conjI allI impI ballI)
    fix w :: u64 assume w: "unat w < unat (ip_tail_index ?s)" "unat w \<notin> fst ` set (ip_taken ?s)"
    then obtain c where "ip_entries s (block_base w) = Some c" "ib_elements (ip_blocks s c) (block_offset w) = Some (ip_enqueued s ! unat w)"
      using i(2) [of w] by auto
    moreover have "unat w \<notin> ip_completed s" using index_facts(1) [OF x] w(2) by auto
    ultimately show "\<exists>c. ip_entries ?s (block_base w) = Some c \<and> ib_elements (ip_blocks ?s c) (block_offset w) = Some (ip_enqueued ?s ! unat w)"
      using found [of w] w(1) by auto
  qed (use i(1,4,5) live ok in auto)
  moreover have "count_inv ?s A" using c by (simp add: count_inv_def)
  moreover have "index_inv ?s A" using x by (simp add: index_inv_def)
  ultimately show ?thesis by (simp add: ip_inv_def)
qed

lemma ip_advance_counts:
  assumes "ip_advance blk a s = Some (s', nxt)" "unat (ip_optimistic_count s) \<le> n" "unat (ip_tail_index s) \<le> n" "n < 2 ^ 63"
  shows "unat (ip_optimistic_count s') \<le> Suc n \<and> unat (ip_tail_index s') \<le> Suc n"
  using assms unat_Suc [of "ip_optimistic_count s"] unat_Suc [of "ip_tail_index s"]
  by (cases a) (auto simp: set_block_def Let_def split: if_splits option.splits)

text \<open>A step writes to one block, which this producer owns then.\<close>

lemma ip_advance_block:
  fixes s :: "'v iprod"
  assumes inv: "ip_inv s (add_mset a A)" and step: "ip_advance blk a s = Some (s', nxt)"
  shows "\<exists>b. ip_blocks s' = (ip_blocks s)(b := ip_blocks s' b)
      \<and> (ip_blocks s' = ip_blocks s \<or> ip_owned s b \<noteq> None \<or> blk = Some b)"
    and "ip_owned s' c \<noteq> None \<Longrightarrow> ip_owned s c \<noteq> None \<or> blk = Some c"
proof -
  have c: "count_inv s (add_mset a A)" and x: "index_inv s (add_mset a A)" and k: "block_inv s (add_mset a A)"
    using inv by (simp_all add: ip_inv_def)
  note head = ip_inv_head [OF c]
  have owned: "ip_owned s b \<noteq> None" if "ip_entries s (block_base index) = Some b" "unat index \<in># index_of a" for index b
  proof -
    have "unat index \<in># (\<Sum>a \<in># add_mset a A. index_of a)" using that(2) by simp
    then have "live_block s index"
      by (intro block_inv_live [OF k x]) (use index_facts(2) [OF x, of "unat index"] head in simp_all)
    then show ?thesis using live_blockD that(1) by auto
  qed
  show "\<exists>b. ip_blocks s' = (ip_blocks s)(b := ip_blocks s' b)
      \<and> (ip_blocks s' = ip_blocks s \<or> ip_owned s b \<noteq> None \<or> blk = Some b)"
  proof (cases a)
    case (Enq_Start v)
    then show ?thesis using step by (auto simp: set_block_def split: if_splits option.splits)
  next
    case (Enq_Write v)
    obtain b where "ip_tail_block s = Some b" "ip_owned s b \<noteq> None"
      using tail_block_found [OF k x head] Enq_Write by auto
    then show ?thesis using step Enq_Write by (intro exI [of _ b]) (auto simp: set_block_def)
  next
    case (Deq_Move index b)
    then have "ip_owned s b \<noteq> None" using owned block_invD(3) [OF k, of a] by simp
    then show ?thesis using step Deq_Move by (intro exI [of _ b]) (auto simp: set_block_def split: option.splits)
  next
    case (Deq_Empty index b)
    then have "ip_owned s b \<noteq> None" using owned block_invD(3) [OF k, of a] by simp
    then show ?thesis using step Deq_Empty by (intro exI [of _ b]) (auto simp: set_block_def Let_def split: if_splits)
  qed (use step in \<open>auto split: if_splits option.splits\<close>)
  show "ip_owned s' c \<noteq> None \<Longrightarrow> ip_owned s c \<noteq> None \<or> blk = Some c"
    using step by (cases a) (auto simp: set_block_def Let_def split: if_splits option.splits)
qed

lemma ip_reach_inv: "ip_reach n s A \<Longrightarrow> n < 2 ^ 63 \<Longrightarrow>
    ip_inv s A \<and> unat (ip_optimistic_count s) \<le> n \<and> unat (ip_tail_index s) \<le> n"
proof (induction rule: ip_reach.induct)
  case (start blocks)
  then show ?case using ip_inv_new by (simp add: ImplicitProducer_new_def)
next
  case (step n s A s' A')
  then have IH: "ip_inv s A" "unat (ip_optimistic_count s) \<le> n" "unat (ip_tail_index s) \<le> n" "n < 2 ^ 63" by simp_all
  from step.hyps(2) show ?case
  proof cases
    case (enqueue v)
    then show ?thesis using ip_inv_begin [OF IH(1), of "Enq_Start v" v] IH by auto
  next
    case dequeue
    then show ?thesis using ip_inv_begin [OF IH(1), of Deq_Tail] IH by auto
  next
    case (advance blk a nxt A0)
    obtain s1 nxt1 where "ip_advance blk a s = Some (s1, nxt1)" "ip_inv s1 (opt_mset nxt1 + A0)"
      using ip_advance_enqueue [of s a A0 blk] ip_advance_dequeue [of s a A0 blk] IH advance(1,3) by fastforce
    then show ?thesis using ip_advance_counts [OF advance(4) IH(2-4)] advance by auto
  next
    case (other b any)
    then show ?thesis using ip_inv_other [OF IH(1)] IH by auto
  qed
qed

section \<open>Properties\<close>

text \<open>C31: Up to \<open>2 ^ 63\<close> steps, in every interleaving of one enqueuing thread and any number of
  dequeuing ones, no step reads a missing block or a missing value, and every value dequeued is
  the one enqueued at its position; no position is dequeued twice, and the positions dequeued
  or on their way out are exactly those below the head.\<close>

theorem implicit_producer_hands_out_each_once:
  assumes "ip_reach n s A" "n < 2 ^ 63"
  shows "(\<forall>a \<in># A. \<forall>blk. (case blk of Some b \<Rightarrow> ip_owned s b = None | None \<Rightarrow> True) \<longrightarrow> ip_advance blk a s \<noteq> None)
    \<and> distinct (map fst (ip_taken s)) \<and> (\<forall>(i, v) \<in> set (ip_taken s). i < length (ip_enqueued s) \<and> v = ip_enqueued s ! i)
    \<and> mset (map fst (ip_taken s)) + (\<Sum>a \<in># A. unmoved a) = mset [0..<unat (ip_head_index s)]
    \<and> unat (ip_head_index s) \<le> length (ip_enqueued s)"
proof -
  have inv: "ip_inv s A" and bound: "unat (ip_optimistic_count s) < 2 ^ 63" "unat (ip_tail_index s) < 2 ^ 63"
    using ip_reach_inv [OF assms] assms(2) by auto
  then have x: "index_inv s A" and c: "count_inv s A" by (simp_all add: ip_inv_def)
  have "ip_advance blk a s \<noteq> None" if "a \<in># A" "case blk of Some b \<Rightarrow> ip_owned s b = None | None \<Rightarrow> True" for a blk
  proof -
    from that(1) obtain B where "A = add_mset a B" by (metis multi_member_split)
    then show ?thesis using ip_advance_enqueue [of s a B blk] ip_advance_dequeue [of s a B blk] inv bound that(2) by fastforce
  qed
  moreover have "mset_set {..<unat (ip_head_index s)} = mset [0..<unat (ip_head_index s)]"
    by (simp add: atLeast0LessThan [symmetric] mset_upt)
  ultimately show ?thesis
    using index_invD(3-5) [OF x] index_facts(5) [OF x] ip_inv_head [OF c] by auto
qed

text \<open>With no call in progress the counts agree.\<close>

lemma quiet_counts:
  assumes "ip_inv s {#}"
  shows "unat (ip_optimistic_count s) = unat (ip_head_index s) + unat (ip_overcommit s)" "length (ip_taken s) = unat (ip_head_index s)"
proof -
  have c: "count_inv s {#}" and x: "index_inv s {#}" using assms by (simp_all add: ip_inv_def)
  note i = count_invD [OF c]
  have "card (ip_granted s) + card (ip_rejected s) = unat (ip_optimistic_count s)"
    using arg_cong [OF i(3), of size] by simp
  then show "unat (ip_optimistic_count s) = unat (ip_head_index s) + unat (ip_overcommit s)" using i(4,5) by simp
  show "length (ip_taken s) = unat (ip_head_index s)"
    using arg_cong [OF index_invD(3) [OF x], of size] by simp
qed

lemma ip_run_step: "ip_advance None a s = Some (s', Some a') \<Longrightarrow> ip_run (Suc fuel) a s = ip_run fuel a' s'"
  "ip_advance None a s = Some (s', None) \<Longrightarrow> ip_run (Suc fuel) a s = Some (s', ip_returns a)"
  by simp_all

lemma dequeue_claimed:
  fixes s :: "'v iprod"
  assumes inv: "ip_inv s {#Deq_Entry index#}"
  shows "\<exists>s'. ip_run 5 (Deq_Entry index) s = Some (s', True) \<and> ip_taken s' = ip_taken s @ [(unat index, ip_enqueued s ! unat index)]"
proof -
  have c: "count_inv s {#Deq_Entry index#}" and x: "index_inv s {#Deq_Entry index#}" and b: "block_inv s {#Deq_Entry index#}"
    using inv by (simp_all add: ip_inv_def)
  note head = ip_inv_head [OF c]
  obtain d where d: "ip_entries s (block_base index) = Some d" using entry_found [OF b x head, of index] by auto
  have x1: "index_inv s {#Deq_Move index d#}" using x unfolding index_inv_def by simp
  have b1: "block_inv s {#Deq_Move index d#}" using block_inv_frame [OF b, of s "Some (Deq_Move index d)"] d by simp
  obtain s2 where s2: "ip_advance None (Deq_Move index d) s = Some (s2, Some (Deq_Empty index d))" "block_inv s2 {#Deq_Empty index d#}"
    "s2 = s\<lparr>ip_blocks := ip_blocks s2, ip_taken := ip_taken s @ [(unat index, ip_enqueued s ! unat index)]\<rparr>"
    using block_inv_move [OF b1 x1 head] by blast
  have "unat index < length (ip_enqueued s)" using index_facts(2) [OF x, of "unat index"] head index_invD(5) [OF x] by simp
  then have x2: "index_inv s2 {#Deq_Empty index d#}" using index_inv_move [OF x1 refl] s2(3) by metis
  have head2: "unat (ip_head_index s2) \<le> unat (ip_tail_index s2)" using head by (subst (1 2) s2(3)) simp
  obtain s3 nxt where s3: "ip_advance None (Deq_Empty index d) s2 = Some (s3, nxt)"
    "s3 = s2\<lparr>ip_blocks := ip_blocks s3, ip_completed := insert (unat index) (ip_completed s2)\<rparr>"
    "nxt = None \<or> nxt = Some (Deq_Unlink (block_base index) d)"
    using block_inv_empty [OF s2(2) x2 head2] by blast
  have taken: "ip_taken s3 = ip_taken s @ [(unat index, ip_enqueued s ! unat index)]" by (subst s3(2), subst s2(3)) simp
  have "ip_run 5 (Deq_Entry index) s = ip_run 3 (Deq_Empty index d) s2"
    using d s2(1) by (simp add: eval_nat_numeral)
  then show ?thesis using s3 taken by (auto simp: eval_nat_numeral)
qed

text \<open>A \<open>dequeue\<close> that runs alone.\<close>

lemma dequeue_alone:
  assumes inv: "ip_inv s {#}" and bound: "unat (ip_optimistic_count s) < 2 ^ 62" "unat (ip_tail_index s) < 2 ^ 62"
  shows "\<exists>s'. ImplicitProducer_dequeue s = Some (s', length (ip_taken s) < length (ip_enqueued s))
    \<and> ip_taken s' = ip_taken s @ (let h = length (ip_taken s) in if h < length (ip_enqueued s) then [(h, ip_enqueued s ! h)] else [])"
    and "unat (size_approx s) = length (ip_enqueued s) - length (ip_taken s)"
proof -
  have x: "index_inv s {#}" and c: "count_inv s {#}" and b: "block_inv s {#}" using inv by (simp_all add: ip_inv_def)
  note q = quiet_counts [OF inv] and head = ip_inv_head [OF c]
  let ?H = "unat (ip_head_index s)" and ?V = "ip_overcommit s"
  have len: "unat (ip_tail_index s) = length (ip_enqueued s)" using index_invD(5) [OF x] .
  have diff: "unat (ip_optimistic_count s - ?V) = ?H" using q(1) by (simp add: unat_sub word_le_nat_alt)
  have less: "circular_less_than (ip_optimistic_count s - ?V) (ip_tail_index s) \<longleftrightarrow> ?H < length (ip_enqueued s)"
    using circular_less_than_iff [of "ip_optimistic_count s - ?V" "ip_tail_index s"] bound diff head len by simp
  show "unat (size_approx s) = length (ip_enqueued s) - length (ip_taken s)"
    using circular_less_than_iff [of "ip_head_index s" "ip_tail_index s"] bound head len q(2)
    by (simp add: size_approx_def size_between_def unat_sub word_le_nat_alt)
  show "\<exists>s'. ImplicitProducer_dequeue s = Some (s', length (ip_taken s) < length (ip_enqueued s))
    \<and> ip_taken s' = ip_taken s @ (let h = length (ip_taken s) in if h < length (ip_enqueued s) then [(h, ip_enqueued s ! h)] else [])"
  proof (cases "?H < length (ip_enqueued s)")
    case False
    then show ?thesis using less q(2) by (simp add: ImplicitProducer_dequeue_def eval_nat_numeral Let_def)
  next
    case True
    let ?O = "ip_optimistic_count s"
    define s1 where "s1 = s\<lparr>ip_optimistic_count := ?O + 1\<rparr>"
    define s2 where "s2 = s1\<lparr>ip_granted := insert (unat ?O) (ip_granted s)\<rparr>"
    define s3 where "s3 = s2\<lparr>ip_head_index := ip_head_index s + 1\<rparr>"
    have started: "ip_inv s {#Deq_Tail#}" using ip_inv_begin [OF inv, of Deq_Tail] by simp
    have lt: "circular_less_than (?O - ?V) (ip_tail_index s)" using True less by simp
    have steps: "ip_advance None Deq_Tail s = Some (s, Some (Deq_Overcommit (ip_tail_index s)))"
      "ip_advance None (Deq_Overcommit (ip_tail_index s)) s = Some (s, Some (Deq_Check (ip_tail_index s) ?V))"
      "ip_advance None (Deq_Check (ip_tail_index s) ?V) s = Some (s, Some (Deq_Count ?V))"
      "ip_advance None (Deq_Count ?V) s = Some (s1, Some (Deq_Tail_Again ?V ?O))"
      "ip_advance None (Deq_Tail_Again ?V ?O) s1 = Some (s2, Some Deq_Head)"
      "ip_advance None Deq_Head s2 = Some (s3, Some (Deq_Entry (ip_head_index s)))"
      using lt by (simp_all add: s1_def s2_def s3_def)
    have O: "unat (?O + 1) = unat ?O + 1" using unat_Suc [of ?O] bound by simp
    have small: "unat (ip_optimistic_count t) < 2 ^ 63 \<and> unat (ip_tail_index t) < 2 ^ 63" if "t \<in> {s, s1, s2}" for t
      using that bound O by (auto simp: s1_def s2_def)
    have chain: "ip_inv t' {#a'#}" if "ip_inv t {#a#}" "ip_advance None a t = Some (t', Some a')" "t \<in> {s, s1, s2}" "\<not> is_enqueue a" for t t' a a'
      using ip_advance_dequeue [of t a "{#}" None] small that by auto
    have "ip_inv s3 {#Deq_Entry (ip_head_index s)#}"
      by (rule chain [OF chain [OF chain [OF chain [OF chain [OF chain [OF started steps(1)] steps(2)] steps(3)] steps(4)] steps(5)] steps(6)]) simp_all
    from dequeue_claimed [OF this] obtain s' where s': "ip_run 5 (Deq_Entry (ip_head_index s)) s3 = Some (s', True)"
      "ip_taken s' = ip_taken s @ [(?H, ip_enqueued s ! ?H)]" by (auto simp: s3_def s2_def s1_def)
    have "ImplicitProducer_dequeue s = ip_run 5 (Deq_Entry (ip_head_index s)) s3"
      unfolding ImplicitProducer_dequeue_def using steps by (simp add: eval_nat_numeral del: ip_advance.simps)
    then show ?thesis using s' True q(2) by (simp add: Let_def)
  qed
qed

text \<open>When no call is in progress, \<open>dequeue\<close> takes the oldest value that is left, and takes nothing
  only if none is left; \<open>size_approx\<close> is exact.\<close>

theorem implicit_producer_dequeues_oldest:
  assumes "ip_reach n s {#}" "n < 2 ^ 62"
  shows "\<exists>s'. ImplicitProducer_dequeue s = Some (s', length (ip_taken s) < length (ip_enqueued s))
    \<and> ip_taken s' = ip_taken s @ (let h = length (ip_taken s) in if h < length (ip_enqueued s) then [(h, ip_enqueued s ! h)] else [])
    \<and> unat (size_approx s) = length (ip_enqueued s) - length (ip_taken s)"
  using dequeue_alone [of s] ip_reach_inv [OF assms(1)] assms(2) by auto

text \<open>One value, enqueued in four steps; the block is number 7.\<close>

definition empty_producer :: "'v iprod" where
  "empty_producer = ImplicitProducer_new (\<lambda>_. \<lparr>ib_elements = (\<lambda>_. None), ib_completely_dequeued = 0\<rparr>)"

lemma one_enqueue_steps:
  fixes v :: 'v
  shows "\<exists>s1 s2 s3. ip_advance (Some 7) (Enq_Start v) empty_producer = Some (s1, Some (Enq_Write v))
    \<and> ip_advance None (Enq_Write v) s1 = Some (s2, Some (Enq_Publish v)) \<and> ip_advance None (Enq_Publish v) s2 = Some (s3, None)
    \<and> ip_enqueued s3 = [v] \<and> ip_taken s3 = [] \<and> dom (ip_owned s3) = {7}"
proof -
  define s0 :: "'v iprod" where "s0 = empty_producer"
  define s1 where "s1 = (set_block 7 (ib_completely_dequeued_update (\<lambda>_. 0)) s0)
    \<lparr>ip_entries := (ip_entries s0)(0 := Some 7), ip_tail_block := Some 7, ip_owned := (ip_owned s0)(7 := Some 0)\<rparr>"
  define s2 where "s2 = set_block 7 (ib_elements_update (\<lambda>e. e(0 := Some v))) s1"
  define s3 where "s3 = s2\<lparr>ip_tail_index := 1, ip_enqueued := [v]\<rparr>"
  have lt: "circular_less_than 0 (0 + BLOCK_SIZE)" by (simp add: circular_less_than_def BLOCK_SIZE_def)
  note defs = s0_def empty_producer_def ImplicitProducer_new_def set_block_def
  have "ip_advance (Some 7) (Enq_Start v) s0 = Some (s1, Some (Enq_Write v))" using lt by (simp add: s1_def defs)
  moreover have "ip_advance None (Enq_Write v) s1 = Some (s2, Some (Enq_Publish v))" by (simp add: s2_def s1_def defs block_offset_def)
  moreover have "ip_advance None (Enq_Publish v) s2 = Some (s3, None)" by (simp add: s3_def s2_def s1_def defs)
  moreover have "ip_enqueued s3 = [v]" "ip_taken s3 = []" "dom (ip_owned s3) = {7}" by (simp_all add: s3_def s2_def s1_def defs)
  ultimately show ?thesis unfolding s0_def by blast
qed

lemma one_enqueued:
  fixes v :: 'v
  shows "\<exists>s. ip_reach 4 s {#} \<and> ip_enqueued s = [v] \<and> ip_taken s = []"
proof -
  obtain s1 s2 s3 where s: "ip_advance (Some 7) (Enq_Start v) empty_producer = Some (s1, Some (Enq_Write v))"
    "ip_advance None (Enq_Write v) s1 = Some (s2, Some (Enq_Publish v))" "ip_advance None (Enq_Publish v) s2 = Some (s3, None)"
    "ip_enqueued s3 = [v]" "ip_taken s3 = []" using one_enqueue_steps [of v] by blast
  have step: "ip_reach (Suc n) t' (opt_mset nxt)"
    if "ip_reach n t {#a#}" "ip_advance blk a t = Some (t', nxt)" "case blk of Some b \<Rightarrow> ip_owned t b = None | None \<Rightarrow> True" for n t t' a nxt blk
    using ip_reach.step [OF that(1), of t' "opt_mset nxt"] ip_step.advance [OF that(3,2), of "{#}"] by simp
  have start: "ip_reach 0 (empty_producer :: 'v iprod) {#}" unfolding empty_producer_def by (rule ip_reach.start)
  have "ip_step (empty_producer, {#}) (empty_producer, {#Enq_Start v#})" by (rule ip_step.enqueue) simp
  from ip_reach.step [OF start this] have "ip_reach 1 empty_producer {#Enq_Start v#}" by simp
  from step [OF this s(1)] have "ip_reach 2 s1 {#Enq_Write v#}" by (simp add: empty_producer_def ImplicitProducer_new_def numeral_2_eq_2)
  from step [OF this s(2)] have "ip_reach 3 s2 {#Enq_Publish v#}" by (simp add: eval_nat_numeral)
  from step [OF this s(3)] have "ip_reach 4 s3 {#}" by (simp add: eval_nat_numeral)
  then show ?thesis using s(4,5) by blast
qed

theorem implicit_producer_hands_out_each_once_witness:
  "\<exists>s :: nat iprod. ip_enqueued s = [42] \<and> mset (map fst (ip_taken s)) = mset [0..<unat (ip_head_index s)] \<and> unat (ip_head_index s) \<le> 1"
proof -
  obtain s :: "nat iprod" where s: "ip_reach 4 s {#}" "ip_enqueued s = [42]" using one_enqueued [of "42 :: nat"] by auto
  have "(4 :: nat) < 2 ^ 63" by simp
  note t = implicit_producer_hands_out_each_once [OF s(1) this]
  have "mset (map fst (ip_taken s)) = mset [0..<unat (ip_head_index s)]" "unat (ip_head_index s) \<le> 1"
    using t [THEN conjunct2, THEN conjunct2, THEN conjunct2] by (simp_all add: s(2))
  then show ?thesis using s(2) by blast
qed

theorem implicit_producer_dequeues_oldest_witness:
  "\<exists>(s :: nat iprod) s'. ip_enqueued s = [42] \<and> ip_taken s = [] \<and> ImplicitProducer_dequeue s = Some (s', True) \<and> ip_taken s' = [(0, 42)]"
proof -
  obtain s :: "nat iprod" where s: "ip_reach 4 s {#}" "ip_enqueued s = [42]" "ip_taken s = []" using one_enqueued [of "42 :: nat"] by auto
  have "(4 :: nat) < 2 ^ 62" by simp
  from implicit_producer_dequeues_oldest [OF s(1) this] obtain s' where s': "ImplicitProducer_dequeue s = Some (s', length (ip_taken s) < length (ip_enqueued s))"
    "ip_taken s' = ip_taken s @ (let h = length (ip_taken s) in if h < length (ip_enqueued s) then [(h, ip_enqueued s ! h)] else [])"
    by blast
  have "ip_taken s' = [(0, 42)]" unfolding s'(2) s(2,3) by simp
  moreover have "ImplicitProducer_dequeue s = Some (s', True)" using s'(1) s(2,3) by simp
  ultimately show ?thesis using s by blast
qed

end
