(* ===== verification/Concurrent_Queue.thy ===== *)
theory Concurrent_Queue
  imports Implicit_Producer
begin

text \<open>
  \<open>ConcurrentQueue\<close> of \<open>moody_camel_queue/concurrentqueue.h\<close> as the library uses it, without
  tokens: one sub-queue (\<open>Implicit_Producer\<close>) per enqueuing thread, linked to a list to which a
  new one is added in front, and a \<open>try_dequeue\<close> that asks up to three non-empty sub-queues for
  their size, tries the largest, and tries all others when that one turns out empty. Any number
  of calls are in progress, each atomic access is a step.

  The sub-queues are in the order in which they were added, so that the list that starts at
  \<open>producerListTail\<close> is \<open>producer_list\<close>; a pointer into it is the rest of the list. All
  sub-queues take their blocks from one pool: each has the same view of all blocks
  (\<open>ip_blocks\<close>), and requisitions only blocks that no sub-queue owns.
\<close>

section \<open>State and steps\<close>

definition producer_list :: "'v iprod list \<Rightarrow> nat list" where
  "producer_list ps = rev [0..<length ps]"

definition set_producer :: "nat \<Rightarrow> 'v iprod \<Rightarrow> 'v iprod list \<Rightarrow> 'v iprod list" where
  "set_producer p s ps = map (\<lambda>q. q\<lparr>ip_blocks := ip_blocks s\<rparr>) (ps[p := s])"

text \<open>
  Where a call is: in \<open>enqueue\<close> of its sub-queue; looking for the largest sub-queue, with the
  rest of the list, the number of non-empty ones, the best and its size (and, in
  \<open>Scan_Head\<close>, the tail read); in \<open>dequeue\<close> of the best; in the loop over the others.
\<close>

datatype 'v cq_act =
    Enqueue nat "'v ip_act"
  | Scan_Start
  | Scan "nat list" nat "nat option" u64
  | Scan_Head nat "nat list" nat "nat option" u64 u64
  | Best nat "'v ip_act"
  | Rest_Start nat
  | Rest "nat list" nat
  | Rest_Dequeue nat "'v ip_act" "nat list" nat

text \<open>
  The next step: the sub-queues after it, where the call is then (\<open>None\<close> when it has returned),
  and what it returned. No result when the code would read a null pointer.
\<close>

fun cq_advance :: "nat option \<Rightarrow> 'v cq_act \<Rightarrow> 'v iprod list \<Rightarrow> ('v iprod list \<times> 'v cq_act option \<times> bool) option" where
  "cq_advance blk (Enqueue p a) ps =
     (case ip_advance blk a (ps ! p) of
        None \<Rightarrow> None
      | Some (s, nxt) \<Rightarrow> Some (set_producer p s ps, map_option (Enqueue p) nxt, nxt = None \<and> ip_returns a))"
| "cq_advance blk Scan_Start ps = Some (ps, Some (Scan (producer_list ps) 0 None 0), False)"
| "cq_advance blk (Scan rest n best best_size) ps =
     (if n < 3 \<and> rest \<noteq> [] then
        Some (ps, Some (Scan_Head (hd rest) (tl rest) n best best_size (ip_tail_index (ps ! hd rest))), False)
      else if n > 0 then
        (case best of None \<Rightarrow> None | Some p \<Rightarrow> Some (ps, Some (Best p Deq_Tail), False))
      else Some (ps, None, False))"
| "cq_advance blk (Scan_Head p rest n best best_size tail) ps =
     (let size = size_between (ip_head_index (ps ! p)) tail in
      Some (ps, Some (if size > 0 then
          (if size > best_size then Scan rest (n + 1) (Some p) size else Scan rest (n + 1) best best_size)
        else Scan rest n best best_size), False))"
| "cq_advance blk (Best p a) ps =
     (case ip_advance None a (ps ! p) of
        None \<Rightarrow> None
      | Some (s, nxt) \<Rightarrow> Some (set_producer p s ps,
          (case nxt of Some a' \<Rightarrow> Some (Best p a') | None \<Rightarrow> if ip_returns a then None else Some (Rest_Start p)),
          nxt = None \<and> ip_returns a))"
| "cq_advance blk (Rest_Start best) ps = Some (ps, Some (Rest (producer_list ps) best), False)"
| "cq_advance blk (Rest rest best) ps =
     (case rest of
        [] \<Rightarrow> Some (ps, None, False)
      | p # rest' \<Rightarrow> Some (ps, Some (if p \<noteq> best then Rest_Dequeue p Deq_Tail rest' best else Rest rest' best), False))"
| "cq_advance blk (Rest_Dequeue p a rest best) ps =
     (case ip_advance None a (ps ! p) of
        None \<Rightarrow> None
      | Some (s, nxt) \<Rightarrow> Some (set_producer p s ps,
          (case nxt of Some a' \<Rightarrow> Some (Rest_Dequeue p a' rest best) | None \<Rightarrow> if ip_returns a then None else Some (Rest rest best)),
          nxt = None \<and> ip_returns a))"

text \<open>The call of the sub-queue \<open>p\<close> that a call of the queue is in.\<close>

fun in_producer :: "nat \<Rightarrow> 'v cq_act \<Rightarrow> 'v ip_act multiset" where
  "in_producer q (Enqueue p a) = (if q = p then {#a#} else {#})"
| "in_producer q (Best p a) = (if q = p then {#a#} else {#})"
| "in_producer q (Rest_Dequeue p a rest best) = (if q = p then {#a#} else {#})"
| "in_producer q _ = {#}"

text \<open>A pop that runs alone, with the number of steps it may take.\<close>

fun cq_run :: "nat \<Rightarrow> 'v cq_act \<Rightarrow> 'v iprod list \<Rightarrow> ('v iprod list \<times> bool) option" where
  "cq_run 0 a ps = None"
| "cq_run (Suc fuel) a ps =
     (case cq_advance None a ps of
        None \<Rightarrow> None
      | Some (ps', None, r) \<Rightarrow> Some (ps', r)
      | Some (ps', Some a', r) \<Rightarrow> cq_run fuel a' ps')"

definition ConcurrentQueue_try_dequeue :: "'v iprod list \<Rightarrow> ('v iprod list \<times> bool) option" where
  "ConcurrentQueue_try_dequeue ps = cq_run (2 * length ps + 13) Scan_Start ps"

inductive cq_step :: "'v iprod list \<times> 'v cq_act multiset \<Rightarrow> 'v iprod list \<times> 'v cq_act multiset \<Rightarrow> bool" where
  enqueue: "p < length ps \<Longrightarrow> \<not> (\<exists>a \<in># \<Sum>a \<in># A. in_producer p a. is_enqueue a) \<Longrightarrow>
    cq_step (ps, A) (ps, add_mset (Enqueue p (Enq_Start v)) A)"
| dequeue: "cq_step (ps, A) (ps, add_mset Scan_Start A)"
| add_producer: "(\<And>s. s \<in> set ps \<Longrightarrow> ip_blocks s = blocks) \<Longrightarrow> cq_step (ps, A) (ps @ [ImplicitProducer_new blocks], A)"
| advance: "(\<And>b s. blk = Some b \<Longrightarrow> s \<in> set ps \<Longrightarrow> ip_owned s b = None) \<Longrightarrow> cq_advance blk a ps = Some (ps', nxt, r) \<Longrightarrow>
    cq_step (ps, add_mset a A) (ps', opt_mset nxt + A)"

section \<open>The invariant\<close>

fun cq_act_ok :: "nat \<Rightarrow> 'v cq_act \<Rightarrow> bool" where
  "cq_act_ok k (Enqueue p a) \<longleftrightarrow> p < k \<and> is_enqueue a"
| "cq_act_ok k Scan_Start \<longleftrightarrow> True"
| "cq_act_ok k (Scan rest n best best_size) \<longleftrightarrow>
     set rest \<subseteq> {..<k} \<and> (case best of None \<Rightarrow> n = 0 \<and> best_size = 0 | Some p \<Rightarrow> p < k)"
| "cq_act_ok k (Scan_Head p rest n best best_size tail) \<longleftrightarrow>
     p < k \<and> set rest \<subseteq> {..<k} \<and> (case best of None \<Rightarrow> n = 0 \<and> best_size = 0 | Some p \<Rightarrow> p < k)"
| "cq_act_ok k (Best p a) \<longleftrightarrow> p < k \<and> \<not> is_enqueue a"
| "cq_act_ok k (Rest_Start p) \<longleftrightarrow> p < k"
| "cq_act_ok k (Rest rest p) \<longleftrightarrow> set rest \<subseteq> {..<k} \<and> p < k"
| "cq_act_ok k (Rest_Dequeue p a rest best) \<longleftrightarrow> p < k \<and> set rest \<subseteq> {..<k} \<and> best < k \<and> \<not> is_enqueue a"

definition sub_acts :: "'v cq_act multiset \<Rightarrow> nat \<Rightarrow> 'v ip_act multiset" where
  "sub_acts A p = (\<Sum>a \<in># A. in_producer p a)"

lemma sub_acts_simps [simp]: "sub_acts {#} p = {#}" "sub_acts (add_mset a A) p = in_producer p a + sub_acts A p"
  "sub_acts (A + B) p = sub_acts A p + sub_acts B p"
  by (simp_all add: sub_acts_def)

definition same_blocks :: "'v iprod list \<Rightarrow> bool" where
  "same_blocks ps \<longleftrightarrow> (\<forall>s \<in> set ps. \<forall>t \<in> set ps. ip_blocks s = ip_blocks t)"

definition cq_inv :: "nat \<Rightarrow> 'v iprod list \<Rightarrow> 'v cq_act multiset \<Rightarrow> bool" where
  "cq_inv n ps A \<longleftrightarrow>
     (\<forall>p < length ps. ip_inv (ps ! p) (sub_acts A p) \<and> unat (ip_optimistic_count (ps ! p)) \<le> n \<and> unat (ip_tail_index (ps ! p)) \<le> n)
     \<and> same_blocks ps
     \<and> (\<forall>p < length ps. \<forall>q < length ps. \<forall>b. p \<noteq> q \<longrightarrow> ip_owned (ps ! p) b \<noteq> None \<longrightarrow> ip_owned (ps ! q) b = None)
     \<and> (\<forall>a \<in># A. cq_act_ok (length ps) a)"

lemma cq_invD:
  assumes "cq_inv n ps A"
  shows "p < length ps \<Longrightarrow> ip_inv (ps ! p) (sub_acts A p)"
    and "p < length ps \<Longrightarrow> unat (ip_optimistic_count (ps ! p)) \<le> n" and "p < length ps \<Longrightarrow> unat (ip_tail_index (ps ! p)) \<le> n"
    and "p < length ps \<Longrightarrow> q < length ps \<Longrightarrow> ip_blocks (ps ! p) = ip_blocks (ps ! q)"
    and "p < length ps \<Longrightarrow> q < length ps \<Longrightarrow> p \<noteq> q \<Longrightarrow> ip_owned (ps ! p) b \<noteq> None \<Longrightarrow> ip_owned (ps ! q) b = None"
    and "a \<in># A \<Longrightarrow> cq_act_ok (length ps) a"
  using assms unfolding cq_inv_def same_blocks_def by simp_all

lemma length_set_producer [simp]: "length (set_producer p s ps) = length ps"
  by (simp add: set_producer_def)

lemma nth_set_producer:
  "q < length ps \<Longrightarrow> set_producer p s ps ! q = (if q = p then s else (ps ! q)\<lparr>ip_blocks := ip_blocks s\<rparr>)"
  by (auto simp: set_producer_def nth_list_update)

lemma same_blocks_set_producer: "same_blocks (set_producer p s ps)"
  by (auto simp: same_blocks_def set_producer_def)

text \<open>One step of a sub-queue leaves all sub-queues in order.\<close>

lemma cq_inv_producer:
  fixes ps :: "'v iprod list"
  assumes inv: "cq_inv n ps (add_mset a A)" and n: "n < 2 ^ 62" and p: "p < length ps"
    and ip: "in_producer p a = {#x#}" "\<And>q. q \<noteq> p \<Longrightarrow> in_producer q a = {#}"
    and fresh: "\<And>b s. blk = Some b \<Longrightarrow> s \<in> set ps \<Longrightarrow> ip_owned s b = None"
    and nxt: "\<And>s y. ip_advance blk x (ps ! p) = Some (s, y) \<Longrightarrow> (\<forall>q. sub_acts (opt_mset (nxt y)) q = (if q = p then opt_mset y else {#}))
      \<and> (\<forall>b \<in># opt_mset (nxt y). cq_act_ok (length ps) b)"
  shows "\<exists>s y. ip_advance blk x (ps ! p) = Some (s, y) \<and> cq_inv (Suc n) (set_producer p s ps) (opt_mset (nxt y) + A)"
proof -
  note i = cq_invD [OF inv]
  have inv_p: "ip_inv (ps ! p) (add_mset x (sub_acts A p))" using i(1) [OF p] ip(1) by simp
  have "case blk of Some b \<Rightarrow> ip_owned (ps ! p) b = None | None \<Rightarrow> True"
    using fresh p by (auto split: option.splits)
  then obtain s y where s: "ip_advance blk x (ps ! p) = Some (s, y)" "ip_inv s (opt_mset y + sub_acts A p)"
    using ip_advance_enqueue [OF inv_p, of blk] ip_advance_dequeue [OF inv_p, of blk] i(2,3) [OF p] n by fastforce
  note counts = ip_advance_counts [OF s(1) i(2,3) [OF p]]
  note owned = ip_advance_block(2) [OF inv_p s(1)]
  obtain b where b: "ip_blocks s = (ip_blocks (ps ! p))(b := ip_blocks s b)"
    "ip_blocks s = ip_blocks (ps ! p) \<or> ip_owned (ps ! p) b \<noteq> None \<or> blk = Some b"
    using ip_advance_block(1) [OF inv_p s(1)] by blast
  let ?ps = "set_producer p s ps"
  have other: "ip_inv ((ps ! q)\<lparr>ip_blocks := ip_blocks s\<rparr>) (sub_acts A q)" if q: "q < length ps" "q \<noteq> p" for q
  proof -
    have inv_q: "ip_inv (ps ! q) (sub_acts A q)" using i(1) [OF q(1)] ip(2) [OF q(2)] by simp
    have same: "ip_blocks (ps ! q) = ip_blocks (ps ! p)" using i(4) [OF q(1) p] .
    show ?thesis
    proof (cases "ip_blocks s = ip_blocks (ps ! p)")
      case True
      have "(ps ! q)\<lparr>ip_blocks := ip_blocks (ps ! q)\<rparr> = ps ! q" by simp
      then show ?thesis using inv_q same True by metis
    next
      case False
      then have "ip_owned (ps ! q) b = None" using b(2) i(5) [OF p q(1)] q fresh by auto
      then show ?thesis using ip_inv_other [OF inv_q, of b "ip_blocks s b"] same b(1) by simp
    qed
  qed
  have n': "n < 2 ^ 63" using n by simp
  have sub: "sub_acts (opt_mset (nxt y) + A) q = (if q = p then opt_mset y else {#}) + sub_acts A q" for q
    using nxt [OF s(1)] by simp
  have "cq_inv (Suc n) ?ps (opt_mset (nxt y) + A)"
    unfolding cq_inv_def length_set_producer
  proof (intro conjI allI impI)
    fix q assume q: "q < length ps"
    show "ip_inv (?ps ! q) (sub_acts (opt_mset (nxt y) + A) q)"
      unfolding sub using s(2) other q by (simp add: nth_set_producer)
    show "unat (ip_optimistic_count (?ps ! q)) \<le> Suc n" "unat (ip_tail_index (?ps ! q)) \<le> Suc n"
      using counts n' i(2,3) [OF q] q by (auto simp: nth_set_producer)
  next
    show "same_blocks ?ps" by (rule same_blocks_set_producer)
  next
    fix q r c assume "q < length ps" "r < length ps" "q \<noteq> r" "ip_owned (?ps ! q) c \<noteq> None"
    then show "ip_owned (?ps ! r) c = None"
      using owned [of c] i(5) [of q r c] fresh by (cases "ip_owned (?ps ! r) c") (auto simp: nth_set_producer split: if_splits)
  next
    show "\<forall>b \<in># opt_mset (nxt y) + A. cq_act_ok (length ps) b" using nxt [OF s(1)] i(6) by auto
  qed
  then show ?thesis using s(1) by blast
qed

text \<open>A step that reads, or that moves on with no call of a sub-queue before or after.\<close>

lemma cq_inv_mono: "cq_inv m ps A \<Longrightarrow> m \<le> n \<Longrightarrow> cq_inv n ps A"
  unfolding cq_inv_def by (meson le_trans)

lemma cq_inv_frame:
  assumes "cq_inv n ps (add_mset a A)" "\<And>q. in_producer q a = {#}" "\<And>b. nxt = Some b \<Longrightarrow> cq_act_ok (length ps) b"
    "\<And>p q b. nxt = Some b \<Longrightarrow> in_producer q b = {#} \<or> in_producer q b = {#Deq_Tail#}"
  shows "cq_inv (Suc n) ps (opt_mset nxt + A)"
proof -
  note i = cq_invD [OF assms(1)]
  have "ip_inv (ps ! q) (sub_acts (opt_mset nxt + A) q)" if q: "q < length ps" for q
  proof (cases nxt)
    case None
    then show ?thesis using i(1) [OF q] assms(2) by simp
  next
    case (Some b)
    then show ?thesis using i(1) [OF q] ip_inv_begin [of "ps ! q" "sub_acts A q" Deq_Tail] assms(2) assms(4) [OF Some, of q] by auto
  qed
  moreover have "\<forall>b \<in># opt_mset nxt + A. cq_act_ok (length ps) b" using i(6) assms(3) by (cases nxt) auto
  ultimately show ?thesis using assms(1) unfolding cq_inv_def by (auto intro: le_SucI)
qed

lemma set_producer_list: "set (producer_list ps) = {..<length ps}"
  by (auto simp: producer_list_def)

lemma ip_advance_keeps_dequeue: "ip_advance blk x s = Some (s', Some y) \<Longrightarrow> is_enqueue y = is_enqueue x"
  by (cases x) (auto simp: Let_def split: if_splits option.splits)

lemma cq_inv_dequeue:
  assumes inv: "cq_inv n ps (add_mset a A)" "n < 2 ^ 62" and p: "p < length ps" "\<not> is_enqueue x"
    and a: "\<And>q. in_producer q a = (if q = p then {#x#} else {#})"
    and C: "\<And>y q. in_producer q (C y) = (if q = p then {#y#} else {#})" "\<And>y. \<not> is_enqueue y \<Longrightarrow> cq_act_ok (length ps) (C y)"
    and D: "\<And>q. in_producer q D = {#}" "cq_act_ok (length ps) D"
  shows "\<exists>s y. ip_advance None x (ps ! p) = Some (s, y)
    \<and> cq_inv (Suc n) (set_producer p s ps) (opt_mset (case y of Some a' \<Rightarrow> Some (C a') | None \<Rightarrow> if r then None else Some D) + A)"
proof -
  have "(\<forall>q. sub_acts (opt_mset (case y of Some a' \<Rightarrow> Some (C a') | None \<Rightarrow> if r then None else Some D)) q = (if q = p then opt_mset y else {#}))
      \<and> (\<forall>b \<in># opt_mset (case y of Some a' \<Rightarrow> Some (C a') | None \<Rightarrow> if r then None else Some D). cq_act_ok (length ps) b)"
    if "ip_advance None x (ps ! p) = Some (s, y)" for s y
    using that C D p by (cases y) (auto dest: ip_advance_keeps_dequeue)
  then show ?thesis using cq_inv_producer [OF inv p(1), of x None] a by auto
qed

lemma cq_inv_advance:
  fixes ps :: "'v iprod list"
  assumes inv: "cq_inv n ps (add_mset a A)" and n: "n < 2 ^ 62"
    and fresh: "\<And>b s. blk = Some b \<Longrightarrow> s \<in> set ps \<Longrightarrow> ip_owned s b = None"
  shows "\<exists>ps' nxt r. cq_advance blk a ps = Some (ps', nxt, r) \<and> cq_inv (Suc n) ps' (opt_mset nxt + A)"
proof -
  note frame = cq_inv_frame [OF inv]
  have ok: "cq_act_ok (length ps) a" using cq_invD(6) [OF inv] by simp
  show ?thesis
  proof (cases a)
    case (Enqueue p x)
    have "(\<forall>q. sub_acts (opt_mset (map_option (Enqueue p) y)) q = (if q = p then opt_mset y else {#}))
      \<and> (\<forall>b \<in># opt_mset (map_option (Enqueue p) y). cq_act_ok (length ps) b)"
      if "ip_advance blk x (ps ! p) = Some (s, y)" for s y
      using that ok Enqueue by (cases y) (auto dest: ip_advance_keeps_dequeue)
    then obtain s y where "ip_advance blk x (ps ! p) = Some (s, y)"
      "cq_inv (Suc n) (set_producer p s ps) (opt_mset (map_option (Enqueue p) y) + A)"
      using cq_inv_producer [OF inv n, of p x blk "map_option (Enqueue p)"] ok Enqueue fresh by auto
    then show ?thesis using Enqueue by simp
  next
    case (Best p x)
    then obtain s y where "ip_advance None x (ps ! p) = Some (s, y)" "cq_inv (Suc n) (set_producer p s ps)
        (opt_mset (case y of Some a' \<Rightarrow> Some (Best p a') | None \<Rightarrow> if ip_returns x then None else Some (Rest_Start p)) + A)"
      using cq_inv_dequeue [OF inv n, of p x "Best p" "Rest_Start p" "ip_returns x"] ok by auto
    then show ?thesis using Best by simp
  next
    case (Rest_Dequeue p x rest best)
    then obtain s y where "ip_advance None x (ps ! p) = Some (s, y)" "cq_inv (Suc n) (set_producer p s ps)
        (opt_mset (case y of Some a' \<Rightarrow> Some (Rest_Dequeue p a' rest best) | None \<Rightarrow> if ip_returns x then None else Some (Rest rest best)) + A)"
      using cq_inv_dequeue [OF inv n, of p x "\<lambda>a'. Rest_Dequeue p a' rest best" "Rest rest best" "ip_returns x"] ok by auto
    then show ?thesis using Rest_Dequeue by simp
  next
    case Scan_Start
    then show ?thesis using frame [of "Some (Scan (producer_list ps) 0 None 0)"] by (auto simp: set_producer_list)
  next
    case (Scan rest k best best_size)
    show ?thesis
    proof (cases "k < 3 \<and> rest \<noteq> []")
      case True
      let ?nxt = "Some (Scan_Head (hd rest) (tl rest) k best best_size (ip_tail_index (ps ! hd rest)))"
      have "hd rest < length ps \<and> set (tl rest) \<subseteq> {..<length ps}" using ok Scan True by (cases rest) auto
      then show ?thesis using frame [of ?nxt] ok Scan True by auto
    next
      case False
      then show ?thesis using frame [of None] frame [of "Some (Best (the best) Deq_Tail)"] ok Scan by (auto split: option.splits)
    qed
  next
    case (Scan_Head p rest k best best_size tail)
    let ?size = "size_between (ip_head_index (ps ! p)) tail"
    let ?nxt = "Some (if ?size > 0 then
          (if ?size > best_size then Scan rest (k + 1) (Some p) ?size else Scan rest (k + 1) best best_size)
        else Scan rest k best best_size)"
    have "cq_inv (Suc n) ps (opt_mset ?nxt + A)"
      by (rule frame) (use ok Scan_Head in \<open>auto split: if_splits option.splits\<close>)
    then show ?thesis using Scan_Head by (auto simp: Let_def)
  next
    case (Rest_Start best)
    then show ?thesis using frame [of "Some (Rest (producer_list ps) best)"] ok by (auto simp: set_producer_list)
  next
    case (Rest rest best)
    then show ?thesis using frame [of None] frame [of "Some (Rest_Dequeue (hd rest) Deq_Tail (tl rest) best)"]
        frame [of "Some (Rest (tl rest) best)"] ok by (cases rest) auto
  qed
qed

lemma cq_inv_step:
  assumes step: "cq_step (ps, A) (ps', A')" and inv: "cq_inv n ps A" and n: "n < 2 ^ 62"
  shows "cq_inv (Suc n) ps' A'"
  using step
proof (cases rule: cq_step.cases)
  case (enqueue p v)
  have "ip_inv (ps ! q) (sub_acts A' q)" if "q < length ps" for q
    using cq_invD(1) [OF inv that] ip_inv_begin [of "ps ! p" "sub_acts A p" "Enq_Start v" v] enqueue by (auto simp: sub_acts_def)
  then show ?thesis using inv enqueue unfolding cq_inv_def by (auto intro: le_SucI)
next
  case dequeue
  then show ?thesis using inv unfolding cq_inv_def by (auto intro: le_SucI)
next
  case (add_producer blocks)
  note i = cq_invD [OF inv]
  have out: "in_producer (length ps) a = {#}" if "a \<in># A" for a
    using i(6) [OF that] by (cases a) auto
  then have "sub_acts A (length ps) = {#}" unfolding sub_acts_def by (induction A) auto
  then have new: "ip_inv ((ps @ [ImplicitProducer_new blocks]) ! q) (sub_acts A q)" if "q < Suc (length ps)" for q
    using i(1) [of q] ip_inv_new [of blocks] that by (auto simp: nth_append less_Suc_eq)
  have ok: "cq_act_ok (Suc (length ps)) a" if "a \<in># A" for a
    using i(6) [OF that] by (cases a) (auto split: option.splits)
  have "cq_inv (Suc n) (ps @ [ImplicitProducer_new blocks]) A"
    unfolding cq_inv_def length_append_singleton
  proof (intro conjI allI impI ballI)
    show "same_blocks (ps @ [ImplicitProducer_new blocks])"
      using add_producer by (auto simp: same_blocks_def ImplicitProducer_new_def)
    fix q assume q: "q < Suc (length ps)"
    show "unat (ip_optimistic_count ((ps @ [ImplicitProducer_new blocks]) ! q)) \<le> Suc n"
      "unat (ip_tail_index ((ps @ [ImplicitProducer_new blocks]) ! q)) \<le> Suc n"
      using i(2,3) [of q] q by (auto simp: nth_append ImplicitProducer_new_def)
  next
    fix q r b assume "q < Suc (length ps)" "r < Suc (length ps)" "q \<noteq> r"
      "ip_owned ((ps @ [ImplicitProducer_new blocks]) ! q) b \<noteq> None"
    then show "ip_owned ((ps @ [ImplicitProducer_new blocks]) ! r) b = None"
      using i(5) [of q r b] by (auto simp: nth_append ImplicitProducer_new_def split: if_splits)
  qed (use new ok in auto)
  then show ?thesis using add_producer by simp
next
  case (advance blk a nxt r B)
  then show ?thesis using cq_inv_advance [of n ps a B blk] inv n by fastforce
qed

section \<open>A dequeue that runs alone\<close>

lemma cq_run_mono: "cq_run k a ps = Some r \<Longrightarrow> k \<le> l \<Longrightarrow> cq_run l a ps = Some r"
proof (induction k arbitrary: a ps l)
  case (Suc k)
  then obtain m where "l = Suc m" "k \<le> m" by (cases l) auto
  then show ?case using Suc by (auto split: option.splits prod.splits)
qed simp

definition left_in :: "'v iprod \<Rightarrow> nat" where
  "left_in s = length (ip_enqueued s) - length (ip_taken s)"

text \<open>The best sub-queue gives a value; the others keep theirs.\<close>

lemma best_alone:
  assumes "ip_run k a (ps ! p) = Some (s', True)" "p < length ps"
  shows "\<exists>ps'. cq_run k (Best p a) ps = Some (ps', True) \<and> length ps' = length ps \<and> ps' ! p = s'
    \<and> (\<forall>q < length ps. q \<noteq> p \<longrightarrow> ip_taken (ps' ! q) = ip_taken (ps ! q) \<and> ip_enqueued (ps' ! q) = ip_enqueued (ps ! q))"
  using assms
proof (induction k arbitrary: a ps)
  case (Suc k)
  obtain t nxt where t: "ip_advance None a (ps ! p) = Some (t, nxt)" using Suc.prems(1) by (auto split: option.splits)
  show ?case
  proof (cases nxt)
    case None
    then show ?thesis using t Suc.prems by (auto simp: nth_set_producer)
  next
    case (Some a')
    have "ip_run k a' (set_producer p t ps ! p) = Some (s', True)" using Suc.prems t Some by (simp add: nth_set_producer)
    from Suc.IH [OF this] Suc.prems(2) obtain ps' where "cq_run k (Best p a') (set_producer p t ps) = Some (ps', True)" "length ps' = length ps" "ps' ! p = s'"
      "\<forall>q < length ps. q \<noteq> p \<longrightarrow> ip_taken (ps' ! q) = ip_taken (set_producer p t ps ! q) \<and> ip_enqueued (ps' ! q) = ip_enqueued (set_producer p t ps ! q)"
      by auto
    then show ?thesis using t Some by (simp add: nth_set_producer)
  qed
qed simp

text \<open>The scan ends at a sub-queue that is not empty, if there is one.\<close>

lemma scan_alone:
  assumes "set rest \<subseteq> {..<length ps}"
    "case best of None \<Rightarrow> n = 0 \<and> best_size = 0 | Some p \<Rightarrow> n > 0 \<and> p < length ps \<and> size_approx (ps ! p) > 0"
  shows "(n = 0 \<and> (\<forall>p \<in> set rest. size_approx (ps ! p) = 0) \<and> cq_run (2 * length rest + 1 + k) (Scan rest n best best_size) ps = Some (ps, False))
    \<or> (\<exists>p < length ps. size_approx (ps ! p) > 0
        \<and> (\<forall>r. cq_run k (Best p Deq_Tail) ps = Some r \<longrightarrow> cq_run (2 * length rest + 1 + k) (Scan rest n best best_size) ps = Some r))"
  using assms
proof (induction rest arbitrary: n best best_size)
  case Nil
  then show ?case by (cases best) auto
next
  case (Cons p rest)
  let ?size = "size_approx (ps ! p)"
  show ?case
  proof (cases "n < 3")
    case False
    then obtain q where q: "best = Some q" "q < length ps" "size_approx (ps ! q) > 0" using Cons.prems(2) by (auto split: option.splits)
    have "cq_run (2 * length (p # rest) + 1 + k) (Scan (p # rest) n best best_size) ps = Some r"
      if "cq_run k (Best q Deq_Tail) ps = Some r" for r
      using cq_run_mono [OF that, of "2 * length (p # rest) + k"] False q(1) by (simp del: cq_run.simps add: cq_run.simps(2))
    then show ?thesis using q by blast
  next
    case True
    define m b z where "m = (if ?size > 0 then n + 1 else n)" and "b = (if ?size > best_size then Some p else best)"
      and "z = (if ?size > best_size then ?size else best_size)"
    have step: "cq_run (2 * length (p # rest) + 1 + k) (Scan (p # rest) n best best_size) ps
        = cq_run (2 * length rest + 1 + k) (Scan rest m b z) ps"
      using True by (auto simp: Let_def size_approx_def [symmetric] m_def b_def z_def word_gt_0)
    have pre: "case b of None \<Rightarrow> m = 0 \<and> z = 0 | Some q \<Rightarrow> m > 0 \<and> q < length ps \<and> size_approx (ps ! q) > 0"
      using Cons.prems by (auto simp: m_def b_def z_def word_gt_0 split: option.splits)
    have zero: "m = 0 \<Longrightarrow> n = 0 \<and> ?size = 0" by (auto simp: m_def word_gt_0 split: if_splits)
    show ?thesis unfolding step using Cons.IH [OF _ pre] Cons.prems(1) zero by auto
  qed
qed

lemma try_dequeue_alone:
  fixes ps :: "'v iprod list"
  assumes inv: "cq_inv n ps {#}" and n: "n < 2 ^ 62"
  shows "(\<forall>p < length ps. left_in (ps ! p) = 0) \<and> ConcurrentQueue_try_dequeue ps = Some (ps, False)
    \<or> (\<exists>p < length ps. \<exists>ps'. ConcurrentQueue_try_dequeue ps = Some (ps', True) \<and> length ps' = length ps
        \<and> length (ip_taken (ps ! p)) < length (ip_enqueued (ps ! p))
        \<and> ip_taken (ps' ! p) = ip_taken (ps ! p) @ [(length (ip_taken (ps ! p)), ip_enqueued (ps ! p) ! length (ip_taken (ps ! p)))]
        \<and> (\<forall>q < length ps. q \<noteq> p \<longrightarrow> ip_taken (ps' ! q) = ip_taken (ps ! q)))"
proof -
  note i = cq_invD [OF inv]
  have alone: "\<exists>s'. ImplicitProducer_dequeue (ps ! p) = Some (s', length (ip_taken (ps ! p)) < length (ip_enqueued (ps ! p)))
    \<and> ip_taken s' = ip_taken (ps ! p) @ (let h = length (ip_taken (ps ! p)) in
        if h < length (ip_enqueued (ps ! p)) then [(h, ip_enqueued (ps ! p) ! h)] else [])"
    "unat (size_approx (ps ! p)) = left_in (ps ! p)" if "p < length ps" for p
    using dequeue_alone [of "ps ! p"] i(1-3) [OF that] n by (auto simp: left_in_def)
  have run: "ConcurrentQueue_try_dequeue ps = cq_run (2 * length (producer_list ps) + 1 + 11) (Scan (producer_list ps) 0 None 0) ps"
  proof -
    have "cq_run (Suc k) Scan_Start ps = cq_run k (Scan (producer_list ps) 0 None 0) ps" for k by simp
    moreover have "2 * length ps + 13 = Suc (2 * length (producer_list ps) + 1 + 11)" by (simp add: producer_list_def)
    ultimately show ?thesis by (simp only: ConcurrentQueue_try_dequeue_def)
  qed
  from scan_alone [where rest = "producer_list ps" and ps = ps and best = None and n = 0 and best_size = 0 and k = 11] consider
    (empty) "\<forall>p < length ps. size_approx (ps ! p) = 0" "ConcurrentQueue_try_dequeue ps = Some (ps, False)"
    | (best) p where "p < length ps" "size_approx (ps ! p) > 0" "\<And>r. cq_run 11 (Best p Deq_Tail) ps = Some r \<Longrightarrow> ConcurrentQueue_try_dequeue ps = Some r"
    unfolding run set_producer_list by auto
  then show ?thesis
  proof cases
    case empty
    then show ?thesis using alone(2) by fastforce
  next
    case (best p)
    have "left_in (ps ! p) > 0" using best(2) alone(2) [OF best(1)] by (metis unat_gt_0 word_gt_0)
    then have lt: "length (ip_taken (ps ! p)) < length (ip_enqueued (ps ! p))" by (simp add: left_in_def)
    obtain s' where s': "ip_run 11 Deq_Tail (ps ! p) = Some (s', True)"
      "ip_taken s' = ip_taken (ps ! p) @ [(length (ip_taken (ps ! p)), ip_enqueued (ps ! p) ! length (ip_taken (ps ! p)))]"
      using alone(1) [OF best(1)] lt by (auto simp: ImplicitProducer_dequeue_def Let_def)
    from best_alone [OF s'(1) best(1)] best(3) s'(2) lt best(1) show ?thesis by fastforce
  qed
qed

end
