(* ===== verification/Blocking_Queue.thy ===== *)
theory Blocking_Queue
  imports Concurrent_Queue Light_Semaphore Containers
begin

text \<open>
  \<open>BlockingConcurrentQueue\<close> of \<open>moody_camel_queue/blockingconcurrentqueue.h\<close>, which
  \<open>UnboundedBlockingQueue\<close> (\<open>container.h\<close>) forwards to: a \<open>ConcurrentQueue\<close> and a
  \<open>LightweightSemaphore\<close> with a unit for each value. A push enqueues and signals; a pop waits
  for a unit and then repeats \<open>try_dequeue\<close> until it has a value.

  All calls are cut at their atomic accesses, of the sub-queues (\<open>Implicit_Producer\<close>), of the
  list of sub-queues (\<open>Concurrent_Queue\<close>) and of the semaphore (\<open>Light_Semaphore\<close>), and
  interleaved without restriction. The bag that \<open>Containers\<close> gives for this queue, and on which
  the pools rest, is shown to be what this does.
\<close>

section \<open>State and steps\<close>

record 'v bqueue =
  bq_inner :: "'v iprod list"
  bq_sema :: lsem

definition BlockingConcurrentQueue_new :: "'v bqueue" where
  "BlockingConcurrentQueue_new = \<lparr>bq_inner = [], bq_sema = lsem_new 0\<rparr>"

datatype 'v bq_act =
    Push_Inner "'v cq_act" | Push_Signal ls_act
  | Pop_Wait ls_act | Pop_Inner "'v cq_act"

text \<open>
  One atomic access: the queue after it and where the call is then. \<open>blk\<close> is the block an
  enqueue finds. A push whose inner enqueue fails returns without a signal.
\<close>

inductive bq_advance :: "nat \<Rightarrow> nat option \<Rightarrow> 'v bq_act \<Rightarrow> 'v bqueue \<Rightarrow> 'v bqueue \<Rightarrow> 'v bq_act option \<Rightarrow> bool" for spins blk where
  push_inner: "cq_advance blk a (bq_inner q) = Some (ps, nxt, r) \<Longrightarrow>
    bq_advance spins blk (Push_Inner a) q (q\<lparr>bq_inner := ps\<rparr>)
      (case nxt of Some a' \<Rightarrow> Some (Push_Inner a') | None \<Rightarrow> if r then Some (Push_Signal (Signal 1)) else None)"
| push_signal: "ls_advance spins (bq_sema q) a s nxt r \<Longrightarrow>
    bq_advance spins blk (Push_Signal a) q (q\<lparr>bq_sema := s\<rparr>) (map_option Push_Signal nxt)"
| pop_wait: "ls_advance spins (bq_sema q) a s nxt r \<Longrightarrow>
    bq_advance spins blk (Pop_Wait a) q (q\<lparr>bq_sema := s\<rparr>)
      (case nxt of Some a' \<Rightarrow> Some (Pop_Wait a') | None \<Rightarrow> if r > 0 then Some (Pop_Inner Scan_Start) else None)"
| pop_inner: "cq_advance None a (bq_inner q) = Some (ps, nxt, r) \<Longrightarrow>
    bq_advance spins blk (Pop_Inner a) q (q\<lparr>bq_inner := ps\<rparr>)
      (case nxt of Some a' \<Rightarrow> Some (Pop_Inner a') | None \<Rightarrow> if r then None else Some (Pop_Inner Scan_Start))"

text \<open>\<open>Pop\<close> passes its timeout on in microseconds; the cast to a signed count is the code's.\<close>

definition pop_timeout_usecs :: "u64 \<Rightarrow> int" where
  "pop_timeout_usecs timeout_ms = sint timeout_ms * 1000"

fun inner_acts :: "'v bq_act \<Rightarrow> 'v cq_act multiset" where
  "inner_acts (Push_Inner a) = {#a#}"
| "inner_acts (Pop_Inner a) = {#a#}"
| "inner_acts _ = {#}"

fun sema_acts :: "'v bq_act \<Rightarrow> ls_act multiset" where
  "sema_acts (Push_Signal a) = {#a#}"
| "sema_acts (Pop_Wait a) = {#a#}"
| "sema_acts _ = {#}"

definition all_inner :: "'v bq_act multiset \<Rightarrow> 'v cq_act multiset" where
  "all_inner A = (\<Sum>a \<in># A. inner_acts a)"

definition all_sema :: "'v bq_act multiset \<Rightarrow> ls_act multiset" where
  "all_sema A = (\<Sum>a \<in># A. sema_acts a)"

lemma all_acts_simps [simp]: "all_inner {#} = {#}" "all_inner (add_mset a A) = inner_acts a + all_inner A" "all_inner (A + B) = all_inner A + all_inner B"
  "all_sema {#} = {#}" "all_sema (add_mset a A) = sema_acts a + all_sema A" "all_sema (A + B) = all_sema A + all_sema B"
  by (simp_all add: all_inner_def all_sema_def)

text \<open>
  A call begins: \<open>Push\<close> in the sub-queue of its thread, in which no other thread enqueues,
  \<open>TryPop\<close>, or \<open>Pop\<close>; or a thread adds its sub-queue before its first push. Fewer than two to
  the 31 calls are in progress.
\<close>

inductive bq_step :: "nat \<Rightarrow> 'v bqueue \<times> 'v bq_act multiset \<Rightarrow> 'v bqueue \<times> 'v bq_act multiset \<Rightarrow> bool" for spins where
  push: "size A < 2 ^ 31 - 1 \<Longrightarrow> p < length (bq_inner q) \<Longrightarrow> \<not> (\<exists>a \<in># sub_acts (all_inner A) p. is_enqueue a) \<Longrightarrow>
    bq_step spins (q, A) (q, add_mset (Push_Inner (Enqueue p (Enq_Start v))) A)"
| add_producer: "(\<And>s. s \<in> set (bq_inner q) \<Longrightarrow> ip_blocks s = blocks) \<Longrightarrow>
    bq_step spins (q, A) (q\<lparr>bq_inner := bq_inner q @ [ImplicitProducer_new blocks]\<rparr>, A)"
| try_pop: "size A < 2 ^ 31 - 1 \<Longrightarrow> bq_step spins (q, A) (q, add_mset (Pop_Wait (Try_Load Try_Wait)) A)"
| pop: "size A < 2 ^ 31 - 1 \<Longrightarrow>
    bq_step spins (q, A) (q, add_mset (Pop_Wait (Try_Load (Wait (pop_timeout_usecs timeout_ms)))) A)"
| advance: "(\<And>b s. blk = Some b \<Longrightarrow> s \<in> set (bq_inner q) \<Longrightarrow> ip_owned s b = None) \<Longrightarrow> bq_advance spins blk a q q' nxt \<Longrightarrow>
    bq_step spins (q, add_mset a A) (q', opt_mset nxt + A)"

inductive bq_reach :: "nat \<Rightarrow> nat \<Rightarrow> 'v bqueue \<Rightarrow> 'v bq_act multiset \<Rightarrow> bool" for spins where
  start: "bq_reach spins 0 BlockingConcurrentQueue_new {#}"
| step: "bq_reach spins n q A \<Longrightarrow> bq_step spins (q, A) (q', A') \<Longrightarrow> bq_reach spins (Suc n) q' A'"

section \<open>What the steps change\<close>

definition enqueued_total :: "'v iprod list \<Rightarrow> nat" where
  "enqueued_total ps = (\<Sum>s \<leftarrow> ps. length (ip_enqueued s))"

definition taken_total :: "'v iprod list \<Rightarrow> nat" where
  "taken_total ps = (\<Sum>s \<leftarrow> ps. length (ip_taken s))"

text \<open>A pop that has its unit and not yet its value; a push that has enqueued and not signalled.\<close>

fun ip_no_value :: "'v ip_act \<Rightarrow> nat" where
  "ip_no_value (Deq_Empty _ _) = 0"
| "ip_no_value (Deq_Unlink _ _) = 0"
| "ip_no_value (Deq_Release _ _) = 0"
| "ip_no_value _ = 1"

fun cq_no_value :: "'v cq_act \<Rightarrow> nat" where
  "cq_no_value (Best p a) = ip_no_value a"
| "cq_no_value (Rest_Dequeue p a rest best) = ip_no_value a"
| "cq_no_value _ = 1"

fun holds_unit :: "'v bq_act \<Rightarrow> nat" where
  "holds_unit (Pop_Inner a) = cq_no_value a"
| "holds_unit _ = 0"

fun to_signal :: "'v bq_act \<Rightarrow> nat" where
  "to_signal (Push_Signal (Signal n)) = n"
| "to_signal _ = 0"

lemma sum_list_update_add:
  fixes f :: "'a \<Rightarrow> 'b :: comm_monoid_add"
  shows "p < length xs \<Longrightarrow> (\<Sum>x \<leftarrow> xs[p := y]. f x) + f (xs ! p) = (\<Sum>x \<leftarrow> xs. f x) + f y"
  by (induction xs arbitrary: p) (auto simp: ac_simps split: nat.splits)

lemma totals_set_producer:
  assumes "p < length ps"
  shows "enqueued_total (set_producer p s ps) + length (ip_enqueued (ps ! p)) = enqueued_total ps + length (ip_enqueued s)"
    and "taken_total (set_producer p s ps) + length (ip_taken (ps ! p)) = taken_total ps + length (ip_taken s)"
  using sum_list_update_add [OF assms, of "\<lambda>s. length (ip_enqueued s)" s] sum_list_update_add [OF assms, of "\<lambda>s. length (ip_taken s)" s]
  by (simp_all add: enqueued_total_def taken_total_def set_producer_def comp_def)

lemma ip_advance_history:
  assumes "ip_advance blk a s = Some (s', nxt)"
  shows "ip_enqueued s' = ip_enqueued s @ (case a of Enq_Publish v \<Rightarrow> [v] | _ \<Rightarrow> [])"
    and "length (ip_taken s') = length (ip_taken s) + (case a of Deq_Move index b \<Rightarrow> 1 | _ \<Rightarrow> 0)"
    and "\<not> is_enqueue a \<Longrightarrow> length (ip_taken s') + (case nxt of Some a' \<Rightarrow> ip_no_value a' | None \<Rightarrow> if ip_returns a then 0 else 1)
      = length (ip_taken s) + ip_no_value a"
    and "is_enqueue a \<Longrightarrow> nxt = None \<and> ip_returns a \<longleftrightarrow> (\<exists>v. a = Enq_Publish v)"
  using assms by (cases a; auto simp: set_block_def Let_def split: if_splits option.splits)+

fun is_push :: "'v cq_act \<Rightarrow> bool" where
  "is_push (Enqueue p a) \<longleftrightarrow> True"
| "is_push _ \<longleftrightarrow> False"

lemma push_advance:
  assumes "cq_advance blk a ps = Some (ps', nxt, r)" "cq_act_ok (length ps) a" "is_push a"
  shows "enqueued_total ps' = enqueued_total ps + (if nxt = None \<and> r then 1 else 0)" and "taken_total ps' = taken_total ps"
    and "\<And>b. nxt = Some b \<Longrightarrow> is_push b"
proof -
  obtain p x where a: "a = Enqueue p x" using assms(3) by (cases a) auto
  obtain s y where s: "ip_advance blk x (ps ! p) = Some (s, y)" and ps': "ps' = set_producer p s ps"
    and nxt: "nxt = map_option (Enqueue p) y" "r \<longleftrightarrow> y = None \<and> ip_returns x"
    using assms(1) a by (auto split: option.splits)
  have p: "p < length ps" "is_enqueue x" using assms(2) a by simp_all
  note h = ip_advance_history [OF s] and t = totals_set_producer [OF p(1), of s]
  have "length (ip_enqueued s) = length (ip_enqueued (ps ! p)) + (if nxt = None \<and> r then 1 else 0)"
    using h(1,4) p(2) nxt by (cases x) auto
  then show "enqueued_total ps' = enqueued_total ps + (if nxt = None \<and> r then 1 else 0)" using t(1) ps' by simp
  have "length (ip_taken s) = length (ip_taken (ps ! p))" using h(2) p(2) by (cases x) auto
  then show "taken_total ps' = taken_total ps" using t(2) ps' by simp
  show "\<And>b. nxt = Some b \<Longrightarrow> is_push b" using nxt by auto
qed

lemma pop_advance:
  assumes "cq_advance None a ps = Some (ps', nxt, r)" "cq_act_ok (length ps) a" "\<not> is_push a"
  shows "enqueued_total ps' = enqueued_total ps"
    and "taken_total ps' + (case nxt of Some b \<Rightarrow> cq_no_value b | None \<Rightarrow> if r then 0 else 1) = taken_total ps + cq_no_value a"
    and "\<And>b. nxt = Some b \<Longrightarrow> \<not> is_push b"
proof -
  have "enqueued_total ps' = enqueued_total ps
    \<and> taken_total ps' + (case nxt of Some b \<Rightarrow> cq_no_value b | None \<Rightarrow> if r then 0 else 1) = taken_total ps + cq_no_value a
    \<and> (\<forall>b. nxt = Some b \<longrightarrow> \<not> is_push b)"
  proof (cases "\<exists>p x. (a = Best p x \<or> (\<exists>rest best. a = Rest_Dequeue p x rest best))")
    case True
    then obtain p x where a: "a = Best p x \<or> (\<exists>rest best. a = Rest_Dequeue p x rest best)" by blast
    obtain s y where s: "ip_advance None x (ps ! p) = Some (s, y)" and ps': "ps' = set_producer p s ps"
      and r: "r \<longleftrightarrow> y = None \<and> ip_returns x"
      and nxt: "(case nxt of Some b \<Rightarrow> cq_no_value b | None \<Rightarrow> if r then 0 else 1) = (case y of Some a' \<Rightarrow> ip_no_value a' | None \<Rightarrow> if ip_returns x then 0 else 1)"
        "\<forall>b. nxt = Some b \<longrightarrow> \<not> is_push b"
      using assms(1) a by (auto split: option.splits if_splits)
    have p: "p < length ps" "\<not> is_enqueue x" "cq_no_value a = ip_no_value x" using assms(2) a by auto
    note h = ip_advance_history [OF s] and t = totals_set_producer [OF p(1), of s]
    have "length (ip_enqueued s) = length (ip_enqueued (ps ! p))" using h(1) p(2) by (cases x) auto
    then show ?thesis using h(3) [OF p(2)] t ps' nxt p(3) by simp
  next
    case False
    then show ?thesis using assms by (cases a) (auto simp: Let_def split: if_splits option.splits list.splits)
  qed
  then show "enqueued_total ps' = enqueued_total ps"
    "taken_total ps' + (case nxt of Some b \<Rightarrow> cq_no_value b | None \<Rightarrow> if r then 0 else 1) = taken_total ps + cq_no_value a"
    "\<And>b. nxt = Some b \<Longrightarrow> \<not> is_push b" by blast+
qed

section \<open>The invariant\<close>

text \<open>Calls of the semaphore are for one unit.\<close>

fun one_unit :: "ls_call \<Rightarrow> bool" where
  "one_unit Try_Wait \<longleftrightarrow> True"
| "one_unit (Wait _) \<longleftrightarrow> True"
| "one_unit _ \<longleftrightarrow> False"

fun waits_one :: "ls_act \<Rightarrow> bool" where
  "waits_one (Try_Load c) \<longleftrightarrow> one_unit c"
| "waits_one (Try_Cas c _) \<longleftrightarrow> one_unit c"
| "waits_one (Spin c _) \<longleftrightarrow> one_unit c"
| "waits_one (Spin_Cas c _ old) \<longleftrightarrow> one_unit c"
| "waits_one (Sub c) \<longleftrightarrow> one_unit c"
| "waits_one (Block c) \<longleftrightarrow> one_unit c"
| "waits_one (Adjust_Load c) \<longleftrightarrow> one_unit c"
| "waits_one (Adjust_Try c) \<longleftrightarrow> one_unit c"
| "waits_one (Adjust_Cas c old) \<longleftrightarrow> one_unit c"
| "waits_one _ \<longleftrightarrow> False"

fun signals :: "ls_act \<Rightarrow> bool" where
  "signals (Signal n) \<longleftrightarrow> True"
| "signals (Post n) \<longleftrightarrow> True"
| "signals _ \<longleftrightarrow> False"

fun bq_act_ok :: "'v bq_act \<Rightarrow> bool" where
  "bq_act_ok (Push_Inner a) \<longleftrightarrow> is_push a"
| "bq_act_ok (Push_Signal a) \<longleftrightarrow> signals a"
| "bq_act_ok (Pop_Wait a) \<longleftrightarrow> waits_one a"
| "bq_act_ok (Pop_Inner a) \<longleftrightarrow> \<not> is_push a"

lemma wait_advance:
  assumes "ls_advance spins s a s' nxt r" "waits_one a"
  shows "ls_signalled s' = ls_signalled s" and "r = (if nxt = None \<and> r > 0 then 1 else 0)" and "\<And>b. nxt = Some b \<Longrightarrow> waits_one b"
proof -
  have one: "call_new_count c old = old - 1" "acquired_one c = (None, 1)" if "one_unit c" for c old
    using that by (cases c; simp)+
  have "ls_signalled s' = ls_signalled s \<and> r = (if nxt = None \<and> r > 0 then 1 else 0) \<and> (\<forall>b. nxt = Some b \<longrightarrow> waits_one b)"
    using assms(1) by (cases rule: ls_advance.cases; use one assms(2) in \<open>auto split: if_splits\<close>)
  then show "ls_signalled s' = ls_signalled s" "r = (if nxt = None \<and> r > 0 then 1 else 0)" "\<And>b. nxt = Some b \<Longrightarrow> waits_one b"
    by blast+
qed

lemma signal_advance:
  assumes "ls_advance spins s a s' nxt r" "signals a"
  shows "r = 0" and "ls_signalled s' + (case nxt of Some b \<Rightarrow> to_signal (Push_Signal b) | None \<Rightarrow> 0) = ls_signalled s + to_signal (Push_Signal a)"
    and "\<And>b. nxt = Some b \<Longrightarrow> signals b"
  using assms by (cases rule: ls_advance.cases; auto split: if_splits)+

definition sum_of :: "('v bq_act \<Rightarrow> nat) \<Rightarrow> 'v bq_act multiset \<Rightarrow> nat" where
  "sum_of f A = (\<Sum>a \<in># A. f a)"

lemma sum_of_simps [simp]: "sum_of f {#} = 0" "sum_of f (add_mset a A) = f a + sum_of f A" "sum_of f (A + B) = sum_of f A + sum_of f B"
  by (simp_all add: sum_of_def)

text \<open>
  The inner queue and the semaphore are in order; every value enqueued has its unit, or a push
  that will signal it; every unit returned has its value, or a pop that looks for it.
\<close>

definition sema_run :: "'v bqueue \<Rightarrow> 'v bq_act multiset \<Rightarrow> ls_run" where
  "sema_run q A = \<lparr>lr_sem = bq_sema q, lr_acts = all_sema A, lr_returned = taken_total (bq_inner q) + sum_of holds_unit A\<rparr>"

definition bq_inv :: "nat \<Rightarrow> 'v bqueue \<Rightarrow> 'v bq_act multiset \<Rightarrow> bool" where
  "bq_inv n q A \<longleftrightarrow>
     cq_inv n (bq_inner q) (all_inner A) \<and> size A < 2 ^ 31 \<and> ls_inv 0 (sema_run q A)
     \<and> enqueued_total (bq_inner q) = ls_signalled (bq_sema q) + sum_of to_signal A \<and> (\<forall>a \<in># A. bq_act_ok a)"

lemma bq_invD:
  assumes "bq_inv n q A"
  shows "cq_inv n (bq_inner q) (all_inner A)" "size A < 2 ^ 31" "ls_inv 0 (sema_run q A)"
    "enqueued_total (bq_inner q) = ls_signalled (bq_sema q) + sum_of to_signal A" "a \<in># A \<Longrightarrow> bq_act_ok a"
  using assms unfolding bq_inv_def by simp_all

lemma size_all_sema: "size (all_sema A) \<le> size A"
proof (induction A)
  case (add a A)
  then show ?case by (cases a) auto
qed simp

lemma cq_inv_scan: "cq_inv n ps A \<Longrightarrow> cq_inv n ps (add_mset Scan_Start A)"
  by (simp add: cq_inv_def)

lemma ls_inv_call: "ls_inv 0 \<lparr>lr_sem = s, lr_acts = A, lr_returned = r\<rparr> \<Longrightarrow> ls_entry a \<Longrightarrow> size A < 2 ^ 31 - 1 \<Longrightarrow>
    ls_inv 0 \<lparr>lr_sem = s, lr_acts = add_mset a A, lr_returned = r\<rparr>"
  using ls_inv_step [OF ls_step.call, of a "\<lparr>lr_sem = s, lr_acts = A, lr_returned = r\<rparr>"] by simp

lemma ls_inv_move: "ls_inv 0 \<lparr>lr_sem = s, lr_acts = add_mset a A, lr_returned = r\<rparr> \<Longrightarrow> ls_advance spins s a s' nxt k \<Longrightarrow>
    ls_inv 0 \<lparr>lr_sem = s', lr_acts = opt_mset nxt + A, lr_returned = r + k\<rparr>"
  using ls_inv_step [OF ls_step.move [of "\<lparr>lr_sem = s, lr_acts = add_mset a A, lr_returned = r\<rparr>" a A spins s' nxt k]] by simp

lemma bq_inv_advance:
  assumes step: "bq_advance spins blk a q q' nxt" and inv: "bq_inv n q (add_mset a A)" and n: "n < 2 ^ 62"
    and fresh: "\<And>b s. blk = Some b \<Longrightarrow> s \<in> set (bq_inner q) \<Longrightarrow> ip_owned s b = None"
  shows "bq_inv (Suc n) q' (opt_mset nxt + A)"
proof -
  note i = bq_invD [OF inv]
  have ok: "bq_act_ok a" using i(5) by simp
  have size: "size (opt_mset nxt + A) < 2 ^ 31" using i(2) by (cases nxt) simp_all
  have small: "size (all_sema A) < 2 ^ 31 - 1" using size_all_sema [of A] i(2) by simp
  show ?thesis
    using step
  proof (cases rule: bq_advance.cases)
    case (push_inner x ps y r)
    have c: "cq_inv n (bq_inner q) (add_mset x (all_inner A))" "cq_act_ok (length (bq_inner q)) x" "is_push x"
      using i(1) cq_invD(6) [OF i(1), of x] ok push_inner by simp_all
    have inner: "cq_inv (Suc n) ps (opt_mset y + all_inner A)"
      using cq_inv_advance [OF c(1) n fresh, of blk] push_inner(4) by auto
    note p = push_advance [OF push_inner(4) c(2,3)]
    have sema: "ls_inv 0 \<lparr>lr_sem = bq_sema q, lr_acts = all_sema A, lr_returned = taken_total ps + sum_of holds_unit A\<rparr>"
      using i(3) push_inner(1) p(2) by (simp add: sema_run_def)
    have "ls_inv 0 (sema_run q' (opt_mset nxt + A))"
      using sema ls_inv_call [OF sema, of "Signal 1"] small push_inner(2,3) by (auto simp: sema_run_def split: option.splits)
    then show ?thesis using inner size push_inner(1,2,3) p(1,3) i(4,5) by (auto simp: bq_inv_def split: option.splits)
  next
    case (push_signal x s y r)
    have sig: "signals x" using ok push_signal by simp
    note g = signal_advance [OF push_signal(4) sig]
    have sema: "ls_inv 0 \<lparr>lr_sem = bq_sema q, lr_acts = add_mset x (all_sema A), lr_returned = taken_total (bq_inner q) + sum_of holds_unit A\<rparr>"
      using i(3) push_signal(1) by (simp add: sema_run_def)
    have "ls_inv 0 (sema_run q' (opt_mset nxt + A))"
      using ls_inv_move [OF sema push_signal(4)] g(1) push_signal(2,3) by (cases y) (simp_all add: sema_run_def)
    moreover have "cq_inv (Suc n) (bq_inner q) (all_inner (opt_mset nxt + A))"
      using cq_inv_mono [OF i(1), of "Suc n"] push_signal(1,3) by (cases y) simp_all
    moreover have "ls_signalled s + sum_of to_signal (opt_mset nxt + A) = ls_signalled (bq_sema q) + sum_of to_signal (add_mset a A)"
      using g(2) push_signal(1,3) by (cases y) simp_all
    moreover have "\<forall>b \<in># opt_mset nxt + A. bq_act_ok b" using push_signal(3) g(3) i(5) by (cases y) auto
    ultimately show ?thesis using size push_signal(2) i(4) by (simp add: bq_inv_def)
  next
    case (pop_wait x s y r)
    have w: "waits_one x" using ok pop_wait by simp
    note g = wait_advance [OF pop_wait(4) w]
    have sema: "ls_inv 0 \<lparr>lr_sem = bq_sema q, lr_acts = add_mset x (all_sema A), lr_returned = taken_total (bq_inner q) + sum_of holds_unit A\<rparr>"
      using i(3) pop_wait(1) by (simp add: sema_run_def)
    have "sum_of holds_unit (opt_mset nxt + A) = sum_of holds_unit A + r"
      using g(2) pop_wait(3) by (cases y) (auto split: if_splits)
    moreover have "all_sema (opt_mset nxt + A) = opt_mset y + all_sema A" using pop_wait(3) by (cases y) auto
    ultimately have "sema_run q' (opt_mset nxt + A)
        = \<lparr>lr_sem = s, lr_acts = opt_mset y + all_sema A, lr_returned = taken_total (bq_inner q) + sum_of holds_unit A + r\<rparr>"
      using pop_wait(2) by (simp add: sema_run_def del: sum_of_simps all_acts_simps)
    then have "ls_inv 0 (sema_run q' (opt_mset nxt + A))" using ls_inv_move [OF sema pop_wait(4)] by simp
    moreover have "cq_inv (Suc n) (bq_inner q) (all_inner (opt_mset nxt + A))"
      using cq_inv_mono [OF i(1), of "Suc n"] cq_inv_scan pop_wait(1,3) by (cases y) auto
    moreover have "sum_of to_signal (opt_mset nxt + A) = sum_of to_signal (add_mset a A)"
      using pop_wait(1,3) by (cases y) auto
    moreover have "\<forall>b \<in># opt_mset nxt + A. bq_act_ok b" using pop_wait(3) g(3) i(5) by (cases y) auto
    ultimately show ?thesis using size pop_wait(2) g(1) i(4) by (simp add: bq_inv_def)
  next
    case (pop_inner x ps y r)
    have c: "cq_inv n (bq_inner q) (add_mset x (all_inner A))" "cq_act_ok (length (bq_inner q)) x" "\<not> is_push x"
      using i(1) cq_invD(6) [OF i(1), of x] ok pop_inner by simp_all
    have inner: "cq_inv (Suc n) ps (opt_mset y + all_inner A)"
      using cq_inv_advance [OF c(1) n, of None] pop_inner(4) by auto
    note p = pop_advance [OF pop_inner(4) c(2,3)]
    have "taken_total ps + sum_of holds_unit (opt_mset nxt + A) = taken_total (bq_inner q) + sum_of holds_unit (add_mset a A)"
      using p(2) pop_inner(1,3) by (cases y) auto
    moreover have "all_sema (opt_mset nxt + A) = all_sema (add_mset a A)" using pop_inner(1,3) by (cases y) auto
    ultimately have "sema_run q' (opt_mset nxt + A) = sema_run q (add_mset a A)"
      using pop_inner(2) by (simp add: sema_run_def del: sum_of_simps all_acts_simps)
    then have "ls_inv 0 (sema_run q' (opt_mset nxt + A))" using i(3) by simp
    moreover have "cq_inv (Suc n) ps (all_inner (opt_mset nxt + A))" using inner cq_inv_scan pop_inner(3) by (cases y) auto
    moreover have "sum_of to_signal (opt_mset nxt + A) = sum_of to_signal (add_mset a A)"
      using pop_inner(1,3) by (cases y) auto
    moreover have "\<forall>b \<in># opt_mset nxt + A. bq_act_ok b" using pop_inner(3) p(3) i(5) by (cases y) auto
    ultimately show ?thesis using size pop_inner(2) p(1) i(4) by (simp add: bq_inv_def)
  qed
qed

lemma bq_inv_step:
  assumes step: "bq_step spins (q, A) (q', A')" and inv: "bq_inv n q A" and n: "n < 2 ^ 62"
  shows "bq_inv (Suc n) q' A'"
proof -
  note i = bq_invD [OF inv]
  have sema: "ls_inv 0 \<lparr>lr_sem = bq_sema q, lr_acts = all_sema A, lr_returned = taken_total (bq_inner q) + sum_of holds_unit A\<rparr>"
    using i(3) by (simp add: sema_run_def)
  have wait: "bq_inv (Suc n) q (add_mset (Pop_Wait (Try_Load c)) A)" if "size A < 2 ^ 31 - 1" "one_unit c" for c
  proof -
    have "call_ok c" using that(2) by (cases c) simp_all
    then have "ls_inv 0 (sema_run q (add_mset (Pop_Wait (Try_Load c)) A))"
      using ls_inv_call [OF sema, of "Try_Load c"] size_all_sema [of A] that(1) by (simp add: sema_run_def)
    then show ?thesis using i cq_inv_mono [OF i(1), of "Suc n"] that by (simp add: bq_inv_def)
  qed
  show ?thesis
    using step
  proof (cases rule: bq_step.cases)
    case (push p v)
    have "cq_inv (Suc n) (bq_inner q) (add_mset (Enqueue p (Enq_Start v)) (all_inner A))"
      by (rule cq_inv_step [OF cq_step.enqueue i(1) n]) (use push in \<open>simp_all add: sub_acts_def\<close>)
    then show ?thesis using push i(2-5) by (simp add: bq_inv_def sema_run_def)
  next
    case (add_producer blocks)
    have "cq_inv (Suc n) (bq_inner q @ [ImplicitProducer_new blocks]) (all_inner A)"
      by (rule cq_inv_step [OF cq_step.add_producer i(1) n]) (use add_producer in blast)
    moreover have "enqueued_total (bq_inner q @ [ImplicitProducer_new blocks]) = enqueued_total (bq_inner q)"
      "taken_total (bq_inner q @ [ImplicitProducer_new blocks]) = taken_total (bq_inner q)"
      by (simp_all add: enqueued_total_def taken_total_def ImplicitProducer_new_def)
    ultimately show ?thesis using add_producer i(2-5) by (simp add: bq_inv_def sema_run_def)
  next
    case try_pop
    then show ?thesis using wait [of Try_Wait] by simp
  next
    case (pop timeout_ms)
    then show ?thesis using wait [of "Wait (pop_timeout_usecs timeout_ms)"] by simp
  next
    case (advance blk a nxt B)
    then show ?thesis using bq_inv_advance [of spins blk a q q' nxt n B] inv n by blast
  qed
qed

lemma bq_inv_reach: "bq_reach spins n q A \<Longrightarrow> n < 2 ^ 62 \<Longrightarrow> bq_inv n q A"
proof (induction rule: bq_reach.induct)
  case start
  show ?case
    by (simp add: bq_inv_def BlockingConcurrentQueue_new_def cq_inv_def same_blocks_def sema_run_def ls_inv_def lsem_new_def
        units_available_def enqueued_total_def taken_total_def)
next
  case (step n q A q' A')
  then show ?case using bq_inv_step by fastforce
qed

section \<open>The bag\<close>

text \<open>What is in the queue: enqueued and not taken.\<close>

definition sub_contents :: "'v iprod \<Rightarrow> 'v multiset" where
  "sub_contents s = mset (ip_enqueued s) - mset (map snd (ip_taken s))"

definition bq_contents :: "'v bqueue \<Rightarrow> 'v multiset" where
  "bq_contents q = (\<Sum>s \<leftarrow> bq_inner q. sub_contents s)"

definition values_left :: "'v bqueue \<Rightarrow> nat" where
  "values_left q = (\<Sum>s \<leftarrow> bq_inner q. left_in s)"

fun publishes :: "'v bq_act \<Rightarrow> 'v option" where
  "publishes (Push_Inner (Enqueue p (Enq_Publish v))) = Some v"
| "publishes _ = None"

fun takes :: "'v bq_act \<Rightarrow> bool" where
  "takes (Pop_Inner (Best p (Deq_Move index b))) \<longleftrightarrow> True"
| "takes (Pop_Inner (Rest_Dequeue p (Deq_Move index b) rest best)) \<longleftrightarrow> True"
| "takes _ \<longleftrightarrow> False"

lemma taken_subset:
  assumes "ip_inv s A"
  shows "mset (map snd (ip_taken s)) \<subseteq># mset (ip_enqueued s)" and "length (ip_taken s) \<le> length (ip_enqueued s)"
proof -
  have x: "index_inv s A" using assms by (simp add: ip_inv_def)
  have "mset (map snd (ip_taken s)) = image_mset (\<lambda>i. ip_enqueued s ! i) (mset (map fst (ip_taken s)))"
    unfolding mset_map multiset.map_comp by (rule image_mset_cong) (use index_invD(4) [OF x] in auto)
  moreover have "mset (map fst (ip_taken s)) \<subseteq># mset [0..<length (ip_enqueued s)]"
  proof -
    have "set (map fst (ip_taken s)) \<subseteq> set [0..<length (ip_enqueued s)]" using index_invD(4) [OF x] by auto
    from subset_imp_msubset_mset_set [OF this] show ?thesis using index_facts(5) [OF x] by (simp add: mset_set_set del: set_map set_upt)
  qed
  moreover have "image_mset (\<lambda>i. ip_enqueued s ! i) (mset [0..<length (ip_enqueued s)]) = mset (ip_enqueued s)"
    by (simp only: mset_map [symmetric] map_nth)
  ultimately show "mset (map snd (ip_taken s)) \<subseteq># mset (ip_enqueued s)" using image_mset_subseteq_mono by metis
  from size_mset_mono [OF this] show "length (ip_taken s) \<le> length (ip_enqueued s)" by simp
qed

lemma sub_contents_step:
  assumes step: "ip_advance blk a s = Some (s', nxt)" and s: "ip_inv s A" and s': "ip_inv s' B"
  shows "case a of Enq_Publish v \<Rightarrow> sub_contents s' = add_mset v (sub_contents s)
    | Deq_Move index b \<Rightarrow> (\<exists>v. sub_contents s = add_mset v (sub_contents s'))
    | _ \<Rightarrow> sub_contents s' = sub_contents s"
proof -
  note t = taken_subset(1) [OF s] and t' = taken_subset(1) [OF s']
  show ?thesis
  proof (cases a)
    case (Enq_Publish v)
    then show ?thesis using step multiset_diff_union_assoc [OF t, of "{#v#}"] by (auto simp: sub_contents_def)
  next
    case (Deq_Move index b)
    then obtain v where v: "ip_taken s' = ip_taken s @ [(unat index, v)]" "ip_enqueued s' = ip_enqueued s"
      using step by (auto simp: set_block_def split: option.splits)
    have "add_mset v (mset (map snd (ip_taken s))) \<subseteq># mset (ip_enqueued s)" using t' v by simp
    then have "sub_contents s = add_mset v (sub_contents s')"
      unfolding sub_contents_def v by (auto simp: mset_subset_eq_exists_conv)
    then show ?thesis using Deq_Move by auto
  qed (use step in \<open>auto simp: sub_contents_def set_block_def Let_def split: if_splits option.splits\<close>)
qed

lemma contents_set_producer:
  "p < length ps \<Longrightarrow> (\<Sum>s \<leftarrow> set_producer p s ps. sub_contents s) + sub_contents (ps ! p) = (\<Sum>s \<leftarrow> ps. sub_contents s) + sub_contents s"
  using sum_list_update_add [of p ps sub_contents s] by (simp add: set_producer_def comp_def sub_contents_def)

lemma values_left_total:
  assumes "cq_inv n (bq_inner q) A"
  shows "enqueued_total (bq_inner q) = taken_total (bq_inner q) + values_left q"
proof -
  have "length (ip_taken s) \<le> length (ip_enqueued s)" if "s \<in> set (bq_inner q)" for s
    using that taken_subset(2) cq_invD(1) [OF assms] by (metis in_set_conv_nth)
  then have "(\<Sum>s \<leftarrow> bq_inner q. length (ip_enqueued s)) = (\<Sum>s \<leftarrow> bq_inner q. length (ip_taken s) + left_in s)"
    by (intro arg_cong [of _ _ sum_list] map_cong) (auto simp: left_in_def)
  then show ?thesis by (simp add: enqueued_total_def taken_total_def values_left_def sum_list_addf)
qed

lemma no_many: "\<forall>a \<in># A. bq_act_ok a \<Longrightarrow> sum_acts act_holds (all_sema A) = 0"
proof (induction A)
  case (add a A)
  have "act_holds b = 0" if "waits_one b \<or> signals b" for b using that by (cases b) auto
  then show ?case using add by (cases a) auto
qed simp

section \<open>Properties\<close>

text \<open>In every reachable state, the values in the queue are exactly the units the semaphore has
  available, those a push has still to signal, and those a pop has got and seeks a value for; with
  no call in progress the semaphore's count is the number of values.\<close>

theorem blocking_queue_accounts_for_all:
  assumes "bq_reach spins n q A" "n < 2 ^ 62"
  shows "int (values_left q) = units_available (sema_run q A) + int (sum_of to_signal A) + int (sum_of holds_unit A)
    \<and> 0 \<le> units_available (sema_run q A)
    \<and> (A = {#} \<longrightarrow> availableApprox (bq_sema q) = values_left q)"
proof -
  note i = bq_invD [OF bq_inv_reach [OF assms]]
  have sema: "int (ls_signalled (bq_sema q)) = int (taken_total (bq_inner q) + sum_of holds_unit A) + units_available (sema_run q A)"
    "sum_acts act_waits (all_sema A) = int (ls_sema (bq_sema q)) + sum_acts act_posts (all_sema A) + max 0 (- ls_count (bq_sema q))"
    using i(3) no_many [of A] i(5) by (simp_all add: ls_inv_def sema_run_def)
  have "0 \<le> units_available (sema_run q A)"
    using sum_acts_nonneg [of act_posts "all_sema A", OF act_nonneg(2)] by (simp add: units_available_def sema_run_def)
  moreover have "int (values_left q) = units_available (sema_run q A) + int (sum_of to_signal A) + int (sum_of holds_unit A)"
    using values_left_total [OF i(1)] i(4) sema(1) by simp
  ultimately show ?thesis using sema(2) by (auto simp: units_available_def sema_run_def availableApprox_def)
qed

text \<open>C40: The loop that seeks the value ends: when no other call is inside a sub-queue, a pop that has
  its unit and calls \<open>try_dequeue\<close> gets a value, the oldest of a sub-queue.\<close>

theorem unit_finds_a_value:
  assumes "bq_reach spins n q A" "n < 2 ^ 62" "Pop_Inner Scan_Start \<in># A"
    and "\<forall>a \<in># all_inner A. \<forall>p. in_producer p a = {#}"
  shows "\<exists>ps p. ConcurrentQueue_try_dequeue (bq_inner q) = Some (ps, True) \<and> p < length ps
    \<and> (let taken = ip_taken (bq_inner q ! p); h = length taken in
        h < length (ip_enqueued (bq_inner q ! p)) \<and> ip_taken (ps ! p) = taken @ [(h, ip_enqueued (bq_inner q ! p) ! h)])"
proof -
  have inv: "bq_inv n q A" by (rule bq_inv_reach [OF assms(1,2)])
  note i = bq_invD [OF inv]
  have none: "(\<And>a. a \<in># M \<Longrightarrow> in_producer p a = {#}) \<Longrightarrow> sub_acts M p = {#}" for p and M :: "'a cq_act multiset"
    by (induction M) auto
  have "sub_acts (all_inner A) p = {#}" for p by (rule none) (use assms(4) in blast)
  then have quiet: "cq_inv n (bq_inner q) {#}" using i(1) by (simp add: cq_inv_def)
  obtain B where "A = add_mset (Pop_Inner Scan_Start) B" using assms(3) by (metis multi_member_split)
  then have "0 < sum_of holds_unit A" by simp
  moreover have "int (ls_signalled (bq_sema q)) = int (taken_total (bq_inner q) + sum_of holds_unit A) + units_available (sema_run q A)"
    using i(3) no_many [of A] i(5) by (simp add: ls_inv_def sema_run_def)
  moreover have "0 \<le> units_available (sema_run q A)"
    using sum_acts_nonneg [of act_posts "all_sema A", OF act_nonneg(2)] by (simp add: units_available_def sema_run_def)
  ultimately have "0 < values_left q" using values_left_total [OF i(1)] i(4) by linarith
  moreover have "values_left q = 0" if "\<forall>p < length (bq_inner q). left_in (bq_inner q ! p) = 0"
    using that unfolding values_left_def by (auto simp: in_set_conv_nth)
  ultimately have "\<not> (\<forall>p < length (bq_inner q). left_in (bq_inner q ! p) = 0)" by (metis less_irrefl)
  then show ?thesis using try_dequeue_alone [OF quiet assms(2)] by (auto simp: Let_def)
qed

text \<open>C39: The queue is a bag: the step with which a push publishes its value adds it, the step with
  which a pop moves a value out removes it, and no other step of any call changes what is in it.\<close>

theorem blocking_queue_is_a_bag:
  assumes "bq_reach spins n q (add_mset a A)" "n < 2 ^ 61" "bq_advance spins blk a q q' nxt"
    and "\<forall>s \<in> set (bq_inner q). \<forall>b. blk = Some b \<longrightarrow> ip_owned s b = None"
  shows "case publishes a of Some v \<Rightarrow> bq_contents q' = UnboundedBlockingQueue_Push v (bq_contents q)
    | None \<Rightarrow> if takes a then (\<exists>v. UnboundedBlockingQueue_TryPop (bq_contents q) (Some v) (bq_contents q'))
        else UnboundedBlockingQueue_TryPop (bq_contents q) None (bq_contents q')"
proof -
  have inv: "bq_inv n q (add_mset a A)" using bq_inv_reach [OF assms(1)] assms(2) by simp
  have inv': "bq_inv (Suc n) q' (opt_mset nxt + A)" using bq_inv_advance [OF assms(3) inv] assms(2,4) by simp
  note i = cq_invD [OF bq_invD(1) [OF inv]] and i' = cq_invD [OF bq_invD(1) [OF inv']]
  have sub: "case x of Enq_Publish v \<Rightarrow> bq_contents q' = add_mset v (bq_contents q)
      | Deq_Move index b \<Rightarrow> (\<exists>v. bq_contents q = add_mset v (bq_contents q'))
      | _ \<Rightarrow> bq_contents q' = bq_contents q"
    if p: "p < length (bq_inner q)" and x: "ip_advance blk' x (bq_inner q ! p) = Some (s, y)"
      and q': "q' = q\<lparr>bq_inner := set_producer p s (bq_inner q)\<rparr>" for p blk' x s y
  proof -
    have "ip_inv s (sub_acts (all_inner (opt_mset nxt + A)) p)" using i'(1) [of p] p q' by (simp add: nth_set_producer)
    note step = sub_contents_step [OF x i(1) [OF p] this]
    have "bq_contents q' + sub_contents (bq_inner q ! p) = bq_contents q + sub_contents s"
      using contents_set_producer [OF p, of s] q' by (simp add: bq_contents_def)
    then show ?thesis using step by (cases x) (auto, metis)
  qed
  have ok: "\<And>x. x \<in># all_inner (add_mset a A) \<Longrightarrow> cq_act_ok (length (bq_inner q)) x" using i(6) by blast
  show ?thesis
    using assms(3)
  proof (cases rule: bq_advance.cases)
    case (push_inner x ps y r)
    then have "is_push x" using bq_invD(5) [OF inv, of a] by simp
    then obtain p z where x: "x = Enqueue p z" by (cases x) auto
    then obtain s t where "ip_advance blk z (bq_inner q ! p) = Some (s, t)" "ps = set_producer p s (bq_inner q)"
      using push_inner(4) by (auto split: option.splits)
    moreover have "p < length (bq_inner q)" "is_enqueue z" using ok [of x] push_inner(1) x by simp_all
    ultimately show ?thesis using sub [of p blk z s t] push_inner(1,2) x
      by (cases z) (auto simp: UnboundedBlockingQueue_Push_def UnboundedBlockingQueue_TryPop_def)
  next
    case (pop_inner x ps y r)
    then have push: "\<not> is_push x" using bq_invD(5) [OF inv, of a] by simp
    show ?thesis
    proof (cases "\<exists>p z. x = Best p z \<or> (\<exists>rest best. x = Rest_Dequeue p z rest best)")
      case True
      then obtain p z where x: "x = Best p z \<or> (\<exists>rest best. x = Rest_Dequeue p z rest best)" by blast
      obtain s t where "ip_advance None z (bq_inner q ! p) = Some (s, t)" "ps = set_producer p s (bq_inner q)"
        using pop_inner(4) x by (auto split: option.splits)
      moreover have "p < length (bq_inner q)" "\<not> is_enqueue z" using ok [of x] pop_inner(1) x by auto
      ultimately show ?thesis using sub [of p None z s t] pop_inner(1,2) x
        by (cases z) (auto simp: UnboundedBlockingQueue_TryPop_def)
    next
      case False
      then have "ps = bq_inner q" using pop_inner(4) push
        by (cases x) (auto simp: Let_def split: if_splits option.splits list.splits)
      moreover have "publishes a = None" "\<not> takes a" using False push pop_inner(1) by (cases x; simp)+
      ultimately show ?thesis using pop_inner(2) by (simp add: UnboundedBlockingQueue_TryPop_def bq_contents_def)
    qed
  qed (auto simp: bq_contents_def UnboundedBlockingQueue_TryPop_def)
qed

text \<open>A push of 42 up to its signal, and a pop that has got the unit.\<close>

definition sample_queue :: "nat \<Rightarrow> nat bqueue" where
  "sample_queue k =
     (let new = ImplicitProducer_new (\<lambda>_. \<lparr>ib_elements = (\<lambda>_. None), ib_completely_dequeued = 0\<rparr>);
        ready = (set_block 7 (ib_completely_dequeued_update (\<lambda>_. 0)) new)
          \<lparr>ip_entries := (ip_entries new)(0 := Some 7), ip_tail_block := Some 7, ip_owned := (ip_owned new)(7 := Some 0)\<rparr>;
        written = set_block 7 (ib_elements_update (\<lambda>e. e(0 := Some 42))) ready;
        published = written\<lparr>ip_tail_index := 1, ip_enqueued := [42]\<rparr>;
        q = \<lparr>bq_inner = [[new, ready, written, published] ! min k 3], bq_sema = lsem_new 0\<rparr>
      in if k < 4 then q else if k = 4 then q\<lparr>bq_sema := \<lparr>ls_count = 1, ls_sema = 0, ls_signalled = 1\<rparr>\<rparr>
         else q\<lparr>bq_sema := \<lparr>ls_count = 0, ls_sema = 0, ls_signalled = 1\<rparr>\<rparr>)"

lemma push_inner_to:
  assumes "cq_advance blk a (bq_inner q) = Some (bq_inner q', nxt, r)" "bq_sema q' = bq_sema q"
    and "y = (case nxt of Some a' \<Rightarrow> Some (Push_Inner a') | None \<Rightarrow> if r then Some (Push_Signal (Signal 1)) else None)"
  shows "bq_advance spins blk (Push_Inner a) q q' y"
proof -
  have "q' = q\<lparr>bq_inner := bq_inner q'\<rparr>" using assms(2) by simp
  then show ?thesis using bq_advance.push_inner [OF assms(1)] assms(3) by metis
qed

lemma step_alone:
  assumes "bq_reach 0 n q {#a#}" "bq_advance 0 blk a q q' nxt" "\<And>b s. blk = Some b \<Longrightarrow> s \<in> set (bq_inner q) \<Longrightarrow> ip_owned s b = None"
  shows "bq_reach 0 (Suc n) q' (opt_mset nxt)"
  using bq_reach.step [OF assms(1)] bq_step.advance [where A = "{#}" and blk = blk and a = a and q = q and q' = q' and nxt = nxt, OF assms(3,2)]
  by simp

lemma sample_published: "bq_reach 0 4 (sample_queue 2) {#Push_Inner (Enqueue 0 (Enq_Publish 42))#}"
proof -
  let ?push = "\<lambda>a. Push_Inner (Enqueue 0 a) :: nat bq_act"
  have "bq_step 0 (BlockingConcurrentQueue_new, {#}) (sample_queue 0, {#})"
    using bq_step.add_producer [of BlockingConcurrentQueue_new "\<lambda>_. \<lparr>ib_elements = (\<lambda>_. None), ib_completely_dequeued = 0\<rparr>" 0 "{#}"]
    by (simp add: sample_queue_def BlockingConcurrentQueue_new_def)
  then have r1: "bq_reach 0 1 (sample_queue 0) {#}" using bq_reach.step [OF bq_reach.start] by simp
  have "bq_step 0 (sample_queue 0, {#}) (sample_queue 0, {#?push (Enq_Start 42)#})"
    using bq_step.push [of "{#}" 0 "sample_queue 0" 0 42] by (simp add: sample_queue_def Let_def)
  then have r2: "bq_reach 0 2 (sample_queue 0) {#?push (Enq_Start 42)#}" using bq_reach.step [OF r1] by (simp add: numeral_2_eq_2)
  have lt: "circular_less_than 0 (0 + BLOCK_SIZE)" by (simp add: circular_less_than_def BLOCK_SIZE_def)
  have "bq_advance 0 (Some 7) (?push (Enq_Start 42)) (sample_queue 0) (sample_queue 1) (Some (?push (Enq_Write 42)))"
    by (rule push_inner_to [where nxt = "Some (Enqueue 0 (Enq_Write 42))" and r = False])
      (use lt in \<open>simp_all add: sample_queue_def Let_def ImplicitProducer_new_def set_producer_def set_block_def block_offset_def\<close>)
  from step_alone [OF r2 this] have r3: "bq_reach 0 3 (sample_queue 1) {#?push (Enq_Write 42)#}"
    by (simp add: sample_queue_def Let_def ImplicitProducer_new_def eval_nat_numeral)
  have "bq_advance 0 None (?push (Enq_Write 42)) (sample_queue 1) (sample_queue 2) (Some (?push (Enq_Publish 42)))"
    by (rule push_inner_to [where nxt = "Some (Enqueue 0 (Enq_Publish 42))" and r = False]) (simp_all add: sample_queue_def Let_def ImplicitProducer_new_def set_producer_def set_block_def block_offset_def)
  from step_alone [OF r3 this] show ?thesis by (simp add: eval_nat_numeral)
qed

lemma sample_publish: "bq_advance 0 None (Push_Inner (Enqueue 0 (Enq_Publish 42))) (sample_queue 2) (sample_queue 3) (Some (Push_Signal (Signal 1)))"
  by (rule push_inner_to [where nxt = None and r = True]) (simp_all add: sample_queue_def Let_def ImplicitProducer_new_def set_producer_def set_block_def block_offset_def)

lemma sample_pushed: "bq_reach 0 5 (sample_queue 3) {#Push_Signal (Signal 1)#}"
  using step_alone [OF sample_published sample_publish] by (simp add: eval_nat_numeral)

lemma sample_popping: "bq_reach 0 9 (sample_queue 5) {#Pop_Inner Scan_Start#}"
proof -
  have sema: "sample_queue 4 = sample_queue 3\<lparr>bq_sema := \<lparr>ls_count = 1, ls_sema = 0, ls_signalled = 1\<rparr>\<rparr>"
    "sample_queue 5 = sample_queue 4\<lparr>bq_sema := \<lparr>ls_count = 0, ls_sema = 0, ls_signalled = 1\<rparr>\<rparr>"
    "bq_sema (sample_queue 3) = lsem_new 0" "bq_sema (sample_queue 4) = \<lparr>ls_count = 1, ls_sema = 0, ls_signalled = 1\<rparr>"
    "sample_queue 4\<lparr>bq_sema := \<lparr>ls_count = 1, ls_sema = 0, ls_signalled = 1\<rparr>\<rparr> = sample_queue 4"
    by (simp_all add: sample_queue_def Let_def)
  have "bq_advance 0 None (Push_Signal (Signal 1)) (sample_queue 3) (sample_queue 4) None"
    using bq_advance.push_signal [where spins = 0 and blk = None and q = "sample_queue 3", OF ls_advance.signal [where n = 1, OF refl]] sema
    by (simp add: lsem_new_def to_release_def)
  from step_alone [OF sample_pushed this] have "bq_reach 0 6 (sample_queue 4) {#}" by (simp add: eval_nat_numeral)
  moreover have "bq_step 0 (sample_queue 4, {#}) (sample_queue 4, {#Pop_Wait (Try_Load Try_Wait)#})"
    using bq_step.try_pop [of "{#}" 0 "sample_queue 4"] by simp
  ultimately have "bq_reach 0 (Suc 6) (sample_queue 4) {#Pop_Wait (Try_Load Try_Wait)#}" by (rule bq_reach.step)
  then have r7: "bq_reach 0 7 (sample_queue 4) {#Pop_Wait (Try_Load Try_Wait)#}" by (simp add: eval_nat_numeral)
  have "bq_advance 0 None (Pop_Wait (Try_Load Try_Wait)) (sample_queue 4) (sample_queue 4) (Some (Pop_Wait (Try_Cas Try_Wait 1)))"
    using bq_advance.pop_wait [where spins = 0 and blk = None and q = "sample_queue 4", OF ls_advance.try_load [where c = Try_Wait]] unfolding sema(4,5) by simp
  from step_alone [OF r7 this] have r8: "bq_reach 0 8 (sample_queue 4) {#Pop_Wait (Try_Cas Try_Wait 1)#}" by (simp add: eval_nat_numeral)
  have "ls_advance 0 (bq_sema (sample_queue 4)) (Try_Cas Try_Wait 1) \<lparr>ls_count = 0, ls_sema = 0, ls_signalled = 1\<rparr> None 1"
    using ls_advance.try_take [where old = 1 and s = "bq_sema (sample_queue 4)" and spins = 0 and c = Try_Wait] sema(4) by simp
  from bq_advance.pop_wait [where blk = None, OF this]
  have "bq_advance 0 None (Pop_Wait (Try_Cas Try_Wait 1)) (sample_queue 4) (sample_queue 5) (Some (Pop_Inner Scan_Start))"
    using sema(2) by simp
  from step_alone [OF r8 this] show ?thesis by (simp add: eval_nat_numeral)
qed

theorem blocking_queue_accounts_for_all_witness:
  "\<exists>(q :: nat bqueue) A. bq_reach 0 5 q A \<and> values_left q = 1 \<and> A = {#Push_Signal (Signal 1)#} \<and> units_available (sema_run q A) = 0"
proof -
  have "(5 :: nat) < 2 ^ 62" by simp
  from blocking_queue_accounts_for_all [OF sample_pushed this]
  have "int (values_left (sample_queue 3)) = units_available (sema_run (sample_queue 3) {#Push_Signal (Signal 1)#}) + 1" by simp
  moreover have "values_left (sample_queue 3) = 1"
    by (simp add: values_left_def left_in_def sample_queue_def Let_def ImplicitProducer_new_def set_block_def)
  ultimately show ?thesis using sample_pushed by fastforce
qed

theorem unit_finds_a_value_witness:
  "\<exists>(q :: nat bqueue) ps. bq_inner q = bq_inner (sample_queue 5) \<and> ConcurrentQueue_try_dequeue (bq_inner q) = Some (ps, True)"
proof -
  have "(9 :: nat) < 2 ^ 62" by simp
  from unit_finds_a_value [OF sample_popping this] show ?thesis by auto
qed

theorem blocking_queue_is_a_bag_witness:
  "bq_reach 0 4 (sample_queue 2) {#Push_Inner (Enqueue 0 (Enq_Publish 42))#}
    \<and> bq_contents (sample_queue 3) = UnboundedBlockingQueue_Push 42 (bq_contents (sample_queue 2))"
proof -
  have "(4 :: nat) < 2 ^ 61" by simp
  from blocking_queue_is_a_bag [OF sample_published this sample_publish] show ?thesis using sample_published by simp
qed

end
