(* ===== verification/Free_List.thy ===== *)
theory Free_List
  imports Node_Pool
begin

text \<open>
  \<open>FreeList\<close> of \<open>moody_camel_queue/concurrentqueue.h\<close>: the blocks that no sub-queue owns, a
  linked stack without locks. Against a block that leaves and comes back while another thread
  still looks at it, each block counts its references: one for being on the list, one for each
  thread that looks at it; the top bit of the count says that the block is to be added to the
  list by whoever drops the last reference. Every atomic access is a step.

  Blocks are numbers. A block is in use (held), on the list, on its way in or out, or waiting
  with the top bit set.
\<close>

section \<open>State and steps\<close>

definition REFS_MASK :: u32 where
  "REFS_MASK = 0x7FFFFFFF"

definition SHOULD_BE_ON_FREELIST :: u32 where
  "SHOULD_BE_ON_FREELIST = 0x80000000"

record free_list =
  fl_head :: "nat option"
  fl_refs :: "nat \<Rightarrow> u32"
  fl_next :: "nat \<Rightarrow> nat option"

definition FreeList_new :: "(nat \<Rightarrow> nat option) \<Rightarrow> free_list" where
  "FreeList_new nx = \<lparr>fl_head = None, fl_refs = (\<lambda>_. 0), fl_next = nx\<rparr>"

text \<open>
  Where a thread is: in \<open>add\<close>; in \<open>add_knowing_refcount_is_zero\<close> (\<open>Akz_\<close>), and what follows it;
  in \<open>try_get\<close>. \<open>Resume head\<close>: the loop of \<open>try_get\<close> goes on with the head it has read.
\<close>

datatype fl_cont = Return | Resume "nat option"

datatype fl_act =
    Add nat
  | Akz_Load nat fl_cont | Akz_Next nat "nat option" fl_cont | Akz_Refs nat "nat option" fl_cont
  | Akz_Cas nat "nat option" fl_cont | Akz_Fail nat "nat option" fl_cont
  | Get_Load | Get_Refs nat | Get_Inc nat u32 | Get_Next nat | Get_Cas nat "nat option"
  | Get_Take nat | Get_Drop nat "nat option"

definition get_at :: "nat option \<Rightarrow> fl_act option" where
  "get_at head = map_option Get_Refs head"

fun fl_continue :: "fl_cont \<Rightarrow> fl_act option" where
  "fl_continue Return = None"
| "fl_continue (Resume head) = get_at head"

text \<open>
  The next access: the list after it and where the thread is then, \<open>None\<close> when the call has
  returned. \<open>try_get\<close> returns a block exactly after \<open>Get_Take\<close>.
\<close>

fun fl_advance :: "fl_act \<Rightarrow> free_list \<Rightarrow> free_list \<times> fl_act option" where
  "fl_advance (Add node) s =
     (s\<lparr>fl_refs := (fl_refs s)(node := fl_refs s node + SHOULD_BE_ON_FREELIST)\<rparr>,
      if fl_refs s node = 0 then Some (Akz_Load node Return) else None)"
| "fl_advance (Akz_Load node k) s = (s, Some (Akz_Next node (fl_head s) k))"
| "fl_advance (Akz_Next node head k) s = (s\<lparr>fl_next := (fl_next s)(node := head)\<rparr>, Some (Akz_Refs node head k))"
| "fl_advance (Akz_Refs node head k) s = (s\<lparr>fl_refs := (fl_refs s)(node := 1)\<rparr>, Some (Akz_Cas node head k))"
| "fl_advance (Akz_Cas node head k) s =
     (if fl_head s = head then (s\<lparr>fl_head := Some node\<rparr>, fl_continue k) else (s, Some (Akz_Fail node (fl_head s) k)))"
| "fl_advance (Akz_Fail node head k) s =
     (s\<lparr>fl_refs := (fl_refs s)(node := fl_refs s node + (SHOULD_BE_ON_FREELIST - 1))\<rparr>,
      if fl_refs s node = 1 then Some (Akz_Next node head k) else fl_continue k)"
| "fl_advance Get_Load s = (s, get_at (fl_head s))"
| "fl_advance (Get_Refs head) s =
     (s, if fl_refs s head AND REFS_MASK = 0 then Some Get_Load else Some (Get_Inc head (fl_refs s head)))"
| "fl_advance (Get_Inc head refs) s =
     (if fl_refs s head = refs then (s\<lparr>fl_refs := (fl_refs s)(head := refs + 1)\<rparr>, Some (Get_Next head)) else (s, Some Get_Load))"
| "fl_advance (Get_Next head) s = (s, Some (Get_Cas head (fl_next s head)))"
| "fl_advance (Get_Cas head nx) s =
     (if fl_head s = Some head then (s\<lparr>fl_head := nx\<rparr>, Some (Get_Take head)) else (s, Some (Get_Drop head (fl_head s))))"
| "fl_advance (Get_Take head) s = (s\<lparr>fl_refs := (fl_refs s)(head := fl_refs s head - 2)\<rparr>, None)"
| "fl_advance (Get_Drop prev head) s =
     (s\<lparr>fl_refs := (fl_refs s)(prev := fl_refs s prev - 1)\<rparr>,
      if fl_refs s prev = SHOULD_BE_ON_FREELIST + 1 then Some (Akz_Load prev (Resume head)) else get_at head)"

text \<open>
  Calls are interleaved without restriction; fewer than two to the 29 are in progress. Only a
  block in use is added, and is not in use from then on; a block that \<open>try_get\<close> returns is.
\<close>

inductive fl_step :: "free_list \<times> nat set \<times> fl_act multiset \<Rightarrow> free_list \<times> nat set \<times> fl_act multiset \<Rightarrow> bool" where
  add: "size A < 2 ^ 29 \<Longrightarrow> n \<in> H \<Longrightarrow> fl_step (s, H, A) (s, H - {n}, add_mset (Add n) A)"
| get: "size A < 2 ^ 29 \<Longrightarrow> fl_step (s, H, A) (s, H, add_mset Get_Load A)"
| advance: "fl_advance a s = (s', nxt) \<Longrightarrow> H' = (case a of Get_Take n \<Rightarrow> insert n H | _ \<Rightarrow> H) \<Longrightarrow>
    fl_step (s, H, add_mset a A) (s', H', opt_mset nxt + A)"

inductive fl_reach :: "free_list \<Rightarrow> nat set \<Rightarrow> fl_act multiset \<Rightarrow> bool" where
  start: "fl_reach (FreeList_new nx) UNIV {#}"
| step: "fl_reach s H A \<Longrightarrow> fl_step (s, H, A) (s', H', A') \<Longrightarrow> fl_reach s' H' A'"

section \<open>The invariant\<close>

text \<open>
  The references a thread holds (\<open>Get_Take\<close> has its own and the list's); the block it has in
  hand; whether that has its top bit set (\<open>flagged\<close>) or, on trial, the list's reference.
\<close>

fun refs_on :: "fl_act \<Rightarrow> nat multiset" where
  "refs_on (Get_Next n) = {#n#}"
| "refs_on (Get_Cas n nx) = {#n#}"
| "refs_on (Get_Take n) = {#n, n#}"
| "refs_on (Get_Drop n head) = {#n#}"
| "refs_on _ = {#}"

fun in_hand :: "fl_act \<Rightarrow> nat multiset" where
  "in_hand (Add n) = {#n#}"
| "in_hand (Akz_Load n k) = {#n#}"
| "in_hand (Akz_Next n head k) = {#n#}"
| "in_hand (Akz_Refs n head k) = {#n#}"
| "in_hand (Akz_Cas n head k) = {#n#}"
| "in_hand (Akz_Fail n head k) = {#n#}"
| "in_hand (Get_Take n) = {#n#}"
| "in_hand _ = {#}"

fun flagged :: "fl_act \<Rightarrow> nat multiset" where
  "flagged (Akz_Load n k) = {#n#}"
| "flagged (Akz_Next n head k) = {#n#}"
| "flagged (Akz_Refs n head k) = {#n#}"
| "flagged _ = {#}"

fun on_trial :: "fl_act \<Rightarrow> nat multiset" where
  "on_trial (Akz_Cas n head k) = {#n#}"
| "on_trial (Akz_Fail n head k) = {#n#}"
| "on_trial _ = {#}"

definition per_node :: "(fl_act \<Rightarrow> nat multiset) \<Rightarrow> fl_act multiset \<Rightarrow> nat \<Rightarrow> nat" where
  "per_node f A n = count (\<Sum>a \<in># A. f a) n"

lemma per_node_simps [simp]: "per_node f {#} n = 0" "per_node f (add_mset a A) n = count (f a) n + per_node f A n"
  "per_node f (A + B) n = per_node f A n + per_node f B n"
  by (simp_all add: per_node_def)

definition listed :: "nat list \<Rightarrow> nat \<Rightarrow> nat" where
  "listed L n = count (mset L) n"

lemma listed_simps [simp]: "listed [] n = 0" "listed (m # L) n = of_bool (m = n) + listed L n"
  by (simp_all add: listed_def)

lemma listed_zero: "listed L n = 0 \<longleftrightarrow> n \<notin> set L"
  unfolding listed_def by (metis count_mset_0_iff)

text \<open>
  One block: it is in one place at most; the count is what it should be; the top bit is set
  when it is in hand and flagged, or nowhere, and then somebody has a reference to drop.
\<close>

definition node_ok :: "nat \<Rightarrow> bool \<Rightarrow> nat \<Rightarrow> nat \<Rightarrow> nat \<Rightarrow> nat \<Rightarrow> nat \<Rightarrow> bool" where
  "node_ok refs held on_list hand held_refs flag trial \<longleftrightarrow>
     of_bool held + on_list + hand \<le> 1
     \<and> refs = held_refs + on_list + trial + 2 ^ 31 * (flag + of_bool (of_bool held + on_list + hand = 0))
     \<and> (0 < flag \<longrightarrow> held_refs = 0) \<and> (of_bool held + on_list + hand = 0 \<longrightarrow> 0 < held_refs)"

fun fl_act_ok :: "free_list \<Rightarrow> fl_act \<Rightarrow> bool" where
  "fl_act_ok s (Akz_Refs n head k) \<longleftrightarrow> fl_next s n = head"
| "fl_act_ok s (Akz_Cas n head k) \<longleftrightarrow> fl_next s n = head"
| "fl_act_ok s (Get_Inc n refs) \<longleftrightarrow> refs AND REFS_MASK \<noteq> 0"
| "fl_act_ok s (Get_Cas n nx) \<longleftrightarrow> fl_next s n = nx"
| "fl_act_ok s _ \<longleftrightarrow> True"

definition fl_inv :: "free_list \<Rightarrow> nat set \<Rightarrow> fl_act multiset \<Rightarrow> nat list \<Rightarrow> bool" where
  "fl_inv s H A L \<longleftrightarrow>
     links (fl_next s) (fl_head s) L
     \<and> (\<forall>n. node_ok (unat (fl_refs s n)) (n \<in> H) (listed L n) (per_node in_hand A n) (per_node refs_on A n)
            (per_node flagged A n) (per_node on_trial A n))
     \<and> (\<forall>a \<in># A. fl_act_ok s a) \<and> size A \<le> 2 ^ 29"

lemma fl_invD:
  assumes "fl_inv s H A L"
  shows "links (fl_next s) (fl_head s) L"
    and "node_ok (unat (fl_refs s n)) (n \<in> H) (listed L n) (per_node in_hand A n) (per_node refs_on A n)
            (per_node flagged A n) (per_node on_trial A n)"
    and "a \<in># A \<Longrightarrow> fl_act_ok s a" and "size A \<le> 2 ^ 29"
  using assms unfolding fl_inv_def by blast+

lemma act_counts: "count (flagged a) n + count (on_trial a) n \<le> count (in_hand a) n" "count (refs_on a) n \<le> 2"
  by (cases a; simp)+

lemma per_node_le: "per_node flagged A n + per_node on_trial A n \<le> per_node in_hand A n" "per_node refs_on A n \<le> 2 * size A"
proof (induction A)
  case (add a A)
  { case 1 show ?case using add(1) act_counts(1) [of a n] by simp }
  { case 2 show ?case using add(2) act_counts(2) [of a n] by simp }
qed simp_all

lemma per_node_pos: "0 < per_node f A n \<longleftrightarrow> (\<exists>a \<in># A. n \<in># f a)"
  by (induction A) auto

text \<open>What is known of the block of the step that is taken.\<close>

lemma node_facts:
  assumes inv: "fl_inv s H (add_mset a A) L"
  shows "of_bool (n \<in> H) + listed L n + (count (in_hand a) n + per_node in_hand A n) \<le> 1"
    and "unat (fl_refs s n) = count (refs_on a) n + per_node refs_on A n + listed L n + (count (on_trial a) n + per_node on_trial A n)
      + 2 ^ 31 * (count (flagged a) n + per_node flagged A n
          + of_bool (of_bool (n \<in> H) + listed L n + (count (in_hand a) n + per_node in_hand A n) = 0))"
    and "0 < count (flagged a) n + per_node flagged A n \<Longrightarrow> count (refs_on a) n + per_node refs_on A n = 0"
    and "of_bool (n \<in> H) + listed L n + (count (in_hand a) n + per_node in_hand A n) = 0 \<Longrightarrow> 0 < count (refs_on a) n + per_node refs_on A n"
    and "per_node refs_on A n < 2 ^ 30"
    and "per_node flagged A n + per_node on_trial A n \<le> per_node in_hand A n"
  using fl_invD(2) [OF inv, of n] fl_invD(4) [OF inv] per_node_le [where A = A and n = n]
  by (simp_all add: node_ok_def)

lemma fl_inv_change:
  assumes inv: "fl_inv s H (add_mset a A) L" and "links (fl_next s') (fl_head s') L'"
    and other: "\<And>m. m \<noteq> n \<Longrightarrow> fl_refs s' m = fl_refs s m \<and> (m \<in> H' \<longleftrightarrow> m \<in> H) \<and> listed L' m = listed L m
      \<and> (\<forall>f \<in> {in_hand, refs_on, flagged, on_trial}. count (f a) m = per_node f (opt_mset nxt) m)"
    and here: "node_ok (unat (fl_refs s' n)) (n \<in> H') (listed L' n) (per_node in_hand (opt_mset nxt + A) n)
      (per_node refs_on (opt_mset nxt + A) n) (per_node flagged (opt_mset nxt + A) n) (per_node on_trial (opt_mset nxt + A) n)"
    and "\<And>b. b \<in># A \<Longrightarrow> fl_act_ok s b \<Longrightarrow> fl_act_ok s' b" "\<And>b. nxt = Some b \<Longrightarrow> fl_act_ok s' b"
  shows "fl_inv s' H' (opt_mset nxt + A) L'"
  unfolding fl_inv_def
proof (intro conjI allI ballI)
  fix m
  show "node_ok (unat (fl_refs s' m)) (m \<in> H') (listed L' m) (per_node in_hand (opt_mset nxt + A) m)
      (per_node refs_on (opt_mset nxt + A) m) (per_node flagged (opt_mset nxt + A) m) (per_node on_trial (opt_mset nxt + A) m)"
  proof (cases "m = n")
    case False
    then show ?thesis using other [OF False] fl_invD(2) [OF inv, of m] by simp
  qed (use here in simp)
next
  fix b assume "b \<in># opt_mset nxt + A"
  then show "fl_act_ok s' b" using assms(5,6) fl_invD(3) [OF inv] by (cases nxt) auto
next
  show "size (opt_mset nxt + A) \<le> 2 ^ 29" using fl_invD(4) [OF inv] by (cases nxt) auto
qed fact

lemma fl_act_ok_update [simp]: "fl_act_ok (s\<lparr>fl_refs := r\<rparr>) b = fl_act_ok s b" "fl_act_ok (s\<lparr>fl_head := h\<rparr>) b = fl_act_ok s b"
  by (cases b; simp)+

lemma cont_counts [simp]: "per_node in_hand (opt_mset (get_at h)) n = 0" "per_node refs_on (opt_mset (get_at h)) n = 0"
  "per_node flagged (opt_mset (get_at h)) n = 0" "per_node on_trial (opt_mset (get_at h)) n = 0"
  "per_node in_hand (opt_mset (fl_continue k)) n = 0" "per_node refs_on (opt_mset (fl_continue k)) n = 0"
  "per_node flagged (opt_mset (fl_continue k)) n = 0" "per_node on_trial (opt_mset (fl_continue k)) n = 0"
  by (cases h; simp add: get_at_def; fail | (cases k rule: fl_continue.cases; simp add: get_at_def opt_mset_def split: option.splits))+

lemma cont_ok: "get_at h = Some b \<Longrightarrow> fl_act_ok s b" "fl_continue k = Some b \<Longrightarrow> fl_act_ok s b"
  by (auto simp: get_at_def) (cases k; auto simp: get_at_def)

section \<open>The steps\<close>

lemma unat_flag: "unat r < 2 ^ 31 \<Longrightarrow> unat (r + SHOULD_BE_ON_FREELIST) = unat r + 2 ^ 31"
  by (simp add: SHOULD_BE_ON_FREELIST_def unat_word_ariths)

lemma unat_flag_less: "0 < unat r \<Longrightarrow> unat r < 2 ^ 31 \<Longrightarrow> unat (r + (SHOULD_BE_ON_FREELIST - 1)) = unat r + 2 ^ 31 - 1"
  by (simp add: SHOULD_BE_ON_FREELIST_def unat_word_ariths)

lemma low_bits: "r AND REFS_MASK = 0 \<longleftrightarrow> unat r mod 2 ^ 31 = 0"
proof -
  have "REFS_MASK = mask 31" by (simp add: REFS_MASK_def mask_eq_exp_minus_1)
  then have "r AND REFS_MASK = take_bit 31 r" by (simp add: take_bit_eq_mask)
  then have "unat (r AND REFS_MASK) = take_bit 31 (unat r)" by (simp only: unsigned_take_bit_eq)
  then have "unat (r AND REFS_MASK) = unat r mod 2 ^ 31" by (simp only: take_bit_eq_mod)
  then show ?thesis by (metis unat_0 unat_eq_zero)
qed

text \<open>A block in a thread's hand is nowhere else.\<close>

lemma in_hand_alone:
  assumes inv: "fl_inv s H (add_mset a A) L" and a: "count (in_hand a) n = 1"
  shows "n \<notin> H" "listed L n = 0" "per_node in_hand A n = 0" "per_node flagged A n = 0" "per_node on_trial A n = 0"
    and "unat (fl_refs s n) = count (refs_on a) n + per_node refs_on A n + count (on_trial a) n + 2 ^ 31 * count (flagged a) n"
    and "0 < count (flagged a) n \<Longrightarrow> per_node refs_on A n = 0"
proof -
  define l where "l = listed L n"
  note f = node_facts [OF inv, of n, folded l_def, unfolded a]
  have z: "of_bool (n \<in> H) = (0 :: nat)" "l = 0" "per_node in_hand A n = 0" using f(1) by linarith+
  moreover from z(3) f(6) have "per_node flagged A n = 0" "per_node on_trial A n = 0" by linarith+
  ultimately show "n \<notin> H" "listed L n = 0" "per_node in_hand A n = 0" "per_node flagged A n = 0" "per_node on_trial A n = 0"
    "unat (fl_refs s n) = count (refs_on a) n + per_node refs_on A n + count (on_trial a) n + 2 ^ 31 * count (flagged a) n"
    "0 < count (flagged a) n \<Longrightarrow> per_node refs_on A n = 0"
    using f(2,3) by (simp_all add: l_def)
qed

lemma fl_inv_add:
  assumes inv: "fl_inv s H (add_mset (Add n) A) L" and step: "fl_advance (Add n) s = (s', nxt)"
  shows "fl_inv s' H (opt_mset nxt + A) L"
proof (rule fl_inv_change [OF inv, of s' L n])
  note f = in_hand_alone [OF inv, of n] and small = node_facts(5) [OF inv, of n]
  show "links (fl_next s') (fl_head s') L" using fl_invD(1) [OF inv] step by auto
  show "node_ok (unat (fl_refs s' n)) (n \<in> H) (listed L n) (per_node in_hand (opt_mset nxt + A) n)
      (per_node refs_on (opt_mset nxt + A) n) (per_node flagged (opt_mset nxt + A) n) (per_node on_trial (opt_mset nxt + A) n)"
  proof (cases "fl_refs s n = 0")
    case True
    then show ?thesis using f unat_flag [of "fl_refs s n"] step by (auto simp: node_ok_def)
  next
    case False
    then have "0 < unat (fl_refs s n)" by (simp add: unat_gt_0)
    then show ?thesis using False f small unat_flag [of "fl_refs s n"] step by (auto simp: node_ok_def)
  qed
qed (use step in \<open>auto split: if_splits\<close>)

lemma fl_inv_reads:
  assumes inv: "fl_inv s H (add_mset a A) L" and step: "fl_advance a s = (s', nxt)"
    and a: "a = Akz_Load n k \<or> a = Get_Load \<or> a = Get_Refs n \<or> a = Get_Next n"
  shows "fl_inv s' H (opt_mset nxt + A) L"
proof (rule fl_inv_change [OF inv, of s' L n])
  show "links (fl_next s') (fl_head s') L" using fl_invD(1) [OF inv] step a by auto
  show "node_ok (unat (fl_refs s' n)) (n \<in> H) (listed L n) (per_node in_hand (opt_mset nxt + A) n)
      (per_node refs_on (opt_mset nxt + A) n) (per_node flagged (opt_mset nxt + A) n) (per_node on_trial (opt_mset nxt + A) n)"
    using fl_invD(2) [OF inv, of n] step a by (auto split: if_splits)
next
  show "fl_refs s' m = fl_refs s m \<and> (m \<in> H \<longleftrightarrow> m \<in> H) \<and> listed L m = listed L m
      \<and> (\<forall>f \<in> {in_hand, refs_on, flagged, on_trial}. count (f a) m = per_node f (opt_mset nxt) m)" if "m \<noteq> n" for m
    using step a that by (auto split: if_splits)
  show "fl_act_ok s b \<Longrightarrow> fl_act_ok s' b" for b using step a by (auto split: if_splits)
  show "nxt = Some b \<Longrightarrow> fl_act_ok s' b" for b using step a cont_ok(1) [of "fl_head s" b s] by (auto split: if_splits)
qed

lemma in_hand_once:
  assumes inv: "fl_inv s H (add_mset a A) L" and a: "count (in_hand a) n = 1" and b: "b \<in># A"
  shows "n \<notin># in_hand b"
  using in_hand_alone(3) [OF inv a] b per_node_pos [of in_hand A n] by auto

lemma fl_inv_akz_next:
  assumes inv: "fl_inv s H (add_mset (Akz_Next n head k) A) L"
  shows "fl_inv (s\<lparr>fl_next := (fl_next s)(n := head)\<rparr>) H (opt_mset (Some (Akz_Refs n head k)) + A) L"
proof (rule fl_inv_change [OF inv, of _ L n])
  note f = in_hand_alone [OF inv, of n]
  show "links (fl_next (s\<lparr>fl_next := (fl_next s)(n := head)\<rparr>)) (fl_head (s\<lparr>fl_next := (fl_next s)(n := head)\<rparr>)) L"
    using fl_invD(1) [OF inv] f(2) by (simp add: listed_zero)
  fix b assume b: "b \<in># A" "fl_act_ok s b"
  have "n \<notin># in_hand b" using in_hand_once [OF inv _ b(1)] by simp
  moreover have "n \<notin># refs_on b" using f(7) per_node_pos [of refs_on A n] b(1) by auto
  ultimately show "fl_act_ok (s\<lparr>fl_next := (fl_next s)(n := head)\<rparr>) b" using b(2) by (cases b) auto
qed (use fl_invD(2) [OF inv, of n] in auto)

lemma fl_inv_akz_refs:
  assumes inv: "fl_inv s H (add_mset (Akz_Refs n head k) A) L"
  shows "fl_inv (s\<lparr>fl_refs := (fl_refs s)(n := 1)\<rparr>) H (opt_mset (Some (Akz_Cas n head k)) + A) L"
proof (rule fl_inv_change [OF inv, of _ L n])
  note f = in_hand_alone [OF inv, of n]
  show "node_ok (unat (fl_refs (s\<lparr>fl_refs := (fl_refs s)(n := 1)\<rparr>) n)) (n \<in> H) (listed L n)
      (per_node in_hand (opt_mset (Some (Akz_Cas n head k)) + A) n) (per_node refs_on (opt_mset (Some (Akz_Cas n head k)) + A) n)
      (per_node flagged (opt_mset (Some (Akz_Cas n head k)) + A) n) (per_node on_trial (opt_mset (Some (Akz_Cas n head k)) + A) n)"
    using f by (simp add: node_ok_def)
qed (use fl_invD(1) [OF inv] fl_invD(3) [OF inv, of "Akz_Refs n head k"] in auto)

lemma fl_inv_akz_cas:
  assumes inv: "fl_inv s H (add_mset (Akz_Cas n head k) A) L" and step: "fl_advance (Akz_Cas n head k) s = (s', nxt)"
  shows "\<exists>L'. fl_inv s' H (opt_mset nxt + A) L'"
proof (cases "fl_head s = head")
  case True
  note f = in_hand_alone [OF inv, of n]
  have s': "s' = s\<lparr>fl_head := Some n\<rparr>" "nxt = fl_continue k" using step True by simp_all
  have "fl_inv s' H (opt_mset nxt + A) (n # L)"
    unfolding s'
  proof (rule fl_inv_change [OF inv, of _ "n # L" n])
    show "links (fl_next (s\<lparr>fl_head := Some n\<rparr>)) (fl_head (s\<lparr>fl_head := Some n\<rparr>)) (n # L)"
      using fl_invD(1) [OF inv] fl_invD(3) [OF inv, of "Akz_Cas n head k"] True by simp
    show "node_ok (unat (fl_refs (s\<lparr>fl_head := Some n\<rparr>) n)) (n \<in> H) (listed (n # L) n)
      (per_node in_hand (opt_mset (fl_continue k) + A) n) (per_node refs_on (opt_mset (fl_continue k) + A) n)
      (per_node flagged (opt_mset (fl_continue k) + A) n) (per_node on_trial (opt_mset (fl_continue k) + A) n)"
      using f by (simp add: node_ok_def)
  qed (use cont_ok in auto)
  then show ?thesis by blast
next
  case False
  have s': "s' = s" "nxt = Some (Akz_Fail n (fl_head s) k)" using step False by auto
  have "fl_inv s' H (opt_mset nxt + A) L"
    unfolding s' by (rule fl_inv_change [OF inv, of _ L n]) (use fl_invD(1) [OF inv] fl_invD(2) [OF inv, of n] False in auto)
  then show ?thesis by blast
qed

lemma fl_inv_akz_fail:
  assumes inv: "fl_inv s H (add_mset (Akz_Fail n head k) A) L" and step: "fl_advance (Akz_Fail n head k) s = (s', nxt)"
  shows "fl_inv s' H (opt_mset nxt + A) L"
proof (rule fl_inv_change [OF inv, of s' L n])
  note f = in_hand_alone [OF inv, of n] and small = node_facts(5) [OF inv, of n]
  show "links (fl_next s') (fl_head s') L" using fl_invD(1) [OF inv] step by auto
  have u: "unat (fl_refs s n) = per_node refs_on A n + 1" using f(6) by simp
  then have new: "unat (fl_refs s n + (SHOULD_BE_ON_FREELIST - 1)) = per_node refs_on A n + 2 ^ 31"
    using unat_flag_less [of "fl_refs s n"] small by simp
  have "fl_refs s n = 1 \<longleftrightarrow> per_node refs_on A n = 0" using u by (simp add: word_unat_eq_iff)
  then show "node_ok (unat (fl_refs s' n)) (n \<in> H) (listed L n) (per_node in_hand (opt_mset nxt + A) n)
      (per_node refs_on (opt_mset nxt + A) n) (per_node flagged (opt_mset nxt + A) n) (per_node on_trial (opt_mset nxt + A) n)"
    using f new step by (cases "fl_refs s n = 1") (auto simp: node_ok_def)
  show "nxt = Some b \<Longrightarrow> fl_act_ok s' b" for b using step cont_ok(2) [of k b s'] by (auto split: if_splits)
qed (use step in \<open>auto split: if_splits\<close>)

lemma fl_inv_get_inc:
  assumes inv: "fl_inv s H (add_mset (Get_Inc n r) A) L" and step: "fl_advance (Get_Inc n r) s = (s', nxt)"
  shows "fl_inv s' H (opt_mset nxt + A) L"
proof (rule fl_inv_change [OF inv, of s' L n])
  note f = node_facts [OF inv, of n, folded listed_def]
  show "links (fl_next s') (fl_head s') L" using fl_invD(1) [OF inv] step by (auto split: if_splits)
  show "node_ok (unat (fl_refs s' n)) (n \<in> H) (listed L n) (per_node in_hand (opt_mset nxt + A) n)
      (per_node refs_on (opt_mset nxt + A) n) (per_node flagged (opt_mset nxt + A) n) (per_node on_trial (opt_mset nxt + A) n)"
  proof (cases "fl_refs s n = r")
    case True
    have low: "unat (fl_refs s n) mod 2 ^ 31 \<noteq> 0" using fl_invD(3) [OF inv, of "Get_Inc n r"] True low_bits by simp
    have flag: "per_node flagged A n = 0"
    proof (rule ccontr)
      assume "per_node flagged A n \<noteq> 0"
      then have hand: "per_node flagged A n = 1" "per_node in_hand A n = 1" "per_node on_trial A n = 0" "listed L n = 0" "n \<notin> H"
        using f(1,6) by (auto split: if_splits)
      then have "unat (fl_refs s n) = 2 ^ 31" using f(2,3) by simp
      then show False using low by simp
    qed
    have "listed L n \<le> 1" "per_node on_trial A n \<le> 1" using f(1,6) by linarith+
    then have "unat (fl_refs s n) < 2 ^ 31 + 2 ^ 30 + 3" using f(2,5) flag by (auto split: if_splits)
    then have "unat (r + 1) = unat r + 1" using True by (simp add: unat_word_ariths)
    then show ?thesis using f flag step True by (auto simp: node_ok_def)
  qed (use step fl_invD(2) [OF inv, of n] in auto)
qed (use step in \<open>auto split: if_splits\<close>)

lemma fl_inv_get_cas:
  assumes inv: "fl_inv s H (add_mset (Get_Cas n nx) A) L" and step: "fl_advance (Get_Cas n nx) s = (s', nxt)"
  shows "\<exists>L'. fl_inv s' H (opt_mset nxt + A) L'"
proof (cases "fl_head s = Some n")
  case True
  then obtain L' where L: "L = n # L'" "links (fl_next s) (fl_next s n) L'"
    using fl_invD(1) [OF inv] links_head by metis
  note f = node_facts [OF inv, of n, folded listed_def]
  have s': "s' = s\<lparr>fl_head := nx\<rparr>" "nxt = Some (Get_Take n)" using step True by simp_all
  have one: "listed L' n = 0" "per_node in_hand A n = 0" "n \<notin> H" using f(1) L(1) by (auto split: if_splits)
  have "fl_inv s' H (opt_mset nxt + A) L'"
    unfolding s'
  proof (rule fl_inv_change [OF inv, of _ L' n])
    show "links (fl_next (s\<lparr>fl_head := nx\<rparr>)) (fl_head (s\<lparr>fl_head := nx\<rparr>)) L'"
      using L(2) fl_invD(3) [OF inv, of "Get_Cas n nx"] by simp
    show "node_ok (unat (fl_refs (s\<lparr>fl_head := nx\<rparr>) n)) (n \<in> H) (listed L' n)
      (per_node in_hand (opt_mset (Some (Get_Take n)) + A) n) (per_node refs_on (opt_mset (Some (Get_Take n)) + A) n)
      (per_node flagged (opt_mset (Some (Get_Take n)) + A) n) (per_node on_trial (opt_mset (Some (Get_Take n)) + A) n)"
      using f(2,6) one L(1) by (simp add: node_ok_def)
  qed (use L(1) in auto)
  then show ?thesis by blast
next
  case False
  then have s': "s' = s" "nxt = Some (Get_Drop n (fl_head s))" using step by auto
  have "fl_inv s' H (opt_mset nxt + A) L"
    unfolding s' by (rule fl_inv_change [OF inv, of _ L n]) (use fl_invD(1) [OF inv] fl_invD(2) [OF inv, of n] in auto)
  then show ?thesis by blast
qed

lemma fl_inv_get_take:
  assumes inv: "fl_inv s H (add_mset (Get_Take n) A) L" and step: "fl_advance (Get_Take n) s = (s', nxt)"
  shows "n \<notin> H \<and> fl_inv s' (insert n H) (opt_mset nxt + A) L"
proof
  note f = in_hand_alone [OF inv, of n]
  show "n \<notin> H" using f by simp
  have s': "s' = s\<lparr>fl_refs := (fl_refs s)(n := fl_refs s n - 2)\<rparr>" "nxt = None" using step by simp_all
  have u: "unat (fl_refs s n) = per_node refs_on A n + 2" using f(6) by simp
  then have "2 \<le> fl_refs s n" by (simp add: word_le_nat_alt)
  then have "unat (fl_refs s n - 2) = per_node refs_on A n" using u by (simp add: unat_sub)
  then show "fl_inv s' (insert n H) (opt_mset nxt + A) L"
    unfolding s'
    by (intro fl_inv_change [OF inv, of _ L n]) (use fl_invD(1) [OF inv] f in \<open>auto simp: node_ok_def\<close>)
qed

lemma fl_inv_get_drop:
  assumes inv: "fl_inv s H (add_mset (Get_Drop n head) A) L" and step: "fl_advance (Get_Drop n head) s = (s', nxt)"
  shows "fl_inv s' H (opt_mset nxt + A) L"
proof (rule fl_inv_change [OF inv, of s' L n])
  note f = node_facts [OF inv, of n, folded listed_def]
  let ?r = "fl_refs s n" and ?nowhere = "of_bool (n \<in> H) + listed L n + per_node in_hand A n = 0"
  show "links (fl_next s') (fl_head s') L" using fl_invD(1) [OF inv] step by auto
  have flag: "per_node flagged A n = 0" using f(3) by auto
  have u: "unat ?r = 1 + per_node refs_on A n + listed L n + per_node on_trial A n + 2 ^ 31 * of_bool ?nowhere"
    using f(2) flag by simp
  have less: "unat (?r - 1) = unat ?r - 1" using u by (simp add: unat_minus_one unat_eq_zero [symmetric])
  have small: "listed L n + per_node on_trial A n \<le> 1" using f(1,6) by linarith
  have last: "?r = SHOULD_BE_ON_FREELIST + 1 \<longleftrightarrow> ?nowhere \<and> per_node refs_on A n = 0"
  proof -
    have "?r = SHOULD_BE_ON_FREELIST + 1 \<longleftrightarrow> unat ?r = 2 ^ 31 + 1" by (simp add: word_unat_eq_iff SHOULD_BE_ON_FREELIST_def)
    then show ?thesis using u small f(5,6) by (cases ?nowhere) auto
  qed
  show "node_ok (unat (fl_refs s' n)) (n \<in> H) (listed L n) (per_node in_hand (opt_mset nxt + A) n)
      (per_node refs_on (opt_mset nxt + A) n) (per_node flagged (opt_mset nxt + A) n) (per_node on_trial (opt_mset nxt + A) n)"
  proof (cases "?r = SHOULD_BE_ON_FREELIST + 1")
    case True
    then show ?thesis using last u less f(6) flag step by (auto simp: node_ok_def)
  next
    case False
    then show ?thesis using last u less f(1) flag step by (auto simp: node_ok_def)
  qed
  show "nxt = Some b \<Longrightarrow> fl_act_ok s' b" for b using step cont_ok(1) [of head b s'] by (auto split: if_splits)
qed (use step in \<open>auto split: if_splits\<close>)

lemma fl_inv_advance:
  assumes inv: "fl_inv s H (add_mset a A) L" and step: "fl_advance a s = (s', nxt)"
    and H': "H' = (case a of Get_Take n \<Rightarrow> insert n H | _ \<Rightarrow> H)"
  shows "\<exists>L'. fl_inv s' H' (opt_mset nxt + A) L'"
proof (cases a)
  case (Add n)
  then show ?thesis using fl_inv_add inv step H' by fastforce
next
  case (Akz_Next n head k)
  then show ?thesis using fl_inv_akz_next inv step H' by fastforce
next
  case (Akz_Refs n head k)
  then show ?thesis using fl_inv_akz_refs inv step H' by fastforce
next
  case (Akz_Cas n head k)
  then show ?thesis using fl_inv_akz_cas inv step H' by simp
next
  case (Akz_Fail n head k)
  then show ?thesis using fl_inv_akz_fail inv step H' by fastforce
next
  case (Get_Inc n r)
  then show ?thesis using fl_inv_get_inc inv step H' by fastforce
next
  case (Get_Cas n nx)
  then show ?thesis using fl_inv_get_cas inv step H' by simp
next
  case (Get_Take n)
  then show ?thesis using fl_inv_get_take inv step H' by fastforce
next
  case (Get_Drop n head)
  then show ?thesis using fl_inv_get_drop inv step H' by fastforce
qed (use fl_inv_reads [OF inv step] H' in auto)

lemma fl_inv_reach: "fl_reach s H A \<Longrightarrow> \<exists>L. fl_inv s H A L"
proof (induction rule: fl_reach.induct)
  case (start nx)
  show ?case by (intro exI [of _ "[]"]) (simp add: fl_inv_def FreeList_new_def node_ok_def)
next
  case (step s H A s' H' A')
  then obtain L where inv: "fl_inv s H A L" by blast
  from step.hyps(2) show ?case
  proof (cases rule: fl_step.cases)
    case (add n)
    have "node_ok (unat (fl_refs s m)) (m \<in> H') (listed L m) (per_node in_hand A' m) (per_node refs_on A' m)
        (per_node flagged A' m) (per_node on_trial A' m)" for m
      using fl_invD(2) [OF inv, of m] add by (auto simp: node_ok_def)
    then show ?thesis using inv add unfolding fl_inv_def by (intro exI [of _ L]) auto
  next
    case get
    then show ?thesis using inv unfolding fl_inv_def by (intro exI [of _ L]) auto
  next
    case (advance a nxt B)
    then show ?thesis using fl_inv_advance [of s H a B L] inv by metis
  qed
qed

section \<open>Properties\<close>

text \<open>C37: No block is handed out twice and none is lost, in every interleaving: a block is in use,
  on the list, or in the hand of one thread, never in two of these places; one that is in none
  has its top bit set and a thread that still has to drop a reference to it; \<open>try_get\<close> takes no
  block that is in use; and with no call in progress each block is in use or on the list, with
  a count of 0 or 1.\<close>

theorem free_list_keeps_blocks:
  assumes "fl_reach s H A"
  shows "\<exists>L. links (fl_next s) (fl_head s) L \<and> distinct L
    \<and> (\<forall>n. of_bool (n \<in> H) + of_bool (n \<in> set L) + per_node in_hand A n \<le> 1)
    \<and> (\<forall>n. n \<notin> H \<and> n \<notin> set L \<and> per_node in_hand A n = 0 \<longrightarrow> 2 ^ 31 < unat (fl_refs s n) \<and> 0 < per_node refs_on A n)
    \<and> (\<forall>n. Get_Take n \<in># A \<longrightarrow> n \<notin> H)
    \<and> (A = {#} \<longrightarrow> (\<forall>n. (n \<in> H) \<noteq> (n \<in> set L) \<and> fl_refs s n = of_bool (n \<in> set L)))"
proof -
  obtain L where inv: "fl_inv s H A L" using fl_inv_reach [OF assms] by blast
  note node = fl_invD(2) [OF inv, unfolded node_ok_def]
  have d: "distinct L"
    by (rule distinct_if_counts) (use node in \<open>simp add: listed_def\<close>, metis add.commute add_leD2 le_trans trans_le_add2 le_add2)
  then have on: "listed L n = of_bool (n \<in> set L)" for n
    by (simp add: listed_def distinct_count_atmost_1)
  have nowhere: "2 ^ 31 < unat (fl_refs s n) \<and> 0 < per_node refs_on A n" if "n \<notin> H" "n \<notin> set L" "per_node in_hand A n = 0" for n
    using node [of n] that on [of n] by simp
  have take: "n \<notin> H" if n: "Get_Take n \<in># A" for n
  proof -
    have "0 < per_node in_hand A n" unfolding per_node_pos using n by force
    then show ?thesis using node [of n] by (cases "n \<in> H") auto
  qed
  have quiet: "(n \<in> H) \<noteq> (n \<in> set L) \<and> fl_refs s n = of_bool (n \<in> set L)" if "A = {#}" for n
    using node [of n] on [of n] that by (cases "n \<in> H"; cases "n \<in> set L") (simp_all add: word_unat_eq_iff)
  show ?thesis
    using fl_invD(1) [OF inv] d node on nowhere take quiet by (intro exI [of _ L]) auto
qed

text \<open>Block 0 is added to the empty list.\<close>

lemma one_added: "\<exists>s. fl_reach s (UNIV - {0}) {#}"
proof -
  define s0 where "s0 = FreeList_new (\<lambda>_. None)"
  have adv: "fl_reach t H (opt_mset nxt)" if "fl_reach s H {#a#}" "fl_advance a s = (t, nxt)" "\<forall>n. a \<noteq> Get_Take n" for s t H a nxt
  proof -
    have "H = (case a of Get_Take n \<Rightarrow> insert n H | _ \<Rightarrow> H)" using that(3) by (cases a) auto
    from fl_step.advance [where A = "{#}", OF that(2) this] show ?thesis using fl_reach.step [OF that(1)] by simp
  qed
  have "fl_step (s0, UNIV, {#}) (s0, UNIV - {0}, {#Add 0#})" using fl_step.add [of "{#}" 0 UNIV s0] by simp
  then have "fl_reach s0 (UNIV - {0}) {#Add 0#}" unfolding s0_def by (rule fl_reach.step [OF fl_reach.start])
  then have "fl_reach (s0\<lparr>fl_refs := (\<lambda>_. 0)(0 := SHOULD_BE_ON_FREELIST)\<rparr>) (UNIV - {0}) (opt_mset (Some (Akz_Load 0 Return)))" (is "fl_reach ?s1 _ _")
    by (rule adv) (simp_all add: s0_def FreeList_new_def)
  then have "fl_reach ?s1 (UNIV - {0}) {#Akz_Load 0 Return#}" by simp
  then have "fl_reach ?s1 (UNIV - {0}) (opt_mset (Some (Akz_Next 0 None Return)))"
    by (rule adv) (simp_all add: s0_def FreeList_new_def)
  then have "fl_reach ?s1 (UNIV - {0}) {#Akz_Next 0 None Return#}" by simp
  then have "fl_reach (?s1\<lparr>fl_next := (\<lambda>_. None)(0 := None)\<rparr>) (UNIV - {0}) (opt_mset (Some (Akz_Refs 0 None Return)))" (is "fl_reach ?s2 _ _")
    by (rule adv) (simp_all add: s0_def FreeList_new_def)
  then have "fl_reach ?s2 (UNIV - {0}) {#Akz_Refs 0 None Return#}" by simp
  then have "fl_reach (?s2\<lparr>fl_refs := (\<lambda>_. 0)(0 := 1)\<rparr>) (UNIV - {0}) (opt_mset (Some (Akz_Cas 0 None Return)))" (is "fl_reach ?s3 _ _")
    by (rule adv) (simp_all add: s0_def FreeList_new_def)
  then have "fl_reach ?s3 (UNIV - {0}) {#Akz_Cas 0 None Return#}" by simp
  then have "fl_reach (?s3\<lparr>fl_head := Some 0\<rparr>) (UNIV - {0}) (opt_mset None)"
    by (rule adv) (simp_all add: s0_def FreeList_new_def)
  then show ?thesis by auto
qed

theorem free_list_keeps_blocks_witness:
  "\<exists>s H. fl_reach s H {#} \<and> 0 \<notin> H \<and> fl_refs s 0 = 1"
proof -
  obtain s where s: "fl_reach s (UNIV - {0}) {#}" using one_added by blast
  from free_list_keeps_blocks [OF s] have "fl_refs s 0 = 1" by auto
  then show ?thesis using s by blast
qed

end
