(* ===== verification/Block_Pool.thy ===== *)
theory Block_Pool
  imports Free_List Implicit_Producer
begin

unbundle bit_operations_syntax

text \<open>
  Where the sub-queues of a \<open>ConcurrentQueue\<close> get their blocks
  (\<open>moody_camel_queue/concurrentqueue.h\<close>): an array allocated with the queue, of which each block
  is handed out once, then the free list, then new blocks. A block of the array goes to the
  free list when it is empty, another one is destroyed (\<open>RECYCLE_ALLOCATED_BLOCKS\<close> is false).

  The array's blocks are the numbers below its size; \<open>create\<close> returns any other number that is
  not a block at that moment, or fails. The free list is the set of blocks on it, as
  \<open>Free_List\<close> shows it to be: a \<open>try_get\<close> takes one of them, or none.
\<close>

section \<open>Operations\<close>

definition blocks_for_capacity :: "u64 \<Rightarrow> u64" where
  "blocks_for_capacity capacity = capacity div BLOCK_SIZE + (if capacity AND (BLOCK_SIZE - 1) = 0 then 0 else 1)"

record block_pool =
  bp_size :: u64
  bp_index :: u64
  bp_free :: "nat set"
  bp_created :: "nat set"

definition populate_initial_block_list :: "u64 \<Rightarrow> bool \<Rightarrow> block_pool" where
  "populate_initial_block_list block_count allocated =
     \<lparr>bp_size = (if block_count = 0 \<or> \<not> allocated then 0 else block_count), bp_index = 0, bp_free = {}, bp_created = {}\<rparr>"

definition dynamically_allocated :: "block_pool \<Rightarrow> nat \<Rightarrow> bool" where
  "dynamically_allocated s b \<longleftrightarrow> unat (bp_size s) \<le> b"

definition add_block_to_free_list :: "nat \<Rightarrow> block_pool \<Rightarrow> block_pool" where
  "add_block_to_free_list b s =
     (if dynamically_allocated s b then s\<lparr>bp_created := bp_created s - {b}\<rparr> else s\<lparr>bp_free := insert b (bp_free s)\<rparr>)"

text \<open>
  \<open>requisition_block\<close>, access by access: the load and the increment of the array's index, the
  free list, a new block. The result is where the call is then and what it returned.
\<close>

datatype bp_act = Pool_Load | Pool_Add | From_Free_List | Create

inductive bp_advance :: "bp_act \<Rightarrow> block_pool \<Rightarrow> block_pool \<Rightarrow> bp_act option \<Rightarrow> nat option \<Rightarrow> bool" where
  pool_load: "bp_advance Pool_Load s s (Some (if bp_index s \<ge> bp_size s then From_Free_List else Pool_Add)) None"
| pool_block: "bp_index s < bp_size s \<Longrightarrow> bp_advance Pool_Add s (s\<lparr>bp_index := bp_index s + 1\<rparr>) None (Some (unat (bp_index s)))"
| pool_gone: "\<not> bp_index s < bp_size s \<Longrightarrow> bp_advance Pool_Add s (s\<lparr>bp_index := bp_index s + 1\<rparr>) (Some From_Free_List) None"
| recycled: "b \<in> bp_free s \<Longrightarrow> bp_advance From_Free_List s (s\<lparr>bp_free := bp_free s - {b}\<rparr>) None (Some b)"
| none_free: "bp_advance From_Free_List s s (Some Create) None"
| created: "dynamically_allocated s b \<Longrightarrow> b \<notin> bp_created s \<Longrightarrow>
    bp_advance Create s (s\<lparr>bp_created := insert b (bp_created s)\<rparr>) None (Some b)"
| failed: "bp_advance Create s s None None"

text \<open>Any number of threads below two to the 32 requisition blocks and give back those they have.\<close>

inductive bp_step :: "block_pool \<times> nat multiset \<times> bp_act multiset \<Rightarrow> block_pool \<times> nat multiset \<times> bp_act multiset \<Rightarrow> bool" where
  requisition: "size A < 2 ^ 32 \<Longrightarrow> bp_step (s, U, A) (s, U, add_mset Pool_Load A)"
| advance: "bp_advance a s s' nxt r \<Longrightarrow> bp_step (s, U, add_mset a A) (s', opt_mset r + U, opt_mset nxt + A)"
| give_back: "bp_step (s, add_mset b U, A) (add_block_to_free_list b s, U, A)"

inductive bp_reach :: "u64 \<Rightarrow> block_pool \<Rightarrow> nat multiset \<Rightarrow> bp_act multiset \<Rightarrow> bool" for capacity where
  start: "bp_reach capacity (populate_initial_block_list (blocks_for_capacity capacity) allocated) {#} {#}"
| step: "bp_reach capacity s U A \<Longrightarrow> bp_step (s, U, A) (s', U', A') \<Longrightarrow> bp_reach capacity s' U' A'"

section \<open>Properties\<close>

lemma blocks_for_capacity_div: "unat (blocks_for_capacity capacity) = (unat capacity + 31) div 32"
proof -
  have small: "unat capacity < 2 ^ 64" using unsigned_less [of capacity, where ?'a = nat] by simp
  have "unat (capacity div BLOCK_SIZE) = unat capacity div 32" by (simp add: BLOCK_SIZE_def unat_div)
  moreover have "(n + 31) div 32 = n div 32 + (if n mod 32 = 0 then 0 else 1)" for n :: nat
  proof -
    have *: "(32 * q + m + 31) div 32 = q + (if m = 0 then 0 else 1)" if "m < 32" for q m :: nat
      using that by (intro div_nat_eqI) auto
    show ?thesis using * [of "n mod 32" "n div 32"] by simp
  qed
  moreover have "unat (x + 1) = unat x + 1" if "unat x < 2 ^ 60" for x :: u64 using that by (simp add: unat_word_ariths)
  moreover have "unat capacity div 32 < 2 ^ 60" using small by simp
  ultimately show ?thesis by (simp add: blocks_for_capacity_def tail_offset_zero)
qed

definition bp_inv :: "block_pool \<Rightarrow> nat multiset \<Rightarrow> bp_act multiset \<Rightarrow> bool" where
  "bp_inv s U A \<longleftrightarrow>
     unat (bp_size s) < 2 ^ 60 \<and> size A \<le> 2 ^ 32 \<and> unat (bp_index s) + count A Pool_Add \<le> unat (bp_size s) + 2 ^ 32
     \<and> (\<forall>b < unat (bp_size s). count U b + of_bool (b \<in> bp_free s) = of_bool (b < unat (bp_index s)))
     \<and> (\<forall>b \<ge> unat (bp_size s). count U b = of_bool (b \<in> bp_created s) \<and> b \<notin> bp_free s)"

lemma bp_invD:
  assumes "bp_inv s U A"
  shows "unat (bp_size s) < 2 ^ 60" "size A \<le> 2 ^ 32" "unat (bp_index s) + count A Pool_Add \<le> unat (bp_size s) + 2 ^ 32"
    and "b < unat (bp_size s) \<Longrightarrow> count U b + of_bool (b \<in> bp_free s) = of_bool (b < unat (bp_index s))"
    and "unat (bp_size s) \<le> b \<Longrightarrow> count U b = of_bool (b \<in> bp_created s) \<and> b \<notin> bp_free s"
  using assms unfolding bp_inv_def by blast+

lemma bp_inv_new: "bp_inv (populate_initial_block_list (blocks_for_capacity capacity) allocated) {#} {#}"
proof -
  have "unat capacity < 2 ^ 64" using unsigned_less [of capacity, where ?'a = nat] by simp
  then have "unat (blocks_for_capacity capacity) < 2 ^ 60" by (simp add: blocks_for_capacity_div)
  then show ?thesis by (simp add: bp_inv_def populate_initial_block_list_def)
qed

lemma count_le_size: "count A a \<le> size A"
  by (induction A) auto

text \<open>A block that a call returns is nobody's.\<close>

lemma bp_advance_fresh:
  assumes "bp_advance a s s' nxt (Some b)" "bp_inv s U A"
  shows "count U b = 0"
  using assms(1)
proof (cases rule: bp_advance.cases)
  case pool_block
  then show ?thesis using bp_invD(4) [OF assms(2), of b] by (simp add: word_less_nat_alt)
next
  case recycled
  then show ?thesis using bp_invD(4,5) [OF assms(2), of b] by (cases "b < unat (bp_size s)") (auto simp: of_bool_def split: if_splits)
next
  case created
  then show ?thesis using bp_invD(5) [OF assms(2), of b] by (simp add: dynamically_allocated_def)
qed

lemma bp_inv_advance:
  assumes step: "bp_advance a s s' nxt r" and inv: "bp_inv s U (add_mset a A)"
  shows "bp_inv s' (opt_mset r + U) (opt_mset nxt + A)"
proof -
  note i = bp_invD [OF inv]
  have small: "unat (bp_index s + 1) = unat (bp_index s) + 1" using i(1,3) by (simp add: unat_word_ariths)
  show ?thesis
    using step
  proof (cases rule: bp_advance.cases)
    case pool_load
    have "unat (bp_index s) + (1 + count A Pool_Add) \<le> unat (bp_size s) + 2 ^ 32" if "\<not> bp_index s \<ge> bp_size s"
      using that i(2) count_le_size [of A Pool_Add] by (simp add: word_le_nat_alt)
    then show ?thesis using pool_load i(1-3) i(4) i(5) unfolding bp_inv_def by auto
  next
    case pool_block
    then show ?thesis using i small unfolding bp_inv_def by (auto simp: word_less_nat_alt less_Suc_eq)
  next
    case pool_gone
    then show ?thesis using i small unfolding bp_inv_def by (auto simp: word_less_nat_alt)
  next
    case (recycled b)
    then have "b < unat (bp_size s)" using i(5) [of b] by (meson not_le)
    moreover from this have "count U b = 0" "b < unat (bp_index s)" using i(4) [of b] recycled(5) by (auto simp: of_bool_def split: if_splits)
    ultimately show ?thesis using i recycled unfolding bp_inv_def by auto
  next
    case none_free
    then show ?thesis using i unfolding bp_inv_def by auto
  next
    case (created b)
    then show ?thesis using i unfolding bp_inv_def by (auto simp: dynamically_allocated_def)
  next
    case failed
    then show ?thesis using i unfolding bp_inv_def by auto
  qed
qed

lemma bp_inv_reach: "bp_reach capacity s U A \<Longrightarrow> bp_inv s U A"
proof (induction rule: bp_reach.induct)
  case (start allocated)
  show ?case by (rule bp_inv_new)
next
  case (step s U A s' U' A')
  note i = bp_invD [OF step.IH]
  from step.hyps(2) show ?case
  proof (cases rule: bp_step.cases)
    case requisition
    then show ?thesis using step.IH unfolding bp_inv_def by auto
  next
    case (advance a nxt r B)
    then show ?thesis using bp_inv_advance step.IH by blast
  next
    case (give_back b)
    show ?thesis
    proof (cases "b < unat (bp_size s)")
      case True
      then have b: "b \<notin> bp_free s" "b < unat (bp_index s)" using i(4) [of b] give_back(1) by (auto simp: of_bool_def split: if_splits)
      have "count U' c + of_bool (c \<in> insert b (bp_free s)) = of_bool (c < unat (bp_index s))" if "c < unat (bp_size s)" for c
        using i(4) [OF that] b give_back(1) by (cases "c = b") simp_all
      moreover have "count U' c = of_bool (c \<in> bp_created s) \<and> c \<notin> insert b (bp_free s)" if "unat (bp_size s) \<le> c" for c
        using i(5) [OF that] True that give_back(1) by auto
      ultimately show ?thesis using i(1-3) give_back True unfolding bp_inv_def
        by (simp add: add_block_to_free_list_def dynamically_allocated_def)
    next
      case False
      then have b: "b \<in> bp_created s" "count U' b = 0" using i(5) [of b] give_back(1) by (auto simp: of_bool_def split: if_splits)
      have "count U' c + of_bool (c \<in> bp_free s) = of_bool (c < unat (bp_index s))" if "c < unat (bp_size s)" for c
        using i(4) [OF that] False that give_back(1) by (cases "c = b") simp_all
      moreover have "count U' c = of_bool (c \<in> bp_created s - {b}) \<and> c \<notin> bp_free s" if "unat (bp_size s) \<le> c" for c
        using i(5) [OF that] b give_back(1) by (cases "c = b") simp_all
      ultimately show ?thesis using i(1-3) give_back False unfolding bp_inv_def
        by (simp add: add_block_to_free_list_def dynamically_allocated_def)
    qed
  qed
qed

lemma bp_advance_size: "bp_advance a s s' nxt r \<Longrightarrow> bp_size s' = bp_size s"
  by (erule bp_advance.cases) simp_all

lemma bp_reach_size: "bp_reach capacity s U A \<Longrightarrow> bp_size s = 0 \<or> bp_size s = blocks_for_capacity capacity"
proof (induction rule: bp_reach.induct)
  case (step s U A s' U' A')
  from step.hyps(2) have "bp_size s' = bp_size s"
    by (cases rule: bp_step.cases) (auto simp: add_block_to_free_list_def dest: bp_advance_size)
  then show ?case using step.IH by simp
qed (simp add: populate_initial_block_list_def)

text \<open>C38: No block belongs to two sub-queues: the blocks in use, those on the free list and those of
  the array not handed out yet are all different; every block of the array that was handed out
  is in use or on the free list; a requisition never returns a block in use; and the array holds
  the capacity asked for.\<close>

theorem requisitioned_blocks_are_nobodys:
  assumes "bp_reach capacity s U A"
  shows "(\<forall>b. count U b + of_bool (b \<in> bp_free s) \<le> 1)
    \<and> (\<forall>b < unat (bp_size s). b \<in># U \<or> b \<in> bp_free s \<longleftrightarrow> b < unat (bp_index s))
    \<and> (\<forall>a s' nxt b. bp_advance a s s' nxt (Some b) \<longrightarrow> b \<notin># U)
    \<and> (unat (bp_size s) = 0 \<or> unat capacity \<le> 32 * unat (bp_size s))"
proof -
  have inv: "bp_inv s U A" by (rule bp_inv_reach [OF assms])
  note i = bp_invD [OF inv]
  have "count U b + of_bool (b \<in> bp_free s) \<le> 1" for b
    using i(4,5) [of b] by (cases "b < unat (bp_size s)") simp_all
  moreover have "b \<in># U \<or> b \<in> bp_free s \<longleftrightarrow> b < unat (bp_index s)" if "b < unat (bp_size s)" for b
    using i(4) [OF that] by (cases "b \<in> bp_free s"; cases "b < unat (bp_index s)") (simp_all add: not_in_iff, metis count_inI One_nat_def zero_neq_one)
  moreover have "b \<notin># U" if "bp_advance a s s' nxt (Some b)" for a s' nxt b
    using bp_advance_fresh [OF that inv] by (simp add: not_in_iff)
  moreover have "unat (bp_size s) = 0 \<or> unat capacity \<le> 32 * unat (bp_size s)"
  proof -
    have "n \<le> 32 * ((n + 31) div 32)" for n :: nat
      using mult_div_mod_eq [of 32 "n + 31"] mod_less_divisor [of 32 "n + 31"] by linarith
    then show ?thesis using bp_reach_size [OF assms] by (auto simp: blocks_for_capacity_div)
  qed
  ultimately show ?thesis by blast
qed

lemma first_block: "\<exists>s. bp_reach 192 s {#0#} {#} \<and> bp_size s = 6"
proof -
  let ?s = "populate_initial_block_list (blocks_for_capacity 192) True"
  have s: "?s = \<lparr>bp_size = 6, bp_index = 0, bp_free = {}, bp_created = {}\<rparr>"
    by (simp add: populate_initial_block_list_def blocks_for_capacity_def BLOCK_SIZE_def)
  have adv: "bp_reach 192 t (opt_mset r) (opt_mset nxt)" if "bp_reach 192 s {#} {#a#}" "bp_advance a s t nxt r" for s t nxt r a
    using bp_reach.step [OF that(1)] bp_step.advance [OF that(2), of "{#}" "{#}"] by simp
  have "bp_step (?s, {#}, {#}) (?s, {#}, {#Pool_Load#})" using bp_step.requisition [of "{#}" ?s "{#}"] by simp
  then have "bp_reach 192 ?s {#} {#Pool_Load#}" by (rule bp_reach.step [OF bp_reach.start])
  from adv [OF this bp_advance.pool_load] have "bp_reach 192 ?s {#} {#Pool_Add#}" using s by simp
  from adv [OF this bp_advance.pool_block] have "bp_reach 192 (?s\<lparr>bp_index := 1\<rparr>) {#0#} {#}" using s by simp
  then show ?thesis using s by auto
qed

theorem requisitioned_blocks_are_nobodys_witness:
  "\<exists>s. bp_reach 192 s {#0#} {#} \<and> 0 \<notin> bp_free s \<and> 0 < unat (bp_index s) \<and> 192 \<le> 32 * unat (bp_size s)"
proof -
  obtain s where s: "bp_reach 192 s {#0#} {#}" "bp_size s = 6" using first_block by blast
  note t = requisitioned_blocks_are_nobodys [OF s(1)]
  have "0 \<notin> bp_free s" using t [THEN conjunct1, THEN spec, of 0] by auto
  moreover have "0 < unat (bp_index s)" using t [THEN conjunct2, THEN conjunct1, THEN spec, of 0] s(2) by auto
  ultimately show ?thesis using s by auto
qed

end
