(* ===== verification/Block_Index.thy ===== *)
theory Block_Index
  imports Implicit_Producer "HOL-Library.Signed_Division"
begin

unbundle bit_operations_syntax

text \<open>
  The index from positions to blocks of an \<open>ImplicitProducer\<close>
  (\<open>moody_camel_queue/concurrentqueue.h\<close>), which \<open>Implicit_Producer\<close> takes as a map: a circular
  array of pointers to entries, each with the first position of a block (\<open>key\<close>) and the block.
  The enqueuing thread adds an entry behind the last one, in the place of the oldest if that has
  been removed, and else copies the pointers into an array of twice the size. Dequeuing threads
  look positions up, from whatever array and tail they have loaded, while that goes on; a lookup
  computes the place of an entry from the distance of its key to the tail's.

  Every access that another thread can see is a step. Arrays are numbered in the order of their
  allocation, the last is the current one; entries are numbers. \<open>hd_lo\<close>, \<open>bx_count\<close> and
  \<open>bx_map\<close> are history: the number of the block with which an array starts, the number of blocks
  inserted, and the map the index stands for.
\<close>

section \<open>State and steps\<close>

definition INVALID_BLOCK_BASE :: u64 where
  "INVALID_BLOCK_BASE = 1"

record index_header =
  hd_capacity :: u64
  hd_tail :: u64
  hd_index :: "nat list"
  hd_lo :: nat

record block_index =
  bx_headers :: "index_header list"
  bx_key :: "nat \<Rightarrow> u64"
  bx_value :: "nat \<Rightarrow> nat option"
  bx_entries :: nat
  bx_next_capacity :: u64
  bx_count :: nat
  bx_map :: "u64 \<Rightarrow> nat option"

definition current :: "block_index \<Rightarrow> index_header" where
  "current s = last (bx_headers s)"

definition set_tail :: "u64 \<Rightarrow> block_index \<Rightarrow> block_index" where
  "set_tail t s = s\<lparr>bx_headers := butlast (bx_headers s) @ [current s\<lparr>hd_tail := t\<rparr>]\<rparr>"

text \<open>
  \<open>new_block_index\<close>, when the allocation succeeds: new entries have an invalid key and an
  indeterminate value; the pointers of the previous array come first, oldest first.
\<close>

definition copied_index :: "index_header \<Rightarrow> nat list" where
  "copied_index prev = map (\<lambda>i. hd_index prev ! unat ((hd_tail prev + 1 + of_nat i) AND (hd_capacity prev - 1))) [0..<unat (hd_capacity prev)]"

definition new_block_index :: "(nat \<Rightarrow> nat option) \<Rightarrow> block_index \<Rightarrow> block_index" where
  "new_block_index garbage s =
     (let prev_capacity = (if bx_headers s = [] then 0 else hd_capacity (current s));
        entry_count = (if bx_headers s = [] then bx_next_capacity s else prev_capacity);
        entries = [bx_entries s..<bx_entries s + unat entry_count];
        header = \<lparr>hd_capacity = bx_next_capacity s, hd_tail = (prev_capacity - 1) AND (bx_next_capacity s - 1),
          hd_index = (if bx_headers s = [] then [] else copied_index (current s)) @ entries, hd_lo = bx_count s - unat prev_capacity\<rparr>
      in s\<lparr>bx_headers := bx_headers s @ [header],
          bx_key := (\<lambda>e. if e \<in> set entries then INVALID_BLOCK_BASE else bx_key s e),
          bx_value := (\<lambda>e. if e \<in> set entries then garbage e else bx_value s e),
          bx_entries := bx_entries s + unat entry_count, bx_next_capacity := push_bit 1 (bx_next_capacity s)\<rparr>)"

definition IMPLICIT_INITIAL_INDEX_SIZE :: u64 where
  "IMPLICIT_INITIAL_INDEX_SIZE = 32"

definition block_index_new :: "(nat \<Rightarrow> nat option) \<Rightarrow> block_index" where
  "block_index_new garbage = new_block_index garbage \<lparr>bx_headers = [], bx_key = (\<lambda>_. 0), bx_value = (\<lambda>_. None), bx_entries = 0,
     bx_next_capacity = IMPLICIT_INITIAL_INDEX_SIZE, bx_count = 0, bx_map = (\<lambda>_. None)\<rparr>"

text \<open>
  Where a thread is: the enqueuing one in \<open>insert_block_index_entry\<close>, before it stores the key,
  the tail, the block; in \<open>rewind_block_index_tail\<close>; a dequeuing one in
  \<open>get_block_index_index_for_index\<close> with the array and the tail it has loaded, and with the
  entry and the block it has found.
\<close>

datatype bx_act =
    Ins_Start u64 | Ins_Key nat u64 u64 | Ins_Tail nat u64 u64 | Ins_Value nat u64
  | Rewind nat | Rewind_Value nat
  | Look_Header u64 | Look_Tail u64 nat | Look_Key u64 nat u64 | Look_Value u64 nat | Found u64 nat nat

definition new_tail :: "index_header \<Rightarrow> u64" where
  "new_tail h = (hd_tail h + 1) AND (hd_capacity h - 1)"

definition index_of_base :: "index_header \<Rightarrow> u64 \<Rightarrow> u64 \<Rightarrow> u64 \<Rightarrow> u64" where
  "index_of_base h tail tail_base base =
     (tail + word_of_int (sint (base - tail_base) sdiv sint BLOCK_SIZE)) AND (hd_capacity h - 1)"

text \<open>
  The next access. \<open>mem\<close> are the values of new entries, if memory can be allocated; \<open>blk\<close> is
  the block requisitioned, if there is one. No result when a read is outside the array or meets
  an invalid key or a null block, which the code asserts not to happen.
\<close>

fun bx_advance :: "(nat \<Rightarrow> nat option) option \<Rightarrow> nat option \<Rightarrow> bx_act \<Rightarrow> block_index \<Rightarrow> (block_index \<times> bx_act option) option" where
  "bx_advance mem blk (Ins_Start base) s =
     (if bx_headers s = [] then Some (s, None)
      else let e = hd_index (current s) ! unat (new_tail (current s)) in
        if bx_key s e = INVALID_BLOCK_BASE \<or> bx_value s e = None then Some (s, Some (Ins_Key e (new_tail (current s)) base))
        else (case mem of
            None \<Rightarrow> Some (s, None)
          | Some garbage \<Rightarrow>
              (let s' = new_block_index garbage s
               in Some (s', Some (Ins_Key (hd_index (current s') ! unat (new_tail (current s'))) (new_tail (current s')) base)))))"
| "bx_advance mem blk (Ins_Key e t base) s = Some (s\<lparr>bx_key := (bx_key s)(e := base)\<rparr>, Some (Ins_Tail e t base))"
| "bx_advance mem blk (Ins_Tail e t base) s = Some (set_tail t s, Some (Ins_Value e base))"
| "bx_advance mem blk (Ins_Value e base) s =
     (case blk of
        None \<Rightarrow> Some (s, Some (Rewind e))
      | Some b \<Rightarrow> Some (s\<lparr>bx_value := (bx_value s)(e := Some b), bx_count := bx_count s + 1, bx_map := (bx_map s)(base := Some b)\<rparr>, None))"
| "bx_advance mem blk (Rewind e) s =
     Some (set_tail ((hd_tail (current s) - 1) AND (hd_capacity (current s) - 1)) s, Some (Rewind_Value e))"
| "bx_advance mem blk (Rewind_Value e) s = Some (s\<lparr>bx_value := (bx_value s)(e := None)\<rparr>, None)"
| "bx_advance mem blk (Look_Header base) s =
     (if bx_headers s = [] then None else Some (s, Some (Look_Tail base (length (bx_headers s) - 1))))"
| "bx_advance mem blk (Look_Tail base h) s = Some (s, Some (Look_Key base h (hd_tail (bx_headers s ! h))))"
| "bx_advance mem blk (Look_Key base h t) s =
     (let header = bx_headers s ! h; tail_base = bx_key s (hd_index header ! unat t); i = unat (index_of_base header t tail_base base) in
      if unat t < length (hd_index header) \<and> tail_base \<noteq> INVALID_BLOCK_BASE \<and> i < length (hd_index header)
      then Some (s, Some (Look_Value base (hd_index header ! i))) else None)"
| "bx_advance mem blk (Look_Value base e) s =
     (case bx_value s e of None \<Rightarrow> None | Some b \<Rightarrow> if bx_key s e = base then Some (s, Some (Found base e b)) else None)"
| "bx_advance mem blk (Found base e b) s = Some (s, None)"

fun inserts :: "bx_act \<Rightarrow> bool" where
  "inserts (Ins_Start base) \<longleftrightarrow> True"
| "inserts (Ins_Key e t base) \<longleftrightarrow> True"
| "inserts (Ins_Tail e t base) \<longleftrightarrow> True"
| "inserts (Ins_Value e base) \<longleftrightarrow> True"
| "inserts (Rewind e) \<longleftrightarrow> True"
| "inserts (Rewind_Value e) \<longleftrightarrow> True"
| "inserts _ \<longleftrightarrow> False"

fun looks_for :: "bx_act \<Rightarrow> u64 option" where
  "looks_for (Look_Header base) = Some base"
| "looks_for (Look_Tail base h) = Some base"
| "looks_for (Look_Key base h t) = Some base"
| "looks_for (Look_Value base e) = Some base"
| "looks_for (Found base e b) = Some base"
| "looks_for _ = None"

text \<open>
  One thread inserts, the blocks in order. A block is looked up while it is in the index, and
  removed by the last thread that has found it.
\<close>

inductive bx_step :: "block_index \<times> bx_act multiset \<Rightarrow> block_index \<times> bx_act multiset \<Rightarrow> bool" where
  insert: "\<not> (\<exists>a \<in># A. inserts a) \<Longrightarrow> base = BLOCK_SIZE * of_nat (bx_count s) \<Longrightarrow> bx_step (s, A) (s, add_mset (Ins_Start base) A)"
| look: "bx_map s base \<noteq> None \<Longrightarrow> bx_step (s, A) (s, add_mset (Look_Header base) A)"
| advance: "bx_advance mem blk a s = Some (s', nxt) \<Longrightarrow> bx_step (s, add_mset a A) (s', opt_mset nxt + A)"
| remove: "\<not> (\<exists>a \<in># A. looks_for a = Some base) \<Longrightarrow>
    bx_step (s, add_mset (Found base e b) A) (s\<lparr>bx_value := (bx_value s)(e := None), bx_map := (bx_map s)(base := None)\<rparr>, A)"

inductive bx_reach :: "nat \<Rightarrow> block_index \<Rightarrow> bx_act multiset \<Rightarrow> bool" where
  start: "bx_reach 0 (block_index_new garbage) {#}"
| step: "bx_reach n s A \<Longrightarrow> bx_step (s, A) (s', A') \<Longrightarrow> bx_reach (Suc n) s' A'"

section \<open>Places\<close>

lemma and_capacity:
  fixes c :: u64
  assumes "unat c = 2 ^ j" "j < 64"
  shows "int (unat (word_of_int z AND (c - 1))) = z mod int (unat c)"
proof -
  have "c = of_nat (unat c)" by simp
  then have "c = 2 ^ j" unfolding assms(1) by simp
  then have "word_of_int z AND (c - 1) = take_bit j (word_of_int z :: u64)" by (simp add: take_bit_eq_mask mask_eq_exp_minus_1)
  then have "int (unat (word_of_int z AND (c - 1))) = take_bit j (uint (word_of_int z :: u64))" by (simp only: uint_nat unsigned_take_bit_eq take_bit_of_nat)
  also have "\<dots> = take_bit j z" using assms(2) by (simp add: unsigned_of_int take_bit_take_bit min_def)
  finally show ?thesis using assms(1) by (simp add: take_bit_eq_mod)
qed

text \<open>The place of block \<open>m\<close> in an array, and the pointer there.\<close>

definition capacity_of :: "index_header \<Rightarrow> nat" where
  "capacity_of h = unat (hd_capacity h)"

definition place :: "index_header \<Rightarrow> nat \<Rightarrow> nat" where
  "place h m = (m - hd_lo h) mod capacity_of h"

definition entry_at :: "index_header \<Rightarrow> nat \<Rightarrow> nat" where
  "entry_at h m = hd_index h ! place h m"

definition base_of :: "nat \<Rightarrow> u64" where
  "base_of m = BLOCK_SIZE * of_nat m"

definition wf_header :: "index_header \<Rightarrow> bool" where
  "wf_header h \<longleftrightarrow> (\<exists>j < 63. 0 < j \<and> capacity_of h = 2 ^ j) \<and> length (hd_index h) = capacity_of h \<and> unat (hd_tail h) < capacity_of h"

lemma wf_headerD:
  assumes "wf_header h"
  shows "0 < capacity_of h" "length (hd_index h) = capacity_of h" "unat (hd_tail h) < capacity_of h"
    and "int (unat (word_of_int z AND (hd_capacity h - 1))) = z mod int (capacity_of h)"
proof -
  obtain j where j: "j < 63" "capacity_of h = 2 ^ j" using assms by (auto simp: wf_header_def)
  show "0 < capacity_of h" using j by simp
  show "length (hd_index h) = capacity_of h" "unat (hd_tail h) < capacity_of h" using assms by (simp_all add: wf_header_def)
  show "int (unat (word_of_int z AND (hd_capacity h - 1))) = z mod int (capacity_of h)"
    using and_capacity [of "hd_capacity h" j z] j by (simp add: capacity_of_def)
qed

lemma place_less: "wf_header h \<Longrightarrow> place h m < capacity_of h"
  using wf_headerD(1) by (simp add: place_def)

lemma int_place: "hd_lo h \<le> m \<Longrightarrow> int (place h m) = (int m - int (hd_lo h)) mod int (capacity_of h)"
  by (simp add: place_def zmod_int of_nat_diff)

lemma unat_base_of: "m < 2 ^ 58 \<Longrightarrow> unat (base_of m) = 32 * m"
  by (simp add: base_of_def BLOCK_SIZE_def unat_word_ariths unat_of_nat)

lemma base_of_inj: "m < 2 ^ 58 \<Longrightarrow> m' < 2 ^ 58 \<Longrightarrow> base_of m = base_of m' \<longleftrightarrow> m = m'"
  using unat_base_of [of m] unat_base_of [of m'] by (metis mult_cancel1 zero_neq_numeral)

lemma base_of_valid: "m < 2 ^ 58 \<Longrightarrow> base_of m \<noteq> INVALID_BLOCK_BASE"
  using unat_base_of [of m] by (auto simp: INVALID_BLOCK_BASE_def dest: arg_cong [of _ _ unat])

text \<open>The distance of two positions, signed, in blocks.\<close>

lemma distance_in_blocks:
  assumes "m < 2 ^ 58" "m' < 2 ^ 58"
  shows "sint (base_of m - base_of m') sdiv sint BLOCK_SIZE = int m - int m'"
proof -
  have "base_of m - base_of m' = word_of_int (32 * (int m - int m'))"
    by (simp add: base_of_def BLOCK_SIZE_def algebra_simps)
  then have "sint (base_of m - base_of m') = signed_take_bit 63 (32 * (int m - int m'))" by (simp only: signed_of_int) simp
  also have "\<dots> = 32 * (int m - int m')" using assms by (intro signed_take_bit_int_eq_self) auto
  finally have s: "sint (base_of m - base_of m') = 32 * (int m - int m')" .
  have d: "32 * x sdiv 32 = x" for x :: int by (simp add: signed_divide_int_def sgn_mult abs_mult sgn_mult_abs)
  have "sint BLOCK_SIZE = 32" by (simp add: BLOCK_SIZE_def)
  then show ?thesis unfolding s by (simp only: d)
qed

text \<open>Whatever tail and key a lookup reads, as long as the key is in its place, it finds the place.\<close>

lemma index_of_base_place:
  assumes h: "wf_header h" and "m < 2 ^ 58" "m' < 2 ^ 58" "hd_lo h \<le> m" "hd_lo h \<le> m'" and t: "unat t = place h m'"
  shows "unat (index_of_base h t (base_of m') (base_of m)) = place h m"
proof -
  have sum: "t + word_of_int (int m - int m') = word_of_int (int (unat t) + (int m - int m'))" by simp
  have "int (unat (index_of_base h t (base_of m') (base_of m))) = (int (unat t) + (int m - int m')) mod int (capacity_of h)"
    unfolding index_of_base_def distance_in_blocks [OF assms(2,3)] sum by (rule wf_headerD(4) [OF h])
  also have "\<dots> = int (place h m)"
    unfolding t int_place [OF assms(5)] int_place [OF assms(4)] by (simp add: mod_simps)
  finally show ?thesis by (simp only: of_nat_eq_iff)
qed

section \<open>The invariant\<close>

text \<open>
  In every array a key is in its place. The current array shares its entries with the older
  ones, in places that agree; the blocks it holds are the last ones; the place of the next
  block is unused, or holds the oldest, or what a failed insertion has left there.
\<close>

definition keys_ok :: "block_index \<Rightarrow> index_header \<Rightarrow> bool" where
  "keys_ok s h \<longleftrightarrow> (\<forall>p < capacity_of h. bx_key s (hd_index h ! p) = INVALID_BLOCK_BASE
     \<or> (\<exists>m. hd_lo h \<le> m \<and> m \<le> bx_count s \<and> bx_key s (hd_index h ! p) = base_of m \<and> place h m = p))"

definition shares :: "index_header \<Rightarrow> index_header \<Rightarrow> bool" where
  "shares h c \<longleftrightarrow> hd_lo h \<le> hd_lo c \<and> capacity_of h dvd capacity_of c
     \<and> (\<forall>p < capacity_of h. \<exists>q < capacity_of c. hd_index c ! q = hd_index h ! p \<and> (q + (hd_lo c - hd_lo h)) mod capacity_of h = p)"

definition header_ok :: "block_index \<Rightarrow> index_header \<Rightarrow> bool" where
  "header_ok s h \<longleftrightarrow> wf_header h \<and> (\<forall>e \<in> set (hd_index h). e < bx_entries s) \<and> keys_ok s h
     \<and> (0 < bx_count s \<longrightarrow> bx_key s (hd_index h ! unat (hd_tail h)) \<noteq> INVALID_BLOCK_BASE) \<and> shares h (current s)"

definition slots_ok :: "block_index \<Rightarrow> index_header \<Rightarrow> bool" where
  "slots_ok s c \<longleftrightarrow> (let k = bx_count s; lo = hd_lo c; cap = capacity_of c; key = (\<lambda>m. bx_key s (entry_at c m)) in
     (\<forall>m. lo \<le> m \<and> m < k \<and> k < m + cap \<longrightarrow> key m = base_of m)
     \<and> (\<forall>m. k < m \<and> m < lo + cap \<longrightarrow> key m = INVALID_BLOCK_BASE)
     \<and> (key k = base_of k \<or> key k = (if k < lo + cap then INVALID_BLOCK_BASE else base_of (k - cap))))"

fun tail_stored :: "bx_act \<Rightarrow> bool" where
  "tail_stored (Ins_Value e base) \<longleftrightarrow> True"
| "tail_stored (Rewind e) \<longleftrightarrow> True"
| "tail_stored _ \<longleftrightarrow> False"

fun key_stored :: "bx_act \<Rightarrow> bool" where
  "key_stored (Ins_Tail e t base) \<longleftrightarrow> True"
| "key_stored (Ins_Value e base) \<longleftrightarrow> True"
| "key_stored (Rewind e) \<longleftrightarrow> True"
| "key_stored (Rewind_Value e) \<longleftrightarrow> True"
| "key_stored _ \<longleftrightarrow> False"

definition tail_place :: "index_header \<Rightarrow> nat \<Rightarrow> bool \<Rightarrow> nat" where
  "tail_place c k stored = (if stored then place c k else (k - hd_lo c + capacity_of c - 1) mod capacity_of c)"

definition current_ok :: "block_index \<Rightarrow> bx_act multiset \<Rightarrow> bool" where
  "current_ok s A \<longleftrightarrow> (let c = current s; k = bx_count s in
     distinct (hd_index c) \<and> 2 \<le> capacity_of c \<and> capacity_of c \<le> 2 ^ 59 \<and> unat (bx_next_capacity s) = 2 * capacity_of c
     \<and> (hd_lo c < k \<or> hd_lo c = 0 \<and> k = 0) \<and> (0 < k \<or> length (bx_headers s) = 1) \<and> slots_ok s c
     \<and> unat (hd_tail c) = tail_place c k (\<exists>a \<in># A. tail_stored a)
     \<and> (bx_key s (entry_at c k) = base_of k \<longrightarrow> bx_value s (entry_at c k) = None \<or> (\<exists>a \<in># A. key_stored a)))"

definition map_ok :: "block_index \<Rightarrow> bool" where
  "map_ok s \<longleftrightarrow> (\<forall>w b. bx_map s w = Some b \<longrightarrow> (\<exists>m < bx_count s. w = base_of m \<and> hd_lo (current s) \<le> m
     \<and> bx_key s (entry_at (current s) m) = base_of m \<and> bx_value s (entry_at (current s) m) = Some b))"

definition reads_from :: "block_index \<Rightarrow> u64 \<Rightarrow> nat \<Rightarrow> bool" where
  "reads_from s base h \<longleftrightarrow> h < length (bx_headers s) \<and> (\<exists>m < bx_count s. base = base_of m \<and> bx_map s base \<noteq> None
     \<and> hd_lo (bx_headers s ! h) \<le> m \<and> entry_at (bx_headers s ! h) m = entry_at (current s) m)"

fun bx_act_ok :: "block_index \<Rightarrow> bx_act \<Rightarrow> bool" where
  "bx_act_ok s (Ins_Start base) \<longleftrightarrow> base = base_of (bx_count s)"
| "bx_act_ok s (Ins_Key e t base) \<longleftrightarrow> base = base_of (bx_count s) \<and> e = entry_at (current s) (bx_count s)
     \<and> unat t = place (current s) (bx_count s) \<and> (bx_key s e = INVALID_BLOCK_BASE \<or> bx_value s e = None)"
| "bx_act_ok s (Ins_Tail e t base) \<longleftrightarrow> base = base_of (bx_count s) \<and> e = entry_at (current s) (bx_count s)
     \<and> unat t = place (current s) (bx_count s) \<and> bx_key s e = base"
| "bx_act_ok s (Ins_Value e base) \<longleftrightarrow> base = base_of (bx_count s) \<and> e = entry_at (current s) (bx_count s) \<and> bx_key s e = base"
| "bx_act_ok s (Rewind e) \<longleftrightarrow> e = entry_at (current s) (bx_count s) \<and> bx_key s e = base_of (bx_count s)"
| "bx_act_ok s (Rewind_Value e) \<longleftrightarrow> e = entry_at (current s) (bx_count s) \<and> bx_key s e = base_of (bx_count s)"
| "bx_act_ok s (Look_Header base) \<longleftrightarrow> bx_map s base \<noteq> None"
| "bx_act_ok s (Look_Tail base h) \<longleftrightarrow> reads_from s base h"
| "bx_act_ok s (Look_Key base h t) \<longleftrightarrow> reads_from s base h \<and> unat t < capacity_of (bx_headers s ! h)
     \<and> bx_key s (hd_index (bx_headers s ! h) ! unat t) \<noteq> INVALID_BLOCK_BASE"
| "bx_act_ok s (Look_Value base e) \<longleftrightarrow> (\<exists>m < bx_count s. base = base_of m \<and> bx_map s base \<noteq> None \<and> e = entry_at (current s) m)"
| "bx_act_ok s (Found base e b) \<longleftrightarrow> (\<exists>m < bx_count s. base = base_of m \<and> bx_map s base = Some b \<and> e = entry_at (current s) m)"

definition bx_inv :: "block_index \<Rightarrow> bx_act multiset \<Rightarrow> bool" where
  "bx_inv s A \<longleftrightarrow> bx_headers s \<noteq> [] \<and> (\<forall>h \<in> set (bx_headers s). header_ok s h) \<and> current_ok s A \<and> map_ok s
     \<and> (\<forall>a \<in># A. bx_act_ok s a) \<and> (\<Sum>a \<in># A. of_bool (inserts a) :: nat) \<le> 1"

lemma bx_invD:
  assumes "bx_inv s A"
  shows "bx_headers s \<noteq> []" "h \<in> set (bx_headers s) \<Longrightarrow> header_ok s h" "current_ok s A" "map_ok s" "a \<in># A \<Longrightarrow> bx_act_ok s a"
    "(\<Sum>a \<in># A. of_bool (inserts a) :: nat) \<le> 1" "header_ok s (current s)"
  using assms unfolding bx_inv_def current_def by simp_all

lemma header_okD:
  assumes "header_ok s h"
  shows "wf_header h" "p < capacity_of h \<Longrightarrow> hd_index h ! p < bx_entries s" "keys_ok s h"
    "0 < bx_count s \<Longrightarrow> bx_key s (hd_index h ! unat (hd_tail h)) \<noteq> INVALID_BLOCK_BASE" "shares h (current s)"
  using assms wf_headerD(2) [of h] unfolding header_ok_def by simp_all

lemma current_okD:
  assumes "current_ok s A"
  shows "distinct (hd_index (current s))" "2 \<le> capacity_of (current s)" "capacity_of (current s) \<le> 2 ^ 59"
    "unat (bx_next_capacity s) = 2 * capacity_of (current s)"
    "hd_lo (current s) < bx_count s \<or> hd_lo (current s) = 0 \<and> bx_count s = 0" "0 < bx_count s \<or> length (bx_headers s) = 1"
    "slots_ok s (current s)" "unat (hd_tail (current s)) = tail_place (current s) (bx_count s) (\<exists>a \<in># A. tail_stored a)"
    "bx_key s (entry_at (current s) (bx_count s)) = base_of (bx_count s) \<Longrightarrow>
      bx_value s (entry_at (current s) (bx_count s)) = None \<or> (\<exists>a \<in># A. key_stored a)"
    "hd_lo (current s) \<le> bx_count s"
  using assms unfolding current_ok_def Let_def by (simp_all, linarith)

lemma slots_okD:
  assumes "slots_ok s c"
  shows "hd_lo c \<le> m \<Longrightarrow> m < bx_count s \<Longrightarrow> bx_count s < m + capacity_of c \<Longrightarrow> bx_key s (entry_at c m) = base_of m"
    "bx_count s < m \<Longrightarrow> m < hd_lo c + capacity_of c \<Longrightarrow> bx_key s (entry_at c m) = INVALID_BLOCK_BASE"
    "bx_key s (entry_at c (bx_count s)) = base_of (bx_count s)
      \<or> bx_key s (entry_at c (bx_count s)) = (if bx_count s < hd_lo c + capacity_of c then INVALID_BLOCK_BASE else base_of (bx_count s - capacity_of c))"
  using assms unfolding slots_ok_def Let_def by blast+

lemma map_okD:
  assumes "map_ok s" "bx_map s w = Some b"
  obtains m where "m < bx_count s" "w = base_of m" "hd_lo (current s) \<le> m"
    "bx_key s (entry_at (current s) m) = base_of m" "bx_value s (entry_at (current s) m) = Some b"
  using assms unfolding map_ok_def by blast

lemma distinct_nth: "distinct xs \<Longrightarrow> i < length xs \<Longrightarrow> j < length xs \<Longrightarrow> xs ! i = xs ! j \<longleftrightarrow> i = j"
  by (rule nth_eq_iff_index_eq)

lemma mod_diff_nat:
  fixes a b c n :: nat
  assumes "c \<le> a" "d dvd n" "b \<le> c"
  shows "((a - c) mod n + (c - b)) mod d = (a - b) mod d"
proof -
  have "((a - c) mod n + (c - b)) mod d = ((a - c) mod d + (c - b)) mod d"
    using assms(2) by (metis mod_add_left_eq mod_mod_cancel)
  also have "\<dots> = (a - c + (c - b)) mod d" by (simp only: mod_add_left_eq)
  also have "a - c + (c - b) = a - b" using assms(1,3) by simp
  finally show ?thesis .
qed

text \<open>The entry that is written lies, in every array, in the place of the block.\<close>

lemma shared_place:
  assumes "shares h c" "wf_header c" "distinct (hd_index c)" "hd_lo c \<le> m" "p < capacity_of h" "hd_index h ! p = entry_at c m"
  shows "hd_lo h \<le> m \<and> place h m = p"
proof -
  obtain q where q: "q < capacity_of c" "hd_index c ! q = hd_index h ! p" "(q + (hd_lo c - hd_lo h)) mod capacity_of h = p"
    and le: "hd_lo h \<le> hd_lo c" and d: "capacity_of h dvd capacity_of c"
    using assms(1,5) unfolding shares_def by blast
  have "q = place c m"
    using assms(6) q(1,2) distinct_nth [OF assms(3)] place_less [OF assms(2)] wf_headerD(2) [OF assms(2)] by (simp add: entry_at_def)
  then show ?thesis using q(3) mod_diff_nat [OF assms(4) d le] le assms(4) by (simp add: place_def)
qed

text \<open>A lookup that is under way goes on.\<close>

lemma looks_mono:
  assumes "bx_act_ok s a" "\<not> inserts a"
    and "\<And>h. h < length (bx_headers s) \<Longrightarrow> h < length (bx_headers s') \<and> hd_index (bx_headers s' ! h) = hd_index (bx_headers s ! h)
      \<and> hd_lo (bx_headers s' ! h) = hd_lo (bx_headers s ! h) \<and> hd_capacity (bx_headers s' ! h) = hd_capacity (bx_headers s ! h)"
    and "\<And>m. m < bx_count s \<Longrightarrow> bx_map s (base_of m) \<noteq> None \<Longrightarrow> entry_at (current s') m = entry_at (current s) m"
    and "\<And>base. looks_for a = Some base \<Longrightarrow> bx_map s base \<noteq> None \<Longrightarrow> bx_map s' base = bx_map s base"
    and "\<And>h p. h < length (bx_headers s) \<Longrightarrow> p < capacity_of (bx_headers s ! h) \<Longrightarrow>
      bx_key s (hd_index (bx_headers s ! h) ! p) \<noteq> INVALID_BLOCK_BASE \<Longrightarrow> bx_key s' (hd_index (bx_headers s ! h) ! p) \<noteq> INVALID_BLOCK_BASE"
    and "bx_count s \<le> bx_count s'"
  shows "bx_act_ok s' a"
proof -
  have same: "entry_at (bx_headers s' ! h) m = entry_at (bx_headers s ! h) m" "capacity_of (bx_headers s' ! h) = capacity_of (bx_headers s ! h)"
    if "h < length (bx_headers s)" for h m
    using assms(3) [OF that] by (simp_all add: entry_at_def place_def capacity_of_def)
  have reads: "reads_from s' base h" if r: "reads_from s base h" and a: "looks_for a = Some base" for base h
  proof -
    obtain m where m: "h < length (bx_headers s)" "m < bx_count s" "base = base_of m" "bx_map s base \<noteq> None"
      "hd_lo (bx_headers s ! h) \<le> m" "entry_at (bx_headers s ! h) m = entry_at (current s) m"
      using r unfolding reads_from_def by blast
    have "bx_map s' base \<noteq> None" using assms(5) [OF a m(4)] m(4) by simp
    moreover have "entry_at (bx_headers s' ! h) m = entry_at (current s') m"
      using same(1) [OF m(1)] assms(4) [OF m(2)] m(3,4,6) by simp
    ultimately show ?thesis unfolding reads_from_def using assms(3) [OF m(1)] m assms(7)
      by (intro conjI exI [of _ m]) simp_all
  qed
  show ?thesis
  proof (cases a)
    case (Look_Key base h t)
    then have r: "reads_from s base h" using assms(1) by simp
    then have "h < length (bx_headers s)" by (simp add: reads_from_def)
    then show ?thesis using Look_Key reads [OF r] assms(1,6) same(2) assms(3) by auto
  next
    case (Look_Value base e)
    then obtain m where m: "m < bx_count s" "base = base_of m" "bx_map s base \<noteq> None" "e = entry_at (current s) m" using assms(1) by auto
    have "bx_map s' base = bx_map s base" using assms(5) Look_Value m(3) by simp
    then show ?thesis using Look_Value m assms(4) [OF m(1)] assms(7) by (auto intro!: exI [of _ m])
  next
    case (Found base e b)
    then obtain m where m: "m < bx_count s" "base = base_of m" "bx_map s base = Some b" "e = entry_at (current s) m" using assms(1) by auto
    have "bx_map s' base = bx_map s base" using assms(5) Found m(3) by simp
    then show ?thesis using Found m assms(4) [OF m(1)] assms(7) by (auto intro!: exI [of _ m])
  qed (use assms(1,2,5) reads in auto)
qed

section \<open>The steps\<close>

lemma tail_stored_inserts: "tail_stored a \<Longrightarrow> inserts a" "key_stored a \<Longrightarrow> inserts a"
  by (cases a; simp)+

lemma inserts_alone:
  assumes "bx_inv s (add_mset a A)" "inserts a"
  shows "\<forall>b \<in># A. \<not> inserts b" "\<not> (\<exists>b \<in># A. tail_stored b)"
proof -
  have "(\<Sum>b \<in># A. of_bool (inserts b) :: nat) = 0" using bx_invD(6) [OF assms(1)] assms(2) by simp
  then show "\<forall>b \<in># A. \<not> inserts b" by simp
  then show "\<not> (\<exists>b \<in># A. tail_stored b)" using tail_stored_inserts by blast
qed

lemma current_update [simp]: "current (s\<lparr>bx_key := k\<rparr>) = current s" "current (s\<lparr>bx_value := v\<rparr>) = current s"
  "current (s\<lparr>bx_count := n\<rparr>) = current s" "current (s\<lparr>bx_map := m\<rparr>) = current s"
  by (simp_all add: current_def)

lemma no_inserts: "\<forall>b \<in># A. \<not> inserts b \<Longrightarrow> (\<Sum>b \<in># A. of_bool (inserts b) :: nat) \<le> 1"
proof -
  assume "\<forall>b \<in># A. \<not> inserts b"
  then have "(\<Sum>b \<in># A. of_bool (inserts b) :: nat) = 0" by (induction A) auto
  then show ?thesis by linarith
qed

lemma place_cong: "hd_lo h' = hd_lo h \<Longrightarrow> hd_capacity h' = hd_capacity h \<Longrightarrow> place h' m = place h m"
  by (simp add: place_def capacity_of_def)

lemma tail_update [simp]: "place (h\<lparr>hd_tail := t\<rparr>) m = place h m" "entry_at (h\<lparr>hd_tail := t\<rparr>) m = entry_at h m"
  "capacity_of (h\<lparr>hd_tail := t\<rparr>) = capacity_of h" "shares (h\<lparr>hd_tail := t\<rparr>) c = shares h c" "shares c (h\<lparr>hd_tail := t\<rparr>) = shares c h"
  "tail_place (h\<lparr>hd_tail := t\<rparr>) k b = tail_place h k b" "keys_ok s (h\<lparr>hd_tail := t\<rparr>) = keys_ok s h" "slots_ok s (h\<lparr>hd_tail := t\<rparr>) = slots_ok s h"
  by (simp_all add: place_def entry_at_def capacity_of_def shares_def tail_place_def keys_ok_def slots_ok_def)

lemma set_tail_simps:
  assumes "bx_headers s \<noteq> []"
  shows "current (set_tail t s) = current s\<lparr>hd_tail := t\<rparr>" "length (bx_headers (set_tail t s)) = length (bx_headers s)"
    "bx_headers (set_tail t s) \<noteq> []" "bx_key (set_tail t s) = bx_key s" "bx_value (set_tail t s) = bx_value s"
    "bx_count (set_tail t s) = bx_count s" "bx_map (set_tail t s) = bx_map s" "bx_entries (set_tail t s) = bx_entries s"
    "bx_next_capacity (set_tail t s) = bx_next_capacity s"
    and "h < length (bx_headers s) \<Longrightarrow> bx_headers (set_tail t s) ! h = bx_headers s ! h
      \<or> bx_headers (set_tail t s) ! h = (bx_headers s ! h)\<lparr>hd_tail := t\<rparr>"
    and "g \<in> set (bx_headers (set_tail t s)) \<Longrightarrow> g \<in> set (bx_headers s) \<or> g = current s\<lparr>hd_tail := t\<rparr>"
proof -
  show "h < length (bx_headers s) \<Longrightarrow> bx_headers (set_tail t s) ! h = bx_headers s ! h
      \<or> bx_headers (set_tail t s) ! h = (bx_headers s ! h)\<lparr>hd_tail := t\<rparr>"
    using assms by (cases "h = length (bx_headers s) - 1") (auto simp: set_tail_def current_def nth_append nth_butlast last_conv_nth)
  show "g \<in> set (bx_headers (set_tail t s)) \<Longrightarrow> g \<in> set (bx_headers s) \<or> g = current s\<lparr>hd_tail := t\<rparr>"
    by (auto simp: set_tail_def dest: in_set_butlastD)
qed (use assms in \<open>simp_all add: set_tail_def current_def\<close>)

text \<open>The tail is stored.\<close>

lemma bx_inv_set_tail:
  assumes inv: "bx_inv s (add_mset a A)" and a: "inserts a" "key_stored b"
    and t: "unat t = tail_place (current s) (bx_count s) (tail_stored b)"
    and key: "0 < bx_count s \<longrightarrow> bx_key s (hd_index (current s) ! unat t) \<noteq> INVALID_BLOCK_BASE"
    and b: "bx_act_ok s b \<Longrightarrow> bx_act_ok (set_tail t s) b" "bx_act_ok s b"
  shows "bx_inv (set_tail t s) (add_mset b A)"
proof -
  note i = bx_invD [OF inv] and one = inserts_alone [OF inv a(1)]
  note st = set_tail_simps [OF i(1)] and c = current_okD [OF i(3)]
  have small: "unat t < capacity_of (current s)" unfolding t tail_place_def using c(2) by (simp add: place_def)
  have ok: "header_ok (set_tail t s) g" if g: "g \<in> set (bx_headers (set_tail t s))" for g
  proof -
    have old: "header_ok (set_tail t s) h" if "h \<in> set (bx_headers s)" for h
      using i(2) [OF that] by (simp add: header_ok_def st keys_ok_def)
    have "header_ok s (current s)" by (rule i(7))
    then have "header_ok (set_tail t s) (current s\<lparr>hd_tail := t\<rparr>)"
      using small key by (simp add: header_ok_def st wf_header_def) (simp add: keys_ok_def st)
    then show ?thesis using st(11) [OF g] old by blast
  qed
  have "current_ok (set_tail t s) (add_mset b A)"
    using i(3) t a one(2) unfolding current_ok_def Let_def by (simp add: st) (simp add: slots_ok_def st)
  moreover have "map_ok (set_tail t s)" using i(4) by (simp add: map_ok_def st)
  moreover have "bx_act_ok (set_tail t s) d" if "d \<in># A" for d
  proof (rule looks_mono)
    show "bx_act_ok s d" "\<not> inserts d" using i(5) one(1) that by simp_all
    show "h < length (bx_headers (set_tail t s)) \<and> hd_index (bx_headers (set_tail t s) ! h) = hd_index (bx_headers s ! h)
        \<and> hd_lo (bx_headers (set_tail t s) ! h) = hd_lo (bx_headers s ! h) \<and> hd_capacity (bx_headers (set_tail t s) ! h) = hd_capacity (bx_headers s ! h)"
      if "h < length (bx_headers s)" for h
      using set_tail_simps(2) [OF i(1), of t] set_tail_simps(10) [OF i(1) that, of t] that by (elim disjE) simp_all
  qed (simp_all add: st)
  ultimately show ?thesis using ok b i(6) a tail_stored_inserts(2) [OF a(2)] st(3) unfolding bx_inv_def by auto
qed

text \<open>The key is stored: in every array it is in its place.\<close>

lemma bx_inv_key:
  assumes inv: "bx_inv s (add_mset (Ins_Key e t base) A)" and k: "bx_count s < 2 ^ 58"
  shows "bx_inv (s\<lparr>bx_key := (bx_key s)(e := base)\<rparr>) (add_mset (Ins_Tail e t base) A)" (is "bx_inv ?s _")
proof -
  note i = bx_invD [OF inv] and one = inserts_alone [OF inv]
  note c = current_okD [OF i(3)] and sl = slots_okD [OF current_okD(7) [OF i(3)]]
  have a: "base = base_of (bx_count s)" "e = entry_at (current s) (bx_count s)" "unat t = place (current s) (bx_count s)"
    "bx_key s e = INVALID_BLOCK_BASE \<or> bx_value s e = None"
    using i(5) [of "Ins_Key e t base"] by auto
  have cur: "current ?s = current s" by (simp add: current_def)
  have valid: "base \<noteq> INVALID_BLOCK_BASE" using base_of_valid [OF k] a(1) by simp
  note wf = header_okD(1) [OF i(7)]
  have keys: "header_ok ?s h" if h: "h \<in> set (bx_headers s)" for h
  proof -
    note ho = header_okD [OF i(2) [OF h]]
    have "keys_ok ?s h"
      unfolding keys_ok_def
    proof (intro allI impI)
      fix p assume p: "p < capacity_of h"
      show "bx_key ?s (hd_index h ! p) = INVALID_BLOCK_BASE
        \<or> (\<exists>m. hd_lo h \<le> m \<and> m \<le> bx_count ?s \<and> bx_key ?s (hd_index h ! p) = base_of m \<and> place h m = p)"
      proof (cases "hd_index h ! p = e")
        case True
        then have "hd_lo h \<le> bx_count s \<and> place h (bx_count s) = p"
          using shared_place [OF ho(5) wf c(1) c(10) p] a(2) by simp
        then show ?thesis using True a(1) by auto
      next
        case False
        then show ?thesis using ho(3) p by (auto simp: keys_ok_def)
      qed
    qed
    then show ?thesis using i(2) [OF h] valid by (auto simp: header_ok_def cur)
  qed
  have other: "entry_at (current s) m \<noteq> e" if "place (current s) m \<noteq> place (current s) (bx_count s)" for m
    using that distinct_nth [OF c(1)] place_less [OF wf] wf_headerD(2) [OF wf] a(2) by (simp add: entry_at_def)
  have "slots_ok ?s (current s)"
    unfolding slots_ok_def Let_def
  proof (intro conjI allI impI)
    fix m assume m: "hd_lo (current s) \<le> m \<and> m < bx_count ?s \<and> bx_count ?s < m + capacity_of (current s)"
    then have "bx_key s (entry_at (current s) m) = base_of m" using sl(1) by simp
    moreover have "entry_at (current s) m \<noteq> e"
    proof
      assume "entry_at (current s) m = e"
      then have "base_of m = base_of (bx_count s) \<or> base_of m = INVALID_BLOCK_BASE
          \<or> capacity_of (current s) \<le> bx_count s \<and> base_of m = base_of (bx_count s - capacity_of (current s))"
        using sl(3) a(2) calculation by (auto split: if_splits)
      moreover have "base_of m \<noteq> base_of (bx_count s)" "base_of m \<noteq> INVALID_BLOCK_BASE"
          "capacity_of (current s) \<le> bx_count s \<Longrightarrow> base_of m \<noteq> base_of (bx_count s - capacity_of (current s))"
        using m k c(2) base_of_inj [of m] base_of_valid [of m] by auto
      ultimately show False by blast
    qed
    ultimately show "bx_key ?s (entry_at (current s) m) = base_of m" by simp
  next
    fix m assume m: "bx_count ?s < m \<and> m < hd_lo (current s) + capacity_of (current s)"
    then have "bx_count s < m" "m < hd_lo (current s) + capacity_of (current s)" by simp_all
    then have "m - hd_lo (current s) < capacity_of (current s)" "bx_count s - hd_lo (current s) < capacity_of (current s)"
      "bx_count s - hd_lo (current s) < m - hd_lo (current s)"
      using c(10) by linarith+
    then have "place (current s) m \<noteq> place (current s) (bx_count s)" using m c(10) by (simp add: place_def)
    then show "bx_key ?s (entry_at (current s) m) = INVALID_BLOCK_BASE" using sl(2) m other by simp
  qed (simp add: a)
  then have "current_ok ?s (add_mset (Ins_Tail e t base) A)"
    using i(3) unfolding current_ok_def Let_def cur by simp
  moreover have "map_ok ?s"
    unfolding map_ok_def
  proof (intro allI impI)
    fix w b assume "bx_map ?s w = Some b"
    then have "bx_map s w = Some b" by simp
    from map_okD [OF i(4) this] obtain m where m: "m < bx_count s" "w = base_of m" "hd_lo (current s) \<le> m"
      "bx_key s (entry_at (current s) m) = base_of m" "bx_value s (entry_at (current s) m) = Some b" .
    have "entry_at (current s) m \<noteq> e" using a(4) m(4,5) base_of_valid [of m] m(1) k by auto
    then show "\<exists>m < bx_count ?s. w = base_of m \<and> hd_lo (current ?s) \<le> m \<and> bx_key ?s (entry_at (current ?s) m) = base_of m
        \<and> bx_value ?s (entry_at (current ?s) m) = Some b" using m by (intro exI [of _ m]) (simp add: cur)
  qed
  moreover have "bx_act_ok ?s d" if "d \<in># A" for d
    by (rule looks_mono [of s]) (use i(5) one(1) that valid in \<open>auto simp: cur\<close>)
  ultimately show ?thesis using keys i(1,6) a unfolding bx_inv_def by (auto simp: cur)
qed

text \<open>A block is removed from an entry that belongs to no block in the index.\<close>

lemma bx_inv_clear:
  assumes inv: "bx_inv s (add_mset a A)"
    and e: "\<And>m. m < bx_count s \<Longrightarrow> bx_map s (base_of m) \<noteq> None \<Longrightarrow> base_of m \<noteq> base \<Longrightarrow> entry_at (current s) m \<noteq> e"
    and only: "\<And>d. d \<in># A \<Longrightarrow> looks_for d \<noteq> Some base"
    and a: "\<not> inserts a \<or> a = Rewind_Value e"
  shows "bx_inv (s\<lparr>bx_value := (bx_value s)(e := None), bx_map := (bx_map s)(base := None)\<rparr>) A" (is "bx_inv ?s _")
proof -
  note i = bx_invD [OF inv] and c = current_okD [OF bx_invD(3) [OF inv]]
  have cur: "current ?s = current s" by (simp add: current_def)
  have "header_ok ?s h" if "h \<in> set (bx_headers s)" for h
    using i(2) [OF that] by (simp add: header_ok_def keys_ok_def cur)
  moreover have "current_ok ?s A"
  proof -
    have tail: "(\<exists>b \<in># add_mset a A. tail_stored b) = (\<exists>b \<in># A. tail_stored b)" using a by (auto dest: tail_stored_inserts)
    have "slots_ok ?s (current s)" using c(7) by (simp add: slots_ok_def)
    moreover have "bx_value ?s (entry_at (current s) (bx_count s)) = None \<or> (\<exists>b \<in># A. key_stored b)"
      if "bx_key s (entry_at (current s) (bx_count s)) = base_of (bx_count s)"
    proof (cases "inserts a")
      case True
      then show ?thesis using a i(5) [of a] by auto
    next
      case False
      then have "\<not> key_stored a" using tail_stored_inserts(2) by blast
      then show ?thesis using c(9) [OF that] by auto
    qed
    ultimately show ?thesis using i(3) unfolding current_ok_def Let_def cur tail by simp
  qed
  moreover have "map_ok ?s"
    unfolding map_ok_def
  proof (intro allI impI)
    fix w b assume "bx_map ?s w = Some b"
    then have w: "bx_map s w = Some b" "w \<noteq> base" by (simp_all split: if_splits)
    from map_okD [OF i(4) w(1)] obtain m where m: "m < bx_count s" "w = base_of m" "hd_lo (current s) \<le> m"
      "bx_key s (entry_at (current s) m) = base_of m" "bx_value s (entry_at (current s) m) = Some b" .
    have "entry_at (current s) m \<noteq> e" using e [OF m(1)] w m(2) by auto
    then show "\<exists>m < bx_count ?s. w = base_of m \<and> hd_lo (current ?s) \<le> m \<and> bx_key ?s (entry_at (current ?s) m) = base_of m
        \<and> bx_value ?s (entry_at (current ?s) m) = Some b" using m by (intro exI [of _ m]) (simp add: cur)
  qed
  moreover have "bx_act_ok ?s d" if d: "d \<in># A" for d
  proof (cases "inserts d")
    case True
    then show ?thesis using i(5) [of d] d by (cases d) (auto simp: cur)
  next
    case False
    show ?thesis by (rule looks_mono [OF i(5) False]) (use d only [OF d] in \<open>auto simp: cur\<close>)
  qed
  ultimately show ?thesis using i(1,6) unfolding bx_inv_def by auto
qed

text \<open>A block is stored: it is in the index from now on.\<close>

lemma bx_inv_commit:
  assumes inv: "bx_inv s (add_mset (Ins_Value e base) A)" and k: "bx_count s < 2 ^ 58 - 1"
  shows "bx_inv (s\<lparr>bx_value := (bx_value s)(e := Some b), bx_count := bx_count s + 1, bx_map := (bx_map s)(base := Some b)\<rparr>) A" (is "bx_inv ?s _")
proof -
  note i = bx_invD [OF inv] and one = inserts_alone [OF inv]
  note c = current_okD [OF i(3)] and sl = slots_okD [OF current_okD(7) [OF i(3)]]
  let ?k = "bx_count s" and ?c = "current s"
  have a: "base = base_of ?k" "e = entry_at ?c ?k" "bx_key s e = base" using i(5) [of "Ins_Value e base"] by auto
  have cur: "current ?s = ?c" by (simp add: current_def)
  have tail: "unat (hd_tail ?c) = place ?c ?k" using c(8) by (simp add: tail_place_def)
  have diff: "base_of m \<noteq> base_of ?k" if "m < ?k" for m using base_of_inj [of m ?k] that k by simp
  have hd: "header_ok ?s h" if h: "h \<in> set (bx_headers s)" for h
  proof -
    note ho = i(2) [OF h, unfolded header_ok_def]
    have "bx_key s (hd_index h ! unat (hd_tail h)) \<noteq> INVALID_BLOCK_BASE" 
    proof (cases "0 < ?k")
      case False
      then have "h = ?c" using c(6) h i(1) by (cases "bx_headers s") (auto simp: current_def)
      then show ?thesis using tail a base_of_valid [of ?k] k by (simp add: entry_at_def)
    qed (use ho in simp)
    moreover have "keys_ok ?s h" using ho by (fastforce simp: keys_ok_def)
    ultimately show ?thesis using ho by (simp add: header_ok_def current_def)
  qed
  have reuse: "bx_key s (entry_at ?c (?k + 1)) = base_of (?k + 1 - capacity_of ?c)" if "\<not> ?k + 1 < hd_lo ?c + capacity_of ?c"
  proof -
    have "place ?c (?k + 1) = place ?c (?k + 1 - capacity_of ?c)"
      using that le_mod_geq [of "capacity_of ?c" "?k + 1 - hd_lo ?c"] by (simp add: place_def algebra_simps)
    then show ?thesis using sl(1) [of "?k + 1 - capacity_of ?c"] that c(2) by (simp add: entry_at_def)
  qed
  have "slots_ok ?s ?c"
    unfolding slots_ok_def Let_def
  proof (intro conjI allI impI)
    fix m assume "hd_lo ?c \<le> m \<and> m < bx_count ?s \<and> bx_count ?s < m + capacity_of ?c"
    then show "bx_key ?s (entry_at ?c m) = base_of m" using sl(1) a by (cases "m = ?k") auto
  next
    fix m assume "bx_count ?s < m \<and> m < hd_lo ?c + capacity_of ?c"
    then show "bx_key ?s (entry_at ?c m) = INVALID_BLOCK_BASE" using sl(2) by simp
  next
    show "bx_key ?s (entry_at ?c (bx_count ?s)) = base_of (bx_count ?s) \<or> bx_key ?s (entry_at ?c (bx_count ?s))
      = (if bx_count ?s < hd_lo ?c + capacity_of ?c then INVALID_BLOCK_BASE else base_of (bx_count ?s - capacity_of ?c))"
      using sl(2) [of "?k + 1"] reuse by simp
  qed
  moreover have "bx_key s (entry_at ?c (?k + 1)) \<noteq> base_of (?k + 1)"
    using sl(2) [of "?k + 1"] reuse base_of_valid [of "?k + 1"] base_of_inj [of "?k + 1 - capacity_of ?c" "?k + 1"] k c(2)
    by (cases "?k + 1 < hd_lo ?c + capacity_of ?c") auto
  moreover have "tail_place ?c (?k + 1) False = place ?c ?k"
  proof -
    have "?k + 1 - hd_lo ?c + capacity_of ?c - 1 = (?k - hd_lo ?c) + capacity_of ?c" using c(2,10) by simp
    then show ?thesis by (simp add: tail_place_def place_def)
  qed
  ultimately have "current_ok ?s A"
    using i(3) one(2) c(10) tail unfolding current_ok_def Let_def cur by simp
  moreover have "map_ok ?s"
    unfolding map_ok_def
  proof (intro allI impI)
    fix w v assume w: "bx_map ?s w = Some v"
    show "\<exists>m < bx_count ?s. w = base_of m \<and> hd_lo (current ?s) \<le> m \<and> bx_key ?s (entry_at (current ?s) m) = base_of m
        \<and> bx_value ?s (entry_at (current ?s) m) = Some v"
    proof (cases "w = base")
      case True
      then show ?thesis using w a c(10) by (intro exI [of _ ?k]) (simp add: cur)
    next
      case False
      then have "bx_map s w = Some v" using w by simp
      from map_okD [OF i(4) this] obtain m where m: "m < ?k" "w = base_of m" "hd_lo ?c \<le> m"
        "bx_key s (entry_at ?c m) = base_of m" "bx_value s (entry_at ?c m) = Some v" .
      have "entry_at ?c m \<noteq> e" using a m(4) diff [OF m(1)] by auto
      then show ?thesis using m by (intro exI [of _ m]) (simp add: cur)
    qed
  qed
  moreover have "bx_act_ok ?s d" if d: "d \<in># A" for d
  proof (rule looks_mono)
    show "bx_act_ok s d" "\<not> inserts d" using i(5) one(1) d by simp_all
    have "bx_map s base = None"
    proof (rule ccontr)
      assume "bx_map s base \<noteq> None"
      then obtain v where "bx_map s base = Some v" by blast
      from map_okD [OF i(4) this] obtain m where "m < ?k" "base = base_of m" .
      then show False using diff a(1) by auto
    qed
    then show "bx_map ?s base' = bx_map s base'" if "looks_for d = Some base'" "bx_map s base' \<noteq> None" for base'
      using that by auto
  qed (auto simp: cur)
  moreover have "(\<Sum>b \<in># A. of_bool (inserts b) :: nat) \<le> 1" by (rule no_inserts [OF one(1)]) simp
  ultimately show ?thesis using hd i(1) unfolding bx_inv_def by simp
qed

section \<open>Growth\<close>

lemma and_capacity_nat:
  assumes "wf_header h"
  shows "unat ((hd_tail h + 1 + of_nat i) AND (hd_capacity h - 1)) = (unat (hd_tail h) + 1 + i) mod capacity_of h"
proof -
  have "hd_tail h + 1 + of_nat i = word_of_int (int (unat (hd_tail h) + 1 + i))" by simp
  then have "int (unat ((hd_tail h + 1 + of_nat i) AND (hd_capacity h - 1))) = int (unat (hd_tail h) + 1 + i) mod int (capacity_of h)"
    using wf_headerD(4) [OF assms] by metis
  then show ?thesis by (simp only: zmod_int [symmetric] of_nat_eq_iff)
qed

lemma new_tail_place: "wf_header h \<Longrightarrow> unat (new_tail h) = (unat (hd_tail h) + 1) mod capacity_of h"
  using and_capacity_nat [of h 0] by (simp add: new_tail_def)

text \<open>Before an insertion the place behind the tail is that of the next block.\<close>

lemma next_place:
  assumes "wf_header c" "unat (hd_tail c) = tail_place c k False" "hd_lo c \<le> k" "1 \<le> capacity_of c"
  shows "unat (new_tail c) = place c k"
proof -
  have "unat (new_tail c) = ((k - hd_lo c + capacity_of c - 1) mod capacity_of c + 1) mod capacity_of c"
    using new_tail_place [OF assms(1)] assms(2) by (simp add: tail_place_def)
  also have "\<dots> = (k - hd_lo c + capacity_of c - 1 + 1) mod capacity_of c" by (rule mod_add_left_eq)
  also have "k - hd_lo c + capacity_of c - 1 + 1 = k - hd_lo c + capacity_of c" using assms(4) by simp
  finally show ?thesis by (simp add: place_def)
qed

lemma copied_entry:
  assumes "wf_header c" "unat (hd_tail c) = tail_place c k False" "hd_lo c + capacity_of c \<le> k" "i < capacity_of c"
  shows "copied_index c ! i = entry_at c (k - capacity_of c + i)"
proof -
  have "(unat (hd_tail c) + 1 + i) mod capacity_of c = ((k - hd_lo c + capacity_of c - 1) mod capacity_of c + (1 + i)) mod capacity_of c"
    using assms(2) by (simp add: tail_place_def)
  also have "\<dots> = (k - hd_lo c + capacity_of c - 1 + (1 + i)) mod capacity_of c" by (rule mod_add_left_eq)
  also have "k - hd_lo c + capacity_of c - 1 + (1 + i) = (k - capacity_of c + i - hd_lo c) + capacity_of c + capacity_of c"
    using assms(3,4) by simp
  also have "\<dots> mod capacity_of c = place c (k - capacity_of c + i)" by (simp add: place_def)
  finally have p: "(unat (hd_tail c) + 1 + i) mod capacity_of c = place c (k - capacity_of c + i)" .
  have "copied_index c ! i = hd_index c ! unat ((hd_tail c + 1 + of_nat i) AND (hd_capacity c - 1))"
    using assms(4) by (simp add: copied_index_def capacity_of_def del: of_nat_add)
  then show ?thesis unfolding and_capacity_nat [OF assms(1)] p by (simp add: entry_at_def)
qed

lemma grown_header:
  assumes wf: "wf_header c" and tail: "unat (hd_tail c) = tail_place c k False" and full: "hd_lo c + capacity_of c \<le> k"
    and cap: "2 \<le> capacity_of c" "capacity_of c \<le> 2 ^ 59" "unat next_capacity = 2 * capacity_of c"
    and h: "h = \<lparr>hd_capacity = next_capacity, hd_tail = (hd_capacity c - 1) AND (next_capacity - 1),
          hd_index = copied_index c @ [n..<n + unat (hd_capacity c)], hd_lo = k - unat (hd_capacity c)\<rparr>"
  shows "capacity_of h = 2 * capacity_of c" "hd_lo h = k - capacity_of c" "wf_header h"
    and "k - capacity_of c \<le> m \<Longrightarrow> m < k \<Longrightarrow> entry_at h m = entry_at c m"
    and "k \<le> m \<Longrightarrow> m < k + capacity_of c \<Longrightarrow> entry_at h m = n + (m - k)"
    and "unat (hd_tail h) = capacity_of c - 1"
    and "p < 2 * capacity_of c \<Longrightarrow> hd_index h ! p = entry_at h (k - capacity_of c + p) \<and> place h (k - capacity_of c + p) = p"
proof -
  show c: "capacity_of h = 2 * capacity_of c" and lo: "hd_lo h = k - capacity_of c"
    using cap(3) by (simp_all add: h capacity_of_def)
  have len: "length (copied_index c) = capacity_of c" by (simp add: copied_index_def capacity_of_def)
  obtain j where j: "0 < j" "j < 63" "capacity_of c = 2 ^ j" using wf by (auto simp: wf_header_def)
  have "j \<le> 59" using cap(2) j(3) power_le_imp_le_exp [of "2 :: nat" j 59] by simp
  have pow: "unat next_capacity = 2 ^ (j + 1)" using cap(3) j(3) by simp
  have "hd_capacity c - 1 = word_of_int (int (capacity_of c) - 1)" by (simp add: capacity_of_def)
  then have "int (unat (hd_tail h)) = (int (capacity_of c) - 1) mod int (2 * capacity_of c)"
    using and_capacity [OF pow, of "int (capacity_of c) - 1"] \<open>j \<le> 59\<close> cap(3) by (simp add: h)
  also have "\<dots> = int (capacity_of c) - 1" using cap(1) by (intro mod_pos_pos_trivial) simp_all
  also have "\<dots> = int (capacity_of c - 1)" using cap(1) by (simp add: of_nat_diff)
  finally show t: "unat (hd_tail h) = capacity_of c - 1" by (simp only: of_nat_eq_iff)
  have ix: "hd_index h = copied_index c @ [n..<n + capacity_of c]" by (simp add: h capacity_of_def)
  have "capacity_of h = 2 ^ (j + 1)" using c j(3) by simp
  then show wf': "wf_header h" unfolding wf_header_def using \<open>j \<le> 59\<close> c ix len t cap(1) by (intro conjI exI [of _ "j + 1"]) simp_all
  have place: "place h (k - capacity_of c + p) = p" if "p < 2 * capacity_of c" for p
    using that c lo by (simp add: place_def)
  then show "p < 2 * capacity_of c \<Longrightarrow> hd_index h ! p = entry_at h (k - capacity_of c + p) \<and> place h (k - capacity_of c + p) = p"
    by (simp add: entry_at_def)
  show "entry_at h m = entry_at c m" if m: "k - capacity_of c \<le> m" "m < k"
  proof -
    have "m - (k - capacity_of c) < capacity_of c" "k - capacity_of c + (m - (k - capacity_of c)) = m" using m full by simp_all
    then show ?thesis using place [of "m - (k - capacity_of c)"] copied_entry [OF wf tail full] len ix
      by (simp add: entry_at_def [of h] nth_append)
  qed
  show "entry_at h m = n + (m - k)" if m: "k \<le> m" "m < k + capacity_of c"
  proof -
    have "place h m = capacity_of c + (m - k)" using place [of "capacity_of c + (m - k)"] m full by simp
    then have "entry_at h m = (copied_index c @ [n..<n + capacity_of c]) ! (capacity_of c + (m - k))"
      by (simp only: entry_at_def ix)
    moreover have "m - k < capacity_of c" using m by linarith
    ultimately show ?thesis using len by (simp add: nth_append)
  qed
qed

text \<open>A block in the index is one of the last ones that the array holds.\<close>

lemma live_window:
  assumes "map_ok s" "bx_map s (base_of m) = Some b" "m < 2 ^ 58" "bx_count s < 2 ^ 58" and slots: "slots_ok s (current s)"
    and wf: "wf_header (current s)"
    and full: "hd_lo (current s) + capacity_of (current s) \<le> bx_count s"
    and oldest: "bx_key s (entry_at (current s) (bx_count s)) = base_of (bx_count s - capacity_of (current s))"
  shows "bx_count s - capacity_of (current s) \<le> m"
proof (rule ccontr)
  let ?c = "current s" and ?k = "bx_count s"
  let ?cap = "capacity_of ?c"
  assume "\<not> ?k - ?cap \<le> m"
  from map_okD [OF assms(1,2)] obtain l where l: "l < ?k" "base_of m = base_of l" "hd_lo ?c \<le> l" "bx_key s (entry_at ?c l) = base_of l" .
  have m: "m = l" using base_of_inj assms(3,4) l(1,2) by auto
  then have less: "l < ?k - ?cap" using \<open>\<not> ?k - ?cap \<le> m\<close> by simp
  define d where "d = (?k - ?cap - l + ?cap - 1) div ?cap * ?cap"
  have cap: "0 < ?cap" using wf_headerD(1) [OF wf] .
  have d: "?cap dvd d" "?k - ?cap \<le> l + d" "l + d < ?k"
  proof -
    let ?x = "?k - ?cap - l + ?cap - 1"
    have "d + ?x mod ?cap = ?x" "?x mod ?cap < ?cap" using cap by (simp_all add: d_def)
    then show "?cap dvd d" "?k - ?cap \<le> l + d" "l + d < ?k" using less cap by (simp add: d_def, linarith+)
  qed
  have "place ?c (l + d) = place ?c l"
  proof -
    have "l + d - hd_lo ?c = (l - hd_lo ?c) + d" using l(3) by simp
    then show ?thesis using d(1) by (metis mod_add_right_eq dvd_imp_mod_0 add_0_right place_def)
  qed
  moreover have "place ?c ?k = place ?c (?k - ?cap)"
    using full le_mod_geq [of ?cap "?k - hd_lo ?c"] by (simp add: place_def algebra_simps)
  ultimately have "bx_key s (entry_at ?c l) = base_of (l + d)"
    using slots_okD(1) [OF slots, of "l + d"] oldest d(2,3) l(3) by (cases "l + d = ?k - ?cap") (simp_all add: entry_at_def)
  then have "l + d = l" using l(4) base_of_inj [of "l + d" l] d(3) assms(4) l(1) by simp
  then show False using d(2) less by simp
qed

lemma shares_trans:
  assumes "shares a b" "shares b c"
  shows "shares a c"
  unfolding shares_def
proof (intro conjI allI impI)
  show "hd_lo a \<le> hd_lo c" "capacity_of a dvd capacity_of c" using assms unfolding shares_def by (auto intro: dvd_trans)
  fix p assume "p < capacity_of a"
  then obtain q where q: "q < capacity_of b" "hd_index b ! q = hd_index a ! p" "(q + (hd_lo b - hd_lo a)) mod capacity_of a = p"
    using assms(1) unfolding shares_def by blast
  then obtain r where r: "r < capacity_of c" "hd_index c ! r = hd_index b ! q" "(r + (hd_lo c - hd_lo b)) mod capacity_of b = q"
    using assms(2) unfolding shares_def by blast
  have le: "hd_lo a \<le> hd_lo b" "hd_lo b \<le> hd_lo c" "capacity_of a dvd capacity_of b" using assms unfolding shares_def by auto
  have "(r + (hd_lo c - hd_lo a)) mod capacity_of a = (r + (hd_lo c - hd_lo b) + (hd_lo b - hd_lo a)) mod capacity_of a"
    using le(1,2) by simp
  also have "\<dots> = ((r + (hd_lo c - hd_lo b)) mod capacity_of b + (hd_lo b - hd_lo a)) mod capacity_of a"
    using le(3) by (metis mod_add_left_eq mod_mod_cancel)
  also have "\<dots> = p" using q(3) r(3) by simp
  finally show "\<exists>r < capacity_of c. hd_index c ! r = hd_index a ! p \<and> (r + (hd_lo c - hd_lo a)) mod capacity_of a = p"
    using q(2) r(1,2) by (intro exI [of _ r]) simp
qed

lemma shares_grown:
  assumes "capacity_of h = 2 * capacity_of c" "hd_lo h = k - capacity_of c" "hd_lo c + capacity_of c \<le> k"
    and nth: "\<And>q. q < capacity_of c \<Longrightarrow> hd_index h ! q = entry_at c (k - capacity_of c + q)" and cap: "0 < capacity_of c"
  shows "shares c h"
  unfolding shares_def
proof (intro conjI allI impI)
  show "hd_lo c \<le> hd_lo h" "capacity_of c dvd capacity_of h" using assms(1-3) by simp_all
  fix p assume p: "p < capacity_of c"
  let ?D = "hd_lo h - hd_lo c"
  define q where "q = (p + (capacity_of c - ?D mod capacity_of c)) mod capacity_of c"
  have q: "q < capacity_of c" using cap by (simp add: q_def)
  have "(q + ?D) mod capacity_of c = (p + (capacity_of c - ?D mod capacity_of c) + ?D mod capacity_of c) mod capacity_of c"
    unfolding q_def by (metis mod_add_left_eq mod_add_right_eq)
  also have "p + (capacity_of c - ?D mod capacity_of c) + ?D mod capacity_of c = p + capacity_of c"
    using mod_less_divisor [OF cap, of ?D] by simp
  finally have eq: "(q + ?D) mod capacity_of c = p" using p by simp
  have "k - capacity_of c + q - hd_lo c = q + ?D" using assms(2,3) by simp
  then have "hd_index h ! q = hd_index c ! p" using nth [OF q] eq by (simp add: entry_at_def place_def)
  then show "\<exists>q < capacity_of h. hd_index h ! q = hd_index c ! p \<and> (q + ?D) mod capacity_of c = p"
    using q eq assms(1) by (intro exI [of _ q]) simp
qed

text \<open>A full array is copied into one of twice the size: nothing that is in the index changes its entry.\<close>

lemma bx_inv_grow:
  assumes inv: "bx_inv s (add_mset (Ins_Start base) A)" and k: "bx_count s < 2 ^ 58"
    and full: "bx_key s (entry_at (current s) (bx_count s)) \<noteq> INVALID_BLOCK_BASE" "bx_value s (entry_at (current s) (bx_count s)) \<noteq> None"
    and s': "s' = new_block_index garbage s"
  shows "bx_inv s' (add_mset (Ins_Key (hd_index (current s') ! unat (new_tail (current s'))) (new_tail (current s')) base) A)"
proof -
  note i = bx_invD [OF inv] and one = inserts_alone [OF inv]
  note c = current_okD [OF i(3)] and sl = slots_okD [OF current_okD(7) [OF i(3)]]
  let ?k = "bx_count s" and ?c = "current s"
  let ?cap = "capacity_of ?c" and ?n = "bx_entries s"
  note wf = header_okD(1) [OF i(7)]
  have base: "base = base_of ?k" using i(5) [of "Ins_Start base"] by simp
  have stored: "unat (hd_tail ?c) = tail_place ?c ?k False" using c(8) one(2) by simp
  have "\<not> (\<exists>a \<in># add_mset (Ins_Start base) A. key_stored a)" using one(1) tail_stored_inserts(2) by auto
  then have "bx_key s (entry_at ?c ?k) \<noteq> base_of ?k" using c(9) full(2) by auto
  then have room: "hd_lo ?c + ?cap \<le> ?k" and oldest: "bx_key s (entry_at ?c ?k) = base_of (?k - ?cap)"
    using sl(3) full(1) by (auto split: if_splits)
  define h where "h = \<lparr>hd_capacity = bx_next_capacity s, hd_tail = (hd_capacity ?c - 1) AND (bx_next_capacity s - 1),
          hd_index = copied_index ?c @ [?n..<?n + unat (hd_capacity ?c)], hd_lo = ?k - unat (hd_capacity ?c)\<rparr>"
  note g = grown_header [OF wf stored room c(2-4) h_def]
  have hs: "bx_headers s' = bx_headers s @ [h]" "current s' = h" "bx_entries s' = ?n + ?cap" "bx_count s' = ?k" "bx_map s' = bx_map s"
    "bx_next_capacity s' = push_bit 1 (bx_next_capacity s)"
    "\<And>e. bx_key s' e = (if ?n \<le> e \<and> e < ?n + ?cap then INVALID_BLOCK_BASE else bx_key s e)"
    "\<And>e. bx_value s' e = (if ?n \<le> e \<and> e < ?n + ?cap then garbage e else bx_value s e)"
    using i(1) by (simp_all add: s' new_block_index_def h_def current_def Let_def capacity_of_def)
  have below: "e < ?n" if "h' \<in> set (bx_headers s)" "e \<in> set (hd_index h')" for h' e
    using i(2) [OF that(1)] that(2) by (auto simp: header_ok_def)
  have at_below: "entry_at ?c m < ?n" for m
    using header_okD(2) [OF i(7)] place_less [OF wf] by (simp add: entry_at_def)
  have key_old: "bx_key s' (entry_at ?c m) = bx_key s (entry_at ?c m)" "bx_value s' (entry_at ?c m) = bx_value s (entry_at ?c m)" for m
    using at_below [of m] by (simp_all add: hs)
  have key_at: "bx_key s (entry_at ?c m) = base_of m" if "?k - ?cap \<le> m" "m < ?k" for m
  proof (cases "m = ?k - ?cap")
    case True
    have "place ?c ?k = place ?c m" using True room le_mod_geq [of ?cap "?k - hd_lo ?c"] by (simp add: place_def algebra_simps)
    then show ?thesis using oldest True by (simp add: entry_at_def)
  next
    case False
    then show ?thesis using sl(1) [of m] that room by simp
  qed
  have new_key: "bx_key s' (entry_at h m) = (if m < ?k then base_of m else INVALID_BLOCK_BASE)" if "?k - ?cap \<le> m" "m < ?k + ?cap" for m
    using g(4,5) [of m] that key_at [of m] key_old by (cases "m < ?k") (auto simp: hs)
  have live: "?k - ?cap \<le> m" if "m < ?k" "bx_map s (base_of m) \<noteq> None" for m
    using live_window [OF i(4) _ _ k c(7) wf room oldest, of m] that k by auto
  have len_h: "length (hd_index h) = 2 * ?cap" using wf_headerD(2) [OF g(3)] g(1) by simp
  have nth_h: "hd_index h ! p = (if p < ?cap then entry_at ?c (?k - ?cap + p) else ?n + (p - ?cap))" if "p < 2 * ?cap" for p
    using g(4,5) [of "?k - ?cap + p"] g(7) [OF that] that room by (auto simp: algebra_simps)
  have sc: "shares ?c h" by (rule shares_grown [OF g(1,2) room]) (use nth_h c(2) in simp_all)
  have distinct_h: "distinct (hd_index h)"
    unfolding distinct_conv_nth len_h
  proof (intro allI impI notI)
    fix p q assume p: "p < 2 * ?cap" "q < 2 * ?cap" "p \<noteq> q" "hd_index h ! p = hd_index h ! q"
    have old: False if "p < ?cap" "q < ?cap"
    proof -
      have "base_of (?k - ?cap + p) = base_of (?k - ?cap + q)"
        using p nth_h [OF p(1)] nth_h [OF p(2)] that key_at [of "?k - ?cap + p"] key_at [of "?k - ?cap + q"] room by simp
      moreover have "?k - ?cap + p < 2 ^ 58" "?k - ?cap + q < 2 ^ 58" using that k room by linarith+
      ultimately have "?k - ?cap + p = ?k - ?cap + q" using base_of_inj by blast
      then show False using p(3) by simp
    qed
    then show False
      using p nth_h [OF p(1)] nth_h [OF p(2)] at_below [of "?k - ?cap + p"] at_below [of "?k - ?cap + q"]
      by (auto split: if_splits)
  qed
  have small: "2 * ?cap \<le> 2 ^ 59" using room k by simp
  have doubled: "unat (bx_next_capacity s') = 4 * ?cap"
    using small c(4) by (simp add: hs(6) unat_word_ariths push_bit_eq_mult)
  have key_k: "bx_key s' (entry_at h ?k) = INVALID_BLOCK_BASE" using new_key [of ?k] c(2) room by simp
  have slots_h: "slots_ok s' h"
    unfolding slots_ok_def Let_def hs(4) g(1,2)
    using new_key key_k c(2) room by auto
  have lo_h: "hd_lo h < ?k" "hd_lo h \<le> ?k" using g(2) c(2) room by auto
  have tail_h: "unat (hd_tail h) = tail_place h ?k False"
  proof -
    have "?k - hd_lo h + capacity_of h - 1 = (?cap - 1) + 2 * ?cap" using g(1,2) c(2) room by simp
    then have "tail_place h ?k False = (?cap - 1) mod (2 * ?cap)" by (simp only: tail_place_def if_False g(1) mod_add_self2)
    then show ?thesis using g(6) c(2) by simp
  qed
  have "header_ok s' h'" if h': "h' \<in> set (bx_headers s)" for h'
  proof -
    note ho = header_okD [OF i(2) [OF h']]
    have same: "bx_key s' (hd_index h' ! p) = bx_key s (hd_index h' ! p)" if "p < capacity_of h'" for p
      using ho(2) [OF that] by (simp add: hs)
    have "keys_ok s' h'" using ho(3) by (simp add: keys_ok_def same hs(4))
    moreover have "bx_key s' (hd_index h' ! unat (hd_tail h')) = bx_key s (hd_index h' ! unat (hd_tail h'))"
      using same wf_headerD(3) [OF ho(1)] by blast
    moreover have "\<forall>e \<in> set (hd_index h'). e < bx_entries s'" using below [OF h'] by (auto simp: hs(3) intro: trans_less_add1)
    moreover have "shares h' (current s')" using shares_trans [OF ho(5) sc] by (simp add: hs(2))
    ultimately show ?thesis using ho(1,4) by (simp add: header_ok_def hs(4))
  qed
  moreover have "header_ok s' h"
  proof -
    have "e < bx_entries s'" if "e \<in> set (hd_index h)" for e
    proof -
      have "\<exists>p < length (hd_index h). hd_index h ! p = e" using that by (simp only: in_set_conv_nth)
      then obtain p where p: "p < length (hd_index h)" "hd_index h ! p = e" by blast
      then show ?thesis using nth_h [of p] at_below [of "?k - ?cap + p"] by (auto simp: hs(3) len_h split: if_splits)
    qed
    moreover have "keys_ok s' h"
      unfolding keys_ok_def g(1)
    proof (intro allI impI)
      fix p assume p: "p < 2 * ?cap"
      show "bx_key s' (hd_index h ! p) = INVALID_BLOCK_BASE
        \<or> (\<exists>m. hd_lo h \<le> m \<and> m \<le> bx_count s' \<and> bx_key s' (hd_index h ! p) = base_of m \<and> place h m = p)"
      proof (cases "?k - ?cap + p < ?k")
        case True
        then show ?thesis using g(2) g(7) [OF p] new_key [of "?k - ?cap + p"]
          by (intro disjI2 exI [of _ "?k - ?cap + p"]) (simp add: hs(4))
      next
        case False
        have "?k - ?cap + p < ?k + ?cap" using p room by linarith
        then show ?thesis using False g(7) [OF p] new_key [of "?k - ?cap + p"] by simp
      qed
    qed
    moreover have "bx_key s' (hd_index h ! unat (hd_tail h)) \<noteq> INVALID_BLOCK_BASE"
      using g(6) g(7) [of "?cap - 1"] new_key [of "?k - 1"] base_of_valid [of "?k - 1"] k c(2) room by simp
    moreover have "shares h h" using wf_headerD(1) [OF g(3)] by (auto simp: shares_def)
    ultimately show ?thesis using g(3) by (simp add: header_ok_def hs(2))
  qed
  moreover have "current_ok s' (add_mset (Ins_Key (hd_index h ! unat (new_tail h)) (new_tail h) base) A)"
    unfolding current_ok_def Let_def hs(2,4)
  proof (intro conjI)
    show "unat (hd_tail h) = tail_place h ?k (\<exists>a \<in># add_mset (Ins_Key (hd_index h ! unat (new_tail h)) (new_tail h) base) A. tail_stored a)"
      using tail_h one(2) by simp
    show "bx_key s' (entry_at h ?k) = base_of ?k \<longrightarrow> bx_value s' (entry_at h ?k) = None
        \<or> (\<exists>a \<in># add_mset (Ins_Key (hd_index h ! unat (new_tail h)) (new_tail h) base) A. key_stored a)"
      using key_k base_of_valid [OF k] by simp
  qed (use distinct_h c(2) small doubled slots_h lo_h in \<open>simp_all add: g(1)\<close>)
  moreover have "map_ok s'"
    unfolding map_ok_def
  proof (intro allI impI)
    fix w b assume "bx_map s' w = Some b"
    then have w: "bx_map s w = Some b" by (simp add: hs(5))
    from map_okD [OF i(4) w] obtain m where m: "m < ?k" "w = base_of m" "hd_lo ?c \<le> m"
      "bx_key s (entry_at ?c m) = base_of m" "bx_value s (entry_at ?c m) = Some b" .
    have "?k - ?cap \<le> m" using live m(1,2) w by simp
    then show "\<exists>m < bx_count s'. w = base_of m \<and> hd_lo (current s') \<le> m \<and> bx_key s' (entry_at (current s') m) = base_of m
        \<and> bx_value s' (entry_at (current s') m) = Some b"
      using m g(2) g(4) [of m] key_old by (intro exI [of _ m]) (simp add: hs(2,4))
  qed
  moreover have "bx_act_ok s' d" if "d \<in># A" for d
  proof (rule looks_mono)
    show "bx_act_ok s d" "\<not> inserts d" using i(5) one(1) that by simp_all
    show "entry_at (current s') m = entry_at (current s) m" if "m < ?k" "bx_map s (base_of m) \<noteq> None" for m
      using g(4) [OF live [OF that] that(1)] by (simp add: hs(2))
    show "bx_key s' (hd_index (bx_headers s ! h') ! p) \<noteq> INVALID_BLOCK_BASE"
      if "h' < length (bx_headers s)" "p < capacity_of (bx_headers s ! h')" "bx_key s (hd_index (bx_headers s ! h') ! p) \<noteq> INVALID_BLOCK_BASE" for h' p
      using header_okD(2) [OF i(2) that(2)] that(1,3) by (simp add: hs)
  qed (simp_all add: hs nth_append)
  moreover have "bx_act_ok s' (Ins_Key (hd_index h ! unat (new_tail h)) (new_tail h) base)"
    using next_place [OF g(3) tail_h] lo_h key_k base c(2) by (simp add: hs(2,4) g(1) entry_at_def)
  ultimately show ?thesis using i(1,6) unfolding bx_inv_def by (auto simp: hs)
qed

section \<open>Every step\<close>

text \<open>A step that changes no memory.\<close>

lemma bx_inv_replace:
  assumes inv: "bx_inv s (C + A)" and "\<And>b. b \<in># B \<Longrightarrow> bx_act_ok s b"
    and "(\<Sum>b \<in># B. of_bool (inserts b) :: nat) + (\<Sum>b \<in># A. of_bool (inserts b)) \<le> 1"
    and "(\<exists>b \<in># B. tail_stored b) = (\<exists>b \<in># C. tail_stored b)" and "(\<exists>b \<in># C. key_stored b) \<longrightarrow> (\<exists>b \<in># B. key_stored b)"
  shows "bx_inv s (B + A)"
proof -
  note i = bx_invD [OF inv]
  have tail: "(\<exists>b \<in># B + A. tail_stored b) = (\<exists>b \<in># C + A. tail_stored b)"
    using assms(4) by (simp only: set_mset_union bex_Un)
  have key: "(\<exists>b \<in># C + A. key_stored b) \<longrightarrow> (\<exists>b \<in># B + A. key_stored b)"
    using assms(5) unfolding set_mset_union bex_Un by blast
  have "current_ok s (B + A)" using i(3) key unfolding current_ok_def Let_def tail by blast
  moreover have "bx_act_ok s b" if "b \<in># B + A" for b
    using that assms(2) [of b] i(5) [of b] by (simp only: union_iff) blast
  moreover have "(\<Sum>b \<in># B + A. of_bool (inserts b) :: nat) \<le> 1" using assms(3) by simp
  ultimately show ?thesis using i(1,2,4) unfolding bx_inv_def by blast
qed

lemma bx_inv_new: "bx_inv (block_index_new garbage) {#}"
proof -
  let ?s = "block_index_new garbage" and ?h = "\<lparr>hd_capacity = 32, hd_tail = 31, hd_index = [0..<32], hd_lo = 0\<rparr>"
  have s: "bx_headers ?s = [?h]" "bx_key ?s = (\<lambda>e. if e < 32 then INVALID_BLOCK_BASE else 0)" "bx_entries ?s = 32"
    "bx_next_capacity ?s = 64" "bx_count ?s = 0" "bx_map ?s = (\<lambda>_. None)" "current ?s = ?h"
    by (auto simp: block_index_new_def new_block_index_def IMPLICIT_INITIAL_INDEX_SIZE_def current_def)
  have cap: "capacity_of ?h = 32" by (simp add: capacity_of_def)
  have wf: "wf_header ?h" unfolding wf_header_def cap by (intro conjI exI [of _ 5]) simp_all
  have key: "bx_key ?s (entry_at ?h m) = INVALID_BLOCK_BASE" for m
    using place_less [OF wf, of m] cap by (simp add: entry_at_def s(2))
  have "shares ?h ?h" by (auto simp: shares_def cap)
  then have "header_ok ?s ?h" using wf by (simp add: header_ok_def s keys_ok_def cap)
  moreover have "current_ok ?s {#}"
    using key base_of_valid [of 0] by (simp add: current_ok_def s cap slots_ok_def tail_place_def Let_def)
  ultimately show ?thesis by (simp add: bx_inv_def s map_ok_def)
qed

lemma bx_inv_rewind:
  assumes inv: "bx_inv s (add_mset (Rewind e) A)" and k: "bx_count s < 2 ^ 58"
  shows "bx_inv (set_tail ((hd_tail (current s) - 1) AND (hd_capacity (current s) - 1)) s) (add_mset (Rewind_Value e) A)"
proof (rule bx_inv_set_tail [OF inv])
  let ?c = "current s" and ?k = "bx_count s" and ?t = "(hd_tail (current s) - 1) AND (hd_capacity (current s) - 1)"
  note i = bx_invD [OF inv] and c = current_okD [OF bx_invD(3) [OF inv]]
  note wf = header_okD(1) [OF i(7)]
  have tail: "unat (hd_tail ?c) = place ?c ?k" using c(8) by (simp add: tail_place_def)
  have "hd_tail ?c - 1 = word_of_int (int (unat (hd_tail ?c)) - 1)" by simp
  then have "int (unat ?t) = (int (unat (hd_tail ?c)) - 1) mod int (capacity_of ?c)" using wf_headerD(4) [OF wf] by metis
  also have "\<dots> = (int ?k - int (hd_lo ?c) - 1) mod int (capacity_of ?c)"
    unfolding tail int_place [OF c(10)] by (simp add: mod_simps)
  also have "\<dots> = (int ?k - int (hd_lo ?c) - 1 + int (capacity_of ?c)) mod int (capacity_of ?c)" by simp
  also have "int ?k - int (hd_lo ?c) - 1 + int (capacity_of ?c) = int (?k - hd_lo ?c + capacity_of ?c - 1)"
    using c(2,10) by (simp add: of_nat_diff)
  finally have t: "unat ?t = tail_place ?c ?k False" by (simp only: tail_place_def if_False zmod_int [symmetric] of_nat_eq_iff)
  then show "unat ?t = tail_place ?c ?k (tail_stored (Rewind_Value e))" by simp
  show "0 < ?k \<longrightarrow> bx_key s (hd_index ?c ! unat ?t) \<noteq> INVALID_BLOCK_BASE"
  proof
    assume "0 < ?k"
    then have "hd_lo ?c \<le> ?k - 1" "?k - hd_lo ?c + capacity_of ?c - 1 = (?k - 1 - hd_lo ?c) + capacity_of ?c" using c(5) by auto
    then have "unat ?t = place ?c (?k - 1)" "hd_lo ?c \<le> ?k - 1" by (simp_all add: t tail_place_def place_def)
    then show "bx_key s (hd_index ?c ! unat ?t) \<noteq> INVALID_BLOCK_BASE"
      using slots_okD(1) [OF c(7), of "?k - 1"] base_of_valid [of "?k - 1"] \<open>0 < ?k\<close> c(2) k by (simp add: entry_at_def)
  qed
  show "bx_act_ok s (Rewind_Value e)" using i(5) [of "Rewind e"] by auto
  then show "bx_act_ok (set_tail ?t s) (Rewind_Value e)" by (auto simp: set_tail_simps [OF i(1)])
qed simp_all

text \<open>An entry of a block in the index belongs to no other position.\<close>

lemma live_entry:
  assumes "map_ok s" "bx_map s (base_of m) \<noteq> None" "m < bx_count s" "bx_count s < 2 ^ 58"
  shows "bx_key s (entry_at (current s) m) = base_of m" "hd_lo (current s) \<le> m"
    and "bx_value s (entry_at (current s) m) = bx_map s (base_of m)"
proof -
  obtain b where b: "bx_map s (base_of m) = Some b" using assms(2) by blast
  from map_okD [OF assms(1) b] obtain l where "l < bx_count s" "base_of m = base_of l" "hd_lo (current s) \<le> l"
    "bx_key s (entry_at (current s) l) = base_of l" "bx_value s (entry_at (current s) l) = Some b" .
  moreover from calculation have "l = m" using base_of_inj [of m l] assms(3,4) by simp
  ultimately show "bx_key s (entry_at (current s) m) = base_of m" "hd_lo (current s) \<le> m"
    "bx_value s (entry_at (current s) m) = bx_map s (base_of m)" using b by simp_all
qed

lemma looked_for_live: "bx_act_ok s a \<Longrightarrow> looks_for a = Some base \<Longrightarrow> bx_map s base \<noteq> None"
  by (cases a) (auto simp: reads_from_def)

lemma bx_inv_rewind_value:
  assumes inv: "bx_inv s (add_mset (Rewind_Value e) A)" and k: "bx_count s < 2 ^ 58"
  shows "bx_inv (s\<lparr>bx_value := (bx_value s)(e := None)\<rparr>) A"
proof -
  note i = bx_invD [OF inv]
  have key: "bx_key s e = base_of (bx_count s)" using i(5) [of "Rewind_Value e"] by auto
  have none: "bx_map s (base_of (bx_count s)) = None"
  proof (rule ccontr)
    assume "bx_map s (base_of (bx_count s)) \<noteq> None"
    then obtain b where "bx_map s (base_of (bx_count s)) = Some b" by blast
    from map_okD [OF i(4) this] obtain m where "m < bx_count s" "base_of (bx_count s) = base_of m" .
    then show False using base_of_inj [of "bx_count s" m] k by simp
  qed
  have "bx_inv (s\<lparr>bx_value := (bx_value s)(e := None), bx_map := (bx_map s)(base_of (bx_count s) := None)\<rparr>) A"
  proof (rule bx_inv_clear [OF inv])
    show "entry_at (current s) m \<noteq> e" if "m < bx_count s" "bx_map s (base_of m) \<noteq> None" "base_of m \<noteq> base_of (bx_count s)" for m
      using live_entry(1) [OF i(4) that(2,1) k] that(3) key by auto
    show "looks_for d \<noteq> Some (base_of (bx_count s))" if "d \<in># A" for d
      using looked_for_live [of s d "base_of (bx_count s)"] i(5) that none by auto
  qed simp
  then show ?thesis using none by (simp add: fun_upd_idem)
qed

lemma bx_inv_remove:
  assumes inv: "bx_inv s (add_mset (Found base e b) A)" and k: "bx_count s < 2 ^ 58"
    and only: "\<not> (\<exists>a \<in># A. looks_for a = Some base)"
  shows "bx_inv (s\<lparr>bx_value := (bx_value s)(e := None), bx_map := (bx_map s)(base := None)\<rparr>) A"
proof (rule bx_inv_clear [OF inv])
  note i = bx_invD [OF inv]
  obtain l where l: "l < bx_count s" "base = base_of l" "bx_map s base = Some b" "e = entry_at (current s) l"
    using i(5) [of "Found base e b"] by auto
  have "bx_key s e = base" using live_entry(1) [OF i(4) _ l(1) k] l by simp
  then show "entry_at (current s) m \<noteq> e" if "m < bx_count s" "bx_map s (base_of m) \<noteq> None" "base_of m \<noteq> base" for m
    using live_entry(1) [OF i(4) that(2,1) k] that(3) by auto
qed (use only in auto)

text \<open>A lookup goes through, from whatever array and tail, and finds the block of the map.\<close>

lemma look_advances:
  assumes inv: "bx_inv s A" and a: "a \<in># A" "looks_for a = Some base" and k: "bx_count s < 2 ^ 58"
  shows "\<exists>nxt. bx_advance mem blk a s = Some (s, nxt) \<and> (\<forall>b \<in># opt_mset nxt. bx_act_ok s b \<and> \<not> inserts b \<and> looks_for b = Some base)
    \<and> (nxt = None \<longrightarrow> (\<exists>e b. a = Found base e b \<and> bx_map s base = Some b))"
proof (cases a)
  note i = bx_invD [OF inv]
  have ok: "bx_act_ok s a" by (rule i(5) [OF a(1)])
  {
    case (Look_Header w)
    then have "bx_map s base \<noteq> None" using ok a(2) by simp
    then obtain b where "bx_map s base = Some b" by blast
    from map_okD [OF i(4) this] obtain m where "m < bx_count s" "base = base_of m" "hd_lo (current s) \<le> m" .
    moreover have "bx_headers s ! (length (bx_headers s) - 1) = current s" using i(1) by (simp add: current_def last_conv_nth)
    ultimately have "reads_from s base (length (bx_headers s) - 1)"
      using \<open>bx_map s base \<noteq> None\<close> i(1) unfolding reads_from_def by (intro conjI exI [of _ m]) simp_all
    then show ?thesis using Look_Header a(2) i(1) by simp
  next
    case (Look_Tail w h)
    then have r: "reads_from s base h" using ok a(2) by simp
    then have h: "h < length (bx_headers s)" "0 < bx_count s" by (auto simp: reads_from_def)
    note ho = header_okD [OF i(2) [OF nth_mem [OF h(1)]]]
    show ?thesis using Look_Tail a(2) r ho(4) [OF h(2)] wf_headerD(3) [OF ho(1)] by simp
  next
    case (Look_Key w h t)
    let ?h = "bx_headers s ! h" and ?e = "hd_index (bx_headers s ! h) ! unat t"
    have r: "reads_from s base h" "unat t < capacity_of ?h" "bx_key s ?e \<noteq> INVALID_BLOCK_BASE" using Look_Key ok a(2) by simp_all
    obtain m where m: "h < length (bx_headers s)" "m < bx_count s" "base = base_of m" "bx_map s base \<noteq> None"
      "hd_lo ?h \<le> m" "entry_at ?h m = entry_at (current s) m" using r(1) unfolding reads_from_def by blast
    note ho = header_okD [OF i(2) [OF nth_mem [OF m(1)]]]
    obtain m' where m': "hd_lo ?h \<le> m'" "m' \<le> bx_count s" "bx_key s ?e = base_of m'" "place ?h m' = unat t"
      using ho(3) r(2,3) unfolding keys_ok_def by blast
    have "unat (index_of_base ?h t (bx_key s ?e) base) = place ?h m"
      unfolding m(3) m'(3) using m(2) m'(2) k by (intro index_of_base_place [OF ho(1)]) (use m(5) m'(1,4) in simp_all)
    then show ?thesis
      using Look_Key a(2) r(2,3) m wf_headerD(2) [OF ho(1)] place_less [OF ho(1)] by (auto simp: entry_at_def Let_def)
  next
    case (Look_Value w e)
    then obtain m where m: "m < bx_count s" "base = base_of m" "bx_map s base \<noteq> None" "e = entry_at (current s) m"
      using ok a(2) by auto
    then obtain b where "bx_map s base = Some b" by blast
    moreover have "bx_map s (base_of m) \<noteq> None" using m by simp
    ultimately show ?thesis using Look_Value a(2) m live_entry [OF i(4) _ m(1) k] by auto
  next
    case (Found w e b)
    then show ?thesis using ok a(2) by auto
  }
qed (use a(2) in simp_all)

lemma bx_inv_advance:
  assumes inv: "bx_inv s (add_mset a A)" and k: "bx_count s < 2 ^ 58 - 1"
    and step: "bx_advance mem blk a s = Some (s', nxt)"
  shows "bx_inv s' (opt_mset nxt + A) \<and> bx_count s' \<le> bx_count s + 1"
proof -
  note i = bx_invD [OF inv]
  have k': "bx_count s < 2 ^ 58" using k by simp
  have same: "bx_inv s (B + A)"
    if "inserts a" "\<forall>b \<in># B. bx_act_ok s b" "size B \<le> 1" "(\<exists>b \<in># B. tail_stored b) = tail_stored a" "key_stored a \<longrightarrow> (\<exists>b \<in># B. key_stored b)" for B
  proof (rule bx_inv_replace [where C = "{#a#}"])
    have "(\<Sum>b \<in># B. of_bool (inserts b) :: nat) \<le> size B" by (induction B) auto
    moreover have "(\<Sum>b \<in># A. of_bool (inserts b) :: nat) = 0" using inserts_alone(1) [OF inv that(1)] by (induction A) auto
    ultimately show "(\<Sum>b \<in># B. of_bool (inserts b) :: nat) + (\<Sum>b \<in># A. of_bool (inserts b)) \<le> 1" using that(3) by linarith
  qed (use inv that in simp_all)
  show ?thesis
  proof (cases "looks_for a")
    case (Some base)
    from look_advances [OF inv _ Some k', where mem = mem and blk = blk] step
    have s': "s' = s" "\<forall>b \<in># opt_mset nxt. bx_act_ok s b \<and> \<not> inserts b" by auto
    have "\<not> inserts a" "\<And>b. \<not> inserts b \<Longrightarrow> \<not> tail_stored b \<and> \<not> key_stored b" using Some tail_stored_inserts by (cases a; auto)+
    have "bx_inv s (opt_mset nxt + A)"
    proof (rule bx_inv_replace [where C = "{#a#}"])
      have "(\<Sum>b \<in># opt_mset nxt. of_bool (inserts b) :: nat) = 0" using s'(2) by (cases nxt) auto
      moreover have "(\<Sum>b \<in># A. of_bool (inserts b) :: nat) \<le> 1" using i(6) by simp
      ultimately show "(\<Sum>b \<in># opt_mset nxt. of_bool (inserts b) :: nat) + (\<Sum>b \<in># A. of_bool (inserts b)) \<le> 1" by linarith
    qed (use inv s'(2) \<open>\<not> inserts a\<close> \<open>\<And>b. \<not> inserts b \<Longrightarrow> \<not> tail_stored b \<and> \<not> key_stored b\<close> in auto)
    then show ?thesis using s'(1) by simp
  next
    case None
    note c = current_okD [OF i(3)] and wf = header_okD(1) [OF i(7)]
    show ?thesis
    proof (cases a)
      case (Ins_Start base)
      let ?e = "hd_index (current s) ! unat (new_tail (current s))"
      have "\<not> (\<exists>b \<in># add_mset a A. tail_stored b)" using inserts_alone(2) [OF inv] Ins_Start by simp
      then have "unat (hd_tail (current s)) = tail_place (current s) (bx_count s) False" using c(8) by simp
      then have p: "unat (new_tail (current s)) = place (current s) (bx_count s)"
        using next_place [OF wf _ c(10)] c(2) by simp
      then have e: "?e = entry_at (current s) (bx_count s)" by (simp add: entry_at_def)
      show ?thesis
      proof (cases "bx_key s ?e = INVALID_BLOCK_BASE \<or> bx_value s ?e = None")
        case True
        then have "s' = s" "nxt = Some (Ins_Key ?e (new_tail (current s)) base)" using step Ins_Start i(1) by (auto simp: Let_def)
        then show ?thesis using same [of "{#Ins_Key ?e (new_tail (current s)) base#}"] Ins_Start i(5) [of a] p e True by simp
      next
        case False
        show ?thesis
        proof (cases mem)
          case None
          then have "s' = s" "nxt = None" using step Ins_Start i(1) False by (auto simp: Let_def)
          then show ?thesis using same [of "{#}"] Ins_Start by simp
        next
          case (Some garbage)
          let ?s = "new_block_index garbage s"
          have "s' = ?s" "nxt = Some (Ins_Key (hd_index (current ?s) ! unat (new_tail (current ?s))) (new_tail (current ?s)) base)"
            using step Ins_Start i(1) False Some by (auto simp: Let_def)
          moreover have "bx_count ?s = bx_count s" by (simp add: new_block_index_def Let_def)
          ultimately show ?thesis
            using bx_inv_grow [OF inv [unfolded Ins_Start] k' _ _ refl, of garbage] False e by simp
        qed
      qed
    next
      case (Ins_Key e t base)
      then show ?thesis using step bx_inv_key [OF inv [unfolded Ins_Key] k'] by auto
    next
      case (Ins_Tail e t base)
      have a: "base = base_of (bx_count s)" "e = entry_at (current s) (bx_count s)" "unat t = place (current s) (bx_count s)" "bx_key s e = base"
        using i(5) [of a] Ins_Tail by auto
      have "bx_inv (set_tail t s) (add_mset (Ins_Value e base) A)"
        by (rule bx_inv_set_tail [OF inv [unfolded Ins_Tail]])
          (use a base_of_valid [OF k'] set_tail_simps(1-9) [OF i(1), of t] in \<open>auto simp: tail_place_def entry_at_def\<close>)
      then show ?thesis using step Ins_Tail set_tail_simps(6) [OF i(1), of t] by auto
    next
      case (Ins_Value e base)
      show ?thesis
      proof (cases blk)
        case None
        then have "s' = s" "nxt = Some (Rewind e)" using step Ins_Value by auto
        then show ?thesis using same [of "{#Rewind e#}"] Ins_Value i(5) [of a] by auto
      next
        case (Some b)
        then show ?thesis using step Ins_Value bx_inv_commit [OF inv [unfolded Ins_Value] k, of b] by auto
      qed
    next
      case (Rewind e)
      then show ?thesis using step bx_inv_rewind [OF inv [unfolded Rewind] k'] set_tail_simps(6) [OF i(1)] by auto
    next
      case (Rewind_Value e)
      then show ?thesis using step bx_inv_rewind_value [OF inv [unfolded Rewind_Value] k'] by auto
    qed (use None in simp_all)
  qed
qed

lemma bx_inv_step:
  assumes "bx_inv s A" "bx_count s < 2 ^ 58 - 1" "bx_step (s, A) (s', A')"
  shows "bx_inv s' A' \<and> bx_count s' \<le> bx_count s + 1"
  using assms(3)
proof (cases rule: bx_step.cases)
  case (insert base)
  have "bx_inv s ({#Ins_Start base#} + A)"
  proof (rule bx_inv_replace [where C = "{#}"])
    have "(\<Sum>b \<in># A. of_bool (inserts b) :: nat) = 0" using insert(3) by (induction A) auto
    moreover have "(\<Sum>b \<in># {#Ins_Start base#}. of_bool (inserts b) :: nat) = 1" by simp
    ultimately show "(\<Sum>b \<in># {#Ins_Start base#}. of_bool (inserts b) :: nat) + (\<Sum>b \<in># A. of_bool (inserts b)) \<le> 1" by linarith
  qed (use assms(1) insert in \<open>auto simp: base_of_def\<close>)
  then show ?thesis using insert by simp
next
  case (look base)
  have "bx_inv s ({#Look_Header base#} + A)"
    by (rule bx_inv_replace [where C = "{#}"]) (use assms(1) bx_invD(6) [OF assms(1)] look in auto)
  then show ?thesis using look by simp
next
  case (advance mem blk a nxt A)
  then show ?thesis using bx_inv_advance [of s a A mem blk s' nxt] assms(1,2) by simp
next
  case (remove base e b)
  then show ?thesis using bx_inv_remove [of s base e b A'] assms(1,2) by simp
qed

lemma bx_reach_inv: "bx_reach n s A \<Longrightarrow> n < 2 ^ 58 - 1 \<Longrightarrow> bx_inv s A \<and> bx_count s \<le> n"
proof (induction rule: bx_reach.induct)
  case (start garbage)
  then show ?case using bx_inv_new [of garbage] by (simp add: block_index_new_def new_block_index_def Let_def)
next
  case (step n s A s' A')
  then show ?case using bx_inv_step [of s A s' A'] by simp
qed

section \<open>Properties\<close>

text \<open>
  C36: whatever insertions, growth, failed insertions and removals happen while a block
  is looked up, and whichever array and tail the lookup has loaded before, each of its steps
  goes through: no read is outside an array and none meets an invalid key or a null block; and a
  lookup ends with the block that the map has at the position.
\<close>

theorem block_lookup_is_exact:
  assumes "bx_reach n s A" "n < 2 ^ 58 - 1" "a \<in># A" "looks_for a = Some base"
  shows "\<exists>nxt. bx_advance mem blk a s = Some (s, nxt)
    \<and> (case nxt of None \<Rightarrow> \<exists>e b. a = Found base e b \<and> bx_map s base = Some b | Some b \<Rightarrow> looks_for b = Some base)"
  using look_advances [where mem = mem and blk = blk, OF _ assms(3,4)] bx_reach_inv [OF assms(1,2)] assms(2)
  by (force split: option.splits)

text \<open>One thread alone, and the index after one block has been inserted.\<close>

fun bx_run :: "nat \<Rightarrow> (nat \<Rightarrow> nat option) option \<Rightarrow> nat option \<Rightarrow> bx_act \<Rightarrow> block_index \<Rightarrow> (block_index \<times> bx_act option) option" where
  "bx_run 0 mem blk a s = Some (s, Some a)"
| "bx_run (Suc n) mem blk a s =
     (case bx_advance mem blk a s of None \<Rightarrow> None | Some (s', None) \<Rightarrow> Some (s', None) | Some (s', Some b) \<Rightarrow> bx_run n mem blk b s')"

lemma bx_run_reach: "bx_run k mem blk a s = Some (s', nxt) \<Longrightarrow> bx_reach n s (add_mset a A) \<Longrightarrow> \<exists>n' \<le> n + k. bx_reach n' s' (opt_mset nxt + A)"
proof (induction k arbitrary: a s n)
  case (Suc k)
  obtain s1 nxt1 where step: "bx_advance mem blk a s = Some (s1, nxt1)" using Suc.prems(1) by (cases "bx_advance mem blk a s") auto
  have reach: "bx_reach (Suc n) s1 (opt_mset nxt1 + A)" by (rule bx_reach.step [OF Suc.prems(2) bx_step.advance [OF step]])
  show ?case
  proof (cases nxt1)
    case None
    then show ?thesis using Suc.prems(1) step reach by (intro exI [of _ "Suc n"]) simp
  next
    case (Some b)
    then show ?thesis using Suc.IH [of b s1 "Suc n"] Suc.prems(1) step reach by auto
  qed
qed auto

definition one_block :: block_index where
  "one_block = (block_index_new (\<lambda>_. None))\<lparr>bx_headers := [\<lparr>hd_capacity = 32, hd_tail = 0, hd_index = [0..<32], hd_lo = 0\<rparr>],
     bx_key := (\<lambda>e. if e = 0 then 0 else if e < 32 then 1 else 0), bx_value := [0 \<mapsto> 7], bx_count := 1, bx_map := [0 \<mapsto> 7]\<rparr>"

lemma new_index: "block_index_new (\<lambda>_. None) = \<lparr>bx_headers = [\<lparr>hd_capacity = 32, hd_tail = 31, hd_index = [0..<32], hd_lo = 0\<rparr>],
    bx_key = (\<lambda>e. if e < 32 then 1 else 0), bx_value = (\<lambda>_. None), bx_entries = 32, bx_next_capacity = 64, bx_count = 0, bx_map = (\<lambda>_. None)\<rparr>"
  by (auto simp: block_index_new_def new_block_index_def IMPLICIT_INITIAL_INDEX_SIZE_def INVALID_BLOCK_BASE_def fun_eq_iff)

lemma one_block_run: "bx_run (Suc (Suc (Suc (Suc 0)))) None (Some 7) (Ins_Start 0) (block_index_new (\<lambda>_. None)) = Some (one_block, None)"
  by (simp add: new_index one_block_def current_def set_tail_def new_tail_def INVALID_BLOCK_BASE_def fun_eq_iff)

theorem block_lookup_is_exact_witness:
  "\<exists>nxt. bx_advance None None (Look_Header 0) one_block = Some (one_block, nxt)
    \<and> (case nxt of None \<Rightarrow> \<exists>e b. Look_Header 0 = Found 0 e b \<and> bx_map one_block 0 = Some b | Some b \<Rightarrow> looks_for b = Some 0)"
proof -
  have "bx_reach 1 (block_index_new (\<lambda>_. None)) {#Ins_Start 0#}"
    using bx_reach.step [OF bx_reach.start bx_step.insert] by (simp add: block_index_new_def new_block_index_def Let_def)
  then obtain n where n: "n \<le> Suc (Suc (Suc (Suc (Suc 0))))" "bx_reach n one_block {#}" using bx_run_reach [OF one_block_run, of 1 "{#}"] by auto
  have "bx_reach (Suc n) one_block {#Look_Header 0#}"
    by (rule bx_reach.step [OF n(2) bx_step.look]) (simp add: one_block_def)
  then show ?thesis by (rule block_lookup_is_exact) (use n(1) in simp_all)
qed

end
