(* ===== verification/Call_Typing.thy ===== *)
theory Call_Typing
  imports Registry_Remote
begin

text \<open>
  Type safety of a remote call. The method handler gets the address of the user object as a
  \<open>void *\<close> and casts it to the class it was registered for (\<open>remote_handler_registry.h\<close>); the
  only thing that keeps a handler from an object of another class is that its key was computed
  from the type hash in the handle (\<open>actor_ref.h\<close>, \<open>reflect.h\<close>). Here all the \<open>EXA_REMOTE\<close> lines
  of a program are run, and the handles that a registry gives out are shown to carry the type
  of their actor.
\<close>

section \<open>All registrations\<close>

text \<open>Each \<open>EXA_REMOTE\<close> is a global object, whose constructor runs before \<open>main\<close>.\<close>

fun run_registrars :: "('v create_fn \<times> 'v method_fn list) list \<Rightarrow> ('v handler_registry, unit) eff" where
  "run_registrars [] = retE ()"
| "run_registrars ((create, methods) # rest) = thenE (RemoteFuncHandlerRegistrar create methods) (run_registrars rest)"

definition found_at :: "'v handler_registry \<Rightarrow> u64 \<Rightarrow> 'v method_fn option" where
  "found_at h k = map_of (hr_method h) k"

text \<open>A registration that does not throw adds, and overwrites nothing.\<close>

lemma register_methods_success:
  "forE (\<lambda>m. RegisterRemoteActorMethodCallHandler (key m) m) ms h = (Inr (), h') \<Longrightarrow>
     (\<forall>m \<in> set ms. found_at h' (key m) = Some m) \<and> (\<forall>k f. found_at h k = Some f \<longrightarrow> found_at h' k = Some f)"
proof (induction ms arbitrary: h)
  case Nil
  then show ?case by (simp add: retE_def)
next
  case (Cons m ms)
  let ?h = "h\<lparr>hr_method := AList.update (key m) m (hr_method h)\<rparr>"
  have new: "\<not> hm_contains (hr_method h) (key m)"
    using Cons.prems by (auto simp: thenE_def bindE_def register_method_run split: if_splits)
  then have "RegisterRemoteActorMethodCallHandler (key m) m h = (Inr (), ?h)" by (simp add: register_method_run)
  then have "forE (\<lambda>m. RegisterRemoteActorMethodCallHandler (key m) m) ms ?h = (Inr (), h')"
    using Cons.prems by (simp add: thenE_def bindE_Inr)
  note ih = Cons.IH [OF this]
  have "found_at ?h (key m) = Some m" "\<And>k f. found_at h k = Some f \<Longrightarrow> found_at ?h k = Some f"
    using new by (auto simp: found_at_def update_conv hm_contains_def)
  then show ?case using ih by auto
qed

lemma registrar_success:
  assumes "RemoteFuncHandlerRegistrar create methods h = (Inr (), h')"
  shows "(\<forall>m \<in> set methods. found_at h' (method_key create m) = Some m) \<and> (\<forall>k f. found_at h k = Some f \<longrightarrow> found_at h' k = Some f)"
proof -
  let ?h = "h\<lparr>hr_creation := AList.update (cf_name create) create (hr_creation h)\<rparr>"
  have "forE (\<lambda>m. RegisterRemoteActorMethodCallHandler (method_key create m) m) methods ?h = (Inr (), h')"
    using assms by (auto simp: RemoteFuncHandlerRegistrar_def RegisterRemoteActorCreationHandler_def eff_defs split: if_splits)
  from register_methods_success [OF this] show ?thesis by (simp add: found_at_def)
qed

lemma run_registrars_success:
  "run_registrars regs h = (Inr (), h') \<Longrightarrow>
     (\<forall>(c, ms) \<in> set regs. \<forall>m \<in> set ms. found_at h' (method_key c m) = Some m) \<and> (\<forall>k f. found_at h k = Some f \<longrightarrow> found_at h' k = Some f)"
proof (induction regs arbitrary: h)
  case Nil
  then show ?case by (simp add: retE_def)
next
  case (Cons reg regs)
  obtain c ms where reg: "reg = (c, ms)" by (cases reg)
  obtain h1 where h1: "RemoteFuncHandlerRegistrar c ms h = (Inr (), h1)" "run_registrars regs h1 = (Inr (), h')"
    using Cons.prems by (auto simp: reg thenE_def bindE_def split: prod.splits sum.splits)
  show ?case using registrar_success [OF h1(1)] Cons.IH [OF h1(2)] by (auto simp: reg)
qed

section \<open>Handles carry the type of their actor\<close>

definition typed_handle :: "backend \<Rightarrow> actor_ref \<Rightarrow> bool" where
  "typed_handle b r \<longleftrightarrow> (\<exists>a. map_of (bk_actors b) (bf_actor_id r) = Some a \<and> bf_type_hash r = ao_type_hash (ra_obj a))"

text \<open>The ways in which a registry gives out a handle of one of its actors.\<close>

definition gives_out :: "'v registry_env \<Rightarrow> backend \<Rightarrow> actor_ref \<Rightarrow> bool" where
  "gives_out env b r \<longleftrightarrow> (\<exists>t n. GetActorRefByName t n b = Inr (Some r))
     \<or> (\<exists>(f :: 'v create_fn) node config args b0. SpawnWithClass (re_ref_codec env) f node config args b0 = Some (Inr r, b))
     \<or> (\<exists>aid s other. map_of (bk_refs b) aid = Some s \<and> DeserializeActorRef (re_ref_codec env) s other = Inr r)"

lemma gives_out_typed:
  assumes "backend_reach env node b" "ref_codec_ok (re_ref_codec env)" "gives_out env b r"
  shows "typed_handle b r"
  using assms(3) unfolding gives_out_def
proof (elim disjE exE conjE)
  fix t n assume r: "GetActorRefByName t n b = Inr (Some r)"
  then obtain aid where "map_of (bk_names b) n = Some aid" by (auto simp: GetActorRefByName_def split: option.splits)
  then show ?thesis using r by (auto simp: GetActorRefByName_def MapAt_def typed_handle_def split: option.splits)
next
  fix f :: "'a create_fn" and target config args b0
  assume spawn: "SpawnWithClass (re_ref_codec env) f target config args b0 = Some (Inr r, b)"
  then have "SpawnLocal (re_ref_codec env) f target config args b0 = Some (Inr r, b)"
    by (auto simp: SpawnWithClass_def split: if_splits)
  then show ?thesis by (rule SpawnLocal_run) (auto simp: typed_handle_def added_maps)
next
  fix aid s other assume s: "map_of (bk_refs b) aid = Some s" and r: "DeserializeActorRef (re_ref_codec env) s other = Inr r"
  obtain a where a: "map_of (bk_actors b) aid = Some a" using registry_maps(3) [OF assms(1), of aid] s by auto
  obtain s' where "map_of (bk_refs b) aid = Some s'" "serialized_for (re_ref_codec env) node aid (ra_obj a) s'"
    using registry_maps(4) [OF assms(1) a] by blast
  then have "serialized_for (re_ref_codec env) node aid (ra_obj a) s" using s by simp
  from DeserializeActorRef_serialized [OF assms(2) this, of other] show ?thesis using r a by (auto simp: typed_handle_def)
qed

section \<open>Properties\<close>

text \<open>The class a method was registered with is the class of the object it is called on.\<close>

definition well_typed_call :: "('v create_fn \<times> 'v method_fn list) list \<Rightarrow> 'v method_fn \<Rightarrow> local_call \<Rightarrow> bool" where
  "well_typed_call regs f call \<longleftrightarrow> (\<exists>(c, ms) \<in> set regs. f \<in> set ms
     \<and> ao_type_hash (lc_actor call) = FnvHash (cf_type_name c)
     \<and> lc_object call = upcast (mf_offset f) (ao_instance_address (lc_actor call)))"

text \<open>
  C35: remote calls are well typed. Suppose the registrations of a program have not thrown, a
  registry has given out a handle, the handle has travelled by any route to another node, and
  the actor still has its entry in the registry. Suppose further that the handle carries the type
  hash of a registered class (which a look-up by name does not check) and that one of the
  methods registered with this class is sent through it. If \<open>Send\<close> makes a request of it and the
  actor's registry queues a call for that request, then the request was for the actor's
  node, and the call is of that method, not of another whose key might have collided, on the
  actor of the handle and in the mailbox chosen, and the cast from the untyped address is to the
  class of that actor. (Nothing is said of local calls.)
\<close>

theorem remote_calls_are_well_typed:
  assumes "run_registrars regs HandlerRegistry_empty = (Inr (), re_handlers env)"
    and "backend_reach env node b0" and "codec_ok (re_codec env)" and "ref_codec_ok (re_ref_codec env)"
    and "gives_out env b0 r" and "\<not> bf_is_empty r"
    and "map_of (bk_actors b) (bf_actor_id r) = map_of (bk_actors b0) (bf_actor_id r)"
    and "(c, ms) \<in> set regs" and "m \<in> set ms" and "bf_type_hash r = FnvHash (cf_type_name c)"
    and "ActorRef_Send (re_codec env) (mf_name m) args mailbox (travelled (route @ [ctx]) r) = Inr (Send_Remote k to request)"
    and "HandleNetworkRequest env request b = Some (Inr (Net_Call f call v), b')"
  shows "to = rf_node r \<and> f = m \<and> well_typed_call regs f call \<and> lc_mailbox call = mailbox
    \<and> map_option ra_obj (map_of (bk_actors b) (bf_actor_id r)) = Some (lc_actor call)"
proof -
  let ?r = "travelled (route @ [ctx]) r"
  have r': "rf_node ?r = rf_node r" "bf_type_hash ?r = bf_type_hash r" "bf_actor_id ?r = bf_actor_id r"
    using Parser_read_fields [OF assms(6), of ctx] by (simp_all add: travelled_read [OF assms(6)])
  have request: "to = rf_node r" "request = enc_request (re_codec env)
      (ActorMethodCallRequest (ComputeRemoteMethodHandlerKey (bf_type_hash r) (mf_name m)) (bf_actor_id r) mailbox args)"
    using ActorRef_Send_remoteD [OF assms(11)] by (simp_all add: r')
  obtain a where a: "map_of (bk_actors b) (bf_actor_id r) = Some a" "bf_type_hash r = ao_type_hash (ra_obj a)"
    using gives_out_typed [OF assms(2,4,5)] assms(7) unfolding typed_handle_def by auto
  have "found_at (re_handlers env) (method_key c m) = Some m" using run_registrars_success [OF assms(1)] assms(8,9) by blast
  then have "GetRemoteActorMethodCallHandler (ComputeRemoteMethodHandlerKey (bf_type_hash r) (mf_name m)) (re_handlers env) = Inr m"
    using assms(10) by (simp add: lookup_method found_at_def method_key_def)
  then have "f = m" "call = \<lparr>lc_actor = ra_obj a, lc_object = upcast (mf_offset m) (ao_instance_address (ra_obj a)), lc_mailbox = mailbox\<rparr>"
    using assms(12) a(1)
    by (auto simp: request(2) HandleNetworkRequest_def codec_okD [OF assms(3)] HandleActorMethodCallRequest_start_def hm_contains_def
        DeserializeAndInvokeActorMethod_start_def look_up_actor_def bindR_def split: sum.splits)
  then show ?thesis using assms(8-10) a request(1) by (auto simp: well_typed_call_def intro!: bexI [of _ "(c, ms)"])
qed

text \<open>
  A look-up by name does not compare the class that is asked for with the actor's: the handle
  it returns calls methods of the one class on an object of the other.
\<close>

theorem name_lookup_ignores_class:
  assumes "backend_reach env node b" and "map_of (bk_names b) n = Some aid"
  shows "\<exists>r a. GetActorRefByName type_name n b = Inr (Some r) \<and> map_of (bk_actors b) aid = Some a
     \<and> ActorRef_Send codec method args mailbox r
         = Inr (Send_Local \<lparr>lc_actor = ra_obj a, lc_object = ao_instance_address (ra_obj a), lc_mailbox = mailbox\<rparr>)"
proof -
  obtain a where "map_of (bk_actors b) aid = Some a" using registry_maps(2) [OF assms(1)] assms(2) by blast
  then show ?thesis
    by (simp add: GetActorRefByName_def assms(2) MapAt_def ActorRef_Send_local SendBuilder_SendLocal_ok instance_ptr_def)
qed

section \<open>Witness\<close>

lemma sample_registration: "run_registrars [(sample_create, [sample_method])] HandlerRegistry_empty = (Inr (), re_handlers sample_env)"
proof -
  have "fst (RemoteFuncHandlerRegistrar sample_create [sample_method] HandlerRegistry_empty) = Inr ()"
    by (simp add: RemoteFuncHandlerRegistrar_def RegisterRemoteActorCreationHandler_def HandlerRegistry_empty_def
        hm_contains_def eff_defs register_method_run)
  then show ?thesis
    by (cases "RemoteFuncHandlerRegistrar sample_create [sample_method] HandlerRegistry_empty")
      (simp add: sample_handlers_def thenE_def bindE_Inr retE_def)
qed

lemma remote_calls_are_well_typed_witness:
  "\<exists>k request call. ActorRef_Send plain_codec [65] [1, 2] 0 (travelled
        [\<lparr>sc_this_node = 2, sc_look_up = (\<lambda>_. None), sc_broker = node_broker\<rparr>] counter_ref) = Inr (Send_Remote k 1 request)
     \<and> HandleNetworkRequest sample_env request node1 = Some (Inr (Net_Call sample_method call 2), node1)
     \<and> well_typed_call [(sample_create, [sample_method])] sample_method call"
proof -
  let ?ctx = "\<lparr>sc_this_node = 2, sc_look_up = (\<lambda>_. None), sc_broker = node_broker\<rparr>"
  let ?req = "ActorMethodCallRequest (ComputeRemoteMethodHandlerKey (FnvHash [67]) [65]) 42 0 [1, 2]"
  have r: "\<not> bf_is_empty counter_ref" "bf_actor_id counter_ref = 42" "bf_type_hash counter_ref = FnvHash (cf_type_name sample_create)"
      "rf_node counter_ref = 1"
    by (simp_all add: counter_ref_def counter_obj_def sample_create_def)
  have out: "gives_out sample_env node1 counter_ref"
    using node1_spawn unfolding gives_out_def sample_env_simps by blast
  have c: "codec_ok (re_codec sample_env)" "ref_codec_ok (re_ref_codec sample_env)" by (simp_all add: plain_codec_ok plain_ref_codec_ok)
  have name: "mf_name sample_method = [65]" "cf_type_name sample_create = [67]" by (simp_all add: sample_method_def sample_create_def)
  have k: "\<not> bf_is_empty (Parser_read ?ctx (Reflector_from counter_ref))" "\<not> bf_is_empty node_broker" "bf_actor node_broker = Some sample_actor"
    using Parser_read_fields(1) [OF r(1), of ?ctx] by (simp_all add: node_broker_def BasicActorRef_new_def)
  have send: "ActorRef_Send (re_codec sample_env) (mf_name sample_method) [1, 2] 0 (travelled ([] @ [?ctx]) counter_ref)
      = Inr (Send_Remote \<lparr>lc_actor = sample_actor, lc_object = bf_adjusted node_broker, lc_mailbox = 0\<rparr> 1 (enc_request plain_codec ?req))"
    using ActorRef_Send_remote [OF k(1), of sample_actor plain_codec "[65]" "[1, 2]" 0] Parser_read_fields [OF r(1), of ?ctx] k r
    by (simp add: travelled_def name)
  have dec: "mf_decode sample_method (own_ctx node1) [1, 2] = Inr 2" by (simp add: sample_method_def)
  have key: "GetRemoteActorMethodCallHandler (ComputeRemoteMethodHandlerKey (FnvHash [67]) [65]) (re_handlers sample_env) = Inr sample_method"
    using sample_handlers_method by simp
  note run = method_call_run [OF c(1) node1_actor key dec, of 0]
  note wt = remote_calls_are_well_typed [OF sample_registration node1_reach c out r(1) refl _ _ r(3) send run [unfolded sample_env_simps], of "[sample_method]"]
  show ?thesis using wt run send by (simp add: name)
qed

lemma name_lookup_ignores_class_witness:
  "FnvHash [66] \<noteq> ao_type_hash counter_obj
     \<and> (\<exists>r. GetActorRefByName [66] ''counter'' node1 = Inr (Some r) \<and> ActorRef_Send plain_codec [77] [] 0 r
          = Inr (Send_Local \<lparr>lc_actor = counter_obj, lc_object = ao_instance_address counter_obj, lc_mailbox = 0\<rparr>))"
proof
  show "FnvHash [66] \<noteq> ao_type_hash counter_obj" using FnvHash_one_byte [of "[]" 66 "[]" 67] by (simp add: counter_obj_def)
  have "map_of (bk_names node1) ''counter'' = Some 42" by (simp add: node1_def added_maps)
  from name_lookup_ignores_class [OF node1_reach this, of "[66]" plain_codec "[77]" "[]" 0]
  show "\<exists>r. GetActorRefByName [66] ''counter'' node1 = Inr (Some r) \<and> ActorRef_Send plain_codec [77] [] 0 r
      = Inr (Send_Local \<lparr>lc_actor = counter_obj, lc_object = ao_instance_address counter_obj, lc_mailbox = 0\<rparr>)"
    by (auto simp: node1_actor)
qed

end
