(* ===== verification/Producer_Table.thy ===== *)
theory Producer_Table
  imports Concurrent_Queue
begin

unbundle bit_operations_syntax

text \<open>
  Which sub-queue a thread enqueues to (\<open>moody_camel_queue/concurrentqueue.h\<close>): a hash table
  from thread ids to producers with open addressing. When the table is half full a larger one is
  put in front of it; entries stay where they are and are copied when they are next looked up.
  The entry of a thread that ends becomes reusable and its producer inactive, to be recycled by
  another thread. \<open>Concurrent_Queue\<close> takes for granted that one thread at a time enqueues to a
  sub-queue; here it is shown.

  Tables are numbered in the order in which they are published, the last is the current one.
  \<open>pt_owner\<close> is history: the producer that a thread has taken or created, until the end of its
  exit callback. Every access that another thread can see is a step. Thread ids are addresses
  of thread-local variables, so those of threads that are alive differ.
\<close>

section \<open>State\<close>

definition invalid_thread_id :: u64 where
  "invalid_thread_id = 0"

definition invalid_thread_id2 :: u64 where
  "invalid_thread_id2 = 1"

definition hash_thread_id :: "u64 \<Rightarrow> u64" where
  "hash_thread_id t =
     (let h = t XOR drop_bit 33 t; h = h * 0xff51afd7ed558ccd;
        h = h XOR drop_bit 33 h; h = h * 0xc4ceb9fe1a85ec53
      in h XOR drop_bit 33 h)"

record kvp =
  kv_key :: u64
  kv_value :: "nat option"

record producer_hash =
  ph_capacity :: u64
  ph_entries :: "kvp list"
  ph_prev :: "nat option"

record producer_table =
  pt_hashes :: "producer_hash list"
  pt_count :: u64
  pt_resizing :: bool
  pt_inactive :: "bool list"
  pt_owner :: "u64 \<Rightarrow> nat option"

definition INITIAL_IMPLICIT_PRODUCER_HASH_SIZE :: u64 where
  "INITIAL_IMPLICIT_PRODUCER_HASH_SIZE = 32"

definition empty_hash :: "u64 \<Rightarrow> nat option \<Rightarrow> producer_hash" where
  "empty_hash capacity prev = \<lparr>ph_capacity = capacity,
     ph_entries = replicate (unat capacity) \<lparr>kv_key = invalid_thread_id, kv_value = None\<rparr>, ph_prev = prev\<rparr>"

definition populate_initial_implicit_producer_hash :: producer_table where
  "populate_initial_implicit_producer_hash = \<lparr>pt_hashes = [empty_hash INITIAL_IMPLICIT_PRODUCER_HASH_SIZE None],
     pt_count = 0, pt_resizing = False, pt_inactive = [], pt_owner = (\<lambda>_. None)\<rparr>"

definition tables :: "producer_table \<Rightarrow> nat" where
  "tables s = length (pt_hashes s)"

definition capacity_at :: "producer_table \<Rightarrow> nat \<Rightarrow> u64" where
  "capacity_at s k = ph_capacity (pt_hashes s ! k)"

definition key_at :: "producer_table \<Rightarrow> nat \<Rightarrow> nat \<Rightarrow> u64" where
  "key_at s k i = kv_key (ph_entries (pt_hashes s ! k) ! i)"

definition value_at :: "producer_table \<Rightarrow> nat \<Rightarrow> nat \<Rightarrow> nat option" where
  "value_at s k i = kv_value (ph_entries (pt_hashes s ! k) ! i)"

definition set_entry :: "nat \<Rightarrow> nat \<Rightarrow> (kvp \<Rightarrow> kvp) \<Rightarrow> producer_table \<Rightarrow> producer_table" where
  "set_entry k i f s = (let h = pt_hashes s ! k in
     s\<lparr>pt_hashes := (pt_hashes s)[k := h\<lparr>ph_entries := (ph_entries h)[i := f (ph_entries h ! i)]\<rparr>]\<rparr>)"

definition set_key :: "nat \<Rightarrow> nat \<Rightarrow> u64 \<Rightarrow> producer_table \<Rightarrow> producer_table" where
  "set_key k i t = set_entry k i (kv_key_update (\<lambda>_. t))"

definition set_value :: "nat \<Rightarrow> nat \<Rightarrow> nat option \<Rightarrow> producer_table \<Rightarrow> producer_table" where
  "set_value k i v = set_entry k i (kv_value_update (\<lambda>_. v))"

text \<open>The slot that an index stands for.\<close>

definition masked :: "u64 \<Rightarrow> u64 \<Rightarrow> nat" where
  "masked capacity index = unat (index AND (capacity - 1))"

section \<open>Steps\<close>

text \<open>
  Where a thread is in \<open>get_or_add_implicit_producer\<close>: with the main table, the table it looks
  into and the index; copying an entry to the main table; counting itself; making a larger
  table; taking a producer; inserting it; and in \<open>implicit_producer_thread_exited\<close>.
\<close>

datatype pt_act =
    Get_Start
  | Probe nat nat u64
  | Copy_Empty nat u64 "nat option" | Copy_Reusable nat u64 "nat option" | Copy_Value nat nat "nat option"
  | Count_In nat | Check nat u64 | Lock nat u64 | Resize u64 | Publish nat u64 u64 | Unlock nat u64
  | Undo_Locked | Undo_Unlock | Undo | Room nat u64
  | Recycle_Start nat | Recycle nat "nat list" | Recycle_Take nat nat "nat list" | Create nat
  | Insert_Reusable nat u64 nat | Insert_Uncount nat nat nat | Insert_Empty nat u64 nat | Insert_Value nat nat nat
  | Got nat
  | Exit_Start nat | Exit_Probe nat nat u64 | Exit_Done nat

text \<open>The loop that doubles the capacity; it does not end when the capacity is shifted out.\<close>

partial_function (option) grown_capacity :: "u64 \<Rightarrow> u64 \<Rightarrow> u64 option" where
  "grown_capacity n c = (if drop_bit 1 c \<le> n then grown_capacity n (push_bit 1 c) else Some c)"

definition next_table :: "producer_table \<Rightarrow> nat \<Rightarrow> (nat \<Rightarrow> pt_act) \<Rightarrow> pt_act \<Rightarrow> pt_act" where
  "next_table s k again stop = (case ph_prev (pt_hashes s ! k) of None \<Rightarrow> stop | Some k' \<Rightarrow> again k')"

definition got :: "nat option \<Rightarrow> pt_act option" where
  "got v = map_option Got v"

fun pt_advance :: "bool \<Rightarrow> u64 \<Rightarrow> pt_act \<Rightarrow> producer_table \<Rightarrow> (producer_table \<times> pt_act option) option" where
  "pt_advance mem t Get_Start s = Some (s, Some (Probe (tables s - 1) (tables s - 1) (hash_thread_id t)))"
| "pt_advance mem t (Probe m k index) s =
     (let i = masked (capacity_at s k) index; probed = key_at s k i in
      if probed = t then Some (s, if k \<noteq> m then Some (Copy_Empty m (hash_thread_id t) (value_at s k i)) else got (value_at s k i))
      else if probed = invalid_thread_id
      then Some (s, Some (next_table s k (\<lambda>k'. Probe m k' (hash_thread_id t)) (Count_In m)))
      else Some (s, Some (Probe m k (of_nat i + 1))))"
| "pt_advance mem t (Copy_Empty m index v) s =
     (let i = masked (capacity_at s m) index in
      if key_at s m i = invalid_thread_id then Some (set_key m i t s, Some (Copy_Value m i v))
      else Some (s, Some (Copy_Reusable m index v)))"
| "pt_advance mem t (Copy_Reusable m index v) s =
     (let i = masked (capacity_at s m) index in
      if key_at s m i = invalid_thread_id2 then Some (set_key m i t s, Some (Copy_Value m i v))
      else Some (s, Some (Copy_Empty m (of_nat i + 1) v)))"
| "pt_advance mem t (Copy_Value m i v) s = Some (set_value m i v s, got v)"
| "pt_advance mem t (Count_In m) s = Some (s\<lparr>pt_count := pt_count s + 1\<rparr>, Some (Check m (1 + pt_count s)))"
| "pt_advance mem t (Check m n) s =
     Some (s, Some (if drop_bit 1 (capacity_at s m) \<le> n then Lock m n else Room m n))"
| "pt_advance mem t (Lock m n) s =
     (if pt_resizing s then Some (s, Some (Room m n)) else Some (s\<lparr>pt_resizing := True\<rparr>, Some (Resize n)))"
| "pt_advance mem t (Resize n) s =
     (let m = tables s - 1 in
      if drop_bit 1 (capacity_at s m) \<le> n
      then (case grown_capacity n (push_bit 1 (capacity_at s m)) of
          None \<Rightarrow> None
        | Some c \<Rightarrow> Some (s, Some (if mem then Publish m n c else Undo_Locked)))
      else Some (s, Some (Unlock m n)))"
| "pt_advance mem t (Publish m n c) s = Some (s\<lparr>pt_hashes := pt_hashes s @ [empty_hash c (Some m)]\<rparr>, Some (Unlock (tables s) n))"
| "pt_advance mem t (Unlock m n) s = Some (s\<lparr>pt_resizing := False\<rparr>, Some (Room m n))"
| "pt_advance mem t Undo_Locked s = Some (s\<lparr>pt_count := pt_count s - 1\<rparr>, Some Undo_Unlock)"
| "pt_advance mem t Undo_Unlock s = Some (s\<lparr>pt_resizing := False\<rparr>, None)"
| "pt_advance mem t Undo s = Some (s\<lparr>pt_count := pt_count s - 1\<rparr>, None)"
| "pt_advance mem t (Room m n) s =
     (if n < drop_bit 1 (capacity_at s m) + drop_bit 2 (capacity_at s m) then Some (s, Some (Recycle_Start m))
      else Some (s, Some (Check (tables s - 1) n)))"
| "pt_advance mem t (Recycle_Start m) s = Some (s, Some (Recycle m (rev [0..<length (pt_inactive s)])))"
| "pt_advance mem t (Recycle m rest) s =
     (case rest of
        [] \<Rightarrow> Some (s, Some (Create m))
      | p # rest' \<Rightarrow> Some (s, Some (if pt_inactive s ! p then Recycle_Take m p rest' else Recycle m rest')))"
| "pt_advance mem t (Recycle_Take m p rest) s =
     (if pt_inactive s ! p
      then Some (s\<lparr>pt_inactive := (pt_inactive s)[p := False], pt_owner := (pt_owner s)(t := Some p)\<rparr>,
        Some (Insert_Reusable m (hash_thread_id t) p))
      else Some (s, Some (Recycle m rest)))"
| "pt_advance mem t (Create m) s =
     (let p = length (pt_inactive s) in
      if mem then Some (s\<lparr>pt_inactive := pt_inactive s @ [False], pt_owner := (pt_owner s)(t := Some p)\<rparr>,
        Some (Insert_Reusable m (hash_thread_id t) p))
      else Some (s, Some Undo))"
| "pt_advance mem t (Insert_Reusable m index p) s =
     (let i = masked (capacity_at s m) index in
      if key_at s m i = invalid_thread_id2 then Some (set_key m i t s, Some (Insert_Uncount m i p))
      else Some (s, Some (Insert_Empty m index p)))"
| "pt_advance mem t (Insert_Uncount m i p) s = Some (s\<lparr>pt_count := pt_count s - 1\<rparr>, Some (Insert_Value m i p))"
| "pt_advance mem t (Insert_Empty m index p) s =
     (let i = masked (capacity_at s m) index in
      if key_at s m i = invalid_thread_id then Some (set_key m i t s, Some (Insert_Value m i p))
      else Some (s, Some (Insert_Reusable m (of_nat i + 1) p)))"
| "pt_advance mem t (Insert_Value m i p) s = Some (set_value m i (Some p) s, Some (Got p))"
| "pt_advance mem t (Got p) s = Some (s, None)"
| "pt_advance mem t (Exit_Start p) s = Some (s, Some (Exit_Probe p (tables s - 1) (hash_thread_id t)))"
| "pt_advance mem t (Exit_Probe p k index) s =
     (let i = masked (capacity_at s k) index; probed = key_at s k i;
        next = next_table s k (\<lambda>k'. Exit_Probe p k' (hash_thread_id t)) (Exit_Done p) in
      if probed = t then Some (set_key k i invalid_thread_id2 s, Some next)
      else if probed = invalid_thread_id then Some (s, Some next)
      else Some (s, Some (Exit_Probe p k (of_nat i + 1))))"
| "pt_advance mem t (Exit_Done p) s =
     Some (s\<lparr>pt_inactive := (pt_inactive s)[p := True], pt_owner := (pt_owner s)(t := None)\<rparr>, None)"

text \<open>A thread that is alive and not in a call makes one, or ends, when it has a producer.\<close>

inductive pt_step :: "producer_table \<times> (u64 \<Rightarrow> pt_act option) \<Rightarrow> producer_table \<times> (u64 \<Rightarrow> pt_act option) \<Rightarrow> bool" where
  get: "acts t = None \<Longrightarrow> t \<noteq> invalid_thread_id \<Longrightarrow> t \<noteq> invalid_thread_id2 \<Longrightarrow> pt_step (s, acts) (s, acts(t := Some Get_Start))"
| thread_exit: "acts t = None \<Longrightarrow> pt_owner s t = Some p \<Longrightarrow> pt_step (s, acts) (s, acts(t := Some (Exit_Start p)))"
| advance: "acts t = Some a \<Longrightarrow> pt_advance mem t a s = Some (s', nxt) \<Longrightarrow> pt_step (s, acts) (s', acts(t := nxt))"

inductive pt_reach :: "producer_table \<Rightarrow> (u64 \<Rightarrow> pt_act option) \<Rightarrow> bool" where
  start: "pt_reach populate_initial_implicit_producer_hash (\<lambda>_. None)"
| step: "pt_reach s acts \<Longrightarrow> pt_step (s, acts) (s', acts') \<Longrightarrow> pt_reach s' acts'"

section \<open>Slots\<close>

definition wf_capacity :: "u64 \<Rightarrow> bool" where
  "wf_capacity c \<longleftrightarrow> (\<exists>j < 64. c = 2 ^ j)"

definition slot :: "u64 \<Rightarrow> u64 \<Rightarrow> nat \<Rightarrow> nat" where
  "slot c t j = masked c (hash_thread_id t + of_nat j)"

lemma capacity_mask:
  assumes "wf_capacity c"
  obtains j where "j < 64" "unat c = 2 ^ j" "\<And>x. x AND (c - 1) = take_bit j x"
proof -
  obtain j where j: "j < 64" "c = 2 ^ j" using assms by (auto simp: wf_capacity_def)
  have "(2 :: nat) ^ j < 2 ^ 64" using j(1) by (intro power_strict_increasing) simp_all
  then have "unat (of_nat (2 ^ j) :: u64) = 2 ^ j" by (simp only: unat_of_nat) simp
  moreover have "c = of_nat (2 ^ j)" using j(2) by simp
  ultimately have "unat c = 2 ^ j" by (simp only:)
  moreover have "x AND (c - 1) = take_bit j x" for x by (simp add: j(2) take_bit_eq_mask mask_eq_exp_minus_1)
  ultimately show thesis using that j(1) by blast
qed

lemma masked_less: "wf_capacity c \<Longrightarrow> masked c x < unat c"
  by (erule capacity_mask) (simp add: masked_def unsigned_take_bit_eq)

lemma masked_next:
  assumes "wf_capacity c"
  shows "masked c (of_nat (masked c x) + 1) = masked c (x + 1)"
proof -
  obtain j where j: "j < 64" "unat c = 2 ^ j" "\<And>x. x AND (c - 1) = take_bit j x" using capacity_mask [OF assms] by blast
  have dvd: "(2 :: nat) ^ j dvd 2 ^ 64" using j(1) by (intro le_imp_power_dvd) simp
  have m: "masked c y = unat y mod 2 ^ j" for y
    by (simp only: masked_def j(3) unsigned_take_bit_eq) (simp only: take_bit_eq_mod)
  have a: "unat (y + 1) mod 2 ^ j = (unat y + 1) mod 2 ^ j" for y :: u64
    using mod_mod_cancel [OF dvd] by (simp add: unat_word_ariths)
  have "unat (of_nat (unat x mod 2 ^ j) :: u64) = unat x mod 2 ^ j mod 2 ^ 64" by (simp only: unat_of_nat) simp
  then have "unat (of_nat (unat x mod 2 ^ j) :: u64) mod 2 ^ j = unat x mod 2 ^ j" using mod_mod_cancel [OF dvd] by simp
  then show ?thesis unfolding m a by (metis mod_add_left_eq)
qed

lemma slot_next: "wf_capacity c \<Longrightarrow> masked c index = slot c t j \<Longrightarrow> masked c (of_nat (masked c index) + 1) = slot c t (Suc j)"
  using masked_next [of c "hash_thread_id t + of_nat j"] by (simp add: slot_def algebra_simps)

lemma wf_capacity_grown: "wf_capacity c \<Longrightarrow> push_bit 1 c \<noteq> 0 \<Longrightarrow> wf_capacity (push_bit 1 c)"
proof -
  assume "wf_capacity c" "push_bit 1 c \<noteq> 0"
  then obtain j where j: "j < 64" "c = 2 ^ j" by (auto simp: wf_capacity_def)
  have e: "push_bit 1 c = 2 ^ Suc j" by (simp add: j push_bit_eq_mult)
  moreover have "Suc j < 64" using \<open>push_bit 1 c \<noteq> 0\<close> j(1) e by (cases "Suc j = 64") auto
  ultimately show ?thesis unfolding wf_capacity_def by blast
qed

lemma grown_capacity_wf: "grown_capacity n c = Some c' \<Longrightarrow> wf_capacity c \<or> c = 0 \<Longrightarrow> wf_capacity c'"
proof (induction rule: grown_capacity.raw_induct [rotated, consumes 1, case_names grow])
  case (grow again n c c')
  show ?case
  proof (cases "drop_bit 1 c \<le> n")
    case True
    then have "again n (push_bit 1 c) = Some c'" using grow.hyps by simp
    moreover have "wf_capacity (push_bit 1 c) \<or> push_bit 1 c = 0"
      using wf_capacity_grown [of c] grow.prems by auto
    ultimately show ?thesis by (rule grow.IH)
  next
    case False
    then show ?thesis using grow.hyps grow.prems by auto
  qed
qed

section \<open>The invariant\<close>

definition slots_at :: "producer_table \<Rightarrow> nat \<Rightarrow> nat" where
  "slots_at s k = unat (capacity_at s k)"

definition wf_tables :: "producer_table \<Rightarrow> bool" where
  "wf_tables s \<longleftrightarrow> 0 < tables s \<and> (\<forall>k < tables s. wf_capacity (capacity_at s k) \<and> length (ph_entries (pt_hashes s ! k)) = slots_at s k
     \<and> ph_prev (pt_hashes s ! k) = (if k = 0 then None else Some (k - 1)))"

text \<open>A thread's key in a table: it is in one slot, and no slot before that is empty; the value beside it is its producer.\<close>

definition present :: "producer_table \<Rightarrow> u64 \<Rightarrow> nat \<Rightarrow> bool" where
  "present s t k \<longleftrightarrow> k < tables s \<and> (\<exists>i < slots_at s k. key_at s k i = t)"

definition entry_ok :: "producer_table \<Rightarrow> u64 \<Rightarrow> (nat \<times> nat) option \<Rightarrow> nat \<Rightarrow> nat \<Rightarrow> bool" where
  "entry_ok s t pending k i \<longleftrightarrow> (\<exists>j. slot (capacity_at s k) t j = i \<and> (\<forall>l < j. key_at s k (slot (capacity_at s k) t l) \<noteq> 0))
     \<and> (\<forall>i' < slots_at s k. key_at s k i' = t \<longrightarrow> i' = i)
     \<and> (pending \<noteq> Some (k, i) \<longrightarrow> value_at s k i = pt_owner s t \<and> pt_owner s t \<noteq> None)"

definition entries_ok :: "producer_table \<Rightarrow> u64 \<Rightarrow> (nat \<times> nat) option \<Rightarrow> bool" where
  "entries_ok s t pending \<longleftrightarrow> (\<forall>k < tables s. \<forall>i < slots_at s k. key_at s k i = t \<longrightarrow> entry_ok s t pending k i)"

text \<open>How far a thread has looked, and has looked without meeting its key.\<close>

definition walked :: "producer_table \<Rightarrow> u64 \<Rightarrow> nat \<Rightarrow> u64 \<Rightarrow> bool" where
  "walked s t k index \<longleftrightarrow> (\<exists>j. masked (capacity_at s k) index = slot (capacity_at s k) t j
     \<and> (\<forall>l < j. key_at s k (slot (capacity_at s k) t l) \<noteq> 0))"

definition unseen :: "producer_table \<Rightarrow> u64 \<Rightarrow> nat \<Rightarrow> u64 \<Rightarrow> bool" where
  "unseen s t k index \<longleftrightarrow> (\<exists>j. masked (capacity_at s k) index = slot (capacity_at s k) t j
     \<and> (\<forall>l < j. key_at s k (slot (capacity_at s k) t l) \<noteq> 0 \<and> key_at s k (slot (capacity_at s k) t l) \<noteq> t))"

definition at_rest :: "producer_table \<Rightarrow> u64 \<Rightarrow> bool" where
  "at_rest s t \<longleftrightarrow> (pt_owner s t \<noteq> None \<longleftrightarrow> (\<exists>k. present s t k))"

definition nowhere :: "producer_table \<Rightarrow> u64 \<Rightarrow> bool" where
  "nowhere s t \<longleftrightarrow> (\<forall>k. \<not> present s t k)"

definition pending :: "pt_act option \<Rightarrow> (nat \<times> nat) option" where
  "pending a = (case a of Some (Copy_Value m i v) \<Rightarrow> Some (m, i) | Some (Insert_Uncount m i p) \<Rightarrow> Some (m, i)
     | Some (Insert_Value m i p) \<Rightarrow> Some (m, i) | _ \<Rightarrow> None)"

definition newcomer :: "producer_table \<Rightarrow> u64 \<Rightarrow> nat \<Rightarrow> bool" where
  "newcomer s t m \<longleftrightarrow> pt_owner s t = None \<and> nowhere s t \<and> m < tables s"

fun pt_act_ok :: "producer_table \<Rightarrow> u64 \<Rightarrow> pt_act \<Rightarrow> bool" where
  "pt_act_ok s t Get_Start \<longleftrightarrow> at_rest s t"
| "pt_act_ok s t (Probe m k index) \<longleftrightarrow> at_rest s t \<and> k \<le> m \<and> m < tables s \<and> unseen s t k index \<and> (\<forall>l > k. \<not> present s t l)"
| "pt_act_ok s t (Copy_Empty m index v) \<longleftrightarrow> v \<noteq> None \<and> pt_owner s t = v \<and> m < tables s \<and> (\<exists>k < m. present s t k) \<and> \<not> present s t m \<and> walked s t m index"
| "pt_act_ok s t (Copy_Reusable m index v) \<longleftrightarrow> v \<noteq> None \<and> pt_owner s t = v \<and> m < tables s \<and> (\<exists>k < m. present s t k) \<and> \<not> present s t m \<and> walked s t m index
     \<and> key_at s m (masked (capacity_at s m) index) \<noteq> 0"
| "pt_act_ok s t (Copy_Value m i v) \<longleftrightarrow> v \<noteq> None \<and> pt_owner s t = v \<and> m < tables s \<and> i < slots_at s m \<and> key_at s m i = t"
| "pt_act_ok s t (Count_In m) \<longleftrightarrow> newcomer s t m"
| "pt_act_ok s t (Check m n) \<longleftrightarrow> newcomer s t m"
| "pt_act_ok s t (Lock m n) \<longleftrightarrow> newcomer s t m"
| "pt_act_ok s t (Resize n) \<longleftrightarrow> newcomer s t 0"
| "pt_act_ok s t (Publish m n c) \<longleftrightarrow> newcomer s t m \<and> wf_capacity c"
| "pt_act_ok s t (Unlock m n) \<longleftrightarrow> newcomer s t m"
| "pt_act_ok s t Undo_Locked \<longleftrightarrow> newcomer s t 0"
| "pt_act_ok s t Undo_Unlock \<longleftrightarrow> newcomer s t 0"
| "pt_act_ok s t Undo \<longleftrightarrow> newcomer s t 0"
| "pt_act_ok s t (Room m n) \<longleftrightarrow> newcomer s t m"
| "pt_act_ok s t (Recycle_Start m) \<longleftrightarrow> newcomer s t m"
| "pt_act_ok s t (Recycle m rest) \<longleftrightarrow> newcomer s t m \<and> (\<forall>p \<in> set rest. p < length (pt_inactive s))"
| "pt_act_ok s t (Recycle_Take m p rest) \<longleftrightarrow> newcomer s t m \<and> (\<forall>p \<in> set (p # rest). p < length (pt_inactive s))"
| "pt_act_ok s t (Create m) \<longleftrightarrow> newcomer s t m"
| "pt_act_ok s t (Insert_Reusable m index p) \<longleftrightarrow> pt_owner s t = Some p \<and> nowhere s t \<and> m < tables s \<and> walked s t m index"
| "pt_act_ok s t (Insert_Uncount m i p) \<longleftrightarrow> pt_owner s t = Some p \<and> m < tables s \<and> i < slots_at s m \<and> key_at s m i = t"
| "pt_act_ok s t (Insert_Empty m index p) \<longleftrightarrow> pt_owner s t = Some p \<and> nowhere s t \<and> m < tables s \<and> walked s t m index"
| "pt_act_ok s t (Insert_Value m i p) \<longleftrightarrow> pt_owner s t = Some p \<and> m < tables s \<and> i < slots_at s m \<and> key_at s m i = t"
| "pt_act_ok s t (Got p) \<longleftrightarrow> pt_owner s t = Some p \<and> (\<exists>k. present s t k)"
| "pt_act_ok s t (Exit_Start p) \<longleftrightarrow> pt_owner s t = Some p"
| "pt_act_ok s t (Exit_Probe p k index) \<longleftrightarrow> pt_owner s t = Some p \<and> k < tables s \<and> unseen s t k index \<and> (\<forall>l > k. \<not> present s t l)"
| "pt_act_ok s t (Exit_Done p) \<longleftrightarrow> pt_owner s t = Some p \<and> nowhere s t"

definition thread_ok :: "producer_table \<Rightarrow> u64 \<Rightarrow> pt_act option \<Rightarrow> bool" where
  "thread_ok s t a \<longleftrightarrow> entries_ok s t (pending a) \<and> (case a of None \<Rightarrow> at_rest s t | Some b \<Rightarrow> pt_act_ok s t b)"

fun resizes :: "pt_act \<Rightarrow> bool" where
  "resizes (Resize n) \<longleftrightarrow> True"
| "resizes (Publish m n c) \<longleftrightarrow> True"
| "resizes (Unlock m n) \<longleftrightarrow> True"
| "resizes Undo_Locked \<longleftrightarrow> True"
| "resizes Undo_Unlock \<longleftrightarrow> True"
| "resizes _ \<longleftrightarrow> False"

definition lock_ok :: "producer_table \<Rightarrow> (u64 \<Rightarrow> pt_act option) \<Rightarrow> bool" where
  "lock_ok s acts \<longleftrightarrow> (\<forall>t a. acts t = Some a \<and> resizes a \<longrightarrow> pt_resizing s \<and> (\<forall>u b. acts u = Some b \<and> resizes b \<longrightarrow> u = t))
     \<and> (\<forall>t m n c. acts t = Some (Publish m n c) \<longrightarrow> Suc m = tables s)"

definition owners_ok :: "producer_table \<Rightarrow> bool" where
  "owners_ok s \<longleftrightarrow> (\<forall>t p. pt_owner s t = Some p \<longrightarrow> p < length (pt_inactive s) \<and> \<not> pt_inactive s ! p \<and> (\<forall>u. pt_owner s u = Some p \<longrightarrow> u = t))"

definition pt_inv :: "producer_table \<Rightarrow> (u64 \<Rightarrow> pt_act option) \<Rightarrow> bool" where
  "pt_inv s acts \<longleftrightarrow> wf_tables s \<and> lock_ok s acts \<and> owners_ok s \<and> (\<forall>t. 1 < t \<longrightarrow> thread_ok s t (acts t))
     \<and> (\<forall>t. t = 0 \<or> t = 1 \<longrightarrow> acts t = None \<and> pt_owner s t = None)"

text \<open>What other threads leave as it is.\<close>

definition undisturbed :: "producer_table \<Rightarrow> producer_table \<Rightarrow> u64 \<Rightarrow> bool" where
  "undisturbed s s' t \<longleftrightarrow> tables s \<le> tables s' \<and> pt_owner s' t = pt_owner s t \<and> length (pt_inactive s) \<le> length (pt_inactive s')
     \<and> (\<forall>k < tables s. capacity_at s' k = capacity_at s k \<and> (\<forall>i. (key_at s k i \<noteq> 0 \<longrightarrow> key_at s' k i \<noteq> 0)
          \<and> (key_at s' k i = t \<longleftrightarrow> key_at s k i = t) \<and> (key_at s k i = t \<longrightarrow> value_at s' k i = value_at s k i)))
     \<and> (\<forall>k. tables s \<le> k \<and> k < tables s' \<longrightarrow> (\<forall>i < slots_at s' k. key_at s' k i = 0))"

lemma undisturbedD:
  assumes "undisturbed s s' t"
  shows "tables s \<le> tables s'" "pt_owner s' t = pt_owner s t" "length (pt_inactive s) \<le> length (pt_inactive s')"
    "k < tables s \<Longrightarrow> capacity_at s' k = capacity_at s k" "k < tables s \<Longrightarrow> slots_at s' k = slots_at s k"
    "k < tables s \<Longrightarrow> key_at s k i \<noteq> 0 \<Longrightarrow> key_at s' k i \<noteq> 0" "k < tables s \<Longrightarrow> key_at s' k i = t \<longleftrightarrow> key_at s k i = t"
    "k < tables s \<Longrightarrow> key_at s k i = t \<Longrightarrow> value_at s' k i = value_at s k i"
    "tables s \<le> k \<Longrightarrow> k < tables s' \<Longrightarrow> i < slots_at s' k \<Longrightarrow> key_at s' k i = 0"
  using assms unfolding undisturbed_def slots_at_def by simp_all

lemma undisturbed_present:
  assumes "undisturbed s s' t" "t \<noteq> 0"
  shows "present s' t k \<longleftrightarrow> present s t k"
proof (cases "k < tables s")
  case True
  then show ?thesis using undisturbedD [OF assms(1)] by (simp add: present_def)
next
  case False
  then show ?thesis using undisturbedD(9) [OF assms(1), of k] assms(2) by (auto simp: present_def)
qed

lemma undisturbed_walked: "undisturbed s s' t \<Longrightarrow> k < tables s \<Longrightarrow> walked s t k index \<Longrightarrow> walked s' t k index"
  unfolding walked_def using undisturbedD(4,6) by metis

lemma undisturbed_unseen:
  assumes u: "undisturbed s s' t" and k: "k < tables s" and "unseen s t k index"
  shows "unseen s' t k index"
proof -
  obtain j where "masked (capacity_at s k) index = slot (capacity_at s k) t j"
    "\<forall>l < j. key_at s k (slot (capacity_at s k) t l) \<noteq> 0 \<and> key_at s k (slot (capacity_at s k) t l) \<noteq> t"
    using assms(3) unfolding unseen_def by blast
  then show ?thesis
    using undisturbedD(6) [OF u k] unfolding unseen_def undisturbedD(4,7) [OF u k] by blast
qed

lemma undisturbed_entries:
  assumes u: "undisturbed s s' t" and t: "t \<noteq> 0" and e: "entries_ok s t pe"
  shows "entries_ok s' t pe"
  unfolding entries_ok_def
proof (intro allI impI)
  fix k i assume k: "k < tables s'" "i < slots_at s' k" "key_at s' k i = t"
  then have less: "k < tables s" using undisturbedD(9) [OF u, of k i] t by (cases "k < tables s") auto
  note d = undisturbedD [OF u]
  have key: "key_at s k i = t" using k(3) d(7) [OF less] by simp
  then have ok: "entry_ok s t pe k i" using e k(2) less d(5) [OF less] unfolding entries_ok_def by simp
  show "entry_ok s' t pe k i"
    unfolding entry_ok_def d(2) d(4) [OF less] d(5) [OF less] d(7) [OF less] d(8) [OF less key]
  proof (intro conjI)
    show "\<exists>j. slot (capacity_at s k) t j = i \<and> (\<forall>l < j. key_at s' k (slot (capacity_at s k) t l) \<noteq> 0)"
      using ok d(6) [OF less] unfolding entry_ok_def by blast
  qed (use ok in \<open>simp_all add: entry_ok_def\<close>)
qed

lemma undisturbed_thread_ok:
  assumes u: "undisturbed s s' t" and t: "t \<noteq> 0" and ok: "thread_ok s t a"
  shows "thread_ok s' t a"
proof -
  note d = undisturbedD [OF u] and p = ext [of "present s' t" "present s t", OF undisturbed_present [OF u t]]
  have rest: "at_rest s' t = at_rest s t" "nowhere s' t = nowhere s t" by (simp_all add: at_rest_def nowhere_def p d(2))
  have new: "newcomer s t m \<Longrightarrow> newcomer s' t m" for m using d(1,2) rest(2) by (simp add: newcomer_def)
  have less: "m < tables s \<Longrightarrow> m < tables s'" for m using d(1) by simp
  have inact: "q < length (pt_inactive s) \<Longrightarrow> q < length (pt_inactive s')" for q using d(3) by simp
  note w = undisturbed_walked [OF u] undisturbed_unseen [OF u]
  have "pt_act_ok s' t b" if b: "pt_act_ok s t b" for b
    by (cases b; insert b; simp only: pt_act_ok.simps rest p d(2) list.simps; (elim conjE)?; (intro conjI)?;
      (assumption | rule new less w | simp add: new less w inact d(4-7))?; linarith?)
  then show ?thesis using ok rest undisturbed_entries [OF u t] by (auto simp: thread_ok_def split: option.splits)
qed

section \<open>Writing to a table\<close>

lemma set_entry_other [simp]: "tables (set_entry k i f s) = tables s" "pt_owner (set_entry k i f s) = pt_owner s"
  "pt_inactive (set_entry k i f s) = pt_inactive s" "pt_resizing (set_entry k i f s) = pt_resizing s"
  "capacity_at (set_entry k i f s) l = capacity_at s l" "slots_at (set_entry k i f s) l = slots_at s l"
  "ph_prev (pt_hashes (set_entry k i f s) ! l) = ph_prev (pt_hashes s ! l)"
  "length (ph_entries (pt_hashes (set_entry k i f s) ! l)) = length (ph_entries (pt_hashes s ! l))"
proof -
  have at: "pt_hashes (set_entry k i f s) ! l = (if l = k \<and> k < length (pt_hashes s)
      then (pt_hashes s ! k)\<lparr>ph_entries := (ph_entries (pt_hashes s ! k))[i := f (ph_entries (pt_hashes s ! k) ! i)]\<rparr> else pt_hashes s ! l)"
    by (cases "k < length (pt_hashes s)") (simp_all add: set_entry_def Let_def nth_list_update list_update_beyond)
  show "capacity_at (set_entry k i f s) l = capacity_at s l" by (simp add: capacity_at_def at)
  then show "slots_at (set_entry k i f s) l = slots_at s l" by (simp add: slots_at_def)
  show "ph_prev (pt_hashes (set_entry k i f s) ! l) = ph_prev (pt_hashes s ! l)"
    "length (ph_entries (pt_hashes (set_entry k i f s) ! l)) = length (ph_entries (pt_hashes s ! l))" by (simp_all add: at)
qed (simp_all add: set_entry_def tables_def Let_def)

lemma wf_tablesD:
  assumes "wf_tables s"
  shows "0 < tables s" "k < tables s \<Longrightarrow> wf_capacity (capacity_at s k)" "k < tables s \<Longrightarrow> length (ph_entries (pt_hashes s ! k)) = slots_at s k"
    "k < tables s \<Longrightarrow> ph_prev (pt_hashes s ! k) = (if k = 0 then None else Some (k - 1))"
    "k < tables s \<Longrightarrow> masked (capacity_at s k) x < slots_at s k" "k < tables s \<Longrightarrow> slot (capacity_at s k) t j < slots_at s k"
  using assms masked_less [of "capacity_at s k"] unfolding wf_tables_def slots_at_def slot_def by simp_all

lemma wf_set_entry [simp]: "wf_tables (set_entry k i f s) = wf_tables s"
  by (simp add: wf_tables_def)

lemma set_entry_at:
  assumes "wf_tables s" "k < tables s" "i < slots_at s k"
  shows "key_at (set_entry k i f s) l i' = (if l = k \<and> i' = i then kv_key (f (ph_entries (pt_hashes s ! k) ! i)) else key_at s l i')"
    "value_at (set_entry k i f s) l i' = (if l = k \<and> i' = i then kv_value (f (ph_entries (pt_hashes s ! k) ! i)) else value_at s l i')"
  using assms(2,3) wf_tablesD(3) [OF assms(1,2)]
  by (auto simp: key_at_def value_at_def set_entry_def tables_def Let_def nth_list_update)

lemma set_key_at:
  assumes "wf_tables s" "k < tables s" "i < slots_at s k"
  shows "key_at (set_key k i t s) l i' = (if l = k \<and> i' = i then t else key_at s l i')" "value_at (set_key k i t s) l i' = value_at s l i'"
    and "key_at (set_value k i v s) l i' = key_at s l i'" "value_at (set_value k i v s) l i' = (if l = k \<and> i' = i then v else value_at s l i')"
  using set_entry_at [OF assms] by (simp_all add: set_key_def set_value_def key_at_def value_at_def)

lemma set_key_other [simp]: "tables (set_key k i t s) = tables s" "pt_owner (set_key k i t s) = pt_owner s"
  "pt_inactive (set_key k i t s) = pt_inactive s" "pt_resizing (set_key k i t s) = pt_resizing s"
  "capacity_at (set_key k i t s) l = capacity_at s l" "slots_at (set_key k i t s) l = slots_at s l" "wf_tables (set_key k i t s) = wf_tables s"
  by (simp_all add: set_key_def)

lemma set_value_other [simp]: "tables (set_value k i v s) = tables s" "pt_owner (set_value k i v s) = pt_owner s"
  "pt_inactive (set_value k i v s) = pt_inactive s" "pt_resizing (set_value k i v s) = pt_resizing s"
  "capacity_at (set_value k i v s) l = capacity_at s l" "slots_at (set_value k i v s) l = slots_at s l" "wf_tables (set_value k i v s) = wf_tables s"
  by (simp_all add: set_value_def)

lemma walked_here:
  assumes "walked s t k index"
  obtains j where "slot (capacity_at s k) t j = masked (capacity_at s k) index"
    "\<And>l. l < j \<Longrightarrow> key_at s k (slot (capacity_at s k) t l) \<noteq> 0"
  using assms unfolding walked_def by metis

text \<open>A thread puts its key into a slot that is empty or may be reused.\<close>

lemma key_inserted:
  assumes wf: "wf_tables s" and m: "m < tables s" and i: "i = masked (capacity_at s m) index" and t: "1 < t"
    and free: "key_at s m i = 0 \<or> key_at s m i = 1" and w: "walked s t m index" and not: "\<not> present s t m"
    and e: "entries_ok s t None"
  shows "u \<noteq> t \<Longrightarrow> 1 < u \<Longrightarrow> undisturbed s (set_key m i t s) u" "entries_ok (set_key m i t s) t (Some (m, i))"
    and "present (set_key m i t s) t k \<longleftrightarrow> present s t k \<or> k = m" "i < slots_at s m" "key_at (set_key m i t s) m i = t"
proof -
  have small: "i < slots_at s m" unfolding i by (rule wf_tablesD(5) [OF wf m])
  note at = set_key_at(1,2) [OF wf m small, of t]
  show "i < slots_at s m" by (rule small)
  show "key_at (set_key m i t s) m i = t" by (simp add: at)
  show "present (set_key m i t s) t k \<longleftrightarrow> present s t k \<or> k = m" using small m by (auto simp: present_def at)
  show "undisturbed s (set_key m i t s) u" if "u \<noteq> t" "1 < u"
    unfolding undisturbed_def using free that t by (auto simp: at)
  obtain j where j: "slot (capacity_at s m) t j = i" "\<And>l. l < j \<Longrightarrow> key_at s m (slot (capacity_at s m) t l) \<noteq> 0"
    using walked_here [OF w] unfolding i by blast
  show "entries_ok (set_key m i t s) t (Some (m, i))"
    unfolding entries_ok_def
  proof (intro allI impI)
    fix k i' assume k: "k < tables (set_key m i t s)" "i' < slots_at (set_key m i t s) k" "key_at (set_key m i t s) k i' = t"
    have t0: "t \<noteq> 0" using t by auto
    show "entry_ok (set_key m i t s) t (Some (m, i)) k i'"
    proof (cases "k = m")
      case True
      then have "i' = i" using k not m by (auto simp: at present_def split: if_splits)
      moreover have "\<forall>i'' < slots_at s m. key_at (set_key m i t s) m i'' = t \<longrightarrow> i'' = i" using not m by (auto simp: at present_def)
      moreover have "\<forall>l < j. key_at (set_key m i t s) m (slot (capacity_at s m) t l) \<noteq> 0" using j(2) t0 by (simp add: at)
      ultimately show ?thesis using True j(1) by (auto simp: entry_ok_def)
    next
      case False
      then have "entry_ok s t None k i'" using e k by (simp add: entries_ok_def at)
      then show ?thesis using False by (simp add: entry_ok_def at)
    qed
  qed
qed

text \<open>It stores its producer beside its key.\<close>

lemma value_stored:
  assumes wf: "wf_tables s" and m: "m < tables s" "i < slots_at s m" and key: "key_at s m i = t"
    and own: "pt_owner s t = v" "v \<noteq> None" and e: "entries_ok s t (Some (m, i))"
  shows "u \<noteq> t \<Longrightarrow> undisturbed s (set_value m i v s) u" "entries_ok (set_value m i v s) t None" "present (set_value m i v s) t m"
proof -
  note at = set_key_at(3,4) [OF wf m, of v]
  show "undisturbed s (set_value m i v s) u" if "u \<noteq> t" using that key by (auto simp: undisturbed_def at)
  show "present (set_value m i v s) t m" using m key by (auto simp: present_def at)
  show "entries_ok (set_value m i v s) t None"
    using e own by (auto simp: entries_ok_def entry_ok_def at)
qed

text \<open>It takes its key out.\<close>

lemma key_removed:
  assumes wf: "wf_tables s" and m: "k < tables s" "i < slots_at s k" and key: "key_at s k i = t" and t: "1 < t"
    and e: "entries_ok s t None"
  shows "u \<noteq> t \<Longrightarrow> 1 < u \<Longrightarrow> undisturbed s (set_key k i 1 s) u" "entries_ok (set_key k i 1 s) t None"
    and "present (set_key k i 1 s) t l \<longleftrightarrow> present s t l \<and> l \<noteq> k"
proof -
  note at = set_key_at(1,2) [OF wf m, of 1]
  have only: "i' = i" if "i' < slots_at s k" "key_at s k i' = t" for i'
    using e m key that by (auto simp: entries_ok_def entry_ok_def)
  have t1: "t \<noteq> 1" "t \<noteq> 0" using t by auto
  show "undisturbed s (set_key k i 1 s) u" if "u \<noteq> t" "1 < u"
    unfolding undisturbed_def using that key by (auto simp: at)
  show "present (set_key k i 1 s) t l \<longleftrightarrow> present s t l \<and> l \<noteq> k"
    using only t1 by (auto simp: present_def at)
  show "entries_ok (set_key k i 1 s) t None"
    unfolding entries_ok_def
  proof (intro allI impI)
    fix l i' assume l: "l < tables (set_key k i 1 s)" "i' < slots_at (set_key k i 1 s) l" "key_at (set_key k i 1 s) l i' = t"
    then have l': "l < tables s" "i' < slots_at s l" "key_at s l i' = t" "l \<noteq> k" using only t1 by (auto simp: at split: if_splits)
    then have "entry_ok s t None l i'" using e by (simp add: entries_ok_def)
    then show "entry_ok (set_key k i 1 s) t None l i'" using l'(4) by (simp add: entry_ok_def at)
  qed
qed

section \<open>Steps\<close>

lemma undisturbed_same: "pt_hashes s' = pt_hashes s \<Longrightarrow> pt_owner s' u = pt_owner s u \<Longrightarrow>
    length (pt_inactive s) \<le> length (pt_inactive s') \<Longrightarrow> undisturbed s s' u"
  by (auto simp: undisturbed_def tables_def capacity_at_def key_at_def value_at_def)

lemma undisturbed_publish:
  assumes s'_def: "s' = s\<lparr>pt_hashes := pt_hashes s @ [empty_hash c prev]\<rparr>"
  shows "undisturbed s s' u"
proof -
  have "key_at s' k i = 0" if "tables s \<le> k" "k < tables s'" "i < slots_at s' k" for k i
  proof -
    have "k = tables s" using that by (simp add: s'_def tables_def)
    then show ?thesis using that(3)
      by (simp add: s'_def key_at_def slots_at_def capacity_at_def tables_def empty_hash_def invalid_thread_id_def)
  qed
  moreover have "tables s \<le> tables s'" "pt_owner s' u = pt_owner s u" "pt_inactive s' = pt_inactive s" by (simp_all add: s'_def tables_def)
  moreover have "pt_hashes s' ! k = pt_hashes s ! k" if "k < tables s" for k using that by (simp add: s'_def tables_def nth_append)
  then have "capacity_at s' k = capacity_at s k" "key_at s' k i = key_at s k i" "value_at s' k i = value_at s k i" if "k < tables s" for k i
    using that by (simp_all add: capacity_at_def key_at_def value_at_def)
  ultimately show ?thesis unfolding undisturbed_def by simp
qed

lemma wf_same: "pt_hashes s' = pt_hashes s \<Longrightarrow> wf_tables s' = wf_tables s"
  by (simp add: wf_tables_def tables_def capacity_at_def slots_at_def)

lemma wf_publish:
  assumes "wf_tables s" "Suc m = tables s" "wf_capacity c"
  shows "wf_tables (s\<lparr>pt_hashes := pt_hashes s @ [empty_hash c (Some m)]\<rparr>)"
  using assms by (auto simp: wf_tables_def tables_def capacity_at_def slots_at_def empty_hash_def nth_append less_Suc_eq)

lemma walked_start: "walked s t k (hash_thread_id t)" "unseen s t k (hash_thread_id t)"
  by (auto simp: walked_def unseen_def slot_def intro!: exI [of _ 0])

lemma walked_next:
  assumes "wf_tables s" "k < tables s" "walked s t k index" "key_at s k (masked (capacity_at s k) index) \<noteq> 0"
  shows "walked s t k (of_nat (masked (capacity_at s k) index) + 1)"
proof -
  obtain j where j: "masked (capacity_at s k) index = slot (capacity_at s k) t j" "\<forall>l < j. key_at s k (slot (capacity_at s k) t l) \<noteq> 0"
    using assms(3) unfolding walked_def by blast
  have "masked (capacity_at s k) (of_nat (masked (capacity_at s k) index) + 1) = slot (capacity_at s k) t (Suc j)"
    by (rule slot_next [OF wf_tablesD(2) [OF assms(1,2)] j(1)])
  moreover have "\<forall>l < Suc j. key_at s k (slot (capacity_at s k) t l) \<noteq> 0" using j assms(4) by (simp add: less_Suc_eq)
  ultimately show ?thesis unfolding walked_def by blast
qed

lemma unseen_next:
  assumes "wf_tables s" "k < tables s" "unseen s t k index" "key_at s k (masked (capacity_at s k) index) \<noteq> 0"
    "key_at s k (masked (capacity_at s k) index) \<noteq> t"
  shows "unseen s t k (of_nat (masked (capacity_at s k) index) + 1)"
proof -
  obtain j where j: "masked (capacity_at s k) index = slot (capacity_at s k) t j"
    "\<forall>l < j. key_at s k (slot (capacity_at s k) t l) \<noteq> 0 \<and> key_at s k (slot (capacity_at s k) t l) \<noteq> t"
    using assms(3) unfolding unseen_def by blast
  have "masked (capacity_at s k) (of_nat (masked (capacity_at s k) index) + 1) = slot (capacity_at s k) t (Suc j)"
    by (rule slot_next [OF wf_tablesD(2) [OF assms(1,2)] j(1)])
  moreover have "\<forall>l < Suc j. key_at s k (slot (capacity_at s k) t l) \<noteq> 0 \<and> key_at s k (slot (capacity_at s k) t l) \<noteq> t"
    using j assms(4,5) by (simp add: less_Suc_eq)
  ultimately show ?thesis unfolding unseen_def by blast
qed

text \<open>A table in which the search meets an empty slot does not hold the key.\<close>

lemma unseen_empty:
  assumes "entries_ok s t pe" "unseen s t k index" "key_at s k (masked (capacity_at s k) index) = 0" "t \<noteq> 0"
  shows "\<not> present s t k"
proof
  assume "present s t k"
  then obtain i where i: "k < tables s" "i < slots_at s k" "key_at s k i = t" unfolding present_def by blast
  then obtain j where j: "slot (capacity_at s k) t j = i" "\<forall>l < j. key_at s k (slot (capacity_at s k) t l) \<noteq> 0"
    using assms(1) unfolding entries_ok_def entry_ok_def by blast
  obtain j' where j': "masked (capacity_at s k) index = slot (capacity_at s k) t j'"
    "\<forall>l < j'. key_at s k (slot (capacity_at s k) t l) \<noteq> 0 \<and> key_at s k (slot (capacity_at s k) t l) \<noteq> t"
    using assms(2) unfolding unseen_def by blast
  have "j \<noteq> j'" using assms(3,4) i(3) j(1) j'(1) by auto
  then consider "j < j'" | "j' < j" by linarith
  then show False
  proof cases
    case 1
    then show ?thesis using j'(2) i(3) j(1) by auto
  next
    case 2
    then show ?thesis using j(2) j'(1) assms(3) by auto
  qed
qed

lemma absent_entries: "nowhere s t \<Longrightarrow> entries_ok s t pe"
  by (auto simp: nowhere_def present_def entries_ok_def)

lemma next_table_eq: "wf_tables s \<Longrightarrow> k < tables s \<Longrightarrow> next_table s k again stop = (if k = 0 then stop else again (k - 1))"
  using wf_tablesD(4) [of s k] by (simp add: next_table_def)

lemma nothing_above: "\<forall>l > k. \<not> present s t l \<Longrightarrow> \<not> present s t k \<Longrightarrow> 0 < k \<Longrightarrow> \<forall>l > k - 1. \<not> present s t l"
  by (metis Suc_pred' less_antisym not_less_eq)

lemma nothing_at_all: "\<forall>l > 0. \<not> present s t l \<Longrightarrow> \<not> present s t 0 \<Longrightarrow> nowhere s t"
  unfolding nowhere_def by (metis gr0I)

text \<open>The thread's own part of the invariant after a step of the thread.\<close>

definition own_step :: "producer_table \<Rightarrow> u64 \<Rightarrow> producer_table \<Rightarrow> pt_act option \<Rightarrow> bool" where
  "own_step s t s' nxt \<longleftrightarrow> thread_ok s' t nxt \<and> wf_tables s' \<and> (\<forall>u. u \<noteq> t \<longrightarrow> 1 < u \<longrightarrow> undisturbed s s' u)
     \<and> (\<forall>u. u \<noteq> t \<longrightarrow> pt_owner s' u = pt_owner s u) \<and> (owners_ok s \<longrightarrow> owners_ok s')"

lemma own_step_same: "wf_tables s \<Longrightarrow> thread_ok s t nxt \<Longrightarrow> own_step s t s nxt"
  by (simp add: own_step_def undisturbed_same)

lemma own_step_shared:
  assumes "wf_tables s" "thread_ok s t nxt" "t \<noteq> 0" "pt_hashes s' = pt_hashes s" "pt_owner s' = pt_owner s" "pt_inactive s' = pt_inactive s"
  shows "own_step s t s' nxt"
proof -
  have u: "undisturbed s s' u" for u by (rule undisturbed_same) (simp_all add: assms)
  show ?thesis using undisturbed_thread_ok [OF u assms(3,2)] wf_same [OF assms(4)] u assms
    by (simp add: own_step_def owners_ok_def)
qed

lemma own_step_key:
  assumes "wf_tables s" "m < tables s" "i = masked (capacity_at s m) index" "1 < t" "key_at s m i = 0 \<or> key_at s m i = 1"
    "walked s t m index" "\<not> present s t m" "entries_ok s t None"
    and "pending nxt = Some (m, i)" and "nxt = Some b" "pt_act_ok (set_key m i t s) t b"
  shows "own_step s t (set_key m i t s) nxt"
  using key_inserted [OF assms(1-8)] assms(1,9-11) by (simp add: own_step_def thread_ok_def owners_ok_def)

lemma own_step_value:
  assumes "wf_tables s" "m < tables s" "i < slots_at s m" "key_at s m i = t" "pt_owner s t = Some p" "entries_ok s t (Some (m, i))"
  shows "own_step s t (set_value m i (Some p) s) (Some (Got p))"
  using value_stored [OF assms(1-5) _ assms(6)] assms(1,5)
  by (auto simp: own_step_def thread_ok_def owners_ok_def pending_def)

lemma own_step_removed:
  assumes "wf_tables s" "k < tables s" "i < slots_at s k" "key_at s k i = t" "1 < t" "entries_ok s t None"
    and "pending (Some b) = None" "pt_act_ok (set_key k i 1 s) t b"
  shows "own_step s t (set_key k i 1 s) (Some b)"
  using key_removed [OF assms(1-6)] assms(1,7,8) by (simp add: own_step_def thread_ok_def owners_ok_def)

text \<open>Once a table is done, the search goes on in the one before it.\<close>

lemma searched:
  assumes "wf_tables s" "k < tables s" "\<not> present s t k" "\<forall>l > k. \<not> present s t l"
    and "\<And>l. l < k \<Longrightarrow> \<forall>l' > l. \<not> present s t l' \<Longrightarrow> P (again l)" "nowhere s t \<Longrightarrow> P stop"
  shows "P (next_table s k again stop)"
proof (cases "k = 0")
  case True
  then show ?thesis using assms(3,4,6) nothing_at_all [of s t] next_table_eq [OF assms(1,2)] by simp
next
  case False
  then show ?thesis using assms(5) [of "k - 1"] nothing_above [OF assms(4,3)] next_table_eq [OF assms(1,2)] by simp
qed

lemma own_probe:
  assumes wf: "wf_tables s" and t: "1 < t" and ok: "thread_ok s t (Some (Probe m k index))" and adv: "pt_advance mem t (Probe m k index) s = Some (s', nxt)"
  shows "own_step s t s' nxt"
proof -
  let ?i = "masked (capacity_at s k) index"
  have e: "entries_ok s t None" and b: "at_rest s t" "k \<le> m" "m < tables s" "unseen s t k index" "\<forall>l > k. \<not> present s t l"
    using ok by (simp_all add: thread_ok_def pending_def)
  have k: "k < tables s" and t0: "t \<noteq> 0" using b(2,3) t by auto
  have i: "?i < slots_at s k" by (rule wf_tablesD(5) [OF wf k])
  have "s' = s" using adv by (auto simp: Let_def split: if_splits)
  have "thread_ok s t nxt"
  proof (cases "key_at s k ?i = t")
    case True
    then have p: "present s t k" "value_at s k ?i = pt_owner s t" "pt_owner s t \<noteq> None"
      using e k i by (auto simp: present_def entries_ok_def entry_ok_def)
    moreover have "\<exists>l < m. present s t l" if "k \<noteq> m" using p(1) b(2) that by (intro exI [of _ k]) simp
    ultimately show ?thesis
      using True adv e b walked_start(1) [of s t m] by (auto simp: Let_def thread_ok_def pending_def got_def split: if_splits)
  next
    case False
    show ?thesis
    proof (cases "key_at s k ?i = 0")
      case True
      have not: "\<not> present s t k" by (rule unseen_empty [OF e b(4) True t0])
      have nxt: "nxt = Some (next_table s k (\<lambda>k'. Probe m k' (hash_thread_id t)) (Count_In m))"
        using adv True False by (auto simp: Let_def invalid_thread_id_def)
      show ?thesis unfolding nxt
      proof (rule searched [OF wf k not b(5)])
        show "thread_ok s t (Some (Probe m l (hash_thread_id t)))" if "l < k" "\<forall>l' > l. \<not> present s t l'" for l
          using that e b walked_start(2) [of s t l] by (simp add: thread_ok_def pending_def)
        show "thread_ok s t (Some (Count_In m))" if "nowhere s t"
          using that e b by (simp add: thread_ok_def pending_def newcomer_def at_rest_def nowhere_def)
      qed
    next
      case nonempty: False
      then have "nxt = Some (Probe m k (of_nat ?i + 1))" using adv False by (auto simp: Let_def invalid_thread_id_def)
      then show ?thesis using e b unseen_next [OF wf k b(4) nonempty False] by (simp add: thread_ok_def pending_def)
    qed
  qed
  then show ?thesis using own_step_same [OF wf] \<open>s' = s\<close> by simp
qed

lemma own_exit_probe:
  assumes wf: "wf_tables s" and t: "1 < t" and ok: "thread_ok s t (Some (Exit_Probe p k index))"
    and adv: "pt_advance mem t (Exit_Probe p k index) s = Some (s', nxt)"
  shows "own_step s t s' nxt"
proof -
  let ?i = "masked (capacity_at s k) index" and ?next = "next_table s k (\<lambda>k'. Exit_Probe p k' (hash_thread_id t)) (Exit_Done p)"
  have e: "entries_ok s t None" and b: "pt_owner s t = Some p" "k < tables s" "unseen s t k index" "\<forall>l > k. \<not> present s t l"
    using ok by (simp_all add: thread_ok_def pending_def)
  have t0: "t \<noteq> 0" using t by auto
  have i: "?i < slots_at s k" by (rule wf_tablesD(5) [OF wf b(2)])
  show ?thesis
  proof (cases "key_at s k ?i = t")
    case True
    then have s': "s' = set_key k ?i 1 s" "nxt = Some ?next" using adv by (simp_all add: Let_def invalid_thread_id2_def)
    note r = key_removed [OF wf b(2) i True t e]
    have step: "own_step s t (set_key k ?i 1 s) (Some c)" if "pending (Some c) = None" "pt_act_ok (set_key k ?i 1 s) t c" for c
      by (rule own_step_removed [OF wf b(2) i True t e that])
    have same: "next_table (set_key k ?i 1 s) k again stop = next_table s k again stop" for again stop
      by (simp add: next_table_def set_key_def)
    show ?thesis unfolding s' same [symmetric]
    proof (rule searched [where P = "\<lambda>c. own_step s t (set_key k ?i 1 s) (Some c)"])
      show "own_step s t (set_key k ?i 1 s) (Some (Exit_Probe p l (hash_thread_id t)))"
        if "l < k" "\<forall>l' > l. \<not> present (set_key k ?i 1 s) t l'" for l
        using that b by (intro step) (simp_all add: pending_def walked_start(2))
      show "own_step s t (set_key k ?i 1 s) (Some (Exit_Done p))" if "nowhere (set_key k ?i 1 s) t"
        using that b by (intro step) (simp_all add: pending_def)
    qed (use wf b r(3) in simp_all)
  next
    case False
    have "thread_ok s t nxt \<and> s' = s"
    proof (cases "key_at s k ?i = 0")
      case True
      have not: "\<not> present s t k" by (rule unseen_empty [OF e b(3) True t0])
      have "s' = s" and nxt: "nxt = Some ?next" using adv True False by (auto simp: Let_def invalid_thread_id_def)
      moreover have "thread_ok s t (Some ?next)"
      proof (rule searched [OF wf b(2) not b(4)])
        show "thread_ok s t (Some (Exit_Probe p l (hash_thread_id t)))" if "l < k" "\<forall>l' > l. \<not> present s t l'" for l
          using that e b walked_start(2) [of s t l] by (simp add: thread_ok_def pending_def)
      qed (use e b in \<open>simp add: thread_ok_def pending_def\<close>)
      ultimately show ?thesis by simp
    next
      case nonempty: False
      then have "s' = s" "nxt = Some (Exit_Probe p k (of_nat ?i + 1))" using adv False by (auto simp: Let_def invalid_thread_id_def)
      then show ?thesis using e b unseen_next [OF wf b(2,3) nonempty False] by (simp add: thread_ok_def pending_def)
    qed
    then show ?thesis using own_step_same [OF wf] by simp
  qed
qed

lemma newcomer_same: "newcomer s t m \<Longrightarrow> thread_ok s t (Some b) \<longleftrightarrow> pt_act_ok s t b"
  using absent_entries [of s t] by (simp add: thread_ok_def newcomer_def)

lemma newcomer_table: "newcomer s t m \<Longrightarrow> newcomer s t l \<longleftrightarrow> l < tables s"
  by (simp add: newcomer_def)

text \<open>A thread gets a producer that is inactive, or a new one.\<close>

lemma own_step_acquires:
  assumes wf: "wf_tables s" and n: "newcomer s t m" and t: "1 < t"
    and s': "pt_hashes s' = pt_hashes s" "pt_owner s' = (pt_owner s)(t := Some p)" "length (pt_inactive s) \<le> length (pt_inactive s')"
    and free: "p < length (pt_inactive s')" "\<not> pt_inactive s' ! p" "\<And>u. pt_owner s u \<noteq> Some p \<or> \<not> owners_ok s"
    and rest: "\<And>q. q < length (pt_inactive s) \<Longrightarrow> \<not> pt_inactive s ! q \<Longrightarrow> \<not> pt_inactive s' ! q"
  shows "own_step s t s' (Some (Insert_Reusable m (hash_thread_id t) p))"
proof -
  have "present s' t k = present s t k" for k using s'(1) by (simp add: present_def tables_def slots_at_def capacity_at_def key_at_def)
  then have "nowhere s' t" "m < tables s'" using n s'(1) by (simp_all add: newcomer_def nowhere_def tables_def)
  then have "thread_ok s' t (Some (Insert_Reusable m (hash_thread_id t) p))"
    using absent_entries [of s' t] s'(2) walked_start(1) [of s' t m] by (simp add: thread_ok_def)
  moreover have "owners_ok s'" if o: "owners_ok s"
    unfolding owners_ok_def
  proof (intro allI impI)
    fix u q assume u: "pt_owner s' u = Some q"
    have none: "pt_owner s w \<noteq> Some p" for w using free(3) o by blast
    show "q < length (pt_inactive s') \<and> \<not> pt_inactive s' ! q \<and> (\<forall>w. pt_owner s' w = Some q \<longrightarrow> w = u)"
    proof (cases "u = t")
      case True
      then show ?thesis using u free(1,2) none s'(2) by auto
    next
      case False
      then have "pt_owner s u = Some q" "q \<noteq> p" using u s'(2) none by auto
      then show ?thesis using o rest [of q] s'(2,3) unfolding owners_ok_def by (auto split: if_splits intro: less_le_trans)
    qed
  qed
  ultimately show ?thesis using wf_same [OF s'(1)] wf undisturbed_same [OF s'(1) _ s'(3)] s'(2) by (simp add: own_step_def)
qed

lemma own_step_exits:
  assumes wf: "wf_tables s" and n: "nowhere s t" and own: "pt_owner s t = Some p"
    and s': "s' = s\<lparr>pt_inactive := (pt_inactive s)[p := True], pt_owner := (pt_owner s)(t := None)\<rparr>"
  shows "own_step s t s' None"
proof -
  have h: "pt_hashes s' = pt_hashes s" by (simp add: s')
  have "present s' t k = present s t k" for k using h by (simp add: present_def tables_def slots_at_def capacity_at_def key_at_def)
  then have "thread_ok s' t None" using n absent_entries [of s' t] by (simp add: thread_ok_def at_rest_def nowhere_def s')
  moreover have "owners_ok s'" if o: "owners_ok s"
    using o own unfolding owners_ok_def s' by (auto simp: nth_list_update)
  ultimately show ?thesis using wf_same [OF h] wf undisturbed_same [OF h] by (simp add: own_step_def s')
qed

lemma own_step_publishes:
  assumes wf: "wf_tables s" and n: "newcomer s t m" and t: "t \<noteq> 0" and c: "wf_capacity c" "Suc m = tables s"
    and s': "s' = s\<lparr>pt_hashes := pt_hashes s @ [empty_hash c (Some m)]\<rparr>"
  shows "own_step s t s' (Some (Unlock (tables s) x))"
proof -
  note u = undisturbed_publish [OF s']
  have "present s' t k = present s t k" for k by (rule undisturbed_present [OF u t])
  then have "newcomer s' t (tables s)" using n by (simp add: newcomer_def nowhere_def s' tables_def)
  then show ?thesis
    using wf_publish [OF wf c(2,1)] u newcomer_same [of s' t "tables s"] by (simp add: own_step_def owners_ok_def s')
qed

lemma own_advance:
  assumes wf: "wf_tables s" and t: "1 < t" and ok: "thread_ok s t (Some a)"
    and pub: "\<And>m n c. a = Publish m n c \<Longrightarrow> Suc m = tables s" and adv: "pt_advance mem t a s = Some (s', nxt)"
  shows "own_step s t s' nxt"
proof -
  have e: "entries_ok s t (pending (Some a))" and b: "pt_act_ok s t a" using ok by (simp_all add: thread_ok_def)
  have t0: "t \<noteq> 0" using t by auto
  note same = own_step_same [OF wf] and shared = own_step_shared [OF wf _ t0]
  have new: "own_step s t s'' (Some d)"
    if "newcomer s t m" "pt_act_ok s t d" "pt_hashes s'' = pt_hashes s" "pt_owner s'' = pt_owner s" "pt_inactive s'' = pt_inactive s" for s'' d m
    by (rule shared) (use that newcomer_same in simp_all)
  have stops: "own_step s t s'' None"
    if "newcomer s t m" "pt_hashes s'' = pt_hashes s" "pt_owner s'' = pt_owner s" "pt_inactive s'' = pt_inactive s" for s'' m
    by (rule shared) (use that absent_entries [of s t] in \<open>simp_all add: thread_ok_def newcomer_def at_rest_def nowhere_def\<close>)
  have above: "\<forall>l > tables s - 1. \<not> present s t l" by (auto simp: present_def)
  show ?thesis
  proof (cases a)
    case Get_Start
    then show ?thesis using same [of t nxt] adv e b above walked_start(2) wf_tablesD(1) [OF wf]
      by (auto simp: thread_ok_def pending_def)
  next
    case (Probe m k index)
    then show ?thesis using own_probe [OF wf t] ok adv by simp
  next
    case (Count_In m)
    then show ?thesis using adv b new [of m] by auto
  next
    case (Check m n)
    then show ?thesis using adv b new [of m] by auto
  next
    case (Lock m n)
    then show ?thesis using adv b new [of m] newcomer_table [of s t m 0] wf_tablesD(1) [OF wf] by (auto split: if_splits)
  next
    case (Publish m n c)
    then show ?thesis using adv b own_step_publishes [OF wf _ t0 _ pub [OF Publish] refl, where c = c and x = n] by auto
  next
    case (Unlock m n)
    then show ?thesis using adv b new [of m] by auto
  next
    case Undo_Locked
    then show ?thesis using adv b new [of 0] by auto
  next
    case Undo_Unlock
    then show ?thesis using adv b stops [of 0] by auto
  next
    case Undo
    then show ?thesis using adv b stops [of 0] by auto
  next
    case (Recycle_Start m)
    then show ?thesis using adv b new [of m] by auto
  next
    case (Exit_Probe p k index)
    then show ?thesis using own_exit_probe [OF wf t] ok adv by simp
  next
    case (Exit_Done p)
    then show ?thesis using own_step_exits [OF wf, of t p s'] adv b by auto
  next
    case (Resize n)
    show ?thesis
    proof (cases "drop_bit 1 (capacity_at s (tables s - 1)) \<le> n")
      case True
      then obtain c where c: "grown_capacity n (push_bit 1 (capacity_at s (tables s - 1))) = Some c"
        "s' = s" "nxt = Some (if mem then Publish (tables s - 1) n c else Undo_Locked)"
        using adv Resize by (auto simp: Let_def split: option.splits)
      have "wf_capacity (capacity_at s (tables s - 1))" using wf_tablesD(1,2) [OF wf] by simp
      then have "wf_capacity c" using grown_capacity_wf [OF c(1)] wf_capacity_grown by blast
      then show ?thesis using b new [of 0] newcomer_table [of s t 0] Resize c wf_tablesD(1) [OF wf] by (cases mem) simp_all
    next
      case False
      then show ?thesis using adv b new [of 0] newcomer_table [of s t 0] Resize wf_tablesD(1) [OF wf] by (auto simp: Let_def)
    qed
  next
    case (Room m n)
    then show ?thesis using adv b new [of m] newcomer_table [of s t m] wf_tablesD(1) [OF wf] by (auto split: if_splits)
  next
    case (Recycle m rest)
    then show ?thesis using adv b new [of m] by (auto split: list.splits if_splits)
  next
    case (Recycle_Take m p rest)
    show ?thesis
    proof (cases "pt_inactive s ! p")
      case True
      have "pt_owner s u \<noteq> Some p \<or> \<not> owners_ok s" for u using True unfolding owners_ok_def by blast
      then show ?thesis
        using own_step_acquires [OF wf _ t, of m s' p] adv b Recycle_Take True by (auto simp: nth_list_update)
    next
      case False
      then show ?thesis using adv b new [of m] Recycle_Take by auto
    qed
  next
    case (Create m)
    show ?thesis
    proof (cases mem)
      case True
      have "pt_owner s u \<noteq> Some (length (pt_inactive s)) \<or> \<not> owners_ok s" for u unfolding owners_ok_def by blast
      then show ?thesis
        using own_step_acquires [OF wf _ t, of m s' "length (pt_inactive s)"] adv b Create True by (auto simp: nth_append Let_def)
    next
      case False
      then show ?thesis using adv b new [of m] newcomer_table [of s t m] wf_tablesD(1) [OF wf] Create by (auto simp: Let_def)
    qed
  next
    case (Copy_Empty m index v)
    let ?i = "masked (capacity_at s m) index"
    have e0: "entries_ok s t None" and m: "m < tables s" using e b Copy_Empty by (simp_all add: pending_def)
    have i: "?i < slots_at s m" by (rule wf_tablesD(5) [OF wf m])
    show ?thesis
    proof (cases "key_at s m ?i = 0")
      case True
      then have eqs: "s' = set_key m ?i t s" "nxt = Some (Copy_Value m ?i v)" using adv Copy_Empty by (simp_all add: Let_def invalid_thread_id_def)
      show ?thesis unfolding eqs
        by (rule own_step_key [OF wf m refl t]) (use True b e0 i m Copy_Empty set_key_at(1) [OF wf m i] in \<open>auto simp: pending_def nowhere_def\<close>)
    next
      case False
      then have eqs: "s' = s" "nxt = Some (Copy_Reusable m index v)" using adv Copy_Empty by (auto simp: Let_def invalid_thread_id_def)
      show ?thesis unfolding eqs
        by (rule same) (use False b e0 m Copy_Empty in \<open>simp add: thread_ok_def pending_def\<close>)
    qed
  next
    case (Copy_Reusable m index v)
    let ?i = "masked (capacity_at s m) index"
    have e0: "entries_ok s t None" and m: "m < tables s" using e b Copy_Reusable by (simp_all add: pending_def)
    have i: "?i < slots_at s m" by (rule wf_tablesD(5) [OF wf m])
    show ?thesis
    proof (cases "key_at s m ?i = 1")
      case True
      then have eqs: "s' = set_key m ?i t s" "nxt = Some (Copy_Value m ?i v)" using adv Copy_Reusable by (simp_all add: Let_def invalid_thread_id2_def)
      show ?thesis unfolding eqs
        by (rule own_step_key [OF wf m refl t]) (use True b e0 i m Copy_Reusable set_key_at(1) [OF wf m i] in \<open>auto simp: pending_def nowhere_def\<close>)
    next
      case False
      then have eqs: "s' = s" "nxt = Some (Copy_Empty m (of_nat ?i + 1) v)" using adv Copy_Reusable by (auto simp: Let_def invalid_thread_id2_def)
      show ?thesis unfolding eqs
        by (rule same) (use False b e0 m Copy_Reusable walked_next [OF wf m, of t index] in \<open>simp add: thread_ok_def pending_def\<close>)
    qed
  next
    case (Copy_Value m i v)
    then show ?thesis using adv b e own_step_value [OF wf, of m i t] by (auto simp: pending_def got_def)
  next
    case (Insert_Reusable m index p)
    let ?i = "masked (capacity_at s m) index"
    have e0: "entries_ok s t None" and m: "m < tables s" using e b Insert_Reusable by (simp_all add: pending_def)
    have i: "?i < slots_at s m" by (rule wf_tablesD(5) [OF wf m])
    show ?thesis
    proof (cases "key_at s m ?i = 1")
      case True
      then have eqs: "s' = set_key m ?i t s" "nxt = Some (Insert_Uncount m ?i p)" using adv Insert_Reusable by (simp_all add: Let_def invalid_thread_id2_def)
      show ?thesis unfolding eqs
        by (rule own_step_key [OF wf m refl t]) (use True b e0 i m Insert_Reusable set_key_at(1) [OF wf m i] in \<open>auto simp: pending_def nowhere_def\<close>)
    next
      case False
      then have eqs: "s' = s" "nxt = Some (Insert_Empty m index p)" using adv Insert_Reusable by (auto simp: Let_def invalid_thread_id2_def)
      show ?thesis unfolding eqs
        by (rule same) (use False b e0 m Insert_Reusable in \<open>simp add: thread_ok_def pending_def\<close>)
    qed
  next
    case (Insert_Uncount m i p)
    then show ?thesis using shared [of nxt s'] adv b e by (auto simp: thread_ok_def pending_def)
  next
    case (Insert_Empty m index p)
    let ?i = "masked (capacity_at s m) index"
    have e0: "entries_ok s t None" and m: "m < tables s" using e b Insert_Empty by (simp_all add: pending_def)
    have i: "?i < slots_at s m" by (rule wf_tablesD(5) [OF wf m])
    show ?thesis
    proof (cases "key_at s m ?i = 0")
      case True
      then have eqs: "s' = set_key m ?i t s" "nxt = Some (Insert_Value m ?i p)" using adv Insert_Empty by (simp_all add: Let_def invalid_thread_id_def)
      show ?thesis unfolding eqs
        by (rule own_step_key [OF wf m refl t]) (use True b e0 i m Insert_Empty set_key_at(1) [OF wf m i] in \<open>auto simp: pending_def nowhere_def\<close>)
    next
      case False
      then have eqs: "s' = s" "nxt = Some (Insert_Reusable m (of_nat ?i + 1) p)" using adv Insert_Empty by (auto simp: Let_def invalid_thread_id_def)
      show ?thesis unfolding eqs
        by (rule same) (use False b e0 m Insert_Empty walked_next [OF wf m, of t index] in \<open>simp add: thread_ok_def pending_def\<close>)
    qed
  next
    case (Insert_Value m i p)
    then show ?thesis using adv b e own_step_value [OF wf, of m i t p] by (auto simp: pending_def)
  next
    case (Got p)
    then show ?thesis using same [of t nxt] adv b e by (auto simp: thread_ok_def pending_def at_rest_def)
  next
    case (Exit_Start p)
    then have eqs: "s' = s" "nxt = Some (Exit_Probe p (tables s - 1) (hash_thread_id t))" using adv by auto
    show ?thesis unfolding eqs
      by (rule same) (use Exit_Start e b above walked_start(2) wf_tablesD(1) [OF wf] in \<open>simp add: thread_ok_def pending_def\<close>)
  qed
qed

section \<open>All threads\<close>

lemma tables_update [simp]: "tables (s\<lparr>pt_count := n\<rparr>) = tables s" "tables (s\<lparr>pt_resizing := b\<rparr>) = tables s"
  "tables (s\<lparr>pt_inactive := xs\<rparr>) = tables s" "tables (s\<lparr>pt_owner := f\<rparr>) = tables s"
  by (simp_all add: tables_def)

lemma valid_id: "t \<noteq> 0 \<Longrightarrow> t \<noteq> 1 \<Longrightarrow> 1 < (t :: u64)"
proof -
  assume "t \<noteq> 0" "t \<noteq> 1"
  then have "unat t \<noteq> 0" "unat t \<noteq> 1" by (simp_all add: word_unat_eq_iff)
  then show ?thesis by (simp add: word_less_nat_alt)
qed

lemma advance_lock:
  assumes "pt_advance mem t a s = Some (s', nxt)"
  shows "pt_resizing s \<and> \<not> resizes a \<longrightarrow> pt_resizing s'"
    and "\<And>b. nxt = Some b \<Longrightarrow> resizes b \<Longrightarrow> (pt_resizing s \<longrightarrow> pt_resizing s') \<and> (resizes a \<or> \<not> pt_resizing s \<and> pt_resizing s')"
    and "\<And>m n c. nxt = Some (Publish m n c) \<Longrightarrow> m = tables s - 1 \<and> tables s' = tables s"
    and "\<not> resizes a \<longrightarrow> tables s' = tables s"
  using assms by (cases a; auto simp: Let_def next_table_def got_def split: if_splits option.splits list.splits; fail)+

lemma lock_okD:
  assumes "lock_ok s acts"
  shows "acts t = Some a \<Longrightarrow> resizes a \<Longrightarrow> pt_resizing s" "acts t = Some a \<Longrightarrow> resizes a \<Longrightarrow> acts u = Some b \<Longrightarrow> resizes b \<Longrightarrow> u = t"
    "acts t = Some (Publish m n c) \<Longrightarrow> Suc m = tables s"
  using assms unfolding lock_ok_def by blast+

lemma lock_ok_step:
  assumes lock: "lock_ok s acts" and a: "acts t = Some a" and adv: "pt_advance mem t a s = Some (s', nxt)" and wf: "0 < tables s"
  shows "lock_ok s' (acts(t := nxt))"
proof -
  note l = advance_lock [OF adv] and d = lock_okD [OF lock]
  have other: "\<not> resizes a \<and> pt_resizing s'" if "u \<noteq> t" "acts u = Some b" "resizes b" for u b
    using d(1) [OF that(2,3)] d(2) [OF that(2,3) a] l(1) that(1) by auto
  have own: "pt_resizing s' \<and> (\<forall>u c. u \<noteq> t \<longrightarrow> acts u = Some c \<longrightarrow> \<not> resizes c)" if "nxt = Some b" "resizes b" for b
    using l(2) [OF that] d(1) [OF a] d(2) [OF a] d(1) by metis
  show ?thesis
    unfolding lock_ok_def
  proof (intro conjI allI impI)
    fix u b assume u: "(acts(t := nxt)) u = Some b \<and> resizes b"
    show "pt_resizing s'" using u own other by (cases "u = t") auto
  next
    fix u b w c assume u: "(acts(t := nxt)) u = Some b \<and> resizes b" "(acts(t := nxt)) w = Some c \<and> resizes c"
    show "w = u" using u own d(2) by (cases "u = t"; cases "w = t") auto
  next
    fix u m n c assume u: "(acts(t := nxt)) u = Some (Publish m n c)"
    show "Suc m = tables s'"
    proof (cases "u = t")
      case True
      then show ?thesis using u l(3) wf by simp
    next
      case False
      then have "acts u = Some (Publish m n c)" using u by simp
      then show ?thesis using d(3) other [OF False, of "Publish m n c"] l(4) by simp
    qed
  qed
qed

lemma pt_invD:
  assumes "pt_inv s acts"
  shows "wf_tables s" "lock_ok s acts" "owners_ok s" "1 < t \<Longrightarrow> thread_ok s t (acts t)"
    "acts t = Some a \<Longrightarrow> 1 < t" "pt_owner s t = Some p \<Longrightarrow> 1 < t"
proof -
  show "1 < t" if "acts t = Some a" for a
    using assms that by (intro valid_id) (auto simp: pt_inv_def)
  show "1 < t" if "pt_owner s t = Some p" for p
    using assms that by (intro valid_id) (auto simp: pt_inv_def)
qed (use assms in \<open>simp_all add: pt_inv_def\<close>)

lemma pt_inv_advance:
  assumes inv: "pt_inv s acts" and a: "acts t = Some a" and adv: "pt_advance mem t a s = Some (s', nxt)"
  shows "pt_inv s' (acts(t := nxt)) \<and> (\<forall>u. u \<noteq> t \<longrightarrow> pt_owner s' u = pt_owner s u)"
proof -
  note i = pt_invD [OF inv]
  have t: "1 < t" by (rule i(5) [OF a])
  have ok: "thread_ok s t (Some a)" using i(4) [OF t] a by simp
  have "Suc m = tables s" if "a = Publish m n c" for m n c using lock_okD(3) [OF i(2)] a that by blast
  then have "own_step s t s' nxt" using own_advance [OF i(1) t ok _ adv] by blast
  then have o: "thread_ok s' t nxt" "wf_tables s'" "\<And>u. u \<noteq> t \<Longrightarrow> 1 < u \<Longrightarrow> undisturbed s s' u"
    "\<And>u. u \<noteq> t \<Longrightarrow> pt_owner s' u = pt_owner s u" "owners_ok s'"
    using i(3) by (simp_all add: own_step_def)
  have "thread_ok s' u ((acts(t := nxt)) u)" if "1 < u" for u
  proof (cases "u = t")
    case False
    have "u \<noteq> 0" using that by auto
    then show ?thesis using undisturbed_thread_ok [OF o(3) [OF False that] _ i(4) [OF that]] False by simp
  qed (use o(1) in simp)
  moreover have "t \<noteq> 0" "t \<noteq> 1" using t by auto
  ultimately show ?thesis
    using o lock_ok_step [OF i(2) a adv wf_tablesD(1) [OF i(1)]] inv by (auto simp: pt_inv_def)
qed

lemma pt_inv_step:
  assumes inv: "pt_inv s acts" and step: "pt_step (s, acts) (s', acts')"
  shows "pt_inv s' acts'"
  using step
proof (cases rule: pt_step.cases)
  case (get t)
  have "1 < t" using get(4,5) by (intro valid_id) (simp_all add: invalid_thread_id_def invalid_thread_id2_def)
  moreover have "thread_ok s t (Some Get_Start)"
    using pt_invD(4) [OF inv \<open>1 < t\<close>] get(3) by (simp add: thread_ok_def pending_def)
  moreover have "lock_ok s (acts(t := Some Get_Start))"
    using pt_invD(2) [OF inv] get(3) by (auto simp: lock_ok_def split: if_splits)
  ultimately show ?thesis using inv get(1,2) by (auto simp: pt_inv_def)
next
  case (thread_exit t p)
  have "1 < t" by (rule pt_invD(6) [OF inv thread_exit(4)])
  moreover have "thread_ok s t (Some (Exit_Start p))"
    using pt_invD(4) [OF inv \<open>1 < t\<close>] thread_exit(3,4) by (simp add: thread_ok_def pending_def)
  moreover have "lock_ok s (acts(t := Some (Exit_Start p)))"
    using pt_invD(2) [OF inv] thread_exit(3) by (auto simp: lock_ok_def split: if_splits)
  ultimately show ?thesis using inv thread_exit(1,2) by (auto simp: pt_inv_def)
next
  case (advance t a mem nxt)
  then show ?thesis using pt_inv_advance [OF inv, of t a mem s' nxt] by simp
qed

lemma pt_inv_start: "pt_inv populate_initial_implicit_producer_hash (\<lambda>_. None)"
proof -
  let ?s = populate_initial_implicit_producer_hash
  have s: "tables ?s = 1" "capacity_at ?s 0 = 32" "slots_at ?s 0 = 32" "pt_owner ?s = (\<lambda>_. None)" "length (ph_entries (pt_hashes ?s ! 0)) = 32"
    "ph_prev (pt_hashes ?s ! 0) = None" "\<And>i. i < 32 \<Longrightarrow> key_at ?s 0 i = 0"
    by (simp_all add: populate_initial_implicit_producer_hash_def tables_def capacity_at_def slots_at_def key_at_def empty_hash_def
        INITIAL_IMPLICIT_PRODUCER_HASH_SIZE_def invalid_thread_id_def)
  have "wf_capacity 32" unfolding wf_capacity_def by (rule exI [of _ 5]) simp
  then have "wf_tables ?s" by (simp add: wf_tables_def s)
  moreover have "nowhere ?s t" if "1 < t" for t using that s by (auto simp: nowhere_def present_def)
  then have "thread_ok ?s t None" if "1 < t" for t
    using absent_entries [of ?s t] that by (simp add: thread_ok_def at_rest_def nowhere_def s)
  ultimately show ?thesis by (simp add: pt_inv_def lock_ok_def owners_ok_def s)
qed

lemma pt_inv_reach: "pt_reach s acts \<Longrightarrow> pt_inv s acts"
proof (induction rule: pt_reach.induct)
  case start
  show ?case by (rule pt_inv_start)
next
  case (step s acts s' acts')
  then show ?case using pt_inv_step by blast
qed

section \<open>Properties\<close>

lemma owner_stays:
  assumes inv: "pt_inv s acts" and step: "pt_step (s, acts) (s', acts')" and own: "pt_owner s t = Some p" and alive: "acts t \<noteq> Some (Exit_Done p)"
  shows "pt_owner s' t = Some p"
  using step
proof (cases rule: pt_step.cases)
  case (advance u a mem nxt)
  show ?thesis
  proof (cases "u = t")
    case True
    have "1 < t" by (rule pt_invD(6) [OF inv own])
    then have "thread_ok s t (Some a)" using pt_invD(4) [OF inv] advance(2) True by metis
    then have ok: "pt_act_ok s t a" by (simp add: thread_ok_def)
    have adv: "pt_advance mem t a s = Some (s', nxt)" and a: "a \<noteq> Exit_Done p" using advance(2,3) True alive by auto
    show ?thesis using adv ok own a
      by (cases a; auto simp: Let_def newcomer_def split: if_splits option.splits list.splits; fail)
  next
    case False
    then show ?thesis using pt_inv_advance [OF inv advance(2,3)] own by simp
  qed
qed (use own in simp_all)

text \<open>
  C33: a sub-queue has one enqueuing thread at a time. Whatever other threads do, also while
  tables are added and reused, the producer a call of \<open>get_or_add_implicit_producer\<close> returns is
  the one the thread owns, no other thread owns it, and it is not marked inactive; and the thread
  keeps it from call to call until its exit callback has marked it inactive.
\<close>

theorem producers_are_exclusive:
  assumes "pt_reach s acts" and "acts t = Some (Got p) \<or> pt_owner s t = Some p"
  shows "pt_owner s t = Some p \<and> (\<forall>u. pt_owner s u = Some p \<longrightarrow> u = t) \<and> p < length (pt_inactive s) \<and> \<not> pt_inactive s ! p
    \<and> (\<forall>s' acts'. pt_step (s, acts) (s', acts') \<and> acts t \<noteq> Some (Exit_Done p) \<longrightarrow> pt_owner s' t = Some p)"
proof -
  have inv: "pt_inv s acts" by (rule pt_inv_reach [OF assms(1)])
  have own: "pt_owner s t = Some p"
    using assms(2)
  proof
    assume a: "acts t = Some (Got p)"
    show ?thesis using pt_invD(4) [OF inv pt_invD(5) [OF inv a]] a by (simp add: thread_ok_def)
  qed
  then show ?thesis using pt_invD(3) [OF inv] owner_stays [OF inv _ own] unfolding owners_ok_def by blast
qed

text \<open>
  The loop over a table does not end when no slot is empty and none has the thread's key. The
  code takes for granted that one is free.
\<close>

fun pt_run :: "nat \<Rightarrow> bool \<Rightarrow> u64 \<Rightarrow> pt_act \<Rightarrow> producer_table \<Rightarrow> (producer_table \<times> pt_act option) option" where
  "pt_run 0 mem t a s = Some (s, Some a)"
| "pt_run (Suc n) mem t a s =
     (case pt_advance mem t a s of None \<Rightarrow> None | Some (s', None) \<Rightarrow> Some (s', None) | Some (s', Some b) \<Rightarrow> pt_run n mem t b s')"

theorem lookup_in_full_table_never_ends:
  assumes "wf_tables s" "k < tables s" "\<forall>i < slots_at s k. key_at s k i \<noteq> invalid_thread_id \<and> key_at s k i \<noteq> t"
  shows "\<exists>index'. pt_run n mem t (Probe m k index) s = Some (s, Some (Probe m k index'))"
proof (induction n arbitrary: index)
  case (Suc n)
  have "masked (capacity_at s k) index < slots_at s k" by (rule wf_tablesD(5) [OF assms(1,2)])
  then show ?case using Suc.IH assms(3) by (simp add: Let_def)
qed simp

lemma pt_run_reach:
  "pt_run n mem t a s = Some (s', nxt) \<Longrightarrow> pt_reach s acts \<Longrightarrow> acts t = Some a \<Longrightarrow> pt_reach s' (acts(t := nxt))"
proof (induction n arbitrary: a s acts)
  case 0
  then show ?case by (simp add: fun_upd_idem)
next
  case (Suc n)
  obtain s1 nxt1 where step: "pt_advance mem t a s = Some (s1, nxt1)" using Suc.prems(1) by (cases "pt_advance mem t a s") auto
  have reach: "pt_reach s1 (acts(t := nxt1))"
    by (rule pt_reach.step [OF Suc.prems(2)], rule pt_step.advance) (use Suc.prems(3) step in simp_all)
  show ?case
  proof (cases nxt1)
    case None
    then have "s1 = s'" "nxt = nxt1" using Suc.prems(1) step by simp_all
    then show ?thesis using reach by (simp only:)
  next
    case (Some b)
    then have "pt_run n mem t b s1 = Some (s', nxt)" "pt_reach s1 (acts(t := Some b))" using Suc.prems(1) step reach by simp_all
    then have "pt_reach s' ((acts(t := Some b))(t := nxt))" by (rule Suc.IH) simp
    then show ?thesis by (simp only: fun_upd_upd)
  qed
qed

definition one_producer :: producer_table where
  "one_producer = (let s = populate_initial_implicit_producer_hash; i = masked 32 (hash_thread_id 8) in
     set_value 0 i (Some 0) (set_key 0 i 8 (s\<lparr>pt_count := 1, pt_inactive := [False], pt_owner := [8 \<mapsto> 0]\<rparr>)))"

lemma one_producer_run: "pt_run (Suc (Suc (Suc (Suc (Suc (Suc (Suc (Suc (Suc (Suc (Suc 0))))))))))) True 8 Get_Start
    populate_initial_implicit_producer_hash = Some (one_producer, Some (Got 0))"
proof -
  let ?s = populate_initial_implicit_producer_hash
  have cap: "capacity_at (?s\<lparr>pt_count := n, pt_inactive := xs, pt_owner := f\<rparr>) 0 = 32" "capacity_at (?s\<lparr>pt_count := n\<rparr>) 0 = 32"
      "capacity_at ?s 0 = 32" "tables ?s = Suc 0" "ph_prev (pt_hashes ?s ! 0) = None" "pt_count ?s = 0" "pt_inactive ?s = []" "pt_owner ?s = (\<lambda>_. None)" for n xs f
    by (simp_all add: populate_initial_implicit_producer_hash_def capacity_at_def tables_def empty_hash_def INITIAL_IMPLICIT_PRODUCER_HASH_SIZE_def)
  have "wf_capacity 32" unfolding wf_capacity_def by (rule exI [of _ 5]) simp
  then have "masked 32 (hash_thread_id 8) < 32" using masked_less [of 32 "hash_thread_id 8"] by simp
  then have key: "key_at ?s 0 (masked 32 (hash_thread_id 8)) = 0"
      "key_at (?s\<lparr>pt_count := n, pt_inactive := xs, pt_owner := f\<rparr>) 0 (masked 32 (hash_thread_id 8)) = 0" for n xs f
    by (simp_all add: populate_initial_implicit_producer_hash_def key_at_def empty_hash_def INITIAL_IMPLICIT_PRODUCER_HASH_SIZE_def invalid_thread_id_def)
  show ?thesis
    by (simp add: cap key next_table_def invalid_thread_id_def invalid_thread_id2_def one_producer_def Let_def word_le_nat_alt word_less_nat_alt)
qed

theorem producers_are_exclusive_witness:
  "pt_owner one_producer 8 = Some 0 \<and> pt_owner one_producer 9 \<noteq> Some 0 \<and> \<not> pt_inactive one_producer ! 0"
proof -
  have "pt_reach populate_initial_implicit_producer_hash ((\<lambda>_. None)(8 := Some Get_Start))"
    by (rule pt_reach.step [OF pt_reach.start pt_step.get]) (simp_all add: invalid_thread_id_def invalid_thread_id2_def)
  from pt_run_reach [OF one_producer_run this] have "pt_reach one_producer ((\<lambda>_. None)(8 := Some Get_Start, 8 := Some (Got 0)))" by simp
  then have "(pt_owner one_producer 8 = Some 0) \<and> (\<forall>u. pt_owner one_producer u = Some 0 \<longrightarrow> u = 8) \<and> \<not> pt_inactive one_producer ! 0"
    using producers_are_exclusive [of one_producer _ 8 0] by (metis fun_upd_same)
  moreover have "(9 :: u64) \<noteq> 8" by simp
  ultimately show ?thesis by metis
qed

end
