(* ===== verification/Exit_Notifier.thy ===== *)
theory Exit_Notifier
  imports Exa_Prelude
begin

text \<open>
  How a producer learns that its thread has ended (\<open>moody_camel_queue/concurrentqueue.h\<close>,
  \<open>ThreadExitListener\<close>, \<open>ThreadExitNotifier\<close>). Each thread has a notifier, a linked list of the
  listeners inside the producers the thread has taken; one global mutex protects all lists. A
  producer is taken (new or recycled), then its listener is subscribed. When the thread ends,
  the destructor of the notifier goes through the list under the mutex and calls every
  listener; the call makes the producer inactive, so that another thread can take it. The
  destructor of a producer unsubscribes it, unless it reads that the producer is inactive.

  A listener has the number of its producer. What the call does to the table of producers is in
  \<open>Producer_Table\<close>. Unsubscribing and subscribing are one step each, under the mutex; the loop in
  the destructor of a notifier is not, since \<open>inactive\<close> is read without the mutex.
\<close>

section \<open>State and steps\<close>

text \<open>
  \<open>en_freed\<close> are the producers whose memory has been freed; \<open>en_ended\<close> the threads whose notifier is
  being or has been destroyed. A producer that does not exist yet counts as inactive.
\<close>

record exit_state =
  en_mutex :: bool
  en_tail :: "nat \<Rightarrow> nat option"
  en_next :: "nat \<Rightarrow> nat option"
  en_chain :: "nat \<Rightarrow> nat option"
  en_inactive :: "nat \<Rightarrow> bool"
  en_freed :: "nat set"
  en_ended :: "nat set"

definition exit_state_new :: exit_state where
  "exit_state_new = \<lparr>en_mutex = False, en_tail = Map.empty, en_next = Map.empty, en_chain = Map.empty, en_inactive = (\<lambda>_. True),
     en_freed = {}, en_ended = {}\<rparr>"

datatype en_act =
    Subscribe nat nat
  | Exit_Lock nat | Exit_Loop nat "nat option" | Exit_Call nat nat | Exit_Next nat nat
  | Check_Inactive nat | Unsubscribe nat | Free_Producer nat

text \<open>The loop of \<open>unsubscribe\<close>: \<open>prev\<close> is the listener whose link is to be changed, or the tail.\<close>

definition store_link :: "nat \<Rightarrow> nat option \<Rightarrow> nat option \<Rightarrow> exit_state \<Rightarrow> exit_state" where
  "store_link t prev v s =
     (case prev of None \<Rightarrow> s\<lparr>en_tail := (en_tail s)(t := v)\<rparr> | Some q \<Rightarrow> s\<lparr>en_next := (en_next s)(q := v)\<rparr>)"

partial_function (option) unlink :: "nat \<Rightarrow> nat \<Rightarrow> nat option \<Rightarrow> nat option \<Rightarrow> exit_state \<Rightarrow> exit_state option" where
  "unlink t l prev ptr s =
     (case ptr of
        None \<Rightarrow> Some s
      | Some p \<Rightarrow>
          if p = l then Some (store_link t prev (en_next s p) s)
          else if p \<in> en_freed s then None
          else unlink t l (Some p) (en_next s p) s)"

text \<open>The next step; no result when the code reads freed memory.\<close>

fun en_advance :: "en_act \<Rightarrow> exit_state \<Rightarrow> (exit_state \<times> en_act option) option" where
  "en_advance (Subscribe t l) s =
     (if l \<in> en_freed s then None
      else Some (s\<lparr>en_next := (en_next s)(l := en_tail s t), en_chain := (en_chain s)(l \<mapsto> t), en_tail := (en_tail s)(t \<mapsto> l)\<rparr>, None))"
| "en_advance (Exit_Lock t) s = Some (s\<lparr>en_mutex := True\<rparr>, Some (Exit_Loop t (en_tail s t)))"
| "en_advance (Exit_Loop t ptr) s =
     (case ptr of
        None \<Rightarrow> Some (s\<lparr>en_mutex := False\<rparr>, None)
      | Some l \<Rightarrow> if l \<in> en_freed s then None else Some (s\<lparr>en_chain := (en_chain s)(l := None)\<rparr>, Some (Exit_Call t l)))"
| "en_advance (Exit_Call t l) s =
     (if l \<in> en_freed s then None else Some (s\<lparr>en_inactive := (en_inactive s)(l := True)\<rparr>, Some (Exit_Next t l)))"
| "en_advance (Exit_Next t l) s = (if l \<in> en_freed s then None else Some (s, Some (Exit_Loop t (en_next s l))))"
| "en_advance (Check_Inactive l) s = Some (s, Some (if en_inactive s l then Free_Producer l else Unsubscribe l))"
| "en_advance (Unsubscribe l) s =
     (case en_chain s l of
        None \<Rightarrow> Some (s, Some (Free_Producer l))
      | Some t \<Rightarrow> map_option (\<lambda>s'. (s', Some (Free_Producer l)))
          (unlink t l None (en_tail s t) (s\<lparr>en_chain := (en_chain s)(l := None)\<rparr>)))"
| "en_advance (Free_Producer l) s = Some (s\<lparr>en_freed := insert l (en_freed s)\<rparr>, None)"

fun needs_mutex :: "en_act \<Rightarrow> bool" where
  "needs_mutex (Subscribe t l) \<longleftrightarrow> True"
| "needs_mutex (Exit_Lock t) \<longleftrightarrow> True"
| "needs_mutex (Unsubscribe l) \<longleftrightarrow> True"
| "needs_mutex _ \<longleftrightarrow> False"

fun in_destructor :: "nat \<Rightarrow> en_act \<Rightarrow> nat" where
  "in_destructor k (Check_Inactive l) = of_bool (k = l)"
| "in_destructor k (Unsubscribe l) = of_bool (k = l)"
| "in_destructor k (Free_Producer l) = of_bool (k = l)"
| "in_destructor k _ = 0"

fun subscribing :: "nat \<Rightarrow> en_act \<Rightarrow> nat" where
  "subscribing k (Subscribe t l) = of_bool (k = l)"
| "subscribing k _ = 0"

fun subscriber :: "nat \<Rightarrow> en_act \<Rightarrow> nat" where
  "subscriber u (Subscribe t l) = of_bool (u = t)"
| "subscriber u _ = 0"

text \<open>
  A thread takes a producer that is inactive and that nobody destroys; a thread ends when it is
  in no call; a producer is destroyed once, when no call on its queue is in progress. The end
  of a thread is no call on the queue: only the careful destructor waits until the loop of an
  ending thread has moved on from the producer.
\<close>

inductive en_step :: "bool \<Rightarrow> exit_state \<times> en_act multiset \<Rightarrow> exit_state \<times> en_act multiset \<Rightarrow> bool" for careful where
  acquire: "en_inactive s l \<Longrightarrow> l \<notin> en_freed s \<Longrightarrow> (\<Sum>a \<in># A. in_destructor l a) = 0 \<Longrightarrow> t \<notin> en_ended s \<Longrightarrow>
    en_step careful (s, A) (s\<lparr>en_inactive := (en_inactive s)(l := False)\<rparr>, add_mset (Subscribe t l) A)"
| thread_end: "t \<notin> en_ended s \<Longrightarrow> (\<Sum>a \<in># A. subscriber t a) = 0 \<Longrightarrow>
    en_step careful (s, A) (s\<lparr>en_ended := insert t (en_ended s)\<rparr>, add_mset (Exit_Lock t) A)"
| destroy: "l \<notin> en_freed s \<Longrightarrow> (\<Sum>a \<in># A. in_destructor l a) = 0 \<Longrightarrow> (\<Sum>a \<in># A. subscribing l a) = 0 \<Longrightarrow>
    en_step careful (s, A) (s, add_mset (Check_Inactive l) A)"
| advance: "(needs_mutex a \<Longrightarrow> \<not> en_mutex s) \<Longrightarrow> (\<And>t l. careful \<Longrightarrow> a = Check_Inactive l \<Longrightarrow> Exit_Next t l \<notin># A) \<Longrightarrow>
    en_advance a s = Some (s', nxt) \<Longrightarrow> en_step careful (s, add_mset a A) (s', opt_mset nxt + A)"

inductive en_reach :: "bool \<Rightarrow> exit_state \<Rightarrow> en_act multiset \<Rightarrow> bool" for careful where
  start: "en_reach careful exit_state_new {#}"
| step: "en_reach careful s A \<Longrightarrow> en_step careful (s, A) (s', A') \<Longrightarrow> en_reach careful s' A'"

section \<open>The invariant\<close>

fun exits :: "nat \<Rightarrow> en_act \<Rightarrow> nat" where
  "exits u (Exit_Lock t) = of_bool (u = t)"
| "exits u (Exit_Loop t p) = of_bool (u = t)"
| "exits u (Exit_Call t l) = of_bool (u = t)"
| "exits u (Exit_Next t l) = of_bool (u = t)"
| "exits u _ = 0"

fun in_section :: "en_act \<Rightarrow> nat" where
  "in_section (Exit_Loop t p) = 1"
| "in_section (Exit_Call t l) = 1"
| "in_section (Exit_Next t l) = 1"
| "in_section _ = 0"

text \<open>A producer that is taken and not in a list.\<close>

fun held :: "nat \<Rightarrow> en_act \<Rightarrow> nat" where
  "held k (Subscribe t l) = of_bool (k = l)"
| "held k (Exit_Call t l) = of_bool (k = l)"
| "held k _ = 0"

fun passing :: "nat \<Rightarrow> en_act \<Rightarrow> nat" where
  "passing k (Exit_Next t l) = of_bool (k = l)"
| "passing k _ = 0"

fun releasing :: "nat \<Rightarrow> en_act \<Rightarrow> nat" where
  "releasing k (Free_Producer l) = of_bool (k = l)"
| "releasing k _ = 0"

text \<open>\<open>L t\<close> is what the list of the thread \<open>t\<close> still holds.\<close>

fun list_at :: "exit_state \<Rightarrow> (nat \<Rightarrow> nat list) \<Rightarrow> en_act \<Rightarrow> bool" where
  "list_at s L (Exit_Lock t) \<longleftrightarrow> links (en_next s) (en_tail s t) (L t)"
| "list_at s L (Exit_Loop t p) \<longleftrightarrow> links (en_next s) p (L t)"
| "list_at s L (Exit_Call t l) \<longleftrightarrow> links (en_next s) (en_next s l) (L t)"
| "list_at s L (Exit_Next t l) \<longleftrightarrow> links (en_next s) (en_next s l) (L t)"
| "list_at s L _ \<longleftrightarrow> True"

definition list_inv :: "exit_state \<Rightarrow> en_act multiset \<Rightarrow> (nat \<Rightarrow> nat list) \<Rightarrow> bool" where
  "list_inv s A L \<longleftrightarrow>
     (\<forall>t. t \<notin> en_ended s \<longrightarrow> links (en_next s) (en_tail s t) (L t))
     \<and> (\<forall>a \<in># A. list_at s L a)
     \<and> (\<forall>t l. en_chain s l = Some t \<longleftrightarrow> l \<in> set (L t)) \<and> (\<forall>t. distinct (L t))
     \<and> (\<forall>t \<in> en_ended s. (\<Sum>a \<in># A. exits t a) = 0 \<longrightarrow> L t = [])"

text \<open>
  A thread ends once. A producer is inactive, or held by one call, or in one list; it is destroyed
  once, not while it is being subscribed; when it is about to be freed no list and no call has it.
\<close>

definition thread_at :: "exit_state \<Rightarrow> en_act multiset \<Rightarrow> nat \<Rightarrow> bool" where
  "thread_at s A t \<longleftrightarrow> (\<Sum>a \<in># A. exits t a) \<le> of_bool (t \<in> en_ended s) \<and> (t \<in> en_ended s \<longrightarrow> (\<Sum>a \<in># A. subscriber t a) = 0)"

definition place_at :: "exit_state \<Rightarrow> en_act multiset \<Rightarrow> nat \<Rightarrow> bool" where
  "place_at s A l \<longleftrightarrow>
     of_bool (en_inactive s l) + (\<Sum>a \<in># A. held l a) + of_bool (en_chain s l \<noteq> None) \<le> (1 :: nat)
     \<and> (\<Sum>a \<in># A. in_destructor l a) + of_bool (l \<in> en_freed s) \<le> (1 :: nat)
     \<and> (0 < (\<Sum>a \<in># A. in_destructor l a) + of_bool (l \<in> en_freed s) \<longrightarrow> (\<Sum>a \<in># A. subscribing l a) = 0)
     \<and> (0 < (\<Sum>a \<in># A. releasing l a) + of_bool (l \<in> en_freed s) \<longrightarrow>
          en_chain s l = None \<and> (\<Sum>a \<in># A. held l a) = 0 \<and> (\<Sum>a \<in># A. passing l a) = 0)"

definition place_inv :: "exit_state \<Rightarrow> en_act multiset \<Rightarrow> bool" where
  "place_inv s A \<longleftrightarrow> (\<forall>t. thread_at s A t) \<and> (\<forall>l. place_at s A l) \<and> (\<Sum>a \<in># A. in_section a) = of_bool (en_mutex s)"

lemma list_invD:
  assumes "list_inv s A L"
  shows "t \<notin> en_ended s \<Longrightarrow> links (en_next s) (en_tail s t) (L t)" and "a \<in># A \<Longrightarrow> list_at s L a"
    and "en_chain s l = Some t \<longleftrightarrow> l \<in> set (L t)" and "distinct (L t)"
    and "t \<in> en_ended s \<Longrightarrow> (\<Sum>a \<in># A. exits t a) = 0 \<Longrightarrow> L t = []"
  using assms unfolding list_inv_def by blast+

lemma place_invD:
  assumes "place_inv s A"
  shows "thread_at s A t" "place_at s A l" "(\<Sum>a \<in># A. in_section a) = of_bool (en_mutex s)"
  using assms unfolding place_inv_def by blast+

lemma sum_mset_le: "(\<And>a. f a \<le> g a) \<Longrightarrow> (\<Sum>a \<in># A. f a) \<le> (\<Sum>a \<in># A. g a)" for f g :: "'a \<Rightarrow> nat"
  by (induction A) (auto intro: add_mono)

lemma held_sum: "(\<Sum>a \<in># A. held l a) \<le> (\<Sum>a \<in># A. subscribing l a) + (\<Sum>a \<in># A. in_section a)"
proof -
  have "(\<Sum>a \<in># A. held l a) \<le> (\<Sum>a \<in># A. subscribing l a + in_section a)"
  proof (rule sum_mset_le)
    show "held l a \<le> subscribing l a + in_section a" for a by (cases a) auto
  qed
  then show ?thesis by (simp add: sum_mset.distrib)
qed

lemma passing_sum: "(\<Sum>a \<in># A. passing l a) \<le> (\<Sum>a \<in># A. in_section a)"
proof (rule sum_mset_le)
  show "passing l a \<le> in_section a" for a by (cases a) auto
qed

lemma releasing_sum: "(\<Sum>a \<in># A. releasing l a) \<le> (\<Sum>a \<in># A. in_destructor l a)"
proof (rule sum_mset_le)
  show "releasing l a \<le> in_destructor l a" for a by (cases a) auto
qed

lemma passing_none: "(\<And>t. Exit_Next t l \<notin># A) \<Longrightarrow> (\<Sum>a \<in># A. passing l a) = 0"
proof (induction A)
  case (add a A)
  then show ?case by (cases a) auto
qed simp

lemmas place_defs = thread_at_def place_at_def

text \<open>The steps that begin a call.\<close>

lemma place_inv_begin:
  assumes inv: "place_inv s A"
  shows "en_inactive s l \<Longrightarrow> l \<notin> en_freed s \<Longrightarrow> (\<Sum>a \<in># A. in_destructor l a) = 0 \<Longrightarrow> t \<notin> en_ended s \<Longrightarrow>
      place_inv (s\<lparr>en_inactive := (en_inactive s)(l := False)\<rparr>) (add_mset (Subscribe t l) A)"
    and "t \<notin> en_ended s \<Longrightarrow> (\<Sum>a \<in># A. subscriber t a) = 0 \<Longrightarrow>
      place_inv (s\<lparr>en_ended := insert t (en_ended s)\<rparr>) (add_mset (Exit_Lock t) A)"
    and "l \<notin> en_freed s \<Longrightarrow> (\<Sum>a \<in># A. in_destructor l a) = 0 \<Longrightarrow> (\<Sum>a \<in># A. subscribing l a) = 0 \<Longrightarrow>
      place_inv s (add_mset (Check_Inactive l) A)"
proof -
  note i = place_invD [OF inv]
  {
    assume a: "en_inactive s l" "l \<notin> en_freed s" "(\<Sum>a \<in># A. in_destructor l a) = 0" "t \<notin> en_ended s"
    have "place_at (s\<lparr>en_inactive := (en_inactive s)(l := False)\<rparr>) (add_mset (Subscribe t l) A) k" for k
      using i(2) [of k] a releasing_sum [of l A] by (auto simp: place_at_def simp del: sum_mset_0_iff)
    moreover have "thread_at (s\<lparr>en_inactive := (en_inactive s)(l := False)\<rparr>) (add_mset (Subscribe t l) A) u" for u
      using i(1) [of u] a by (auto simp: thread_at_def)
    ultimately show "place_inv (s\<lparr>en_inactive := (en_inactive s)(l := False)\<rparr>) (add_mset (Subscribe t l) A)"
      using i(3) by (simp add: place_inv_def)
  }
  {
    assume a: "t \<notin> en_ended s" "(\<Sum>a \<in># A. subscriber t a) = 0"
    have "thread_at (s\<lparr>en_ended := insert t (en_ended s)\<rparr>) (add_mset (Exit_Lock t) A) u" for u
      using i(1) [of u] a by (auto simp: thread_at_def simp del: sum_mset_0_iff)
    moreover have "place_at (s\<lparr>en_ended := insert t (en_ended s)\<rparr>) (add_mset (Exit_Lock t) A) k" for k
      using i(2) [of k] by (simp add: place_at_def)
    ultimately show "place_inv (s\<lparr>en_ended := insert t (en_ended s)\<rparr>) (add_mset (Exit_Lock t) A)"
      using i(3) by (simp add: place_inv_def)
  }
  {
    assume a: "l \<notin> en_freed s" "(\<Sum>a \<in># A. in_destructor l a) = 0" "(\<Sum>a \<in># A. subscribing l a) = 0"
    have "place_at s (add_mset (Check_Inactive l) A) k" for k
      using i(2) [of k] a by (auto simp: place_at_def simp del: sum_mset_0_iff)
    moreover have "thread_at s (add_mset (Check_Inactive l) A) u" for u using i(1) [of u] by (simp add: thread_at_def)
    ultimately show "place_inv s (add_mset (Check_Inactive l) A)" using i(3) by (simp add: place_inv_def)
  }
qed

section \<open>Unsubscribing\<close>

lemma links_append: "links nx p (xs @ q # ys) \<Longrightarrow> links nx (nx q) ys"
  by (induction xs arbitrary: p) auto

lemma links_bypass: "links nx p (xs @ q # l # ys) \<Longrightarrow> distinct (xs @ q # l # ys) \<Longrightarrow> links (nx(q := nx l)) p (xs @ q # ys)"
  by (induction xs arbitrary: p) auto

lemma store_link_fields [simp]:
  "en_mutex (store_link t prev v s) = en_mutex s" "en_chain (store_link t prev v s) = en_chain s"
  "en_inactive (store_link t prev v s) = en_inactive s" "en_freed (store_link t prev v s) = en_freed s"
  "en_ended (store_link t prev v s) = en_ended s"
  by (simp_all add: store_link_def split: option.splits)

text \<open>The loop removes the listener from the list it is in; the other lists stay as they are.\<close>

lemma unlink_removes:
  assumes "links (en_next s) (en_tail s t) (pre @ post)" "links (en_next s) ptr post" "distinct (pre @ post)" "l \<in> set post"
    and "set post \<inter> en_freed s = {}" "prev = (if pre = [] then None else Some (last pre))"
  shows "\<exists>s'. unlink t l prev ptr s = Some s' \<and> links (en_next s') (en_tail s' t) (remove1 l (pre @ post))
    \<and> (\<forall>u. u \<noteq> t \<longrightarrow> en_tail s' u = en_tail s u) \<and> (\<forall>q. q \<notin> set (pre @ post) \<longrightarrow> en_next s' q = en_next s q)
    \<and> en_mutex s' = en_mutex s \<and> en_chain s' = en_chain s \<and> en_inactive s' = en_inactive s \<and> en_freed s' = en_freed s \<and> en_ended s' = en_ended s"
  using assms
proof (induction post arbitrary: pre ptr prev)
  case (Cons p post)
  have ptr: "ptr = Some p" "links (en_next s) (en_next s p) post" using Cons.prems(2) by simp_all
  show ?case
  proof (cases "p = l")
    case True
    have run: "unlink t l prev ptr s = Some (store_link t prev (en_next s l) s)" using ptr True by (simp add: unlink.simps)
    have absent: "l \<notin> set pre" using Cons.prems(3) True by auto
    show ?thesis
    proof (cases pre rule: rev_cases)
      case Nil
      then show ?thesis using run ptr True Cons.prems(6) by (auto simp: store_link_def)
    next
      case (snoc xs q)
      have "links ((en_next s)(q := en_next s l)) (en_tail s t) (xs @ q # post)"
        using links_bypass [of "en_next s" "en_tail s t" xs q l post] Cons.prems(1,3) snoc True by simp
      then show ?thesis using run snoc True absent Cons.prems(6) by (auto simp: store_link_def remove1_append)
    qed
  next
    case False
    then have "unlink t l prev ptr s = unlink t l (Some p) (en_next s p) s" using ptr Cons.prems(5) by (simp add: unlink.simps [of t l prev])
    then show ?thesis using Cons.IH [of "pre @ [p]" "en_next s p" "Some p"] Cons.prems ptr False by simp
  qed
qed simp

lemma in_section_none: "\<not> en_mutex s \<Longrightarrow> place_inv s A \<Longrightarrow> a \<in># A \<Longrightarrow> in_section a = 0"
  using place_invD(3) [of s A] by simp

text \<open>With the mutex free, a thread with listeners has all of them in its list.\<close>

lemma list_when_free:
  assumes "list_inv s A L" "place_inv s A" "\<not> en_mutex s" "L t \<noteq> []"
  shows "links (en_next s) (en_tail s t) (L t)"
proof (cases "t \<in> en_ended s")
  case True
  then have "(\<Sum>a \<in># A. exits t a) \<noteq> 0" using list_invD(5) [OF assms(1)] assms(4) by blast
  then obtain a where a: "a \<in># A" "exits t a \<noteq> 0" by auto
  then have "a = Exit_Lock t" using in_section_none [OF assms(3,2) a(1)] by (cases a) (auto split: if_splits)
  then show ?thesis using list_invD(2) [OF assms(1) a(1)] by simp
qed (use list_invD(1) [OF assms(1)] in blast)

text \<open>Lists and pointers when the mutex is free: only threads about to take it are ending.\<close>

lemma list_at_free:
  assumes "place_inv s A" "\<not> en_mutex s" "a \<in># A" "\<And>t. a = Exit_Lock t \<Longrightarrow> links (en_next s') (en_tail s' t) (L t)"
  shows "list_at s' L a"
  using in_section_none [OF assms(2,1,3)] assms(4) by (cases a) auto

section \<open>The steps\<close>

lemma list_at_cong: "en_next s' = en_next s \<Longrightarrow> en_tail s' = en_tail s \<Longrightarrow> list_at s' L a = list_at s L a"
  by (cases a) auto

lemma list_at_other: "exits t a = 0 \<Longrightarrow> list_at s (L(t := xs)) a = list_at s L a"
  by (cases a) (auto split: if_splits)

lemma list_inv_same:
  assumes "list_inv s (add_mset a A) L"
    and "en_next s' = en_next s" "en_tail s' = en_tail s" "en_chain s' = en_chain s" "en_ended s' = en_ended s"
    and "\<And>t. exits t a = (\<Sum>b \<in># opt_mset nxt. exits t b)" "\<And>b. nxt = Some b \<Longrightarrow> list_at s L a \<Longrightarrow> list_at s L b"
  shows "list_inv s' (opt_mset nxt + A) L"
proof -
  note i = list_invD [OF assms(1)]
  have at: "list_at s' L b" if "b \<in># opt_mset nxt + A" for b
    using that i(2) assms(7) list_at_cong [OF assms(2,3)] by (cases nxt) auto
  have "(\<Sum>b \<in># opt_mset nxt + A. exits t b) = (\<Sum>b \<in># add_mset a A. exits t b)" for t using assms(6) by simp
  then show ?thesis using i(1,3-5) at unfolding list_inv_def assms(2-5) by (auto simp del: sum_mset_0_iff)
qed

lemma advance_subscribe:
  assumes inv: "list_inv s (add_mset (Subscribe t l) A) L" "place_inv s (add_mset (Subscribe t l) A)" and free: "\<not> en_mutex s"
  shows "\<exists>s'. en_advance (Subscribe t l) s = Some (s', None) \<and> list_inv s' A (L(t := l # L t)) \<and> place_inv s' A"
proof -
  note i = list_invD [OF inv(1)] and p = place_invD [OF inv(2)]
  let ?s = "s\<lparr>en_next := (en_next s)(l := en_tail s t), en_chain := (en_chain s)(l \<mapsto> t), en_tail := (en_tail s)(t \<mapsto> l)\<rparr>"
  have t: "t \<notin> en_ended s" using p(1) [of t] by (auto simp: thread_at_def)
  have l: "l \<notin> en_freed s" "en_chain s l = None" using p(2) [of l] by (auto simp: place_at_def)
  then have absent: "l \<notin> set (L u)" for u using i(3) [of l u] by simp
  have place: "place_inv ?s A" unfolding place_inv_def
  proof (intro conjI allI)
    show "thread_at ?s A u" for u using p(1) [of u] by (auto simp: thread_at_def)
    show "place_at ?s A k" for k using p(2) [of k] by (auto simp: place_at_def simp del: sum_mset_0_iff)
  qed (use p(3) in simp)
  have at: "list_at ?s (L(t := l # L t)) a" if "a \<in># A" for a
  proof (rule list_at_free [OF inv(2) free])
    fix u assume "a = Exit_Lock u"
    then have u: "Exit_Lock u \<in># A" using that by simp
    then have "0 < (\<Sum>a \<in># A. exits u a)" by (auto simp: gr0_conv_Suc dest!: multi_member_split)
    then have "u \<in> en_ended s" using p(1) [of u] by (cases "u \<in> en_ended s") (auto simp: thread_at_def simp del: sum_mset_0_iff)
    then have "u \<noteq> t" using t by blast
    then show "links (en_next ?s) (en_tail ?s u) ((L(t := l # L t)) u)" using i(2) [of "Exit_Lock u"] u absent by simp
  qed (use that in simp)
  have "links (en_next ?s) (en_tail ?s u) ((L(t := l # L t)) u)" if "u \<notin> en_ended s" for u
    using i(1) [OF that] absent by (cases "u = t") simp_all
  then have "list_inv ?s A (L(t := l # L t))"
    unfolding list_inv_def using at i(3-5) absent l(2) t by (auto split: if_splits)
  then show ?thesis using place l(1) by simp
qed

lemma advance_exit_lock:
  assumes inv: "list_inv s (add_mset (Exit_Lock t) A) L" "place_inv s (add_mset (Exit_Lock t) A)" and free: "\<not> en_mutex s"
  shows "list_inv (s\<lparr>en_mutex := True\<rparr>) (add_mset (Exit_Loop t (en_tail s t)) A) L
    \<and> place_inv (s\<lparr>en_mutex := True\<rparr>) (add_mset (Exit_Loop t (en_tail s t)) A)"
  using list_inv_same [OF inv(1), of "s\<lparr>en_mutex := True\<rparr>" "Some (Exit_Loop t (en_tail s t))"] place_invD [OF inv(2)] free
  by (auto simp: place_inv_def place_defs)

lemma advance_loop_end:
  assumes inv: "list_inv s (add_mset (Exit_Loop t None) A) L" "place_inv s (add_mset (Exit_Loop t None) A)"
  shows "list_inv (s\<lparr>en_mutex := False\<rparr>) A L \<and> place_inv (s\<lparr>en_mutex := False\<rparr>) A"
proof -
  note i = list_invD [OF inv(1)] and p = place_invD [OF inv(2)]
  have "L t = []" using i(2) [of "Exit_Loop t None"] by (cases "L t") auto
  moreover have "list_at (s\<lparr>en_mutex := False\<rparr>) L a" if "a \<in># A" for a
    using i(2) [of a] that list_at_cong [of "s\<lparr>en_mutex := False\<rparr>" s L a] by simp
  moreover have "L u = []" if "u \<in> en_ended s" "(\<Sum>a \<in># A. exits u a) = 0" for u
    using i(5) [of u] that \<open>L t = []\<close> by (cases "u = t") (simp_all del: sum_mset_0_iff)
  ultimately have "list_inv (s\<lparr>en_mutex := False\<rparr>) A L" using i(1,3,4) unfolding list_inv_def by auto
  moreover have "place_inv (s\<lparr>en_mutex := False\<rparr>) A" unfolding place_inv_def
  proof (intro conjI allI)
    show "thread_at (s\<lparr>en_mutex := False\<rparr>) A u" for u using p(1) [of u] by (auto simp: thread_at_def)
    show "place_at (s\<lparr>en_mutex := False\<rparr>) A k" for k using p(2) [of k] by (simp add: place_at_def)
    show "(\<Sum>a \<in># A. in_section a) = of_bool (en_mutex (s\<lparr>en_mutex := False\<rparr>))"
      using p(3) by (cases "en_mutex s") (simp_all del: sum_mset_0_iff)
  qed
  ultimately show ?thesis ..
qed

lemma advance_loop:
  assumes inv: "list_inv s (add_mset (Exit_Loop t (Some l)) A) L" "place_inv s (add_mset (Exit_Loop t (Some l)) A)"
  shows "\<exists>s' L'. en_advance (Exit_Loop t (Some l)) s = Some (s', Some (Exit_Call t l))
    \<and> list_inv s' (add_mset (Exit_Call t l) A) L' \<and> place_inv s' (add_mset (Exit_Call t l) A)"
proof -
  note i = list_invD [OF inv(1)] and p = place_invD [OF inv(2)]
  let ?s = "s\<lparr>en_chain := (en_chain s)(l := None)\<rparr>"
  obtain ys where ys: "L t = l # ys" "links (en_next s) (en_next s l) ys"
    using i(2) [of "Exit_Loop t (Some l)"] links_head by fastforce
  have chain: "en_chain s l = Some t" using i(3) [of l t] ys(1) by simp
  then have "l \<notin> en_freed s" using p(2) [of l] by (auto simp: place_at_def)
  have t: "t \<in> en_ended s" "(\<Sum>a \<in># A. exits t a) = 0"
    using p(1) [of t] by (cases "t \<in> en_ended s", simp_all add: thread_at_def del: sum_mset_0_iff)+
  have none: "exits t a = 0" if "a \<in># A" for a using t(2) that by simp
  have at: "list_at ?s (L(t := ys)) a" if "a \<in># A" for a
    using i(2) [of a] that list_at_other [OF none [OF that], of ?s L ys] list_at_cong [of ?s s L a] by simp
  have "list_inv ?s (add_mset (Exit_Call t l) A) (L(t := ys))"
    unfolding list_inv_def
  proof (intro conjI allI impI ballI, goal_cases)
    case (1 u) then show ?case using i(1) [of u] t(1) by auto
  next
    case (2 a) then show ?case using at ys(2) by auto
  next
    case (3 u k) then show ?case using i(3) [of k u] i(4) [of t] ys(1) chain by (cases "k = l") auto
  next
    case (4 u) then show ?case using i(4) [of u] i(4) [of t] ys(1) by (auto split: if_splits)
  next
    case (5 u) then show ?case using i(5) [of u] by (auto split: if_splits)
  qed
  moreover have "place_inv ?s (add_mset (Exit_Call t l) A)" unfolding place_inv_def
  proof (intro conjI allI)
    show "thread_at ?s (add_mset (Exit_Call t l) A) u" for u using p(1) [of u] by (simp add: thread_at_def)
    show "place_at ?s (add_mset (Exit_Call t l) A) k" for k
      using p(2) [of k] chain by (auto simp: place_at_def simp del: sum_mset_0_iff)
  qed (use p(3) in simp)
  ultimately show ?thesis using \<open>l \<notin> en_freed s\<close> by auto
qed

lemma advance_call:
  assumes inv: "list_inv s (add_mset (Exit_Call t l) A) L" "place_inv s (add_mset (Exit_Call t l) A)"
  shows "\<exists>s'. en_advance (Exit_Call t l) s = Some (s', Some (Exit_Next t l))
    \<and> list_inv s' (add_mset (Exit_Next t l) A) L \<and> place_inv s' (add_mset (Exit_Next t l) A)"
proof -
  note p = place_invD [OF inv(2)]
  let ?s = "s\<lparr>en_inactive := (en_inactive s)(l := True)\<rparr>"
  have "l \<notin> en_freed s" using p(2) [of l] by (auto simp: place_at_def)
  moreover have "list_inv ?s (add_mset (Exit_Next t l) A) L" using list_inv_same [OF inv(1), of ?s "Some (Exit_Next t l)"] by simp
  moreover have "place_inv ?s (add_mset (Exit_Next t l) A)" unfolding place_inv_def
  proof (intro conjI allI)
    show "thread_at ?s (add_mset (Exit_Next t l) A) u" for u using p(1) [of u] by (simp add: thread_at_def)
    show "place_at ?s (add_mset (Exit_Next t l) A) k" for k using p(2) [of k] by (auto simp: place_at_def simp del: sum_mset_0_iff)
  qed (use p(3) in simp)
  ultimately show ?thesis by auto
qed

lemma advance_next:
  assumes inv: "list_inv s (add_mset (Exit_Next t l) A) L" "place_inv s (add_mset (Exit_Next t l) A)"
  shows "l \<notin> en_freed s \<and> list_inv s (add_mset (Exit_Loop t (en_next s l)) A) L \<and> place_inv s (add_mset (Exit_Loop t (en_next s l)) A)"
proof -
  note p = place_invD [OF inv(2)]
  have "l \<notin> en_freed s" using p(2) [of l] by (auto simp: place_at_def)
  moreover have "list_inv s (add_mset (Exit_Loop t (en_next s l)) A) L"
    using list_inv_same [OF inv(1), of s "Some (Exit_Loop t (en_next s l))"] by simp
  moreover have "place_inv s (add_mset (Exit_Loop t (en_next s l)) A)" unfolding place_inv_def
  proof (intro conjI allI)
    show "thread_at s (add_mset (Exit_Loop t (en_next s l)) A) u" for u using p(1) [of u] by (simp add: thread_at_def)
    show "place_at s (add_mset (Exit_Loop t (en_next s l)) A) k" for k using p(2) [of k] by (auto simp: place_at_def simp del: sum_mset_0_iff)
  qed (use p(3) in simp)
  ultimately show ?thesis by blast
qed

lemma advance_check:
  assumes inv: "list_inv s (add_mset (Check_Inactive l) A) L" "place_inv s (add_mset (Check_Inactive l) A)"
    and careful: "\<And>t. Exit_Next t l \<notin># A"
  shows "\<exists>b. en_advance (Check_Inactive l) s = Some (s, Some b) \<and> list_inv s (add_mset b A) L \<and> place_inv s (add_mset b A)"
proof -
  note p = place_invD [OF inv(2)]
  define b where "b = (if en_inactive s l then Free_Producer l else Unsubscribe l)"
  have "list_inv s (add_mset b A) L" using list_inv_same [OF inv(1), of s "Some b"] by (simp add: b_def)
  moreover have "place_inv s (add_mset b A)" unfolding place_inv_def
  proof (intro conjI allI)
    show "thread_at s (add_mset b A) u" for u using p(1) [of u] by (simp add: thread_at_def b_def)
    show "place_at s (add_mset b A) k" for k
      using p(2) [of k] passing_none [OF careful] by (auto simp: place_at_def b_def simp del: sum_mset_0_iff)
  qed (use p(3) in \<open>simp add: b_def\<close>)
  ultimately show ?thesis by (intro exI [of _ b]) (simp add: b_def)
qed

lemma unsubscribed_place:
  assumes inv: "place_inv s (add_mset (Unsubscribe l) A)" and free: "\<not> en_mutex s"
    and s': "en_chain s' = (en_chain s)(l := None)" "en_inactive s' = en_inactive s" "en_freed s' = en_freed s" "en_ended s' = en_ended s"
      "en_mutex s' = en_mutex s"
  shows "place_inv s' (add_mset (Free_Producer l) A)"
  unfolding place_inv_def
proof (intro conjI allI)
  note p = place_invD [OF inv]
  have section0: "(\<Sum>a \<in># A. in_section a) = 0" using p(3) free by (simp del: sum_mset_0_iff)
  have "(\<Sum>a \<in># A. subscribing l a) = 0" using p(2) [of l] by (simp add: place_at_def)
  then have out: "(\<Sum>a \<in># A. held l a) = 0" "(\<Sum>a \<in># A. passing l a) = 0"
    using held_sum [of l A] passing_sum [of l A] section0 by (simp_all del: sum_mset_0_iff)
  show "thread_at s' (add_mset (Free_Producer l) A) u" for u using p(1) [of u] by (simp add: thread_at_def s')
  show "place_at s' (add_mset (Free_Producer l) A) k" for k
    using p(2) [of k] out by (auto simp: place_at_def s' simp del: sum_mset_0_iff)
  show "(\<Sum>a \<in># add_mset (Free_Producer l) A. in_section a) = of_bool (en_mutex s')" using section0 free s'(5) by (simp del: sum_mset_0_iff)
qed

lemma advance_unsubscribe:
  assumes inv: "list_inv s (add_mset (Unsubscribe l) A) L" "place_inv s (add_mset (Unsubscribe l) A)" and free: "\<not> en_mutex s"
  shows "\<exists>s' L'. en_advance (Unsubscribe l) s = Some (s', Some (Free_Producer l))
    \<and> list_inv s' (add_mset (Free_Producer l) A) L' \<and> place_inv s' (add_mset (Free_Producer l) A)"
proof (cases "en_chain s l")
  case None
  have "(en_chain s)(l := None) = en_chain s" using None by (simp add: fun_upd_idem)
  then have "place_inv s (add_mset (Free_Producer l) A)" by (intro unsubscribed_place [OF inv(2) free]) simp_all
  moreover have "list_inv s (add_mset (Free_Producer l) A) L" using list_inv_same [OF inv(1), of s "Some (Free_Producer l)"] by simp
  ultimately show ?thesis using None by auto
next
  case (Some t)
  note i = list_invD [OF inv(1)] and p = place_invD [OF inv(2)]
  let ?s = "s\<lparr>en_chain := (en_chain s)(l := None)\<rparr>"
  have l: "l \<in> set (L t)" using i(3) Some by simp
  have "set (L t) \<inter> en_freed s = {}"
  proof (rule ccontr)
    assume "set (L t) \<inter> en_freed s \<noteq> {}"
    then obtain k where "k \<in> set (L t)" "k \<in> en_freed s" by blast
    then show False using p(2) [of k] i(3) [of k t] by (simp add: place_at_def)
  qed
  moreover have "links (en_next s) (en_tail s t) (L t)" by (rule list_when_free [OF inv free]) (use l in auto)
  ultimately obtain s' where s': "unlink t l None (en_tail s t) ?s = Some s'" "links (en_next s') (en_tail s' t) (remove1 l (L t))"
    "\<forall>u. u \<noteq> t \<longrightarrow> en_tail s' u = en_tail s u" "\<forall>q. q \<notin> set (L t) \<longrightarrow> en_next s' q = en_next s q"
    "en_mutex s' = en_mutex s" "en_chain s' = (en_chain s)(l := None)" "en_inactive s' = en_inactive s" "en_freed s' = en_freed s" "en_ended s' = en_ended s"
    using unlink_removes [of ?s t "[]" "L t" "en_tail s t" l None] l i(4) by auto
  let ?L = "L(t := remove1 l (L t))"
  have others: "links (en_next s') (en_tail s' u) (?L u)" if "links (en_next s) (en_tail s u) (L u)" for u
  proof (cases "u = t")
    case False
    have "x \<notin> set (L t)" if "x \<in> set (L u)" for x using i(3) [of x t] i(3) [of x u] that False by simp
    then have "links (en_next s') (en_tail s u) (L u) = links (en_next s) (en_tail s u) (L u)" using s'(4) by (intro links_cong) blast
    then show ?thesis using that s'(3) False by simp
  qed (use s'(2) in simp)
  have at: "list_at s' ?L a" if "a \<in># add_mset (Free_Producer l) A" for a
  proof (cases "a = Free_Producer l")
    case False
    then have a: "a \<in># add_mset (Unsubscribe l) A" using that by simp
    show ?thesis
    proof (rule list_at_free [OF inv(2) free a])
      show "links (en_next s') (en_tail s' u) (?L u)" if "a = Exit_Lock u" for u using others [of u] i(2) [OF a] that by simp
    qed
  qed simp
  have "list_inv s' (add_mset (Free_Producer l) A) ?L" unfolding list_inv_def
  proof (intro conjI allI impI ballI, goal_cases)
    case (1 u) then show ?case using others i(1) s'(9) by simp
  next
    case (2 a) then show ?case by (rule at)
  next
    case (3 u k) then show ?case using i(3) [of k u] i(4) [of t] Some s'(6) by (cases "k = l") (auto simp: in_set_remove1)
  next
    case (4 u) then show ?case using i(4) [of u] by (cases "u = t") (simp_all add: distinct_remove1)
  next
    case (5 u) then show ?case using i(5) [of u] s'(9) by (auto split: if_splits)
  qed
  moreover have "place_inv s' (add_mset (Free_Producer l) A)" by (rule unsubscribed_place [OF inv(2) free s'(6-9,5)])
  ultimately show ?thesis using Some s'(1) by auto
qed

lemma advance_free:
  assumes inv: "list_inv s (add_mset (Free_Producer l) A) L" "place_inv s (add_mset (Free_Producer l) A)"
  shows "list_inv (s\<lparr>en_freed := insert l (en_freed s)\<rparr>) A L \<and> place_inv (s\<lparr>en_freed := insert l (en_freed s)\<rparr>) A"
proof -
  note p = place_invD [OF inv(2)]
  have "list_inv (s\<lparr>en_freed := insert l (en_freed s)\<rparr>) A L"
    using list_inv_same [OF inv(1), of "s\<lparr>en_freed := insert l (en_freed s)\<rparr>" None] by simp
  moreover have "place_inv (s\<lparr>en_freed := insert l (en_freed s)\<rparr>) A" unfolding place_inv_def
  proof (intro conjI allI)
    show "thread_at (s\<lparr>en_freed := insert l (en_freed s)\<rparr>) A u" for u using p(1) [of u] by (simp add: thread_at_def)
    show "place_at (s\<lparr>en_freed := insert l (en_freed s)\<rparr>) A k" for k
      using p(2) [of k] by (auto simp: place_at_def simp del: sum_mset_0_iff)
  qed (use p(3) in simp)
  ultimately show ?thesis ..
qed

lemma en_advance_inv:
  assumes inv: "list_inv s (add_mset a A) L" "place_inv s (add_mset a A)"
    and free: "needs_mutex a \<Longrightarrow> \<not> en_mutex s" and careful: "\<And>t l. a = Check_Inactive l \<Longrightarrow> Exit_Next t l \<notin># A"
  shows "\<exists>s' nxt L'. en_advance a s = Some (s', nxt) \<and> list_inv s' (opt_mset nxt + A) L' \<and> place_inv s' (opt_mset nxt + A)"
proof (cases a)
  case (Subscribe t l)
  then obtain s' where "en_advance a s = Some (s', None)" "list_inv s' A (L(t := l # L t))" "place_inv s' A"
    using advance_subscribe inv free by fastforce
  then show ?thesis by (intro exI [of _ s'] exI [of _ None]) auto
next
  case (Exit_Lock t)
  then show ?thesis using advance_exit_lock inv free by fastforce
next
  case (Exit_Loop t p)
  then show ?thesis using advance_loop_end [of s t A L] advance_loop [of s t _ A L] inv by (cases p) (fastforce simp del: en_advance.simps simp: en_advance.simps(3))+
next
  case (Exit_Call t l)
  then show ?thesis using advance_call inv by fastforce
next
  case (Exit_Next t l)
  then show ?thesis using advance_next inv by fastforce
next
  case (Check_Inactive l)
  then show ?thesis using advance_check inv careful by fastforce
next
  case (Unsubscribe l)
  then show ?thesis using advance_unsubscribe inv free by fastforce
next
  case (Free_Producer l)
  then show ?thesis using advance_free inv by fastforce
qed

section \<open>Every reachable state\<close>

lemma exit_inv_begin:
  assumes inv: "list_inv s A L"
  shows "list_inv (s\<lparr>en_inactive := f\<rparr>) (add_mset (Subscribe t l) A) L"
    and "t \<notin> en_ended s \<Longrightarrow> list_inv (s\<lparr>en_ended := insert t (en_ended s)\<rparr>) (add_mset (Exit_Lock t) A) L"
    and "list_inv s (add_mset (Check_Inactive l) A) L"
proof -
  note i = list_invD [OF inv]
  have at: "list_at s' L a" if "a \<in># A" "en_next s' = en_next s" "en_tail s' = en_tail s" for s' a
    using i(2) [OF that(1)] list_at_cong [OF that(2,3)] by simp
  show "list_inv (s\<lparr>en_inactive := f\<rparr>) (add_mset (Subscribe t l) A) L"
    using i at unfolding list_inv_def by (auto simp del: sum_mset_0_iff)
  show "list_inv s (add_mset (Check_Inactive l) A) L" using i unfolding list_inv_def by (auto simp del: sum_mset_0_iff)
  assume t: "t \<notin> en_ended s"
  show "list_inv (s\<lparr>en_ended := insert t (en_ended s)\<rparr>) (add_mset (Exit_Lock t) A) L"
    using i at t unfolding list_inv_def by (auto simp del: sum_mset_0_iff)
qed

lemma en_step_inv:
  assumes "en_step True (s, A) (s', A')" "list_inv s A L" "place_inv s A"
  shows "\<exists>L'. list_inv s' A' L' \<and> place_inv s' A'"
  using assms(1)
proof cases
  case (acquire l t)
  then show ?thesis using exit_inv_begin(1) [OF assms(2)] place_inv_begin(1) [OF assms(3)] by blast
next
  case (thread_end t)
  then show ?thesis using exit_inv_begin(2) [OF assms(2)] place_inv_begin(2) [OF assms(3)] by blast
next
  case (destroy l)
  then show ?thesis using exit_inv_begin(3) [OF assms(2)] place_inv_begin(3) [OF assms(3)] by blast
next
  case (advance a B nxt)
  then show ?thesis using en_advance_inv [of s a B L] assms(2,3) by fastforce
qed

lemma en_reach_inv: "en_reach True s A \<Longrightarrow> \<exists>L. list_inv s A L \<and> place_inv s A"
proof (induction rule: en_reach.induct)
  case start
  have "list_inv exit_state_new {#} (\<lambda>_. [])" "place_inv exit_state_new {#}"
    by (simp_all add: list_inv_def place_inv_def place_defs exit_state_new_def)
  then show ?case by blast
next
  case (step s A s' A')
  then show ?case using en_step_inv by blast
qed

lemma en_reach_safe:
  assumes inv: "list_inv s A L" "place_inv s A" and a: "a \<in># A" "needs_mutex a \<Longrightarrow> \<not> en_mutex s"
  shows "en_advance a s \<noteq> None"
proof (cases "\<exists>l. a = Check_Inactive l")
  case False
  then show ?thesis using en_advance_inv [of s a "A - {#a#}" L] inv a by auto
qed auto

lemma en_reach_subscribed:
  assumes inv: "list_inv s A L" "place_inv s A" and chain: "en_chain s l = Some t"
  shows "\<not> en_inactive s l" "l \<notin> en_freed s" "t \<in> en_ended s \<Longrightarrow> 0 < (\<Sum>a \<in># A. exits t a)"
proof -
  show "\<not> en_inactive s l" "l \<notin> en_freed s" using place_invD(2) [OF inv(2), of l] chain by (auto simp: place_at_def)
  show "0 < (\<Sum>a \<in># A. exits t a)" if "t \<in> en_ended s"
    using list_invD(3,5) [OF inv(1)] chain that by (metis empty_iff gr0I list.set(1))
qed

text \<open>C34: The lists of listeners are safe in every run in which a producer is not destroyed while the loop of
  an ending thread still stands at its listener: no call on the notifiers or destructor of a producer
  that may go on reads a producer that has been freed; a producer in a list is in use and not
  freed, and its thread has not ended or is still going through its list, so every
  listener is called or unsubscribed before the end of a thread is over.\<close>
theorem exit_notifier_is_safe:
  assumes "en_reach True s A"
  shows "(a \<in># A \<and> (needs_mutex a \<longrightarrow> \<not> en_mutex s) \<longrightarrow> en_advance a s \<noteq> None)
    \<and> (en_chain s l = Some t \<longrightarrow> \<not> en_inactive s l \<and> l \<notin> en_freed s \<and> (t \<in> en_ended s \<longrightarrow> 0 < (\<Sum>a \<in># A. exits t a)))"
proof -
  obtain L where "list_inv s A L" "place_inv s A" using en_reach_inv [OF assms] by blast
  then show ?thesis using en_reach_safe en_reach_subscribed by blast
qed

text \<open>A thread that ends with one listener in its list.\<close>

definition one_listener :: exit_state where
  "one_listener = exit_state_new\<lparr>en_tail := [7 \<mapsto> 3], en_chain := [3 \<mapsto> 7], en_inactive := (\<lambda>_. True)(3 := False), en_ended := {7}\<rparr>"

lemma reach_advance:
  "en_reach careful s (add_mset a A) \<Longrightarrow> (needs_mutex a \<Longrightarrow> \<not> en_mutex s) \<Longrightarrow> (\<And>t l. careful \<Longrightarrow> a = Check_Inactive l \<Longrightarrow> Exit_Next t l \<notin># A)
    \<Longrightarrow> en_advance a s = Some (s', nxt) \<Longrightarrow> en_reach careful s' (opt_mset nxt + A)"
  by (erule en_reach.step) (rule en_step.advance)

lemma one_listener_reached: "en_reach careful one_listener {#Exit_Lock 7#}"
proof -
  let ?s1 = "exit_state_new\<lparr>en_inactive := (\<lambda>_. True)(3 := False)\<rparr>"
  let ?s2 = "?s1\<lparr>en_tail := [7 \<mapsto> 3], en_chain := [3 \<mapsto> 7]\<rparr>"
  have "en_step careful (exit_state_new, {#}) (?s1, {#Subscribe 7 3#})"
    using en_step.acquire [of exit_state_new 3 "{#}" 7 careful] by (simp add: exit_state_new_def)
  then have "en_reach careful ?s1 {#Subscribe 7 3#}" using en_reach.start en_reach.step by blast
  then have "en_reach careful ?s2 (opt_mset None + {#})"
    by (rule reach_advance) (simp_all add: exit_state_new_def fun_upd_idem)
  moreover have "en_step careful (?s2, {#}) (one_listener, {#Exit_Lock 7#})"
    using en_step.thread_end [of 7 ?s2 "{#}" careful] by (simp add: one_listener_def exit_state_new_def)
  ultimately show ?thesis using en_reach.step by auto
qed

theorem exit_notifier_is_safe_witness:
  "en_advance (Exit_Lock 7) one_listener \<noteq> None \<and> \<not> en_inactive one_listener 3 \<and> 3 \<notin> en_freed one_listener
    \<and> 0 < (\<Sum>a \<in># {#Exit_Lock 7#}. exits 7 a)"
  using exit_notifier_is_safe [OF one_listener_reached, of "Exit_Lock 7" 3 7] by (simp add: one_listener_def exit_state_new_def)

text \<open>
  Without that condition, the loop reads the listener of a producer that has been freed: after the call
  of the listener the producer is inactive, so that its destructor does not wait for the mutex.
\<close>

theorem exit_loop_reads_freed_producer:
  "\<exists>s A t l. en_reach False s (add_mset (Exit_Next t l) A) \<and> en_advance (Exit_Next t l) s = None"
proof -
  let ?s1 = "one_listener\<lparr>en_mutex := True\<rparr>"
  let ?s2 = "?s1\<lparr>en_chain := (en_chain one_listener)(3 := None)\<rparr>"
  let ?s3 = "?s2\<lparr>en_inactive := (en_inactive one_listener)(3 := True)\<rparr>"
  let ?s4 = "?s3\<lparr>en_freed := {3}\<rparr>"
  note run = one_listener_def exit_state_new_def
  have "en_reach False ?s1 (opt_mset (Some (Exit_Loop 7 (Some 3))) + {#})"
    by (rule reach_advance [OF one_listener_reached]) (simp_all add: run)
  then have "en_reach False ?s1 (add_mset (Exit_Loop 7 (Some 3)) {#})" by simp
  then have "en_reach False ?s2 (opt_mset (Some (Exit_Call 7 3)) + {#})" by (rule reach_advance) (simp_all add: run)
  then have "en_reach False ?s2 (add_mset (Exit_Call 7 3) {#})" by simp
  then have "en_reach False ?s3 (opt_mset (Some (Exit_Next 7 3)) + {#})" by (rule reach_advance) (simp_all add: run)
  then have r3: "en_reach False ?s3 {#Exit_Next 7 3#}" by simp
  have "en_step False (?s3, {#Exit_Next 7 3#}) (?s3, add_mset (Check_Inactive 3) {#Exit_Next 7 3#})"
    by (rule en_step.destroy) (simp_all add: run)
  with r3 have "en_reach False ?s3 (add_mset (Check_Inactive 3) {#Exit_Next 7 3#})" by (rule en_reach.step)
  then have "en_reach False ?s3 (opt_mset (Some (Free_Producer 3)) + {#Exit_Next 7 3#})" by (rule reach_advance) (simp_all add: run)
  then have "en_reach False ?s3 (add_mset (Free_Producer 3) {#Exit_Next 7 3#})" by (simp add: add_mset_commute)
  then have "en_reach False ?s4 (opt_mset None + {#Exit_Next 7 3#})" by (rule reach_advance) (simp_all add: run)
  then have "en_reach False ?s4 (add_mset (Exit_Next 7 3) {#})" by simp
  then show ?thesis by (intro exI [of _ ?s4] exI [of _ "{#}"] exI [of _ 7] exI [of _ 3]) simp
qed

end
