(* ===== verification/Producer_End.thy ===== *)
theory Producer_End
  imports Implicit_Producer
begin

unbundle bit_operations_syntax

text \<open>
  The end of an \<open>ImplicitProducer\<close> (\<open>moody_camel_queue/concurrentqueue.h\<close>, \<open>~ImplicitProducer\<close>): the
  destructor destroys the values nobody has dequeued and gives the blocks back. No call is in
  progress then. What \<open>Implicit_Producer\<close> does not need, this does: a block that is owned is in
  the index or on its way to the free list.
\<close>

section \<open>The destructor\<close>

definition opt_list :: "'a option \<Rightarrow> 'a list" where
  "opt_list x = (case x of None \<Rightarrow> [] | Some a \<Rightarrow> [a])"

lemma opt_list_simps [simp]: "opt_list None = []" "opt_list (Some a) = [a]"
  by (simp_all add: opt_list_def)

text \<open>\<open>add_block_to_free_list\<close>: the producer gives a block away.\<close>

definition give_back :: "nat option \<Rightarrow> 'v iprod \<Rightarrow> 'v iprod" where
  "give_back block s = (case block of None \<Rightarrow> s | Some b \<Rightarrow> s\<lparr>ip_owned := (ip_owned s)(b := None)\<rparr>)"

lemma unat_distance_less: "index \<noteq> tail \<Longrightarrow> unat (tail - (index + 1)) < unat (tail - index)" for tail index :: u64
proof -
  assume "index \<noteq> tail"
  then have "0 < unat (tail - index)" by (simp add: unat_gt_0)
  moreover have "unat (tail - index - 1) = unat (tail - index) - 1"
    using \<open>0 < unat (tail - index)\<close> by (simp add: unat_sub word_le_nat_alt)
  ultimately show ?thesis by (simp add: algebra_simps)
qed

text \<open>
  The loop: the values destroyed, the blocks given back, the block it ends in. No result when the
  index has no block for a position or the block no value there.
\<close>

function destroy_elements :: "u64 \<Rightarrow> u64 \<Rightarrow> nat option \<Rightarrow> 'v iprod \<Rightarrow> ('v list \<times> nat list \<times> nat option \<times> 'v iprod) option" where
  "destroy_elements tail index block s =
     (if index = tail then Some ([], [], block, s)
      else
        (let (freed, block', s1) =
           (if block_offset index = 0 \<or> block = None then (opt_list block, ip_entries s (block_base index), give_back block s)
            else ([], block, s)) in
         case block' of
           None \<Rightarrow> None
         | Some b \<Rightarrow>
             (case ib_elements (ip_blocks s1 b) (block_offset index) of
                None \<Rightarrow> None
              | Some v \<Rightarrow>
                  map_option (\<lambda>(vs, bs, final, s'). (v # vs, freed @ bs, final, s'))
                    (destroy_elements tail (index + 1) (Some b)
                      (set_block b (ib_elements_update (\<lambda>e. e(block_offset index := None))) s1)))))"
  by pat_completeness auto
termination
  by (relation "measure (\<lambda>(tail, index, _, _). unat (tail - index))") (auto simp: unat_distance_less)

declare destroy_elements.simps [simp del]

definition ImplicitProducer_dtor :: "'v iprod \<Rightarrow> ('v list \<times> nat list \<times> 'v iprod) option" where
  "ImplicitProducer_dtor s =
     (let tail = ip_tail_index s; index = ip_head_index s; force_free_last_block = index \<noteq> tail in
      case destroy_elements tail index None s of
        None \<Rightarrow> None
      | Some (vs, freed, _, s1) \<Rightarrow>
          if ip_tail_block s1 \<noteq> None \<and> (force_free_last_block \<or> tail AND (BLOCK_SIZE - 1) \<noteq> 0)
          then Some (vs, freed @ opt_list (ip_tail_block s1), give_back (ip_tail_block s1) s1)
          else Some (vs, freed, s1))"

section \<open>Where the owned blocks are\<close>

definition own_inv :: "'v iprod \<Rightarrow> 'v ip_act multiset \<Rightarrow> bool" where
  "own_inv s A \<longleftrightarrow>
     (\<forall>b base. ip_owned s b = Some base \<longrightarrow> block_base base = base \<and>
        (ip_entries s base = Some b \<and> unat base < unat (ip_tail_index s) + (\<Sum>a \<in># A. reserved a) \<and> block_done (ip_completed s) base < 32
         \<or> Deq_Unlink base b \<in># A \<or> Deq_Release base b \<in># A))
     \<and> ((\<Sum>a \<in># A. reserved a) = 0 \<longrightarrow> ip_tail_index s \<noteq> 0 \<longrightarrow> block_done (ip_completed s) (ip_tail_index s - 1) < 32 \<longrightarrow>
          ip_tail_block s = ip_entries s (block_base (ip_tail_index s - 1)))"

lemma own_invD:
  assumes "own_inv s A"
  shows "ip_owned s b = Some base \<Longrightarrow> block_base base = base"
    and "ip_owned s b = Some base \<Longrightarrow>
      ip_entries s base = Some b \<and> unat base < unat (ip_tail_index s) + (\<Sum>a \<in># A. reserved a) \<and> block_done (ip_completed s) base < 32
      \<or> Deq_Unlink base b \<in># A \<or> Deq_Release base b \<in># A"
    and "(\<Sum>a \<in># A. reserved a) = 0 \<Longrightarrow> ip_tail_index s \<noteq> 0 \<Longrightarrow> block_done (ip_completed s) (ip_tail_index s - 1) < 32 \<Longrightarrow>
      ip_tail_block s = ip_entries s (block_base (ip_tail_index s - 1))"
  using assms unfolding own_inv_def by blast+

lemma own_inv_frame:
  assumes inv: "own_inv s (add_mset a A)" and same: "ip_tail_index s' = ip_tail_index s" "ip_completed s' = ip_completed s"
    "ip_entries s' = ip_entries s" "ip_owned s' = ip_owned s" "ip_tail_block s' = ip_tail_block s"
    and a: "freeing a = {#}" "reserved a \<le> (\<Sum>b \<in># opt_mset nxt. reserved b)"
  shows "own_inv s' (opt_mset nxt + A)"
proof -
  have no: "Deq_Unlink base b \<in># add_mset a A \<Longrightarrow> Deq_Unlink base b \<in># A"
    "Deq_Release base b \<in># add_mset a A \<Longrightarrow> Deq_Release base b \<in># A" for base b using a(1) by auto
  note i = own_invD [OF inv]
  show ?thesis unfolding own_inv_def same
  proof (intro conjI allI impI)
    fix b base assume b: "ip_owned s b = Some base"
    show "block_base base = base" by (rule i(1) [OF b])
    from i(2) [OF b] show "ip_entries s base = Some b \<and> unat base < unat (ip_tail_index s) + (\<Sum>a \<in># opt_mset nxt + A. reserved a) \<and> block_done (ip_completed s) base < 32
         \<or> Deq_Unlink base b \<in># opt_mset nxt + A \<or> Deq_Release base b \<in># opt_mset nxt + A"
      using no a(2) by fastforce
  qed (use i(3) a(2) in \<open>simp del: sum_mset_0_iff\<close>)
qed

text \<open>A step of \<open>enqueue\<close> that takes a new block.\<close>

lemma own_inv_new_block:
  assumes inv: "ip_inv s (add_mset (Enq_Start v) A)" and own: "own_inv s (add_mset (Enq_Start v) A)"
    and tail: "ip_tail_index s AND (BLOCK_SIZE - 1) = 0" and b: "ip_owned s b = None"
  shows "own_inv ((set_block b f s)\<lparr>ip_entries := (ip_entries s)(ip_tail_index s := Some b), ip_tail_block := Some b,
      ip_owned := (ip_owned s)(b := Some (ip_tail_index s))\<rparr>) (add_mset (Enq_Write v) A)"
proof -
  have x: "index_inv s (add_mset (Enq_Start v) A)" and k: "block_inv s (add_mset (Enq_Start v) A)"
    and head: "unat (ip_head_index s) \<le> unat (ip_tail_index s)" using inv ip_inv_head by (auto simp: ip_inv_def)
  note i = own_invD [OF own] and none = no_reserved(1) [OF x]
  let ?t = "ip_tail_index s"
  have mod: "unat ?t mod 32 = 0" using tail tail_offset_zero by blast
  have "unat ?t \<notin> ip_completed s" using index_facts(1) [OF x] head by fastforce
  then have undone: "block_done (ip_completed s) ?t < 32" by (rule block_done_less)
  have other: "base \<noteq> ?t" if c: "ip_owned s c = Some base" for c base
  proof
    assume base: "base = ?t"
    have "Deq_Unlink base c \<notin># add_mset (Enq_Start v) A" "Deq_Release base c \<notin># add_mset (Enq_Start v) A"
      using block_invD(3) [OF k, of "Deq_Unlink base c"] block_invD(3) [OF k, of "Deq_Release base c"] undone base by auto
    then show False using i(2) [OF c] none base by simp
  qed
  have placed: "ip_entries s base = Some c \<and> unat base < unat ?t \<and> block_done (ip_completed s) base < 32
      \<or> Deq_Unlink base c \<in># A \<or> Deq_Release base c \<in># A" if "ip_owned s c = Some base" for c base
    using i(2) [OF that] none by simp
  show ?thesis unfolding own_inv_def
  proof (intro conjI allI impI, goal_cases)
    case (1 c base)
    then show ?case using i(1) [of c base] block_base_self [OF mod] by (auto split: if_splits)
  next
    case (2 c base)
    then show ?case using placed [of c base] other [of c base] undone none by (auto simp: set_block_def split: if_splits)
  qed simp
qed

lemma own_inv_publish:
  assumes inv: "ip_inv s (add_mset (Enq_Publish v) A)" and own: "own_inv s (add_mset (Enq_Publish v) A)"
    and bound: "unat (ip_tail_index s) < 2 ^ 63"
  shows "own_inv (s\<lparr>ip_tail_index := ip_tail_index s + 1, ip_enqueued := ip_enqueued s @ [v]\<rparr>) A"
proof -
  have x: "index_inv s (add_mset (Enq_Publish v) A)" and k: "block_inv s (add_mset (Enq_Publish v) A)" using inv by (simp_all add: ip_inv_def)
  have "ip_tail_block s = ip_entries s (block_base (ip_tail_index s))" using block_invD(3) [OF k, of "Enq_Publish v"] by auto
  then show ?thesis using own_invD(1,2) [OF own] no_reserved(1) [OF x] unat_Suc [OF bound]
    unfolding own_inv_def by (simp del: sum_mset_0_iff)
qed

lemma own_inv_empty:
  assumes inv: "ip_inv s (add_mset (Deq_Empty index b) A)" and own: "own_inv s (add_mset (Deq_Empty index b) A)"
    and step: "ip_advance blk (Deq_Empty index b) s = Some (s', nxt)"
  shows "own_inv s' (opt_mset nxt + A)"
proof -
  have x: "index_inv s (add_mset (Deq_Empty index b) A)" and k: "block_inv s (add_mset (Deq_Empty index b) A)"
    and head: "unat (ip_head_index s) \<le> unat (ip_tail_index s)" using inv ip_inv_head by (auto simp: ip_inv_def)
  note i = own_invD [OF own]
  let ?C = "ip_completed s" and ?prev = "ib_completely_dequeued (ip_blocks s b)"
  have index: "unat index < unat (ip_head_index s)" "unat index \<notin> ?C" using index_facts(2) [OF x, of "unat index"] by simp_all
  have entry: "ip_entries s (block_base index) = Some b" using block_invD(3) [OF k, of "Deq_Empty index b"] by simp
  have "live_block s index" by (rule block_inv_live [OF k x]) (use index head in simp_all)
  then have prev: "unat ?prev = block_done ?C index" using live_blockD entry by blast
  have s': "s' = (set_block b (ib_completely_dequeued_update (\<lambda>n. n + 1)) s)\<lparr>ip_completed := insert (unat index) ?C\<rparr>"
    and nxt: "nxt = (if ?prev = BLOCK_SIZE - 1 then Some (Deq_Unlink (block_base index) b) else None)"
    using step by (simp_all add: Let_def split: if_splits)
  have counted: "block_done (insert (unat index) ?C) base = (if block_base base = block_base index then block_done ?C base + 1 else block_done ?C base)" for base
    using block_done_insert [OF index_invD(1) [OF x] index(2), of base] by (simp add: block_base_eq_iff)
  have last: "?prev = BLOCK_SIZE - 1 \<longleftrightarrow> block_done ?C index = 31" unfolding prev [symmetric] by (simp add: BLOCK_SIZE_def word_unat_eq_iff)
  have same: "(\<Sum>a \<in># opt_mset nxt + A. reserved a) = (\<Sum>a \<in># A. reserved a)" by (simp add: nxt)
  show ?thesis unfolding own_inv_def same
  proof (intro conjI allI impI)
    fix c base assume c: "ip_owned s' c = Some base"
    then have owned: "ip_owned s c = Some base" by (simp add: s' set_block_def)
    show base: "block_base base = base" by (rule i(1) [OF owned])
    from i(2) [OF owned] consider "ip_entries s base = Some c" "unat base < unat (ip_tail_index s) + (\<Sum>a \<in># A. reserved a)" "block_done ?C base < 32"
      | "Deq_Unlink base c \<in># A \<or> Deq_Release base c \<in># A" by auto
    then show "ip_entries s' base = Some c \<and> unat base < unat (ip_tail_index s') + (\<Sum>a \<in># A. reserved a) \<and> block_done (ip_completed s') base < 32
         \<or> Deq_Unlink base c \<in># opt_mset nxt + A \<or> Deq_Release base c \<in># opt_mset nxt + A"
    proof cases
      case 1
      show ?thesis
      proof (cases "base = block_base index \<and> block_done ?C index = 31")
        case True
        then show ?thesis using 1(1) entry nxt last by simp
      next
        case False
        have "block_done ?C base = block_done ?C index" if "base = block_base index"
          using block_done_cong [of base index ?C] base that by simp
        then show ?thesis using 1 False counted [of base] base by (auto simp: s' set_block_def)
      qed
    qed auto
  next
    assume t: "(\<Sum>a \<in># A. reserved a) = 0" "ip_tail_index s' \<noteq> 0" "block_done (ip_completed s') (ip_tail_index s' - 1) < 32"
    then have "block_done ?C (ip_tail_index s - 1) < 32" using counted [of "ip_tail_index s - 1"] by (auto simp: s' set_block_def split: if_splits)
    then show "ip_tail_block s' = ip_entries s' (block_base (ip_tail_index s' - 1))" using i(3) t by (simp add: s' set_block_def)
  qed
qed

lemma own_inv_unlink:
  assumes inv: "ip_inv s (add_mset (Deq_Unlink base b) A)" and own: "own_inv s (add_mset (Deq_Unlink base b) A)"
  shows "own_inv (s\<lparr>ip_entries := (ip_entries s)(base := None)\<rparr>) (add_mset (Deq_Release base b) A)"
proof -
  have k: "block_inv s (add_mset (Deq_Unlink base b) A)" using inv by (simp add: ip_inv_def)
  note i = own_invD [OF own]
  have full: "block_base base = base" "block_done (ip_completed s) base = 32" using block_invD(3) [OF k, of "Deq_Unlink base b"] by simp_all
  have other: "block_base w \<noteq> base" if "block_done (ip_completed s) w < 32" for w
    using block_done_cong [of w base "ip_completed s"] full that by auto
  have same: "(\<Sum>a \<in># add_mset (Deq_Release base b) A. reserved a) = (\<Sum>a \<in># add_mset (Deq_Unlink base b) A. reserved a)" by simp
  show ?thesis unfolding own_inv_def same
  proof (intro conjI allI impI, goal_cases)
    case (1 c base')
    then show ?case using i(1) [of c base'] by simp
  next
    case (2 c base')
    then show ?case using i(1,2) [of c base'] other [of base'] by auto
  next
    case 3
    then show ?case using i(3) other [of "ip_tail_index s - 1"] by (simp del: sum_mset_0_iff)
  qed
qed

lemma own_inv_release:
  assumes inv: "ip_inv s (add_mset (Deq_Release base b) A)" and own: "own_inv s (add_mset (Deq_Release base b) A)"
  shows "own_inv (s\<lparr>ip_owned := (ip_owned s)(b := None)\<rparr>) A"
  using own_invD [OF own] unfolding own_inv_def by (auto split: if_splits)

lemma own_inv_step:
  assumes inv: "ip_inv s (add_mset a A)" and own: "own_inv s (add_mset a A)" and bound: "unat (ip_tail_index s) < 2 ^ 63"
    and blk: "case blk of Some b \<Rightarrow> ip_owned s b = None | None \<Rightarrow> True" and step: "ip_advance blk a s = Some (s', nxt)"
  shows "own_inv s' (opt_mset nxt + A)"
proof -
  have rest: ?thesis if "freeing a = {#}" "reserved a = 0 \<and> \<not> is_enqueue a \<or> (\<exists>v. a = Enq_Write v)" "\<And>i b. a \<noteq> Deq_Empty i b"
  proof (rule own_inv_frame [OF own])
    show "reserved a \<le> (\<Sum>b \<in># opt_mset nxt. reserved b)" using that step by (cases a) (auto split: option.splits)
  qed (use that step in \<open>cases a; auto simp: set_block_def split: option.splits if_splits\<close>)+
  show ?thesis
  proof (cases a)
    case (Enq_Start v)
    show ?thesis
    proof (cases "nxt = Some (Enq_Write v) \<and> s' \<noteq> s")
      case True
      then obtain b where "blk = Some b" "ip_tail_index s AND (BLOCK_SIZE - 1) = 0"
        "s' = (set_block b (ib_completely_dequeued_update (\<lambda>_. 0)) s)\<lparr>ip_entries := (ip_entries s)(ip_tail_index s := Some b),
           ip_tail_block := Some b, ip_owned := (ip_owned s)(b := Some (ip_tail_index s))\<rparr>"
        using step Enq_Start by (auto split: if_splits option.splits)
      then show ?thesis using own_inv_new_block [of s v A b] inv own blk Enq_Start True by simp
    next
      case False
      then have "s' = s" using step Enq_Start by (auto split: if_splits option.splits)
      then show ?thesis by (intro own_inv_frame [OF own]) (simp_all add: Enq_Start)
    qed
  next
    case (Enq_Publish v)
    then show ?thesis using own_inv_publish [of s v A] inv own bound step by auto
  next
    case (Deq_Empty index b)
    then show ?thesis using own_inv_empty [of s index b A] inv own step by simp
  next
    case (Deq_Unlink base b)
    then show ?thesis using own_inv_unlink [of s base b A] inv own step by auto
  next
    case (Deq_Release base b)
    then show ?thesis using own_inv_release [of s base b A] inv own step by auto
  qed (use rest in simp_all)
qed

lemma own_inv_begin: "own_inv s A \<Longrightarrow> reserved a = 0 \<Longrightarrow> own_inv s (add_mset a A)"
  unfolding own_inv_def by auto

lemma ip_reach_own: "ip_reach n s A \<Longrightarrow> n < 2 ^ 63 \<Longrightarrow> own_inv s A"
proof (induction rule: ip_reach.induct)
  case (start blocks)
  then show ?case by (simp add: own_inv_def ImplicitProducer_new_def)
next
  case (step n s A s' A')
  then have own: "own_inv s A" and inv: "ip_inv s A" "unat (ip_tail_index s) < 2 ^ 63" using ip_reach_inv [OF step.hyps(1)] by auto
  from step.hyps(2) show ?case
  proof cases
    case (advance blk a nxt A0)
    then show ?thesis using own_inv_step [of s a A0 blk s' nxt] own inv by auto
  next
    case (other b any)
    then show ?thesis using own by (simp add: own_inv_def)
  qed (use own in \<open>auto intro!: own_inv_begin\<close>)
qed

section \<open>The loop\<close>

text \<open>The positions from \<open>i\<close> to \<open>t\<close> have their values, in blocks of their own.\<close>

definition values_ok :: "'v iprod \<Rightarrow> nat \<Rightarrow> nat \<Rightarrow> 'v list \<Rightarrow> bool" where
  "values_ok s i t xs \<longleftrightarrow>
     (\<forall>w. i \<le> unat w \<and> unat w < t \<longrightarrow>
        (\<exists>b. ip_entries s (block_base w) = Some b \<and> ib_elements (ip_blocks s b) (block_offset w) = Some (xs ! unat w)))
     \<and> (\<forall>v w b. i \<le> unat v \<and> unat v < t \<and> i \<le> unat w \<and> unat w < t
          \<and> ip_entries s (block_base v) = Some b \<and> ip_entries s (block_base w) = Some b \<longrightarrow> block_base v = block_base w)"

definition blocks_from :: "'v iprod \<Rightarrow> nat \<Rightarrow> nat \<Rightarrow> nat set" where
  "blocks_from s i t = {b. \<exists>w. i \<le> unat w \<and> unat w < t \<and> ip_entries s (block_base w) = Some b}"

lemma values_okD:
  assumes "values_ok s i t xs"
  shows "i \<le> unat w \<Longrightarrow> unat w < t \<Longrightarrow>
      \<exists>b. ip_entries s (block_base w) = Some b \<and> ib_elements (ip_blocks s b) (block_offset w) = Some (xs ! unat w)"
    and "i \<le> unat v \<Longrightarrow> unat v < t \<Longrightarrow> i \<le> unat w \<Longrightarrow> unat w < t \<Longrightarrow>
      ip_entries s (block_base v) = Some b \<Longrightarrow> ip_entries s (block_base w) = Some b \<Longrightarrow> block_base v = block_base w"
  using assms unfolding values_ok_def by blast+

lemma values_ok_next:
  assumes ok: "values_ok s (unat index) t xs" and index: "unat index < t" "ip_entries s (block_base index) = Some b"
  shows "values_ok (set_block b (ib_elements_update (\<lambda>e. e(block_offset index := None))) s) (Suc (unat index)) t xs"
proof -
  let ?s = "set_block b (ib_elements_update (\<lambda>e. e(block_offset index := None))) s"
  have entries: "ip_entries ?s = ip_entries s" by (simp add: set_block_def)
  have apart: "c \<noteq> b \<or> block_offset w \<noteq> block_offset index"
    if w: "Suc (unat index) \<le> unat w" "unat w < t" "ip_entries s (block_base w) = Some c" for w c
  proof (rule ccontr)
    assume "\<not> (c \<noteq> b \<or> block_offset w \<noteq> block_offset index)"
    moreover from this have "block_base w = block_base index" using values_okD(2) [OF ok, of w index b] index w by simp
    ultimately have "w = index" using same_position by blast
    then show False using w(1) by simp
  qed
  show ?thesis unfolding values_ok_def entries
  proof (intro conjI allI impI)
    fix w :: u64 assume w: "Suc (unat index) \<le> unat w \<and> unat w < t"
    then obtain c where c: "ip_entries s (block_base w) = Some c" "ib_elements (ip_blocks s c) (block_offset w) = Some (xs ! unat w)"
      using values_okD(1) [OF ok, of w] by auto
    moreover have "ib_elements (ip_blocks ?s c) (block_offset w) = ib_elements (ip_blocks s c) (block_offset w)"
      using apart [of w c] w c(1) by (auto simp: set_block_def)
    ultimately show "\<exists>c. ip_entries s (block_base w) = Some c \<and> ib_elements (ip_blocks ?s c) (block_offset w) = Some (xs ! unat w)" by auto
  next
    fix v w :: u64 and c assume "Suc (unat index) \<le> unat v \<and> unat v < t \<and> Suc (unat index) \<le> unat w \<and> unat w < t
      \<and> ip_entries s (block_base v) = Some c \<and> ip_entries s (block_base w) = Some c"
    then show "block_base v = block_base w" using values_okD(2) [OF ok, of v w c] by simp
  qed
qed

lemma blocks_from_step:
  assumes "unat index < t" "ip_entries s (block_base index) = Some b"
  shows "blocks_from s (unat index) t = insert b (blocks_from s (Suc (unat index)) t)"
proof -
  have "unat index \<le> unat w \<longleftrightarrow> w = index \<or> Suc (unat index) \<le> unat w" for w
    by (auto simp: word_unat_eq_iff Suc_le_eq le_less)
  then show ?thesis using assms unfolding blocks_from_def by auto
qed

lemma next_block:
  assumes ok: "values_ok s (unat index) t xs" and index: "unat index < t" "ip_entries s (block_base index) = Some b"
    and nxt: "unat (index + 1) = Suc (unat index)"
  shows "block_offset (index + 1) \<noteq> 0 \<Longrightarrow> ip_entries s (block_base (index + 1)) = Some b"
    and "block_offset (index + 1) = 0 \<Longrightarrow> b \<notin> blocks_from s (Suc (unat index)) t"
proof -
  assume "block_offset (index + 1) \<noteq> 0"
  then have "block_base (index + 1) = block_base index" using nxt by (simp add: block_offset_mod block_base_eq_iff div_Suc)
  then show "ip_entries s (block_base (index + 1)) = Some b" using index by simp
next
  assume zero: "block_offset (index + 1) = 0"
  show "b \<notin> blocks_from s (Suc (unat index)) t"
  proof
    assume "b \<in> blocks_from s (Suc (unat index)) t"
    then obtain w where w: "Suc (unat index) \<le> unat w" "unat w < t" "ip_entries s (block_base w) = Some b" by (auto simp: blocks_from_def)
    then have "unat w div 32 = unat index div 32" using values_okD(2) [OF ok, of w index b] index by (simp add: block_base_eq_iff)
    moreover have "Suc (unat index) div 32 = Suc (unat index div 32)" using zero nxt by (simp add: block_offset_mod div_Suc)
    ultimately show False using div_le_mono [OF w(1), of 32] by simp
  qed
qed

lemma destroy_from_block:
  fixes s :: "'v iprod"
  assumes "values_ok s (unat index) (unat tail) xs" "unat index \<le> unat tail"
    and "index \<noteq> tail \<Longrightarrow> block_offset index \<noteq> 0 \<Longrightarrow> ip_entries s (block_base index) = Some b"
    and "index \<noteq> tail \<Longrightarrow> block_offset index = 0 \<Longrightarrow> b \<notin> blocks_from s (unat index) (unat tail)"
  shows "\<exists>fs f s'. destroy_elements tail index (Some b) s = Some (map ((!) xs) [unat index..<unat tail], fs, Some f, s')
    \<and> distinct (fs @ [f]) \<and> set (fs @ [f]) = insert b (blocks_from s (unat index) (unat tail))
    \<and> (if index = tail then f = b else ip_entries s (block_base (tail - 1)) = Some f)
    \<and> ip_owned s' = (\<lambda>c. if c \<in> set fs then None else ip_owned s c) \<and> ip_tail_block s' = ip_tail_block s
    \<and> (\<forall>c. c \<notin> blocks_from s (unat index) (unat tail) \<longrightarrow> ip_blocks s' c = ip_blocks s c)"
  using assms
proof (induction "unat tail - unat index" arbitrary: index b s)
  case 0
  then have "index = tail" by (simp add: word_unat_eq_iff)
  then show ?case
    by (intro exI [of _ "[]"] exI [of _ b] exI [of _ s]) (auto simp: destroy_elements.simps [of tail tail] blocks_from_def)
next
  case (Suc k)
  have ne: "index \<noteq> tail" and less: "unat index < unat tail" using Suc.hyps(2) by auto
  have nxt: "unat (index + 1) = Suc (unat index)" using less unsigned_less [of tail, where ?'a = nat] by (simp add: unat_word_ariths)
  obtain b1 where b1: "ip_entries s (block_base index) = Some b1" "ib_elements (ip_blocks s b1) (block_offset index) = Some (xs ! unat index)"
    using values_okD(1) [OF Suc.prems(1), of index] less by auto
  define freed s1 where "freed = (if block_offset index = 0 then [b] else [])" and "s1 = (if block_offset index = 0 then give_back (Some b) s else s)"
  define s2 where "s2 = set_block b1 (ib_elements_update (\<lambda>e. e(block_offset index := None))) s1"
  have s1: "ip_entries s1 = ip_entries s" "ip_blocks s1 = ip_blocks s" "ip_tail_block s1 = ip_tail_block s"
    "ip_owned s1 = (\<lambda>c. if c \<in> set freed then None else ip_owned s c)"
    by (auto simp: s1_def freed_def give_back_def)
  have s2: "ip_entries s2 = ip_entries s" "ip_tail_block s2 = ip_tail_block s" "ip_owned s2 = ip_owned s1" using s1 by (simp_all add: s2_def set_block_def)
  have from2: "blocks_from s2 i t = blocks_from s i t" for i t by (simp add: blocks_from_def s2)
  have "values_ok s1 (unat index) (unat tail) xs" using Suc.prems(1) by (simp add: values_ok_def s1)
  then have ok2: "values_ok s2 (unat (index + 1)) (unat tail) xs"
    using values_ok_next [of s1 index "unat tail" xs b1] less b1(1) by (simp add: s1 s2_def nxt)
  note nb = next_block [OF Suc.prems(1) less b1(1) nxt]
  obtain fs f s' where r: "destroy_elements tail (index + 1) (Some b1) s2 = Some (map ((!) xs) [unat (index + 1)..<unat tail], fs, Some f, s')"
    "distinct (fs @ [f])" "set (fs @ [f]) = insert b1 (blocks_from s2 (unat (index + 1)) (unat tail))"
    "if index + 1 = tail then f = b1 else ip_entries s2 (block_base (tail - 1)) = Some f"
    "ip_owned s' = (\<lambda>c. if c \<in> set fs then None else ip_owned s2 c)" "ip_tail_block s' = ip_tail_block s2"
    "\<forall>c. c \<notin> blocks_from s2 (unat (index + 1)) (unat tail) \<longrightarrow> ip_blocks s' c = ip_blocks s2 c"
    using Suc.hyps(1) [of "index + 1" s2 b1] Suc.hyps(2) ok2 nb less nxt by (fastforce simp: s2 from2)
  have here: "(if block_offset index = 0 then ip_entries s (block_base index) else Some b) = Some b1" using b1(1) Suc.prems(3) ne by auto
  have "destroy_elements tail index (Some b) s =
      map_option (\<lambda>(vs, bs, final, s'). (xs ! unat index # vs, freed @ bs, final, s')) (destroy_elements tail (index + 1) (Some b1) s2)"
    using here b1 ne by (subst destroy_elements.simps) (simp add: s2_def s1_def freed_def give_back_def split: if_splits)
  also have "\<dots> = Some (map ((!) xs) [unat index..<unat tail], freed @ fs, Some f, s')"
    using r(1) less by (simp add: nxt upt_conv_Cons)
  finally have run: "destroy_elements tail index (Some b) s = Some (map ((!) xs) [unat index..<unat tail], freed @ fs, Some f, s')" .
  have set: "set (fs @ [f]) = blocks_from s (unat index) (unat tail)"
    unfolding r(3) from2 nxt blocks_from_step [OF less b1(1)] ..
  have "b \<notin> set (fs @ [f])" if "block_offset index = 0" using Suc.prems(4) ne that unfolding set by blast
  then have "distinct ((freed @ fs) @ [f])" using r(2) by (auto simp: freed_def)
  moreover have "set ((freed @ fs) @ [f]) = insert b (blocks_from s (unat index) (unat tail))"
    using set here b1(1) by (auto simp: freed_def blocks_from_step [OF less b1(1)] split: if_splits)
  moreover have "ip_entries s (block_base (tail - 1)) = Some f"
  proof (cases "index + 1 = tail")
    case True
    then have "tail - 1 = index" by auto
    then show ?thesis using r(4) True b1(1) by simp
  qed (use r(4) s2 in simp)
  moreover have "ip_owned s' = (\<lambda>c. if c \<in> set (freed @ fs) then None else ip_owned s c)" unfolding r(5) s2(3) s1(4) by auto
  moreover have "ip_blocks s' c = ip_blocks s c" if "c \<notin> blocks_from s (unat index) (unat tail)" for c
    using that r(7) s1(2) unfolding from2 nxt blocks_from_step [OF less b1(1)] by (simp add: s2_def set_block_def)
  ultimately show ?case using run r(6) s2(2) ne by (intro exI [of _ "freed @ fs"] exI [of _ f] exI [of _ s']) simp
qed

section \<open>The destructor\<close>

lemma quiet_completed: "index_inv s {#} \<Longrightarrow> ip_completed s = {..<unat (ip_head_index s)}"
  using index_invD(1,2) [of s "{#}"] by (metis add.right_neutral finite_lessThan finite_set_mset_mset_set image_mset_empty sum_mset.empty)

lemma quiet_values:
  assumes "ip_inv s {#}"
  shows "values_ok s (unat (ip_head_index s)) (unat (ip_tail_index s)) (ip_enqueued s)"
proof -
  have x: "index_inv s {#}" and k: "block_inv s {#}" using assms by (simp_all add: ip_inv_def)
  have live: "live_block s w" if "unat (ip_head_index s) \<le> unat w" "unat w < unat (ip_tail_index s)" for w
    by (rule block_inv_live [OF k x]) (use that quiet_completed [OF x] in simp_all)
  show ?thesis unfolding values_ok_def
  proof (intro conjI allI impI)
    fix w :: u64 assume w: "unat (ip_head_index s) \<le> unat w \<and> unat w < unat (ip_tail_index s)"
    then have "unat w \<notin> fst ` set (ip_taken s)" using index_facts(4) [OF x, of "unat w"] by auto
    then show "\<exists>b. ip_entries s (block_base w) = Some b \<and> ib_elements (ip_blocks s b) (block_offset w) = Some (ip_enqueued s ! unat w)"
      using block_invD(2) [OF k] w by blast
  next
    fix v w :: u64 and b assume vw: "unat (ip_head_index s) \<le> unat v \<and> unat v < unat (ip_tail_index s) \<and> unat (ip_head_index s) \<le> unat w
      \<and> unat w < unat (ip_tail_index s) \<and> ip_entries s (block_base v) = Some b \<and> ip_entries s (block_base w) = Some b"
    then have "ip_owned s b = Some (block_base v)" "ip_owned s b = Some (block_base w)" using live live_blockD by blast+
    then show "block_base v = block_base w" by simp
  qed
qed

text \<open>With no call in progress the blocks owned are those with values, and a tail block with room.\<close>

definition tail_room :: "'v iprod \<Rightarrow> nat set" where
  "tail_room s = (if ip_head_index s = ip_tail_index s \<and> ip_tail_index s AND (BLOCK_SIZE - 1) \<noteq> 0 then set (opt_list (ip_tail_block s)) else {})"

lemma pred_same_block:
  fixes t :: u64
  assumes "unat t mod 32 \<noteq> 0"
  shows "unat (t - 1) = unat t - 1" "block_base (t - 1) = block_base t"
proof -
  have "0 < unat t" using assms by (cases "unat t") auto
  then show "unat (t - 1) = unat t - 1" by (simp add: unat_sub word_le_nat_alt)
  then show "block_base (t - 1) = block_base t" using div_pred_32 [OF assms] by (simp add: block_base_eq_iff)
qed

lemma quiet_owned:
  assumes inv: "ip_inv s {#}" and own: "own_inv s {#}"
  shows "dom (ip_owned s) = blocks_from s (unat (ip_head_index s)) (unat (ip_tail_index s)) \<union> tail_room s"
proof (intro set_eqI iffI)
  have x: "index_inv s {#}" and k: "block_inv s {#}" and head: "unat (ip_head_index s) \<le> unat (ip_tail_index s)"
    using inv ip_inv_head by (auto simp: ip_inv_def)
  note C = quiet_completed [OF x]
  let ?H = "unat (ip_head_index s)" and ?T = "unat (ip_tail_index s)"
  fix b
  {
    assume "b \<in> dom (ip_owned s)"
    then obtain base where "ip_owned s b = Some base" by blast
    then have base: "block_base base = base" "ip_entries s base = Some b" "unat base < ?T" "block_done (ip_completed s) base < 32"
      using own_invD(1,2) [OF own] by auto
    have mod: "unat base mod 32 = 0" using base(1) block_base_div [of base] mod_less_eq_dividend [of "unat base" 32] by simp
    have "?H < unat base + 32"
    proof (rule ccontr)
      assume "\<not> ?thesis"
      then have "{i \<in> ip_completed s. i div 32 = unat base div 32} = {32 * (unat base div 32)..<32 * (unat base div 32) + 32}"
        using mod unfolding C block_positions [symmetric] by auto
      then show False using base(4) by (simp add: block_done_def)
    qed
    show "b \<in> blocks_from s ?H ?T \<union> tail_room s"
    proof (cases "max ?H (unat base) < ?T")
      case True
      define w where "w = (if ?H \<le> unat base then base else ip_head_index s)"
      have "unat w div 32 = unat base div 32" using mod \<open>?H < unat base + 32\<close> by (auto simp: w_def)
      then have "block_base w = base" using base(1) block_base_eq_iff [of w base] by simp
      then have "b \<in> blocks_from s ?H ?T" using True base(2) unfolding blocks_from_def by (auto simp: w_def intro!: exI [of _ w])
      then show ?thesis by simp
    next
      case False
      then have eq: "ip_head_index s = ip_tail_index s" "?H = ?T" using base(3) head by (auto simp: word_unat_eq_iff)
      obtain q where q: "unat base = 32 * q" using mod by (auto elim: dvdE simp: mod_eq_0_iff_dvd)
      have "32 * q < ?T" "?T < 32 * q + 32" using q base(3) \<open>?H < unat base + 32\<close> eq(2) by simp_all
      then have "?T mod 32 \<noteq> 0" "?T div 32 = unat base div 32" unfolding q by (presburger, intro div_nat_eqI) simp_all
      moreover from this(2) have "block_base (ip_tail_index s) = base" using base(1) block_base_eq_iff [of "ip_tail_index s" base] by simp
      ultimately show ?thesis using block_invD(4) [OF k] base(2) eq tail_offset_zero [of "ip_tail_index s"] by (simp add: tail_room_def)
    qed
  }
  {
    assume "b \<in> blocks_from s ?H ?T \<union> tail_room s"
    moreover have "b \<in> dom (ip_owned s)" if b: "b \<in> blocks_from s ?H ?T"
    proof -
      obtain w where w: "?H \<le> unat w" "unat w < ?T" "ip_entries s (block_base w) = Some b" using b by (auto simp: blocks_from_def)
      have "live_block s w" by (rule block_inv_live [OF k x]) (use w C in simp_all)
      then show ?thesis using live_blockD w(3) by blast
    qed
    moreover have "b \<in> dom (ip_owned s)" if b: "b \<in> tail_room s"
    proof -
      let ?t = "ip_tail_index s"
      have t: "ip_head_index s = ?t" "?T mod 32 \<noteq> 0" "ip_tail_block s = Some b"
        using b tail_offset_zero [of ?t] by (auto simp: tail_room_def opt_list_def split: if_splits option.splits)
      note p = pred_same_block [OF t(2)]
      have "block_done (ip_completed s) (?t - 1) < 32"
        using block_done_less [of ?t "ip_completed s"] block_done_cong [OF p(2)] C t(1) by simp
      then have "live_block s (?t - 1)" using block_invD(1) [OF k, of "?t - 1"] p(1) t(2) by (cases ?T) auto
      then show ?thesis using live_blockD [of s "?t - 1" b] block_invD(4) [OF k] t p(2) by auto
    qed
    ultimately show "b \<in> dom (ip_owned s)" by blast
  }
qed

text \<open>The loop from the head, when something is left.\<close>

lemma destroy_from_head:
  fixes s :: "'v iprod"
  assumes ok: "values_ok s (unat index) (unat tail) xs" and less: "unat index < unat tail"
  shows "\<exists>fs f s'. destroy_elements tail index None s = Some (map ((!) xs) [unat index..<unat tail], fs, Some f, s')
    \<and> distinct (fs @ [f]) \<and> set (fs @ [f]) = blocks_from s (unat index) (unat tail)
    \<and> ip_entries s (block_base (tail - 1)) = Some f
    \<and> ip_owned s' = (\<lambda>c. if c \<in> set fs then None else ip_owned s c) \<and> ip_tail_block s' = ip_tail_block s
    \<and> (\<forall>c. c \<notin> blocks_from s (unat index) (unat tail) \<longrightarrow> ip_blocks s' c = ip_blocks s c)"
proof -
  obtain b where b: "ip_entries s (block_base index) = Some b" "ib_elements (ip_blocks s b) (block_offset index) = Some (xs ! unat index)"
    using values_okD(1) [OF ok, of index] less by auto
  define s2 where "s2 = set_block b (ib_elements_update (\<lambda>e. e(block_offset index := None))) s"
  have s2: "ip_entries s2 = ip_entries s" "ip_tail_block s2 = ip_tail_block s" "ip_owned s2 = ip_owned s" by (simp_all add: s2_def set_block_def)
  have from2: "blocks_from s2 i t = blocks_from s i t" for i t by (simp add: blocks_from_def s2)
  have nxt: "unat (index + 1) = Suc (unat index)" using less unsigned_less [of tail, where ?'a = nat] by (simp add: unat_word_ariths)
  have ok2: "values_ok s2 (unat (index + 1)) (unat tail) xs" using values_ok_next [OF ok less b(1)] by (simp add: s2_def nxt)
  note nb = next_block [OF ok less b(1) nxt]
  obtain fs f s' where r: "destroy_elements tail (index + 1) (Some b) s2 = Some (map ((!) xs) [unat (index + 1)..<unat tail], fs, Some f, s')"
    "distinct (fs @ [f])" "set (fs @ [f]) = insert b (blocks_from s2 (unat (index + 1)) (unat tail))"
    "if index + 1 = tail then f = b else ip_entries s2 (block_base (tail - 1)) = Some f"
    "ip_owned s' = (\<lambda>c. if c \<in> set fs then None else ip_owned s2 c)" "ip_tail_block s' = ip_tail_block s2"
    "\<forall>c. c \<notin> blocks_from s2 (unat (index + 1)) (unat tail) \<longrightarrow> ip_blocks s' c = ip_blocks s2 c"
    using destroy_from_block [OF ok2, of b] nb less nxt by (fastforce simp: s2 from2)
  have "destroy_elements tail index None s = Some (map ((!) xs) [unat index..<unat tail], fs, Some f, s')"
    using b r(1) less by (subst destroy_elements.simps) (auto simp: s2_def give_back_def nxt upt_conv_Cons)
  moreover have "set (fs @ [f]) = blocks_from s (unat index) (unat tail)"
    unfolding r(3) from2 nxt blocks_from_step [OF less b(1)] ..
  moreover have "ip_entries s (block_base (tail - 1)) = Some f"
  proof (cases "index + 1 = tail")
    case True
    then have "tail - 1 = index" by auto
    then show ?thesis using r(4) True b(1) by simp
  qed (use r(4) s2 in simp)
  moreover have "ip_blocks s' c = ip_blocks s c" if "c \<notin> blocks_from s (unat index) (unat tail)" for c
    using that r(7) unfolding from2 nxt blocks_from_step [OF less b(1)] by (simp add: s2_def set_block_def)
  ultimately show ?thesis using r(2,6) r(5) [unfolded s2(3)] s2(2) by (intro exI [of _ fs] exI [of _ f] exI [of _ s']) simp
qed

lemma dom_singleton_removed: "dom m = {a} \<Longrightarrow> m(a := None) = Map.empty"
  by (auto simp: fun_eq_iff)

lemma dtor_quiet:
  assumes inv: "ip_inv s {#}" and own: "own_inv s {#}"
  shows "\<exists>freed s'. ImplicitProducer_dtor s = Some (drop (length (ip_taken s)) (ip_enqueued s), freed, s')
    \<and> distinct freed \<and> set freed = dom (ip_owned s) \<and> ip_owned s' = Map.empty
    \<and> (\<forall>c. ip_owned s c = None \<longrightarrow> ip_blocks s' c = ip_blocks s c)"
proof -
  have x: "index_inv s {#}" and head: "unat (ip_head_index s) \<le> unat (ip_tail_index s)" using inv ip_inv_head by (auto simp: ip_inv_def)
  let ?h = "ip_head_index s" and ?t = "ip_tail_index s"
  note ok = quiet_values [OF inv] and dom = quiet_owned [OF inv own]
  have left: "map ((!) (ip_enqueued s)) [unat ?h..<unat ?t] = drop (length (ip_taken s)) (ip_enqueued s)"
    using quiet_counts(2) [OF inv] index_invD(5) [OF x] by (intro nth_equalityI) simp_all
  show ?thesis
  proof (cases "?h = ?t")
    case True
    then have "destroy_elements ?t ?h None s = Some ([], [], None, s)" by (simp add: destroy_elements.simps)
    moreover have "drop (length (ip_taken s)) (ip_enqueued s) = []" using left True by simp
    moreover have "dom (ip_owned s) = tail_room s" using dom True by (auto simp: blocks_from_def)
    ultimately show ?thesis
      by (cases "ip_tail_block s") (auto simp: ImplicitProducer_dtor_def tail_room_def give_back_def True dom_singleton_removed split: if_splits)
  next
    case False
    then have less: "unat ?h < unat ?t" using head by (auto simp: word_unat_eq_iff)
    from destroy_from_head [OF ok less] obtain fs f s' where r: "destroy_elements ?t ?h None s = Some (map ((!) (ip_enqueued s)) [unat ?h..<unat ?t], fs, Some f, s')"
      "distinct (fs @ [f])" "set (fs @ [f]) = blocks_from s (unat ?h) (unat ?t)" "ip_entries s (block_base (?t - 1)) = Some f"
      "ip_owned s' = (\<lambda>c. if c \<in> set fs then None else ip_owned s c)" "ip_tail_block s' = ip_tail_block s"
      "\<forall>c. c \<notin> blocks_from s (unat ?h) (unat ?t) \<longrightarrow> ip_blocks s' c = ip_blocks s c" by blast
    have "unat (?t - 1) = unat ?t - 1" using less by (simp add: unat_sub word_le_nat_alt)
    then have "block_done (ip_completed s) (?t - 1) < 32" using less quiet_completed [OF x] by (intro block_done_less) auto
    moreover have "?t \<noteq> 0" using less by auto
    ultimately have last: "ip_tail_block s = Some f" using own_invD(3) [OF own] r(4) by simp
    have owned: "dom (ip_owned s) = set (fs @ [f])" using dom r(3) False by (simp add: tail_room_def)
    then have "ip_owned (give_back (Some f) s') = Map.empty" unfolding give_back_def r(5) by (auto simp: fun_eq_iff)
    moreover have "ip_blocks (give_back (Some f) s') c = ip_blocks s c" if "ip_owned s c = None" for c
    proof -
      have "c \<notin> blocks_from s (unat ?h) (unat ?t)" using that owned unfolding r(3) by blast
      then show ?thesis using r(7) by (simp add: give_back_def)
    qed
    ultimately show ?thesis using r(1,2,6) last left owned False by (simp add: ImplicitProducer_dtor_def)
  qed
qed

end
