(* ===== verification/Queue_End.thy ===== *)
theory Queue_End
  imports Producer_End Concurrent_Queue
begin

text \<open>
  The end of a \<open>ConcurrentQueue\<close> (\<open>moody_camel_queue/concurrentqueue.h\<close>, \<open>~ConcurrentQueue\<close>): its
  sub-queues are destroyed in the order of their list. What is freed after that, the tables of
  producers, the free list and the block pool, is memory only.
\<close>

section \<open>The destructor\<close>

text \<open>The values destroyed and the blocks given back, in order.\<close>

fun destroy_producers :: "nat list \<Rightarrow> 'v iprod list \<Rightarrow> ('v list \<times> nat list \<times> 'v iprod list) option" where
  "destroy_producers [] ps = Some ([], [], ps)"
| "destroy_producers (p # rest) ps =
     (case ImplicitProducer_dtor (ps ! p) of
        None \<Rightarrow> None
      | Some (vs, freed, s) \<Rightarrow>
          map_option (\<lambda>(vs', freed', ps'). (vs @ vs', freed @ freed', ps')) (destroy_producers rest (set_producer p s ps)))"

definition ConcurrentQueue_dtor :: "'v iprod list \<Rightarrow> ('v list \<times> nat list \<times> 'v iprod list) option" where
  "ConcurrentQueue_dtor ps = destroy_producers (producer_list ps) ps"

inductive cq_reach :: "nat \<Rightarrow> 'v iprod list \<Rightarrow> 'v cq_act multiset \<Rightarrow> bool" where
  start: "cq_reach 0 [] {#}"
| step: "cq_reach n ps A \<Longrightarrow> cq_step (ps, A) (ps', A') \<Longrightarrow> cq_reach (Suc n) ps' A'"

section \<open>Blocks of the sub-queues\<close>

lemma own_inv_blocks [simp]: "own_inv (s\<lparr>ip_blocks := bs\<rparr>) A = own_inv s A"
  by (simp add: own_inv_def)

definition cq_own :: "'v iprod list \<Rightarrow> 'v cq_act multiset \<Rightarrow> bool" where
  "cq_own ps A \<longleftrightarrow> (\<forall>p < length ps. own_inv (ps ! p) (sub_acts A p))"

text \<open>A step of the queue is a step of one sub-queue, or changes no sub-queue.\<close>

lemma cq_advance_sub:
  assumes "cq_advance blk a ps = Some (ps', nxt, r)"
  shows "(\<exists>p x blk' s y. (blk' = None \<or> blk' = blk) \<and> (\<forall>q. in_producer q a = (if q = p then {#x#} else {#}))
        \<and> ip_advance blk' x (ps ! p) = Some (s, y) \<and> ps' = set_producer p s ps
        \<and> (\<forall>q. sub_acts (opt_mset nxt) q = (if q = p then opt_mset y else {#})))
    \<or> ps' = ps \<and> (\<forall>q. in_producer q a = {#} \<and> (sub_acts (opt_mset nxt) q = {#} \<or> sub_acts (opt_mset nxt) q = {#Deq_Tail#}))"
proof (cases a)
  case (Enqueue p x)
  then obtain s y where s: "ip_advance blk x (ps ! p) = Some (s, y)" "ps' = set_producer p s ps" "nxt = map_option (Enqueue p) y"
    using assms by (auto split: option.splits)
  have "\<forall>q. sub_acts (opt_mset nxt) q = (if q = p then opt_mset y else {#})" using s(3) by (cases y) auto
  then show ?thesis using Enqueue s by auto
next
  case (Best p x)
  then obtain s y where s: "ip_advance None x (ps ! p) = Some (s, y)" "ps' = set_producer p s ps"
    "nxt = (case y of Some a' \<Rightarrow> Some (Best p a') | None \<Rightarrow> if ip_returns x then None else Some (Rest_Start p))"
    using assms by (auto split: option.splits)
  have "\<forall>q. sub_acts (opt_mset nxt) q = (if q = p then opt_mset y else {#})" using s(3) by (cases y) auto
  then show ?thesis using Best s by auto
next
  case (Rest_Dequeue p x rest best)
  then obtain s y where s: "ip_advance None x (ps ! p) = Some (s, y)" "ps' = set_producer p s ps"
    "nxt = (case y of Some a' \<Rightarrow> Some (Rest_Dequeue p a' rest best) | None \<Rightarrow> if ip_returns x then None else Some (Rest rest best))"
    using assms by (auto split: option.splits)
  have "\<forall>q. sub_acts (opt_mset nxt) q = (if q = p then opt_mset y else {#})" using s(3) by (cases y) auto
  then show ?thesis using Rest_Dequeue s by auto
qed (use assms in \<open>auto simp: Let_def split: if_splits option.splits list.splits\<close>)

lemma cq_own_step:
  assumes step: "cq_step (ps, A) (ps', A')" and inv: "cq_inv n ps A" and n: "n < 2 ^ 62" and own: "cq_own ps A"
  shows "cq_own ps' A'"
  using step
proof (cases rule: cq_step.cases)
  case (enqueue p v)
  then show ?thesis using own by (auto simp: cq_own_def intro!: own_inv_begin)
next
  case dequeue
  then show ?thesis using own unfolding cq_own_def by simp
next
  case (add_producer blocks)
  have "in_producer (length ps) a = {#}" if "a \<in># A" for a
    using cq_invD(6) [OF inv that] by (cases a) auto
  then have "sub_acts A (length ps) = {#}" unfolding sub_acts_def by (induction A) auto
  moreover have "own_inv (ImplicitProducer_new blocks) {#}" by (simp add: own_inv_def ImplicitProducer_new_def)
  ultimately show ?thesis using own add_producer by (auto simp: cq_own_def nth_append less_Suc_eq)
next
  case (advance blk a nxt r B)
  have inv': "cq_inv n ps (add_mset a B)" and own': "cq_own ps (add_mset a B)" using inv own advance by simp_all
  from cq_advance_sub [OF advance(4)] consider
    (sub) p x blk' s y where "blk' = None \<or> blk' = blk" "\<forall>q. in_producer q a = (if q = p then {#x#} else {#})"
      "ip_advance blk' x (ps ! p) = Some (s, y)" "ps' = set_producer p s ps"
      "\<forall>q. sub_acts (opt_mset nxt) q = (if q = p then opt_mset y else {#})"
    | (same) "ps' = ps" "\<forall>q. in_producer q a = {#} \<and> (sub_acts (opt_mset nxt) q = {#} \<or> sub_acts (opt_mset nxt) q = {#Deq_Tail#})"
    by blast
  then show ?thesis
  proof cases
    case (sub p x blk' s y)
    note blk' = sub(1) and a = sub(2) and s = sub(3,4) and nxt = sub(5)
    have "own_inv s (opt_mset y + sub_acts B p)" if p: "p < length ps"
    proof (rule own_inv_step [OF _ _ _ _ s(1)])
      show "ip_inv (ps ! p) (add_mset x (sub_acts B p))" using cq_invD(1) [OF inv' p] a by simp
      show "own_inv (ps ! p) (add_mset x (sub_acts B p))" using own' p a by (auto simp: cq_own_def)
      show "unat (ip_tail_index (ps ! p)) < 2 ^ 63" using cq_invD(3) [OF inv' p] n by simp
      show "case blk' of Some b \<Rightarrow> ip_owned (ps ! p) b = None | None \<Rightarrow> True"
        using blk' advance(3) p by (auto split: option.splits)
    qed
    then show ?thesis using own' a nxt s(2) advance(2) by (auto simp: cq_own_def nth_set_producer)
  next
    case same
    have "own_inv (ps ! q) (sub_acts (opt_mset nxt) q + sub_acts B q)" if "q < length ps" for q
    proof -
      have "own_inv (ps ! q) (sub_acts B q)" using own' same(2) that by (simp add: cq_own_def)
      moreover from this have "own_inv (ps ! q) (add_mset Deq_Tail (sub_acts B q))" by (rule own_inv_begin) simp
      moreover have "sub_acts (opt_mset nxt) q = {#} \<or> sub_acts (opt_mset nxt) q = {#Deq_Tail#}" using same(2) by blast
      ultimately show ?thesis by (elim disjE) simp_all
    qed
    then show ?thesis using same(1) advance(2) by (simp add: cq_own_def)
  qed
qed

lemma cq_reach_inv: "cq_reach n ps A \<Longrightarrow> n < 2 ^ 62 \<Longrightarrow> cq_inv n ps A \<and> cq_own ps A"
proof (induction rule: cq_reach.induct)
  case start
  then show ?case by (simp add: cq_inv_def cq_own_def same_blocks_def)
next
  case (step n ps A ps' A')
  then show ?case using cq_inv_step [OF step.hyps(2), of n] cq_own_step [OF step.hyps(2), of n] by simp
qed

section \<open>All sub-queues\<close>

text \<open>Changes to blocks that a sub-queue does not own do not concern it.\<close>

lemma ip_inv_others:
  assumes "finite F" "ip_inv s A" "\<And>b. b \<in> F \<Longrightarrow> ip_owned s b = None" "\<And>b. b \<notin> F \<Longrightarrow> bs b = ip_blocks s b"
  shows "ip_inv (s\<lparr>ip_blocks := bs\<rparr>) A"
  using assms
proof (induction F arbitrary: s rule: finite_induct)
  case empty
  then have "bs = ip_blocks s" by auto
  then show ?case using empty by simp
next
  case (insert b F)
  let ?s = "s\<lparr>ip_blocks := (ip_blocks s)(b := bs b)\<rparr>"
  have "ip_inv (?s\<lparr>ip_blocks := bs\<rparr>) A"
    by (rule insert.IH) (use ip_inv_other [OF insert.prems(1), of b "bs b"] insert.prems(2,3) in auto)
  then show ?case by simp
qed

definition remaining :: "'v iprod \<Rightarrow> 'v list" where
  "remaining s = drop (length (ip_taken s)) (ip_enqueued s)"

lemma destroy_producers_ok:
  assumes "distinct rest" "set rest \<subseteq> {..<length ps}" "same_blocks ps"
    and "\<And>p. p \<in> set rest \<Longrightarrow> ip_inv (ps ! p) {#} \<and> own_inv (ps ! p) {#}"
    and "\<And>p q b. p \<in> set rest \<Longrightarrow> q \<in> set rest \<Longrightarrow> p \<noteq> q \<Longrightarrow> ip_owned (ps ! p) b \<noteq> None \<Longrightarrow> ip_owned (ps ! q) b = None"
  shows "\<exists>freed ps'. destroy_producers rest ps = Some (concat (map (\<lambda>p. remaining (ps ! p)) rest), freed, ps')
    \<and> distinct freed \<and> set freed = (\<Union>p \<in> set rest. dom (ip_owned (ps ! p)))"
  using assms
proof (induction rest arbitrary: ps)
  case (Cons p rest)
  have p: "p < length ps" "p \<notin> set rest" "ip_inv (ps ! p) {#}" "own_inv (ps ! p) {#}" using Cons.prems by auto
  from dtor_quiet [OF p(3,4)] obtain freed s where d: "ImplicitProducer_dtor (ps ! p) = Some (remaining (ps ! p), freed, s)"
    "distinct freed" "set freed = dom (ip_owned (ps ! p))" "\<forall>c. ip_owned (ps ! p) c = None \<longrightarrow> ip_blocks s c = ip_blocks (ps ! p) c"
    unfolding remaining_def by blast
  let ?ps = "set_producer p s ps"
  have nth: "?ps ! q = (ps ! q)\<lparr>ip_blocks := ip_blocks s\<rparr>" "q < length ps" "q \<noteq> p" if "q \<in> set rest" for q
    using that p(2) Cons.prems(2) by (auto simp: nth_set_producer)
  have inv: "ip_inv (?ps ! q) {#} \<and> own_inv (?ps ! q) {#}" if q: "q \<in> set rest" for q
  proof -
    have "ip_blocks (ps ! q) = ip_blocks (ps ! p)" using Cons.prems(3) nth(2) [OF q] p(1) by (simp add: same_blocks_def)
    moreover have "ip_owned (ps ! q) b = None" if "b \<in> dom (ip_owned (ps ! p))" for b
      using Cons.prems(5) [of p q b] q nth(3) [OF q] that by auto
    moreover have "finite (dom (ip_owned (ps ! p)))" using d(3) by (metis finite_set)
    ultimately have "ip_inv ((ps ! q)\<lparr>ip_blocks := ip_blocks s\<rparr>) {#}"
      using Cons.prems(4) [of q] q d(4) by (intro ip_inv_others [of "dom (ip_owned (ps ! p))"]) auto
    then show ?thesis using Cons.prems(4) [of q] q nth(1) [OF q] by simp
  qed
  have left: "map (\<lambda>q. remaining (?ps ! q)) rest = map (\<lambda>q. remaining (ps ! q)) rest" using nth(1) by (simp add: remaining_def)
  have owned: "ip_owned (?ps ! q) = ip_owned (ps ! q)" if "q \<in> set rest" for q using nth(1) [OF that] by simp
  have "\<exists>freed' ps'. destroy_producers rest ?ps = Some (concat (map (\<lambda>q. remaining (?ps ! q)) rest), freed', ps')
    \<and> distinct freed' \<and> set freed' = (\<Union>q \<in> set rest. dom (ip_owned (?ps ! q)))"
  proof (rule Cons.IH)
    show "ip_owned (?ps ! r) b = None" if "q \<in> set rest" "r \<in> set rest" "q \<noteq> r" "ip_owned (?ps ! q) b \<noteq> None" for q r b
      using Cons.prems(5) [of q r b] that owned by simp
  qed (use Cons.prems(1,2) same_blocks_set_producer inv in simp_all)
  then obtain freed' ps' where r: "destroy_producers rest ?ps = Some (concat (map (\<lambda>q. remaining (ps ! q)) rest), freed', ps')"
    "distinct freed'" "set freed' = (\<Union>q \<in> set rest. dom (ip_owned (ps ! q)))"
    using left owned by auto
  have "set freed \<inter> set freed' = {}"
  proof (rule ccontr)
    assume "set freed \<inter> set freed' \<noteq> {}"
    then obtain b q where "ip_owned (ps ! p) b \<noteq> None" "q \<in> set rest" "ip_owned (ps ! q) b \<noteq> None" unfolding d(3) r(3) by blast
    moreover from this have "p \<noteq> q" using p(2) by auto
    ultimately show False using Cons.prems(5) [of p q b] by simp
  qed
  then show ?case using d(1-3) r by simp
qed simp

text \<open>C32: The destructor of a queue with no call in progress ends, destroys each value that nobody has
  dequeued, once, sub-queue by sub-queue and in the order of their positions, and gives back
  each block that a sub-queue owns, once: nothing leaks and nothing is freed twice.\<close>

theorem queue_destructor_drains:
  assumes "cq_reach n ps {#}" "n < 2 ^ 62"
  shows "\<exists>freed ps'. ConcurrentQueue_dtor ps
      = Some (concat (map (\<lambda>p. drop (length (ip_taken (ps ! p))) (ip_enqueued (ps ! p))) (producer_list ps)), freed, ps')
    \<and> distinct freed \<and> set freed = (\<Union>s \<in> set ps. dom (ip_owned s))"
proof -
  have inv: "cq_inv n ps {#}" and own: "cq_own ps {#}" using cq_reach_inv [OF assms] by simp_all
  have "(\<Union>p \<in> set (producer_list ps). dom (ip_owned (ps ! p))) = (\<Union>s \<in> set ps. dom (ip_owned s))"
  proof -
    have "set ps = (!) ps ` {..<length ps}" by (auto simp: set_conv_nth)
    then show ?thesis by (simp add: set_producer_list)
  qed
  moreover have "distinct (producer_list ps)" by (simp add: producer_list_def)
  moreover have "\<exists>freed ps'. destroy_producers (producer_list ps) ps = Some (concat (map (\<lambda>p. remaining (ps ! p)) (producer_list ps)), freed, ps')
    \<and> distinct freed \<and> set freed = (\<Union>p \<in> set (producer_list ps). dom (ip_owned (ps ! p)))"
  proof (rule destroy_producers_ok)
    show "same_blocks ps" using inv by (simp add: cq_inv_def)
    show "ip_inv (ps ! p) {#} \<and> own_inv (ps ! p) {#}" if "p \<in> set (producer_list ps)" for p
      using cq_invD(1) [OF inv, of p] own that by (simp add: set_producer_list cq_own_def)
    show "ip_owned (ps ! q) b = None"
      if "p \<in> set (producer_list ps)" "q \<in> set (producer_list ps)" "p \<noteq> q" "ip_owned (ps ! p) b \<noteq> None" for p q b
      using cq_invD(5) [OF inv, of p q b] that by (simp add: set_producer_list)
  qed (auto simp: producer_list_def)
  ultimately show ?thesis unfolding ConcurrentQueue_dtor_def remaining_def by simp
qed

theorem queue_destructor_drains_witness:
  "\<exists>(ps :: nat iprod list) freed ps'. cq_reach 5 ps {#} \<and> ConcurrentQueue_dtor ps = Some ([42], freed, ps') \<and> set freed = {7}"
proof -
  obtain s1 s2 s3 :: "nat iprod" where s: "ip_advance (Some 7) (Enq_Start 42) empty_producer = Some (s1, Some (Enq_Write 42))"
    "ip_advance None (Enq_Write 42) s1 = Some (s2, Some (Enq_Publish 42))" "ip_advance None (Enq_Publish 42) s2 = Some (s3, None)"
    "ip_enqueued s3 = [42]" "ip_taken s3 = []" "dom (ip_owned s3) = {7}" using one_enqueue_steps [of 42] by blast
  have step: "cq_reach (Suc n) [t'] (opt_mset (map_option (Enqueue 0) nxt))"
    if "cq_reach n [t] {#Enqueue 0 a#}" "ip_advance blk a t = Some (t', nxt)" "\<And>b. blk = Some b \<Longrightarrow> ip_owned t b = None"
    for n a blk nxt and t t' :: "nat iprod"
  proof -
    have "cq_advance blk (Enqueue 0 a) [t] = Some ([t'], map_option (Enqueue 0) nxt, nxt = None \<and> ip_returns a)"
      using that(2) by (simp add: set_producer_def)
    then have "cq_step ([t], add_mset (Enqueue 0 a) {#}) ([t'], opt_mset (map_option (Enqueue 0) nxt) + {#})"
      using that(3) by (intro cq_step.advance) auto
    then show ?thesis using cq_reach.step [OF that(1)] by simp
  qed
  have "cq_step ([], {#}) ([] @ [empty_producer :: nat iprod], {#})" unfolding empty_producer_def by (rule cq_step.add_producer) simp
  from cq_reach.step [OF cq_reach.start this] have made: "cq_reach 1 [empty_producer :: nat iprod] {#}" by simp
  have "cq_step ([empty_producer :: nat iprod], {#}) ([empty_producer], {#Enqueue 0 (Enq_Start 42)#})" by (rule cq_step.enqueue) simp_all
  from cq_reach.step [OF made this] have "cq_reach 2 [empty_producer :: nat iprod] {#Enqueue 0 (Enq_Start 42)#}" by (simp add: numeral_2_eq_2)
  from step [OF this s(1)] have "cq_reach 3 [s1] {#Enqueue 0 (Enq_Write 42)#}"
    by (simp add: empty_producer_def ImplicitProducer_new_def eval_nat_numeral)
  from step [OF this s(2)] have "cq_reach 4 [s2] {#Enqueue 0 (Enq_Publish 42)#}" by (simp add: eval_nat_numeral)
  from step [OF this s(3)] have reach: "cq_reach 5 [s3] {#}" by (simp add: eval_nat_numeral)
  have "(5 :: nat) < 2 ^ 62" by simp
  from queue_destructor_drains [OF reach this] obtain freed ps' where "ConcurrentQueue_dtor [s3] = Some ([42], freed, ps')" "set freed = {7}"
    using s(4-6) by (auto simp: producer_list_def)
  then show ?thesis using reach by blast
qed

end
