(* ===== verification/Spec2Isabelle.thy ===== *)
theory Spec2Isabelle
  imports Exa_Prelude Hashing Containers Bounded_Mpsc Util Actor Actor_Delivery Actor_Concurrent Actor_Progress Messages Periodic
  Broker Broker_Inv Broker_Props Bytes Actor_Ref Codec_Model Handler_Registry Registry
  Registry_Props Registry_Remote Worker_Pool Thread_Pools Weak_Priority Buffers Light_Semaphore
  Actor_System Runtime Receiving Env_Logging Node_Pool Chunk_Stack Mpsc_Queue Thread_Hooks Mpsc_Wait
  Implicit_Producer Concurrent_Queue Blocking_Queue
  Free_List Block_Pool Block_Index Call_Typing Producer_Table Exit_Notifier Queue_End
begin

text \<open>
  A verification library for ex-actor, an actor framework in C++ (headers under
  \<open>src/include/ex_actor/internal\<close>, sources under \<open>src/src/ex_actor/internal\<close>).

  \<^bold>\<open>The program.\<close> A process owns one \<open>ActorRegistry\<close>, which is a front for a backend, itself an
  actor. The backend creates and destroys actors, finds them by name, and serves the requests of
  other nodes. An actor has mailboxes; a call puts a message into one, and an activation,
  scheduled on a thread pool, takes messages out and executes them. A broker, an actor too,
  keeps the membership of the cluster by gossip and heartbeats and carries requests and replies
  over ZeroMQ sockets. Handles (\<open>ActorRef\<close>) name an actor and can be sent to other nodes.

  \<^bold>\<open>The theories.\<close> Each names its source files in its own introduction.
    \<^item> \<open>Exa_Prelude\<close>: words, byte strings, the exceptions the code raises, state-and-exception
      functions (\<open>eff\<close>) with their rules, lemmas on maps and words.
    \<^item> \<open>Hashing\<close> (\<open>reflect.h\<close>), \<open>Containers\<close>, \<open>Bounded_Mpsc\<close> (\<open>container.h\<close>), \<open>Util\<close> (\<open>util.h\<close>):
      FNV-1a, the fixed buffer and the queues as calls that run alone, the bounded mailbox queue
      with concurrent producers, the asynchronous semaphore, the preallocated slot. The locale
      \<open>mailbox_queue\<close> is the contract of a mailbox, which the three queue types interpret.
    \<^item> \<open>Actor\<close>, \<open>Actor_Delivery\<close>, \<open>Actor_Concurrent\<close>, \<open>Actor_Progress\<close> (\<open>actor.h\<close>,
      \<open>actor_config.h\<close>): the operations of an actor as functions; a whole run of submissions and
      activations; the same operations cut at their atomic accesses and interleaved without
      restriction; and that every such run ends when nothing more is called.
    \<^item> \<open>Chunk_Stack\<close>, \<open>Node_Pool\<close>, \<open>Mpsc_Queue\<close>, \<open>Thread_Hooks\<close>, \<open>Mpsc_Wait\<close>
      (\<open>3rd_lib/daking/MPSC_queue.h\<close>): the lock-free queue behind an unbounded mailbox. The locale \<open>node_supply\<close> is what the queue needs of the pool;
      the pool provides it, and so does \<open>Thread_Hooks\<close>, the pool with the registration of threads
      and their ends. \<open>Mpsc_Wait\<close> is the consumer that blocks.
    \<^item> \<open>Worker_Pool\<close>, \<open>Thread_Pools\<close>, \<open>Weak_Priority\<close> (\<open>scheduler/\<close>): workers, the locale
      \<open>operation_store\<close> for what a pool's store promises, and the pools that interpret it.
      \<open>Light_Semaphore\<close> (\<open>moody_camel_queue/lightweightsemaphore.h\<close>) is what workers block on.
    \<^item> \<open>Implicit_Producer\<close>, \<open>Block_Index\<close>, \<open>Free_List\<close>, \<open>Block_Pool\<close>, \<open>Producer_Table\<close>, \<open>Concurrent_Queue\<close>
      (\<open>moody_camel_queue/concurrentqueue.h\<close>), \<open>Blocking_Queue\<close> (\<open>blockingconcurrentqueue.h\<close>): the
      queue of the pools. A sub-queue has one enqueuing thread and keeps its values in blocks;
      \<open>Implicit_Producer\<close> takes the index of the blocks as a map, \<open>Block_Index\<close> shows that the
      circular array is that map. Blocks come from \<open>Block_Pool\<close>, whose free list is \<open>Free_List\<close>.
      \<open>Producer_Table\<close> shows that a sub-queue has one enqueuing thread at a time; \<open>Exit_Notifier\<close> is how the end of a thread
      reaches the sub-queues it has taken. A flag of its step relation (\<open>careful\<close>) keeps a destructor from freeing a
      sub-queue in the middle of that, which the code does not.
      \<open>Concurrent_Queue\<close> puts the sub-queues together, \<open>Blocking_Queue\<close> adds the semaphore;
      \<open>Producer_End\<close> and \<open>Queue_End\<close> are the destructors of a sub-queue and of the queue.
    \<^item> \<open>Messages\<close> (\<open>message.h\<close>), \<open>Periodic\<close>, \<open>Broker\<close>, \<open>Broker_Inv\<close>, \<open>Broker_Props\<close>, \<open>Receiving\<close>
      (\<open>network.h\<close>, \<open>network.cc\<close>): the periodic task thread, the broker's methods, its invariant,
      its properties over reachable states, and the thread that reads the socket. A method that
      suspends at a \<open>co_await\<close> is two functions, \<open>_start\<close> and \<open>_resume\<close>.
    \<^item> \<open>Actor_Ref\<close> (\<open>basic_actor_ref.h\<close>, \<open>actor_ref.h\<close>), \<open>Handler_Registry\<close>
      (\<open>remote_handler_registry.h\<close>), \<open>Registry\<close>, \<open>Registry_Props\<close> (\<open>actor_registry.h\<close>,
      \<open>actor_registry.cc\<close>), \<open>Registry_Remote\<close>: handles, the table of remotely callable functions,
      the backend, and a call from one node to another through all of them. \<open>Call_Typing\<close> shows
      that such a call runs on an object of the class it was registered with.
    \<^item> \<open>Actor_System\<close> (the front and \<open>SpawnBuilder\<close>), \<open>Runtime\<close> (\<open>global_registry.cc\<close>): starting and
      joining a cluster, initialisation, shutdown, signals.
    \<^item> \<open>Bytes\<close>, \<open>Buffers\<close> (\<open>serialization.h\<close>), \<open>Codec_Model\<close>, \<open>Env_Logging\<close> (\<open>constants.h\<close>,
      \<open>logging.h\<close>, \<open>logging.cc\<close>).

  \<^bold>\<open>How the code appears.\<close> A class is a record of its fields, a method a function with the method's
  name. An exception is \<open>Inl\<close> of an \<open>exa_error\<close>; undefined behaviour, or a call that would
  not return, is \<open>None\<close>. \<open>uint64_t\<close> and the like are words, so that wrap-around is there;
  pointers are numbers. An operation that runs on several threads is a datatype of the places
  between its atomic accesses with a function that takes one step (\<open>act_advance\<close>, \<open>sem_advance\<close>, \<open>ring_advance\<close>,
  \<open>ls_advance\<close>, \<open>ip_advance\<close>, \<open>bx_advance\<close>, \<open>fl_advance\<close>, \<open>bp_advance\<close>, \<open>pt_advance\<close>, \<open>en_advance\<close>,
  \<open>cq_advance\<close>, \<open>bq_advance\<close>), or an inductive step relation (\<open>pool_step\<close>, \<open>cs_step\<close>, \<open>mq_step\<close>, \<open>hk_step\<close>,
  \<open>wt_step\<close>); the memory is sequentially consistent. A call of another component
  (a push into a mailbox, the requisition of a block) is one step in the theories that use it;
  the theory of that component takes it apart.

  \<^bold>\<open>What is shown.\<close> Delivery: every accepted message is executed once, in the order of its
  mailbox, one at a time; an actor with messages never sleeps, and one that is left alone
  comes to rest (\<open>Actor_Concurrent\<close>, \<open>Actor_Progress\<close>, \<open>Actor_Delivery\<close>). The unbounded and the
  bounded mailbox queue keep order and lose nothing in any interleaving of their producers
  (\<open>Mpsc_Queue\<close>, \<open>Bounded_Mpsc\<close>); the one-slot queue has no synchronisation, and the
  priority queue works under its mutex, so both are treated as calls one after the other
  (\<open>Containers\<close>). Scheduling: each pool executes each operation once, where and in
  the order its policy says; the queue it rests on is a bag whose semaphore counts its values.
  Cluster: membership, connections, requests and deferred replies agree in every state
  that is reached before the process ends (a \<open>connect\<close> that throws ends it); gossip merges,
  silent nodes are dropped, waits end. Registry: its maps agree, names are unique and found,
  a request that decodes is answered or its call queued, a remote call reaches the method
  and the actor it was made for. Errors: what a refused call leaves behind, and what
  terminates the process.

  \<^bold>\<open>Bounds and fuel.\<close> The ring buffer is exact up to \<open>2 ^ 61\<close> calls and the broker's counters up
  to \<open>2 ^ 64 - 1\<close> events; a sub-queue up to \<open>2 ^ 63\<close> steps, its block index up to \<open>2 ^ 58\<close>
  of them, the blocking queue up to \<open>2 ^ 61\<close>, the free list with up to \<open>2 ^ 29\<close> calls in progress at
  a time: hypotheses of the theorems concerned or of the step relation, set by
  the width of the counters. The loops that may not end are \<open>partial_function (option)\<close> (\<open>pop_or_reserve\<close>,
  \<open>mpsc_destroy\<close>) and are shown to return, or are relations (\<open>due_steps\<close>). A thread that runs alone
  has fuel: 11 steps for a dequeue of a sub-queue (\<open>ImplicitProducer_dequeue\<close>), \<open>2 * n + 13\<close> for
  one of \<open>n\<close> sub-queues (\<open>ConcurrentQueue_try_dequeue\<close>), which are shown to be enough.

  \<^bold>\<open>Parameters.\<close> The byte encoding of messages (reflect-cpp over Cap'n Proto), ZeroMQ, user code,
  the clock, random numbers and, for \<open>serialization.h\<close>, the host's byte order and the addresses at
  which it allows an access are arguments. What is assumed of an encoding is that decoding
  undoes encoding (\<open>codec_ok\<close>, \<open>ref_codec_ok\<close>); \<open>Codec_Model\<close> has one that satisfies it. What is
  assumed of ZeroMQ is that a connected socket without a limit takes every message
  (\<open>net_ok\<close>); whether an address connects is open.

  \<^bold>\<open>Not modelled.\<close> The work-stealing pool (an alias of a class of stdexec, which is not in the
  repository); thread affinity and names beyond what is passed to the system (\<open>platform.cc\<close>);
  writing log lines (spdlog); template metaprogramming without run-time behaviour; relaxed
  memory orders (and with them data races that only a weaker memory shows); of \<open>concurrentqueue.h\<close> the explicit producers, tokens and bulk operations, which
  the library does not use; the vendored copies of
  abseil and of the ZeroMQ binding, which are used as a vector and as the system's sockets.
\<close>

end
